(* ===== verification/NexKV_Prelude.thy ===== *)
theory NexKV_Prelude
  imports Main "HOL-Library.Word" "HOL-Library.List_Lexorder"
begin

text \<open>
  Shared vocabulary of the development: the machine integers and byte slices of the Go
  sources, the outcome of a fallible call, the encoders of \<open>encoding/binary\<close> and the slice
  expressions of the language, with the lemmas every component rests on.

  A slice that the code compares with \<open>nil\<close> is a \<open>gslice\<close> (\<open>None\<close> is \<open>nil\<close>); any other
  slice is a list of bytes. Keys are compared by Go byte by byte, which is the order that
  \<open>List_Lexorder\<close> puts on lists of words.
\<close>

unbundle bit_operations_syntax

type_synonym byte = "8 word"
type_synonym u16 = "16 word"
type_synonym u32 = "32 word"
type_synonym u64 = "64 word"
type_synonym bytes = "byte list"
type_synonym gslice = "byte list option"

named_theorems codec_simps \<open>equations and round trips of the byte-level encoders\<close>
named_theorems outcome_simps \<open>unfolding of fallible calls\<close>

section \<open>Errors and outcomes\<close>

text \<open>
  The sentinel errors of \<open>pkg/errors\<close> that the modelled code returns. \<open>errpkg.Wrap\<close> keeps
  the identity of the error it wraps and only adds text, so a wrapped sentinel is the
  sentinel here.
\<close>

datatype err =
    ErrKeyNotFound
  | ErrValueTooShort
  | ErrInvalidFlag
  | ErrZeroTimestamp
  | ErrLockTimeout
  | ErrTxCommitted
  | ErrTxRolledBack
  | ErrMVCCGetError
  | ErrMVCCPutError
  | ErrMVCCDeleteError
  | ErrMVCCPanicRecovered
  | ErrMVCCTxPrepareCorrupted
  | ErrWALClosed
  | ErrWALEntryCorrupted
  | ErrWALChecksumMismatch
  | ErrWALTruncatedEntry
  | ErrWALInvalidConfig
  | ErrContextDone
  | ErrIO
  | ErrClockMarshalNil
  | ErrClockInvalidSize
  | ErrOffHeapPageFull
  | ErrOffHeapOutOfMemory
  | ErrOffHeapInvalidPageID
  | ErrOffHeapIndexOutOfRange
  | ErrOffHeapInvalidRange
  | ErrOffHeapConstraintViolation
  | ErrOffHeapKeysNotSorted
  | ErrOffHeapChildZero
  | ErrOffHeapExtraChildZero
  | ErrOffHeapSelfLoop
  | ErrBTreeValidation
  | ErrDuplicateKey
  | ErrLeafSplitMinKeys
  | ErrBorrowSourceEmpty
  | ErrCASConflict
  | ErrRetry
  | ErrCASRetryExhausted
  | ErrBTreeSearch
  | ErrBTreePageNotLeaf
  | ErrBTreePageNotNode
  | ErrTreeClosed
  | ErrLOBFileNotFound
  | ErrLOBBadMagic
  | ErrLOBIDMismatch
  | ErrLOBDeleted
  | ErrChunkInvalidHeader
  | ErrChunkCRCMismatch
  | ErrChunkPageNotFound
  | ErrChunkClosed
  | ErrChunkNilDestination
  | ErrChunkInvalidLength
  | ErrChunkIDExhausted
  | ErrChunkHeaderError
  | ErrChunkFormatError
  | ErrChunkNotFound
  | ErrChunkPosition
  | ErrNumSyntax
  | ErrNumRange
  | ErrEOF
  | ErrCheckpointNilRoot
  | ErrTaskAlreadyRegistered
  | ErrCoreRegisterFailed
  | ErrExecutionOrderConflict
  | ErrTaskNotFound
  | ErrSchedulerNotStarted
  | ErrSchedulerAlreadyRunning
  | ErrCorePanicDetected
  | ErrCoreQueueTooLong

text \<open>A call returns a value, returns an error or panics.\<close>

datatype 'a outcome = Ok 'a | Err err | Panic

text \<open>The result of a system call: it succeeds, or fails, a write possibly after some of its bytes.\<close>

datatype io = IoOk | IoFail nat

fun bind_outcome :: "'a outcome \<Rightarrow> ('a \<Rightarrow> 'b outcome) \<Rightarrow> 'b outcome" where
  "bind_outcome (Ok x) f = f x"
| "bind_outcome (Err e) f = Err e"
| "bind_outcome Panic f = Panic"

fun is_ok :: "'a outcome \<Rightarrow> bool" where
  "is_ok (Ok x) = True"
| "is_ok (Err e) = False"
| "is_ok Panic = False"

text \<open>\<open>of_panic\<close> reads an operation that either succeeds or panics.\<close>

fun of_panic :: "'a option \<Rightarrow> 'a outcome" where
  "of_panic (Some x) = Ok x"
| "of_panic None = Panic"

lemma bind_outcome_Ok_iff [outcome_simps]:
  "bind_outcome m f = Ok y \<longleftrightarrow> (\<exists>x. m = Ok x \<and> f x = Ok y)"
  by (cases m) auto

lemma is_ok_iff: "is_ok m \<longleftrightarrow> (\<exists>x. m = Ok x)"
  by (cases m) auto

lemma bind_outcome_assoc:
  "bind_outcome (bind_outcome m f) g = bind_outcome m (\<lambda>x. bind_outcome (f x) g)"
  by (cases m) auto

section \<open>Go slices\<close>

text \<open>\<open>len\<close> and the contents of a slice that may be \<open>nil\<close>.\<close>

fun slice_bytes :: "gslice \<Rightarrow> bytes" where
  "slice_bytes None = []"
| "slice_bytes (Some b) = b"

text \<open>\<open>b[lo:hi]\<close> for \<open>hi\<close> up to the length: it panics when the bounds are crossed.\<close>

definition slice_expr :: "nat \<Rightarrow> nat \<Rightarrow> 'a list \<Rightarrow> 'a list option" where
  "slice_expr lo hi b = (if lo \<le> hi \<and> hi \<le> length b then Some (take (hi - lo) (drop lo b)) else None)"

text \<open>A fixed-width field at an offset, for the reads the code has guarded.\<close>

definition field :: "nat \<Rightarrow> nat \<Rightarrow> bytes \<Rightarrow> bytes" where
  "field off n b = take n (drop off b)"

lemma slice_expr_Some [simp]:
  "lo \<le> hi \<Longrightarrow> hi \<le> length b \<Longrightarrow> slice_expr lo hi b = Some (field lo (hi - lo) b)"
  by (simp add: slice_expr_def field_def)

lemma slice_expr_None [simp]: "hi < lo \<Longrightarrow> slice_expr lo hi b = None"
  by (simp add: slice_expr_def)

lemma length_field [simp]: "length (field off n b) = min n (length b - off)"
  by (simp add: field_def)

lemma field_append_skip [simp]:
  "length xs \<le> off \<Longrightarrow> field off n (xs @ ys) = field (off - length xs) n ys"
  by (simp add: field_def)

lemma field_append_here [simp]:
  "length xs = n \<Longrightarrow> field 0 n (xs @ ys) = xs"
  by (simp add: field_def)

lemma field_append_within:
  "off + n \<le> length xs \<Longrightarrow> field off n (xs @ ys) = field off n xs"
  by (simp add: field_def)

lemma field_all [simp]: "length xs = n \<Longrightarrow> field 0 n xs = xs"
  by (simp add: field_def)

lemma field_Cons_skip [simp]: "field (Suc off) n (x # ys) = field off n ys"
  by (simp add: field_def)

lemma field_numeral_Cons [simp]:
  "field (numeral k) n (x # ys) = field (pred_numeral k) n ys"
  by (simp add: field_def numeral_eq_Suc)

section \<open>Fixed-width integers as bytes\<close>

text \<open>
  \<open>be_put n x\<close> are the low \<open>n\<close> bytes of \<open>x\<close>, most significant first
  (\<open>binary.BigEndian.PutUint16/32/64\<close>); \<open>be_get\<close> reads them back. \<open>le_put\<close> and \<open>le_get\<close> are
  the little-endian layout that a struct field has in memory.
\<close>

primrec be_put :: "nat \<Rightarrow> nat \<Rightarrow> bytes" where
  "be_put 0 x = []"
| "be_put (Suc n) x = of_nat (x div 256 ^ n) # be_put n x"

definition be_get :: "bytes \<Rightarrow> nat" where
  "be_get b = foldl (\<lambda>a x. a * 256 + unat x) 0 b"

primrec le_put :: "nat \<Rightarrow> nat \<Rightarrow> bytes" where
  "le_put 0 x = []"
| "le_put (Suc n) x = of_nat x # le_put n (x div 256)"

primrec le_get :: "bytes \<Rightarrow> nat" where
  "le_get [] = 0"
| "le_get (x # b) = unat x + 256 * le_get b"

text \<open>Unfolding for evaluation on concrete widths.\<close>

lemma put_numeral:
  "be_put (numeral k) x = of_nat (x div 256 ^ pred_numeral k) # be_put (pred_numeral k) x"
  "be_put 1 x = [of_nat x]"
  "le_put (numeral k) x = of_nat x # le_put (pred_numeral k) (x div 256)"
  "le_put 1 x = [of_nat x]"
  unfolding numeral_eq_Suc One_nat_def be_put.simps le_put.simps by simp_all

lemma length_be_put [simp]: "length (be_put n x) = n"
  by (induction n) auto

lemma length_le_put [simp]: "length (le_put n x) = n"
  by (induction n arbitrary: x) auto

lemma be_get_foldl: "foldl (\<lambda>a x. a * 256 + unat x) c b = c * 256 ^ length b + be_get b"
proof (induction b arbitrary: c)
  case Nil
  then show ?case by (simp add: be_get_def)
next
  case (Cons x b)
  from Cons [of "c * 256 + unat x"] Cons [of "unat x"] show ?case
    by (simp add: be_get_def algebra_simps)
qed

lemma be_get_Nil [simp]: "be_get [] = 0"
  by (simp add: be_get_def)

lemma be_get_Cons [simp]: "be_get (x # b) = unat x * 256 ^ length b + be_get b"
  using be_get_foldl [of "unat x" b] by (simp add: be_get_def)

lemma be_get_lt: "be_get b < 256 ^ length b"
proof (induction b)
  case Nil
  then show ?case by simp
next
  case (Cons x b)
  have "unat x < 256"
    using unsigned_less [of x] by simp
  then have "Suc (unat x) * 256 ^ length b \<le> 256 * 256 ^ length b"
    by (intro mult_le_mono1) simp
  moreover have "unat x * 256 ^ length b + be_get b < Suc (unat x) * 256 ^ length b"
    using Cons by simp
  ultimately have "unat x * 256 ^ length b + be_get b < 256 * 256 ^ length b"
    by (rule less_le_trans [rotated])
  then show ?case
    by (simp only: be_get_Cons length_Cons power_Suc)
qed

lemma be_get_inj: "length xs = length ys \<Longrightarrow> be_get xs = be_get ys \<Longrightarrow> xs = ys"
proof (induction xs ys rule: list_induct2)
  case Nil
  then show ?case by simp
next
  case (Cons x xs y ys)
  have *: "(unat x * 256 ^ length xs + be_get xs) div 256 ^ length xs = unat x"
      "(unat x * 256 ^ length xs + be_get xs) mod 256 ^ length xs = be_get xs"
    using be_get_lt [of xs] by simp_all
  have **: "(unat y * 256 ^ length xs + be_get ys) div 256 ^ length xs = unat y"
      "(unat y * 256 ^ length xs + be_get ys) mod 256 ^ length xs = be_get ys"
    using be_get_lt [of ys] Cons.hyps by simp_all
  from Cons.prems Cons.hyps
  have "unat x * 256 ^ length xs + be_get xs = unat y * 256 ^ length xs + be_get ys"
    by simp
  with * ** Cons.IH show ?case
    by (metis word_unat_eq_iff)
qed

lemma mod_pow_Suc: "(x::nat) mod 256 ^ Suc n = (x div 256 ^ n) mod 256 * 256 ^ n + x mod 256 ^ n"
proof -
  have "x mod (256 ^ n * 256) = 256 ^ n * (x div 256 ^ n mod 256) + x mod 256 ^ n"
    by (rule mod_mult2_eq)
  then show ?thesis
    by (simp add: mult.commute)
qed

lemma be_get_put [codec_simps]: "be_get (be_put n x) = x mod 256 ^ n"
proof (induction n)
  case 0
  then show ?case by simp
next
  case (Suc n)
  then show ?case
    by (simp only: be_put.simps be_get_Cons length_be_put mod_pow_Suc) (simp add: unat_of_nat)
qed

lemma le_get_put [codec_simps]: "le_get (le_put n x) = x mod 256 ^ n"
proof (induction n arbitrary: x)
  case 0
  then show ?case by simp
next
  case (Suc n)
  have "x mod (256 * 256 ^ n) = 256 * (x div 256 mod 256 ^ n) + x mod 256"
    by (rule mod_mult2_eq)
  with Suc show ?case
    by (simp add: unat_of_nat)
qed

subsection \<open>The encoders the code calls\<close>

definition PutUint16 :: "u16 \<Rightarrow> bytes" where
  "PutUint16 w = be_put 2 (unat w)"

definition PutUint32 :: "u32 \<Rightarrow> bytes" where
  "PutUint32 w = be_put 4 (unat w)"

definition PutUint64 :: "u64 \<Rightarrow> bytes" where
  "PutUint64 w = be_put 8 (unat w)"

definition Uint16 :: "bytes \<Rightarrow> u16" where
  "Uint16 b = of_nat (be_get b)"

definition Uint32 :: "bytes \<Rightarrow> u32" where
  "Uint32 b = of_nat (be_get b)"

definition Uint64 :: "bytes \<Rightarrow> u64" where
  "Uint64 b = of_nat (be_get b)"

lemma length_PutUint [simp]:
  "length (PutUint16 a) = 2" "length (PutUint32 b) = 4" "length (PutUint64 c) = 8"
  by (simp_all add: PutUint16_def PutUint32_def PutUint64_def)

lemma unat_mod_pow [simp]:
  "unat (a :: u16) mod 65536 = unat a"
  "unat (b :: u32) mod 4294967296 = unat b"
  "unat (c :: u64) mod 18446744073709551616 = unat c"
  using unsigned_less [where 'a = nat, of a] unsigned_less [where 'a = nat, of b]
    unsigned_less [where 'a = nat, of c] by simp_all

lemma Uint_PutUint [simp, codec_simps]:
  "Uint16 (PutUint16 a) = a" "Uint32 (PutUint32 b) = b" "Uint64 (PutUint64 c) = c"
  by (simp_all add: Uint16_def PutUint16_def Uint32_def PutUint32_def Uint64_def PutUint64_def
      be_get_put)

lemma PutUint_inj [simp]:
  "PutUint16 a = PutUint16 a' \<longleftrightarrow> a = a'"
  "PutUint32 b = PutUint32 b' \<longleftrightarrow> b = b'"
  "PutUint64 c = PutUint64 c' \<longleftrightarrow> c = c'"
  by (metis Uint_PutUint(1), metis Uint_PutUint(2), metis Uint_PutUint(3))

lemma PutUint_not_Nil [simp]:
  "PutUint16 a \<noteq> []" "PutUint32 b \<noteq> []" "PutUint64 c \<noteq> []"
  by (simp_all flip: length_0_conv)

text \<open>A conversion \<open>uint16(len(b))\<close> or \<open>uint32(len(b))\<close> keeps the low bits of the length.\<close>

lemma unat_of_nat_fits [simp]:
  "n < 65536 \<Longrightarrow> unat (of_nat n :: u16) = n"
  "n < 4294967296 \<Longrightarrow> unat (of_nat n :: u32) = n"
  "n < 18446744073709551616 \<Longrightarrow> unat (of_nat n :: u64) = n"
  by (simp_all add: unat_of_nat)

lemma Uint32_inj:
  assumes "length xs = 4" "length ys = 4" "Uint32 xs = Uint32 ys"
  shows "xs = ys"
proof -
  have "be_get xs < 4294967296" "be_get ys < 4294967296"
    using be_get_lt [of xs] be_get_lt [of ys] assms by simp_all
  with assms have "be_get xs = be_get ys"
    by (metis Uint32_def unat_of_nat_fits(2))
  with assms show ?thesis
    by (simp add: be_get_inj)
qed

subsection \<open>Memory\<close>

text \<open>
  A region of memory is a list of bytes. \<open>splice off bs m\<close> overwrites the bytes at an offset
  (\<open>copy\<close> into a slice of the region, or a store through a pointer into it); \<open>field\<close> reads. A
  struct field lies in memory little-endian.
\<close>

definition splice :: "nat \<Rightarrow> bytes \<Rightarrow> bytes \<Rightarrow> bytes" where
  "splice off bs m = take off m @ bs @ drop (off + length bs) m"

definition mem_u32 :: "u32 \<Rightarrow> bytes" where
  "mem_u32 w = le_put 4 (unat w)"

definition mem_u64 :: "u64 \<Rightarrow> bytes" where
  "mem_u64 w = le_put 8 (unat w)"

definition u32_at :: "nat \<Rightarrow> bytes \<Rightarrow> u32" where
  "u32_at off m = of_nat (le_get (field off 4 m))"

definition u64_at :: "nat \<Rightarrow> bytes \<Rightarrow> u64" where
  "u64_at off m = of_nat (le_get (field off 8 m))"

lemma length_mem [simp]: "length (mem_u32 a) = 4" "length (mem_u64 b) = 8"
  by (simp_all add: mem_u32_def mem_u64_def)

lemma length_splice [simp]: "off + length bs \<le> length m \<Longrightarrow> length (splice off bs m) = length m"
  by (simp add: splice_def)

lemma field_splice_same:
  "off + length bs \<le> length m \<Longrightarrow> n = length bs \<Longrightarrow> field off n (splice off bs m) = bs"
  by (simp add: splice_def field_def)

lemma field_splice_other:
  assumes "off + length bs \<le> length m" "pos + n \<le> off \<or> off + length bs \<le> pos"
  shows "field pos n (splice off bs m) = field pos n m"
  using assms(2)
proof
  assume "pos + n \<le> off"
  then show ?thesis
    using assms(1) by (simp add: splice_def field_def take_drop min_def)
next
  assume le: "off + length bs \<le> pos"
  have "field pos n (splice off bs m) = field (pos - (off + length bs)) n (drop (off + length bs) m)"
    unfolding splice_def using le assms(1) by (simp add: field_def)
  also have "\<dots> = field pos n m"
    using le by (simp add: field_def)
  finally show ?thesis .
qed

lemma mem_at [simp]: "u32_at off m = a" if "field off 4 m = mem_u32 a"
  using that by (simp add: u32_at_def mem_u32_def le_get_put)

lemma mem_at64 [simp]: "u64_at off m = b" if "field off 8 m = mem_u64 b"
  using that by (simp add: u64_at_def mem_u64_def le_get_put)

lemma mem_splice_same [simp]:
  "off + 4 \<le> length m \<Longrightarrow> u32_at off (splice off (mem_u32 a) m) = a"
  "off + 8 \<le> length m \<Longrightarrow> u64_at off (splice off (mem_u64 b) m) = b"
  by (simp_all add: field_splice_same)

lemma mem_splice_other:
  "off + length bs \<le> length m \<Longrightarrow> pos + 4 \<le> off \<or> off + length bs \<le> pos \<Longrightarrow>
     u32_at pos (splice off bs m) = u32_at pos m"
  "off + length bs \<le> length m \<Longrightarrow> pos + 8 \<le> off \<or> off + length bs \<le> pos \<Longrightarrow>
     u64_at pos (splice off bs m) = u64_at pos m"
  by (simp_all add: u32_at_def u64_at_def field_splice_other)

section \<open>Generic facts\<close>

lemma sorted_wrt_nth_mono:
  "sorted_wrt (<) xs \<Longrightarrow> i < j \<Longrightarrow> j < length xs \<Longrightarrow> xs ! i < (xs ! j :: 'a :: linorder)"
  by (rule sorted_wrt_nth_less)

lemma map_of_eq_Some_nth:
  "distinct (map fst xs) \<Longrightarrow> i < length xs \<Longrightarrow> map_of xs (fst (xs ! i)) = Some (snd (xs ! i))"
  by (metis map_of_is_SomeI nth_mem prod.collapse)

lemma fold_map_upd_notin:
  "k \<notin> fst ` set ps \<Longrightarrow> fold (\<lambda>(a, b) m. m(a \<mapsto> b)) ps m k = m k"
  by (induction ps arbitrary: m) auto

lemma fold_map_upd_functional:
  "(\<And>b. (k, b) \<in> set ps \<Longrightarrow> b = v) \<Longrightarrow>
   fold (\<lambda>(a, b) m. m(a \<mapsto> b)) ps m k = (if k \<in> fst ` set ps then Some v else m k)"
proof (induction ps arbitrary: m)
  case Nil
  then show ?case by simp
next
  case (Cons p ps)
  obtain a b where p: "p = (a, b)" by (cases p)
  show ?case
  proof (cases "k \<in> fst ` set ps")
    case True
    with Cons show ?thesis by simp
  next
    case False
    with Cons.prems p show ?thesis
      by (simp add: fold_map_upd_notin del: fun_upd_apply) (auto simp: fun_upd_apply)
  qed
qed

lemma fold_map_upd_in:
  "distinct (map fst ps) \<Longrightarrow> (k, v) \<in> set ps \<Longrightarrow> fold (\<lambda>(a, b) m. m(a \<mapsto> b)) ps m k = Some v"
proof (induction ps arbitrary: m)
  case Nil
  then show ?case by simp
next
  case (Cons p ps)
  obtain a b where p: "p = (a, b)" by (cases p)
  show ?case
  proof (cases "(k, v) = p")
    case True
    with Cons.prems p have "k \<notin> fst ` set ps" by auto
    with True p show ?thesis by (simp add: fold_map_upd_notin del: fun_upd_apply) (rule fun_upd_same)
  next
    case False
    with Cons p show ?thesis by auto
  qed
qed

end
