(* ===== verification/MVCC_Codec.thy ===== *)
theory MVCC_Codec
  imports NexKV_Prelude
begin

text \<open>
  The value format of the transaction engine: \<open>mvcc/codec.go\<close> (flags, \<open>ParseMVCC\<close>,
  \<open>BuildMVCC\<close>) and \<open>mvcc/lob.go\<close> (the routing of large values to overflow pages or files).
  A \<open>[]byte\<close> value carries the current version and, inline, the one before it.

  The LOB managers are interfaces: here they are records of functions over a world \<open>'w\<close>, and
  the two locales state what the codec relies on; \<open>Page_Manager\<close> interprets the first one
  on the overflow-page implementation and \<open>LOB_File_Store\<close> the second on the file store.
\<close>

section \<open>Flags\<close>

definition FlagNormal :: byte where "FlagNormal = 0"
definition FlagTombstone :: byte where "FlagTombstone = 1"
definition FlagLOBNormal :: byte where "FlagLOBNormal = 2"
definition FlagLOBTombstone :: byte where "FlagLOBTombstone = 3"
definition FlagLOBFile :: byte where "FlagLOBFile = 4"
definition FlagLOBFileTombstone :: byte where "FlagLOBFileTombstone = 5"

lemmas flag_defs = FlagNormal_def FlagTombstone_def FlagLOBNormal_def FlagLOBTombstone_def
  FlagLOBFile_def FlagLOBFileTombstone_def

definition IsTombstoneFlag :: "byte \<Rightarrow> bool" where
  "IsTombstoneFlag flag \<longleftrightarrow> flag AND 1 = FlagTombstone"

definition IsLOBFlag :: "byte \<Rightarrow> bool" where
  "IsLOBFlag flag \<longleftrightarrow> flag = FlagLOBNormal \<or> flag = FlagLOBTombstone"

definition IsLOBFileFlag :: "byte \<Rightarrow> bool" where
  "IsLOBFileFlag flag \<longleftrightarrow> flag = FlagLOBFile \<or> flag = FlagLOBFileTombstone"

definition isValidFlag :: "byte \<Rightarrow> bool" where
  "isValidFlag flag \<longleftrightarrow> flag = FlagNormal \<or> flag = FlagTombstone \<or>
     flag = FlagLOBNormal \<or> flag = FlagLOBTombstone \<or>
     flag = FlagLOBFile \<or> flag = FlagLOBFileTombstone"

section \<open>Decoded values\<close>

record lob_ref =
  FirstPageID :: u32
  TotalLen :: u32

record lob_file_ref =
  LOBID :: u64
  FileLen :: u64

record mvcc_value =
  Flag :: byte
  BeginTS :: u64
  RealVal :: bytes
  PrevFlag :: byte
  PrevBeginTS :: u64
  PrevVal :: gslice
  LOB :: "lob_ref option"
  LOBFile :: "lob_file_ref option"

definition IsTombstone :: "mvcc_value \<Rightarrow> bool" where
  "IsTombstone v = IsTombstoneFlag (Flag v)"

definition MVCCHeaderSize :: nat where "MVCCHeaderSize = 12"

section \<open>ParseMVCC and BuildMVCC\<close>

text \<open>
  Positions are \<open>uint16\<close> in the source, so \<open>pos + prevValLen\<close> and \<open>pos + 8\<close> wrap; the
  comparison with \<open>len(val)\<close> is made on the wrapped value.
\<close>

definition parse_prev :: "bytes \<Rightarrow> u64 \<Rightarrow> u16 \<Rightarrow> (gslice \<times> u16) outcome" where
  "parse_prev val prevBeginTS prevValLen =
     (let pos = (12 :: u16) in
      if prevBeginTS \<noteq> 0 \<and> 0 < prevValLen then
        if length val < unat (pos + prevValLen) then Err ErrValueTooShort
        else bind_outcome (of_panic (slice_expr (unat pos) (unat (pos + prevValLen)) val))
               (\<lambda>prevVal. Ok (Some prevVal, pos + prevValLen))
      else Ok (None, pos))"

definition parse_current :: "bytes \<Rightarrow> u16 \<Rightarrow> (u64 \<times> bytes) outcome" where
  "parse_current val pos =
     (if length val < unat (pos + 8) then Err ErrValueTooShort
      else bind_outcome (of_panic (slice_expr (unat pos) (unat (pos + 8)) val))
             (\<lambda>ts. Ok (Uint64 ts, drop (unat (pos + 8)) val)))"

definition parse_lob :: "byte \<Rightarrow> bytes \<Rightarrow> lob_ref option" where
  "parse_lob flag realVal =
     (if IsLOBFlag flag \<and> 10 \<le> length realVal
      then Some \<lparr>FirstPageID = Uint32 (field 2 4 realVal), TotalLen = Uint32 (field 6 4 realVal)\<rparr>
      else None)"

definition parse_lob_file :: "byte \<Rightarrow> bytes \<Rightarrow> lob_file_ref option" where
  "parse_lob_file flag realVal =
     (if IsLOBFileFlag flag \<and> 18 \<le> length realVal
      then Some \<lparr>LOBID = Uint64 (field 2 8 realVal), FileLen = Uint64 (field 10 8 realVal)\<rparr>
      else None)"

definition ParseMVCC :: "bytes \<Rightarrow> mvcc_value outcome" where
  "ParseMVCC val =
     (if length val < MVCCHeaderSize then Err ErrValueTooShort
      else if \<not> isValidFlag (val ! 0) then Err ErrInvalidFlag
      else
        let flag = val ! 0;
            prevFlag = val ! 1;
            prevBeginTS = Uint64 (field 2 8 val);
            prevValLen = Uint16 (field 10 2 val)
        in bind_outcome (parse_prev val prevBeginTS prevValLen) (\<lambda>(prevVal, pos).
             bind_outcome (parse_current val pos) (\<lambda>(beginTS, realVal).
               Ok \<lparr>Flag = flag, BeginTS = beginTS, RealVal = realVal,
                   PrevFlag = prevFlag, PrevBeginTS = prevBeginTS, PrevVal = prevVal,
                   LOB = parse_lob flag realVal, LOBFile = parse_lob_file flag realVal\<rparr>)))"

text \<open>
  \<open>BuildMVCC\<close> writes into a buffer of \<open>12 + prevValLen + 8 + len(realVal)\<close> bytes. When
  \<open>prevVal\<close> is longer than the truncated \<open>prevValLen\<close>, \<open>copy\<close> spills into the rest of the
  buffer, which the writes of \<open>beginTS\<close> and \<open>realVal\<close> then cover completely.
\<close>

definition BuildMVCC :: "byte \<Rightarrow> u64 \<Rightarrow> bytes \<Rightarrow> byte \<Rightarrow> u64 \<Rightarrow> bytes \<Rightarrow> bytes outcome" where
  "BuildMVCC flag beginTS realVal prevFlag prevBeginTS prevVal =
     (if \<not> isValidFlag flag then Err ErrInvalidFlag
      else if beginTS = 0 then Err ErrZeroTimestamp
      else
        let prevValLen = (of_nat (length prevVal) :: u16)
        in Ok ([flag, prevFlag] @ PutUint64 prevBeginTS @ PutUint16 prevValLen
               @ take (unat prevValLen) prevVal @ PutUint64 beginTS @ realVal))"

section \<open>Large objects\<close>

definition LOBSizeThreshold :: nat where "LOBSizeThreshold = 2048"
definition LOBFileThreshold :: nat where "LOBFileThreshold = 262144"

record 'w lob_manager =
  lobAllocate :: "bytes \<Rightarrow> 'w \<Rightarrow> lob_ref outcome \<times> 'w"
  lobRead :: "lob_ref \<Rightarrow> 'w \<Rightarrow> bytes outcome"
  lobFree :: "lob_ref \<Rightarrow> 'w \<Rightarrow> 'w"

record 'w lob_file_manager =
  fileCreate :: "bytes \<Rightarrow> 'w \<Rightarrow> lob_file_ref outcome \<times> 'w"
  fileRead :: "lob_file_ref \<Rightarrow> 'w \<Rightarrow> bytes outcome"
  fileDelete :: "lob_file_ref \<Rightarrow> 'w \<Rightarrow> 'w"

definition encodeLOBOverflow ::
  "bytes \<Rightarrow> u64 \<Rightarrow> byte \<Rightarrow> u64 \<Rightarrow> bytes \<Rightarrow> 'w lob_manager \<Rightarrow> 'w \<Rightarrow> bytes outcome \<times> 'w" where
  "encodeLOBOverflow data beginTS prevFlag prevBeginTS prevVal lobMgr w =
     (case lobAllocate lobMgr data w of
        (Ok ref, w') \<Rightarrow>
          (BuildMVCC FlagLOBNormal beginTS
             (PutUint16 8 @ PutUint32 (FirstPageID ref) @ PutUint32 (TotalLen ref))
             prevFlag prevBeginTS prevVal, w')
      | (Err e, w') \<Rightarrow> (Err e, w')
      | (Panic, w') \<Rightarrow> (Panic, w'))"

definition encodeLOBFile ::
  "bytes \<Rightarrow> u64 \<Rightarrow> byte \<Rightarrow> u64 \<Rightarrow> bytes \<Rightarrow> 'w lob_file_manager \<Rightarrow> 'w \<Rightarrow> bytes outcome \<times> 'w" where
  "encodeLOBFile data beginTS prevFlag prevBeginTS prevVal lobFileMgr w =
     (case fileCreate lobFileMgr data w of
        (Ok ref, w') \<Rightarrow>
          (BuildMVCC FlagLOBFile beginTS
             (PutUint16 16 @ PutUint64 (LOBID ref) @ PutUint64 (FileLen ref))
             prevFlag prevBeginTS prevVal, w')
      | (Err e, w') \<Rightarrow> (Err e, w')
      | (Panic, w') \<Rightarrow> (Panic, w'))"

definition EncodeValue ::
  "bytes \<Rightarrow> u64 \<Rightarrow> byte \<Rightarrow> u64 \<Rightarrow> bytes \<Rightarrow> 'w lob_manager option \<Rightarrow> 'w lob_file_manager option
    \<Rightarrow> 'w \<Rightarrow> bytes outcome \<times> 'w" where
  "EncodeValue val beginTS prevFlag prevBeginTS prevVal lobMgr lobFileMgr w =
     (if lobFileMgr \<noteq> None \<and> LOBFileThreshold < length val then
        encodeLOBFile val beginTS prevFlag prevBeginTS prevVal (the lobFileMgr) w
      else if lobMgr \<noteq> None \<and> LOBSizeThreshold < length val then
        encodeLOBOverflow val beginTS prevFlag prevBeginTS prevVal (the lobMgr) w
      else (BuildMVCC FlagNormal beginTS val prevFlag prevBeginTS prevVal, w))"

text \<open>The unused arguments \<open>oldBeginTS\<close> of the source are kept out.\<close>

definition EncodeDeleteValue :: "u64 \<Rightarrow> byte \<Rightarrow> bytes \<Rightarrow> byte \<Rightarrow> u64 \<Rightarrow> bytes \<Rightarrow> bytes outcome" where
  "EncodeDeleteValue beginTS oldFlag oldVal prevFlag prevBeginTS prevVal =
     (if IsLOBFlag oldFlag then BuildMVCC FlagLOBTombstone beginTS oldVal prevFlag prevBeginTS prevVal
      else if IsLOBFileFlag oldFlag
        then BuildMVCC FlagLOBFileTombstone beginTS oldVal prevFlag prevBeginTS prevVal
      else BuildMVCC FlagTombstone beginTS [] prevFlag prevBeginTS prevVal)"

definition expandLOB :: "mvcc_value \<Rightarrow> 'w lob_manager option \<Rightarrow> 'w \<Rightarrow> mvcc_value outcome" where
  "expandLOB mv lobMgr w =
     (case (LOB mv, lobMgr) of
        (Some ref, Some m) \<Rightarrow> bind_outcome (lobRead m ref w) (\<lambda>d. Ok (mv\<lparr>RealVal := d\<rparr>))
      | _ \<Rightarrow> Ok mv)"

definition expandLOBFile ::
  "mvcc_value \<Rightarrow> 'w lob_file_manager option \<Rightarrow> 'w \<Rightarrow> mvcc_value outcome" where
  "expandLOBFile mv lobFileMgr w =
     (case (LOBFile mv, lobFileMgr) of
        (Some ref, Some m) \<Rightarrow> bind_outcome (fileRead m ref w) (\<lambda>d. Ok (mv\<lparr>RealVal := d\<rparr>))
      | _ \<Rightarrow> Ok mv)"

definition DecodeValue ::
  "bytes \<Rightarrow> 'w lob_manager option \<Rightarrow> 'w lob_file_manager option \<Rightarrow> 'w \<Rightarrow> mvcc_value outcome" where
  "DecodeValue raw lobMgr lobFileMgr w =
     bind_outcome (ParseMVCC raw) (\<lambda>mv.
       bind_outcome (expandLOB mv lobMgr w) (\<lambda>mv'. expandLOBFile mv' lobFileMgr w))"

section \<open>Round trip of the inline format\<close>

lemma isValidFlag_flags [simp]:
  "isValidFlag FlagNormal" "isValidFlag FlagTombstone" "isValidFlag FlagLOBNormal"
  "isValidFlag FlagLOBTombstone" "isValidFlag FlagLOBFile" "isValidFlag FlagLOBFileTombstone"
  by (simp_all add: isValidFlag_def)

lemma flag_predicates [simp]:
  "\<not> IsLOBFlag FlagNormal" "\<not> IsLOBFlag FlagTombstone" "IsLOBFlag FlagLOBNormal"
  "IsLOBFlag FlagLOBTombstone" "\<not> IsLOBFlag FlagLOBFile" "\<not> IsLOBFlag FlagLOBFileTombstone"
  "\<not> IsLOBFileFlag FlagNormal" "\<not> IsLOBFileFlag FlagTombstone" "\<not> IsLOBFileFlag FlagLOBNormal"
  "\<not> IsLOBFileFlag FlagLOBTombstone" "IsLOBFileFlag FlagLOBFile"
  "IsLOBFileFlag FlagLOBFileTombstone"
  "\<not> IsTombstoneFlag FlagNormal" "IsTombstoneFlag FlagTombstone" "\<not> IsTombstoneFlag FlagLOBNormal"
  "IsTombstoneFlag FlagLOBTombstone" "\<not> IsTombstoneFlag FlagLOBFile"
  "IsTombstoneFlag FlagLOBFileTombstone"
  by (simp_all add: IsLOBFlag_def IsLOBFileFlag_def IsTombstoneFlag_def flag_defs)

text \<open>The decoded form of what \<open>BuildMVCC\<close> wrote.\<close>

definition built_value :: "byte \<Rightarrow> u64 \<Rightarrow> bytes \<Rightarrow> byte \<Rightarrow> u64 \<Rightarrow> bytes \<Rightarrow> mvcc_value" where
  "built_value flag beginTS realVal prevFlag prevBeginTS prevVal =
     \<lparr>Flag = flag, BeginTS = beginTS, RealVal = realVal, PrevFlag = prevFlag,
      PrevBeginTS = prevBeginTS, PrevVal = (if prevVal = [] then None else Some prevVal),
      LOB = parse_lob flag realVal, LOBFile = parse_lob_file flag realVal\<rparr>"

lemma BuildMVCC_Ok_iff:
  "BuildMVCC flag beginTS realVal prevFlag prevBeginTS prevVal = Ok raw \<longleftrightarrow>
     isValidFlag flag \<and> beginTS \<noteq> 0 \<and>
     raw = [flag, prevFlag] @ PutUint64 prevBeginTS @ PutUint16 (of_nat (length prevVal))
       @ take (unat (of_nat (length prevVal) :: u16)) prevVal @ PutUint64 beginTS @ realVal"
  by (auto simp: BuildMVCC_def Let_def)

lemma unat_u16_add:
  "unat a + unat b < 65536 \<Longrightarrow> unat (a + b :: u16) = unat a + unat b"
  "65536 \<le> unat a + unat b \<Longrightarrow> unat (a + b :: u16) = unat a + unat b - 65536"
proof -
  assume "unat a + unat b < 65536"
  then show "unat (a + b) = unat a + unat b"
    by (simp add: unat_word_ariths)
next
  assume le: "65536 \<le> unat a + unat b"
  have "unat a < 65536" "unat b < 65536"
    using unsigned_less [where 'a = nat, of a] unsigned_less [where 'a = nat, of b] by simp_all
  with le show "unat (a + b) = unat a + unat b - 65536"
    by (simp add: unat_word_ariths le_mod_geq)
qed

text \<open>The header and tail of an encoded value, for a previous version of \<open>n\<close> bytes.\<close>

lemma build_shape:
  fixes pv :: bytes
  assumes "length pv < 65536"
    and raw_def: "raw = [flag, pf] @ PutUint64 pts @ PutUint16 (of_nat (length pv)) @ pv
      @ PutUint64 ts @ rv"
  shows "length raw = 20 + length pv + length rv"
    and "raw ! 0 = flag" "raw ! 1 = pf"
    and "field 2 8 raw = PutUint64 pts" "field 10 2 raw = PutUint16 (of_nat (length pv))"
    and "field 12 (length pv) raw = pv"
    and "field (12 + length pv) 8 raw = PutUint64 ts"
    and "drop (20 + length pv) raw = rv"
  by (simp_all add: raw_def field_def drop_Cons' numeral_2_eq_2)

lemma parse_prev_shape:
  fixes pv :: bytes
  assumes "length pv \<le> 65523" "pts = 0 \<longrightarrow> pv = []" "field 12 (length pv) raw = pv"
    "12 + length pv \<le> length raw"
  shows "parse_prev raw pts (of_nat (length pv)) =
    Ok (if pv = [] then None else Some pv, 12 + of_nat (length pv))"
proof (cases "pv = []")
  case True
  then show ?thesis by (simp add: parse_prev_def)
next
  case False
  have u: "unat (12 + of_nat (length pv) :: u16) = 12 + length pv"
    using assms(1) by (simp add: unat_u16_add)
  have "0 < (of_nat (length pv) :: u16)"
    using False assms(1) by (simp add: word_gt_0 unat_eq_0 flip: unat_eq_zero)
  with False assms u show ?thesis
    by (simp add: parse_prev_def Let_def)
qed

lemma parse_current_shape:
  assumes "unat pos \<le> 65527" "unat pos + 8 \<le> length raw"
  shows "parse_current raw pos = Ok (Uint64 (field (unat pos) 8 raw), drop (unat pos + 8) raw)"
  using assms by (simp add: parse_current_def unat_u16_add)

lemma ParseMVCC_BuildMVCC [codec_simps]:
  assumes "isValidFlag flag" "beginTS \<noteq> 0" "prevBeginTS = 0 \<longrightarrow> prevVal = []"
    "length prevVal \<le> 65515"
    "BuildMVCC flag beginTS realVal prevFlag prevBeginTS prevVal = Ok raw"
  shows "ParseMVCC raw = Ok (built_value flag beginTS realVal prevFlag prevBeginTS prevVal)"
proof -
  have len: "length prevVal < 65536" using assms(4) by simp
  have raw: "raw = [flag, prevFlag] @ PutUint64 prevBeginTS @ PutUint16 (of_nat (length prevVal))
      @ prevVal @ PutUint64 beginTS @ realVal"
    using assms(5) len by (simp add: BuildMVCC_Ok_iff)
  note shape = build_shape [OF len raw]
  have pos: "unat (12 + of_nat (length prevVal) :: u16) = 12 + length prevVal"
    using assms(4) by (simp add: unat_u16_add)
  have prev: "parse_prev raw prevBeginTS (of_nat (length prevVal)) =
      Ok (if prevVal = [] then None else Some prevVal, 12 + of_nat (length prevVal))"
    using assms(3,4) shape by (intro parse_prev_shape) simp_all
  have cur: "parse_current raw (12 + of_nat (length prevVal)) = Ok (beginTS, realVal)"
    using assms(4) pos shape by (simp add: parse_current_shape add.commute)
  show ?thesis
    using assms(1) prev cur shape
    by (simp add: ParseMVCC_def Let_def MVCCHeaderSize_def built_value_def)
qed

lemma BuildMVCC_total:
  assumes "isValidFlag flag" "beginTS \<noteq> 0"
  obtains raw where "BuildMVCC flag beginTS realVal prevFlag prevBeginTS prevVal = Ok raw"
  using assms by (auto simp: BuildMVCC_def Let_def)

subsection \<open>What the parser does on arbitrary bytes\<close>

lemma ParseMVCC_Ok_D:
  assumes "ParseMVCC val = Ok mv"
  shows "isValidFlag (Flag mv)" "Flag mv = val ! 0" "20 \<le> length val"
proof -
  show "isValidFlag (Flag mv)" "Flag mv = val ! 0"
    using assms
    by (auto simp: ParseMVCC_def Let_def bind_outcome_Ok_iff split: if_splits)
  from assms obtain pv pos ts rv where
    prev: "parse_prev val (Uint64 (field 2 8 val)) (Uint16 (field 10 2 val)) = Ok (pv, pos)"
    and cur: "parse_current val pos = Ok (ts, rv)" and hdr: "12 \<le> length val"
    by (auto simp: ParseMVCC_def Let_def bind_outcome_Ok_iff MVCCHeaderSize_def split: if_splits)
  from cur have le: "unat (pos + 8) \<le> length val" "unat pos \<le> unat (pos + 8)"
    by (auto simp: parse_current_def bind_outcome_Ok_iff slice_expr_def split: if_splits)
  from prev have "12 \<le> unat pos"
    by (auto simp: parse_prev_def Let_def bind_outcome_Ok_iff slice_expr_def split: if_splits)
  moreover from le(2) have "unat (pos + 8) = unat pos + 8"
    by (cases "unat pos + 8 < 65536") (simp_all add: unat_u16_add)
  ultimately show "20 \<le> length val" using le by simp
qed

lemma parse_prev_Panic_iff:
  assumes "12 \<le> length val"
  shows "parse_prev val pts n = Panic \<longleftrightarrow> pts \<noteq> 0 \<and> 65524 \<le> unat n"
proof (cases "unat n < 65524")
  case True
  then have "unat (12 + n) = 12 + unat n" by (simp add: unat_u16_add)
  with True show ?thesis
    by (auto simp: parse_prev_def Let_def slice_expr_def)
next
  case False
  moreover have "unat n < 65536"
    using unsigned_less [where 'a = nat, of n] by simp
  ultimately have "unat (12 + n) = unat n - 65524" "unat (12 + n) < 12" "0 < n"
    by (simp_all add: unat_u16_add word_gt_0 flip: unat_eq_zero)
  with False assms show ?thesis
    by (auto simp: parse_prev_def Let_def slice_expr_def)
qed

lemma parse_current_Panic_iff:
  assumes "12 \<le> length val"
  shows "parse_current val pos = Panic \<longleftrightarrow> 65528 \<le> unat pos"
proof (cases "unat pos < 65528")
  case True
  then have "unat (pos + 8) = unat pos + 8" by (simp add: unat_u16_add)
  with True show ?thesis
    by (auto simp: parse_current_def slice_expr_def)
next
  case False
  moreover have "unat pos < 65536"
    using unsigned_less [where 'a = nat, of pos] by simp
  ultimately have "unat (pos + 8) = unat pos - 65528" "unat (pos + 8) < 8"
    by (simp_all add: unat_u16_add)
  with False assms show ?thesis
    by (auto simp: parse_current_def slice_expr_def)
qed

lemma parse_prev_Ok_pos:
  assumes "parse_prev val pts n = Ok (pv, pos)"
  shows "unat pos = (if pts \<noteq> 0 \<and> 0 < n then 12 + unat n else 12)"
proof -
  have "unat (12 + n) = 12 + unat n" if "12 \<le> unat (12 + n)"
    using that unsigned_less [where 'a = nat, of n]
    by (cases "12 + unat n < 65536") (simp_all add: unat_u16_add)
  with assms show ?thesis
    by (auto simp: parse_prev_def Let_def bind_outcome_Ok_iff slice_expr_def split: if_splits)
qed

lemma ParseMVCC_Panic_iff:
  "ParseMVCC val = Panic \<longleftrightarrow>
     12 \<le> length val \<and> isValidFlag (val ! 0) \<and> Uint64 (field 2 8 val) \<noteq> 0 \<and>
     (65524 \<le> unat (Uint16 (field 10 2 val)) \<or>
      65516 \<le> unat (Uint16 (field 10 2 val)) \<and> 12 + unat (Uint16 (field 10 2 val)) \<le> length val)"
    (is "?L \<longleftrightarrow> ?R")
proof (cases "12 \<le> length val \<and> isValidFlag (val ! 0)")
  case False
  then show ?thesis by (auto simp: ParseMVCC_def MVCCHeaderSize_def)
next
  case True
  let ?pts = "Uint64 (field 2 8 val)" and ?n = "Uint16 (field 10 2 val)"
  have split: "ParseMVCC val = Panic \<longleftrightarrow> parse_prev val ?pts ?n = Panic \<or>
      (\<exists>pv pos. parse_prev val ?pts ?n = Ok (pv, pos) \<and> parse_current val pos = Panic)"
    using True
    by (cases "parse_prev val ?pts ?n")
      (auto simp: ParseMVCC_def MVCCHeaderSize_def Let_def split: prod.splits
        elim: bind_outcome.elims)
  have ok: "(\<exists>pv pos. parse_prev val ?pts ?n = Ok (pv, pos) \<and> parse_current val pos = Panic) \<longleftrightarrow>
      ?pts \<noteq> 0 \<and> unat ?n < 65524 \<and> 65516 \<le> unat ?n \<and> 12 + unat ?n \<le> length val"
  proof (cases "?pts \<noteq> 0 \<and> 0 < ?n \<and> unat ?n < 65524")
    case c: True
    then have "unat (12 + ?n) = 12 + unat ?n" by (simp add: unat_u16_add)
    with c True show ?thesis
      by (auto simp: parse_prev_def Let_def parse_current_Panic_iff)
  next
    case False
    then have "?pts = 0 \<or> ?n = 0 \<or> 65524 \<le> unat ?n"
      by (auto simp: word_gt_0)
    with True show ?thesis
      using parse_prev_Panic_iff [of val ?pts ?n]
      by (auto simp: parse_prev_def Let_def parse_current_Panic_iff dest!: sym [of Panic])
  qed
  from True split ok parse_prev_Panic_iff [of val ?pts ?n] show ?thesis
    by auto
qed

section \<open>The interfaces of the LOB managers\<close>

text \<open>
  What the codec relies on: data read back through a reference is the data stored under it,
  in the world the allocation left. \<open>invar\<close> is the provider's own invariant.
\<close>

locale lob_store =
  fixes mgr :: "'w lob_manager"
    and invar :: "'w \<Rightarrow> bool"
  assumes alloc_read:
      "invar w \<Longrightarrow> d \<noteq> [] \<Longrightarrow> length d < 4294967296 \<Longrightarrow> lobAllocate mgr d w = (Ok r, w') \<Longrightarrow>
        lobRead mgr r w' = Ok d"
    and alloc_invar: "invar w \<Longrightarrow> length d < 4294967296 \<Longrightarrow> lobAllocate mgr d w = (Ok r, w') \<Longrightarrow> invar w'"
begin

lemma overflow_roundtrip:
  assumes "invar w" "d \<noteq> []" "length d < 4294967296" "beginTS \<noteq> 0" "prevBeginTS = 0 \<longrightarrow> prevVal = []"
    "length prevVal \<le> 65515"
    and enc: "encodeLOBOverflow d beginTS prevFlag prevBeginTS prevVal mgr w = (Ok raw, w')"
  shows "\<exists>mv. DecodeValue raw (Some mgr) fm w' = Ok mv \<and> RealVal mv = d \<and>
    BeginTS mv = beginTS \<and> Flag mv = FlagLOBNormal \<and> PrevBeginTS mv = prevBeginTS \<and> invar w'"
proof -
  from enc obtain r where r: "lobAllocate mgr d w = (Ok r, w')"
    and b: "BuildMVCC FlagLOBNormal beginTS
      (PutUint16 8 @ PutUint32 (FirstPageID r) @ PutUint32 (TotalLen r))
      prevFlag prevBeginTS prevVal = Ok raw"
    by (auto simp: encodeLOBOverflow_def split: prod.splits outcome.splits)
  let ?rv = "PutUint16 8 @ PutUint32 (FirstPageID r) @ PutUint32 (TotalLen r)"
  have p: "ParseMVCC raw = Ok (built_value FlagLOBNormal beginTS ?rv prevFlag prevBeginTS prevVal)"
    using assms(4-6) b by (intro ParseMVCC_BuildMVCC) simp_all
  have "parse_lob FlagLOBNormal ?rv = Some r"
    by (simp add: parse_lob_def)
  moreover have "parse_lob_file FlagLOBNormal ?rv = None"
    by (simp add: parse_lob_file_def)
  ultimately show ?thesis
    using p alloc_read [OF assms(1-3) r] alloc_invar [OF assms(1,3) r]
    by (simp add: DecodeValue_def expandLOB_def expandLOBFile_def built_value_def)
qed

end

locale lob_file_store =
  fixes fmgr :: "'w lob_file_manager"
    and finvar :: "'w \<Rightarrow> bool"
    and room :: "'w \<Rightarrow> bool"
  assumes create_read:
      "finvar w \<Longrightarrow> d \<noteq> [] \<Longrightarrow> length d \<le> 2 ^ 48 \<Longrightarrow> fileCreate fmgr d w = (Ok r, w') \<Longrightarrow>
        fileRead fmgr r w' = Ok d \<or> fileRead fmgr r w' = Err ErrIO"
    and create_invar: "finvar w \<Longrightarrow> room w \<Longrightarrow> fileCreate fmgr d w = (res, w') \<Longrightarrow> finvar w'"
begin

lemma file_roundtrip:
  assumes "finvar w" "d \<noteq> []" "length d \<le> 2 ^ 48" "beginTS \<noteq> 0" "prevBeginTS = 0 \<longrightarrow> prevVal = []"
    "length prevVal \<le> 65515"
    and enc: "encodeLOBFile d beginTS prevFlag prevBeginTS prevVal fmgr w = (Ok raw, w')"
  shows "DecodeValue raw lm (Some fmgr) w' = Err ErrIO \<or>
    (\<exists>mv. DecodeValue raw lm (Some fmgr) w' = Ok mv \<and> RealVal mv = d \<and>
      BeginTS mv = beginTS \<and> Flag mv = FlagLOBFile \<and> PrevBeginTS mv = prevBeginTS)"
proof -
  from enc obtain r where r: "fileCreate fmgr d w = (Ok r, w')"
    and b: "BuildMVCC FlagLOBFile beginTS
      (PutUint16 16 @ PutUint64 (LOBID r) @ PutUint64 (FileLen r))
      prevFlag prevBeginTS prevVal = Ok raw"
    by (auto simp: encodeLOBFile_def split: prod.splits outcome.splits)
  let ?rv = "PutUint16 16 @ PutUint64 (LOBID r) @ PutUint64 (FileLen r)"
  have p: "ParseMVCC raw = Ok (built_value FlagLOBFile beginTS ?rv prevFlag prevBeginTS prevVal)"
    using assms(4-6) b by (intro ParseMVCC_BuildMVCC) simp_all
  have "parse_lob FlagLOBFile ?rv = None"
    by (simp add: parse_lob_def)
  moreover have "parse_lob_file FlagLOBFile ?rv = Some r"
    by (simp add: parse_lob_file_def)
  ultimately show ?thesis
    using p create_read [OF assms(1-3) r]
    by (auto simp: DecodeValue_def expandLOB_def expandLOBFile_def built_value_def)
qed

end

text \<open>Both tiers over one world: \<open>DecodeValue\<close> inverts \<open>EncodeValue\<close> whatever the size.\<close>

locale lob_tiers = lob_store mgr invar + lob_file_store fmgr finvar room
  for mgr :: "'w lob_manager" and invar and fmgr :: "'w lob_file_manager" and finvar and room
begin

lemma decode_encode:
  assumes "invar w" "finvar w" "length v \<le> 2 ^ 48" "beginTS \<noteq> 0" "prevBeginTS = 0 \<longrightarrow> prevVal = []"
    "length prevVal \<le> 65515"
    and enc: "EncodeValue v beginTS prevFlag prevBeginTS prevVal (Some mgr) (Some fmgr) w = (Ok raw, w')"
  shows "(LOBFileThreshold < length v \<and> DecodeValue raw (Some mgr) (Some fmgr) w' = Err ErrIO) \<or>
    (\<exists>mv. DecodeValue raw (Some mgr) (Some fmgr) w' = Ok mv \<and> RealVal mv = v \<and>
      BeginTS mv = beginTS \<and> \<not> IsTombstone mv \<and> PrevBeginTS mv = prevBeginTS)"
proof -
  consider (big) "LOBFileThreshold < length v"
    | (middle) "length v \<le> LOBFileThreshold" "LOBSizeThreshold < length v"
    | (small) "length v \<le> LOBSizeThreshold"
    by linarith
  then show ?thesis
  proof cases
    case big
    then have "v \<noteq> []" by auto
    with big enc file_roundtrip [OF assms(2) _ assms(3-6), of prevFlag raw w' "Some mgr"]
    show ?thesis by (auto simp: EncodeValue_def IsTombstone_def)
  next
    case middle
    then have "v \<noteq> []" "length v < 4294967296" by (auto simp: LOBFileThreshold_def)
    with middle enc overflow_roundtrip [OF assms(1) _ _ assms(4-6), of v prevFlag raw w' "Some fmgr"]
    show ?thesis by (auto simp: EncodeValue_def IsTombstone_def)
  next
    case small
    then have b: "BuildMVCC FlagNormal beginTS v prevFlag prevBeginTS prevVal = Ok raw"
      using enc by (simp add: EncodeValue_def LOBSizeThreshold_def LOBFileThreshold_def)
    have "ParseMVCC raw = Ok (built_value FlagNormal beginTS v prevFlag prevBeginTS prevVal)"
      using assms(4-6) b by (intro ParseMVCC_BuildMVCC) simp_all
    then show ?thesis
      by (simp add: DecodeValue_def expandLOB_def expandLOBFile_def built_value_def
          parse_lob_def parse_lob_file_def IsTombstone_def)
  qed
qed

end

section \<open>Properties of the format\<close>

text \<open>Claim C30. \<open>ParseMVCC\<close> reads back every field that \<open>BuildMVCC\<close> wrote, for every valid flag,
  non-zero timestamp and previous version of at most 65515 bytes (a record without a previous
  version has \<open>prevBeginTS = 0\<close> and no bytes).\<close>

theorem mvcc_codec_roundtrip:
  assumes "isValidFlag flag" and "beginTS \<noteq> 0" and "prevBeginTS = 0 \<longrightarrow> prevVal = []"
    and "length prevVal \<le> 65515"
  shows "\<exists>raw. BuildMVCC flag beginTS realVal prevFlag prevBeginTS prevVal = Ok raw \<and>
    ParseMVCC raw = Ok \<lparr>Flag = flag, BeginTS = beginTS, RealVal = realVal, PrevFlag = prevFlag,
      PrevBeginTS = prevBeginTS, PrevVal = (if prevVal = [] then None else Some prevVal),
      LOB = parse_lob flag realVal, LOBFile = parse_lob_file flag realVal\<rparr>"
proof -
  obtain raw where "BuildMVCC flag beginTS realVal prevFlag prevBeginTS prevVal = Ok raw"
    using BuildMVCC_total [OF assms(1,2)] by blast
  with ParseMVCC_BuildMVCC [OF assms this] show ?thesis
    by (auto simp: built_value_def)
qed

theorem mvcc_codec_roundtrip_witness:
  "\<exists>raw. BuildMVCC FlagNormal 7 [1, 2] FlagTombstone 3 [9] = Ok raw \<and>
    ParseMVCC raw = Ok \<lparr>Flag = FlagNormal, BeginTS = 7, RealVal = [1, 2], PrevFlag = FlagTombstone,
      PrevBeginTS = 3, PrevVal = Some [9], LOB = None, LOBFile = None\<rparr>"
  using mvcc_codec_roundtrip [of FlagNormal 7 3 "[9]" "[1, 2]" FlagTombstone]
  by (simp add: parse_lob_def parse_lob_file_def)

text \<open>\<open>ParseMVCC\<close> panics on exactly the values whose \<open>prevValLen\<close> makes the 16-bit
  position wrap: from 65524 on at once, and between 65516 and 65523 when the bytes are there.
  On all other inputs it returns a value or an error.\<close>

theorem parse_mvcc_panic_iff:
  "ParseMVCC val = Panic \<longleftrightarrow>
     12 \<le> length val \<and> isValidFlag (val ! 0) \<and> Uint64 (field 2 8 val) \<noteq> 0 \<and>
     (65524 \<le> unat (Uint16 (field 10 2 val)) \<or>
      65516 \<le> unat (Uint16 (field 10 2 val)) \<and> 12 + unat (Uint16 (field 10 2 val)) \<le> length val)"
  by (rule ParseMVCC_Panic_iff)

text \<open>The writer does not respect the reader's limit: \<open>BuildMVCC\<close> accepts a previous
  version of 65516 to 65535 bytes, and \<open>ParseMVCC\<close> panics on what it produced.\<close>

theorem build_mvcc_unreadable:
  assumes "isValidFlag flag" and "beginTS \<noteq> 0" and "prevBeginTS \<noteq> 0"
    and "65516 \<le> length prevVal" and "length prevVal < 65536"
  shows "\<exists>raw. BuildMVCC flag beginTS realVal prevFlag prevBeginTS prevVal = Ok raw \<and>
    ParseMVCC raw = Panic"
proof -
  obtain raw where b: "BuildMVCC flag beginTS realVal prevFlag prevBeginTS prevVal = Ok raw"
    using BuildMVCC_total [OF assms(1,2)] by blast
  then have raw: "raw = [flag, prevFlag] @ PutUint64 prevBeginTS
      @ PutUint16 (of_nat (length prevVal)) @ prevVal @ PutUint64 beginTS @ realVal"
    using assms(5) by (simp add: BuildMVCC_Ok_iff)
  note shape = build_shape [OF assms(5) raw]
  have "ParseMVCC raw = Panic"
    using assms shape by (simp add: ParseMVCC_Panic_iff)
  with b show ?thesis by blast
qed

theorem build_mvcc_unreadable_witness:
  "\<exists>raw. BuildMVCC FlagNormal 2 [] FlagNormal 1 (replicate 65516 0) = Ok raw \<and>
    ParseMVCC raw = Panic"
  using build_mvcc_unreadable [of FlagNormal 2 1 "replicate 65516 0" "[]" FlagNormal] by simp

end
