(* ===== verification/Hybrid_Clock.thy ===== *)
theory Hybrid_Clock
  imports NexKV_Prelude
begin

text \<open>
  The hybrid logical clock: the value object of \<open>domain/model/hlc.go\<close>, the clock of
  \<open>infrastructure/clock/hlc.go\<close> with its provider, and the provider and service of
  \<open>application/clock/clock_service.go\<close>. Mutexes serialise the calls, so a clock is a state
  that \<open>Now\<close> and \<open>Update\<close> return updated; the wall clock reading is an argument.

  \<open>int64\<close> is an integer in \<open>int64_range\<close>; \<open>wrap64\<close> is what an increment leaves after
  overflow. The logical counter is a 16-bit word.
\<close>

section \<open>Timestamps\<close>

datatype hlc = HLC (PhysicalTime: int) (LogicalCounter: u16)

definition wrap64 :: "int \<Rightarrow> int" where
  "wrap64 x = signed_take_bit 63 x"

definition int64_range :: "int \<Rightarrow> bool" where
  "int64_range x \<longleftrightarrow> - (2 ^ 63) \<le> x \<and> x < 2 ^ 63"

lemma wrap64_id [simp]: "int64_range x \<Longrightarrow> wrap64 x = x"
  by (simp add: wrap64_def int64_range_def signed_take_bit_int_eq_self)

text \<open>
  The methods take pointers: \<open>None\<close> is \<open>nil\<close>. Two pointers are only compared as pointers
  when one of them is \<open>nil\<close>.
\<close>

fun LessThan :: "hlc option \<Rightarrow> hlc option \<Rightarrow> bool" where
  "LessThan (Some h) (Some k) =
     (if PhysicalTime h \<noteq> PhysicalTime k then PhysicalTime h < PhysicalTime k
      else LogicalCounter h < LogicalCounter k)"
| "LessThan _ _ = False"

fun Equal :: "hlc option \<Rightarrow> hlc option \<Rightarrow> bool" where
  "Equal (Some h) (Some k) =
     (PhysicalTime h = PhysicalTime k \<and> LogicalCounter h = LogicalCounter k)"
| "Equal None None = True"
| "Equal _ _ = False"

definition GreaterThan :: "hlc option \<Rightarrow> hlc option \<Rightarrow> bool" where
  "GreaterThan h k \<longleftrightarrow> \<not> LessThan h k \<and> \<not> Equal h k"

definition Compare :: "hlc option \<Rightarrow> hlc option \<Rightarrow> int" where
  "Compare h k = (if LessThan h k then -1 else if Equal h k then 0 else 1)"

fun hlcMarshalBinary :: "hlc option \<Rightarrow> bytes outcome" where
  "hlcMarshalBinary None = Err ErrClockMarshalNil"
| "hlcMarshalBinary (Some h) =
     Ok (PutUint64 (word_of_int (PhysicalTime h)) @ PutUint16 (LogicalCounter h))"

definition hlcUnmarshalBinary :: "bytes \<Rightarrow> hlc outcome" where
  "hlcUnmarshalBinary data =
     (if length data \<noteq> 10 then Err ErrClockInvalidSize
      else Ok (HLC (sint (Uint64 (field 0 8 data))) (Uint16 (field 8 2 data))))"

definition IsAtMaxValue :: "hlc option \<Rightarrow> bool" where
  "IsAtMaxValue h = (case h of None \<Rightarrow> False
     | Some k \<Rightarrow> PhysicalTime k = 2 ^ 48 - 1 \<and> LogicalCounter k = 65535)"

section \<open>The clock\<close>

fun maxInt64 :: "int list \<Rightarrow> int" where
  "maxInt64 [] = 0"
| "maxInt64 (v # vs) = foldl (\<lambda>m x. if m < x then x else m) v vs"

definition maxUint16 :: "u16 \<Rightarrow> u16 \<Rightarrow> u16" where
  "maxUint16 a b = (if b < a then a else b)"

text \<open>\<open>NewHLC\<close>, \<open>HLC.Now\<close> and \<open>HLC.Update\<close>: the returned copy is the new state.\<close>

definition NewHLC :: "int \<Rightarrow> hlc" where
  "NewHLC now = HLC now 0"

definition hlcNow :: "int \<Rightarrow> hlc \<Rightarrow> hlc" where
  "hlcNow now h =
     (if PhysicalTime h < now then HLC now 0
      else
        let c' = LogicalCounter h + 1
        in if c' = 0 then HLC (wrap64 (PhysicalTime h + 1)) 0 else HLC (PhysicalTime h) c')"

definition hlcUpdate :: "int \<Rightarrow> int \<Rightarrow> hlc option \<Rightarrow> hlc \<Rightarrow> hlc" where
  "hlcUpdate now eventTime remote h =
     (let remotePT = (case remote of None \<Rightarrow> 0 | Some r \<Rightarrow> PhysicalTime r);
          remoteC = (case remote of None \<Rightarrow> 0 | Some r \<Rightarrow> LogicalCounter r);
          newPT = maxInt64 [now, PhysicalTime h, eventTime, remotePT]
      in if newPT = PhysicalTime h \<and> newPT = remotePT then
           let newC = maxUint16 (LogicalCounter h) remoteC + 1
           in if newC = 0 then HLC (wrap64 (newPT + 1)) 0 else HLC newPT newC
         else HLC newPT 0)"

text \<open>The provider of the infrastructure layer converts through \<open>FromModelHLC\<close> and
  \<open>ToModelHLC\<close>, which copy the two fields.\<close>

definition FromModelHLC :: "hlc option \<Rightarrow> hlc option" where
  "FromModelHLC m = map_option (\<lambda>h. HLC (PhysicalTime h) (LogicalCounter h)) m"

definition ToModelHLC :: "hlc option \<Rightarrow> hlc option" where
  "ToModelHLC m = map_option (\<lambda>h. HLC (PhysicalTime h) (LogicalCounter h)) m"

definition providerNow :: "int \<Rightarrow> hlc \<Rightarrow> hlc option \<times> hlc" where
  "providerNow now h = (let h' = hlcNow now h in (ToModelHLC (Some h'), h'))"

definition providerUpdate :: "int \<Rightarrow> int \<Rightarrow> hlc option \<Rightarrow> hlc \<Rightarrow> hlc option \<times> hlc" where
  "providerUpdate now eventTime remote h =
     (let h' = hlcUpdate now eventTime (FromModelHLC remote) h in (ToModelHLC (Some h'), h'))"

definition providerCurrent :: "hlc \<Rightarrow> hlc option" where
  "providerCurrent h = ToModelHLC (Some h)"

text \<open>The second provider, of \<open>clock_service.go\<close>, and the service over it.\<close>

definition svcNow :: "int \<Rightarrow> hlc \<Rightarrow> hlc option \<times> hlc" where
  "svcNow now h =
     (if PhysicalTime h < now then (Some (HLC now 0), HLC now 0)
      else
        let c1 = LogicalCounter h + 1;
            h' = (if c1 = 0 then HLC (wrap64 (PhysicalTime h + 1)) 0 else HLC (PhysicalTime h) c1)
        in (Some h', h'))"

definition svcUpdate :: "int \<Rightarrow> int \<Rightarrow> hlc option \<Rightarrow> hlc \<Rightarrow> hlc option \<times> hlc" where
  "svcUpdate now eventTime remote h =
     (let (remotePT, remoteC) =
            (case remote of None \<Rightarrow> (0, 0) | Some r \<Rightarrow> (PhysicalTime r, LogicalCounter r));
          newPT = maxInt64 [now, PhysicalTime h, eventTime, remotePT];
          h' = (if newPT = PhysicalTime h \<and> newPT = remotePT then
                  let newC = maxUint16 (LogicalCounter h) remoteC + 1
                  in if newC = 0 then HLC (wrap64 (newPT + 1)) 0 else HLC newPT newC
                else HLC newPT 0)
      in (Some h', h'))"

definition svcCurrent :: "hlc \<Rightarrow> hlc option" where
  "svcCurrent h = Some (HLC (PhysicalTime h) (LogicalCounter h))"

definition CompareTimestamps :: "hlc option \<Rightarrow> hlc option \<Rightarrow> int" where
  "CompareTimestamps t1 t2 = Compare t1 t2"

definition IsConcurrent :: "hlc option \<Rightarrow> hlc option \<Rightarrow> bool" where
  "IsConcurrent t1 t2 = (case (t1, t2) of
     (Some a, Some b) \<Rightarrow> PhysicalTime a = PhysicalTime b \<and> LogicalCounter a = LogicalCounter b
   | _ \<Rightarrow> False)"

definition MaxTimestamp :: "hlc option \<Rightarrow> hlc option \<Rightarrow> hlc option" where
  "MaxTimestamp t1 t2 =
     (if t1 = None then t2 else if t2 = None then t1
      else if GreaterThan t1 t2 then t1 else t2)"

section \<open>The order of timestamps\<close>

instantiation hlc :: linorder
begin

definition less_hlc :: "hlc \<Rightarrow> hlc \<Rightarrow> bool" where
  "less_hlc h k = LessThan (Some h) (Some k)"

definition less_eq_hlc :: "hlc \<Rightarrow> hlc \<Rightarrow> bool" where
  "less_eq_hlc h k \<longleftrightarrow> LessThan (Some h) (Some k) \<or> h = k"

instance
proof
  fix h k l :: hlc
  show "h < k \<longleftrightarrow> h \<le> k \<and> \<not> k \<le> h"
    by (cases h; cases k) (auto simp: less_hlc_def less_eq_hlc_def split: if_splits)
  show "h \<le> h"
    by (simp add: less_eq_hlc_def)
  show "h \<le> k \<Longrightarrow> k \<le> l \<Longrightarrow> h \<le> l"
    by (cases h; cases k; cases l) (auto simp: less_eq_hlc_def split: if_splits)
  show "h \<le> k \<Longrightarrow> k \<le> h \<Longrightarrow> h = k"
    by (cases h; cases k) (auto simp: less_eq_hlc_def split: if_splits)
  show "h \<le> k \<or> k \<le> h"
    by (cases h; cases k) (auto simp: less_eq_hlc_def split: if_splits)
qed

end

declare LessThan.simps [simp del] Equal.simps [simp del]

lemma less_HLC [simp]: "HLC p c < HLC q d \<longleftrightarrow> p < q \<or> p = q \<and> c < d"
  by (auto simp: less_hlc_def LessThan.simps)

lemma less_eq_HLC [simp]: "HLC p c \<le> HLC q d \<longleftrightarrow> p < q \<or> p = q \<and> c \<le> d"
  by (auto simp: le_less)

lemma Equal_Some [simp]: "Equal (Some h) (Some k) \<longleftrightarrow> h = k"
  by (cases h; cases k) (auto simp: Equal.simps)

lemma LessThan_Some: "LessThan (Some h) (Some k) \<longleftrightarrow> h < k"
  by (simp add: less_hlc_def)

lemma GreaterThan_Some: "GreaterThan (Some h) (Some k) \<longleftrightarrow> k < h"
  by (auto simp: GreaterThan_def LessThan_Some not_less order_le_less)

lemma Compare_Some:
  "Compare (Some h) (Some k) = (if h < k then -1 else if h = k then 0 else 1)"
  by (simp add: Compare_def LessThan_Some)

lemma MaxTimestamp_Some: "MaxTimestamp (Some h) (Some k) = Some (max h k)"
  by (auto simp: MaxTimestamp_def GreaterThan_Some max_def not_le order_le_less)

section \<open>Advancing the clock\<close>

lemma u16_succ:
  assumes "c + 1 \<noteq> (0 :: u16)"
  shows "c < c + 1"
proof (cases "unat c + 1 < 65536")
  case True
  then have "unat (c + 1) = unat c + 1" by (simp add: unat_word_ariths)
  then show ?thesis by (simp add: word_less_nat_alt)
next
  case False
  then have "unat c + 1 = 65536"
    using unsigned_less [where 'a = nat, of c] by simp
  then have "unat (c + 1) = 0" by (simp add: unat_word_ariths)
  with assms show ?thesis by (simp add: unat_eq_zero)
qed

lemma maxInt64_four: "maxInt64 [a, b, c, d] = max (max a b) (max c d)"
  by (auto simp: max_def)

lemma hlcNow_less:
  assumes "int64_range (PhysicalTime h + 1)"
  shows "h < hlcNow now h"
  using assms u16_succ [of "LogicalCounter h"]
  by (cases h) (auto simp: hlcNow_def Let_def)

lemma hlcNow_physical:
  assumes "int64_range (PhysicalTime h + 1)"
  shows "PhysicalTime (hlcNow now h) \<le> max now (PhysicalTime h + 1)"
    and "PhysicalTime h \<le> PhysicalTime (hlcNow now h)"
  using assms by (cases h; auto simp: hlcNow_def Let_def max_def)+

text \<open>The timestamps handed out by successive calls of \<open>Now\<close>, for given clock readings.\<close>

fun nowTrace :: "int list \<Rightarrow> hlc \<Rightarrow> hlc list" where
  "nowTrace [] h = []"
| "nowTrace (n # ns) h = hlcNow n h # nowTrace ns (hlcNow n h)"

lemma nowTrace_increasing:
  assumes "- (2 ^ 63) \<le> PhysicalTime h" "PhysicalTime h \<le> B" "\<forall>n \<in> set ns. n \<le> B"
    "B + int (length ns) < 2 ^ 63"
  shows "sorted_wrt (<) (h # nowTrace ns h)"
  using assms
proof (induction ns arbitrary: h B)
  case Nil
  then show ?case by simp
next
  case (Cons n ns)
  let ?h = "hlcNow n h"
  have r: "int64_range (PhysicalTime h + 1)"
    using Cons.prems by (simp add: int64_range_def)
  have "sorted_wrt (<) (?h # nowTrace ns ?h)"
    using hlcNow_physical [OF r, of n] Cons.prems
    by (intro Cons.IH [of _ "B + 1"]) (auto simp: max_def split: if_splits)
  moreover have "h < ?h" by (rule hlcNow_less [OF r])
  ultimately show ?case
    by (auto intro: less_trans)
qed

text \<open>\<open>remotePT\<close> as \<open>Update\<close> reads it.\<close>

definition remote_pt :: "hlc option \<Rightarrow> int" where
  "remote_pt r = (case r of None \<Rightarrow> 0 | Some k \<Rightarrow> PhysicalTime k)"

lemma maxUint16_eq_max: "maxUint16 a b = max a b"
  by (auto simp: maxUint16_def max_def)

lemma hlcUpdate_eq:
  "hlcUpdate now ev r h =
     (if max now ev \<le> PhysicalTime h \<and> remote_pt r = PhysicalTime h then
        hlcNow (PhysicalTime h)
          (HLC (PhysicalTime h) (max (LogicalCounter h) (case r of None \<Rightarrow> 0 | Some k \<Rightarrow> LogicalCounter k)))
      else HLC (max (max now (PhysicalTime h)) (max ev (remote_pt r))) 0)"
  by (auto simp: hlcUpdate_def hlcNow_def Let_def maxInt64_four maxUint16_eq_max remote_pt_def
      split: option.splits)

lemma hlcNow_HLC_less:
  assumes "int64_range (q + 1)" "LogicalCounter h \<le> d" "PhysicalTime h = q"
  shows "h < hlcNow q (HLC q d)"
proof -
  have "h \<le> HLC q d" using assms by (cases h) auto
  also have "HLC q d < hlcNow q (HLC q d)" using assms by (intro hlcNow_less) simp
  finally show ?thesis .
qed

lemma hlcUpdate_less_iff:
  assumes "int64_range (PhysicalTime h + 1)"
  shows "h < hlcUpdate now ev r h \<longleftrightarrow> PhysicalTime h < max now ev \<or> PhysicalTime h \<le> remote_pt r"
proof (cases "max now ev \<le> PhysicalTime h \<and> remote_pt r = PhysicalTime h")
  case True
  with assms show ?thesis
    by (auto simp: hlcUpdate_eq intro!: hlcNow_HLC_less)
next
  case False
  then show ?thesis
    by (cases h) (auto simp: hlcUpdate_eq max_def split: if_splits)
qed

lemma hlcUpdate_back_iff:
  assumes "int64_range (PhysicalTime h + 1)"
  shows "hlcUpdate now ev r h < h \<longleftrightarrow>
    max now ev \<le> PhysicalTime h \<and> remote_pt r < PhysicalTime h \<and> LogicalCounter h \<noteq> 0"
proof (cases "max now ev \<le> PhysicalTime h \<and> remote_pt r = PhysicalTime h")
  case True
  with assms have "h < hlcUpdate now ev r h" by (simp add: hlcUpdate_less_iff)
  with True show ?thesis by auto
next
  case False
  then show ?thesis
    by (cases h) (auto simp: hlcUpdate_eq max_def word_gt_0 split: if_splits)
qed

lemma hlcUpdate_remote_iff:
  assumes "int64_range (PhysicalTime r + 1)"
  shows "r < hlcUpdate now ev (Some r) h \<longleftrightarrow>
    PhysicalTime r < max (max now (PhysicalTime h)) ev \<or> PhysicalTime r = PhysicalTime h"
proof (cases "max now ev \<le> PhysicalTime h \<and> remote_pt (Some r) = PhysicalTime h")
  case True
  with assms show ?thesis
    by (auto simp: hlcUpdate_eq remote_pt_def intro!: hlcNow_HLC_less)
next
  case False
  then show ?thesis
    by (cases r; cases h) (auto simp: hlcUpdate_eq remote_pt_def max_def split: if_splits)
qed

lemma hlc_unmarshal_marshal:
  assumes "hlcMarshalBinary (Some h) = Ok data" "int64_range (PhysicalTime h)"
  shows "hlcUnmarshalBinary data = Ok h"
proof -
  have "sint (word_of_int (PhysicalTime h) :: u64) = PhysicalTime h"
    using assms(2) by (simp add: int64_range_def sint_sbintrunc' signed_take_bit_int_eq_self)
  with assms(1) show ?thesis
    by (cases h) (auto simp: hlcUnmarshalBinary_def)
qed

lemma provider_svc_Now: "providerNow now h = svcNow now h"
  by (auto simp: providerNow_def svcNow_def hlcNow_def ToModelHLC_def Let_def)

lemma provider_svc_Update: "providerUpdate now ev r h = svcUpdate now ev r h"
  by (cases r) (auto simp: providerUpdate_def svcUpdate_def hlcUpdate_def ToModelHLC_def
      FromModelHLC_def Let_def)

section \<open>Properties of the clock\<close>

text \<open>Successive calls of \<open>Now\<close> hand out strictly increasing timestamps, whatever the
  wall clock does (it may stand still or jump back), as long as neither the clock nor the
  readings come within the number of calls of the 63-bit limit.\<close>

theorem hlc_now_strictly_increasing:
  assumes "- (2 ^ 63) \<le> PhysicalTime h" and "PhysicalTime h \<le> B"
    and "\<forall>n \<in> set readings. n \<le> B" and "B + int (length readings) < 2 ^ 63"
  shows "sorted_wrt (<) (h # nowTrace readings h)"
  using assms by (rule nowTrace_increasing)

theorem hlc_now_strictly_increasing_witness:
  "sorted_wrt (<) (HLC 100 65535 # nowTrace [50, 200, 150] (HLC 100 65535)) \<and>
   nowTrace [50, 200, 150] (HLC 100 65535) = [HLC 101 0, HLC 200 0, HLC 200 1]"
  using hlc_now_strictly_increasing [of "HLC 100 65535" 200 "[50, 200, 150]"]
  by (simp add: hlcNow_def Let_def int64_range_def)

text \<open>\<open>Update\<close> advances the local clock exactly when the wall clock or the event time is
  ahead of it or the remote timestamp is not behind it; when the local physical time is strictly
  the largest it resets the counter, so that the clock stands still or runs backwards.\<close>

theorem hlc_update_progress:
  assumes "int64_range (PhysicalTime h + 1)"
  shows "(h < hlcUpdate now ev r h \<longleftrightarrow>
      PhysicalTime h < max now ev \<or> PhysicalTime h \<le> remote_pt r) \<and>
    (hlcUpdate now ev r h < h \<longleftrightarrow>
      max now ev \<le> PhysicalTime h \<and> remote_pt r < PhysicalTime h \<and> LogicalCounter h \<noteq> 0)"
  using hlcUpdate_less_iff [OF assms] hlcUpdate_back_iff [OF assms] by blast

theorem hlc_update_progress_witness:
  "HLC 100 3 < hlcUpdate 90 80 (Some (HLC 100 7)) (HLC 100 3) \<and>
   hlcUpdate 90 80 (Some (HLC 95 7)) (HLC 100 3) < HLC 100 3"
  using hlc_update_progress [of "HLC 100 3" 90 80 "Some (HLC 100 7)"]
    hlc_update_progress [of "HLC 100 3" 90 80 "Some (HLC 95 7)"]
  by (simp add: int64_range_def remote_pt_def)

text \<open>The timestamp that \<open>Update\<close> returns is after the remote timestamp it received
  exactly when some other reading is ahead of the remote physical time or the two physical times
  agree; when the remote physical time alone is the largest, the result is not after the message.\<close>

theorem hlc_update_after_remote:
  assumes "int64_range (PhysicalTime r + 1)"
  shows "r < hlcUpdate now ev (Some r) h \<longleftrightarrow>
    PhysicalTime r < max (max now (PhysicalTime h)) ev \<or> PhysicalTime r = PhysicalTime h"
  using assms by (rule hlcUpdate_remote_iff)

theorem hlc_update_after_remote_witness:
  "HLC 100 7 < hlcUpdate 90 80 (Some (HLC 100 7)) (HLC 100 3) \<and>
   \<not> HLC 120 7 < hlcUpdate 90 80 (Some (HLC 120 7)) (HLC 100 3)"
  using hlc_update_after_remote [of "HLC 100 7" 90 80 "HLC 100 3"]
    hlc_update_after_remote [of "HLC 120 7" 90 80 "HLC 100 3"]
  by (simp add: int64_range_def)

text \<open>\<open>UnmarshalBinary\<close> reads back what \<open>MarshalBinary\<close> wrote, and the byte string has
  the ten bytes that it insists on.\<close>

theorem hlc_marshal_roundtrip:
  assumes "int64_range (PhysicalTime h)"
  shows "\<exists>data. hlcMarshalBinary (Some h) = Ok data \<and> length data = 10 \<and>
    hlcUnmarshalBinary data = Ok h"
  using hlc_unmarshal_marshal [OF _ assms] by (auto simp: hlcUnmarshalBinary_def)

theorem hlc_marshal_roundtrip_witness:
  "\<exists>data. hlcMarshalBinary (Some (HLC (- 5) 9)) = Ok data \<and> length data = 10 \<and>
    hlcUnmarshalBinary data = Ok (HLC (- 5) 9)"
  by (rule hlc_marshal_roundtrip) (simp add: int64_range_def)

text \<open>\<open>Compare\<close> is the three-way comparison of a linear order on timestamps, and
  \<open>MaxTimestamp\<close> is its maximum; the two HLC providers of the code base behave alike.\<close>

theorem hlc_compare_total_order:
  "Compare (Some h) (Some k) = (if h < k then -1 else if h = k then 0 else 1) \<and>
   MaxTimestamp (Some h) (Some k) = Some (max h k) \<and>
   providerNow now h = svcNow now h \<and> providerUpdate now ev r h = svcUpdate now ev r h"
  by (simp add: Compare_Some MaxTimestamp_Some provider_svc_Now provider_svc_Update)

end
