(* ===== verification/WAL_Codec.thy ===== *)
theory WAL_Codec
  imports NexKV_Prelude
begin

text \<open>
  The write-ahead log entry (\<open>domain/service/wal.go\<close>), its checksum (\<open>wal/crc.go\<close>) and its
  wire format (\<open>wal/types.go\<close>).

  An entry type is a byte: the decoder does not restrict it to the declared constants.
  \<open>Timestamp\<close> is only moved around, so it is kept as its 64-bit pattern. A nil and an empty
  key or value are not told apart by the format.
\<close>

section \<open>Entries\<close>

record wal_entry =
  LSN :: u64
  TxID :: u64
  Timestamp :: u64
  Type :: byte
  Key :: bytes
  Value :: bytes
  PrevLSN :: u64
  ShardID :: u16
  Term :: u16

definition WALTypeInsert :: byte where "WALTypeInsert = 0"
definition WALTypeUpdate :: byte where "WALTypeUpdate = 1"
definition WALTypeDelete :: byte where "WALTypeDelete = 2"
definition WALTypeCommit :: byte where "WALTypeCommit = 3"
definition WALTypeRollback :: byte where "WALTypeRollback = 4"
definition WALTypeCheckpoint :: byte where "WALTypeCheckpoint = 5"
definition WALTypeSplit :: byte where "WALTypeSplit = 6"
definition WALTypeTxBegin :: byte where "WALTypeTxBegin = 7"
definition WALTypeTxWrite :: byte where "WALTypeTxWrite = 8"
definition WALTypeTxCommit :: byte where "WALTypeTxCommit = 9"
definition WALTypeTxRollback :: byte where "WALTypeTxRollback = 10"
definition WALTypeTxPrepare :: byte where "WALTypeTxPrepare = 11"

lemmas wal_type_defs = WALTypeInsert_def WALTypeUpdate_def WALTypeDelete_def WALTypeCommit_def
  WALTypeRollback_def WALTypeCheckpoint_def WALTypeSplit_def WALTypeTxBegin_def
  WALTypeTxWrite_def WALTypeTxCommit_def WALTypeTxRollback_def WALTypeTxPrepare_def

definition LSNInvalid :: u64 where "LSNInvalid = 0"

text \<open>The zero value of the struct, from which the code's composite literals start.\<close>

definition zero_entry :: wal_entry where
  "zero_entry = \<lparr>LSN = 0, TxID = 0, Timestamp = 0, Type = 0, Key = [], Value = [], PrevLSN = 0,
     ShardID = 0, Term = 0\<rparr>"

section \<open>CRC32C\<close>

text \<open>
  The Castagnoli checksum of \<open>hash/crc32\<close>, bit by bit: reflected polynomial
  \<open>0x82F63B78\<close>, initial value and final inversion all ones.
\<close>

definition crc_bit :: "u32 \<Rightarrow> u32" where
  "crc_bit s = (if odd s then drop_bit 1 s XOR 0x82F63B78 else drop_bit 1 s)"

definition crc_byte :: "u32 \<Rightarrow> byte \<Rightarrow> u32" where
  "crc_byte s b = (crc_bit ^^ 8) (s XOR ucast b)"

definition CRC32C :: "bytes \<Rightarrow> u32" where
  "CRC32C data = NOT (foldl crc_byte (NOT 0) data)"

definition trailerMagic :: u32 where "trailerMagic = 0xDEADBEEF"

section \<open>The wire format\<close>

definition payload_len :: "wal_entry \<Rightarrow> nat" where
  "payload_len e = 45 + length (Key e) + length (Value e)"

text \<open>\<open>(payloadLen + 7) &^ 7\<close>\<close>

definition padded_len :: "wal_entry \<Rightarrow> nat" where
  "padded_len e = 8 * ((payload_len e + 7) div 8)"

text \<open>The fields from \<open>LSN\<close> to \<open>ValueLen\<close> (offsets 8 to 52), then the whole padded payload.\<close>

definition entry_fields :: "wal_entry \<Rightarrow> bytes" where
  "entry_fields e =
     PutUint64 (LSN e) @ [Type e] @ PutUint16 (ShardID e) @ PutUint16 (Term e)
     @ PutUint64 (TxID e) @ PutUint64 (Timestamp e) @ PutUint64 (PrevLSN e)
     @ PutUint32 (of_nat (length (Key e))) @ PutUint32 (of_nat (length (Value e)))"

definition entry_payload :: "wal_entry \<Rightarrow> bytes" where
  "entry_payload e = entry_fields e @ Key e @ Value e @ replicate (padded_len e - payload_len e) 0"

definition MarshalWALEntry :: "wal_entry \<Rightarrow> bytes" where
  "MarshalWALEntry e =
     (let covered = PutUint32 (of_nat (padded_len e)) @ entry_payload e
      in PutUint32 (CRC32C covered) @ covered @ PutUint32 trailerMagic)"

text \<open>
  \<open>UnmarshalWALEntry\<close> reads \<open>data\<close>, a slice whose capacity may extend over further bytes
  \<open>spare\<close> (in \<open>recoverFile\<close> the rest of the file): a slice expression only panics when it
  passes the capacity. \<open>KeyLen\<close> and \<open>ValueLen\<close> are not compared with the payload length.
\<close>

definition UnmarshalWALEntry :: "bytes \<Rightarrow> bytes \<Rightarrow> wal_entry outcome" where
  "UnmarshalWALEntry data spare =
     (if length data < 57 then Err ErrWALEntryCorrupted
      else
        let crc = Uint32 (field 0 4 data);
            paddedEnd = 8 + unat (Uint32 (field 4 4 data))
        in if length data < paddedEnd + 4 then Err ErrWALEntryCorrupted
           else if CRC32C (field 4 (paddedEnd - 4) data) \<noteq> crc then Err ErrWALChecksumMismatch
           else if Uint32 (field paddedEnd 4 data) \<noteq> trailerMagic then Err ErrWALTruncatedEntry
           else
             let keyLen = unat (Uint32 (field 45 4 data));
                 valueLen = unat (Uint32 (field 49 4 data));
                 mem = data @ spare
             in if length mem < 53 + keyLen \<or> (0 < valueLen \<and> length mem < 53 + keyLen + valueLen)
                then Panic
                else Ok \<lparr>LSN = Uint64 (field 8 8 data), TxID = Uint64 (field 21 8 data),
                         Timestamp = Uint64 (field 29 8 data), Type = data ! 16,
                         Key = field 53 keyLen mem, Value = field (53 + keyLen) valueLen mem,
                         PrevLSN = Uint64 (field 37 8 data),
                         ShardID = Uint16 (field 17 2 data), Term = Uint16 (field 19 2 data)\<rparr>)"

text \<open>Entries whose lengths the 32-bit length fields can hold.\<close>

definition entry_fits :: "wal_entry \<Rightarrow> bool" where
  "entry_fits e \<longleftrightarrow> padded_len e < 4294967296"

subsection \<open>Configuration\<close>

datatype sync_policy = SyncPolicyEveryWrite | SyncPolicyEverySecond | SyncPolicyBatch
  | SyncPolicyGroupCommit

record wal_config =
  cfgDir :: string
  cfgSegmentSize :: int
  cfgSyncPolicy :: sync_policy

definition DefaultWALConfig :: wal_config where
  "DefaultWALConfig = \<lparr>cfgDir = [], cfgSegmentSize = 64 * 1024 * 1024,
     cfgSyncPolicy = SyncPolicyEveryWrite\<rparr>"

definition walConfigValidate :: "wal_config \<Rightarrow> unit outcome" where
  "walConfigValidate c =
     (if cfgDir c = [] then Err ErrWALInvalidConfig
      else if cfgSegmentSize c < 1024 * 1024 then Err ErrWALInvalidConfig
      else Ok ())"

section \<open>Round trip\<close>

lemma length_entry_fields [simp]: "length (entry_fields e) = 45"
  by (simp add: entry_fields_def)

lemma payload_le_padded: "payload_len e \<le> padded_len e"
  by (simp add: padded_len_def)

lemma length_entry_payload [simp]: "length (entry_payload e) = padded_len e"
  using payload_le_padded [of e] by (simp add: entry_payload_def payload_len_def)

lemma length_MarshalWALEntry: "length (MarshalWALEntry e) = 12 + padded_len e"
  by (simp add: MarshalWALEntry_def Let_def)

lemma padded_len_ge: "48 \<le> padded_len e"
  by (simp add: padded_len_def payload_len_def)

lemma entry_fits_len:
  "entry_fits e \<Longrightarrow> length (Key e) < 4294967296"
  "entry_fits e \<Longrightarrow> length (Value e) < 4294967296"
  using payload_le_padded [of e] by (simp_all add: entry_fits_def payload_len_def)

text \<open>The fields of a marshalled entry, each at the offset the decoder uses.\<close>

lemma marshal_frame:
  fixes e :: wal_entry
  defines "m \<equiv> MarshalWALEntry e"
  shows "field 0 4 m = PutUint32 (CRC32C (PutUint32 (of_nat (padded_len e)) @ entry_payload e))"
    and "field 4 4 m = PutUint32 (of_nat (padded_len e))"
    and "field 4 (4 + padded_len e) m = PutUint32 (of_nat (padded_len e)) @ entry_payload e"
    and "field (8 + padded_len e) 4 m = PutUint32 trailerMagic"
  by (simp_all add: m_def MarshalWALEntry_def Let_def field_def)

lemma marshal_fields:
  fixes e :: wal_entry
  defines "m \<equiv> MarshalWALEntry e"
  shows "field 8 8 m = PutUint64 (LSN e)" "m ! 16 = Type e"
    and "field 17 2 m = PutUint16 (ShardID e)" "field 19 2 m = PutUint16 (Term e)"
    and "field 21 8 m = PutUint64 (TxID e)" "field 29 8 m = PutUint64 (Timestamp e)"
    and "field 37 8 m = PutUint64 (PrevLSN e)"
    and "field 45 4 m = PutUint32 (of_nat (length (Key e)))"
    and "field 49 4 m = PutUint32 (of_nat (length (Value e)))"
  by (simp_all add: m_def MarshalWALEntry_def Let_def entry_payload_def entry_fields_def
      field_def nth_append)

lemma marshal_data:
  fixes e :: wal_entry
  defines "m \<equiv> MarshalWALEntry e"
  shows "field 53 (length (Key e)) m = Key e"
    and "field (53 + length (Key e)) (length (Value e)) m = Value e"
  by (simp_all add: m_def MarshalWALEntry_def Let_def entry_payload_def field_def)

lemma Unmarshal_Marshal [codec_simps]:
  assumes "entry_fits e"
  shows "UnmarshalWALEntry (MarshalWALEntry e) spare = Ok e"
proof -
  let ?m = "MarshalWALEntry e"
  have pl: "unat (of_nat (padded_len e) :: u32) = padded_len e"
    using assms by (simp add: entry_fits_def)
  have kl: "unat (of_nat (length (Key e)) :: u32) = length (Key e)"
    and vl: "unat (of_nat (length (Value e)) :: u32) = length (Value e)"
    using entry_fits_len [OF assms] by simp_all
  have in_m: "field off n (?m @ spare) = field off n ?m" if "off + n \<le> 53 + length (Key e) + length (Value e)"
    for off n
    using that payload_le_padded [of e]
    by (intro field_append_within) (simp add: length_MarshalWALEntry payload_len_def)
  have "length ?m = 12 + padded_len e" by (rule length_MarshalWALEntry)
  moreover have "53 + length (Key e) + length (Value e) \<le> 12 + padded_len e"
    using payload_le_padded [of e] by (simp add: payload_len_def)
  ultimately show ?thesis
    using padded_len_ge [of e]
    by (simp add: UnmarshalWALEntry_def Let_def marshal_frame marshal_fields marshal_data pl kl vl in_m)
qed

text \<open>Every log entry whose padded payload fits the 32-bit length field is decoded from its
  wire form to itself, whatever bytes follow it in the file.\<close>

theorem wal_entry_roundtrip:
  "entry_fits e \<Longrightarrow> UnmarshalWALEntry (MarshalWALEntry e) spare = Ok e"
  by (rule Unmarshal_Marshal)

theorem wal_entry_roundtrip_witness:
  "let e = zero_entry\<lparr>LSN := 7, TxID := 3, Type := WALTypeTxWrite, Key := [1, 2, 3], Value := [4, 5]\<rparr>
   in entry_fits e \<and> UnmarshalWALEntry (MarshalWALEntry e) [9, 9] = Ok e"
proof -
  let ?e = "zero_entry\<lparr>LSN := 7, TxID := 3, Type := WALTypeTxWrite, Key := [1, 2, 3], Value := [4, 5]\<rparr>"
  have "entry_fits ?e"
    by (simp add: entry_fits_def padded_len_def payload_len_def zero_entry_def)
  with wal_entry_roundtrip [of ?e "[9, 9]"] show ?thesis
    by simp
qed

section \<open>Detection of corruption\<close>

text \<open>One step of the checksum register loses nothing: the polynomial has its top bit set, so the top
  bit of the result tells which branch was taken.\<close>

lemma bit_crc_bit_top: "bit (crc_bit s) 31 \<longleftrightarrow> odd s"
proof -
  have "\<not> bit s 32"
    using bit_imp_le_length [of s 32] by auto
  then show ?thesis
    by (simp add: crc_bit_def bit_xor_iff bit_drop_bit_eq bit_simps)
qed

lemma inj_crc_bit: "inj crc_bit"
proof (rule injI)
  fix x y :: u32
  assume eq: "crc_bit x = crc_bit y"
  then have par: "odd x \<longleftrightarrow> odd y"
    by (metis bit_crc_bit_top)
  have "drop_bit 1 x = drop_bit 1 y"
  proof (cases "odd x")
    case True
    with par eq have "(drop_bit 1 x XOR 0x82F63B78) XOR 0x82F63B78 = (drop_bit 1 y XOR 0x82F63B78) XOR 0x82F63B78"
      by (simp add: crc_bit_def)
    then show ?thesis
      by (simp only: xor.assoc xor_self_eq xor.right_neutral)
  next
    case False
    with par eq show ?thesis
      by (simp add: crc_bit_def)
  qed
  with par show "x = y"
    by (metis bits_ident drop_bit_eq_div even_iff_mod_2_eq_zero odd_iff_mod_2_eq_one power_one_right
        take_bit_eq_mod)
qed

lemma inj_crc_bit_pow: "inj (crc_bit ^^ n)"
  by (induction n) (simp_all only: funpow.simps inj_on_id inj_compose inj_crc_bit)

lemma inj_crc_byte_state: "crc_byte s b = crc_byte t b \<longleftrightarrow> s = t"
proof
  assume "crc_byte s b = crc_byte t b"
  then have "s XOR ucast b = t XOR ucast b"
    unfolding crc_byte_def by (rule injD [OF inj_crc_bit_pow])
  then have "(s XOR ucast b) XOR ucast b = (t XOR ucast b) XOR ucast b"
    by simp
  then show "s = t"
    by (simp only: xor.assoc xor_self_eq xor.right_neutral)
qed simp

lemma inj_crc_byte_input: "crc_byte s a = crc_byte s b \<longleftrightarrow> a = b"
proof
  assume "crc_byte s a = crc_byte s b"
  then have "s XOR ucast a = s XOR ucast b"
    unfolding crc_byte_def by (rule injD [OF inj_crc_bit_pow])
  then have "s XOR (s XOR ucast a) = s XOR (s XOR (ucast b :: u32))"
    by simp
  then have "(ucast a :: u32) = ucast b"
    by (simp only: xor.assoc [symmetric] xor_self_eq xor.left_neutral)
  then have "unat (ucast a :: u32) = unat (ucast b :: u32)"
    by simp
  moreover have "unat a < 256" "unat b < 256"
    using unsigned_less [where 'a = nat, of a] unsigned_less [where 'a = nat, of b] by simp_all
  ultimately show "a = b"
    by (simp add: unsigned_ucast_eq word_unat_eq_iff take_bit_eq_mod)
qed simp

lemma foldl_crc_inj: "foldl crc_byte s xs = foldl crc_byte t xs \<longleftrightarrow> s = t"
  by (induction xs arbitrary: s t) (simp_all add: inj_crc_byte_state)

lemma CRC32C_one_byte:
  assumes "i < length xs" "x \<noteq> xs ! i"
  shows "CRC32C (xs[i := x]) \<noteq> CRC32C xs"
proof -
  let ?s = "foldl crc_byte (NOT 0) (take i xs)"
  have "foldl crc_byte (NOT 0) (xs[i := x]) = foldl crc_byte (crc_byte ?s x) (drop (Suc i) xs)"
    using assms by (simp add: upd_conv_take_nth_drop)
  moreover have "foldl crc_byte (NOT 0) xs = foldl crc_byte (crc_byte ?s (xs ! i)) (drop (Suc i) xs)"
    by (subst id_take_nth_drop [OF assms(1)]) simp
  ultimately show ?thesis
    using assms by (simp add: CRC32C_def foldl_crc_inj inj_crc_byte_input)
qed

text \<open>A frame is the checksum, the covered bytes and the trailer; what the decoder reports when the
  checksum or the trailer does not fit.\<close>

lemma Unmarshal_frame:
  assumes c: "length c = 4" and t: "length t = 4" and p: "length p = n" and n: "48 \<le> n" "n < 4294967296"
  shows "CRC32C (PutUint32 (of_nat n) @ p) \<noteq> Uint32 c \<Longrightarrow>
      UnmarshalWALEntry (c @ (PutUint32 (of_nat n) @ p) @ t) spare = Err ErrWALChecksumMismatch"
    and "CRC32C (PutUint32 (of_nat n) @ p) = Uint32 c \<Longrightarrow> Uint32 t \<noteq> trailerMagic \<Longrightarrow>
      UnmarshalWALEntry (c @ (PutUint32 (of_nat n) @ p) @ t) spare = Err ErrWALTruncatedEntry"
proof -
  let ?m = "c @ (PutUint32 (of_nat n) @ p) @ t"
  have "unat (of_nat n :: u32) = n"
    using n by simp
  moreover have "field 0 4 ?m = c" "field 4 4 ?m = PutUint32 (of_nat n)"
      "field 4 (4 + n) ?m = PutUint32 (of_nat n) @ p" "field (8 + n) 4 ?m = t"
    using assms by (simp_all add: field_def)
  moreover have "length ?m = 12 + n"
    using assms by simp
  ultimately show "CRC32C (PutUint32 (of_nat n) @ p) \<noteq> Uint32 c \<Longrightarrow>
      UnmarshalWALEntry ?m spare = Err ErrWALChecksumMismatch"
    and "CRC32C (PutUint32 (of_nat n) @ p) = Uint32 c \<Longrightarrow> Uint32 t \<noteq> trailerMagic \<Longrightarrow>
      UnmarshalWALEntry ?m spare = Err ErrWALTruncatedEntry"
    using n by (simp_all add: UnmarshalWALEntry_def Let_def)
qed

lemma Uint32_PutUint32_upd:
  assumes "i < 4" "x \<noteq> PutUint32 w ! i"
  shows "Uint32 ((PutUint32 w)[i := x]) \<noteq> w"
proof
  assume "Uint32 ((PutUint32 w)[i := x]) = w"
  then have "(PutUint32 w)[i := x] = PutUint32 w"
    by (intro Uint32_inj) simp_all
  then show False
    using assms by (metis length_PutUint(2) nth_list_update_eq)
qed

text \<open>A stored entry in which one byte has changed is never taken for a good one: a change in
  the checksum or anywhere in the padded payload is a checksum mismatch, and a change in the trailer
  is a truncated entry. (A change in the length field, bytes 4 to 7, moves the frame.)\<close>

theorem wal_corruption_detected:
  assumes "entry_fits e" "i < length (MarshalWALEntry e)" "x \<noteq> MarshalWALEntry e ! i"
    and "i < 4 \<or> 8 \<le> i"
  shows "UnmarshalWALEntry ((MarshalWALEntry e)[i := x]) spare =
    (if i < 8 + padded_len e then Err ErrWALChecksumMismatch else Err ErrWALTruncatedEntry)"
proof -
  define n l p where "n = padded_len e" and "l = PutUint32 (of_nat n)" and "p = entry_payload e"
  define c t where "c = PutUint32 (CRC32C (l @ p))" and "t = PutUint32 trailerMagic"
  have m: "MarshalWALEntry e = c @ (l @ p) @ t"
    by (simp add: MarshalWALEntry_def Let_def c_def l_def p_def n_def t_def)
  have len: "length c = 4" "length l = 4" "length p = n" "length t = 4" "48 \<le> n" "n < 4294967296"
    using assms(1) padded_len_ge [of e]
    by (simp_all add: c_def l_def p_def n_def t_def entry_fits_def)
  consider "i < 4" | j where "i = 8 + j" "j < n" | j where "i = 8 + n + j" "j < 4"
    using assms(2,4) len unfolding m length_append
    by (metis add.assoc le_Suc_ex nat_add_left_cancel_less not_less numeral_Bit0)
  then show ?thesis
  proof cases
    case 1
    then have upd: "(MarshalWALEntry e)[i := x] = c[i := x] @ (l @ p) @ t"
      using len by (simp add: m list_update_append)
    have "Uint32 (c[i := x]) \<noteq> CRC32C (l @ p)"
      using assms(3) 1 unfolding m c_def by (intro Uint32_PutUint32_upd) (simp_all add: nth_append)
    with Unmarshal_frame(1) [of "c[i := x]" t p n spare] 1 len show ?thesis
      unfolding upd l_def n_def by simp
  next
    case 2
    then have upd: "(MarshalWALEntry e)[i := x] = c @ (l @ p[j := x]) @ t"
      using len by (simp add: m list_update_append)
    have "x \<noteq> (l @ p) ! (4 + j)"
      using assms(3) 2 len unfolding m by (simp add: nth_append)
    then have "CRC32C ((l @ p)[4 + j := x]) \<noteq> CRC32C (l @ p)"
      using 2 len by (intro CRC32C_one_byte) simp_all
    then have "CRC32C (l @ p[j := x]) \<noteq> Uint32 c"
      using 2 len by (simp add: c_def list_update_append)
    with Unmarshal_frame(1) [of c t "p[j := x]" n spare] 2 len show ?thesis
      unfolding upd l_def n_def by simp
  next
    case 3
    then have upd: "(MarshalWALEntry e)[i := x] = c @ (l @ p) @ t[j := x]"
      using len by (simp add: m list_update_append)
    have "Uint32 (t[j := x]) \<noteq> trailerMagic"
      using assms(3) 3 len unfolding m t_def
      by (intro Uint32_PutUint32_upd) (simp_all add: nth_append)
    moreover have "CRC32C (l @ p) = Uint32 c"
      by (simp add: c_def)
    ultimately have "UnmarshalWALEntry (c @ (l @ p) @ t[j := x]) spare = Err ErrWALTruncatedEntry"
      using len unfolding l_def by (intro Unmarshal_frame(2)) simp_all
    with 3 show ?thesis
      by (subst upd) (simp add: n_def)
  qed
qed

theorem wal_corruption_detected_witness:
  "let e = zero_entry\<lparr>LSN := 7, Key := [1], Value := [2]\<rparr>
   in UnmarshalWALEntry ((MarshalWALEntry e)[16 := 5]) [] = Err ErrWALChecksumMismatch"
proof -
  let ?e = "zero_entry\<lparr>LSN := 7, Key := [1], Value := [2]\<rparr>"
  have len: "padded_len ?e = 48"
    by (simp add: padded_len_def payload_len_def zero_entry_def)
  have "entry_fits ?e" "16 < length (MarshalWALEntry ?e)"
    by (simp_all add: entry_fits_def length_MarshalWALEntry len)
  moreover have "5 \<noteq> MarshalWALEntry ?e ! 16"
    by (simp add: marshal_fields zero_entry_def)
  ultimately show ?thesis
    using wal_corruption_detected [of ?e 16 5 "[]"] len by simp
qed

end
