(* ===== verification/Write_Buffer.thy ===== *)
theory Write_Buffer
  imports MVCC_Codec WAL_Codec "HOL-Library.AList"
begin

text \<open>
  The per-transaction write buffer (\<open>mvcc/write_buffer.go\<close>) and its conversion to log entries
  (\<open>mvcc/wal_integration.go\<close>).

  The Go map \<open>entries\<close> is an association list with distinct keys, whose order stands for the
  unspecified iteration order; keys are byte strings. \<open>ordered\<close> keeps the keys in the order
  they were first written and is not shortened when an insert is cancelled. Slices are copied
  by \<open>deepCopy\<close>, which maps nil to nil: on values it is the identity.
\<close>

section \<open>State\<close>

datatype write_op = OpInsert | OpUpdate | OpDelete

fun op_byte :: "write_op \<Rightarrow> byte" where
  "op_byte OpInsert = 0"
| "op_byte OpUpdate = 1"
| "op_byte OpDelete = 2"

record write_entry =
  weOp :: write_op
  weValue :: gslice
  OldValue :: gslice
  OldFlag :: byte
  OldBeginTS :: u64
  OldPrevFlag :: byte
  OldPrevVal :: gslice

record write_buffer =
  wbEntries :: "(bytes \<times> write_entry) list"
  wbOrdered :: "bytes list"

definition NewWriteBuffer :: write_buffer where
  "NewWriteBuffer = \<lparr>wbEntries = [], wbOrdered = []\<rparr>"

text \<open>The committed state of a key that \<open>Put\<close> and \<open>Delete\<close> receive: value (nil when there is
  none), flag, timestamp, and the flag and value of the version before it.\<close>

record old_version =
  ovValue :: gslice
  ovFlag :: byte
  ovBeginTS :: u64
  ovPrevFlag :: byte
  ovPrevVal :: gslice

definition no_version :: old_version where
  "no_version = \<lparr>ovValue = None, ovFlag = 0, ovBeginTS = 0, ovPrevFlag = 0, ovPrevVal = None\<rparr>"

section \<open>Operations\<close>

definition wbReset :: "write_buffer \<Rightarrow> write_buffer" where
  "wbReset wb = \<lparr>wbEntries = [], wbOrdered = []\<rparr>"

definition wbGet :: "bytes \<Rightarrow> write_buffer \<Rightarrow> write_entry option" where
  "wbGet key wb = map_of (wbEntries wb) key"

definition wbSetEntry :: "bytes \<Rightarrow> write_entry \<Rightarrow> write_buffer \<Rightarrow> write_buffer" where
  "wbSetEntry key e wb = wb\<lparr>wbEntries := AList.update key e (wbEntries wb)\<rparr>"

definition wbPut :: "bytes \<Rightarrow> gslice \<Rightarrow> old_version \<Rightarrow> write_buffer \<Rightarrow> write_buffer" where
  "wbPut key value old wb =
     (case wbGet key wb of
        None \<Rightarrow>
          let e = (if ovValue old = None
                   then \<lparr>weOp = OpInsert, weValue = value, OldValue = None, OldFlag = 0,
                         OldBeginTS = 0, OldPrevFlag = 0, OldPrevVal = None\<rparr>
                   else \<lparr>weOp = OpUpdate, weValue = value, OldValue = ovValue old,
                         OldFlag = ovFlag old, OldBeginTS = ovBeginTS old,
                         OldPrevFlag = ovPrevFlag old, OldPrevVal = ovPrevVal old\<rparr>)
          in (wbSetEntry key e wb)\<lparr>wbOrdered := wbOrdered wb @ [key]\<rparr>
      | Some existing \<Rightarrow>
          let op = (if weOp existing = OpDelete
                    then (if OldValue existing = None then OpInsert else OpUpdate)
                    else weOp existing)
          in wbSetEntry key (existing\<lparr>weValue := value, weOp := op\<rparr>) wb)"

definition wbDelete :: "bytes \<Rightarrow> old_version \<Rightarrow> write_buffer \<Rightarrow> unit outcome \<times> write_buffer" where
  "wbDelete key old wb =
     (case wbGet key wb of
        None \<Rightarrow>
          if ovValue old = None then (Err ErrKeyNotFound, wb)
          else
            let e = \<lparr>weOp = OpDelete, weValue = None, OldValue = ovValue old,
                     OldFlag = ovFlag old, OldBeginTS = ovBeginTS old,
                     OldPrevFlag = ovPrevFlag old, OldPrevVal = ovPrevVal old\<rparr>
            in (Ok (), (wbSetEntry key e wb)\<lparr>wbOrdered := wbOrdered wb @ [key]\<rparr>)
      | Some existing \<Rightarrow>
          if weOp existing = OpInsert
          then (Ok (), wb\<lparr>wbEntries := AList.delete key (wbEntries wb)\<rparr>)
          else (Ok (), wbSetEntry key (existing\<lparr>weOp := OpDelete, weValue := None\<rparr>) wb))"

definition wbOrderedKeys :: "write_buffer \<Rightarrow> bytes list" where
  "wbOrderedKeys wb = wbOrdered wb"

definition wbLen :: "write_buffer \<Rightarrow> nat" where
  "wbLen wb = length (wbEntries wb)"

definition wbKeys :: "write_buffer \<Rightarrow> bytes list" where
  "wbKeys wb = map fst (wbEntries wb)"

text \<open>\<open>Snapshot\<close> copies the map and the order; the copies share nothing with the buffer.\<close>

definition wbSnapshot :: "write_buffer \<Rightarrow> (bytes \<times> write_entry) list \<times> bytes list" where
  "wbSnapshot wb = (wbEntries wb, wbOrdered wb)"

section \<open>Log entries\<close>

fun wal_type_of :: "write_op \<Rightarrow> byte" where
  "wal_type_of OpInsert = WALTypeInsert"
| "wal_type_of OpUpdate = WALTypeUpdate"
| "wal_type_of OpDelete = WALTypeDelete"

definition live_entries :: "bytes list \<Rightarrow> write_buffer \<Rightarrow> (bytes \<times> write_entry) list" where
  "live_entries keys wb = List.map_filter (\<lambda>k. map_option (Pair k) (wbGet k wb)) keys"

definition wbWriteEntries :: "write_buffer \<Rightarrow> wal_entry list" where
  "wbWriteEntries wb =
     map (\<lambda>(k, e). zero_entry\<lparr>Type := wal_type_of (weOp e), Key := k, Value := slice_bytes (weValue e)\<rparr>)
       (live_entries (wbOrderedKeys wb) wb)"

definition CommitEntry :: "u64 \<Rightarrow> wal_entry" where
  "CommitEntry commitTS = zero_entry\<lparr>Type := WALTypeCommit, Key := PutUint64 commitTS\<rparr>"

definition ToWALEntries :: "u64 \<Rightarrow> write_buffer \<Rightarrow> wal_entry list" where
  "ToWALEntries commitTS wb = wbWriteEntries wb @ [CommitEntry commitTS]"

subsection \<open>TxPrepare\<close>

definition prepare_one :: "bytes \<times> write_entry \<Rightarrow> bytes" where
  "prepare_one = (\<lambda>(key, e).
     PutUint32 (of_nat (length key)) @ key @ [op_byte (weOp e)] @ [OldFlag e]
     @ PutUint64 (OldBeginTS e)
     @ PutUint32 (of_nat (length (slice_bytes (OldValue e)))) @ slice_bytes (OldValue e)
     @ [if weOp e = OpDelete then FlagTombstone else FlagNormal]
     @ PutUint32 (of_nat (length (slice_bytes (weValue e)))) @ slice_bytes (weValue e))"

text \<open>\<open>sort.Strings\<close> sorts the slice that \<open>OrderedKeys\<close> returns, which is the buffer's own. The
  count written in front is the length of that slice, cancelled inserts included.\<close>

definition TxPrepareEntry :: "u64 \<Rightarrow> write_buffer \<Rightarrow> wal_entry \<times> write_buffer" where
  "TxPrepareEntry txID wb =
     (let keys = sort (wbOrderedKeys wb);
          buf = PutUint32 (of_nat (length keys)) @ concat (map prepare_one (live_entries keys wb))
      in (zero_entry\<lparr>Type := WALTypeTxPrepare, Key := PutUint64 txID, Value := buf\<rparr>,
          wb\<lparr>wbOrdered := keys\<rparr>))"

record prepare_parsed =
  ppKey :: bytes
  ppOp :: byte
  ppOldFlag :: byte
  ppOldBeginTS :: u64
  ppOldValue :: gslice
  ppNewFlag :: byte
  ppNewValue :: gslice

text \<open>
  One round of the parsing loop on the bytes from the offset on; it returns the parsed entry
  and the bytes after it. The header check asks for 12 bytes where 14 are read. The copies of
  the values are made with \<open>make\<close>, so they are never nil.
\<close>

definition parse_prepare_one :: "bytes \<Rightarrow> (prepare_parsed \<times> bytes) outcome" where
  "parse_prepare_one buf =
     (if length buf < 4 then Err ErrMVCCTxPrepareCorrupted
      else let keyLen = unat (Uint32 (field 0 4 buf)); b1 = drop 4 buf in
      if length b1 < keyLen then Err ErrMVCCTxPrepareCorrupted
      else let key = take keyLen b1; b2 = drop keyLen b1 in
      if length b2 < 12 then Err ErrMVCCTxPrepareCorrupted
      else if length b2 < 14 then Panic
      else let oldValLen = unat (Uint32 (field 10 4 b2)); b3 = drop 14 b2 in
      if length b3 < oldValLen then Err ErrMVCCTxPrepareCorrupted
      else let oldVal = take oldValLen b3; b4 = drop oldValLen b3 in
      if length b4 < 5 then Err ErrMVCCTxPrepareCorrupted
      else let newValLen = unat (Uint32 (field 1 4 b4)); b5 = drop 5 b4 in
      if length b5 < newValLen then Err ErrMVCCTxPrepareCorrupted
      else Ok (\<lparr>ppKey = key, ppOp = b2 ! 0, ppOldFlag = b2 ! 1,
                ppOldBeginTS = Uint64 (field 2 8 b2), ppOldValue = Some oldVal,
                ppNewFlag = b4 ! 0, ppNewValue = Some (take newValLen b5)\<rparr>, drop newValLen b5))"

fun parse_prepare_entries :: "nat \<Rightarrow> bytes \<Rightarrow> prepare_parsed list outcome" where
  "parse_prepare_entries 0 buf = Ok []"
| "parse_prepare_entries (Suc n) buf =
     bind_outcome (parse_prepare_one buf) (\<lambda>(e, rest).
       bind_outcome (parse_prepare_entries n rest) (\<lambda>es. Ok (e # es)))"

definition ParseTxPrepareEntry :: "wal_entry \<Rightarrow> (u64 \<times> prepare_parsed list) outcome" where
  "ParseTxPrepareEntry e =
     (if Type e \<noteq> WALTypeTxPrepare then Err ErrMVCCTxPrepareCorrupted
      else if length (Key e) < 8 then Err ErrMVCCTxPrepareCorrupted
      else if length (Value e) < 4 then Err ErrMVCCTxPrepareCorrupted
      else bind_outcome
             (parse_prepare_entries (unat (Uint32 (field 0 4 (Value e)))) (drop 4 (Value e)))
             (\<lambda>es. Ok (Uint64 (field 0 8 (Key e)), es)))"

section \<open>The invariant\<close>

text \<open>
  Keys of the map are distinct and recorded in \<open>ordered\<close>; an insert carries no old value, an
  update or delete carries one; a delete carries no new value.
\<close>

definition entry_inv :: "write_entry \<Rightarrow> bool" where
  "entry_inv e \<longleftrightarrow> (weOp e = OpInsert \<longleftrightarrow> OldValue e = None) \<and> (weOp e = OpDelete \<longrightarrow> weValue e = None)"

definition wb_inv :: "write_buffer \<Rightarrow> bool" where
  "wb_inv wb \<longleftrightarrow> distinct (map fst (wbEntries wb)) \<and>
     fst ` set (wbEntries wb) \<subseteq> set (wbOrdered wb) \<and>
     list_all (\<lambda>(k, e). entry_inv e) (wbEntries wb)"

text \<open>What a transaction reads of its own writes: nothing recorded, a value, or a deletion.\<close>

fun overlay :: "write_entry option \<Rightarrow> gslice option option" where
  "overlay None = None"
| "overlay (Some e) = (if weOp e = OpDelete then Some None else Some (Some (weValue e)))"

subsection \<open>Lookup laws\<close>

lemma wbGet_new [simp]: "wbGet k NewWriteBuffer = None" "wbGet k (wbReset wb) = None"
  by (simp_all add: wbGet_def NewWriteBuffer_def wbReset_def)

lemma wbGet_SetEntry [simp]:
  "wbGet k (wbSetEntry key e wb) = (if k = key then Some e else wbGet k wb)"
  by (simp add: wbGet_def wbSetEntry_def update_conv')

lemma wbGet_ordered [simp]: "wbGet k (wb\<lparr>wbOrdered := ks\<rparr>) = wbGet k wb"
  by (simp add: wbGet_def)

lemma wbGet_delete [simp]:
  "wbGet k (wb\<lparr>wbEntries := AList.delete key (wbEntries wb)\<rparr>) = (if k = key then None else wbGet k wb)"
  by (simp add: wbGet_def delete_conv')

lemma wbOrdered_SetEntry [simp]: "wbOrdered (wbSetEntry key e wb) = wbOrdered wb"
  by (simp add: wbSetEntry_def)

lemma wbPut_other: "k \<noteq> key \<Longrightarrow> wbGet k (wbPut key v old wb) = wbGet k wb"
  by (simp add: wbPut_def Let_def split: option.split)

lemma wbDelete_other: "k \<noteq> key \<Longrightarrow> wbGet k (snd (wbDelete key old wb)) = wbGet k wb"
  by (simp add: wbDelete_def Let_def split: option.split)

lemma wb_inv_entry: "wb_inv wb \<Longrightarrow> wbGet k wb = Some e \<Longrightarrow> entry_inv e"
  by (auto simp: wb_inv_def wbGet_def list_all_iff dest: map_of_SomeD)

lemma wb_inv_ordered: "wb_inv wb \<Longrightarrow> wbGet k wb = Some e \<Longrightarrow> k \<in> set (wbOrdered wb)"
  by (auto simp: wb_inv_def wbGet_def dest: map_of_SomeD)

lemma wb_inv_new: "wb_inv NewWriteBuffer" "wb_inv (wbReset wb)"
  by (simp_all add: wb_inv_def NewWriteBuffer_def wbReset_def)

lemma alist_update_subset: "set (AList.update k v al) \<subseteq> insert (k, v) (set al)"
  by (induction al) auto

lemma alist_delete_subset: "set (AList.delete k al) \<subseteq> set al"
  by (auto simp: AList.delete_eq)

lemma wb_inv_SetEntry:
  assumes "wb_inv wb" "entry_inv e"
  shows "wb_inv ((wbSetEntry key e wb)\<lparr>wbOrdered := wbOrdered wb @ [key]\<rparr>)"
    and "key \<in> set (wbOrdered wb) \<Longrightarrow> wb_inv (wbSetEntry key e wb)"
proof -
  have *: "list_all (\<lambda>(k, e). entry_inv e) (AList.update key e (wbEntries wb))"
    using assms alist_update_subset [of key e "wbEntries wb"] by (auto simp: wb_inv_def list_all_iff)
  show "wb_inv ((wbSetEntry key e wb)\<lparr>wbOrdered := wbOrdered wb @ [key]\<rparr>)"
    and "key \<in> set (wbOrdered wb) \<Longrightarrow> wb_inv (wbSetEntry key e wb)"
    using assms * by (auto simp: wb_inv_def wbSetEntry_def distinct_update dom_update)
qed

lemma wb_inv_cancel:
  "wb_inv wb \<Longrightarrow> wb_inv (wb\<lparr>wbEntries := AList.delete key (wbEntries wb)\<rparr>)"
  using alist_delete_subset [of key "wbEntries wb"]
  by (auto simp: wb_inv_def distinct_delete list_all_iff)

lemma wb_inv_Put:
  assumes "wb_inv wb"
  shows "wb_inv (wbPut key v old wb)"
proof (cases "wbGet key wb")
  case None
  then show ?thesis
    using wb_inv_SetEntry(1) [OF assms] by (simp add: wbPut_def Let_def entry_inv_def)
next
  case (Some e)
  with assms have "entry_inv e" "key \<in> set (wbOrdered wb)"
    by (simp_all add: wb_inv_entry wb_inv_ordered)
  with Some wb_inv_SetEntry(2) [OF assms] show ?thesis
    by (simp add: wbPut_def Let_def entry_inv_def)
qed

lemma wb_inv_Delete:
  assumes "wb_inv wb"
  shows "wb_inv (snd (wbDelete key old wb))"
proof (cases "wbGet key wb")
  case None
  then show ?thesis
    using assms wb_inv_SetEntry(1) [OF assms] by (simp add: wbDelete_def Let_def entry_inv_def)
next
  case (Some e)
  with assms have "entry_inv e" "key \<in> set (wbOrdered wb)"
    by (simp_all add: wb_inv_entry wb_inv_ordered)
  with Some wb_inv_SetEntry(2) [OF assms] wb_inv_cancel [OF assms] show ?thesis
    by (simp add: wbDelete_def entry_inv_def)
qed

section \<open>The buffer refines a map\<close>

text \<open>
  While the key locks are held the committed versions do not change, so a run of writes works
  against a fixed \<open>base\<close>. The abstract state maps a key to its value, absent keys to \<open>None\<close>.
\<close>

datatype wb_cmd = CPut bytes gslice | CDelete bytes

definition base_view :: "(bytes \<Rightarrow> old_version) \<Rightarrow> bytes \<Rightarrow> gslice option" where
  "base_view base k = (if ovValue (base k) = None then None else Some (ovValue (base k)))"

definition wb_view :: "(bytes \<Rightarrow> old_version) \<Rightarrow> write_buffer \<Rightarrow> bytes \<Rightarrow> gslice option" where
  "wb_view base wb k = (case overlay (wbGet k wb) of None \<Rightarrow> base_view base k | Some x \<Rightarrow> x)"

fun exec_cmd :: "(bytes \<Rightarrow> old_version) \<Rightarrow> wb_cmd \<Rightarrow> write_buffer \<Rightarrow> write_buffer" where
  "exec_cmd base (CPut k v) wb = wbPut k v (base k) wb"
| "exec_cmd base (CDelete k) wb = snd (wbDelete k (base k) wb)"

fun spec_cmd :: "wb_cmd \<Rightarrow> (bytes \<Rightarrow> gslice option) \<Rightarrow> bytes \<Rightarrow> gslice option" where
  "spec_cmd (CPut k v) m = m(k := Some v)"
| "spec_cmd (CDelete k) m = m(k := None)"

definition wb_rel :: "(bytes \<Rightarrow> old_version) \<Rightarrow> write_buffer \<Rightarrow> bool" where
  "wb_rel base wb \<longleftrightarrow> wb_inv wb \<and> (\<forall>k e. wbGet k wb = Some e \<longrightarrow> OldValue e = ovValue (base k))"

lemma wb_rel_Put: "wb_rel base wb \<Longrightarrow> wb_rel base (wbPut k v (base k) wb)"
  unfolding wb_rel_def
  by (auto simp: wb_inv_Put) (auto simp: wbPut_def Let_def split: option.splits if_splits)

lemma wb_rel_Delete: "wb_rel base wb \<Longrightarrow> wb_rel base (snd (wbDelete k (base k) wb))"
  unfolding wb_rel_def
  by (auto simp: wb_inv_Delete) (auto simp: wbDelete_def Let_def split: option.splits if_splits)

lemma wb_rel_exec: "wb_rel base wb \<Longrightarrow> wb_rel base (exec_cmd base c wb)"
  by (cases c) (auto simp: wb_rel_Put wb_rel_Delete)

lemma wb_view_Put:
  assumes "wb_rel base wb"
  shows "wb_view base (wbPut k v (base k) wb) = (wb_view base wb)(k := Some v)"
proof
  fix k'
  show "wb_view base (wbPut k v (base k) wb) k' = ((wb_view base wb)(k := Some v)) k'"
    using assms
    by (cases "k' = k") (auto simp: wb_view_def wbPut_other wbPut_def Let_def split: option.splits)
qed

lemma wb_view_Delete:
  assumes "wb_rel base wb"
  shows "wb_view base (snd (wbDelete k (base k) wb)) = (wb_view base wb)(k := None)"
proof
  fix k'
  show "wb_view base (snd (wbDelete k (base k) wb)) k' = ((wb_view base wb)(k := None)) k'"
    using assms
    by (cases "k' = k")
      (auto simp: wb_view_def wbDelete_other wbDelete_def Let_def base_view_def wb_rel_def
        entry_inv_def dest!: wb_inv_entry split: option.splits)
qed

lemma wb_run_refines:
  "wb_rel base wb \<Longrightarrow>
   wb_rel base (fold (exec_cmd base) cs wb) \<and>
   wb_view base (fold (exec_cmd base) cs wb) = fold spec_cmd cs (wb_view base wb)"
proof (induction cs arbitrary: wb)
  case Nil
  then show ?case by simp
next
  case (Cons c cs)
  have "wb_view base (exec_cmd base c wb) = spec_cmd c (wb_view base wb)"
    using Cons.prems by (cases c) (simp_all add: wb_view_Put wb_view_Delete)
  with Cons wb_rel_exec [OF Cons.prems] show ?case by simp
qed

text \<open>Claim C31. A write buffer filled by any sequence of puts and deletes against fixed committed
  versions shows exactly the map that the sequence describes: the last put of a key is read
  back, a deleted key is absent, other keys keep their committed value. This holds through the
  cancelled inserts, restored deletes and repeated writes that the buffer treats specially,
  and the buffer stays well formed.\<close>

theorem write_buffer_refines_map:
  "wb_inv (fold (exec_cmd base) cs NewWriteBuffer) \<and>
   wb_view base (fold (exec_cmd base) cs NewWriteBuffer) = fold spec_cmd cs (base_view base)"
proof -
  have "wb_rel base NewWriteBuffer"
    by (simp add: wb_rel_def wb_inv_new)
  moreover have "wb_view base NewWriteBuffer = base_view base"
    by (rule ext) (simp add: wb_view_def)
  ultimately show ?thesis
    using wb_run_refines [of base NewWriteBuffer cs] by (simp add: wb_rel_def)
qed

text \<open>Deleting a key fails exactly when the transaction sees neither a buffered write of it
  nor a committed value; the buffer is then unchanged, and otherwise the key reads as absent.\<close>

theorem wb_delete_result:
  "fst (wbDelete key old wb) =
     (if wbGet key wb = None \<and> ovValue old = None then Err ErrKeyNotFound else Ok ()) \<and>
   (fst (wbDelete key old wb) = Ok () \<or> snd (wbDelete key old wb) = wb)"
  by (auto simp: wbDelete_def Let_def split: option.split)

section \<open>The prepare record\<close>

definition prepared :: "bytes \<times> write_entry \<Rightarrow> prepare_parsed" where
  "prepared = (\<lambda>(key, e).
     \<lparr>ppKey = key, ppOp = op_byte (weOp e), ppOldFlag = OldFlag e, ppOldBeginTS = OldBeginTS e,
      ppOldValue = Some (slice_bytes (OldValue e)),
      ppNewFlag = (if weOp e = OpDelete then FlagTombstone else FlagNormal),
      ppNewValue = Some (slice_bytes (weValue e))\<rparr>)"

definition prepare_fits :: "bytes \<times> write_entry \<Rightarrow> bool" where
  "prepare_fits = (\<lambda>(key, e). length key < 4294967296 \<and>
     length (slice_bytes (OldValue e)) < 4294967296 \<and> length (slice_bytes (weValue e)) < 4294967296)"

definition wb_fits :: "write_buffer \<Rightarrow> bool" where
  "wb_fits wb \<longleftrightarrow> length (wbOrdered wb) < 4294967296 \<and> list_all prepare_fits (wbEntries wb)"

lemma parse_prepare_one_prepare:
  assumes "prepare_fits ke"
  shows "parse_prepare_one (prepare_one ke @ rest) = Ok (prepared ke, rest)"
proof -
  obtain key e where ke: "ke = (key, e)" by (cases ke)
  have len: "unat (of_nat (length key) :: u32) = length key"
    "unat (of_nat (length (slice_bytes (OldValue e))) :: u32) = length (slice_bytes (OldValue e))"
    "unat (of_nat (length (slice_bytes (weValue e))) :: u32) = length (slice_bytes (weValue e))"
    using assms by (simp_all add: ke prepare_fits_def)
  show ?thesis
    by (simp add: parse_prepare_one_def prepare_one_def prepared_def ke Let_def len field_def)
qed

lemma parse_prepare_entries_prepare:
  assumes "list_all prepare_fits kes"
  shows "parse_prepare_entries n (concat (map prepare_one kes)) =
    (if n \<le> length kes then Ok (map prepared (take n kes)) else Err ErrMVCCTxPrepareCorrupted)"
  using assms
proof (induction n arbitrary: kes)
  case 0
  then show ?case by simp
next
  case (Suc n)
  show ?case
  proof (cases kes)
    case Nil
    then show ?thesis by (simp add: parse_prepare_one_def)
  next
    case (Cons ke kes')
    with Suc.prems Suc.IH [of kes'] show ?thesis
      by (simp add: parse_prepare_one_prepare)
  qed
qed

lemma live_entries_simps [simp]:
  "live_entries [] wb = []"
  "live_entries (k # ks) wb =
     (case wbGet k wb of None \<Rightarrow> live_entries ks wb | Some e \<Rightarrow> (k, e) # live_entries ks wb)"
  by (simp_all add: live_entries_def map_filter_def split: option.split)

lemma set_live_entries: "(k, e) \<in> set (live_entries ks wb) \<longleftrightarrow> k \<in> set ks \<and> wbGet k wb = Some e"
  by (induction ks) (auto split: option.splits)

lemma live_entries_ordered [simp]: "live_entries ks (wb\<lparr>wbOrdered := os\<rparr>) = live_entries ks wb"
  by (simp add: live_entries_def)

lemma live_entries_fits:
  "list_all prepare_fits (wbEntries wb) \<Longrightarrow> list_all prepare_fits (live_entries keys wb)"
  by (auto simp: live_entries_def list_all_iff map_filter_def wbGet_def dest: map_of_SomeD)

lemma length_live_entries_le: "length (live_entries keys wb) \<le> length keys"
  by (simp add: live_entries_def map_filter_def)

lemma length_live_entries_eq:
  "length (live_entries keys wb) = length keys \<longleftrightarrow> (\<forall>k \<in> set keys. wbGet k wb \<noteq> None)"
proof (induction keys)
  case Nil
  then show ?case by (simp add: live_entries_def map_filter_def)
next
  case (Cons k keys)
  with Cons length_live_entries_le [of keys wb] show ?case
    by (simp split: option.split)
qed

lemma ParseTxPrepareEntry_prepare:
  assumes "wb_fits wb"
  shows "ParseTxPrepareEntry (fst (TxPrepareEntry txID wb)) =
    (if list_all (\<lambda>k. wbGet k wb \<noteq> None) (wbOrdered wb)
     then Ok (txID, map prepared (live_entries (sort (wbOrdered wb)) wb))
     else Err ErrMVCCTxPrepareCorrupted)"
proof -
  let ?keys = "sort (wbOrdered wb)"
  let ?live = "live_entries ?keys wb"
  have "unat (of_nat (length (wbOrdered wb)) :: u32) = length (wbOrdered wb)"
    and fits: "list_all prepare_fits ?live"
    using assms by (simp_all add: wb_fits_def live_entries_fits)
  then have parse: "ParseTxPrepareEntry (fst (TxPrepareEntry txID wb)) =
      bind_outcome (parse_prepare_entries (length (wbOrdered wb)) (concat (map prepare_one ?live)))
        (\<lambda>es. Ok (txID, es))"
    by (simp add: ParseTxPrepareEntry_def TxPrepareEntry_def Let_def wbOrderedKeys_def zero_entry_def)
  have len: "length ?live \<le> length (wbOrdered wb)"
    using length_live_entries_le [of ?keys wb] by simp
  have "list_all (\<lambda>k. wbGet k wb \<noteq> None) (wbOrdered wb) \<longleftrightarrow> length ?live = length (wbOrdered wb)"
    using length_live_entries_eq [of ?keys wb] by (simp add: list_all_iff)
  with parse len show ?thesis
    by (simp add: parse_prepare_entries_prepare [OF fits])
qed

text \<open>The prepare record of a buffer is parsed back to the transaction id and to one entry per
  written key, in key order, with the old and the new value of each, as long as every key
  that was ever written is still in the buffer. When an insert has been cancelled by a delete
  the record announces more entries than it holds and is rejected as corrupted.\<close>

theorem tx_prepare_roundtrip:
  assumes "wb_fits wb"
  shows "ParseTxPrepareEntry (fst (TxPrepareEntry txID wb)) =
    (if list_all (\<lambda>k. wbGet k wb \<noteq> None) (wbOrdered wb)
     then Ok (txID, map prepared (live_entries (sort (wbOrdered wb)) wb))
     else Err ErrMVCCTxPrepareCorrupted)"
  using assms by (rule ParseTxPrepareEntry_prepare)

theorem tx_prepare_roundtrip_witness:
  "let wb = snd (wbDelete [2] no_version (wbPut [2] (Some [7]) no_version
              (wbPut [1] (Some [9]) (no_version\<lparr>ovValue := Some [8], ovBeginTS := 4\<rparr>) NewWriteBuffer)))
   in wb_fits wb \<and> ParseTxPrepareEntry (fst (TxPrepareEntry 5 wb)) = Err ErrMVCCTxPrepareCorrupted"
proof -
  let ?wb = "snd (wbDelete [2] no_version (wbPut [2] (Some [7]) no_version
    (wbPut [1] (Some [9]) (no_version\<lparr>ovValue := Some [8], ovBeginTS := 4\<rparr>) NewWriteBuffer)))"
  have "wb_fits ?wb" and "\<not> list_all (\<lambda>k. wbGet k ?wb \<noteq> None) (wbOrdered ?wb)"
    by (simp_all add: wb_fits_def wbDelete_def wbPut_def wbGet_def wbSetEntry_def NewWriteBuffer_def
        no_version_def prepare_fits_def)
  with tx_prepare_roundtrip [of ?wb 5] show ?thesis
    by (simp only: Let_def) simp
qed

text \<open>A prepare record that ends 12 or 13 bytes after a key makes the parser panic instead of
  reporting corruption: the header check asks for 12 bytes and 14 are read.\<close>

theorem tx_prepare_short_header_panics:
  assumes "length key < 4294967296" "length tail = 12 \<or> length tail = 13"
  shows "ParseTxPrepareEntry (zero_entry\<lparr>Type := WALTypeTxPrepare, Key := PutUint64 txID,
    Value := PutUint32 1 @ PutUint32 (of_nat (length key)) @ key @ tail\<rparr>) = Panic"
proof -
  have "parse_prepare_one (PutUint32 (of_nat (length key)) @ key @ tail) = Panic"
    using assms by (auto simp: parse_prepare_one_def Let_def)
  then show ?thesis
    by (simp add: ParseTxPrepareEntry_def zero_entry_def)
qed

theorem tx_prepare_short_header_panics_witness:
  "ParseTxPrepareEntry (zero_entry\<lparr>Type := WALTypeTxPrepare, Key := PutUint64 1,
    Value := PutUint32 1 @ PutUint32 (of_nat (length [7 :: byte])) @ [7] @ replicate 13 0\<rparr>) = Panic"
  by (rule tx_prepare_short_header_panics) simp_all

end
