(* ===== verification/Tx_Support.thy ===== *)
theory Tx_Support
  imports NexKV_Prelude "HOL-Library.AList"
begin

text \<open>
  The parts the transaction engine is built from: the timestamp generator
  (\<open>mvcc/ts_generator.go\<close>), the per-key spin lock (\<open>mvcc/key_lock.go\<close>), the registry of active
  transactions (\<open>mvcc/active_tx_registry.go\<close>) and the statistics of the garbage collector
  (\<open>mvcc/gc.go\<close>). Each method of the registry runs under its mutex, so it is one step.
\<close>

section \<open>Timestamps\<close>

text \<open>\<open>counter.Add(1)\<close> wraps; the wrapped value 0 is the overflow panic, and stays stored.\<close>

definition NextTS :: "u64 \<Rightarrow> u64 outcome \<times> u64" where
  "NextTS counter = (let ts = counter + 1 in if ts = 0 then (Panic, ts) else (Ok ts, ts))"

definition CurrentTS :: "u64 \<Rightarrow> u64" where
  "CurrentTS counter = counter"

lemma NextTS_Ok_iff:
  "NextTS c = (Ok ts, c') \<longleftrightarrow> ts = c + 1 \<and> c' = c + 1 \<and> c + 1 \<noteq> 0"
  by (auto simp: NextTS_def Let_def)

lemma unat_plus_one: "c + 1 \<noteq> 0 \<Longrightarrow> unat (c + 1 :: u64) = Suc (unat c)"
  using unatSuc [of c] by (simp add: add.commute)

lemma plus_one_gt: "c + 1 \<noteq> 0 \<Longrightarrow> c < (c + 1 :: u64)"
  by (simp add: word_less_nat_alt unat_plus_one)

lemma NextTS_gt: "NextTS c = (Ok ts, c') \<Longrightarrow> c < ts \<and> c' = ts \<and> ts \<noteq> 0"
  by (auto simp: NextTS_Ok_iff plus_one_gt)

text \<open>\<open>n\<close> calls in a row.\<close>

fun ts_run :: "nat \<Rightarrow> u64 \<Rightarrow> u64 list outcome" where
  "ts_run 0 c = Ok []"
| "ts_run (Suc n) c = (case NextTS c of
     (Ok ts, c') \<Rightarrow> bind_outcome (ts_run n c') (\<lambda>tss. Ok (ts # tss))
   | (Err e, c') \<Rightarrow> Err e
   | (Panic, c') \<Rightarrow> Panic)"

lemma ts_run_increasing:
  "ts_run n c = Ok tss \<Longrightarrow> length tss = n \<and> sorted_wrt (<) (c # tss)"
proof (induction n arbitrary: c tss)
  case 0
  then show ?case by simp
next
  case (Suc n)
  then obtain ts tss' where "NextTS c = (Ok ts, ts)" "ts_run n ts = Ok tss'" "tss = ts # tss'"
    by (auto simp: outcome_simps NextTS_def Let_def split: if_splits)
  with Suc.IH NextTS_gt [of c ts ts] show ?case
    by fastforce
qed

lemma NextTS_total: "Suc (unat c) < 18446744073709551616 \<Longrightarrow> NextTS c = (Ok (c + 1), c + 1)"
proof -
  assume "Suc (unat c) < 18446744073709551616"
  then have "unat (c + 1) = Suc (unat c)"
    by (simp add: unat_word_ariths)
  then have "c + 1 \<noteq> 0"
    by (metis nat.simps(3) unat_0)
  then show ?thesis
    by (simp add: NextTS_def Let_def)
qed

section \<open>Key locks\<close>

text \<open>
  \<open>Lock\<close> tries the compare-and-swap at most 1000 times, yielding in between. \<open>held i\<close> says
  whether another owner holds the lock at the \<open>i\<close>-th attempt. \<open>Unlock\<close> is a compare-and-swap
  from true to false.
\<close>

definition maxRetries :: nat where "maxRetries = 1000"

fun lock_spin :: "nat \<Rightarrow> (nat \<Rightarrow> bool) \<Rightarrow> nat \<Rightarrow> unit outcome" where
  "lock_spin 0 held i = Err ErrLockTimeout"
| "lock_spin (Suc n) held i = (if held i then lock_spin n held (Suc i) else Ok ())"

definition keyLockLock :: "(nat \<Rightarrow> bool) \<Rightarrow> unit outcome" where
  "keyLockLock held = lock_spin maxRetries held 0"

definition keyLockUnlock :: "bool \<Rightarrow> bool" where
  "keyLockUnlock locked = (if locked then False else locked)"

lemma lock_spin_iff: "lock_spin n held i = Ok () \<longleftrightarrow> (\<exists>j < n. \<not> held (i + j))"
proof (induction n arbitrary: i)
  case 0
  then show ?case by simp
next
  case (Suc n)
  then show ?case
    by (auto simp: less_Suc_eq_0_disj)
qed

lemma lock_spin_cases: "lock_spin n held i = Ok () \<or> lock_spin n held i = Err ErrLockTimeout"
  by (induction n arbitrary: i) auto

lemma keyLockLock_const [simp]:
  "keyLockLock (\<lambda>_. b) = (if b then Err ErrLockTimeout else Ok ())"
proof -
  have "lock_spin n (\<lambda>_. True) i = Err ErrLockTimeout" for n i
    by (induction n arbitrary: i) auto
  then show ?thesis
    using lock_spin_iff [of maxRetries "\<lambda>_. b" 0] zero_less_numeral
    by (auto simp: keyLockLock_def maxRetries_def intro: exI [of _ 0])
qed

section \<open>The registry of active transactions\<close>

record registry =
  regTxs :: "(u64 \<times> u64) list"
  remoteWatermarks :: "(string \<times> u64) list"

definition NewActiveTxRegistry :: registry where
  "NewActiveTxRegistry = \<lparr>regTxs = [], remoteWatermarks = []\<rparr>"

definition Register :: "u64 \<Rightarrow> u64 \<Rightarrow> registry \<Rightarrow> registry" where
  "Register txID snapshotTS r = r\<lparr>regTxs := AList.update txID snapshotTS (regTxs r)\<rparr>"

definition Unregister :: "u64 \<Rightarrow> registry \<Rightarrow> registry" where
  "Unregister txID r = r\<lparr>regTxs := AList.delete txID (regTxs r)\<rparr>"

definition Watermark :: "registry \<Rightarrow> u64" where
  "Watermark r = (if length (regTxs r) = 0 then 0
     else foldl (\<lambda>m (i, ts). if ts < m then ts else m) (NOT 0) (regTxs r))"

definition SetRemoteWatermark :: "string \<Rightarrow> u64 \<Rightarrow> registry \<Rightarrow> registry" where
  "SetRemoteWatermark nodeID watermark r =
     (let existing = (case map_of (remoteWatermarks r) nodeID of None \<Rightarrow> 0 | Some w \<Rightarrow> w)
      in if existing < watermark
         then r\<lparr>remoteWatermarks := AList.update nodeID watermark (remoteWatermarks r)\<rparr> else r)"

definition RemoveRemoteWatermark :: "string \<Rightarrow> registry \<Rightarrow> registry" where
  "RemoveRemoteWatermark nodeID r = r\<lparr>remoteWatermarks := AList.delete nodeID (remoteWatermarks r)\<rparr>"

definition ActiveCount :: "registry \<Rightarrow> nat" where
  "ActiveCount r = length (regTxs r)"

lemma foldl_min_ts:
  "foldl (\<lambda>m (i, ts). if ts < m then ts else m) m0 xs = fold min (map snd xs) (m0 :: u64)"
proof (induction xs arbitrary: m0)
  case Nil
  then show ?case by simp
next
  case (Cons x xs)
  have "(case x of (i, ts) \<Rightarrow> if ts < m0 then ts else m0) = min (snd x) m0"
    by (cases x) (auto simp: min_def)
  with Cons show ?case by simp
qed

lemma Watermark_Min:
  assumes "regTxs r \<noteq> []"
  shows "Watermark r = Min (snd ` set (regTxs r))"
proof -
  obtain x xs where xs: "map snd (regTxs r) = x # xs"
    using assms by (cases "regTxs r") auto
  have "Watermark r = fold min (x # xs) (NOT 0)"
    using assms by (simp add: Watermark_def foldl_min_ts flip: xs)
  also have "\<dots> = fold min xs x"
    by (simp add: min_def)
  also have "\<dots> = Min (set (x # xs))"
    by (rule Min.set_eq_fold [symmetric])
  finally show ?thesis
    by (simp add: image_set xs)
qed

section \<open>Garbage collection\<close>

record gc_stats =
  Cycles :: u64
  TotalReclaimed :: u64
  LastWatermark :: u64
  LastDurationMs :: int

text \<open>One cycle, with the elapsed time it measures: versions are inline, so it only records the
  watermark.\<close>

definition gcCycle :: "int \<Rightarrow> registry \<Rightarrow> u64 \<Rightarrow> gc_stats \<Rightarrow> gc_stats" where
  "gcCycle elapsed r counter s =
     (let watermark = (if Watermark r = 0 then CurrentTS counter else Watermark r)
      in s\<lparr>Cycles := Cycles s + 1, LastWatermark := watermark, LastDurationMs := elapsed\<rparr>)"

section \<open>Properties\<close>

lemma ts_run_total: "unat c + n < 18446744073709551616 \<Longrightarrow> \<exists>tss. ts_run n c = Ok tss"
proof (induction n arbitrary: c)
  case 0
  then show ?case by simp
next
  case (Suc n)
  then have nxt: "NextTS c = (Ok (c + 1), c + 1)"
    by (simp add: NextTS_total)
  then have "unat (c + 1) = Suc (unat c)"
    using NextTS_Ok_iff unat_plus_one by blast
  with Suc obtain tss where "ts_run n (c + 1) = Ok tss"
    by (metis add_Suc add_Suc_right)
  with nxt show ?case by simp
qed

text \<open>Until the 64-bit counter is exhausted, a run of \<open>NextTS\<close> calls returns, and the
  timestamps are above the starting value and strictly increasing.\<close>

theorem ts_strictly_increasing:
  assumes "unat c + n < 18446744073709551616"
  shows "\<exists>tss. ts_run n c = Ok tss \<and> length tss = n \<and> sorted_wrt (<) (c # tss)"
  using ts_run_total [OF assms] ts_run_increasing by blast

theorem ts_strictly_increasing_witness:
  "\<exists>tss. ts_run 5 7 = Ok tss \<and> length tss = 5 \<and> sorted_wrt (<) (7 # tss)"
  by (rule ts_strictly_increasing) simp

text \<open>A lock request succeeds exactly when one of its 1000 attempts finds the lock free, and
  otherwise reports the timeout.\<close>

theorem key_lock_result:
  "keyLockLock held = (if \<exists>i < 1000. \<not> held i then Ok () else Err ErrLockTimeout)"
  using lock_spin_iff [of 1000 held 0] lock_spin_cases [of 1000 held 0]
  by (auto simp: keyLockLock_def maxRetries_def)

text \<open>The watermark is the smallest snapshot among the active transactions: no active
  transaction reads below it, and one reads exactly at it.\<close>

theorem watermark_is_minimum:
  assumes "map_of (regTxs r) txID = Some ts"
  shows "Watermark r \<le> ts \<and> (\<exists>i. (i, Watermark r) \<in> set (regTxs r))"
proof -
  have "(txID, ts) \<in> set (regTxs r)" "regTxs r \<noteq> []"
    using assms by (auto dest: map_of_SomeD)
  then have "Watermark r = Min (snd ` set (regTxs r))" and ts: "ts \<in> snd ` set (regTxs r)"
    by (simp_all add: Watermark_Min rev_image_eqI)
  moreover have "Min (snd ` set (regTxs r)) \<in> snd ` set (regTxs r)"
    using ts by (intro Min_in) auto
  ultimately show ?thesis
    using Min_le [of "snd ` set (regTxs r)" ts] by auto
qed

theorem watermark_is_minimum_witness:
  "let r = Register 2 5 (Register 1 9 NewActiveTxRegistry)
   in Watermark r \<le> 9 \<and> (\<exists>i. (i, Watermark r) \<in> set (regTxs r))"
  unfolding Let_def
  by (rule watermark_is_minimum [where txID = 1]) (simp add: Register_def NewActiveTxRegistry_def)

end
