(* ===== verification/Transaction.thy ===== *)
theory Transaction
  imports Write_Buffer Tx_Support
begin

text \<open>
  The transaction engine (\<open>mvcc/transaction.go\<close>): the manager \<open>txManager\<close> and the transaction
  \<open>SnapshotTx\<close>.

  The manager's record has the fields of the Go struct. Interfaces it only calls
  (\<open>StorageBackend\<close>, \<open>WALWriter\<close>, the LOB managers and \<open>LOBEpochRetirer\<close>) are records of
  functions, next to the state they work on (\<open>store\<close>, \<open>walState\<close>, \<open>world\<close>). An operation
  takes the manager and the transaction and returns its result with both updated. A Go context
  is only handed to the storage, which may answer it with an error like any other.

  Operations of different transactions interleave as whole calls. A lock request that spins
  until the owner releases the lock is the same call made after the release; one that finds
  the lock held at all its attempts is the timeout.
\<close>

section \<open>Interfaces\<close>

record 's storage_backend =
  beGetRaw :: "bytes \<Rightarrow> 's \<Rightarrow> gslice outcome"
  beSet :: "bytes \<Rightarrow> bytes \<Rightarrow> 's \<Rightarrow> unit outcome \<times> 's"
  beDelete :: "bytes \<Rightarrow> 's \<Rightarrow> unit outcome \<times> 's"
  beSetBatch :: "(bytes \<times> bytes) list \<Rightarrow> 's \<Rightarrow> nat outcome \<times> 's"
  beGetBatchRaw :: "bytes list \<Rightarrow> 's \<Rightarrow> gslice list outcome"

record 'l wal_writer =
  wwAppend :: "wal_entry \<Rightarrow> 'l \<Rightarrow> u64 outcome \<times> 'l"
  wwAppendBatch :: "wal_entry list \<Rightarrow> 'l \<Rightarrow> u64 list outcome \<times> 'l"
  wwSync :: "'l \<Rightarrow> unit outcome \<times> 'l"

record 'w lob_epoch =
  RetireLobChain :: "u32 \<Rightarrow> 'w \<Rightarrow> 'w"
  RetireLobFile :: "u64 \<Rightarrow> 'w \<Rightarrow> 'w"

datatype isolation_level = ReadCommitted | SnapshotIsolation

section \<open>State\<close>

record ('s, 'l, 'w) tx_manager =
  storage :: "'s storage_backend"
  store :: 's
  tsGen :: u64
  activeTxRegistry :: registry
  txIDCounter :: u64
  siCount :: u32
  keyLocks :: "(bytes \<times> bool) list"
  wal :: "'l wal_writer option"
  walState :: 'l
  lobManager :: "'w lob_manager option"
  lobFileManager :: "'w lob_file_manager option"
  lobEpoch :: "'w lob_epoch option"
  world :: 'w

record snapshot_tx =
  snapshotTS :: u64
  txID :: u64
  isolationLevel :: isolation_level
  writeBuffer :: "write_buffer option"
  completed :: bool
  heldLocks :: "bytes list option"

record undo_entry =
  undoKey :: bytes
  OldRawVal :: gslice
  undoCommitTS :: u64
  EncodedVal :: bytes

text \<open>\<open>NewTxManager\<close> over a storage and a counter, and with large objects.\<close>

definition NewTxManagerWithLOB ::
  "'s storage_backend \<Rightarrow> 's \<Rightarrow> u64 \<Rightarrow> 'w lob_manager option \<Rightarrow> 'w lob_file_manager option
    \<Rightarrow> 'w lob_epoch option \<Rightarrow> 'l \<Rightarrow> 'w \<Rightarrow> ('s, 'l, 'w) tx_manager" where
  "NewTxManagerWithLOB be s c lm fm ep l w =
     \<lparr>storage = be, store = s, tsGen = c, activeTxRegistry = NewActiveTxRegistry, txIDCounter = 0,
      siCount = 0, keyLocks = [], wal = None, walState = l, lobManager = lm, lobFileManager = fm,
      lobEpoch = ep, world = w\<rparr>"

definition NewTxManager ::
  "'s storage_backend \<Rightarrow> 's \<Rightarrow> u64 \<Rightarrow> 'l \<Rightarrow> 'w \<Rightarrow> ('s, 'l, 'w) tx_manager" where
  "NewTxManager be s c l w = NewTxManagerWithLOB be s c None None None l w"

definition SetWAL :: "'l wal_writer option \<Rightarrow> 'l \<Rightarrow> ('s, 'l, 'w) tx_manager \<Rightarrow> ('s, 'l, 'w) tx_manager" where
  "SetWAL w l tm = tm\<lparr>wal := w, walState := l\<rparr>"

section \<open>Beginning a transaction\<close>

definition beginTx ::
  "isolation_level \<Rightarrow> ('s, 'l, 'w) tx_manager \<Rightarrow> snapshot_tx outcome \<times> ('s, 'l, 'w) tx_manager" where
  "beginTx level tm =
     (case NextTS (tsGen tm) of
        (Ok ts, c) \<Rightarrow>
          let tid = txIDCounter tm + 1;
              tm1 = tm\<lparr>tsGen := c, txIDCounter := tid,
                       activeTxRegistry := Register tid ts (activeTxRegistry tm)\<rparr>;
              tm2 = (if level = SnapshotIsolation then tm1\<lparr>siCount := siCount tm1 + 1\<rparr> else tm1)
          in (Ok \<lparr>snapshotTS = ts, txID = tid, isolationLevel = level,
                  writeBuffer = Some NewWriteBuffer, completed = False, heldLocks = Some []\<rparr>, tm2)
      | (Err e, c) \<Rightarrow> (Err e, tm\<lparr>tsGen := c\<rparr>)
      | (Panic, c) \<Rightarrow> (Panic, tm\<lparr>tsGen := c\<rparr>))"

definition checkActive :: "snapshot_tx \<Rightarrow> unit outcome" where
  "checkActive tx =
     (if completed tx then
        (if writeBuffer tx = None then Err ErrTxRolledBack else Err ErrTxCommitted)
      else Ok ())"

section \<open>Reading\<close>

text \<open>The part of \<open>snapshotGet\<close> after the raw value has been fetched.\<close>

definition visible_value ::
  "u64 \<Rightarrow> 'w lob_manager option \<Rightarrow> 'w lob_file_manager option \<Rightarrow> 'w \<Rightarrow> bytes \<Rightarrow> gslice outcome" where
  "visible_value snap lm fm w raw =
     bind_outcome (DecodeValue raw lm fm w) (\<lambda>mv.
       if BeginTS mv \<le> snap then
         (if IsTombstone mv then Err ErrKeyNotFound else Ok (Some (RealVal mv)))
       else if PrevBeginTS mv \<noteq> 0 \<and> PrevBeginTS mv \<le> snap then
         (if IsTombstoneFlag (PrevFlag mv) then Err ErrKeyNotFound
          else if IsLOBFlag (PrevFlag mv) then
            bind_outcome (DecodeValue (slice_bytes (PrevVal mv)) lm fm w) (\<lambda>prevMV. Ok (Some (RealVal prevMV)))
          else Ok (PrevVal mv))
       else Err ErrKeyNotFound)"

definition snapshotGet :: "bytes \<Rightarrow> ('s, 'l, 'w) tx_manager \<Rightarrow> snapshot_tx \<Rightarrow> gslice outcome" where
  "snapshotGet key tm tx =
     bind_outcome (beGetRaw (storage tm) key (store tm)) (\<lambda>raw.
       visible_value (snapshotTS tx) (lobManager tm) (lobFileManager tm) (world tm) (slice_bytes raw))"

definition txGet :: "bytes \<Rightarrow> ('s, 'l, 'w) tx_manager \<Rightarrow> snapshot_tx \<Rightarrow> gslice outcome" where
  "txGet key tm tx =
     bind_outcome (checkActive tx) (\<lambda>_.
       if key = [] then Err ErrMVCCGetError
       else case writeBuffer tx of
         None \<Rightarrow> Panic
       | Some wb \<Rightarrow> (case wbGet key wb of
           Some e \<Rightarrow> (if weOp e = OpDelete then Err ErrKeyNotFound else Ok (weValue e))
         | None \<Rightarrow> snapshotGet key tm tx))"

text \<open>
  \<open>GetBatch\<close>: a raw value that is nil, does not decode or is not visible leaves the slot nil
  (\<open>Ok None\<close>); otherwise the slot is written.
\<close>

definition batch_value ::
  "u64 \<Rightarrow> 'w lob_manager option \<Rightarrow> 'w lob_file_manager option \<Rightarrow> 'w \<Rightarrow> gslice \<Rightarrow> gslice option outcome" where
  "batch_value snap lm fm w raw = (case raw of
     None \<Rightarrow> Ok None
   | Some b \<Rightarrow> (case DecodeValue b lm fm w of
       Panic \<Rightarrow> Panic
     | Err e \<Rightarrow> Ok None
     | Ok mv \<Rightarrow>
         if BeginTS mv \<le> snap then
           (if IsTombstone mv then Ok None else Ok (Some (Some (RealVal mv))))
         else if PrevBeginTS mv \<noteq> 0 \<and> PrevBeginTS mv \<le> snap then
           (if IsTombstoneFlag (PrevFlag mv) then Ok None
            else if IsLOBFlag (PrevFlag mv) then
              (case DecodeValue (slice_bytes (PrevVal mv)) lm fm w of
                 Panic \<Rightarrow> Panic
               | Err e \<Rightarrow> Ok None
               | Ok prevMV \<Rightarrow> Ok (Some (Some (RealVal prevMV))))
            else Ok (Some (PrevVal mv)))
         else Ok None))"

fun outcomes :: "'a outcome list \<Rightarrow> 'a list outcome" where
  "outcomes [] = Ok []"
| "outcomes (x # xs) = bind_outcome x (\<lambda>v. bind_outcome (outcomes xs) (\<lambda>vs. Ok (v # vs)))"

text \<open>
  The slots are filled in key order: buffered keys from the buffer, the others from the batch
  in turn. A write past the last requested slot is an index panic.
\<close>

fun fill_slots :: "write_buffer \<Rightarrow> bytes list \<Rightarrow> gslice option list \<Rightarrow> gslice list outcome" where
  "fill_slots wb [] vs = (if list_all (\<lambda>v. v = None) vs then Ok [] else Panic)"
| "fill_slots wb (k # ks) vs = (case wbGet k wb of
     Some e \<Rightarrow> bind_outcome (fill_slots wb ks vs)
                 (\<lambda>rs. Ok ((if weOp e = OpDelete then None else weValue e) # rs))
   | None \<Rightarrow> (case vs of
       [] \<Rightarrow> bind_outcome (fill_slots wb ks []) (\<lambda>rs. Ok (None # rs))
     | v # vs' \<Rightarrow> bind_outcome (fill_slots wb ks vs')
                    (\<lambda>rs. Ok ((case v of None \<Rightarrow> None | Some x \<Rightarrow> x) # rs))))"

definition txGetBatch :: "bytes list \<Rightarrow> ('s, 'l, 'w) tx_manager \<Rightarrow> snapshot_tx \<Rightarrow> gslice list outcome" where
  "txGetBatch keys tm tx =
     bind_outcome (checkActive tx) (\<lambda>_.
       case writeBuffer tx of
         None \<Rightarrow> if keys = [] then Ok [] else if hd keys = [] then Err ErrMVCCGetError else Panic
       | Some wb \<Rightarrow>
           if [] \<in> set keys then Err ErrMVCCGetError
           else
             let btreeKeys = filter (\<lambda>k. wbGet k wb = None) keys
             in if btreeKeys = [] then fill_slots wb keys []
                else bind_outcome (beGetBatchRaw (storage tm) btreeKeys (store tm)) (\<lambda>raws.
                  bind_outcome
                    (outcomes (map (batch_value (snapshotTS tx) (lobManager tm) (lobFileManager tm) (world tm)) raws))
                    (fill_slots wb keys)))"

section \<open>Locks\<close>

definition lock_held :: "bytes \<Rightarrow> ('s, 'l, 'w) tx_manager \<Rightarrow> bool" where
  "lock_held key tm = (map_of (keyLocks tm) key = Some True)"

definition set_lock :: "bytes \<Rightarrow> bool \<Rightarrow> ('s, 'l, 'w) tx_manager \<Rightarrow> ('s, 'l, 'w) tx_manager" where
  "set_lock key b tm = tm\<lparr>keyLocks := AList.update key b (keyLocks tm)\<rparr>"

text \<open>\<open>LoadOrStore\<close> and \<open>Lock\<close>.\<close>

definition lockKey :: "bytes \<Rightarrow> ('s, 'l, 'w) tx_manager \<Rightarrow> unit outcome \<times> ('s, 'l, 'w) tx_manager" where
  "lockKey key tm =
     (let held = lock_held key tm; tm1 = set_lock key held tm
      in case keyLockLock (\<lambda>_. held) of
           Ok u \<Rightarrow> (Ok u, set_lock key True tm1)
         | Err e \<Rightarrow> (Err e, tm1)
         | Panic \<Rightarrow> (Panic, tm1))"

definition unlockKey :: "bytes \<Rightarrow> ('s, 'l, 'w) tx_manager \<Rightarrow> ('s, 'l, 'w) tx_manager" where
  "unlockKey key tm = set_lock key (keyLockUnlock (lock_held key tm)) tm"

text \<open>The first block of \<open>Put\<close> and \<open>Delete\<close>. Storing into a nil map panics.\<close>

definition acquireKeyLock ::
  "bytes \<Rightarrow> ('s, 'l, 'w) tx_manager \<Rightarrow> snapshot_tx \<Rightarrow> unit outcome \<times> ('s, 'l, 'w) tx_manager \<times> snapshot_tx" where
  "acquireKeyLock key tm tx =
     (if heldLocks tx \<noteq> None \<and> key \<in> set (the (heldLocks tx)) then (Ok (), tm, tx)
      else case lockKey key tm of
        (Ok _, tm1) \<Rightarrow> (case heldLocks tx of
            None \<Rightarrow> (Panic, tm1, tx)
          | Some hs \<Rightarrow> (Ok (), tm1, tx\<lparr>heldLocks := Some (hs @ [key])\<rparr>))
      | (Err e, tm1) \<Rightarrow> (Err e, tm1, tx)
      | (Panic, tm1) \<Rightarrow> (Panic, tm1, tx))"

definition releaseHeldLocks ::
  "('s, 'l, 'w) tx_manager \<Rightarrow> snapshot_tx \<Rightarrow> ('s, 'l, 'w) tx_manager \<times> snapshot_tx" where
  "releaseHeldLocks tm tx = (case heldLocks tx of
     None \<Rightarrow> (tm, tx)
   | Some hs \<Rightarrow> (fold unlockKey hs tm, tx\<lparr>heldLocks := None\<rparr>))"

section \<open>Writing\<close>

definition old_of :: "mvcc_value \<Rightarrow> old_version" where
  "old_of mv =
     \<lparr>ovValue = (if Flag mv = FlagNormal \<or> Flag mv = FlagLOBNormal \<or> Flag mv = FlagLOBFile
                 then Some (RealVal mv) else None),
      ovFlag = Flag mv, ovBeginTS = BeginTS mv, ovPrevFlag = PrevFlag mv,
      ovPrevVal = (if PrevBeginTS mv \<noteq> 0 \<and> slice_bytes (PrevVal mv) \<noteq> [] then PrevVal mv else None)\<rparr>"

definition readOld :: "bytes \<Rightarrow> ('s, 'l, 'w) tx_manager \<Rightarrow> old_version outcome" where
  "readOld key tm = (case beGetRaw (storage tm) key (store tm) of
     Ok raw \<Rightarrow> (case ParseMVCC (slice_bytes raw) of
         Ok mv \<Rightarrow> Ok (old_of mv)
       | Err e \<Rightarrow> Ok no_version
       | Panic \<Rightarrow> Panic)
   | Err e \<Rightarrow> Ok no_version
   | Panic \<Rightarrow> Panic)"

definition txPut ::
  "bytes \<Rightarrow> gslice \<Rightarrow> ('s, 'l, 'w) tx_manager \<Rightarrow> snapshot_tx
    \<Rightarrow> unit outcome \<times> ('s, 'l, 'w) tx_manager \<times> snapshot_tx" where
  "txPut key value tm tx =
     (case checkActive tx of
        Err e \<Rightarrow> (Err e, tm, tx)
      | Panic \<Rightarrow> (Panic, tm, tx)
      | Ok _ \<Rightarrow>
          if key = [] then (Err ErrMVCCPutError, tm, tx)
          else case acquireKeyLock key tm tx of
            (Err e, tm1, tx1) \<Rightarrow> (Err e, tm1, tx1)
          | (Panic, tm1, tx1) \<Rightarrow> (Panic, tm1, tx1)
          | (Ok _, tm1, tx1) \<Rightarrow>
              (case readOld key tm1 of
                 Err e \<Rightarrow> (Err e, tm1, tx1)
               | Panic \<Rightarrow> (Panic, tm1, tx1)
               | Ok old \<Rightarrow> (case writeBuffer tx1 of
                   None \<Rightarrow> (Panic, tm1, tx1)
                 | Some wb \<Rightarrow> (Ok (), tm1, tx1\<lparr>writeBuffer := Some (wbPut key value old wb)\<rparr>))))"

text \<open>\<open>Delete\<close> of a key without a buffered write. It keeps the old value whatever its flag.\<close>

definition delete_committed ::
  "bytes \<Rightarrow> write_buffer \<Rightarrow> ('s, 'l, 'w) tx_manager \<Rightarrow> unit outcome \<times> write_buffer" where
  "delete_committed key wb tm = (case beGetRaw (storage tm) key (store tm) of
     Panic \<Rightarrow> (Panic, wb)
   | Err e \<Rightarrow> (Err ErrKeyNotFound, wb)
   | Ok None \<Rightarrow> (Err ErrKeyNotFound, wb)
   | Ok (Some raw) \<Rightarrow> (case ParseMVCC raw of
       Panic \<Rightarrow> (Panic, wb)
     | Err e \<Rightarrow> (Err e, wb)
     | Ok mv \<Rightarrow>
         if IsTombstone mv then (Err ErrKeyNotFound, wb)
         else wbDelete key ((old_of mv)\<lparr>ovValue := Some (RealVal mv)\<rparr>) wb))"

definition delete_buffered ::
  "bytes \<Rightarrow> write_buffer \<Rightarrow> ('s, 'l, 'w) tx_manager \<Rightarrow> unit outcome \<times> write_buffer" where
  "delete_buffered key wb tm = (case wbGet key wb of
     Some e \<Rightarrow> (case weOp e of
         OpInsert \<Rightarrow>
           wbDelete key no_version
             (wbSetEntry key \<lparr>weOp = OpInsert, weValue = None, OldValue = None, OldFlag = 0,
                OldBeginTS = 0, OldPrevFlag = 0, OldPrevVal = None\<rparr> wb)
       | OpDelete \<Rightarrow> (Ok (), wb)
       | OpUpdate \<Rightarrow> (Ok (), wbSetEntry key (e\<lparr>weOp := OpDelete, weValue := None\<rparr>) wb))
   | None \<Rightarrow> delete_committed key wb tm)"

definition txDelete ::
  "bytes \<Rightarrow> ('s, 'l, 'w) tx_manager \<Rightarrow> snapshot_tx
    \<Rightarrow> unit outcome \<times> ('s, 'l, 'w) tx_manager \<times> snapshot_tx" where
  "txDelete key tm tx =
     (case checkActive tx of
        Err e \<Rightarrow> (Err e, tm, tx)
      | Panic \<Rightarrow> (Panic, tm, tx)
      | Ok _ \<Rightarrow>
          if key = [] then (Err ErrMVCCDeleteError, tm, tx)
          else case acquireKeyLock key tm tx of
            (Err e, tm1, tx1) \<Rightarrow> (Err e, tm1, tx1)
          | (Panic, tm1, tx1) \<Rightarrow> (Panic, tm1, tx1)
          | (Ok _, tm1, tx1) \<Rightarrow> (case writeBuffer tx1 of
              None \<Rightarrow> (Panic, tm1, tx1)
            | Some wb \<Rightarrow> (case delete_buffered key wb tm1 of
                (r, wb') \<Rightarrow> (r, tm1, tx1\<lparr>writeBuffer := Some wb'\<rparr>))))"

section \<open>Retiring dropped large objects\<close>

definition retireLOBOverflow :: "bytes \<Rightarrow> ('s, 'l, 'w) tx_manager \<Rightarrow> ('s, 'l, 'w) tx_manager" where
  "retireLOBOverflow oldPrevVal tm =
     (if length oldPrevVal < 10 then tm
      else
        let firstPageID = Uint32 (field 2 4 oldPrevVal)
        in if firstPageID = 0 then tm
           else case lobEpoch tm of
             Some ep \<Rightarrow> tm\<lparr>world := RetireLobChain ep firstPageID (world tm)\<rparr>
           | None \<Rightarrow> (case lobManager tm of
               Some m \<Rightarrow> tm\<lparr>world := lobFree m \<lparr>FirstPageID = firstPageID, TotalLen = 0\<rparr> (world tm)\<rparr>
             | None \<Rightarrow> tm))"

definition retireLOBFile :: "bytes \<Rightarrow> ('s, 'l, 'w) tx_manager \<Rightarrow> ('s, 'l, 'w) tx_manager" where
  "retireLOBFile oldPrevVal tm =
     (if length oldPrevVal < 18 then tm
      else
        let lobID = Uint64 (field 2 8 oldPrevVal)
        in if lobID = 0 then tm
           else case lobEpoch tm of
             Some ep \<Rightarrow> tm\<lparr>world := RetireLobFile ep lobID (world tm)\<rparr>
           | None \<Rightarrow> (case lobFileManager tm of
               Some m \<Rightarrow> tm\<lparr>world := fileDelete m \<lparr>LOBID = lobID, FileLen = 0\<rparr> (world tm)\<rparr>
             | None \<Rightarrow> tm))"

definition retireDropped :: "write_entry \<Rightarrow> ('s, 'l, 'w) tx_manager \<Rightarrow> ('s, 'l, 'w) tx_manager" where
  "retireDropped e tm =
     (if OldPrevFlag e = FlagLOBNormal \<or> OldPrevFlag e = FlagLOBTombstone
      then retireLOBOverflow (slice_bytes (OldPrevVal e)) tm
      else if OldPrevFlag e = FlagLOBFile \<or> OldPrevFlag e = FlagLOBFileTombstone
      then retireLOBFile (slice_bytes (OldPrevVal e)) tm
      else tm)"

section \<open>Applying a commit\<close>

text \<open>The value a write leaves, with the world after storing it if it is large.\<close>

definition encode_entry :: "write_entry \<Rightarrow> u64 \<Rightarrow> ('s, 'l, 'w) tx_manager \<Rightarrow> bytes outcome \<times> 'w" where
  "encode_entry e commitTS tm =
     (if weOp e = OpDelete
      then (EncodeDeleteValue commitTS (OldFlag e) (slice_bytes (OldValue e))
              (OldFlag e) (OldBeginTS e) (slice_bytes (OldValue e)), world tm)
      else EncodeValue (slice_bytes (weValue e)) commitTS
             (OldFlag e) (OldBeginTS e) (slice_bytes (OldValue e))
             (lobManager tm) (lobFileManager tm) (world tm))"

definition old_raw :: "write_entry \<Rightarrow> gslice" where
  "old_raw e =
     (if weOp e = OpInsert then None
      else case BuildMVCC (OldFlag e) (OldBeginTS e) (slice_bytes (OldValue e)) 0 0 [] of
        Ok b \<Rightarrow> Some b | Err er \<Rightarrow> None | Panic \<Rightarrow> None)"

text \<open>\<open>commitKey\<close> returns the undo entry it has, if any, and its error; a panic of the encoder is
  recovered into one.\<close>

definition commitKey ::
  "bytes \<Rightarrow> write_entry \<Rightarrow> u64 \<Rightarrow> ('s, 'l, 'w) tx_manager
    \<Rightarrow> undo_entry option \<times> unit outcome \<times> ('s, 'l, 'w) tx_manager" where
  "commitKey key e commitTS tm =
     (case encode_entry e commitTS tm of
        (Panic, w) \<Rightarrow> (None, Err ErrMVCCPanicRecovered, tm\<lparr>world := w\<rparr>)
      | (Err er, w) \<Rightarrow>
          (Some \<lparr>undoKey = key, OldRawVal = old_raw e, undoCommitTS = commitTS, EncodedVal = []\<rparr>,
           Err er, tm\<lparr>world := w\<rparr>)
      | (Ok encoded, w) \<Rightarrow>
          (Some \<lparr>undoKey = key, OldRawVal = old_raw e, undoCommitTS = commitTS, EncodedVal = encoded\<rparr>,
           Ok (), retireDropped e (tm\<lparr>world := w\<rparr>)))"

text \<open>Phase 1 of \<open>applyWriteBuffer\<close>: the loop over the sorted keys, with the entries collected so
  far.\<close>

fun apply_keys ::
  "bytes list \<Rightarrow> u64 \<Rightarrow> write_buffer \<Rightarrow> undo_entry list \<Rightarrow> ('s, 'l, 'w) tx_manager
    \<Rightarrow> undo_entry list \<times> unit outcome \<times> ('s, 'l, 'w) tx_manager" where
  "apply_keys [] commitTS wb undo tm = (undo, Ok (), tm)"
| "apply_keys (key # keys) commitTS wb undo tm = (case wbGet key wb of
     None \<Rightarrow> apply_keys keys commitTS wb undo tm
   | Some e \<Rightarrow> (case commitKey key e commitTS tm of
       (Some u, Ok _, tm') \<Rightarrow> apply_keys keys commitTS wb (undo @ [u]) tm'
     | (Some u, r, tm') \<Rightarrow> (undo @ [u], r, tm')
     | (None, r, tm') \<Rightarrow> (undo, r, tm')))"

text \<open>
  \<open>rollbackOneKey\<close>: the body runs with the lock held and with panics recovered; only a value
  that carries our own \<open>commitTS\<close> is put back.
\<close>

definition restore_key ::
  "undo_entry \<Rightarrow> ('s, 'l, 'w) tx_manager \<Rightarrow> unit outcome \<times> ('s, 'l, 'w) tx_manager" where
  "restore_key u tm = (case beGetRaw (storage tm) (undoKey u) (store tm) of
     Panic \<Rightarrow> (Panic, tm)
   | Err e \<Rightarrow> (if e = ErrKeyNotFound then Ok () else Err e, tm)
   | Ok current \<Rightarrow> (case ParseMVCC (slice_bytes current) of
       Panic \<Rightarrow> (Panic, tm)
     | Err e \<Rightarrow> (Err e, tm)
     | Ok mv \<Rightarrow>
         if BeginTS mv \<noteq> undoCommitTS u then (Ok (), tm)
         else
           let tm1 = (case (LOB mv, lobManager tm) of
                        (Some ref, Some m) \<Rightarrow>
                          if IsLOBFlag (Flag mv) then tm\<lparr>world := lobFree m ref (world tm)\<rparr> else tm
                      | _ \<Rightarrow> tm)
           in case (case OldRawVal u of
                      None \<Rightarrow> BuildMVCC FlagTombstone (undoCommitTS u) [] 0 0 []
                    | Some b \<Rightarrow> Ok b) of
                Ok b \<Rightarrow> (case beSet (storage tm1) (undoKey u) b (store tm1) of
                   (r, s) \<Rightarrow> (r, tm1\<lparr>store := s\<rparr>))
              | Err e \<Rightarrow> (Err e, tm1)
              | Panic \<Rightarrow> (Panic, tm1)))"

fun recovered :: "unit outcome \<Rightarrow> unit outcome" where
  "recovered Panic = Err ErrMVCCPanicRecovered"
| "recovered (Ok u) = Ok u"
| "recovered (Err e) = Err e"

definition rollbackOneKey ::
  "undo_entry \<Rightarrow> ('s, 'l, 'w) tx_manager \<Rightarrow> snapshot_tx \<Rightarrow> unit outcome \<times> ('s, 'l, 'w) tx_manager" where
  "rollbackOneKey u tm tx =
     (if heldLocks tx \<noteq> None \<and> undoKey u \<in> set (the (heldLocks tx))
      then (case restore_key u tm of (r, tm1) \<Rightarrow> (recovered r, tm1))
      else case lockKey (undoKey u) tm of
        (Ok _, tm1) \<Rightarrow> (case restore_key u tm1 of (r, tm2) \<Rightarrow> (recovered r, unlockKey (undoKey u) tm2))
      | (Err e, tm1) \<Rightarrow> (Err e, tm1)
      | (Panic, tm1) \<Rightarrow> (Panic, tm1))"

text \<open>\<open>rollbackApplied\<close> goes through the undo entries backwards and reports the first error.\<close>

fun rollback_list ::
  "undo_entry list \<Rightarrow> unit outcome \<Rightarrow> ('s, 'l, 'w) tx_manager \<Rightarrow> snapshot_tx
    \<Rightarrow> unit outcome \<times> ('s, 'l, 'w) tx_manager" where
  "rollback_list [] firstErr tm tx = (firstErr, tm)"
| "rollback_list (u # us) firstErr tm tx = (case rollbackOneKey u tm tx of
     (r, tm1) \<Rightarrow> rollback_list us (if is_ok firstErr then r else firstErr) tm1 tx)"

definition rollbackApplied ::
  "undo_entry list \<Rightarrow> ('s, 'l, 'w) tx_manager \<Rightarrow> snapshot_tx \<Rightarrow> unit outcome \<times> ('s, 'l, 'w) tx_manager" where
  "rollbackApplied undoBuf tm tx = rollback_list (rev undoBuf) (Ok ()) tm tx"

text \<open>
  \<open>applyWriteBuffer\<close>. The error of a failed apply is the one reported, whether or not the
  rollback succeeded.
\<close>

definition applyWriteBuffer ::
  "u64 \<Rightarrow> write_buffer \<Rightarrow> ('s, 'l, 'w) tx_manager \<Rightarrow> snapshot_tx
    \<Rightarrow> undo_entry list outcome \<times> ('s, 'l, 'w) tx_manager" where
  "applyWriteBuffer commitTS wb tm tx =
     (case apply_keys (sort (wbOrderedKeys wb)) commitTS wb [] tm of
        (undo, Ok _, tm1) \<Rightarrow>
          (if undo = [] then (Ok undo, tm1)
           else case beSetBatch (storage tm1) (map (\<lambda>u. (undoKey u, EncodedVal u)) undo) (store tm1) of
             (Ok n, s) \<Rightarrow> (Ok undo, tm1\<lparr>store := s\<rparr>)
           | (Err e, s) \<Rightarrow> (Err e, snd (rollbackApplied undo (tm1\<lparr>store := s\<rparr>) tx))
           | (Panic, s) \<Rightarrow> (Panic, tm1\<lparr>store := s\<rparr>))
      | (undo, Err e, tm1) \<Rightarrow>
          (Err e, if undo = [] then tm1 else snd (rollbackApplied undo tm1 tx))
      | (undo, Panic, tm1) \<Rightarrow> (Panic, tm1))"

section \<open>Completing a transaction\<close>

definition cleanup ::
  "('s, 'l, 'w) tx_manager \<Rightarrow> snapshot_tx \<Rightarrow> ('s, 'l, 'w) tx_manager \<times> snapshot_tx" where
  "cleanup tm tx =
     (if completed tx then (tm, tx)
      else (if isolationLevel tx = SnapshotIsolation then tm\<lparr>siCount := siCount tm - 1\<rparr> else tm,
            tx\<lparr>completed := True\<rparr>))"

text \<open>The deferred calls of \<open>Commit\<close> and \<open>Rollback\<close>, which also run when the body panics.\<close>

definition finish ::
  "unit outcome \<times> ('s, 'l, 'w) tx_manager \<times> snapshot_tx
    \<Rightarrow> unit outcome \<times> ('s, 'l, 'w) tx_manager \<times> snapshot_tx" where
  "finish = (\<lambda>(r, tm, tx). case releaseHeldLocks tm tx of
     (tm1, tx1) \<Rightarrow> (r, tm1\<lparr>activeTxRegistry := Unregister (txID tx) (activeTxRegistry tm1)\<rparr>, tx1))"

text \<open>\<open>Append\<close> followed by \<open>Sync\<close>, when a log is set.\<close>

definition log_durably ::
  "wal_entry \<Rightarrow> ('s, 'l, 'w) tx_manager \<Rightarrow> unit outcome \<times> ('s, 'l, 'w) tx_manager" where
  "log_durably e tm = (case wal tm of
     None \<Rightarrow> (Ok (), tm)
   | Some w \<Rightarrow> (case wwAppend w e (walState tm) of
       (Ok lsn, l) \<Rightarrow> (case wwSync w l of (r, l') \<Rightarrow> (r, tm\<lparr>walState := l'\<rparr>))
     | (Err er, l) \<Rightarrow> (Err er, tm\<lparr>walState := l\<rparr>)
     | (Panic, l) \<Rightarrow> (Panic, tm\<lparr>walState := l\<rparr>)))"

definition TxCommitEntry :: "u64 \<Rightarrow> u64 \<Rightarrow> wal_entry" where
  "TxCommitEntry tid commitTS =
     zero_entry\<lparr>Type := WALTypeTxCommit, Key := PutUint64 tid @ PutUint64 commitTS\<rparr>"

definition failed ::
  "unit outcome \<Rightarrow> ('s, 'l, 'w) tx_manager \<Rightarrow> snapshot_tx
    \<Rightarrow> unit outcome \<times> ('s, 'l, 'w) tx_manager \<times> snapshot_tx" where
  "failed r tm tx = (case cleanup tm tx of (tm1, tx1) \<Rightarrow> (r, tm1, tx1))"

text \<open>Phases 3 to 5 of \<open>Commit\<close>, after the prepare record is durable. \<open>applyWriteBuffer\<close> sorts the
  buffer's own key list.\<close>

definition commit_apply ::
  "write_buffer \<Rightarrow> ('s, 'l, 'w) tx_manager \<Rightarrow> snapshot_tx
    \<Rightarrow> unit outcome \<times> ('s, 'l, 'w) tx_manager \<times> snapshot_tx" where
  "commit_apply wb tm tx = (case NextTS (tsGen tm) of
     (Ok commitTS, c) \<Rightarrow>
       (let tx1 = tx\<lparr>writeBuffer := Some (wb\<lparr>wbOrdered := sort (wbOrdered wb)\<rparr>)\<rparr>
        in case applyWriteBuffer commitTS wb (tm\<lparr>tsGen := c\<rparr>) tx1 of
          (Ok undo, tm1) \<Rightarrow>
            (case log_durably (TxCommitEntry (txID tx) commitTS) tm1 of
               (Ok _, tm2) \<Rightarrow> (case cleanup tm2 tx1 of
                   (tm3, tx2) \<Rightarrow> (Ok (), tm3, tx2\<lparr>writeBuffer := None\<rparr>))
             | (Err e, tm2) \<Rightarrow> failed (Err e) (snd (rollbackApplied undo tm2 tx1)) tx1
             | (Panic, tm2) \<Rightarrow> (Panic, tm2, tx1))
        | (Err e, tm1) \<Rightarrow> failed (Err e) tm1 tx1
        | (Panic, tm1) \<Rightarrow> (Panic, tm1, tx1))
   | (Err e, c) \<Rightarrow> (Err e, tm\<lparr>tsGen := c\<rparr>, tx)
   | (Panic, c) \<Rightarrow> (Panic, tm\<lparr>tsGen := c\<rparr>, tx))"

text \<open>\<open>Commit\<close>. The prepare record is only built when a log is set.\<close>

definition commit_body ::
  "('s, 'l, 'w) tx_manager \<Rightarrow> snapshot_tx \<Rightarrow> unit outcome \<times> ('s, 'l, 'w) tx_manager \<times> snapshot_tx" where
  "commit_body tm tx = (case writeBuffer tx of
     None \<Rightarrow> (Panic, tm, tx)
   | Some wb \<Rightarrow>
       if wal tm = None then commit_apply wb tm tx
       else
         let (entry, wb1) = TxPrepareEntry (txID tx) wb;
             tx1 = tx\<lparr>writeBuffer := Some wb1\<rparr>
         in case log_durably entry tm of
              (Ok _, tm1) \<Rightarrow> commit_apply wb1 tm1 tx1
            | (Err e, tm1) \<Rightarrow> failed (Err e) tm1 tx1
            | (Panic, tm1) \<Rightarrow> (Panic, tm1, tx1))"

definition txCommit ::
  "('s, 'l, 'w) tx_manager \<Rightarrow> snapshot_tx \<Rightarrow> unit outcome \<times> ('s, 'l, 'w) tx_manager \<times> snapshot_tx" where
  "txCommit tm tx = (if completed tx then (Ok (), tm, tx) else finish (commit_body tm tx))"

definition txRollback ::
  "('s, 'l, 'w) tx_manager \<Rightarrow> snapshot_tx \<Rightarrow> unit outcome \<times> ('s, 'l, 'w) tx_manager \<times> snapshot_tx" where
  "txRollback tm tx =
     (if completed tx then (Ok (), tm, tx)
      else finish (case cleanup tm (tx\<lparr>writeBuffer := None\<rparr>) of (tm1, tx1) \<Rightarrow> (Ok (), tm1, tx1)))"

end
