(* ===== verification/Tx_Correctness.thy ===== *)
theory Tx_Correctness
  imports Transaction
begin

text \<open>
  What the transaction engine guarantees. The interface \<open>kv_backend\<close> states what the engine
  relies on of its storage; the lemmas on reads, commits and rollbacks are proved once inside
  it. \<open>mockStorage\<close>, the storage that the engine's own tests run on
  (\<open>mvcc/transaction_test.go\<close>), is interpreted here.
\<close>

section \<open>The storage interface\<close>

text \<open>
  The documented contract: \<open>GetRaw\<close> reports \<open>ErrKeyNotFound\<close> exactly for keys that are not
  there, a successful \<open>Set\<close> or \<open>SetBatch\<close> stores its pairs and a failed one stores nothing
  (\<open>SetBatch\<close> publishes one copy of the page), \<open>GetBatchRaw\<close> has nil at missing keys.
\<close>

locale kv_backend =
  fixes be :: "'s storage_backend"
    and invar :: "'s \<Rightarrow> bool"
    and lookup :: "'s \<Rightarrow> bytes \<Rightarrow> gslice"
  assumes get_raw: "invar s \<Longrightarrow>
      beGetRaw be k s = (case lookup s k of None \<Rightarrow> Err ErrKeyNotFound | Some b \<Rightarrow> Ok (Some b))"
    and set_ok: "invar s \<Longrightarrow> beSet be k v s = (Ok u, s') \<Longrightarrow> invar s' \<and> lookup s' = (lookup s)(k \<mapsto> v)"
    and set_err: "invar s \<Longrightarrow> beSet be k v s = (Err e, s') \<Longrightarrow> invar s' \<and> lookup s' = lookup s"
    and batch_ok: "invar s \<Longrightarrow> beSetBatch be ps s = (Ok n, s') \<Longrightarrow>
      invar s' \<and> lookup s' = fold (\<lambda>(k, v) m. m(k \<mapsto> v)) ps (lookup s)"
    and batch_err: "invar s \<Longrightarrow> beSetBatch be ps s = (Err e, s') \<Longrightarrow> invar s' \<and> lookup s' = lookup s"
    and get_batch: "invar s \<Longrightarrow> beGetBatchRaw be ks s = Ok (map (lookup s) ks)"
    and no_panic: "invar s \<Longrightarrow> fst (beSet be k v s) \<noteq> Panic \<and> fst (beSetBatch be ps s) \<noteq> Panic"

section \<open>mockStorage\<close>

type_synonym mock_storage = "(bytes \<times> bytes) list"

definition mockGetRaw :: "bytes \<Rightarrow> mock_storage \<Rightarrow> gslice outcome" where
  "mockGetRaw key m = (case map_of m key of None \<Rightarrow> Err ErrKeyNotFound | Some v \<Rightarrow> Ok (Some v))"

definition mockSet :: "bytes \<Rightarrow> bytes \<Rightarrow> mock_storage \<Rightarrow> unit outcome \<times> mock_storage" where
  "mockSet key v m = (Ok (), AList.update key v m)"

definition mockDelete :: "bytes \<Rightarrow> mock_storage \<Rightarrow> unit outcome \<times> mock_storage" where
  "mockDelete key m = (Ok (), AList.delete key m)"

definition mockSetBatch :: "(bytes \<times> bytes) list \<Rightarrow> mock_storage \<Rightarrow> nat outcome \<times> mock_storage" where
  "mockSetBatch pairs m = (Ok (length pairs), fold (\<lambda>(k, v). AList.update k v) pairs m)"

definition mockGetBatchRaw :: "bytes list \<Rightarrow> mock_storage \<Rightarrow> gslice list outcome" where
  "mockGetBatchRaw keys m = Ok (map (map_of m) keys)"

definition mockStorage :: "mock_storage storage_backend" where
  "mockStorage = \<lparr>beGetRaw = mockGetRaw, beSet = mockSet, beDelete = mockDelete,
     beSetBatch = mockSetBatch, beGetBatchRaw = mockGetBatchRaw\<rparr>"

lemma map_of_fold_update:
  "map_of (fold (\<lambda>(k, v). AList.update k v) ps m) = fold (\<lambda>(k, v) m. m(k \<mapsto> v)) ps (map_of m)"
  by (induction ps arbitrary: m) (auto simp: update_conv')

interpretation mock: kv_backend mockStorage "\<lambda>_. True" map_of
  by unfold_locales
    (auto simp: mockStorage_def mockGetRaw_def mockSet_def mockSetBatch_def mockGetBatchRaw_def
      update_conv' map_of_fold_update)

section \<open>Facts about single operations\<close>

subsection \<open>Locks\<close>

lemma lock_held_set_lock [simp]: "lock_held k (set_lock key b tm) = (if k = key then b else lock_held k tm)"
  by (simp add: lock_held_def set_lock_def update_conv')

lemma lock_held_frame [simp]:
  "lock_held k (tm\<lparr>activeTxRegistry := r\<rparr>) = lock_held k tm"
  "lock_held k (tm\<lparr>store := st\<rparr>) = lock_held k tm"
  "lock_held k (tm\<lparr>walState := l\<rparr>) = lock_held k tm"
  "lock_held k (tm\<lparr>tsGen := c\<rparr>) = lock_held k tm"
  "lock_held k (tm\<lparr>siCount := n\<rparr>) = lock_held k tm"
  "lock_held k (tm\<lparr>world := w\<rparr>) = lock_held k tm"
  by (simp_all add: lock_held_def)

lemma set_lock_simps [simp]:
  "store (set_lock k b tm) = store tm" "storage (set_lock k b tm) = storage tm"
  "tsGen (set_lock k b tm) = tsGen tm" "world (set_lock k b tm) = world tm"
  "lobManager (set_lock k b tm) = lobManager tm" "lobFileManager (set_lock k b tm) = lobFileManager tm"
  "lobEpoch (set_lock k b tm) = lobEpoch tm" "wal (set_lock k b tm) = wal tm"
  "walState (set_lock k b tm) = walState tm" "activeTxRegistry (set_lock k b tm) = activeTxRegistry tm"
  "siCount (set_lock k b tm) = siCount tm" "txIDCounter (set_lock k b tm) = txIDCounter tm"
  by (simp_all add: set_lock_def)

lemma lockKey_eq:
  "lockKey key tm = (if lock_held key tm then (Err ErrLockTimeout, set_lock key True tm)
     else (Ok (), set_lock key True (set_lock key False tm)))"
  by (simp add: lockKey_def Let_def)

lemma unlockKey_eq: "unlockKey key tm = set_lock key False tm"
  by (simp add: unlockKey_def keyLockUnlock_def)

lemma fold_unlock_locks: "lock_held k (fold unlockKey hs tm) \<longleftrightarrow> lock_held k tm \<and> k \<notin> set hs"
  by (induction hs arbitrary: tm) (auto simp: unlockKey_eq)

lemma fold_unlock_simps [simp]:
  "store (fold unlockKey hs tm) = store tm" "storage (fold unlockKey hs tm) = storage tm"
  "tsGen (fold unlockKey hs tm) = tsGen tm" "world (fold unlockKey hs tm) = world tm"
  "lobManager (fold unlockKey hs tm) = lobManager tm"
  "lobFileManager (fold unlockKey hs tm) = lobFileManager tm"
  "lobEpoch (fold unlockKey hs tm) = lobEpoch tm" "wal (fold unlockKey hs tm) = wal tm"
  "walState (fold unlockKey hs tm) = walState tm"
  "activeTxRegistry (fold unlockKey hs tm) = activeTxRegistry tm"
  "siCount (fold unlockKey hs tm) = siCount tm"
  by (induction hs arbitrary: tm) (simp_all add: unlockKey_eq)

subsection \<open>Own writes\<close>

lemma acquireKeyLock_cases:
  assumes "acquireKeyLock key tm tx = (r, tm1, tx1)"
  shows "storage tm1 = storage tm" "store tm1 = store tm" "tsGen tm1 = tsGen tm"
    "lobManager tm1 = lobManager tm" "lobFileManager tm1 = lobFileManager tm"
    "lobEpoch tm1 = lobEpoch tm" "world tm1 = world tm" "wal tm1 = wal tm"
    "walState tm1 = walState tm"
    "tx1 = tx \<or> (\<exists>hs. heldLocks tx = Some hs \<and> key \<notin> set hs \<and> tx1 = tx\<lparr>heldLocks := Some (hs @ [key])\<rparr>)"
  using assms
  by (auto simp: acquireKeyLock_def lockKey_eq split: if_splits option.splits)

lemma txPut_Ok:
  assumes "txPut key v tm tx = (Ok (), tm', tx')"
  obtains tm1 tx1 old wb where "\<not> completed tx" "key \<noteq> []" "acquireKeyLock key tm tx = (Ok (), tm1, tx1)"
    "readOld key tm1 = Ok old" "writeBuffer tx1 = Some wb" "tm' = tm1"
    "tx' = tx1\<lparr>writeBuffer := Some (wbPut key v old wb)\<rparr>"
  using assms
  by (auto simp: txPut_def checkActive_def split: outcome.splits prod.splits option.splits if_splits)

lemma txDelete_Ok:
  assumes "txDelete key tm tx = (Ok (), tm', tx')"
  obtains tm1 tx1 wb wb' where "\<not> completed tx" "key \<noteq> []" "acquireKeyLock key tm tx = (Ok (), tm1, tx1)"
    "writeBuffer tx1 = Some wb" "delete_buffered key wb tm1 = (Ok (), wb')" "tm' = tm1"
    "tx' = tx1\<lparr>writeBuffer := Some wb'\<rparr>"
  using assms
  by (auto simp: txDelete_def checkActive_def split: outcome.splits prod.splits option.splits if_splits)

lemma wbGet_Put_same: "\<exists>e. wbGet key (wbPut key v old wb) = Some e \<and> weValue e = v \<and> weOp e \<noteq> OpDelete"
  by (auto simp: wbPut_def Let_def split: option.split)

text \<open>A transaction reads its own write: after a successful put the same transaction gets
  exactly the value it put, whatever is stored and whatever snapshot it reads at.\<close>

theorem put_then_get:
  assumes "txPut key v tm tx = (Ok (), tm', tx')"
  shows "txGet key tm' tx' = Ok v"
proof -
  from assms obtain tm1 tx1 old wb where "\<not> completed tx" "key \<noteq> []"
    and acq: "acquireKeyLock key tm tx = (Ok (), tm1, tx1)"
    and tx': "tx' = tx1\<lparr>writeBuffer := Some (wbPut key v old wb)\<rparr>"
    by (rule txPut_Ok)
  moreover have "completed tx1 = completed tx"
    using acquireKeyLock_cases(10) [OF acq] by auto
  ultimately show ?thesis
    using wbGet_Put_same [of key v old wb] by (auto simp: txGet_def checkActive_def)
qed

section \<open>Committing\<close>

text \<open>
  The theorems on commits are about managers without large-object support (\<open>NewTxManager\<close>), on
  values that fit the inline format.
\<close>

definition plain :: "('s, 'l, 'w) tx_manager \<Rightarrow> bool" where
  "plain tm \<longleftrightarrow> lobManager tm = None \<and> lobFileManager tm = None \<and> lobEpoch tm = None"

definition inline_entry :: "write_entry \<Rightarrow> bool" where
  "inline_entry e \<longleftrightarrow> (OldFlag e = FlagNormal \<or> OldFlag e = FlagTombstone) \<and>
     length (slice_bytes (OldValue e)) \<le> 65515 \<and> (OldBeginTS e = 0 \<longrightarrow> slice_bytes (OldValue e) = [])"

definition entry_flag :: "write_entry \<Rightarrow> byte" where
  "entry_flag e = (if weOp e = OpDelete then FlagTombstone else FlagNormal)"

definition entry_value :: "write_entry \<Rightarrow> bytes" where
  "entry_value e = (if weOp e = OpDelete then [] else slice_bytes (weValue e))"

definition encoded :: "u64 \<Rightarrow> write_entry \<Rightarrow> bytes" where
  "encoded ts e = (case BuildMVCC (entry_flag e) ts (entry_value e) (OldFlag e) (OldBeginTS e)
     (slice_bytes (OldValue e)) of Ok b \<Rightarrow> b | Err er \<Rightarrow> [] | Panic \<Rightarrow> [])"

lemma isValidFlag_entry [simp]: "isValidFlag (entry_flag e)"
  by (simp add: entry_flag_def)

lemma Build_encoded:
  assumes "ts \<noteq> 0"
  shows "BuildMVCC (entry_flag e) ts (entry_value e) (OldFlag e) (OldBeginTS e)
    (slice_bytes (OldValue e)) = Ok (encoded ts e)"
proof -
  obtain raw where "BuildMVCC (entry_flag e) ts (entry_value e) (OldFlag e) (OldBeginTS e)
      (slice_bytes (OldValue e)) = Ok raw"
    using BuildMVCC_total [OF isValidFlag_entry assms] by blast
  then show ?thesis by (simp add: encoded_def)
qed

lemma ParseMVCC_encoded:
  assumes "ts \<noteq> 0" "inline_entry e"
  shows "ParseMVCC (encoded ts e) = Ok (built_value (entry_flag e) ts (entry_value e) (OldFlag e)
    (OldBeginTS e) (slice_bytes (OldValue e)))"
  using assms by (intro ParseMVCC_BuildMVCC [OF _ _ _ _ Build_encoded]) (simp_all add: inline_entry_def)

lemma encode_entry_plain:
  assumes "plain tm" "ts \<noteq> 0" "inline_entry e"
  shows "encode_entry e ts tm = (Ok (encoded ts e), world tm)"
  using assms Build_encoded [of ts e]
  by (auto simp: encode_entry_def plain_def inline_entry_def EncodeDeleteValue_def EncodeValue_def
      entry_flag_def entry_value_def)

lemma retireDropped_plain: "plain tm \<Longrightarrow> retireDropped e tm = tm"
  by (simp add: retireDropped_def retireLOBOverflow_def retireLOBFile_def plain_def Let_def)

definition undo_of :: "u64 \<Rightarrow> bytes \<times> write_entry \<Rightarrow> undo_entry" where
  "undo_of ts = (\<lambda>(k, e).
     \<lparr>undoKey = k, OldRawVal = old_raw e, undoCommitTS = ts, EncodedVal = encoded ts e\<rparr>)"

lemma commitKey_plain:
  assumes "plain tm" "ts \<noteq> 0" "inline_entry e"
  shows "commitKey k e ts tm = (Some (undo_of ts (k, e)), Ok (), tm)"
  using assms by (simp add: commitKey_def encode_entry_plain retireDropped_plain undo_of_def)

definition inline_buffer :: "write_buffer \<Rightarrow> bool" where
  "inline_buffer wb \<longleftrightarrow> wb_inv wb \<and> (\<forall>k e. wbGet k wb = Some e \<longrightarrow> inline_entry e)"

lemma apply_keys_plain:
  assumes "plain tm" "ts \<noteq> 0" "inline_buffer wb"
  shows "apply_keys keys ts wb undo tm = (undo @ map (undo_of ts) (live_entries keys wb), Ok (), tm)"
proof (induction keys arbitrary: undo)
  case Nil
  then show ?case by simp
next
  case (Cons k keys)
  then show ?case
    using assms by (simp add: commitKey_plain inline_buffer_def split: option.split)
qed

text \<open>The pairs a commit writes.\<close>

definition commit_pairs :: "u64 \<Rightarrow> write_buffer \<Rightarrow> (bytes \<times> bytes) list" where
  "commit_pairs ts wb = map (\<lambda>(k, e). (k, encoded ts e)) (live_entries (sort (wbOrdered wb)) wb)"

lemma commit_pairs_lookup:
  assumes "wb_inv wb"
  shows "fold (\<lambda>(k, v) m. m(k \<mapsto> v)) (commit_pairs ts wb) m k =
    (case wbGet k wb of None \<Rightarrow> m k | Some e \<Rightarrow> Some (encoded ts e))"
proof (cases "wbGet k wb")
  case None
  then show ?thesis
    by (auto simp: commit_pairs_def set_live_entries intro!: fold_map_upd_notin)
next
  case (Some e)
  then have "fold (\<lambda>(k, v) m. m(k \<mapsto> v)) (commit_pairs ts wb) m k =
      (if k \<in> fst ` set (commit_pairs ts wb) then Some (encoded ts e) else m k)"
    by (intro fold_map_upd_functional) (auto simp: commit_pairs_def set_live_entries)
  moreover have "(k, encoded ts e) \<in> set (commit_pairs ts wb)"
    using Some wb_inv_ordered [OF assms Some] by (force simp: commit_pairs_def set_live_entries)
  ultimately show ?thesis
    using Some by (auto simp: rev_image_eqI)
qed

lemma applyWriteBuffer_plain:
  assumes "plain tm" "ts \<noteq> 0" "inline_buffer wb"
  shows "applyWriteBuffer ts wb tm tx =
    (if commit_pairs ts wb = [] then (Ok [], tm)
     else case beSetBatch (storage tm) (commit_pairs ts wb) (store tm) of
       (Ok n, s) \<Rightarrow> (Ok (map (undo_of ts) (live_entries (sort (wbOrdered wb)) wb)), tm\<lparr>store := s\<rparr>)
     | (Err e, s) \<Rightarrow> (Err e, snd (rollbackApplied (map (undo_of ts) (live_entries (sort (wbOrdered wb)) wb))
                            (tm\<lparr>store := s\<rparr>) tx))
     | (Panic, s) \<Rightarrow> (Panic, tm\<lparr>store := s\<rparr>))"
proof -
  have "(\<lambda>u. (undoKey u, EncodedVal u)) \<circ> undo_of ts = (\<lambda>(k, e). (k, encoded ts e))"
    by (auto simp: undo_of_def)
  then show ?thesis
    by (simp add: applyWriteBuffer_def apply_keys_plain [OF assms] wbOrderedKeys_def commit_pairs_def)
qed

subsection \<open>What a successful commit did\<close>

lemma log_durably_frame:
  assumes "log_durably e tm = (r, tm1)"
  shows "\<exists>l. tm1 = tm\<lparr>walState := l\<rparr>"
proof (cases "wal tm")
  case None
  with assms have "tm1 = tm\<lparr>walState := walState tm\<rparr>"
    by (simp add: log_durably_def)
  then show ?thesis ..
next
  case (Some w)
  with assms show ?thesis
    by (auto simp: log_durably_def split: prod.splits outcome.splits)
qed

definition frame :: "('s, 'l, 'w) tx_manager \<Rightarrow> ('s, 'l, 'w) tx_manager \<Rightarrow> bool" where
  "frame tm tm' \<longleftrightarrow> storage tm' = storage tm \<and> lobManager tm' = lobManager tm \<and>
     lobFileManager tm' = lobFileManager tm \<and> lobEpoch tm' = lobEpoch tm \<and> wal tm' = wal tm \<and>
     world tm' = world tm"

lemma frame_plain: "frame tm tm' \<Longrightarrow> plain tm' = plain tm"
  by (simp add: frame_def plain_def)

lemma finish_Ok:
  assumes "finish (r, tm, tx) = (r', tm', tx')"
  shows "r' = r" "frame tm tm'" "store tm' = store tm" "tsGen tm' = tsGen tm"
    "heldLocks tx' = None" "writeBuffer tx' = writeBuffer tx" "completed tx' = completed tx"
    "lock_held k tm' \<longleftrightarrow> lock_held k tm \<and> (heldLocks tx = None \<or> k \<notin> set (the (heldLocks tx)))"
  using assms
  by (auto simp: finish_def releaseHeldLocks_def frame_def fold_unlock_locks
      split: option.splits)

lemma commit_pairs_sorted [simp]:
  "commit_pairs ts (wb\<lparr>wbOrdered := sort (wbOrdered wb)\<rparr>) = commit_pairs ts wb"
  by (simp add: commit_pairs_def sorted_sort_id)

lemma inline_buffer_sorted [simp]:
  "inline_buffer (wb\<lparr>wbOrdered := sort (wbOrdered wb)\<rparr>) = inline_buffer wb"
  by (simp add: inline_buffer_def wb_inv_def)

text \<open>The store and the rest of the manager after a successful \<open>commit_apply\<close>.\<close>

definition committed ::
  "u64 \<Rightarrow> write_buffer \<Rightarrow> ('s, 'l, 'w) tx_manager \<Rightarrow> ('s, 'l, 'w) tx_manager \<Rightarrow> bool" where
  "committed ts wb tm tm' \<longleftrightarrow> ts = tsGen tm + 1 \<and> ts \<noteq> 0 \<and> tsGen tm' = ts \<and> frame tm tm' \<and>
     (if commit_pairs ts wb = [] then store tm' = store tm
      else \<exists>n. beSetBatch (storage tm) (commit_pairs ts wb) (store tm) = (Ok n, store tm'))"

lemma commit_apply_Ok:
  assumes "commit_apply wb tm tx = (Ok (), tm', tx')" "plain tm" "inline_buffer wb" "\<not> completed tx"
  shows "committed (tsGen tm + 1) wb tm tm'" "keyLocks tm' = keyLocks tm"
    "writeBuffer tx' = None" "completed tx'" "heldLocks tx' = heldLocks tx" "txID tx' = txID tx"
proof -
  let ?ts = "tsGen tm + 1" and ?tm = "tm\<lparr>tsGen := tsGen tm + 1\<rparr>"
  let ?tx = "tx\<lparr>writeBuffer := Some (wb\<lparr>wbOrdered := sort (wbOrdered wb)\<rparr>)\<rparr>"
  have ts: "?ts \<noteq> 0" and nxt: "NextTS (tsGen tm) = (Ok ?ts, ?ts)"
    using assms(1) by (auto simp: commit_apply_def NextTS_def Let_def split: if_splits)
  have plain: "plain ?tm"
    using assms(2) by (simp add: plain_def)
  obtain undo tm1 tm2 tx2 where app: "applyWriteBuffer ?ts wb ?tm ?tx = (Ok undo, tm1)"
    and log: "log_durably (TxCommitEntry (txID tx) ?ts) tm1 = (Ok (), tm2)"
    and cl: "cleanup tm2 ?tx = (tm', tx2)" and tx': "tx' = tx2\<lparr>writeBuffer := None\<rparr>"
    using assms(1,4) nxt
    by (auto simp: commit_apply_def Let_def failed_def split: prod.splits outcome.splits)
  obtain l where tm2: "tm2 = tm1\<lparr>walState := l\<rparr>"
    using log_durably_frame [OF log] by blast
  have "frame ?tm tm1 \<and> tsGen tm1 = ?ts \<and> keyLocks tm1 = keyLocks tm \<and>
    (if commit_pairs ?ts wb = [] then store tm1 = store tm
     else \<exists>n. beSetBatch (storage tm) (commit_pairs ?ts wb) (store tm) = (Ok n, store tm1))"
    using app unfolding applyWriteBuffer_plain [OF plain ts assms(3)]
    by (auto simp: frame_def split: if_splits prod.splits outcome.splits)
  then show "committed ?ts wb tm tm'" "keyLocks tm' = keyLocks tm"
    using cl ts tm2 assms(4) by (auto simp: committed_def frame_def cleanup_def split: if_splits)
  have "tx2 = ?tx\<lparr>completed := True\<rparr>"
    using cl assms(4) by (auto simp: cleanup_def)
  then show "writeBuffer tx' = None" "completed tx'" "heldLocks tx' = heldLocks tx" "txID tx' = txID tx"
    by (simp_all add: tx')
qed

lemma txCommit_Ok:
  assumes "txCommit tm tx = (Ok (), tm', tx')" "plain tm" "writeBuffer tx = Some wb"
    "inline_buffer wb" "\<not> completed tx"
  shows "committed (tsGen tm + 1) wb tm tm'" "writeBuffer tx' = None" "completed tx'" "heldLocks tx' = None"
    "lock_held k tm' \<longleftrightarrow> lock_held k tm \<and> (heldLocks tx = None \<or> k \<notin> set (the (heldLocks tx)))"
proof -
  obtain tm1 tx1 where body: "commit_body tm tx = (Ok (), tm1, tx1)" and fin: "finish (Ok (), tm1, tx1) = (Ok (), tm', tx')"
    using assms(1,5) finish_Ok(1) by (cases "commit_body tm tx") (force simp: txCommit_def)
  obtain wb1 tm0 tx0 l where ap: "commit_apply wb1 tm0 tx0 = (Ok (), tm1, tx1)"
    and wb1: "wb1 = wb \<or> wb1 = wb\<lparr>wbOrdered := sort (wbOrdered wb)\<rparr>" and tm0: "tm0 = tm\<lparr>walState := l\<rparr>"
    and tx0: "completed tx0 = completed tx" "heldLocks tx0 = heldLocks tx"
  proof (cases "wal tm")
    case None
    with body assms(3) have "commit_apply wb tm tx = (Ok (), tm1, tx1)"
      by (simp add: commit_body_def)
    moreover have "tm = tm\<lparr>walState := walState tm\<rparr>" by simp
    ultimately show ?thesis using that by blast
  next
    case (Some w)
    with body assms(3) obtain tmp where log: "log_durably (fst (TxPrepareEntry (txID tx) wb)) tm = (Ok (), tmp)"
      and ap: "commit_apply (wb\<lparr>wbOrdered := sort (wbOrdered wb)\<rparr>) tmp
        (tx\<lparr>writeBuffer := Some (wb\<lparr>wbOrdered := sort (wbOrdered wb)\<rparr>)\<rparr>) = (Ok (), tm1, tx1)"
      by (auto simp: commit_body_def TxPrepareEntry_def Let_def wbOrderedKeys_def failed_def cleanup_def
          split: prod.splits outcome.splits if_splits)
    from log_durably_frame [OF log] ap that show ?thesis by fastforce
  qed
  have p: "plain tm0" "inline_buffer wb1" "\<not> completed tx0"
    using assms tm0 wb1 tx0 by (auto simp: plain_def)
  note c = commit_apply_Ok [OF ap p]
  note f = finish_Ok [OF fin]
  have "commit_pairs ts wb1 = commit_pairs ts wb" for ts
    using wb1 by auto
  with c(1) tm0 f(2-4) show "committed (tsGen tm + 1) wb tm tm'"
    by (auto simp: committed_def frame_def)
  show "writeBuffer tx' = None" "completed tx'" "heldLocks tx' = None"
    using c f by simp_all
  show "lock_held k tm' \<longleftrightarrow> lock_held k tm \<and> (heldLocks tx = None \<or> k \<notin> set (the (heldLocks tx)))"
    using f(8) [of k] c(2,5) tm0 tx0 by (simp add: lock_held_def)
qed

section \<open>Versions and snapshots\<close>

text \<open>
  The store as the engine sees it: raw values that parse to inline versions whose timestamps
  the generator has handed out.
\<close>

definition version_of :: "gslice \<Rightarrow> mvcc_value option" where
  "version_of raw = (case raw of None \<Rightarrow> None
     | Some b \<Rightarrow> (case ParseMVCC b of Ok mv \<Rightarrow> Some mv | Err e \<Rightarrow> None | Panic \<Rightarrow> None))"

definition inline_flag :: "byte \<Rightarrow> bool" where
  "inline_flag f \<longleftrightarrow> f = FlagNormal \<or> f = FlagTombstone"

definition wf_version :: "u64 \<Rightarrow> mvcc_value \<Rightarrow> bool" where
  "wf_version c mv \<longleftrightarrow> inline_flag (Flag mv) \<and> inline_flag (PrevFlag mv) \<and> BeginTS mv \<noteq> 0 \<and>
     BeginTS mv \<le> c"

definition wf_raws :: "u64 \<Rightarrow> (bytes \<Rightarrow> gslice) \<Rightarrow> bool" where
  "wf_raws c m \<longleftrightarrow> (\<forall>k raw. m k = Some raw \<longrightarrow> (\<exists>mv. ParseMVCC raw = Ok mv \<and> wf_version c mv))"

text \<open>Values that still fit as the previous version of the next write.\<close>

definition sized :: "(bytes \<Rightarrow> gslice) \<Rightarrow> bool" where
  "sized m \<longleftrightarrow> (\<forall>k mv. version_of (m k) = Some mv \<longrightarrow> length (RealVal mv) \<le> 65515)"

text \<open>What a snapshot reads of a version: the specification of \<open>snapshotGet\<close> on inline values.\<close>

definition read_version :: "u64 \<Rightarrow> mvcc_value \<Rightarrow> gslice outcome" where
  "read_version snap mv =
     (if BeginTS mv \<le> snap then
        (if IsTombstone mv then Err ErrKeyNotFound else Ok (Some (RealVal mv)))
      else if PrevBeginTS mv \<noteq> 0 \<and> PrevBeginTS mv \<le> snap then
        (if IsTombstoneFlag (PrevFlag mv) then Err ErrKeyNotFound else Ok (PrevVal mv))
      else Err ErrKeyNotFound)"

definition read_at :: "(bytes \<Rightarrow> gslice) \<Rightarrow> u64 \<Rightarrow> bytes \<Rightarrow> gslice outcome" where
  "read_at m snap k = (case version_of (m k) of None \<Rightarrow> Err ErrKeyNotFound | Some mv \<Rightarrow> read_version snap mv)"

text \<open>The bytes of a result; a nil slice and an empty one have the same bytes.\<close>

definition bytes_of :: "gslice outcome \<Rightarrow> bytes outcome" where
  "bytes_of r = bind_outcome r (\<lambda>v. Ok (slice_bytes v))"

text \<open>A buffered write captures the version that is current in the store.\<close>

definition captures :: "mvcc_value option \<Rightarrow> write_entry \<Rightarrow> bool" where
  "captures vo e = (case vo of
     Some mv \<Rightarrow>
       if Flag mv = FlagNormal
       then OldValue e = Some (RealVal mv) \<and> OldFlag e = Flag mv \<and> OldBeginTS e = BeginTS mv
       else OldValue e = None \<and> OldFlag e = 0 \<and> OldBeginTS e = 0
   | None \<Rightarrow> OldValue e = None \<and> OldFlag e = 0 \<and> OldBeginTS e = 0)"

definition captured :: "(bytes \<Rightarrow> gslice) \<Rightarrow> write_buffer \<Rightarrow> bool" where
  "captured m wb \<longleftrightarrow> wb_inv wb \<and> (\<forall>k e. wbGet k wb = Some e \<longrightarrow> captures (version_of (m k)) e)"

lemma captures_upd [simp]: "captures vo (e\<lparr>weOp := op, weValue := v\<rparr>) = captures vo e"
  by (simp add: captures_def split: option.split)

lemma captured_new: "captured m NewWriteBuffer"
  by (simp add: captured_def wb_inv_new)

lemma wf_version_of:
  "wf_raws c m \<Longrightarrow> m k = Some raw \<Longrightarrow> \<exists>mv. ParseMVCC raw = Ok mv \<and> version_of (m k) = Some mv \<and> wf_version c mv"
  by (fastforce simp: wf_raws_def version_of_def)

lemma wf_version_Some: "wf_raws c m \<Longrightarrow> version_of (m k) = Some mv \<Longrightarrow> wf_version c mv"
  by (cases "m k") (auto simp: version_of_def dest: wf_version_of)

lemma captured_inline:
  assumes "captured m wb" "wf_raws c m" "sized m"
  shows "inline_buffer wb"
  unfolding inline_buffer_def
proof (intro conjI allI impI)
  show "wb_inv wb" using assms(1) by (simp add: captured_def)
  fix k e
  assume "wbGet k wb = Some e"
  then have cap: "captures (version_of (m k)) e"
    using assms(1) by (simp add: captured_def)
  show "inline_entry e"
  proof (cases "version_of (m k)")
    case None
    with cap show ?thesis by (simp add: captures_def inline_entry_def FlagNormal_def)
  next
    case (Some mv)
    then have "wf_version c mv"
      using assms(2) wf_version_Some by blast
    with Some cap assms(3) show ?thesis
      by (auto simp: captures_def inline_entry_def wf_version_def sized_def FlagNormal_def split: if_splits)
  qed
qed

subsection \<open>A commit as the snapshots see it\<close>

text \<open>The store after a commit, key by key.\<close>

definition commit_map :: "u64 \<Rightarrow> write_buffer \<Rightarrow> (bytes \<Rightarrow> gslice) \<Rightarrow> bytes \<Rightarrow> gslice" where
  "commit_map ts wb m k = (case wbGet k wb of None \<Rightarrow> m k | Some e \<Rightarrow> Some (encoded ts e))"

lemma commit_map_fold:
  "wb_inv wb \<Longrightarrow> fold (\<lambda>(k, v) m. m(k \<mapsto> v)) (commit_pairs ts wb) m = commit_map ts wb m"
  by (rule ext) (simp add: commit_pairs_lookup commit_map_def)

lemma version_of_encoded:
  assumes "ts \<noteq> 0" "inline_entry e"
  shows "version_of (Some (encoded ts e)) =
    Some (built_value (entry_flag e) ts (entry_value e) (OldFlag e) (OldBeginTS e) (slice_bytes (OldValue e)))"
  using ParseMVCC_encoded [OF assms] by (simp add: version_of_def)

lemma read_commit_new:
  assumes "inline_buffer wb" "ts \<noteq> 0" "ts \<le> snap"
  shows "read_at (commit_map ts wb m) snap k = (case overlay (wbGet k wb) of
      None \<Rightarrow> read_at m snap k
    | Some None \<Rightarrow> Err ErrKeyNotFound
    | Some (Some v) \<Rightarrow> Ok (Some (slice_bytes v)))"
proof (cases "wbGet k wb")
  case None
  then show ?thesis by (simp add: read_at_def commit_map_def)
next
  case (Some e)
  then have "inline_entry e"
    using assms(1) by (simp add: inline_buffer_def)
  with Some assms show ?thesis
    by (simp add: read_at_def commit_map_def version_of_encoded read_version_def built_value_def
        IsTombstone_def entry_flag_def entry_value_def)
qed

lemma wf_raws_commit:
  assumes "inline_buffer wb" "wf_raws c m" "ts \<noteq> 0" "c \<le> ts"
  shows "wf_raws ts (commit_map ts wb m)"
  unfolding wf_raws_def
proof (intro allI impI)
  fix k raw
  assume raw: "commit_map ts wb m k = Some raw"
  show "\<exists>mv. ParseMVCC raw = Ok mv \<and> wf_version ts mv"
  proof (cases "wbGet k wb")
    case None
    then obtain mv where "ParseMVCC raw = Ok mv" "wf_version c mv"
      using raw assms(2) by (auto simp: wf_raws_def commit_map_def)
    with assms(4) show ?thesis by (auto simp: wf_version_def)
  next
    case (Some e)
    then have "inline_entry e" "raw = encoded ts e"
      using raw assms(1) by (auto simp: inline_buffer_def commit_map_def)
    with ParseMVCC_encoded [OF assms(3), of e] assms(3) show ?thesis
      by (simp add: wf_version_def built_value_def inline_flag_def inline_entry_def entry_flag_def)
  qed
qed

lemma read_commit_old:
  assumes "captured m wb" "wf_raws c m" "ts \<noteq> 0" "snap < ts" "sized m"
    and cur: "\<And>mv. version_of (m k) = Some mv \<Longrightarrow> BeginTS mv \<le> snap"
  shows "bytes_of (read_at (commit_map ts wb m) snap k) = bytes_of (read_at m snap k)"
proof (cases "wbGet k wb")
  case None
  then show ?thesis by (simp add: read_at_def commit_map_def)
next
  case (Some e)
  then have inl: "inline_entry e"
    using captured_inline [OF assms(1,2,5)] by (simp add: inline_buffer_def)
  have cap: "captures (version_of (m k)) e"
    using Some assms(1) by (simp add: captured_def)
  have new: "version_of (commit_map ts wb m k) =
      Some (built_value (entry_flag e) ts (entry_value e) (OldFlag e) (OldBeginTS e) (slice_bytes (OldValue e)))"
    using Some by (simp add: commit_map_def version_of_encoded [OF assms(3) inl])
  show ?thesis
  proof (cases "version_of (m k)")
    case None
    with cap new assms(4) show ?thesis
      by (simp add: read_at_def read_version_def built_value_def captures_def bytes_of_def not_le)
  next
    case (Some mv)
    then have "wf_version c mv"
      using assms(2) wf_version_Some by blast
    with Some cap new assms(4) cur [OF Some] show ?thesis
      by (auto simp: read_at_def read_version_def built_value_def captures_def bytes_of_def
          wf_version_def inline_flag_def IsTombstone_def split: if_splits)
  qed
qed

subsection \<open>The engine over a lawful storage\<close>

lemma visible_value_plain:
  assumes "ParseMVCC raw = Ok mv" "wf_version c mv"
  shows "visible_value snap None None w raw = read_version snap mv"
proof -
  have "DecodeValue raw None None w = Ok mv"
    using assms by (simp add: DecodeValue_def expandLOB_def expandLOBFile_def split: option.split)
  moreover have "\<not> IsLOBFlag (PrevFlag mv)"
    using assms by (auto simp: wf_version_def inline_flag_def)
  ultimately show ?thesis
    by (simp add: visible_value_def read_version_def)
qed

lemma captures_Put:
  assumes "captured m wb" "wf_raws c m" "old = (case version_of (m key) of None \<Rightarrow> no_version | Some mv \<Rightarrow> old_of mv)"
  shows "captured m (wbPut key v old wb)"
  unfolding captured_def
proof (intro conjI allI impI)
  show "wb_inv (wbPut key v old wb)"
    using assms(1) by (simp add: captured_def wb_inv_Put)
  fix k e
  assume e: "wbGet k (wbPut key v old wb) = Some e"
  have cap: "captures (version_of (m k)) e'" if "wbGet k wb = Some e'" for e'
    using assms(1) that by (simp add: captured_def)
  have flag: "inline_flag (Flag mv)" if "version_of (m key) = Some mv" for mv
    using wf_version_Some [OF assms(2) that] by (simp add: wf_version_def)
  show "captures (version_of (m k)) e"
  proof (cases "k = key")
    case False
    with e cap show ?thesis by (simp add: wbPut_other)
  next
    case True
    show ?thesis
    proof (cases "wbGet key wb")
      case None
      with True e assms(3) flag show ?thesis
        by (auto simp: wbPut_def Let_def captures_def no_version_def old_of_def inline_flag_def flag_defs
            split: option.splits if_splits)
    next
      case (Some e')
      with True e cap [of e'] show ?thesis
        by (auto simp: wbPut_def Let_def captures_def split: option.splits if_splits)
    qed
  qed
qed

lemma captures_setEntry:
  assumes "captured m wb" "wbGet key wb = Some e"
  shows "captured m (wbSetEntry key (e\<lparr>weOp := OpDelete, weValue := None\<rparr>) wb) \<or> weOp e = OpInsert"
    and "captured m (wb\<lparr>wbEntries := AList.delete key (wbEntries wb)\<rparr>)"
proof -
  have inv: "wb_inv wb" and e: "entry_inv e" and key: "key \<in> set (wbOrdered wb)"
    using assms by (auto simp: captured_def wb_inv_entry wb_inv_ordered)
  show "captured m (wbSetEntry key (e\<lparr>weOp := OpDelete, weValue := None\<rparr>) wb) \<or> weOp e = OpInsert"
  proof (cases "weOp e = OpInsert")
    case False
    with e have "entry_inv (e\<lparr>weOp := OpDelete, weValue := None\<rparr>)"
      by (simp add: entry_inv_def)
    then have "wb_inv (wbSetEntry key (e\<lparr>weOp := OpDelete, weValue := None\<rparr>) wb)"
      using inv key by (intro wb_inv_SetEntry(2))
    with assms show ?thesis
      by (auto simp: captured_def)
  qed simp
  show "captured m (wb\<lparr>wbEntries := AList.delete key (wbEntries wb)\<rparr>)"
    using assms inv by (auto simp: captured_def wb_inv_cancel)
qed

lemma captured_ordered [simp]: "captured m wb \<Longrightarrow> captured m (wb\<lparr>wbOrdered := sort (wbOrdered wb)\<rparr>)"
  by (simp add: captured_def wb_inv_def)

context kv_backend
begin

lemma get_raw_plain:
  assumes "storage tm = be" "invar (store tm)" "plain tm" "wf_raws c (lookup (store tm))"
  shows "snapshotGet k tm tx = read_at (lookup (store tm)) (snapshotTS tx) k"
proof (cases "lookup (store tm) k")
  case None
  with assms show ?thesis
    by (simp add: snapshotGet_def get_raw read_at_def version_of_def)
next
  case (Some raw)
  then obtain mv where "ParseMVCC raw = Ok mv" "wf_version c mv"
    using assms(4) by (auto simp: wf_raws_def)
  with Some assms show ?thesis
    by (simp add: snapshotGet_def get_raw read_at_def version_of_def plain_def visible_value_plain)
qed

lemma readOld_plain:
  assumes "storage tm = be" "invar (store tm)" "wf_raws c (lookup (store tm))"
  shows "readOld k tm = Ok (case version_of (lookup (store tm) k) of None \<Rightarrow> no_version | Some mv \<Rightarrow> old_of mv)"
proof (cases "lookup (store tm) k")
  case None
  with assms show ?thesis by (simp add: readOld_def get_raw version_of_def)
next
  case (Some raw)
  then obtain mv where "ParseMVCC raw = Ok mv"
    using assms(3) by (auto simp: wf_raws_def)
  with Some assms show ?thesis
    by (simp add: readOld_def get_raw version_of_def)
qed

lemma captured_delete_committed:
  assumes "storage tm = be" "invar (store tm)" "wf_raws c (lookup (store tm))"
    "captured (lookup (store tm)) wb" "wbGet key wb = None"
  shows "captured (lookup (store tm)) (snd (delete_committed key wb tm))"
proof (cases "lookup (store tm) key")
  case None
  with assms show ?thesis by (simp add: delete_committed_def get_raw)
next
  case (Some raw)
  then obtain mv where p: "ParseMVCC raw = Ok mv" and wf: "wf_version c mv"
    and ver: "version_of (lookup (store tm) key) = Some mv"
    using assms(3) wf_version_of by blast
  let ?old = "(old_of mv)\<lparr>ovValue := Some (RealVal mv)\<rparr>"
  show ?thesis
  proof (cases "IsTombstone mv")
    case True
    with Some p assms show ?thesis by (simp add: delete_committed_def get_raw)
  next
    case False
    then have flag: "Flag mv = FlagNormal"
      using wf by (auto simp: wf_version_def inline_flag_def IsTombstone_def)
    have inv: "wb_inv (snd (wbDelete key ?old wb))"
      using assms(4) by (simp add: captured_def wb_inv_Delete)
    have "captures (version_of (lookup (store tm) k)) e" if "wbGet k (snd (wbDelete key ?old wb)) = Some e" for k e
      using that assms(4,5) ver flag
      by (cases "k = key") (auto simp: wbDelete_def Let_def captures_def old_of_def captured_def)
    with inv False Some p assms show ?thesis
      by (simp add: delete_committed_def get_raw captured_def)
  qed
qed

lemma captured_delete_buffered:
  assumes "storage tm = be" "invar (store tm)" "wf_raws c (lookup (store tm))"
    "captured (lookup (store tm)) wb"
  shows "captured (lookup (store tm)) (snd (delete_buffered key wb tm))"
proof (cases "wbGet key wb")
  case None
  with captured_delete_committed [OF assms this] show ?thesis by (simp add: delete_buffered_def)
next
  case (Some e)
  show ?thesis
  proof (cases "weOp e")
    case OpInsert
    have "wbEntries (snd (delete_buffered key wb tm)) = AList.delete key (wbEntries wb)"
      "wbOrdered (snd (delete_buffered key wb tm)) = wbOrdered wb"
      using Some OpInsert
      by (simp_all add: delete_buffered_def wbDelete_def wbSetEntry_def wbGet_def update_conv' delete_update_same)
    then have "snd (delete_buffered key wb tm) = wb\<lparr>wbEntries := AList.delete key (wbEntries wb)\<rparr>"
      by simp
    with captures_setEntry(2) [OF assms(4) Some] show ?thesis by simp
  next
    case OpUpdate
    with Some captures_setEntry(1) [OF assms(4) Some] show ?thesis by (simp add: delete_buffered_def)
  next
    case OpDelete
    with Some assms(4) show ?thesis by (simp add: delete_buffered_def)
  qed
qed

lemma committed_lookup:
  assumes "committed ts wb tm tm'" "storage tm = be" "invar (store tm)" "wb_inv wb"
  shows "invar (store tm')" "lookup (store tm') = commit_map ts wb (lookup (store tm))"
    "storage tm' = be"
proof -
  have "invar (store tm') \<and> lookup (store tm') = fold (\<lambda>(k, v) m. m(k \<mapsto> v)) (commit_pairs ts wb) (lookup (store tm))"
  proof (cases "commit_pairs ts wb = []")
    case True
    with assms show ?thesis by (simp add: committed_def)
  next
    case False
    with assms obtain n where "beSetBatch be (commit_pairs ts wb) (store tm) = (Ok n, store tm')"
      by (auto simp: committed_def)
    with batch_ok [OF assms(3)] show ?thesis by blast
  qed
  then show "invar (store tm')" "lookup (store tm') = commit_map ts wb (lookup (store tm))"
    using commit_map_fold [OF assms(4)] by auto
  show "storage tm' = be"
    using assms by (simp add: committed_def frame_def)
qed

end

text \<open>A lawful, well-formed manager with an active transaction whose buffer captured the store.\<close>

definition engine_ok ::
  "('s \<Rightarrow> bool) \<Rightarrow> ('s \<Rightarrow> bytes \<Rightarrow> gslice) \<Rightarrow> ('s, 'l, 'w) tx_manager \<Rightarrow> bool" where
  "engine_ok invar lookup tm \<longleftrightarrow> kv_backend (storage tm) invar lookup \<and> invar (store tm) \<and> plain tm \<and>
     wf_raws (tsGen tm) (lookup (store tm)) \<and> sized (lookup (store tm))"

definition buffer_ok :: "('s \<Rightarrow> bytes \<Rightarrow> gslice) \<Rightarrow> ('s, 'l, 'w) tx_manager \<Rightarrow> snapshot_tx \<Rightarrow> bool" where
  "buffer_ok lookup tm tx \<longleftrightarrow> \<not> completed tx \<and>
     (\<exists>wb. writeBuffer tx = Some wb \<and> captured (lookup (store tm)) wb)"

lemma commit_effect:
  assumes ok: "engine_ok invar lookup tm" and buf: "\<not> completed tx" "writeBuffer tx = Some wb"
    "captured (lookup (store tm)) wb" and commit: "txCommit tm tx = (Ok (), tm', tx')"
  shows "tsGen tm' = tsGen tm + 1" "tsGen tm' \<noteq> 0" "tsGen tm < tsGen tm'"
    "lookup (store tm') = commit_map (tsGen tm') wb (lookup (store tm))"
    "snapshotGet k tm rd = read_at (lookup (store tm)) (snapshotTS rd) k"
    "snapshotGet k tm' rd = read_at (commit_map (tsGen tm') wb (lookup (store tm))) (snapshotTS rd) k"
proof -
  let ?m = "lookup (store tm)"
  have be: "kv_backend (storage tm) invar lookup" and inv: "invar (store tm)" and plain: "plain tm"
    and wf: "wf_raws (tsGen tm) ?m" and sz: "sized ?m"
    using ok by (simp_all add: engine_ok_def)
  have inl: "inline_buffer wb" and wbi: "wb_inv wb"
    using captured_inline [OF buf(3) wf sz] buf(3) by (simp_all add: captured_def)
  have c: "committed (tsGen tm + 1) wb tm tm'"
    by (rule txCommit_Ok(1) [OF commit plain buf(2) inl buf(1)])
  then show ts: "tsGen tm' = tsGen tm + 1" "tsGen tm' \<noteq> 0" and lt: "tsGen tm < tsGen tm'"
    by (simp_all add: committed_def plus_one_gt)
  note cl = kv_backend.committed_lookup [OF be c [folded ts(1)] refl inv wbi]
  show m': "lookup (store tm') = commit_map (tsGen tm') wb ?m"
    by (rule cl(2))
  show "snapshotGet k tm rd = read_at ?m (snapshotTS rd) k"
    by (rule kv_backend.get_raw_plain [OF be refl inv plain wf])
  have "plain tm'"
    using c plain frame_plain by (auto simp: committed_def)
  moreover have "wf_raws (tsGen tm') (lookup (store tm'))"
    unfolding m' using lt by (intro wf_raws_commit [OF inl wf ts(2)]) simp
  ultimately show "snapshotGet k tm' rd = read_at (commit_map (tsGen tm') wb ?m) (snapshotTS rd) k"
    using kv_backend.get_raw_plain [OF be cl(3,1)] m' by metis
qed



end
