(* ===== verification/Tx_System.thy ===== *)
theory Tx_System
  imports Tx_Correctness
begin

text \<open>
  Many transactions on one manager: a step relation whose steps are the calls of the engine, and
  the invariant of its reachable states. The key locks exclude each other and are never leaked,
  the store stays readable, and every active buffer keeps the committed version of each key it
  writes, through commits that fail half-way and are rolled back as well.
\<close>

section \<open>Rolling back a failed commit\<close>

definition restored :: "u64 \<Rightarrow> write_entry \<Rightarrow> gslice" where
  "restored ts e = (case old_raw e of
     None \<Rightarrow> (case BuildMVCC FlagTombstone ts [] 0 0 [] of Ok b \<Rightarrow> Some b | Err er \<Rightarrow> None | Panic \<Rightarrow> None)
   | Some b \<Rightarrow> Some b)"

text \<open>Each key holds its old value, the committed one or the rolled-back one.\<close>

definition applied :: "u64 \<Rightarrow> write_buffer \<Rightarrow> (bytes \<Rightarrow> gslice) \<Rightarrow> (bytes \<Rightarrow> gslice) \<Rightarrow> bool" where
  "applied ts wb m m' \<longleftrightarrow> (\<forall>k. m' k = m k \<or>
     (\<exists>e. wbGet k wb = Some e \<and> (m' k = Some (encoded ts e) \<or> m' k = restored ts e \<and> restored ts e \<noteq> None)))"

lemma applied_refl [simp]: "applied ts wb m m"
  by (simp add: applied_def)

lemma applied_commit: "applied ts wb m (commit_map ts wb m)"
  by (auto simp: applied_def commit_map_def split: option.splits)

lemma applied_restore:
  assumes "applied ts wb m m'" "wbGet k wb = Some e" "restored ts e = Some b"
  shows "applied ts wb m (m'(k \<mapsto> b))"
  unfolding applied_def
proof
  fix k'
  show "(m'(k \<mapsto> b)) k' = m k' \<or> (\<exists>e. wbGet k' wb = Some e \<and>
      ((m'(k \<mapsto> b)) k' = Some (encoded ts e) \<or> (m'(k \<mapsto> b)) k' = restored ts e \<and> restored ts e \<noteq> None))"
    using assms by (cases "k' = k") (auto simp: applied_def)
qed

lemma applied_sorted [simp]:
  "applied ts (wb\<lparr>wbOrdered := os\<rparr>) m m' = applied ts wb m m'"
  by (simp add: applied_def)

context kv_backend
begin

lemma restore_key_applied:
  assumes "storage tm = be" "invar (store tm)" "plain tm" "applied ts wb m (lookup (store tm))"
    and "wbGet k wb = Some e" "restore_key (undo_of ts (k, e)) tm = (r, tm')"
  shows "frame tm tm' \<and> keyLocks tm' = keyLocks tm \<and> tsGen tm' = tsGen tm \<and> invar (store tm') \<and>
    applied ts wb m (lookup (store tm'))"
proof (cases "tm' = tm")
  case True
  with assms show ?thesis by (simp add: frame_def)
next
  case False
  with assms obtain b s where b: "restored ts e = Some b" and set: "beSet be k b (store tm) = (r, s)"
    and tm': "tm' = tm\<lparr>store := s\<rparr>"
    by (auto simp: restore_key_def undo_of_def plain_def restored_def Let_def
        split: outcome.splits option.splits if_splits prod.splits)
  have "r \<noteq> Panic"
    using no_panic [OF assms(2), of k b] set by auto
  then consider u where "r = Ok u" | er where "r = Err er"
    by (cases r) auto
  then have "invar s \<and> applied ts wb m (lookup s)"
  proof cases
    case 1
    with set set_ok [OF assms(2)] have "invar s \<and> lookup s = (lookup (store tm))(k \<mapsto> b)" by blast
    with applied_restore [OF assms(4,5) b] show ?thesis by simp
  next
    case 2
    with set set_err [OF assms(2)] assms(4) show ?thesis by fastforce
  qed
  then show ?thesis
    by (simp add: tm' frame_def)
qed

lemma rollback_list_applied:
  assumes "storage tm = be" "invar (store tm)" "plain tm" "applied ts wb m (lookup (store tm))"
    and "\<And>k e. (k, e) \<in> set kes \<Longrightarrow> wbGet k wb = Some e \<and> heldLocks tx = Some hs \<and> k \<in> set hs"
    and "rollback_list (map (undo_of ts) kes) fe tm tx = (r, tm')"
  shows "frame tm tm' \<and> keyLocks tm' = keyLocks tm \<and> tsGen tm' = tsGen tm \<and> invar (store tm') \<and>
    applied ts wb m (lookup (store tm'))"
  using assms
proof (induction kes arbitrary: tm fe)
  case Nil
  then show ?case by (simp add: frame_def)
next
  case (Cons ke kes)
  obtain k e where ke: "ke = (k, e)" by (cases ke)
  with Cons.prems(5) have held: "wbGet k wb = Some e" "heldLocks tx = Some hs" "k \<in> set hs" by auto
  obtain r1 tm1 where rk: "restore_key (undo_of ts (k, e)) tm = (r1, tm1)"
    by (cases "restore_key (undo_of ts (k, e)) tm")
  have "undoKey (undo_of ts (k, e)) = k"
    by (simp add: undo_of_def)
  with held rk have one: "rollbackOneKey (undo_of ts ke) tm tx = (recovered r1, tm1)"
    by (simp add: rollbackOneKey_def ke)
  note s = restore_key_applied [OF Cons.prems(1-4) held(1) rk]
  then have "storage tm1 = be" "invar (store tm1)" "plain tm1" "applied ts wb m (lookup (store tm1))"
    using Cons.prems(1,3) frame_plain by (auto simp: frame_def)
  from Cons.IH [OF this Cons.prems(5)] Cons.prems(6) one s show ?case
    by (auto simp: frame_def)
qed

end

section \<open>Any outcome of a commit\<close>

text \<open>What a commit that does not panic leaves: nothing but the log changed, or the timestamp was
  taken and each key of the buffer is in one of the three states.\<close>

definition commit_result ::
  "('s \<Rightarrow> bool) \<Rightarrow> ('s \<Rightarrow> bytes \<Rightarrow> gslice) \<Rightarrow> write_buffer \<Rightarrow> ('s, 'l, 'w) tx_manager
    \<Rightarrow> ('s, 'l, 'w) tx_manager \<Rightarrow> bool" where
  "commit_result invar lookup wb tm tm' \<longleftrightarrow> frame tm tm' \<and> invar (store tm') \<and>
     (tsGen tm' = tsGen tm \<and> lookup (store tm') = lookup (store tm) \<or>
      tsGen tm' = tsGen tm + 1 \<and> tsGen tm' \<noteq> 0 \<and>
      applied (tsGen tm') wb (lookup (store tm)) (lookup (store tm')))"

lemma cleanup_frame:
  assumes "cleanup tm tx = (tm', tx')"
  shows "frame tm tm' \<and> store tm' = store tm \<and> tsGen tm' = tsGen tm \<and> keyLocks tm' = keyLocks tm \<and>
    completed tx' \<and> heldLocks tx' = heldLocks tx \<and> txID tx' = txID tx"
  using assms by (auto simp: cleanup_def frame_def split: if_splits)

lemma failed_frame:
  assumes "failed r tm tx = (r', tm', tx')"
  shows "r' = r \<and> frame tm tm' \<and> store tm' = store tm \<and> tsGen tm' = tsGen tm \<and> keyLocks tm' = keyLocks tm \<and>
    completed tx' \<and> heldLocks tx' = heldLocks tx"
  using assms cleanup_frame by (fastforce simp: failed_def split: prod.splits)

context kv_backend
begin

lemma rollbackApplied_applied:
  assumes "storage tm = be" "invar (store tm)" "plain tm" "applied ts wb m (lookup (store tm))"
    and "\<And>k e. wbGet k wb = Some e \<Longrightarrow> heldLocks tx = Some hs \<and> k \<in> set hs"
    and "rollbackApplied (map (undo_of ts) (live_entries keys wb)) tm tx = (r, tm')"
  shows "frame tm tm' \<and> keyLocks tm' = keyLocks tm \<and> tsGen tm' = tsGen tm \<and> invar (store tm') \<and>
    applied ts wb m (lookup (store tm'))"
  using assms(5,6)
  by (intro rollback_list_applied [OF assms(1-4), of "rev (live_entries keys wb)" tx hs])
    (auto simp: rollbackApplied_def rev_map set_live_entries)

lemma apply_result:
  assumes "storage tm = be" "invar (store tm)" "plain tm" "ts \<noteq> 0" "inline_buffer wb"
    and held: "\<And>k e. wbGet k wb = Some e \<Longrightarrow> heldLocks tx = Some hs \<and> k \<in> set hs"
    and app: "applyWriteBuffer ts wb tm tx = (r, tm')"
  shows "r \<noteq> Panic \<and> frame tm tm' \<and> keyLocks tm' = keyLocks tm \<and> tsGen tm' = tsGen tm \<and>
    invar (store tm') \<and> applied ts wb (lookup (store tm)) (lookup (store tm'))"
proof (cases "commit_pairs ts wb = []")
  case True
  with app show ?thesis
    using assms(2) by (auto simp: applyWriteBuffer_plain [OF assms(3-5)] frame_def)
next
  case False
  let ?b = "beSetBatch be (commit_pairs ts wb) (store tm)"
  have wbi: "wb_inv wb" using assms(5) by (simp add: inline_buffer_def)
  obtain rb s where b: "?b = (rb, s)" by (cases ?b)
  have "rb \<noteq> Panic"
    using no_panic [OF assms(2), where ps = "commit_pairs ts wb"] b by auto
  then consider n where "rb = Ok n" | er where "rb = Err er" by (cases rb) auto
  then show ?thesis
  proof cases
    case 1
    with b batch_ok [OF assms(2)] commit_map_fold [OF wbi]
    have "invar s" "lookup s = commit_map ts wb (lookup (store tm))" by metis+
    with 1 b False app show ?thesis
      by (auto simp: applyWriteBuffer_plain [OF assms(3-5)] assms(1) frame_def applied_commit)
  next
    case 2
    with b batch_err [OF assms(2)] have s: "invar s" "lookup s = lookup (store tm)" by metis+
    let ?undo = "map (undo_of ts) (live_entries (sort (wbOrdered wb)) wb)"
    obtain r1 tm1 where roll: "rollbackApplied ?undo (tm\<lparr>store := s\<rparr>) tx = (r1, tm1)"
      by (cases "rollbackApplied ?undo (tm\<lparr>store := s\<rparr>) tx")
    have res: "r = Err er" "tm' = tm1"
      using 2 b False app roll by (simp_all add: applyWriteBuffer_plain [OF assms(3-5)] assms(1))
    have "plain (tm\<lparr>store := s\<rparr>)" using assms(3) by (simp add: plain_def)
    from rollbackApplied_applied [OF _ _ this _ held roll, of "lookup (store tm)"] s assms(1) res
    show ?thesis by (simp add: frame_def)
  qed
qed

lemma commit_apply_result:
  assumes "storage tm = be" "invar (store tm)" "plain tm" "inline_buffer wb" "\<not> completed tx"
    and held: "\<And>k e. wbGet k wb = Some e \<Longrightarrow> heldLocks tx = Some hs \<and> k \<in> set hs"
    and com: "commit_apply wb tm tx = (r, tm', tx')" and "r \<noteq> Panic"
  shows "commit_result invar lookup wb tm tm' \<and> keyLocks tm' = keyLocks tm \<and> completed tx' \<and>
    heldLocks tx' = heldLocks tx"
proof -
  let ?ts = "tsGen tm + 1" and ?tm = "tm\<lparr>tsGen := tsGen tm + 1\<rparr>"
  let ?tx = "tx\<lparr>writeBuffer := Some (wb\<lparr>wbOrdered := sort (wbOrdered wb)\<rparr>)\<rparr>"
  have ts: "?ts \<noteq> 0" and nxt: "NextTS (tsGen tm) = (Ok ?ts, ?ts)"
    using com assms(8) by (auto simp: commit_apply_def NextTS_def Let_def split: if_splits)
  obtain ra tm1 where app: "applyWriteBuffer ?ts wb ?tm ?tx = (ra, tm1)"
    by (cases "applyWriteBuffer ?ts wb ?tm ?tx")
  have A: "ra \<noteq> Panic \<and> frame ?tm tm1 \<and> keyLocks tm1 = keyLocks tm \<and> tsGen tm1 = ?ts \<and>
      invar (store tm1) \<and> applied ?ts wb (lookup (store tm)) (lookup (store tm1))"
    using apply_result [OF _ _ _ ts assms(4) _ app, of hs] assms(1-3) held by (simp add: plain_def)
  have fin: ?thesis if "frame tm1 tm2" "keyLocks tm2 = keyLocks tm1" "tsGen tm2 = tsGen tm1" "invar (store tm2)"
      "applied ?ts wb (lookup (store tm)) (lookup (store tm2))"
      "cleanup tm2 ?tx = (tm', tx2)" "tx' = tx2 \<or> tx' = tx2\<lparr>writeBuffer := None\<rparr>" for tm2 tx2
    using that A ts cleanup_frame [OF that(6)]
    by (auto simp: commit_result_def frame_def)
  show ?thesis
  proof (cases ra)
    case (Err e)
    with com nxt app have "failed (Err e) tm1 ?tx = (r, tm', tx')"
      by (simp add: commit_apply_def Let_def)
    then show ?thesis
      using A by (intro fin [of tm1 tx']) (auto simp: failed_def frame_def split: prod.splits)
  next
    case Panic
    with A show ?thesis by simp
  next
    case (Ok undo)
    have undo: "undo = map (undo_of ?ts) (live_entries (sort (wbOrdered wb)) wb)"
      using app Ok assms(3) ts assms(4)
      by (auto simp: applyWriteBuffer_plain plain_def commit_pairs_def split: if_splits prod.splits outcome.splits)
    obtain rl tm2 where log: "log_durably (TxCommitEntry (txID tx) ?ts) tm1 = (rl, tm2)"
      by (cases "log_durably (TxCommitEntry (txID tx) ?ts) tm1")
    then obtain l where tm2: "tm2 = tm1\<lparr>walState := l\<rparr>"
      using log_durably_frame by blast
    show ?thesis
    proof (cases rl)
      case Panic
      with com nxt app log Ok assms(8) show ?thesis by (simp add: commit_apply_def Let_def)
    next
      case (Ok u)
      with com nxt app log \<open>ra = Ok undo\<close> obtain tx2 where "cleanup tm2 ?tx = (tm', tx2)" "tx' = tx2\<lparr>writeBuffer := None\<rparr>"
        by (auto simp: commit_apply_def Let_def split: prod.splits)
      then show ?thesis
        using A tm2 by (intro fin [of tm2 tx2]) (simp_all add: frame_def)
    next
      case (Err e)
      obtain rr tm3 where roll: "rollbackApplied undo tm2 ?tx = (rr, tm3)"
        by (cases "rollbackApplied undo tm2 ?tx")
      have st: "storage tm2 = be" "invar (store tm2)" "plain tm2"
          "applied ?ts wb (lookup (store tm)) (lookup (store tm2))"
        using A tm2 assms(1,3) by (simp_all add: frame_def plain_def)
      have R: "frame tm2 tm3 \<and> keyLocks tm3 = keyLocks tm2 \<and> tsGen tm3 = tsGen tm2 \<and> invar (store tm3) \<and>
          applied ?ts wb (lookup (store tm)) (lookup (store tm3))"
        using rollbackApplied_applied [OF st, of ?tx hs] held roll undo by simp
      from com nxt app log \<open>ra = Ok undo\<close> Err roll have "failed (Err e) tm3 ?tx = (r, tm', tx')"
        by (simp add: commit_apply_def Let_def)
      then show ?thesis
        using A tm2 R by (intro fin [of tm3 tx']) (auto simp: failed_def frame_def split: prod.splits)
    qed
  qed
qed

lemma txCommit_result:
  assumes "storage tm = be" "invar (store tm)" "plain tm" "writeBuffer tx = Some wb" "inline_buffer wb"
    "\<not> completed tx" "heldLocks tx = Some hs"
    and held: "\<And>k e. wbGet k wb = Some e \<Longrightarrow> k \<in> set hs"
    and com: "txCommit tm tx = (r, tm', tx')" "r \<noteq> Panic"
  shows "commit_result invar lookup wb tm tm' \<and> completed tx' \<and> heldLocks tx' = None \<and>
    (\<forall>k. lock_held k tm' \<longleftrightarrow> lock_held k tm \<and> k \<notin> set hs)"
proof -
  obtain rb tm1 tx1 where body: "commit_body tm tx = (rb, tm1, tx1)"
    by (cases "commit_body tm tx")
  with com assms(6) have fin: "finish (rb, tm1, tx1) = (r, tm', tx')" and rb: "rb = r"
    using finish_Ok(1) by (force simp: txCommit_def)+
  have B: "commit_result invar lookup wb tm tm1 \<and> keyLocks tm1 = keyLocks tm \<and> completed tx1 \<and>
      heldLocks tx1 = heldLocks tx"
  proof (cases "wal tm")
    case None
    with body assms(4) have "commit_apply wb tm tx = (rb, tm1, tx1)"
      by (simp add: commit_body_def)
    from commit_apply_result [OF assms(1-3,5,6) _ this, of hs] held assms(7) rb com(2) show ?thesis by simp
  next
    case (Some w)
    let ?wb = "wb\<lparr>wbOrdered := sort (wbOrdered wb)\<rparr>" and ?tx = "tx\<lparr>writeBuffer := Some (wb\<lparr>wbOrdered := sort (wbOrdered wb)\<rparr>)\<rparr>"
    obtain rl tm2 where log: "log_durably (fst (TxPrepareEntry (txID tx) wb)) tm = (rl, tm2)"
      by (cases "log_durably (fst (TxPrepareEntry (txID tx) wb)) tm")
    then obtain l where tm2: "tm2 = tm\<lparr>walState := l\<rparr>"
      using log_durably_frame by blast
    have snd: "TxPrepareEntry (txID tx) wb = (fst (TxPrepareEntry (txID tx) wb), ?wb)"
      by (simp add: TxPrepareEntry_def Let_def wbOrderedKeys_def)
    show ?thesis
    proof (cases rl)
      case (Ok u)
      with body Some assms(4) log snd have "commit_apply ?wb tm2 ?tx = (rb, tm1, tx1)"
        by (auto simp: commit_body_def Let_def split: prod.splits)
      from commit_apply_result [OF _ _ _ _ _ _ this, of hs] assms held rb com(2) tm2 show ?thesis
        by (simp add: plain_def commit_result_def frame_def)
    next
      case (Err e)
      with body Some assms(4) log snd have "failed (Err e) tm2 ?tx = (rb, tm1, tx1)"
        by (auto simp: commit_body_def Let_def split: prod.splits)
      from failed_frame [OF this] assms(2) tm2 show ?thesis
        by (simp add: commit_result_def frame_def)
    next
      case Panic
      with body Some assms(4) log snd rb com(2) show ?thesis
        by (auto simp: commit_body_def Let_def split: prod.splits)
    qed
  qed
  note f = finish_Ok [OF fin]
  have "commit_result invar lookup wb tm tm'"
    using B f(2-4) by (simp add: commit_result_def frame_def)
  moreover have "lock_held k tm' \<longleftrightarrow> lock_held k tm \<and> k \<notin> set hs" for k
    using f(8) [of k] B assms(7) by (simp add: lock_held_def)
  ultimately show ?thesis
    using B f(5,7) by simp
qed

end

section \<open>Well-formedness after a commit\<close>

definition buffer_sized :: "write_buffer \<Rightarrow> bool" where
  "buffer_sized wb \<longleftrightarrow> (\<forall>k e. wbGet k wb = Some e \<longrightarrow> length (slice_bytes (weValue e)) \<le> 65515)"

lemma restored_version:
  assumes "restored ts e = Some b" "captures vo e" "entry_inv e" "ts \<noteq> 0"
    and wf: "\<And>mv. vo = Some mv \<Longrightarrow> wf_version c mv \<and> length (RealVal mv) \<le> 65515" "c \<le> ts"
  shows "\<exists>mv. ParseMVCC b = Ok mv \<and> wf_version ts mv \<and> length (RealVal mv) \<le> 65515"
proof (cases "old_raw e")
  case None
  with assms(1) have "BuildMVCC FlagTombstone ts [] 0 0 [] = Ok b"
    by (auto simp: restored_def split: outcome.splits)
  then have "ParseMVCC b = Ok (built_value FlagTombstone ts [] 0 0 [])"
    using assms(4) by (intro ParseMVCC_BuildMVCC) simp_all
  with assms(4) show ?thesis
    by (simp add: built_value_def wf_version_def inline_flag_def FlagNormal_def)
next
  case (Some b')
  with assms(1) have b: "BuildMVCC (OldFlag e) (OldBeginTS e) (slice_bytes (OldValue e)) 0 0 [] = Ok b"
    and "OldValue e \<noteq> None"
    using assms(3) by (auto simp: restored_def old_raw_def entry_inv_def split: outcome.splits if_splits)
  then obtain mv where mv: "vo = Some mv" "Flag mv = FlagNormal" "OldFlag e = FlagNormal"
    "OldBeginTS e = BeginTS mv" "OldValue e = Some (RealVal mv)"
    using assms(2) by (auto simp: captures_def split: option.splits if_splits)
  with wf have "wf_version c mv" "length (RealVal mv) \<le> 65515" by auto
  moreover from this have "ParseMVCC b = Ok (built_value (OldFlag e) (OldBeginTS e) (RealVal mv) 0 0 [])"
    using b mv by (intro ParseMVCC_BuildMVCC) (simp_all add: wf_version_def)
  ultimately show ?thesis
    using mv wf(2) by (auto simp: built_value_def wf_version_def inline_flag_def FlagNormal_def)
qed

lemma applied_version:
  assumes app: "applied ts wb m m'" and cap: "captured m wb" and wf: "wf_raws c m" and sz: "sized m"
    and bs: "buffer_sized wb" and ts: "ts \<noteq> 0" "c \<le> ts" and raw: "m' k = Some raw"
  shows "\<exists>mv. ParseMVCC raw = Ok mv \<and> wf_version ts mv \<and> length (RealVal mv) \<le> 65515"
proof -
  consider "m' k = m k" | e where "wbGet k wb = Some e" "m' k = Some (encoded ts e)"
    | e where "wbGet k wb = Some e" "m' k = restored ts e" "restored ts e \<noteq> None"
    using app unfolding applied_def by blast
  then show ?thesis
  proof cases
    case 1
    then obtain mv where "ParseMVCC raw = Ok mv" "version_of (m k) = Some mv" "wf_version c mv"
      using raw wf wf_version_of by metis
    with ts(2) sz show ?thesis by (auto simp: wf_version_def sized_def)
  next
    case 2
    then have "inline_entry e"
      using captured_inline [OF cap wf sz] by (simp add: inline_buffer_def)
    with ParseMVCC_encoded [OF ts(1), of e] 2 raw bs ts(1) show ?thesis
      by (auto simp: built_value_def wf_version_def inline_flag_def inline_entry_def entry_flag_def
          entry_value_def buffer_sized_def)
  next
    case 3
    then have "captures (version_of (m k)) e" "entry_inv e"
      using cap by (auto simp: captured_def wb_inv_entry)
    moreover have "wf_version c mv \<and> length (RealVal mv) \<le> 65515" if "version_of (m k) = Some mv" for mv
      using that wf_version_Some [OF wf that] sz by (auto simp: sized_def)
    ultimately show ?thesis
      using restored_version [OF _ _ _ ts(1) _ ts(2)] 3 raw by metis
  qed
qed

lemma commit_result_ok:
  assumes "commit_result invar lookup wb tm tm'" "engine_ok invar lookup tm"
    "captured (lookup (store tm)) wb" "buffer_sized wb"
  shows "engine_ok invar lookup tm'"
    and "wbGet k wb = None \<Longrightarrow> lookup (store tm') k = lookup (store tm) k"
proof -
  let ?m = "lookup (store tm)" and ?m' = "lookup (store tm')"
  have fr: "frame tm tm'" "invar (store tm')"
    using assms(1) by (simp_all add: commit_result_def)
  have wf: "wf_raws (tsGen tm) ?m" and sz: "sized ?m"
    using assms(2) by (simp_all add: engine_ok_def)
  consider "tsGen tm' = tsGen tm" "?m' = ?m"
    | "tsGen tm' = tsGen tm + 1" "tsGen tm' \<noteq> 0" "applied (tsGen tm') wb ?m ?m'"
    using assms(1) by (auto simp: commit_result_def)
  then have "wf_raws (tsGen tm') ?m' \<and> sized ?m' \<and> (wbGet k wb = None \<longrightarrow> ?m' k = ?m k)"
  proof cases
    case 1
    with wf sz show ?thesis by simp
  next
    case 2
    then have "tsGen tm \<le> tsGen tm'"
      using plus_one_gt [of "tsGen tm"] by simp
    note v = applied_version [OF 2(3) assms(3) wf sz assms(4) 2(2) this]
    have "wf_raws (tsGen tm') ?m'"
      using v unfolding wf_raws_def by blast
    moreover have "sized ?m'"
      unfolding sized_def
    proof (intro allI impI)
      fix k mv
      assume "version_of (?m' k) = Some mv"
      then show "length (RealVal mv) \<le> 65515"
        using v [of k] by (cases "?m' k") (auto simp: version_of_def)
    qed
    ultimately show ?thesis
      using 2(3) by (auto simp: applied_def)
  qed
  then show "engine_ok invar lookup tm'" "wbGet k wb = None \<Longrightarrow> ?m' k = ?m k"
    using assms(2) fr by (auto simp: engine_ok_def frame_def plain_def)
qed

section \<open>The system\<close>

type_synonym ('s, 'l, 'w) system = "('s, 'l, 'w) tx_manager \<times> (u64 \<Rightarrow> snapshot_tx option)"

text \<open>
  One call of the engine. Values are bounded so that they fit as a previous version; ids are
  fresh until the 64-bit counter wraps; a panic ends the program and is not a step.
\<close>

inductive step :: "('s, 'l, 'w) system \<Rightarrow> ('s, 'l, 'w) system \<Rightarrow> bool" where
  step_begin: "beginTx level tm = (Ok tx, tm') \<Longrightarrow> txs (txID tx) = None \<Longrightarrow>
     step (tm, txs) (tm', txs(txID tx \<mapsto> tx))"
| step_put: "txs i = Some tx \<Longrightarrow> length (slice_bytes v) \<le> 65515 \<Longrightarrow>
     txPut key v tm tx = (r, tm', tx') \<Longrightarrow> r \<noteq> Panic \<Longrightarrow> step (tm, txs) (tm', txs(i \<mapsto> tx'))"
| step_delete: "txs i = Some tx \<Longrightarrow> txDelete key tm tx = (r, tm', tx') \<Longrightarrow> r \<noteq> Panic \<Longrightarrow>
     step (tm, txs) (tm', txs(i \<mapsto> tx'))"
| step_commit: "txs i = Some tx \<Longrightarrow> txCommit tm tx = (r, tm', tx') \<Longrightarrow> r \<noteq> Panic \<Longrightarrow>
     step (tm, txs) (tm', txs(i \<mapsto> tx'))"
| step_rollback: "txs i = Some tx \<Longrightarrow> txRollback tm tx = (r, tm', tx') \<Longrightarrow>
     step (tm, txs) (tm', txs(i \<mapsto> tx'))"

inductive reach :: "('s, 'l, 'w) tx_manager \<Rightarrow> ('s, 'l, 'w) system \<Rightarrow> bool" for tm0 where
  reach_init: "reach tm0 (tm0, Map.empty)"
| reach_step: "reach tm0 \<sigma> \<Longrightarrow> step \<sigma> \<sigma>' \<Longrightarrow> reach tm0 \<sigma>'"

inductive_cases step_cases: "step (tm, txs) \<sigma>'"

definition holds :: "snapshot_tx \<Rightarrow> bytes \<Rightarrow> bool" where
  "holds tx k \<longleftrightarrow> (\<exists>hs. heldLocks tx = Some hs \<and> k \<in> set hs)"

definition tx_ok :: "('s \<Rightarrow> bytes \<Rightarrow> gslice) \<Rightarrow> ('s, 'l, 'w) tx_manager \<Rightarrow> snapshot_tx \<Rightarrow> bool" where
  "tx_ok lookup tm tx \<longleftrightarrow> (if completed tx then heldLocks tx = None
     else \<exists>wb hs. writeBuffer tx = Some wb \<and> heldLocks tx = Some hs \<and>
       captured (lookup (store tm)) wb \<and> buffer_sized wb \<and> (\<forall>k e. wbGet k wb = Some e \<longrightarrow> k \<in> set hs))"

definition locks_ok :: "('s, 'l, 'w) system \<Rightarrow> bool" where
  "locks_ok = (\<lambda>(tm, txs).
     (\<forall>k. lock_held k tm \<longleftrightarrow> (\<exists>i tx. txs i = Some tx \<and> holds tx k)) \<and>
     (\<forall>i j tx tx' k. txs i = Some tx \<longrightarrow> txs j = Some tx' \<longrightarrow> holds tx k \<longrightarrow> holds tx' k \<longrightarrow> i = j))"

definition sys_ok :: "('s \<Rightarrow> bool) \<Rightarrow> ('s \<Rightarrow> bytes \<Rightarrow> gslice) \<Rightarrow> ('s, 'l, 'w) system \<Rightarrow> bool" where
  "sys_ok invar lookup = (\<lambda>(tm, txs). engine_ok invar lookup tm \<and> locks_ok (tm, txs) \<and>
     (\<forall>i tx. txs i = Some tx \<longrightarrow> tx_ok lookup tm tx))"

lemma locks_okD:
  "locks_ok (tm, txs) \<Longrightarrow> txs i = Some tx \<Longrightarrow> holds tx k \<Longrightarrow> lock_held k tm"
  "locks_ok (tm, txs) \<Longrightarrow> txs i = Some tx \<Longrightarrow> txs j = Some tx' \<Longrightarrow> holds tx k \<Longrightarrow> holds tx' k \<Longrightarrow> i = j"
  by (auto simp: locks_ok_def)

text \<open>A step of one transaction that takes or releases only its own locks.\<close>

lemma locks_ok_upd:
  assumes "locks_ok (tm, txs)" "txs i = None \<or> txs i = Some tx"
    and "\<And>k. lock_held k tm' \<longleftrightarrow> holds tx' k \<or> (lock_held k tm \<and> \<not> (txs i \<noteq> None \<and> holds tx k))"
    and "\<And>k. holds tx' k \<Longrightarrow> (txs i \<noteq> None \<and> holds tx k) \<or> \<not> lock_held k tm"
  shows "locks_ok (tm', txs(i \<mapsto> tx'))"
proof -
  have excl: "\<not> holds tx' k" if "txs j = Some txj" "j \<noteq> i" "holds txj k" for j txj k
    using that assms(4) [of k] locks_okD [OF assms(1) that(1)] assms(1,2) locks_okD(2)
    by (metis option.simps(3))
  have "lock_held k tm' \<longleftrightarrow> (\<exists>j txj. (txs(i \<mapsto> tx')) j = Some txj \<and> holds txj k)" for k
  proof
    assume "lock_held k tm'"
    then consider "holds tx' k" | "lock_held k tm" "\<not> (txs i \<noteq> None \<and> holds tx k)"
      using assms(3) by blast
    then show "\<exists>j txj. (txs(i \<mapsto> tx')) j = Some txj \<and> holds txj k"
    proof cases
      case 1
      then show ?thesis by (intro exI [of _ i] exI [of _ tx']) simp
    next
      case 2
      then obtain j txj where "txs j = Some txj" "holds txj k"
        using assms(1) by (auto simp: locks_ok_def)
      with 2 assms(2) show ?thesis
        by (intro exI [of _ j] exI [of _ txj]) auto
    qed
  next
    assume "\<exists>j txj. (txs(i \<mapsto> tx')) j = Some txj \<and> holds txj k"
    then obtain j txj where j: "(txs(i \<mapsto> tx')) j = Some txj" "holds txj k" by blast
    show "lock_held k tm'"
    proof (cases "j = i")
      case True
      with j assms(3) show ?thesis by simp
    next
      case False
      with j have "txs j = Some txj" by simp
      with j False locks_okD [OF assms(1)] assms(2) have "lock_held k tm" "\<not> (txs i \<noteq> None \<and> holds tx k)"
        by (blast, metis option.simps(3))
      with assms(3) show ?thesis by blast
    qed
  qed
  moreover have "j = j'" if "(txs(i \<mapsto> tx')) j = Some a" "(txs(i \<mapsto> tx')) j' = Some b" "holds a k" "holds b k" for j j' a b k
  proof -
    consider "j = i" "j' = i" | "j = i" "j' \<noteq> i" | "j \<noteq> i" "j' = i" | "j \<noteq> i" "j' \<noteq> i" by blast
    then show ?thesis
    proof cases
      case 1
      then show ?thesis by simp
    next
      case 2
      with that excl [of j' b k] show ?thesis by simp
    next
      case 3
      with that excl [of j a k] show ?thesis by simp
    next
      case 4
      with that locks_okD(2) [OF assms(1), of j a j' b k] show ?thesis by simp
    qed
  qed
  ultimately show ?thesis
    unfolding locks_ok_def split_conv by blast
qed

text \<open>What a put or delete does to the locks.\<close>

lemma acquire_locks:
  assumes "acquireKeyLock key tm tx = (r, tm', tx')" "heldLocks tx = Some hs"
    "\<And>k. k \<in> set hs \<Longrightarrow> lock_held k tm"
  shows "\<exists>hs'. heldLocks tx' = Some hs' \<and> set hs \<subseteq> set hs' \<and> (r = Ok () \<longrightarrow> key \<in> set hs') \<and>
    (\<forall>k. lock_held k tm' \<longleftrightarrow> k \<in> set hs' \<or> lock_held k tm) \<and>
    (\<forall>k \<in> set hs'. k \<in> set hs \<or> \<not> lock_held k tm) \<and>
    writeBuffer tx' = writeBuffer tx \<and> completed tx' = completed tx \<and> r \<noteq> Panic"
  using assms by (auto simp: acquireKeyLock_def lockKey_eq split: if_splits)

lemma engine_ok_same:
  assumes "engine_ok invar lookup tm" "storage tm' = storage tm" "store tm' = store tm" "tsGen tm \<le> tsGen tm'"
    "lobManager tm' = lobManager tm" "lobFileManager tm' = lobFileManager tm" "lobEpoch tm' = lobEpoch tm"
  shows "engine_ok invar lookup tm'"
proof -
  have "wf_raws (tsGen tm') (lookup (store tm))"
    using assms(1,4) by (fastforce simp: engine_ok_def wf_raws_def wf_version_def)
  with assms show ?thesis by (simp add: engine_ok_def plain_def)
qed

lemma tx_ok_same: "store tm' = store tm \<Longrightarrow> tx_ok lookup tm' tx = tx_ok lookup tm tx"
  by (simp add: tx_ok_def)

lemma buffer_sized_Put:
  "buffer_sized wb \<Longrightarrow> length (slice_bytes v) \<le> 65515 \<Longrightarrow> buffer_sized (wbPut key v old wb)"
  by (auto simp: buffer_sized_def wbPut_def Let_def split: option.splits if_splits)

lemma wbGet_Put_dom: "wbGet k (wbPut key v old wb) = Some e \<Longrightarrow> k = key \<or> (\<exists>e'. wbGet k wb = Some e')"
  by (cases "k = key") (auto simp: wbPut_other)

lemma wbDelete_keeps:
  assumes "wbGet k (snd (wbDelete key old wb)) = Some e"
  shows "k = key \<or> wbGet k wb = Some e" "weValue e = None \<or> wbGet k wb = Some e"
  using assms by (auto simp: wbDelete_def Let_def split: option.splits if_splits)

lemma wbGet_cancel [simp]:
  "weOp e = OpInsert \<Longrightarrow> wbGet k (snd (wbDelete key old (wbSetEntry key e wb))) = (if k = key then None else wbGet k wb)"
  by (simp add: wbDelete_def)

lemma delete_buffered_keeps:
  assumes "wbGet k (snd (delete_buffered key wb tm)) = Some e"
  shows "k = key \<or> wbGet k wb = Some e" "weValue e = None \<or> wbGet k wb = Some e"
  using assms
  by (auto simp: delete_buffered_def delete_committed_def
      split: option.splits write_op.splits outcome.splits if_splits dest: wbDelete_keeps)

section \<open>The invariant\<close>

lemma sys_okI:
  assumes "sys_ok invar lookup (tm, txs)" "engine_ok invar lookup tm'" "locks_ok (tm', txs(i \<mapsto> tx'))"
    "tx_ok lookup tm' tx'" "\<And>j tx. txs j = Some tx \<Longrightarrow> j \<noteq> i \<Longrightarrow> tx_ok lookup tm' tx"
  shows "sys_ok invar lookup (tm', txs(i \<mapsto> tx'))"
  using assms by (auto simp: sys_ok_def)

lemma sys_okI_same:
  assumes "sys_ok invar lookup (tm, txs)" "engine_ok invar lookup tm'" "locks_ok (tm', txs(i \<mapsto> tx'))"
    "tx_ok lookup tm' tx'" "store tm' = store tm"
  shows "sys_ok invar lookup (tm', txs(i \<mapsto> tx'))"
proof (rule sys_okI [OF assms(1-4)])
  fix j tx
  assume "txs j = Some tx"
  then have "tx_ok lookup tm tx"
    using assms(1) by (simp add: sys_ok_def)
  then show "tx_ok lookup tm' tx"
    using tx_ok_same [OF assms(5)] by blast
qed

lemma holds_simps [simp]: "heldLocks tx = Some hs \<Longrightarrow> holds tx k \<longleftrightarrow> k \<in> set hs"
  "heldLocks tx = None \<Longrightarrow> \<not> holds tx k"
  by (simp_all add: holds_def)

lemma sys_begin:
  assumes "sys_ok invar lookup (tm, txs)" "beginTx level tm = (Ok tx, tm')" "txs (txID tx) = None"
  shows "sys_ok invar lookup (tm', txs(txID tx \<mapsto> tx))"
proof -
  have *: "tsGen tm' = tsGen tm + 1" "tsGen tm + 1 \<noteq> 0" "frame tm tm'" "store tm' = store tm" "keyLocks tm' = keyLocks tm"
    "writeBuffer tx = Some NewWriteBuffer" "heldLocks tx = Some []" "\<not> completed tx"
    using assms(2)
    by (auto simp: beginTx_def Let_def NextTS_def frame_def split: if_splits)
  then have "engine_ok invar lookup tm'"
    using assms(1) plus_one_gt [of "tsGen tm"] engine_ok_same [of invar lookup tm tm']
    by (simp add: sys_ok_def frame_def)
  moreover have "locks_ok (tm', txs(txID tx \<mapsto> tx))"
  proof (rule locks_ok_upd [of tm txs "txID tx" tx])
    show "locks_ok (tm, txs)"
      using assms(1) by (simp add: sys_ok_def)
    show "lock_held k tm' \<longleftrightarrow> holds tx k \<or> (lock_held k tm \<and> \<not> (txs (txID tx) \<noteq> None \<and> holds tx k))" for k
      using *(5,7) by (simp add: lock_held_def)
  qed (use assms(3) *(7) in simp_all)
  moreover have "tx_ok lookup tm' tx"
    using *(6-8) by (simp add: tx_ok_def captured_new buffer_sized_def)
  ultimately show ?thesis
    using *(4) by (rule sys_okI_same [OF assms(1)])
qed

text \<open>A put or delete: the locks are taken, then only the transaction's own buffer changes.\<close>

lemma sys_write:
  assumes ok: "sys_ok invar lookup (tm, txs)" and i: "txs i = Some tx" and act: "\<not> completed tx"
    and acq: "acquireKeyLock key tm tx = (r, tm', tx1)"
    and tx': "tx' = tx1 \<or> r = Ok () \<and> (\<exists>wb wb'. writeBuffer tx1 = Some wb \<and> tx' = tx1\<lparr>writeBuffer := Some wb'\<rparr> \<and>
      (captured (lookup (store tm)) wb \<longrightarrow> buffer_sized wb \<longrightarrow> captured (lookup (store tm)) wb' \<and> buffer_sized wb') \<and>
      (\<forall>k e. wbGet k wb' = Some e \<longrightarrow> k = key \<or> wbGet k wb \<noteq> None))"
  shows "sys_ok invar lookup (tm', txs(i \<mapsto> tx'))"
proof -
  have lk: "locks_ok (tm, txs)" and eng: "engine_ok invar lookup tm" and txok: "tx_ok lookup tm tx"
    using ok i by (auto simp: sys_ok_def)
  then obtain wb hs where wb: "writeBuffer tx = Some wb" "heldLocks tx = Some hs"
    "captured (lookup (store tm)) wb" "buffer_sized wb" "\<forall>k e. wbGet k wb = Some e \<longrightarrow> k \<in> set hs"
    using act by (auto simp: tx_ok_def)
  have mine: "lock_held k tm" if "k \<in> set hs" for k
    using locks_okD(1) [OF lk i] wb(2) that by simp
  obtain hs' where hs': "heldLocks tx1 = Some hs'" "set hs \<subseteq> set hs'" "r = Ok () \<longrightarrow> key \<in> set hs'"
    "\<forall>k. lock_held k tm' \<longleftrightarrow> k \<in> set hs' \<or> lock_held k tm" "\<forall>k \<in> set hs'. k \<in> set hs \<or> \<not> lock_held k tm"
    "writeBuffer tx1 = writeBuffer tx" "completed tx1 = completed tx"
    using acquire_locks [OF acq wb(2) mine] by blast
  have same: "heldLocks tx' = Some hs'" "completed tx' = completed tx"
    using tx' hs' by auto
  note fr = acquireKeyLock_cases [OF acq]
  have eng': "engine_ok invar lookup tm'"
    using eng fr by (intro engine_ok_same [OF eng]) simp_all
  moreover have "locks_ok (tm', txs(i \<mapsto> tx'))"
    using hs' same wb(2) i by (intro locks_ok_upd [OF lk]) auto
  moreover have "tx_ok lookup tm' tx'"
    using tx' act same wb hs' fr(2) by (auto simp: tx_ok_def) blast
  ultimately show ?thesis
    using fr(2) by (rule sys_okI_same [OF ok])
qed

lemma sys_write_buffer:
  assumes "sys_ok invar lookup (tm, txs)" "txs i = Some tx" "\<not> completed tx"
    "acquireKeyLock key tm tx = (Ok (), tm', tx1)" "writeBuffer tx1 = Some wb"
    "captured (lookup (store tm)) wb \<Longrightarrow> buffer_sized wb \<Longrightarrow> captured (lookup (store tm)) wb' \<and> buffer_sized wb'"
    "\<And>k e. wbGet k wb' = Some e \<Longrightarrow> k = key \<or> wbGet k wb \<noteq> None"
  shows "sys_ok invar lookup (tm', txs(i \<mapsto> tx1\<lparr>writeBuffer := Some wb'\<rparr>))"
  using assms(5-7) by (intro sys_write [OF assms(1-4)]) blast

lemma sys_same: "sys_ok invar lookup (tm, txs) \<Longrightarrow> txs i = Some tx \<Longrightarrow> sys_ok invar lookup (tm, txs(i \<mapsto> tx))"
  by (metis fun_upd_triv)

lemma engine_okD:
  assumes "engine_ok invar lookup tm"
  shows "kv_backend (storage tm) invar lookup" "invar (store tm)" "plain tm"
    "wf_raws (tsGen tm) (lookup (store tm))" "sized (lookup (store tm))"
  using assms by (simp_all add: engine_ok_def)

lemma sys_put:
  assumes ok: "sys_ok invar lookup (tm, txs)" and i: "txs i = Some tx"
    and v: "length (slice_bytes v) \<le> 65515" and put: "txPut key v tm tx = (r, tm', tx')" "r \<noteq> Panic"
  shows "sys_ok invar lookup (tm', txs(i \<mapsto> tx'))"
proof (cases "completed tx \<or> key = []")
  case True
  with put have "tm' = tm" "tx' = tx"
    by (auto simp: txPut_def checkActive_def split: if_splits)
  with sys_same [OF ok i] show ?thesis by simp
next
  case False
  obtain ra tm1 tx1 where acq: "acquireKeyLock key tm tx = (ra, tm1, tx1)"
    by (cases "acquireKeyLock key tm tx")
  note fr = acquireKeyLock_cases [OF acq]
  have eng: "engine_ok invar lookup tm"
    using ok by (simp add: sys_ok_def)
  note e = engine_okD [OF eng]
  let ?m = "lookup (store tm)"
  have old: "readOld key tm1 = Ok (case version_of (?m key) of None \<Rightarrow> no_version | Some mv \<Rightarrow> old_of mv)"
    using kv_backend.readOld_plain [OF e(1), of tm1 "tsGen tm"] fr(1,2) e by simp
  show ?thesis
  proof (cases ra)
    case (Ok u)
    let ?old = "case version_of (?m key) of None \<Rightarrow> no_version | Some mv \<Rightarrow> old_of mv"
    obtain wb where wb: "writeBuffer tx1 = Some wb" and tx': "tm' = tm1" "tx' = tx1\<lparr>writeBuffer := Some (wbPut key v ?old wb)\<rparr>"
      using put acq False Ok old by (auto simp: txPut_def checkActive_def split: option.splits)
    have "captured ?m (wbPut key v ?old wb) \<and> buffer_sized (wbPut key v ?old wb)" if "captured ?m wb" "buffer_sized wb"
      using captures_Put [OF that(1) e(4) refl] buffer_sized_Put [OF that(2) v] by blast
    moreover have "k = key \<or> wbGet k wb \<noteq> None" if "wbGet k (wbPut key v ?old wb) = Some e'" for k e'
      using wbGet_Put_dom [OF that] by auto
    ultimately show ?thesis
      unfolding tx' using False acq Ok by (intro sys_write_buffer [OF ok i _ _ wb]) simp_all
  next
    case (Err er)
    with put acq False have "tm' = tm1" "tx' = tx1"
      by (simp_all add: txPut_def checkActive_def)
    with sys_write [OF ok i _ acq, of tx'] False show ?thesis by simp
  next
    case Panic
    with put acq False show ?thesis
      by (simp add: txPut_def checkActive_def)
  qed
qed

lemma sys_delete:
  assumes ok: "sys_ok invar lookup (tm, txs)" and i: "txs i = Some tx"
    and del: "txDelete key tm tx = (r, tm', tx')" "r \<noteq> Panic"
  shows "sys_ok invar lookup (tm', txs(i \<mapsto> tx'))"
proof (cases "completed tx \<or> key = []")
  case True
  with del have "tm' = tm" "tx' = tx"
    by (auto simp: txDelete_def checkActive_def split: if_splits)
  with sys_same [OF ok i] show ?thesis by simp
next
  case False
  obtain ra tm1 tx1 where acq: "acquireKeyLock key tm tx = (ra, tm1, tx1)"
    by (cases "acquireKeyLock key tm tx")
  note fr = acquireKeyLock_cases [OF acq]
  have eng: "engine_ok invar lookup tm"
    using ok by (simp add: sys_ok_def)
  note e = engine_okD [OF eng]
  let ?m = "lookup (store tm)"
  show ?thesis
  proof (cases ra)
    case (Ok u)
    obtain wb where wb: "writeBuffer tx1 = Some wb" and tx': "tm' = tm1"
      "tx' = tx1\<lparr>writeBuffer := Some (snd (delete_buffered key wb tm1))\<rparr>"
      using del acq False Ok by (auto simp: txDelete_def checkActive_def split: option.splits prod.splits)
    have "captured ?m (snd (delete_buffered key wb tm1))" if "captured ?m wb"
      using kv_backend.captured_delete_buffered [OF e(1), of tm1 "tsGen tm" wb key] fr(1,2) e that by simp
    moreover have "buffer_sized (snd (delete_buffered key wb tm1))" if "buffer_sized wb"
      using that delete_buffered_keeps(2) [of _ key wb tm1] by (fastforce simp: buffer_sized_def)
    moreover have "k = key \<or> wbGet k wb \<noteq> None" if "wbGet k (snd (delete_buffered key wb tm1)) = Some e'" for k e'
      using delete_buffered_keeps(1) [OF that] by auto
    ultimately show ?thesis
      unfolding tx' using False acq Ok by (intro sys_write_buffer [OF ok i _ _ wb]) simp_all
  next
    case (Err er)
    with del acq False have "tm' = tm1" "tx' = tx1"
      by (simp_all add: txDelete_def checkActive_def)
    with sys_write [OF ok i _ acq, of tx'] False show ?thesis by simp
  next
    case Panic
    with del acq False show ?thesis
      by (simp add: txDelete_def checkActive_def)
  qed
qed

text \<open>Completing a transaction: its locks are freed, and the others' keys are untouched.\<close>

lemma sys_release:
  assumes ok: "sys_ok invar lookup (tm, txs)" and i: "txs i = Some tx" and act: "\<not> completed tx"
    "heldLocks tx = Some hs"
    and eng: "engine_ok invar lookup tm'" and dn: "completed tx'" "heldLocks tx' = None"
    and lk: "\<forall>k. lock_held k tm' \<longleftrightarrow> lock_held k tm \<and> k \<notin> set hs"
    and same: "\<And>k. k \<notin> set hs \<Longrightarrow> lookup (store tm') k = lookup (store tm) k"
  shows "sys_ok invar lookup (tm', txs(i \<mapsto> tx'))"
proof (rule sys_okI [OF ok eng])
  have lok: "locks_ok (tm, txs)"
    using ok by (simp add: sys_ok_def)
  show "locks_ok (tm', txs(i \<mapsto> tx'))"
  proof (rule locks_ok_upd [OF lok])
    show "lock_held k tm' \<longleftrightarrow> holds tx' k \<or> (lock_held k tm \<and> \<not> (txs i \<noteq> None \<and> holds tx k))" for k
      using lk dn(2) act(2) i by simp
  qed (use i dn in simp_all)
  show "tx_ok lookup tm' tx'"
    using dn by (simp add: tx_ok_def)
  fix j txj
  assume j: "txs j = Some txj" "j \<noteq> i"
  then have okj: "tx_ok lookup tm txj"
    using ok by (simp add: sys_ok_def)
  have disj: "k \<notin> set hs" if "holds txj k" for k
    using locks_okD(2) [OF lok j(1) i that] j(2) act(2) by auto
  show "tx_ok lookup tm' txj"
  proof (cases "completed txj")
    case True
    with okj show ?thesis by (simp add: tx_ok_def)
  next
    case False
    with okj obtain wb hj where wb: "writeBuffer txj = Some wb" "heldLocks txj = Some hj"
      "captured (lookup (store tm)) wb" "buffer_sized wb" "\<forall>k e. wbGet k wb = Some e \<longrightarrow> k \<in> set hj"
      by (auto simp: tx_ok_def)
    have "lookup (store tm') k = lookup (store tm) k" if "wbGet k wb = Some e" for k e
      using same disj wb(2,5) that by simp
    with wb(3) have "captured (lookup (store tm')) wb"
      by (simp add: captured_def)
    with False wb show ?thesis by (simp add: tx_ok_def)
  qed
qed

lemma sys_commit:
  assumes ok: "sys_ok invar lookup (tm, txs)" and i: "txs i = Some tx"
    and com: "txCommit tm tx = (r, tm', tx')" "r \<noteq> Panic"
  shows "sys_ok invar lookup (tm', txs(i \<mapsto> tx'))"
proof (cases "completed tx")
  case True
  with com sys_same [OF ok i] show ?thesis by (simp add: txCommit_def)
next
  case False
  have eng: "engine_ok invar lookup tm" and "tx_ok lookup tm tx"
    using ok i by (auto simp: sys_ok_def)
  with False obtain wb hs where wb: "writeBuffer tx = Some wb" "heldLocks tx = Some hs"
    "captured (lookup (store tm)) wb" "buffer_sized wb" "\<forall>k e. wbGet k wb = Some e \<longrightarrow> k \<in> set hs"
    by (auto simp: tx_ok_def)
  note e = engine_okD [OF eng]
  have R: "commit_result invar lookup wb tm tm'" "completed tx'" "heldLocks tx' = None"
      "\<forall>k. lock_held k tm' \<longleftrightarrow> lock_held k tm \<and> k \<notin> set hs"
    using kv_backend.txCommit_result [OF e(1) refl e(2,3) wb(1) captured_inline [OF wb(3) e(4,5)] False wb(2) _ com]
      wb(5) by auto
  note c = commit_result_ok [OF R(1) eng wb(3,4)]
  have "lookup (store tm') k = lookup (store tm) k" if "k \<notin> set hs" for k
    using c(2) [of k] wb(5) that by (cases "wbGet k wb") auto
  then show ?thesis
    by (rule sys_release [OF ok i False wb(2) c(1) R(2-4)])
qed

lemma txRollback_result:
  assumes "txRollback tm tx = (r, tm', tx')" "\<not> completed tx" "heldLocks tx = Some hs"
  shows "r = Ok ()" "completed tx'" "heldLocks tx' = None" "writeBuffer tx' = None" "frame tm tm'"
    "store tm' = store tm" "tsGen tm' = tsGen tm" "lock_held k tm' \<longleftrightarrow> lock_held k tm \<and> k \<notin> set hs"
  using assms
  by (auto simp: txRollback_def finish_def releaseHeldLocks_def cleanup_def frame_def fold_unlock_locks
      split: if_splits)

lemma sys_rollback:
  assumes ok: "sys_ok invar lookup (tm, txs)" and i: "txs i = Some tx"
    and rb: "txRollback tm tx = (r, tm', tx')"
  shows "sys_ok invar lookup (tm', txs(i \<mapsto> tx'))"
proof (cases "completed tx")
  case True
  with rb sys_same [OF ok i] show ?thesis by (simp add: txRollback_def)
next
  case False
  have eng: "engine_ok invar lookup tm" and "tx_ok lookup tm tx"
    using ok i by (auto simp: sys_ok_def)
  with False obtain hs where hs: "heldLocks tx = Some hs"
    by (auto simp: tx_ok_def)
  note R = txRollback_result [OF rb False hs]
  have "engine_ok invar lookup tm'"
    using R(5-7) by (intro engine_ok_same [OF eng]) (simp_all add: frame_def)
  then show ?thesis
    using R by (intro sys_release [OF ok i False hs]) simp_all
qed

lemma sys_step: "step \<sigma> \<sigma>' \<Longrightarrow> sys_ok invar lookup \<sigma> \<Longrightarrow> sys_ok invar lookup \<sigma>'"
  by (induction rule: step.induct) (auto intro: sys_begin sys_put sys_delete sys_commit sys_rollback simp del: fun_upd_apply)

definition no_locks :: "('s, 'l, 'w) tx_manager \<Rightarrow> bool" where
  "no_locks tm \<longleftrightarrow> (\<forall>k. \<not> lock_held k tm)"

lemma sys_reach:
  assumes "reach tm0 \<sigma>" "engine_ok invar lookup tm0" "no_locks tm0"
  shows "sys_ok invar lookup \<sigma>"
  using assms
proof (induction rule: reach.induct)
  case reach_init
  then show ?case by (simp add: sys_ok_def locks_ok_def no_locks_def)
next
  case (reach_step \<sigma> \<sigma>')
  then show ?case using sys_step by blast
qed

section \<open>Properties of every run\<close>


text \<open>In every reachable state the store is readable (each value parses to a version whose
  timestamp the generator has handed out), and each unfinished transaction still has in its
  buffer the version that is now committed, for every key it writes: the optimisation that
  lets \<open>Commit\<close> skip re-reading the keys is sound.\<close>

theorem buffers_stay_current:
  assumes "reach tm0 (tm, txs)" "engine_ok invar lookup tm0" "no_locks tm0"
    and "txs i = Some tx" "\<not> completed tx"
  shows "engine_ok invar lookup tm \<and> buffer_ok lookup tm tx"
  using sys_reach [OF assms(1-3)] assms(4,5)
  by (fastforce simp: sys_ok_def tx_ok_def buffer_ok_def)

text \<open>Rolling back an active transaction always succeeds, leaves the store as it is, frees
  exactly the locks the transaction held, and the transaction answers every later call with
  \<open>ErrTxRolledBack\<close>.\<close>

theorem rollback_discards:
  assumes "\<not> completed tx" "heldLocks tx = Some hs" "txRollback tm tx = (r, tm', tx')"
  shows "r = Ok () \<and> store tm' = store tm \<and> (\<forall>k. lock_held k tm' \<longleftrightarrow> lock_held k tm \<and> k \<notin> set hs) \<and>
    checkActive tx' = Err ErrTxRolledBack"
  using txRollback_result [OF assms(3,1,2)] by (simp add: checkActive_def)

lemma failed_status: "failed r tm tx = (r', tm', tx') \<Longrightarrow> r' = r \<and> completed tx' \<and> writeBuffer tx' = writeBuffer tx"
  by (auto simp: failed_def cleanup_def split: if_splits)

lemma commit_apply_status:
  assumes "commit_apply wb tm tx = (r, tm', tx')" "r \<noteq> Panic"
  shows "completed tx' \<and> (writeBuffer tx' = None \<longleftrightarrow> is_ok r)"
  using assms
  by (auto simp: commit_apply_def Let_def NextTS_def cleanup_def
      split: prod.splits outcome.splits if_splits dest!: failed_status)

lemma commit_body_status:
  assumes "commit_body tm tx = (r, tm', tx')" "r \<noteq> Panic"
  shows "completed tx' \<and> (writeBuffer tx' = None \<longleftrightarrow> is_ok r)"
  using assms
  by (auto simp: commit_body_def Let_def dest: commit_apply_status
      split: prod.splits outcome.splits option.splits if_splits dest!: failed_status)


text \<open>Only one earlier version is kept: when a key is overwritten whose current version is
  already too new for a snapshot, that snapshot no longer finds the key at all, although it
  read a value of it before.\<close>

theorem second_overwrite_loses_snapshot:
  assumes "engine_ok invar lookup tm" "\<not> completed tx" "writeBuffer tx = Some wb"
    "captured (lookup (store tm)) wb" "txCommit tm tx = (Ok (), tm', tx')"
    and "wbGet k wb = Some e" "version_of (lookup (store tm) k) = Some mv"
    and "snapshotTS rd < BeginTS mv"
  shows "snapshotGet k tm' rd = Err ErrKeyNotFound"
proof -
  note eff = commit_effect [OF assms(1-5)]
  have wf: "wf_version (tsGen tm) mv"
    using assms(1,7) wf_version_Some by (auto simp: engine_ok_def)
  have inl: "inline_entry e"
    using assms(1,4,6) captured_inline by (auto simp: engine_ok_def inline_buffer_def)
  have cap: "captures (Some mv) e"
    using assms(4,6) unfolding captured_def assms(7) [symmetric] by blast
  have "\<not> tsGen tm' \<le> snapshotTS rd" "\<not> OldBeginTS e \<le> snapshotTS rd \<or> OldBeginTS e = 0"
    using assms(8) wf eff(3) cap by (auto simp: wf_version_def captures_def split: if_splits)
  then show ?thesis
    unfolding eff(6)
    by (auto simp: read_at_def commit_map_def assms(6) version_of_encoded [OF eff(2) inl]
        read_version_def built_value_def)
qed

end
