(* ===== verification/Tx_Reads.thy ===== *)
theory Tx_Reads
  imports Tx_Correctness
begin

text \<open>
  The read paths of a transaction compared: \<open>GetBatch\<close> against \<open>Get\<close>, and snapshot reads of
  large values whose reference has become the previous version.
\<close>

section \<open>Batch reads\<close>

lemma batch_value_visible:
  "batch_value snap lm fm w (Some b) = (case visible_value snap lm fm w b of
     Ok v \<Rightarrow> Ok (Some v) | Err e \<Rightarrow> Ok None | Panic \<Rightarrow> Panic)"
proof (cases "DecodeValue b lm fm w")
  case (Ok mv)
  then show ?thesis
    by (cases "DecodeValue (slice_bytes (PrevVal mv)) lm fm w") (simp_all add: batch_value_def visible_value_def)
qed (simp_all add: batch_value_def visible_value_def)

definition slot_of :: "gslice outcome \<Rightarrow> gslice option" where
  "slot_of r = (case r of Ok v \<Rightarrow> Some v | Err e \<Rightarrow> None | Panic \<Rightarrow> None)"

definition got :: "gslice outcome \<Rightarrow> gslice" where
  "got r = (case r of Ok v \<Rightarrow> v | Err e \<Rightarrow> None | Panic \<Rightarrow> None)"

lemma outcomes_Ok: "outcomes (map (\<lambda>x. Ok (f x)) xs) = Ok (map f xs)"
  by (induction xs) auto

lemma fill_slots_get:
  assumes "\<And>k. k \<in> set keys \<Longrightarrow> wbGet k wb = None \<Longrightarrow> g k = got (r k)"
    and "\<And>k e. k \<in> set keys \<Longrightarrow> wbGet k wb = Some e \<Longrightarrow> g k = (if weOp e = OpDelete then None else weValue e)"
  shows "fill_slots wb keys (map (slot_of \<circ> r) (filter (\<lambda>k. wbGet k wb = None) keys)) = Ok (map g keys)"
  using assms
proof (induction keys)
  case Nil
  then show ?case by simp
next
  case (Cons k ks)
  then show ?case
    by (cases "wbGet k wb") (auto simp: slot_of_def got_def split: outcome.split)
qed


context kv_backend
begin

lemma batch_raws:
  assumes "invar (store tm)" "storage tm = be"
    and "\<And>k. k \<in> set ks \<Longrightarrow> snapshotGet k tm tx \<noteq> Panic"
  shows "outcomes (map (batch_value (snapshotTS tx) (lobManager tm) (lobFileManager tm) (world tm))
      (map (lookup (store tm)) ks)) = Ok (map (slot_of \<circ> (\<lambda>k. snapshotGet k tm tx)) ks)"
proof -
  have "batch_value (snapshotTS tx) (lobManager tm) (lobFileManager tm) (world tm) (lookup (store tm) k) =
      Ok (slot_of (snapshotGet k tm tx))" if "k \<in> set ks" for k
    using assms(3) [OF that] get_raw [OF assms(1), of k] assms(2)
    by (cases "lookup (store tm) k")
      (auto simp: snapshotGet_def slot_of_def batch_value_visible batch_value_def [of _ _ _ _ None] split: outcome.splits)
  then have "map (batch_value (snapshotTS tx) (lobManager tm) (lobFileManager tm) (world tm))
      (map (lookup (store tm)) ks) = map (\<lambda>k. Ok (slot_of (snapshotGet k tm tx))) ks"
    by simp
  then show ?thesis
    by (simp only: outcomes_Ok) (simp add: comp_def)
qed

end

text \<open>A batch read returns, key by key, what single reads return, with nil for a key that a
  single read reports as an error: buffered writes and deletes, snapshot visibility, previous
  versions and large values included. The batch fails only for an empty key.\<close>

theorem get_batch_is_gets:
  assumes "kv_backend (storage tm) invar lookup" "invar (store tm)"
    and "\<not> completed tx" "writeBuffer tx = Some wb"
    and "\<And>k. k \<in> set keys \<Longrightarrow> txGet k tm tx \<noteq> Panic"
  shows "txGetBatch keys tm tx =
    (if [] \<in> set keys then Err ErrMVCCGetError else Ok (map (\<lambda>k. got (txGet k tm tx)) keys))"
proof (cases "[] \<in> set keys")
  case True
  with assms(3,4) show ?thesis by (simp add: txGetBatch_def checkActive_def)
next
  case False
  let ?ks = "filter (\<lambda>k. wbGet k wb = None) keys"
  have get: "txGet k tm tx = snapshotGet k tm tx" if "k \<in> set keys" "wbGet k wb = None" for k
    using that assms(3,4) False by (auto simp: txGet_def checkActive_def)
  have "outcomes (map (batch_value (snapshotTS tx) (lobManager tm) (lobFileManager tm) (world tm))
      (map (lookup (store tm)) ?ks)) = Ok (map (slot_of \<circ> (\<lambda>k. snapshotGet k tm tx)) ?ks)"
    using assms(5) get by (intro kv_backend.batch_raws [OF assms(1,2) refl]) fastforce
  moreover have "fill_slots wb keys (map (slot_of \<circ> (\<lambda>k. snapshotGet k tm tx)) ?ks) =
      Ok (map (\<lambda>k. got (txGet k tm tx)) keys)"
  proof (rule fill_slots_get)
    show "got (txGet k tm tx) = got (snapshotGet k tm tx)" if "k \<in> set keys" "wbGet k wb = None" for k
      using get [OF that] by simp
  next
    show "got (txGet k tm tx) = (if weOp e = OpDelete then None else weValue e)"
      if "k \<in> set keys" "wbGet k wb = Some e" for k e
      using that assms(3,4) False by (auto simp: txGet_def checkActive_def got_def)
  qed
  ultimately show ?thesis
    using assms(3,4) False kv_backend.get_batch [OF assms(1,2)]
    by (auto simp: txGetBatch_def checkActive_def Let_def)
qed

section \<open>Large values as previous versions\<close>

lemma ParseMVCC_short: "length b < 12 \<Longrightarrow> ParseMVCC b = Err ErrValueTooShort"
  by (simp add: ParseMVCC_def MVCCHeaderSize_def)

text \<open>A snapshot cannot read back a large value that has been overwritten. When the previous
  version is an overflow-page value, its ten-byte reference is parsed as a whole record and
  the read fails with \<open>ErrValueTooShort\<close>; when it is a file value, the read returns the bytes
  of the reference as if they were the value. The data itself is still stored.\<close>

theorem overwritten_large_value_unreadable:
  assumes "BuildMVCC FlagNormal ts v prevFlag oldTS ref = Ok raw" "ts \<noteq> 0" "oldTS \<noteq> 0"
    and "oldTS \<le> snap" "snap < ts"
    and "(prevFlag = FlagLOBNormal \<and> ref = PutUint16 8 @ PutUint32 firstPage @ PutUint32 len) \<or>
         (prevFlag = FlagLOBFile \<and> ref = PutUint16 16 @ PutUint64 lobID @ PutUint64 flen)"
  shows "visible_value snap lm fm w raw =
    (if prevFlag = FlagLOBNormal then Err ErrValueTooShort else Ok (Some ref))"
proof -
  have len: "length ref = (if prevFlag = FlagLOBNormal then 10 else 18)" "ref \<noteq> []"
    using assms(6) by (auto simp: flag_defs)
  have "ParseMVCC raw = Ok (built_value FlagNormal ts v prevFlag oldTS ref)"
    using assms(1-3) len by (intro ParseMVCC_BuildMVCC) auto
  then have "DecodeValue raw lm fm w = Ok (built_value FlagNormal ts v prevFlag oldTS ref)"
    by (simp add: DecodeValue_def expandLOB_def expandLOBFile_def built_value_def parse_lob_def parse_lob_file_def)
  moreover have "DecodeValue ref lm fm w = Err ErrValueTooShort" if "prevFlag = FlagLOBNormal"
    using len that by (simp add: DecodeValue_def ParseMVCC_short)
  ultimately show ?thesis
    using assms(3-6) len by (auto simp: visible_value_def built_value_def not_le)
qed

end
