(* ===== verification/Disk_WAL.thy ===== *)
theory Disk_WAL
  imports WAL_Codec "HOL-Library.AList"
begin

text \<open>
  The write-ahead log on disk (\<open>wal/diskwal.go\<close>).

  The directory is modelled by its segment files, keyed by the number in the file name
  (\<open>%020d.wal\<close>, so the order of the names is the order of the numbers), and by the files renamed
  to \<open>.wal.deleting\<close>. Every system call takes its result from \<open>ioFaults\<close>: it succeeds, or
  fails, a write possibly after some of its bytes. \<open>syncedLen\<close> records how much of each file an
  \<open>fsync\<close> has made durable. A file that is open stays writable after it has been unlinked, but
  what is written there is lost. The mutex makes each method one step.
\<close>

section \<open>State\<close>

record disk_wal =
  walConfig :: wal_config
  currentLSN :: u64
  walClosed :: bool
  walFile :: u64
  fileOpen :: bool
  walDir :: "(u64 \<times> bytes) list"
  walDeleting :: "(u64 \<times> bytes) list"
  writtenBytes :: int
  TotalEntries :: int
  TotalBytes :: int
  syncCount :: int
  syncedLen :: "(u64 \<times> nat) list"
  ioFaults :: "io list"

definition next_io :: "disk_wal \<Rightarrow> io \<times> disk_wal" where
  "next_io w = (case ioFaults w of [] \<Rightarrow> (IoOk, w) | f # fs \<Rightarrow> (f, w\<lparr>ioFaults := fs\<rparr>))"

definition seg_data :: "u64 \<Rightarrow> disk_wal \<Rightarrow> bytes" where
  "seg_data n w = (case map_of (walDir w) n of None \<Rightarrow> [] | Some d \<Rightarrow> d)"

section \<open>Segments\<close>

definition openSegment :: "disk_wal \<Rightarrow> unit outcome \<times> disk_wal" where
  "openSegment w =
     (let name = currentLSN w + 1 in
      case next_io w of
        (IoFail n, w1) \<Rightarrow> (Err ErrIO, w1)
      | (IoOk, w1) \<Rightarrow>
          (Ok (), w1\<lparr>walFile := name, fileOpen := True, writtenBytes := 0,
             walDir := (if map_of (walDir w1) name = None then AList.update name [] (walDir w1) else walDir w1)\<rparr>))"

definition file_sync :: "disk_wal \<Rightarrow> unit outcome \<times> disk_wal" where
  "file_sync w =
     (if \<not> fileOpen w then (Err ErrIO, w)
      else case next_io w of
        (IoFail n, w1) \<Rightarrow> (Err ErrIO, w1)
      | (IoOk, w1) \<Rightarrow> (Ok (), w1\<lparr>syncedLen := AList.update (walFile w1) (length (seg_data (walFile w1) w1)) (syncedLen w1)\<rparr>))"

definition rotateSegment :: "disk_wal \<Rightarrow> unit outcome \<times> disk_wal" where
  "rotateSegment w = (case file_sync w of
     (Ok _, w1) \<Rightarrow> openSegment (w1\<lparr>fileOpen := False\<rparr>)
   | (Err e, w1) \<Rightarrow> (Err e, w1)
   | (Panic, w1) \<Rightarrow> (Panic, w1))"

definition checkRotate :: "nat \<Rightarrow> disk_wal \<Rightarrow> unit outcome \<times> disk_wal" where
  "checkRotate sz w =
     (let w1 = w\<lparr>writtenBytes := writtenBytes w + int sz\<rparr>
      in if cfgSegmentSize (walConfig w1) \<le> writtenBytes w1 then rotateSegment w1 else (Ok (), w1))"

definition append_bytes :: "bytes \<Rightarrow> disk_wal \<Rightarrow> disk_wal" where
  "append_bytes d w = (case map_of (walDir w) (walFile w) of
     None \<Rightarrow> w
   | Some old \<Rightarrow> w\<lparr>walDir := AList.update (walFile w) (old @ d) (walDir w)\<rparr>)"

definition file_write :: "bytes \<Rightarrow> disk_wal \<Rightarrow> unit outcome \<times> disk_wal" where
  "file_write d w =
     (if \<not> fileOpen w then (Err ErrIO, w)
      else case next_io w of
        (IoFail n, w1) \<Rightarrow> (Err ErrIO, append_bytes (take n d) w1)
      | (IoOk, w1) \<Rightarrow> (Ok (), append_bytes d w1))"

definition NewDiskWAL :: "wal_config \<Rightarrow> (u64 \<times> bytes) list \<Rightarrow> (u64 \<times> bytes) list \<Rightarrow> (u64 \<times> nat) list \<Rightarrow> io list
    \<Rightarrow> disk_wal outcome" where
  "NewDiskWAL cfg dir del synced faults =
     bind_outcome (walConfigValidate cfg) (\<lambda>_.
       case openSegment \<lparr>walConfig = cfg, currentLSN = 0, walClosed = False, walFile = 0, fileOpen = False,
           walDir = dir, walDeleting = del, writtenBytes = 0, TotalEntries = 0, TotalBytes = 0,
           syncCount = 0, syncedLen = synced, ioFaults = faults\<rparr> of
         (Ok _, w) \<Rightarrow> Ok w
       | (Err e, w) \<Rightarrow> Err e
       | (Panic, w) \<Rightarrow> Panic)"

section \<open>Append and sync\<close>

definition syncLocked :: "disk_wal \<Rightarrow> unit outcome \<times> disk_wal" where
  "syncLocked w = (case file_sync w of
     (Ok _, w1) \<Rightarrow> (Ok (), w1\<lparr>syncCount := syncCount w1 + 1\<rparr>)
   | (Err e, w1) \<Rightarrow> (Err e, w1)
   | (Panic, w1) \<Rightarrow> (Panic, w1))"

definition walSync :: "disk_wal \<Rightarrow> unit outcome \<times> disk_wal" where
  "walSync w = (if walClosed w then (Err ErrWALClosed, w) else syncLocked w)"

text \<open>The body of the loops of \<open>AppendBatch\<close> and \<open>writeEntries\<close>: rotate, write, count.\<close>

definition write_entry_data :: "bytes \<Rightarrow> disk_wal \<Rightarrow> unit outcome \<times> disk_wal" where
  "write_entry_data d w = (case checkRotate (length d) w of
     (Ok _, w1) \<Rightarrow> (case file_write d w1 of
         (Ok _, w2) \<Rightarrow>
           (Ok (), w2\<lparr>TotalEntries := TotalEntries w2 + 1, TotalBytes := TotalBytes w2 + int (length d)\<rparr>)
       | (Err e, w2) \<Rightarrow> (Err e, w2)
       | (Panic, w2) \<Rightarrow> (Panic, w2))
   | (Err e, w1) \<Rightarrow> (Err e, w1)
   | (Panic, w1) \<Rightarrow> (Panic, w1))"

fun append_loop :: "wal_entry list \<Rightarrow> disk_wal \<Rightarrow> u64 list outcome \<times> disk_wal" where
  "append_loop [] w = (Ok [], w)"
| "append_loop (e # es) w =
     (let lsn = currentLSN w + 1 in
      case write_entry_data (MarshalWALEntry (e\<lparr>LSN := lsn\<rparr>)) (w\<lparr>currentLSN := lsn\<rparr>) of
        (Ok _, w1) \<Rightarrow> (case append_loop es w1 of
            (Ok lsns, w2) \<Rightarrow> (Ok (lsn # lsns), w2)
          | (Err er, w2) \<Rightarrow> (Err er, w2)
          | (Panic, w2) \<Rightarrow> (Panic, w2))
      | (Err er, w1) \<Rightarrow> (Err er, w1)
      | (Panic, w1) \<Rightarrow> (Panic, w1))"

definition AppendBatch :: "wal_entry list \<Rightarrow> disk_wal \<Rightarrow> u64 list outcome \<times> disk_wal" where
  "AppendBatch entries w =
     (if walClosed w then (Err ErrWALClosed, w)
      else case append_loop entries w of
        (Ok lsns, w1) \<Rightarrow>
          if cfgSyncPolicy (walConfig w1) = SyncPolicyEveryWrite then
            (case syncLocked w1 of
               (Ok _, w2) \<Rightarrow> (Ok lsns, w2)
             | (Err e, w2) \<Rightarrow> (Err e, w2)
             | (Panic, w2) \<Rightarrow> (Panic, w2))
          else (Ok lsns, w1)
      | (Err e, w1) \<Rightarrow> (Err e, w1)
      | (Panic, w1) \<Rightarrow> (Panic, w1))"

definition walAppend :: "wal_entry \<Rightarrow> disk_wal \<Rightarrow> u64 outcome \<times> disk_wal" where
  "walAppend e w = (case AppendBatch [e] w of
     (Ok lsns, w1) \<Rightarrow> (Ok (hd lsns), w1)
   | (Err er, w1) \<Rightarrow> (Err er, w1)
   | (Panic, w1) \<Rightarrow> (Panic, w1))"

text \<open>\<open>writeEntries\<close> keeps the LSNs the entries already carry.\<close>

fun writeEntries :: "wal_entry list \<Rightarrow> disk_wal \<Rightarrow> unit outcome \<times> disk_wal" where
  "writeEntries [] w = (Ok (), w)"
| "writeEntries (e # es) w = (case write_entry_data (MarshalWALEntry e) w of
     (Ok _, w1) \<Rightarrow> writeEntries es w1
   | (Err er, w1) \<Rightarrow> (Err er, w1)
   | (Panic, w1) \<Rightarrow> (Panic, w1))"

definition flushPending :: "disk_wal \<Rightarrow> disk_wal" where
  "flushPending w = snd (syncLocked w)"

section \<open>Recovery\<close>

text \<open>
  \<open>jumpScan\<close> looks for an entry at \<open>startOffset\<close>, \<open>startOffset + 8\<close>, and so on; its checksum
  covers the trailer.
\<close>

function jumpScan :: "bytes \<Rightarrow> nat \<Rightarrow> nat option" where
  "jumpScan data off =
     (if \<not> off + 12 < length data then None
      else
        let paddedEnd = off + 12 + unat (Uint32 (field (off + 4) 4 data))
        in if length data < paddedEnd then jumpScan data (off + 8)
           else if CRC32C (field (off + 4) (paddedEnd - (off + 4)) data) \<noteq> Uint32 (field off 4 data)
             then jumpScan data (off + 8)
           else if Uint32 (field (paddedEnd - 4) 4 data) \<noteq> trailerMagic then jumpScan data (off + 8)
           else Some off)"
  by pat_completeness auto
termination by (relation "measure (\<lambda>(data, off). length data - off)") auto

declare jumpScan.simps [simp del]

lemma jumpScan_cases:
  "jumpScan data off = None \<or>
   off + 12 < length data \<and> (jumpScan data off = Some off \<or> jumpScan data off = jumpScan data (off + 8))"
  using jumpScan.simps [of data off] by (simp add: Let_def split: if_splits)

lemma jumpScan_ge:
  "jumpScan data off = Some r \<Longrightarrow> off \<le> r \<and> (r - off) mod 8 = 0 \<and> r + 12 < length data"
proof (induction "length data - off" arbitrary: off rule: less_induct)
  case less
  then consider "r = off" "off + 12 < length data" | "off + 12 < length data" "jumpScan data (off + 8) = Some r"
    using jumpScan_cases [of data off] by fastforce
  then show ?case
  proof cases
    case 1
    then show ?thesis by simp
  next
    case 2
    with less.hyps [of "off + 8"] have "off + 8 \<le> r" "(r - (off + 8)) mod 8 = 0" "r + 12 < length data"
      by auto
    moreover from this have "r - off = (r - (off + 8)) + 8" by simp
    ultimately show ?thesis
      by (metis add_leD1 mod_add_self2)
  qed
qed

text \<open>
  \<open>recoverFile\<close> from an offset on. A whole frame that does not decode is skipped by the jump
  scan; a frame that passes the end of the file ends the recovery of the file.
\<close>

function recover_from :: "bytes \<Rightarrow> nat \<Rightarrow> wal_entry list outcome" where
  "recover_from data offset =
     (if length data < offset + 8 then Ok []
      else
        let entryEnd = offset + 12 + unat (Uint32 (field (offset + 4) 4 data))
        in if length data < entryEnd then Ok []
           else case UnmarshalWALEntry (field offset (entryEnd - offset) data) (drop entryEnd data) of
             Panic \<Rightarrow> Panic
           | Ok e \<Rightarrow> bind_outcome (recover_from data entryEnd) (\<lambda>es. Ok (e # es))
           | Err er \<Rightarrow> (case jumpScan data (offset + 8) of
               None \<Rightarrow> Ok []
             | Some nextOffset \<Rightarrow> recover_from data nextOffset))"
  by pat_completeness auto
termination
  by (relation "measure (\<lambda>(data, offset). length data - offset)") (auto dest: jumpScan_ge)

declare recover_from.simps [simp del]

definition recoverFile :: "bytes \<Rightarrow> wal_entry list outcome" where
  "recoverFile data = recover_from data 0"

fun scan_files :: "u64 list \<Rightarrow> disk_wal \<Rightarrow> wal_entry list outcome \<times> disk_wal" where
  "scan_files [] w = (Ok [], w)"
| "scan_files (n # ns) w = (case next_io w of
     (IoFail _, w1) \<Rightarrow> scan_files ns w1
   | (IoOk, w1) \<Rightarrow> (case recoverFile (seg_data n w1) of
       Ok es \<Rightarrow> (case scan_files ns w1 of (r, w2) \<Rightarrow> (bind_outcome r (\<lambda>rest. Ok (es @ rest)), w2))
     | Err e \<Rightarrow> scan_files ns w1
     | Panic \<Rightarrow> (Panic, w1)))"

fun clean_files :: "u64 list \<Rightarrow> disk_wal \<Rightarrow> disk_wal" where
  "clean_files [] w = w"
| "clean_files (n # ns) w = (case next_io w of
     (IoFail _, w1) \<Rightarrow> clean_files ns w1
   | (IoOk, w1) \<Rightarrow> clean_files ns (w1\<lparr>walDeleting := AList.delete n (walDeleting w1)\<rparr>))"

definition cleanDeleting :: "disk_wal \<Rightarrow> disk_wal" where
  "cleanDeleting w = clean_files (sort (map fst (walDeleting w))) w"

definition scanSegments :: "disk_wal \<Rightarrow> wal_entry list outcome \<times> disk_wal" where
  "scanSegments w = (case next_io w of
     (IoFail _, w1) \<Rightarrow> (Err ErrIO, w1)
   | (IoOk, w1) \<Rightarrow> (case scan_files (sort (map fst (walDir w1))) w1 of
       (Ok es, w2) \<Rightarrow> (Ok es, cleanDeleting w2)
     | (r, w2) \<Rightarrow> (r, w2)))"

definition walRecover :: "disk_wal \<Rightarrow> wal_entry list outcome \<times> disk_wal" where
  "walRecover w = (case scanSegments w of
     (Ok es, w1) \<Rightarrow> (Ok es, w1\<lparr>currentLSN := foldl (\<lambda>c e. if c < LSN e then LSN e else c) (currentLSN w1) es\<rparr>)
   | (r, w1) \<Rightarrow> (r, w1))"

section \<open>Truncation and closing\<close>

text \<open>The number in the name of a segment is compared with the LSN; the open segment is no
  exception.\<close>

fun truncate_files :: "u64 list \<Rightarrow> u64 \<Rightarrow> disk_wal \<Rightarrow> disk_wal" where
  "truncate_files [] lsn w = w"
| "truncate_files (n # ns) lsn w =
     (if lsn \<le> n then truncate_files ns lsn w
      else case next_io w of
        (IoFail _, w1) \<Rightarrow> truncate_files ns lsn w1
      | (IoOk, w1) \<Rightarrow>
          let w2 = w1\<lparr>walDir := AList.delete n (walDir w1),
                      walDeleting := AList.update n (seg_data n w1) (walDeleting w1)\<rparr>
          in case next_io w2 of
               (IoFail _, w3) \<Rightarrow> truncate_files ns lsn w3
             | (IoOk, w3) \<Rightarrow> truncate_files ns lsn (w3\<lparr>walDeleting := AList.delete n (walDeleting w3)\<rparr>))"

definition truncateBefore :: "u64 \<Rightarrow> disk_wal \<Rightarrow> unit outcome \<times> disk_wal" where
  "truncateBefore lsn w = (case next_io w of
     (IoFail _, w1) \<Rightarrow> (Err ErrIO, w1)
   | (IoOk, w1) \<Rightarrow> (Ok (), truncate_files (sort (map fst (walDir w1))) lsn w1))"

definition Truncate :: "u64 \<Rightarrow> disk_wal \<Rightarrow> unit outcome \<times> disk_wal" where
  "Truncate lsn w = (if walClosed w then (Err ErrWALClosed, w) else truncateBefore lsn w)"

definition walClose :: "disk_wal \<Rightarrow> unit outcome \<times> disk_wal" where
  "walClose w =
     (if walClosed w then (Err ErrWALClosed, w)
      else case syncLocked (w\<lparr>walClosed := True\<rparr>) of
        (Ok _, w1) \<Rightarrow> (case next_io w1 of
            (IoFail _, w2) \<Rightarrow> (Err ErrIO, w2)
          | (IoOk, w2) \<Rightarrow> (Ok (), w2\<lparr>fileOpen := False\<rparr>))
      | (Err e, w1) \<Rightarrow> (Err e, w1)
      | (Panic, w1) \<Rightarrow> (Panic, w1))"

section \<open>Recovering a well-formed file\<close>

definition encode_log :: "wal_entry list \<Rightarrow> bytes" where
  "encode_log es = concat (map MarshalWALEntry es)"

lemma encode_log_simps [simp]:
  "encode_log [] = []" "encode_log (e # es) = MarshalWALEntry e @ encode_log es"
  "encode_log (xs @ ys) = encode_log xs @ encode_log ys"
  by (simp_all add: encode_log_def)

text \<open>What a crash may leave of an entry that was being written.\<close>

definition torn_tail :: "bytes \<Rightarrow> bool" where
  "torn_tail t \<longleftrightarrow> (\<exists>e n. entry_fits e \<and> n < length (MarshalWALEntry e) \<and> t = take n (MarshalWALEntry e))"

lemma torn_tail_Nil [simp]: "torn_tail []"
proof -
  have "entry_fits zero_entry"
    by (simp add: entry_fits_def padded_len_def payload_len_def zero_entry_def)
  then show ?thesis
    unfolding torn_tail_def by (intro exI [of _ zero_entry] exI [of _ 0]) (simp add: length_MarshalWALEntry)
qed

lemma Uint32_len_field:
  "entry_fits e \<Longrightarrow> unat (Uint32 (field 4 4 (MarshalWALEntry e))) = padded_len e"
  by (simp add: marshal_frame entry_fits_def)

lemma field_prefix: "off + n \<le> length a \<Longrightarrow> field off n (take m a) = field off n a" if "off + n \<le> m"
  using that by (simp add: field_def take_drop min_def)

lemma recover_torn:
  assumes "torn_tail t"
  shows "recover_from (p @ t) (length p) = Ok []"
proof -
  obtain e n where e: "entry_fits e" and n: "n < length (MarshalWALEntry e)" and t: "t = take n (MarshalWALEntry e)"
    using assms by (auto simp: torn_tail_def)
  have len: "length t = n" using n t by simp
  show ?thesis
  proof (cases "n < 8")
    case True
    with len show ?thesis by (simp add: recover_from.simps)
  next
    case False
    have "field (length p + 4) 4 (p @ t) = field 4 4 (MarshalWALEntry e)"
      using False n t len by (simp add: field_prefix)
    then have "unat (Uint32 (field (length p + 4) 4 (p @ t))) = padded_len e"
      using Uint32_len_field [OF e] by simp
    with False len n show ?thesis
      by (simp add: recover_from.simps [of "p @ t"] Let_def length_MarshalWALEntry)
  qed
qed

lemma recover_log:
  assumes "list_all entry_fits es" "torn_tail t"
  shows "recover_from (p @ encode_log es @ t) (length p) = Ok es"
  using assms(1)
proof (induction es arbitrary: p)
  case Nil
  then show ?case using recover_torn [OF assms(2)] by simp
next
  case (Cons e es)
  let ?m = "MarshalWALEntry e"
  let ?data = "p @ encode_log (e # es) @ t"
  have e: "entry_fits e" using Cons.prems by simp
  have len: "length ?m = 12 + padded_len e" by (rule length_MarshalWALEntry)
  have "field (length p + 4) 4 ?data = field 4 4 ?m"
    using len padded_len_ge [of e] by (simp add: field_append_within)
  then have lf: "unat (Uint32 (field (length p + 4) 4 ?data)) = padded_len e"
    using Uint32_len_field [OF e] by simp
  have fr: "field (length p) (length ?m) ?data = ?m"
    by (simp add: field_append_within)
  have rest: "recover_from ?data (length p + length ?m) = Ok es"
    using Cons.IH [of "p @ ?m"] Cons.prems by simp
  show ?case
    using recover_from.simps [of ?data "length p"] lf fr rest len Unmarshal_Marshal [OF e]
    by (simp add: Let_def add.commute add.left_commute)
qed

lemma recoverFile_log:
  "list_all entry_fits es \<Longrightarrow> torn_tail t \<Longrightarrow> recoverFile (encode_log es @ t) = Ok es"
  using recover_log [of es t "[]"] by (simp add: recoverFile_def)

section \<open>A log in one session\<close>

text \<open>
  The segments of a log hold the entries \<open>es\<close> in order, the last one is open, and all the
  others have been synced whole.
\<close>

definition enc_seg :: "u64 \<times> wal_entry list \<Rightarrow> u64 \<times> bytes" where
  "enc_seg = (\<lambda>(n, l). (n, encode_log l))"

definition log_ok :: "disk_wal \<Rightarrow> wal_entry list \<Rightarrow> bool" where
  "log_ok w es \<longleftrightarrow> (\<exists>segs cur. walDir w = map enc_seg (segs @ [(walFile w, cur)]) \<and>
     sorted_wrt (<) (map fst segs @ [walFile w]) \<and> es = concat (map snd segs) @ cur \<and>
     list_all entry_fits es \<and>
     list_all (\<lambda>(n, l). map_of (syncedLen w) n = Some (length (encode_log l))) segs)"

lemma log_okE:
  assumes "log_ok w es"
  obtains segs cur where "walDir w = map enc_seg (segs @ [(walFile w, cur)])"
    "sorted_wrt (<) (map fst segs @ [walFile w])" "es = concat (map snd segs) @ cur" "list_all entry_fits es"
    "list_all (\<lambda>(n, l). map_of (syncedLen w) n = Some (length (encode_log l))) segs"
  using assms by (auto simp: log_ok_def)

lemma map_fst_enc_seg [simp]: "map fst (map enc_seg xs) = map fst xs"
  by (auto simp: enc_seg_def)

lemma map_of_enc_last:
  "n \<notin> set (map fst segs) \<Longrightarrow> map_of (map enc_seg (segs @ [(n, cur)])) n = Some (encode_log cur)"
  by (induction segs) (auto simp: enc_seg_def)

lemma update_enc_last:
  "n \<notin> set (map fst segs) \<Longrightarrow>
   AList.update n (encode_log cur') (map enc_seg (segs @ [(n, cur)])) = map enc_seg (segs @ [(n, cur')])"
  by (induction segs) (auto simp: enc_seg_def)

lemma update_enc_new:
  "n \<notin> set (map fst segs) \<Longrightarrow> AList.update n [] (map enc_seg segs) = map enc_seg (segs @ [(n, [])])"
  by (induction segs) (auto simp: enc_seg_def)

lemma map_of_enc_None: "map_of (map enc_seg segs) n = None \<longleftrightarrow> n \<notin> set (map fst segs)"
  by (induction segs) (auto simp: enc_seg_def)

lemma sorted_last_notin: "sorted_wrt (<) (xs @ [n :: 'a :: order]) \<Longrightarrow> n \<notin> set xs"
  by (auto simp: sorted_wrt_append)

lemma log_ok_append:
  assumes "log_ok w es" "entry_fits e"
  shows "log_ok (append_bytes (MarshalWALEntry e) w) (es @ [e])"
    "walFile (append_bytes (MarshalWALEntry e) w) = walFile w"
proof -
  from assms(1) obtain segs cur where s: "walDir w = map enc_seg (segs @ [(walFile w, cur)])"
    "sorted_wrt (<) (map fst segs @ [walFile w])" "es = concat (map snd segs) @ cur" "list_all entry_fits es"
    "list_all (\<lambda>(n, l). map_of (syncedLen w) n = Some (length (encode_log l))) segs"
    by (rule log_okE)
  note new = sorted_last_notin [OF s(2)]
  have "append_bytes (MarshalWALEntry e) w =
      w\<lparr>walDir := map enc_seg (segs @ [(walFile w, cur @ [e])])\<rparr>"
    using map_of_enc_last [OF new, of cur] update_enc_last [OF new, of "cur @ [e]" cur] s(1)
    by (simp add: append_bytes_def)
  then show "log_ok (append_bytes (MarshalWALEntry e) w) (es @ [e])"
    "walFile (append_bytes (MarshalWALEntry e) w) = walFile w"
    using s assms(2) by (auto simp: log_ok_def intro!: exI [of _ segs] exI [of _ "cur @ [e]"])
qed

lemma synced_update:
  "n \<notin> set (map fst segs) \<Longrightarrow> list_all (\<lambda>(m, l). map_of S m = Some (length (encode_log l))) segs \<Longrightarrow>
   list_all (\<lambda>(m, l). map_of (AList.update n v S) m = Some (length (encode_log l))) segs"
  by (induction segs) (auto simp: update_conv')

text \<open>Fields no system call touches, for the frame of each operation.\<close>

definition same_log :: "disk_wal \<Rightarrow> disk_wal \<Rightarrow> bool" where
  "same_log w w' \<longleftrightarrow> walDir w' = walDir w \<and> walFile w' = walFile w \<and> walConfig w' = walConfig w \<and>
     currentLSN w' = currentLSN w \<and> walClosed w' = walClosed w"

lemma log_ok_same:
  "same_log w w' \<Longrightarrow> syncedLen w' = syncedLen w \<Longrightarrow> log_ok w' es = log_ok w es"
  by (simp add: log_ok_def same_log_def)

lemma next_io_same: "next_io w = (r, w') \<Longrightarrow> same_log w w' \<and> syncedLen w' = syncedLen w \<and> fileOpen w' = fileOpen w"
  by (auto simp: next_io_def same_log_def split: list.splits)

lemma file_sync_Ok:
  assumes "file_sync w = (Ok u, w')"
  shows "same_log w w'" "fileOpen w'"
    "syncedLen w' = AList.update (walFile w) (length (seg_data (walFile w) w)) (syncedLen w)"
  using assms
  by (auto simp: file_sync_def seg_data_def same_log_def dest!: next_io_same split: if_splits prod.splits io.splits)

lemma log_ok_synced:
  assumes "log_ok w es" "same_log w w'"
    "syncedLen w' = AList.update (walFile w) (length (seg_data (walFile w) w)) (syncedLen w)"
  shows "log_ok w' es"
proof -
  from assms(1) obtain segs cur where s: "walDir w = map enc_seg (segs @ [(walFile w, cur)])"
    "sorted_wrt (<) (map fst segs @ [walFile w])" "es = concat (map snd segs) @ cur" "list_all entry_fits es"
    "list_all (\<lambda>(n, l). map_of (syncedLen w) n = Some (length (encode_log l))) segs"
    by (rule log_okE)
  have "list_all (\<lambda>(n, l). map_of (syncedLen w') n = Some (length (encode_log l))) segs"
    using synced_update [OF sorted_last_notin [OF s(2)] s(5)] assms(3) by simp
  with s assms(2) show ?thesis
    by (auto simp: log_ok_def same_log_def)
qed

lemma rotate_ok:
  assumes "log_ok w es" "rotateSegment w = (Ok u, w')" "walFile w < currentLSN w + 1"
  shows "log_ok w' es" "walFile w' = currentLSN w + 1" "currentLSN w' = currentLSN w"
    "walConfig w' = walConfig w" "walClosed w' = walClosed w"
proof -
  obtain w1 where sy: "file_sync w = (Ok (), w1)" and op: "openSegment (w1\<lparr>fileOpen := False\<rparr>) = (Ok (), w')"
    using assms(2) by (auto simp: rotateSegment_def split: prod.splits outcome.splits)
  note f = file_sync_Ok [OF sy]
  from assms(1) obtain segs cur where s: "walDir w = map enc_seg (segs @ [(walFile w, cur)])"
    "sorted_wrt (<) (map fst segs @ [walFile w])" "es = concat (map snd segs) @ cur" "list_all entry_fits es"
    "list_all (\<lambda>(n, l). map_of (syncedLen w) n = Some (length (encode_log l))) segs"
    by (rule log_okE)
  let ?n = "currentLSN w + 1" and ?segs = "segs @ [(walFile w, cur)]"
  have sorted: "sorted_wrt (<) (map fst ?segs @ [?n])"
    using s(2) assms(3) by (auto simp: sorted_wrt_append dest: less_trans)
  have new: "?n \<notin> set (map fst ?segs)"
    by (rule sorted_last_notin [OF sorted])
  have "seg_data (walFile w) w = encode_log cur"
    using map_of_enc_last [OF sorted_last_notin [OF s(2)], of cur] s(1) by (simp add: seg_data_def)
  then have synced: "list_all (\<lambda>(n, l). map_of (syncedLen w1) n = Some (length (encode_log l))) ?segs"
    using synced_update [OF sorted_last_notin [OF s(2)] s(5)] f(3) by (simp add: update_conv')
  obtain w2 where w2: "next_io (w1\<lparr>fileOpen := False\<rparr>) = (IoOk, w2)"
    using op by (auto simp: openSegment_def Let_def split: prod.splits io.splits)
  note g = next_io_same [OF w2]
  have w': "w' = w2\<lparr>walFile := ?n, fileOpen := True, writtenBytes := 0, walDir := map enc_seg (?segs @ [(?n, [])])\<rparr>"
    using op w2 f(1) g s(1) new map_of_enc_None [of ?segs ?n] update_enc_new [OF new]
    by (simp add: openSegment_def Let_def same_log_def)
  show "log_ok w' es"
    unfolding log_ok_def w'
    using s(3,4) sorted synced g by (intro exI [of _ ?segs] exI [of _ "[]"]) simp
  show "walFile w' = ?n" "currentLSN w' = currentLSN w" "walConfig w' = walConfig w" "walClosed w' = walClosed w"
    using f(1) g by (simp_all add: w' same_log_def)
qed

subsection \<open>Appending\<close>

definition session_ok :: "disk_wal \<Rightarrow> wal_entry list \<Rightarrow> bool" where
  "session_ok w es \<longleftrightarrow> log_ok w es \<and> unat (walFile w) \<le> Suc (unat (currentLSN w)) \<and> \<not> walClosed w"

fun stamp :: "u64 \<Rightarrow> wal_entry list \<Rightarrow> wal_entry list" where
  "stamp c [] = []"
| "stamp c (e # es) = e\<lparr>LSN := c + 1\<rparr> # stamp (c + 1) es"

lemma length_stamp [simp]: "length (stamp c es) = length es"
  by (induction es arbitrary: c) auto

lemma entry_fits_LSN [simp]: "entry_fits (e\<lparr>LSN := l\<rparr>) = entry_fits e"
  by (simp add: entry_fits_def padded_len_def payload_len_def)

lemma unat_Suc_lsn: "Suc (unat c) < 18446744073709551616 \<Longrightarrow> unat (c + 1 :: u64) = Suc (unat c)"
  by (simp add: unat_word_ariths)

lemma write_entry_ok:
  assumes "log_ok w es" "entry_fits e" "unat (walFile w) \<le> unat (currentLSN w)"
    "Suc (unat (currentLSN w)) < 18446744073709551616"
    "write_entry_data (MarshalWALEntry e) w = (Ok u, w')"
  shows "log_ok w' (es @ [e])" "unat (walFile w') \<le> Suc (unat (currentLSN w'))"
    "currentLSN w' = currentLSN w" "walConfig w' = walConfig w" "walClosed w' = walClosed w"
proof -
  obtain w1 w2 where rot: "checkRotate (length (MarshalWALEntry e)) w = (Ok (), w1)"
    and wr: "file_write (MarshalWALEntry e) w1 = (Ok (), w2)"
    and w': "w' = w2\<lparr>TotalEntries := TotalEntries w2 + 1, TotalBytes := TotalBytes w2 + int (length (MarshalWALEntry e))\<rparr>"
    using assms(5) by (auto simp: write_entry_data_def split: prod.splits outcome.splits)
  let ?w = "w\<lparr>writtenBytes := writtenBytes w + int (length (MarshalWALEntry e))\<rparr>"
  have lok: "log_ok ?w es"
    using assms(1) by (subst log_ok_same [of w]) (simp_all add: same_log_def)
  have R: "log_ok w1 es \<and> unat (walFile w1) \<le> Suc (unat (currentLSN w1)) \<and> currentLSN w1 = currentLSN w \<and>
      walConfig w1 = walConfig w \<and> walClosed w1 = walClosed w"
  proof (cases "cfgSegmentSize (walConfig ?w) \<le> writtenBytes ?w")
    case True
    with rot have rs: "rotateSegment ?w = (Ok (), w1)" by (simp add: checkRotate_def Let_def)
    have "walFile ?w < currentLSN ?w + 1"
      using assms(3,4) by (simp add: word_less_nat_alt unat_Suc_lsn)
    from rotate_ok [OF lok rs this] assms(4) show ?thesis
      by (simp add: unat_Suc_lsn)
  next
    case False
    with rot have "w1 = ?w" by (simp add: checkRotate_def Let_def)
    with lok assms(3) show ?thesis by simp
  qed
  obtain w3 where io: "next_io w1 = (IoOk, w3)" and w2: "w2 = append_bytes (MarshalWALEntry e) w3"
    using wr by (auto simp: file_write_def split: if_splits prod.splits io.splits)
  note g = next_io_same [OF io]
  have l3: "log_ok w3 es"
    using R g log_ok_same by blast
  note a = log_ok_append [OF l3 assms(2)]
  have fr: "currentLSN w2 = currentLSN w3" "walConfig w2 = walConfig w3" "walClosed w2 = walClosed w3"
    by (simp_all add: w2 append_bytes_def split: option.splits)
  show "log_ok w' (es @ [e])"
    using a(1) by (subst log_ok_same [of w2]) (simp_all add: w' w2 same_log_def)
  show "unat (walFile w') \<le> Suc (unat (currentLSN w'))" "currentLSN w' = currentLSN w"
    "walConfig w' = walConfig w" "walClosed w' = walClosed w"
    using R g a(2) fr by (auto simp: w' w2 same_log_def)
qed

lemma append_loop_ok:
  assumes "session_ok w es" "list_all entry_fits news"
    "unat (currentLSN w) + length news < 18446744073709551615" "append_loop news w = (Ok lsns, w')"
  shows "session_ok w' (es @ stamp (currentLSN w) news) \<and> lsns = map LSN (stamp (currentLSN w) news) \<and>
    unat (currentLSN w') = unat (currentLSN w) + length news \<and> walConfig w' = walConfig w"
  using assms
proof (induction news arbitrary: w es lsns)
  case Nil
  then show ?case by simp
next
  case (Cons e news)
  let ?lsn = "currentLSN w + 1"
  let ?e = "e\<lparr>LSN := ?lsn\<rparr>" and ?w = "w\<lparr>currentLSN := ?lsn\<rparr>"
  obtain w1 lsns' where we: "write_entry_data (MarshalWALEntry ?e) ?w = (Ok (), w1)"
    and ap: "append_loop news w1 = (Ok lsns', w')" and lsns: "lsns = ?lsn # lsns'"
    using Cons.prems(4) by (auto simp: Let_def split: prod.splits outcome.splits)
  have ul: "unat ?lsn = Suc (unat (currentLSN w))"
    using Cons.prems(3) by (simp add: unat_Suc_lsn)
  have "log_ok ?w es"
    using Cons.prems(1) by (simp add: session_ok_def log_ok_def)
  moreover have "unat (walFile ?w) \<le> unat (currentLSN ?w)" "Suc (unat (currentLSN ?w)) < 18446744073709551616"
    using Cons.prems(1,3) ul by (simp_all add: session_ok_def)
  ultimately have one: "log_ok w1 (es @ [?e])" "unat (walFile w1) \<le> Suc (unat (currentLSN w1))"
      "currentLSN w1 = ?lsn" "walConfig w1 = walConfig w" "walClosed w1 = walClosed w"
    using write_entry_ok [OF _ _ _ _ we] Cons.prems(2) by simp_all
  then have "session_ok w1 (es @ [?e])"
    using Cons.prems(1) by (simp add: session_ok_def)
  from Cons.IH [OF this _ _ ap] Cons.prems(2,3) one ul lsns show ?case
    by simp
qed

lemma AppendBatch_ok:
  assumes "session_ok w es" "list_all entry_fits news"
    "unat (currentLSN w) + length news < 18446744073709551615" "AppendBatch news w = (Ok lsns, w')"
  shows "session_ok w' (es @ stamp (currentLSN w) news)" "lsns = map LSN (stamp (currentLSN w) news)"
    "unat (currentLSN w') = unat (currentLSN w) + length news" "walConfig w' = walConfig w"
    "cfgSyncPolicy (walConfig w) = SyncPolicyEveryWrite \<Longrightarrow>
      map_of (syncedLen w') (walFile w') = Some (length (seg_data (walFile w') w'))"
proof -
  have cl: "\<not> walClosed w" using assms(1) by (simp add: session_ok_def)
  obtain w1 where lp: "append_loop news w = (Ok lsns, w1)"
    and sy: "cfgSyncPolicy (walConfig w1) = SyncPolicyEveryWrite \<longrightarrow> syncLocked w1 = (Ok (), w')"
      "cfgSyncPolicy (walConfig w1) \<noteq> SyncPolicyEveryWrite \<longrightarrow> w' = w1"
    using assms(4) cl by (auto simp: AppendBatch_def split: prod.splits outcome.splits if_splits)
  note L = append_loop_ok [OF assms(1-3) lp]
  have "session_ok w' (es @ stamp (currentLSN w) news) \<and> currentLSN w' = currentLSN w1 \<and> walConfig w' = walConfig w1 \<and>
    (cfgSyncPolicy (walConfig w) = SyncPolicyEveryWrite \<longrightarrow>
      map_of (syncedLen w') (walFile w') = Some (length (seg_data (walFile w') w')))"
  proof (cases "cfgSyncPolicy (walConfig w1) = SyncPolicyEveryWrite")
    case True
    with sy obtain w2 where fs: "file_sync w1 = (Ok (), w2)" and w': "w' = w2\<lparr>syncCount := syncCount w2 + 1\<rparr>"
      by (auto simp: syncLocked_def split: prod.splits outcome.splits)
    note f = file_sync_Ok [OF fs]
    have "log_ok w1 (es @ stamp (currentLSN w) news)"
      using L by (simp add: session_ok_def)
    then have "log_ok w2 (es @ stamp (currentLSN w) news)"
      using f(1,3) by (rule log_ok_synced)
    then have "log_ok w' (es @ stamp (currentLSN w) news)"
      by (simp add: w' log_ok_def)
    moreover have "unat (walFile w1) \<le> Suc (unat (currentLSN w1))" "\<not> walClosed w1"
      using L by (simp_all add: session_ok_def)
    moreover have "map_of (syncedLen w2) (walFile w2) = Some (length (seg_data (walFile w2) w2))"
      using f(1,3) by (simp add: same_log_def seg_data_def update_conv')
    ultimately show ?thesis
      using f(1) by (auto simp: session_ok_def w' same_log_def seg_data_def)
  next
    case False
    with sy L show ?thesis by simp
  qed
  with L show "session_ok w' (es @ stamp (currentLSN w) news)" "lsns = map LSN (stamp (currentLSN w) news)"
    "unat (currentLSN w') = unat (currentLSN w) + length news" "walConfig w' = walConfig w"
    "cfgSyncPolicy (walConfig w) = SyncPolicyEveryWrite \<Longrightarrow>
      map_of (syncedLen w') (walFile w') = Some (length (seg_data (walFile w') w'))"
    by simp_all
qed

end
