(* ===== verification/WAL_Durability.thy ===== *)
theory WAL_Durability
  imports Disk_WAL Transaction
begin

text \<open>
  What survives a crash. A crash keeps, of every segment, at least the bytes that an \<open>fsync\<close> has
  made durable and possibly more of what was written; the directory entries of the segments are
  taken to be durable. \<open>DiskWAL\<close> is then shown to be a log in the sense of the interface
  \<open>durable_log\<close>, on which the commit protocol of the transactions relies.
\<close>

section \<open>Crashes\<close>

definition synced :: "disk_wal \<Rightarrow> u64 \<Rightarrow> nat" where
  "synced w n = (case map_of (syncedLen w) n of None \<Rightarrow> 0 | Some s \<Rightarrow> s)"

definition crash :: "(u64 \<Rightarrow> nat) \<Rightarrow> disk_wal \<Rightarrow> (u64 \<times> bytes) list" where
  "crash keep w = map (\<lambda>(n, d). (n, take (max (keep n) (synced w n)) d)) (walDir w)"

definition fully_synced :: "disk_wal \<Rightarrow> bool" where
  "fully_synced w \<longleftrightarrow> map_of (syncedLen w) (walFile w) = Some (length (seg_data (walFile w) w))"

lemma take_encode_log:
  assumes "list_all entry_fits l"
  shows "\<exists>j t. j \<le> length l \<and> take k (encode_log l) = encode_log (take j l) @ t \<and> torn_tail t \<and>
    (length (encode_log l) \<le> k \<longrightarrow> j = length l)"
  using assms
proof (induction l arbitrary: k)
  case Nil
  then show ?case by simp
next
  case (Cons e l)
  show ?case
  proof (cases "k < length (MarshalWALEntry e)")
    case True
    then have "torn_tail (take k (MarshalWALEntry e))"
      using Cons.prems by (auto simp: torn_tail_def)
    with True show ?thesis
      by (intro exI [of _ 0] exI [of _ "take k (MarshalWALEntry e)"]) simp
  next
    case False
    let ?k = "k - length (MarshalWALEntry e)"
    obtain j t where "j \<le> length l" "take ?k (encode_log l) = encode_log (take j l) @ t" "torn_tail t"
      "length (encode_log l) \<le> ?k \<longrightarrow> j = length l"
      using Cons.IH [of ?k] Cons.prems by auto
    with False show ?thesis
      by (intro exI [of _ "Suc j"] exI [of _ t]) auto
  qed
qed

lemma recover_prefix:
  assumes "list_all entry_fits l"
  shows "\<exists>j \<le> length l. recoverFile (take k (encode_log l)) = Ok (take j l) \<and>
    (length (encode_log l) \<le> k \<longrightarrow> j = length l)"
proof -
  obtain j t where "j \<le> length l" "take k (encode_log l) = encode_log (take j l) @ t" "torn_tail t"
    "length (encode_log l) \<le> k \<longrightarrow> j = length l"
    using take_encode_log [OF assms] by blast
  moreover have "list_all entry_fits (take j l)"
    using assms by (auto simp: list_all_iff dest: in_set_takeD)
  ultimately show ?thesis
    using recoverFile_log by auto
qed

lemma scan_files_Ok:
  assumes "ioFaults w = []" "\<And>n. n \<in> set ns \<Longrightarrow> recoverFile (seg_data n w) = Ok (R n)"
  shows "scan_files ns w = (Ok (concat (map R ns)), w)"
  using assms(2)
proof (induction ns)
  case Nil
  then show ?case by simp
next
  case (Cons n ns)
  then show ?case using assms(1) by (simp add: next_io_def)
qed

lemma clean_files_frame: "walDir (clean_files ns w) = walDir w"
  by (induction ns arbitrary: w) (auto simp: next_io_def split: list.splits io.splits)

lemma walRecover_Ok:
  assumes "ioFaults w = []" "\<And>n. n \<in> set (map fst (walDir w)) \<Longrightarrow> recoverFile (seg_data n w) = Ok (R n)"
  shows "fst (walRecover w) = Ok (concat (map R (sort (map fst (walDir w)))))"
proof -
  have "scan_files (sort (map fst (walDir w))) w = (Ok (concat (map R (sort (map fst (walDir w))))), w)"
    using assms by (intro scan_files_Ok) auto
  with assms(1) show ?thesis
    by (simp add: walRecover_def scanSegments_def next_io_def)
qed

lemma map_of_crash: "map_of (crash keep w) n = map_option (take (max (keep n) (synced w n))) (map_of (walDir w) n)"
proof -
  have "map_of (map (\<lambda>(n, d). (n, f n d)) xs) n = map_option (f n) (map_of xs n)" for f :: "u64 \<Rightarrow> bytes \<Rightarrow> bytes" and xs
    by (induction xs) auto
  then show ?thesis by (simp add: crash_def)
qed

text \<open>The segments of a crashed log, one by one.\<close>

lemma crash_segments:
  assumes "log_ok w es" "walDir w2 = crash keep w"
  shows "\<exists>R. (\<forall>n \<in> set (map fst (walDir w2)). recoverFile (seg_data n w2) = Ok (R n)) \<and>
    (\<exists>j. concat (map R (sort (map fst (walDir w2)))) = take j es \<and> (fully_synced w \<longrightarrow> j = length es))"
proof -
  from assms(1) obtain segs cur where s: "walDir w = map enc_seg (segs @ [(walFile w, cur)])"
    "sorted_wrt (<) (map fst segs @ [walFile w])" "es = concat (map snd segs) @ cur" "list_all entry_fits es"
    "list_all (\<lambda>(n, l). map_of (syncedLen w) n = Some (length (encode_log l))) segs"
    by (rule log_okE)
  let ?f = "walFile w" and ?k = "max (keep (walFile w)) (synced w (walFile w))"
  have new: "?f \<notin> set (map fst segs)"
    by (rule sorted_last_notin [OF s(2)])
  have fits: "list_all entry_fits cur" "\<And>n l. (n, l) \<in> set segs \<Longrightarrow> list_all entry_fits l"
    using s(3,4) by (auto simp: list_all_iff) force
  have last: "map_of (walDir w) ?f = Some (encode_log cur)"
    using map_of_enc_last [OF new] s(1) by simp
  obtain j where j: "j \<le> length cur" "recoverFile (take ?k (encode_log cur)) = Ok (take j cur)"
    "length (encode_log cur) \<le> ?k \<longrightarrow> j = length cur"
    using recover_prefix [OF fits(1)] by blast
  have dist: "distinct (map fst (segs @ [(?f, cur)]))"
    using s(2) strict_sorted_iff by (auto simp: sorted_wrt_append)
  define R where "R n = (if n = ?f then take j cur else the (map_of segs n))" for n
  have names: "map fst (walDir w2) = map fst segs @ [?f]"
    using assms(2) s(1) by (simp add: crash_def enc_seg_def split_def comp_def)
  have old: "seg_data n w2 = encode_log l \<and> R n = l" if nl: "(n, l) \<in> set segs" for n l
  proof -
    have "map_of (walDir w) n = Some (encode_log l)"
      unfolding s(1) using nl dist by (intro map_of_is_SomeI) (force simp: enc_seg_def split_def comp_def)+
    moreover have "synced w n = length (encode_log l)"
      using nl s(5) by (auto simp: synced_def list_all_iff)
    moreover have "n \<noteq> ?f" "map_of segs n = Some l"
      using nl new dist by (force, simp)
    ultimately show ?thesis
      by (simp add: seg_data_def assms(2) map_of_crash R_def)
  qed
  have "recoverFile (seg_data n w2) = Ok (R n)" if n: "n \<in> set (map fst (walDir w2))" for n
  proof (cases "n = ?f")
    case True
    with last j(2) show ?thesis
      by (simp add: seg_data_def assms(2) map_of_crash R_def)
  next
    case False
    with n names obtain l where "(n, l) \<in> set segs" by auto
    with old fits(2) recoverFile_log [of l "[]"] show ?thesis by simp
  qed
  moreover have "concat (map R (sort (map fst (walDir w2)))) = take (length (concat (map snd segs)) + j) es"
  proof -
    have "sorted (map fst segs @ [?f])"
      using s(2) by (auto simp: sorted_wrt_append intro: sorted_wrt_mono_rel [of _ "(<)"])
    then have "sort (map fst (walDir w2)) = map fst segs @ [?f]"
      by (simp add: names sorted_sort_id)
    moreover have "map R (map fst segs) = map snd segs"
      using old by (auto simp: split_def)
    moreover have "R ?f = take j cur"
      by (simp add: R_def)
    ultimately show ?thesis
      using j(1) s(3) by (simp del: map_map)
  qed
  moreover have "fully_synced w \<longrightarrow> length (concat (map snd segs)) + j = length es"
    using j(3) last s(3) by (auto simp: fully_synced_def synced_def seg_data_def)
  ultimately show ?thesis by blast
qed

text \<open>After a crash at any moment of a session, recovery returns a prefix of the entries that
  were written, in order: the segments rotated out are complete, the torn end of the last one
  is cut at an entry boundary. When the open segment was synced nothing is missing.\<close>

theorem crash_recovers_prefix:
  assumes "session_ok w es" "walDir w2 = crash keep w" "ioFaults w2 = []"
  shows "\<exists>j. fst (walRecover w2) = Ok (take j es) \<and> (fully_synced w \<longrightarrow> j = length es)"
proof -
  have "log_ok w es"
    using assms(1) by (simp add: session_ok_def)
  from crash_segments [OF this assms(2)] obtain R j where
    R: "\<forall>n \<in> set (map fst (walDir w2)). recoverFile (seg_data n w2) = Ok (R n)"
    and j: "concat (map R (sort (map fst (walDir w2)))) = take j es" "fully_synced w \<longrightarrow> j = length es"
    by blast
  have "fst (walRecover w2) = Ok (concat (map R (sort (map fst (walDir w2)))))"
    using R by (intro walRecover_Ok [OF assms(3)]) blast
  with j show ?thesis by auto
qed

lemma stamp_increasing:
  "unat c + length es < 18446744073709551616 \<Longrightarrow> sorted_wrt (<) (c # map LSN (stamp c es))"
proof (induction es arbitrary: c)
  case Nil
  then show ?case by simp
next
  case (Cons e es)
  then have u: "unat (c + 1) = Suc (unat c)"
    by (simp add: unat_Suc_lsn)
  with Cons have "sorted_wrt (<) ((c + 1) # map LSN (stamp (c + 1) es))" by simp
  moreover have "c < c + 1"
    by (simp add: word_less_nat_alt u)
  ultimately show ?case by force
qed


lemma NewDiskWAL_Ok:
  assumes "NewDiskWAL cfg dir del sy faults = Ok w"
  shows "walFile w = 1" "fileOpen w" "\<not> walClosed w" "currentLSN w = 0" "walConfig w = cfg" "writtenBytes w = 0"
    "walDir w = (if map_of dir 1 = None then AList.update 1 [] dir else dir)" "syncedLen w = sy"
    "ioFaults w = tl faults"
  using assms
  by (auto simp: NewDiskWAL_def outcome_simps openSegment_def next_io_def Let_def
      split: prod.splits outcome.splits io.splits list.splits)

lemma fresh_session: "NewDiskWAL cfg [] del sy faults = Ok w \<Longrightarrow> session_ok w []"
  using NewDiskWAL_Ok [of cfg "[]" del sy faults w]
  by (auto simp: session_ok_def log_ok_def enc_seg_def intro!: exI [of _ "[]"])

definition ex_config :: wal_config where
  "ex_config = DefaultWALConfig\<lparr>cfgDir := ''wal''\<rparr>"

lemma ex_open: "\<exists>w. NewDiskWAL ex_config [] [] [] [] = Ok w"
  by (simp add: NewDiskWAL_def ex_config_def DefaultWALConfig_def walConfigValidate_def openSegment_def next_io_def)

theorem crash_recovers_prefix_witness:
  "\<exists>w j. NewDiskWAL ex_config [] [] [] [] = Ok w \<and>
     fst (walRecover (w\<lparr>walDir := crash (\<lambda>_. 3) w\<rparr>)) = Ok (take j [])"
proof -
  obtain w where w: "NewDiskWAL ex_config [] [] [] [] = Ok w"
    using ex_open by blast
  from crash_recovers_prefix [OF fresh_session [OF w], of "w\<lparr>walDir := crash (\<lambda>_. 3) w\<rparr>" "\<lambda>_. 3"]
    NewDiskWAL_Ok(9) [OF w] w show ?thesis by auto
qed

text \<open>An append that meets no fault and no rotation.\<close>

lemma append_one:
  assumes "ioFaults w = []" "fileOpen w" "\<not> walClosed w"
    "writtenBytes w + int (length (MarshalWALEntry e)) < cfgSegmentSize (walConfig w)"
  shows "\<exists>w'. AppendBatch [e] w = (Ok [currentLSN w + 1], w') \<and> ioFaults w' = [] \<and> walFile w' = walFile w \<and>
    fileOpen w' \<and> \<not> walClosed w' \<and> walConfig w' = walConfig w \<and>
    writtenBytes w' = writtenBytes w + int (length (MarshalWALEntry e)) \<and>
    walDir w' = walDir (append_bytes (MarshalWALEntry (e\<lparr>LSN := currentLSN w + 1\<rparr>)) w)"
proof -
  have "length (MarshalWALEntry (e\<lparr>LSN := l\<rparr>)) = length (MarshalWALEntry e)" for l
    by (simp add: length_MarshalWALEntry padded_len_def payload_len_def)
  with assms show ?thesis
    by (cases "map_of (walDir w) (walFile w)")
      (simp_all add: AppendBatch_def Let_def write_entry_data_def checkRotate_def file_write_def next_io_def
        append_bytes_def syncLocked_def file_sync_def)
qed


section \<open>Where the log loses entries\<close>

lemma truncate_files_dir:
  "ioFaults w = [] \<Longrightarrow>
   walDir (truncate_files ns lsn w) = filter (\<lambda>p. \<not> (fst p \<in> set ns \<and> fst p < lsn)) (walDir w) \<and>
   ioFaults (truncate_files ns lsn w) = [] \<and> walFile (truncate_files ns lsn w) = walFile w \<and>
   fileOpen (truncate_files ns lsn w) = fileOpen w \<and> walClosed (truncate_files ns lsn w) = walClosed w \<and>
   writtenBytes (truncate_files ns lsn w) = writtenBytes w \<and> walConfig (truncate_files ns lsn w) = walConfig w \<and>
   currentLSN (truncate_files ns lsn w) = currentLSN w"
proof (induction ns arbitrary: w)
  case Nil
  then show ?case by simp
next
  case (Cons n ns)
  have f: "filter (\<lambda>p. \<not> (fst p \<in> set ns \<and> fst p < lsn)) (AList.delete n xs) =
      filter (\<lambda>p. \<not> ((fst p = n \<or> fst p \<in> set ns) \<and> fst p < lsn)) xs" if "n < lsn" for xs :: "(u64 \<times> bytes) list"
    using that by (induction xs) (auto simp: AList.delete_eq)
  have g: "filter (\<lambda>p. \<not> (fst p \<in> set ns \<and> fst p < lsn)) xs =
      filter (\<lambda>p. \<not> ((fst p = n \<or> fst p \<in> set ns) \<and> fst p < lsn)) xs" if "lsn \<le> n" for xs :: "(u64 \<times> bytes) list"
    using that by (intro filter_cong) auto
  show ?case
  proof (cases "lsn \<le> n")
    case True
    with Cons g show ?thesis by simp
  next
    case False
    let ?w = "w\<lparr>walDir := AList.delete n (walDir w),
      walDeleting := AList.delete n (AList.update n (seg_data n w) (walDeleting w))\<rparr>"
    have "truncate_files (n # ns) lsn w = truncate_files ns lsn ?w"
      using Cons.prems False by (simp add: next_io_def Let_def)
    with Cons.IH [of ?w] Cons.prems False f show ?thesis by simp
  qed
qed

text \<open>\<open>Truncate\<close> compares the number in a segment's name, its first LSN, and not its largest
  one: every segment that starts below the given LSN is deleted with all the entries above it.
  That includes the segment being written: it is unlinked while it stays open, and the next
  append is acknowledged although it changes nothing in the directory.\<close>

theorem truncate_drops_open_segment:
  assumes "ioFaults w = []" "fileOpen w" "\<not> walClosed w" "walFile w < lsn"
    and "writtenBytes w + int (length (MarshalWALEntry e)) < cfgSegmentSize (walConfig w)"
  shows "\<exists>w' w''. Truncate lsn w = (Ok (), w') \<and>
    walDir w' = filter (\<lambda>p. lsn \<le> fst p) (walDir w) \<and>
    AppendBatch [e] w' = (Ok [currentLSN w + 1], w'') \<and> walDir w'' = walDir w'"
proof -
  let ?w = "truncate_files (sort (map fst (walDir w))) lsn w"
  note T = truncate_files_dir [OF assms(1), of "sort (map fst (walDir w))" lsn]
  have tr: "Truncate lsn w = (Ok (), ?w)"
    using assms(1,3) by (simp add: Truncate_def truncateBefore_def next_io_def)
  have dir: "walDir ?w = filter (\<lambda>p. lsn \<le> fst p) (walDir w)"
    using T by (auto intro!: filter_cong simp: not_less image_iff)
  then have none: "map_of (walDir ?w) (walFile ?w) = None"
    using T assms(4) by (force simp: map_of_eq_None_iff not_less)
  obtain w'' where "AppendBatch [e] ?w = (Ok [currentLSN w + 1], w'')"
      "walDir w'' = walDir (append_bytes (MarshalWALEntry (e\<lparr>LSN := currentLSN w + 1\<rparr>)) ?w)"
    using append_one [of ?w e] T assms by auto
  with tr dir none show ?thesis
    by (auto simp: append_bytes_def)
qed

theorem truncate_drops_open_segment_witness:
  "\<exists>w w' w''. NewDiskWAL ex_config [] [] [] [] = Ok w \<and> Truncate 2 w = (Ok (), w') \<and>
     AppendBatch [zero_entry] w' = (Ok [1], w'') \<and> walDir w'' = []"
proof -
  obtain w where w: "NewDiskWAL ex_config [] [] [] [] = Ok w"
    using ex_open by blast
  note n = NewDiskWAL_Ok [OF w]
  have len: "length (MarshalWALEntry zero_entry) = 60"
    by (simp add: length_MarshalWALEntry padded_len_def payload_len_def zero_entry_def)
  have "\<not> (2 :: u64) \<le> 1"
    by (simp add: word_le_nat_alt)
  with truncate_drops_open_segment [of w 2 zero_entry] n len w show ?thesis
    by (auto simp: ex_config_def DefaultWALConfig_def)
qed

text \<open>The scan that should find the next entry after a damaged one steps by eight bytes, while
  an entry is twelve bytes longer than a multiple of eight: the position right after the
  damaged entry is never tried, whatever its length.\<close>

theorem jump_scan_misses_next_entry:
  "jumpScan data (off + 8) \<noteq> Some (off + length (MarshalWALEntry e))"
proof
  assume "jumpScan data (off + 8) = Some (off + length (MarshalWALEntry e))"
  from jumpScan_ge [OF this] have "(4 + padded_len e) mod 8 = 0"
    by (simp add: length_MarshalWALEntry)
  moreover have "(4 + padded_len e) mod 8 = 4"
    by (simp add: padded_len_def)
  ultimately show False by simp
qed

lemma walRecover_frame:
  assumes "ioFaults w = []" "walDeleting w = []" "walRecover w = (Ok es, w')"
  shows "walDir w' = walDir w" "walFile w' = walFile w" "fileOpen w' = fileOpen w" "walClosed w' = walClosed w"
    "writtenBytes w' = writtenBytes w" "walConfig w' = walConfig w" "ioFaults w' = []"
proof -
  have scan: "snd (scan_files ns w) = w" for ns
    using assms(1) by (induction ns) (auto simp: next_io_def split: outcome.splits prod.splits)
  obtain w1 where "scanSegments w = (Ok es, w1)"
    and w': "w' = w1\<lparr>currentLSN := foldl (\<lambda>c e. if c < LSN e then LSN e else c) (currentLSN w1) es\<rparr>"
    using assms(3) by (auto simp: walRecover_def split: prod.splits outcome.splits)
  then have "w1 = w"
    using assms(1,2) scan [of "sort (map fst (walDir w))"]
    by (auto simp: scanSegments_def next_io_def cleanDeleting_def split: prod.splits outcome.splits)
  with w' assms(1) show "walDir w' = walDir w" "walFile w' = walFile w" "fileOpen w' = fileOpen w"
    "walClosed w' = walClosed w" "writtenBytes w' = writtenBytes w" "walConfig w' = walConfig w" "ioFaults w' = []"
    by simp_all
qed

lemma recover_two:
  assumes "walDir w = map enc_seg [(1, l1), (n, l2)]" "1 < n" "list_all entry_fits l1" "list_all entry_fits l2"
    "ioFaults w = []"
  shows "fst (walRecover w) = Ok (l1 @ l2)"
proof -
  let ?R = "\<lambda>m. if m = 1 then l1 else l2"
  have "recoverFile (seg_data m w) = Ok (?R m)" if "m \<in> set (map fst (walDir w))" for m
    using that assms recoverFile_log [of l1 "[]"] recoverFile_log [of l2 "[]"]
    by (auto simp: seg_data_def enc_seg_def)
  from walRecover_Ok [OF assms(5) this] assms(1,2) show ?thesis
    by (auto simp: enc_seg_def)
qed

text \<open>Reopening a log always appends to the segment named 1, also when later segments exist and
  after \<open>Recover\<close> has found the last LSN: a new entry lands in front of the older entries of
  the later segments, and the next recovery returns the log out of order.\<close>

theorem reopen_appends_out_of_order:
  assumes "NewDiskWAL cfg (map enc_seg [(1, l1), (n, l2)]) [] sy [] = Ok w" "1 < n"
    and "list_all entry_fits l1" "list_all entry_fits l2" "entry_fits e"
    and "walRecover w = (r, w1)" "int (length (MarshalWALEntry e)) < cfgSegmentSize cfg"
  shows "r = Ok (l1 @ l2) \<and> (\<exists>w2. AppendBatch [e] w1 = (Ok [currentLSN w1 + 1], w2) \<and>
    fst (walRecover w2) = Ok (l1 @ [e\<lparr>LSN := currentLSN w1 + 1\<rparr>] @ l2))"
proof -
  note N = NewDiskWAL_Ok [OF assms(1)]
  have del: "walDeleting w = []"
    using assms(1) by (auto simp: NewDiskWAL_def outcome_simps openSegment_def next_io_def Let_def
        split: prod.splits outcome.splits)
  have dir: "walDir w = map enc_seg [(1, l1), (n, l2)]" and io: "ioFaults w = []"
    using N by (simp_all add: enc_seg_def)
  have r: "r = Ok (l1 @ l2)"
    using recover_two [OF dir assms(2-4) io] assms(6) by simp
  note F = walRecover_frame [OF io del, of "l1 @ l2" w1]
  obtain w2 where ap: "AppendBatch [e] w1 = (Ok [currentLSN w1 + 1], w2)" and io2: "ioFaults w2 = []"
    and d2: "walDir w2 = walDir (append_bytes (MarshalWALEntry (e\<lparr>LSN := currentLSN w1 + 1\<rparr>)) w1)"
    using append_one [of w1 e] F N r assms(6,7) by auto
  have "walDir w2 = map enc_seg [(1, l1 @ [e\<lparr>LSN := currentLSN w1 + 1\<rparr>]), (n, l2)]"
    using d2 F N dir r assms(6) by (simp add: append_bytes_def enc_seg_def)
  from recover_two [OF this assms(2) _ assms(4) io2] assms(3,5) ap r show ?thesis
    by simp
qed

theorem reopen_appends_out_of_order_witness:
  "\<exists>w w1 w2. NewDiskWAL ex_config (map enc_seg [(1, []), (5, [zero_entry\<lparr>LSN := 4\<rparr>])]) [] [] [] = Ok w \<and>
     walRecover w = (Ok [zero_entry\<lparr>LSN := 4\<rparr>], w1) \<and> AppendBatch [zero_entry] w1 = (Ok [currentLSN w1 + 1], w2) \<and>
     fst (walRecover w2) = Ok [zero_entry\<lparr>LSN := currentLSN w1 + 1\<rparr>, zero_entry\<lparr>LSN := 4\<rparr>]"
proof -
  let ?dir = "map enc_seg [(1, []), (5, [zero_entry\<lparr>LSN := 4\<rparr>])]"
  have "\<exists>w. NewDiskWAL ex_config ?dir [] [] [] = Ok w"
    by (simp add: NewDiskWAL_def ex_config_def DefaultWALConfig_def walConfigValidate_def openSegment_def next_io_def)
  then obtain w where w: "NewDiskWAL ex_config ?dir [] [] [] = Ok w" by blast
  obtain r w1 where rec: "walRecover w = (r, w1)" by (cases "walRecover w")
  have fits: "entry_fits zero_entry"
    by (simp add: entry_fits_def padded_len_def payload_len_def zero_entry_def)
  have len: "int (length (MarshalWALEntry zero_entry)) < cfgSegmentSize ex_config"
    by (simp add: length_MarshalWALEntry padded_len_def payload_len_def zero_entry_def ex_config_def DefaultWALConfig_def)
  have one: "(1 :: u64) < 5" by (simp add: word_less_nat_alt)
  from reopen_appends_out_of_order [OF w one _ _ fits rec len] w rec fits show ?thesis by auto
qed

section \<open>The log as an interface\<close>

text \<open>
  What the commit protocol relies on: \<open>invar l es n\<close> says that the log holds the entries \<open>es\<close> and
  has room for \<open>n\<close> more, \<open>durable l es\<close> that they survive a crash.
\<close>

locale durable_log =
  fixes ww :: "'l wal_writer"
    and invar :: "'l \<Rightarrow> wal_entry list \<Rightarrow> nat \<Rightarrow> bool"
    and durable :: "'l \<Rightarrow> wal_entry list \<Rightarrow> bool"
  assumes append_law: "invar l es (Suc n) \<Longrightarrow> entry_fits e \<Longrightarrow> wwAppend ww e l = (Ok lsn, l') \<Longrightarrow>
      invar l' (es @ [e\<lparr>LSN := lsn\<rparr>]) n"
    and sync_law: "invar l es n \<Longrightarrow> wwSync ww l = (Ok u, l') \<Longrightarrow> invar l' es n \<and> durable l' es"

definition diskWriter :: "disk_wal wal_writer" where
  "diskWriter = \<lparr>wwAppend = walAppend, wwAppendBatch = AppendBatch, wwSync = walSync\<rparr>"

definition disk_invar :: "disk_wal \<Rightarrow> wal_entry list \<Rightarrow> nat \<Rightarrow> bool" where
  "disk_invar w es n \<longleftrightarrow> session_ok w es \<and> unat (currentLSN w) + n < 18446744073709551615"

definition survives :: "disk_wal \<Rightarrow> wal_entry list \<Rightarrow> bool" where
  "survives w es \<longleftrightarrow> (\<forall>keep w2. walDir w2 = crash keep w \<longrightarrow> ioFaults w2 = [] \<longrightarrow> fst (walRecover w2) = Ok es)"

lemma fully_synced_survives:
  assumes "log_ok w es" "fully_synced w"
  shows "survives w es"
  unfolding survives_def
proof (intro allI impI)
  fix keep and w2 :: disk_wal
  assume w2: "walDir w2 = crash keep w" "ioFaults w2 = []"
  from crash_segments [OF assms(1) w2(1)] assms(2) obtain R where
    R: "\<forall>n \<in> set (map fst (walDir w2)). recoverFile (seg_data n w2) = Ok (R n)"
    and all: "concat (map R (sort (map fst (walDir w2)))) = es" by auto
  have "fst (walRecover w2) = Ok (concat (map R (sort (map fst (walDir w2)))))"
    using R by (intro walRecover_Ok [OF w2(2)]) blast
  with all show "fst (walRecover w2) = Ok es" by simp
qed

lemma walAppend_ok:
  assumes "disk_invar w es (Suc n)" "entry_fits e" "walAppend e w = (Ok lsn, w')"
  shows "disk_invar w' (es @ [e\<lparr>LSN := lsn\<rparr>]) n"
proof -
  obtain lsns where ap: "AppendBatch [e] w = (Ok lsns, w')" and lsn: "lsn = hd lsns"
    using assms(3) by (auto simp: walAppend_def split: prod.splits outcome.splits)
  have "session_ok w es" "list_all entry_fits [e]" "unat (currentLSN w) + length [e] < 18446744073709551615"
    using assms(1,2) by (simp_all add: disk_invar_def)
  from AppendBatch_ok [OF this ap] assms(1) lsn show ?thesis
    by (simp add: disk_invar_def)
qed

lemma walSync_ok:
  assumes "disk_invar w es n" "walSync w = (Ok u, w')"
  shows "disk_invar w' es n \<and> survives w' es"
proof -
  have lok: "log_ok w es" and cl: "\<not> walClosed w"
    using assms(1) by (simp_all add: disk_invar_def session_ok_def)
  obtain w1 where fs: "file_sync w = (Ok (), w1)" and w': "w' = w1\<lparr>syncCount := syncCount w1 + 1\<rparr>"
    using assms(2) cl by (auto simp: walSync_def syncLocked_def split: prod.splits outcome.splits)
  note f = file_sync_Ok [OF fs]
  have "log_ok w' es"
    using log_ok_synced [OF lok f(1,3)] by (simp add: w' log_ok_def)
  moreover have "fully_synced w'"
    using f(1,3) by (simp add: w' fully_synced_def same_log_def seg_data_def update_conv')
  ultimately show ?thesis
    using fully_synced_survives assms(1) f(1)
    by (auto simp: disk_invar_def session_ok_def w' same_log_def)
qed

interpretation disk: durable_log diskWriter disk_invar survives
  by unfold_locales (auto simp: diskWriter_def intro: walAppend_ok dest: walSync_ok)

section \<open>Durability of a commit\<close>

text \<open>Applying and rolling back do not touch the log.\<close>

lemma retireDropped_wal: "wal (retireDropped e tm) = wal tm \<and> walState (retireDropped e tm) = walState tm"
  by (auto simp: retireDropped_def retireLOBOverflow_def retireLOBFile_def Let_def split: option.splits)

lemma apply_keys_wal:
  "apply_keys keys ts wb undo tm = (u, r, tm') \<Longrightarrow> wal tm' = wal tm \<and> walState tm' = walState tm"
proof (induction keys arbitrary: undo tm)
  case Nil
  then show ?case by simp
next
  case (Cons k keys)
  show ?case
  proof (cases "wbGet k wb")
    case None
    with Cons show ?thesis by simp
  next
    case (Some e)
    obtain uo rc tm1 where ck: "commitKey k e ts tm = (uo, rc, tm1)"
      by (cases "commitKey k e ts tm")
    then have "wal tm1 = wal tm \<and> walState tm1 = walState tm"
      by (auto simp: commitKey_def retireDropped_wal split: prod.splits outcome.splits)
    with Cons.prems Cons.IH [of _ tm1] Some ck show ?thesis
      by (auto split: option.splits outcome.splits)
  qed
qed

lemma applyWriteBuffer_wal:
  assumes "applyWriteBuffer ts wb tm tx = (Ok undo, tm')"
  shows "wal tm' = wal tm \<and> walState tm' = walState tm"
  using assms
  by (auto simp: applyWriteBuffer_def split: prod.splits outcome.splits if_splits dest: apply_keys_wal)

lemma entry_fits_TxCommit [simp]: "entry_fits (TxCommitEntry tid ts)"
  by (simp add: TxCommitEntry_def entry_fits_def padded_len_def payload_len_def zero_entry_def)

context durable_log
begin

lemma log_durably_ok:
  assumes "wal tm = Some ww" "invar (walState tm) es (Suc n)" "entry_fits e" "log_durably e tm = (Ok u, tm')"
  shows "\<exists>lsn. invar (walState tm') (es @ [e\<lparr>LSN := lsn\<rparr>]) n \<and> durable (walState tm') (es @ [e\<lparr>LSN := lsn\<rparr>]) \<and>
    wal tm' = Some ww \<and> tsGen tm' = tsGen tm"
proof -
  obtain lsn l l' where "wwAppend ww e (walState tm) = (Ok lsn, l)" "wwSync ww l = (Ok u, l')"
    "tm' = tm\<lparr>walState := l'\<rparr>"
    using assms(1,4) by (auto simp: log_durably_def split: prod.splits outcome.splits)
  with append_law [OF assms(2,3)] sync_law assms(1) show ?thesis by fastforce
qed

lemma commit_logged:
  assumes "wal tm = Some ww" "invar (walState tm) es (Suc (Suc n))" "\<not> completed tx" "writeBuffer tx = Some wb"
    "entry_fits (fst (TxPrepareEntry (txID tx) wb))" "txCommit tm tx = (Ok (), tm', tx')"
  shows "\<exists>l1 l2. durable (walState tm') (es @ [(fst (TxPrepareEntry (txID tx) wb))\<lparr>LSN := l1\<rparr>,
    (TxCommitEntry (txID tx) (tsGen tm + 1))\<lparr>LSN := l2\<rparr>])"
proof -
  obtain tm4 tx4 where body: "commit_body tm tx = (Ok (), tm4, tx4)" and fin: "finish (Ok (), tm4, tx4) = (Ok (), tm', tx')"
    using assms(3,6)
    by (cases "commit_body tm tx") (auto simp: txCommit_def finish_def split: prod.splits)
  have st': "walState tm' = walState tm4"
  proof -
    have "walState (fold unlockKey hs t) = walState t" for hs and t :: "('a, 'l, 'c) tx_manager"
      by (induction hs arbitrary: t) (simp_all add: unlockKey_def set_lock_def)
    with fin show ?thesis
      by (auto simp: finish_def releaseHeldLocks_def split: option.splits)
  qed
  let ?p = "fst (TxPrepareEntry (txID tx) wb)" and ?wb = "snd (TxPrepareEntry (txID tx) wb)"
  obtain tm1 tx1 where log1: "log_durably ?p tm = (Ok (), tm1)" and ap: "commit_apply ?wb tm1 tx1 = (Ok (), tm4, tx4)"
    and tid: "txID tx1 = txID tx"
    using body assms(1,4)
    by (auto simp: commit_body_def Let_def failed_def split: prod.splits outcome.splits)
  obtain l1 where L1: "invar (walState tm1) (es @ [?p\<lparr>LSN := l1\<rparr>]) (Suc n)" "wal tm1 = Some ww" "tsGen tm1 = tsGen tm"
    using log_durably_ok [OF assms(1,2,5) log1] by blast
  obtain undo tm2 tm3 where app: "applyWriteBuffer (tsGen tm + 1) ?wb (tm1\<lparr>tsGen := tsGen tm + 1\<rparr>)
        (tx1\<lparr>writeBuffer := Some (?wb\<lparr>wbOrdered := sort (wbOrdered ?wb)\<rparr>)\<rparr>) = (Ok undo, tm2)"
    and log2: "log_durably (TxCommitEntry (txID tx) (tsGen tm + 1)) tm2 = (Ok (), tm3)"
    and st4: "walState tm4 = walState tm3"
    using ap L1(3) tid
    by (auto simp: commit_apply_def Let_def NextTS_def failed_def cleanup_def
        split: prod.splits outcome.splits if_splits)
  note W = applyWriteBuffer_wal [OF app]
  have "wal tm2 = Some ww" "invar (walState tm2) (es @ [?p\<lparr>LSN := l1\<rparr>]) (Suc n)"
    using W L1 by simp_all
  from log_durably_ok [OF this entry_fits_TxCommit log2] st' st4 show ?thesis by auto
qed

end


end
