(* ===== verification/Tx_Examples.thy ===== *)
theory Tx_Examples
  imports Tx_System Tx_Reads WAL_Durability
begin

text \<open>
  A concrete run of the engine over \<open>mockStorage\<close>, on which the theorems about transactions are
  applied: the key \<open>[1]\<close> has the value \<open>[7]\<close> since timestamp 3 and had \<open>[6]\<close> since 1; a
  transaction with snapshot 5 overwrites it with \<open>[9]\<close> and commits at 6.
\<close>

lemmas tx_eval = NewTxManager_def NewTxManagerWithLOB_def beginTx_def NextTS_def Let_def Register_def
  NewActiveTxRegistry_def txPut_def checkActive_def acquireKeyLock_def lockKey_eq lock_held_def
  set_lock_def mockStorage_def wbPut_def wbGet_def NewWriteBuffer_def wbSetEntry_def

definition ex_raw :: bytes where
  "ex_raw = [0, 0, 0, 0, 0, 0, 0, 0, 0, 1, 0, 1, 6, 0, 0, 0, 0, 0, 0, 0, 3, 7]"

definition ex_tm :: "(mock_storage, unit, unit) tx_manager" where
  "ex_tm = NewTxManager mockStorage [([1], ex_raw)] 4 () ()"

definition ex_tx :: snapshot_tx where
  "ex_tx = \<lparr>snapshotTS = 5, txID = 1, isolationLevel = SnapshotIsolation,
     writeBuffer = Some NewWriteBuffer, completed = False, heldLocks = Some []\<rparr>"

definition ex_reader :: "u64 \<Rightarrow> snapshot_tx" where
  "ex_reader ts = ex_tx\<lparr>snapshotTS := ts, txID := 2\<rparr>"

definition ex_wb :: write_buffer where
  "ex_wb = \<lparr>wbEntries = [([1], \<lparr>weOp = OpUpdate, weValue = Some [9], OldValue = Some [7], OldFlag = 0,
     OldBeginTS = 3, OldPrevFlag = 0, OldPrevVal = Some [6]\<rparr>)], wbOrdered = [[1]]\<rparr>"

definition ex_tm1 :: "(mock_storage, unit, unit) tx_manager" where
  "ex_tm1 = snd (beginTx SnapshotIsolation ex_tm)"

definition ex_tm2 :: "(mock_storage, unit, unit) tx_manager" where
  "ex_tm2 = ex_tm1\<lparr>keyLocks := [([1], True)]\<rparr>"

definition ex_tx2 :: snapshot_tx where
  "ex_tx2 = ex_tx\<lparr>heldLocks := Some [[1]], writeBuffer := Some ex_wb\<rparr>"

definition ex_version :: mvcc_value where
  "ex_version = built_value FlagNormal 3 [7] FlagNormal 1 [6]"

lemma Parse_ex_raw: "ParseMVCC ex_raw = Ok ex_version"
proof -
  have "BuildMVCC FlagNormal 3 [7] FlagNormal 1 [6] = Ok ex_raw"
    by (simp add: BuildMVCC_def ex_raw_def FlagNormal_def PutUint64_def PutUint16_def put_numeral
        isValidFlag_def)
  then show ?thesis
    unfolding ex_version_def by (rule ParseMVCC_BuildMVCC [rotated -1]) simp_all
qed

lemma ex_begin: "beginTx SnapshotIsolation ex_tm = (Ok ex_tx, ex_tm1)"
  by (simp add: ex_tm1_def ex_tm_def ex_tx_def tx_eval)

lemma ex_put: "txPut [1] (Some [9]) ex_tm1 ex_tx = (Ok (), ex_tm2, ex_tx2)"
  by (simp add: ex_tm1_def ex_tm2_def ex_tm_def ex_tx_def ex_tx2_def ex_wb_def tx_eval readOld_def
      mockGetRaw_def Parse_ex_raw old_of_def ex_version_def built_value_def FlagNormal_def)

lemma engine_ok_store:
  assumes "storage tm = mockStorage" "plain tm" "store tm = [([1], ex_raw)]" "3 \<le> tsGen tm"
  shows "engine_ok (\<lambda>_. True) map_of tm"
  using assms mock.kv_backend_axioms
  by (auto simp: engine_ok_def wf_raws_def sized_def version_of_def Parse_ex_raw ex_version_def
      built_value_def wf_version_def inline_flag_def split: if_splits)

lemma ex_engine: "engine_ok (\<lambda>_. True) map_of ex_tm" "engine_ok (\<lambda>_. True) map_of ex_tm2"
  by (rule engine_ok_store; simp add: ex_tm_def ex_tm2_def ex_tm1_def tx_eval plain_def)+

lemma ex_captured: "captured (map_of (store ex_tm2)) ex_wb"
  by (auto simp: captured_def wb_inv_def ex_wb_def entry_inv_def wbGet_def captures_def version_of_def
      ex_tm2_def ex_tm1_def ex_tm_def tx_eval Parse_ex_raw ex_version_def built_value_def FlagNormal_def
      split: if_splits)

lemma ex_commit: "\<exists>tm3 tx3. txCommit ex_tm2 ex_tx2 = (Ok (), tm3, tx3) \<and> tsGen tm3 = 6"
proof -
  have "plain ex_tm2" "inline_buffer ex_wb"
    using engine_okD(3-5) [OF ex_engine(2)] captured_inline [OF ex_captured] by blast+
  moreover have "wal ex_tm2 = None" "tsGen ex_tm2 = 5" "storage ex_tm2 = mockStorage"
    "writeBuffer ex_tx2 = Some ex_wb" "\<not> completed ex_tx2" "heldLocks ex_tx2 = Some [[1]]"
    by (simp_all add: ex_tm2_def ex_tm1_def ex_tm_def ex_tx2_def ex_tx_def tx_eval)
  ultimately show ?thesis
    by (simp add: txCommit_def commit_body_def commit_apply_def applyWriteBuffer_plain plain_def Let_def NextTS_def
        mockStorage_def mockSetBatch_def log_durably_def cleanup_def finish_def releaseHeldLocks_def unlockKey_eq)
qed

section \<open>The theorems on this run\<close>

theorem put_then_get_witness:
  "txPut [1] (Some [9]) ex_tm1 ex_tx = (Ok (), ex_tm2, ex_tx2) \<and> txGet [1] ex_tm2 ex_tx2 = Ok (Some [9])"
  using put_then_get [OF ex_put] ex_put by simp

lemma ex_buffer: "\<not> completed ex_tx2" "writeBuffer ex_tx2 = Some ex_wb"
  by (simp_all add: ex_tx2_def ex_tx_def)

lemma ex_stored: "version_of (map_of (store ex_tm2) [1]) = Some ex_version"
  by (simp add: ex_tm2_def ex_tm1_def ex_tm_def tx_eval version_of_def Parse_ex_raw)



theorem second_overwrite_loses_snapshot_witness:
  "snapshotGet [1] ex_tm2 (ex_reader 2) = Ok (Some [6]) \<and>
   (\<exists>tm3 tx3. txCommit ex_tm2 ex_tx2 = (Ok (), tm3, tx3) \<and>
     snapshotGet [1] tm3 (ex_reader 2) = Err ErrKeyNotFound)"
proof -
  obtain tm3 tx3 where c: "txCommit ex_tm2 ex_tx2 = (Ok (), tm3, tx3)"
    using ex_commit by blast
  obtain e where "wbGet [1] ex_wb = Some e"
    by (auto simp: ex_wb_def wbGet_def)
  moreover have "snapshotTS (ex_reader 2) < BeginTS ex_version"
    by (simp add: ex_reader_def ex_version_def built_value_def)
  ultimately have "snapshotGet [1] tm3 (ex_reader 2) = Err ErrKeyNotFound"
    by (rule second_overwrite_loses_snapshot [OF ex_engine(2) ex_buffer ex_captured c _ ex_stored])
  moreover have "snapshotGet [1] ex_tm2 (ex_reader 2) = Ok (Some [6])"
    using commit_effect(5) [OF ex_engine(2) ex_buffer ex_captured c]
    by (simp add: read_at_def ex_stored ex_version_def built_value_def read_version_def ex_reader_def)
  ultimately show ?thesis
    using c by blast
qed


theorem rollback_discards_witness:
  "\<exists>tm3 tx3. txRollback ex_tm2 ex_tx2 = (Ok (), tm3, tx3) \<and> store tm3 = store ex_tm2 \<and>
     \<not> lock_held [1] tm3 \<and> checkActive tx3 = Err ErrTxRolledBack"
proof -
  obtain r tm3 tx3 where rb: "txRollback ex_tm2 ex_tx2 = (r, tm3, tx3)"
    by (cases "txRollback ex_tm2 ex_tx2")
  moreover have "heldLocks ex_tx2 = Some [[1]]"
    by (simp add: ex_tx2_def)
  ultimately show ?thesis
    using rollback_discards [OF ex_buffer(1), of "[[1]]" ex_tm2 r tm3 tx3] by auto
qed

lemma ex_reach: "reach ex_tm (ex_tm2, [1 \<mapsto> ex_tx2])"
proof -
  have "reach ex_tm (ex_tm, Map.empty)" by (rule reach_init)
  moreover have "step (ex_tm, Map.empty) (ex_tm1, [1 \<mapsto> ex_tx])"
    using step_begin [OF ex_begin] by (simp add: ex_tx_def)
  moreover have "step (ex_tm1, [1 \<mapsto> ex_tx]) (ex_tm2, [1 \<mapsto> ex_tx2])"
    using step_put [OF _ _ ex_put, of "[1 \<mapsto> ex_tx]" 1] by simp
  ultimately show ?thesis
    by (blast intro: reach_step)
qed

lemma ex_no_locks: "no_locks ex_tm"
  by (simp add: no_locks_def ex_tm_def tx_eval)


theorem buffers_stay_current_witness:
  "engine_ok (\<lambda>_. True) map_of ex_tm2 \<and> buffer_ok map_of ex_tm2 ex_tx2"
  using ex_buffer(1) by (intro buffers_stay_current [OF ex_reach ex_engine(1) ex_no_locks, of 1]) simp_all

theorem get_batch_is_gets_witness:
  "txGetBatch [[1], [2]] ex_tm2 ex_tx2 = Ok [Some [9], None]"
proof -
  have g: "txGet [1] ex_tm2 ex_tx2 = Ok (Some [9])" "txGet [2] ex_tm2 ex_tx2 = Err ErrKeyNotFound"
    by (simp_all add: txGet_def snapshotGet_def ex_tx2_def ex_tx_def ex_wb_def ex_tm2_def ex_tm1_def
        ex_tm_def tx_eval mockGetRaw_def)
  have "txGetBatch [[1], [2]] ex_tm2 ex_tx2 =
    (if [] \<in> set [[1], [2 :: byte]] then Err ErrMVCCGetError else Ok (map (\<lambda>k. got (txGet k ex_tm2 ex_tx2)) [[1], [2]]))"
    using engine_okD(1,2) [OF ex_engine(2)] ex_buffer g by (intro get_batch_is_gets) auto
  with g show ?thesis by (simp add: got_def)
qed

theorem overwritten_large_value_unreadable_witness:
  "\<exists>raw. BuildMVCC FlagNormal 9 [1] FlagLOBNormal 4 (PutUint16 8 @ PutUint32 3 @ PutUint32 5000) = Ok raw \<and>
     visible_value 6 None None () raw = Err ErrValueTooShort"
proof -
  obtain raw where raw: "BuildMVCC FlagNormal 9 [1] FlagLOBNormal 4 (PutUint16 8 @ PutUint32 3 @ PutUint32 5000) = Ok raw"
    by (rule BuildMVCC_total [OF isValidFlag_flags(1), of 9]) auto
  from overwritten_large_value_unreadable [OF raw, of 6 3 5000 0 0 None None "()"] raw show ?thesis
    by simp
qed

section \<open>A commit with a log\<close>

definition healthy :: "nat \<Rightarrow> disk_wal \<Rightarrow> bool" where
  "healthy n w \<longleftrightarrow> ioFaults w = [] \<and> fileOpen w \<and> \<not> walClosed w \<and>
     writtenBytes w + int n < cfgSegmentSize (walConfig w)"

lemma log_step:
  assumes "wal tm = Some diskWriter" "healthy (length (MarshalWALEntry e) + n) (walState tm)"
  shows "\<exists>l. log_durably e tm = (Ok (), tm\<lparr>walState := l\<rparr>) \<and> healthy n l"
proof -
  obtain w' where ap: "AppendBatch [e] (walState tm) = (Ok [currentLSN (walState tm) + 1], w')" and h: "healthy n w'"
    using append_one [of "walState tm" e] assms(2) by (auto simp: healthy_def)
  obtain w'' where sy: "walSync w' = (Ok (), w'')" and h': "healthy n w''"
    using h by (auto simp: healthy_def walSync_def syncLocked_def file_sync_def next_io_def)
  have "log_durably e tm = (Ok (), tm\<lparr>walState := w''\<rparr>)"
    using ap sy assms(1) by (simp add: log_durably_def diskWriter_def walAppend_def)
  with h' show ?thesis by blast
qed

definition ex_logged :: "disk_wal \<Rightarrow> (mock_storage, disk_wal, unit) tx_manager" where
  "ex_logged w = SetWAL (Some diskWriter) w (NewTxManager mockStorage [] 4 w ())"


end
