(* ===== verification/WAL_Recovery.thy ===== *)
theory WAL_Recovery
  imports Tx_Correctness WAL_Durability
begin

text \<open>
  Crash recovery from the log: \<open>RecoverFromWAL\<close> (\<open>wal/recovery.go\<close>), \<open>RecoveryManager\<close>
  (\<open>wal/recovery_manager.go\<close>) and the read they rest on, \<open>GetWithMeta\<close>
  (\<open>btree/get_with_meta.go\<close>).

  The groups are a Go map, and \<open>range\<close> visits a map in an unspecified order. The model keeps
  them in an association list and takes the order of each \<open>range\<close> as an argument (a list of
  transaction ids); the theorems hold for every order. \<open>cancelled i\<close> says whether the context is
  done at the \<open>i\<close>-th poll. Errors of \<open>BuildMVCC\<close> and \<open>Set\<close> are ignored as in the code: a failed
  build stores a nil slice. \<open>sort.Slice\<close> is a sort by LSN; entries of equal LSN, which a single
  log does not have, keep their order here.
\<close>

section \<open>The accessor\<close>

record 's btree_accessor =
  baGetWithMeta :: "bytes \<Rightarrow> 's \<Rightarrow> (gslice \<times> u64) outcome"
  baSet :: "bytes \<Rightarrow> bytes \<Rightarrow> 's \<Rightarrow> unit outcome \<times> 's"

text \<open>The offsets are computed in \<open>uint16\<close>, the type of \<open>prevValLen\<close>. \<open>getRawBytes\<close> returns a copy
  whose capacity is its length.\<close>

definition GetWithMeta :: "(bytes \<Rightarrow> 's \<Rightarrow> gslice outcome) \<Rightarrow> bytes \<Rightarrow> 's \<Rightarrow> (gslice \<times> u64) outcome" where
  "GetWithMeta getRawBytes key s =
     bind_outcome (getRawBytes key s) (\<lambda>raw.
       if length (slice_bytes raw) < MVCCHeaderSize + 8 then Err ErrBTreeValidation
       else
         let prevValLen = Uint16 (field 10 2 (slice_bytes raw))
         in bind_outcome
              (of_panic (slice_expr (unat (12 + prevValLen)) (unat (12 + prevValLen + 8)) (slice_bytes raw)))
              (\<lambda>ts. Ok (raw, Uint64 ts)))"

definition btreeAccessor :: "'s storage_backend \<Rightarrow> 's btree_accessor" where
  "btreeAccessor be = \<lparr>baGetWithMeta = GetWithMeta (beGetRaw be), baSet = beSet be\<rparr>"

section \<open>Replaying one entry\<close>

definition extractOldValueWithTS :: "gslice \<Rightarrow> (gslice \<times> byte \<times> u64) outcome" where
  "extractOldValueWithTS raw = (case raw of
     None \<Rightarrow> Ok (None, FlagTombstone, 0)
   | Some b \<Rightarrow> (case ParseMVCC b of
       Ok mv \<Rightarrow> Ok (Some (RealVal mv), Flag mv, BeginTS mv)
     | Err e \<Rightarrow> Ok (None, FlagTombstone, 0)
     | Panic \<Rightarrow> Panic))"

text \<open>\<open>encoded, _ := BuildMVCC(...); _ = bt.Set(ctx, key, encoded)\<close>\<close>

definition set_built :: "'s btree_accessor \<Rightarrow> bytes \<Rightarrow> bytes outcome \<Rightarrow> 's \<Rightarrow> unit outcome \<times> 's" where
  "set_built acc key built s = (case built of
     Panic \<Rightarrow> (Panic, s)
   | _ \<Rightarrow> (case baSet acc key (case built of Ok b \<Rightarrow> b | _ \<Rightarrow> []) s of
       (Panic, s') \<Rightarrow> (Panic, s')
     | (_, s') \<Rightarrow> (Ok (), s')))"

definition replaySingleKey ::
  "'s btree_accessor \<Rightarrow> wal_entry \<Rightarrow> u64 \<Rightarrow> gslice \<Rightarrow> 's \<Rightarrow> unit outcome \<times> 's" where
  "replaySingleKey acc e commitTS oldRaw s = (case extractOldValueWithTS oldRaw of
     Panic \<Rightarrow> (Panic, s)
   | Err er \<Rightarrow> (Err er, s)
   | Ok (oldVal, oldFlag, oldBeginTS) \<Rightarrow>
       if Type e = WALTypeInsert then
         set_built acc (Key e) (BuildMVCC FlagNormal commitTS (Value e) 0 0 []) s
       else if Type e = WALTypeUpdate then
         set_built acc (Key e)
           (BuildMVCC FlagNormal commitTS (Value e) oldFlag oldBeginTS (slice_bytes oldVal)) s
       else if Type e = WALTypeDelete then
         set_built acc (Key e)
           (BuildMVCC FlagTombstone commitTS [] oldFlag oldBeginTS (slice_bytes oldVal)) s
       else (Ok (), s))"

text \<open>The body of the inner loop, with the count of replayed entries.\<close>

definition replay_entry ::
  "'s btree_accessor \<Rightarrow> u64 \<Rightarrow> u64 \<Rightarrow> wal_entry \<Rightarrow> nat \<Rightarrow> 's \<Rightarrow> nat outcome \<times> 's" where
  "replay_entry acc replayStart commitTS e n s =
     (let replay = (\<lambda>raw. case replaySingleKey acc e commitTS raw s of
            (Ok _, s') \<Rightarrow> (Ok (n + 1), s')
          | (Err er, s') \<Rightarrow> (Err er, s')
          | (Panic, s') \<Rightarrow> (Panic, s'))
      in if replayStart \<noteq> LSNInvalid \<and> LSN e < replayStart then (Ok n, s)
         else case baGetWithMeta acc (Key e) s of
           Panic \<Rightarrow> (Panic, s)
         | Err er \<Rightarrow> replay None
         | Ok (raw, beginTS) \<Rightarrow>
             if beginTS > commitTS then (Ok n, s)
             else if beginTS = commitTS then (Ok n, s)
             else replay raw)"

fun replay_entries ::
  "'s btree_accessor \<Rightarrow> u64 \<Rightarrow> u64 \<Rightarrow> wal_entry list \<Rightarrow> nat \<Rightarrow> 's \<Rightarrow> nat outcome \<times> 's" where
  "replay_entries acc start ts [] n s = (Ok n, s)"
| "replay_entries acc start ts (e # es) n s = (case replay_entry acc start ts e n s of
     (Ok n', s') \<Rightarrow> replay_entries acc start ts es n' s'
   | (r, s') \<Rightarrow> (r, s'))"

section \<open>Grouping the log\<close>

record tx_group =
  gEntries :: "wal_entry list"
  gCommitTS :: u64
  gHasCommit :: bool
  gPrepare :: "wal_entry option"

definition empty_group :: tx_group where
  "empty_group = \<lparr>gEntries = [], gCommitTS = 0, gHasCommit = False, gPrepare = None\<rparr>"

definition checkpoint_start :: "wal_entry list \<Rightarrow> u64" where
  "checkpoint_start es =
     foldl (\<lambda>start e. if Type e = WALTypeCheckpoint \<and> 12 \<le> length (Key e)
                      then max start (Uint64 (field 0 8 (Key e))) else start) LSNInvalid es"

text \<open>The commit timestamp that a marker carries, if its key is long enough.\<close>

definition marker_ts :: "wal_entry \<Rightarrow> u64 option" where
  "marker_ts e =
     (let off = (if Type e = WALTypeTxCommit \<and> 16 \<le> length (Key e) then 8 else 0)
      in if off + 8 \<le> length (Key e) then Some (Uint64 (field off 8 (Key e))) else None)"

definition group_entry :: "wal_entry \<Rightarrow> tx_group \<Rightarrow> tx_group" where
  "group_entry e g =
     (if Type e = WALTypeCommit \<or> Type e = WALTypeTxCommit then
        g\<lparr>gHasCommit := True,
          gCommitTS := (case marker_ts e of None \<Rightarrow> gCommitTS g | Some ts \<Rightarrow> ts)\<rparr>
      else if Type e = WALTypeRollback \<or> Type e = WALTypeTxRollback then g\<lparr>gHasCommit := False\<rparr>
      else if Type e = WALTypeTxPrepare then g\<lparr>gPrepare := Some e\<rparr>
      else if Type e = WALTypeTxBegin then g
      else g\<lparr>gEntries := gEntries g @ [e]\<rparr>)"

definition group_of :: "u64 \<Rightarrow> (u64 \<times> 'g) list \<Rightarrow> 'g \<Rightarrow> 'g" where
  "group_of t gs z = (case map_of gs t of None \<Rightarrow> z | Some g \<Rightarrow> g)"

definition group_log :: "wal_entry list \<Rightarrow> (u64 \<times> tx_group) list" where
  "group_log es =
     foldl (\<lambda>gs e. AList.update (TxID e) (group_entry e (group_of (TxID e) gs empty_group)) gs) [] es"

text \<open>\<open>for txID, g := range groups\<close> in the order given.\<close>

definition visit :: "u64 list \<Rightarrow> (u64 \<times> 'g) list \<Rightarrow> (u64 \<times> 'g) list" where
  "visit order gs = List.map_filter (\<lambda>t. map_option (Pair t) (map_of gs t)) order"

section \<open>RecoverFromWAL\<close>

fun replay_groups ::
  "'s btree_accessor \<Rightarrow> u64 \<Rightarrow> (nat \<Rightarrow> bool) \<Rightarrow> nat \<Rightarrow> (u64 \<times> tx_group) list
    \<Rightarrow> (u64 \<times> u64) list \<Rightarrow> nat \<Rightarrow> 's \<Rightarrow> (u64 \<times> u64) list \<times> nat \<times> unit outcome \<times> 's" where
  "replay_groups acc start cancelled i [] commits n s = (commits, n, Ok (), s)"
| "replay_groups acc start cancelled i ((tid, g) # gs) commits n s =
     (if cancelled i then (commits, n, Err ErrContextDone, s)
      else if \<not> gHasCommit g then replay_groups acc start cancelled (Suc i) gs commits n s
      else let commits' = commits @ [(tid, gCommitTS g)]
      in case replay_entries acc start (gCommitTS g) (gEntries g) n s of
           (Ok n', s') \<Rightarrow> replay_groups acc start cancelled (Suc i) gs commits' n' s'
         | (Err e, s') \<Rightarrow> (commits', n, Err e, s')
         | (Panic, s') \<Rightarrow> (commits', n, Panic, s'))"

definition undo_parsed ::
  "'s btree_accessor \<Rightarrow> u64 \<Rightarrow> prepare_parsed \<Rightarrow> 's \<Rightarrow> unit outcome \<times> 's" where
  "undo_parsed acc commitTS pe s =
     (if ppOldValue pe = None \<and> ppOldFlag pe = FlagTombstone
      then set_built acc (ppKey pe) (BuildMVCC FlagTombstone commitTS [] 0 0 []) s
      else if ppOldValue pe \<noteq> None then set_built acc (ppKey pe) (Ok (slice_bytes (ppOldValue pe))) s
      else (Ok (), s))"

fun undo_all ::
  "'s btree_accessor \<Rightarrow> u64 \<Rightarrow> prepare_parsed list \<Rightarrow> 's \<Rightarrow> unit outcome \<times> 's" where
  "undo_all acc ts [] s = (Ok (), s)"
| "undo_all acc ts (pe # pes) s = (case undo_parsed acc ts pe s of
     (Ok _, s') \<Rightarrow> undo_all acc ts pes s'
   | (r, s') \<Rightarrow> (r, s'))"

fun rollback_prepared :: "'s btree_accessor \<Rightarrow> (u64 \<times> tx_group) list \<Rightarrow> 's \<Rightarrow> unit outcome \<times> 's" where
  "rollback_prepared acc [] s = (Ok (), s)"
| "rollback_prepared acc ((tid, g) # gs) s =
     (if gPrepare g = None \<or> gHasCommit g then rollback_prepared acc gs s
      else case ParseTxPrepareEntry (the (gPrepare g)) of
        Panic \<Rightarrow> (Panic, s)
      | Err e \<Rightarrow> rollback_prepared acc gs s
      | Ok (_, parsed) \<Rightarrow> (case undo_all acc (gCommitTS g) parsed s of
          (Ok _, s') \<Rightarrow> rollback_prepared acc gs s'
        | (r, s') \<Rightarrow> (r, s')))"

text \<open>Steps 2 to 4 on the entries that the log returned.\<close>

definition replay_log ::
  "'s btree_accessor \<Rightarrow> (nat \<Rightarrow> bool) \<Rightarrow> u64 list \<Rightarrow> u64 list \<Rightarrow> wal_entry list \<Rightarrow> 's
    \<Rightarrow> (u64 \<times> u64) list \<times> nat \<times> unit outcome \<times> 's" where
  "replay_log acc cancelled order1 order2 entries s =
     (let es = sort_key LSN entries;
          groups = group_log es
      in case replay_groups acc (checkpoint_start es) cancelled 0 (visit order1 groups) [] 0 s of
           (commits, n, Ok _, s1) \<Rightarrow>
             (case rollback_prepared acc (visit order2 groups) s1 of (r, s2) \<Rightarrow> (commits, n, r, s2))
         | (commits, n, r, s1) \<Rightarrow> (commits, n, r, s1))"

definition RecoverFromWAL ::
  "'s btree_accessor \<Rightarrow> (nat \<Rightarrow> bool) \<Rightarrow> u64 list \<Rightarrow> u64 list \<Rightarrow> disk_wal \<Rightarrow> 's
    \<Rightarrow> (u64 \<times> u64) list \<times> nat \<times> unit outcome \<times> 's \<times> disk_wal" where
  "RecoverFromWAL acc cancelled order1 order2 dw s = (case walRecover dw of
     (Ok entries, dw') \<Rightarrow> (case replay_log acc cancelled order1 order2 entries s of
         (commits, n, r, s') \<Rightarrow> (commits, n, r, s', dw'))
   | (Err e, dw') \<Rightarrow> ([], 0, Err e, s, dw')
   | (Panic, dw') \<Rightarrow> ([], 0, Panic, s, dw'))"

section \<open>RecoveryManager\<close>

text \<open>Its grouping knows only the old markers. The page locations that \<open>Recover\<close> collects from the
  checkpoint are discarded (\<open>_ = pageLocs\<close>) and are not built here.\<close>

definition rm_group_entry :: "wal_entry \<Rightarrow> tx_group \<Rightarrow> tx_group" where
  "rm_group_entry e g =
     (if Type e = WALTypeCommit then
        g\<lparr>gHasCommit := True,
          gCommitTS := (if length (Key e) = 8 then Uint64 (Key e) else gCommitTS g)\<rparr>
      else if Type e = WALTypeRollback then g\<lparr>gHasCommit := False\<rparr>
      else g\<lparr>gEntries := gEntries g @ [e]\<rparr>)"

definition rm_group_log :: "wal_entry list \<Rightarrow> (u64 \<times> tx_group) list" where
  "rm_group_log es =
     foldl (\<lambda>gs e. AList.update (TxID e) (rm_group_entry e (group_of (TxID e) gs empty_group)) gs) [] es"

definition replayWAL ::
  "'s btree_accessor \<Rightarrow> (nat \<Rightarrow> bool) \<Rightarrow> u64 list \<Rightarrow> wal_entry list \<Rightarrow> u64 \<Rightarrow> 's
    \<Rightarrow> (u64 \<times> u64) list \<times> nat \<times> unit outcome \<times> 's" where
  "replayWAL acc cancelled order entries replayStart s =
     replay_groups acc replayStart cancelled 0 (visit order (rm_group_log entries)) [] 0 s"

definition rmRecover ::
  "'s btree_accessor \<Rightarrow> (nat \<Rightarrow> bool) \<Rightarrow> u64 list \<Rightarrow> disk_wal \<Rightarrow> 's
    \<Rightarrow> ((u64 \<times> u64) list \<times> nat) outcome \<times> 's \<times> disk_wal" where
  "rmRecover acc cancelled order dw s = (case walRecover dw of
     (Ok entries, dw') \<Rightarrow>
       let es = sort_key LSN entries
       in (case replayWAL acc cancelled order es (checkpoint_start es) s of
             (commits, n, Ok _, s') \<Rightarrow> (Ok (commits, n), s', dw')
           | (commits, n, Err e, s') \<Rightarrow> (Err e, s', dw')
           | (commits, n, Panic, s') \<Rightarrow> (Panic, s', dw'))
   | (Err e, dw') \<Rightarrow> (Err e, s, dw')
   | (Panic, dw') \<Rightarrow> (Panic, s, dw'))"

section \<open>Stored records\<close>

text \<open>A record that the engine wrote: an encoded version that fits the format and still fits as the
  previous version of the next write.\<close>

definition good :: "bytes \<Rightarrow> bool" where
  "good raw \<longleftrightarrow> (\<exists>flag ts rv pf pts pv. BuildMVCC flag ts rv pf pts pv = Ok raw \<and>
     length pv \<le> 65515 \<and> length rv \<le> 65515 \<and> (pts = 0 \<longrightarrow> pv = []))"

definition stored :: "(bytes \<Rightarrow> gslice) \<Rightarrow> bool" where
  "stored m \<longleftrightarrow> (\<forall>k raw. m k = Some raw \<longrightarrow> good raw)"

text \<open>The timestamp of the current version, 0 for a missing key.\<close>

definition cur_ts :: "gslice \<Rightarrow> u64" where
  "cur_ts raw = (case version_of raw of None \<Rightarrow> 0 | Some mv \<Rightarrow> BeginTS mv)"

lemma good_BuildMVCC:
  assumes "BuildMVCC flag ts rv pf pts pv = Ok raw" "length pv \<le> 65515" "length rv \<le> 65515"
    "pts = 0 \<longrightarrow> pv = []"
  shows "good raw"
  using assms unfolding good_def by blast

lemma good_E:
  assumes "good raw"
  obtains flag ts rv pf pts pv where "ParseMVCC raw = Ok (built_value flag ts rv pf pts pv)" "ts \<noteq> 0"
    "length rv \<le> 65515" "length pv \<le> 65515"
    "raw = [flag, pf] @ PutUint64 pts @ PutUint16 (of_nat (length pv)) @ pv @ PutUint64 ts @ rv"
proof -
  from assms obtain flag ts rv pf pts pv where
    b: "BuildMVCC flag ts rv pf pts pv = Ok raw" "length pv \<le> 65515" "length rv \<le> 65515"
      "pts = 0 \<longrightarrow> pv = []"
    by (auto simp: good_def)
  then have v: "isValidFlag flag" "ts \<noteq> 0"
    and "raw = [flag, pf] @ PutUint64 pts @ PutUint16 (of_nat (length pv)) @ pv @ PutUint64 ts @ rv"
    by (simp_all add: BuildMVCC_Ok_iff)
  with b that ParseMVCC_BuildMVCC [OF v b(4,2,1)] show ?thesis by blast
qed

lemma good_parse:
  assumes "good raw"
  obtains mv where "ParseMVCC raw = Ok mv" "BeginTS mv \<noteq> 0" "length (RealVal mv) \<le> 65515"
    "cur_ts (Some raw) = BeginTS mv"
  using good_E [OF assms] that by (force simp: built_value_def cur_ts_def version_of_def)

lemma good_meta:
  assumes "good raw" "get k s = Ok (Some raw)"
  shows "GetWithMeta get k s = Ok (Some raw, cur_ts (Some raw))"
proof -
  from assms(1) obtain flag ts rv pf pts pv where
    b: "ParseMVCC raw = Ok (built_value flag ts rv pf pts pv)" "length pv \<le> 65515"
      "raw = [flag, pf] @ PutUint64 pts @ PutUint16 (of_nat (length pv)) @ pv @ PutUint64 ts @ rv"
    by (rule good_E)
  have "length pv < 65536" using b(2) by simp
  note shape = build_shape [OF this b(3)]
  have lo: "unat (12 + of_nat (length pv) :: u16) = 12 + length pv"
    using b(2) by (simp add: unat_u16_add)
  then have "unat (12 + of_nat (length pv) + 8 :: u16) = 20 + length pv"
    using b(2) by (simp add: unat_u16_add)
  with assms(2) b(1) shape lo show ?thesis
    by (simp add: GetWithMeta_def MVCCHeaderSize_def Let_def cur_ts_def version_of_def built_value_def)
qed

lemma cur_ts_None [simp]: "cur_ts None = 0"
  by (simp add: cur_ts_def version_of_def)

section \<open>What a write of the log leaves\<close>

definition is_write :: "wal_entry \<Rightarrow> bool" where
  "is_write e \<longleftrightarrow> Type e = WALTypeInsert \<or> Type e = WALTypeUpdate \<or> Type e = WALTypeDelete"

definition covered :: "u64 \<Rightarrow> wal_entry \<Rightarrow> bool" where
  "covered start e \<longleftrightarrow> start \<noteq> LSNInvalid \<and> LSN e < start"

text \<open>The record's current version is the write \<open>e\<close> at \<open>ts\<close>.\<close>

definition shows_write :: "gslice \<Rightarrow> u64 \<Rightarrow> wal_entry \<Rightarrow> bool" where
  "shows_write raw ts e = (case version_of raw of None \<Rightarrow> False
     | Some mv \<Rightarrow> BeginTS mv = ts \<and>
         (if Type e = WALTypeDelete then Flag mv = FlagTombstone \<and> RealVal mv = []
          else Flag mv = FlagNormal \<and> RealVal mv = Value e))"

lemma shows_write_ts: "shows_write raw ts e \<Longrightarrow> cur_ts raw = ts"
  by (auto simp: shows_write_def cur_ts_def split: option.splits)

text \<open>
  The effect of a recovery that may use the writes \<open>W\<close>: a key keeps its record, or its current
  version is one of the writes, newer than the version it had.
\<close>

definition evolves :: "(u64 \<times> wal_entry) set \<Rightarrow> (bytes \<Rightarrow> gslice) \<Rightarrow> (bytes \<Rightarrow> gslice) \<Rightarrow> bool" where
  "evolves W m m' \<longleftrightarrow> (\<forall>k. m' k = m k \<or>
     (\<exists>(ts, e) \<in> W. Key e = k \<and> cur_ts (m k) < ts \<and> shows_write (m' k) ts e))"

lemma evolves_refl [simp]: "evolves W m m"
  by (simp add: evolves_def)

lemma evolves_mono: "evolves W m m' \<Longrightarrow> W \<subseteq> W' \<Longrightarrow> evolves W' m m'"
  unfolding evolves_def by blast

lemma evolves_cur_ts:
  assumes "evolves W m m'"
  shows "cur_ts (m k) \<le> cur_ts (m' k)"
proof -
  have "m' k = m k \<or> (\<exists>(ts, e) \<in> W. Key e = k \<and> cur_ts (m k) < ts \<and> shows_write (m' k) ts e)"
    using assms by (simp add: evolves_def)
  then show ?thesis by (auto dest: shows_write_ts)
qed

lemma evolves_trans:
  assumes "evolves W m m'" "evolves W m' m''"
  shows "evolves W m m''"
  unfolding evolves_def
proof
  fix k
  show "m'' k = m k \<or> (\<exists>(ts, e) \<in> W. Key e = k \<and> cur_ts (m k) < ts \<and> shows_write (m'' k) ts e)"
  proof (cases "m'' k = m' k")
    case True
    then show ?thesis using assms(1) by (auto simp: evolves_def)
  next
    case False
    then obtain ts e where w: "(ts, e) \<in> W" "Key e = k" "cur_ts (m' k) < ts" "shows_write (m'' k) ts e"
      using assms(2) by (fastforce simp: evolves_def)
    have "cur_ts (m k) \<le> cur_ts (m' k)"
      using assms(1) by (rule evolves_cur_ts)
    with w show ?thesis by (auto intro!: bexI [of _ "(ts, e)"] elim: le_less_trans)
  qed
qed

lemma evolves_fixed:
  assumes "evolves W m m'" "\<And>ts e. (ts, e) \<in> W \<Longrightarrow> ts \<le> cur_ts (m (Key e))"
  shows "m' = m"
proof
  fix k
  have "m' k = m k \<or> (\<exists>(ts, e) \<in> W. Key e = k \<and> cur_ts (m k) < ts \<and> shows_write (m' k) ts e)"
    using assms(1) by (simp add: evolves_def)
  then show "m' k = m k" using assms(2) leD by blast
qed

definition writes_of :: "u64 \<Rightarrow> u64 \<Rightarrow> wal_entry list \<Rightarrow> (u64 \<times> wal_entry) set" where
  "writes_of start ts es = {(ts, e) | e. e \<in> set es \<and> is_write e \<and> \<not> covered start e}"

text \<open>Every write is there, or a newer one.\<close>

definition applied_all :: "(u64 \<times> wal_entry) set \<Rightarrow> (bytes \<Rightarrow> gslice) \<Rightarrow> bool" where
  "applied_all W m \<longleftrightarrow> (\<forall>(ts, e) \<in> W. ts \<le> cur_ts (m (Key e)))"

lemma applied_all_evolves:
  assumes "applied_all W m" "evolves W' m m'"
  shows "applied_all W m'"
  unfolding applied_all_def
proof clarify
  fix ts e
  assume "(ts, e) \<in> W"
  then have "ts \<le> cur_ts (m (Key e))" using assms(1) by (auto simp: applied_all_def)
  also have "\<dots> \<le> cur_ts (m' (Key e))" using assms(2) by (rule evolves_cur_ts)
  finally show "ts \<le> cur_ts (m' (Key e))" .
qed

lemma applied_all_Un [simp]: "applied_all (W \<union> W') m \<longleftrightarrow> applied_all W m \<and> applied_all W' m"
  by (auto simp: applied_all_def)

lemma applied_all_empty [simp]: "applied_all {} m"
  by (simp add: applied_all_def)

lemma writes_of_simps [simp]:
  "writes_of start ts [] = {}"
  "writes_of start ts (e # es) =
     (if is_write e \<and> \<not> covered start e then {(ts, e)} else {}) \<union> writes_of start ts es"
  by (auto simp: writes_of_def)

lemma stored_upd: "stored m \<Longrightarrow> good raw \<Longrightarrow> stored (m(k \<mapsto> raw))"
  by (simp add: stored_def)

lemma extract_stored:
  assumes "\<And>r. raw = Some r \<Longrightarrow> good r"
  shows "\<exists>ov fl ots. extractOldValueWithTS raw = Ok (ov, fl, ots) \<and> length (slice_bytes ov) \<le> 65515 \<and>
    (ots = 0 \<longrightarrow> slice_bytes ov = [])"
proof (cases raw)
  case None
  then show ?thesis by (simp add: extractOldValueWithTS_def)
next
  case (Some r)
  obtain mv where "ParseMVCC r = Ok mv" "BeginTS mv \<noteq> 0" "length (RealVal mv) \<le> 65515"
    by (rule good_parse [OF assms [OF Some]])
  then show ?thesis by (simp add: Some extractOldValueWithTS_def)
qed

text \<open>The storage of a recovery, and one that never refuses a write.\<close>

locale reliable_backend = kv_backend +
  assumes set_total: "invar s \<Longrightarrow> fst (beSet be k v s) = Ok ()"

interpretation mock_reliable: reliable_backend mockStorage "\<lambda>_. True" map_of
  by unfold_locales (simp add: mockStorage_def mockSet_def)

context kv_backend
begin

lemma meta_stored:
  assumes "invar s" "stored (lookup s)"
  shows "baGetWithMeta (btreeAccessor be) k s = (case lookup s k of
      None \<Rightarrow> Err ErrKeyNotFound | Some raw \<Rightarrow> Ok (Some raw, cur_ts (Some raw)))"
proof (cases "lookup s k")
  case None
  then show ?thesis using assms by (simp add: btreeAccessor_def GetWithMeta_def get_raw)
next
  case (Some raw)
  then have "good raw" using assms(2) by (simp add: stored_def)
  with Some assms(1) show ?thesis by (simp add: btreeAccessor_def get_raw good_meta)
qed

lemma set_built_ok:
  assumes "invar s"
  obtains s' where "set_built (btreeAccessor be) k (Ok b) s = (Ok (), s')" "invar s'"
    "lookup s' = (lookup s)(k \<mapsto> b) \<or> fst (beSet be k b s) \<noteq> Ok () \<and> lookup s' = lookup s"
proof (cases "beSet be k b s")
  case (Pair r s')
  show ?thesis
  proof (cases r)
    case (Ok u)
    then have "invar s' \<and> lookup s' = (lookup s)(k \<mapsto> b)" using set_ok assms Pair by blast
    with Ok Pair show ?thesis by (intro that [of s']) (simp_all add: set_built_def btreeAccessor_def)
  next
    case (Err er)
    then have "invar s' \<and> lookup s' = lookup s" using set_err assms Pair by blast
    with Err Pair show ?thesis by (intro that [of s']) (simp_all add: set_built_def btreeAccessor_def)
  next
    case Panic
    with Pair no_panic [OF assms] show ?thesis by (metis fst_conv)
  qed
qed

text \<open>The record that a write replays to.\<close>

lemma replay_record:
  assumes "raw = lookup s (Key e)" "stored (lookup s)" "is_write e" "ts \<noteq> 0" "length (Value e) \<le> 65515"
  obtains b where
    "replaySingleKey (btreeAccessor be) e ts raw s = set_built (btreeAccessor be) (Key e) (Ok b) s"
    "good b" "shows_write (Some b) ts e"
proof -
  have "\<exists>ov fl ots. extractOldValueWithTS raw = Ok (ov, fl, ots) \<and> length (slice_bytes ov) \<le> 65515 \<and>
      (ots = 0 \<longrightarrow> slice_bytes ov = [])"
    using assms(1,2) by (intro extract_stored) (auto simp: stored_def)
  then obtain ov fl ots where old: "extractOldValueWithTS raw = Ok (ov, fl, ots)"
    "length (slice_bytes ov) \<le> 65515" "ots = 0 \<longrightarrow> slice_bytes ov = []"
    by blast
  define flag where "flag = (if Type e = WALTypeDelete then FlagTombstone else FlagNormal)"
  define val where "val = (if Type e = WALTypeDelete then [] else Value e)"
  define prev where "prev = (if Type e = WALTypeInsert then (0, 0, []) else (fl, ots, slice_bytes ov))"
  obtain pf pts pv where p: "prev = (pf, pts, pv)" by (cases prev)
  have flag: "isValidFlag flag" by (simp add: flag_def)
  then obtain b where b: "BuildMVCC flag ts val pf pts pv = Ok b"
    using assms(4) BuildMVCC_total by blast
  have lens: "length pv \<le> 65515" "length val \<le> 65515" "pts = 0 \<longrightarrow> pv = []"
    using p old(2,3) assms(5) by (auto simp: prev_def val_def split: if_splits)
  have "ParseMVCC b = Ok (built_value flag ts val pf pts pv)"
    using flag assms(4) lens(3,1) b by (rule ParseMVCC_BuildMVCC)
  then have "shows_write (Some b) ts e"
    by (simp add: shows_write_def version_of_def built_value_def flag_def val_def)
  moreover have "replaySingleKey (btreeAccessor be) e ts raw s = set_built (btreeAccessor be) (Key e) (Ok b) s"
    using b p assms(3)
    by (auto simp: replaySingleKey_def old(1) is_write_def flag_def val_def prev_def wal_type_defs)
  ultimately show ?thesis
    using that good_BuildMVCC [OF b lens] by blast
qed

lemma replay_entry_step:
  assumes "invar s" "stored (lookup s)" "ts \<noteq> 0" "length (Value e) \<le> 65515"
  obtains n' s' where "replay_entry (btreeAccessor be) start ts e n s = (Ok n', s')" "invar s'"
    "stored (lookup s')" "evolves (writes_of start ts [e]) (lookup s) (lookup s')"
    "(\<forall>k v s. invar s \<longrightarrow> fst (beSet be k v s) = Ok ()) \<longrightarrow> applied_all (writes_of start ts [e]) (lookup s')"
proof -
  let ?acc = "btreeAccessor be" and ?old = "lookup s (Key e)"
  consider (skip) "covered start e" | (newer) "\<not> covered start e" "ts \<le> cur_ts ?old"
    | (no) "\<not> covered start e" "cur_ts ?old < ts" "\<not> is_write e"
    | (replay) "\<not> covered start e" "cur_ts ?old < ts" "is_write e"
    by force
  then show ?thesis
  proof cases
    case skip
    then show ?thesis
      using that [of n s] assms by (simp add: replay_entry_def Let_def covered_def)
  next
    case newer
    then obtain raw where raw: "?old = Some raw"
      using assms(3) by (cases ?old) (simp_all add: word_le_nat_alt unat_eq_0)
    then have "replay_entry ?acc start ts e n s = (Ok n, s)"
      using newer by (auto simp: replay_entry_def Let_def covered_def meta_stored [OF assms(1,2)])
    then show ?thesis
      using that [of n s] assms newer by (simp add: applied_all_def)
  next
    case no
    have "\<exists>x. extractOldValueWithTS ?old = Ok x"
      using assms(2) extract_stored [of ?old] by (auto simp: stored_def)
    then have "replaySingleKey ?acc e ts ?old s = (Ok (), s)"
      using no(3) by (auto simp: replaySingleKey_def is_write_def)
    then have "replay_entry ?acc start ts e n s = (Ok (n + 1), s)"
      using no by (cases ?old) (auto simp: replay_entry_def Let_def covered_def meta_stored [OF assms(1,2)])
    then show ?thesis
      using that [of "n + 1" s] assms no by simp
  next
    case replay
    obtain b where b: "replaySingleKey ?acc e ts ?old s = set_built ?acc (Key e) (Ok b) s"
      "good b" "shows_write (Some b) ts e"
      by (rule replay_record [OF refl assms(2) replay(3) assms(3,4)])
    obtain s' where s': "set_built ?acc (Key e) (Ok b) s = (Ok (), s')" "invar s'"
      "lookup s' = (lookup s)(Key e \<mapsto> b) \<or> fst (beSet be (Key e) b s) \<noteq> Ok () \<and> lookup s' = lookup s"
      by (rule set_built_ok [OF assms(1)])
    have "replay_entry ?acc start ts e n s = (Ok (n + 1), s')"
      using replay b(1) s'(1)
      by (cases ?old) (auto simp: replay_entry_def Let_def covered_def meta_stored [OF assms(1,2)])
    moreover have "stored (lookup s')"
      using s'(3) assms(2) b(2) by (auto intro: stored_upd)
    moreover have "evolves (writes_of start ts [e]) (lookup s) (lookup s')"
      using s'(3) replay b(3) by (auto simp: evolves_def split: if_splits)
    moreover have "(\<forall>k v s. invar s \<longrightarrow> fst (beSet be k v s) = Ok ()) \<longrightarrow>
        applied_all (writes_of start ts [e]) (lookup s')"
      using s'(3) assms(1) shows_write_ts [OF b(3)] by (auto simp: applied_all_def)
    ultimately show ?thesis using that [of "n + 1" s'] s'(2) by blast
  qed
qed

lemma replay_entries_step:
  assumes "invar s" "stored (lookup s)" "ts \<noteq> 0" "list_all (\<lambda>e. length (Value e) \<le> 65515) es"
  shows "\<exists>n' s'. replay_entries (btreeAccessor be) start ts es n s = (Ok n', s') \<and> invar s' \<and>
    stored (lookup s') \<and> evolves (writes_of start ts es) (lookup s) (lookup s') \<and>
    ((\<forall>k v s. invar s \<longrightarrow> fst (beSet be k v s) = Ok ()) \<longrightarrow> applied_all (writes_of start ts es) (lookup s'))"
  using assms(1,2,4)
proof (induction es arbitrary: n s)
  case Nil
  then show ?case by simp
next
  case (Cons e es)
  have v: "length (Value e) \<le> 65515" and l: "list_all (\<lambda>e. length (Value e) \<le> 65515) es"
    using Cons.prems(3) by simp_all
  obtain n1 s1 where s1: "replay_entry (btreeAccessor be) start ts e n s = (Ok n1, s1)" "invar s1"
    "stored (lookup s1)" "evolves (writes_of start ts [e]) (lookup s) (lookup s1)"
    "(\<forall>k v s. invar s \<longrightarrow> fst (beSet be k v s) = Ok ()) \<longrightarrow> applied_all (writes_of start ts [e]) (lookup s1)"
    by (rule replay_entry_step [OF Cons.prems(1,2) assms(3) v, where start = start and n = n])
  obtain n2 s2 where s2: "replay_entries (btreeAccessor be) start ts es n1 s1 = (Ok n2, s2)" "invar s2"
    "stored (lookup s2)" "evolves (writes_of start ts es) (lookup s1) (lookup s2)"
    "(\<forall>k v s. invar s \<longrightarrow> fst (beSet be k v s) = Ok ()) \<longrightarrow> applied_all (writes_of start ts es) (lookup s2)"
    using Cons.IH [OF s1(2,3) l, of n1] by blast
  have W: "writes_of start ts (e # es) = writes_of start ts [e] \<union> writes_of start ts es"
    by simp
  have "evolves (writes_of start ts (e # es)) (lookup s) (lookup s2)"
    unfolding W using s1(4) s2(4) by (meson evolves_mono evolves_trans sup_ge1 sup_ge2)
  moreover have "applied_all (writes_of start ts (e # es)) (lookup s2)"
    if "\<forall>k v s. invar s \<longrightarrow> fst (beSet be k v s) = Ok ()"
    unfolding W using that s1(5) s2(4,5) applied_all_evolves unfolding applied_all_Un by blast
  ultimately show ?case using s1(1) s2(1-3) by auto
qed

lemma replay_groups_step:
  assumes "invar s" "stored (lookup s)"
    "\<forall>(t, g) \<in> set gs. gHasCommit g \<longrightarrow> gCommitTS g \<noteq> 0 \<and> list_all (\<lambda>e. length (Value e) \<le> 65515) (gEntries g)"
    "replay_groups (btreeAccessor be) start cancelled i gs commits n s = (commits', n', r, s')"
  shows "invar s' \<and> stored (lookup s') \<and> (r = Ok () \<or> r = Err ErrContextDone \<and> (\<exists>j. cancelled j)) \<and>
    evolves (\<Union>(t, g) \<in> {x \<in> set gs. gHasCommit (snd x)}. writes_of start (gCommitTS g) (gEntries g))
      (lookup s) (lookup s') \<and>
    (r = Ok () \<longrightarrow> (\<forall>k v s. invar s \<longrightarrow> fst (beSet be k v s) = Ok ()) \<longrightarrow>
      applied_all (\<Union>(t, g) \<in> {x \<in> set gs. gHasCommit (snd x)}. writes_of start (gCommitTS g) (gEntries g))
        (lookup s'))"
    (is "_ \<and> _ \<and> _ \<and> evolves (?W gs) _ _ \<and> _")
  using assms
proof (induction gs arbitrary: i commits n s)
  case Nil
  then show ?case by simp
next
  case (Cons x gs)
  obtain t g where x: "x = (t, g)" by (cases x)
  show ?case
  proof (cases "cancelled i \<or> \<not> gHasCommit g")
    case True
    have W: "?W (x # gs) = ?W gs" if "\<not> gHasCommit g" using that by (auto simp: x)
    show ?thesis
    proof (cases "cancelled i")
      case True
      then show ?thesis using Cons.prems by (auto simp: x)
    next
      case False
      then have h: "\<not> gHasCommit g" using True by simp
      with False Cons.prems(3,4) have
        "replay_groups (btreeAccessor be) start cancelled (Suc i) gs commits n s = (commits', n', r, s')"
        "\<forall>(t, g) \<in> set gs. gHasCommit g \<longrightarrow> gCommitTS g \<noteq> 0 \<and> list_all (\<lambda>e. length (Value e) \<le> 65515) (gEntries g)"
        by (simp_all add: x)
      then show ?thesis unfolding W [OF h] using Cons.IH Cons.prems(1,2) by blast
    qed
  next
    case False
    then have h: "\<not> cancelled i" "gHasCommit g" "gCommitTS g \<noteq> 0"
      "list_all (\<lambda>e. length (Value e) \<le> 65515) (gEntries g)"
      and rest: "\<forall>(t, g) \<in> set gs. gHasCommit g \<longrightarrow> gCommitTS g \<noteq> 0 \<and> list_all (\<lambda>e. length (Value e) \<le> 65515) (gEntries g)"
      using Cons.prems(3) by (auto simp: x)
    let ?w = "writes_of start (gCommitTS g) (gEntries g)"
    have W: "?W (x # gs) = ?w \<union> ?W gs" using h by (auto simp: x)
    obtain n1 s1 where s1: "replay_entries (btreeAccessor be) start (gCommitTS g) (gEntries g) n s = (Ok n1, s1)"
      "invar s1" "stored (lookup s1)" "evolves ?w (lookup s) (lookup s1)"
      "(\<forall>k v s. invar s \<longrightarrow> fst (beSet be k v s) = Ok ()) \<longrightarrow> applied_all ?w (lookup s1)"
      using replay_entries_step [OF Cons.prems(1,2) h(3,4)] by blast
    have run: "replay_groups (btreeAccessor be) start cancelled (Suc i) gs (commits @ [(t, gCommitTS g)]) n1 s1 =
        (commits', n', r, s')"
      using Cons.prems(4) h(1,2) s1(1) by (simp add: x)
    note ih = Cons.IH [OF s1(2,3) rest run]
    have "evolves (?W (x # gs)) (lookup s) (lookup s')"
      unfolding W using s1(4) ih by (meson evolves_mono evolves_trans sup_ge1 sup_ge2)
    moreover have "applied_all (?W (x # gs)) (lookup s')"
      if "r = Ok ()" "\<forall>k v s. invar s \<longrightarrow> fst (beSet be k v s) = Ok ()"
      unfolding W applied_all_Un using that s1(5) ih applied_all_evolves by blast
    ultimately show ?thesis using ih by blast
  qed
qed

end

section \<open>Which transactions the log commits\<close>

definition is_commit :: "wal_entry \<Rightarrow> bool" where
  "is_commit e \<longleftrightarrow> Type e = WALTypeCommit \<or> Type e = WALTypeTxCommit"

definition is_rollback :: "wal_entry \<Rightarrow> bool" where
  "is_rollback e \<longleftrightarrow> Type e = WALTypeRollback \<or> Type e = WALTypeTxRollback"

text \<open>The last marker of the transaction in the log is a commit with this timestamp.\<close>

definition committed_at :: "wal_entry list \<Rightarrow> u64 \<Rightarrow> u64 \<Rightarrow> bool" where
  "committed_at es t ts \<longleftrightarrow> (\<exists>pre c post. es = pre @ c # post \<and> TxID c = t \<and> is_commit c \<and>
     marker_ts c = Some ts \<and> (\<forall>e \<in> set post. TxID e = t \<longrightarrow> \<not> is_commit e \<and> \<not> is_rollback e))"

text \<open>The writes of committed transactions that the checkpoint does not cover.\<close>

definition committed_writes :: "wal_entry list \<Rightarrow> (u64 \<times> wal_entry) set" where
  "committed_writes es = {(ts, e). e \<in> set es \<and> is_write e \<and> \<not> covered (checkpoint_start es) e \<and>
     committed_at es (TxID e) ts}"

text \<open>Logs of the format that \<open>ToWALEntries\<close> writes: commit markers carry a timestamp, values fit, and
  there are no prepare records.\<close>

definition log_wf :: "wal_entry list \<Rightarrow> bool" where
  "log_wf es \<longleftrightarrow> list_all (\<lambda>e. length (Value e) \<le> 65515 \<and> Type e \<noteq> WALTypeTxPrepare \<and>
     (is_commit e \<longrightarrow> marker_ts e \<noteq> None \<and> marker_ts e \<noteq> Some 0)) es"

lemma committed_at_snoc:
  "committed_at (es @ [x]) t ts \<longleftrightarrow>
     (if TxID x = t \<and> is_commit x then marker_ts x = Some ts
      else if TxID x = t \<and> is_rollback x then False else committed_at es t ts)"
proof -
  have "committed_at (es @ [x]) t ts \<longleftrightarrow>
      TxID x = t \<and> is_commit x \<and> marker_ts x = Some ts \<or>
      committed_at es t ts \<and> (TxID x = t \<longrightarrow> \<not> is_commit x \<and> \<not> is_rollback x)"
    (is "?l \<longleftrightarrow> ?r")
  proof
    assume ?l
    then obtain pre c post where c: "es @ [x] = pre @ c # post" "TxID c = t" "is_commit c"
      "marker_ts c = Some ts" "\<forall>e \<in> set post. TxID e = t \<longrightarrow> \<not> is_commit e \<and> \<not> is_rollback e"
      by (auto simp: committed_at_def)
    show ?r
    proof (cases post rule: rev_cases)
      case Nil
      with c show ?thesis by simp
    next
      case (snoc post' y)
      with c(1) have "es = pre @ c # post'" "x = y" by simp_all
      with c snoc show ?thesis by (auto simp: committed_at_def)
    qed
  next
    assume ?r
    then show ?l
    proof (elim disjE conjE)
      assume "TxID x = t" "is_commit x" "marker_ts x = Some ts"
      then show ?l unfolding committed_at_def by (intro exI [of _ es] exI [of _ x] exI [of _ "[]"]) simp
    next
      assume "committed_at es t ts" and n: "TxID x = t \<longrightarrow> \<not> is_commit x \<and> \<not> is_rollback x"
      then obtain pre c post where "es = pre @ c # post" "TxID c = t" "is_commit c"
        "marker_ts c = Some ts" "\<forall>e \<in> set post. TxID e = t \<longrightarrow> \<not> is_commit e \<and> \<not> is_rollback e"
        by (auto simp: committed_at_def)
      with n show ?l unfolding committed_at_def
        by (intro exI [of _ pre] exI [of _ c] exI [of _ "post @ [x]"]) auto
    qed
  qed
  then show ?thesis by (auto simp: is_commit_def is_rollback_def wal_type_defs)
qed

definition group_at :: "wal_entry list \<Rightarrow> u64 \<Rightarrow> tx_group" where
  "group_at es t = foldl (\<lambda>g e. group_entry e g) empty_group (filter (\<lambda>e. TxID e = t) es)"

lemma group_at_snoc: "group_at (es @ [x]) t = (if TxID x = t then group_entry x (group_at es t) else group_at es t)"
  by (simp add: group_at_def)

lemma group_at_none:
  assumes "t \<notin> TxID ` set es"
  shows "group_at es t = empty_group"
proof -
  have "filter (\<lambda>e. TxID e = t) es = []" using assms by (auto simp: filter_empty_conv)
  then show ?thesis by (simp add: group_at_def)
qed

lemma map_of_group_log:
  "map_of (group_log es) t = (if t \<in> TxID ` set es then Some (group_at es t) else None)"
proof (induction es rule: rev_induct)
  case Nil
  then show ?case by (simp add: group_log_def)
next
  case (snoc x es)
  have "group_log (es @ [x]) =
      AList.update (TxID x) (group_entry x (group_of (TxID x) (group_log es) empty_group)) (group_log es)"
    by (simp add: group_log_def)
  moreover have "group_of (TxID x) (group_log es) empty_group = group_at es (TxID x)" if "t = TxID x"
    using snoc that group_at_none [of t es] by (auto simp: group_of_def)
  ultimately show ?case using snoc by (auto simp: update_conv' group_at_snoc)
qed

lemma group_at_facts:
  assumes "log_wf es"
  shows "gHasCommit (group_at es t) \<longleftrightarrow> (\<exists>ts. committed_at es t ts)"
    and "committed_at es t ts \<Longrightarrow> gCommitTS (group_at es t) = ts \<and> ts \<noteq> 0"
    and "set (gEntries (group_at es t)) \<subseteq> {e \<in> set es. TxID e = t}"
    and "{e \<in> set es. TxID e = t \<and> is_write e} \<subseteq> set (gEntries (group_at es t))"
    and "gPrepare (group_at es t) = None"
proof -
  have "(gHasCommit (group_at es t) \<longleftrightarrow> (\<exists>ts. committed_at es t ts)) \<and>
    (\<forall>ts. committed_at es t ts \<longrightarrow> gCommitTS (group_at es t) = ts \<and> ts \<noteq> 0) \<and>
    set (gEntries (group_at es t)) \<subseteq> {e \<in> set es. TxID e = t} \<and>
    {e \<in> set es. TxID e = t \<and> is_write e} \<subseteq> set (gEntries (group_at es t)) \<and>
    gPrepare (group_at es t) = None"
    using assms
  proof (induction es rule: rev_induct)
    case Nil
    then show ?case by (simp add: group_at_def empty_group_def committed_at_def)
  next
    case (snoc x es)
    then have wf: "Type x \<noteq> WALTypeTxPrepare" "is_commit x \<longrightarrow> marker_ts x \<noteq> None \<and> marker_ts x \<noteq> Some 0"
      by (simp_all add: log_wf_def)
    note ih = snoc.IH
    have ih': "(gHasCommit (group_at es t) \<longleftrightarrow> (\<exists>ts. committed_at es t ts)) \<and>
      (\<forall>ts. committed_at es t ts \<longrightarrow> gCommitTS (group_at es t) = ts \<and> ts \<noteq> 0) \<and>
      set (gEntries (group_at es t)) \<subseteq> {e \<in> set es. TxID e = t} \<and>
      {e \<in> set es. TxID e = t \<and> is_write e} \<subseteq> set (gEntries (group_at es t)) \<and>
      gPrepare (group_at es t) = None"
      using snoc by (simp add: log_wf_def)
    consider "TxID x \<noteq> t" | (c) "TxID x = t" "is_commit x" | (r) "TxID x = t" "is_rollback x" "\<not> is_commit x"
      | (o) "TxID x = t" "\<not> is_rollback x" "\<not> is_commit x"
      by blast
    then show ?case
    proof cases
      case c
      then have "\<not> is_write x" by (auto simp: is_commit_def is_write_def wal_type_defs)
      with c wf ih' show ?thesis
        by (auto simp: committed_at_snoc group_at_snoc group_entry_def is_commit_def)
    next
      case r
      then have "\<not> is_write x" by (auto simp: is_rollback_def is_write_def wal_type_defs)
      with r wf ih' show ?thesis
        by (auto simp: committed_at_snoc group_at_snoc group_entry_def is_commit_def is_rollback_def)
    next
      case o
      then have "is_write x \<Longrightarrow> Type x \<noteq> WALTypeTxBegin" by (auto simp: is_write_def wal_type_defs)
      with o wf(1) ih' show ?thesis
        by (auto simp: committed_at_snoc group_at_snoc group_entry_def is_commit_def is_rollback_def)
    qed (use ih' in \<open>auto simp: committed_at_snoc group_at_snoc\<close>)
  qed
  then show "gHasCommit (group_at es t) \<longleftrightarrow> (\<exists>ts. committed_at es t ts)"
    and "committed_at es t ts \<Longrightarrow> gCommitTS (group_at es t) = ts \<and> ts \<noteq> 0"
    and "set (gEntries (group_at es t)) \<subseteq> {e \<in> set es. TxID e = t}"
    and "{e \<in> set es. TxID e = t \<and> is_write e} \<subseteq> set (gEntries (group_at es t))"
    and "gPrepare (group_at es t) = None"
    by blast+
qed

lemma set_visit: "set (visit order gs) = {(t, g). t \<in> set order \<and> map_of gs t = Some g}"
  by (force simp: visit_def map_filter_def)

lemma rollback_prepared_none:
  "\<forall>(t, g) \<in> set gs. gPrepare g = None \<Longrightarrow> rollback_prepared acc gs s = (Ok (), s)"
  by (induction gs) auto

lemma rollback_prepared_committed:
  "\<forall>(t, g) \<in> set gs. gHasCommit g \<Longrightarrow> rollback_prepared acc gs s = (Ok (), s)"
  by (induction gs) auto

lemma log_wf_sort [simp]: "log_wf (sort_key f es) = log_wf es"
  by (simp add: log_wf_def list_all_iff)

lemma visited_writes:
  assumes "log_wf es"
  shows "(\<Union>(t, g) \<in> {x \<in> set (visit order (group_log es)). gHasCommit (snd x)}.
      writes_of (checkpoint_start es) (gCommitTS g) (gEntries g)) =
    {(ts, e) \<in> committed_writes es. TxID e \<in> set order}" (is "?l = ?r")
proof (intro equalityI subrelI)
  note facts = group_at_facts [OF assms]
  fix ts e
  assume "(ts, e) \<in> ?l"
  then obtain t where t: "t \<in> set order" "gHasCommit (group_at es t)" "ts = gCommitTS (group_at es t)"
    "e \<in> set (gEntries (group_at es t))" "is_write e" "\<not> covered (checkpoint_start es) e"
    by (auto simp: set_visit map_of_group_log writes_of_def split: if_splits)
  then have "e \<in> set es" "TxID e = t" using facts(3) by auto
  with t facts(1,2) [of t] show "(ts, e) \<in> ?r" by (auto simp: committed_writes_def)
next
  note facts = group_at_facts [OF assms]
  fix ts e
  assume "(ts, e) \<in> ?r"
  then have e: "e \<in> set es" "is_write e" "\<not> covered (checkpoint_start es) e" "committed_at es (TxID e) ts"
    "TxID e \<in> set order"
    by (auto simp: committed_writes_def)
  then have "gHasCommit (group_at es (TxID e))" "gCommitTS (group_at es (TxID e)) = ts"
    "e \<in> set (gEntries (group_at es (TxID e)))"
    using facts(1,2,4) [of "TxID e"] by blast+
  with e show "(ts, e) \<in> ?l"
    by (auto simp: set_visit map_of_group_log writes_of_def intro!: bexI [of _ "(TxID e, group_at es (TxID e))"])
qed

context kv_backend
begin

lemma replay_log_effect:
  assumes "invar s" "stored (lookup s)" "log_wf es"
    "replay_log (btreeAccessor be) cancelled order1 order2 es s = (commits, n, r, s')"
  shows "invar s'" "stored (lookup s')" "r = Ok () \<or> r = Err ErrContextDone \<and> (\<exists>j. cancelled j)"
    "evolves (committed_writes (sort_key LSN es)) (lookup s) (lookup s')"
    "r = Ok () \<Longrightarrow> (\<And>k v s. invar s \<Longrightarrow> fst (beSet be k v s) = Ok ()) \<Longrightarrow> TxID ` set es \<subseteq> set order1
      \<Longrightarrow> applied_all (committed_writes (sort_key LSN es)) (lookup s')"
proof -
  let ?es = "sort_key LSN es"
  let ?gs = "group_log ?es"
  have wf: "log_wf ?es" using assms(3) by simp
  note facts = group_at_facts [OF wf]
  let ?W = "{(ts, e) \<in> committed_writes ?es. TxID e \<in> set order1}"
  obtain commits1 n1 r1 s1 where run:
    "replay_groups (btreeAccessor be) (checkpoint_start ?es) cancelled 0 (visit order1 ?gs) [] 0 s = (commits1, n1, r1, s1)"
    by (metis prod_cases4)
  have g: "\<forall>(t, g) \<in> set (visit order1 ?gs). gHasCommit g \<longrightarrow>
      gCommitTS g \<noteq> 0 \<and> list_all (\<lambda>e. length (Value e) \<le> 65515) (gEntries g)"
  proof clarify
    fix t g
    assume "(t, g) \<in> set (visit order1 ?gs)" "gHasCommit g"
    then have t: "g = group_at ?es t" "gHasCommit (group_at ?es t)"
      by (auto simp: set_visit map_of_group_log split: if_splits)
    then show "gCommitTS g \<noteq> 0 \<and> list_all (\<lambda>e. length (Value e) \<le> 65515) (gEntries g)"
      using facts(1,2,3) [of t] wf by (auto simp: log_wf_def list_all_iff)
  qed
  note eff = replay_groups_step [OF assms(1,2) g run, unfolded visited_writes [OF wf]]
  have "\<forall>(t, g) \<in> set (visit order2 ?gs). gPrepare g = None"
    using facts(5) by (auto simp: set_visit map_of_group_log split: if_splits)
  then have undo: "rollback_prepared (btreeAccessor be) (visit order2 ?gs) s1 = (Ok (), s1)"
    by (rule rollback_prepared_none)
  have "r1 = Ok () \<or> (\<exists>er. r1 = Err er)" using eff by blast
  then have res: "r = r1" "s' = s1"
    using assms(4) run undo by (auto simp: replay_log_def Let_def)
  show "invar s'" "stored (lookup s')" "r = Ok () \<or> r = Err ErrContextDone \<and> (\<exists>j. cancelled j)"
    using eff by (simp_all add: res)
  have "evolves ?W (lookup s) (lookup s1)" using eff by blast
  then show "evolves (committed_writes ?es) (lookup s) (lookup s')"
    unfolding res by (rule evolves_mono) blast
  assume "r = Ok ()" and tot: "\<And>k v s. invar s \<Longrightarrow> fst (beSet be k v s) = Ok ()"
    and order: "TxID ` set es \<subseteq> set order1"
  then have "applied_all ?W (lookup s1)" using eff res by blast
  moreover have "?W = committed_writes ?es" using order by (auto simp: committed_writes_def)
  ultimately show "applied_all (committed_writes ?es) (lookup s')" using res by simp
qed

end

section \<open>Recovery of committed transactions\<close>

lemma RecoverFromWAL_Ok:
  assumes "fst (walRecover dw) = Ok es" "RecoverFromWAL acc cancelled order1 order2 dw s = (commits, n, r, s', dw')"
  shows "replay_log acc cancelled order1 order2 es s = (commits, n, r, s')"
  using assms by (cases "walRecover dw") (auto simp: RecoverFromWAL_def split: prod.splits)




subsection \<open>An example\<close>

text \<open>Transaction 7 inserts a key, transaction 9 updates it and transaction 8 never commits.\<close>

definition ex_entry :: "u64 \<Rightarrow> u64 \<Rightarrow> byte \<Rightarrow> bytes \<Rightarrow> bytes \<Rightarrow> wal_entry" where
  "ex_entry lsn tid ty k v = zero_entry\<lparr>LSN := lsn, TxID := tid, Type := ty, Key := k, Value := v\<rparr>"

definition ex_log :: "wal_entry list" where
  "ex_log = [ex_entry 1 7 WALTypeInsert [1] [9], ex_entry 2 7 WALTypeCommit (PutUint64 5) [],
     ex_entry 3 9 WALTypeUpdate [1] [8], ex_entry 4 9 WALTypeCommit (PutUint64 6) [],
     ex_entry 5 8 WALTypeInsert [2] [7]]"

lemma one_segment_recovers:
  assumes "list_all entry_fits es"
  obtains dw where "fst (walRecover dw) = Ok es"
proof -
  obtain w where w: "NewDiskWAL ex_config [] [] [] [] = Ok w" using ex_open by blast
  let ?w = "w\<lparr>walDir := [(1, encode_log es)]\<rparr>"
  have "fst (walRecover ?w) = Ok (concat (map (\<lambda>_. es) (sort (map fst (walDir ?w)))))"
    using NewDiskWAL_Ok [OF w] recoverFile_log [OF assms torn_tail_Nil]
    by (intro walRecover_Ok) (simp_all add: seg_data_def)
  then show ?thesis by (intro that [of ?w]) simp
qed

lemma ex_log_facts:
  "list_all entry_fits ex_log" "log_wf ex_log" "sort_key LSN ex_log = ex_log" "TxID ` set ex_log = {7, 8, 9}"
  "stored (map_of [])"
  by (auto simp: ex_log_def ex_entry_def zero_entry_def entry_fits_def padded_len_def payload_len_def log_wf_def
      is_commit_def marker_ts_def wal_type_defs stored_def)

lemma ex_committed: "(6, ex_entry 3 9 WALTypeUpdate [1] [8]) \<in> committed_writes ex_log"
proof -
  let ?c = "ex_entry 4 9 WALTypeCommit (PutUint64 6) []"
  have "ex_log = take 3 ex_log @ ?c # [ex_entry 5 8 WALTypeInsert [2] [7]]"
    by (simp add: ex_log_def)
  then have "committed_at ex_log 9 6"
    unfolding committed_at_def
    by (intro exI [of _ "take 3 ex_log"] exI [of _ ?c] exI [of _ "[ex_entry 5 8 WALTypeInsert [2] [7]]"])
      (simp add: ex_entry_def zero_entry_def is_commit_def marker_ts_def wal_type_defs)
  moreover have "checkpoint_start ex_log = LSNInvalid"
    by (simp add: checkpoint_start_def ex_log_def ex_entry_def zero_entry_def wal_type_defs)
  ultimately show ?thesis
    by (simp add: committed_writes_def covered_def is_write_def)
      (simp add: ex_log_def ex_entry_def zero_entry_def wal_type_defs)
qed




section \<open>What the transaction engine logs is not replayed\<close>

text \<open>The entries \<open>Commit\<close> hands to the log, with the LSN the log gives them. Their \<open>TxID\<close> field stays 0.\<close>

definition engine_entry :: "wal_entry \<Rightarrow> bool" where
  "engine_entry e \<longleftrightarrow> (\<exists>l tid wb ts. e = (fst (TxPrepareEntry tid wb))\<lparr>LSN := l\<rparr> \<or> e = (TxCommitEntry tid ts)\<lparr>LSN := l\<rparr>)"

lemma engine_entry_fields:
  "engine_entry e \<Longrightarrow> TxID e = 0 \<and> (Type e = WALTypeTxPrepare \<or> Type e = WALTypeTxCommit)"
  by (auto simp: engine_entry_def TxPrepareEntry_def TxCommitEntry_def zero_entry_def Let_def)

lemma engine_group:
  assumes "list_all engine_entry es"
  shows "gEntries (group_at es 0) = [] \<and>
    (gHasCommit (group_at es 0) \<longleftrightarrow> (\<exists>e \<in> set es. Type e = WALTypeTxCommit))"
  using assms
proof (induction es rule: rev_induct)
  case Nil
  then show ?case by (simp add: group_at_def empty_group_def)
next
  case (snoc x es)
  then have x: "TxID x = 0" "Type x = WALTypeTxPrepare \<or> Type x = WALTypeTxCommit"
    using engine_entry_fields [of x] by simp_all
  have "\<not> (WALTypeTxPrepare = WALTypeTxCommit)" by (simp add: wal_type_defs)
  with x snoc show ?case
    by (auto simp: group_at_snoc group_entry_def wal_type_defs)
qed

lemma replay_groups_nothing:
  "\<forall>(t, g) \<in> set gs. gEntries g = [] \<Longrightarrow>
   \<exists>commits' r. replay_groups acc start cancelled i gs commits n s = (commits', n, r, s) \<and> r \<noteq> Panic"
  by (induction gs arbitrary: i commits) auto

text \<open>Claim C33. Recovery does not bring back what the transaction engine committed. On any log made of the
  prepare and commit records that \<open>Commit\<close> writes, with at least one commit among them,
  \<open>RecoverFromWAL\<close> replays no entry and leaves the store as it found it: the writes are only in
  the prepare records, which are never replayed, and all the records carry transaction id 0,
  so one commit record stands for every transaction.\<close>

theorem engine_commits_not_replayed:
  assumes "fst (walRecover dw) = Ok es" "list_all engine_entry es" "\<exists>e \<in> set es. Type e = WALTypeTxCommit"
    and "RecoverFromWAL acc cancelled order1 order2 dw s = (commits, n, r, s', dw')"
  shows "n = 0 \<and> s' = s"
proof -
  let ?es = "sort_key LSN es"
  have eng: "list_all engine_entry ?es" "\<exists>e \<in> set ?es. Type e = WALTypeTxCommit"
    using assms(2,3) by (simp_all add: list_all_iff)
  have g: "t = 0 \<and> gEntries g = [] \<and> gHasCommit g" if "map_of (group_log ?es) t = Some g" for t g
  proof -
    have "t \<in> TxID ` set ?es" and grp: "g = group_at ?es t"
      using that by (auto simp: map_of_group_log split: if_splits)
    then have "t = 0" using eng(1) engine_entry_fields by (auto simp: list_all_iff)
    with grp engine_group [OF eng(1)] eng(2) show ?thesis by blast
  qed
  have none: "\<forall>(t, g) \<in> set (visit order1 (group_log ?es)). gEntries g = []"
    using g by (auto simp: set_visit)
  obtain commits1 r1 where run1: "replay_groups acc (checkpoint_start ?es) cancelled 0
      (visit order1 (group_log ?es)) [] 0 s = (commits1, 0, r1, s)" "r1 \<noteq> Panic"
    using replay_groups_nothing [OF none, of acc "checkpoint_start ?es" cancelled 0 "[]" 0 s] by blast
  have "rollback_prepared acc (visit order2 (group_log ?es)) s = (Ok (), s)"
    using g by (intro rollback_prepared_committed) (auto simp: set_visit)
  with RecoverFromWAL_Ok [OF assms(1,4)] run1 show ?thesis
    by (cases r1) (auto simp: replay_log_def Let_def)
qed

theorem engine_commits_not_replayed_witness:
  "\<exists>dw. fst (walRecover dw) = Ok [(fst (TxPrepareEntry 1 (wbPut [1] (Some [9]) no_version NewWriteBuffer)))\<lparr>LSN := 1\<rparr>,
        (TxCommitEntry 1 2)\<lparr>LSN := 2\<rparr>] \<and>
     fst (snd (snd (snd (RecoverFromWAL (btreeAccessor mockStorage) (\<lambda>_. False) [0] [0] dw [])))) = []"
proof -
  let ?p = "(fst (TxPrepareEntry 1 (wbPut [1] (Some [9]) no_version NewWriteBuffer)))\<lparr>LSN := 1\<rparr>"
  let ?c = "(TxCommitEntry 1 2)\<lparr>LSN := 2\<rparr>"
  have "list_all entry_fits [?p, ?c]"
    by (simp add: entry_fits_def padded_len_def payload_len_def TxPrepareEntry_def TxCommitEntry_def zero_entry_def
        Let_def wbOrderedKeys_def wbPut_def wbGet_def wbSetEntry_def NewWriteBuffer_def no_version_def
        live_entries_def map_filter_def prepare_one_def)
  then obtain dw where dw: "fst (walRecover dw) = Ok [?p, ?c]" by (rule one_segment_recovers)
  have e: "list_all engine_entry [?p, ?c]" "\<exists>e \<in> set [?p, ?c]. Type e = WALTypeTxCommit"
    by (auto simp: engine_entry_def) (simp add: TxCommitEntry_def)
  obtain commits n r s' dw' where
    run: "RecoverFromWAL (btreeAccessor mockStorage) (\<lambda>_. False) [0] [0] dw [] = (commits, n, r, s', dw')"
    by (metis prod_cases5)
  from engine_commits_not_replayed [OF dw e run] run dw show ?thesis by auto
qed

section \<open>Rolling back a prepared transaction\<close>

context reliable_backend
begin

lemma undo_all_sets:
  assumes "invar s" "list_all (\<lambda>pe. ppOldValue pe \<noteq> None) pes"
  shows "\<exists>s'. undo_all (btreeAccessor be) ts pes s = (Ok (), s') \<and> invar s' \<and>
    lookup s' = fold (\<lambda>(k, v) m. m(k \<mapsto> v)) (map (\<lambda>pe. (ppKey pe, slice_bytes (ppOldValue pe))) pes) (lookup s)"
  using assms
proof (induction pes arbitrary: s)
  case Nil
  then show ?case by simp
next
  case (Cons pe pes)
  let ?v = "slice_bytes (ppOldValue pe)"
  obtain s1 where s1: "set_built (btreeAccessor be) (ppKey pe) (Ok ?v) s = (Ok (), s1)" "invar s1"
    "lookup s1 = (lookup s)(ppKey pe \<mapsto> ?v) \<or> fst (beSet be (ppKey pe) ?v s) \<noteq> Ok () \<and> lookup s1 = lookup s"
    by (rule set_built_ok [OF Cons.prems(1)])
  then have "lookup s1 = (lookup s)(ppKey pe \<mapsto> ?v)" using set_total [OF Cons.prems(1)] by blast
  with Cons.IH [OF s1(2)] Cons.prems(2) s1(1) show ?case by (auto simp: undo_parsed_def)
qed

end

text \<open>Recovering a transaction that was prepared but not committed damages every key it wrote: the
  value that was committed before is put back without its header (a key the transaction only
  inserted gets an empty record), so the record of a key whose old value is shorter than the
  header can no longer be decoded at all, although nothing of the transaction had been applied.\<close>

theorem prepared_rollback_strips_header:
  assumes "reliable_backend be invar lookup" "invar s"
    and "fst (walRecover dw) = Ok [(fst (TxPrepareEntry tid wb))\<lparr>LSN := l\<rparr>]"
    and "wb_fits wb" "list_all (\<lambda>k. wbGet k wb \<noteq> None) (wbOrdered wb)"
    and "RecoverFromWAL (btreeAccessor be) (\<lambda>_. False) [0] [0] dw s = (commits, n, r, s', dw')"
    and "k \<in> set (wbOrdered wb)" "wbGet k wb = Some e"
  shows "r = Ok () \<and> lookup s' k = Some (slice_bytes (OldValue e)) \<and>
    (length (slice_bytes (OldValue e)) < MVCCHeaderSize \<longrightarrow>
     ParseMVCC (slice_bytes (lookup s' k)) = Err ErrValueTooShort)"
proof -
  let ?p = "(fst (TxPrepareEntry tid wb))\<lparr>LSN := l\<rparr>"
  let ?live = "live_entries (sort (wbOrdered wb)) wb"
  have p: "TxID ?p = 0" "Type ?p = WALTypeTxPrepare"
    by (simp_all add: TxPrepareEntry_def zero_entry_def Let_def)
  have grp: "group_log [?p] = [(0, empty_group\<lparr>gPrepare := Some ?p\<rparr>)]"
    using p by (simp add: group_log_def group_of_def group_entry_def wal_type_defs)
  have "ParseTxPrepareEntry ?p = ParseTxPrepareEntry (fst (TxPrepareEntry tid wb))"
    by (simp add: ParseTxPrepareEntry_def)
  also have "\<dots> = Ok (tid, map prepared ?live)"
    using ParseTxPrepareEntry_prepare [OF assms(4), of tid] assms(5) by simp
  finally have parse: "ParseTxPrepareEntry ?p = Ok (tid, map prepared ?live)" .
  have "list_all (\<lambda>pe. ppOldValue pe \<noteq> None) (map prepared ?live)"
    by (auto simp: list_all_iff prepared_def split_def)
  then obtain s1 where s1: "undo_all (btreeAccessor be) 0 (map prepared ?live) s = (Ok (), s1)"
    "lookup s1 = fold (\<lambda>(k, v) m. m(k \<mapsto> v))
      (map (\<lambda>pe. (ppKey pe, slice_bytes (ppOldValue pe))) (map prepared ?live)) (lookup s)"
    using reliable_backend.undo_all_sets [OF assms(1,2)] by blast
  have vis: "visit [0] (group_log [?p]) = [(0, empty_group\<lparr>gPrepare := Some ?p\<rparr>)]"
    by (simp add: grp visit_def map_filter_def)
  have run: "r = Ok ()" "s' = s1"
    using RecoverFromWAL_Ok [OF assms(3,6)] parse s1(1)
    by (auto simp: replay_log_def Let_def vis empty_group_def)
  have pairs: "map (\<lambda>pe. (ppKey pe, slice_bytes (ppOldValue pe))) (map prepared ?live) =
      map (\<lambda>(k, e). (k, slice_bytes (OldValue e))) ?live"
    by (auto simp: prepared_def)
  have live: "(k, e) \<in> set ?live" using assms(7,8) by (simp add: set_live_entries)
  then have "k \<in> fst ` set (map (\<lambda>(k, e). (k, slice_bytes (OldValue e))) ?live)" by force
  moreover have "b = slice_bytes (OldValue e)"
    if "(k, b) \<in> set (map (\<lambda>(k, e). (k, slice_bytes (OldValue e))) ?live)" for b
    using that assms(8) by (auto simp: set_live_entries)
  ultimately have "lookup s1 k = Some (slice_bytes (OldValue e))"
    unfolding s1(2) pairs by (subst fold_map_upd_functional) auto
  then show ?thesis using run by (simp add: ParseMVCC_def)
qed

theorem prepared_rollback_strips_header_witness:
  "\<exists>dw s' r. fst (walRecover dw) =
       Ok [(fst (TxPrepareEntry 3 (wbPut [1] (Some [9]) (no_version\<lparr>ovValue := Some [4], ovBeginTS := 2\<rparr>) NewWriteBuffer)))\<lparr>LSN := 1\<rparr>] \<and>
     fst (snd (snd (RecoverFromWAL (btreeAccessor mockStorage) (\<lambda>_. False) [0] [0] dw []))) = r \<and>
     fst (snd (snd (snd (RecoverFromWAL (btreeAccessor mockStorage) (\<lambda>_. False) [0] [0] dw [])))) = s' \<and>
     r = Ok () \<and> map_of s' [1] = Some [4] \<and> ParseMVCC (slice_bytes (map_of s' [1])) = Err ErrValueTooShort"
proof -
  let ?wb = "wbPut [1] (Some [9]) (no_version\<lparr>ovValue := Some [4], ovBeginTS := 2\<rparr>) NewWriteBuffer"
  let ?p = "(fst (TxPrepareEntry 3 ?wb))\<lparr>LSN := 1\<rparr>"
  let ?e = "\<lparr>weOp = OpUpdate, weValue = Some [9], OldValue = Some [4], OldFlag = 0, OldBeginTS = 2,
    OldPrevFlag = 0, OldPrevVal = None\<rparr>"
  have wb: "?wb = \<lparr>wbEntries = [([1], ?e)], wbOrdered = [[1]]\<rparr>"
    by (simp add: wbPut_def wbGet_def wbSetEntry_def NewWriteBuffer_def no_version_def)
  have "list_all entry_fits [?p]"
    by (simp add: wb entry_fits_def padded_len_def payload_len_def TxPrepareEntry_def zero_entry_def
        Let_def wbOrderedKeys_def wbGet_def live_entries_def map_filter_def prepare_one_def)
  then obtain dw where dw: "fst (walRecover dw) = Ok [?p]" by (rule one_segment_recovers)
  obtain commits n r s' dw' where
    run: "RecoverFromWAL (btreeAccessor mockStorage) (\<lambda>_. False) [0] [0] dw [] = (commits, n, r, s', dw')"
    by (metis prod_cases5)
  have c: "wb_fits ?wb" "list_all (\<lambda>k. wbGet k ?wb \<noteq> None) (wbOrdered ?wb)"
    "[1] \<in> set (wbOrdered ?wb)" "wbGet [1] ?wb = Some ?e"
    by (simp_all add: wb wb_fits_def prepare_fits_def wbGet_def)
  from prepared_rollback_strips_header [OF mock_reliable.reliable_backend_axioms TrueI dw c(1,2) run c(3,4)]
    run dw show ?thesis by (auto simp: MVCCHeaderSize_def)
qed

section \<open>The two recovery paths\<close>

definition old_format :: "wal_entry \<Rightarrow> bool" where
  "old_format e \<longleftrightarrow> Type e \<notin> {WALTypeTxCommit, WALTypeTxRollback, WALTypeTxPrepare, WALTypeTxBegin} \<and>
     (Type e = WALTypeCommit \<longrightarrow> length (Key e) = 8)"

lemma rm_group_entry_old: "old_format e \<Longrightarrow> rm_group_entry e g = group_entry e g"
  by (auto simp: old_format_def rm_group_entry_def group_entry_def marker_ts_def)

lemma rm_group_log_old:
  assumes "list_all old_format es"
  shows "rm_group_log es = group_log es"
  unfolding rm_group_log_def group_log_def
  using assms by (intro foldl_cong) (simp_all add: list_all_iff rm_group_entry_old)

lemma group_old_prepare:
  "list_all old_format es \<Longrightarrow> gPrepare (group_at es t) = None"
  by (induction es rule: rev_induct)
    (auto simp: group_at_def empty_group_def group_entry_def old_format_def)

text \<open>On logs in the original format (no prepare, begin or new-style markers) \<open>RecoveryManager\<close> and
  \<open>RecoverFromWAL\<close> do the same: same replayed store, same transactions, same count.\<close>

theorem recovery_paths_agree:
  assumes "fst (walRecover dw) = Ok es" "list_all old_format es"
    and "RecoverFromWAL acc cancelled order1 order2 dw s = (commits, n, r, s', dw')"
  shows "rmRecover acc cancelled order1 dw s = (bind_outcome r (\<lambda>_. Ok (commits, n)), s', dw')"
proof -
  let ?es = "sort_key LSN es"
  have old: "list_all old_format ?es" using assms(2) by (simp add: list_all_iff)
  have "\<forall>(t, g) \<in> set (visit order2 (group_log ?es)). gPrepare g = None"
    using group_old_prepare [OF old] by (auto simp: set_visit map_of_group_log split: if_splits)
  note undo = rollback_prepared_none [OF this]
  obtain dw1 where dw: "walRecover dw = (Ok es, dw1)" using assms(1) by (cases "walRecover dw") auto
  have "dw' = dw1" using assms(3) dw by (auto simp: RecoverFromWAL_def split: prod.splits)
  with RecoverFromWAL_Ok [OF assms(1,3)] show ?thesis
    by (auto simp: rmRecover_def dw Let_def replayWAL_def rm_group_log_old [OF old] replay_log_def undo
        split: prod.splits outcome.splits)
qed

theorem recovery_paths_agree_witness:
  "\<exists>dw commits n r s' dw'. fst (walRecover dw) = Ok ex_log \<and>
     RecoverFromWAL (btreeAccessor mockStorage) (\<lambda>_. False) [9, 8, 7] [] dw [] = (commits, n, r, s', dw') \<and>
     rmRecover (btreeAccessor mockStorage) (\<lambda>_. False) [9, 8, 7] dw [] = (bind_outcome r (\<lambda>_. Ok (commits, n)), s', dw')"
proof -
  obtain dw where dw: "fst (walRecover dw) = Ok ex_log"
    by (rule one_segment_recovers [OF ex_log_facts(1)])
  obtain commits n r s' dw' where
    run: "RecoverFromWAL (btreeAccessor mockStorage) (\<lambda>_. False) [9, 8, 7] [] dw [] = (commits, n, r, s', dw')"
    by (metis prod_cases5)
  have "list_all old_format ex_log"
    by (simp add: ex_log_def ex_entry_def zero_entry_def old_format_def wal_type_defs)
  from recovery_paths_agree [OF dw this run] dw run show ?thesis by blast
qed

end
