(* ===== verification/Page_Manager.thy ===== *)
theory Page_Manager
  imports MVCC_Codec
begin

text \<open>
  The off-heap page manager (\<open>offheap/page_manager.go\<close>): the 4 KiB pages of one mapping, the free
  list (\<open>offheap/lockfree_queue.go\<close>), allocation, and the chains of overflow pages that hold large
  values; and \<open>DefaultLOBManager\<close> (\<open>lob/manager.go\<close>) on top of it.

  A page is its header, with the fields of \<open>PageHeader\<close>, and its bytes by page offset; the first 56
  offsets belong to the header. Calls run one after another; the queue is then first-in
  first-out. A walk along a chain of pages need not end: it is a partial function whose value
  is \<open>None\<close> when the code would not return.
\<close>

section \<open>Pages\<close>

record page =
  phVersion :: u64
  prevPage :: u32
  nextPage :: u32
  extraChild :: u64
  phCount :: u16
  pageType :: byte
  phDeleted :: byte
  tombstoneCount :: u16
  deleteEpoch :: u64
  chunkPos :: u64
  pageBytes :: bytes

definition PageTypeIndex :: byte where "PageTypeIndex = 0"
definition PageTypeLeaf :: byte where "PageTypeLeaf = 1"
definition PageTypeOverflow :: byte where "PageTypeOverflow = 2"

definition PageSize :: nat where "PageSize = 4096"
definition SizeofPageHeader :: nat where "SizeofPageHeader = 56"
definition MaxPageID :: u32 where "MaxPageID = 0xFFFFFFFF"

definition zero_header :: "page \<Rightarrow> page" where
  "zero_header pg = \<lparr>phVersion = 0, prevPage = 0, nextPage = 0, extraChild = 0, phCount = 0, pageType = 0,
     phDeleted = 0, tombstoneCount = 0, deleteEpoch = 0, chunkPos = 0, pageBytes = pageBytes pg\<rparr>"

definition zero_page :: page where
  "zero_page = \<lparr>phVersion = 0, prevPage = 0, nextPage = 0, extraChild = 0, phCount = 0, pageType = 0,
     phDeleted = 0, tombstoneCount = 0, deleteEpoch = 0, chunkPos = 0, pageBytes = replicate 4096 0\<rparr>"

section \<open>The free list\<close>

definition NewLockFreeQueue :: "u32 list" where
  "NewLockFreeQueue = []"

definition Enqueue :: "u32 \<Rightarrow> u32 list \<Rightarrow> u32 list" where
  "Enqueue v q = q @ [v]"

fun Dequeue :: "u32 list \<Rightarrow> u32 option \<times> u32 list" where
  "Dequeue [] = (None, [])"
| "Dequeue (v # q) = (Some v, q)"

section \<open>The manager\<close>

record page_manager =
  pmTotal :: u32
  pmUsed :: u32
  nextPageID :: u32
  freeList :: "u32 list"
  pmPages :: "u32 \<Rightarrow> page"

text \<open>
  \<open>NewPageManager\<close>: the mapping has the contents \<open>mem\<close>, which are cleared up to 1 GiB; a larger one
  has only its first page cleared. \<open>allocated\<close> says whether the platform allocator succeeded.
  \<open>preTouchPages\<close> then writes the version and the deleted flag of every page.
\<close>

definition preTouchPages :: "u32 \<Rightarrow> (u32 \<Rightarrow> page) \<Rightarrow> u32 \<Rightarrow> page" where
  "preTouchPages tot mem p = (if p < tot then (mem p)\<lparr>phVersion := 0, phDeleted := 0\<rparr> else mem p)"

definition NewPageManager :: "int \<Rightarrow> bool \<Rightarrow> (u32 \<Rightarrow> page) \<Rightarrow> page_manager outcome" where
  "NewPageManager mmapSize allocated mem =
     (let maxPages = mmapSize div 4096;
          cleared = (\<lambda>p. if mmapSize \<le> 1073741824 \<or> p = 0 then zero_page else mem p);
          tot = of_int maxPages
      in if 0xFFFFFFFF < maxPages then Err ErrOffHeapInvalidRange
         else if mmapSize \<le> 0 \<or> \<not> allocated then Err ErrOffHeapOutOfMemory
         else Ok \<lparr>pmTotal = tot, pmUsed = 0, nextPageID = 0, freeList = NewLockFreeQueue,
                  pmPages = (if maxPages \<le> 33554432 then preTouchPages tot cleared else cleared)\<rparr>)"

definition with_page :: "u32 \<Rightarrow> (page \<Rightarrow> page) \<Rightarrow> page_manager \<Rightarrow> page_manager" where
  "with_page p f pm = pm\<lparr>pmPages := (pmPages pm)(p := f (pmPages pm p))\<rparr>"

text \<open>\<open>PageIDToPtr\<close> panics on a page outside the mapping.\<close>

definition PageIDToPtr :: "u32 \<Rightarrow> page_manager \<Rightarrow> page outcome" where
  "PageIDToPtr p pm = (if pmTotal pm \<le> p then Panic else Ok (pmPages pm p))"

definition clearPage :: "u32 \<Rightarrow> page_manager \<Rightarrow> page_manager" where
  "clearPage p pm = with_page p zero_header pm"

definition pageAlloc :: "page_manager \<Rightarrow> u32 outcome \<times> page_manager" where
  "pageAlloc pm = (case Dequeue (freeList pm) of
     (Some p, q) \<Rightarrow>
       let pm1 = pm\<lparr>freeList := q\<rparr>
       in if pmTotal pm \<le> p then (Panic, pm1)
          else let pm2 = with_page p (\<lambda>pg. pg\<lparr>phVersion := 1, phDeleted := 0\<rparr>) (clearPage p pm1)
               in (Ok p, pm2\<lparr>pmUsed := pmUsed pm2 + 1\<rparr>)
   | (None, q) \<Rightarrow>
       let newVal = nextPageID pm + 1; p = newVal - 1; pm1 = pm\<lparr>nextPageID := newVal\<rparr>
       in if pmTotal pm \<le> p then (Err ErrOffHeapOutOfMemory, pm1)
          else let pm2 = with_page p (\<lambda>pg. pg\<lparr>phVersion := 1\<rparr>) pm1
               in (Ok p, pm2\<lparr>pmUsed := pmUsed pm2 + 1\<rparr>))"

definition pageFree :: "u32 \<Rightarrow> page_manager \<Rightarrow> unit outcome \<times> page_manager" where
  "pageFree p pm =
     (if pmTotal pm \<le> p then (Err ErrOffHeapInvalidPageID, pm)
      else let pm1 = with_page p (\<lambda>pg. pg\<lparr>phDeleted := 1\<rparr>) pm
           in (Ok (), pm1\<lparr>freeList := Enqueue p (freeList pm1), pmUsed := pmUsed pm1 - 1\<rparr>))"

definition IsDeleted :: "u32 \<Rightarrow> page_manager \<Rightarrow> bool" where
  "IsDeleted p pm = (p \<noteq> 0 \<and> p < pmTotal pm \<and> phDeleted (pmPages pm p) = 1)"

section \<open>Overflow chains\<close>

definition OverflowPageMetaSize :: nat where "OverflowPageMetaSize = 16"
definition OverflowPageDataSize :: nat where "OverflowPageDataSize = 4024"

text \<open>\<open>overflowMeta\<close>: the next page at offset 56, the chunk size at offset 64.\<close>

definition next_of :: "page \<Rightarrow> u64" where
  "next_of pg = u64_at SizeofPageHeader (pageBytes pg)"

definition chunk_size :: "page \<Rightarrow> u32" where
  "chunk_size pg = u32_at (SizeofPageHeader + 8) (pageBytes pg)"

definition chunk_of :: "page \<Rightarrow> bytes" where
  "chunk_of pg = field (SizeofPageHeader + OverflowPageMetaSize) (unat (chunk_size pg)) (pageBytes pg)"

definition set_next :: "u64 \<Rightarrow> page \<Rightarrow> page" where
  "set_next q pg = pg\<lparr>pageBytes := splice SizeofPageHeader (mem_u64 q) (pageBytes pg)\<rparr>"

definition write_chunk :: "bytes \<Rightarrow> page \<Rightarrow> page" where
  "write_chunk chunk pg = pg\<lparr>pageType := PageTypeOverflow,
     pageBytes := splice (SizeofPageHeader + OverflowPageMetaSize) chunk
       (splice (SizeofPageHeader + 8) (mem_u32 (of_nat (length chunk))) (pageBytes pg))\<rparr>"

partial_function (option) free_chain :: "u32 \<Rightarrow> page_manager \<Rightarrow> (unit outcome \<times> page_manager) option" where
  "free_chain p pm = (case PageIDToPtr p pm of
     Ok pg \<Rightarrow> (case pageFree p pm of
         (Ok _, pm1) \<Rightarrow>
           if (ucast (next_of pg) :: u32) = 0 then Some (Ok (), pm1)
           else free_chain (ucast (next_of pg)) pm1
       | (r, pm1) \<Rightarrow> Some (r, pm1))
   | Err e \<Rightarrow> Some (Err e, pm)
   | Panic \<Rightarrow> Some (Panic, pm))"

definition FreeOverflow :: "u32 \<Rightarrow> page_manager \<Rightarrow> (unit outcome \<times> page_manager) option" where
  "FreeOverflow p pm = (if p = 0 then Some (Ok (), pm) else free_chain p pm)"

text \<open>The loop of \<open>AllocOverflow\<close>: \<open>m\<close> pages are still to come, \<open>i\<close> have been written.\<close>

fun alloc_chain ::
  "nat \<Rightarrow> nat \<Rightarrow> bytes \<Rightarrow> u32 \<Rightarrow> u32 \<Rightarrow> page_manager \<Rightarrow> (u32 outcome \<times> page_manager) option" where
  "alloc_chain 0 i data first prev pm = Some (Ok first, pm)"
| "alloc_chain (Suc m) i data first prev pm = (case pageAlloc pm of
     (Ok p, pm1) \<Rightarrow>
       let pm2 = (if 0 < i then with_page prev (set_next (ucast p)) pm1 else pm1);
           chunk = take OverflowPageDataSize (drop (i * OverflowPageDataSize) data)
       in alloc_chain m (Suc i) data (if i = 0 then p else first) p (with_page p (write_chunk chunk) pm2)
   | (Err e, pm1) \<Rightarrow>
       (if first = 0 then Some (Err e, pm1)
        else case FreeOverflow first pm1 of
          None \<Rightarrow> None | Some (Panic, pm2) \<Rightarrow> Some (Panic, pm2) | Some (_, pm2) \<Rightarrow> Some (Err e, pm2))
   | (Panic, pm1) \<Rightarrow> Some (Panic, pm1))"

definition AllocOverflow :: "bytes \<Rightarrow> page_manager \<Rightarrow> (u32 outcome \<times> page_manager) option" where
  "AllocOverflow data pm =
     (if data = [] then Some (Ok 0, pm)
      else
        let n = (of_nat ((length data + OverflowPageDataSize - 1) div OverflowPageDataSize) :: u32)
        in alloc_chain (unat n) 0 data 0 0 pm)"

partial_function (option) read_chain :: "u32 \<Rightarrow> page_manager \<Rightarrow> bytes outcome option" where
  "read_chain p pm = (case PageIDToPtr p pm of
     Ok pg \<Rightarrow>
       if (ucast (next_of pg) :: u32) = 0 then Some (Ok (chunk_of pg))
       else Option.bind (read_chain (ucast (next_of pg)) pm)
              (\<lambda>r. Some (bind_outcome r (\<lambda>rest. Ok (chunk_of pg @ rest))))
   | Err e \<Rightarrow> Some (Err e)
   | Panic \<Rightarrow> Some Panic)"

definition ReadOverflow :: "u32 \<Rightarrow> u32 \<Rightarrow> page_manager \<Rightarrow> bytes outcome option" where
  "ReadOverflow p totalLen pm = (if totalLen = 0 then Some (Ok []) else read_chain p pm)"

partial_function (option) retire_chain :: "u32 \<Rightarrow> page_manager \<Rightarrow> u32 list outcome option" where
  "retire_chain p pm = (case PageIDToPtr p pm of
     Ok pg \<Rightarrow>
       if (ucast (next_of pg) :: u32) = 0 then Some (Ok [p])
       else Option.bind (retire_chain (ucast (next_of pg)) pm)
              (\<lambda>r. Some (bind_outcome r (\<lambda>ps. Ok (p # ps))))
   | Err e \<Rightarrow> Some (Err e)
   | Panic \<Rightarrow> Some Panic)"

definition RetireOverflowChain :: "u32 \<Rightarrow> page_manager \<Rightarrow> u32 list outcome option" where
  "RetireOverflowChain p pm = (if p = 0 then Some (Ok []) else retire_chain p pm)"

section \<open>DefaultLOBManager\<close>

text \<open>
  The interface of \<open>mvcc/lob.go\<close> has no value for a call that does not return; the manager maps it
  to a panic. Its callers ignore the result of \<open>Free\<close>.
\<close>

definition returned :: "('a outcome \<times> 'w) option \<Rightarrow> 'w \<Rightarrow> 'a outcome \<times> 'w" where
  "returned r w = (case r of None \<Rightarrow> (Panic, w) | Some x \<Rightarrow> x)"

definition defAllocate :: "bytes \<Rightarrow> page_manager \<Rightarrow> lob_ref outcome \<times> page_manager" where
  "defAllocate data pm = (case returned (AllocOverflow data pm) pm of
     (r, pm1) \<Rightarrow> (bind_outcome r (\<lambda>p. Ok \<lparr>FirstPageID = p, TotalLen = of_nat (length data)\<rparr>), pm1))"

definition defRead :: "lob_ref \<Rightarrow> page_manager \<Rightarrow> bytes outcome" where
  "defRead ref pm = (case ReadOverflow (FirstPageID ref) (TotalLen ref) pm of None \<Rightarrow> Panic | Some r \<Rightarrow> r)"

definition defFree :: "lob_ref \<Rightarrow> page_manager \<Rightarrow> page_manager" where
  "defFree ref pm = snd (returned (FreeOverflow (FirstPageID ref) pm) pm)"

definition defaultLOBManager :: "page_manager lob_manager" where
  "defaultLOBManager = \<lparr>lobAllocate = defAllocate, lobRead = defRead, lobFree = defFree\<rparr>"

section \<open>Chains\<close>

lemmas page_consts = SizeofPageHeader_def OverflowPageMetaSize_def OverflowPageDataSize_def PageSize_def

text \<open>A well-formed page has 4096 bytes; a chain links distinct steps and ends with a zero link.\<close>

fun chain :: "page_manager \<Rightarrow> u32 list \<Rightarrow> bool" where
  "chain pm [] = False"
| "chain pm [p] = (p < pmTotal pm \<and> (ucast (next_of (pmPages pm p)) :: u32) = 0)"
| "chain pm (p # q # ps) = (p < pmTotal pm \<and> (ucast (next_of (pmPages pm p)) :: u32) = q \<and> q \<noteq> 0 \<and> chain pm (q # ps))"

definition chain_data :: "page_manager \<Rightarrow> u32 list \<Rightarrow> bytes" where
  "chain_data pm ps = concat (map (\<lambda>p. chunk_of (pmPages pm p)) ps)"

lemma PageIDToPtr_Ok [simp]: "p < pmTotal pm \<Longrightarrow> PageIDToPtr p pm = Ok (pmPages pm p)"
  using leD by (auto simp: PageIDToPtr_def)

lemma pages_with_page [simp]:
  "pmPages (with_page p f pm) q = (if q = p then f (pmPages pm p) else pmPages pm q)"
  "pmTotal (with_page p f pm) = pmTotal pm" "nextPageID (with_page p f pm) = nextPageID pm"
  "freeList (with_page p f pm) = freeList pm" "pmUsed (with_page p f pm) = pmUsed pm"
  by (simp_all add: with_page_def)

lemma set_next_facts [simp]:
  assumes "length (pageBytes pg) = 4096"
  shows "next_of (set_next q pg) = q" "chunk_of (set_next q pg) = chunk_of pg"
    "length (pageBytes (set_next q pg)) = 4096"
  using assms
  by (simp_all add: next_of_def chunk_of_def chunk_size_def set_next_def page_consts mem_splice_other field_splice_other)

lemma write_chunk_facts [simp]:
  assumes "length (pageBytes pg) = 4096" "length chunk \<le> 4024"
  shows "next_of (write_chunk chunk pg) = next_of pg" "chunk_of (write_chunk chunk pg) = chunk"
    "length (pageBytes (write_chunk chunk pg)) = 4096"
  using assms
  by (simp_all add: next_of_def chunk_of_def chunk_size_def write_chunk_def page_consts mem_splice_other
      field_splice_same)

lemma chain_cong:
  assumes "chain pm ps" "pmTotal pm' = pmTotal pm"
    "\<And>p. p \<in> set ps \<Longrightarrow> next_of (pmPages pm' p) = next_of (pmPages pm p)"
  shows "chain pm' ps"
  using assms by (induction pm ps rule: chain.induct) auto

lemma chain_data_cong:
  "(\<And>p. p \<in> set ps \<Longrightarrow> chunk_of (pmPages pm' p) = chunk_of (pmPages pm p)) \<Longrightarrow> chain_data pm' ps = chain_data pm ps"
  by (simp add: chain_data_def cong: map_cong)

lemma chain_data_snoc: "chain_data pm (ps @ [p]) = chain_data pm ps @ chunk_of (pmPages pm p)"
  by (simp add: chain_data_def)

lemma read_chain_data: "chain pm (p # ps) \<Longrightarrow> read_chain p pm = Some (Ok (chain_data pm (p # ps)))"
proof (induction ps arbitrary: p)
  case Nil
  then show ?case by (simp add: read_chain.simps chain_data_def)
next
  case (Cons q ps)
  then show ?case by (simp add: read_chain.simps [of p] chain_data_def)
qed

lemma retire_chain_pages: "chain pm (p # ps) \<Longrightarrow> retire_chain p pm = Some (Ok (p # ps))"
proof (induction ps arbitrary: p)
  case Nil
  then show ?case by (simp add: retire_chain.simps)
next
  case (Cons q ps)
  then show ?case by (simp add: retire_chain.simps [of p])
qed

lemma pageFree_Ok:
  "p < pmTotal pm \<Longrightarrow> \<exists>pm'. pageFree p pm = (Ok (), pm') \<and> pmTotal pm' = pmTotal pm \<and>
     freeList pm' = freeList pm @ [p] \<and> nextPageID pm' = nextPageID pm \<and>
     (\<forall>q. pageBytes (pmPages pm' q) = pageBytes (pmPages pm q))"
  by (simp add: pageFree_def Let_def Enqueue_def)

lemma free_chain_step:
  assumes "chain pm (p # q # ps)" "pageFree p pm = (Ok (), pm1)"
  shows "free_chain p pm = free_chain q pm1"
proof -
  have a: "p < pmTotal pm" "(ucast (next_of (pmPages pm p)) :: u32) = q" "q \<noteq> 0"
    using assms(1) by simp_all
  show ?thesis
    unfolding free_chain.simps [of p pm] PageIDToPtr_Ok [OF a(1)] assms(2) outcome.case prod.case a(2)
    using a(3) by simp
qed

lemma free_chain_all:
  "chain pm (p # ps) \<Longrightarrow> \<exists>pm'. free_chain p pm = Some (Ok (), pm') \<and> pmTotal pm' = pmTotal pm \<and>
     freeList pm' = freeList pm @ p # ps \<and> nextPageID pm' = nextPageID pm \<and>
     (\<forall>q. pageBytes (pmPages pm' q) = pageBytes (pmPages pm q))"
proof (induction ps arbitrary: p pm)
  case Nil
  then have "p < pmTotal pm" by simp
  from pageFree_Ok [OF this] obtain pm' where "pageFree p pm = (Ok (), pm')" "pmTotal pm' = pmTotal pm"
    "freeList pm' = freeList pm @ [p]" "nextPageID pm' = nextPageID pm"
    "\<forall>q. pageBytes (pmPages pm' q) = pageBytes (pmPages pm q)"
    by blast
  with Nil show ?case by (simp add: free_chain.simps [of p])
next
  case (Cons q ps)
  then have "p < pmTotal pm" by simp
  from pageFree_Ok [OF this] obtain pm1 where pm1: "pageFree p pm = (Ok (), pm1)" "pmTotal pm1 = pmTotal pm"
    "freeList pm1 = freeList pm @ [p]" "nextPageID pm1 = nextPageID pm"
    "\<forall>q. pageBytes (pmPages pm1 q) = pageBytes (pmPages pm q)"
    by blast
  have "chain pm (q # ps)" using Cons.prems by simp
  then have "chain pm1 (q # ps)"
    by (rule chain_cong) (simp_all add: next_of_def pm1(2,5))
  from Cons.IH [OF this] obtain pm' where pm': "free_chain q pm1 = Some (Ok (), pm')" "pmTotal pm' = pmTotal pm1"
    "freeList pm' = freeList pm1 @ q # ps" "nextPageID pm' = nextPageID pm1"
    "\<forall>q. pageBytes (pmPages pm' q) = pageBytes (pmPages pm1 q)"
    by blast
  have "free_chain p pm = Some (Ok (), pm')"
    using free_chain_step [OF Cons.prems pm1(1)] pm'(1) by simp
  moreover have "freeList pm' = freeList pm @ p # q # ps" using pm'(3) pm1(3) by simp
  moreover have "\<forall>r. pageBytes (pmPages pm' r) = pageBytes (pmPages pm r)" using pm'(5) pm1(5) by simp
  ultimately show ?case using pm'(2,4) pm1(2,4) by (intro exI [of _ pm']) simp
qed

section \<open>Allocating a chain from pages never used before\<close>

text \<open>No page has been freed yet, page 0 is taken, and the pages still to be handed out are zero where a
  chain keeps its link.\<close>

definition fresh :: "page_manager \<Rightarrow> bool" where
  "fresh pm \<longleftrightarrow> freeList pm = [] \<and> nextPageID pm \<noteq> 0 \<and> (\<forall>p. length (pageBytes (pmPages pm p)) = 4096) \<and>
     (\<forall>p. nextPageID pm \<le> p \<longrightarrow> next_of (pmPages pm p) = 0)"

lemma alloc_fresh_Ok:
  assumes "fresh pm" "pageAlloc pm = (Ok p, pm')"
  shows "p = nextPageID pm" "p < pmTotal pm" "nextPageID pm' = p + 1" "p < p + 1" "freeList pm' = []"
    "pmTotal pm' = pmTotal pm" "\<And>q. pageBytes (pmPages pm' q) = pageBytes (pmPages pm q)"
proof -
  have *: "p = nextPageID pm \<and> p < pmTotal pm \<and> nextPageID pm' = p + 1 \<and> freeList pm' = [] \<and>
      pmTotal pm' = pmTotal pm \<and> (\<forall>q. pageBytes (pmPages pm' q) = pageBytes (pmPages pm q))"
    using assms by (auto simp: fresh_def pageAlloc_def Let_def split: if_splits)
  then show "p = nextPageID pm" "p < pmTotal pm" "nextPageID pm' = p + 1" "freeList pm' = []"
    "pmTotal pm' = pmTotal pm" "\<And>q. pageBytes (pmPages pm' q) = pageBytes (pmPages pm q)"
    by blast+
  have "unat p < unat (pmTotal pm)" "unat (pmTotal pm) < 4294967296"
    using * unsigned_less [where 'a = nat, of "pmTotal pm"] by (auto simp: word_less_nat_alt)
  then show "p < p + 1"
    by (simp add: word_less_nat_alt unat_word_ariths)
qed

lemma ucast_page_id [simp]: "(ucast (ucast (p :: u32) :: u64) :: u32) = p"
  by (rule bit_word_eqI) (simp add: bit_simps)

lemma chain_link:
  assumes "chain pm (ps @ [prev])" "pmTotal pm' = pmTotal pm"
    "\<And>q. q \<in> set ps \<Longrightarrow> next_of (pmPages pm' q) = next_of (pmPages pm q)"
    "next_of (pmPages pm' prev) = ucast p" "p \<noteq> 0" "p < pmTotal pm" "next_of (pmPages pm' p) = 0"
  shows "chain pm' (ps @ [prev, p])"
  using assms
proof (induction ps rule: induct_list012)
  case (3 x y zs)
  have "chain pm' ((y # zs) @ [prev, p])"
    using "3.prems" by (intro "3.IH"(2)) auto
  with "3.prems" show ?case by simp
qed auto

lemma alloc_fresh_cases:
  assumes "fresh pm"
  obtains (ok) p pm' where "pageAlloc pm = (Ok p, pm')"
  | (full) pm' where "pageAlloc pm = (Err ErrOffHeapOutOfMemory, pm')" "pmTotal pm' = pmTotal pm"
    "freeList pm' = []" "pmPages pm' = pmPages pm"
  using assms by (cases "pmTotal pm \<le> nextPageID pm") (auto simp: fresh_def pageAlloc_def Let_def)

text \<open>The loop after its first page: the chain so far is linked, closed and holds the first chunks of
  the data. It ends with the whole data in the chain, or without memory and with every page of the
  chain back in the free list.\<close>

lemma alloc_chain_rest:
  assumes "fresh pm" "chain pm (ps @ [prev])" "prev \<notin> set ps" "\<forall>p \<in> set (ps @ [prev]). p < nextPageID pm"
    "chain_data pm (ps @ [prev]) = take (i * 4024) data" "0 < i" "length data \<le> (i + m) * 4024"
    "first = hd (ps @ [prev])" "first \<noteq> 0"
  shows "\<exists>x pm'. alloc_chain m i data first prev pm = Some (x, pm') \<and>
    (x = Ok first \<and> fresh pm' \<and> (\<exists>qs. chain pm' (ps @ prev # qs) \<and> chain_data pm' (ps @ prev # qs) = data) \<or>
     x = Err ErrOffHeapOutOfMemory \<and> (\<exists>qs. freeList pm' = ps @ prev # qs))"
  using assms
proof (induction m arbitrary: i ps prev pm)
  case 0
  then show ?case by (auto intro: exI [of _ "[]"])
next
  case (Suc m)
  from Suc.prems(1) show ?case
  proof (cases rule: alloc_fresh_cases)
    case (full pm1)
    have "chain pm1 (ps @ [prev])"
      by (rule chain_cong [OF Suc.prems(2)]) (simp_all add: full)
    moreover obtain qs where qs: "ps @ [prev] = first # qs"
      using Suc.prems(8) by (cases ps) auto
    ultimately obtain pm2 where "free_chain first pm1 = Some (Ok (), pm2)" "freeList pm2 = ps @ [prev]"
      using free_chain_all [of pm1 first qs] full(3) by auto
    with full Suc.prems(9) show ?thesis by (simp add: FreeOverflow_def)
  next
    case (ok p pm1)
    note f = alloc_fresh_Ok [OF Suc.prems(1) ok]
    have bytes: "length (pageBytes (pmPages pm1 q)) = 4096" for q
      using Suc.prems(1) by (simp add: fresh_def f(7))
    have same: "next_of (pmPages pm1 q) = next_of (pmPages pm q)"
      "chunk_of (pmPages pm1 q) = chunk_of (pmPages pm q)" for q
      by (simp_all add: next_of_def chunk_of_def chunk_size_def f(7))
    let ?chunk = "take 4024 (drop (i * 4024) data)"
    let ?pm = "with_page p (write_chunk ?chunk) (with_page prev (set_next (ucast p)) pm1)"
    have p: "p \<noteq> 0" "p \<noteq> prev" "p \<notin> set ps" "next_of (pmPages pm p) = 0"
      using Suc.prems(1,4) f(1) by (auto simp: fresh_def)
    have run: "alloc_chain (Suc m) i data first prev pm = alloc_chain m (Suc i) data first p ?pm"
      using Suc.prems(6) ok by (simp add: OverflowPageDataSize_def Let_def)
    have nexts: "next_of (pmPages ?pm q) = (if q = prev then ucast p else next_of (pmPages pm q))"
      and chunks: "chunk_of (pmPages ?pm q) = (if q = p then ?chunk else chunk_of (pmPages pm q))" for q
      using bytes p(2) same by auto
    have "prev < nextPageID pm" using Suc.prems(4) by simp
    then have fresh: "fresh ?pm"
      using Suc.prems(1) f(1,3-6) nexts bytes p
      by (auto simp: fresh_def simp del: pages_with_page(1)) (auto dest: order.strict_trans2 less_le_trans)
    have "chain ?pm (ps @ [prev, p])"
      using nexts Suc.prems(3) p f(2,6) by (intro chain_link [OF Suc.prems(2)]) (auto simp del: pages_with_page(1))
    then have ch: "chain ?pm ((ps @ [prev]) @ [p])" by simp
    have "chain_data ?pm (ps @ [prev]) = chain_data pm (ps @ [prev])"
      using chunks p by (intro chain_data_cong) (auto simp del: pages_with_page(1))
    moreover have "take (Suc i * 4024) data = take (i * 4024) data @ ?chunk"
      using take_add [of "i * 4024" 4024 data] by (simp add: add.commute)
    ultimately have data: "chain_data ?pm ((ps @ [prev]) @ [p]) = take (Suc i * 4024) data"
      using Suc.prems(5) chunks [of p] by (simp only: chain_data_snoc if_True simp_thms)
    have lt: "\<forall>q \<in> set ((ps @ [prev]) @ [p]). q < nextPageID ?pm"
      using Suc.prems(4) f(1,3,4) by (auto dest: less_trans)
    have "p \<notin> set (ps @ [prev])" "length data \<le> (Suc i + m) * 4024" "first = hd ((ps @ [prev]) @ [p])"
      using p Suc.prems(7,8) by (auto simp: hd_append)
    with Suc.IH [OF fresh ch _ lt data] Suc.prems(9) show ?thesis unfolding run by auto
  qed
qed

lemma AllocOverflow_fresh:
  assumes "fresh pm" "data \<noteq> []" "length data < 4294967296"
  shows "\<exists>x pm'. AllocOverflow data pm = Some (x, pm') \<and>
    ((\<exists>p qs. x = Ok p \<and> fresh pm' \<and> chain pm' (p # qs) \<and> chain_data pm' (p # qs) = data) \<or>
     x = Err ErrOffHeapOutOfMemory)"
proof -
  let ?n = "(length data + 4023) div 4024"
  have "?n < 4294967296" "0 < ?n" "length data \<le> ?n * 4024"
    using assms(2,3) by (simp, cases data, auto)
  then obtain m where m: "?n = Suc m" "length data \<le> (1 + m) * 4024"
    using gr0_implies_Suc by force
  have al: "AllocOverflow data pm = alloc_chain (Suc m) 0 data 0 0 pm"
    unfolding m(1) [symmetric] using assms(2) unat_of_nat_fits(2) [OF \<open>?n < 4294967296\<close>]
    by (simp add: AllocOverflow_def OverflowPageDataSize_def Let_def add.commute)
  from assms(1) show ?thesis
  proof (cases rule: alloc_fresh_cases)
    case (full pm1)
    with al show ?thesis by simp
  next
    case (ok p pm1)
    note f = alloc_fresh_Ok [OF assms(1) ok]
    let ?pm = "with_page p (write_chunk (take 4024 data)) pm1"
    have bytes: "length (pageBytes (pmPages pm1 q)) = 4096" for q
      using assms(1) by (simp add: fresh_def f(7))
    have same: "next_of (pmPages pm1 q) = next_of (pmPages pm q)" for q
      by (simp add: next_of_def f(7))
    have nx: "next_of (pmPages ?pm q) = next_of (pmPages pm q)" for q
      using bytes same by (cases "q = p") simp_all
    have p: "p \<noteq> 0" "next_of (pmPages pm p) = 0"
      using assms(1) f(1) by (auto simp: fresh_def)
    have "fresh ?pm"
      using assms(1) f(1,3-5) bytes nx
      by (auto simp: fresh_def)
    moreover have "chain ?pm ([] @ [p])" "chain_data ?pm ([] @ [p]) = take (1 * 4024) data"
      using f(2,6) nx [of p] p bytes by (simp_all add: chain_data_def)
    moreover have "\<forall>q \<in> set ([] @ [p]). q < nextPageID ?pm" using f(3,4) by simp
    ultimately show ?thesis
      using alloc_chain_rest [of ?pm "[]" p 1 data m p] m(2) p(1) al ok
      by (auto simp: OverflowPageDataSize_def Let_def)
  qed
qed

text \<open>On such a manager \<open>DefaultLOBManager\<close> is the store of large values that the codec relies on.\<close>

lemma defAllocate_read:
  assumes "fresh pm" "data \<noteq> []" "length data < 4294967296" "defAllocate data pm = (Ok r, pm')"
  shows "fresh pm' \<and> defRead r pm' = Ok data"
proof -
  obtain x pm1 where x: "AllocOverflow data pm = Some (x, pm1)"
    "(\<exists>p qs. x = Ok p \<and> fresh pm1 \<and> chain pm1 (p # qs) \<and> chain_data pm1 (p # qs) = data) \<or>
     x = Err ErrOffHeapOutOfMemory"
    using AllocOverflow_fresh [OF assms(1-3)] by blast
  then have al: "(bind_outcome x (\<lambda>p. Ok \<lparr>FirstPageID = p, TotalLen = of_nat (length data)\<rparr>), pm1) = (Ok r, pm')"
    using assms(4) by (simp add: defAllocate_def returned_def)
  then obtain p where p: "x = Ok p" "pm' = pm1" "r = \<lparr>FirstPageID = p, TotalLen = of_nat (length data)\<rparr>"
    by (cases x) simp_all
  with x(2) obtain qs where qs: "fresh pm1" "chain pm1 (p # qs)" "chain_data pm1 (p # qs) = data"
    by auto
  have "unat (of_nat (length data) :: u32) = length data" using assms(3) by simp
  then have "(of_nat (length data) :: u32) \<noteq> 0" using assms(2) by (metis length_0_conv unat_0)
  with p qs show ?thesis by (simp add: defRead_def ReadOverflow_def read_chain_data)
qed

interpretation overflow: lob_store defaultLOBManager fresh
proof
  fix w d r w'
  assume "fresh w" "d \<noteq> []" "length d < 4294967296" "lobAllocate defaultLOBManager d w = (Ok r, w')"
  then show "lobRead defaultLOBManager r w' = Ok d"
    using defAllocate_read by (simp add: defaultLOBManager_def)
next
  fix w d r w'
  assume "fresh w" "length d < 4294967296" "lobAllocate defaultLOBManager d w = (Ok r, w')"
  then show "fresh w'"
    using defAllocate_read
    by (cases "d = []") (auto simp: defaultLOBManager_def defAllocate_def returned_def AllocOverflow_def)
qed

text \<open>A large value stored through the overflow pages of a manager that has not recycled a page is
  either refused for lack of pages or read back whole: the encoder returns, and decoding its
  record gives the value, its timestamp and its previous version's timestamp.\<close>

theorem large_value_roundtrip:
  assumes "fresh pm" "LOBSizeThreshold < length v" "length v < 4294967296"
    and "beginTS \<noteq> 0" "prevBeginTS = 0 \<longrightarrow> prevVal = []" "length prevVal \<le> 65515"
  shows "\<exists>r pm'. EncodeValue v beginTS prevFlag prevBeginTS prevVal (Some defaultLOBManager) None pm = (r, pm') \<and>
    (r = Err ErrOffHeapOutOfMemory \<or>
     (\<exists>raw mv. r = Ok raw \<and> DecodeValue raw (Some defaultLOBManager) None pm' = Ok mv \<and>
        RealVal mv = v \<and> BeginTS mv = beginTS \<and> PrevBeginTS mv = prevBeginTS))"
proof -
  have v: "v \<noteq> []" using assms(2) by auto
  obtain x pm1 where x: "AllocOverflow v pm = Some (x, pm1)" "(\<exists>p. x = Ok p) \<or> x = Err ErrOffHeapOutOfMemory"
    using AllocOverflow_fresh [OF assms(1) v assms(3)] by blast
  have e: "EncodeValue v beginTS prevFlag prevBeginTS prevVal (Some defaultLOBManager) None pm =
      encodeLOBOverflow v beginTS prevFlag prevBeginTS prevVal defaultLOBManager pm"
    using assms(2) by (simp add: EncodeValue_def)
  show ?thesis
  proof (cases x)
    case (Ok p)
    then obtain raw where "encodeLOBOverflow v beginTS prevFlag prevBeginTS prevVal defaultLOBManager pm = (Ok raw, pm1)"
      using x(1) assms(4)
      by (simp add: encodeLOBOverflow_def defaultLOBManager_def defAllocate_def returned_def BuildMVCC_def Let_def)
    with overflow.overflow_roundtrip [OF assms(1) v assms(3-6) this] e show ?thesis by auto
  next
    case (Err er)
    with x e show ?thesis
      by (simp add: encodeLOBOverflow_def defaultLOBManager_def defAllocate_def returned_def)
  qed (use x in auto)
qed

definition ex_pages :: page_manager where
  "ex_pages = \<lparr>pmTotal = 8, pmUsed = 1, nextPageID = 1, freeList = [], pmPages = (\<lambda>_. zero_page)\<rparr>"

lemma le_get_zero [simp]: "le_get (replicate n 0) = 0"
  by (induction n) auto

lemma next_of_zero [simp]: "next_of zero_page = 0"
  by (simp add: next_of_def zero_page_def u64_at_def field_def page_consts)

lemma fresh_ex: "fresh ex_pages"
  by (simp add: fresh_def ex_pages_def) (simp add: zero_page_def)

theorem large_value_roundtrip_witness:
  "\<exists>r pm'. EncodeValue (replicate 5000 7) 3 0 0 [] (Some defaultLOBManager) None ex_pages = (r, pm') \<and>
    (r = Err ErrOffHeapOutOfMemory \<or>
     (\<exists>raw mv. r = Ok raw \<and> DecodeValue raw (Some defaultLOBManager) None pm' = Ok mv \<and>
        RealVal mv = replicate 5000 7 \<and> BeginTS mv = 3 \<and> PrevBeginTS mv = 0))"
  by (rule large_value_roundtrip [OF fresh_ex]) (simp_all add: LOBSizeThreshold_def)

section \<open>Recycled pages\<close>

text \<open>Claim C35. A recycled overflow page keeps the link of the chain it was part of: \<open>Alloc\<close> clears only the
  header and \<open>AllocOverflow\<close> never writes the link of the last page. After a value of two or more
  pages is freed, the next value that fits one page is stored in the first of them and reads back
  with the rest of the freed value appended to it.\<close>

theorem recycled_chain_returns_stale_data:
  assumes "chain pm (p # q # ps)" "p \<notin> set (q # ps)" "p \<noteq> 0" "freeList pm = []"
    and "\<forall>x. length (pageBytes (pmPages pm x)) = 4096"
    and "FreeOverflow p pm = Some (Ok (), pm1)" "d \<noteq> []" "length d \<le> 4024"
  shows "\<exists>pm2. AllocOverflow d pm1 = Some (Ok p, pm2) \<and>
    ReadOverflow p (of_nat (length d)) pm2 = Some (Ok (d @ chain_data pm (q # ps)))"
proof -
  have f: "pmTotal pm1 = pmTotal pm" "freeList pm1 = p # q # ps"
    "\<And>x. pageBytes (pmPages pm1 x) = pageBytes (pmPages pm x)"
    using free_chain_all [OF assms(1)] assms(3,4,6) by (auto simp: FreeOverflow_def)
  have p: "p < pmTotal pm" using assms(1) by simp
  let ?pm = "with_page p (\<lambda>pg. pg\<lparr>phVersion := 1, phDeleted := 0\<rparr>) (clearPage p (pm1\<lparr>freeList := q # ps\<rparr>))"
  let ?pm1 = "?pm\<lparr>pmUsed := pmUsed ?pm + 1\<rparr>"
  let ?pm2 = "with_page p (write_chunk d) ?pm1"
  have al: "pageAlloc pm1 = (Ok p, ?pm1)"
    using f(1,2) p by (simp add: pageAlloc_def Let_def leD)
  have b1: "pageBytes (pmPages ?pm1 x) = pageBytes (pmPages pm x)" for x
    by (simp add: clearPage_def zero_header_def f(3))
  have old: "next_of (pmPages ?pm1 x) = next_of (pmPages pm x)" "chunk_of (pmPages ?pm1 x) = chunk_of (pmPages pm x)" for x
    unfolding next_of_def chunk_of_def chunk_size_def b1 by simp_all
  have nx: "next_of (pmPages ?pm2 x) = next_of (pmPages pm x)" for x
    using old(1) [of x] b1 [of p] assms(5,8) by (cases "x = p") (simp_all del: pages_with_page(1) add: pages_with_page(1) [of p "write_chunk d"])
  have ch: "chunk_of (pmPages ?pm2 x) = (if x = p then d else chunk_of (pmPages pm x))" for x
    using old(2) [of x] b1 [of p] assms(5,8) by (cases "x = p") (simp_all del: pages_with_page(1) add: pages_with_page(1) [of p "write_chunk d"])
  have n: "(length d + 4023) div 4024 = 1" "0 < length d"
    using assms(7,8) by (cases d; simp)+
  then have run: "AllocOverflow d pm1 = Some (Ok p, ?pm2)"
    using al assms(7,8) by (simp add: AllocOverflow_def OverflowPageDataSize_def Let_def add.commute)
  have "chain ?pm2 (p # q # ps)"
    by (rule chain_cong [OF assms(1)]) (simp_all only: nx, simp add: clearPage_def f(1))
  note rd = read_chain_data [OF this]
  have "chain_data ?pm2 (q # ps) = chain_data pm (q # ps)"
    using assms(2) ch by (intro chain_data_cong) (metis (no_types))
  then have data: "chain_data ?pm2 (p # q # ps) = d @ chain_data pm (q # ps)"
    using ch [of p] by (simp add: chain_data_def del: pages_with_page(1))
  have "unat (of_nat (length d) :: u32) = length d" using assms(8) by simp
  then have "(of_nat (length d) :: u32) \<noteq> 0" using n(2) by (metis less_irrefl unat_0)
  with run rd data show ?thesis by (intro exI [of _ ?pm2]) (simp add: ReadOverflow_def)
qed

definition ex_chain :: page_manager where
  "ex_chain = \<lparr>pmTotal = 8, pmUsed = 3, nextPageID = 3, freeList = [],
     pmPages = (\<lambda>_. zero_page)(1 := set_next 2 (write_chunk [1, 1] zero_page), 2 := write_chunk [9] zero_page)\<rparr>"

theorem recycled_chain_returns_stale_data_witness:
  "\<exists>pm1 pm2. FreeOverflow 1 ex_chain = Some (Ok (), pm1) \<and> AllocOverflow [5] pm1 = Some (Ok 1, pm2) \<and>
    ReadOverflow 1 1 pm2 = Some (Ok [5, 9])"
proof -
  have z: "length (pageBytes zero_page) = 4096" by (simp add: zero_page_def)
  have c: "chain ex_chain [1, 2]" "\<forall>x. length (pageBytes (pmPages ex_chain x)) = 4096"
    "chain_data ex_chain [2] = [9]" "freeList ex_chain = []"
    using z by (simp_all add: ex_chain_def chain_data_def)
  obtain pm1 where f: "FreeOverflow 1 ex_chain = Some (Ok (), pm1)"
    using free_chain_all [OF c(1)] by (auto simp: FreeOverflow_def)
  have "\<exists>pm2. AllocOverflow [5] pm1 = Some (Ok 1, pm2) \<and>
      ReadOverflow 1 (of_nat (length [5 :: byte])) pm2 = Some (Ok ([5] @ chain_data ex_chain [2]))"
    by (rule recycled_chain_returns_stale_data [OF c(1) _ _ c(4,2) f]) simp_all
  with f c(3) show ?thesis by auto
qed

section \<open>Allocation never shares a page\<close>

text \<open>The states of a manager after \<open>n\<close> calls, with the pages its clients hold: every page that was
  handed out and not given back.\<close>

inductive alloc_run :: "page_manager \<Rightarrow> nat \<Rightarrow> page_manager \<Rightarrow> u32 set \<Rightarrow> bool" for pm0 where
  start: "alloc_run pm0 0 pm0 {}"
| alloc: "alloc_run pm0 n pm own \<Longrightarrow> pageAlloc pm = (Ok p, pm') \<Longrightarrow> alloc_run pm0 (Suc n) pm' (insert p own)"
| full: "alloc_run pm0 n pm own \<Longrightarrow> pageAlloc pm = (Err e, pm') \<Longrightarrow> alloc_run pm0 (Suc n) pm' own"
| free: "alloc_run pm0 n pm own \<Longrightarrow> p \<in> own \<Longrightarrow> pageFree p pm = (r, pm') \<Longrightarrow> alloc_run pm0 (Suc n) pm' (own - {p})"

definition pm_ok :: "page_manager \<Rightarrow> u32 set \<Rightarrow> bool" where
  "pm_ok pm own \<longleftrightarrow> distinct (freeList pm) \<and> set (freeList pm) \<inter> own = {} \<and>
     set (freeList pm) \<union> own = {p. p < nextPageID pm \<and> p < pmTotal pm} \<and> pmUsed pm = of_nat (card own)"

lemma unat_Suc_page: "unat (a :: u32) < 4294967295 \<Longrightarrow> unat (a + 1) = Suc (unat a)"
  by (simp add: unat_word_ariths)

lemma below_Suc_page:
  "unat (a :: u32) < 4294967295 \<Longrightarrow> a < t \<Longrightarrow> {p. p < a + 1 \<and> p < t} = insert a {p. p < a \<and> p < t}"
  by (auto simp: word_less_nat_alt unat_Suc_page word_unat_eq_iff less_Suc_eq)

lemma below_full_page:
  "unat (a :: u32) < 4294967295 \<Longrightarrow> t \<le> a \<Longrightarrow> {p. p < a + 1 \<and> p < t} = {p. p < a \<and> p < t}"
  by (auto simp: word_less_nat_alt word_le_nat_alt unat_Suc_page)

lemma pm_ok_alloc:
  assumes "pm_ok pm own" "unat (nextPageID pm) < 4294967295" "pageAlloc pm = (Ok p, pm')"
  shows "p \<notin> own" "p < pmTotal pm" "pm_ok pm' (insert p own)"
    "unat (nextPageID pm') \<le> Suc (unat (nextPageID pm))" "pmTotal pm' = pmTotal pm"
proof -
  have fin: "finite own" by simp
  have "p \<notin> own \<and> p < pmTotal pm \<and> pm_ok pm' (insert p own) \<and>
    unat (nextPageID pm') \<le> Suc (unat (nextPageID pm)) \<and> pmTotal pm' = pmTotal pm"
  proof (cases "freeList pm")
    case (Cons x xs)
    with assms(3) have a: "x = p" "\<not> pmTotal pm \<le> p" "nextPageID pm' = nextPageID pm" "pmTotal pm' = pmTotal pm"
      "freeList pm' = xs" "pmUsed pm' = pmUsed pm + 1"
      by (auto simp: pageAlloc_def Let_def clearPage_def split: if_splits)
    with Cons assms(1) have "p \<notin> own" by (auto simp: pm_ok_def)
    moreover have "pm_ok pm' (insert p own)"
      using assms(1) Cons a \<open>p \<notin> own\<close> fin by (auto simp: pm_ok_def)
    ultimately show ?thesis using a by auto
  next
    case Nil
    with assms(3) have a: "p = nextPageID pm" "\<not> pmTotal pm \<le> p" "nextPageID pm' = p + 1" "pmTotal pm' = pmTotal pm"
      "freeList pm' = []" "pmUsed pm' = pmUsed pm + 1"
      by (auto simp: pageAlloc_def Let_def split: if_splits)
    have own: "own = {p. p < nextPageID pm \<and> p < pmTotal pm}"
      using assms(1) Nil by (simp add: pm_ok_def)
    then have "p \<notin> own" using a(1) by auto
    moreover have "pm_ok pm' (insert p own)"
      using assms(1,2) a \<open>p \<notin> own\<close> own below_Suc_page [of p "pmTotal pm"] fin by (simp add: pm_ok_def)
    ultimately show ?thesis using a unat_Suc_page [OF assms(2)] by auto
  qed
  then show "p \<notin> own" "p < pmTotal pm" "pm_ok pm' (insert p own)"
    "unat (nextPageID pm') \<le> Suc (unat (nextPageID pm))" "pmTotal pm' = pmTotal pm"
    by blast+
qed

lemma pm_ok_full:
  assumes "pm_ok pm own" "unat (nextPageID pm) < 4294967295" "pageAlloc pm = (Err e, pm')"
  shows "pm_ok pm' own" "unat (nextPageID pm') \<le> Suc (unat (nextPageID pm))" "own = {p. p < pmTotal pm}"
    "pmTotal pm' = pmTotal pm"
proof -
  have a: "freeList pm = []" "pmTotal pm \<le> nextPageID pm" "pm' = pm\<lparr>nextPageID := nextPageID pm + 1\<rparr>"
    using assms(3) by (auto simp: pageAlloc_def Let_def split: if_splits prod.splits option.splits elim: Dequeue.elims)
  then show "pm_ok pm' own" "pmTotal pm' = pmTotal pm"
    using assms(1,2) below_full_page [of "nextPageID pm" "pmTotal pm"] by (simp_all add: pm_ok_def)
  show "unat (nextPageID pm') \<le> Suc (unat (nextPageID pm))"
    using a unat_Suc_page [OF assms(2)] by simp
  show "own = {p. p < pmTotal pm}"
    using assms(1) a by (auto simp: pm_ok_def)
qed

lemma pm_ok_free:
  assumes "pm_ok pm own" "p \<in> own" "pageFree p pm = (r, pm')"
  shows "pm_ok pm' (own - {p})" "nextPageID pm' = nextPageID pm" "pmTotal pm' = pmTotal pm"
proof -
  have p: "p < pmTotal pm" "p \<notin> set (freeList pm)" using assms(1,2) by (auto simp: pm_ok_def)
  then have a: "nextPageID pm' = nextPageID pm" "pmTotal pm' = pmTotal pm" "freeList pm' = freeList pm @ [p]"
    "pmUsed pm' = pmUsed pm - 1"
    using assms(3) by (auto simp: pageFree_def Let_def Enqueue_def split: if_splits)
  have "0 < card own" using assms(2) by (simp add: card_gt_0_iff) auto
  then have "of_nat (card (own - {p})) = (of_nat (card own) - 1 :: u32)"
    using assms(2) by (simp add: of_nat_diff)
  with assms(1,2) p a show "pm_ok pm' (own - {p})" by (auto simp: pm_ok_def)
  show "nextPageID pm' = nextPageID pm" "pmTotal pm' = pmTotal pm" by (rule a)+
qed

lemma alloc_run_ok:
  assumes "alloc_run pm0 n pm own" "pm_ok pm0 {}" "nextPageID pm0 = 0" "n < 4294967295"
  shows "pm_ok pm own \<and> unat (nextPageID pm) \<le> n \<and> pmTotal pm = pmTotal pm0"
  using assms
proof (induction rule: alloc_run.induct)
  case start
  then show ?case by simp
next
  case (alloc n pm own p pm')
  with pm_ok_alloc [of pm own p pm'] show ?case by auto
next
  case (full n pm own e pm')
  with pm_ok_full [of pm own e pm'] show ?case by auto
next
  case (free n pm own p r pm')
  with pm_ok_free [of pm own p r pm'] show ?case by auto
qed

text \<open>Claim C16. The allocator never hands out a page that is still in use. In every state reached from a new
  manager by fewer than 2^32 - 1 calls of \<open>Alloc\<close> and \<open>Free\<close> of pages in use, \<open>used\<close> counts the
  pages in use, and the next \<open>Alloc\<close> returns a page of the mapping that nobody holds, or fails
  because all pages of the mapping are held; it does not panic.\<close>

theorem alloc_never_shares:
  assumes "NewPageManager mmapSize True mem = Ok pm0" "alloc_run pm0 n pm own" "n < 4294967295"
  shows "pmUsed pm = of_nat (card own) \<and>
    (case fst (pageAlloc pm) of
       Ok p \<Rightarrow> p \<notin> own \<and> p < pmTotal pm0
     | Err e \<Rightarrow> own = {p. p < pmTotal pm0}
     | Panic \<Rightarrow> False)"
proof -
  have "nextPageID pm0 = 0" "pm_ok pm0 {}"
    using assms(1) by (auto simp: NewPageManager_def Let_def pm_ok_def NewLockFreeQueue_def split: if_splits)
  with alloc_run_ok [OF assms(2)] assms(3)
  have ok: "pm_ok pm own" "unat (nextPageID pm) < 4294967295" "pmTotal pm = pmTotal pm0" by auto
  have used: "pmUsed pm = of_nat (card own)" using ok(1) by (simp add: pm_ok_def)
  obtain r pm' where al: "pageAlloc pm = (r, pm')" by (cases "pageAlloc pm")
  show ?thesis
  proof (cases r)
    case (Ok p)
    with pm_ok_alloc(1,2) [OF ok(1,2)] al ok(3) used show ?thesis by simp
  next
    case (Err e)
    with pm_ok_full(3) [OF ok(1,2)] al ok(3) used show ?thesis by simp
  next
    case Panic
    then obtain p ps where "freeList pm = p # ps" "pmTotal pm \<le> p"
      using al by (cases "freeList pm") (auto simp: pageAlloc_def Let_def split: if_splits)
    with ok(1) have False by (auto simp: pm_ok_def)
    then show ?thesis ..
  qed
qed

theorem alloc_never_shares_witness:
  "\<exists>pm0 pm. NewPageManager 8192 True (\<lambda>_. zero_page) = Ok pm0 \<and> pageAlloc pm0 = (Ok 0, pm) \<and>
    (case fst (pageAlloc pm) of Ok p \<Rightarrow> p \<notin> {0} \<and> p < 2 | Err e \<Rightarrow> {0} = {p. p < (2 :: u32)} | Panic \<Rightarrow> False)"
proof -
  obtain pm0 where new: "NewPageManager 8192 True (\<lambda>_. zero_page) = Ok pm0" "pmTotal pm0 = 2"
    "nextPageID pm0 = 0" "freeList pm0 = []"
    by (simp add: NewPageManager_def Let_def NewLockFreeQueue_def)
  then obtain pm where al: "pageAlloc pm0 = (Ok 0, pm)"
    by (simp add: pageAlloc_def Let_def)
  have "alloc_run pm0 (Suc 0) pm (insert 0 {})"
    by (rule alloc_run.alloc [OF alloc_run.start al])
  with alloc_never_shares [OF new(1) this, unfolded new(2)] new(1) al show ?thesis by auto
qed

end
