(* ===== verification/FD_Cache.thy ===== *)
theory FD_Cache
  imports NexKV_Prelude "HOL-Library.AList" "HOL-Library.Multiset"
begin

text \<open>
  The cache of open file descriptors of the large-value files (\<open>lobFDCache\<close> in \<open>lob/file_store.go\<close>): a
  bounded LRU cache with reference counts. The entries are objects on a heap, linked in both
  directions from the most to the least recently used one; the maps of the source are association
  lists from ids to addresses. \<open>fcClosed\<close> records the descriptors on which \<open>Close\<close> was called. The
  mutex makes each method one step.
\<close>

section \<open>State\<close>

record fd_entry =
  feF :: nat
  feID :: u64
  refCount :: int
  fePrev :: "nat option"
  feNext :: "nat option"

record fd_cache =
  fcCapacity :: int
  fcEntries :: "(u64 \<times> nat) list"
  pendingClose :: "(u64 \<times> nat) list"
  fcHead :: "nat option"
  fcTail :: "nat option"
  fcHits :: u64
  fcMisses :: u64
  fcHeap :: "nat \<Rightarrow> fd_entry"
  fcNew :: nat
  fcClosed :: "nat list"

record fd_cache_stats =
  statHits :: u64
  statMisses :: u64
  statSize :: nat

definition no_entry :: fd_entry where
  "no_entry = \<lparr>feF = 0, feID = 0, refCount = 0, fePrev = None, feNext = None\<rparr>"

definition newLobFDCache :: "int \<Rightarrow> fd_cache" where
  "newLobFDCache capacity = \<lparr>fcCapacity = capacity, fcEntries = [], pendingClose = [], fcHead = None, fcTail = None,
     fcHits = 0, fcMisses = 0, fcHeap = \<lambda>_. no_entry, fcNew = 0, fcClosed = []\<rparr>"

definition set_fde :: "nat \<Rightarrow> (fd_entry \<Rightarrow> fd_entry) \<Rightarrow> fd_cache \<Rightarrow> fd_cache" where
  "set_fde a f c = c\<lparr>fcHeap := (fcHeap c)(a := f (fcHeap c a))\<rparr>"

definition close_fd :: "nat \<Rightarrow> fd_cache \<Rightarrow> fd_cache" where
  "close_fd f c = c\<lparr>fcClosed := fcClosed c @ [f]\<rparr>"

section \<open>The linked list\<close>

definition addToHead :: "nat \<Rightarrow> fd_cache \<Rightarrow> fd_cache" where
  "addToHead e c =
     (let c1 = set_fde e (\<lambda>n. n\<lparr>feNext := fcHead c, fePrev := None\<rparr>) c;
          c2 = (case fcHead c1 of None \<Rightarrow> c1 | Some h \<Rightarrow> set_fde h (\<lambda>n. n\<lparr>fePrev := Some e\<rparr>) c1);
          c3 = c2\<lparr>fcHead := Some e\<rparr>
      in if fcTail c3 = None then c3\<lparr>fcTail := Some e\<rparr> else c3)"

definition unlink_fde :: "nat \<Rightarrow> fd_cache \<Rightarrow> fd_cache" where
  "unlink_fde e c =
     (let c1 = (case fePrev (fcHeap c e) of None \<Rightarrow> c
                | Some p \<Rightarrow> set_fde p (\<lambda>n. n\<lparr>feNext := feNext (fcHeap c e)\<rparr>) c);
          c2 = (case feNext (fcHeap c1 e) of None \<Rightarrow> c1
                | Some x \<Rightarrow> set_fde x (\<lambda>n. n\<lparr>fePrev := fePrev (fcHeap c1 e)\<rparr>) c1);
          c3 = (if fcHead c2 = Some e then c2\<lparr>fcHead := feNext (fcHeap c2 e)\<rparr> else c2);
          c4 = (if fcTail c3 = Some e then c3\<lparr>fcTail := fePrev (fcHeap c3 e)\<rparr> else c3)
      in set_fde e (\<lambda>n. n\<lparr>fePrev := None, feNext := None\<rparr>) c4)"

definition moveToHead :: "nat \<Rightarrow> fd_cache \<Rightarrow> fd_cache" where
  "moveToHead e c = (if fcHead c = Some e then c else addToHead e (unlink_fde e c))"

section \<open>Operations\<close>

definition fdGet :: "u64 \<Rightarrow> fd_cache \<Rightarrow> nat option \<times> fd_cache" where
  "fdGet lobID c = (case map_of (fcEntries c) lobID of
     None \<Rightarrow> (None, c\<lparr>fcMisses := fcMisses c + 1\<rparr>)
   | Some e \<Rightarrow>
       let c1 = set_fde e (\<lambda>n. n\<lparr>refCount := refCount n + 1\<rparr>) (c\<lparr>fcHits := fcHits c + 1\<rparr>);
           c2 = moveToHead e c1
       in (Some (feF (fcHeap c2 e)), c2))"

definition fdRelease :: "u64 \<Rightarrow> fd_cache \<Rightarrow> fd_cache" where
  "fdRelease lobID c = (case map_of (fcEntries c) lobID of
     Some e \<Rightarrow> set_fde e (\<lambda>n. n\<lparr>refCount := refCount n - 1\<rparr>) c
   | None \<Rightarrow> (case map_of (pendingClose c) lobID of
       None \<Rightarrow> c
     | Some e \<Rightarrow>
         let c1 = set_fde e (\<lambda>n. n\<lparr>refCount := refCount n - 1\<rparr>) c
         in if refCount (fcHeap c1 e) \<le> 0
            then close_fd (feF (fcHeap c1 e)) (c1\<lparr>pendingClose := AList.delete lobID (pendingClose c1)\<rparr>)
            else c1))"

definition fdStats :: "fd_cache \<Rightarrow> fd_cache_stats" where
  "fdStats c = \<lparr>statHits = fcHits c, statMisses = fcMisses c, statSize = length (fcEntries c)\<rparr>"

text \<open>An entry that left the list is closed, or kept aside while somebody uses its descriptor.\<close>

definition retire_fde :: "u64 \<Rightarrow> nat \<Rightarrow> fd_cache \<Rightarrow> fd_cache" where
  "retire_fde lobID e c =
     (if 0 < refCount (fcHeap c e) then c\<lparr>pendingClose := AList.update lobID e (pendingClose c)\<rparr>
      else close_fd (feF (fcHeap c e)) c)"

definition evictTail :: "fd_cache \<Rightarrow> fd_cache" where
  "evictTail c = (case fcTail c of
     None \<Rightarrow> c
   | Some e \<Rightarrow>
       let c1 = unlink_fde e c; lobID = feID (fcHeap c1 e)
       in retire_fde lobID e (c1\<lparr>fcEntries := AList.delete lobID (fcEntries c1)\<rparr>))"

definition fdAdd :: "u64 \<Rightarrow> nat \<Rightarrow> fd_cache \<Rightarrow> fd_cache" where
  "fdAdd lobID f c = (case map_of (fcEntries c) lobID of
     Some e \<Rightarrow> moveToHead e (set_fde e (\<lambda>n. n\<lparr>feF := f\<rparr>) c)
   | None \<Rightarrow>
       let e = fcNew c;
           c1 = c\<lparr>fcHeap := (fcHeap c)(e := \<lparr>feF = f, feID = lobID, refCount = 0, fePrev = None, feNext = None\<rparr>), fcNew := Suc e\<rparr>;
           c2 = addToHead e (c1\<lparr>fcEntries := AList.update lobID e (fcEntries c1)\<rparr>)
       in if fcCapacity c2 < int (length (fcEntries c2)) then evictTail c2 else c2)"

definition fdRemove :: "u64 \<Rightarrow> fd_cache \<Rightarrow> fd_cache" where
  "fdRemove lobID c = (case map_of (fcEntries c) lobID of
     None \<Rightarrow> c
   | Some e \<Rightarrow>
       let c1 = unlink_fde e c
       in retire_fde lobID e (c1\<lparr>fcEntries := AList.delete lobID (fcEntries c1)\<rparr>))"

definition fdCloseAll :: "fd_cache \<Rightarrow> fd_cache" where
  "fdCloseAll c =
     (let cs = map (\<lambda>(_, e). feF (fcHeap c e)) (fcEntries c) @ map (\<lambda>(_, e). feF (fcHeap c e)) (pendingClose c)
      in c\<lparr>fcClosed := fcClosed c @ cs, fcEntries := [], pendingClose := [], fcHead := None, fcTail := None\<rparr>)"

section \<open>List segments\<close>

text \<open>The objects \<open>xs\<close> are linked in this order, between the neighbours \<open>p\<close> and \<open>n\<close>.\<close>

fun seg :: "(nat \<Rightarrow> fd_entry) \<Rightarrow> nat option \<Rightarrow> nat list \<Rightarrow> nat option \<Rightarrow> bool" where
  "seg h p [] n \<longleftrightarrow> True"
| "seg h p (x # xs) n \<longleftrightarrow> fePrev (h x) = p \<and> feNext (h x) = (case xs of [] \<Rightarrow> n | y # _ \<Rightarrow> Some y) \<and> seg h (Some x) xs n"

definition first_of :: "nat list \<Rightarrow> nat option \<Rightarrow> nat option" where
  "first_of xs n = (case xs of [] \<Rightarrow> n | x # _ \<Rightarrow> Some x)"

definition last_of :: "nat option \<Rightarrow> nat list \<Rightarrow> nat option" where
  "last_of p xs = (if xs = [] then p else Some (last xs))"

lemma ends_of [simp]:
  "first_of [] n = n" "first_of (x # xs) n = Some x" "last_of p [] = p" "last_of p (x # xs) = last_of (Some x) xs"
  "first_of (xs @ ys) n = first_of xs (first_of ys n)" "last_of p (xs @ ys) = last_of (last_of p xs) ys"
  by (auto simp: first_of_def last_of_def split: list.splits)

lemma seg_append: "seg h p (xs @ ys) n \<longleftrightarrow> seg h p xs (first_of ys n) \<and> seg h (last_of p xs) ys n"
  by (induction xs arbitrary: p) (auto simp: first_of_def split: list.splits)

lemma seg_cong: "(\<And>x. x \<in> set xs \<Longrightarrow> fePrev (h' x) = fePrev (h x) \<and> feNext (h' x) = feNext (h x)) \<Longrightarrow> seg h' p xs n = seg h p xs n"
  by (induction xs arbitrary: p) auto

lemma seg_frame [simp]: "a \<notin> set xs \<Longrightarrow> seg (h(a := v)) p xs n = seg h p xs n"
  by (rule seg_cong) auto

lemma seg_redirect_next:
  assumes "seg h p (xs @ [a]) n" "a \<notin> set xs"
  shows "seg (h(a := (h a)\<lparr>feNext := n'\<rparr>)) p (xs @ [a]) n'"
  using assms by (simp add: seg_append)

lemma seg_redirect_prev:
  assumes "seg h p (a # xs) n" "a \<notin> set xs"
  shows "seg (h(a := (h a)\<lparr>fePrev := p'\<rparr>)) p' (a # xs) n"
  using assms by (simp split: list.splits)

definition dll :: "fd_cache \<Rightarrow> nat list \<Rightarrow> bool" where
  "dll c xs \<longleftrightarrow> distinct xs \<and> seg (fcHeap c) None xs None \<and> fcHead c = first_of xs None \<and> fcTail c = last_of None xs"

text \<open>Only the links differ.\<close>

definition relinked :: "fd_cache \<Rightarrow> fd_cache \<Rightarrow> bool" where
  "relinked c c' \<longleftrightarrow>
     (\<forall>a. feF (fcHeap c' a) = feF (fcHeap c a) \<and> feID (fcHeap c' a) = feID (fcHeap c a) \<and> refCount (fcHeap c' a) = refCount (fcHeap c a)) \<and>
     c'\<lparr>fcHead := fcHead c, fcTail := fcTail c, fcHeap := fcHeap c\<rparr> = c"

lemma relinked_trans: "relinked a b \<Longrightarrow> relinked b c \<Longrightarrow> relinked a c"
  by (cases a; cases b; cases c) (simp add: relinked_def)

lemma relinkedD:
  assumes "relinked c c'"
  shows "feF (fcHeap c' a) = feF (fcHeap c a)" "feID (fcHeap c' a) = feID (fcHeap c a)" "refCount (fcHeap c' a) = refCount (fcHeap c a)"
    "fcEntries c' = fcEntries c" "pendingClose c' = pendingClose c" "fcHits c' = fcHits c" "fcMisses c' = fcMisses c"
    "fcNew c' = fcNew c" "fcClosed c' = fcClosed c" "fcCapacity c' = fcCapacity c"
  using assms by (cases c; cases c'; simp add: relinked_def)+

lemma addToHead_relinks: "relinked c (addToHead e c)"
  by (auto simp: relinked_def addToHead_def set_fde_def Let_def split: option.splits)

lemma unlink_relinks: "relinked c (unlink_fde e c)"
  by (auto simp: relinked_def unlink_fde_def set_fde_def Let_def split: option.splits)

lemma addToHead_dll:
  assumes "dll c xs" "e \<notin> set xs"
  shows "dll (addToHead e c) (e # xs)"
proof (cases xs)
  case Nil
  with assms show ?thesis by (simp add: dll_def addToHead_def set_fde_def Let_def)
next
  case (Cons y ys)
  with assms show ?thesis
    by (auto simp: dll_def addToHead_def set_fde_def Let_def last_of_def split: list.splits)
qed

lemma unlink_dll:
  assumes "dll c (as @ e # bs)"
  shows "dll (unlink_fde e c) (as @ bs)"
proof -
  let ?h = "fcHeap c"
  have d: "distinct (as @ e # bs)" "seg ?h None as (Some e)" "fePrev (?h e) = last_of None as" "feNext (?h e) = first_of bs None"
    "seg ?h (Some e) bs None" "fcHead c = first_of as (Some e)" "fcTail c = last_of (Some e) bs"
    using assms by (auto simp: dll_def seg_append first_of_def split: list.splits)
  define h1 where "h1 = (case last_of None as of None \<Rightarrow> ?h | Some p \<Rightarrow> ?h(p := (?h p)\<lparr>feNext := first_of bs None\<rparr>))"
  have h1: "seg h1 None as (first_of bs None)" "seg h1 (Some e) bs None" "h1 e = ?h e"
  proof -
    show "seg h1 None as (first_of bs None)"
    proof (cases as rule: rev_cases)
      case (snoc zs z)
      then show ?thesis using d seg_redirect_next [of ?h None zs z "Some e" "first_of bs None"] by (simp add: h1_def)
    qed simp
    show "seg h1 (Some e) bs None" "h1 e = ?h e"
      using d by (cases as rule: rev_cases; auto simp: h1_def)+
  qed
  define h2 where "h2 = (case first_of bs None of None \<Rightarrow> h1 | Some x \<Rightarrow> h1(x := (h1 x)\<lparr>fePrev := last_of None as\<rparr>))"
  have h2: "seg h2 None as (first_of bs None)" "seg h2 (last_of None as) bs None" "h2 e = ?h e"
  proof -
    show "seg h2 (last_of None as) bs None"
    proof (cases bs)
      case (Cons b bs')
      then show ?thesis using d h1 seg_redirect_prev [of h1 "Some e" b bs' None "last_of None as"] by (simp add: h2_def)
    qed simp
    show "seg h2 None as (first_of bs None)" "h2 e = ?h e"
      using d h1 by (cases bs; auto simp: h2_def)+
  qed
  have heap: "fcHeap (unlink_fde e c) = h2(e := (h2 e)\<lparr>fePrev := None, feNext := None\<rparr>)"
    using d(3,4) h1(3) by (auto simp: unlink_fde_def set_fde_def Let_def h2_def h1_def split: option.splits)
  have seg: "seg (fcHeap (unlink_fde e c)) None (as @ bs) None"
    using d(1) h2 by (simp add: heap seg_append)
  have "fcHead (unlink_fde e c) = (if fcHead c = Some e then feNext (?h e) else fcHead c)"
    "fcTail (unlink_fde e c) = (if fcTail c = Some e then fePrev (?h e) else fcTail c)"
    using d(3,4) h1(3) h2(3) by (auto simp: unlink_fde_def set_fde_def Let_def split: option.splits)
  moreover have "first_of as (Some e) = Some e \<longleftrightarrow> as = []" "last_of (Some e) bs = Some e \<longleftrightarrow> bs = []"
    using d(1) by (auto simp: first_of_def last_of_def split: list.splits)
  ultimately show ?thesis using d seg by (cases as; cases bs) (simp_all add: dll_def)
qed

lemma moveToHead_dll:
  assumes "dll c xs" "e \<in> set xs"
  shows "dll (moveToHead e c) (e # remove1 e xs)" "relinked c (moveToHead e c)"
proof -
  from assms(2) obtain as bs where xs: "xs = as @ e # bs" "e \<notin> set as" by (metis split_list_first)
  have r: "remove1 e xs = as @ bs" using xs by (simp add: remove1_append)
  have d: "dll (unlink_fde e c) (as @ bs)" using assms(1) unlink_dll xs by simp
  have "e \<notin> set (as @ bs)" using assms(1) xs by (simp add: dll_def)
  from addToHead_dll [OF d this] show "dll (moveToHead e c) (e # remove1 e xs)"
    using assms(1) xs r by (cases as) (simp_all add: moveToHead_def dll_def)
  show "relinked c (moveToHead e c)"
    using relinked_trans [OF unlink_relinks addToHead_relinks, of c e e] by (simp add: moveToHead_def relinked_def)
qed

section \<open>The abstract cache\<close>

text \<open>
  What the cache stands for: the descriptors with their users, most recently used first, the ones
  kept aside, the counters and the bag of closed descriptors.
\<close>

record lru =
  lruCap :: int
  lruList :: "(u64 \<times> nat \<times> int) list"
  lruPending :: "(u64 \<times> nat \<times> int) list"
  lruHits :: u64
  lruMisses :: u64
  lruClosed :: "nat multiset"

definition lruGet :: "u64 \<Rightarrow> lru \<Rightarrow> nat option \<times> lru" where
  "lruGet k s = (case map_of (lruList s) k of
     None \<Rightarrow> (None, s\<lparr>lruMisses := lruMisses s + 1\<rparr>)
   | Some (f, n) \<Rightarrow> (Some f, s\<lparr>lruHits := lruHits s + 1, lruList := (k, f, n + 1) # AList.delete k (lruList s)\<rparr>))"

definition lruRelease :: "u64 \<Rightarrow> lru \<Rightarrow> lru" where
  "lruRelease k s = (case map_of (lruList s) k of
     Some (f, n) \<Rightarrow> s\<lparr>lruList := AList.update k (f, n - 1) (lruList s)\<rparr>
   | None \<Rightarrow> (case map_of (lruPending s) k of
       None \<Rightarrow> s
     | Some (f, n) \<Rightarrow>
         if n \<le> 1 then s\<lparr>lruPending := AList.delete k (lruPending s), lruClosed := add_mset f (lruClosed s)\<rparr>
         else s\<lparr>lruPending := AList.update k (f, n - 1) (lruPending s)\<rparr>))"

definition lruRetire :: "u64 \<times> nat \<times> int \<Rightarrow> lru \<Rightarrow> lru" where
  "lruRetire e s = (case e of (k, f, n) \<Rightarrow>
     if 0 < n then s\<lparr>lruPending := AList.update k (f, n) (lruPending s)\<rparr>
     else s\<lparr>lruClosed := add_mset f (lruClosed s)\<rparr>)"

definition lruAdd :: "u64 \<Rightarrow> nat \<Rightarrow> lru \<Rightarrow> lru" where
  "lruAdd k f s = (case map_of (lruList s) k of
     Some (f', n) \<Rightarrow> s\<lparr>lruList := (k, f, n) # AList.delete k (lruList s)\<rparr>
   | None \<Rightarrow>
       let es = (k, f, 0) # lruList s
       in if lruCap s < int (length es) then lruRetire (last es) (s\<lparr>lruList := butlast es\<rparr>)
          else s\<lparr>lruList := es\<rparr>)"

definition lruRemove :: "u64 \<Rightarrow> lru \<Rightarrow> lru" where
  "lruRemove k s = (case map_of (lruList s) k of
     None \<Rightarrow> s
   | Some (f, n) \<Rightarrow> lruRetire (k, f, n) (s\<lparr>lruList := AList.delete k (lruList s)\<rparr>))"

definition lruCloseAll :: "lru \<Rightarrow> lru" where
  "lruCloseAll s = s\<lparr>lruClosed := lruClosed s + mset (map (fst \<circ> snd) (lruList s)) + mset (map (fst \<circ> snd) (lruPending s)),
     lruList := [], lruPending := []\<rparr>"

section \<open>Refinement\<close>

definition cell :: "fd_cache \<Rightarrow> nat \<Rightarrow> u64 \<times> nat \<times> int" where
  "cell c a = (feID (fcHeap c a), feF (fcHeap c a), refCount (fcHeap c a))"

definition pending_cell :: "fd_cache \<Rightarrow> u64 \<times> nat \<Rightarrow> u64 \<times> nat \<times> int" where
  "pending_cell c ka = (fst ka, feF (fcHeap c (snd ka)), refCount (fcHeap c (snd ka)))"

definition lru_view :: "fd_cache \<Rightarrow> nat list \<Rightarrow> lru" where
  "lru_view c xs = \<lparr>lruCap = fcCapacity c, lruList = map (cell c) xs, lruPending = map (pending_cell c) (pendingClose c),
     lruHits = fcHits c, lruMisses = fcMisses c, lruClosed = mset (fcClosed c)\<rparr>"

definition cache_ok :: "fd_cache \<Rightarrow> nat list \<Rightarrow> bool" where
  "cache_ok c xs \<longleftrightarrow> dll c xs \<and> distinct (map (\<lambda>a. feID (fcHeap c a)) xs) \<and>
     distinct (map fst (fcEntries c)) \<and> set (fcEntries c) = (\<lambda>a. (feID (fcHeap c a), a)) ` set xs \<and>
     distinct (map fst (pendingClose c)) \<and> distinct (map snd (pendingClose c)) \<and> snd ` set (pendingClose c) \<inter> set xs = {} \<and>
     (\<forall>a \<in> set xs \<union> snd ` set (pendingClose c). a < fcNew c)"

definition simulates :: "fd_cache \<Rightarrow> lru \<Rightarrow> bool" where
  "simulates c s \<longleftrightarrow> (\<exists>xs. cache_ok c xs \<and> s = lru_view c xs)"

lemma lookup_entries:
  assumes "cache_ok c xs"
  shows "map_of (fcEntries c) k = Some e \<longleftrightarrow> e \<in> set xs \<and> feID (fcHeap c e) = k"
    "map_of (fcEntries c) k = None \<longleftrightarrow> map_of (map (cell c) xs) k = None"
    "length (fcEntries c) = length xs"
proof -
  have s: "distinct (map fst (fcEntries c))" "set (fcEntries c) = (\<lambda>a. (feID (fcHeap c a), a)) ` set xs" "distinct xs"
    using assms by (simp_all add: cache_ok_def dll_def)
  show "map_of (fcEntries c) k = Some e \<longleftrightarrow> e \<in> set xs \<and> feID (fcHeap c e) = k"
    using s by (auto simp: map_of_eq_Some_iff)
  show "map_of (fcEntries c) k = None \<longleftrightarrow> map_of (map (cell c) xs) k = None"
    unfolding map_of_eq_None_iff s(2) by (auto simp: cell_def image_image)
  have "distinct (fcEntries c)" using s(1) by (metis distinct_map)
  then have "length (fcEntries c) = card ((\<lambda>a. (feID (fcHeap c a), a)) ` set xs)" using s(2) distinct_card by metis
  also have "\<dots> = length xs" using s(3) by (simp add: card_image inj_on_def distinct_card)
  finally show "length (fcEntries c) = length xs" .
qed

lemma lookup_cell:
  assumes "distinct (map (\<lambda>a. feID (fcHeap c a)) xs)" "e \<in> set xs" "feID (fcHeap c e) = k"
  shows "map_of (map (cell c) xs) k = Some (feF (fcHeap c e), refCount (fcHeap c e))"
proof -
  have "distinct (map fst (map (cell c) xs))" using assms(1) by (simp add: cell_def o_def)
  moreover have "(k, feF (fcHeap c e), refCount (fcHeap c e)) \<in> set (map (cell c) xs)"
    using assms(2,3) by (auto simp: cell_def intro!: image_eqI [of _ _ e])
  ultimately show ?thesis by (simp add: map_of_eq_Some_iff)
qed

lemma delete_cell:
  assumes "distinct (map (\<lambda>a. feID (fcHeap c a)) xs)" "e \<in> set xs" "feID (fcHeap c e) = k"
  shows "AList.delete k (map (cell c) xs) = map (cell c) (remove1 e xs)"
proof -
  have "AList.delete k (map (cell c) xs) = map (cell c) (filter (\<lambda>a. k \<noteq> feID (fcHeap c a)) xs)"
    by (simp add: AList.delete_eq filter_map o_def cell_def split_beta)
  also have "filter (\<lambda>a. k \<noteq> feID (fcHeap c a)) xs = removeAll e xs"
    unfolding removeAll_filter_not_eq using assms by (intro filter_cong) (auto simp: distinct_map inj_on_def)
  finally show ?thesis using assms(1) by (simp add: distinct_remove1_removeAll distinct_map)
qed

lemma cell_fields [simp]:
  "cell (c\<lparr>pendingClose := p\<rparr>) = cell c" "cell (c\<lparr>fcClosed := l\<rparr>) = cell c" "cell (c\<lparr>fcEntries := p\<rparr>) = cell c" "cell (c\<lparr>fcHits := h\<rparr>) = cell c"
  "cell (c\<lparr>fcMisses := h\<rparr>) = cell c" "pending_cell (c\<lparr>pendingClose := p\<rparr>) = pending_cell c" "pending_cell (c\<lparr>fcClosed := l\<rparr>) = pending_cell c"
  "pending_cell (c\<lparr>fcEntries := p\<rparr>) = pending_cell c" "pending_cell (c\<lparr>fcHits := h\<rparr>) = pending_cell c" "pending_cell (c\<lparr>fcMisses := h\<rparr>) = pending_cell c"
  by (auto simp: cell_def pending_cell_def)

lemma relinked_cell: "relinked c c' \<Longrightarrow> cell c' = cell c" "relinked c c' \<Longrightarrow> pending_cell c' = pending_cell c"
  by (auto simp: cell_def pending_cell_def relinkedD fun_eq_iff)

lemma relinked_ok:
  assumes "cache_ok c xs" "relinked c c'" "dll c' xs'" "set xs' = set xs"
  shows "cache_ok c' xs'"
proof -
  have d: "distinct xs" "distinct xs'" "distinct (map (\<lambda>a. feID (fcHeap c a)) xs)"
    using assms(1,3) by (simp_all add: cache_ok_def dll_def)
  then have "distinct (map (\<lambda>a. feID (fcHeap c a)) xs')" using assms(4) by (simp add: distinct_map)
  with assms(1,3,4) show ?thesis by (simp add: cache_ok_def relinkedD [OF assms(2)])
qed

text \<open>Updates of the data of an entry, with its links and its id kept.\<close>

definition data_update :: "(fd_entry \<Rightarrow> fd_entry) \<Rightarrow> bool" where
  "data_update g \<longleftrightarrow> (\<forall>n. fePrev (g n) = fePrev n \<and> feNext (g n) = feNext n \<and> feID (g n) = feID n)"

lemma data_updates [simp]: "data_update (\<lambda>n. n\<lparr>refCount := f (refCount n)\<rparr>)" "data_update (\<lambda>n. n\<lparr>feF := v\<rparr>)"
  by (simp_all add: data_update_def)

lemma set_fde_simps [simp]:
  "fcEntries (set_fde e g c) = fcEntries c" "pendingClose (set_fde e g c) = pendingClose c" "fcHits (set_fde e g c) = fcHits c"
  "fcMisses (set_fde e g c) = fcMisses c" "fcNew (set_fde e g c) = fcNew c" "fcClosed (set_fde e g c) = fcClosed c"
  "fcCapacity (set_fde e g c) = fcCapacity c" "fcHead (set_fde e g c) = fcHead c" "fcTail (set_fde e g c) = fcTail c"
  "fcHeap (set_fde e g c) = (fcHeap c)(e := g (fcHeap c e))"
  by (simp_all add: set_fde_def)

lemma set_fde_ok:
  assumes "cache_ok c xs" "data_update g"
  shows "cache_ok (set_fde e g c) xs"
proof -
  have id: "feID (((fcHeap c)(e := g (fcHeap c e))) a) = feID (fcHeap c a)" for a
    using assms(2) by (simp add: data_update_def)
  have "seg ((fcHeap c)(e := g (fcHeap c e))) None xs None = seg (fcHeap c) None xs None"
    using assms(2) by (intro seg_cong) (simp add: data_update_def)
  with assms(1) show ?thesis unfolding cache_ok_def dll_def set_fde_simps id by simp
qed

lemma cell_set_fde: "cell (set_fde e g c) = (cell c)(e := (feID (g (fcHeap c e)), feF (g (fcHeap c e)), refCount (g (fcHeap c e))))"
  by (auto simp: cell_def)

lemma pending_cell_set_fde:
  "e \<notin> snd ` set ps \<Longrightarrow> map (pending_cell (set_fde e g c)) ps = map (pending_cell c) ps"
  by (auto simp: pending_cell_def)

lemma remove1_set: "distinct xs \<Longrightarrow> e \<in> set xs \<Longrightarrow> set (e # remove1 e xs) = set xs"
  by auto

lemma move_ok:
  assumes "cache_ok c xs" "e \<in> set xs"
  shows "cache_ok (moveToHead e c) (e # remove1 e xs)"
proof -
  have d: "dll c xs" "distinct xs" using assms(1) by (simp_all add: cache_ok_def dll_def)
  show ?thesis
    using moveToHead_dll [OF d(1) assms(2)] remove1_set [OF d(2) assms(2)] by (intro relinked_ok [OF assms(1)])
qed

lemma get_refines:
  assumes "cache_ok c xs"
  shows "\<exists>xs'. cache_ok (snd (fdGet k c)) xs' \<and> lruGet k (lru_view c xs) = (fst (fdGet k c), lru_view (snd (fdGet k c)) xs')"
proof (cases "map_of (fcEntries c) k")
  case None
  then have "map_of (map (cell c) xs) k = None" using lookup_entries(2) [OF assms] by simp
  with None assms show ?thesis
    by (intro exI [of _ xs]) (auto simp: fdGet_def lruGet_def lru_view_def cache_ok_def dll_def cell_def pending_cell_def fun_eq_iff)
next
  case (Some e)
  have e: "e \<in> set xs" "feID (fcHeap c e) = k" using lookup_entries(1) [OF assms] Some by simp_all
  define c1 where "c1 = set_fde e (\<lambda>n. n\<lparr>refCount := refCount n + 1\<rparr>) (c\<lparr>fcHits := fcHits c + 1\<rparr>)"
  have "cache_ok (c\<lparr>fcHits := fcHits c + 1\<rparr>) xs" using assms by (simp add: cache_ok_def dll_def)
  then have ok1: "cache_ok c1 xs" unfolding c1_def by (intro set_fde_ok data_updates(1))
  have ids: "distinct (map (\<lambda>a. feID (fcHeap c a)) xs)" "distinct xs" "e \<notin> snd ` set (pendingClose c)"
    using assms e(1) by (auto simp: cache_ok_def dll_def)
  have rel: "relinked c1 (moveToHead e c1)" using ok1 e(1) by (intro moveToHead_dll) (simp_all add: cache_ok_def)
  have "map (cell c1) (remove1 e xs) = map (cell c) (remove1 e xs)"
    using ids(2) by (auto simp: c1_def cell_def)
  moreover have "map (pending_cell c1) (pendingClose c) = map (pending_cell c) (pendingClose c)"
    using ids(3) by (auto simp: c1_def pending_cell_def)
  ultimately have "lruGet k (lru_view c xs) = (Some (feF (fcHeap c e)), lru_view (moveToHead e c1) (e # remove1 e xs))"
    using lookup_cell [OF ids(1) e] delete_cell [OF ids(1) e] e(2)
    by (simp add: lruGet_def lru_view_def relinked_cell [OF rel] relinkedD [OF rel]) (simp add: c1_def cell_def)
  moreover have "fdGet k c = (Some (feF (fcHeap c e)), moveToHead e c1)"
    using Some by (simp add: fdGet_def Let_def relinkedD [OF rel] flip: c1_def) (simp add: c1_def)
  ultimately show ?thesis using move_ok [OF ok1 e(1)] by (intro exI [of _ "e # remove1 e xs"]) simp
qed

lemma update_cell:
  assumes "distinct (map (\<lambda>a. feID (fcHeap c a)) xs)" "e \<in> set xs" "feID (fcHeap c e) = k"
  shows "AList.update k v (map (cell c) xs) = map ((cell c)(e := (k, v))) xs"
  using assms
proof (induction xs)
  case (Cons a xs)
  have a: "cell c a = (feID (fcHeap c a), feF (fcHeap c a), refCount (fcHeap c a))" by (simp add: cell_def)
  show ?case
  proof (cases "a = e")
    case True
    then have "map ((cell c)(e := (k, v))) xs = map (cell c) xs" using Cons.prems by (auto simp: image_iff)
    with True a Cons.prems show ?thesis by simp
  next
    case False
    then have "feID (fcHeap c a) \<noteq> k" using Cons.prems by (auto simp: image_iff)
    with False a Cons show ?thesis by simp
  qed
qed simp

lemma pending_lookup:
  "map_of (map (pending_cell c) ps) k = map_option (\<lambda>a. (feF (fcHeap c a), refCount (fcHeap c a))) (map_of ps k)"
  by (induction ps) (auto simp: pending_cell_def)

lemma pending_delete: "AList.delete k (map (pending_cell c) ps) = map (pending_cell c) (AList.delete k ps)"
  by (induction ps) (auto simp: pending_cell_def)

lemma pending_update:
  "AList.update k (feF (fcHeap c e), refCount (fcHeap c e)) (map (pending_cell c) ps) = map (pending_cell c) (AList.update k e ps)"
  by (induction ps) (auto simp: pending_cell_def)

lemma pending_set_fde:
  assumes "map_of ps k = Some e" "distinct (map fst ps)" "distinct (map snd ps)"
  shows "map (pending_cell (set_fde e g c)) ps = AList.update k (feF (g (fcHeap c e)), refCount (g (fcHeap c e))) (map (pending_cell c) ps)"
  using assms
proof (induction ps)
  case (Cons p ps)
  obtain k' a where p: "p = (k', a)" by fastforce
  show ?case
  proof (cases "k' = k")
    case True
    then have "map (pending_cell (set_fde e g c)) ps = map (pending_cell c) ps"
      using Cons.prems p by (intro pending_cell_set_fde) auto
    with True Cons.prems p show ?thesis by (simp add: pending_cell_def)
  next
    case False
    then have "a \<noteq> e" using Cons.prems p by (auto dest!: map_of_SomeD intro: rev_image_eqI)
    with False Cons p show ?thesis by (simp add: pending_cell_def)
  qed
qed simp

lemma update_new: "k \<notin> fst ` set es \<Longrightarrow> AList.update k v es = es @ [(k, v)]"
  by (induction es) auto

lemma update_values_aux: "x \<in> snd ` set (AList.update k v es) \<Longrightarrow> x = v \<or> x \<in> snd ` set es"
  by (induction es) (auto split: if_splits)

lemma update_values:
  "snd ` set (AList.update k v es) \<subseteq> insert v (snd ` set es)"
  "distinct (map fst es) \<Longrightarrow> distinct (map snd es) \<Longrightarrow> v \<notin> snd ` set es \<Longrightarrow> distinct (map snd (AList.update k v es))"
proof -
  show "snd ` set (AList.update k v es) \<subseteq> insert v (snd ` set es)" using update_values_aux by fast
  show "distinct (map snd (AList.update k v es))" if "distinct (map fst es)" "distinct (map snd es)" "v \<notin> snd ` set es"
    using that by (induction es) (auto dest!: update_values_aux)
qed

lemma deleted:
  "set (AList.delete k es) = {p \<in> set es. fst p \<noteq> k}" "distinct (map fst es) \<Longrightarrow> distinct (map fst (AList.delete k es))"
  "distinct (map snd es) \<Longrightarrow> distinct (map snd (AList.delete k es))"
  by (auto simp: AList.delete_eq distinct_map_filter)

lemma release_refines:
  assumes "cache_ok c xs"
  shows "\<exists>xs'. cache_ok (fdRelease k c) xs' \<and> lruRelease k (lru_view c xs) = lru_view (fdRelease k c) xs'"
proof -
  have ids: "distinct (map (\<lambda>a. feID (fcHeap c a)) xs)" and pend: "distinct (map fst (pendingClose c))" "distinct (map snd (pendingClose c))"
    "snd ` set (pendingClose c) \<inter> set xs = {}"
    using assms by (simp_all add: cache_ok_def)
  have dec: "cache_ok (set_fde e (\<lambda>n. n\<lparr>refCount := refCount n - 1\<rparr>) c) xs" for e
    using set_fde_ok [OF assms data_updates(1), of e "\<lambda>x. x - 1"] .
  consider (used) e where "map_of (fcEntries c) k = Some e"
    | (aside) e where "map_of (fcEntries c) k = None" "map_of (pendingClose c) k = Some e"
    | (absent) "map_of (fcEntries c) k = None" "map_of (pendingClose c) k = None"
    by (cases "map_of (fcEntries c) k"; cases "map_of (pendingClose c) k") auto
  then show ?thesis
  proof cases
    case used
    then have e: "e \<in> set xs" "feID (fcHeap c e) = k" using lookup_entries(1) [OF assms] by simp_all
    then have "e \<notin> snd ` set (pendingClose c)" using pend(3) by auto
    with used dec lookup_cell [OF ids e] update_cell [OF ids e] e(2) show ?thesis
      by (intro exI [of _ xs]) (simp add: fdRelease_def lruRelease_def lru_view_def cell_set_fde pending_cell_set_fde)
  next
    case aside
    let ?c1 = "set_fde e (\<lambda>n. n\<lparr>refCount := refCount n - 1\<rparr>) c"
    have "e \<in> snd ` set (pendingClose c)" using map_of_SomeD [OF aside(2)] by (force intro: rev_image_eqI)
    then have e: "e \<notin> set xs" using pend(3) by auto
    have none: "map_of (map (cell c) xs) k = None" using lookup_entries(2) [OF assms] aside(1) by simp
    have cells: "map (cell ?c1) xs = map (cell c) xs" using e by (simp add: cell_set_fde)
    note upd = pending_set_fde [OF aside(2) pend(1,2), of "\<lambda>n. n\<lparr>refCount := refCount n - 1\<rparr>" c]
    have del: "map (pending_cell ?c1) (AList.delete k (pendingClose c)) = AList.delete k (map (pending_cell c) (pendingClose c))"
      by (simp add: upd AList.delete_update_same flip: pending_delete)
    show ?thesis
    proof (cases "refCount (fcHeap c e) \<le> 1")
      case True
      have "cache_ok (close_fd (feF (fcHeap c e)) (?c1\<lparr>pendingClose := AList.delete k (pendingClose c)\<rparr>)) xs"
        using dec [of e] by (auto simp: cache_ok_def dll_def close_fd_def deleted)
      with True aside none cells del show ?thesis
        by (intro exI [of _ xs])
          (simp add: fdRelease_def lruRelease_def lru_view_def pending_lookup close_fd_def)
    next
      case False
      with aside none cells upd dec [of e] show ?thesis
        by (intro exI [of _ xs]) (simp add: fdRelease_def lruRelease_def lru_view_def pending_lookup)
    qed
  next
    case absent
    then have "map_of (map (cell c) xs) k = None" using lookup_entries(2) [OF assms] by simp
    with absent assms show ?thesis
      by (intro exI [of _ xs]) (simp add: fdRelease_def lruRelease_def lru_view_def pending_lookup)
  qed
qed

text \<open>An entry taken out of the list is closed or kept aside.\<close>

lemma unlink_ok:
  assumes "cache_ok c xs" "e \<in> set xs" "feID (fcHeap c e) = k"
  shows "cache_ok ((unlink_fde e c)\<lparr>fcEntries := AList.delete k (fcEntries (unlink_fde e c))\<rparr>) (remove1 e xs)"
proof -
  note rel = unlink_relinks [of c e]
  have d: "dll c xs" "distinct xs" "distinct (map (\<lambda>a. feID (fcHeap c a)) xs)" using assms(1) by (simp_all add: cache_ok_def dll_def)
  obtain as bs where xs: "xs = as @ e # bs" using split_list [OF assms(2)] by blast
  then have "remove1 e xs = as @ bs" using d(2) by (simp add: remove1_append)
  then have dll: "dll (unlink_fde e c) (remove1 e xs)" using d(1) xs unlink_dll by simp
  have ids: "distinct (map (\<lambda>a. feID (fcHeap c a)) (remove1 e xs))" using d(3) by (metis distinct_remove1 distinct_map set_remove1_subset inj_on_subset d(2))
  have other: "feID (fcHeap c a) \<noteq> k" if "a \<in> set xs" "a \<noteq> e" for a
    using d(3) that assms(2,3) by (auto simp: distinct_map inj_on_def)
  have entries: "{p \<in> (\<lambda>a. (feID (fcHeap c a), a)) ` set xs. fst p \<noteq> k} = (\<lambda>a. (feID (fcHeap c a), a)) ` set (remove1 e xs)"
    using assms(3) other d(2) by auto
  have "set (remove1 e xs) \<subseteq> set xs" by (rule set_remove1_subset)
  with assms(1) dll ids entries show ?thesis
    by (auto simp: cache_ok_def dll_def relinkedD [OF rel] deleted)
qed

lemma retire_refines:
  assumes "cache_ok c xs" "e \<notin> set xs" "e \<notin> snd ` set (pendingClose c)" "e < fcNew c"
  shows "cache_ok (retire_fde k e c) xs"
    "lru_view (retire_fde k e c) xs = lruRetire (k, feF (fcHeap c e), refCount (fcHeap c e)) (lru_view c xs)"
proof -
  have d: "distinct (map fst (pendingClose c))" "distinct (map snd (pendingClose c))" "snd ` set (pendingClose c) \<inter> set xs = {}"
    "\<forall>a \<in> set xs \<union> snd ` set (pendingClose c). a < fcNew c"
    using assms(1) by (simp_all add: cache_ok_def)
  note up = update_values(1) [of k e "pendingClose c"] update_values(2) [OF d(1,2) assms(3), of k] distinct_update [OF d(1), of k e]
  have "snd ` set (AList.update k e (pendingClose c)) \<inter> set xs = {}" "\<forall>a \<in> set xs \<union> snd ` set (AList.update k e (pendingClose c)). a < fcNew c"
    using up(1) d(3,4) assms(2,4) by auto
  with assms(1) up show "cache_ok (retire_fde k e c) xs"
    by (simp add: cache_ok_def dll_def retire_fde_def close_fd_def)
  show "lru_view (retire_fde k e c) xs = lruRetire (k, feF (fcHeap c e), refCount (fcHeap c e)) (lru_view c xs)"
    by (simp add: lruRetire_def retire_fde_def lru_view_def close_fd_def pending_update)
qed

lemma drop_refines:
  assumes "cache_ok c xs" "e \<in> set xs" "feID (fcHeap c e) = k"
  defines "c1 \<equiv> (unlink_fde e c)\<lparr>fcEntries := AList.delete k (fcEntries (unlink_fde e c))\<rparr>"
  shows "cache_ok (retire_fde k e c1) (remove1 e xs)"
    "lru_view (retire_fde k e c1) (remove1 e xs) =
      lruRetire (k, feF (fcHeap c e), refCount (fcHeap c e)) ((lru_view c xs)\<lparr>lruList := map (cell c) (remove1 e xs)\<rparr>)"
proof -
  note rel = unlink_relinks [of c e]
  have e: "e \<notin> set (remove1 e xs)" "e \<notin> snd ` set (pendingClose c1)" "e < fcNew c1"
    using assms(1,2) by (auto simp: cache_ok_def dll_def c1_def relinkedD [OF rel])
  note r = retire_refines [OF unlink_ok [OF assms(1-3), folded c1_def] e, of k]
  show "cache_ok (retire_fde k e c1) (remove1 e xs)" by (rule r(1))
  have "feF (fcHeap c1 e) = feF (fcHeap c e)" "refCount (fcHeap c1 e) = refCount (fcHeap c e)"
    by (simp_all add: c1_def relinkedD [OF rel])
  moreover have "lru_view c1 (remove1 e xs) = (lru_view c xs)\<lparr>lruList := map (cell c) (remove1 e xs)\<rparr>"
    by (simp add: lru_view_def c1_def relinked_cell [OF rel] relinkedD [OF rel])
  ultimately show "lru_view (retire_fde k e c1) (remove1 e xs) =
      lruRetire (k, feF (fcHeap c e), refCount (fcHeap c e)) ((lru_view c xs)\<lparr>lruList := map (cell c) (remove1 e xs)\<rparr>)"
    using r(2) by simp
qed

lemma remove_refines:
  assumes "cache_ok c xs"
  shows "\<exists>xs'. cache_ok (fdRemove k c) xs' \<and> lruRemove k (lru_view c xs) = lru_view (fdRemove k c) xs'"
proof (cases "map_of (fcEntries c) k")
  case None
  then have "map_of (map (cell c) xs) k = None" using lookup_entries(2) [OF assms] by simp
  with None assms show ?thesis by (intro exI [of _ xs]) (simp add: fdRemove_def lruRemove_def lru_view_def)
next
  case (Some e)
  have e: "e \<in> set xs" "feID (fcHeap c e) = k" using lookup_entries(1) [OF assms] Some by simp_all
  have ids: "distinct (map (\<lambda>a. feID (fcHeap c a)) xs)" using assms by (simp add: cache_ok_def)
  have "lruRemove k (lru_view c xs) = lruRetire (k, feF (fcHeap c e), refCount (fcHeap c e)) ((lru_view c xs)\<lparr>lruList := map (cell c) (remove1 e xs)\<rparr>)"
    using lookup_cell [OF ids e] delete_cell [OF ids e] by (simp add: lruRemove_def lru_view_def)
  with drop_refines [OF assms e] Some show ?thesis
    by (intro exI [of _ "remove1 e xs"]) (simp add: fdRemove_def Let_def)
qed

lemma evict_refines:
  assumes "cache_ok c xs" "xs \<noteq> []"
  shows "cache_ok (evictTail c) (butlast xs)"
    "lru_view (evictTail c) (butlast xs) = lruRetire (cell c (last xs)) ((lru_view c xs)\<lparr>lruList := map (cell c) (butlast xs)\<rparr>)"
proof -
  let ?e = "last xs"
  have d: "distinct xs" "fcTail c = Some ?e" using assms by (simp_all add: cache_ok_def dll_def last_of_def)
  have r: "remove1 ?e xs = butlast xs"
    using d(1) assms(2) by (cases xs rule: rev_cases) (simp_all add: remove1_append)
  have k: "feID (fcHeap (unlink_fde ?e c) ?e) = feID (fcHeap c ?e)" by (rule relinkedD [OF unlink_relinks])
  note dr = drop_refines [OF assms(1) last_in_set [OF assms(2)] refl, unfolded r]
  show "cache_ok (evictTail c) (butlast xs)"
    "lru_view (evictTail c) (butlast xs) = lruRetire (cell c ?e) ((lru_view c xs)\<lparr>lruList := map (cell c) (butlast xs)\<rparr>)"
    using dr d(2) k by (simp_all add: evictTail_def Let_def cell_def)
qed

lemma new_entry_ok:
  fixes f :: nat
  assumes "cache_ok c xs" "map_of (fcEntries c) k = None"
  defines "e \<equiv> fcNew c"
  defines "c1 \<equiv> c\<lparr>fcHeap := (fcHeap c)(e := \<lparr>feF = f, feID = k, refCount = 0, fePrev = None, feNext = None\<rparr>), fcNew := Suc e\<rparr>"
  defines "c2 \<equiv> addToHead e (c1\<lparr>fcEntries := AList.update k e (fcEntries c1)\<rparr>)"
  shows "cache_ok c2 (e # xs)" "lru_view c2 (e # xs) = (lru_view c xs)\<lparr>lruList := (k, f, 0) # map (cell c) xs\<rparr>"
    "length (fcEntries c2) = Suc (length xs)" "fcCapacity c2 = fcCapacity c"
proof -
  let ?c = "c1\<lparr>fcEntries := AList.update k e (fcEntries c1)\<rparr>"
  have ok: "dll c xs" "distinct (map (\<lambda>a. feID (fcHeap c a)) xs)" "distinct (map fst (fcEntries c))"
    "set (fcEntries c) = (\<lambda>a. (feID (fcHeap c a), a)) ` set xs" "distinct (map fst (pendingClose c))" "distinct (map snd (pendingClose c))"
    "snd ` set (pendingClose c) \<inter> set xs = {}" "\<forall>a \<in> set xs \<union> snd ` set (pendingClose c). a < e"
    using assms(1) by (simp_all add: cache_ok_def e_def)
  have fresh: "e \<notin> set xs" "e \<notin> snd ` set (pendingClose c)" using ok(8) by auto
  have h: "fcHeap ?c a = fcHeap c a" if "a \<noteq> e" for a using that by (simp add: c1_def)
  have "dll ?c xs" using ok(1) fresh by (simp add: dll_def c1_def)
  then have dll: "dll c2 (e # xs)" unfolding c2_def using fresh by (intro addToHead_dll)
  note rel = addToHead_relinks [of ?c e, folded c2_def]
  have k: "k \<notin> fst ` set (fcEntries c)" using assms(2) by (simp add: map_of_eq_None_iff)
  then have upd: "fcEntries c2 = fcEntries c @ [(k, e)]" by (simp add: relinkedD [OF rel] c1_def update_new)
  then show "length (fcEntries c2) = Suc (length xs)" using lookup_entries(3) [OF assms(1)] by simp
  show "fcCapacity c2 = fcCapacity c" by (simp add: relinkedD [OF rel] c1_def)
  have ids: "feID (fcHeap c2 a) = feID (fcHeap c a)" if "a \<in> set xs" for a
  proof -
    have "a \<noteq> e" using that fresh(1) by auto
    from relinkedD(2) [OF rel, of a] h [OF this] show ?thesis by simp
  qed
  have ide: "feID (fcHeap c2 e) = k" by (simp add: relinkedD [OF rel] c1_def)
  have m: "map (\<lambda>a. feID (fcHeap c2 a)) xs = map (\<lambda>a. feID (fcHeap c a)) xs" using ids by simp
  have img: "(\<lambda>a. (feID (fcHeap c2 a), a)) ` set xs = set (fcEntries c)" unfolding ok(4) using ids by auto
  have "k \<notin> (\<lambda>a. feID (fcHeap c2 a)) ` set xs" using k ids unfolding ok(4) by (auto simp: image_iff)
  then have "distinct (map (\<lambda>a. feID (fcHeap c2 a)) (e # xs))" using ide ok(2) [folded m] by simp
  moreover have "\<forall>a \<in> set (e # xs) \<union> snd ` set (pendingClose c). a < Suc e" using ok(8) by (auto simp: less_Suc_eq)
  moreover have "set (fcEntries c2) = (\<lambda>a. (feID (fcHeap c2 a), a)) ` set (e # xs)" using img upd ide by simp
  moreover have "distinct (map fst (fcEntries c2))" using upd ok(3) k by simp
  moreover have "pendingClose c2 = pendingClose c" "fcNew c2 = Suc e" by (simp_all add: relinkedD [OF rel] c1_def)
  ultimately show "cache_ok c2 (e # xs)" using dll ok(5-7) fresh(2) unfolding cache_ok_def by simp
  have cells: "map (cell c2) xs = map (cell c) xs" "map (pending_cell c2) (pendingClose c) = map (pending_cell c) (pendingClose c)"
  proof -
    have "fcHeap c1 a = fcHeap c a" if "a \<in> set xs \<union> snd ` set (pendingClose c)" for a
    proof -
      have "a \<noteq> e" using that fresh by blast
      from h [OF this] show ?thesis by simp
    qed
    then show "map (cell c2) xs = map (cell c) xs" "map (pending_cell c2) (pendingClose c) = map (pending_cell c) (pendingClose c)"
      by (auto simp: cell_def pending_cell_def relinkedD [OF rel])
  qed
  then show "lru_view c2 (e # xs) = (lru_view c xs)\<lparr>lruList := (k, f, 0) # map (cell c) xs\<rparr>"
    by (simp add: lru_view_def relinkedD [OF rel] c1_def) (simp add: cell_def relinkedD [OF rel] c1_def)
qed

lemma add_refines:
  assumes "cache_ok c xs"
  shows "\<exists>xs'. cache_ok (fdAdd k f c) xs' \<and> lruAdd k f (lru_view c xs) = lru_view (fdAdd k f c) xs'"
proof (cases "map_of (fcEntries c) k")
  case None
  then have none: "map_of (map (cell c) xs) k = None" using lookup_entries(2) [OF assms] by simp
  note n = new_entry_ok [OF assms None, of f]
  let ?e = "fcNew c"
  define c2 where "c2 = addToHead ?e
    (c\<lparr>fcHeap := (fcHeap c)(?e := \<lparr>feF = f, feID = k, refCount = 0, fePrev = None, feNext = None\<rparr>), fcNew := Suc ?e,
       fcEntries := AList.update k ?e (fcEntries c)\<rparr>)"
  have n2: "cache_ok c2 (?e # xs)" "lru_view c2 (?e # xs) = (lru_view c xs)\<lparr>lruList := (k, f, 0) # map (cell c) xs\<rparr>"
    "length (fcEntries c2) = Suc (length xs)" "fcCapacity c2 = fcCapacity c"
    using n by (simp_all add: c2_def)
  have add: "fdAdd k f c = (if fcCapacity c < int (Suc (length xs)) then evictTail c2 else c2)"
    using None n2(3,4) by (simp add: fdAdd_def Let_def c2_def)
  have cells: "map (cell c2) (?e # xs) = (k, f, 0) # map (cell c) xs" using n2(2) by (simp add: lru_view_def)
  show ?thesis
  proof (cases "fcCapacity c < int (Suc (length xs))")
    case True
    note ev = evict_refines [OF n2(1) list.distinct(2)]
    have "cell c2 (last (?e # xs)) = last ((k, f, 0) # map (cell c) xs)" "map (cell c2) (butlast (?e # xs)) = butlast ((k, f, 0) # map (cell c) xs)"
      by (simp_all only: cells [symmetric] last_map list.distinct not_False_eq_True map_butlast)
    with True add none ev n2(2) show ?thesis
      by (intro exI [of _ "butlast (?e # xs)"]) (simp add: lruAdd_def Let_def lru_view_def)
  next
    case False
    with add none n2 show ?thesis by (intro exI [of _ "?e # xs"]) (simp add: lruAdd_def Let_def lru_view_def)
  qed
next
  case (Some e)
  have e: "e \<in> set xs" "feID (fcHeap c e) = k" using lookup_entries(1) [OF assms] Some by simp_all
  define c1 where "c1 = set_fde e (\<lambda>n. n\<lparr>feF := f\<rparr>) c"
  have ok1: "cache_ok c1 xs" unfolding c1_def by (rule set_fde_ok [OF assms data_updates(2)])
  have ids: "distinct (map (\<lambda>a. feID (fcHeap c a)) xs)" "distinct xs" "e \<notin> snd ` set (pendingClose c)"
    using assms e(1) by (auto simp: cache_ok_def dll_def)
  have rel: "relinked c1 (moveToHead e c1)" using ok1 e(1) by (intro moveToHead_dll) (simp_all add: cache_ok_def)
  have "map (cell c1) (remove1 e xs) = map (cell c) (remove1 e xs)" "map (pending_cell c1) (pendingClose c) = map (pending_cell c) (pendingClose c)"
    using ids(2,3) by (auto simp: c1_def cell_def pending_cell_def)
  then have "lruAdd k f (lru_view c xs) = lru_view (moveToHead e c1) (e # remove1 e xs)"
    using lookup_cell [OF ids(1) e] delete_cell [OF ids(1) e] e(2)
    by (simp add: lruAdd_def lru_view_def relinked_cell [OF rel] relinkedD [OF rel]) (simp add: c1_def cell_def)
  moreover have "fdAdd k f c = moveToHead e c1" using Some by (simp add: fdAdd_def c1_def)
  ultimately show ?thesis using move_ok [OF ok1 e(1)] by (intro exI [of _ "e # remove1 e xs"]) simp
qed

lemma closeAll_refines:
  assumes "cache_ok c xs"
  shows "\<exists>xs'. cache_ok (fdCloseAll c) xs' \<and> lruCloseAll (lru_view c xs) = lru_view (fdCloseAll c) xs'"
proof -
  have d: "distinct (fcEntries c)" "set (fcEntries c) = (\<lambda>a. (feID (fcHeap c a), a)) ` set xs" "distinct xs"
    using assms by (simp_all add: cache_ok_def dll_def distinct_map)
  have "mset (fcEntries c) = mset (map (\<lambda>a. (feID (fcHeap c a), a)) xs)"
    using d by (intro set_eq_iff_mset_eq_distinct [THEN iffD1]) (auto simp: distinct_map inj_on_def)
  then have "image_mset (\<lambda>(_, e). feF (fcHeap c e)) (mset (fcEntries c)) = image_mset (\<lambda>a. feF (fcHeap c a)) (mset xs)"
    by (simp add: multiset.map_comp o_def)
  then show ?thesis
    by (intro exI [of _ "[]"])
      (simp add: fdCloseAll_def lruCloseAll_def lru_view_def cache_ok_def dll_def multiset.map_comp o_def cell_def pending_cell_def case_prod_unfold)
qed

section \<open>Properties\<close>

datatype fd_cmd = FGet u64 | FRelease u64 | FAdd u64 nat | FRemove u64 | FCloseAll

text \<open>Running a sequence of calls, with the results of the \<open>get\<close> calls.\<close>

fun fd_run :: "fd_cmd list \<Rightarrow> fd_cache \<Rightarrow> nat option list \<times> fd_cache" where
  "fd_run [] c = ([], c)"
| "fd_run (FGet k # cs) c = (case fdGet k c of (r, c1) \<Rightarrow> case fd_run cs c1 of (rs, c2) \<Rightarrow> (r # rs, c2))"
| "fd_run (FRelease k # cs) c = fd_run cs (fdRelease k c)"
| "fd_run (FAdd k f # cs) c = fd_run cs (fdAdd k f c)"
| "fd_run (FRemove k # cs) c = fd_run cs (fdRemove k c)"
| "fd_run (FCloseAll # cs) c = fd_run cs (fdCloseAll c)"

fun lru_run :: "fd_cmd list \<Rightarrow> lru \<Rightarrow> nat option list \<times> lru" where
  "lru_run [] s = ([], s)"
| "lru_run (FGet k # cs) s = (case lruGet k s of (r, s1) \<Rightarrow> case lru_run cs s1 of (rs, s2) \<Rightarrow> (r # rs, s2))"
| "lru_run (FRelease k # cs) s = lru_run cs (lruRelease k s)"
| "lru_run (FAdd k f # cs) s = lru_run cs (lruAdd k f s)"
| "lru_run (FRemove k # cs) s = lru_run cs (lruRemove k s)"
| "lru_run (FCloseAll # cs) s = lru_run cs (lruCloseAll s)"

lemma run_refines:
  "cache_ok c xs \<Longrightarrow> \<exists>xs'. cache_ok (snd (fd_run cs c)) xs' \<and> lru_run cs (lru_view c xs) = (fst (fd_run cs c), lru_view (snd (fd_run cs c)) xs')"
proof (induction cs arbitrary: c xs)
  case Nil
  then show ?case by auto
next
  case (Cons cmd cs)
  show ?case
  proof (cases cmd)
    case (FGet k)
    obtain r c1 where g: "fdGet k c = (r, c1)" by fastforce
    with get_refines [OF Cons.prems, of k] obtain xs1 where "cache_ok c1 xs1" "lruGet k (lru_view c xs) = (r, lru_view c1 xs1)" by auto
    with Cons.IH [of c1 xs1] FGet g show ?thesis by (auto split: prod.splits)
  next
    case (FRelease k)
    with release_refines [OF Cons.prems, of k] Cons.IH show ?thesis by fastforce
  next
    case (FAdd k f)
    with add_refines [OF Cons.prems, of k f] Cons.IH show ?thesis by fastforce
  next
    case (FRemove k)
    with remove_refines [OF Cons.prems, of k] Cons.IH show ?thesis by fastforce
  next
    case FCloseAll
    with closeAll_refines [OF Cons.prems] Cons.IH show ?thesis by fastforce
  qed
qed

lemma delete_shorter: "map_of es k = Some v \<Longrightarrow> length (AList.delete k es) < length es"
  by (induction es) (auto simp: less_Suc_eq_le length_delete_le split: if_splits)

lemma lru_steps_bounded:
  assumes "int (length (lruList s)) \<le> lruCap s" "0 \<le> lruCap s"
  shows "int (length (lruList (snd (lruGet k s)))) \<le> lruCap s" "int (length (lruList (lruRelease k s))) \<le> lruCap s"
    "int (length (lruList (lruAdd k f s))) \<le> lruCap s" "int (length (lruList (lruRemove k s))) \<le> lruCap s"
    "int (length (lruList (lruCloseAll s))) \<le> lruCap s"
    "lruCap (snd (lruGet k s)) = lruCap s" "lruCap (lruRelease k s) = lruCap s" "lruCap (lruAdd k f s) = lruCap s"
    "lruCap (lruRemove k s) = lruCap s" "lruCap (lruCloseAll s) = lruCap s"
proof -
  have del: "int (length (AList.delete k (lruList s))) + 1 \<le> lruCap s" if "map_of (lruList s) k = Some v" for v
    using delete_shorter [OF that] assms(1) by linarith
  have ret: "lruList (lruRetire e t) = lruList t" "lruCap (lruRetire e t) = lruCap t" for e t
    by (simp_all add: lruRetire_def split: prod.splits)
  have upd: "length (AList.update k v es) = length es" if "map_of es k = Some w" for v w and es :: "(u64 \<times> nat \<times> int) list"
    using that by (induction es) (auto split: if_splits)
  show "int (length (lruList (snd (lruGet k s)))) \<le> lruCap s" "int (length (lruList (lruRelease k s))) \<le> lruCap s"
    "int (length (lruList (lruAdd k f s))) \<le> lruCap s" "int (length (lruList (lruRemove k s))) \<le> lruCap s"
    "int (length (lruList (lruCloseAll s))) \<le> lruCap s"
    using assms del upd
    by (auto simp: lruGet_def lruRelease_def lruAdd_def lruRemove_def lruCloseAll_def Let_def ret split: option.splits dest: del)
  show "lruCap (snd (lruGet k s)) = lruCap s" "lruCap (lruRelease k s) = lruCap s" "lruCap (lruAdd k f s) = lruCap s"
    "lruCap (lruRemove k s) = lruCap s" "lruCap (lruCloseAll s) = lruCap s"
    by (auto simp: lruGet_def lruRelease_def lruAdd_def lruRemove_def lruCloseAll_def Let_def ret split: option.splits)
qed

lemma lru_run_bounded:
  assumes "int (length (lruList s)) \<le> lruCap s" "0 \<le> lruCap s"
  shows "int (length (lruList (snd (lru_run cs s)))) \<le> lruCap s"
  using assms
proof (induction cs arbitrary: s)
  case (Cons cmd cs)
  note st = lru_steps_bounded [OF Cons.prems]
  show ?case
  proof (cases cmd)
    case (FGet k)
    with Cons.IH [of "snd (lruGet k s)"] st(1,6) [of k] Cons.prems show ?thesis by (auto split: prod.splits)
  next
    case (FRelease k)
    with Cons.IH [of "lruRelease k s"] st(2,7) [of k] Cons.prems show ?thesis by auto
  next
    case (FAdd k f)
    with Cons.IH [of "lruAdd k f s"] st(3,8) [of k f] Cons.prems show ?thesis by auto
  next
    case (FRemove k)
    with Cons.IH [of "lruRemove k s"] st(4,9) [of k] Cons.prems show ?thesis by auto
  next
    case FCloseAll
    with Cons.IH [of "lruCloseAll s"] st(5,10) Cons.prems show ?thesis by auto
  qed
qed simp


text \<open>
  The users of a descriptor are counted per id and not per descriptor. When an id in use is evicted
  and its file is opened and cached again, the release of the first user is charged to the new
  descriptor; the next user of it counts as nobody, and an eviction closes the descriptor under it,
  while the first one is never closed.
\<close>

theorem fd_closed_while_in_use:
  "case fd_run [FAdd 1 11, FGet 1, FAdd 2 22, FAdd 1 12, FRelease 1, FGet 1, FAdd 3 33] (newLobFDCache 1) of
     (rs, c) \<Rightarrow> rs = [Some 11, Some 12] \<and> 12 \<in> set (fcClosed c) \<and> 11 \<notin> set (fcClosed c) \<and>
       map_of (fcEntries c) 1 = None"
  by (simp add: newLobFDCache_def fdGet_def fdAdd_def fdRelease_def evictTail_def retire_fde_def close_fd_def addToHead_def unlink_fde_def
      moveToHead_def set_fde_def Let_def)

end
