(* ===== verification/LOB_File_Store.thy ===== *)
theory LOB_File_Store
  imports Page_Manager FD_Cache
begin

text \<open>
  Large values in files (\<open>lob/file_store.go\<close>, \<open>lob/file_manager.go\<close>, \<open>lob/config.go\<close>): a value is
  written to a temporary file that is renamed to its final name; reading goes through the cache of
  \<open>FD_Cache\<close>.

  The directory maps names to files; a descriptor stays bound to its file when the name is removed or
  replaced. Every system call takes its result from \<open>lfsFaults\<close>. \<open>inSynced\<close> is how much of a file an
  \<open>fsync\<close> made durable. Each method is one step; the group commit of \<open>fsyncGroup\<close> is its queue and
  the flush of its loop.
\<close>

section \<open>Configuration\<close>

record lob_config =
  OverflowThreshold :: int
  FileThreshold :: int
  FileMMapThreshold :: int
  FDCacheCapacity :: int
  FsyncInterval :: int
  FsyncMaxBatch :: int
  FsyncQueueSize :: int
  FsyncEnabled :: bool
  MaxLOBRetiredLen :: int

text \<open>\<open>DefaultConfig\<close> does not mention \<open>FsyncEnabled\<close>, which is therefore false. Times are in nanoseconds.\<close>

definition DefaultConfig :: lob_config where
  "DefaultConfig = \<lparr>OverflowThreshold = 2048, FileThreshold = 262144, FileMMapThreshold = 65536, FDCacheCapacity = 64,
     FsyncInterval = 1000000, FsyncMaxBatch = 32, FsyncQueueSize = 256, FsyncEnabled = False, MaxLOBRetiredLen = 65536\<rparr>"

definition WithFsyncEnabled :: "bool \<Rightarrow> lob_config \<Rightarrow> lob_config" where
  "WithFsyncEnabled v c = c\<lparr>FsyncEnabled := v\<rparr>"

definition WithFDCacheCapacity :: "int \<Rightarrow> lob_config \<Rightarrow> lob_config" where
  "WithFDCacheCapacity n c = c\<lparr>FDCacheCapacity := n\<rparr>"

definition WithFileMMapThreshold :: "int \<Rightarrow> lob_config \<Rightarrow> lob_config" where
  "WithFileMMapThreshold n c = c\<lparr>FileMMapThreshold := n\<rparr>"

definition configApply :: "(lob_config \<Rightarrow> lob_config) list \<Rightarrow> lob_config \<Rightarrow> lob_config" where
  "configApply opts c = fold (\<lambda>f. f) opts c"

section \<open>Names\<close>

text \<open>The \<open>%020d\<close> form of a number: its last \<open>k\<close> decimal digits.\<close>

fun pad_digits :: "nat \<Rightarrow> nat \<Rightarrow> string" where
  "pad_digits 0 n = []"
| "pad_digits (Suc k) n = pad_digits k (n div 10) @ [char_of (48 + n mod 10)]"

definition lobFilePrefix :: string where "lobFilePrefix = ''lob_''"
definition lobTmpFilePrefix :: string where "lobTmpFilePrefix = ''lob_tmp_''"
definition lobFileExt :: string where "lobFileExt = ''.ao''"

definition lobFilePath :: "u64 \<Rightarrow> string" where
  "lobFilePath lobID = lobFilePrefix @ pad_digits 20 (unat lobID) @ lobFileExt"

definition lobTmpPath :: "u64 \<Rightarrow> string" where
  "lobTmpPath lobID = lobTmpFilePrefix @ pad_digits 20 (unat lobID) @ lobFileExt"

section \<open>State\<close>

record lob_inode =
  inData :: bytes
  inSynced :: nat

record file_store =
  lfsCfg :: lob_config
  nextLOBID :: u64
  fdCache :: fd_cache
  fsyncClosed :: bool
  fsyncQueue :: "nat list"
  lfsDir :: "(string \<times> nat) list"
  lfsInodes :: "nat \<Rightarrow> lob_inode"
  newInode :: nat
  fdInode :: "nat \<Rightarrow> nat"
  newFd :: nat
  lfsFaults :: "io list"

definition lob_io :: "file_store \<Rightarrow> io \<times> file_store" where
  "lob_io s = (case lfsFaults s of [] \<Rightarrow> (IoOk, s) | f # fs \<Rightarrow> (f, s\<lparr>lfsFaults := fs\<rparr>))"

definition lobFileHeaderSize :: nat where "lobFileHeaderSize = 40"
definition lobMagic :: bytes where "lobMagic = [0x4E, 0x58, 0x4C, 0x42]"
definition lobVersion1 :: u16 where "lobVersion1 = 1"
definition lobFlagDeleted :: u16 where "lobFlagDeleted = 1"

text \<open>A new store over an existing directory; \<open>rnd\<close> is the result of \<open>rand.Read\<close>.\<close>

definition newLOBFileStore :: "lob_config \<Rightarrow> u32 option \<Rightarrow> file_store \<Rightarrow> file_store outcome" where
  "newLOBFileStore cfg rnd s = (case lob_io s of
     (IoFail n, s1) \<Rightarrow> Err ErrIO
   | (IoOk, s1) \<Rightarrow> Ok (s1\<lparr>lfsCfg := cfg, fdCache := newLobFDCache (FDCacheCapacity cfg), fsyncClosed := False, fsyncQueue := [],
       nextLOBID := (case rnd of Some r \<Rightarrow> (push_bit 32 (ucast r)) OR 1 | None \<Rightarrow> 0)\<rparr>))"

section \<open>System calls\<close>

definition set_inode :: "nat \<Rightarrow> (lob_inode \<Rightarrow> lob_inode) \<Rightarrow> file_store \<Rightarrow> file_store" where
  "set_inode i f s = s\<lparr>lfsInodes := (lfsInodes s)(i := f (lfsInodes s i))\<rparr>"

text \<open>Opening for writing creates the file or truncates it.\<close>

definition open_trunc :: "string \<Rightarrow> file_store \<Rightarrow> nat outcome \<times> file_store" where
  "open_trunc path s = (case lob_io s of
     (IoFail n, s1) \<Rightarrow> (Err ErrIO, s1)
   | (IoOk, s1) \<Rightarrow>
       let f = newFd s1;
           (i, s2) = (case map_of (lfsDir s1) path of
               Some i \<Rightarrow> (i, set_inode i (\<lambda>_. \<lparr>inData = [], inSynced = 0\<rparr>) s1)
             | None \<Rightarrow> (newInode s1, set_inode (newInode s1) (\<lambda>_. \<lparr>inData = [], inSynced = 0\<rparr>)
                 (s1\<lparr>lfsDir := (path, newInode s1) # lfsDir s1, newInode := Suc (newInode s1)\<rparr>)))
       in (Ok f, s2\<lparr>fdInode := (fdInode s2)(f := i), newFd := Suc f\<rparr>))"

definition open_read :: "string \<Rightarrow> file_store \<Rightarrow> nat outcome \<times> file_store" where
  "open_read path s = (case lob_io s of
     (IoFail n, s1) \<Rightarrow> (Err ErrIO, s1)
   | (IoOk, s1) \<Rightarrow> (case map_of (lfsDir s1) path of
       None \<Rightarrow> (Err ErrLOBFileNotFound, s1)
     | Some i \<Rightarrow> (Ok (newFd s1), s1\<lparr>fdInode := (fdInode s1)(newFd s1 := i), newFd := Suc (newFd s1)\<rparr>)))"

definition file_append :: "nat \<Rightarrow> bytes \<Rightarrow> file_store \<Rightarrow> unit outcome \<times> file_store" where
  "file_append f d s = (case lob_io s of
     (IoFail n, s1) \<Rightarrow> (Err ErrIO, set_inode (fdInode s1 f) (\<lambda>i. i\<lparr>inData := inData i @ take n d\<rparr>) s1)
   | (IoOk, s1) \<Rightarrow> (Ok (), set_inode (fdInode s1 f) (\<lambda>i. i\<lparr>inData := inData i @ d\<rparr>) s1))"

definition fd_sync :: "nat \<Rightarrow> file_store \<Rightarrow> unit outcome \<times> file_store" where
  "fd_sync f s = (case lob_io s of
     (IoFail n, s1) \<Rightarrow> (Err ErrIO, s1)
   | (IoOk, s1) \<Rightarrow> (Ok (), set_inode (fdInode s1 f) (\<lambda>i. i\<lparr>inSynced := length (inData i)\<rparr>) s1))"

definition remove_path :: "string \<Rightarrow> file_store \<Rightarrow> unit outcome \<times> file_store" where
  "remove_path path s = (case lob_io s of
     (IoFail n, s1) \<Rightarrow> (Err ErrIO, s1)
   | (IoOk, s1) \<Rightarrow>
       if map_of (lfsDir s1) path = None then (Err ErrLOBFileNotFound, s1)
       else (Ok (), s1\<lparr>lfsDir := AList.delete path (lfsDir s1)\<rparr>))"

definition rename_path :: "string \<Rightarrow> string \<Rightarrow> file_store \<Rightarrow> unit outcome \<times> file_store" where
  "rename_path src dst s = (case lob_io s of
     (IoFail n, s1) \<Rightarrow> (Err ErrIO, s1)
   | (IoOk, s1) \<Rightarrow> (case map_of (lfsDir s1) src of
       None \<Rightarrow> (Err ErrLOBFileNotFound, s1)
     | Some i \<Rightarrow> (Ok (), s1\<lparr>lfsDir := (dst, i) # AList.delete dst (AList.delete src (lfsDir s1))\<rparr>)))"

text \<open>\<open>ReadAt\<close>: a closed descriptor and a read beyond the end are errors.\<close>

definition read_at_fd :: "nat \<Rightarrow> nat \<Rightarrow> nat \<Rightarrow> file_store \<Rightarrow> bytes outcome \<times> file_store" where
  "read_at_fd f off len s = (case lob_io s of
     (IoFail n, s1) \<Rightarrow> (Err ErrIO, s1)
   | (IoOk, s1) \<Rightarrow>
       let d = inData (lfsInodes s1 (fdInode s1 f))
       in if f \<in> set (fcClosed (fdCache s1)) \<or> length d < off + len then (Err ErrIO, s1)
          else (Ok (take len (drop off d)), s1))"

section \<open>Group commit\<close>

fun flush_batch :: "nat list \<Rightarrow> file_store \<Rightarrow> unit outcome list \<times> file_store" where
  "flush_batch [] s = ([], s)"
| "flush_batch (f # fs) s = (case fd_sync f s of (r, s1) \<Rightarrow> case flush_batch fs s1 of (rs, s2) \<Rightarrow> (r # rs, s2))"

definition groupSync :: "nat \<Rightarrow> file_store \<Rightarrow> unit outcome \<times> file_store" where
  "groupSync f s =
     (if \<not> FsyncEnabled (lfsCfg s) then (Ok (), s)
      else if fsyncClosed s then fd_sync f s
      else if fsyncQueue s = [] then fd_sync f s
      else case flush_batch (fsyncQueue s @ [f]) (s\<lparr>fsyncQueue := []\<rparr>) of (rs, s1) \<Rightarrow> (last rs, s1))"

section \<open>Operations\<close>

definition lob_header :: "u64 \<Rightarrow> nat \<Rightarrow> bytes" where
  "lob_header lobID n = lobMagic @ PutUint16 lobVersion1 @ [0, 0] @ PutUint64 lobID @ PutUint64 (of_nat n) @ replicate 16 0"

text \<open>A failed creation removes the temporary file; the result of the removal is ignored.\<close>

definition abandon :: "string \<Rightarrow> err \<Rightarrow> file_store \<Rightarrow> lob_file_ref outcome \<times> file_store" where
  "abandon tmpPath e s = (Err e, snd (remove_path tmpPath s))"

definition storeCreate :: "bytes \<Rightarrow> file_store \<Rightarrow> lob_file_ref outcome \<times> file_store" where
  "storeCreate d s =
     (let lobID = nextLOBID s + 1; s0 = s\<lparr>nextLOBID := lobID\<rparr>; tmpPath = lobTmpPath lobID
      in case open_trunc tmpPath s0 of
           (Ok f, s1) \<Rightarrow> (case file_append f (lob_header lobID (length d)) s1 of
             (Ok _, s2) \<Rightarrow> (case file_append f d s2 of
               (Ok _, s3) \<Rightarrow> (case groupSync f s3 of
                 (Ok _, s4) \<Rightarrow> (case rename_path tmpPath (lobFilePath lobID) s4 of
                   (Ok _, s5) \<Rightarrow> (Ok \<lparr>LOBID = lobID, FileLen = of_nat (length d)\<rparr>, s5)
                 | (Err e, s5) \<Rightarrow> abandon tmpPath e s5
                 | (Panic, s5) \<Rightarrow> (Panic, s5))
               | (Err e, s4) \<Rightarrow> abandon tmpPath e s4
               | (Panic, s4) \<Rightarrow> (Panic, s4))
             | (Err e, s3) \<Rightarrow> abandon tmpPath e s3
             | (Panic, s3) \<Rightarrow> (Panic, s3))
           | (Err e, s2) \<Rightarrow> abandon tmpPath e s2
           | (Panic, s2) \<Rightarrow> (Panic, s2))
         | (Err e, s1) \<Rightarrow> (Err e, s1)
         | (Panic, s1) \<Rightarrow> (Panic, s1))"

text \<open>
  Reading through a mapping: beyond the end of the file the last page reads as zeros and the pages after
  it cannot be accessed. When the mapping fails the file is read.
\<close>

definition osPageSize :: nat where "osPageSize = 4096"

definition mmapRead :: "nat \<Rightarrow> nat \<Rightarrow> nat \<Rightarrow> file_store \<Rightarrow> bytes outcome \<times> file_store" where
  "mmapRead f off len s = (case lob_io s of
     (IoFail n, s1) \<Rightarrow> read_at_fd f off len s1
   | (IoOk, s1) \<Rightarrow>
       let d = inData (lfsInodes s1 (fdInode s1 f)); mapped = (length d + osPageSize - 1) div osPageSize * osPageSize
       in if f \<in> set (fcClosed (fdCache s1)) then read_at_fd f off len s1
          else if mapped < off + len then (Panic, s1)
          else (Ok (take len (drop off (d @ replicate (mapped - length d) 0))), s1))"

text \<open>After an error the descriptor is closed or given back.\<close>

definition read_failed :: "bool \<Rightarrow> u64 \<Rightarrow> nat \<Rightarrow> file_store \<Rightarrow> file_store" where
  "read_failed cached lobID f s =
     (if cached then s\<lparr>fdCache := fdRelease lobID (fdCache s)\<rparr> else s\<lparr>fdCache := close_fd f (fdCache s)\<rparr>)"

text \<open>The body of \<open>Read\<close> behind the opening of the file; \<open>make\<close> panics on a length beyond the address space.\<close>

definition maxAlloc :: nat where "maxAlloc = 2 ^ 48"

definition read_body :: "bool \<Rightarrow> lob_file_ref \<Rightarrow> nat \<Rightarrow> file_store \<Rightarrow> bytes outcome \<times> file_store" where
  "read_body cached ref f s =
     (case read_at_fd f 0 lobFileHeaderSize s of
        (Ok header, s1) \<Rightarrow>
          if take 4 header \<noteq> lobMagic then (Err ErrLOBBadMagic, read_failed cached (LOBID ref) f s1)
          else if Uint64 (field 8 8 header) \<noteq> LOBID ref then (Err ErrLOBIDMismatch, read_failed cached (LOBID ref) f s1)
          else if Uint16 (field 6 2 header) AND lobFlagDeleted \<noteq> 0 then (Err ErrLOBDeleted, read_failed cached (LOBID ref) f s1)
          else
            let dataLen = unat (Uint64 (field 16 8 header))
            in if dataLen = 0 then (Ok [], if cached then s1\<lparr>fdCache := fdRelease (LOBID ref) (fdCache s1)\<rparr> else s1)
               else if maxAlloc < dataLen then (Panic, s1)
               else (case (if unat (of_int (FileMMapThreshold (lfsCfg s1)) :: u64) < dataLen then mmapRead f lobFileHeaderSize dataLen s1
                           else read_at_fd f lobFileHeaderSize dataLen s1) of
                  (Ok d, s2) \<Rightarrow> (Ok d, s2\<lparr>fdCache := (if cached then fdRelease (LOBID ref) (fdCache s2) else fdAdd (LOBID ref) f (fdCache s2))\<rparr>)
                | (Err e, s2) \<Rightarrow> (Err e, read_failed cached (LOBID ref) f s2)
                | (Panic, s2) \<Rightarrow> (Panic, s2))
      | (Err e, s1) \<Rightarrow> (Err e, read_failed cached (LOBID ref) f s1)
      | (Panic, s1) \<Rightarrow> (Panic, s1))"

definition storeRead :: "lob_file_ref \<Rightarrow> file_store \<Rightarrow> bytes outcome \<times> file_store" where
  "storeRead ref s = (case fdGet (LOBID ref) (fdCache s) of
     (Some f, c) \<Rightarrow> read_body True ref f (s\<lparr>fdCache := c\<rparr>)
   | (None, c) \<Rightarrow> (case open_read (lobFilePath (LOBID ref)) (s\<lparr>fdCache := c\<rparr>) of
       (Ok f, s1) \<Rightarrow> read_body False ref f s1
     | (Err e, s1) \<Rightarrow> (Err e, s1)
     | (Panic, s1) \<Rightarrow> (Panic, s1)))"

definition storeDelete :: "lob_file_ref \<Rightarrow> file_store \<Rightarrow> unit outcome \<times> file_store" where
  "storeDelete ref s = (case remove_path (lobFilePath (LOBID ref)) (s\<lparr>fdCache := fdRemove (LOBID ref) (fdCache s)\<rparr>) of
     (Err e, s1) \<Rightarrow> (if e = ErrLOBFileNotFound then Ok () else Err e, s1)
   | (r, s1) \<Rightarrow> (r, s1))"

definition is_tmp_name :: "string \<Rightarrow> bool" where
  "is_tmp_name name \<longleftrightarrow> length lobTmpFilePrefix < length name \<and> take (length lobTmpFilePrefix) name = lobTmpFilePrefix"

definition CleanupTmp :: "file_store \<Rightarrow> unit outcome \<times> file_store" where
  "CleanupTmp s = (case lob_io s of
     (IoFail n, s1) \<Rightarrow> (Err ErrIO, s1)
   | (IoOk, s1) \<Rightarrow> (Ok (), fold (\<lambda>name s. snd (remove_path name s)) (filter is_tmp_name (map fst (lfsDir s1))) s1))"

definition storeClose :: "file_store \<Rightarrow> file_store" where
  "storeClose s = s\<lparr>fsyncClosed := True, fdCache := fdCloseAll (fdCache s)\<rparr>"

text \<open>\<open>DefaultLOBFileManager\<close>: the callers of the interface see what a read returns; what it changes is the cache.\<close>

definition defaultLOBFileManager :: "file_store lob_file_manager" where
  "defaultLOBFileManager = \<lparr>fileCreate = storeCreate, fileRead = (\<lambda>ref s. fst (storeRead ref s)),
     fileDelete = (\<lambda>ref s. snd (storeDelete ref s))\<rparr>"

section \<open>Names are distinct\<close>

lemma length_pad_digits [simp]: "length (pad_digits k n) = k"
  by (induction k arbitrary: n) auto

lemma digit_inj: "char_of (48 + n mod 10 :: nat) = char_of (48 + m mod 10 :: nat) \<longleftrightarrow> n mod 10 = m mod 10"
proof
  assume "char_of (48 + n mod 10 :: nat) = char_of (48 + m mod 10 :: nat)"
  then have "of_char (char_of (48 + n mod 10 :: nat)) = (of_char (char_of (48 + m mod 10 :: nat)) :: nat)" by simp
  moreover have "48 + n mod 10 < 256" "48 + m mod 10 < (256 :: nat)"
    using mod_less_divisor [of 10 n] mod_less_divisor [of 10 m] by linarith+
  ultimately show "n mod 10 = m mod 10" by simp
qed simp

lemma pad_digits_inj: "n < 10 ^ k \<Longrightarrow> m < 10 ^ k \<Longrightarrow> pad_digits k n = pad_digits k m \<Longrightarrow> n = m"
proof (induction k arbitrary: n m)
  case (Suc k)
  then have "pad_digits k (n div 10) = pad_digits k (m div 10)" "n mod 10 = m mod 10" by (simp_all add: digit_inj)
  moreover have "n div 10 < 10 ^ k" "m div 10 < 10 ^ k" using Suc.prems by (simp_all add: div_less_iff_less_mult mult.commute)
  ultimately have "n div 10 = m div 10" using Suc.IH by blast
  with \<open>n mod 10 = m mod 10\<close> show ?case by (metis div_mult_mod_eq)
qed simp

lemma u64_digits: "unat (a :: u64) < 10 ^ 20"
  by (rule less_le_trans [OF unsigned_less]) simp

lemma lobFilePath_inj [simp]: "lobFilePath a = lobFilePath b \<longleftrightarrow> a = b"
  using pad_digits_inj [OF u64_digits u64_digits, of a b] by (auto simp: lobFilePath_def word_unat_eq_iff)

lemma digit_first: "\<exists>c cs. pad_digits (Suc k) n = c # cs \<and> c \<noteq> CHR ''t''"
proof (induction k arbitrary: n)
  case 0
  have "char_of (48 + n mod 10 :: nat) \<noteq> CHR ''t''"
  proof
    assume "char_of (48 + n mod 10 :: nat) = CHR ''t''"
    then have "of_char (char_of (48 + n mod 10 :: nat)) = (116 :: nat)" by simp
    moreover have "48 + n mod 10 < (58 :: nat)" using mod_less_divisor [of 10 n] by linarith
    ultimately show False by simp
  qed
  then show ?case by simp
next
  case (Suc k)
  from Suc.IH [of "n div 10"] obtain c cs where "pad_digits (Suc k) (n div 10) = c # cs" "c \<noteq> CHR ''t''" by blast
  then show ?case by (auto simp only: pad_digits.simps(2) [of "Suc k"] append_Cons)
qed

lemma tmp_not_final [simp]: "lobTmpPath a \<noteq> lobFilePath b" "lobFilePath b \<noteq> lobTmpPath a"
proof -
  have "pad_digits 20 = pad_digits (Suc 19)" by (rule arg_cong [of _ _ pad_digits]) simp
  with digit_first [of 19 "unat b"] obtain c cs where c: "pad_digits 20 (unat b) = c # cs" "c \<noteq> CHR ''t''" by metis
  then have "lobFilePath b ! 4 = c" by (simp add: lobFilePath_def lobFilePrefix_def)
  moreover have "lobTmpPath a ! 4 = CHR ''t''" by (simp add: lobTmpPath_def lobTmpFilePrefix_def)
  ultimately show "lobTmpPath a \<noteq> lobFilePath b" "lobFilePath b \<noteq> lobTmpPath a" using c(2) by metis+
qed

section \<open>The invariant\<close>

text \<open>
  Between the calls nobody uses a cached descriptor; each is open and bound to the file that its id
  still names. Ids are handed out in increasing order, no two names share a file and nothing waits in
  the queue of the group commit.
\<close>

definition good_cell :: "file_store \<Rightarrow> u64 \<times> nat \<times> int \<Rightarrow> bool" where
  "good_cell s e \<longleftrightarrow> (case e of (k, f, n) \<Rightarrow> n = 0 \<and> f \<notin> set (fcClosed (fdCache s)) \<and> f < newFd s \<and>
     map_of (lfsDir s) (lobFilePath k) = Some (fdInode s f) \<and> k \<le> nextLOBID s)"

definition good_cells :: "file_store \<Rightarrow> (u64 \<times> nat \<times> int) list \<Rightarrow> bool" where
  "good_cells s es \<longleftrightarrow> (\<forall>e \<in> set es. good_cell s e) \<and> distinct (map (fst \<circ> snd) es)"

definition lfs_inv :: "file_store \<Rightarrow> bool" where
  "lfs_inv s \<longleftrightarrow> (\<exists>xs. cache_ok (fdCache s) xs \<and> good_cells s (map (cell (fdCache s)) xs)) \<and> pendingClose (fdCache s) = [] \<and>
     (\<forall>f \<in> set (fcClosed (fdCache s)). f < newFd s) \<and> distinct (map fst (lfsDir s)) \<and> distinct (map snd (lfsDir s)) \<and>
     (\<forall>i \<in> snd ` set (lfsDir s). i < newInode s) \<and> fsyncQueue s = []"

definition lfs_ok :: "file_store \<Rightarrow> bool" where
  "lfs_ok s \<longleftrightarrow> lfs_inv s \<and> unat (nextLOBID s) < 18446744073709551615"

definition uncached :: "u64 \<Rightarrow> file_store \<Rightarrow> bool" where
  "uncached k s \<longleftrightarrow> map_of (fcEntries (fdCache s)) k = None"

lemma lob_io_state: "lob_io s = (r, s1) \<Longrightarrow> \<exists>fs. s1 = s\<lparr>lfsFaults := fs\<rparr>"
  by (cases s) (auto simp: lob_io_def split: list.splits)

lemma inv_fields [simp]:
  "lfs_inv (s\<lparr>lfsFaults := fs\<rparr>) = lfs_inv s" "lfs_inv (set_inode i g s) = lfs_inv s"
  "uncached k (s\<lparr>lfsFaults := fs\<rparr>) = uncached k s" "uncached k (set_inode i g s) = uncached k s"
  by (simp_all add: lfs_inv_def good_cells_def good_cell_def set_inode_def uncached_def)

text \<open>A change of the directory away from the names of the cached ids keeps the invariant.\<close>

lemma inv_dir:
  assumes "lfs_inv s" "\<And>k. \<not> uncached k s \<Longrightarrow> map_of dir' (lobFilePath k) = map_of (lfsDir s) (lobFilePath k)"
    "distinct (map fst dir')" "distinct (map snd dir')" "\<forall>i \<in> snd ` set dir'. i < newInode s'"
    "fdCache s' = fdCache s" "lfsDir s' = dir'" "nextLOBID s' = nextLOBID s" "newFd s \<le> newFd s'"
    "\<And>f. f < newFd s \<Longrightarrow> fdInode s' f = fdInode s f" "fsyncQueue s' = []"
  shows "lfs_inv s'"
proof -
  from assms(1) obtain xs where xs: "cache_ok (fdCache s) xs" "good_cells s (map (cell (fdCache s)) xs)"
    by (auto simp: lfs_inv_def)
  have "good_cell s' e" if "e \<in> set (map (cell (fdCache s)) xs)" for e
  proof -
    obtain k f n where e: "e = (k, f, n)" by (cases e)
    from that obtain a where a: "a \<in> set xs" "feID (fcHeap (fdCache s) a) = k" by (auto simp: e cell_def)
    then have "\<not> uncached k s" using lookup_entries(1) [OF xs(1), of k a] by (simp add: uncached_def)
    moreover have "good_cell s (k, f, n)" using xs(2) that e by (auto simp: good_cells_def)
    ultimately show ?thesis using assms(2,6-10) e by (auto simp: good_cell_def)
  qed
  then have "good_cells s' (map (cell (fdCache s)) xs)" using xs(2) unfolding good_cells_def by blast
  then have "\<exists>xs. cache_ok (fdCache s') xs \<and> good_cells s' (map (cell (fdCache s')) xs)"
    using assms(6) xs(1) by auto
  moreover have "\<forall>f\<in>set (fcClosed (fdCache s)). f < newFd s'" using assms(1,9) by (fastforce simp: lfs_inv_def)
  ultimately show ?thesis using assms by (simp add: lfs_inv_def)
qed

lemma inv_open_trunc:
  assumes "lfs_inv s" "open_trunc (lobTmpPath k) s = (r, s1)"
  shows "lfs_inv s1" "fdCache s1 = fdCache s" "lfsCfg s1 = lfsCfg s" "nextLOBID s1 = nextLOBID s"
    "r = Ok f \<Longrightarrow> map_of (lfsDir s1) (lobTmpPath k) = Some (fdInode s1 f) \<and> lfsInodes s1 (fdInode s1 f) = \<lparr>inData = [], inSynced = 0\<rparr>"
proof -
  obtain io s' where io: "lob_io s = (io, s')" by (cases "lob_io s")
  then obtain fs where fs: "s' = s\<lparr>lfsFaults := fs\<rparr>" using lob_io_state by blast
  let ?d = "lfsDir s"
  have inv: "distinct (map fst ?d)" "distinct (map snd ?d)" "\<forall>i \<in> snd ` set ?d. i < newInode s" "fsyncQueue s = []"
    using assms(1) by (simp_all add: lfs_inv_def)
  have new: "newInode s \<notin> snd ` set ?d" using inv(3) by auto
  have less: "(a, b) \<in> set ?d \<Longrightarrow> b < newInode s" for a b using inv(3) by force
  have key: "map_of ?d (lobTmpPath k) = None \<Longrightarrow> lobTmpPath k \<notin> fst ` set ?d" by (simp add: map_of_eq_None_iff)
  show "lfs_inv s1"
  proof (cases "io = IoOk")
    case True
    then show ?thesis using assms(2) io fs inv new key less
      by (intro inv_dir [OF assms(1), where dir' = "lfsDir s1"])
        (auto simp: open_trunc_def set_inode_def Let_def less_Suc_eq split: option.splits if_splits)
  next
    case False
    then show ?thesis using assms io fs by (cases io) (auto simp: open_trunc_def)
  qed
  show "fdCache s1 = fdCache s" "lfsCfg s1 = lfsCfg s" "nextLOBID s1 = nextLOBID s"
    using assms(2) io fs by (auto simp: open_trunc_def set_inode_def Let_def split: io.splits option.splits)
  show "r = Ok f \<Longrightarrow> map_of (lfsDir s1) (lobTmpPath k) = Some (fdInode s1 f) \<and> lfsInodes s1 (fdInode s1 f) = \<lparr>inData = [], inSynced = 0\<rparr>"
    using assms(2) io fs by (auto simp: open_trunc_def set_inode_def Let_def split: io.splits option.splits)
qed

lemma inv_append:
  assumes "lfs_inv s" "file_append f d s = (r, s1)"
  shows "lfs_inv s1" "fdCache s1 = fdCache s" "lfsCfg s1 = lfsCfg s" "nextLOBID s1 = nextLOBID s" "lfsDir s1 = lfsDir s" "fdInode s1 = fdInode s"
    "r = Ok u \<Longrightarrow> inData (lfsInodes s1 (fdInode s f)) = inData (lfsInodes s (fdInode s f)) @ d"
    "inSynced (lfsInodes s1 i) = inSynced (lfsInodes s i)"
proof -
  obtain io s' fs where io: "lob_io s = (io, s')" "s' = s\<lparr>lfsFaults := fs\<rparr>" using lob_io_state by (metis surj_pair)
  then show "lfs_inv s1" using assms by (cases io) (auto simp: file_append_def)
  show "fdCache s1 = fdCache s" "lfsCfg s1 = lfsCfg s" "nextLOBID s1 = nextLOBID s" "lfsDir s1 = lfsDir s" "fdInode s1 = fdInode s"
    "r = Ok u \<Longrightarrow> inData (lfsInodes s1 (fdInode s f)) = inData (lfsInodes s (fdInode s f)) @ d"
    "inSynced (lfsInodes s1 i) = inSynced (lfsInodes s i)"
    using assms(2) io by (cases io; auto simp: file_append_def set_inode_def)+
qed

lemma inv_sync:
  assumes "lfs_inv s" "groupSync f s = (r, s1)"
  shows "lfs_inv s1" "fdCache s1 = fdCache s" "lfsCfg s1 = lfsCfg s" "nextLOBID s1 = nextLOBID s" "lfsDir s1 = lfsDir s" "fdInode s1 = fdInode s"
    "inData (lfsInodes s1 i) = inData (lfsInodes s i)"
    "r = Ok u \<Longrightarrow> FsyncEnabled (lfsCfg s) \<Longrightarrow> inSynced (lfsInodes s1 (fdInode s f)) = length (inData (lfsInodes s (fdInode s f)))"
    "\<not> FsyncEnabled (lfsCfg s) \<Longrightarrow> inSynced (lfsInodes s1 i) = inSynced (lfsInodes s i)"
proof -
  have q: "fsyncQueue s = []" using assms(1) by (simp add: lfs_inv_def)
  have run: "groupSync f s = (if FsyncEnabled (lfsCfg s) then fd_sync f s else (Ok (), s))" by (simp add: groupSync_def q)
  obtain io s' fs where io: "lob_io s = (io, s')" "s' = s\<lparr>lfsFaults := fs\<rparr>" using lob_io_state by (metis surj_pair)
  then show "lfs_inv s1" using assms unfolding run by (cases io) (auto simp: fd_sync_def split: if_splits)
  show "fdCache s1 = fdCache s" "lfsCfg s1 = lfsCfg s" "nextLOBID s1 = nextLOBID s" "lfsDir s1 = lfsDir s" "fdInode s1 = fdInode s"
    "inData (lfsInodes s1 i) = inData (lfsInodes s i)"
    "r = Ok u \<Longrightarrow> FsyncEnabled (lfsCfg s) \<Longrightarrow> inSynced (lfsInodes s1 (fdInode s f)) = length (inData (lfsInodes s (fdInode s f)))"
    "\<not> FsyncEnabled (lfsCfg s) \<Longrightarrow> inSynced (lfsInodes s1 i) = inSynced (lfsInodes s i)"
    using assms(2) io unfolding run by (cases io; auto simp: fd_sync_def set_inode_def split: if_splits)+
qed

lemma inv_remove_tmp:
  assumes "lfs_inv s" "remove_path (lobTmpPath k) s = (r, s1)"
  shows "lfs_inv s1" "nextLOBID s1 = nextLOBID s"
proof -
  obtain io s' fs where io: "lob_io s = (io, s')" "s' = s\<lparr>lfsFaults := fs\<rparr>" using lob_io_state by (metis surj_pair)
  have inv: "distinct (map fst (lfsDir s))" "distinct (map snd (lfsDir s))" "\<And>a b. (a, b) \<in> set (lfsDir s) \<Longrightarrow> b < newInode s" "fsyncQueue s = []"
    using assms(1) by (auto simp: lfs_inv_def)
  show "lfs_inv s1" "nextLOBID s1 = nextLOBID s"
  proof (atomize(full), cases "io = IoOk \<and> map_of (lfsDir s) (lobTmpPath k) \<noteq> None")
    case True
    then have s1: "s1 = s\<lparr>lfsFaults := fs, lfsDir := AList.delete (lobTmpPath k) (lfsDir s)\<rparr>"
      using assms(2) io by (auto simp: remove_path_def)
    have "lfs_inv s1" unfolding s1 using inv
      by (intro inv_dir [OF assms(1), where dir' = "AList.delete (lobTmpPath k) (lfsDir s)"]) (auto simp: deleted AList.delete_conv')
    with s1 show "lfs_inv s1 \<and> nextLOBID s1 = nextLOBID s" by simp
  next
    case False
    then show "lfs_inv s1 \<and> nextLOBID s1 = nextLOBID s" using assms io by (cases io) (auto simp: remove_path_def split: if_splits)
  qed
qed

lemma inv_rename:
  assumes "lfs_inv s" "uncached k s" "rename_path (lobTmpPath k) (lobFilePath k) s = (r, s1)"
  shows "lfs_inv s1" "fdCache s1 = fdCache s" "lfsCfg s1 = lfsCfg s" "nextLOBID s1 = nextLOBID s" "lfsInodes s1 = lfsInodes s"
    "r = Ok u \<Longrightarrow> map_of (lfsDir s) (lobTmpPath k) = Some i \<Longrightarrow> map_of (lfsDir s1) (lobFilePath k) = Some i"
proof -
  obtain io s' fs where io: "lob_io s = (io, s')" "s' = s\<lparr>lfsFaults := fs\<rparr>" using lob_io_state by (metis surj_pair)
  have inv: "distinct (map fst (lfsDir s))" "distinct (map snd (lfsDir s))" "\<And>a b. (a, b) \<in> set (lfsDir s) \<Longrightarrow> b < newInode s" "fsyncQueue s = []"
    using assms(1) by (auto simp: lfs_inv_def)
  show "lfs_inv s1"
  proof (cases "io = IoOk \<and> map_of (lfsDir s) (lobTmpPath k) \<noteq> None")
    case True
    then obtain i where i: "map_of (lfsDir s) (lobTmpPath k) = Some i" by auto
    let ?d = "(lobFilePath k, i) # AList.delete (lobFilePath k) (AList.delete (lobTmpPath k) (lfsDir s))"
    have s1: "s1 = s\<lparr>lfsFaults := fs, lfsDir := ?d\<rparr>" using assms(3) io True i by (auto simp: rename_path_def)
    have only: "a = lobTmpPath k" if "(a, i) \<in> set (lfsDir s)" for a
      using inj_onD [of snd "set (lfsDir s)" "(a, i)" "(lobTmpPath k, i)"] that map_of_SomeD [OF i] inv(2) by (simp add: distinct_map)
    have "i < newInode s" using map_of_SomeD [OF i] inv(3) by blast
    then show ?thesis unfolding s1 using inv assms(2) only
      by (intro inv_dir [OF assms(1), where dir' = ?d]) (auto simp: deleted AList.delete_conv')
  next
    case False
    then show ?thesis using assms io by (cases io) (auto simp: rename_path_def split: option.splits)
  qed
  show "fdCache s1 = fdCache s" "lfsCfg s1 = lfsCfg s" "nextLOBID s1 = nextLOBID s" "lfsInodes s1 = lfsInodes s"
    "r = Ok u \<Longrightarrow> map_of (lfsDir s) (lobTmpPath k) = Some i \<Longrightarrow> map_of (lfsDir s1) (lobFilePath k) = Some i"
    using assms(3) io by (cases io; auto simp: rename_path_def split: option.splits)+
qed

text \<open>What a creation leaves, on every path.\<close>

definition created :: "bytes \<Rightarrow> file_store \<Rightarrow> lob_file_ref outcome \<times> file_store \<Rightarrow> bool" where
  "created d s res \<longleftrightarrow> lfs_inv (snd res) \<and> nextLOBID (snd res) = nextLOBID s + 1 \<and>
     (case res of
        (Ok ref, s') \<Rightarrow> LOBID ref = nextLOBID s + 1 \<and> fdCache s' = fdCache s \<and> uncached (LOBID ref) s' \<and> lfsCfg s' = lfsCfg s \<and>
          (\<exists>i. map_of (lfsDir s') (lobFilePath (LOBID ref)) = Some i \<and> inData (lfsInodes s' i) = lob_header (LOBID ref) (length d) @ d \<and>
            inSynced (lfsInodes s' i) = (if FsyncEnabled (lfsCfg s) then length (inData (lfsInodes s' i)) else 0))
      | (Err e, s') \<Rightarrow> True
      | (Panic, s') \<Rightarrow> False)"

lemma abandon_created:
  assumes "lfs_inv s1" "nextLOBID s1 = nextLOBID s + 1"
  shows "created d s (abandon (lobTmpPath k) e s1)"
  using inv_remove_tmp [OF assms(1), of k "fst (remove_path (lobTmpPath k) s1)" "snd (remove_path (lobTmpPath k) s1)"] assms(2)
  by (simp add: created_def abandon_def)

lemma no_panics: "open_trunc p s \<noteq> (Panic, s')" "file_append f d s \<noteq> (Panic, s')" "fd_sync f s \<noteq> (Panic, s')" "rename_path p q s \<noteq> (Panic, s')"
  by (auto simp: open_trunc_def file_append_def fd_sync_def rename_path_def Let_def split: prod.splits io.splits option.splits)

lemma next_id:
  assumes "lfs_ok s"
  shows "lfs_inv (s\<lparr>nextLOBID := nextLOBID s + 1\<rparr>)" "uncached (nextLOBID s + 1) s"
proof -
  let ?k = "nextLOBID s + 1"
  have inv: "lfs_inv s" and no: "unat (nextLOBID s) < 18446744073709551615" using assms by (simp_all add: lfs_ok_def)
  have k: "unat ?k = Suc (unat (nextLOBID s))" using no by (simp add: unat_word_ariths)
  from inv obtain xs where xs: "cache_ok (fdCache s) xs" "good_cells s (map (cell (fdCache s)) xs)" by (auto simp: lfs_inv_def)
  have "good_cell (s\<lparr>nextLOBID := ?k\<rparr>) e" if "good_cell s e" for e
    using that k by (auto simp: good_cell_def word_le_nat_alt split: prod.splits)
  then have "good_cells (s\<lparr>nextLOBID := ?k\<rparr>) (map (cell (fdCache s)) xs)" using xs(2) by (auto simp: good_cells_def)
  then show "lfs_inv (s\<lparr>nextLOBID := ?k\<rparr>)" using inv xs(1) by (auto simp: lfs_inv_def)
  show "uncached ?k s"
  proof (rule ccontr)
    assume "\<not> uncached ?k s"
    then obtain a where "a \<in> set xs" "feID (fcHeap (fdCache s) a) = ?k"
      using lookup_entries(1) [OF xs(1)] by (auto simp: uncached_def)
    then have "good_cell s (?k, feF (fcHeap (fdCache s) a), refCount (fcHeap (fdCache s) a))" using xs(2) by (auto simp: good_cells_def cell_def)
    then show False using k by (simp add: good_cell_def word_le_nat_alt)
  qed
qed

lemma create_result:
  assumes "lfs_ok s"
  shows "created d s (storeCreate d s)"
proof -
  let ?k = "nextLOBID s + 1"
  let ?s0 = "s\<lparr>nextLOBID := ?k\<rparr>" and ?tmp = "lobTmpPath ?k"
  note nx = next_id [OF assms]
  obtain r1 s1 where o: "open_trunc ?tmp ?s0 = (r1, s1)" by (cases "open_trunc ?tmp ?s0")
  note o1 = inv_open_trunc [OF nx(1) o]
  show ?thesis
  proof (cases r1)
    case (Ok f)
    obtain r2 s2 where a: "file_append f (lob_header ?k (length d)) s1 = (r2, s2)" by fastforce
    note a1 = inv_append [OF o1(1) a]
    show ?thesis
    proof (cases r2)
      case ok2: (Ok u)
      obtain r3 s3 where b: "file_append f d s2 = (r3, s3)" by fastforce
      note b1 = inv_append [OF a1(1) b]
      show ?thesis
      proof (cases r3)
        case ok3: (Ok u)
        obtain r4 s4 where c: "groupSync f s3 = (r4, s4)" by fastforce
        note c1 = inv_sync [OF b1(1) c]
        show ?thesis
        proof (cases r4)
          case ok4: (Ok u)
          have un: "uncached ?k s4" using nx(2) c1(2) b1(2) a1(2) o1(2) by (simp add: uncached_def)
          obtain r5 s5 where e: "rename_path ?tmp (lobFilePath ?k) s4 = (r5, s5)" by fastforce
          note e1 = inv_rename [OF c1(1) un e]
          let ?i = "fdInode s1 f"
          have "map_of (lfsDir s4) ?tmp = Some ?i" using o1(5) [OF Ok] a1(5) b1(5) c1(5) by simp
          moreover have "inData (lfsInodes s4 ?i) = lob_header ?k (length d) @ d"
            using o1(5) [OF Ok] a1(6) a1(7) [OF ok2] b1(6) b1(7) [OF ok3] c1(7) [of ?i] by simp
          moreover have "FsyncEnabled (lfsCfg s) \<Longrightarrow> inSynced (lfsInodes s4 ?i) = length (inData (lfsInodes s4 ?i))"
            using c1(8) [OF ok4] c1(7) [of ?i] a1(3,6) b1(3,6) o1(3) by simp
          moreover have "uncached ?k s5" using un e1(2) by (simp add: uncached_def)
          moreover have "\<not> FsyncEnabled (lfsCfg s) \<Longrightarrow> inSynced (lfsInodes s4 ?i) = 0"
            using o1(5) [OF Ok] a1(8) [of ?i] b1(8) [of ?i] c1(9) [of ?i] a1(3) b1(3) o1(3) by simp
          ultimately have "r5 = Ok () \<Longrightarrow> created d s (Ok \<lparr>LOBID = ?k, FileLen = of_nat (length d)\<rparr>, s5)"
            using e1 c1(2-4) b1(2-4) a1(2-4) o1(2-4) by (auto simp: created_def)
          moreover have "nextLOBID s5 = ?k" using e1(4) c1(4) b1(4) a1(4) o1(4) by simp
          ultimately show ?thesis using o a b c e Ok ok2 ok3 ok4 abandon_created [OF e1(1)] no_panics(4) [of ?tmp "lobFilePath ?k" s4 s5]
            by (cases r5) (simp_all add: storeCreate_def Let_def)
        next
          case (Err x)
          then show ?thesis using o a b c Ok ok2 ok3 abandon_created [OF c1(1)] c1(4) b1(4) a1(4) o1(4)
            by (simp add: storeCreate_def Let_def)
        next
          case Panic
          then show ?thesis using c b1(1) no_panics(3) [of f s3 s4] by (simp add: groupSync_def lfs_inv_def split: if_splits)
        qed
      next
        case (Err x)
        then show ?thesis using o a b Ok ok2 abandon_created [OF b1(1)] b1(4) a1(4) o1(4) by (simp add: storeCreate_def Let_def)
      qed (use b no_panics(2) in simp)
    next
      case (Err x)
      then show ?thesis using o a Ok abandon_created [OF a1(1)] a1(4) o1(4) by (simp add: storeCreate_def Let_def)
    qed (use a no_panics(2) in simp)
  next
    case (Err e)
    then show ?thesis using o o1(1,4) by (simp add: storeCreate_def Let_def created_def)
  qed (use o no_panics(1) in simp)
qed

section \<open>Reading\<close>

lemma header_fields:
  "length (lob_header k n) = 40" "take 4 (lob_header k n) = lobMagic" "field 8 8 (lob_header k n) = PutUint64 k"
  "field 6 2 (lob_header k n) = [0, 0]" "field 16 8 (lob_header k n) = PutUint64 (of_nat n)"
  by (simp_all add: lob_header_def lobMagic_def field_def)

definition holds_value :: "file_store \<Rightarrow> nat \<Rightarrow> u64 \<Rightarrow> bytes \<Rightarrow> bool" where
  "holds_value s f k d \<longleftrightarrow> inData (lfsInodes s (fdInode s f)) = lob_header k (length d) @ d \<and> d \<noteq> [] \<and> length d \<le> maxAlloc \<and>
     f \<notin> set (fcClosed (fdCache s))"

lemma holds_value_faults [simp]: "holds_value (s\<lparr>lfsFaults := fs\<rparr>) f k d = holds_value s f k d"
  by (simp add: holds_value_def)

definition reads_to :: "'a outcome \<times> file_store \<Rightarrow> 'a \<Rightarrow> file_store \<Rightarrow> bool" where
  "reads_to res x s \<longleftrightarrow> (\<exists>fs. (lfsFaults s = [] \<longrightarrow> fs = []) \<and>
     (res = (Ok x, s\<lparr>lfsFaults := fs\<rparr>) \<or> res = (Err ErrIO, s\<lparr>lfsFaults := fs\<rparr>) \<and> lfsFaults s \<noteq> []))"

lemma lob_io_cases:
  obtains fs where "lob_io s = (IoOk, s\<lparr>lfsFaults := fs\<rparr>)" "lfsFaults s = [] \<longrightarrow> fs = []"
  | n fs where "lob_io s = (IoFail n, s\<lparr>lfsFaults := fs\<rparr>)" "lfsFaults s \<noteq> []"
proof (cases "lfsFaults s")
  case Nil
  then have "lob_io s = (IoOk, s\<lparr>lfsFaults := []\<rparr>)" by (cases s) (simp add: lob_io_def)
  then show ?thesis by (rule that(1)) simp
next
  case (Cons f fs)
  then have "lob_io s = (f, s\<lparr>lfsFaults := fs\<rparr>)" "lfsFaults s \<noteq> []" by (simp_all add: lob_io_def)
  then show ?thesis using that(1) [of fs] that(2) [of _ fs] by (cases f) blast+
qed

lemma read_at_fd_reads:
  assumes "f \<notin> set (fcClosed (fdCache s))" "off + len \<le> length (inData (lfsInodes s (fdInode s f)))"
  shows "reads_to (read_at_fd f off len s) (take len (drop off (inData (lfsInodes s (fdInode s f))))) s"
  using assms by (cases s rule: lob_io_cases) (auto simp: read_at_fd_def reads_to_def)

lemma read_at_value:
  assumes "holds_value s f k d"
  shows "reads_to (read_at_fd f 0 40 s) (lob_header k (length d)) s" "reads_to (read_at_fd f 40 (length d) s) d s"
    "reads_to (mmapRead f 40 (length d) s) d s"
proof -
  note h = assms [unfolded holds_value_def] header_fields(1) [of k "length d"]
  show "reads_to (read_at_fd f 0 40 s) (lob_header k (length d)) s"
    using read_at_fd_reads [of f s 0 40] h by simp
  have data: "reads_to (read_at_fd f 40 (length d) s) d s" if "holds_value s f k d" for s
    using read_at_fd_reads [of f s 40 "length d"] that header_fields(1) [of k "length d"] by (simp add: holds_value_def)
  then show "reads_to (read_at_fd f 40 (length d) s) d s" using assms by blast
  let ?n = "40 + length d"
  define m where "m = (?n + 4096 - 1) div 4096 * 4096"
  have m: "?n \<le> m" using div_mult_mod_eq [of "?n + 4096 - 1" 4096] mod_less_divisor [of 4096 "?n + 4096 - 1"] unfolding m_def by linarith
  have n: "length (inData (lfsInodes s (fdInode s f))) = ?n" using h by simp
  show "reads_to (mmapRead f 40 (length d) s) d s"
  proof (cases s rule: lob_io_cases)
    case (1 fs)
    then have "mmapRead f 40 (length d) s = (Ok (take (length d) (drop 40 (lob_header k (length d) @ d @ replicate (m - ?n) 0))), s\<lparr>lfsFaults := fs\<rparr>)"
      using h m n by (simp add: mmapRead_def osPageSize_def Let_def flip: m_def)
    then show ?thesis using 1 h(2) by (auto simp: reads_to_def)
  next
    case (2 n fs)
    then show ?thesis using data [of "s\<lparr>lfsFaults := fs\<rparr>"] assms by (auto simp: mmapRead_def reads_to_def)
  qed
qed

text \<open>The effect of a read on the cache, with a descriptor taken from it or opened for the read.\<close>

definition after_read :: "bool \<Rightarrow> u64 \<Rightarrow> nat \<Rightarrow> bytes outcome \<Rightarrow> fd_cache \<Rightarrow> fd_cache" where
  "after_read cached k f r c =
     (if cached then fdRelease k c else case r of Ok d \<Rightarrow> fdAdd k f c | _ \<Rightarrow> close_fd f c)"

lemma read_body_value:
  assumes "holds_value s f (LOBID ref) d"
  shows "\<exists>r fs. read_body cached ref f s = (r, s\<lparr>lfsFaults := fs, fdCache := after_read cached (LOBID ref) f r (fdCache s)\<rparr>) \<and>
    (r = Ok d \<or> r = Err ErrIO \<and> lfsFaults s \<noteq> [])"
proof -
  from read_at_value(1) [OF assms] obtain fs where no: "lfsFaults s = [] \<longrightarrow> fs = []" and
    h: "read_at_fd f 0 40 s = (Ok (lob_header (LOBID ref) (length d)), s\<lparr>lfsFaults := fs\<rparr>) \<or>
      read_at_fd f 0 40 s = (Err ErrIO, s\<lparr>lfsFaults := fs\<rparr>) \<and> lfsFaults s \<noteq> []"
    by (auto simp: reads_to_def)
  have d: "d \<noteq> []" "length d \<le> maxAlloc" using assms by (simp_all add: holds_value_def)
  have len: "unat (of_nat (length d) :: u64) = length d" using d(2) by (simp add: unat_of_nat maxAlloc_def)
  from h show ?thesis
  proof
    assume "read_at_fd f 0 40 s = (Err ErrIO, s\<lparr>lfsFaults := fs\<rparr>) \<and> lfsFaults s \<noteq> []"
    then show ?thesis by (auto simp: read_body_def lobFileHeaderSize_def read_failed_def after_read_def)
  next
    assume hd: "read_at_fd f 0 40 s = (Ok (lob_header (LOBID ref) (length d)), s\<lparr>lfsFaults := fs\<rparr>)"
    let ?s1 = "s\<lparr>lfsFaults := fs\<rparr>"
    let ?rd = "if unat (of_int (FileMMapThreshold (lfsCfg ?s1)) :: u64) < length d then mmapRead f 40 (length d) ?s1 else read_at_fd f 40 (length d) ?s1"
    have "holds_value ?s1 f (LOBID ref) d" using assms by simp
    from read_at_value(2,3) [OF this] have "reads_to ?rd d ?s1" by simp
    then obtain fs' where rd: "?rd = (Ok d, s\<lparr>lfsFaults := fs'\<rparr>) \<or> ?rd = (Err ErrIO, s\<lparr>lfsFaults := fs'\<rparr>) \<and> fs \<noteq> []"
      by (auto simp: reads_to_def)
    have run: "read_body cached ref f s = (case ?rd of
          (Ok d, s2) \<Rightarrow> (Ok d, s2\<lparr>fdCache := (if cached then fdRelease (LOBID ref) (fdCache s2) else fdAdd (LOBID ref) f (fdCache s2))\<rparr>)
        | (Err e, s2) \<Rightarrow> (Err e, read_failed cached (LOBID ref) f s2)
        | (Panic, s2) \<Rightarrow> (Panic, s2))"
      using hd d len by (simp add: read_body_def lobFileHeaderSize_def header_fields lobFlagDeleted_def Let_def Uint16_def)
    from rd show ?thesis
    proof
      assume "?rd = (Ok d, s\<lparr>lfsFaults := fs'\<rparr>)"
      then show ?thesis unfolding run by (auto simp: after_read_def)
    next
      assume "?rd = (Err ErrIO, s\<lparr>lfsFaults := fs'\<rparr>) \<and> fs \<noteq> []"
      then show ?thesis unfolding run using no by (auto simp: after_read_def read_failed_def)
    qed
  qed
qed

text \<open>The invariant in terms of the abstract cache.\<close>

definition lru_ok :: "file_store \<Rightarrow> lru \<Rightarrow> bool" where
  "lru_ok s l \<longleftrightarrow> (\<forall>(k, f, n) \<in> set (lruList l). n = 0 \<and> f \<notin># lruClosed l \<and> f < newFd s \<and>
       map_of (lfsDir s) (lobFilePath k) = Some (fdInode s f) \<and> k \<le> nextLOBID s) \<and>
     distinct (map (fst \<circ> snd) (lruList l)) \<and> distinct (map fst (lruList l)) \<and> lruPending l = [] \<and> (\<forall>f \<in># lruClosed l. f < newFd s)"

definition dir_ok :: "file_store \<Rightarrow> bool" where
  "dir_ok s \<longleftrightarrow> distinct (map fst (lfsDir s)) \<and> distinct (map snd (lfsDir s)) \<and> (\<forall>i \<in> snd ` set (lfsDir s). i < newInode s) \<and> fsyncQueue s = []"

lemma inv_lru: "lfs_inv s \<longleftrightarrow> (\<exists>xs. cache_ok (fdCache s) xs \<and> lru_ok s (lru_view (fdCache s) xs)) \<and> dir_ok s"
proof -
  have "lru_ok s (lru_view (fdCache s) xs) \<longleftrightarrow> good_cells s (map (cell (fdCache s)) xs) \<and> pendingClose (fdCache s) = [] \<and>
      (\<forall>f \<in> set (fcClosed (fdCache s)). f < newFd s)" if "cache_ok (fdCache s) xs" for xs
  proof -
    have "distinct (map fst (map (cell (fdCache s)) xs))" using that by (simp add: cache_ok_def cell_def o_def)
    then show ?thesis by (auto simp: lru_ok_def lru_view_def good_cells_def good_cell_def)
  qed
  then show ?thesis unfolding lfs_inv_def dir_ok_def by blast
qed

lemma lru_hit_ok:
  assumes "lru_ok s l" "lruGet k l = (Some f, l1)"
  shows "lru_ok s (lruRelease k l1)" "map_of (lfsDir s) (lobFilePath k) = Some (fdInode s f)" "f \<notin># lruClosed l1"
proof -
  obtain n where m: "map_of (lruList l) k = Some (f, n)"
    "l1 = l\<lparr>lruHits := lruHits l + 1, lruList := (k, f, n + 1) # AList.delete k (lruList l)\<rparr>"
    using assms(2) by (auto simp: lruGet_def split: option.splits)
  have e: "(k, f, n) \<in> set (lruList l)" using map_of_SomeD [OF m(1)] .
  then have g: "n = 0" "f \<notin># lruClosed l" "f < newFd s" "map_of (lfsDir s) (lobFilePath k) = Some (fdInode s f)" "k \<le> nextLOBID s"
    using assms(1) by (auto simp: lru_ok_def)
  then show "map_of (lfsDir s) (lobFilePath k) = Some (fdInode s f)" "f \<notin># lruClosed l1" using m by simp_all
  have ne: "f' \<noteq> f" if "(k', f', n') \<in> set (lruList l)" "k' \<noteq> k" for k' f' n'
    using assms(1) that e inj_onD [of "fst \<circ> snd" "set (lruList l)" "(k', f', n')" "(k, f, n)"] by (auto simp: lru_ok_def distinct_map)
  have "distinct (map (fst \<circ> snd) (AList.delete k (lruList l)))"
    using assms(1) unfolding AList.delete_eq lru_ok_def by (blast intro: distinct_map_filter)
  moreover have "f \<notin> (fst \<circ> snd) ` set (AList.delete k (lruList l))" by (auto simp: deleted dest: ne)
  ultimately have "distinct (map (fst \<circ> snd) ((k, f, 0 :: int) # AList.delete k (lruList l)))" by simp
  moreover have "distinct (map fst ((k, f, 0 :: int) # AList.delete k (lruList l)))" using assms(1) by (auto simp: lru_ok_def deleted)
  ultimately show "lru_ok s (lruRelease k l1)" using assms(1) g m
    by (auto simp: lru_ok_def lruRelease_def deleted)
qed

lemma lru_add_ok:
  assumes "lru_ok s l" "map_of (lruList l) k = None" "map_of (lfsDir s) (lobFilePath k) = Some (fdInode s f)" "k \<le> nextLOBID s"
    "f < newFd s" "f \<notin># lruClosed l" "\<forall>(k', f', n) \<in> set (lruList l). f' \<noteq> f"
  shows "lru_ok s (lruAdd k f l)"
proof -
  let ?es = "(k, f, 0 :: int) # lruList l"
  have all: "lru_ok s (l\<lparr>lruList := ?es\<rparr>)" using assms by (auto simp: lru_ok_def map_of_eq_None_iff)
  obtain es e where es: "?es = es @ [e]" by (metis append_butlast_last_id list.distinct(1))
  obtain k' f' n' where e: "e = (k', f', n')" by (cases e)
  have "lru_ok s (lruRetire e (l\<lparr>lruList := es\<rparr>))"
  proof -
    have "distinct (map (fst \<circ> snd) (es @ [e]))" using all unfolding lru_ok_def es by simp
    then have "f' \<notin> (fst \<circ> snd) ` set es" by (simp add: e)
    then have "g \<noteq> f'" if "(a, g, b) \<in> set es" for a g b using that by (metis comp_apply fst_conv image_eqI snd_conv)
    with all show ?thesis unfolding es e by (auto simp: lru_ok_def lruRetire_def)
  qed
  moreover have "last ?es = e" "butlast ?es = es" using es by (simp_all only: last_snoc butlast_snoc)
  ultimately show ?thesis using all assms(2) by (simp add: lruAdd_def Let_def)
qed

definition file_value :: "file_store \<Rightarrow> u64 \<Rightarrow> bytes \<Rightarrow> bool" where
  "file_value s k d \<longleftrightarrow> d \<noteq> [] \<and> length d \<le> 2 ^ 48 \<and> k \<le> nextLOBID s \<and>
     (\<exists>i. map_of (lfsDir s) (lobFilePath k) = Some i \<and> inData (lfsInodes s i) = lob_header k (length d) @ d)"

lemma fdGet_miss:
  assumes "fdGet k c = (None, c1)"
  shows "c1 = c\<lparr>fcMisses := fcMisses c + 1\<rparr>" "map_of (fcEntries c) k = None"
  using assms by (auto simp: fdGet_def Let_def split: option.splits)

lemma read_hit:
  assumes "cache_ok (fdCache s) xs" "lru_ok s (lru_view (fdCache s) xs)" "dir_ok s" "file_value s (LOBID ref) d"
    "fdGet (LOBID ref) (fdCache s) = (Some f, c)"
  shows "case storeRead ref s of (r, s') \<Rightarrow> (r = Ok d \<or> r = Err ErrIO \<and> lfsFaults s \<noteq> []) \<and> lfs_inv s' \<and>
    lfsDir s' = lfsDir s \<and> lfsInodes s' = lfsInodes s \<and> nextLOBID s' = nextLOBID s"
proof -
  let ?k = "LOBID ref" and ?l = "lru_view (fdCache s) xs"
  from get_refines [OF assms(1), of ?k] assms(5) obtain xs1 where
    x1: "cache_ok c xs1" "lruGet ?k ?l = (Some f, lru_view c xs1)" by auto
  note hit = lru_hit_ok [OF assms(2) x1(2)]
  from release_refines [OF x1(1), of ?k] obtain xs2 where
    x2: "cache_ok (fdRelease ?k c) xs2" "lruRelease ?k (lru_view c xs1) = lru_view (fdRelease ?k c) xs2" by blast
  have "holds_value (s\<lparr>fdCache := c\<rparr>) f ?k d"
    using assms(4) hit(2,3) by (auto simp: holds_value_def file_value_def lru_view_def maxAlloc_def)
  from read_body_value [OF this, of True] obtain r fs where
    run: "read_body True ref f (s\<lparr>fdCache := c\<rparr>) = (r, s\<lparr>lfsFaults := fs, fdCache := fdRelease ?k c\<rparr>)" "r = Ok d \<or> r = Err ErrIO \<and> lfsFaults s \<noteq> []"
    by (auto simp: after_read_def)
  let ?s' = "s\<lparr>lfsFaults := fs, fdCache := fdRelease ?k c\<rparr>"
  have "lru_ok ?s' (lru_view (fdRelease ?k c) xs2)" using hit(1) x2(2) by (simp add: lru_ok_def)
  then have "lfs_inv ?s'" using x2(1) assms(3) unfolding inv_lru by (auto simp: dir_ok_def)
  moreover have "storeRead ref s = (r, ?s')" using run(1) assms(5) by (simp add: storeRead_def)
  ultimately show ?thesis using run(2) by simp
qed

lemma lru_ok_grow:
  assumes "lru_ok s l" "fdInode s' = (fdInode s)(newFd s := i)" "newFd s' = Suc (newFd s)" "lfsDir s' = lfsDir s" "nextLOBID s' = nextLOBID s"
  shows "lru_ok s' l"
  using assms by (fastforce simp: lru_ok_def)

lemma read_miss:
  assumes "cache_ok (fdCache s) xs" "lru_ok s (lru_view (fdCache s) xs)" "dir_ok s" "file_value s (LOBID ref) d"
    "fdGet (LOBID ref) (fdCache s) = (None, c)"
  shows "case storeRead ref s of (r, s') \<Rightarrow> (r = Ok d \<or> r = Err ErrIO \<and> lfsFaults s \<noteq> []) \<and> lfs_inv s' \<and>
    lfsDir s' = lfsDir s \<and> lfsInodes s' = lfsInodes s \<and> nextLOBID s' = nextLOBID s"
proof -
  let ?k = "LOBID ref"
  note miss = fdGet_miss [OF assms(5)]
  obtain i where i: "map_of (lfsDir s) (lobFilePath ?k) = Some i" "inData (lfsInodes s i) = lob_header ?k (length d) @ d"
    "d \<noteq> []" "length d \<le> maxAlloc" "?k \<le> nextLOBID s"
    using assms(4) by (auto simp: file_value_def maxAlloc_def)
  have cok: "cache_ok c xs" using assms(1) miss(1) by (simp add: cache_ok_def dll_def)
  have vok: "lru_ok s (lru_view c xs)" using assms(2) miss(1) by (simp add: lru_ok_def lru_view_def)
  have none: "map_of (lruList (lru_view c xs)) ?k = None"
    using lookup_entries(2) [OF assms(1), of ?k] miss by (simp add: lru_view_def)
  show ?thesis
  proof (cases "s\<lparr>fdCache := c\<rparr>" rule: lob_io_cases)
    case (1 fs)
    let ?f = "newFd s"
    let ?s1 = "s\<lparr>fdCache := c, lfsFaults := fs, fdInode := (fdInode s)(?f := i), newFd := Suc ?f\<rparr>"
    have op: "open_read (lobFilePath ?k) (s\<lparr>fdCache := c\<rparr>) = (Ok ?f, ?s1)" using 1 i(1) by (simp add: open_read_def)
    have v1: "lru_ok ?s1 (lru_view c xs)" by (rule lru_ok_grow [OF vok]) simp_all
    have fresh: "?f \<notin># lruClosed (lru_view c xs)" "\<forall>(k', f', n) \<in> set (lruList (lru_view c xs)). f' \<noteq> ?f"
      using vok by (auto simp: lru_ok_def)
    then have "holds_value ?s1 ?f ?k d" using i by (simp add: holds_value_def lru_view_def)
    from read_body_value [OF this, of False] obtain r fs' where
      run: "read_body False ref ?f ?s1 = (r, ?s1\<lparr>lfsFaults := fs', fdCache := after_read False ?k ?f r c\<rparr>)"
        "r = Ok d \<or> r = Err ErrIO \<and> fs \<noteq> []" by auto
    let ?s' = "?s1\<lparr>lfsFaults := fs', fdCache := after_read False ?k ?f r c\<rparr>"
    have "\<exists>xs'. cache_ok (after_read False ?k ?f r c) xs' \<and> lru_ok ?s1 (lru_view (after_read False ?k ?f r c) xs')"
    proof (cases "r = Ok d")
      case True
      from add_refines [OF cok, of ?k ?f] obtain xs' where
        "cache_ok (fdAdd ?k ?f c) xs'" "lruAdd ?k ?f (lru_view c xs) = lru_view (fdAdd ?k ?f c) xs'" by blast
      moreover have "lru_ok ?s1 (lruAdd ?k ?f (lru_view c xs))"
        using fresh i by (intro lru_add_ok [OF v1 none]) simp_all
      ultimately show ?thesis using True by (auto simp: after_read_def)
    next
      case False
      with run(2) have r: "after_read False ?k ?f r c = close_fd ?f c" by (auto simp: after_read_def)
      have "cache_ok (close_fd ?f c) xs" using cok by (simp add: cache_ok_def dll_def close_fd_def)
      moreover have "lru_ok ?s1 (lru_view (close_fd ?f c) xs)"
        using v1 fresh by (auto simp: lru_ok_def lru_view_def close_fd_def)
      ultimately show ?thesis using r by auto
    qed
    then have "lfs_inv ?s'" using assms(3) unfolding inv_lru by (auto simp: dir_ok_def lru_ok_def)
    moreover have "storeRead ref s = (r, ?s')" using assms(5) op run(1) by (simp add: storeRead_def)
    moreover have "lfsFaults s = [] \<Longrightarrow> fs = []" using 1(2) by simp
    ultimately show ?thesis using run(2) by auto
  next
    case (2 n fs)
    let ?s' = "s\<lparr>fdCache := c, lfsFaults := fs\<rparr>"
    have "lfs_inv ?s'" using cok vok assms(3) unfolding inv_lru by (auto simp: dir_ok_def lru_ok_def)
    moreover have "storeRead ref s = (Err ErrIO, ?s')" using assms(5) 2 by (simp add: storeRead_def open_read_def)
    ultimately show ?thesis using 2(2) by simp
  qed
qed

lemma lob_read_result:
  assumes "lfs_inv s" "file_value s (LOBID ref) d"
  shows "case storeRead ref s of (r, s') \<Rightarrow> (r = Ok d \<or> r = Err ErrIO \<and> lfsFaults s \<noteq> []) \<and> lfs_inv s' \<and>
    (\<forall>k d'. file_value s' k d' = file_value s k d')"
proof -
  from assms(1) obtain xs where xs: "cache_ok (fdCache s) xs" "lru_ok s (lru_view (fdCache s) xs)" "dir_ok s"
    by (auto simp: inv_lru)
  obtain o' c where g: "fdGet (LOBID ref) (fdCache s) = (o', c)" by fastforce
  have "case storeRead ref s of (r, s') \<Rightarrow> (r = Ok d \<or> r = Err ErrIO \<and> lfsFaults s \<noteq> []) \<and> lfs_inv s' \<and>
      lfsDir s' = lfsDir s \<and> lfsInodes s' = lfsInodes s \<and> nextLOBID s' = nextLOBID s"
  proof (cases o')
    case None
    from read_miss [OF xs assms(2) g [unfolded None]] show ?thesis .
  next
    case (Some f)
    from read_hit [OF xs assms(2) g [unfolded Some]] show ?thesis .
  qed
  then show ?thesis by (auto simp: file_value_def split: prod.splits)
qed

text \<open>Reading a stored file value returns its bytes whether its descriptor is cached, must be opened first, is read
  or mapped; it fails only when a system call fails. A read changes neither the files nor the directory,
  and leaves the cache such that every later read is as good: open descriptors of the right files,
  used by nobody.\<close>

theorem lob_read_ignores_cache:
  assumes "lfs_inv s" "file_value s (LOBID ref) d"
  shows "case storeRead ref s of (r, s') \<Rightarrow> (r = Ok d \<or> r = Err ErrIO \<and> lfsFaults s \<noteq> []) \<and> lfs_inv s' \<and>
    (\<forall>k d'. file_value s' k d' = file_value s k d')"
  using assms by (rule lob_read_result)

section \<open>The interface of the codec\<close>

lemma created_value:
  assumes "lfs_ok s" "storeCreate d s = (Ok ref, s')" "d \<noteq> []" "length d \<le> 2 ^ 48"
  shows "lfs_inv s'" "file_value s' (LOBID ref) d"
  using create_result [OF assms(1), of d] assms(2-4) by (auto simp: created_def file_value_def)

interpretation lob_files: lob_file_store defaultLOBFileManager lfs_ok "\<lambda>s. unat (nextLOBID s) < 18446744073709551614"
proof
  fix w d r w'
  assume "lfs_ok w" "d \<noteq> []" "length d \<le> 2 ^ 48" "fileCreate defaultLOBFileManager d w = (Ok r, w')"
  then have "lfs_inv w'" "file_value w' (LOBID r) d" using created_value by (simp_all add: defaultLOBFileManager_def)
  from lob_read_result [OF this] show "fileRead defaultLOBFileManager r w' = Ok d \<or> fileRead defaultLOBFileManager r w' = Err ErrIO"
    by (auto simp: defaultLOBFileManager_def split: prod.splits)
next
  fix w d res w'
  assume "lfs_ok w" "unat (nextLOBID w) < 18446744073709551614" "fileCreate defaultLOBFileManager d w = (res, w')"
  then show "lfs_ok w'"
    using create_result [of w d] by (simp add: created_def lfs_ok_def defaultLOBFileManager_def unat_word_ariths)
qed

section \<open>Crashes\<close>

text \<open>
  A crash keeps of each file what was synced and any further prefix of it, and the directory. The store
  is then opened again.
\<close>

definition lob_crash :: "(nat \<Rightarrow> nat) \<Rightarrow> file_store \<Rightarrow> file_store" where
  "lob_crash cut_at s = s\<lparr>lfsInodes := (\<lambda>i. let n = lfsInodes s i; l = max (inSynced n) (cut_at i) in
     \<lparr>inData = take l (inData n), inSynced = inSynced n\<rparr>), lfsFaults := []\<rparr>"

lemma newLOBFileStore_cold:
  assumes "newLOBFileStore cfg rnd s = Ok s'" "lfsFaults s = []"
  shows "fdGet k (fdCache s') = (None, (newLobFDCache (FDCacheCapacity cfg))\<lparr>fcMisses := 1\<rparr>)" "lfsDir s' = lfsDir s" "lfsInodes s' = lfsInodes s"
    "lfsFaults s' = []"
  using assms by (auto simp: newLOBFileStore_def lob_io_def fdGet_def newLobFDCache_def)

lemma cold_read:
  assumes "newLOBFileStore cfg rnd s = Ok s'" "lfsFaults s = []" "map_of (lfsDir s) (lobFilePath (LOBID ref)) = Some i"
  shows "\<exists>s1. storeRead ref s' = read_body False ref (newFd s') s1 \<and> fdInode s1 (newFd s') = i \<and> lfsInodes s1 = lfsInodes s \<and> lfsFaults s1 = [] \<and>
    fcClosed (fdCache s1) = []"
proof -
  note c = newLOBFileStore_cold [OF assms(1,2)]
  let ?c = "(newLobFDCache (FDCacheCapacity cfg))\<lparr>fcMisses := 1\<rparr>"
  let ?s1 = "s'\<lparr>fdCache := ?c, fdInode := (fdInode s')(newFd s' := i), newFd := Suc (newFd s')\<rparr>"
  have "storeRead ref s' = read_body False ref (newFd s') ?s1"
    using c assms(3) by (simp add: storeRead_def open_read_def lob_io_def)
  moreover have "fcClosed (fdCache ?s1) = []" by (simp add: newLobFDCache_def)
  ultimately show ?thesis using c by (intro exI [of _ ?s1]) simp
qed


section \<open>Both tiers\<close>

text \<open>The managers of pages and files side by side, as the transaction manager holds them.\<close>

definition page_tier :: "(page_manager \<times> file_store) lob_manager" where
  "page_tier = \<lparr>lobAllocate = (\<lambda>d w. case lobAllocate defaultLOBManager d (fst w) of (r, p) \<Rightarrow> (r, p, snd w)),
     lobRead = (\<lambda>r w. lobRead defaultLOBManager r (fst w)), lobFree = (\<lambda>r w. (lobFree defaultLOBManager r (fst w), snd w))\<rparr>"

definition file_tier :: "(page_manager \<times> file_store) lob_file_manager" where
  "file_tier = \<lparr>fileCreate = (\<lambda>d w. case fileCreate defaultLOBFileManager d (snd w) of (r, f) \<Rightarrow> (r, fst w, f)),
     fileRead = (\<lambda>r w. fileRead defaultLOBFileManager r (snd w)), fileDelete = (\<lambda>r w. (fst w, fileDelete defaultLOBFileManager r (snd w)))\<rparr>"

interpretation tiers: lob_tiers page_tier "\<lambda>w. fresh (fst w)" file_tier "\<lambda>w. lfs_ok (snd w)" "\<lambda>w. unat (nextLOBID (snd w)) < 18446744073709551614"
proof
  fix w d r w'
  assume "fresh (fst w)" "d \<noteq> []" "length d < 4294967296" "lobAllocate page_tier d w = (Ok r, w')"
  then show "lobRead page_tier r w' = Ok d" using overflow.alloc_read [of "fst w" d r "fst w'"] by (auto simp: page_tier_def split: prod.splits)
next
  fix w d r w'
  assume "fresh (fst w)" "length d < 4294967296" "lobAllocate page_tier d w = (Ok r, w')"
  then show "fresh (fst w')" using overflow.alloc_invar [of "fst w" d r "fst w'"] by (auto simp: page_tier_def split: prod.splits)
next
  fix w d r w'
  assume "lfs_ok (snd w)" "d \<noteq> []" "length d \<le> 2 ^ 48" "fileCreate file_tier d w = (Ok r, w')"
  then show "fileRead file_tier r w' = Ok d \<or> fileRead file_tier r w' = Err ErrIO"
    using lob_files.create_read [of "snd w" d r "snd w'"] by (auto simp: file_tier_def split: prod.splits)
next
  fix w d res w'
  assume "lfs_ok (snd w)" "unat (nextLOBID (snd w)) < 18446744073709551614" "fileCreate file_tier d w = (res, w')"
  then show "lfs_ok (snd w')" using lob_files.create_invar [of "snd w" d res "snd w'"] by (auto simp: file_tier_def split: prod.splits)
qed


section \<open>Examples\<close>

definition ex_files :: "lob_config \<Rightarrow> file_store" where
  "ex_files cfg = \<lparr>lfsCfg = cfg, nextLOBID = 1, fdCache = newLobFDCache 4, fsyncClosed = False, fsyncQueue = [], lfsDir = [],
     lfsInodes = \<lambda>_. \<lparr>inData = [], inSynced = 0\<rparr>, newInode = 0, fdInode = \<lambda>_. 0, newFd = 0, lfsFaults = []\<rparr>"

lemma ex_files_ok: "lfs_ok (ex_files cfg)"
proof -
  have "cache_ok (newLobFDCache 4) []" by (simp add: cache_ok_def dll_def newLobFDCache_def)
  then show ?thesis by (auto simp: lfs_ok_def lfs_inv_def ex_files_def good_cells_def newLobFDCache_def)
qed

lemma ex_create: "\<exists>s'. storeCreate [7] (ex_files cfg) = (Ok \<lparr>LOBID = 2, FileLen = 1\<rparr>, s') \<and> lfsFaults s' = []"
  by (simp add: storeCreate_def ex_files_def open_trunc_def file_append_def groupSync_def fd_sync_def rename_path_def lob_io_def set_inode_def Let_def)


theorem lob_read_ignores_cache_witness:
  "\<exists>s. lfs_inv s \<and> file_value s 2 [7] \<and> fst (storeRead \<lparr>LOBID = 2, FileLen = 1\<rparr> s) = Ok [7]"
proof -
  obtain s where s: "storeCreate [7] (ex_files DefaultConfig) = (Ok \<lparr>LOBID = 2, FileLen = 1\<rparr>, s)" "lfsFaults s = []" using ex_create by blast
  have v: "lfs_inv s" "file_value s (LOBID \<lparr>LOBID = 2, FileLen = 1\<rparr>) [7]" using created_value [OF ex_files_ok s(1)] by simp_all
  from lob_read_ignores_cache [OF v] v s(2) show ?thesis by (intro exI [of _ s]) (auto split: prod.splits)
qed


end
