(* ===== verification/Page_Layout.thy ===== *)
theory Page_Layout
  imports Page_Manager
begin

text \<open>
  The layout of leaf and index pages (\<open>offheap/page_layout.go\<close>): the header, an array of 16-byte
  entries that grows upwards from offset 56 and the bytes of keys and values that grow downwards
  from the end of the page, with the accessors of \<open>PageAccessor\<close>.

  \<open>getPtr(pageID)\<close> designates a page of the mapping; a method that touches one page is a function of
  that page, and a method that touches several is a function of the manager. Indices are natural
  numbers except where the code tests for a negative one. The memory of a page is its own: a
  key whose offset and length reach past the end of the page would be read from the next page
  by the code, and is cut off here; well-formed pages have none.
\<close>

section \<open>Node references and encoded children\<close>

record node_ref =
  nrPageID :: u32
  nrIsLeaf :: bool

definition NewNodeRef :: "u32 \<Rightarrow> bool \<Rightarrow> node_ref" where
  "NewNodeRef p leaf = \<lparr>nrPageID = p, nrIsLeaf = leaf\<rparr>"

definition nrIsValid :: "node_ref \<Rightarrow> bool" where
  "nrIsValid ref \<longleftrightarrow> nrPageID ref \<noteq> 0xFFFFFFFF"

definition ChildVersionMask :: u64 where "ChildVersionMask = 0xFFFFFFFF00000000"
definition ChildIDMask :: u64 where "ChildIDMask = 0x00000000FFFFFFFF"
definition ChildVersionShift :: nat where "ChildVersionShift = 32"

text \<open>The check \<open>pageID > MaxChildID\<close> compares a \<open>uint32\<close> with its largest value and never holds.\<close>

definition EncodeChildWithVersion :: "u32 \<Rightarrow> u64 \<Rightarrow> u64" where
  "EncodeChildWithVersion p ver =
     (let version32 = (ucast ver :: u32) AND 0xFFFFFFFF
      in push_bit ChildVersionShift (ucast version32) OR (ucast p AND ChildIDMask))"

definition DecodeChildWithVersion :: "u64 \<Rightarrow> u32 \<times> u32" where
  "DecodeChildWithVersion encoded =
     (ucast (encoded AND ChildIDMask), ucast (drop_bit ChildVersionShift (encoded AND ChildVersionMask)))"

section \<open>Entries\<close>

record index_entry =
  ieKeyOff :: u32
  ieKeyLen :: u32
  ieChild :: u64

record leaf_entry =
  leKeyOff :: u32
  leKeyLen :: u32
  leValOff :: u32
  leValLen :: u32

definition SizeofIndexEntry :: nat where "SizeofIndexEntry = 16"
definition SizeofLeafEntry :: nat where "SizeofLeafEntry = 16"

text \<open>A pointer to an entry reads and writes the 16 bytes at its place.\<close>

definition index_entry_at :: "nat \<Rightarrow> page \<Rightarrow> index_entry" where
  "index_entry_at i pg =
     (let off = SizeofPageHeader + i * SizeofIndexEntry; b = pageBytes pg
      in \<lparr>ieKeyOff = u32_at off b, ieKeyLen = u32_at (off + 4) b, ieChild = u64_at (off + 8) b\<rparr>)"

definition leaf_entry_at :: "nat \<Rightarrow> page \<Rightarrow> leaf_entry" where
  "leaf_entry_at i pg =
     (let off = SizeofPageHeader + i * SizeofLeafEntry; b = pageBytes pg
      in \<lparr>leKeyOff = u32_at off b, leKeyLen = u32_at (off + 4) b, leValOff = u32_at (off + 8) b,
          leValLen = u32_at (off + 12) b\<rparr>)"

definition index_entry_bytes :: "index_entry \<Rightarrow> bytes" where
  "index_entry_bytes e = mem_u32 (ieKeyOff e) @ mem_u32 (ieKeyLen e) @ mem_u64 (ieChild e)"

definition leaf_entry_bytes :: "leaf_entry \<Rightarrow> bytes" where
  "leaf_entry_bytes e = mem_u32 (leKeyOff e) @ mem_u32 (leKeyLen e) @ mem_u32 (leValOff e) @ mem_u32 (leValLen e)"

section \<open>Reading a page\<close>

definition GetCount :: "page \<Rightarrow> nat" where
  "GetCount pg = unat (phCount pg)"

definition IsLeaf :: "page \<Rightarrow> bool" where
  "IsLeaf pg \<longleftrightarrow> pageType pg = PageTypeLeaf"

definition GetDataEnd :: "page \<Rightarrow> u16" where
  "GetDataEnd pg =
     (if GetCount pg = 0 then 0
      else let keyOff = (\<lambda>i. if IsLeaf pg then leKeyOff (leaf_entry_at i pg) else ieKeyOff (index_entry_at i pg));
               minKeyOff = foldl (\<lambda>m i. if keyOff i < m then keyOff i else m) (4096 :: u32) [0..<GetCount pg]
           in ucast (4096 - minKeyOff))"

text \<open>\<open>GetSpaceUsage\<close> divides this count of bytes by the page size.\<close>

definition usedSpaceOf :: "page \<Rightarrow> u32" where
  "usedSpaceOf pg =
     (let entrySize = (if IsLeaf pg then of_nat SizeofLeafEntry else of_nat SizeofIndexEntry)
      in of_nat SizeofPageHeader + ucast (phCount pg) * entrySize + ucast (GetDataEnd pg))"

definition GetIndexEntry :: "nat \<Rightarrow> page \<Rightarrow> index_entry outcome" where
  "GetIndexEntry i pg = (if GetCount pg \<le> i then Panic else Ok (index_entry_at i pg))"

definition GetLeafEntry :: "nat \<Rightarrow> page \<Rightarrow> leaf_entry outcome" where
  "GetLeafEntry i pg = (if GetCount pg \<le> i then Panic else Ok (leaf_entry_at i pg))"

definition GetIndexEntrySafe :: "nat \<Rightarrow> page \<Rightarrow> index_entry outcome" where
  "GetIndexEntrySafe i pg =
     (if GetCount pg \<le> i then Err ErrOffHeapIndexOutOfRange else Ok (index_entry_at i pg))"

definition GetLeafEntrySafe :: "nat \<Rightarrow> page \<Rightarrow> leaf_entry outcome" where
  "GetLeafEntrySafe i pg =
     (if GetCount pg \<le> i then Err ErrOffHeapIndexOutOfRange else Ok (leaf_entry_at i pg))"

definition GetKey :: "u32 \<Rightarrow> u32 \<Rightarrow> page \<Rightarrow> bytes" where
  "GetKey keyOff keyLen pg = field (unat keyOff) (unat keyLen) (pageBytes pg)"

definition GetValue :: "u32 \<Rightarrow> u32 \<Rightarrow> page \<Rightarrow> bytes" where
  "GetValue valOff valLen pg = field (unat valOff) (unat valLen) (pageBytes pg)"

definition GetIndexKey :: "nat \<Rightarrow> page \<Rightarrow> bytes outcome" where
  "GetIndexKey i pg = bind_outcome (GetIndexEntry i pg) (\<lambda>e. Ok (GetKey (ieKeyOff e) (ieKeyLen e) pg))"

definition GetLeafEntryOffset :: "nat \<Rightarrow> page \<Rightarrow> (u32 \<times> u32 \<times> u32 \<times> u32) outcome" where
  "GetLeafEntryOffset i pg =
     bind_outcome (GetLeafEntry i pg) (\<lambda>e. Ok (leKeyOff e, leKeyLen e, leValOff e, leValLen e))"

definition GetLeafEntryOffsetSafe :: "nat \<Rightarrow> page \<Rightarrow> (u32 \<times> u32 \<times> u32 \<times> u32) outcome" where
  "GetLeafEntryOffsetSafe i pg =
     bind_outcome (GetLeafEntrySafe i pg) (\<lambda>e. Ok (leKeyOff e, leKeyLen e, leValOff e, leValLen e))"

definition GetIndexEntryOffset :: "nat \<Rightarrow> page \<Rightarrow> (u32 \<times> u32 \<times> u64) outcome" where
  "GetIndexEntryOffset i pg =
     bind_outcome (GetIndexEntry i pg) (\<lambda>e. Ok (ieKeyOff e, ieKeyLen e, ieChild e))"

definition GetIndexEntryOffsetSafe :: "nat \<Rightarrow> page \<Rightarrow> (u32 \<times> u32 \<times> u64) outcome" where
  "GetIndexEntryOffsetSafe i pg =
     bind_outcome (GetIndexEntrySafe i pg) (\<lambda>e. Ok (ieKeyOff e, ieKeyLen e, ieChild e))"

definition IsValidPage :: "u32 \<Rightarrow> page_manager \<Rightarrow> bool" where
  "IsValidPage p pm =
     (if p = 0 \<or> p = 0xFFFFFFFF then False else 1 \<le> phVersion (pmPages pm p))"

subsection \<open>Children\<close>

definition GetChild :: "nat \<Rightarrow> page \<Rightarrow> u64" where
  "GetChild i pg =
     (if i = GetCount pg then extraChild pg
      else if GetCount pg \<le> i then 0
      else ieChild (index_entry_at i pg))"

definition GetChildSafe :: "nat \<Rightarrow> page \<Rightarrow> u64 outcome" where
  "GetChildSafe i pg =
     (if i = GetCount pg then Ok (extraChild pg)
      else bind_outcome (GetIndexEntrySafe i pg) (\<lambda>e. Ok (ieChild e)))"

definition GetChildWithVersion :: "nat \<Rightarrow> page \<Rightarrow> u32 \<times> u64" where
  "GetChildWithVersion i pg =
     (case DecodeChildWithVersion (GetChild i pg) of (c, ver) \<Rightarrow> (c, ucast ver))"

definition GetChildEncodedWithCount :: "nat \<Rightarrow> u16 \<Rightarrow> page \<Rightarrow> u64" where
  "GetChildEncodedWithCount i callerCount pg =
     (if i = unat callerCount then extraChild pg
      else if unat callerCount \<le> i then 0
      else ieChild (index_entry_at i pg))"

definition GetChildWithVersionByCount :: "nat \<Rightarrow> u16 \<Rightarrow> page \<Rightarrow> u32 \<times> u64" where
  "GetChildWithVersionByCount i callerCount pg =
     (case DecodeChildWithVersion (GetChildEncodedWithCount i callerCount pg) of (c, ver) \<Rightarrow> (c, ucast ver))"

definition put_index_entry :: "nat \<Rightarrow> index_entry \<Rightarrow> page \<Rightarrow> page" where
  "put_index_entry i e pg =
     pg\<lparr>pageBytes := splice (SizeofPageHeader + i * SizeofIndexEntry) (index_entry_bytes e) (pageBytes pg)\<rparr>"

definition setChildEncoded :: "nat \<Rightarrow> u64 \<Rightarrow> page \<Rightarrow> unit outcome \<times> page" where
  "setChildEncoded i encodedChild pg =
     (if i = GetCount pg then (Ok (), pg\<lparr>extraChild := encodedChild\<rparr>)
      else case GetIndexEntry i pg of
        Ok e \<Rightarrow> (Ok (), put_index_entry i (e\<lparr>ieChild := encodedChild\<rparr>) pg)
      | Err er \<Rightarrow> (Err er, pg)
      | Panic \<Rightarrow> (Panic, pg))"

definition SetChildWithVersion :: "nat \<Rightarrow> u32 \<Rightarrow> u64 \<Rightarrow> page \<Rightarrow> unit outcome \<times> page" where
  "SetChildWithVersion i child ver pg = setChildEncoded i (EncodeChildWithVersion child ver) pg"

text \<open>The version of a child page, 0 for a page that was never handed out.\<close>

definition GetVersionSafe :: "u32 \<Rightarrow> page_manager \<Rightarrow> u64" where
  "GetVersionSafe p pm = (if p = 0 \<or> nextPageID pm \<le> p then 0 else phVersion (pmPages pm p))"

definition IsPageDeleted :: "u32 \<Rightarrow> page_manager \<Rightarrow> bool" where
  "IsPageDeleted p pm = (if p = 0 \<or> nextPageID pm \<le> p then True else phDeleted (pmPages pm p) = 1)"

definition SetChild :: "u32 \<Rightarrow> nat \<Rightarrow> u32 \<Rightarrow> page_manager \<Rightarrow> unit outcome \<times> page_manager" where
  "SetChild p i child pm =
     (let encodedChild = (if child \<noteq> 0 then EncodeChildWithVersion child (GetVersionSafe child pm) else 0)
      in case setChildEncoded i encodedChild (pmPages pm p) of (r, pg) \<Rightarrow> (r, with_page p (\<lambda>_. pg) pm))"

subsection \<open>Header fields\<close>

definition IncrementVersion :: "page \<Rightarrow> u64 \<times> page" where
  "IncrementVersion pg = (phVersion pg + 1, pg\<lparr>phVersion := phVersion pg + 1\<rparr>)"

definition IncrementTombstone :: "page \<Rightarrow> page outcome" where
  "IncrementTombstone pg =
     (if tombstoneCount pg = 0xFFFF then Panic else Ok (pg\<lparr>tombstoneCount := tombstoneCount pg + 1\<rparr>))"

definition DecrementTombstone :: "page \<Rightarrow> page outcome" where
  "DecrementTombstone pg =
     (if tombstoneCount pg = 0 then Panic else Ok (pg\<lparr>tombstoneCount := tombstoneCount pg - 1\<rparr>))"

definition InitPage :: "byte \<Rightarrow> u64 \<Rightarrow> page \<Rightarrow> page" where
  "InitPage ty ver pg = pg\<lparr>pageType := ty, phCount := 0, extraChild := 0, prevPage := 0xFFFFFFFF,
     nextPage := 0xFFFFFFFF, phVersion := ver\<rparr>"

definition InitIndexPage :: "u64 \<Rightarrow> page \<Rightarrow> page" where
  "InitIndexPage ver pg = InitPage PageTypeIndex ver pg"

definition InitLeafPage :: "u64 \<Rightarrow> page \<Rightarrow> page" where
  "InitLeafPage ver pg = InitPage PageTypeLeaf ver pg"

section \<open>Inserting entries\<close>

text \<open>The entries from an index on move up by one place (\<open>copy\<close> of overlapping slices).\<close>

definition move_entries :: "nat \<Rightarrow> page \<Rightarrow> bytes" where
  "move_entries index pg =
     (if index < GetCount pg then
        splice (SizeofPageHeader + (index + 1) * 16)
          (field (SizeofPageHeader + index * 16) ((GetCount pg - index) * 16) (pageBytes pg)) (pageBytes pg)
      else pageBytes pg)"

text \<open>The version of the child is read by the caller from its page.\<close>

definition InsertIndexEntry ::
  "nat \<Rightarrow> bytes \<Rightarrow> u32 \<Rightarrow> u64 \<Rightarrow> u16 \<Rightarrow> page \<Rightarrow> unit outcome \<times> u16 \<times> page" where
  "InsertIndexEntry index key child childVersion dataEnd pg =
     (if child = 0 then (Err ErrOffHeapConstraintViolation, dataEnd, pg)
      else
        let keyLen = (of_nat (length key) :: u32);
            requiredSpace = of_nat SizeofIndexEntry + keyLen;
            usedSpace = of_nat SizeofPageHeader + ucast (phCount pg) * of_nat SizeofIndexEntry + ucast dataEnd
        in if 4096 < usedSpace + requiredSpace then (Err ErrOffHeapPageFull, dataEnd, pg)
           else
             let keyOff = 4096 - ucast dataEnd - keyLen;
                 e = \<lparr>ieKeyOff = keyOff, ieKeyLen = keyLen, ieChild = EncodeChildWithVersion child childVersion\<rparr>;
                 b1 = splice (unat keyOff) key (move_entries index pg);
                 b2 = splice (SizeofPageHeader + index * SizeofIndexEntry) (index_entry_bytes e) b1
             in (Ok (), dataEnd + ucast keyLen, pg\<lparr>pageBytes := b2, phCount := phCount pg + 1\<rparr>))"

definition InsertLeafEntry :: "nat \<Rightarrow> bytes \<Rightarrow> bytes \<Rightarrow> u16 \<Rightarrow> page \<Rightarrow> unit outcome \<times> u16 \<times> page" where
  "InsertLeafEntry index key value dataEnd pg =
     (let keyLen = (of_nat (length key) :: u32);
          valLen = (of_nat (length value) :: u32);
          requiredSpace = of_nat SizeofLeafEntry + keyLen + valLen;
          usedSpace = of_nat SizeofPageHeader + ucast (phCount pg) * of_nat SizeofLeafEntry + ucast dataEnd
      in if 4096 < usedSpace + requiredSpace then (Err ErrOffHeapPageFull, dataEnd, pg)
         else
           let valOff = 4096 - ucast dataEnd - valLen;
               keyOff = valOff - keyLen;
               e = \<lparr>leKeyOff = keyOff, leKeyLen = keyLen, leValOff = valOff, leValLen = valLen\<rparr>;
               b1 = splice (unat valOff) value (move_entries index pg);
               b2 = splice (unat keyOff) key b1;
               b3 = splice (SizeofPageHeader + index * SizeofLeafEntry) (leaf_entry_bytes e) b2
           in (Ok (), dataEnd + ucast valLen + ucast keyLen, pg\<lparr>pageBytes := b3, phCount := phCount pg + 1\<rparr>))"

definition OverwriteLeafValue :: "int \<Rightarrow> bytes \<Rightarrow> page \<Rightarrow> bool \<times> page" where
  "OverwriteLeafValue idx newValue pg =
     (if idx < 0 \<or> int (GetCount pg) \<le> idx then (False, pg)
      else
        let e = leaf_entry_at (nat idx) pg
        in if leValLen e < of_nat (length newValue) then (False, pg)
           else
             let b1 = splice (unat (leValOff e)) (take (unat (leValLen e)) newValue) (pageBytes pg);
                 e' = e\<lparr>leValLen := of_nat (length newValue)\<rparr>
             in (True, pg\<lparr>pageBytes := splice (SizeofPageHeader + nat idx * SizeofLeafEntry) (leaf_entry_bytes e') b1\<rparr>))"

section \<open>Searching\<close>

definition search_key_at :: "bool \<Rightarrow> nat \<Rightarrow> page \<Rightarrow> bytes outcome" where
  "search_key_at isLeaf mid pg =
     (if isLeaf then bind_outcome (GetLeafEntrySafe mid pg) (\<lambda>e. Ok (GetKey (leKeyOff e) (leKeyLen e) pg))
      else bind_outcome (GetIndexEntrySafe mid pg) (\<lambda>e. Ok (GetKey (ieKeyOff e) (ieKeyLen e) pg)))"

function search_loop :: "bool \<Rightarrow> bytes \<Rightarrow> page \<Rightarrow> int \<Rightarrow> int \<Rightarrow> nat \<Rightarrow> (nat \<times> bool) outcome" where
  "search_loop isLeaf key pg left right result =
     (if left \<le> right then
        let mid = left + (right - left) div 2
        in bind_outcome (search_key_at isLeaf (nat mid) pg) (\<lambda>midKey.
             if key = midKey then Ok (nat mid, True)
             else if key < midKey then search_loop isLeaf key pg left (mid - 1) result
             else search_loop isLeaf key pg (mid + 1) right (nat (mid + 1)))
      else Ok (result, False))"
  by pat_completeness auto
termination
  by (relation "measure (\<lambda>(_, _, _, l, r, _). nat (r - l + 1))") auto

declare search_loop.simps [simp del]

definition SearchKey :: "bytes \<Rightarrow> bool \<Rightarrow> page \<Rightarrow> (nat \<times> bool) outcome" where
  "SearchKey key isLeaf pg = search_loop isLeaf key pg 0 (int (GetCount pg) - 1) 0"

definition SearchChildIndex :: "bytes \<Rightarrow> page \<Rightarrow> nat \<times> bool" where
  "SearchChildIndex key pg = (case SearchKey key False pg of Ok r \<Rightarrow> r | _ \<Rightarrow> (0, False))"

section \<open>Validation\<close>

text \<open>The first violation in the order in which the loops find one.\<close>

fun first_err :: "(nat \<Rightarrow> err option) \<Rightarrow> nat list \<Rightarrow> unit outcome" where
  "first_err f [] = Ok ()"
| "first_err f (i # is) = (case f i of Some e \<Rightarrow> Err e | None \<Rightarrow> first_err f is)"

definition child_check :: "page \<Rightarrow> nat \<Rightarrow> err option" where
  "child_check pg i =
     (if fst (DecodeChildWithVersion (ieChild (index_entry_at i pg))) = 0 then Some ErrOffHeapChildZero else None)"

definition ValidatePage :: "page \<Rightarrow> unit outcome" where
  "ValidatePage pg =
     bind_outcome (first_err (child_check pg) [0..<GetCount pg]) (\<lambda>_.
       if 0 < GetCount pg \<and> fst (DecodeChildWithVersion (extraChild pg)) = 0 then Err ErrOffHeapExtraChildZero
       else Ok ())"

definition index_key_at :: "page \<Rightarrow> nat \<Rightarrow> bytes" where
  "index_key_at pg i = GetKey (ieKeyOff (index_entry_at i pg)) (ieKeyLen (index_entry_at i pg)) pg"

definition CheckPageInvariants :: "page \<Rightarrow> unit outcome" where
  "CheckPageInvariants pg =
     bind_outcome
       (first_err (\<lambda>i. if index_key_at pg (i - 1) < index_key_at pg i then None else Some ErrOffHeapKeysNotSorted)
         [1..<GetCount pg])
       (\<lambda>_. ValidatePage pg)"

section \<open>Copying entries\<close>

definition CollectKVExcept :: "int \<Rightarrow> page \<Rightarrow> bytes list \<times> bytes list" where
  "CollectKVExcept skipIdx pg =
     (let es = map (\<lambda>i. leaf_entry_at i pg) (filter (\<lambda>i. int i \<noteq> skipIdx) [0..<GetCount pg])
      in (map (\<lambda>e. GetKey (leKeyOff e) (leKeyLen e) pg) es, map (\<lambda>e. GetValue (leValOff e) (leValLen e) pg) es))"

text \<open>The copying loop: \<open>m\<close> entries are still to come, \<open>d\<close> have been inserted.\<close>

fun bulk_leaf :: "nat \<Rightarrow> nat \<Rightarrow> u32 \<Rightarrow> u32 \<Rightarrow> nat \<Rightarrow> u16 \<Rightarrow> page_manager \<Rightarrow> u16 outcome \<times> page_manager" where
  "bulk_leaf 0 d src dst startIdx dataEnd pm = (Ok dataEnd, pm)"
| "bulk_leaf (Suc m) d src dst startIdx dataEnd pm =
     (case GetLeafEntrySafe (startIdx + d) (pmPages pm src) of
        Ok e \<Rightarrow>
          let key = GetKey (leKeyOff e) (leKeyLen e) (pmPages pm src);
              val = GetValue (leValOff e) (leValLen e) (pmPages pm src)
          in (case InsertLeafEntry d key val dataEnd (pmPages pm dst) of
                (Ok _, dataEnd', pg) \<Rightarrow> bulk_leaf m (Suc d) src dst startIdx dataEnd' (with_page dst (\<lambda>_. pg) pm)
              | (Err er, _, pg) \<Rightarrow> (Err er, pm)
              | (Panic, _, pg) \<Rightarrow> (Panic, pm))
      | Err er \<Rightarrow> (Err er, pm)
      | Panic \<Rightarrow> (Panic, pm))"

definition BulkInitLeafFromSource :: "u32 \<Rightarrow> u32 \<Rightarrow> int \<Rightarrow> int \<Rightarrow> page_manager \<Rightarrow> u16 outcome \<times> page_manager" where
  "BulkInitLeafFromSource src dst startIdx endIdx pm =
     (if startIdx < 0 \<or> int (GetCount (pmPages pm src)) < endIdx \<or> endIdx \<le> startIdx
      then (Err ErrOffHeapInvalidRange, pm)
      else bulk_leaf (nat (endIdx - startIdx)) 0 src dst (nat startIdx) 0
             (with_page dst (InitLeafPage (phVersion (pmPages pm src))) pm))"

fun bulk_index :: "nat \<Rightarrow> nat \<Rightarrow> u32 \<Rightarrow> u32 \<Rightarrow> nat \<Rightarrow> u16 \<Rightarrow> page_manager \<Rightarrow> u16 outcome \<times> page_manager" where
  "bulk_index 0 d src dst startIdx dataEnd pm = (Ok dataEnd, pm)"
| "bulk_index (Suc m) d src dst startIdx dataEnd pm =
     (case GetIndexEntry (startIdx + d) (pmPages pm src) of
        Ok e \<Rightarrow>
          let key = GetKey (ieKeyOff e) (ieKeyLen e) (pmPages pm src);
              child = fst (DecodeChildWithVersion (ieChild e))
          in if child = src \<or> child = 0 then (Err ErrOffHeapSelfLoop, pm)
             else (case InsertIndexEntry d key child (GetVersionSafe child pm) dataEnd (pmPages pm dst) of
                (Ok _, dataEnd', pg) \<Rightarrow> bulk_index m (Suc d) src dst startIdx dataEnd' (with_page dst (\<lambda>_. pg) pm)
              | (Err er, _, pg) \<Rightarrow> (Err er, pm)
              | (Panic, _, pg) \<Rightarrow> (Panic, pm))
      | Err er \<Rightarrow> (Err er, pm)
      | Panic \<Rightarrow> (Panic, pm))"

definition BulkInitIndexFromSource ::
  "u32 \<Rightarrow> u32 \<Rightarrow> int \<Rightarrow> int \<Rightarrow> u64 \<Rightarrow> page_manager \<Rightarrow> u16 outcome \<times> page_manager" where
  "BulkInitIndexFromSource src dst startIdx endIdx extra pm =
     (if startIdx < 0 \<or> int (GetCount (pmPages pm src)) < endIdx \<or> endIdx \<le> startIdx
      then (Err ErrOffHeapInvalidRange, pm)
      else case bulk_index (nat (endIdx - startIdx)) 0 src dst (nat startIdx) 0
                  (with_page dst (InitIndexPage (phVersion (pmPages pm src))) pm) of
          (Ok dataEnd, pm1) \<Rightarrow>
            if fst (DecodeChildWithVersion extra) = src then (Err ErrOffHeapSelfLoop, pm1)
            else (Ok dataEnd, with_page dst (\<lambda>pg. pg\<lparr>extraChild := extra\<rparr>) pm1)
        | (r, pm1) \<Rightarrow> (r, pm1))"

end
