(* ===== verification/Page_Entries.thy ===== *)
theory Page_Entries
  imports Page_Layout
begin

text \<open>
  What the page layout promises. The entry array and the data area of a page never overlap, the
  bytes of two entries never overlap, and inserting an entry is inserting it into the list that
  the page stands for. Leaf pages and index pages share the interface \<open>paged_entries\<close>; the
  copying of a range of entries and the insertion at the place that the binary search returns are
  proved once, in the locales, and hold for both kinds of page by interpretation.
\<close>

section \<open>Memory\<close>

lemmas layout_consts = SizeofPageHeader_def SizeofIndexEntry_def SizeofLeafEntry_def

lemma field_field: "a + k \<le> n \<Longrightarrow> field a k (field off n b) = field (off + a) k b"
  by (simp add: field_def take_drop min_def add.commute)

lemma field_splice_inside:
  assumes "off + length bs \<le> length m" "off \<le> pos" "pos + k \<le> off + length bs"
  shows "field pos k (splice off bs m) = field (pos - off) k bs"
proof -
  have "length (take off m) = off" using assms by simp
  then show ?thesis
    unfolding splice_def using assms(2,3) by (simp add: field_append_within)
qed

definition slot :: "nat \<Rightarrow> bytes \<Rightarrow> bytes" where
  "slot i b = field (56 + i * 16) 16 b"

lemma u32_slot: "k + 4 \<le> 16 \<Longrightarrow> u32_at (56 + i * 16 + k) b = u32_at k (slot i b)"
  by (simp add: u32_at_def slot_def field_field)

lemma u64_slot: "k + 8 \<le> 16 \<Longrightarrow> u64_at (56 + i * 16 + k) b = u64_at k (slot i b)"
  by (simp add: u64_at_def slot_def field_field)

lemma leaf_entry_slot: "leaf_entry_at i pg =
    \<lparr>leKeyOff = u32_at 0 (slot i (pageBytes pg)), leKeyLen = u32_at 4 (slot i (pageBytes pg)),
     leValOff = u32_at 8 (slot i (pageBytes pg)), leValLen = u32_at 12 (slot i (pageBytes pg))\<rparr>"
  using u32_slot [of 0 i] u32_slot [of 4 i] u32_slot [of 8 i] u32_slot [of 12 i]
  by (simp add: leaf_entry_at_def layout_consts Let_def)

lemma index_entry_slot: "index_entry_at i pg =
    \<lparr>ieKeyOff = u32_at 0 (slot i (pageBytes pg)), ieKeyLen = u32_at 4 (slot i (pageBytes pg)),
     ieChild = u64_at 8 (slot i (pageBytes pg))\<rparr>"
  using u32_slot [of 0 i] u32_slot [of 4 i] u64_slot [of 8 i]
  by (simp add: index_entry_at_def layout_consts Let_def)

lemma length_entry_bytes [simp]: "length (leaf_entry_bytes e) = 16" "length (index_entry_bytes e') = 16"
  by (simp_all add: leaf_entry_bytes_def index_entry_bytes_def)

lemma leaf_entry_slot_eq: "slot i (pageBytes pg) = leaf_entry_bytes e \<Longrightarrow> leaf_entry_at i pg = e"
  by (cases e) (simp add: leaf_entry_slot leaf_entry_bytes_def)

lemma leaf_entry_slot_cong: "slot i (pageBytes pg) = slot j (pageBytes pg') \<Longrightarrow> leaf_entry_at i pg = leaf_entry_at j pg'"
  by (simp add: leaf_entry_slot)

lemma index_entry_slot_cong: "slot i (pageBytes pg) = slot j (pageBytes pg') \<Longrightarrow> index_entry_at i pg = index_entry_at j pg'"
  by (simp add: index_entry_slot)

lemma index_entry_slot_eq: "slot i (pageBytes pg) = index_entry_bytes e \<Longrightarrow> index_entry_at i pg = e"
  by (cases e) (simp add: index_entry_slot index_entry_bytes_def)

lemma slot_move:
  assumes "length (pageBytes pg) = 4096" "56 + (GetCount pg + 1) * 16 \<le> 4096" "i \<le> GetCount pg" "j \<le> GetCount pg"
  shows "slot j (move_entries i pg) = slot (if j \<le> i then j else j - 1) (pageBytes pg)"
proof (cases "j \<le> i")
  case True
  with assms show ?thesis
    by (simp add: slot_def move_entries_def layout_consts field_splice_other)
next
  case False
  with assms(3,4) obtain c where j: "j = i + 1 + c" "c + i + 1 \<le> GetCount pg"
    by (metis add.commute add.left_commute le_Suc_ex not_less_eq_eq Suc_eq_plus1)
  have "field (56 + j * 16) 16 (move_entries i pg) = field (56 + (j - 1) * 16) 16 (pageBytes pg)"
    using assms j by (simp add: move_entries_def layout_consts field_splice_inside field_field add.assoc)
  with False show ?thesis by (simp add: slot_def)
qed

lemma length_move [simp]:
  assumes "length (pageBytes pg) = 4096" "56 + (GetCount pg + 1) * 16 \<le> 4096"
  shows "length (move_entries i pg) = 4096"
  using assms by (simp add: move_entries_def layout_consts)

lemma field_move:
  assumes "length (pageBytes pg) = 4096" "56 + (GetCount pg + 1) * 16 \<le> pos" "pos \<le> 4096"
  shows "field pos k (move_entries i pg) = field pos k (pageBytes pg)"
  using assms by (simp add: move_entries_def layout_consts field_splice_other)

text \<open>
  An insertion moves the entries, writes data \<open>d\<close> below the data area and the entry \<open>e\<close> into the
  freed place; every earlier entry and all earlier data stay.
\<close>

lemma slot_insert:
  assumes "length (pageBytes pg) = 4096" "56 + (GetCount pg + 1) * 16 \<le> lo" "lo + length d \<le> 4096"
    "i \<le> GetCount pg" "j \<le> GetCount pg" "length e = 16"
  shows "slot j (splice (56 + i * 16) e (splice lo d (move_entries i pg))) =
    (if j < i then slot j (pageBytes pg) else if j = i then e else slot (j - 1) (pageBytes pg))"
proof -
  have len: "length (move_entries i pg) = 4096" "length (splice lo d (move_entries i pg)) = 4096"
    using assms by simp_all
  have i: "56 + i * 16 + 16 \<le> lo" and j: "56 + j * 16 + 16 \<le> lo" using assms by simp_all
  have data: "slot j (splice lo d (move_entries i pg)) = slot j (move_entries i pg)"
    unfolding slot_def using j len assms by (intro field_splice_other) simp_all
  show ?thesis
  proof (cases "j = i")
    case True
    with i len assms show ?thesis by (simp add: slot_def field_splice_same)
  next
    case False
    have "slot j (splice (56 + i * 16) e (splice lo d (move_entries i pg))) = slot j (splice lo d (move_entries i pg))"
    proof -
      have "56 + j * 16 + 16 \<le> 56 + i * 16 \<or> 56 + i * 16 + length e \<le> 56 + j * 16"
        using False assms(6) by (cases "j < i") simp_all
      then show ?thesis unfolding slot_def using i len assms(3,6) by (intro field_splice_other) simp_all
    qed
    moreover have "56 + (GetCount pg + 1) * 16 \<le> 4096" using assms(2,3) by simp
    ultimately show ?thesis using data slot_move [OF assms(1) _ assms(4,5)] False by (cases "j < i") simp_all
  qed
qed

lemma data_insert:
  assumes "length (pageBytes pg) = 4096" "56 + (GetCount pg + 1) * 16 \<le> lo" "lo + length d \<le> 4096"
    "i \<le> GetCount pg" "length e = 16"
  shows "lo + length d \<le> pos \<Longrightarrow> pos \<le> 4096 \<Longrightarrow>
      field pos k (splice (56 + i * 16) e (splice lo d (move_entries i pg))) = field pos k (pageBytes pg)"
    and "a + k \<le> length d \<Longrightarrow>
      field (lo + a) k (splice (56 + i * 16) e (splice lo d (move_entries i pg))) = field a k d"
    and "length (splice (56 + i * 16) e (splice lo d (move_entries i pg))) = 4096"
  using assms
  by (simp_all add: field_splice_other field_splice_inside field_move)

lemma splice_splice: "off = lo + length a \<Longrightarrow> off + length b \<le> length m \<Longrightarrow>
    splice lo a (splice off b m) = splice lo (a @ b) m"
  by (simp add: splice_def take_add min_def add.assoc)

section \<open>Arithmetic of the space check\<close>

lemma ucast_of_u16: "(ucast (a :: u16) :: u32) = of_nat (unat a)"
  by simp

lemma unat_used_space:
  assumes "l < 2147483648"
  shows "unat (of_nat SizeofPageHeader + ucast (c :: u16) * 16 + ucast (de :: u16) + (16 + of_nat l) :: u32) =
    56 + (unat c + 1) * 16 + unat de + l"
proof -
  have "unat c < 65536" "unat de < 65536"
    using unsigned_less [of c] unsigned_less [of de] by simp_all
  then have "56 + (unat c + 1) * 16 + unat de + l < 4294967296" using assms by simp
  moreover have "(of_nat SizeofPageHeader + ucast c * 16 + ucast de + (16 + of_nat l) :: u32) =
      of_nat (56 + (unat c + 1) * 16 + unat de + l)"
    by (simp add: ucast_of_u16 SizeofPageHeader_def del: of_nat_unat)
  ultimately show ?thesis by (simp only: unat_of_nat_fits)
qed

lemma space_check:
  assumes "l < 2147483648"
  shows "(4096 :: u32) < of_nat SizeofPageHeader + ucast (c :: u16) * 16 + ucast (de :: u16) + (16 + of_nat l)
    \<longleftrightarrow> 4096 < 56 + (unat c + 1) * 16 + unat de + l"
  unfolding word_less_nat_alt unat_used_space [OF assms] by simp

lemma offset_of_nat:
  assumes "unat (de :: u16) + l \<le> 4096"
  shows "(4096 - ucast de - of_nat l :: u32) = of_nat (4096 - unat de - l)"
  using assms by (simp add: ucast_of_u16 of_nat_diff del: of_nat_unat)

lemma data_end_of_nat:
  assumes "unat (de :: u16) + l \<le> 4096"
  shows "de + ucast (of_nat l :: u32) = of_nat (unat de + l)"
  using assms by (simp add: word_unat_eq_iff unat_word_ariths unsigned_ucast_eq unsigned_of_nat take_bit_nat_eq_self_iff)

section \<open>The data area\<close>

text \<open>
  \<open>layout d rs\<close>: the regions \<open>rs\<close> of the entries, each a pair of page offsets, lie in the last \<open>d\<close>
  bytes of the page, are disjoint and take up at most \<open>d\<close> bytes.
\<close>

definition layout :: "nat \<Rightarrow> (nat \<times> nat) list \<Rightarrow> bool" where
  "layout d rs \<longleftrightarrow> (\<forall>r\<in>set rs. 4096 - d \<le> fst r \<and> fst r \<le> snd r \<and> snd r \<le> 4096) \<and>
     sorted_wrt (\<lambda>a b. snd a \<le> fst b \<or> snd b \<le> fst a) rs \<and> (\<Sum>r\<leftarrow>rs. snd r - fst r) \<le> d"

definition insert_at :: "nat \<Rightarrow> 'a \<Rightarrow> 'a list \<Rightarrow> 'a list" where
  "insert_at i x xs = take i xs @ x # drop i xs"

lemma length_insert_at [simp]: "i \<le> length xs \<Longrightarrow> length (insert_at i x xs) = Suc (length xs)"
  by (simp add: insert_at_def)

lemma map_insert_at [simp]: "map f (insert_at i x xs) = insert_at i (f x) (map f xs)"
  by (simp add: insert_at_def take_map drop_map)

lemma set_insert_at [simp]: "set (insert_at i x xs) = insert x (set xs)"
  by (metis append_take_drop_id insert_at_def list.simps(15) set_append Un_insert_right)

lemma sum_list_insert_at [simp]: "sum_list (insert_at i x xs) = (x :: nat) + sum_list xs"
proof -
  have "sum_list xs = sum_list (take i xs) + sum_list (drop i xs)"
    by (metis append_take_drop_id sum_list_append)
  then show ?thesis by (simp add: insert_at_def)
qed

lemma nth_insert_at:
  "i \<le> length xs \<Longrightarrow> j \<le> length xs \<Longrightarrow> insert_at i x xs ! j = (if j < i then xs ! j else if j = i then x else xs ! (j - 1))"
  by (auto simp: insert_at_def nth_append nth_Cons' min_def)

lemma insert_at_upt:
  assumes "i \<le> n" "\<And>j. j < i \<Longrightarrow> g j = f j" "g i = x" "\<And>j. i < j \<Longrightarrow> j \<le> n \<Longrightarrow> g j = f (j - 1)"
  shows "map g [0..<Suc n] = insert_at i x (map f [0..<n])"
  using assms by (intro nth_equalityI) (auto simp: nth_insert_at nth_append simp del: upt_Suc)

lemma sorted_wrt_insert_at:
  assumes "sorted_wrt P xs" "\<And>y. y \<in> set (take i xs) \<Longrightarrow> P y x" "\<And>y. y \<in> set (drop i xs) \<Longrightarrow> P x y"
  shows "sorted_wrt P (insert_at i x xs)"
proof -
  have "sorted_wrt P (take i xs @ drop i xs)" using assms(1) by simp
  with assms(2,3) show ?thesis
    unfolding insert_at_def sorted_wrt_append by auto
qed

lemma layout_insert:
  assumes "layout d rs" "hi = 4096 - d" "lo + w = hi" "d + w \<le> 4096"
  shows "layout (d + w) (insert_at i (lo, hi) rs)"
proof -
  have "4096 - d \<le> fst r" if "r \<in> set (take i rs) \<or> r \<in> set (drop i rs)" for r
    using assms(1) that by (auto simp: layout_def dest: in_set_takeD in_set_dropD)
  then have "sorted_wrt (\<lambda>a b. snd a \<le> fst b \<or> snd b \<le> fst a) (insert_at i (lo, hi) rs)"
    using assms by (intro sorted_wrt_insert_at) (auto simp: layout_def)
  with assms show ?thesis by (fastforce simp: layout_def)
qed

lemma layout_Nil [simp]: "layout d []"
  by (simp add: layout_def)

lemma layout_disjoint:
  assumes "layout d rs" "i < length rs" "j < length rs" "i \<noteq> j"
  shows "snd (rs ! i) \<le> fst (rs ! j) \<or> snd (rs ! j) \<le> fst (rs ! i)"
proof -
  have "sorted_wrt (\<lambda>a b. snd a \<le> fst b \<or> snd b \<le> fst a) rs" using assms(1) by (simp add: layout_def)
  from sorted_wrt_nth_less [OF this, of i j] sorted_wrt_nth_less [OF this, of j i] assms(2-4)
  show ?thesis by (metis nat_neq_iff)
qed

subsection \<open>The end of the data area\<close>

definition key_offs :: "page \<Rightarrow> u32 list" where
  "key_offs pg = map (\<lambda>i. if IsLeaf pg then leKeyOff (leaf_entry_at i pg) else ieKeyOff (index_entry_at i pg)) [0..<GetCount pg]"

lemma foldl_min:
  "foldl (\<lambda>m i. if f i < m then f i else m) a is = Min (insert (a :: 'a :: linorder) (f ` set is))"
proof (induction "is" arbitrary: a)
  case Nil
  then show ?case by simp
next
  case (Cons i "is")
  have "foldl (\<lambda>m i. if f i < m then f i else m) (if f i < a then f i else a) is =
      Min (insert (min a (f i)) (f ` set is))"
  proof -
    have "(if f i < a then f i else a) = min a (f i)" by (auto simp: min_def)
    then show ?thesis by (simp only: Cons)
  qed
  also have "\<dots> = Min (insert a (insert (f i) (f ` set is)))"
    by (cases "set is = {}") (simp_all add: min.assoc)
  finally show ?case by simp
qed

lemma GetDataEnd_eq:
  assumes "\<forall>k\<in>set (key_offs pg). 4096 - d \<le> unat k" "\<exists>k\<in>set (key_offs pg). unat k = 4096 - d" "d \<le> 4096"
  shows "unat (GetDataEnd pg) = d"
proof -
  obtain k where k: "k \<in> set (key_offs pg)" "unat k = 4096 - d" using assms(2) by auto
  define m where "m = Min (insert (4096 :: u32) (set (key_offs pg)))"
  have "4096 - d \<le> unat x" if "x \<in> insert (4096 :: u32) (set (key_offs pg))" for x
    using assms(1) that by auto
  moreover have "m \<in> insert (4096 :: u32) (set (key_offs pg))"
    unfolding m_def by (intro Min_in) auto
  ultimately have "4096 - d \<le> unat m" by blast
  moreover have "m \<le> k" unfolding m_def using k by (intro Min_le) auto
  ultimately have m: "unat m = 4096 - d" using k by (simp add: word_le_nat_alt)
  have "unat (4096 - m) = d"
    using m assms(3) by (simp add: unat_sub word_le_nat_alt)
  then have "unat (ucast (4096 - m) :: u16) = d"
    using assms(3) by (simp add: unsigned_ucast_eq take_bit_nat_eq_self_iff)
  moreover have "GetCount pg \<noteq> 0" using k by (auto simp: key_offs_def)
  ultimately show ?thesis
    by (simp add: GetDataEnd_def Let_def foldl_min m_def key_offs_def)
qed

lemma GetDataEnd_empty [simp]: "GetCount pg = 0 \<Longrightarrow> GetDataEnd pg = 0"
  by (simp add: GetDataEnd_def)

section \<open>Leaf pages\<close>

definition leaf_entries :: "page \<Rightarrow> leaf_entry list" where
  "leaf_entries pg = map (\<lambda>i. leaf_entry_at i pg) [0..<GetCount pg]"

definition leaf_kv :: "page \<Rightarrow> leaf_entry \<Rightarrow> bytes \<times> bytes" where
  "leaf_kv pg e = (GetKey (leKeyOff e) (leKeyLen e) pg, GetValue (leValOff e) (leValLen e) pg)"

definition leaf_kvs :: "page \<Rightarrow> (bytes \<times> bytes) list" where
  "leaf_kvs pg = map (leaf_kv pg) (leaf_entries pg)"

definition leaf_region :: "leaf_entry \<Rightarrow> nat \<times> nat" where
  "leaf_region e = (unat (leKeyOff e), unat (leValOff e) + unat (leValLen e))"

definition leaf_ok :: "page \<Rightarrow> bool" where
  "leaf_ok pg \<longleftrightarrow> IsLeaf pg \<and> length (pageBytes pg) = 4096 \<and>
     56 + GetCount pg * 16 + unat (GetDataEnd pg) \<le> 4096 \<and>
     layout (unat (GetDataEnd pg)) (map leaf_region (leaf_entries pg)) \<and>
     (\<forall>e\<in>set (leaf_entries pg). unat (leKeyOff e) + unat (leKeyLen e) = unat (leValOff e))"

definition kv_weight :: "bytes \<times> bytes \<Rightarrow> nat" where
  "kv_weight kv = length (fst kv) + length (snd kv)"

lemma leaf_lengths [simp]: "length (leaf_entries pg) = GetCount pg" "length (leaf_kvs pg) = GetCount pg"
  by (simp_all add: leaf_entries_def leaf_kvs_def)

lemma leaf_entries_nth: "i < GetCount pg \<Longrightarrow> leaf_entries pg ! i = leaf_entry_at i pg"
  by (simp add: leaf_entries_def)

lemma leaf_ok_entry:
  assumes "leaf_ok pg" "e \<in> set (leaf_entries pg)"
  shows "4096 - unat (GetDataEnd pg) \<le> unat (leKeyOff e)"
    "unat (leKeyOff e) + unat (leKeyLen e) = unat (leValOff e)" "unat (leValOff e) + unat (leValLen e) \<le> 4096"
  using assms by (auto simp: leaf_ok_def layout_def leaf_region_def)

lemma leaf_kv_lengths:
  assumes "leaf_ok pg" "e \<in> set (leaf_entries pg)"
  shows "length (fst (leaf_kv pg e)) = unat (leKeyLen e)" "length (snd (leaf_kv pg e)) = unat (leValLen e)"
  using leaf_ok_entry [OF assms] assms(1) by (simp_all add: leaf_kv_def GetKey_def GetValue_def leaf_ok_def)

lemma key_offs_leaf: "IsLeaf pg \<Longrightarrow> key_offs pg = map leKeyOff (leaf_entries pg)"
  by (simp add: key_offs_def leaf_entries_def)

lemma leaf_weights:
  assumes "leaf_ok pg"
  shows "(\<Sum>kv\<leftarrow>leaf_kvs pg. kv_weight kv) \<le> unat (GetDataEnd pg)"
proof -
  have "kv_weight (leaf_kv pg e) = snd (leaf_region e) - fst (leaf_region e)" if "e \<in> set (leaf_entries pg)" for e
    using leaf_kv_lengths [OF assms that] leaf_ok_entry [OF assms that] by (simp add: kv_weight_def leaf_region_def)
  then have "(\<Sum>kv\<leftarrow>leaf_kvs pg. kv_weight kv) = (\<Sum>r\<leftarrow>map leaf_region (leaf_entries pg). snd r - fst r)"
    by (auto simp: leaf_kvs_def o_def intro!: arg_cong [where f = sum_list])
  also have "\<dots> \<le> unat (GetDataEnd pg)" using assms by (simp add: leaf_ok_def layout_def)
  finally show ?thesis .
qed

lemma leaf_init:
  assumes "length (pageBytes pg) = 4096"
  shows "leaf_ok (InitLeafPage ver pg)" "leaf_kvs (InitLeafPage ver pg) = []" "GetDataEnd (InitLeafPage ver pg) = 0"
proof -
  have [simp]: "GetCount (InitLeafPage ver pg) = 0" by (simp add: InitLeafPage_def InitPage_def GetCount_def)
  show "leaf_ok (InitLeafPage ver pg)" "leaf_kvs (InitLeafPage ver pg) = []" "GetDataEnd (InitLeafPage ver pg) = 0"
    using assms by (simp_all add: leaf_ok_def leaf_kvs_def leaf_entries_def)
      (simp_all add: InitLeafPage_def InitPage_def IsLeaf_def)
qed

text \<open>What an insertion writes, with the arithmetic of the code resolved.\<close>

definition leaf_entry_for :: "nat \<Rightarrow> bytes \<Rightarrow> bytes \<Rightarrow> leaf_entry" where
  "leaf_entry_for d key val = \<lparr>leKeyOff = of_nat (4096 - d - length val - length key), leKeyLen = of_nat (length key),
     leValOff = of_nat (4096 - d - length val), leValLen = of_nat (length val)\<rparr>"

definition leaf_inserted :: "nat \<Rightarrow> bytes \<Rightarrow> bytes \<Rightarrow> nat \<Rightarrow> page \<Rightarrow> page" where
  "leaf_inserted i key val d pg = pg\<lparr>pageBytes :=
     splice (56 + i * 16) (leaf_entry_bytes (leaf_entry_for d key val))
       (splice (4096 - d - length val - length key) (key @ val) (move_entries i pg)),
     phCount := phCount pg + 1\<rparr>"

lemma InsertLeafEntry_full:
  assumes "4096 < 56 + (GetCount pg + 1) * 16 + unat de + (length key + length val)" "length key + length val < 2147483648"
  shows "InsertLeafEntry i key val de pg = (Err ErrOffHeapPageFull, de, pg)"
  using space_check [OF assms(2), of "phCount pg" de] assms(1)
  by (simp add: InsertLeafEntry_def SizeofLeafEntry_def GetCount_def Let_def add.assoc)

lemma InsertLeafEntry_writes:
  assumes "56 + (GetCount pg + 1) * 16 + unat de + (length key + length val) \<le> 4096" "length (pageBytes pg) = 4096"
  shows "InsertLeafEntry i key val de pg =
    (Ok (), of_nat (unat de + (length key + length val)), leaf_inserted i key val (unat de) pg)"
proof -
  let ?vl = "length val" and ?kl = "length key"
  have vo: "(4096 - ucast de - of_nat ?vl :: u32) = of_nat (4096 - unat de - ?vl)"
    using assms(1) by (intro offset_of_nat) simp
  have ko: "(of_nat (4096 - unat de - ?vl) - of_nat ?kl :: u32) = of_nat (4096 - unat de - ?vl - ?kl)"
    using assms(1) by (simp add: of_nat_diff)
  have de1: "de + ucast (of_nat ?vl :: u32) = of_nat (unat de + ?vl)"
    using assms(1) by (intro data_end_of_nat) simp
  have de2: "(of_nat (unat de + ?vl) :: u16) + ucast (of_nat ?kl :: u32) = of_nat (unat de + (?kl + ?vl))"
  proof -
    have u: "unat (of_nat (unat de + ?vl) :: u16) = unat de + ?vl"
      using assms(1) by (intro unat_of_nat_fits(1)) simp
    have "unat de + ?vl + ?kl \<le> 4096" using assms(1) by simp
    from data_end_of_nat [of "of_nat (unat de + ?vl)" ?kl, unfolded u, OF this] show ?thesis
      by (simp only: add.assoc add.commute [of ?vl])
  qed
  have fit: "\<not> (4096 :: u32) < of_nat SizeofPageHeader + ucast (phCount pg) * 16 + ucast de + (16 + of_nat (?kl + ?vl))"
    using space_check [of "?kl + ?vl" "phCount pg" de] assms(1) by (simp add: GetCount_def)
  have sp: "splice (4096 - unat de - ?vl - ?kl) key (splice (4096 - unat de - ?vl) val (move_entries i pg)) =
      splice (4096 - unat de - ?vl - ?kl) (key @ val) (move_entries i pg)"
    using assms by (intro splice_splice) simp_all
  have small: "unat (of_nat (4096 - unat de - ?vl) :: u32) = 4096 - unat de - ?vl"
    "unat (of_nat (4096 - unat de - ?vl - ?kl) :: u32) = 4096 - unat de - ?vl - ?kl"
    by (simp_all only: unat_of_nat_fits)
  show ?thesis
    unfolding InsertLeafEntry_def Let_def vo ko de1 de2 small sp SizeofLeafEntry_def
    using fit by (simp add: add.assoc leaf_inserted_def leaf_entry_for_def SizeofPageHeader_def)
qed

lemma GetCount_Suc: "GetCount pg * 16 \<le> 4040 \<Longrightarrow> unat (phCount pg + 1) = Suc (GetCount pg)"
  by (simp add: GetCount_def unat_word_ariths)

lemma leaf_inserted_entries:
  assumes "length (pageBytes pg) = 4096" "i \<le> GetCount pg"
    "56 + (GetCount pg + 1) * 16 + d + (length key + length val) \<le> 4096"
  shows "leaf_entries (leaf_inserted i key val d pg) = insert_at i (leaf_entry_for d key val) (leaf_entries pg)"
proof -
  let ?pg = "leaf_inserted i key val d pg"
  let ?lo = "4096 - d - length val - length key"
  have slots: "slot j (pageBytes ?pg) = (if j < i then slot j (pageBytes pg) else
      if j = i then leaf_entry_bytes (leaf_entry_for d key val) else slot (j - 1) (pageBytes pg))" if "j \<le> GetCount pg" for j
    unfolding leaf_inserted_def using slot_insert [OF assms(1), of ?lo "key @ val" i j] assms that by simp
  have n: "GetCount ?pg = Suc (GetCount pg)"
    using GetCount_Suc [of pg] assms(3) by (simp add: leaf_inserted_def GetCount_def)
  have "map (\<lambda>j. leaf_entry_at j ?pg) [0..<Suc (GetCount pg)] =
      insert_at i (leaf_entry_for d key val) (map (\<lambda>j. leaf_entry_at j pg) [0..<GetCount pg])"
  proof (rule insert_at_upt [OF assms(2)])
    show "leaf_entry_at j ?pg = leaf_entry_at j pg" if "j < i" for j
      using slots [of j] that assms(2) by (intro leaf_entry_slot_cong) simp
    show "leaf_entry_at i ?pg = leaf_entry_for d key val"
      using slots [of i] assms(2) by (intro leaf_entry_slot_eq) simp
    show "leaf_entry_at j ?pg = leaf_entry_at (j - 1) pg" if "i < j" "j \<le> GetCount pg" for j
      using slots [of j] that by (intro leaf_entry_slot_cong) simp
  qed
  then show ?thesis by (simp add: leaf_entries_def n)
qed

lemma leaf_inserted_ok:
  assumes ok: "leaf_ok pg" and i: "i \<le> GetCount pg"
    and fits: "56 + (GetCount pg + 1) * 16 + unat (GetDataEnd pg) + (length key + length val) \<le> 4096"
  defines "d \<equiv> unat (GetDataEnd pg)"
  defines "pg' \<equiv> leaf_inserted i key val d pg"
  shows "leaf_kvs pg' = insert_at i (key, val) (leaf_kvs pg)" "leaf_ok pg'"
    "unat (GetDataEnd pg') = d + (length key + length val)"
proof -
  let ?e = "leaf_entry_for d key val" and ?lo = "4096 - d - length val - length key"
  have len: "length (pageBytes pg) = 4096" using ok by (simp add: leaf_ok_def)
  have fits': "56 + (GetCount pg + 1) * 16 + d + (length key + length val) \<le> 4096" using fits by (simp add: d_def)
  have es: "leaf_entries pg' = insert_at i ?e (leaf_entries pg)"
    unfolding pg'_def by (rule leaf_inserted_entries [OF len i fits'])
  then have n: "GetCount pg' = Suc (GetCount pg)" using i by (metis leaf_lengths(1) length_insert_at)
  have small: "unat (leKeyOff ?e) = ?lo" "unat (leKeyLen ?e) = length key"
    "unat (leValOff ?e) = ?lo + length key" "unat (leValLen ?e) = length val"
  proof -
    have "4096 - d - length val < 4294967296" "?lo < 4294967296" "length key < 4294967296" "length val < 4294967296"
      using fits' by simp_all
    note f = this [THEN unat_of_nat_fits(2)]
    have "4096 - d - length val = ?lo + length key" using fits' by simp
    with f show "unat (leKeyOff ?e) = ?lo" "unat (leKeyLen ?e) = length key"
      "unat (leValOff ?e) = ?lo + length key" "unat (leValLen ?e) = length val"
      unfolding leaf_entry_for_def leaf_entry.simps by simp_all
  qed
  have room: "56 + (GetCount pg + 1) * 16 \<le> ?lo" "?lo + length (key @ val) \<le> 4096" "?lo + length (key @ val) = 4096 - d"
    using fits' by simp_all
  have old: "leaf_kv pg' e = leaf_kv pg e" if "e \<in> set (leaf_entries pg)" for e
    using leaf_ok_entry [OF ok that] data_insert(1) [OF len room(1,2) i] room(3)
    by (simp add: leaf_kv_def GetKey_def GetValue_def pg'_def leaf_inserted_def flip: d_def)
  have new: "leaf_kv pg' ?e = (key, val)"
    using data_insert(2) [OF len room(1,2) i, of _ 0 "length key"]
      data_insert(2) [OF len room(1,2) i, of _ "length key" "length val"] small
    by (simp add: leaf_kv_def GetKey_def GetValue_def pg'_def leaf_inserted_def)
  have bytes': "length (pageBytes pg') = 4096"
    unfolding pg'_def leaf_inserted_def using data_insert(3) [OF len room(1,2) i] by simp
  show "leaf_kvs pg' = insert_at i (key, val) (leaf_kvs pg)"
    unfolding leaf_kvs_def es map_insert_at new using old by (simp cong: map_cong)
  have leaf: "IsLeaf pg'" using ok by (simp add: leaf_ok_def pg'_def leaf_inserted_def IsLeaf_def)
  have leaf_lower: "4096 - (d + (length key + length val)) \<le> unat (leKeyOff e)" if "e \<in> set (leaf_entries pg)" for e
    using leaf_ok_entry(1) [OF ok that] by (simp add: d_def)
  show de: "unat (GetDataEnd pg') = d + (length key + length val)"
    using leaf_lower fits' small
    by (intro GetDataEnd_eq) (auto simp: key_offs_leaf [OF leaf] es)
  have "layout (d + (length key + length val)) (insert_at i (?lo, 4096 - d) (map leaf_region (leaf_entries pg)))"
    using ok fits' by (intro layout_insert) (simp_all add: leaf_ok_def d_def)
  moreover have "leaf_region ?e = (?lo, 4096 - d)" using small fits' by (simp add: leaf_region_def)
  ultimately show "leaf_ok pg'"
    using leaf ok small fits' n bytes' by (auto simp: leaf_ok_def de es)
qed

section \<open>Index pages\<close>

definition index_entries :: "page \<Rightarrow> index_entry list" where
  "index_entries pg = map (\<lambda>i. index_entry_at i pg) [0..<GetCount pg]"

definition index_kc :: "page \<Rightarrow> index_entry \<Rightarrow> bytes \<times> u64" where
  "index_kc pg e = (GetKey (ieKeyOff e) (ieKeyLen e) pg, ieChild e)"

definition index_kcs :: "page \<Rightarrow> (bytes \<times> u64) list" where
  "index_kcs pg = map (index_kc pg) (index_entries pg)"

definition index_region :: "index_entry \<Rightarrow> nat \<times> nat" where
  "index_region e = (unat (ieKeyOff e), unat (ieKeyOff e) + unat (ieKeyLen e))"

definition index_ok :: "page \<Rightarrow> bool" where
  "index_ok pg \<longleftrightarrow> pageType pg = PageTypeIndex \<and> length (pageBytes pg) = 4096 \<and>
     56 + GetCount pg * 16 + unat (GetDataEnd pg) \<le> 4096 \<and>
     layout (unat (GetDataEnd pg)) (map index_region (index_entries pg))"

definition kc_weight :: "bytes \<times> u64 \<Rightarrow> nat" where
  "kc_weight kc = length (fst kc)"

lemma index_lengths [simp]: "length (index_entries pg) = GetCount pg" "length (index_kcs pg) = GetCount pg"
  by (simp_all add: index_entries_def index_kcs_def)

lemma index_ok_not_leaf: "index_ok pg \<Longrightarrow> \<not> IsLeaf pg"
  by (simp add: index_ok_def IsLeaf_def PageTypeIndex_def PageTypeLeaf_def)

lemma index_ok_entry:
  assumes "index_ok pg" "e \<in> set (index_entries pg)"
  shows "4096 - unat (GetDataEnd pg) \<le> unat (ieKeyOff e)" "unat (ieKeyOff e) + unat (ieKeyLen e) \<le> 4096"
  using assms by (auto simp: index_ok_def layout_def index_region_def)

lemma index_kc_length:
  assumes "index_ok pg" "e \<in> set (index_entries pg)"
  shows "length (fst (index_kc pg e)) = unat (ieKeyLen e)"
  using index_ok_entry [OF assms] assms(1) by (simp add: index_kc_def GetKey_def index_ok_def)

lemma key_offs_index: "\<not> IsLeaf pg \<Longrightarrow> key_offs pg = map ieKeyOff (index_entries pg)"
  by (simp add: key_offs_def index_entries_def)

lemma index_weights:
  assumes "index_ok pg"
  shows "(\<Sum>kc\<leftarrow>index_kcs pg. kc_weight kc) \<le> unat (GetDataEnd pg)"
proof -
  have "kc_weight (index_kc pg e) = snd (index_region e) - fst (index_region e)" if "e \<in> set (index_entries pg)" for e
    using index_kc_length [OF assms that] by (simp add: kc_weight_def index_region_def)
  then have "(\<Sum>kc\<leftarrow>index_kcs pg. kc_weight kc) = (\<Sum>r\<leftarrow>map index_region (index_entries pg). snd r - fst r)"
    by (auto simp: index_kcs_def o_def intro!: arg_cong [where f = sum_list])
  also have "\<dots> \<le> unat (GetDataEnd pg)" using assms by (simp add: index_ok_def layout_def)
  finally show ?thesis .
qed

lemma index_init:
  assumes "length (pageBytes pg) = 4096"
  shows "index_ok (InitIndexPage ver pg)" "index_kcs (InitIndexPage ver pg) = []" "GetDataEnd (InitIndexPage ver pg) = 0"
proof -
  have [simp]: "GetCount (InitIndexPage ver pg) = 0" by (simp add: InitIndexPage_def InitPage_def GetCount_def)
  show "index_ok (InitIndexPage ver pg)" "index_kcs (InitIndexPage ver pg) = []" "GetDataEnd (InitIndexPage ver pg) = 0"
    using assms by (simp_all add: index_ok_def index_kcs_def index_entries_def)
      (simp_all add: InitIndexPage_def InitPage_def)
qed

definition index_entry_for :: "nat \<Rightarrow> bytes \<Rightarrow> u64 \<Rightarrow> index_entry" where
  "index_entry_for d key enc =
     \<lparr>ieKeyOff = of_nat (4096 - d - length key), ieKeyLen = of_nat (length key), ieChild = enc\<rparr>"

definition index_inserted :: "nat \<Rightarrow> bytes \<Rightarrow> u64 \<Rightarrow> nat \<Rightarrow> page \<Rightarrow> page" where
  "index_inserted i key enc d pg = pg\<lparr>pageBytes :=
     splice (56 + i * 16) (index_entry_bytes (index_entry_for d key enc))
       (splice (4096 - d - length key) key (move_entries i pg)),
     phCount := phCount pg + 1\<rparr>"

lemma InsertIndexEntry_full:
  assumes "4096 < 56 + (GetCount pg + 1) * 16 + unat de + length key" "length key < 2147483648" "child \<noteq> 0"
  shows "InsertIndexEntry i key child ver de pg = (Err ErrOffHeapPageFull, de, pg)"
  using space_check [OF assms(2), of "phCount pg" de] assms(1,3)
  by (simp add: InsertIndexEntry_def SizeofIndexEntry_def GetCount_def Let_def add.assoc)

lemma InsertIndexEntry_writes:
  assumes "56 + (GetCount pg + 1) * 16 + unat de + length key \<le> 4096" "child \<noteq> 0"
  shows "InsertIndexEntry i key child ver de pg =
    (Ok (), of_nat (unat de + length key), index_inserted i key (EncodeChildWithVersion child ver) (unat de) pg)"
proof -
  let ?kl = "length key"
  have ko: "(4096 - ucast de - of_nat ?kl :: u32) = of_nat (4096 - unat de - ?kl)"
    using assms(1) by (intro offset_of_nat) simp
  have de: "de + ucast (of_nat ?kl :: u32) = of_nat (unat de + ?kl)"
    using assms(1) by (intro data_end_of_nat) simp
  have fit: "\<not> (4096 :: u32) < of_nat SizeofPageHeader + ucast (phCount pg) * 16 + ucast de + (16 + of_nat ?kl)"
    using space_check [of ?kl "phCount pg" de] assms(1) by (simp add: GetCount_def)
  have small: "unat (of_nat (4096 - unat de - ?kl) :: u32) = 4096 - unat de - ?kl"
    by (simp only: unat_of_nat_fits)
  show ?thesis
    unfolding InsertIndexEntry_def Let_def ko de small SizeofIndexEntry_def
    using fit assms(2) by (simp add: add.assoc index_inserted_def index_entry_for_def SizeofPageHeader_def)
qed

lemma index_inserted_entries:
  assumes "length (pageBytes pg) = 4096" "i \<le> GetCount pg" "56 + (GetCount pg + 1) * 16 + d + length key \<le> 4096"
  shows "index_entries (index_inserted i key enc d pg) = insert_at i (index_entry_for d key enc) (index_entries pg)"
proof -
  let ?pg = "index_inserted i key enc d pg"
  have slots: "slot j (pageBytes ?pg) = (if j < i then slot j (pageBytes pg) else
      if j = i then index_entry_bytes (index_entry_for d key enc) else slot (j - 1) (pageBytes pg))" if "j \<le> GetCount pg" for j
    unfolding index_inserted_def using slot_insert [OF assms(1), of "4096 - d - length key" key i j] assms that by simp
  have n: "GetCount ?pg = Suc (GetCount pg)"
    using GetCount_Suc [of pg] assms(3) by (simp add: index_inserted_def GetCount_def)
  have "map (\<lambda>j. index_entry_at j ?pg) [0..<Suc (GetCount pg)] =
      insert_at i (index_entry_for d key enc) (map (\<lambda>j. index_entry_at j pg) [0..<GetCount pg])"
  proof (rule insert_at_upt [OF assms(2)])
    show "index_entry_at j ?pg = index_entry_at j pg" if "j < i" for j
      using slots [of j] that assms(2) by (intro index_entry_slot_cong) simp
    show "index_entry_at i ?pg = index_entry_for d key enc"
      using slots [of i] assms(2) by (intro index_entry_slot_eq) simp
    show "index_entry_at j ?pg = index_entry_at (j - 1) pg" if "i < j" "j \<le> GetCount pg" for j
      using slots [of j] that by (intro index_entry_slot_cong) simp
  qed
  then show ?thesis by (simp add: index_entries_def n)
qed

lemma index_inserted_ok:
  fixes enc :: u64
  assumes ok: "index_ok pg" and i: "i \<le> GetCount pg"
    and fits: "56 + (GetCount pg + 1) * 16 + unat (GetDataEnd pg) + length key \<le> 4096"
  defines "d \<equiv> unat (GetDataEnd pg)"
  defines "pg' \<equiv> index_inserted i key enc d pg"
  shows "index_kcs pg' = insert_at i (key, enc) (index_kcs pg)" "index_ok pg'"
    "unat (GetDataEnd pg') = d + length key"
proof -
  let ?e = "index_entry_for d key enc" and ?lo = "4096 - d - length key"
  have len: "length (pageBytes pg) = 4096" using ok by (simp add: index_ok_def)
  have fits': "56 + (GetCount pg + 1) * 16 + d + length key \<le> 4096" using fits by (simp add: d_def)
  have es: "index_entries pg' = insert_at i ?e (index_entries pg)"
    unfolding pg'_def by (rule index_inserted_entries [OF len i fits'])
  then have n: "GetCount pg' = Suc (GetCount pg)" using i by (metis index_lengths(1) length_insert_at)
  have small: "unat (ieKeyOff ?e) = ?lo" "unat (ieKeyLen ?e) = length key" "ieChild ?e = enc"
  proof -
    have "?lo < 4294967296" "length key < 4294967296" using fits' by simp_all
    note f = this [THEN unat_of_nat_fits(2)]
    from f show "unat (ieKeyOff ?e) = ?lo" "unat (ieKeyLen ?e) = length key" "ieChild ?e = enc"
      unfolding index_entry_for_def index_entry.simps by simp_all
  qed
  have room: "56 + (GetCount pg + 1) * 16 \<le> ?lo" "?lo + length key \<le> 4096" "?lo + length key = 4096 - d"
    using fits' by simp_all
  have old: "index_kc pg' e = index_kc pg e" if "e \<in> set (index_entries pg)" for e
    using index_ok_entry [OF ok that] data_insert(1) [OF len room(1,2) i] room(3)
    by (simp add: index_kc_def GetKey_def pg'_def index_inserted_def flip: d_def)
  have new: "index_kc pg' ?e = (key, enc)"
    using data_insert(2) [OF len room(1,2) i, of _ 0 "length key"] small
    by (simp add: index_kc_def GetKey_def pg'_def index_inserted_def)
  have bytes': "length (pageBytes pg') = 4096"
    unfolding pg'_def index_inserted_def using data_insert(3) [OF len room(1,2) i] by simp
  show "index_kcs pg' = insert_at i (key, enc) (index_kcs pg)"
    unfolding index_kcs_def es map_insert_at new using old by (simp cong: map_cong)
  have ty: "pageType pg' = PageTypeIndex" using ok by (simp add: index_ok_def pg'_def index_inserted_def)
  then have leaf: "\<not> IsLeaf pg'" by (simp add: IsLeaf_def PageTypeIndex_def PageTypeLeaf_def)
  have lower: "4096 - (d + length key) \<le> unat (ieKeyOff e)" if "e \<in> set (index_entries pg)" for e
    using index_ok_entry(1) [OF ok that] by (simp add: d_def)
  show de: "unat (GetDataEnd pg') = d + length key"
    using lower fits' small by (intro GetDataEnd_eq) (auto simp: key_offs_index [OF leaf] es)
  have "layout (d + length key) (insert_at i (?lo, 4096 - d) (map index_region (index_entries pg)))"
    using ok fits' by (intro layout_insert) (simp_all add: index_ok_def d_def)
  moreover have "index_region ?e = (?lo, 4096 - d)" using small fits' by (simp add: index_region_def)
  ultimately show "index_ok pg'"
    using ty ok small fits' n bytes' by (auto simp: index_ok_def de es)
qed

end
