(* ===== verification/Page_Contract.thy ===== *)
theory Page_Contract
  imports Page_Entries
begin

text \<open>
  The contract of leaf and index pages as locales: \<open>paged_entries\<close> for the insertion of entries into a
  page and the copying of a range of entries, \<open>keyed_entries\<close> for pages whose keys are sorted and
  that are searched by bisection. Both are interpreted on the leaf and on the index accessors of
  \<open>Page_Layout\<close>.
\<close>

section \<open>Encoded children\<close>

lemma child_masks:
  "ChildIDMask = mask 32" "ChildVersionMask = push_bit 32 (mask 32)" "(0xFFFFFFFF :: u32) = mask 32"
  by (simp_all add: ChildIDMask_def ChildVersionMask_def mask_eq_exp_minus_1 push_bit_eq_mult)

lemma Decode_Encode [simp]: "DecodeChildWithVersion (EncodeChildWithVersion p ver) = (p, ucast ver)"
  unfolding DecodeChildWithVersion_def EncodeChildWithVersion_def child_masks ChildVersionShift_def Let_def
  by (auto intro!: bit_word_eqI simp: bit_simps)

lemma Encode_Decode [simp]:
  "EncodeChildWithVersion (fst (DecodeChildWithVersion x)) (ucast (snd (DecodeChildWithVersion x))) = x"
  unfolding DecodeChildWithVersion_def EncodeChildWithVersion_def child_masks ChildVersionShift_def Let_def
  by (rule bit_word_eqI) (auto simp: bit_simps)

section \<open>Binary search\<close>

definition page_keys :: "bool \<Rightarrow> page \<Rightarrow> bytes list" where
  "page_keys isLeaf pg = (if isLeaf then map fst (leaf_kvs pg) else map fst (index_kcs pg))"

lemma length_page_keys [simp]: "length (page_keys isLeaf pg) = GetCount pg"
  by (simp add: page_keys_def)

lemma search_key_at_nth: "i < GetCount pg \<Longrightarrow> search_key_at isLeaf i pg = Ok (page_keys isLeaf pg ! i)"
  by (simp add: search_key_at_def page_keys_def leaf_kvs_def leaf_entries_def leaf_kv_def
      index_kcs_def index_entries_def index_kc_def GetLeafEntrySafe_def GetIndexEntrySafe_def)

text \<open>The specification of the search: the number of smaller keys and whether the key is present.\<close>

definition linear_search :: "bytes \<Rightarrow> bytes list \<Rightarrow> nat \<times> bool" where
  "linear_search key ks = (length (takeWhile (\<lambda>k. k < key) ks), key \<in> set ks)"

lemma linear_search_at:
  assumes "\<And>j. j < m \<Longrightarrow> ks ! j < key" "m < length ks \<Longrightarrow> \<not> ks ! m < key" "m \<le> length ks"
  shows "fst (linear_search key ks) = m"
proof -
  have "takeWhile (\<lambda>k. k < key) ks = take m ks"
    using assms by (intro takeWhile_eq_take_P_nth) auto
  with assms(3) show ?thesis by (simp add: linear_search_def)
qed

lemma search_loop_linear:
  assumes "sorted_wrt (<) (page_keys isLeaf pg)" "0 \<le> left" "left \<le> right + 1" "right < int (GetCount pg)"
    "result = nat left" "\<And>j. j < nat left \<Longrightarrow> page_keys isLeaf pg ! j < key"
    "\<And>j. right < int j \<Longrightarrow> j < GetCount pg \<Longrightarrow> key < page_keys isLeaf pg ! j"
  shows "search_loop isLeaf key pg left right result = Ok (linear_search key (page_keys isLeaf pg))"
  using assms
proof (induction isLeaf key pg left right result rule: search_loop.induct)
  case (1 isLeaf key pg left right result)
  let ?ks = "page_keys isLeaf pg"
  note [simp] = length_page_keys
  have pos: "0 \<le> left" "left \<le> right + 1" "right < int (GetCount pg)" "result = nat left"
    using "1.prems"(2-5) by simp_all
  note lower = "1.prems"(6) and upper = "1.prems"(7)
  have sorted: "?ks ! i < ?ks ! j" if "i < j" "j < GetCount pg" for i j
    using "1.prems"(1) that by (simp add: sorted_wrt_iff_nth_less)
  show ?case
  proof (cases "left \<le> right")
    case False
    then have r: "right = left - 1" using pos by simp
    have "\<not> ?ks ! nat left < key" if "nat left < length ?ks"
    proof -
      have "right < int (nat left)" "nat left < GetCount pg" using r pos that by auto
      from upper [OF this] show ?thesis by simp
    qed
    then have fst: "fst (linear_search key ?ks) = nat left"
      using pos r by (intro linear_search_at lower) auto
    have "key \<notin> set ?ks"
    proof
      assume "key \<in> set ?ks"
      then obtain j where j: "j < GetCount pg" "?ks ! j = key" by (auto simp: in_set_conv_nth)
      show False
      proof (cases "j < nat left")
        case True
        from lower [OF this] j show False by simp
      next
        case False
        with r have "right < int j" by linarith
        from upper [OF this j(1)] j show False by simp
      qed
    qed
    with fst have "linear_search key ?ks = (nat left, False)" by (simp add: linear_search_def)
    with False pos show ?thesis by (simp add: search_loop.simps)
  next
    case True
    define mid where "mid = left + (right - left) div 2"
    have mid: "left \<le> mid" "mid \<le> right" using True by (simp_all add: mid_def)
    then have m: "nat mid < GetCount pg" "int (nat mid) = mid" using pos by auto
    note at = search_key_at_nth [OF m(1), of isLeaf]
    note IH = "1.IH" [OF True mid_def]
    have step: "search_loop isLeaf key pg left right result =
        (if key = ?ks ! nat mid then Ok (nat mid, True)
         else if key < ?ks ! nat mid then search_loop isLeaf key pg left (mid - 1) result
         else search_loop isLeaf key pg (mid + 1) right (nat (mid + 1)))"
      using True by (subst search_loop.simps) (simp add: at Let_def flip: mid_def)
    consider "key = ?ks ! nat mid" | "key < ?ks ! nat mid" | "?ks ! nat mid < key" by (rule linorder_cases)
    then show ?thesis
    proof cases
      case 1
      have "fst (linear_search key ?ks) = nat mid"
        using sorted m 1 by (intro linear_search_at) auto
      with 1 m step show ?thesis by (simp add: linear_search_def prod_eq_iff)
    next
      case 2
      have up: "key < ?ks ! j" if "mid - 1 < int j" "j < GetCount pg" for j
      proof (cases "j = nat mid")
        case False
        with that m have "nat mid < j" by simp
        from sorted [OF this that(2)] 2 show ?thesis by (rule less_trans [rotated])
      qed (use 2 in simp)
      have ne: "key \<noteq> ?ks ! nat mid" using 2 by auto
      have "search_loop isLeaf key pg left (mid - 1) result = Ok (linear_search key ?ks)"
        by (rule IH(1) [OF ne 2 "1.prems"(1)]) (use pos mid lower up in auto)
      with step 2 ne show ?thesis by simp
    next
      case 3
      have low: "?ks ! j < key" if "j < nat (mid + 1)" for j
      proof (cases "j = nat mid")
        case False
        with that m have "j < nat mid" by simp
        from sorted [OF this m(1)] 3 show ?thesis by (rule less_trans)
      qed (use 3 in simp)
      have ne: "key \<noteq> ?ks ! nat mid" "\<not> key < ?ks ! nat mid" using 3 by auto
      have "search_loop isLeaf key pg (mid + 1) right (nat (mid + 1)) = Ok (linear_search key ?ks)"
        by (rule IH(2) [OF ne "1.prems"(1)]) (use pos mid low upper in auto)
      with step ne show ?thesis by simp
    qed
  qed
qed

lemma SearchKey_linear:
  assumes "sorted_wrt (<) (page_keys isLeaf pg)"
  shows "SearchKey key isLeaf pg = Ok (linear_search key (page_keys isLeaf pg))"
  unfolding SearchKey_def by (rule search_loop_linear [OF assms]) auto

section \<open>The contract\<close>

text \<open>Inserting a list of entries one after another, as the copying loops do.\<close>

fun put_list :: "(nat \<Rightarrow> 'e \<Rightarrow> u16 \<Rightarrow> page \<Rightarrow> unit outcome \<times> u16 \<times> page) \<Rightarrow> nat \<Rightarrow> 'e list \<Rightarrow> u16 \<Rightarrow> page
    \<Rightarrow> unit outcome \<times> u16 \<times> page" where
  "put_list put d [] de pg = (Ok (), de, pg)"
| "put_list put d (e # es) de pg = (case put d e de pg of
     (Ok _, de', pg') \<Rightarrow> put_list put (Suc d) es de' pg'
   | (r, de', pg') \<Rightarrow> (r, de', pg'))"

definition entry_room :: "page \<Rightarrow> nat \<Rightarrow> bool" where
  "entry_room pg w \<longleftrightarrow> 56 + (GetCount pg + 1) * 16 + unat (GetDataEnd pg) + w \<le> 4096"

definition same_header :: "page \<Rightarrow> page \<Rightarrow> bool" where
  "same_header pg pg' \<longleftrightarrow> pg'\<lparr>pageBytes := pageBytes pg, phCount := phCount pg\<rparr> = pg"

locale paged_entries =
  fixes ok :: "page \<Rightarrow> bool"
    and view :: "page \<Rightarrow> 'e list"
    and good :: "'e \<Rightarrow> bool"
    and weight :: "'e \<Rightarrow> nat"
    and put :: "nat \<Rightarrow> 'e \<Rightarrow> u16 \<Rightarrow> page \<Rightarrow> unit outcome \<times> u16 \<times> page"
    and init :: "u64 \<Rightarrow> page \<Rightarrow> page"
  assumes view_count: "length (view pg) = GetCount pg"
    and ok_bytes: "ok pg \<Longrightarrow> length (pageBytes pg) = 4096"
    and space: "ok pg \<Longrightarrow> 56 + GetCount pg * 16 + unat (GetDataEnd pg) \<le> 4096"
    and weights: "ok pg \<Longrightarrow> (\<Sum>e\<leftarrow>view pg. weight e) \<le> unat (GetDataEnd pg)"
    and init_empty: "length (pageBytes pg) = 4096 \<Longrightarrow> ok (init ver pg) \<and> view (init ver pg) = []"
    and put_fits: "ok pg \<Longrightarrow> good e \<Longrightarrow> i \<le> GetCount pg \<Longrightarrow> entry_room pg (weight e) \<Longrightarrow>
      \<exists>pg'. put i e (GetDataEnd pg) pg = (Ok (), GetDataEnd pg', pg') \<and> ok pg' \<and>
        view pg' = insert_at i e (view pg) \<and> unat (GetDataEnd pg') = unat (GetDataEnd pg) + weight e \<and>
        same_header pg pg'"
    and put_full: "good e \<Longrightarrow> weight e < 2147483648 \<Longrightarrow> \<not> entry_room pg (weight e) \<Longrightarrow>
      put i e (GetDataEnd pg) pg = (Err ErrOffHeapPageFull, GetDataEnd pg, pg)"
begin

lemma view_count_Suc: "view pg' = insert_at i e (view pg) \<Longrightarrow> i \<le> GetCount pg \<Longrightarrow> GetCount pg' = Suc (GetCount pg)"
  by (metis length_insert_at view_count)

lemma same_header_trans: "same_header a b \<Longrightarrow> same_header b c \<Longrightarrow> same_header a c"
  by (cases a; cases b; cases c) (simp add: same_header_def)

lemma put_list_fits:
  assumes "ok pg" "\<forall>e\<in>set es. good e" "d = GetCount pg"
    "56 + (d + length es) * 16 + unat (GetDataEnd pg) + (\<Sum>e\<leftarrow>es. weight e) \<le> 4096"
  shows "\<exists>pg'. put_list put d es (GetDataEnd pg) pg = (Ok (), GetDataEnd pg', pg') \<and> ok pg' \<and>
    view pg' = view pg @ es \<and> same_header pg pg'"
  using assms
proof (induction es arbitrary: d pg)
  case Nil
  then show ?case by (auto simp: same_header_def)
next
  case (Cons e es)
  have room: "entry_room pg (weight e)" using Cons.prems by (simp add: entry_room_def)
  have "good e" "d \<le> GetCount pg" using Cons.prems by simp_all
  from put_fits [OF Cons.prems(1) this room] obtain pg1 where
    pg1: "put d e (GetDataEnd pg) pg = (Ok (), GetDataEnd pg1, pg1)" "ok pg1" "view pg1 = insert_at d e (view pg)"
      "unat (GetDataEnd pg1) = unat (GetDataEnd pg) + weight e" "same_header pg pg1" by auto
  have n: "GetCount pg1 = Suc d" using view_count_Suc [OF pg1(3)] Cons.prems(3) by simp
  have "view pg1 = view pg @ [e]" using pg1(3) Cons.prems(3) view_count [of pg] by (simp add: insert_at_def)
  with Cons.IH [OF pg1(2), of "Suc d"] Cons.prems pg1 n show ?case
    by (auto intro: same_header_trans)
qed

lemma put_list_full:
  assumes "ok pg" "\<forall>e\<in>set es. good e \<and> weight e < 2147483648" "d = GetCount pg"
    "4096 < 56 + (d + length es) * 16 + unat (GetDataEnd pg) + (\<Sum>e\<leftarrow>es. weight e)"
  shows "\<exists>de' pg'. put_list put d es (GetDataEnd pg) pg = (Err ErrOffHeapPageFull, de', pg') \<and> ok pg'"
  using assms
proof (induction es arbitrary: d pg)
  case Nil
  with space [of pg] show ?case by simp
next
  case (Cons e es)
  have g: "good e" "weight e < 2147483648" "d \<le> GetCount pg" using Cons.prems by simp_all
  show ?case
  proof (cases "entry_room pg (weight e)")
    case True
    from put_fits [OF Cons.prems(1) g(1,3) True] obtain pg1 where
      pg1: "put d e (GetDataEnd pg) pg = (Ok (), GetDataEnd pg1, pg1)" "ok pg1" "view pg1 = insert_at d e (view pg)"
        "unat (GetDataEnd pg1) = unat (GetDataEnd pg) + weight e" by auto
    have n: "GetCount pg1 = Suc d" using view_count_Suc [OF pg1(3)] Cons.prems(3) by simp
    with Cons.IH [OF pg1(2), of "Suc d"] Cons.prems pg1 show ?thesis by auto
  next
    case False
    with put_full [OF g(1,2)] Cons.prems(1) show ?thesis by auto
  qed
qed

text \<open>Any range of a well-formed page fits into an empty page.\<close>

lemma copy_range:
  assumes "ok src" "i \<le> j" "j \<le> GetCount src" "length (pageBytes dst) = 4096"
    "map f (take (j - i) (drop i (view src))) = es" "\<forall>e\<in>set es. good e" "\<And>e. weight (f e) = weight e"
  shows "\<exists>pg'. put_list put 0 es 0 (init ver dst) = (Ok (), GetDataEnd pg', pg') \<and> ok pg' \<and>
    view pg' = es \<and> same_header (init ver dst) pg'"
proof -
  let ?xs = "take (j - i) (drop i (view src))"
  have emp: "ok (init ver dst)" "view (init ver dst) = []" using init_empty [OF assms(4)] by auto
  then have n: "GetCount (init ver dst) = 0" using view_count [of "init ver dst"] by simp
  have "view src = take i (view src) @ ?xs @ drop (j - i) (drop i (view src))"
    by (simp only: append_take_drop_id)
  then have "(\<Sum>e\<leftarrow>view src. weight e) = (\<Sum>e\<leftarrow>take i (view src). weight e) + ((\<Sum>e\<leftarrow>?xs. weight e) +
      (\<Sum>e\<leftarrow>drop (j - i) (drop i (view src)). weight e))"
    by (metis map_append sum_list_append)
  moreover have "(\<Sum>e\<leftarrow>es. weight e) = (\<Sum>e\<leftarrow>?xs. weight e)"
    using assms(7) by (simp add: o_def flip: assms(5))
  moreover have "length es = j - i" using assms(2,3) view_count [of src] by (simp flip: assms(5))
  ultimately have "56 + (0 + length es) * 16 + unat (GetDataEnd (init ver dst)) + (\<Sum>e\<leftarrow>es. weight e) \<le> 4096"
    using weights [OF assms(1)] space [OF assms(1)] assms(3) n by simp
  from put_list_fits [OF emp(1) assms(6) n [symmetric] this] emp n show ?thesis by simp
qed

end

text \<open>Pages with sorted keys.\<close>

locale keyed_entries = paged_entries ok view good weight put init
  for ok :: "page \<Rightarrow> bool" and view :: "page \<Rightarrow> 'e list" and good weight put init +
  fixes key :: "'e \<Rightarrow> bytes"
    and search :: "bytes \<Rightarrow> page \<Rightarrow> (nat \<times> bool) outcome"
  assumes search_linear: "ok pg \<Longrightarrow> sorted_wrt (<) (map key (view pg)) \<Longrightarrow>
      search k pg = Ok (linear_search k (map key (view pg)))"
begin

text \<open>Inserting at the place that the search returned keeps the keys sorted.\<close>

lemma insert_searched:
  assumes "ok pg" "good e" "sorted_wrt (<) (map key (view pg))" "search (key e) pg = Ok (i, False)"
    "entry_room pg (weight e)"
  shows "\<exists>pg'. put i e (GetDataEnd pg) pg = (Ok (), GetDataEnd pg', pg') \<and> ok pg' \<and>
    sorted_wrt (<) (map key (view pg')) \<and> view pg' = insert_at i e (view pg) \<and> same_header pg pg'"
proof -
  let ?ks = "map key (view pg)"
  have i: "i = length (takeWhile (\<lambda>k. k < key e) ?ks)" and new: "key e \<notin> set ?ks"
    using search_linear [OF assms(1,3), of "key e"] assms(4) by (simp_all add: linear_search_def)
  have le: "i \<le> GetCount pg" using i length_takeWhile_le [of _ ?ks] view_count [of pg] by (metis length_map)
  from put_fits [OF assms(1,2) le assms(5)] obtain pg' where
    pg': "put i e (GetDataEnd pg) pg = (Ok (), GetDataEnd pg', pg')" "ok pg'" "view pg' = insert_at i e (view pg)"
      "same_header pg pg'" by auto
  have low: "y < key e" if "y \<in> set (take i ?ks)" for y
    using that unfolding i by (metis set_takeWhileD takeWhile_eq_take)
  have up: "key e < y" if "y \<in> set (drop i ?ks)" for y
  proof -
    have "drop i ?ks = dropWhile (\<lambda>k. k < key e) ?ks" unfolding i by (simp add: dropWhile_eq_drop)
    with that obtain z zs where z: "dropWhile (\<lambda>k. k < key e) ?ks = z # zs" "y \<in> set (z # zs)"
      by (metis list.set_cases)
    then have "\<not> z < key e" by (metis hd_dropWhile list.distinct(1) list.sel(1))
    moreover have "z \<in> set ?ks" "z = y \<or> z < y"
    proof -
      have "sorted_wrt (<) (z # zs)" using assms(3) z(1) by (metis sorted_wrt_drop dropWhile_eq_drop)
      with z(2) show "z = y \<or> z < y" by auto
      show "z \<in> set ?ks" using z(1) by (metis list.set_intros(1) set_dropWhileD)
    qed
    ultimately show ?thesis using new by (metis linorder_less_linear less_trans)
  qed
  have "sorted_wrt (<) (map key (view pg'))"
    unfolding pg'(3) map_insert_at by (rule sorted_wrt_insert_at [OF assms(3) low up])
  with pg' show ?thesis by auto
qed

end

section \<open>Both kinds of page keep it\<close>

definition put_kv :: "nat \<Rightarrow> bytes \<times> bytes \<Rightarrow> u16 \<Rightarrow> page \<Rightarrow> unit outcome \<times> u16 \<times> page" where
  "put_kv i kv = InsertLeafEntry i (fst kv) (snd kv)"

definition put_kc :: "nat \<Rightarrow> bytes \<times> u64 \<Rightarrow> u16 \<Rightarrow> page \<Rightarrow> unit outcome \<times> u16 \<times> page" where
  "put_kc i kc = (case DecodeChildWithVersion (snd kc) of (child, ver) \<Rightarrow> InsertIndexEntry i (fst kc) child (ucast ver))"

definition has_child :: "bytes \<times> u64 \<Rightarrow> bool" where
  "has_child kc \<longleftrightarrow> fst (DecodeChildWithVersion (snd kc)) \<noteq> 0"

lemma put_kv_fits:
  assumes "leaf_ok pg" "i \<le> GetCount pg" "entry_room pg (kv_weight kv)"
  shows "\<exists>pg'. put_kv i kv (GetDataEnd pg) pg = (Ok (), GetDataEnd pg', pg') \<and> leaf_ok pg' \<and>
    leaf_kvs pg' = insert_at i kv (leaf_kvs pg) \<and> unat (GetDataEnd pg') = unat (GetDataEnd pg) + kv_weight kv \<and>
    same_header pg pg'"
proof -
  let ?d = "unat (GetDataEnd pg)"
  let ?pg = "leaf_inserted i (fst kv) (snd kv) ?d pg"
  have fits: "56 + (GetCount pg + 1) * 16 + ?d + (length (fst kv) + length (snd kv)) \<le> 4096"
    using assms(3) by (simp add: entry_room_def kv_weight_def)
  note ins = leaf_inserted_ok [OF assms(1,2) fits]
  have "GetDataEnd ?pg = of_nat (?d + (length (fst kv) + length (snd kv)))"
    using ins(3) by (metis of_nat_unat ucast_id)
  moreover have "same_header pg ?pg" by (simp add: same_header_def leaf_inserted_def)
  ultimately show ?thesis
    using InsertLeafEntry_writes [OF fits] ins assms(1) by (auto simp: put_kv_def kv_weight_def leaf_ok_def)
qed

lemma put_kc_fits:
  assumes "index_ok pg" "has_child kc" "i \<le> GetCount pg" "entry_room pg (kc_weight kc)"
  shows "\<exists>pg'. put_kc i kc (GetDataEnd pg) pg = (Ok (), GetDataEnd pg', pg') \<and> index_ok pg' \<and>
    index_kcs pg' = insert_at i kc (index_kcs pg) \<and> unat (GetDataEnd pg') = unat (GetDataEnd pg) + kc_weight kc \<and>
    same_header pg pg'"
proof -
  let ?d = "unat (GetDataEnd pg)"
  let ?pg = "index_inserted i (fst kc) (snd kc) ?d pg"
  obtain child ver where dec: "DecodeChildWithVersion (snd kc) = (child, ver)" by fastforce
  then have enc: "EncodeChildWithVersion child (ucast ver) = snd kc" using Encode_Decode [of "snd kc"] by simp
  have fits: "56 + (GetCount pg + 1) * 16 + ?d + length (fst kc) \<le> 4096" and c: "child \<noteq> 0"
    using assms(2,4) dec by (simp_all add: entry_room_def kc_weight_def has_child_def)
  note ins = index_inserted_ok [OF assms(1,3) fits, of "snd kc"]
  have "GetDataEnd ?pg = of_nat (?d + length (fst kc))"
    using ins(3) by (metis of_nat_unat ucast_id)
  moreover have "same_header pg ?pg" by (simp add: same_header_def index_inserted_def)
  ultimately show ?thesis
    using InsertIndexEntry_writes [OF fits c] ins enc dec by (auto simp: put_kc_def kc_weight_def)
qed

interpretation leaf_page: keyed_entries leaf_ok leaf_kvs "\<lambda>_. True" kv_weight put_kv InitLeafPage fst "\<lambda>k. SearchKey k True"
proof
  show "put_kv i e (GetDataEnd pg) pg = (Err ErrOffHeapPageFull, GetDataEnd pg, pg)"
    if "kv_weight e < 2147483648" "\<not> entry_room pg (kv_weight e)" for i e pg
    using that by (simp add: put_kv_def entry_room_def kv_weight_def InsertLeafEntry_full)
  show "SearchKey k True pg = Ok (linear_search k (map fst (leaf_kvs pg)))"
    if "sorted_wrt (<) (map fst (leaf_kvs pg))" for k pg
    using SearchKey_linear [of True pg k] that by (simp add: page_keys_def)
qed (use leaf_weights leaf_init put_kv_fits in \<open>auto simp: leaf_ok_def\<close>)

interpretation index_page: keyed_entries index_ok index_kcs has_child kc_weight put_kc InitIndexPage fst "\<lambda>k. SearchKey k False"
proof
  show "put_kc i e (GetDataEnd pg) pg = (Err ErrOffHeapPageFull, GetDataEnd pg, pg)"
    if "has_child e" "kc_weight e < 2147483648" "\<not> entry_room pg (kc_weight e)" for i e pg
    using that by (auto simp: put_kc_def entry_room_def kc_weight_def has_child_def InsertIndexEntry_full split: prod.splits)
  show "SearchKey k False pg = Ok (linear_search k (map fst (index_kcs pg)))"
    if "sorted_wrt (<) (map fst (index_kcs pg))" for k pg
    using SearchKey_linear [of False pg k] that by (simp add: page_keys_def)
qed (use index_weights index_init put_kc_fits in \<open>auto simp: index_ok_def\<close>)

end
