(* ===== verification/Page_Copy.thy ===== *)
theory Page_Copy
  imports Page_Contract
begin

text \<open>
  Copying ranges of entries between pages, overwriting a value in place, and the properties of the
  page layout. The copies rest on the contract of \<open>Page_Contract\<close>.
\<close>

section \<open>Copying\<close>

lemma with_page_twice [simp]: "with_page p (\<lambda>_. a) (with_page p f pm) = with_page p (\<lambda>_. a) pm"
  by (simp add: with_page_def)

lemma with_page_same [simp]: "with_page p (\<lambda>_. pmPages pm p) pm = pm"
  by (simp add: with_page_def)

lemma take_Suc_drop: "i < length xs \<Longrightarrow> take (Suc m) (drop i xs) = xs ! i # take m (drop (Suc i) xs)"
  by (simp flip: Cons_nth_drop_Suc)

lemma leaf_kvs_nth: "i < GetCount pg \<Longrightarrow> leaf_kvs pg ! i = leaf_kv pg (leaf_entry_at i pg)"
  by (simp add: leaf_kvs_def leaf_entries_def)

lemma index_kcs_nth: "i < GetCount pg \<Longrightarrow> index_kcs pg ! i = index_kc pg (index_entry_at i pg)"
  by (simp add: index_kcs_def index_entries_def)

lemma bulk_leaf_put_list:
  assumes "src \<noteq> dst" "start + d + m \<le> GetCount (pmPages pm src)"
    "put_list put_kv d (take m (drop (start + d) (leaf_kvs (pmPages pm src)))) de (pmPages pm dst) = (Ok (), de', pg)"
  shows "bulk_leaf m d src dst start de pm = (Ok de', with_page dst (\<lambda>_. pg) pm)"
  using assms
proof (induction m arbitrary: d de pm)
  case 0
  then show ?case by auto
next
  case (Suc m)
  let ?s = "pmPages pm src" and ?i = "start + d"
  let ?kv = "leaf_kv ?s (leaf_entry_at ?i ?s)"
  have i: "?i < GetCount ?s" using Suc.prems(2) by simp
  have xs: "take (Suc m) (drop ?i (leaf_kvs ?s)) = ?kv # take m (drop (Suc ?i) (leaf_kvs ?s))"
    using i by (simp add: take_Suc_drop leaf_kvs_nth)
  obtain r de1 pg1 where put: "put_kv d ?kv de (pmPages pm dst) = (r, de1, pg1)" by (metis prod_cases3)
  with Suc.prems(3) xs have r: "r = Ok ()" by (cases r) auto
  have rest: "put_list put_kv (Suc d) (take m (drop (start + Suc d) (leaf_kvs ?s))) de1 pg1 = (Ok (), de', pg)"
    using Suc.prems(3) xs put r by simp
  have "bulk_leaf m (Suc d) src dst start de1 (with_page dst (\<lambda>_. pg1) pm) =
      (Ok de', with_page dst (\<lambda>_. pg) (with_page dst (\<lambda>_. pg1) pm))"
    using Suc.prems(1,2) rest by (intro Suc.IH) simp_all
  then show ?case
    using i put r by (simp add: GetLeafEntrySafe_def put_kv_def leaf_kv_def Let_def)
qed

lemma BulkInitLeaf_copies:
  assumes "leaf_ok (pmPages pm src)" "src \<noteq> dst" "length (pageBytes (pmPages pm dst)) = 4096"
    "0 \<le> s" "s < e" "e \<le> int (GetCount (pmPages pm src))"
  shows "\<exists>pg. BulkInitLeafFromSource src dst s e pm = (Ok (GetDataEnd pg), with_page dst (\<lambda>_. pg) pm) \<and> leaf_ok pg \<and>
    leaf_kvs pg = take (nat (e - s)) (drop (nat s) (leaf_kvs (pmPages pm src))) \<and>
    same_header (InitLeafPage (phVersion (pmPages pm src)) (pmPages pm dst)) pg"
proof -
  let ?src = "pmPages pm src" and ?ver = "phVersion (pmPages pm src)"
  let ?xs = "take (nat (e - s)) (drop (nat s) (leaf_kvs ?src))"
  let ?pm = "with_page dst (InitLeafPage ?ver) pm"
  have n: "nat s \<le> nat e" "nat e \<le> GetCount ?src" "nat e - nat s = nat (e - s)" using assms(4-6) by simp_all
  from leaf_page.copy_range [OF assms(1) n(1,2) assms(3), of id _ ?ver] obtain pg where
    pg: "put_list put_kv 0 ?xs 0 (InitLeafPage ?ver (pmPages pm dst)) = (Ok (), GetDataEnd pg, pg)" "leaf_ok pg"
      "leaf_kvs pg = ?xs" "same_header (InitLeafPage ?ver (pmPages pm dst)) pg" using n(3) by auto
  have "bulk_leaf (nat (e - s)) 0 src dst (nat s) 0 ?pm = (Ok (GetDataEnd pg), with_page dst (\<lambda>_. pg) ?pm)"
    using assms(2,6) n pg(1) by (intro bulk_leaf_put_list) auto
  then show ?thesis
    using pg assms(4-6) by (auto simp: BulkInitLeafFromSource_def)
qed

lemma InsertIndexEntry_version:
  "InsertIndexEntry i key child (ucast (ucast ver :: u32)) de pg = InsertIndexEntry i key child ver de pg"
proof -
  have "EncodeChildWithVersion child (ucast (ucast ver :: u32)) = EncodeChildWithVersion child ver"
    using Encode_Decode [of "EncodeChildWithVersion child ver"] by simp
  then show ?thesis by (simp add: InsertIndexEntry_def Let_def)
qed

lemma InsertIndexEntry_keeps_version:
  "InsertIndexEntry i key child ver de pg = (r, de', pg') \<Longrightarrow> phVersion pg' = phVersion pg"
  by (auto simp: InsertIndexEntry_def Let_def split: if_splits)

text \<open>A copied index entry names its child with the version that the child has now.\<close>

definition renew :: "page_manager \<Rightarrow> bytes \<times> u64 \<Rightarrow> bytes \<times> u64" where
  "renew pm kc = (let c = fst (DecodeChildWithVersion (snd kc)) in (fst kc, EncodeChildWithVersion c (GetVersionSafe c pm)))"

lemma put_kc_renew: "put_kc i (renew pm kc) = InsertIndexEntry i (fst kc) (fst (DecodeChildWithVersion (snd kc)))
    (GetVersionSafe (fst (DecodeChildWithVersion (snd kc))) pm)"
  by (intro ext) (auto simp: put_kc_def renew_def Let_def InsertIndexEntry_version)

lemma renew_with_page:
  "phVersion pg = phVersion (pmPages pm p) \<Longrightarrow> renew (with_page p (\<lambda>_. pg) pm) = renew pm"
  by (rule ext) (auto simp: renew_def GetVersionSafe_def Let_def)

lemma bulk_index_put_list:
  assumes "src \<noteq> dst" "start + d + m \<le> GetCount (pmPages pm src)"
    "\<forall>kc\<in>set (take m (drop (start + d) (index_kcs (pmPages pm src)))). fst (DecodeChildWithVersion (snd kc)) \<notin> {0, src}"
    "put_list put_kc d (map (renew pm) (take m (drop (start + d) (index_kcs (pmPages pm src))))) de (pmPages pm dst) = (Ok (), de', pg)"
  shows "bulk_index m d src dst start de pm = (Ok de', with_page dst (\<lambda>_. pg) pm)"
  using assms
proof (induction m arbitrary: d de pm)
  case 0
  then show ?case by auto
next
  case (Suc m)
  let ?s = "pmPages pm src" and ?i = "start + d"
  let ?kc = "index_kc ?s (index_entry_at ?i ?s)"
  have i: "?i < GetCount ?s" using Suc.prems(2) by simp
  have xs: "take (Suc m) (drop ?i (index_kcs ?s)) = ?kc # take m (drop (Suc ?i) (index_kcs ?s))"
    using i by (simp add: take_Suc_drop index_kcs_nth)
  obtain r de1 pg1 where put: "put_kc d (renew pm ?kc) de (pmPages pm dst) = (r, de1, pg1)" by (metis prod_cases3)
  with Suc.prems(4) xs have r: "r = Ok ()" by (cases r) auto
  have ver: "phVersion pg1 = phVersion (pmPages pm dst)"
    using put unfolding put_kc_renew by (rule InsertIndexEntry_keeps_version)
  have rest: "put_list put_kc (Suc d) (map (renew pm) (take m (drop (start + Suc d) (index_kcs ?s)))) de1 pg1 = (Ok (), de', pg)"
    using Suc.prems(4) xs put r by simp
  have "bulk_index m (Suc d) src dst start de1 (with_page dst (\<lambda>_. pg1) pm) =
      (Ok de', with_page dst (\<lambda>_. pg) (with_page dst (\<lambda>_. pg1) pm))"
    using Suc.prems(1-3) rest xs by (intro Suc.IH) (simp_all add: renew_with_page [OF ver])
  moreover have "fst (DecodeChildWithVersion (ieChild (index_entry_at ?i ?s))) \<notin> {0, src}"
    using Suc.prems(3) xs by (simp add: index_kc_def)
  ultimately show ?case
    using i put r by (simp add: GetIndexEntry_def put_kc_renew index_kc_def Let_def)
qed

lemma BulkInitIndex_copies:
  assumes "index_ok (pmPages pm src)" "src \<noteq> dst" "length (pageBytes (pmPages pm dst)) = 4096"
    "0 \<le> s" "s < e" "e \<le> int (GetCount (pmPages pm src))" "fst (DecodeChildWithVersion extra) \<noteq> src"
    "\<forall>kc\<in>set (take (nat (e - s)) (drop (nat s) (index_kcs (pmPages pm src)))). fst (DecodeChildWithVersion (snd kc)) \<notin> {0, src}"
  defines "pm0 \<equiv> with_page dst (InitIndexPage (phVersion (pmPages pm src))) pm"
  shows "\<exists>pg. BulkInitIndexFromSource src dst s e extra pm = (Ok (GetDataEnd pg), with_page dst (\<lambda>_. pg\<lparr>extraChild := extra\<rparr>) pm) \<and>
    index_ok pg \<and> index_kcs pg = map (renew pm0) (take (nat (e - s)) (drop (nat s) (index_kcs (pmPages pm src)))) \<and>
    same_header (InitIndexPage (phVersion (pmPages pm src)) (pmPages pm dst)) pg"
proof -
  let ?src = "pmPages pm src" and ?ver = "phVersion (pmPages pm src)"
  let ?xs = "take (nat (e - s)) (drop (nat s) (index_kcs ?src))"
  have n: "nat s \<le> nat e" "nat e \<le> GetCount ?src" "nat e - nat s = nat (e - s)" using assms(4-6) by simp_all
  have good: "\<forall>kc\<in>set (map (renew pm0) ?xs). has_child kc" using assms(8) by (auto simp: has_child_def renew_def Let_def)
  have weight: "kc_weight (renew pm0 kc) = kc_weight kc" for kc by (simp add: kc_weight_def renew_def Let_def)
  from index_page.copy_range [OF assms(1) n(1,2) assms(3), of "renew pm0" _ ?ver] good weight obtain pg where
    pg: "put_list put_kc 0 (map (renew pm0) ?xs) 0 (InitIndexPage ?ver (pmPages pm dst)) = (Ok (), GetDataEnd pg, pg)" "index_ok pg"
      "index_kcs pg = map (renew pm0) ?xs" "same_header (InitIndexPage ?ver (pmPages pm dst)) pg" using n(3) by auto
  have "bulk_index (nat (e - s)) 0 src dst (nat s) 0 pm0 = (Ok (GetDataEnd pg), with_page dst (\<lambda>_. pg) pm0)"
    using assms(2,6,8) n pg(1) by (intro bulk_index_put_list) (auto simp: pm0_def)
  then show ?thesis
    using pg assms(4-7) by (auto simp: BulkInitIndexFromSource_def pm0_def with_page_def)
qed

section \<open>Overwriting a value\<close>

lemma layout_shrink:
  assumes "layout d rs" "i < length rs" "fst (rs ! i) = lo" "lo \<le> hi" "hi \<le> snd (rs ! i)"
  shows "layout d (rs[i := (lo, hi)])"
proof -
  have r: "4096 - d \<le> lo" "snd (rs ! i) \<le> 4096" using assms(1-3) nth_mem [OF assms(2)] by (auto simp: layout_def)
  have "sorted_wrt (\<lambda>a b. snd a \<le> fst b \<or> snd b \<le> fst a) (rs[i := (lo, hi)])"
  proof (unfold sorted_wrt_iff_nth_less, intro allI impI)
    fix a b assume "a < b" "b < length (rs[i := (lo, hi)])"
    then show "snd (rs[i := (lo, hi)] ! a) \<le> fst (rs[i := (lo, hi)] ! b) \<or> snd (rs[i := (lo, hi)] ! b) \<le> fst (rs[i := (lo, hi)] ! a)"
      using layout_disjoint [OF assms(1), of a b] assms(2-5) by (auto simp: nth_list_update)
  qed
  moreover have "(\<Sum>r\<leftarrow>rs[i := (lo, hi)]. snd r - fst r) \<le> (\<Sum>r\<leftarrow>rs. snd r - fst r)"
    using assms(2-5) by (simp add: sum_list_sum_nth nth_list_update) (intro sum_mono, auto)
  moreover have "set (rs[i := (lo, hi)]) \<subseteq> insert (lo, hi) (set rs)" by (rule set_update_subset_insert)
  ultimately show ?thesis using assms r unfolding layout_def by fastforce
qed

text \<open>What a successful overwrite leaves: the value in place and the shortened entry.\<close>

definition shortened :: "nat \<Rightarrow> bytes \<Rightarrow> page \<Rightarrow> leaf_entry" where
  "shortened i val pg = (leaf_entry_at i pg)\<lparr>leValLen := of_nat (length val)\<rparr>"

definition leaf_overwritten :: "nat \<Rightarrow> bytes \<Rightarrow> page \<Rightarrow> page" where
  "leaf_overwritten i val pg = pg\<lparr>pageBytes := splice (56 + i * 16) (leaf_entry_bytes (shortened i val pg))
     (splice (unat (leValOff (leaf_entry_at i pg))) val (pageBytes pg))\<rparr>"

definition can_overwrite :: "nat \<Rightarrow> bytes \<Rightarrow> page \<Rightarrow> bool" where
  "can_overwrite i val pg \<longleftrightarrow> leaf_ok pg \<and> i < GetCount pg \<and> length val \<le> length (snd (leaf_kvs pg ! i))"

lemma can_overwrite_bounds:
  assumes "can_overwrite i val pg"
  defines "e \<equiv> leaf_entry_at i pg"
  shows "length val \<le> unat (leValLen e)" "unat (of_nat (length val) :: u32) = length val"
    "4096 - unat (GetDataEnd pg) \<le> unat (leKeyOff e)" "unat (leKeyOff e) + unat (leKeyLen e) = unat (leValOff e)"
    "unat (leValOff e) + unat (leValLen e) \<le> 4096" "length (pageBytes pg) = 4096"
    "\<And>j. j < GetCount pg \<Longrightarrow> 56 + j * 16 + 16 \<le> 4096 - unat (GetDataEnd pg)"
proof -
  have ok: "leaf_ok pg" and i: "i < GetCount pg" and len: "length val \<le> length (snd (leaf_kvs pg ! i))"
    using assms by (simp_all add: can_overwrite_def)
  have mem: "e \<in> set (leaf_entries pg)" using i by (simp add: leaf_entries_def e_def)
  from leaf_ok_entry [OF ok mem] show e: "4096 - unat (GetDataEnd pg) \<le> unat (leKeyOff e)"
    "unat (leKeyOff e) + unat (leKeyLen e) = unat (leValOff e)" "unat (leValOff e) + unat (leValLen e) \<le> 4096" .
  show vl: "length val \<le> unat (leValLen e)"
    using len leaf_kv_lengths(2) [OF ok mem] i by (simp add: leaf_kvs_nth e_def)
  then show "unat (of_nat (length val) :: u32) = length val" using e(3) by (intro unat_of_nat_fits) simp
  show "length (pageBytes pg) = 4096" using ok by (simp add: leaf_ok_def)
  have "56 + GetCount pg * 16 + unat (GetDataEnd pg) \<le> 4096" using ok by (simp add: leaf_ok_def)
  then show "56 + j * 16 + 16 \<le> 4096 - unat (GetDataEnd pg)" if "j < GetCount pg" for j using that by linarith
qed

lemma OverwriteLeafValue_can:
  assumes "can_overwrite i val pg"
  shows "OverwriteLeafValue (int i) val pg = (True, leaf_overwritten i val pg)"
proof -
  note b = can_overwrite_bounds [OF assms]
  have "\<not> leValLen (leaf_entry_at i pg) < of_nat (length val)" using b(1,2) by (simp add: word_less_nat_alt)
  with b(1) assms show ?thesis
    by (simp add: OverwriteLeafValue_def Let_def layout_consts leaf_overwritten_def shortened_def can_overwrite_def)
qed

lemma overwritten_entries:
  assumes can: "can_overwrite i val pg"
  shows "leaf_entries (leaf_overwritten i val pg) = (leaf_entries pg)[i := shortened i val pg]"
proof (rule nth_equalityI)
  let ?pg = "leaf_overwritten i val pg"
  let ?b = "splice (unat (leValOff (leaf_entry_at i pg))) val (pageBytes pg)"
  note b = can_overwrite_bounds [OF can]
  have i: "i < GetCount pg" using can by (simp add: can_overwrite_def)
  have n: "GetCount ?pg = GetCount pg" by (simp add: leaf_overwritten_def GetCount_def)
  then show "length (leaf_entries ?pg) = length ((leaf_entries pg)[i := shortened i val pg])" by simp
  have len: "length ?b = 4096" using b(1,5,6) by simp
  fix j assume "j < length (leaf_entries ?pg)"
  then have j: "j < GetCount pg" by (simp add: n)
  show "leaf_entries ?pg ! j = (leaf_entries pg)[i := shortened i val pg] ! j"
  proof (cases "j = i")
    case True
    have "slot i (pageBytes ?pg) = leaf_entry_bytes (shortened i val pg)"
      using len b(7) [OF i] by (simp add: leaf_overwritten_def slot_def field_splice_same)
    with True i n show ?thesis by (simp add: leaf_entries_nth leaf_entry_slot_eq)
  next
    case False
    then have "56 + j * 16 + 16 \<le> 56 + i * 16 \<or> 56 + i * 16 + 16 \<le> 56 + j * 16" by (cases "j < i") auto
    then have "slot j (pageBytes ?pg) = slot j ?b"
      using len b(7) [OF i] by (simp add: leaf_overwritten_def slot_def field_splice_other)
    also have "\<dots> = slot j (pageBytes pg)"
      unfolding slot_def using b(7) [OF j] b(1,3-6) by (intro field_splice_other) simp_all
    finally have "leaf_entry_at j ?pg = leaf_entry_at j pg" by (rule leaf_entry_slot_cong)
    with False j n show ?thesis by (simp add: leaf_entries_nth)
  qed
qed

lemma overwritten_data:
  assumes can: "can_overwrite i val pg" and pos: "4096 - unat (GetDataEnd pg) \<le> pos"
  shows "pos + k \<le> unat (leValOff (leaf_entry_at i pg)) \<or>
        unat (leValOff (leaf_entry_at i pg)) + unat (leValLen (leaf_entry_at i pg)) \<le> pos \<Longrightarrow>
      field pos k (pageBytes (leaf_overwritten i val pg)) = field pos k (pageBytes pg)"
    and "pos = unat (leValOff (leaf_entry_at i pg)) \<Longrightarrow> k = length val \<Longrightarrow>
      field pos k (pageBytes (leaf_overwritten i val pg)) = val"
    and "length (pageBytes (leaf_overwritten i val pg)) = 4096"
proof -
  let ?b = "splice (unat (leValOff (leaf_entry_at i pg))) val (pageBytes pg)"
  note b = can_overwrite_bounds [OF can]
  have "i < GetCount pg" using can by (simp add: can_overwrite_def)
  note up = b(7) [OF this]
  have len: "length ?b = 4096" using b(1,5,6) by simp
  then show "length (pageBytes (leaf_overwritten i val pg)) = 4096" using up by (simp add: leaf_overwritten_def)
  have top: "field pos k (pageBytes (leaf_overwritten i val pg)) = field pos k ?b"
    using len up pos by (simp add: leaf_overwritten_def field_splice_other)
  show "field pos k (pageBytes (leaf_overwritten i val pg)) = field pos k (pageBytes pg)"
    if "pos + k \<le> unat (leValOff (leaf_entry_at i pg)) \<or>
        unat (leValOff (leaf_entry_at i pg)) + unat (leValLen (leaf_entry_at i pg)) \<le> pos"
    unfolding top using that b(1,5,6) by (intro field_splice_other) auto
  show "field pos k (pageBytes (leaf_overwritten i val pg)) = val"
    if "pos = unat (leValOff (leaf_entry_at i pg))" "k = length val"
    unfolding top using that b(1,5,6) by (simp add: field_splice_same)
qed

lemma overwritten_kvs:
  assumes can: "can_overwrite i val pg"
  shows "leaf_kvs (leaf_overwritten i val pg) = (leaf_kvs pg)[i := (fst (leaf_kvs pg ! i), val)]"
proof (rule nth_equalityI)
  let ?pg = "leaf_overwritten i val pg" and ?e = "leaf_entry_at i pg"
  note b = can_overwrite_bounds [OF can]
  have ok: "leaf_ok pg" and i: "i < GetCount pg" using can by (simp_all add: can_overwrite_def)
  have n: "GetCount ?pg = GetCount pg" by (simp add: leaf_overwritten_def GetCount_def)
  then show "length (leaf_kvs ?pg) = length ((leaf_kvs pg)[i := (fst (leaf_kvs pg ! i), val)])" by simp
  fix j assume "j < length (leaf_kvs ?pg)"
  then have j: "j < GetCount pg" by (simp add: n)
  have "leaf_kvs ?pg ! j = leaf_kv ?pg ((leaf_entries pg)[i := shortened i val pg] ! j)"
    using j n by (simp add: leaf_kvs_def overwritten_entries [OF can])
  also have "\<dots> = (leaf_kvs pg)[i := (fst (leaf_kvs pg ! i), val)] ! j"
  proof (cases "j = i")
    case True
    have "leaf_kv ?pg (shortened i val pg) = (fst (leaf_kv pg ?e), val)"
      using overwritten_data(1,2) [OF can] b
      by (simp add: leaf_kv_def GetKey_def GetValue_def shortened_def)
    with True i show ?thesis by (simp add: leaf_kvs_nth)
  next
    case False
    let ?f = "leaf_entry_at j pg"
    have "?f \<in> set (leaf_entries pg)" using j by (simp add: leaf_entries_def)
    note f = leaf_ok_entry [OF ok this]
    have "snd (leaf_region ?f) \<le> fst (leaf_region ?e) \<or> snd (leaf_region ?e) \<le> fst (leaf_region ?f)"
      using layout_disjoint [of "unat (GetDataEnd pg)" "map leaf_region (leaf_entries pg)" j i] ok i j False
      by (simp add: leaf_ok_def leaf_entries_nth)
    with f b have "leaf_kv ?pg ?f = leaf_kv pg ?f"
      unfolding leaf_kv_def GetKey_def GetValue_def leaf_region_def
      by (intro arg_cong2 [where f = Pair] overwritten_data(1) [OF can]) auto
    with False i j show ?thesis by (simp add: leaf_kvs_nth leaf_entries_nth)
  qed
  finally show "leaf_kvs ?pg ! j = (leaf_kvs pg)[i := (fst (leaf_kvs pg ! i), val)] ! j" .
qed

lemma GetDataEnd_key_offs: "key_offs pg = key_offs pg' \<Longrightarrow> GetDataEnd pg = GetDataEnd pg'"
proof -
  have "GetDataEnd p = (if key_offs p = [] then 0 else ucast (4096 - Min (insert (4096 :: u32) (set (key_offs p)))))" for p
    by (simp add: GetDataEnd_def Let_def foldl_min key_offs_def)
  then show "key_offs pg = key_offs pg' \<Longrightarrow> GetDataEnd pg = GetDataEnd pg'" by simp
qed

lemma overwritten_ok:
  assumes can: "can_overwrite i val pg"
  shows "leaf_ok (leaf_overwritten i val pg)"
proof -
  let ?pg = "leaf_overwritten i val pg" and ?es = "leaf_entries pg"
  note b = can_overwrite_bounds [OF can] and es = overwritten_entries [OF can]
  have ok: "leaf_ok pg" and i: "i < GetCount pg" using can by (simp_all add: can_overwrite_def)
  have hd: "IsLeaf ?pg" "GetCount ?pg = GetCount pg" using ok
    by (simp_all add: leaf_ok_def leaf_overwritten_def GetCount_def IsLeaf_def)
  have "map leKeyOff (leaf_entries ?pg) = map leKeyOff ?es"
    using i unfolding es by (intro nth_equalityI) (auto simp: nth_list_update shortened_def leaf_entries_nth)
  then have de: "GetDataEnd ?pg = GetDataEnd pg" using ok hd
    by (intro GetDataEnd_key_offs) (simp add: key_offs_leaf leaf_ok_def)
  have "leaf_region (shortened i val pg) = (unat (leKeyOff (leaf_entry_at i pg)), unat (leValOff (leaf_entry_at i pg)) + length val)"
    using b(2) by (simp add: leaf_region_def shortened_def)
  moreover have "layout (unat (GetDataEnd pg)) ((map leaf_region ?es)[i := \<dots>])"
    using ok i b(1,4) by (intro layout_shrink) (simp_all add: leaf_ok_def leaf_entries_nth leaf_region_def)
  ultimately have "layout (unat (GetDataEnd pg)) (map leaf_region (leaf_entries ?pg))" by (simp add: es map_update)
  moreover have "\<forall>e\<in>set (leaf_entries ?pg). unat (leKeyOff e) + unat (leKeyLen e) = unat (leValOff e)"
    using ok b(4) set_update_subset_insert [of ?es i "shortened i val pg"]
    by (auto simp: es leaf_ok_def shortened_def)
  ultimately show ?thesis
    using ok hd de overwritten_data(3) [OF can order_refl] by (simp add: leaf_ok_def)
qed

end
