(* ===== verification/Leaf_Page.thy ===== *)
theory Leaf_Page
  imports Page_Copy
begin

text \<open>
  Copy-on-write operations on leaf pages: \<open>leafPageHandle\<close> (\<open>btree/leaf_page.go\<close>) and the page
  allocation of \<open>OffheapBTreeStorage\<close> (\<open>btree/offheap_storage.go\<close>). An operation never changes the
  page it is called on: it returns the page that replaces it.

  A handle is the page it designates; pooling of handles is not modelled. The comparison of the
  fill ratio with 0.95 is done on the integers: no fill ratio of a page lies between 0.95 and
  the nearest double. \<open>model.PageID\<close> is kept at the 32 bits that \<open>validatePageID\<close> admits.
\<close>

section \<open>Storage\<close>

definition AllocLeafPage :: "page_manager \<Rightarrow> u32 outcome \<times> page_manager" where
  "AllocLeafPage pm = (case pageAlloc pm of
     (Ok q, pm1) \<Rightarrow> (Ok q, with_page q (InitLeafPage 1) pm1)
   | (r, pm1) \<Rightarrow> (r, pm1))"

definition AllocNodePage :: "page_manager \<Rightarrow> u32 outcome \<times> page_manager" where
  "AllocNodePage pm = (case pageAlloc pm of
     (Ok q, pm1) \<Rightarrow> (Ok q, with_page q (InitIndexPage 1) pm1)
   | (r, pm1) \<Rightarrow> (r, pm1))"

definition copyPage :: "u32 \<Rightarrow> page_manager \<Rightarrow> u32 outcome \<times> page_manager" where
  "copyPage p pm =
     (let srcVersion = phVersion (pmPages pm p)
      in case pageAlloc pm of
           (Ok q, pm1) \<Rightarrow> (case PageIDToPtr p pm1 of
               Ok src \<Rightarrow> (Ok q, with_page q (\<lambda>_. src\<lparr>phVersion := srcVersion + 1\<rparr>) pm1)
             | _ \<Rightarrow> (Panic, pm1))
         | (r, pm1) \<Rightarrow> (r, pm1))"

text \<open>The copy that the handles make reads the version after the allocation.\<close>

definition cowCopy :: "u32 \<Rightarrow> page_manager \<Rightarrow> u32 outcome \<times> page_manager" where
  "cowCopy p pm = (case pageAlloc pm of
     (Ok q, pm1) \<Rightarrow> (case PageIDToPtr p pm1 of
         Ok src \<Rightarrow> (Ok q, with_page q (\<lambda>_. src\<lparr>phVersion := phVersion src + 1\<rparr>) pm1)
       | _ \<Rightarrow> (Panic, pm1))
   | (r, pm1) \<Rightarrow> (r, pm1))"

section \<open>Leaf operations\<close>

definition leafIsFull :: "nat \<Rightarrow> nat \<Rightarrow> page \<Rightarrow> bool" where
  "leafIsFull keyLen valueLen pg =
     (let requiredSpace = of_nat SizeofLeafEntry + of_nat keyLen + of_nat valueLen;
          usedSpace = of_nat SizeofPageHeader + ucast (phCount pg) * of_nat SizeofLeafEntry + ucast (GetDataEnd pg);
          total = (usedSpace + requiredSpace :: u32)
      in 95 * PageSize < 100 * unat total)"

text \<open>The error of the search is dropped.\<close>

definition leafSearch :: "bytes \<Rightarrow> page \<Rightarrow> nat \<times> bool" where
  "leafSearch key pg = (case SearchKey key True pg of Ok r \<Rightarrow> r | _ \<Rightarrow> (0, False))"

definition freed :: "u32 \<Rightarrow> page_manager \<Rightarrow> page_manager" where
  "freed q pm = snd (pageFree q pm)"

definition leafInsert :: "u32 \<Rightarrow> bytes \<Rightarrow> bytes \<Rightarrow> page_manager \<Rightarrow> u32 outcome \<times> page_manager" where
  "leafInsert p key val pm = (case cowCopy p pm of
     (Ok q, pm1) \<Rightarrow>
       (case leafSearch key (pmPages pm1 q) of (idx, found) \<Rightarrow>
          if found then (Err ErrDuplicateKey, freed q pm1)
          else case InsertLeafEntry idx key val (GetDataEnd (pmPages pm1 q)) (pmPages pm1 q) of
            (Ok _, _, pg) \<Rightarrow> (Ok q, with_page q (\<lambda>_. pg) pm1)
          | (Err e, _, pg) \<Rightarrow> (Err e, freed q (with_page q (\<lambda>_. pg) pm1))
          | (Panic, _, pg) \<Rightarrow> (Panic, pm1))
   | (r, pm1) \<Rightarrow> (r, pm1))"

text \<open>Filling a page that was just initialised, entry by entry; on failure the page is freed.\<close>

definition rebuild :: "u64 \<Rightarrow> (bytes \<times> bytes) list \<Rightarrow> page_manager \<Rightarrow> u32 outcome \<times> page_manager" where
  "rebuild ver kvs pm = (case pageAlloc pm of
     (Ok q, pm1) \<Rightarrow>
       (case put_list put_kv 0 kvs 0 (InitLeafPage ver (pmPages pm1 q)) of
          (Ok _, _, pg) \<Rightarrow> (Ok q, with_page q (\<lambda>_. pg) pm1)
        | (Err e, _, pg) \<Rightarrow> (Err e, freed q (with_page q (\<lambda>_. pg) pm1))
        | (Panic, _, pg) \<Rightarrow> (Panic, with_page q (\<lambda>_. pg) pm1))
   | (r, pm1) \<Rightarrow> (r, pm1))"

definition is_tombstone :: "bytes \<Rightarrow> bool outcome" where
  "is_tombstone val = (case ParseMVCC val of Ok mv \<Rightarrow> Ok (IsTombstone mv) | Err e \<Rightarrow> Ok False | Panic \<Rightarrow> Panic)"

definition leafUpdateSlow :: "u32 \<Rightarrow> nat \<Rightarrow> bytes \<Rightarrow> u64 \<Rightarrow> page_manager \<Rightarrow> u32 outcome \<times> page_manager" where
  "leafUpdateSlow p idx val srcVersion pm =
     (let key = fst (leaf_kv (pmPages pm p) (leaf_entry_at idx (pmPages pm p)));
          (keys, vals) = CollectKVExcept (int idx) (pmPages pm p);
          insertPos = length (takeWhile (\<lambda>k. k < key) keys);
          kvs = insert_at insertPos (key, val) (zip keys vals)
      in case rebuild (srcVersion + 1) kvs pm of
           (Ok q, pm1) \<Rightarrow>
             (case (is_tombstone (snd (leaf_kv (pmPages pm1 p) (leaf_entry_at idx (pmPages pm1 p)))), is_tombstone val) of
                (Ok old, Ok new) \<Rightarrow>
                  let tc = tombstoneCount (pmPages pm1 p);
                      tc1 = (if old then tc - 1 else tc);
                      tc2 = (if new then tc1 + 1 else tc1)
                  in (Ok q, with_page q (\<lambda>pg. pg\<lparr>tombstoneCount := tc2\<rparr>) pm1)
              | _ \<Rightarrow> (Panic, pm1))
         | (r, pm1) \<Rightarrow> (r, pm1))"

definition leafUpdate :: "u32 \<Rightarrow> int \<Rightarrow> bytes \<Rightarrow> page_manager \<Rightarrow> u32 outcome \<times> page_manager" where
  "leafUpdate p idx val pm =
     (if idx < 0 \<or> int (GetCount (pmPages pm p)) \<le> idx then (Err ErrKeyNotFound, pm)
      else
        let srcVersion = phVersion (pmPages pm p);
            oldValLen = leValLen (leaf_entry_at (nat idx) (pmPages pm p))
        in if length val \<le> unat oldValLen then
             (case copyPage p pm of
                (Ok q, pm1) \<Rightarrow>
                  (case OverwriteLeafValue idx val (pmPages pm1 q) of
                     (True, pg) \<Rightarrow> (Ok q, with_page q (\<lambda>_. pg) pm1)
                   | (False, pg) \<Rightarrow> leafUpdateSlow p (nat idx) val srcVersion (freed q pm1))
              | (r, pm1) \<Rightarrow> (r, pm1))
           else leafUpdateSlow p (nat idx) val srcVersion pm)"

definition leafDelete :: "u32 \<Rightarrow> int \<Rightarrow> page_manager \<Rightarrow> u32 outcome \<times> page_manager" where
  "leafDelete p idx pm =
     (if idx < 0 \<or> int (GetCount (pmPages pm p)) \<le> idx then (Err ErrKeyNotFound, pm)
      else let (keys, vals) = CollectKVExcept idx (pmPages pm p)
           in rebuild (phVersion (pmPages pm p) + 1) (zip keys vals) pm)"

definition countTombstonesInRange :: "nat \<Rightarrow> nat \<Rightarrow> page \<Rightarrow> u16" where
  "countTombstonesInRange start end pg =
     foldl (\<lambda>tc i. let e = leaf_entry_at i pg in
       if leValLen e < 1 then tc
       else if GetValue (leValOff e) 1 pg ! 0 = FlagTombstone then tc + 1 else tc) 0 [start..<end]"

definition leafSplit :: "u32 \<Rightarrow> page_manager \<Rightarrow> (u32 \<times> u32 \<times> bytes) outcome \<times> page_manager" where
  "leafSplit p pm =
     (let n = GetCount (pmPages pm p); mid = n div 2;
          splitKey = fst (leaf_kv (pmPages pm p) (leaf_entry_at mid (pmPages pm p)))
      in if n < 2 then (Err ErrLeafSplitMinKeys, pm)
         else case pageAlloc pm of
           (Ok l, pm1) \<Rightarrow> (case pageAlloc pm1 of
               (Ok r, pm2) \<Rightarrow>
                 let ver = phVersion (pmPages pm2 p) + 1
                 in (case BulkInitLeafFromSource p l 0 (int mid) pm2 of
                      (Ok _, pm3) \<Rightarrow>
                        (case BulkInitLeafFromSource p r (int mid) (int n) (with_page l (\<lambda>pg. pg\<lparr>phVersion := ver\<rparr>) pm3) of
                           (Ok _, pm4) \<Rightarrow>
                             let leftTC = countTombstonesInRange 0 mid (pmPages pm4 p);
                                 rightTC = countTombstonesInRange mid n (pmPages pm4 p)
                             in (Ok (l, r, splitKey),
                                 with_page r (\<lambda>pg. pg\<lparr>phVersion := ver, tombstoneCount := rightTC\<rparr>)
                                   (with_page l (\<lambda>pg. pg\<lparr>tombstoneCount := leftTC\<rparr>) pm4))
                         | (Err e, pm4) \<Rightarrow> (Err e, freed r (freed l pm4))
                         | (Panic, pm4) \<Rightarrow> (Panic, pm4))
                    | (Err e, pm3) \<Rightarrow> (Err e, freed r (freed l pm3))
                    | (Panic, pm3) \<Rightarrow> (Panic, pm3))
             | (Err e, pm2) \<Rightarrow> (Err e, freed l pm2)
             | (Panic, pm2) \<Rightarrow> (Panic, pm2))
         | (Err e, pm1) \<Rightarrow> (Err e, pm1)
         | (Panic, pm1) \<Rightarrow> (Panic, pm1))"

definition leafValidate :: "page \<Rightarrow> unit outcome" where
  "leafValidate pg =
     first_err (\<lambda>i. if fst (leaf_kv pg (leaf_entry_at (i - 1) pg)) < fst (leaf_kv pg (leaf_entry_at i pg))
       then None else Some ErrBTreeValidation) [1..<GetCount pg]"

section \<open>Copy on write\<close>

text \<open>
  \<open>cow_step pm own own' pm'\<close>: from \<open>pm\<close>, where the pages \<open>own\<close> are in use, the manager came to \<open>pm'\<close>,
  where \<open>own'\<close> are, and no page that was in use has changed.
\<close>

definition cow_step :: "page_manager \<Rightarrow> u32 set \<Rightarrow> u32 set \<Rightarrow> page_manager \<Rightarrow> bool" where
  "cow_step pm own own' pm' \<longleftrightarrow> pm_ok pm' own' \<and> pmTotal pm' = pmTotal pm \<and>
     (\<forall>x\<in>own. pmPages pm' x = pmPages pm x) \<and> (\<forall>x. length (pageBytes (pmPages pm' x)) = 4096)"

definition store_ok :: "page_manager \<Rightarrow> u32 set \<Rightarrow> bool" where
  "store_ok pm own \<longleftrightarrow> cow_step pm own own pm \<and> unat (nextPageID pm) < 4294967294"

definition no_page_left :: "page_manager \<Rightarrow> u32 set \<Rightarrow> bool" where
  "no_page_left pm own \<longleftrightarrow> own = {p. p < pmTotal pm}"

lemma alloc_pages:
  assumes "pageAlloc pm = (Ok q, pm1)"
  shows "x \<noteq> q \<Longrightarrow> pmPages pm1 x = pmPages pm x" "pageBytes (pmPages pm1 x) = pageBytes (pmPages pm x)"
  using assms
  by (cases "freeList pm"; auto simp: pageAlloc_def Let_def clearPage_def zero_header_def split: if_splits)+

lemma alloc_step:
  assumes "cow_step pm own own' pm1" "unat (nextPageID pm1) < 4294967295" "own \<subseteq> own'"
  shows "case pageAlloc pm1 of
      (Ok q, pm2) \<Rightarrow> q \<notin> own' \<and> cow_step pm own (insert q own') pm2 \<and> unat (nextPageID pm2) \<le> Suc (unat (nextPageID pm1))
    | (Err e, pm2) \<Rightarrow> e = ErrOffHeapOutOfMemory \<and> no_page_left pm own' \<and> cow_step pm own own' pm2
    | (Panic, pm2) \<Rightarrow> False"
proof -
  have ok: "pm_ok pm1 own'" using assms(1) by (simp add: cow_step_def)
  obtain r pm2 where al: "pageAlloc pm1 = (r, pm2)" by (cases "pageAlloc pm1")
  show ?thesis
  proof (cases r)
    case (Ok q)
    note a = pm_ok_alloc [OF ok assms(2) al [unfolded Ok]]
    have "pmPages pm2 x = pmPages pm1 x" if "x \<in> own" for x
    proof -
      have "x \<noteq> q" using a(1) that assms(3) by auto
      then show ?thesis by (rule alloc_pages(1) [OF al [unfolded Ok]])
    qed
    with a assms(1) alloc_pages(2) [OF al [unfolded Ok]] al Ok show ?thesis by (simp add: cow_step_def)
  next
    case (Err e)
    note a = pm_ok_full [OF ok assms(2) al [unfolded Err]]
    have "e = ErrOffHeapOutOfMemory" "pmPages pm2 = pmPages pm1"
      using al Err by (cases "freeList pm1"; auto simp: pageAlloc_def Let_def split: if_splits)+
    with a assms(1) al Err show ?thesis by (simp add: cow_step_def no_page_left_def)
  next
    case Panic
    then obtain q qs where "freeList pm1 = q # qs" "pmTotal pm1 \<le> q"
      using al by (cases "freeList pm1") (auto simp: pageAlloc_def Let_def split: if_splits)
    with ok have False by (auto simp: pm_ok_def)
    then show ?thesis ..
  qed
qed

lemma write_step:
  assumes "cow_step pm own own' pm1" "q \<notin> own" "length (pageBytes (f (pmPages pm1 q))) = 4096"
  shows "cow_step pm own own' (with_page q f pm1)"
  using assms by (auto simp: cow_step_def pm_ok_def)

lemma free_step:
  assumes "cow_step pm own (insert q own') pm1" "q \<notin> own" "q \<notin> own'"
  shows "cow_step pm own own' (freed q pm1)"
proof -
  have ok: "pm_ok pm1 (insert q own')" using assms(1) by (simp add: cow_step_def)
  obtain r pm2 where fr: "pageFree q pm1 = (r, pm2)" by (cases "pageFree q pm1")
  note f = pm_ok_free [OF ok insertI1 fr]
  have "insert q own' - {q} = own'" using assms(3) by simp
  moreover have "\<forall>x\<in>own. pmPages pm2 x = pmPages pm1 x"
    using fr assms(2) by (auto simp: pageFree_def Let_def split: if_splits)
  moreover have "pageBytes (pmPages pm2 x) = pageBytes (pmPages pm1 x)" for x
    using fr by (auto simp: pageFree_def Let_def split: if_splits)
  ultimately show ?thesis using f assms(1,2) fr by (auto simp: cow_step_def freed_def)
qed

lemma store_ok_alloc:
  assumes "store_ok pm own"
  shows "case pageAlloc pm of
      (Ok q, pm1) \<Rightarrow> q \<notin> own \<and> cow_step pm own (insert q own) pm1 \<and> unat (nextPageID pm1) < 4294967295
    | (Err e, pm1) \<Rightarrow> e = ErrOffHeapOutOfMemory \<and> no_page_left pm own \<and> cow_step pm own own pm1
    | (Panic, pm1) \<Rightarrow> False"
proof -
  have "cow_step pm own own pm" "unat (nextPageID pm) < 4294967295" using assms by (simp_all add: store_ok_def)
  from alloc_step [OF this order_refl] assms show ?thesis
    by (auto simp: store_ok_def split: prod.splits outcome.splits)
qed

lemma in_mapping: "store_ok pm own \<Longrightarrow> p \<in> own \<Longrightarrow> p < pmTotal pm"
  by (auto simp: store_ok_def cow_step_def pm_ok_def)

lemma cow_copy:
  assumes "store_ok pm own" "p \<in> own"
  shows "cowCopy p pm = copyPage p pm" "case cowCopy p pm of
      (Ok q, pm1) \<Rightarrow> q \<notin> own \<and> cow_step pm own (insert q own) pm1 \<and>
        pmPages pm1 q = (pmPages pm p)\<lparr>phVersion := phVersion (pmPages pm p) + 1\<rparr> \<and> unat (nextPageID pm1) < 4294967295
    | (Err e, pm1) \<Rightarrow> e = ErrOffHeapOutOfMemory \<and> no_page_left pm own \<and> cow_step pm own own pm1
    | (Panic, pm1) \<Rightarrow> False"
proof -
  obtain r pm1 where al: "pageAlloc pm = (r, pm1)" by (cases "pageAlloc pm")
  have both: "cowCopy p pm = copyPage p pm \<and> (case cowCopy p pm of
      (Ok q, pm1) \<Rightarrow> q \<notin> own \<and> cow_step pm own (insert q own) pm1 \<and>
        pmPages pm1 q = (pmPages pm p)\<lparr>phVersion := phVersion (pmPages pm p) + 1\<rparr> \<and> unat (nextPageID pm1) < 4294967295
    | (Err e, pm1) \<Rightarrow> e = ErrOffHeapOutOfMemory \<and> no_page_left pm own \<and> cow_step pm own own pm1
    | (Panic, pm1) \<Rightarrow> False)"
  proof (cases r)
    case (Ok q)
    have a: "q \<notin> own" "cow_step pm own (insert q own) pm1" "unat (nextPageID pm1) < 4294967295"
      using store_ok_alloc [OF assms(1)] al Ok by simp_all
    have t: "pmTotal pm1 = pmTotal pm" "pmPages pm1 p = pmPages pm p" "length (pageBytes (pmPages pm p)) = 4096"
      using a(2) assms(1,2) by (simp_all add: cow_step_def store_ok_def)
    have src: "PageIDToPtr p pm1 = Ok (pmPages pm p)" using in_mapping [OF assms] t by simp
    have "cow_step pm own (insert q own) (with_page q (\<lambda>_. (pmPages pm p)\<lparr>phVersion := phVersion (pmPages pm p) + 1\<rparr>) pm1)"
      using a t by (intro write_step) simp_all
    with a src al Ok show ?thesis by (simp add: cowCopy_def copyPage_def)
  qed (use store_ok_alloc [OF assms(1)] al in \<open>simp_all add: cowCopy_def copyPage_def\<close>)
  show "cowCopy p pm = copyPage p pm" by (rule conjunct1 [OF both])
  show "case cowCopy p pm of
      (Ok q, pm1) \<Rightarrow> q \<notin> own \<and> cow_step pm own (insert q own) pm1 \<and>
        pmPages pm1 q = (pmPages pm p)\<lparr>phVersion := phVersion (pmPages pm p) + 1\<rparr> \<and> unat (nextPageID pm1) < 4294967295
    | (Err e, pm1) \<Rightarrow> e = ErrOffHeapOutOfMemory \<and> no_page_left pm own \<and> cow_step pm own own pm1
    | (Panic, pm1) \<Rightarrow> False" by (rule conjunct2 [OF both])
qed

end
