(* ===== verification/Leaf_Ops.thy ===== *)
theory Leaf_Ops
  imports Leaf_Page
begin

text \<open>
  The operations on leaf pages refine operations on the sorted list of key-value pairs that the
  page stands for, and leave every page that is in use as it was.
\<close>

definition sorted_leaf :: "page \<Rightarrow> bool" where
  "sorted_leaf pg \<longleftrightarrow> leaf_ok pg \<and> sorted_wrt (<) (map fst (leaf_kvs pg))"

section \<open>Header fields do not matter\<close>

lemma leaf_header [simp]:
  "GetCount (pg\<lparr>phVersion := ver\<rparr>) = GetCount pg" "GetCount (pg\<lparr>tombstoneCount := tc\<rparr>) = GetCount pg"
  "GetDataEnd (pg\<lparr>phVersion := ver\<rparr>) = GetDataEnd pg" "GetDataEnd (pg\<lparr>tombstoneCount := tc\<rparr>) = GetDataEnd pg"
  "leaf_kvs (pg\<lparr>phVersion := ver\<rparr>) = leaf_kvs pg" "leaf_kvs (pg\<lparr>tombstoneCount := tc\<rparr>) = leaf_kvs pg"
  "leaf_ok (pg\<lparr>phVersion := ver\<rparr>) = leaf_ok pg" "leaf_ok (pg\<lparr>tombstoneCount := tc\<rparr>) = leaf_ok pg"
  "leaf_entry_at i (pg\<lparr>phVersion := ver\<rparr>) = leaf_entry_at i pg"
proof -
  have c [simp]: "GetCount (pg\<lparr>phVersion := ver\<rparr>) = GetCount pg" "GetCount (pg\<lparr>tombstoneCount := tc\<rparr>) = GetCount pg"
    by (simp_all add: GetCount_def)
  have e [simp]: "leaf_entry_at i (pg\<lparr>phVersion := ver\<rparr>) = leaf_entry_at i pg"
    "leaf_entry_at i (pg\<lparr>tombstoneCount := tc\<rparr>) = leaf_entry_at i pg"
    "index_entry_at i (pg\<lparr>phVersion := ver\<rparr>) = index_entry_at i pg"
    "index_entry_at i (pg\<lparr>tombstoneCount := tc\<rparr>) = index_entry_at i pg" for i
    by (simp_all add: leaf_entry_at_def index_entry_at_def)
  have l [simp]: "IsLeaf (pg\<lparr>phVersion := ver\<rparr>) = IsLeaf pg" "IsLeaf (pg\<lparr>tombstoneCount := tc\<rparr>) = IsLeaf pg"
    by (simp_all add: IsLeaf_def)
  have d [simp]: "GetDataEnd (pg\<lparr>phVersion := ver\<rparr>) = GetDataEnd pg" "GetDataEnd (pg\<lparr>tombstoneCount := tc\<rparr>) = GetDataEnd pg"
    by (cases "IsLeaf pg"; simp add: GetDataEnd_def)+
  show "GetCount (pg\<lparr>phVersion := ver\<rparr>) = GetCount pg" "GetCount (pg\<lparr>tombstoneCount := tc\<rparr>) = GetCount pg"
    "GetDataEnd (pg\<lparr>phVersion := ver\<rparr>) = GetDataEnd pg" "GetDataEnd (pg\<lparr>tombstoneCount := tc\<rparr>) = GetDataEnd pg"
    "leaf_kvs (pg\<lparr>phVersion := ver\<rparr>) = leaf_kvs pg" "leaf_kvs (pg\<lparr>tombstoneCount := tc\<rparr>) = leaf_kvs pg"
    "leaf_ok (pg\<lparr>phVersion := ver\<rparr>) = leaf_ok pg" "leaf_ok (pg\<lparr>tombstoneCount := tc\<rparr>) = leaf_ok pg"
    "leaf_entry_at i (pg\<lparr>phVersion := ver\<rparr>) = leaf_entry_at i pg"
    by (simp_all add: leaf_ok_def leaf_kvs_def leaf_entries_def leaf_kv_def GetKey_def GetValue_def)
qed

lemma sorted_leaf_header [simp]:
  "sorted_leaf (pg\<lparr>phVersion := ver\<rparr>) = sorted_leaf pg" "sorted_leaf (pg\<lparr>tombstoneCount := tc\<rparr>) = sorted_leaf pg"
  by (simp_all add: sorted_leaf_def)

lemma leafSearch_linear: "sorted_leaf pg \<Longrightarrow> leafSearch key pg = linear_search key (map fst (leaf_kvs pg))"
  by (simp add: leafSearch_def sorted_leaf_def leaf_page.search_linear)

lemma map_of_insert_at: "fst kv \<notin> fst ` set xs \<Longrightarrow> map_of (insert_at i kv xs) = (map_of xs)(fst kv \<mapsto> snd kv)"
proof -
  assume new: "fst kv \<notin> fst ` set xs"
  have "map_of xs = map_of (drop i xs) ++ map_of (take i xs)"
    by (metis append_take_drop_id map_of_append)
  moreover have "fst kv \<notin> dom (map_of (take i xs))"
    using new by (auto simp: dom_map_of_conv_image_fst dest: in_set_takeD)
  ultimately show ?thesis by (cases kv) (simp add: insert_at_def map_add_upd_left)
qed

lemma same_headerD:
  assumes "same_header a b"
  shows "phVersion b = phVersion a" "tombstoneCount b = tombstoneCount a" "extraChild b = extraChild a" "pageType b = pageType a"
  using assms by (cases a; cases b; simp add: same_header_def)+

section \<open>Insert\<close>

lemma leafInsert_result:
  assumes "store_ok pm own" "p \<in> own" "sorted_leaf (pmPages pm p)" "length key + length val < 2147483648"
  shows "case leafInsert p key val pm of
      (Ok q, pm') \<Rightarrow> key \<notin> fst ` set (leaf_kvs (pmPages pm p)) \<and> q \<notin> own \<and> cow_step pm own (insert q own) pm' \<and>
        sorted_leaf (pmPages pm' q) \<and>
        map_of (leaf_kvs (pmPages pm' q)) = (map_of (leaf_kvs (pmPages pm p)))(key \<mapsto> val) \<and>
        phVersion (pmPages pm' q) = phVersion (pmPages pm p) + 1
    | (Err e, pm') \<Rightarrow> cow_step pm own own pm' \<and>
        (e = ErrDuplicateKey \<and> key \<in> fst ` set (leaf_kvs (pmPages pm p)) \<or>
         e = ErrOffHeapPageFull \<and> \<not> entry_room (pmPages pm p) (length key + length val) \<or>
         e = ErrOffHeapOutOfMemory \<and> no_page_left pm own)
    | (Panic, pm') \<Rightarrow> False"
proof -
  let ?pg = "(pmPages pm p)\<lparr>phVersion := phVersion (pmPages pm p) + 1\<rparr>"
  obtain r pm1 where cow: "cowCopy p pm = (r, pm1)" by (cases "cowCopy p pm")
  show ?thesis
  proof (cases r)
    case (Ok q)
    have a: "q \<notin> own" "cow_step pm own (insert q own) pm1" "pmPages pm1 q = ?pg"
      using cow_copy(2) [OF assms(1,2)] cow Ok by simp_all
    have sorted: "sorted_leaf ?pg" using assms(3) by simp
    obtain i found where s: "leafSearch key ?pg = (i, found)" by (cases "leafSearch key ?pg")
    then have ls: "linear_search key (map fst (leaf_kvs (pmPages pm p))) = (i, found)"
      using leafSearch_linear [OF sorted, of key] by simp
    then have found: "found \<longleftrightarrow> key \<in> fst ` set (leaf_kvs (pmPages pm p))" by (auto simp: linear_search_def)
    have free: "cow_step pm own own (freed q pm1)" by (rule free_step [OF a(2,1,1)])
    show ?thesis
    proof (cases found)
      case True
      with cow Ok a(3) s found free show ?thesis by (simp add: leafInsert_def)
    next
      case False
      show ?thesis
      proof (cases "entry_room ?pg (kv_weight (key, val))")
        case True
        have "SearchKey (fst (key, val)) True ?pg = Ok (i, False)"
          using leaf_page.search_linear [of ?pg key] sorted ls False by (simp add: sorted_leaf_def)
        from leaf_page.insert_searched [OF _ TrueI _ this True] sorted obtain pg' where
          pg': "put_kv i (key, val) (GetDataEnd ?pg) ?pg = (Ok (), GetDataEnd pg', pg')" "leaf_ok pg'"
            "sorted_wrt (<) (map fst (leaf_kvs pg'))" "leaf_kvs pg' = insert_at i (key, val) (leaf_kvs ?pg)" "same_header ?pg pg'"
          by (auto simp: sorted_leaf_def)
        have "cow_step pm own (insert q own) (with_page q (\<lambda>_. pg') pm1)"
          using a pg'(2) by (intro write_step) (simp_all add: leaf_ok_def)
        moreover have "phVersion pg' = phVersion (pmPages pm p) + 1"
          using same_headerD(1) [OF pg'(5)] by simp
        ultimately show ?thesis
          using cow Ok a s False found pg' map_of_insert_at [of "(key, val)" "leaf_kvs (pmPages pm p)" i]
          by (simp add: leafInsert_def put_kv_def sorted_leaf_def)
      next
        case no: False
        have "put_kv i (key, val) (GetDataEnd ?pg) ?pg = (Err ErrOffHeapPageFull, GetDataEnd ?pg, ?pg)"
          using no assms(4) by (intro leaf_page.put_full) (simp_all add: kv_weight_def)
        moreover have "\<not> entry_room (pmPages pm p) (length key + length val)"
          using no by (simp add: entry_room_def kv_weight_def)
        moreover have "with_page q (\<lambda>_. ?pg) pm1 = pm1" using a(3) with_page_same [of q pm1] by simp
        ultimately show ?thesis using cow Ok a(3) s False free by (simp add: leafInsert_def put_kv_def)
      qed
    qed
  qed (use cow_copy(2) [OF assms(1,2)] cow in \<open>simp_all add: leafInsert_def\<close>)
qed

text \<open>Inserting into a sorted leaf page returns a new page that nobody held, sorted again, standing for
  the old map with the key set to the value, and one version higher. It fails only with a duplicate
  key that the page has, with a page-full error when the entry array and the data would meet, or
  when no page is left. Every page in use keeps its contents and a failure leaves nothing allocated.\<close>

theorem leaf_insert_refines:
  assumes "store_ok pm own" "p \<in> own" "sorted_leaf (pmPages pm p)" "length key + length val < 2147483648"
  shows "case leafInsert p key val pm of
      (Ok q, pm') \<Rightarrow> key \<notin> fst ` set (leaf_kvs (pmPages pm p)) \<and> q \<notin> own \<and> cow_step pm own (insert q own) pm' \<and>
        sorted_leaf (pmPages pm' q) \<and>
        map_of (leaf_kvs (pmPages pm' q)) = (map_of (leaf_kvs (pmPages pm p)))(key \<mapsto> val) \<and>
        phVersion (pmPages pm' q) = phVersion (pmPages pm p) + 1
    | (Err e, pm') \<Rightarrow> cow_step pm own own pm' \<and>
        (e = ErrDuplicateKey \<and> key \<in> fst ` set (leaf_kvs (pmPages pm p)) \<or>
         e = ErrOffHeapPageFull \<and> \<not> entry_room (pmPages pm p) (length key + length val) \<or>
         e = ErrOffHeapOutOfMemory \<and> no_page_left pm own)
    | (Panic, pm') \<Rightarrow> False"
  using assms by (rule leafInsert_result)

section \<open>Rebuilding a page\<close>

definition kvs_fit :: "(bytes \<times> bytes) list \<Rightarrow> bool" where
  "kvs_fit kvs \<longleftrightarrow> 56 + length kvs * 16 + (\<Sum>kv\<leftarrow>kvs. kv_weight kv) \<le> 4096"

lemma kvs_fit_leaf: "leaf_ok pg \<Longrightarrow> kvs_fit (leaf_kvs pg)"
  using leaf_weights [of pg] by (simp add: kvs_fit_def leaf_ok_def)

lemma rebuild_result:
  assumes "store_ok pm own" "\<forall>kv\<in>set kvs. kv_weight kv < 2147483648"
  shows "case rebuild ver kvs pm of
      (Ok q, pm') \<Rightarrow> q \<notin> own \<and> cow_step pm own (insert q own) pm' \<and> leaf_ok (pmPages pm' q) \<and>
        leaf_kvs (pmPages pm' q) = kvs \<and> phVersion (pmPages pm' q) = ver
    | (Err e, pm') \<Rightarrow> cow_step pm own own pm' \<and>
        (e = ErrOffHeapPageFull \<and> \<not> kvs_fit kvs \<or> e = ErrOffHeapOutOfMemory \<and> no_page_left pm own)
    | (Panic, pm') \<Rightarrow> False"
proof -
  obtain r pm1 where al: "pageAlloc pm = (r, pm1)" by (cases "pageAlloc pm")
  show ?thesis
  proof (cases r)
    case (Ok q)
    have a: "q \<notin> own" "cow_step pm own (insert q own) pm1" using store_ok_alloc [OF assms(1)] al Ok by simp_all
    let ?pg = "InitLeafPage ver (pmPages pm1 q)"
    have "length (pageBytes (pmPages pm1 q)) = 4096" using a(2) by (simp add: cow_step_def)
    note init = leaf_init [OF this, of ver]
    have n: "GetCount ?pg = 0" using leaf_lengths(2) [of ?pg] init(2) by simp
    show ?thesis
    proof (cases "kvs_fit kvs")
      case True
      have "\<exists>pg'. put_list put_kv 0 kvs (GetDataEnd ?pg) ?pg = (Ok (), GetDataEnd pg', pg') \<and> leaf_ok pg' \<and>
          leaf_kvs pg' = leaf_kvs ?pg @ kvs \<and> same_header ?pg pg'"
        using True n by (intro leaf_page.put_list_fits [OF init(1)]) (simp_all add: init kvs_fit_def)
      then obtain pg' where pg': "put_list put_kv 0 kvs 0 ?pg = (Ok (), GetDataEnd pg', pg')" "leaf_ok pg'" "leaf_kvs pg' = kvs"
          "same_header ?pg pg'" by (auto simp: init)
      have "cow_step pm own (insert q own) (with_page q (\<lambda>_. pg') pm1)"
        using a pg'(2) by (intro write_step) (simp_all add: leaf_ok_def)
      moreover have "phVersion pg' = ver"
        using same_headerD(1) [OF pg'(4)] by (simp add: InitLeafPage_def InitPage_def)
      ultimately show ?thesis using al Ok a pg' by (simp add: rebuild_def)
    next
      case False
      have "\<exists>de' pg'. put_list put_kv 0 kvs (GetDataEnd ?pg) ?pg = (Err ErrOffHeapPageFull, de', pg') \<and> leaf_ok pg'"
        using False assms(2) n by (intro leaf_page.put_list_full [OF init(1)]) (simp_all add: init kvs_fit_def)
      then obtain de' pg' where pg': "put_list put_kv 0 kvs 0 ?pg = (Err ErrOffHeapPageFull, de', pg')" "leaf_ok pg'"
        by (auto simp: init)
      have "cow_step pm own (insert q own) (with_page q (\<lambda>_. pg') pm1)"
        using a pg'(2) by (intro write_step) (simp_all add: leaf_ok_def)
      from free_step [OF this a(1,1)] False al Ok pg' show ?thesis by (simp add: rebuild_def)
    qed
  qed (use store_ok_alloc [OF assms(1)] al in \<open>simp_all add: rebuild_def\<close>)
qed

section \<open>Delete\<close>

definition remove_at :: "nat \<Rightarrow> 'a list \<Rightarrow> 'a list" where
  "remove_at i xs = take i xs @ drop (Suc i) xs"

lemma CollectKVExcept_zip:
  assumes "i < GetCount pg"
  shows "CollectKVExcept (int i) pg = (map fst (remove_at i (leaf_kvs pg)), map snd (remove_at i (leaf_kvs pg)))"
proof -
  have "[0..<GetCount pg] = [0..<i] @ i # [Suc i..<GetCount pg]"
    using assms by (metis less_imp_add_positive upt_add_eq_append upt_conv_Cons zero_le le_add1 nless_le)
  then have f: "filter (\<lambda>j. int j \<noteq> int i) [0..<GetCount pg] = [0..<i] @ [Suc i..<GetCount pg]"
    by (simp add: filter_id_conv)
  have "remove_at i (leaf_kvs pg) = map (\<lambda>j. leaf_kv pg (leaf_entry_at j pg)) ([0..<i] @ [Suc i..<GetCount pg])"
    using assms by (simp add: remove_at_def leaf_kvs_def leaf_entries_def take_map drop_map)
  then show ?thesis unfolding CollectKVExcept_def Let_def f by (simp add: leaf_kv_def)
qed

lemma insert_remove_at: "i < length xs \<Longrightarrow> insert_at i (xs ! i) (remove_at i xs) = xs"
  by (simp add: insert_at_def remove_at_def min_def id_take_nth_drop [symmetric])

lemma set_remove_at: "set (remove_at i xs) \<subseteq> set xs"
  by (auto simp: remove_at_def dest: in_set_takeD in_set_dropD)

lemma sorted_remove_at: "sorted_wrt P xs \<Longrightarrow> sorted_wrt P (remove_at i xs)"
proof -
  assume "sorted_wrt P xs"
  then have "sorted_wrt P (take i xs @ drop i xs)" by simp
  moreover have "set (drop (Suc i) xs) \<subseteq> set (drop i xs)" by (simp add: set_drop_subset_set_drop)
  ultimately show ?thesis unfolding remove_at_def sorted_wrt_append
    by (metis drop_Suc drop_tl sorted_wrt_drop drop_drop plus_1_eq_Suc subsetD)
qed

lemma distinct_keys: "sorted_leaf pg \<Longrightarrow> distinct (map fst (leaf_kvs pg))"
  by (metis sorted_leaf_def strict_sorted_iff)

lemma map_of_remove_at:
  assumes "distinct (map fst xs)" "i < length xs"
  shows "map_of (remove_at i xs) = (map_of xs)(fst (xs ! i) := None)"
proof -
  let ?ys = "remove_at i xs"
  have xs: "insert_at i (xs ! i) ?ys = xs" by (rule insert_remove_at [OF assms(2)])
  have "distinct (map fst (insert_at i (xs ! i) ?ys))" using assms(1) by (simp only: xs)
  then have new: "fst (xs ! i) \<notin> fst ` set ?ys"
    using assms(2) by (auto simp: insert_at_def remove_at_def min_def)
  have "map_of xs = (map_of ?ys)(fst (xs ! i) \<mapsto> snd (xs ! i))"
    using map_of_insert_at [OF new, of i] by (simp only: xs)
  with new show ?thesis by (auto simp: fun_eq_iff map_of_eq_None_iff)
qed

lemma kvs_weights_small: "leaf_ok pg \<Longrightarrow> kv \<in> set (leaf_kvs pg) \<Longrightarrow> kv_weight kv \<le> 4096"
proof -
  assume "leaf_ok pg" "kv \<in> set (leaf_kvs pg)"
  then have "kv_weight kv \<le> (\<Sum>kv\<leftarrow>leaf_kvs pg. kv_weight kv)" "kvs_fit (leaf_kvs pg)"
    by (auto intro: member_le_sum_list kvs_fit_leaf)
  then show ?thesis by (simp add: kvs_fit_def)
qed

lemma leafDelete_result:
  assumes "store_ok pm own" "p \<in> own" "sorted_leaf (pmPages pm p)" "i < GetCount (pmPages pm p)"
  shows "case leafDelete p (int i) pm of
      (Ok q, pm') \<Rightarrow> q \<notin> own \<and> cow_step pm own (insert q own) pm' \<and> sorted_leaf (pmPages pm' q) \<and>
        leaf_kvs (pmPages pm' q) = remove_at i (leaf_kvs (pmPages pm p)) \<and>
        map_of (leaf_kvs (pmPages pm' q)) = (map_of (leaf_kvs (pmPages pm p)))(fst (leaf_kvs (pmPages pm p) ! i) := None) \<and>
        phVersion (pmPages pm' q) = phVersion (pmPages pm p) + 1
    | (Err e, pm') \<Rightarrow> cow_step pm own own pm' \<and> e = ErrOffHeapOutOfMemory \<and> no_page_left pm own
    | (Panic, pm') \<Rightarrow> False"
proof -
  let ?kvs = "leaf_kvs (pmPages pm p)"
  have ok: "leaf_ok (pmPages pm p)" and srt: "sorted_wrt (<) (map fst ?kvs)" using assms(3) by (simp_all add: sorted_leaf_def)
  have del: "leafDelete p (int i) pm = rebuild (phVersion (pmPages pm p) + 1) (remove_at i ?kvs) pm"
    using assms(4) by (simp add: leafDelete_def CollectKVExcept_zip Let_def zip_map_fst_snd)
  have small: "\<forall>kv\<in>set (remove_at i ?kvs). kv_weight kv < 2147483648"
    using set_remove_at [of i ?kvs] kvs_weights_small [OF ok] by fastforce
  have "(\<Sum>kv\<leftarrow>insert_at i (?kvs ! i) (remove_at i ?kvs). kv_weight kv) = (\<Sum>kv\<leftarrow>?kvs. kv_weight kv)"
    using assms(4) by (simp only: insert_remove_at leaf_lengths)
  then have fit: "kvs_fit (remove_at i ?kvs)"
    using kvs_fit_leaf [OF ok] assms(4) by (simp add: kvs_fit_def remove_at_def)
  have sorted: "sorted_wrt (<) (map fst (remove_at i ?kvs))"
    using sorted_remove_at [OF srt, of i] by (simp add: remove_at_def take_map drop_map)
  have m: "map_of (remove_at i ?kvs) = (map_of ?kvs)(fst (?kvs ! i) := None)"
    using distinct_keys [OF assms(3)] assms(4) by (intro map_of_remove_at) simp_all
  from rebuild_result [OF assms(1) small, of "phVersion (pmPages pm p) + 1"] fit sorted m show ?thesis
    unfolding del by (auto simp: sorted_leaf_def split: prod.splits outcome.splits)
qed

text \<open>Deleting an entry of a sorted leaf page returns a new sorted leaf page without that entry, one
  version higher. The rebuilt page always has room, so it fails only when no page is left; no page in
  use changes.\<close>

theorem leaf_delete_refines:
  assumes "store_ok pm own" "p \<in> own" "sorted_leaf (pmPages pm p)" "i < GetCount (pmPages pm p)"
  shows "case leafDelete p (int i) pm of
      (Ok q, pm') \<Rightarrow> q \<notin> own \<and> cow_step pm own (insert q own) pm' \<and> sorted_leaf (pmPages pm' q) \<and>
        leaf_kvs (pmPages pm' q) = remove_at i (leaf_kvs (pmPages pm p)) \<and>
        map_of (leaf_kvs (pmPages pm' q)) = (map_of (leaf_kvs (pmPages pm p)))(fst (leaf_kvs (pmPages pm p) ! i) := None) \<and>
        phVersion (pmPages pm' q) = phVersion (pmPages pm p) + 1
    | (Err e, pm') \<Rightarrow> cow_step pm own own pm' \<and> e = ErrOffHeapOutOfMemory \<and> no_page_left pm own
    | (Panic, pm') \<Rightarrow> False"
  using assms by (rule leafDelete_result)

section \<open>Update\<close>

lemma insert_at_remove_at: "i < length xs \<Longrightarrow> insert_at i x (remove_at i xs) = xs[i := x]"
  by (simp add: insert_at_def remove_at_def upd_conv_take_nth_drop min_def)

lemma insert_position:
  fixes ks :: "bytes list"
  assumes "sorted_wrt (<) ks" "i < length ks"
  shows "length (takeWhile (\<lambda>k. k < ks ! i) (remove_at i ks)) = i"
proof -
  have less: "ks ! a < ks ! b" if "a < b" "b < length ks" for a b
    using assms(1) that by (simp add: sorted_wrt_iff_nth_less)
  have "remove_at i ks ! j = ks ! j" if "j < i" for j
    using that assms(2) by (simp add: remove_at_def nth_append)
  moreover have "remove_at i ks ! i = ks ! Suc i" if "i < length (remove_at i ks)"
    using that assms(2) by (simp add: remove_at_def nth_append)
  ultimately have "fst (linear_search (ks ! i) (remove_at i ks)) = i"
    using less assms(2) by (intro linear_search_at) (auto simp: remove_at_def dest: order.asym)
  then show ?thesis by (simp add: linear_search_def)
qed

lemma sorted_list_update_key:
  "i < length xs \<Longrightarrow> map fst (xs[i := (fst (xs ! i), v)]) = map fst xs"
  by (simp add: map_update) (metis list_update_id nth_map)

lemma leafUpdateSlow_result:
  assumes "store_ok pm own" "p \<in> own" "sorted_leaf (pmPages pm p)" "i < GetCount (pmPages pm p)"
    "length (fst (leaf_kvs (pmPages pm p) ! i)) + length val < 2147483648"
    "is_tombstone (snd (leaf_kvs (pmPages pm p) ! i)) \<noteq> Panic" "is_tombstone val \<noteq> Panic"
  defines "kvs' \<equiv> (leaf_kvs (pmPages pm p))[i := (fst (leaf_kvs (pmPages pm p) ! i), val)]"
  shows "case leafUpdateSlow p i val ver pm of
      (Ok q, pm') \<Rightarrow> q \<notin> own \<and> cow_step pm own (insert q own) pm' \<and> sorted_leaf (pmPages pm' q) \<and>
        leaf_kvs (pmPages pm' q) = kvs' \<and> phVersion (pmPages pm' q) = ver + 1
    | (Err e, pm') \<Rightarrow> cow_step pm own own pm' \<and>
        (e = ErrOffHeapPageFull \<and> \<not> kvs_fit kvs' \<or> e = ErrOffHeapOutOfMemory \<and> no_page_left pm own)
    | (Panic, pm') \<Rightarrow> False"
proof -
  let ?pg = "pmPages pm p" and ?kvs = "leaf_kvs (pmPages pm p)"
  have ok: "leaf_ok ?pg" and srt: "sorted_wrt (<) (map fst ?kvs)" using assms(3) by (simp_all add: sorted_leaf_def)
  have kv: "leaf_kv ?pg (leaf_entry_at i ?pg) = ?kvs ! i" using assms(4) by (simp add: leaf_kvs_nth)
  have rm: "map fst (remove_at i ?kvs) = remove_at i (map fst ?kvs)" by (simp add: remove_at_def take_map drop_map)
  have pos: "length (takeWhile (\<lambda>k. k < fst (?kvs ! i)) (map fst (remove_at i ?kvs))) = i"
    unfolding rm using insert_position [OF srt, of i] assms(4) by simp
  have kvs': "insert_at i (fst (?kvs ! i), val) (remove_at i ?kvs) = kvs'"
    using assms(4) by (simp add: kvs'_def insert_at_remove_at)
  have sorted: "sorted_wrt (<) (map fst kvs')"
    using srt assms(4) by (simp only: kvs'_def sorted_list_update_key leaf_lengths)
  have "set kvs' \<subseteq> insert (fst (?kvs ! i), val) (set ?kvs)" unfolding kvs'_def by (rule set_update_subset_insert)
  then have small: "\<forall>kv\<in>set kvs'. kv_weight kv < 2147483648"
    using kvs_weights_small [OF ok] assms(5) by (fastforce simp: kv_weight_def)
  obtain old new where t: "is_tombstone (snd (?kvs ! i)) = Ok old" "is_tombstone val = Ok new"
    using assms(6,7) by (auto simp: is_tombstone_def split: outcome.splits)
  obtain r pm1 where rb: "rebuild (ver + 1) kvs' pm = (r, pm1)" by (cases "rebuild (ver + 1) kvs' pm")
  note res = rebuild_result [OF assms(1) small, of "ver + 1", unfolded rb]
  have slow: "leafUpdateSlow p i val ver pm = (case (r, pm1) of
      (Ok q, pm1) \<Rightarrow> (case (is_tombstone (snd (leaf_kv (pmPages pm1 p) (leaf_entry_at i (pmPages pm1 p)))), is_tombstone val) of
            (Ok old, Ok new) \<Rightarrow>
              let tc = tombstoneCount (pmPages pm1 p); tc1 = (if old then tc - 1 else tc); tc2 = (if new then tc1 + 1 else tc1)
              in (Ok q, with_page q (\<lambda>pg. pg\<lparr>tombstoneCount := tc2\<rparr>) pm1)
          | _ \<Rightarrow> (Panic, pm1))
    | (r, pm1) \<Rightarrow> (r, pm1))"
    using assms(4) by (simp add: leafUpdateSlow_def kv CollectKVExcept_zip Let_def zip_map_fst_snd pos kvs' rb)
  show ?thesis
  proof (cases r)
    case (Ok q)
    have a: "q \<notin> own" "cow_step pm own (insert q own) pm1" "leaf_ok (pmPages pm1 q)" "leaf_kvs (pmPages pm1 q) = kvs'"
      "phVersion (pmPages pm1 q) = ver + 1" using res Ok by simp_all
    have same: "pmPages pm1 p = ?pg" using a(2) assms(2) by (simp add: cow_step_def)
    have w: "cow_step pm own (insert q own) (with_page q (\<lambda>pg. pg\<lparr>tombstoneCount := tc\<rparr>) pm1)" for tc
      using a by (intro write_step) (simp_all add: leaf_ok_def)
    show ?thesis unfolding slow using Ok a t kv same w sorted by (simp add: Let_def sorted_leaf_def)
  qed (use res slow in simp_all)
qed

lemma leafUpdate_result:
  assumes "store_ok pm own" "p \<in> own" "sorted_leaf (pmPages pm p)" "i < GetCount (pmPages pm p)"
    "length (fst (leaf_kvs (pmPages pm p) ! i)) + length val < 2147483648"
    "is_tombstone (snd (leaf_kvs (pmPages pm p) ! i)) \<noteq> Panic" "is_tombstone val \<noteq> Panic"
  shows "case leafUpdate p (int i) val pm of
      (Ok q, pm') \<Rightarrow> q \<notin> own \<and> cow_step pm own (insert q own) pm' \<and> sorted_leaf (pmPages pm' q) \<and>
        leaf_kvs (pmPages pm' q) = (leaf_kvs (pmPages pm p))[i := (fst (leaf_kvs (pmPages pm p) ! i), val)] \<and>
        phVersion (pmPages pm' q) = phVersion (pmPages pm p) + 1
    | (Err e, pm') \<Rightarrow> cow_step pm own own pm' \<and>
        (e = ErrOffHeapPageFull \<and> \<not> kvs_fit ((leaf_kvs (pmPages pm p))[i := (fst (leaf_kvs (pmPages pm p) ! i), val)]) \<or>
         e = ErrOffHeapOutOfMemory \<and> no_page_left pm own)
    | (Panic, pm') \<Rightarrow> False"
proof (cases "length val \<le> unat (leValLen (leaf_entry_at i (pmPages pm p)))")
  case False
  then have "leafUpdate p (int i) val pm = leafUpdateSlow p i val (phVersion (pmPages pm p)) pm"
    using assms(4) by (simp add: leafUpdate_def Let_def)
  with leafUpdateSlow_result [OF assms] show ?thesis by simp
next
  case True
  let ?pg = "pmPages pm p"
  let ?cp = "?pg\<lparr>phVersion := phVersion ?pg + 1\<rparr>"
  have ok: "leaf_ok ?pg" and srt: "sorted_wrt (<) (map fst (leaf_kvs ?pg))" using assms(3) by (simp_all add: sorted_leaf_def)
  have "leaf_entry_at i ?pg \<in> set (leaf_entries ?pg)" using assms(4) by (simp add: leaf_entries_def)
  with leaf_kv_lengths(2) [OF ok this] have can: "can_overwrite i val ?cp"
    using True ok assms(4) by (simp add: can_overwrite_def leaf_kvs_nth)
  let ?new = "leaf_overwritten i val ?cp"
  have kvs: "leaf_kvs ?new = (leaf_kvs ?pg)[i := (fst (leaf_kvs ?pg ! i), val)]" using overwritten_kvs [OF can] by simp
  have sorted: "sorted_wrt (<) (map fst (leaf_kvs ?new))"
    using srt assms(4) by (simp only: kvs sorted_list_update_key leaf_lengths)
  obtain r pm1 where cow: "copyPage p pm = (r, pm1)" by (cases "copyPage p pm")
  note c = cow_copy [OF assms(1,2), unfolded cow_copy(1) [OF assms(1,2)] cow]
  have fast: "leafUpdate p (int i) val pm = (case (r, pm1) of
      (Ok q, pm1) \<Rightarrow> (case OverwriteLeafValue (int i) val (pmPages pm1 q) of
           (True, pg) \<Rightarrow> (Ok q, with_page q (\<lambda>_. pg) pm1)
         | (False, pg) \<Rightarrow> leafUpdateSlow p (nat (int i)) val (phVersion ?pg) (freed q pm1))
    | (r, pm1) \<Rightarrow> (r, pm1))"
    using True assms(4) by (simp add: leafUpdate_def Let_def cow)
  show ?thesis
  proof (cases r)
    case (Ok q)
    have a: "q \<notin> own" "cow_step pm own (insert q own) pm1" "pmPages pm1 q = ?cp" using c Ok by simp_all
    have "cow_step pm own (insert q own) (with_page q (\<lambda>_. ?new) pm1)"
      using a overwritten_data(3) [OF can order_refl] by (intro write_step) simp_all
    moreover have "phVersion ?new = phVersion ?pg + 1" by (simp add: leaf_overwritten_def)
    ultimately show ?thesis
      unfolding fast using Ok a OverwriteLeafValue_can [OF can] overwritten_ok [OF can] kvs sorted
      by (simp add: sorted_leaf_def)
  qed (use c fast in simp_all)
qed

text \<open>Updating an entry of a sorted leaf page returns a new sorted leaf page with the value of that
  entry replaced, every other entry kept and the version raised by one, on the fast path that
  overwrites a copy and on the slow path that rebuilds the page. It fails only when the rebuilt
  entries exceed a page or no page is left; no page in use changes.\<close>

theorem leaf_update_refines:
  assumes "store_ok pm own" "p \<in> own" "sorted_leaf (pmPages pm p)" "i < GetCount (pmPages pm p)"
    "length (fst (leaf_kvs (pmPages pm p) ! i)) + length val < 2147483648"
    "is_tombstone (snd (leaf_kvs (pmPages pm p) ! i)) \<noteq> Panic" "is_tombstone val \<noteq> Panic"
  shows "case leafUpdate p (int i) val pm of
      (Ok q, pm') \<Rightarrow> q \<notin> own \<and> cow_step pm own (insert q own) pm' \<and> sorted_leaf (pmPages pm' q) \<and>
        leaf_kvs (pmPages pm' q) = (leaf_kvs (pmPages pm p))[i := (fst (leaf_kvs (pmPages pm p) ! i), val)] \<and>
        phVersion (pmPages pm' q) = phVersion (pmPages pm p) + 1
    | (Err e, pm') \<Rightarrow> cow_step pm own own pm' \<and>
        (e = ErrOffHeapPageFull \<and> \<not> kvs_fit ((leaf_kvs (pmPages pm p))[i := (fst (leaf_kvs (pmPages pm p) ! i), val)]) \<or>
         e = ErrOffHeapOutOfMemory \<and> no_page_left pm own)
    | (Panic, pm') \<Rightarrow> False"
  using assms by (rule leafUpdate_result)

section \<open>Split\<close>

lemma leafSplit_ok:
  assumes "sorted_leaf (pmPages pm p)" "2 \<le> GetCount (pmPages pm p)" "p \<in> own"
    "pageAlloc pm = (Ok l, pm1)" "l \<notin> own" "pageAlloc pm1 = (Ok r, pm2)" "r \<notin> insert l own"
    "cow_step pm own (insert r (insert l own)) pm2"
  shows "\<exists>k pm'. leafSplit p pm = (Ok (l, r, k), pm') \<and> cow_step pm own (insert r (insert l own)) pm' \<and>
    sorted_leaf (pmPages pm' l) \<and> sorted_leaf (pmPages pm' r) \<and>
    leaf_kvs (pmPages pm' l) = take (GetCount (pmPages pm p) div 2) (leaf_kvs (pmPages pm p)) \<and>
    leaf_kvs (pmPages pm' r) = drop (GetCount (pmPages pm p) div 2) (leaf_kvs (pmPages pm p)) \<and>
    k = fst (leaf_kvs (pmPages pm p) ! (GetCount (pmPages pm p) div 2)) \<and>
    phVersion (pmPages pm' l) = phVersion (pmPages pm p) + 1 \<and> phVersion (pmPages pm' r) = phVersion (pmPages pm p) + 1"
proof -
  let ?pg = "pmPages pm p" and ?kvs = "leaf_kvs (pmPages pm p)"
  let ?n = "GetCount ?pg" and ?mid = "GetCount ?pg div 2" and ?ver = "phVersion ?pg + 1"
  have ok: "leaf_ok ?pg" and srt: "sorted_wrt (<) (map fst ?kvs)" using assms(1) by (simp_all add: sorted_leaf_def)
  have p: "p \<noteq> l" "p \<noteq> r" "l \<noteq> r" "pmPages pm2 p = ?pg" using assms(3,5,7,8) by (auto simp: cow_step_def)
  have bytes: "length (pageBytes (pmPages pm2 x)) = 4096" for x using assms(8) by (simp add: cow_step_def)
  have mid: "0 < int ?mid" "int ?mid \<le> int ?n" "int ?mid < int ?n" using assms(2) by simp_all
  obtain pgl where L: "BulkInitLeafFromSource p l 0 (int ?mid) pm2 = (Ok (GetDataEnd pgl), with_page l (\<lambda>_. pgl) pm2)" "leaf_ok pgl"
    "leaf_kvs pgl = take ?mid ?kvs"
    using BulkInitLeaf_copies [of pm2 p l 0 "int ?mid"] ok p bytes mid by auto
  let ?pm3 = "with_page l (\<lambda>pg. pg\<lparr>phVersion := ?ver\<rparr>) (with_page l (\<lambda>_. pgl) pm2)"
  have p3: "pmPages ?pm3 p = ?pg" "pmPages ?pm3 r = pmPages pm2 r" using p by auto
  obtain pgr where R: "BulkInitLeafFromSource p r (int ?mid) (int ?n) ?pm3 = (Ok (GetDataEnd pgr), with_page r (\<lambda>_. pgr) ?pm3)" "leaf_ok pgr"
    "leaf_kvs pgr = drop ?mid ?kvs"
    using BulkInitLeaf_copies [of ?pm3 p r "int ?mid" "int ?n"] ok p p3 bytes mid by (auto simp: nat_diff_distrib)
  let ?pm4 = "with_page r (\<lambda>_. pgr) ?pm3"
  let ?pm5 = "with_page r (\<lambda>pg. pg\<lparr>phVersion := ?ver, tombstoneCount := countTombstonesInRange ?mid ?n ?pg\<rparr>)
    (with_page l (\<lambda>pg. pg\<lparr>tombstoneCount := countTombstonesInRange 0 ?mid ?pg\<rparr>) ?pm4)"
  have "pmPages ?pm4 p = ?pg" using p by auto
  then have run: "leafSplit p pm = (Ok (l, r, fst (?kvs ! ?mid)), ?pm5)"
    using assms(2,4,6) p L(1) R(1) leaf_kvs_nth [of ?mid ?pg] by (simp add: leafSplit_def Let_def)
  have "cow_step pm own (insert r (insert l own)) ?pm5"
    using assms(5,7,8) L(2) R(2) by (intro write_step) (simp_all add: leaf_ok_def)
  moreover have "pmPages ?pm5 l = pgl\<lparr>phVersion := ?ver, tombstoneCount := countTombstonesInRange 0 ?mid ?pg\<rparr>"
    "pmPages ?pm5 r = pgr\<lparr>phVersion := ?ver, tombstoneCount := countTombstonesInRange ?mid ?n ?pg\<rparr>" using p by auto
  moreover have "sorted_wrt (<) (map fst (take ?mid ?kvs))" "sorted_wrt (<) (map fst (drop ?mid ?kvs))"
    using srt by (metis take_map sorted_wrt_take, metis drop_map sorted_wrt_drop)
  ultimately show ?thesis using run L(2,3) R(2,3) by (simp add: sorted_leaf_def)
qed

lemma leafSplit_result:
  assumes "store_ok pm own" "p \<in> own" "sorted_leaf (pmPages pm p)"
  shows "case leafSplit p pm of
      (Ok (l, r, k), pm') \<Rightarrow> l \<notin> own \<and> r \<notin> own \<and> r \<noteq> l \<and> cow_step pm own (insert r (insert l own)) pm' \<and>
        sorted_leaf (pmPages pm' l) \<and> sorted_leaf (pmPages pm' r) \<and>
        leaf_kvs (pmPages pm' l) @ leaf_kvs (pmPages pm' r) = leaf_kvs (pmPages pm p) \<and>
        leaf_kvs (pmPages pm' l) \<noteq> [] \<and> leaf_kvs (pmPages pm' r) \<noteq> [] \<and> k = fst (hd (leaf_kvs (pmPages pm' r))) \<and>
        list_all (\<lambda>kv. fst kv < k) (leaf_kvs (pmPages pm' l))
    | (Err e, pm') \<Rightarrow> cow_step pm own own pm' \<and>
        (e = ErrLeafSplitMinKeys \<and> GetCount (pmPages pm p) < 2 \<or>
         e = ErrOffHeapOutOfMemory \<and> (no_page_left pm own \<or> (\<exists>l. l \<notin> own \<and> no_page_left pm (insert l own))))
    | (Panic, pm') \<Rightarrow> False"
proof (cases "2 \<le> GetCount (pmPages pm p)")
  case False
  with assms(1) show ?thesis by (simp add: leafSplit_def store_ok_def)
next
  case two: True
  let ?n = "GetCount (pmPages pm p)" and ?kvs = "leaf_kvs (pmPages pm p)"
  obtain r1 pm1 where al: "pageAlloc pm = (r1, pm1)" by (cases "pageAlloc pm")
  show ?thesis
  proof (cases r1)
    case (Ok l)
    have a: "l \<notin> own" "cow_step pm own (insert l own) pm1" "unat (nextPageID pm1) < 4294967295"
      using store_ok_alloc [OF assms(1)] al Ok by simp_all
    obtain r2 pm2 where al2: "pageAlloc pm1 = (r2, pm2)" by (cases "pageAlloc pm1")
    note b = alloc_step [OF a(2,3) subset_insertI, unfolded al2]
    show ?thesis
    proof (cases r2)
      case Ok2: (Ok r)
      have r: "r \<notin> insert l own" "cow_step pm own (insert r (insert l own)) pm2" using b Ok2 by simp_all
      from leafSplit_ok [OF assms(3) two assms(2) al [unfolded Ok] a(1) al2 [unfolded Ok2] r] obtain k pm' where
        run: "leafSplit p pm = (Ok (l, r, k), pm')" "cow_step pm own (insert r (insert l own)) pm'"
          "sorted_leaf (pmPages pm' l)" "sorted_leaf (pmPages pm' r)" "leaf_kvs (pmPages pm' l) = take (?n div 2) ?kvs"
          "leaf_kvs (pmPages pm' r) = drop (?n div 2) ?kvs" "k = fst (?kvs ! (?n div 2))" by blast
      have "sorted_wrt (<) (map fst (take (?n div 2) ?kvs @ ?kvs ! (?n div 2) # drop (Suc (?n div 2)) ?kvs))"
        using assms(3) two by (subst id_take_nth_drop [symmetric]) (simp_all add: sorted_leaf_def)
      then have "list_all (\<lambda>kv. fst kv < k) (take (?n div 2) ?kvs)"
        unfolding map_append sorted_wrt_append by (simp add: run(7) list_all_iff)
      moreover have "take (?n div 2) ?kvs \<noteq> []" "drop (?n div 2) ?kvs \<noteq> []" "hd (drop (?n div 2) ?kvs) = ?kvs ! (?n div 2)"
        using two by (simp_all add: hd_drop_conv_nth) (auto simp flip: length_greater_0_conv)
      ultimately show ?thesis using run r(1) a(1) by simp
    next
      case (Err e)
      have "cow_step pm own own (freed l pm2)" using b Err a(1) by (intro free_step) simp_all
      with b Err a(1) al Ok al2 two show ?thesis by (auto simp: leafSplit_def Let_def)
    qed (use b in simp)
  qed (use store_ok_alloc [OF assms(1)] al two in \<open>simp_all add: leafSplit_def Let_def\<close>)
qed

text \<open>Splitting a sorted leaf page of at least two entries returns two sorted leaf pages whose entries,
  one after the other, are those of the page, neither of them empty, and the first key of the right page
  as the separator: it is above every key of the left page. It fails only for fewer than two entries or when
  fewer than two pages are left; no page in use changes and failures leave none allocated.\<close>

theorem leaf_split_refines:
  assumes "store_ok pm own" "p \<in> own" "sorted_leaf (pmPages pm p)"
  shows "case leafSplit p pm of
      (Ok (l, r, k), pm') \<Rightarrow> l \<notin> own \<and> r \<notin> own \<and> r \<noteq> l \<and> cow_step pm own (insert r (insert l own)) pm' \<and>
        sorted_leaf (pmPages pm' l) \<and> sorted_leaf (pmPages pm' r) \<and>
        leaf_kvs (pmPages pm' l) @ leaf_kvs (pmPages pm' r) = leaf_kvs (pmPages pm p) \<and>
        leaf_kvs (pmPages pm' l) \<noteq> [] \<and> leaf_kvs (pmPages pm' r) \<noteq> [] \<and> k = fst (hd (leaf_kvs (pmPages pm' r))) \<and>
        list_all (\<lambda>kv. fst kv < k) (leaf_kvs (pmPages pm' l))
    | (Err e, pm') \<Rightarrow> cow_step pm own own pm' \<and>
        (e = ErrLeafSplitMinKeys \<and> GetCount (pmPages pm p) < 2 \<or>
         e = ErrOffHeapOutOfMemory \<and> (no_page_left pm own \<or> (\<exists>l. l \<notin> own \<and> no_page_left pm (insert l own))))
    | (Panic, pm') \<Rightarrow> False"
  using assms by (rule leafSplit_result)

section \<open>Witnesses\<close>

text \<open>A store of four pages whose page 0 is a leaf with two entries.\<close>

lemma ex_leaf_store:
  "\<exists>pm. store_ok pm {0} \<and> sorted_leaf (pmPages pm 0) \<and> leaf_kvs (pmPages pm 0) = [([1], [2]), ([3], [4])]"
proof -
  let ?kvs = "[([1], [2]), ([3], [4])] :: (bytes \<times> bytes) list"
  have "length (pageBytes zero_page) = 4096" by (simp add: zero_page_def)
  note init = leaf_init [OF this, of 1]
  have n: "GetCount (InitLeafPage 1 zero_page) = 0" using leaf_lengths(2) [of "InitLeafPage 1 zero_page"] init(2) by simp
  have "\<exists>pg'. put_list put_kv 0 ?kvs (GetDataEnd (InitLeafPage 1 zero_page)) (InitLeafPage 1 zero_page) = (Ok (), GetDataEnd pg', pg') \<and>
      leaf_ok pg' \<and> leaf_kvs pg' = leaf_kvs (InitLeafPage 1 zero_page) @ ?kvs \<and> same_header (InitLeafPage 1 zero_page) pg'"
    using n by (intro leaf_page.put_list_fits [OF init(1)]) (simp_all add: init kv_weight_def)
  then obtain pg where pg: "leaf_ok pg" "leaf_kvs pg = ?kvs" by (auto simp: init)
  let ?pm = "\<lparr>pmTotal = 4, pmUsed = 1, nextPageID = 1, freeList = [], pmPages = \<lambda>_. pg\<rparr>"
  have "{p :: u32. p < 1 \<and> p < 4} = {0}" by (auto simp: word_less_nat_alt unat_eq_0)
  then have "store_ok ?pm {0}" using pg(1) by (simp add: store_ok_def cow_step_def pm_ok_def leaf_ok_def)
  moreover have "sorted_leaf pg" using pg by (simp add: sorted_leaf_def)
  ultimately show ?thesis using pg(2) by (intro exI [of _ ?pm]) simp
qed

theorem leaf_insert_refines_witness:
  "\<exists>pm. store_ok pm {0} \<and> sorted_leaf (pmPages pm 0) \<and> leaf_kvs (pmPages pm 0) = [([1], [2]), ([3], [4])] \<and>
    (case leafInsert 0 [2] [9] pm of
      (Ok q, pm') \<Rightarrow> q \<noteq> 0 \<and> map_of (leaf_kvs (pmPages pm' q)) = [[1] \<mapsto> [2], [3] \<mapsto> [4], [2] \<mapsto> [9]]
    | (Err e, pm') \<Rightarrow> e \<noteq> ErrDuplicateKey
    | (Panic, pm') \<Rightarrow> False)"
proof -
  obtain pm where pm: "store_ok pm {0}" "sorted_leaf (pmPages pm 0)" "leaf_kvs (pmPages pm 0) = [([1], [2]), ([3], [4])]"
    using ex_leaf_store by blast
  have "map_of (leaf_kvs (pmPages pm 0)) = [[1] \<mapsto> [2], [3] \<mapsto> [4]]" using pm(3) by (simp add: fun_upd_twist)
  with pm leaf_insert_refines [OF pm(1) _ pm(2), of "[2]" "[9]"] show ?thesis
    by (intro exI [of _ pm]) (auto split: prod.splits outcome.splits)
qed

theorem leaf_delete_refines_witness:
  "\<exists>pm. store_ok pm {0} \<and> sorted_leaf (pmPages pm 0) \<and> leaf_kvs (pmPages pm 0) = [([1], [2]), ([3], [4])] \<and>
    (case leafDelete 0 (int 1) pm of
      (Ok q, pm') \<Rightarrow> leaf_kvs (pmPages pm' q) = [([1], [2])]
    | (Err e, pm') \<Rightarrow> e = ErrOffHeapOutOfMemory
    | (Panic, pm') \<Rightarrow> False)"
proof -
  obtain pm where pm: "store_ok pm {0}" "sorted_leaf (pmPages pm 0)" "leaf_kvs (pmPages pm 0) = [([1], [2]), ([3], [4])]"
    using ex_leaf_store by blast
  then have "1 < GetCount (pmPages pm 0)" using leaf_lengths(2) [of "pmPages pm 0"] by simp
  from leaf_delete_refines [OF pm(1) _ pm(2) this] pm show ?thesis
    by (intro exI [of _ pm]) (auto simp: remove_at_def split: prod.splits outcome.splits)
qed

theorem leaf_update_refines_witness:
  "\<exists>pm. store_ok pm {0} \<and> sorted_leaf (pmPages pm 0) \<and> leaf_kvs (pmPages pm 0) = [([1], [2]), ([3], [4])] \<and>
    (case leafUpdate 0 (int 0) [7, 8] pm of
      (Ok q, pm') \<Rightarrow> leaf_kvs (pmPages pm' q) = [([1], [7, 8]), ([3], [4])]
    | (Err e, pm') \<Rightarrow> e = ErrOffHeapOutOfMemory
    | (Panic, pm') \<Rightarrow> False)"
proof -
  obtain pm where pm: "store_ok pm {0}" "sorted_leaf (pmPages pm 0)" "leaf_kvs (pmPages pm 0) = [([1], [2]), ([3], [4])]"
    using ex_leaf_store by blast
  then have "0 < GetCount (pmPages pm 0)" using leaf_lengths(2) [of "pmPages pm 0"] by simp
  moreover have "is_tombstone [2] \<noteq> Panic" "is_tombstone [7, 8] \<noteq> Panic"
    by (simp_all add: is_tombstone_def ParseMVCC_def MVCCHeaderSize_def)
  moreover have "kvs_fit [([1], [7, 8]), ([3], [4])]" by (simp add: kvs_fit_def kv_weight_def)
  ultimately show ?thesis using leaf_update_refines [OF pm(1) _ pm(2), of 0 "[7, 8]"] pm
    by (intro exI [of _ pm]) (auto split: prod.splits outcome.splits)
qed

theorem leaf_split_refines_witness:
  "\<exists>pm. store_ok pm {0} \<and> sorted_leaf (pmPages pm 0) \<and> leaf_kvs (pmPages pm 0) = [([1], [2]), ([3], [4])] \<and>
    (case leafSplit 0 pm of
      (Ok (l, r, k), pm') \<Rightarrow> leaf_kvs (pmPages pm' l) @ leaf_kvs (pmPages pm' r) = [([1], [2]), ([3], [4])] \<and> l \<noteq> 0 \<and> r \<noteq> 0
    | (Err e, pm') \<Rightarrow> e = ErrOffHeapOutOfMemory
    | (Panic, pm') \<Rightarrow> False)"
proof -
  obtain pm where pm: "store_ok pm {0}" "sorted_leaf (pmPages pm 0)" "leaf_kvs (pmPages pm 0) = [([1], [2]), ([3], [4])]"
    using ex_leaf_store by blast
  then have "\<not> GetCount (pmPages pm 0) < 2" using leaf_lengths(2) [of "pmPages pm 0"] by simp
  with leaf_split_refines [OF pm(1) _ pm(2)] pm show ?thesis
    by (intro exI [of _ pm]) (auto split: prod.splits outcome.splits)
qed

end
