(* ===== verification/Node_Page.thy ===== *)
theory Node_Page
  imports Leaf_Ops
begin

text \<open>
  Copy-on-write operations on index pages: \<open>nodePageHandle\<close> (\<open>btree/node_page.go\<close>). A page with n keys
  has n + 1 children, the last in the header. As for leaf pages, a handle is its page and the
  fill ratio is compared on the integers.
\<close>

section \<open>Operations\<close>

definition MaxInternalKeys :: nat where "MaxInternalKeys = 126"

definition nodeIsFull :: "nat \<Rightarrow> page \<Rightarrow> bool" where
  "nodeIsFull keyLen pg =
     (if MaxInternalKeys \<le> GetCount pg then True
      else let requiredSpace = of_nat SizeofIndexEntry + of_nat keyLen;
               usedSpace = of_nat SizeofPageHeader + ucast (phCount pg) * of_nat SizeofIndexEntry + ucast (GetDataEnd pg);
               total = (usedSpace + requiredSpace :: u32)
           in 90 * PageSize < 100 * unat total)"

definition nodeSearch :: "bytes \<Rightarrow> page \<Rightarrow> nat \<times> bool" where
  "nodeSearch key pg = (case SearchChildIndex key pg of (idx, found) \<Rightarrow> if found then (idx + 1, True) else (idx, False))"

definition nodeGetChild :: "nat \<Rightarrow> page \<Rightarrow> u32" where
  "nodeGetChild idx pg = fst (DecodeChildWithVersion (GetChild idx pg))"

definition ReplaceChild :: "u32 \<Rightarrow> int \<Rightarrow> u32 \<Rightarrow> page_manager \<Rightarrow> u32 outcome \<times> page_manager" where
  "ReplaceChild p idx newChild pm =
     (if idx < 0 \<or> int (GetCount (pmPages pm p)) < idx then (Err ErrBTreeValidation, pm)
      else case cowCopy p pm of
        (Ok q, pm1) \<Rightarrow> (case SetChild q (nat idx) newChild pm1 of
            (Ok _, pm2) \<Rightarrow> (Ok q, pm2) | (Err e, pm2) \<Rightarrow> (Err e, pm2) | (Panic, pm2) \<Rightarrow> (Panic, pm2))
      | (r, pm1) \<Rightarrow> (r, pm1))"

text \<open>\<open>InsertIndexEntry\<close> of a page of the manager, with the version of the child read from its page.\<close>

definition insert_index :: "u32 \<Rightarrow> nat \<Rightarrow> bytes \<Rightarrow> u32 \<Rightarrow> u16 \<Rightarrow> page_manager \<Rightarrow> unit outcome \<times> u16 \<times> page_manager" where
  "insert_index q i key child de pm =
     (case InsertIndexEntry i key child (GetVersionSafe child pm) de (pmPages pm q) of
        (r, de', pg) \<Rightarrow> (r, de', with_page q (\<lambda>_. pg) pm))"

definition InsertChild :: "u32 \<Rightarrow> int \<Rightarrow> bytes \<Rightarrow> u32 \<Rightarrow> u32 \<Rightarrow> page_manager \<Rightarrow> u32 outcome \<times> page_manager" where
  "InsertChild p idx splitKey left right pm =
     (let n = GetCount (pmPages pm p)
      in if idx < 0 \<or> int n < idx then (Err ErrBTreeValidation, pm)
         else case cowCopy p pm of
           (Ok q, pm1) \<Rightarrow>
             let dataEnd = GetDataEnd (pmPages pm1 q)
             in if idx < int n then
                  (case SetChild q (nat idx) right pm1 of
                     (Ok _, pm2) \<Rightarrow> (case insert_index q (nat idx) splitKey left dataEnd pm2 of
                         (Ok _, _, pm3) \<Rightarrow> (Ok q, pm3)
                       | (Err e, _, pm3) \<Rightarrow> (Err e, freed q pm3)
                       | (Panic, _, pm3) \<Rightarrow> (Panic, pm3))
                   | (Err e, pm2) \<Rightarrow> (Err e, pm2)
                   | (Panic, pm2) \<Rightarrow> (Panic, pm2))
                else
                  (case insert_index q n splitKey left dataEnd pm1 of
                     (Ok _, _, pm2) \<Rightarrow> (case SetChild q (n + 1) right pm2 of
                         (Ok _, pm3) \<Rightarrow> (Ok q, pm3) | (Err e, pm3) \<Rightarrow> (Err e, pm3) | (Panic, pm3) \<Rightarrow> (Panic, pm3))
                   | (Err e, _, pm2) \<Rightarrow> (Err e, freed q pm2)
                   | (Panic, _, pm2) \<Rightarrow> (Panic, pm2))
         | (r, pm1) \<Rightarrow> (r, pm1))"

fun fill_index :: "u32 \<Rightarrow> nat \<Rightarrow> (bytes \<times> u32) list \<Rightarrow> u16 \<Rightarrow> page_manager \<Rightarrow> unit outcome \<times> u16 \<times> page_manager" where
  "fill_index q d [] de pm = (Ok (), de, pm)"
| "fill_index q d (kc # kcs) de pm = (case insert_index q d (fst kc) (snd kc) de pm of
     (Ok _, de', pm') \<Rightarrow> fill_index q (Suc d) kcs de' pm'
   | (r, de', pm') \<Rightarrow> (r, de', pm'))"

definition RemoveChild :: "u32 \<Rightarrow> int \<Rightarrow> page_manager \<Rightarrow> u32 outcome \<times> page_manager" where
  "RemoveChild p idx pm =
     (let pg = pmPages pm p; n = GetCount pg
      in if idx < 0 \<or> int n < idx then (Err ErrBTreeValidation, pm)
         else if n = 1 then (Err ErrBTreeValidation, pm)
         else
           let kcs = map (\<lambda>i. (index_key_at pg i, ucast (ieChild (index_entry_at i pg)))) (filter (\<lambda>i. int i \<noteq> idx) [0..<n]);
               extra = ucast (GetChild n pg)
           in (case pageAlloc pm of
                 (Ok q, pm1) \<Rightarrow>
                   (case fill_index q 0 kcs 0 (with_page q (InitIndexPage (phVersion pg + 1)) pm1) of
                      (Ok _, _, pm2) \<Rightarrow> (case SetChild q (length kcs) extra pm2 of
                          (Ok _, pm3) \<Rightarrow> (Ok q, pm3) | (Err e, pm3) \<Rightarrow> (Err e, pm3) | (Panic, pm3) \<Rightarrow> (Panic, pm3))
                    | (Err e, _, pm2) \<Rightarrow> (Err e, freed q pm2)
                    | (Panic, _, pm2) \<Rightarrow> (Panic, pm2))
               | (r, pm1) \<Rightarrow> (r, pm1)))"

definition nodeSplit :: "u32 \<Rightarrow> page_manager \<Rightarrow> (u32 \<times> u32 \<times> bytes) outcome \<times> page_manager" where
  "nodeSplit p pm =
     (let pg = pmPages pm p; n = GetCount pg; mid = n div 2
      in if n < 2 then (Err ErrLeafSplitMinKeys, pm)
         else case pageAlloc pm of
           (Ok l, pm1) \<Rightarrow> (case pageAlloc pm1 of
               (Ok r, pm2) \<Rightarrow>
                 let ver = phVersion (pmPages pm2 p) + 1
                 in (case BulkInitIndexFromSource p l 0 (int mid) (GetChild mid (pmPages pm2 p)) pm2 of
                      (Ok _, pm3) \<Rightarrow>
                        let pm4 = with_page l (\<lambda>pg. pg\<lparr>phVersion := ver\<rparr>) pm3
                        in (case BulkInitIndexFromSource p r (int mid + 1) (int n) (GetChild n (pmPages pm4 p)) pm4 of
                              (Ok _, pm5) \<Rightarrow> (Ok (l, r, index_key_at pg mid), with_page r (\<lambda>pg. pg\<lparr>phVersion := ver\<rparr>) pm5)
                            | (Err e, pm5) \<Rightarrow> (Err e, freed r (freed l pm5))
                            | (Panic, pm5) \<Rightarrow> (Panic, pm5))
                    | (Err e, pm3) \<Rightarrow> (Err e, freed r (freed l pm3))
                    | (Panic, pm3) \<Rightarrow> (Panic, pm3))
             | (Err e, pm2) \<Rightarrow> (Err e, freed l pm2)
             | (Panic, pm2) \<Rightarrow> (Panic, pm2))
         | (Err e, pm1) \<Rightarrow> (Err e, pm1)
         | (Panic, pm1) \<Rightarrow> (Panic, pm1))"

definition nodeValidate :: "page \<Rightarrow> unit outcome" where
  "nodeValidate pg =
     first_err (\<lambda>i. if index_key_at pg (i - 1) < index_key_at pg i then None else Some ErrBTreeValidation) [1..<GetCount pg]"

section \<open>What an index page stands for\<close>

definition child_id :: "u64 \<Rightarrow> u32" where
  "child_id enc = fst (DecodeChildWithVersion enc)"

definition node_keys :: "page \<Rightarrow> bytes list" where
  "node_keys pg = map fst (index_kcs pg)"

definition node_children :: "page \<Rightarrow> u32 list" where
  "node_children pg = map (\<lambda>kc. child_id (snd kc)) (index_kcs pg) @ [child_id (extraChild pg)]"

lemma length_node [simp]: "length (node_keys pg) = GetCount pg" "length (node_children pg) = Suc (GetCount pg)"
  by (simp_all add: node_keys_def node_children_def)

lemma child_id_ucast: "child_id enc = ucast enc"
  unfolding child_id_def DecodeChildWithVersion_def child_masks
  by (auto intro!: bit_word_eqI simp: bit_simps)

lemma child_id_encode [simp]: "child_id (EncodeChildWithVersion c ver) = c"
  by (simp add: child_id_def)

lemma nodeGetChild_nth: "i \<le> GetCount pg \<Longrightarrow> nodeGetChild i pg = node_children pg ! i"
  by (auto simp: nodeGetChild_def GetChild_def node_children_def nth_append index_kcs_nth index_kc_def child_id_def)

lemma index_header [simp]:
  "GetCount (pg\<lparr>extraChild := c\<rparr>) = GetCount pg" "GetDataEnd (pg\<lparr>extraChild := c\<rparr>) = GetDataEnd pg"
  "index_entry_at i (pg\<lparr>extraChild := c\<rparr>) = index_entry_at i pg" "index_entry_at i (pg\<lparr>phVersion := ver\<rparr>) = index_entry_at i pg"
  "index_kcs (pg\<lparr>extraChild := c\<rparr>) = index_kcs pg" "index_kcs (pg\<lparr>phVersion := ver\<rparr>) = index_kcs pg"
  "index_ok (pg\<lparr>extraChild := c\<rparr>) = index_ok pg" "index_ok (pg\<lparr>phVersion := ver\<rparr>) = index_ok pg"
proof -
  have c [simp]: "GetCount (pg\<lparr>extraChild := c\<rparr>) = GetCount pg" "IsLeaf (pg\<lparr>extraChild := c\<rparr>) = IsLeaf pg"
    by (simp_all add: GetCount_def IsLeaf_def)
  have e [simp]: "index_entry_at i (pg\<lparr>extraChild := c\<rparr>) = index_entry_at i pg"
    "index_entry_at i (pg\<lparr>phVersion := ver\<rparr>) = index_entry_at i pg" "leaf_entry_at i (pg\<lparr>extraChild := c\<rparr>) = leaf_entry_at i pg" for i
    by (simp_all add: index_entry_at_def leaf_entry_at_def)
  have d [simp]: "GetDataEnd (pg\<lparr>extraChild := c\<rparr>) = GetDataEnd pg"
    by (cases "IsLeaf pg") (simp_all add: GetDataEnd_def)
  show "GetCount (pg\<lparr>extraChild := c\<rparr>) = GetCount pg" "GetDataEnd (pg\<lparr>extraChild := c\<rparr>) = GetDataEnd pg"
    "index_entry_at i (pg\<lparr>extraChild := c\<rparr>) = index_entry_at i pg" "index_entry_at i (pg\<lparr>phVersion := ver\<rparr>) = index_entry_at i pg"
    "index_kcs (pg\<lparr>extraChild := c\<rparr>) = index_kcs pg" "index_kcs (pg\<lparr>phVersion := ver\<rparr>) = index_kcs pg"
    "index_ok (pg\<lparr>extraChild := c\<rparr>) = index_ok pg" "index_ok (pg\<lparr>phVersion := ver\<rparr>) = index_ok pg"
    by (simp_all add: index_ok_def index_kcs_def index_entries_def index_kc_def GetKey_def)
qed

end
