(* ===== verification/Node_Ops.thy ===== *)
theory Node_Ops
  imports Node_Page
begin

text \<open>
  The operations on index pages refine operations on the list of keys and the list of children.
\<close>

section \<open>Setting a child\<close>

lemma put_index_entry_slot:
  assumes "index_ok pg" "i < GetCount pg" "j < GetCount pg"
  shows "slot j (pageBytes (put_index_entry i e pg)) = (if j = i then index_entry_bytes e else slot j (pageBytes pg))"
proof -
  have len: "length (pageBytes pg) = 4096" "56 + i * 16 + 16 \<le> 4096" using assms by (simp_all add: index_ok_def)
  show ?thesis
  proof (cases "j = i")
    case True
    with len show ?thesis by (simp add: put_index_entry_def slot_def layout_consts field_splice_same)
  next
    case False
    then have "56 + j * 16 + 16 \<le> 56 + i * 16 \<or> 56 + i * 16 + 16 \<le> 56 + j * 16" by (cases "j < i") auto
    with False len show ?thesis by (simp add: put_index_entry_def slot_def layout_consts field_splice_other)
  qed
qed

lemma put_child_kcs:
  fixes c :: u64
  assumes ok: "index_ok pg" and i: "i < GetCount pg"
  defines "pg' \<equiv> put_index_entry i ((index_entry_at i pg)\<lparr>ieChild := c\<rparr>) pg"
  shows "index_kcs pg' = (index_kcs pg)[i := (fst (index_kcs pg ! i), c)]" "index_ok pg'" "GetDataEnd pg' = GetDataEnd pg"
proof -
  let ?e = "(index_entry_at i pg)\<lparr>ieChild := c\<rparr>"
  have len: "length (pageBytes pg) = 4096" and space: "56 + GetCount pg * 16 + unat (GetDataEnd pg) \<le> 4096"
    using ok by (simp_all add: index_ok_def)
  have n: "GetCount pg' = GetCount pg" by (simp add: pg'_def put_index_entry_def GetCount_def)
  have ty: "pageType pg' = PageTypeIndex" "length (pageBytes pg') = 4096"
    using ok i by (simp_all add: pg'_def put_index_entry_def index_ok_def layout_consts)
  have es: "index_entries pg' = (index_entries pg)[i := ?e]"
  proof (rule nth_equalityI)
    fix j assume "j < length (index_entries pg')"
    then have j: "j < GetCount pg" by (simp add: n)
    note sl = put_index_entry_slot [OF ok i j, of ?e, folded pg'_def]
    show "index_entries pg' ! j = (index_entries pg)[i := ?e] ! j"
      using sl j n by (cases "j = i") (simp_all add: index_entries_def index_entry_slot_eq index_entry_slot_cong [of j pg' j pg])
  qed (simp add: n)
  have "key_offs pg' = key_offs pg"
  proof -
    have "map ieKeyOff (index_entries pg') = map ieKeyOff (index_entries pg)"
      using i unfolding es by (intro nth_equalityI) (auto simp: nth_list_update index_entries_def)
    moreover have "\<not> IsLeaf pg'" using ty(1) by (simp add: IsLeaf_def PageTypeIndex_def PageTypeLeaf_def)
    ultimately show ?thesis using index_ok_not_leaf [OF ok] by (simp add: key_offs_index)
  qed
  then show de: "GetDataEnd pg' = GetDataEnd pg" by (rule GetDataEnd_key_offs)
  have keys: "GetKey (ieKeyOff e) (ieKeyLen e) pg' = GetKey (ieKeyOff e) (ieKeyLen e) pg" if "e \<in> set (index_entries pg)" for e
  proof -
    have "56 + i * 16 + 16 \<le> unat (ieKeyOff e)" using index_ok_entry(1) [OF ok that] i space by linarith
    with len space i show ?thesis
      by (simp add: GetKey_def pg'_def put_index_entry_def layout_consts field_splice_other)
  qed
  show "index_kcs pg' = (index_kcs pg)[i := (fst (index_kcs pg ! i), c)]"
    using i keys unfolding index_kcs_def es
    by (intro nth_equalityI) (auto simp: nth_list_update index_kc_def index_entries_def)
  have "map index_region (index_entries pg') = map index_region (index_entries pg)"
    using i unfolding es by (intro nth_equalityI) (auto simp: nth_list_update index_entries_def index_region_def)
  then show "index_ok pg'" using ok ty n de by (simp add: index_ok_def)
qed

lemma setChildEncoded_spec:
  assumes "index_ok pg" "i \<le> GetCount pg"
  shows "\<exists>pg'. setChildEncoded i c pg = (Ok (), pg') \<and> index_ok pg' \<and> node_keys pg' = node_keys pg \<and>
    node_children pg' = (node_children pg)[i := child_id c] \<and> GetDataEnd pg' = GetDataEnd pg \<and> phVersion pg' = phVersion pg"
proof (cases "i = GetCount pg")
  case True
  then have "node_children (pg\<lparr>extraChild := c\<rparr>) = (node_children pg)[i := child_id c]"
    by (simp add: node_children_def list_update_append)
  with True assms(1) show ?thesis by (simp add: setChildEncoded_def node_keys_def)
next
  case False
  with assms have i: "i < GetCount pg" by simp
  let ?pg = "put_index_entry i ((index_entry_at i pg)\<lparr>ieChild := c\<rparr>) pg"
  note p = put_child_kcs [OF assms(1) i, of c]
  have "extraChild ?pg = extraChild pg" "phVersion ?pg = phVersion pg" by (simp_all add: put_index_entry_def)
  moreover from this have "node_children ?pg = (node_children pg)[i := child_id c]"
    using i by (simp add: node_children_def p(1) map_update list_update_append)
  moreover have "node_keys ?pg = node_keys pg"
    using i unfolding node_keys_def p(1) by (simp add: sorted_list_update_key)
  ultimately show ?thesis using False i p by (simp add: setChildEncoded_def GetIndexEntry_def)
qed

lemma SetChild_spec:
  assumes "index_ok (pmPages pm q)" "i \<le> GetCount (pmPages pm q)"
  shows "\<exists>pg'. SetChild q i c pm = (Ok (), with_page q (\<lambda>_. pg') pm) \<and> index_ok pg' \<and> node_keys pg' = node_keys (pmPages pm q) \<and>
    node_children pg' = (node_children (pmPages pm q))[i := c] \<and> GetDataEnd pg' = GetDataEnd (pmPages pm q) \<and>
    phVersion pg' = phVersion (pmPages pm q)"
proof -
  let ?enc = "if c \<noteq> 0 then EncodeChildWithVersion c (GetVersionSafe c pm) else 0"
  have "child_id ?enc = c" by (simp add: child_id_ucast [of 0])
  with setChildEncoded_spec [OF assms, of ?enc] show ?thesis
    by (auto simp: SetChild_def Let_def)
qed

section \<open>Routing\<close>

lemma takeWhile_le_sorted:
  "sorted_wrt (<) ks \<Longrightarrow> length (takeWhile (\<lambda>k. k \<le> x) ks) =
     length (takeWhile (\<lambda>k. k < x) ks) + (if (x :: 'a :: linorder) \<in> set ks then 1 else 0)"
proof (induction ks)
  case Nil
  then show ?case by simp
next
  case (Cons k ks)
  show ?case
  proof (cases k x rule: linorder_cases)
    case equal
    with Cons.prems have "takeWhile (\<lambda>k. k \<le> x) ks = []" by (cases ks) auto
    with equal show ?thesis by simp
  next
    case greater
    with Cons.prems have "x \<notin> set ks" by auto
    with greater show ?thesis by auto
  qed (use Cons in auto)
qed

lemma nodeSearch_linear:
  assumes "index_ok pg" "sorted_wrt (<) (node_keys pg)"
  shows "nodeSearch key pg = (length (takeWhile (\<lambda>k. k \<le> key) (node_keys pg)), key \<in> set (node_keys pg))"
proof -
  let ?ks = "node_keys pg" and ?i = "length (takeWhile (\<lambda>k. k < key) (node_keys pg))"
  have "SearchChildIndex key pg = (?i, key \<in> set ?ks)"
    using index_page.search_linear [OF assms(1), of key] assms(2)
    by (simp add: SearchChildIndex_def node_keys_def linear_search_def)
  moreover have "length (takeWhile (\<lambda>k. k \<le> key) ?ks) = (if key \<in> set ?ks then ?i + 1 else ?i)"
    using takeWhile_le_sorted [OF assms(2), of key] by simp
  ultimately show ?thesis by (simp add: nodeSearch_def)
qed

text \<open>Claim C26. The bisection of an index page terminates and routes as a scan of the keys would: it returns the number
  of keys not above the searched one and whether the key occurs, so the child at that place is the
  one between the separators around the key.\<close>

theorem node_search_routes:
  assumes "index_ok pg" "sorted_wrt (<) (node_keys pg)"
  shows "case nodeSearch key pg of (i, found) \<Rightarrow>
    i \<le> GetCount pg \<and> found = (key \<in> set (node_keys pg)) \<and> nodeGetChild i pg = node_children pg ! i \<and>
    (\<forall>j < i. node_keys pg ! j \<le> key) \<and> (\<forall>j. i \<le> j \<and> j < GetCount pg \<longrightarrow> key < node_keys pg ! j)"
proof -
  let ?ks = "node_keys pg"
  define i where "i = length (takeWhile (\<lambda>k. k \<le> key) ?ks)"
  have run: "nodeSearch key pg = (i, key \<in> set ?ks)" unfolding i_def by (rule nodeSearch_linear [OF assms])
  have i: "i \<le> GetCount pg" unfolding i_def using length_takeWhile_le [of _ ?ks] by (metis length_node(1))
  have low: "?ks ! j \<le> key" if "j < i" for j
    using that unfolding i_def by (metis nth_mem set_takeWhileD takeWhile_nth)
  have up: "key < ?ks ! j" if "i \<le> j" "j < GetCount pg" for j
  proof -
    have "key < ?ks ! i" using that nth_length_takeWhile [of "\<lambda>k. k \<le> key" ?ks] by (simp add: i_def not_le)
    then show ?thesis using that sorted_wrt_nth_less [OF assms(2), of i j] by (cases "i = j") (auto intro: less_trans)
  qed
  show ?thesis using run i low up nodeGetChild_nth [OF i] by simp
qed

section \<open>Inserting a child\<close>

lemma insert_index_room:
  assumes "index_ok (pmPages pm q)" "i \<le> GetCount (pmPages pm q)" "child \<noteq> 0" "entry_room (pmPages pm q) (length key)"
  shows "\<exists>pg'. insert_index q i key child (GetDataEnd (pmPages pm q)) pm = (Ok (), GetDataEnd pg', with_page q (\<lambda>_. pg') pm) \<and>
    index_ok pg' \<and> index_kcs pg' = insert_at i (key, EncodeChildWithVersion child (GetVersionSafe child pm)) (index_kcs (pmPages pm q)) \<and>
    same_header (pmPages pm q) pg'"
proof -
  let ?kc = "(key, EncodeChildWithVersion child (GetVersionSafe child pm))"
  have "has_child ?kc" "entry_room (pmPages pm q) (kc_weight ?kc)" using assms(3,4) by (simp_all add: has_child_def kc_weight_def)
  from index_page.put_fits [OF assms(1) this(1) assms(2) this(2)] show ?thesis
    by (auto simp: put_kc_def InsertIndexEntry_version insert_index_def)
qed

lemma insert_index_full:
  assumes "child \<noteq> 0" "length key < 2147483648" "\<not> entry_room (pmPages pm q) (length key)"
  shows "insert_index q i key child (GetDataEnd (pmPages pm q)) pm = (Err ErrOffHeapPageFull, GetDataEnd (pmPages pm q), pm)"
proof -
  let ?kc = "(key, EncodeChildWithVersion child (GetVersionSafe child pm))"
  have "has_child ?kc" "kc_weight ?kc < 2147483648" "\<not> entry_room (pmPages pm q) (kc_weight ?kc)"
    using assms by (simp_all add: has_child_def kc_weight_def)
  from index_page.put_full [OF this, of i] show ?thesis
    by (simp add: put_kc_def InsertIndexEntry_version insert_index_def)
qed

definition split_child :: "nat \<Rightarrow> 'a \<Rightarrow> 'a \<Rightarrow> 'a list \<Rightarrow> 'a list" where
  "split_child i l r cs = take i cs @ [l, r] @ drop (Suc i) cs"

lemma node_children_insert:
  assumes "index_kcs pg' = insert_at i (key, enc) (index_kcs pg)" "extraChild pg' = extraChild pg" "i \<le> GetCount pg"
  shows "node_children pg' = insert_at i (child_id enc) (node_children pg)" "node_keys pg' = insert_at i key (node_keys pg)"
  using assms by (simp_all add: node_children_def node_keys_def) (simp add: insert_at_def)

lemma insert_at_update: "i < length cs \<Longrightarrow> insert_at i l (cs[i := r]) = split_child i l r cs"
  by (simp add: insert_at_def split_child_def) (simp add: upd_conv_take_nth_drop min_def)

lemma update_insert_at: "i < length cs \<Longrightarrow> (insert_at i l cs)[Suc i := r] = split_child i l r cs"
  by (simp add: insert_at_def split_child_def list_update_append min_def flip: Cons_nth_drop_Suc)

lemma entry_room_cong: "GetCount a = GetCount b \<Longrightarrow> GetDataEnd a = GetDataEnd b \<Longrightarrow> entry_room a w = entry_room b w"
  by (simp add: entry_room_def)

lemma node_count: "node_keys a = node_keys b \<Longrightarrow> GetCount a = GetCount b"
  by (metis length_node(1))

definition child_inserted ::
  "page_manager \<Rightarrow> u32 set \<Rightarrow> page \<Rightarrow> nat \<Rightarrow> bytes \<Rightarrow> u32 \<Rightarrow> u32 \<Rightarrow> u32 outcome \<times> page_manager \<Rightarrow> bool" where
  "child_inserted pm own pg i splitKey left right res \<longleftrightarrow> (case res of
      (Ok q, pm') \<Rightarrow> q \<notin> own \<and> cow_step pm own (insert q own) pm' \<and> index_ok (pmPages pm' q) \<and>
        node_keys (pmPages pm' q) = insert_at i splitKey (node_keys pg) \<and>
        node_children (pmPages pm' q) = split_child i left right (node_children pg) \<and>
        phVersion (pmPages pm' q) = phVersion pg + 1
    | (Err e, pm') \<Rightarrow> cow_step pm own own pm' \<and>
        (e = ErrOffHeapPageFull \<and> \<not> entry_room pg (length splitKey) \<or>
         e = ErrOffHeapOutOfMemory \<and> no_page_left pm own)
    | (Panic, pm') \<Rightarrow> False)"

text \<open>A page \<open>q\<close> was copied from \<open>pg\<close> and nobody else holds it.\<close>

definition copied :: "page_manager \<Rightarrow> u32 set \<Rightarrow> page \<Rightarrow> u32 \<Rightarrow> page_manager \<Rightarrow> bool" where
  "copied pm own pg q pm1 \<longleftrightarrow> q \<notin> own \<and> cow_step pm own (insert q own) pm1 \<and>
     pmPages pm1 q = pg\<lparr>phVersion := phVersion pg + 1\<rparr>"

lemma copied_write: "copied pm own pg q pm1 \<Longrightarrow> index_ok pg' \<Longrightarrow> cow_step pm own (insert q own) (with_page q (\<lambda>_. pg') pm1)"
  by (intro write_step) (simp_all add: copied_def index_ok_def)

lemma copied_free: "copied pm own pg q pm1 \<Longrightarrow> index_ok pg' \<Longrightarrow> cow_step pm own own (freed q (with_page q (\<lambda>_. pg') pm1))"
  using free_step [OF copied_write, of pm own pg q pm1 pg'] by (simp add: copied_def)

lemma copied_free': "copied pm own pg q pm1 \<Longrightarrow> cow_step pm own own (freed q pm1)"
  by (rule free_step) (simp_all add: copied_def)

lemma copied_node:
  "copied pm own pg q pm1 \<Longrightarrow> index_ok pg \<Longrightarrow> index_ok (pmPages pm1 q) \<and> GetCount (pmPages pm1 q) = GetCount pg \<and>
     node_keys (pmPages pm1 q) = node_keys pg \<and> node_children (pmPages pm1 q) = node_children pg \<and>
     GetDataEnd (pmPages pm1 q) = GetDataEnd pg \<and> phVersion (pmPages pm1 q) = phVersion pg + 1"
  by (simp add: copied_def node_keys_def node_children_def)

lemma insert_child_inner:
  assumes "copied pm own pg q pm1" "index_ok pg" "i < GetCount pg" "left \<noteq> 0" "length splitKey < 2147483648"
  shows "child_inserted pm own pg i splitKey left right
    (case SetChild q i right pm1 of
       (Ok _, pm2) \<Rightarrow> (case insert_index q i splitKey left (GetDataEnd (pmPages pm1 q)) pm2 of
           (Ok _, _, pm3) \<Rightarrow> (Ok q, pm3) | (Err e, _, pm3) \<Rightarrow> (Err e, freed q pm3) | (Panic, _, pm3) \<Rightarrow> (Panic, pm3))
     | (Err e, pm2) \<Rightarrow> (Err e, pm2)
     | (Panic, pm2) \<Rightarrow> (Panic, pm2))"
proof -
  note cp = copied_node [OF assms(1,2)]
  from SetChild_spec [of pm1 q i right] cp assms(3) obtain pg1 where
    pg1: "SetChild q i right pm1 = (Ok (), with_page q (\<lambda>_. pg1) pm1)" "index_ok pg1" "node_keys pg1 = node_keys pg"
      "node_children pg1 = (node_children pg)[i := right]" "GetDataEnd pg1 = GetDataEnd (pmPages pm1 q)"
      "GetDataEnd pg1 = GetDataEnd pg" "phVersion pg1 = phVersion pg + 1"
    by auto
  have n1: "GetCount pg1 = GetCount pg" by (rule node_count [OF pg1(3)])
  let ?pm2 = "with_page q (\<lambda>_. pg1) pm1"
  show ?thesis
  proof (cases "entry_room pg1 (length splitKey)")
    case room: True
    from insert_index_room [of ?pm2 q i left splitKey] pg1(2) n1 assms(3,4) room obtain pg2 where
      pg2: "insert_index q i splitKey left (GetDataEnd pg1) ?pm2 = (Ok (), GetDataEnd pg2, with_page q (\<lambda>_. pg2) pm1)" "index_ok pg2"
        "index_kcs pg2 = insert_at i (splitKey, EncodeChildWithVersion left (GetVersionSafe left ?pm2)) (index_kcs pg1)" "same_header pg1 pg2"
      by auto
    note ch = node_children_insert [OF pg2(3) same_headerD(3) [OF pg2(4)]]
    have "node_children pg2 = split_child i left right (node_children pg)" "node_keys pg2 = insert_at i splitKey (node_keys pg)"
      using ch assms(3) n1 pg1(3,4) insert_at_update [of i "node_children pg" left right] by simp_all
    with pg1(1,5,7) pg2 assms(1) copied_write [OF assms(1) pg2(2)] same_headerD(1) [OF pg2(4)] show ?thesis
      by (simp add: child_inserted_def copied_def)
  next
    case no: False
    then have "\<not> entry_room pg (length splitKey)" using entry_room_cong [OF n1 pg1(6)] by simp
    with pg1(1,5) insert_index_full [of left splitKey ?pm2 q i] assms(4,5) no copied_free [OF assms(1) pg1(2)] show ?thesis
      by (simp add: child_inserted_def)
  qed
qed

lemma insert_child_last:
  assumes "copied pm own pg q pm1" "index_ok pg" "left \<noteq> 0" "length splitKey < 2147483648"
  shows "child_inserted pm own pg (GetCount pg) splitKey left right
    (case insert_index q (GetCount pg) splitKey left (GetDataEnd (pmPages pm1 q)) pm1 of
       (Ok _, _, pm2) \<Rightarrow> (case SetChild q (GetCount pg + 1) right pm2 of
           (Ok _, pm3) \<Rightarrow> (Ok q, pm3) | (Err e, pm3) \<Rightarrow> (Err e, pm3) | (Panic, pm3) \<Rightarrow> (Panic, pm3))
     | (Err e, _, pm2) \<Rightarrow> (Err e, freed q pm2)
     | (Panic, _, pm2) \<Rightarrow> (Panic, pm2))"
proof -
  let ?cp = "pmPages pm1 q" and ?n = "GetCount pg"
  note cp = copied_node [OF assms(1,2)]
  show ?thesis
  proof (cases "entry_room ?cp (length splitKey)")
    case room: True
    from insert_index_room [of pm1 q ?n left splitKey] cp assms(3) room obtain pg2 where
      pg2: "insert_index q ?n splitKey left (GetDataEnd ?cp) pm1 = (Ok (), GetDataEnd pg2, with_page q (\<lambda>_. pg2) pm1)" "index_ok pg2"
        "index_kcs pg2 = insert_at ?n (splitKey, EncodeChildWithVersion left (GetVersionSafe left pm1)) (index_kcs ?cp)" "same_header ?cp pg2"
      by auto
    note ch = node_children_insert [OF pg2(3) same_headerD(3) [OF pg2(4)]]
    let ?pm2 = "with_page q (\<lambda>_. pg2) pm1"
    have n2: "GetCount pg2 = Suc ?n" using index_page.view_count_Suc [OF pg2(3)] cp by simp
    from SetChild_spec [of ?pm2 q "?n + 1" right] pg2(2) n2 obtain pg3 where
      pg3: "SetChild q (?n + 1) right ?pm2 = (Ok (), with_page q (\<lambda>_. pg3) pm1)" "index_ok pg3" "node_keys pg3 = node_keys pg2"
        "node_children pg3 = (node_children pg2)[Suc ?n := right]" "phVersion pg3 = phVersion pg2" by auto
    have "node_children pg3 = split_child ?n left right (node_children pg)" "node_keys pg3 = insert_at ?n splitKey (node_keys pg)"
      using ch cp pg3(3,4) update_insert_at [of ?n "node_children pg" left right] by simp_all
    with pg2(1) pg3 assms(1) cp copied_write [OF assms(1) pg3(2)] same_headerD(1) [OF pg2(4)] show ?thesis
      by (simp add: child_inserted_def copied_def)
  next
    case no: False
    then have "\<not> entry_room pg (length splitKey)" using entry_room_cong [of ?cp pg] cp by simp
    with insert_index_full [OF assms(3,4) no, of ?n] copied_free' [OF assms(1)] show ?thesis
      by (simp add: child_inserted_def)
  qed
qed

lemma InsertChild_result:
  assumes "store_ok pm own" "p \<in> own" "index_ok (pmPages pm p)" "i \<le> GetCount (pmPages pm p)" "left \<noteq> 0"
    "length splitKey < 2147483648"
  shows "case InsertChild p (int i) splitKey left right pm of
      (Ok q, pm') \<Rightarrow> q \<notin> own \<and> cow_step pm own (insert q own) pm' \<and> index_ok (pmPages pm' q) \<and>
        node_keys (pmPages pm' q) = insert_at i splitKey (node_keys (pmPages pm p)) \<and>
        node_children (pmPages pm' q) = split_child i left right (node_children (pmPages pm p)) \<and>
        phVersion (pmPages pm' q) = phVersion (pmPages pm p) + 1
    | (Err e, pm') \<Rightarrow> cow_step pm own own pm' \<and>
        (e = ErrOffHeapPageFull \<and> \<not> entry_room (pmPages pm p) (length splitKey) \<or>
         e = ErrOffHeapOutOfMemory \<and> no_page_left pm own)
    | (Panic, pm') \<Rightarrow> False"
proof -
  let ?pg = "pmPages pm p"
  obtain r pm1 where cow: "cowCopy p pm = (r, pm1)" by (cases "cowCopy p pm")
  note c = cow_copy(2) [OF assms(1,2), unfolded cow]
  have "child_inserted pm own ?pg i splitKey left right (InsertChild p (int i) splitKey left right pm)"
  proof (cases r)
    case (Ok q)
    have cp: "copied pm own ?pg q pm1" using c Ok by (simp add: copied_def)
    show ?thesis
    proof (cases "i < GetCount ?pg")
      case True
      with insert_child_inner [OF cp assms(3) True assms(5,6), of right] cow Ok show ?thesis
        unfolding InsertChild_def Let_def nat_int by simp
    next
      case False
      then have "i = GetCount ?pg" using assms(4) by simp
      with insert_child_last [OF cp assms(3,5,6), of right] cow Ok show ?thesis
        by (simp add: InsertChild_def Let_def)
    qed
  qed (use c cow assms(4) in \<open>simp_all add: InsertChild_def Let_def child_inserted_def\<close>)
  then show ?thesis by (simp only: child_inserted_def)
qed

text \<open>Inserting a split child into an index page returns a new page with the separator inserted at the index and
  the child there replaced by the two halves, for a child of an entry and for the last child. It
  fails only when the page has no room for the separator or no page is left; no page in use
  changes and a failure leaves nothing allocated.\<close>

theorem insert_child_refines:
  assumes "store_ok pm own" "p \<in> own" "index_ok (pmPages pm p)" "i \<le> GetCount (pmPages pm p)" "left \<noteq> 0"
    "length splitKey < 2147483648"
  shows "case InsertChild p (int i) splitKey left right pm of
      (Ok q, pm') \<Rightarrow> q \<notin> own \<and> cow_step pm own (insert q own) pm' \<and> index_ok (pmPages pm' q) \<and>
        node_keys (pmPages pm' q) = insert_at i splitKey (node_keys (pmPages pm p)) \<and>
        node_children (pmPages pm' q) = split_child i left right (node_children (pmPages pm p)) \<and>
        phVersion (pmPages pm' q) = phVersion (pmPages pm p) + 1
    | (Err e, pm') \<Rightarrow> cow_step pm own own pm' \<and>
        (e = ErrOffHeapPageFull \<and> \<not> entry_room (pmPages pm p) (length splitKey) \<or>
         e = ErrOffHeapOutOfMemory \<and> no_page_left pm own)
    | (Panic, pm') \<Rightarrow> False"
  using assms by (rule InsertChild_result)

section \<open>Replacing a child\<close>

lemma ReplaceChild_result:
  assumes "store_ok pm own" "p \<in> own" "index_ok (pmPages pm p)" "i \<le> GetCount (pmPages pm p)"
  shows "case ReplaceChild p (int i) c pm of
      (Ok q, pm') \<Rightarrow> q \<notin> own \<and> cow_step pm own (insert q own) pm' \<and> index_ok (pmPages pm' q) \<and>
        node_keys (pmPages pm' q) = node_keys (pmPages pm p) \<and>
        node_children (pmPages pm' q) = (node_children (pmPages pm p))[i := c] \<and>
        phVersion (pmPages pm' q) = phVersion (pmPages pm p) + 1
    | (Err e, pm') \<Rightarrow> cow_step pm own own pm' \<and> e = ErrOffHeapOutOfMemory \<and> no_page_left pm own
    | (Panic, pm') \<Rightarrow> False"
proof -
  obtain r pm1 where cow: "cowCopy p pm = (r, pm1)" by (cases "cowCopy p pm")
  note c = cow_copy(2) [OF assms(1,2), unfolded cow]
  show ?thesis
  proof (cases r)
    case (Ok q)
    have cp: "copied pm own (pmPages pm p) q pm1" using c Ok by (simp add: copied_def)
    note cn = copied_node [OF cp assms(3)]
    from SetChild_spec [of pm1 q i c] cn assms(4) obtain pg' where
      pg': "SetChild q i c pm1 = (Ok (), with_page q (\<lambda>_. pg') pm1)" "index_ok pg'" "node_keys pg' = node_keys (pmPages pm p)"
        "node_children pg' = (node_children (pmPages pm p))[i := c]" "phVersion pg' = phVersion (pmPages pm p) + 1" by auto
    with cow Ok assms(4) cp copied_write [OF cp pg'(2)] show ?thesis by (simp add: ReplaceChild_def copied_def)
  qed (use c cow assms(4) in \<open>simp_all add: ReplaceChild_def\<close>)
qed

section \<open>Split\<close>

lemma node_children_renew:
  "map (\<lambda>kc. child_id (snd kc)) (map (renew pm) kcs) = map (\<lambda>kc. child_id (snd kc)) kcs"
  "map fst (map (renew pm) kcs) = map fst kcs"
  by (simp_all add: renew_def child_id_def Let_def)

lemma BulkInitIndex_node:
  assumes "index_ok (pmPages pm p)" "p \<noteq> q" "length (pageBytes (pmPages pm q)) = 4096"
    "i < j" "j \<le> GetCount (pmPages pm p)" "\<forall>c\<in>set (node_children (pmPages pm p)). c \<notin> {0, p}"
    "child_id extra \<in> set (node_children (pmPages pm p))"
  shows "\<exists>pg. BulkInitIndexFromSource p q (int i) (int j) extra pm = (Ok (GetDataEnd pg), with_page q (\<lambda>_. pg) pm) \<and>
    index_ok pg \<and> node_keys pg = take (j - i) (drop i (node_keys (pmPages pm p))) \<and>
    node_children pg = take (j - i) (drop i (node_children (pmPages pm p))) @ [child_id extra]"
proof -
  let ?pg = "pmPages pm p"
  let ?kcs = "take (j - i) (drop i (index_kcs ?pg))"
  let ?pm0 = "with_page q (InitIndexPage (phVersion ?pg)) pm"
  have n: "nat (int j - int i) = j - i" by simp
  have sub: "set (map (\<lambda>kc. child_id (snd kc)) ?kcs) \<subseteq> set (node_children ?pg)"
    by (auto simp: node_children_def dest!: in_set_takeD in_set_dropD)
  have kids: "\<forall>kc\<in>set (take (nat (int j - int i)) (drop (nat (int i)) (index_kcs ?pg))). fst (DecodeChildWithVersion (snd kc)) \<notin> {0, p}"
    using sub assms(6) unfolding n nat_int child_id_def [symmetric] by fastforce
  have ex: "fst (DecodeChildWithVersion extra) \<noteq> p" using assms(6,7) by (auto simp: child_id_def)
  from BulkInitIndex_copies [OF assms(1,2,3) _ _ _ ex kids] assms(4,5) obtain pg where
    pg: "BulkInitIndexFromSource p q (int i) (int j) extra pm = (Ok (GetDataEnd pg), with_page q (\<lambda>_. pg\<lparr>extraChild := extra\<rparr>) pm)"
      "index_ok pg" "index_kcs pg = map (renew ?pm0) ?kcs" by (auto simp: n)
  have "node_keys (pg\<lparr>extraChild := extra\<rparr>) = take (j - i) (drop i (node_keys ?pg))"
    by (simp add: node_keys_def pg(3) node_children_renew(2) take_map drop_map flip: map_map)
  moreover have "node_children (pg\<lparr>extraChild := extra\<rparr>) = take (j - i) (drop i (node_children ?pg)) @ [child_id extra]"
    using assms(4,5) by (simp add: node_children_def pg(3) node_children_renew(1) take_map drop_map flip: map_map)
  ultimately show ?thesis using pg(1,2) by (intro exI [of _ "pg\<lparr>extraChild := extra\<rparr>"]) simp
qed

text \<open>Two fresh pages \<open>l\<close> and \<open>r\<close> are at hand.\<close>

definition two_pages :: "page_manager \<Rightarrow> u32 set \<Rightarrow> u32 \<Rightarrow> page_manager \<Rightarrow> u32 \<Rightarrow> page_manager \<Rightarrow> bool" where
  "two_pages pm own l pm1 r pm2 \<longleftrightarrow> pageAlloc pm = (Ok l, pm1) \<and> l \<notin> own \<and> pageAlloc pm1 = (Ok r, pm2) \<and>
     r \<notin> insert l own \<and> cow_step pm own (insert r (insert l own)) pm2"

lemma two_pages_cases:
  assumes "store_ok pm own"
  obtains (both) l pm1 r pm2 where "two_pages pm own l pm1 r pm2"
    | (one) l pm1 pm2 where "pageAlloc pm = (Ok l, pm1)" "pageAlloc pm1 = (Err ErrOffHeapOutOfMemory, pm2)" "l \<notin> own"
        "no_page_left pm (insert l own)" "cow_step pm own own (freed l pm2)"
    | (none) pm1 where "pageAlloc pm = (Err ErrOffHeapOutOfMemory, pm1)" "no_page_left pm own" "cow_step pm own own pm1"
proof -
  obtain r1 pm1 where al: "pageAlloc pm = (r1, pm1)" by (cases "pageAlloc pm")
  note a = store_ok_alloc [OF assms, unfolded al]
  show ?thesis
  proof (cases r1)
    case (Ok l)
    have l: "l \<notin> own" "cow_step pm own (insert l own) pm1" "unat (nextPageID pm1) < 4294967295" using a Ok by simp_all
    obtain r2 pm2 where al2: "pageAlloc pm1 = (r2, pm2)" by (cases "pageAlloc pm1")
    note b = alloc_step [OF l(2,3) subset_insertI, unfolded al2]
    show ?thesis
    proof (cases r2)
      case Ok2: (Ok r)
      then show ?thesis using both [of l pm1 r pm2] al Ok al2 l(1) b by (simp add: two_pages_def)
    next
      case (Err e)
      then show ?thesis using one [of l pm1 pm2] free_step [of pm own l own pm2] al Ok al2 l(1) b by simp
    qed (use b in simp)
  next
    case (Err e)
    with a al none [of pm1] show ?thesis by simp
  qed (use a in simp)
qed

lemma two_pages_free:
  assumes "two_pages pm own l pm1 r pm2" "cow_step pm own (insert r (insert l own)) pm3"
  shows "cow_step pm own own (freed r (freed l pm3))"
proof -
  have lr: "l \<notin> own" "r \<notin> insert l own" using assms(1) by (simp_all add: two_pages_def)
  have "cow_step pm own (insert r own) (freed l pm3)"
    using lr assms(2) by (intro free_step) (auto simp: insert_commute)
  from free_step [OF this] lr show ?thesis by simp
qed

definition proper_node :: "u32 \<Rightarrow> page \<Rightarrow> bool" where
  "proper_node p pg \<longleftrightarrow> index_ok pg \<and> list_all (\<lambda>c. c \<noteq> 0 \<and> c \<noteq> p) (node_children pg)"

lemma child_id_GetChild: "i \<le> GetCount pg \<Longrightarrow> child_id (GetChild i pg) = node_children pg ! i"
  using nodeGetChild_nth [of i pg] by (simp add: nodeGetChild_def child_id_def)

lemma index_key_at_nth: "i < GetCount pg \<Longrightarrow> index_key_at pg i = node_keys pg ! i"
  by (simp add: index_key_at_def node_keys_def index_kcs_nth index_kc_def)

lemma nodeSplit_left:
  assumes tp: "two_pages pm own l pm1 r pm2" and p: "p \<in> own" "proper_node p (pmPages pm p)" and n: "2 \<le> GetCount (pmPages pm p)"
  defines "mid \<equiv> GetCount (pmPages pm p) div 2"
  shows "\<exists>pg. BulkInitIndexFromSource p l 0 (int mid) (GetChild mid (pmPages pm2 p)) pm2 = (Ok (GetDataEnd pg), with_page l (\<lambda>_. pg) pm2) \<and>
    index_ok pg \<and> node_keys pg = take mid (node_keys (pmPages pm p)) \<and>
    node_children pg = take (Suc mid) (node_children (pmPages pm p))"
proof -
  let ?pg = "pmPages pm p"
  have pm2: "pmPages pm2 p = ?pg" "p \<noteq> l" "length (pageBytes (pmPages pm2 l)) = 4096"
    using tp p(1) by (auto simp: two_pages_def cow_step_def)
  have mid: "0 < mid" "mid < GetCount ?pg" "mid \<le> GetCount ?pg" using n by (simp_all add: mid_def)
  have ex: "child_id (GetChild mid ?pg) = node_children ?pg ! mid" using mid by (simp add: child_id_GetChild)
  have "\<exists>pg. BulkInitIndexFromSource p l (int 0) (int mid) (GetChild mid ?pg) pm2 = (Ok (GetDataEnd pg), with_page l (\<lambda>_. pg) pm2) \<and>
      index_ok pg \<and> node_keys pg = take (mid - 0) (drop 0 (node_keys (pmPages pm2 p))) \<and>
      node_children pg = take (mid - 0) (drop 0 (node_children (pmPages pm2 p))) @ [child_id (GetChild mid ?pg)]"
    using p(2) pm2 mid ex by (intro BulkInitIndex_node) (auto simp: proper_node_def list_all_iff)
  then show ?thesis using pm2(1) mid ex by (auto simp: take_Suc_conv_app_nth)
qed

lemma nodeSplit_right:
  assumes p: "p \<noteq> r" "proper_node p (pmPages pm p)" and n: "3 \<le> GetCount (pmPages pm p)" and r: "length (pageBytes (pmPages pm r)) = 4096"
  defines "n \<equiv> GetCount (pmPages pm p)" and "mid \<equiv> GetCount (pmPages pm p) div 2"
  shows "\<exists>pg. BulkInitIndexFromSource p r (int mid + 1) (int n) (GetChild n (pmPages pm p)) pm = (Ok (GetDataEnd pg), with_page r (\<lambda>_. pg) pm) \<and>
    index_ok pg \<and> node_keys pg = drop (Suc mid) (node_keys (pmPages pm p)) \<and>
    node_children pg = drop (Suc mid) (node_children (pmPages pm p))"
proof -
  let ?pg = "pmPages pm p"
  have mid: "Suc mid < n" using assms(3) unfolding mid_def n_def by linarith
  have ex: "child_id (GetChild n ?pg) = node_children ?pg ! n" by (simp add: child_id_GetChild n_def)
  have "\<exists>pg. BulkInitIndexFromSource p r (int (Suc mid)) (int n) (GetChild n ?pg) pm = (Ok (GetDataEnd pg), with_page r (\<lambda>_. pg) pm) \<and>
      index_ok pg \<and> node_keys pg = take (n - Suc mid) (drop (Suc mid) (node_keys ?pg)) \<and>
      node_children pg = take (n - Suc mid) (drop (Suc mid) (node_children ?pg)) @ [child_id (GetChild n ?pg)]"
    using p r mid ex by (intro BulkInitIndex_node) (auto simp: proper_node_def list_all_iff n_def)
  moreover have "take (n - Suc mid) (drop (Suc mid) (node_children ?pg)) @ [node_children ?pg ! n] = drop (Suc mid) (node_children ?pg)"
  proof -
    have "drop (Suc mid) (node_children ?pg) = take (Suc (n - Suc mid)) (drop (Suc mid) (node_children ?pg))"
      using mid by (simp add: n_def)
    also have "\<dots> = take (n - Suc mid) (drop (Suc mid) (node_children ?pg)) @ [drop (Suc mid) (node_children ?pg) ! (n - Suc mid)]"
      using mid by (intro take_Suc_conv_app_nth) (simp add: n_def)
    finally show ?thesis using mid by (simp add: n_def)
  qed
  moreover have "take (n - Suc mid) (drop (Suc mid) (node_keys ?pg)) = drop (Suc mid) (node_keys ?pg)"
    using mid by (simp add: n_def)
  ultimately show ?thesis using ex by (simp add: add.commute)
qed

lemma nodeSplit_ok:
  assumes tp: "two_pages pm own l pm1 r pm2" and p: "p \<in> own" "proper_node p (pmPages pm p)" and n: "3 \<le> GetCount (pmPages pm p)"
  defines "ks \<equiv> node_keys (pmPages pm p)" and "cs \<equiv> node_children (pmPages pm p)" and "mid \<equiv> GetCount (pmPages pm p) div 2"
  shows "\<exists>pm'. nodeSplit p pm = (Ok (l, r, ks ! mid), pm') \<and> cow_step pm own (insert r (insert l own)) pm' \<and>
    index_ok (pmPages pm' l) \<and> index_ok (pmPages pm' r) \<and> node_keys (pmPages pm' l) = take mid ks \<and> node_keys (pmPages pm' r) = drop (Suc mid) ks \<and>
    node_children (pmPages pm' l) = take (Suc mid) cs \<and> node_children (pmPages pm' r) = drop (Suc mid) cs"
proof -
  let ?pg = "pmPages pm p" and ?n = "GetCount (pmPages pm p)"
  have mid: "mid < ?n" "int mid \<le> int ?n" using n by (simp_all add: mid_def)
  obtain pgl where L: "BulkInitIndexFromSource p l 0 (int mid) (GetChild mid (pmPages pm2 p)) pm2 = (Ok (GetDataEnd pgl), with_page l (\<lambda>_. pgl) pm2)"
      "index_ok pgl" "node_keys pgl = take mid ks" "node_children pgl = take (Suc mid) cs"
    using nodeSplit_left [OF tp p] n unfolding mid_def ks_def cs_def by auto
  have lr: "p \<noteq> l" "p \<noteq> r" "l \<noteq> r" "pmPages pm2 p = ?pg" "length (pageBytes (pmPages pm2 r)) = 4096"
    using tp p(1) by (auto simp: two_pages_def cow_step_def)
  let ?ver = "phVersion ?pg + 1"
  let ?pm4 = "with_page l (\<lambda>pg. pg\<lparr>phVersion := ?ver\<rparr>) (with_page l (\<lambda>_. pgl) pm2)"
  have p4: "pmPages ?pm4 p = ?pg" "pmPages ?pm4 r = pmPages pm2 r" using lr by auto
  obtain pgr where R: "BulkInitIndexFromSource p r (int mid + 1) (int ?n) (GetChild ?n ?pg) ?pm4 = (Ok (GetDataEnd pgr), with_page r (\<lambda>_. pgr) ?pm4)"
      "index_ok pgr" "node_keys pgr = drop (Suc mid) ks" "node_children pgr = drop (Suc mid) cs"
    using nodeSplit_right [of p r ?pm4] lr p(2) n p4 unfolding mid_def ks_def cs_def by auto
  let ?pm' = "with_page r (\<lambda>pg. pg\<lparr>phVersion := ?ver\<rparr>) (with_page r (\<lambda>_. pgr) ?pm4)"
  have run: "nodeSplit p pm = (Ok (l, r, ks ! mid), ?pm')"
    using tp n L(1) R(1) lr p4 mid index_key_at_nth [of mid ?pg]
    by (simp add: nodeSplit_def Let_def two_pages_def mid_def ks_def)
  have "cow_step pm own (insert r (insert l own)) ?pm'"
    using tp L(2) R(2) by (intro write_step) (simp_all add: two_pages_def index_ok_def)
  moreover have "pmPages ?pm' l = pgl\<lparr>phVersion := ?ver\<rparr>" "pmPages ?pm' r = pgr\<lparr>phVersion := ?ver\<rparr>" using lr by auto
  ultimately show ?thesis using run L(2-) R(2-) by (simp add: node_keys_def node_children_def)
qed

text \<open>With two keys the right half would be empty, and the copy refuses an empty range.\<close>

lemma nodeSplit_two:
  assumes tp: "two_pages pm own l pm1 r pm2" and p: "p \<in> own" "proper_node p (pmPages pm p)" and n: "GetCount (pmPages pm p) = 2"
  shows "\<exists>pm'. nodeSplit p pm = (Err ErrOffHeapInvalidRange, pm') \<and> cow_step pm own own pm'"
proof -
  let ?pg = "pmPages pm p"
  obtain pgl where L: "BulkInitIndexFromSource p l 0 (int 1) (GetChild 1 (pmPages pm2 p)) pm2 = (Ok (GetDataEnd pgl), with_page l (\<lambda>_. pgl) pm2)"
      "index_ok pgl"
    using nodeSplit_left [OF tp p] n by auto
  have lr: "p \<noteq> l" "pmPages pm2 p = ?pg" using tp p(1) by (auto simp: two_pages_def cow_step_def)
  let ?pm4 = "with_page l (\<lambda>pg. pg\<lparr>phVersion := phVersion ?pg + 1\<rparr>) (with_page l (\<lambda>_. pgl) pm2)"
  have "cow_step pm own (insert r (insert l own)) ?pm4"
    using tp L(2) by (intro write_step) (simp_all add: two_pages_def index_ok_def)
  from two_pages_free [OF tp this] show ?thesis
    using tp n L(1) lr by (simp add: nodeSplit_def Let_def two_pages_def BulkInitIndexFromSource_def [of p r])
qed

lemma nodeSplit_result:
  assumes "store_ok pm own" "p \<in> own" "proper_node p (pmPages pm p)"
  shows "case nodeSplit p pm of
      (Ok (l, r, k), pm') \<Rightarrow> l \<notin> own \<and> r \<notin> own \<and> r \<noteq> l \<and> cow_step pm own (insert r (insert l own)) pm' \<and>
        index_ok (pmPages pm' l) \<and> index_ok (pmPages pm' r) \<and>
        node_keys (pmPages pm' l) @ k # node_keys (pmPages pm' r) = node_keys (pmPages pm p) \<and>
        node_children (pmPages pm' l) @ node_children (pmPages pm' r) = node_children (pmPages pm p) \<and>
        node_keys (pmPages pm' l) \<noteq> [] \<and> node_keys (pmPages pm' r) \<noteq> []
    | (Err e, pm') \<Rightarrow> cow_step pm own own pm' \<and>
        (e = ErrLeafSplitMinKeys \<and> GetCount (pmPages pm p) < 2 \<or>
         e = ErrOffHeapInvalidRange \<and> GetCount (pmPages pm p) = 2 \<or>
         e = ErrOffHeapOutOfMemory \<and> (no_page_left pm own \<or> (\<exists>l. l \<notin> own \<and> no_page_left pm (insert l own))))
    | (Panic, pm') \<Rightarrow> False"
proof (cases "2 \<le> GetCount (pmPages pm p)")
  case False
  with assms(1) show ?thesis by (simp add: nodeSplit_def Let_def store_ok_def)
next
  case two: True
  let ?n = "GetCount (pmPages pm p)" and ?ks = "node_keys (pmPages pm p)"
  from assms(1) show ?thesis
  proof (cases rule: two_pages_cases)
    case (both l pm1 r pm2)
    show ?thesis
    proof (cases "?n = 2")
      case True
      with nodeSplit_two [OF both assms(2,3)] show ?thesis by auto
    next
      case False
      with two have n: "3 \<le> ?n" by simp
      have "take (?n div 2) ?ks @ ?ks ! (?n div 2) # drop (Suc (?n div 2)) ?ks = ?ks"
        using n by (intro id_take_nth_drop [symmetric]) simp
      moreover have "take (?n div 2) ?ks \<noteq> []" "drop (Suc (?n div 2)) ?ks \<noteq> []"
        using n length_node(1) [of "pmPages pm p"] by (auto simp flip: length_0_conv simp del: length_node)
      ultimately show ?thesis using nodeSplit_ok [OF both assms(2,3) n] both by (auto simp: two_pages_def)
    qed
  next
    case (one l pm1 pm2)
    with two show ?thesis by (auto simp: nodeSplit_def Let_def)
  next
    case (none pm1)
    with two show ?thesis by (auto simp: nodeSplit_def Let_def)
  qed
qed

text \<open>Splitting an index page of at least three keys moves the middle key up: the keys of the left page, the
  middle key and the keys of the right page are the keys of the page, the children of the two pages
  one after the other are its children, and both pages have keys. It fails for fewer than two keys,
  for exactly two keys with an invalid-range error, and when fewer than two pages are left;
  failures leave nothing allocated and no page in use changes.\<close>

theorem node_split_refines:
  assumes "store_ok pm own" "p \<in> own" "proper_node p (pmPages pm p)"
  shows "case nodeSplit p pm of
      (Ok (l, r, k), pm') \<Rightarrow> l \<notin> own \<and> r \<notin> own \<and> r \<noteq> l \<and> cow_step pm own (insert r (insert l own)) pm' \<and>
        index_ok (pmPages pm' l) \<and> index_ok (pmPages pm' r) \<and>
        node_keys (pmPages pm' l) @ k # node_keys (pmPages pm' r) = node_keys (pmPages pm p) \<and>
        node_children (pmPages pm' l) @ node_children (pmPages pm' r) = node_children (pmPages pm p) \<and>
        node_keys (pmPages pm' l) \<noteq> [] \<and> node_keys (pmPages pm' r) \<noteq> []
    | (Err e, pm') \<Rightarrow> cow_step pm own own pm' \<and>
        (e = ErrLeafSplitMinKeys \<and> GetCount (pmPages pm p) < 2 \<or>
         e = ErrOffHeapInvalidRange \<and> GetCount (pmPages pm p) = 2 \<or>
         e = ErrOffHeapOutOfMemory \<and> (no_page_left pm own \<or> (\<exists>l. l \<notin> own \<and> no_page_left pm (insert l own))))
    | (Panic, pm') \<Rightarrow> False"
  using assms by (rule nodeSplit_result)

section \<open>Filling and removing\<close>

definition with_version :: "page_manager \<Rightarrow> bytes \<times> u32 \<Rightarrow> bytes \<times> u64" where
  "with_version pm kc = (fst kc, EncodeChildWithVersion (snd kc) (GetVersionSafe (snd kc) pm))"

lemma with_version_with_page:
  "phVersion pg = phVersion (pmPages pm q) \<Longrightarrow> with_version (with_page q (\<lambda>_. pg) pm) = with_version pm"
  by (rule ext) (auto simp: with_version_def GetVersionSafe_def)

lemma insert_index_put_kc:
  "insert_index q d (fst kc) (snd kc) de pm = (case put_kc d (with_version pm kc) de (pmPages pm q) of
     (r, de', pg) \<Rightarrow> (r, de', with_page q (\<lambda>_. pg) pm))"
  by (simp add: insert_index_def put_kc_def with_version_def InsertIndexEntry_version)

lemma put_kc_keeps_version: "put_kc i kc de pg = (r, de', pg') \<Longrightarrow> phVersion pg' = phVersion pg"
  by (auto simp: put_kc_def split: prod.splits dest: InsertIndexEntry_keeps_version)

lemma fill_index_put_list:
  assumes "put_list put_kc d (map (with_version pm) kcs) de (pmPages pm q) = (r, de', pg)"
  shows "fill_index q d kcs de pm = (r, de', with_page q (\<lambda>_. pg) pm)"
  using assms
proof (induction kcs arbitrary: d de pm)
  case Nil
  then show ?case by auto
next
  case (Cons kc kcs)
  obtain r1 de1 pg1 where put: "put_kc d (with_version pm kc) de (pmPages pm q) = (r1, de1, pg1)" by (metis prod_cases3)
  have ver: "phVersion pg1 = phVersion (pmPages pm q)" by (rule put_kc_keeps_version [OF put])
  show ?case
  proof (cases r1)
    case (Ok u)
    have "put_list put_kc (Suc d) (map (with_version (with_page q (\<lambda>_. pg1) pm)) kcs) de1 (pmPages (with_page q (\<lambda>_. pg1) pm) q) = (r, de', pg)"
      using Cons.prems put Ok by (simp add: with_version_with_page [OF ver])
    from Cons.IH [OF this] show ?thesis using put Ok by (simp add: insert_index_put_kc)
  qed (use Cons.prems put in \<open>auto simp: insert_index_put_kc\<close>)
qed

definition kcs_fit :: "(bytes \<times> u32) list \<Rightarrow> bool" where
  "kcs_fit kcs \<longleftrightarrow> 56 + length kcs * 16 + (\<Sum>kc\<leftarrow>kcs. length (fst kc)) \<le> 4096"

definition node_entries :: "page \<Rightarrow> (bytes \<times> u32) list" where
  "node_entries pg = map (\<lambda>kc. (fst kc, child_id (snd kc))) (index_kcs pg)"

lemma node_of_entries:
  "node_keys pg = map fst (node_entries pg)" "node_children pg = map snd (node_entries pg) @ [child_id (extraChild pg)]"
  "length (node_entries pg) = GetCount pg"
  by (simp_all add: node_keys_def node_children_def node_entries_def)

lemma node_entries_fit: "index_ok pg \<Longrightarrow> kcs_fit (node_entries pg)"
  using index_weights [of pg] by (simp add: kcs_fit_def node_entries_def index_ok_def kc_weight_def o_def)

text \<open>A page that was just initialised as an index page is filled with entries and given its last child.\<close>

lemma fill_index_result:
  assumes "length (pageBytes pg0) = 4096" "pmPages pm q = InitIndexPage ver pg0" "kcs_fit kcs" "\<forall>kc\<in>set kcs. snd kc \<noteq> 0"
  shows "\<exists>de pg pm'. fill_index q 0 kcs 0 pm = (Ok (), de, with_page q (\<lambda>_. pg) pm) \<and> index_ok pg \<and> GetCount pg = length kcs \<and>
    SetChild q (length kcs) extra (with_page q (\<lambda>_. pg) pm) = (Ok (), pm') \<and>
    (\<exists>pg'. pm' = with_page q (\<lambda>_. pg') pm \<and> index_ok pg' \<and> node_keys pg' = map fst kcs \<and>
      node_children pg' = map snd kcs @ [extra] \<and> phVersion pg' = ver)"
proof -
  let ?pg0 = "pmPages pm q"
  note init = index_init [OF assms(1), of ver, folded assms(2)]
  have n0: "GetCount ?pg0 = 0" using index_lengths(2) [of ?pg0] init(2) by simp
  have "\<exists>pg'. put_list put_kc 0 (map (with_version pm) kcs) (GetDataEnd ?pg0) ?pg0 = (Ok (), GetDataEnd pg', pg') \<and> index_ok pg' \<and>
      index_kcs pg' = index_kcs ?pg0 @ map (with_version pm) kcs \<and> same_header ?pg0 pg'"
    using assms(3,4) n0 by (intro index_page.put_list_fits [OF init(1)])
      (auto simp: init kcs_fit_def has_child_def with_version_def kc_weight_def o_def)
  then obtain pg where pg: "put_list put_kc 0 (map (with_version pm) kcs) 0 ?pg0 = (Ok (), GetDataEnd pg, pg)" "index_ok pg"
      "index_kcs pg = map (with_version pm) kcs" "same_header ?pg0 pg" by (auto simp: init)
  have n: "GetCount pg = length kcs" using index_lengths(2) [of pg] pg(3) by simp
  have ver: "phVersion pg = ver" using same_headerD(1) [OF pg(4)] assms(2) by (simp add: InitIndexPage_def InitPage_def)
  have keys: "node_keys pg = map fst kcs" "node_children pg = map snd kcs @ [child_id (extraChild pg)]"
    by (simp_all add: node_keys_def node_children_def pg(3) with_version_def o_def)
  from SetChild_spec [of "with_page q (\<lambda>_. pg) pm" q "length kcs" extra] pg(2) n obtain pg' where
    pg': "SetChild q (length kcs) extra (with_page q (\<lambda>_. pg) pm) = (Ok (), with_page q (\<lambda>_. pg') pm)" "index_ok pg'"
      "node_keys pg' = node_keys pg" "node_children pg' = (node_children pg)[length kcs := extra]" "phVersion pg' = phVersion pg"
    by auto
  have "node_children pg' = map snd kcs @ [extra]" unfolding pg'(4) keys(2) by (simp add: list_update_append)
  then show ?thesis using fill_index_put_list [OF pg(1)] pg(2) n pg' keys(1) ver by auto
qed

lemma removed_entries:
  assumes "i < GetCount pg"
  shows "map (\<lambda>j. (index_key_at pg j, ucast (ieChild (index_entry_at j pg)))) (filter (\<lambda>j. int j \<noteq> int i) [0..<GetCount pg]) = remove_at i (node_entries pg)"
proof -
  have "[0..<GetCount pg] = [0..<i] @ i # [Suc i..<GetCount pg]"
    using assms by (metis less_imp_add_positive upt_add_eq_append upt_conv_Cons zero_le le_add1 nless_le)
  then have f: "filter (\<lambda>j. int j \<noteq> int i) [0..<GetCount pg] = [0..<i] @ [Suc i..<GetCount pg]"
    by (simp add: filter_id_conv)
  have "node_entries pg = map (\<lambda>j. (index_key_at pg j, ucast (ieChild (index_entry_at j pg)))) [0..<GetCount pg]"
    by (simp add: node_entries_def index_kcs_def index_entries_def index_kc_def index_key_at_def child_id_ucast)
  then show ?thesis using assms unfolding f by (simp add: remove_at_def take_map drop_map)
qed

lemma kcs_fit_remove: "kcs_fit kcs \<Longrightarrow> kcs_fit (remove_at i kcs)"
proof (cases "i < length kcs")
  case True
  assume fit: "kcs_fit kcs"
  have "(\<Sum>kc\<leftarrow>insert_at i (kcs ! i) (remove_at i kcs). length (fst kc)) = (\<Sum>kc\<leftarrow>kcs. length (fst kc))"
    by (simp only: insert_remove_at [OF True])
  then show ?thesis using fit True by (simp add: kcs_fit_def remove_at_def)
qed (simp add: remove_at_def)

text \<open>Removing the child of an entry from an index page of at least two keys returns a new page without
  that key and that child, in the order of the others; it fails only when no page is left and no page
  in use changes. Asked to remove the last child, the operation returns a copy that still has it.\<close>

theorem remove_child_refines:
  assumes "store_ok pm own" "p \<in> own" "proper_node p (pmPages pm p)" "2 \<le> GetCount (pmPages pm p)" "i \<le> GetCount (pmPages pm p)"
  shows "case RemoveChild p (int i) pm of
      (Ok q, pm') \<Rightarrow> q \<notin> own \<and> cow_step pm own (insert q own) pm' \<and> index_ok (pmPages pm' q) \<and>
        (if i < GetCount (pmPages pm p)
         then node_keys (pmPages pm' q) = remove_at i (node_keys (pmPages pm p)) \<and>
           node_children (pmPages pm' q) = remove_at i (node_children (pmPages pm p))
         else node_keys (pmPages pm' q) = node_keys (pmPages pm p) \<and> node_children (pmPages pm' q) = node_children (pmPages pm p))
    | (Err e, pm') \<Rightarrow> cow_step pm own own pm' \<and> e = ErrOffHeapOutOfMemory \<and> no_page_left pm own
    | (Panic, pm') \<Rightarrow> False"
proof -
  let ?pg = "pmPages pm p" and ?n = "GetCount (pmPages pm p)"
  let ?es = "if i < ?n then remove_at i (node_entries ?pg) else node_entries ?pg"
  have ok: "index_ok ?pg" using assms(3) by (simp add: proper_node_def)
  have es: "map (\<lambda>j. (index_key_at ?pg j, ucast (ieChild (index_entry_at j ?pg)))) (filter (\<lambda>j. int j \<noteq> int i) [0..<?n]) = ?es"
  proof (cases "i < ?n")
    case True
    from removed_entries [OF this] True show ?thesis by (simp only: if_True)
  next
    case False
    then have "filter (\<lambda>j. int j \<noteq> int i) [0..<?n] = [0..<?n]" by (simp add: filter_id_conv)
    with False show ?thesis
      by (simp add: node_entries_def index_kcs_def index_entries_def index_kc_def index_key_at_def child_id_ucast)
  qed
  have fit: "kcs_fit ?es" using node_entries_fit [OF ok] kcs_fit_remove [of "node_entries ?pg" i] by simp
  have "set ?es \<subseteq> set (node_entries ?pg)" using set_remove_at [of i "node_entries ?pg"] by simp
  then have kids: "\<forall>kc\<in>set ?es. snd kc \<noteq> 0"
    using assms(3) node_of_entries(2) [of ?pg] by (fastforce simp: proper_node_def list_all_iff)
  have extra: "(ucast (GetChild ?n ?pg) :: u32) = child_id (extraChild ?pg)" by (simp add: GetChild_def child_id_ucast)
  obtain r pm1 where al: "pageAlloc pm = (r, pm1)" by (cases "pageAlloc pm")
  note a = store_ok_alloc [OF assms(1), unfolded al]
  show ?thesis
  proof (cases r)
    case (Ok q)
    have q: "q \<notin> own" "cow_step pm own (insert q own) pm1" using a Ok by simp_all
    have len: "length (pageBytes (pmPages pm1 q)) = 4096" using q(2) by (simp add: cow_step_def)
    from fill_index_result [OF len _ fit kids, of "with_page q (InitIndexPage (phVersion ?pg + 1)) pm1" q "phVersion ?pg + 1" "child_id (extraChild ?pg)"]
    obtain de pg pm' pg' where f: "fill_index q 0 ?es 0 (with_page q (InitIndexPage (phVersion ?pg + 1)) pm1) = (Ok (), de, with_page q (\<lambda>_. pg) pm1)"
        "SetChild q (length ?es) (child_id (extraChild ?pg)) (with_page q (\<lambda>_. pg) pm1) = (Ok (), with_page q (\<lambda>_. pg') pm1)"
        "index_ok pg'" "node_keys pg' = map fst ?es" "node_children pg' = map snd ?es @ [child_id (extraChild ?pg)]" by auto
    have "cow_step pm own (insert q own) (with_page q (\<lambda>_. pg') pm1)"
      using q f(3) by (intro write_step) (simp_all add: index_ok_def)
    moreover have "RemoveChild p (int i) pm = (Ok q, with_page q (\<lambda>_. pg') pm1)"
      using al Ok assms(4,5) f(1,2) unfolding RemoveChild_def Let_def es extra by simp
    moreover have "node_children ?pg = map snd (node_entries ?pg) @ [child_id (extraChild ?pg)]" "node_keys ?pg = map fst (node_entries ?pg)"
      by (simp_all add: node_of_entries)
    ultimately show ?thesis
      using q(1) f(3-5) by (simp add: remove_at_def take_map drop_map node_of_entries(3))
  qed (use a al assms(4,5) in \<open>simp_all add: RemoveChild_def Let_def\<close>)
qed

section \<open>Examples\<close>

lemma ex_node_page:
  assumes "kcs_fit kcs" "\<forall>kc\<in>set kcs. snd kc \<noteq> 0"
  shows "\<exists>pg. index_ok pg \<and> node_keys pg = map fst kcs \<and> node_children pg = map snd kcs @ [extra]"
proof -
  let ?pm = "\<lparr>pmTotal = 4, pmUsed = 1, nextPageID = 1, freeList = [], pmPages = \<lambda>_. InitIndexPage 1 zero_page\<rparr>"
  have "length (pageBytes zero_page) = 4096" by (simp add: zero_page_def)
  from fill_index_result [OF this _ assms, of ?pm 0 1 extra] show ?thesis by auto
qed

lemma two_page_store:
  assumes "length (pageBytes a) = 4096" "length (pageBytes b) = 4096"
  shows "store_ok \<lparr>pmTotal = 8, pmUsed = 2, nextPageID = 2, freeList = [], pmPages = \<lambda>p. if p = 0 then a else b\<rparr> {0, 1}"
proof -
  have "{p :: u32. p < 2 \<and> p < 8} = {0, 1}"
    by (auto simp: word_less_nat_alt unat_word_ariths) (metis One_nat_def less_2_cases_iff unat_0 unat_1 word_unat_eq_iff)
  then show ?thesis using assms by (auto simp: store_ok_def cow_step_def pm_ok_def)
qed

text \<open>A store with the index pages 0 (three keys) and 1 (one key).\<close>

definition node_store :: "page_manager \<Rightarrow> bool" where
  "node_store pm \<longleftrightarrow> store_ok pm {0, 1} \<and> proper_node 0 (pmPages pm 0) \<and> proper_node 1 (pmPages pm 1) \<and>
     node_keys (pmPages pm 0) = [[2], [4], [6]] \<and> node_children (pmPages pm 0) = [10, 11, 12, 13] \<and>
     node_keys (pmPages pm 1) = [[9]] \<and> node_children (pmPages pm 1) = [14, 15]"

lemma ex_node_store: "\<exists>pm. node_store pm"
proof -
  from ex_node_page [of "[([2], 10), ([4], 11), ([6], 12)]" 13] obtain a where
    a: "index_ok a" "node_keys a = [[2], [4], [6]]" "node_children a = [10, 11, 12, 13]" by (auto simp: kcs_fit_def)
  from ex_node_page [of "[([9], 14)]" 15] obtain b where
    b: "index_ok b" "node_keys b = [[9]]" "node_children b = [14, 15]" by (auto simp: kcs_fit_def)
  have "length (pageBytes a) = 4096" "length (pageBytes b) = 4096" using a(1) b(1) by (simp_all add: index_ok_def)
  from two_page_store [OF this] a b show ?thesis
    by (intro exI [of _ "\<lparr>pmTotal = 8, pmUsed = 2, nextPageID = 2, freeList = [], pmPages = \<lambda>p. if p = 0 then a else b\<rparr>"])
      (simp add: node_store_def proper_node_def)
qed

lemma node_storeD:
  assumes "node_store pm"
  shows "store_ok pm {0, 1}" "proper_node 0 (pmPages pm 0)" "proper_node 1 (pmPages pm 1)" "index_ok (pmPages pm 0)"
    "GetCount (pmPages pm 0) = 3" "GetCount (pmPages pm 1) = 1" "node_keys (pmPages pm 0) = [[2], [4], [6]]"
    "node_children (pmPages pm 0) = [10, 11, 12, 13]" "node_keys (pmPages pm 1) = [[9]]" "node_children (pmPages pm 1) = [14, 15]"
proof -
  show st: "store_ok pm {0, 1}" "proper_node 0 (pmPages pm 0)" "proper_node 1 (pmPages pm 1)" "node_keys (pmPages pm 0) = [[2], [4], [6]]"
    "node_children (pmPages pm 0) = [10, 11, 12, 13]" "node_keys (pmPages pm 1) = [[9]]" "node_children (pmPages pm 1) = [14, 15]"
    using assms unfolding node_store_def by blast+
  show "index_ok (pmPages pm 0)" using st(2) by (simp add: proper_node_def)
  show "GetCount (pmPages pm 0) = 3" "GetCount (pmPages pm 1) = 1"
    using length_node(1) [of "pmPages pm 0"] length_node(1) [of "pmPages pm 1"] unfolding st by (simp_all del: length_node)
qed

theorem node_search_routes_witness:
  "\<exists>pm. node_store pm \<and> (case nodeSearch [5] (pmPages pm 0) of (i, found) \<Rightarrow> i \<le> 3 \<and> \<not> found \<and>
     (\<forall>j < i. [[2], [4], [6]] ! j \<le> [5 :: 8 word]) \<and> (\<forall>j. i \<le> j \<and> j < 3 \<longrightarrow> [5 :: 8 word] < [[2], [4], [6]] ! j))"
proof -
  obtain pm where pm: "node_store pm" using ex_node_store by blast
  note st = node_storeD [OF pm]
  have "sorted_wrt (<) (node_keys (pmPages pm 0))" unfolding st by simp
  from node_search_routes [OF st(4) this, of "[5]"] st pm show ?thesis
    by (intro exI [of _ pm]) (auto split: prod.splits)
qed

theorem insert_child_refines_witness:
  "\<exists>pm. node_store pm \<and> (case InsertChild 0 (int 1) [3] 20 21 pm of
      (Ok q, pm') \<Rightarrow> q \<notin> {0, 1} \<and> node_keys (pmPages pm' q) = [[2], [3], [4], [6]] \<and>
        node_children (pmPages pm' q) = [10, 20, 21, 12, 13]
    | (Err e, pm') \<Rightarrow> e = ErrOffHeapPageFull \<or> e = ErrOffHeapOutOfMemory
    | (Panic, pm') \<Rightarrow> False)"
proof -
  obtain pm where pm: "node_store pm" using ex_node_store by blast
  note st = node_storeD [OF pm]
  from insert_child_refines [OF st(1) _ st(4), of 1 20 "[3]" 21] st pm show ?thesis
    by (intro exI [of _ pm]) (auto simp: insert_at_def split_child_def split: prod.splits outcome.splits)
qed

theorem node_split_refines_witness:
  "\<exists>pm. node_store pm \<and> (case nodeSplit 0 pm of
      (Ok (l, r, k), pm') \<Rightarrow> node_keys (pmPages pm' l) @ k # node_keys (pmPages pm' r) = [[2], [4], [6]] \<and>
        node_children (pmPages pm' l) @ node_children (pmPages pm' r) = [10, 11, 12, 13]
    | (Err e, pm') \<Rightarrow> e = ErrOffHeapOutOfMemory
    | (Panic, pm') \<Rightarrow> False)"
proof -
  obtain pm where pm: "node_store pm" using ex_node_store by blast
  note st = node_storeD [OF pm]
  from node_split_refines [OF st(1) _ st(2)] st pm show ?thesis
    by (intro exI [of _ pm]) (auto split: prod.splits outcome.splits)
qed

theorem remove_child_refines_witness:
  "\<exists>pm. node_store pm \<and> (case RemoveChild 0 (int 1) pm of
      (Ok q, pm') \<Rightarrow> node_keys (pmPages pm' q) = [[2], [6]] \<and> node_children (pmPages pm' q) = [10, 12, 13]
    | (Err e, pm') \<Rightarrow> e = ErrOffHeapOutOfMemory
    | (Panic, pm') \<Rightarrow> False)"
proof -
  obtain pm where pm: "node_store pm" using ex_node_store by blast
  note st = node_storeD [OF pm]
  from remove_child_refines [OF st(1) _ st(2), of 1] st pm show ?thesis
    by (intro exI [of _ pm]) (auto simp: remove_at_def split: prod.splits outcome.splits)
qed

end
