(* ===== verification/Epoch.thy ===== *)
theory Epoch
  imports NexKV_Prelude
begin

text \<open>
  Epoch-based reclamation of the pages that copy-on-write replaces: \<open>EpochManager\<close>
  (\<open>btree/epoch.go\<close>). A reader publishes the epoch it entered in one of 64 slots; a replaced page is
  retired with the epoch of that moment in a ring buffer; a reclaimer advances the epoch and frees
  what was retired before the epoch of every reader it finds.

  The functions of this theory are the operations run to the end by one goroutine. The callbacks
  \<open>freeFn\<close>, \<open>lobFreeFn\<close> and \<open>lobFileFreeFn\<close> are called on the pages and entries that \<open>tryReclaim\<close>
  returns, in that order; \<open>emLobFree\<close> and \<open>emLobFileFree\<close> say whether the last two are set.
\<close>

section \<open>State\<close>

definition epochInit :: u64 where "epochInit = 1"
definition maxReaderSlots :: nat where "maxReaderSlots = 64"
definition ringSize :: nat where "ringSize = 16384"
definition defaultMaxLobRetired :: int where "defaultMaxLobRetired = 65536"

record retired_entry =
  rePageID :: u32
  reEpoch :: u64

record epoch_slot =
  esBuf :: "nat \<Rightarrow> retired_entry"
  esHead :: u64
  esTail :: u64

record lob_retired_entry =
  lrFirstPageID :: u32
  lrLobID :: u64
  lrEpoch :: u64

record epoch_manager =
  globalEpoch :: u64
  emReaders :: "nat \<Rightarrow> u64"
  emSlots :: "nat \<Rightarrow> epoch_slot"
  emLobFree :: bool
  emLobFileFree :: bool
  maxLobRetiredLen :: int
  emLobRetired :: "lob_retired_entry list"
  nextSlot :: u64

definition NewEpochManager :: epoch_manager where
  "NewEpochManager = \<lparr>globalEpoch = epochInit, emReaders = (\<lambda>_. 0),
     emSlots = (\<lambda>_. \<lparr>esBuf = (\<lambda>_. \<lparr>rePageID = 0, reEpoch = 0\<rparr>), esHead = 0, esTail = 0\<rparr>),
     emLobFree = False, emLobFileFree = False, maxLobRetiredLen = defaultMaxLobRetired, emLobRetired = [], nextSlot = 0\<rparr>"

definition SetMaxLOBRetiredLen :: "int \<Rightarrow> epoch_manager \<Rightarrow> epoch_manager" where
  "SetMaxLOBRetiredLen n em = em\<lparr>maxLobRetiredLen := n\<rparr>"

definition SetLOBFreeFns :: "bool \<Rightarrow> bool \<Rightarrow> epoch_manager \<Rightarrow> epoch_manager" where
  "SetLOBFreeFns overflowFn lobFileFn em = em\<lparr>emLobFree := overflowFn, emLobFileFree := lobFileFn\<rparr>"

section \<open>Operations\<close>

definition AllocSlot :: "epoch_manager \<Rightarrow> nat \<times> epoch_manager" where
  "AllocSlot em = (let n = nextSlot em + 1 in (unat n mod maxReaderSlots, em\<lparr>nextSlot := n\<rparr>))"

definition EnterRead :: "nat \<Rightarrow> epoch_manager \<Rightarrow> epoch_manager" where
  "EnterRead slot em =
     (let epoch = globalEpoch em; em1 = em\<lparr>emReaders := (emReaders em)(slot := epoch)\<rparr>
      in if globalEpoch em1 \<noteq> epoch then em1\<lparr>emReaders := (emReaders em1)(slot := globalEpoch em1)\<rparr> else em1)"

definition ExitRead :: "nat \<Rightarrow> epoch_manager \<Rightarrow> epoch_manager" where
  "ExitRead slot em = em\<lparr>emReaders := (emReaders em)(slot := 0)\<rparr>"

text \<open>One entry into the ring of a slot; \<open>None\<close> when it is full, where the code spins until a
  reclaimer has made room.\<close>

definition ring_put :: "u32 \<Rightarrow> u64 \<Rightarrow> epoch_slot \<Rightarrow> epoch_slot option" where
  "ring_put p epoch s =
     (if ringSize \<le> unat (esTail s - esHead s) then None
      else Some (s\<lparr>esTail := esTail s + 1,
             esBuf := (esBuf s)(unat (esTail s) mod ringSize := \<lparr>rePageID = p, reEpoch = epoch\<rparr>)\<rparr>))"

definition Retire :: "nat \<Rightarrow> u32 \<Rightarrow> epoch_manager \<Rightarrow> epoch_manager option" where
  "Retire slot p em = map_option (\<lambda>s. em\<lparr>emSlots := (emSlots em)(slot := s)\<rparr>) (ring_put p (globalEpoch em) (emSlots em slot))"

fun put_all :: "u32 list \<Rightarrow> u64 \<Rightarrow> epoch_slot \<Rightarrow> epoch_slot option" where
  "put_all [] epoch s = Some s"
| "put_all (p # ps) epoch s = (case ring_put p epoch s of None \<Rightarrow> None | Some s' \<Rightarrow> put_all ps epoch s')"

definition RetireBatch :: "nat \<Rightarrow> u32 list \<Rightarrow> epoch_manager \<Rightarrow> epoch_manager option" where
  "RetireBatch slot ps em =
     (if ps = [] then Some em
      else map_option (\<lambda>s. em\<lparr>emSlots := (emSlots em)(slot := s)\<rparr>) (put_all ps (globalEpoch em) (emSlots em slot)))"

text \<open>The scan of the readers: the least epoch a reader has published, or the new epoch if there is none.\<close>

definition MaxUint64 :: u64 where "MaxUint64 = 0xFFFFFFFFFFFFFFFF"

definition minActive :: "(nat \<Rightarrow> u64) \<Rightarrow> u64" where
  "minActive readers =
     foldl (\<lambda>m i. if readers i \<noteq> 0 \<and> readers i < m then readers i else m) MaxUint64 [0..<maxReaderSlots]"

definition safe_epoch :: "epoch_manager \<Rightarrow> u64" where
  "safe_epoch em = (let m = minActive (emReaders em) in if m \<noteq> MaxUint64 then m else globalEpoch em)"

text \<open>Entries of a ring from position \<open>j\<close>, at most \<open>n\<close> of them, up to the first that is not committed or not
  safe: their pages and the position after them.\<close>

fun drain_slot :: "u64 \<Rightarrow> epoch_slot \<Rightarrow> nat \<Rightarrow> u64 \<Rightarrow> u32 list \<times> u64" where
  "drain_slot safe s 0 j = ([], j)"
| "drain_slot safe s (Suc n) j =
     (let e = esBuf s (unat j mod ringSize)
      in if reEpoch e = 0 \<or> safe \<le> reEpoch e then ([], j)
         else case drain_slot safe s n (j + 1) of (ps, k) \<Rightarrow> (rePageID e # ps, k))"

definition reclaim_slot :: "u64 \<Rightarrow> epoch_slot \<Rightarrow> u32 list \<times> epoch_slot" where
  "reclaim_slot safe s =
     (if esTail s \<le> esHead s then ([], s)
      else case drain_slot safe s (unat (esTail s) - unat (esHead s)) (esHead s) of
        (ps, k) \<Rightarrow> (ps, s\<lparr>esHead := k\<rparr>))"

definition drainLOBRetired :: "u64 \<Rightarrow> epoch_manager \<Rightarrow> lob_retired_entry list \<times> epoch_manager" where
  "drainLOBRetired safe em =
     (filter (\<lambda>e. lrEpoch e < safe) (emLobRetired em), em\<lparr>emLobRetired := filter (\<lambda>e. \<not> lrEpoch e < safe) (emLobRetired em)\<rparr>)"

definition tryReclaim :: "epoch_manager \<Rightarrow> (u32 list \<times> lob_retired_entry list) \<times> epoch_manager" where
  "tryReclaim em =
     (let em1 = em\<lparr>globalEpoch := globalEpoch em + 1\<rparr>;
          safe = safe_epoch em1;
          pages = concat (map (\<lambda>i. fst (reclaim_slot safe (emSlots em1 i))) [0..<maxReaderSlots]);
          em2 = em1\<lparr>emSlots := (\<lambda>i. if i < maxReaderSlots then snd (reclaim_slot safe (emSlots em1 i)) else emSlots em1 i)\<rparr>
      in case drainLOBRetired safe em2 of (lobs, em3) \<Rightarrow> ((pages, lobs), em3))"

text \<open>\<open>retire_lob\<close> is what the two calls share: a queue at its bound first forces a reclamation, whose
  results are returned.\<close>

definition retire_lob :: "lob_retired_entry \<Rightarrow> epoch_manager \<Rightarrow> (u32 list \<times> lob_retired_entry list) \<times> epoch_manager" where
  "retire_lob e em =
     (let (fr, em1) = (if maxLobRetiredLen em \<le> int (length (emLobRetired em)) then tryReclaim em else (([], []), em))
      in (fr, em1\<lparr>emLobRetired := emLobRetired em1 @ [e\<lparr>lrEpoch := globalEpoch em\<rparr>]\<rparr>))"

definition RetireLobChain :: "u32 \<Rightarrow> epoch_manager \<Rightarrow> (u32 list \<times> lob_retired_entry list) \<times> epoch_manager" where
  "RetireLobChain firstPageID em =
     (if firstPageID = 0 \<or> \<not> emLobFree em then (([], []), em)
      else retire_lob \<lparr>lrFirstPageID = firstPageID, lrLobID = 0, lrEpoch = 0\<rparr> em)"

definition RetireLobFile :: "u64 \<Rightarrow> epoch_manager \<Rightarrow> (u32 list \<times> lob_retired_entry list) \<times> epoch_manager" where
  "RetireLobFile lobID em =
     (if lobID = 0 \<or> \<not> emLobFileFree em then (([], []), em)
      else retire_lob \<lparr>lrFirstPageID = 0, lrLobID = lobID, lrEpoch = 0\<rparr> em)"

end
