(* ===== verification/BTree_Refs.thy ===== *)
theory BTree_Refs
  imports Node_Ops Epoch Tx_Support
begin

text \<open>
  The references of the tree (\<open>btree/page_ref.go\<close>, \<open>page_info.go\<close>, \<open>root_ref.go\<close>, \<open>children_cache.go\<close>) and
  the descent from the root to a leaf (\<open>btree/search.go\<close>).

  A \<open>*PageRef\<close> is an index into the heap \<open>btRefs\<close>; the reference embedded in \<open>RootPageRef\<close> has index 0. The
  pointers that are never nil once a reference exists (\<open>pInfo\<close>, the elements of \<open>Children\<close>) are
  plain values. \<open>CAS\<close> compares the pointer \<open>pInfo\<close>; here the snapshots are compared, which tells the same
  as long as one goroutine runs, since every snapshot it installs has a version of its own.
  \<open>Retain\<close> and \<open>Release\<close> do nothing in the source. Metrics and traces are left out.
\<close>

section \<open>References\<close>

datatype node_state = NodeNormal | NodeRoot | NodeRedirect | NodeSplitting | NodeMerging | NodeCompacting | NodeInplaceUpdate

record page_info =
  piPageID :: u32
  piVersion :: u64
  piRedirect :: bool
  piNewRef :: "nat option"
  piIsLeaf :: bool
  piNodeState :: node_state
  piChildVersion :: u64
  piChunkPos :: u64

text \<open>A composite literal that names the page, the version, the kind and the state.\<close>

definition new_info :: "u32 \<Rightarrow> u64 \<Rightarrow> bool \<Rightarrow> node_state \<Rightarrow> page_info" where
  "new_info p ver leaf st = \<lparr>piPageID = p, piVersion = ver, piRedirect = False, piNewRef = None, piIsLeaf = leaf,
     piNodeState = st, piChildVersion = 0, piChunkPos = 0\<rparr>"

definition redirect_info :: "u32 \<Rightarrow> u64 \<Rightarrow> bool \<Rightarrow> nat option \<Rightarrow> page_info" where
  "redirect_info p ver leaf ref = (new_info p ver leaf NodeRedirect)\<lparr>piRedirect := True, piNewRef := ref\<rparr>"

definition IsBusy :: "page_info \<Rightarrow> bool" where
  "IsBusy pi = (piNodeState pi \<noteq> NodeNormal \<and> piNodeState pi \<noteq> NodeRoot)"

record children_cache =
  ccChildren :: "nat list"
  ccSeparators :: "bytes list"

record page_ref =
  prPageID :: u32
  prInfo :: page_info
  prChildren :: "children_cache option"

text \<open>
  \<open>BTree\<close>: the heap of references, the storage, the counter of visible keys, the closed flag, the
  variables that the mutations of a leaf assign and the epoch manager, which is nil unless the tree was
  built \<open>WithEpoch\<close>. The variables are the counter of the timestamp generator and the variable \<open>offset\<close> that the
  closure of \<open>SetBatch\<close> captures.
\<close>

record mutation_vars =
  mvTS :: u64
  mvOffset :: nat

record btree =
  btRefs :: "nat \<Rightarrow> page_ref"
  btNextRef :: nat
  btStore :: page_manager
  btSize :: int
  btClosed :: bool
  btVars :: mutation_vars
  btEpoch :: "epoch_manager option"

abbreviation info_of :: "btree \<Rightarrow> nat \<Rightarrow> page_info" where
  "info_of b r \<equiv> prInfo (btRefs b r)"

abbreviation page_of :: "btree \<Rightarrow> nat \<Rightarrow> page" where
  "page_of b r \<equiv> pmPages (btStore b) (piPageID (info_of b r))"

definition set_info :: "nat \<Rightarrow> page_info \<Rightarrow> btree \<Rightarrow> btree" where
  "set_info r pi b = b\<lparr>btRefs := (btRefs b)(r := (btRefs b r)\<lparr>prInfo := pi\<rparr>)\<rparr>"

definition set_children :: "nat \<Rightarrow> children_cache option \<Rightarrow> btree \<Rightarrow> btree" where
  "set_children r cc b = b\<lparr>btRefs := (btRefs b)(r := (btRefs b r)\<lparr>prChildren := cc\<rparr>)\<rparr>"

definition NewPageRef :: "u32 \<Rightarrow> u64 \<Rightarrow> btree \<Rightarrow> nat \<times> btree" where
  "NewPageRef p ver b = (btNextRef b,
     b\<lparr>btRefs := (btRefs b)(btNextRef b := \<lparr>prPageID = p, prInfo = new_info p ver True NodeNormal, prChildren = None\<rparr>),
       btNextRef := Suc (btNextRef b)\<rparr>)"

definition NewRootPageRef :: "u32 \<Rightarrow> u64 \<Rightarrow> page_ref" where
  "NewRootPageRef p ver = \<lparr>prPageID = p, prInfo = new_info p ver True NodeRoot, prChildren = None\<rparr>"

definition ChildPageIDs :: "nat \<Rightarrow> btree \<Rightarrow> u32 list option" where
  "ChildPageIDs r b = (case prChildren (btRefs b r) of
     None \<Rightarrow> None
   | Some cc \<Rightarrow> if ccChildren cc = [] then None else Some (map (\<lambda>c. prPageID (btRefs b c)) (ccChildren cc)))"

definition CAS :: "nat \<Rightarrow> page_info \<Rightarrow> page_info \<Rightarrow> btree \<Rightarrow> bool \<times> btree" where
  "CAS r old new b = (if info_of b r = old then (True, set_info r new b) else (False, b))"

definition ReplaceRoot :: "page_info \<Rightarrow> page_info \<Rightarrow> children_cache option \<Rightarrow> btree \<Rightarrow> bool \<times> btree" where
  "ReplaceRoot old new cc b = (case CAS 0 old new b of
     (True, b1) \<Rightarrow> (True, set_children 0 cc b1)
   | (False, b1) \<Rightarrow> (False, b1))"

definition with_store :: "(page_manager \<Rightarrow> page_manager) \<Rightarrow> btree \<Rightarrow> btree" where
  "with_store f b = b\<lparr>btStore := f (btStore b)\<rparr>"

definition FreePage :: "u32 \<Rightarrow> btree \<Rightarrow> btree" where
  "FreePage p b = with_store (freed p) b"

definition GetLeafPage :: "u32 \<Rightarrow> btree \<Rightarrow> u32 outcome" where
  "GetLeafPage p b = (if IsLeaf (pmPages (btStore b) p) then Ok p else Err ErrBTreePageNotLeaf)"

definition GetNodePage :: "u32 \<Rightarrow> btree \<Rightarrow> u32 outcome" where
  "GetNodePage p b = (if IsLeaf (pmPages (btStore b) p) then Err ErrBTreePageNotNode else Ok p)"

section \<open>Search in the children cache\<close>

function cache_loop :: "bytes \<Rightarrow> bytes list \<Rightarrow> nat \<Rightarrow> nat \<Rightarrow> nat" where
  "cache_loop key seps lo hi =
     (if lo < hi then
        let mid = lo + (hi - lo) div 2
        in if key < seps ! mid then cache_loop key seps lo mid else cache_loop key seps (mid + 1) hi
      else lo)"
  by pat_completeness auto
termination by (relation "measure (\<lambda>(key, seps, lo, hi). hi - lo)") auto

declare cache_loop.simps [simp del]

definition cacheSearch :: "bytes \<Rightarrow> children_cache \<Rightarrow> nat" where
  "cacheSearch key cc =
     (if ccChildren cc = [] then 0
      else if ccSeparators cc = [] then 0
      else cache_loop key (ccSeparators cc) 0 (length (ccSeparators cc)))"

section \<open>Search path\<close>

type_synonym search_path = "(nat \<times> int) list"

text \<open>
  One turn of the loop at \<open>cur\<close>, then the next; \<open>None\<close> when the fuel is used up. A descent that ends
  meets no reference twice, so as many turns as there are references are enough.
\<close>

fun search_from :: "nat \<Rightarrow> bytes \<Rightarrow> btree \<Rightarrow> nat \<Rightarrow> search_path outcome option" where
  "search_from 0 key b cur = None"
| "search_from (Suc n) key b cur =
     (let pInfo = info_of b cur
      in if piIsLeaf pInfo then
           Some (if piRedirect pInfo then Err ErrRetry else Ok [(cur, - 1)])
         else case prChildren (btRefs b cur) of
           None \<Rightarrow> Some (Err ErrRetry)
         | Some cache \<Rightarrow>
             let idx = cacheSearch key cache
             in if length (ccChildren cache) \<le> idx then Some (Err ErrRetry)
                else
                  let childRef = ccChildren cache ! idx
                  in if piRedirect (info_of b childRef) then
                       (case prChildren (btRefs b cur) of
                          None \<Rightarrow> Some (Err ErrRetry)
                        | Some updated \<Rightarrow>
                            let reIdx = cacheSearch key updated
                            in if reIdx < length (ccChildren updated) then
                                 map_option (\<lambda>res. bind_outcome res (\<lambda>p. Ok ((cur, int reIdx) # p)))
                                   (search_from n key b (ccChildren updated ! reIdx))
                               else Some (Err ErrRetry))
                     else map_option (\<lambda>res. bind_outcome res (\<lambda>p. Ok ((cur, int idx) # p))) (search_from n key b childRef))"

text \<open>A search that does not end is read as a panic of the caller.\<close>

definition searchPath :: "bytes \<Rightarrow> btree \<Rightarrow> search_path outcome" where
  "searchPath key b = (case search_from (btNextRef b) key b 0 of None \<Rightarrow> Panic | Some res \<Rightarrow> res)"

definition ResolvePageID :: "bytes \<Rightarrow> btree \<Rightarrow> u32 outcome" where
  "ResolvePageID key b = bind_outcome (searchPath key b) (\<lambda>path. Ok (piPageID (info_of b (fst (last path)))))"

end
