(* ===== verification/BTree_Split.thy ===== *)
theory BTree_Split
  imports BTree_Refs
begin

text \<open>
  Splitting of leaves and index nodes and its propagation to the root (\<open>btree/operations.go\<close>): the split of
  a full leaf with the pending mutation applied to one half, the insertion of the two halves into the
  parent, the cascade over full parents and the replacement of the root.

  Where the code spins until another goroutine has made progress, the operation does not return;
  its outcome is then \<open>Panic\<close>, as for an index out of range.
\<close>

section \<open>Mutations\<close>

record leaf_mutation =
  lmNewPageID :: u32
  lmDelta :: int
  lmTombstoneDelta :: "16 word"
  lmInPlace :: bool
  lmInPlaceIdx :: int
  lmInPlaceValue :: bytes

text \<open>\<open>mutateFunc\<close>: it reads a leaf page, may allocate pages and assign its variables.\<close>

type_synonym mutator = "u32 \<Rightarrow> page_manager \<Rightarrow> mutation_vars \<Rightarrow> leaf_mutation outcome \<times> page_manager \<times> mutation_vars"

definition bump_tombstones :: "16 word \<Rightarrow> u32 \<Rightarrow> page_manager \<Rightarrow> page_manager" where
  "bump_tombstones delta p pm =
     (let newTC = tombstoneCount (pmPages pm p) + delta
      in with_page p (\<lambda>pg. pg\<lparr>tombstoneCount := (if newTC <s 0 then 0 else newTC)\<rparr>) pm)"

section \<open>Retirement\<close>

text \<open>With no epoch manager the replaced page stays allocated.\<close>

definition retire_in :: "nat \<Rightarrow> u32 list \<Rightarrow> btree \<Rightarrow> btree option" where
  "retire_in sl ps b = (case btEpoch b of
     None \<Rightarrow> Some b
   | Some em \<Rightarrow> map_option (\<lambda>em'. b\<lparr>btEpoch := Some em'\<rparr>) (RetireBatch sl ps em))"

definition alloc_slot :: "btree \<Rightarrow> nat \<times> btree" where
  "alloc_slot b = (case btEpoch b of
     None \<Rightarrow> (0, b)
   | Some em \<Rightarrow> (case AllocSlot em of (sl, em') \<Rightarrow> (sl, b\<lparr>btEpoch := Some em'\<rparr>)))"

definition retire_page :: "u32 \<Rightarrow> btree \<Rightarrow> btree option" where
  "retire_page p b = (case alloc_slot b of (sl, b1) \<Rightarrow> retire_in sl [p] b1)"

section \<open>Children caches\<close>

text \<open>The slice expressions panic when the separators do not match the children.\<close>

definition updateChildrenCache :: "nat \<Rightarrow> u32 \<Rightarrow> nat \<Rightarrow> nat \<Rightarrow> bytes \<Rightarrow> btree \<Rightarrow> unit outcome \<times> btree" where
  "updateChildrenCache parentRef oldChildID leftRef rightRef splitKey b =
     (case prChildren (btRefs b parentRef) of
        None \<Rightarrow> (Ok (), b)
      | Some cur \<Rightarrow>
          let idx = length (takeWhile (\<lambda>c. prPageID (btRefs b c) \<noteq> oldChildID) (ccChildren cur))
          in if length (ccChildren cur) \<le> idx then (Ok (), b)
             else if length (ccSeparators cur) < idx then (Panic, b)
             else (Ok (), set_children parentRef (Some
               \<lparr>ccChildren = take idx (ccChildren cur) @ [leftRef, rightRef] @ drop (Suc idx) (ccChildren cur),
                ccSeparators = take idx (ccSeparators cur) @ [splitKey] @ drop idx (ccSeparators cur)\<rparr>) b))"

definition distributeChildrenAfterSplit :: "nat \<Rightarrow> nat \<Rightarrow> nat \<Rightarrow> u32 \<Rightarrow> btree \<Rightarrow> unit outcome \<times> btree" where
  "distributeChildrenAfterSplit oldRef leftRef rightRef leftPage b =
     (case prChildren (btRefs b oldRef) of
        None \<Rightarrow> (Ok (), b)
      | Some cache \<Rightarrow>
          let leftCount = GetCount (pmPages (btStore b) leftPage) + 1;
              allChildren = ccChildren cache; seps = ccSeparators cache
          in if leftCount \<le> length allChildren then
               if length seps < leftCount - 1 then (Panic, b)
               else
                 let b1 = set_children leftRef (Some \<lparr>ccChildren = take leftCount allChildren, ccSeparators = take (leftCount - 1) seps\<rparr>) b;
                     rightCount = length allChildren - leftCount
                 in if rightCount = 0 then (Ok (), b1)
                    else if length seps < leftCount + (rightCount - 1) then (Panic, b1)
                    else (Ok (), set_children rightRef (Some \<lparr>ccChildren = drop leftCount allChildren,
                           ccSeparators = take (rightCount - 1) (drop leftCount seps)\<rparr>) b1)
             else (Ok (), b))"

text \<open>The place of a child in an index page, searched by its page; \<open>dflt\<close> when it is not there.\<close>

definition child_index :: "u32 \<Rightarrow> int \<Rightarrow> page \<Rightarrow> int" where
  "child_index childID dflt pg =
     (let i = length (takeWhile (\<lambda>j. nodeGetChild j pg \<noteq> childID) [0..<GetCount pg + 1])
      in if i < GetCount pg + 1 then int i else dflt)"

section \<open>Inserting the halves into the parent\<close>

definition MaxParentCASSpins :: nat where "MaxParentCASSpins = 50"

fun parent_spin :: "nat \<Rightarrow> nat \<Rightarrow> u32 \<Rightarrow> u32 \<Rightarrow> u32 \<Rightarrow> bytes \<Rightarrow> int \<Rightarrow> nat \<Rightarrow> nat \<Rightarrow> btree \<Rightarrow> (page_info \<times> u32) outcome \<times> btree" where
  "parent_spin 0 parentRef oldChild leftID rightID splitKey childIdx leftRef rightRef b = (Err ErrCASConflict, b)"
| "parent_spin (Suc n) parentRef oldChild leftID rightID splitKey childIdx leftRef rightRef b =
     (let curInfo = info_of b parentRef
      in if piRedirect curInfo then (Err ErrCASConflict, b)
         else case GetNodePage (piPageID curInfo) b of
           Ok pg \<Rightarrow>
             let actualIdx = child_index oldChild childIdx (pmPages (btStore b) pg)
             in if int (GetCount (pmPages (btStore b) pg)) + 1 \<le> actualIdx then (Err ErrCASConflict, b)
                else (case InsertChild pg actualIdx splitKey leftID rightID (btStore b) of
                    (Ok newParent, pm1) \<Rightarrow>
                      let newInfo = new_info newParent (piVersion curInfo + 1) False (piNodeState curInfo)
                      in (case CAS parentRef curInfo newInfo (b\<lparr>btStore := pm1\<rparr>) of
                            (True, b2) \<Rightarrow> (case updateChildrenCache parentRef oldChild leftRef rightRef splitKey b2 of
                                (Ok _, b3) \<Rightarrow> (Ok (newInfo, newParent), b3)
                              | (Err e, b3) \<Rightarrow> (Err e, b3)
                              | (Panic, b3) \<Rightarrow> (Panic, b3))
                          | (False, b2) \<Rightarrow> parent_spin n parentRef oldChild leftID rightID splitKey childIdx leftRef rightRef b2)
                  | (Err e, pm1) \<Rightarrow> (Err e, b\<lparr>btStore := pm1\<rparr>)
                  | (Panic, pm1) \<Rightarrow> (Panic, b\<lparr>btStore := pm1\<rparr>))
         | _ \<Rightarrow> parent_spin n parentRef oldChild leftID rightID splitKey childIdx leftRef rightRef b)"

definition handleParentCASWithSpin :: "nat \<Rightarrow> u32 \<Rightarrow> u32 \<Rightarrow> u32 \<Rightarrow> bytes \<Rightarrow> int \<Rightarrow> nat \<Rightarrow> nat \<Rightarrow> btree \<Rightarrow> (page_info \<times> u32) outcome \<times> btree" where
  "handleParentCASWithSpin = parent_spin MaxParentCASSpins"

section \<open>Splitting index nodes\<close>

text \<open>A reference to a fresh index page.\<close>

definition new_node_ref :: "u32 \<Rightarrow> btree \<Rightarrow> nat \<times> btree" where
  "new_node_ref p b = (case NewPageRef p 0 b of (r, b1) \<Rightarrow> (r, set_info r (new_info p 1 False NodeNormal) b1))"

text \<open>\<open>toFree\<close> holds the two halves here; the pages of the new root are freed with them on failure.\<close>

definition handleRootInternalSplit :: "nat \<Rightarrow> page_info \<Rightarrow> u32 \<Rightarrow> u32 \<Rightarrow> bytes \<Rightarrow> btree \<Rightarrow> unit outcome \<times> btree" where
  "handleRootInternalSplit rootRef rootInfo leftPage rightPage splitKey b =
     (let (leftRef, b1) = new_node_ref leftPage b; (rightRef, b2) = new_node_ref rightPage b1
      in case distributeChildrenAfterSplit rootRef leftRef rightRef leftPage b2 of
           (Ok _, b3) \<Rightarrow>
             (case AllocNodePage (btStore b3) of
                (Ok newRootID, pm) \<Rightarrow>
                  (case GetNodePage newRootID (b3\<lparr>btStore := pm\<rparr>) of
                     Ok pg \<Rightarrow>
                       (case InsertChild pg 0 splitKey leftPage rightPage pm of
                          (Ok newRootPage, pm1) \<Rightarrow>
                            let newRootInfo = new_info newRootPage (piVersion rootInfo + 1) False NodeRoot;
                                newChildren = \<lparr>ccChildren = [leftRef, rightRef], ccSeparators = [splitKey]\<rparr>
                            in (case ReplaceRoot rootInfo newRootInfo (Some newChildren) (b3\<lparr>btStore := pm1\<rparr>) of
                                  (True, b4) \<Rightarrow>
                                    (case retire_page (piPageID rootInfo) b4 of
                                       Some b5 \<Rightarrow>
                                         let redirect = redirect_info (piPageID rootInfo) (piVersion rootInfo + 1) (piIsLeaf rootInfo) (Some leftRef);
                                             b6 = snd (CAS rootRef rootInfo redirect b5)
                                         in (Ok (), FreePage newRootID b6)
                                     | None \<Rightarrow> (Panic, b4))
                                | (False, b4) \<Rightarrow> (Err ErrCASConflict,
                                    FreePage newRootPage (FreePage newRootID (FreePage rightPage (FreePage leftPage b4)))))
                        | (Err e, pm1) \<Rightarrow> (Err e, FreePage newRootID (FreePage rightPage (FreePage leftPage (b3\<lparr>btStore := pm1\<rparr>))))
                        | (Panic, pm1) \<Rightarrow> (Panic, b3\<lparr>btStore := pm1\<rparr>))
                   | Err e \<Rightarrow> (Err e, FreePage newRootID (FreePage rightPage (FreePage leftPage (b3\<lparr>btStore := pm\<rparr>))))
                   | Panic \<Rightarrow> (Panic, b3\<lparr>btStore := pm\<rparr>))
              | (Err e, pm) \<Rightarrow> (Err e, FreePage rightPage (FreePage leftPage (b3\<lparr>btStore := pm\<rparr>)))
              | (Panic, pm) \<Rightarrow> (Panic, b3\<lparr>btStore := pm\<rparr>))
         | (r, b3) \<Rightarrow> (r, b3))"

text \<open>Steps 3 to 10 of one turn of the loop at level \<open>lvl + 1\<close>: \<open>Ok (Some pi)\<close> when the grandparent, now
  described by \<open>pi\<close>, is full and the loop goes on there.\<close>

definition split_into_parent ::
  "nat \<Rightarrow> page_info \<Rightarrow> nat \<Rightarrow> int \<Rightarrow> u32 \<Rightarrow> u32 \<Rightarrow> bytes \<Rightarrow> btree \<Rightarrow> page_info option outcome \<times> btree" where
  "split_into_parent currentRef currentInfo grandparentRef idx currentLeft currentRight splitKey b =
     (let (leftRef, b1) = new_node_ref currentLeft b; (rightRef, b2) = new_node_ref currentRight b1;
          undo = (\<lambda>b. FreePage currentRight (FreePage currentLeft b))
      in case distributeChildrenAfterSplit currentRef leftRef rightRef currentLeft b2 of
           (Ok _, b3) \<Rightarrow>
             let gpInfo = info_of b3 grandparentRef
             in (case GetNodePage (piPageID gpInfo) b3 of
                   Ok pg \<Rightarrow>
                     let actualIdx = child_index (prPageID (btRefs b3 currentRef)) idx (pmPages (btStore b3) pg)
                     in if int (GetCount (pmPages (btStore b3) pg)) + 1 \<le> actualIdx then (Err ErrCASConflict, undo b3)
                        else (case InsertChild pg actualIdx splitKey currentLeft currentRight (btStore b3) of
                            (Ok newGP, pm) \<Rightarrow>
                              let newInfo = new_info newGP (piVersion gpInfo + 1) False (piNodeState gpInfo)
                              in (case CAS grandparentRef gpInfo newInfo (b3\<lparr>btStore := pm\<rparr>) of
                                    (True, b4) \<Rightarrow>
                                      (case retire_page (piPageID gpInfo) b4 of
                                         Some b5 \<Rightarrow>
                                           let redirect = redirect_info (piPageID currentInfo) (piVersion currentInfo + 1)
                                                 (piIsLeaf currentInfo) (Some leftRef);
                                               b6 = snd (CAS currentRef currentInfo redirect b5)
                                           in (case updateChildrenCache grandparentRef (prPageID (btRefs b6 currentRef)) leftRef rightRef splitKey b6 of
                                                 (Ok _, b7) \<Rightarrow> (Ok (if nodeIsFull 0 (pmPages (btStore b7) newGP) then Some newInfo else None), b7)
                                               | (Err e, b7) \<Rightarrow> (Err e, b7)
                                               | (Panic, b7) \<Rightarrow> (Panic, b7))
                                       | None \<Rightarrow> (Panic, b4))
                                  | (False, b4) \<Rightarrow> (Err ErrCASConflict, FreePage newGP b4))
                          | (Err e, pm) \<Rightarrow> (Err e, undo (b3\<lparr>btStore := pm\<rparr>))
                          | (Panic, pm) \<Rightarrow> (Panic, b3\<lparr>btStore := pm\<rparr>))
                 | Err e \<Rightarrow> (Err e, undo b3)
                 | Panic \<Rightarrow> (Panic, b3))
         | (Err e, b3) \<Rightarrow> (Err e, b3)
         | (Panic, b3) \<Rightarrow> (Panic, b3))"

fun handleInternalSplit :: "nat \<Rightarrow> page_info \<Rightarrow> search_path \<Rightarrow> nat \<Rightarrow> btree \<Rightarrow> unit outcome \<times> btree" where
  "handleInternalSplit currentRef currentInfo path level b =
     (case GetNodePage (piPageID currentInfo) b of
        Ok pg \<Rightarrow>
          (case nodeSplit pg (btStore b) of
             (Ok (left, right, splitKey), pm) \<Rightarrow>
               (case level of
                  0 \<Rightarrow> handleRootInternalSplit currentRef currentInfo left right splitKey (b\<lparr>btStore := pm\<rparr>)
                | Suc lvl \<Rightarrow>
                    (case split_into_parent currentRef currentInfo (fst (path ! lvl)) (snd (path ! lvl)) left right splitKey (b\<lparr>btStore := pm\<rparr>) of
                       (Ok None, b1) \<Rightarrow> (Ok (), b1)
                     | (Ok (Some newInfo), b1) \<Rightarrow> handleInternalSplit (fst (path ! lvl)) newInfo path lvl b1
                     | (Err e, b1) \<Rightarrow> (Err e, b1)
                     | (Panic, b1) \<Rightarrow> (Panic, b1)))
           | (Err e, pm) \<Rightarrow> (Err e, b\<lparr>btStore := pm\<rparr>)
           | (Panic, pm) \<Rightarrow> (Panic, b\<lparr>btStore := pm\<rparr>))
      | Err e \<Rightarrow> (Err e, b)
      | Panic \<Rightarrow> (Panic, b))"

declare handleInternalSplit.simps [simp del]

section \<open>Splitting leaves\<close>

record split_result =
  srLeftPage :: u32
  srRightPage :: u32
  srLeft :: u32
  srRight :: u32
  srKey :: bytes
  srOrphan :: u32
  srDelta :: int

text \<open>The steps the two leaf handlers share: split the page, mutate the half the key belongs to, and tell the
  pages of the split, the pages of the two halves after the mutation and the page that the mutation has
  replaced (0 for none).\<close>

definition split_and_mutate :: "u32 \<Rightarrow> bytes \<Rightarrow> mutator \<Rightarrow> btree \<Rightarrow> split_result outcome \<times> btree" where
  "split_and_mutate p key mutate b =
     (case GetLeafPage p b of
        Ok pg \<Rightarrow>
          (case leafSplit pg (btStore b) of
             (Ok (l, r, splitKey), pm1) \<Rightarrow>
               let target = (if key < splitKey then l else r)
               in (case mutate target pm1 (btVars b) of
                     (Ok m, pm2, vs) \<Rightarrow>
                       let pm3 = (if lmTombstoneDelta m \<noteq> 0 \<and> \<not> lmInPlace m
                                  then bump_tombstones (lmTombstoneDelta m) (lmNewPageID m) pm2 else pm2);
                           new = (if lmInPlace m then target else lmNewPageID m)
                       in (Ok \<lparr>srLeftPage = l, srRightPage = r, srLeft = (if key < splitKey then new else l), srRight = (if key < splitKey then r else new),
                               srKey = splitKey, srOrphan = (if lmInPlace m then 0 else target), srDelta = lmDelta m\<rparr>,
                           b\<lparr>btStore := pm3, btVars := vs\<rparr>)
                   | (Err e, pm2, vs) \<Rightarrow> (Err e, FreePage r (FreePage l (b\<lparr>btStore := pm2, btVars := vs\<rparr>)))
                   | (Panic, pm2, vs) \<Rightarrow> (Panic, b\<lparr>btStore := pm2, btVars := vs\<rparr>))
           | (Err e, pm1) \<Rightarrow> (Err e, b\<lparr>btStore := pm1\<rparr>)
           | (Panic, pm1) \<Rightarrow> (Panic, b\<lparr>btStore := pm1\<rparr>))
      | Err e \<Rightarrow> (Err e, b)
      | Panic \<Rightarrow> (Panic, b))"

definition add_size :: "int \<Rightarrow> btree \<Rightarrow> btree" where
  "add_size d b = b\<lparr>btSize := btSize b + d\<rparr>"

definition handleLeafSplit :: "nat \<Rightarrow> page_info \<Rightarrow> search_path \<Rightarrow> bytes \<Rightarrow> mutator \<Rightarrow> btree \<Rightarrow> unit outcome \<times> btree" where
  "handleLeafSplit leafRef leafInfo path key mutate b =
     (case split_and_mutate (piPageID leafInfo) key mutate b of
        (Ok s, b1) \<Rightarrow>
          let (leftRef, b2) = NewPageRef (srLeft s) 0 b1; (rightRef, b3) = NewPageRef (srRight s) 0 b2;
              b4 = (if srOrphan s \<noteq> 0 then FreePage (srOrphan s) b3 else b3);
              (parentRef, parentIdx) = path ! (length path - 2)
          in (case handleParentCASWithSpin parentRef (prPageID (btRefs b4 leafRef)) (srLeft s) (srRight s) (srKey s) parentIdx
                 leftRef rightRef b4 of
                (Ok (newParentInfo, newParent), b5) \<Rightarrow>
                  let redirect = redirect_info (piPageID leafInfo) (piVersion leafInfo + 1) True (Some leftRef)
                  in (case CAS leafRef leafInfo redirect b5 of
                        (True, b6) \<Rightarrow>
                          (case (if nodeIsFull 0 (pmPages (btStore b6) newParent)
                                 then handleInternalSplit parentRef newParentInfo path (length path - 2) b6 else (Ok (), b6)) of
                             (Panic, b7) \<Rightarrow> (Panic, b7)
                           | (_, b7) \<Rightarrow> (Ok (), add_size (srDelta s) b7))
                      | (False, b6) \<Rightarrow> (Err ErrCASConflict, FreePage newParent b6))
              | (Err e, b5) \<Rightarrow> (Err e, b5)
              | (Panic, b5) \<Rightarrow> (Panic, b5))
      | (Err e, b1) \<Rightarrow> (Err e, b1)
      | (Panic, b1) \<Rightarrow> (Panic, b1))"

definition handleRootSplit :: "page_info \<Rightarrow> bytes \<Rightarrow> mutator \<Rightarrow> btree \<Rightarrow> unit outcome \<times> btree" where
  "handleRootSplit rootInfo key mutate b =
     (case split_and_mutate (piPageID rootInfo) key mutate b of
        (Ok s, b1) \<Rightarrow>
          (case AllocNodePage (btStore b1) of
             (Ok newRootID, pm) \<Rightarrow>
               (case GetNodePage newRootID (b1\<lparr>btStore := pm\<rparr>) of
                  Ok pg \<Rightarrow>
                    (case InsertChild pg 0 (srKey s) (srLeft s) (srRight s) pm of
                       (Ok newRootPage, pm1) \<Rightarrow>
                         let (leftRef, b2) = NewPageRef (srLeft s) 0 (b1\<lparr>btStore := pm1\<rparr>);
                             (rightRef, b3) = NewPageRef (srRight s) 0 b2;
                             newRootInfo = new_info newRootPage (piVersion rootInfo + 1) False NodeRoot;
                             newChildren = \<lparr>ccChildren = [leftRef, rightRef], ccSeparators = [srKey s]\<rparr>
                         in (case ReplaceRoot rootInfo newRootInfo (Some newChildren) b3 of
                               (True, b4) \<Rightarrow>
                                 (case retire_page (piPageID rootInfo) b4 of
                                    Some b5 \<Rightarrow> (Ok (), FreePage newRootID (FreePage (srOrphan s) (add_size (srDelta s) b5)))
                                  | None \<Rightarrow> (Panic, b4))
                             | (False, b4) \<Rightarrow> (Err ErrCASConflict,
                                 FreePage newRootPage (FreePage newRootID (FreePage (srOrphan s) b4))))
                     | (Err e, pm1) \<Rightarrow> (Err e, FreePage newRootID (b1\<lparr>btStore := pm1\<rparr>))
                     | (Panic, pm1) \<Rightarrow> (Panic, b1\<lparr>btStore := pm1\<rparr>))
                | Err e \<Rightarrow> (Err e, FreePage newRootID (b1\<lparr>btStore := pm\<rparr>))
                | Panic \<Rightarrow> (Panic, b1\<lparr>btStore := pm\<rparr>))
           | (Err e, pm) \<Rightarrow> (Err e, FreePage (srRightPage s) (FreePage (srLeftPage s) (b1\<lparr>btStore := pm\<rparr>)))
           | (Panic, pm) \<Rightarrow> (Panic, b1\<lparr>btStore := pm\<rparr>))
      | (Err e, b1) \<Rightarrow> (Err e, b1)
      | (Panic, b1) \<Rightarrow> (Panic, b1))"

definition doSplitWithSplitting ::
  "nat \<Rightarrow> page_info \<Rightarrow> page_info \<Rightarrow> search_path \<Rightarrow> bytes \<Rightarrow> mutator \<Rightarrow> btree \<Rightarrow> unit outcome \<times> btree" where
  "doSplitWithSplitting leafRef splittingInfo oldInfo path key mutate b =
     (case (if length path < 2 then handleRootSplit splittingInfo key mutate b
            else handleLeafSplit leafRef splittingInfo path key mutate b) of
        (r, b1) \<Rightarrow> (r, if info_of b1 leafRef = splittingInfo then snd (CAS leafRef splittingInfo oldInfo b1) else b1))"

end
