(* ===== verification/Page_Merge.thy ===== *)
theory Page_Merge
  imports Node_Ops
begin

text \<open>
  Merging and borrowing between sibling pages (\<open>btree/merge.go\<close>, \<open>btree/page_merger.go\<close>): the
  operations of \<open>PageMerger\<close> on leaf and index pages. All of them build new pages and leave the
  siblings as they are.
\<close>

section \<open>Leaves\<close>

definition collectKVRange :: "nat \<Rightarrow> nat \<Rightarrow> page \<Rightarrow> (bytes \<times> bytes) list" where
  "collectKVRange start end pg = map (\<lambda>i. leaf_kv pg (leaf_entry_at i pg)) [start..<min end (GetCount pg)]"

definition MergeLeaves :: "u32 \<Rightarrow> u32 \<Rightarrow> page_manager \<Rightarrow> u32 outcome \<times> page_manager" where
  "MergeLeaves left right pm =
     (let leftCount = GetCount (pmPages pm left); rightCount = GetCount (pmPages pm right)
      in case pageAlloc pm of
           (Ok q, pm1) \<Rightarrow>
             let pm2 = with_page q (InitLeafPage (phVersion (pmPages pm1 left) + 1)) pm1;
                 kvs = collectKVRange 0 leftCount (pmPages pm2 left) @ collectKVRange 0 rightCount (pmPages pm2 right)
             in (case put_list put_kv 0 kvs 0 (pmPages pm2 q) of
                   (Ok _, _, pg) \<Rightarrow>
                     let tc = tombstoneCount (pmPages pm2 left) + tombstoneCount (pmPages pm2 right)
                     in (Ok q, with_page q (\<lambda>_. pg\<lparr>tombstoneCount := tc\<rparr>) pm2)
                 | (Err e, _, pg) \<Rightarrow> (Err e, freed q (with_page q (\<lambda>_. pg) pm2))
                 | (Panic, _, pg) \<Rightarrow> (Panic, with_page q (\<lambda>_. pg) pm2))
         | (r, pm1) \<Rightarrow> (r, pm1))"

text \<open>
  Borrowing moves the entry at \<open>from\<close> of the sibling to the place \<open>to\<close> of the page: the last entry to
  the front (\<open>BorrowFromLeftLeaf\<close>) or the first to the end (\<open>BorrowFromRightLeaf\<close>).
\<close>

definition borrow_leaf :: "nat \<Rightarrow> nat \<Rightarrow> u32 \<Rightarrow> u32 \<Rightarrow> page_manager \<Rightarrow> (u32 \<times> u32) outcome \<times> page_manager" where
  "borrow_leaf from to self sib pm =
     (case leaf_kv (pmPages pm sib) (leaf_entry_at from (pmPages pm sib)) of (borrowedKey, borrowedVal) \<Rightarrow>
      case cowCopy self pm of
        (Ok q, pm1) \<Rightarrow>
          (case InsertLeafEntry to borrowedKey borrowedVal (GetDataEnd (pmPages pm1 q)) (pmPages pm1 q) of
             (Ok _, _, pg) \<Rightarrow>
               let pm2 = with_page q (\<lambda>_. pg) pm1;
                   (sibKeys, sibVals) = CollectKVExcept (int from) (pmPages pm2 sib)
               in (case pageAlloc pm2 of
                     (Ok q', pm3) \<Rightarrow>
                       (case put_list put_kv 0 (zip sibKeys sibVals) 0 (InitLeafPage (phVersion (pmPages pm3 sib) + 1) (pmPages pm3 q')) of
                          (Ok _, _, pg') \<Rightarrow>
                            let t = borrowedVal \<noteq> [] \<and> borrowedVal ! 0 = FlagTombstone;
                                selfTC = tombstoneCount (pmPages pm3 self); sibTC = tombstoneCount (pmPages pm3 sib)
                            in (Ok (q, q'),
                                with_page q' (\<lambda>_. pg'\<lparr>tombstoneCount := if t then sibTC - 1 else sibTC\<rparr>)
                                  (with_page q (\<lambda>pg. pg\<lparr>tombstoneCount := if t then selfTC + 1 else selfTC\<rparr>) pm3))
                        | (Err e, _, pg') \<Rightarrow> (Err e, freed q' (freed q (with_page q' (\<lambda>_. pg') pm3)))
                        | (Panic, _, pg') \<Rightarrow> (Panic, pm3))
                   | (Err e, pm3) \<Rightarrow> (Err e, freed q pm3)
                   | (Panic, pm3) \<Rightarrow> (Panic, pm3))
           | (Err e, _, pg) \<Rightarrow> (Err e, freed q (with_page q (\<lambda>_. pg) pm1))
           | (Panic, _, pg) \<Rightarrow> (Panic, pm1))
      | (Err e, pm1) \<Rightarrow> (Err e, pm1)
      | (Panic, pm1) \<Rightarrow> (Panic, pm1))"

definition BorrowFromLeftLeaf :: "u32 \<Rightarrow> u32 \<Rightarrow> page_manager \<Rightarrow> (u32 \<times> u32) outcome \<times> page_manager" where
  "BorrowFromLeftLeaf self sib pm =
     (let sibCount = GetCount (pmPages pm sib)
      in if sibCount = 0 then (Err ErrBorrowSourceEmpty, pm) else borrow_leaf (sibCount - 1) 0 self sib pm)"

definition BorrowFromRightLeaf :: "u32 \<Rightarrow> u32 \<Rightarrow> page_manager \<Rightarrow> (u32 \<times> u32) outcome \<times> page_manager" where
  "BorrowFromRightLeaf self sib pm =
     (let sibCount = GetCount (pmPages pm sib)
      in if sibCount = 0 then (Err ErrBorrowSourceEmpty, pm) else borrow_leaf 0 (GetCount (pmPages pm self)) self sib pm)"

section \<open>Index pages\<close>

text \<open>The keys and child ids of the entries from \<open>start\<close> up to \<open>end\<close>.\<close>

definition node_range :: "nat \<Rightarrow> nat \<Rightarrow> page \<Rightarrow> (bytes \<times> u32) list" where
  "node_range start end pg = map (\<lambda>i. (index_key_at pg i, ucast (ieChild (index_entry_at i pg)))) [start..<end]"

text \<open>A new index page is filled and given its last child; on failure the pages in \<open>drop\<close> are freed too.\<close>

definition new_node :: "u32 list \<Rightarrow> u64 \<Rightarrow> (bytes \<times> u32) list \<Rightarrow> u32 \<Rightarrow> page_manager \<Rightarrow> u32 outcome \<times> page_manager" where
  "new_node drops ver kcs extra pm = (case pageAlloc pm of
     (Ok q, pm1) \<Rightarrow>
       (case fill_index q 0 kcs 0 (with_page q (InitIndexPage ver) pm1) of
          (Ok _, _, pm2) \<Rightarrow> (case SetChild q (length kcs) extra pm2 of
              (Ok _, pm3) \<Rightarrow> (Ok q, pm3) | (Err e, pm3) \<Rightarrow> (Err e, pm3) | (Panic, pm3) \<Rightarrow> (Panic, pm3))
        | (Err e, _, pm2) \<Rightarrow> (Err e, freed q (fold freed drops pm2))
        | (Panic, _, pm2) \<Rightarrow> (Panic, pm2))
   | (Err e, pm1) \<Rightarrow> (Err e, fold freed drops pm1)
   | (Panic, pm1) \<Rightarrow> (Panic, pm1))"

definition MergeNodes :: "u32 \<Rightarrow> u32 \<Rightarrow> bytes \<Rightarrow> page_manager \<Rightarrow> u32 outcome \<times> page_manager" where
  "MergeNodes left right separator pm =
     (let l = pmPages pm left; r = pmPages pm right; n = GetCount l; m = GetCount r
      in new_node [] (phVersion l + 1)
           (node_range 0 n l @ [(separator, ucast (GetChild n l))] @ node_range 0 m r) (ucast (GetChild m r)) pm)"

definition BorrowFromLeftNode :: "u32 \<Rightarrow> u32 \<Rightarrow> bytes \<Rightarrow> page_manager \<Rightarrow> (u32 \<times> u32 \<times> bytes) outcome \<times> page_manager" where
  "BorrowFromLeftNode self sib separator pm =
     (let s = pmPages pm self; b = pmPages pm sib; sibCount = GetCount b; n = GetCount s; lastIdx = sibCount - 1
      in if sibCount = 0 then (Err ErrBorrowSourceEmpty, pm)
         else
           let sibLastKey = index_key_at b lastIdx; sibExtraChild = ucast (GetChild sibCount b)
           in case new_node [] (phVersion s + 1) ((sibLastKey, sibExtraChild) # node_range 0 n s) (ucast (GetChild n s)) pm of
                (Ok q, pm1) \<Rightarrow>
                  (case new_node [q] (phVersion b + 1) (node_range 0 lastIdx b) (ucast (GetChild lastIdx b)) pm1 of
                     (Ok q', pm2) \<Rightarrow> (Ok (q, q', sibLastKey), pm2)
                   | (Err e, pm2) \<Rightarrow> (Err e, pm2)
                   | (Panic, pm2) \<Rightarrow> (Panic, pm2))
              | (Err e, pm1) \<Rightarrow> (Err e, pm1)
              | (Panic, pm1) \<Rightarrow> (Panic, pm1))"

definition BorrowFromRightNode :: "u32 \<Rightarrow> u32 \<Rightarrow> bytes \<Rightarrow> page_manager \<Rightarrow> (u32 \<times> u32 \<times> bytes) outcome \<times> page_manager" where
  "BorrowFromRightNode self sib separator pm =
     (let b = pmPages pm sib; sibCount = GetCount b; n = GetCount (pmPages pm self)
      in if sibCount = 0 then (Err ErrBorrowSourceEmpty, pm)
         else
           let sibFirstKey = index_key_at b 0; sibFirstChild = ucast (ieChild (index_entry_at 0 b));
               selfExtraChild = ucast (GetChild n (pmPages pm self))
           in case cowCopy self pm of
                (Ok q, pm1) \<Rightarrow>
                  (case insert_index q n sibFirstKey sibFirstChild (GetDataEnd (pmPages pm1 q)) pm1 of
                     (Ok _, _, pm2) \<Rightarrow>
                       (case SetChild q (n + 1) selfExtraChild pm2 of
                          (Ok _, pm3) \<Rightarrow>
                            (case new_node [q] (phVersion b + 1) (node_range 1 sibCount b) (ucast (GetChild sibCount b)) pm3 of
                               (Ok q', pm4) \<Rightarrow> (Ok (q, q', sibFirstKey), pm4)
                             | (Err e, pm4) \<Rightarrow> (Err e, pm4)
                             | (Panic, pm4) \<Rightarrow> (Panic, pm4))
                        | (Err e, pm3) \<Rightarrow> (Err e, pm3)
                        | (Panic, pm3) \<Rightarrow> (Panic, pm3))
                   | (Err e, _, pm2) \<Rightarrow> (Err e, freed q pm2)
                   | (Panic, _, pm2) \<Rightarrow> (Panic, pm2))
              | (Err e, pm1) \<Rightarrow> (Err e, pm1)
              | (Panic, pm1) \<Rightarrow> (Panic, pm1))"

section \<open>Merging leaves\<close>

lemma collect_all: "collectKVRange 0 (GetCount pg) pg = leaf_kvs pg"
  by (simp add: collectKVRange_def leaf_kvs_def leaf_entries_def)

lemma with_page_compose: "with_page q f (with_page q g pm) = with_page q (f \<circ> g) pm"
  by (simp add: with_page_def)

lemma MergeLeaves_rebuild:
  assumes "store_ok pm own" "left \<in> own" "right \<in> own"
  shows "MergeLeaves left right pm =
    (case rebuild (phVersion (pmPages pm left) + 1) (leaf_kvs (pmPages pm left) @ leaf_kvs (pmPages pm right)) pm of
       (Ok q, pm') \<Rightarrow> (Ok q, with_page q
         (\<lambda>pg. pg\<lparr>tombstoneCount := tombstoneCount (pmPages pm left) + tombstoneCount (pmPages pm right)\<rparr>) pm')
     | (r, pm') \<Rightarrow> (r, pm'))"
proof -
  obtain r pm1 where al: "pageAlloc pm = (r, pm1)" by (cases "pageAlloc pm")
  note a = store_ok_alloc [OF assms(1), unfolded al]
  show ?thesis
  proof (cases r)
    case (Ok q)
    have q: "q \<notin> own" "cow_step pm own (insert q own) pm1" using a Ok by simp_all
    have same: "pmPages pm1 left = pmPages pm left" "pmPages pm1 right = pmPages pm right" "left \<noteq> q" "right \<noteq> q"
      using q assms(2,3) by (auto simp: cow_step_def)
    obtain r2 de pg where put: "put_list put_kv 0 (leaf_kvs (pmPages pm left) @ leaf_kvs (pmPages pm right)) 0
        (InitLeafPage (phVersion (pmPages pm left) + 1) (pmPages pm1 q)) = (r2, de, pg)" by (metis prod_cases3)
    then show ?thesis
      using al Ok same by (cases r2) (simp_all add: MergeLeaves_def rebuild_def Let_def collect_all with_page_compose o_def)
  qed (use al a in \<open>simp_all add: MergeLeaves_def rebuild_def Let_def\<close>)
qed

text \<open>Merging two neighbouring sorted leaf pages returns a new sorted leaf page whose entries are those of the
  left page followed by those of the right page, with the sum of the tombstone counts. It fails only
  when the entries together do not fit into a page or no page is left; no page in use changes.\<close>

theorem merge_leaves_refines:
  assumes "store_ok pm own" "left \<in> own" "right \<in> own" "sorted_leaf (pmPages pm left)" "sorted_leaf (pmPages pm right)"
    "\<forall>a\<in>set (leaf_kvs (pmPages pm left)). \<forall>b\<in>set (leaf_kvs (pmPages pm right)). fst a < fst b"
  shows "case MergeLeaves left right pm of
      (Ok q, pm') \<Rightarrow> q \<notin> own \<and> cow_step pm own (insert q own) pm' \<and> sorted_leaf (pmPages pm' q) \<and>
        leaf_kvs (pmPages pm' q) = leaf_kvs (pmPages pm left) @ leaf_kvs (pmPages pm right) \<and>
        tombstoneCount (pmPages pm' q) = tombstoneCount (pmPages pm left) + tombstoneCount (pmPages pm right)
    | (Err e, pm') \<Rightarrow> cow_step pm own own pm' \<and>
        (e = ErrOffHeapPageFull \<and> \<not> kvs_fit (leaf_kvs (pmPages pm left) @ leaf_kvs (pmPages pm right)) \<or>
         e = ErrOffHeapOutOfMemory \<and> no_page_left pm own)
    | (Panic, pm') \<Rightarrow> False"
proof -
  let ?kvs = "leaf_kvs (pmPages pm left) @ leaf_kvs (pmPages pm right)"
  let ?ver = "phVersion (pmPages pm left) + 1"
  have ok: "leaf_ok (pmPages pm left)" "leaf_ok (pmPages pm right)" using assms(4,5) by (simp_all add: sorted_leaf_def)
  have small: "\<forall>kv\<in>set ?kvs. kv_weight kv < 2147483648"
    using kvs_weights_small [OF ok(1)] kvs_weights_small [OF ok(2)] by fastforce
  have sorted: "sorted_wrt (<) (map fst ?kvs)"
    using assms(4-6) by (auto simp: sorted_leaf_def sorted_wrt_append)
  obtain r pm1 where rb: "rebuild ?ver ?kvs pm = (r, pm1)" by (cases "rebuild ?ver ?kvs pm")
  note res = rebuild_result [OF assms(1) small, of ?ver, unfolded rb]
  note eq = MergeLeaves_rebuild [OF assms(1-3), unfolded rb]
  show ?thesis
  proof (cases r)
    case (Ok q)
    have q: "q \<notin> own" "cow_step pm own (insert q own) pm1" "leaf_ok (pmPages pm1 q)" "leaf_kvs (pmPages pm1 q) = ?kvs"
      using res Ok by simp_all
    have "cow_step pm own (insert q own) (with_page q (\<lambda>pg. pg\<lparr>tombstoneCount := tc\<rparr>) pm1)" for tc
      using q by (intro write_step) (simp_all add: leaf_ok_def)
    with eq Ok q sorted show ?thesis by (simp add: sorted_leaf_def)
  qed (use res eq in simp_all)
qed

section \<open>Merging index pages\<close>

lemma node_range_all: "node_range 0 (GetCount pg) pg = node_entries pg"
  by (simp add: node_range_def node_entries_def index_kcs_def index_entries_def index_kc_def index_key_at_def child_id_ucast)

lemma last_child: "(ucast (GetChild (GetCount pg) pg) :: u32) = child_id (extraChild pg)"
  by (simp add: GetChild_def child_id_ucast)

lemma new_node_result:
  assumes "cow_step pm own own' pm1" "unat (nextPageID pm1) < 4294967295" "own \<subseteq> own'" "kcs_fit kcs" "\<forall>kc\<in>set kcs. snd kc \<noteq> 0"
  shows "case new_node drops ver kcs extra pm1 of
      (Ok q, pm2) \<Rightarrow> q \<notin> own' \<and> cow_step pm own (insert q own') pm2 \<and> index_ok (pmPages pm2 q) \<and> node_keys (pmPages pm2 q) = map fst kcs \<and>
        node_children (pmPages pm2 q) = map snd kcs @ [extra] \<and> phVersion (pmPages pm2 q) = ver \<and>
        unat (nextPageID pm2) \<le> Suc (unat (nextPageID pm1)) \<and> (\<forall>x. x \<noteq> q \<longrightarrow> pmPages pm2 x = pmPages pm1 x)
    | (Err e, pm2) \<Rightarrow> e = ErrOffHeapOutOfMemory \<and> no_page_left pm own' \<and> (drops = [] \<longrightarrow> cow_step pm own own' pm2)
    | (Panic, pm2) \<Rightarrow> False"
proof -
  obtain r pm2 where al: "pageAlloc pm1 = (r, pm2)" by (cases "pageAlloc pm1")
  note a = alloc_step [OF assms(1-3), unfolded al]
  show ?thesis
  proof (cases r)
    case (Ok q)
    have q: "q \<notin> own'" "cow_step pm own (insert q own') pm2" "unat (nextPageID pm2) \<le> Suc (unat (nextPageID pm1))" using a Ok by simp_all
    have len: "length (pageBytes (pmPages pm2 q)) = 4096" using q(2) by (simp add: cow_step_def)
    let ?pm0 = "with_page q (InitIndexPage ver) pm2"
    from fill_index_result [OF len _ assms(4,5), of ?pm0 q ver extra] obtain de pg pg' where
      f: "fill_index q 0 kcs 0 ?pm0 = (Ok (), de, with_page q (\<lambda>_. pg) pm2)"
        "SetChild q (length kcs) extra (with_page q (\<lambda>_. pg) pm2) = (Ok (), with_page q (\<lambda>_. pg') pm2)"
        "index_ok pg'" "node_keys pg' = map fst kcs" "node_children pg' = map snd kcs @ [extra]" "phVersion pg' = ver" by auto
    have "cow_step pm own (insert q own') (with_page q (\<lambda>_. pg') pm2)"
      using q f(3) assms(3) by (intro write_step) (auto simp: index_ok_def)
    moreover have "\<forall>x. x \<noteq> q \<longrightarrow> pmPages pm2 x = pmPages pm1 x" using alloc_pages(1) [OF al [unfolded Ok]] by simp
    ultimately show ?thesis using al Ok q f by (simp add: new_node_def)
  next
    case (Err e)
    with a al show ?thesis by (cases "drops = []") (simp_all add: new_node_def)
  qed (use a in simp)
qed

lemma entries_proper: "proper_node p pg \<Longrightarrow> kc \<in> set (node_entries pg) \<Longrightarrow> snd kc \<noteq> 0"
  "proper_node p pg \<Longrightarrow> child_id (extraChild pg) \<noteq> 0"
  using node_of_entries(2) [of pg] by (fastforce simp: proper_node_def list_all_iff)+

text \<open>Merging two neighbouring index pages with the separator of their parent returns a new index page whose keys are
  those of the left page, the separator and those of the right page, and whose children are those of the
  left page followed by those of the right page, whenever the keys fit into one page; then it fails only
  when no page is left. No page in use changes.\<close>

theorem merge_nodes_refines:
  assumes "store_ok pm own" "left \<in> own" "right \<in> own" "proper_node left (pmPages pm left)" "proper_node right (pmPages pm right)"
    "56 + (GetCount (pmPages pm left) + 1 + GetCount (pmPages pm right)) * 16 +
       (\<Sum>k\<leftarrow>node_keys (pmPages pm left) @ [separator] @ node_keys (pmPages pm right). length k) \<le> 4096"
  shows "case MergeNodes left right separator pm of
      (Ok q, pm') \<Rightarrow> q \<notin> own \<and> cow_step pm own (insert q own) pm' \<and> index_ok (pmPages pm' q) \<and>
        node_keys (pmPages pm' q) = node_keys (pmPages pm left) @ [separator] @ node_keys (pmPages pm right) \<and>
        node_children (pmPages pm' q) = node_children (pmPages pm left) @ node_children (pmPages pm right)
    | (Err e, pm') \<Rightarrow> cow_step pm own own pm' \<and> e = ErrOffHeapOutOfMemory \<and> no_page_left pm own
    | (Panic, pm') \<Rightarrow> False"
proof -
  let ?l = "pmPages pm left" and ?r = "pmPages pm right"
  let ?kcs = "node_entries ?l @ [(separator, child_id (extraChild ?l))] @ node_entries ?r"
  have eq: "MergeNodes left right separator pm = new_node [] (phVersion ?l + 1) ?kcs (child_id (extraChild ?r)) pm"
    by (simp add: MergeNodes_def Let_def node_range_all last_child)
  have "map (\<lambda>kc. length (fst kc)) ?kcs = map length (node_keys ?l @ [separator] @ node_keys ?r)"
    by (simp add: node_of_entries(1))
  then have fit: "kcs_fit ?kcs" using assms(6) unfolding kcs_fit_def by (simp add: node_of_entries(3))
  have kids: "\<forall>kc\<in>set ?kcs. snd kc \<noteq> 0"
    using entries_proper [OF assms(4)] entries_proper [OF assms(5)] by auto
  have st: "cow_step pm own own pm" "unat (nextPageID pm) < 4294967295" using assms(1) by (simp_all add: store_ok_def)
  from new_node_result [OF st order_refl fit kids, where drops = "[]" and ver = "phVersion ?l + 1" and extra = "child_id (extraChild ?r)"] show ?thesis
    unfolding eq by (auto simp: node_of_entries split: prod.splits outcome.splits)
qed

section \<open>Borrowing\<close>

lemma fill_leaf_fits:
  assumes "length (pageBytes pg0) = 4096" "kvs_fit kvs"
  shows "\<exists>de pg. put_list put_kv 0 kvs 0 (InitLeafPage ver pg0) = (Ok (), de, pg) \<and> leaf_ok pg \<and> leaf_kvs pg = kvs"
proof -
  let ?pg = "InitLeafPage ver pg0"
  note init = leaf_init [OF assms(1), of ver]
  have n: "GetCount ?pg = 0" using leaf_lengths(2) [of ?pg] init(2) by simp
  have "\<exists>pg'. put_list put_kv 0 kvs (GetDataEnd ?pg) ?pg = (Ok (), GetDataEnd pg', pg') \<and> leaf_ok pg' \<and>
      leaf_kvs pg' = leaf_kvs ?pg @ kvs \<and> same_header ?pg pg'"
    using assms(2) n by (intro leaf_page.put_list_fits [OF init(1)]) (simp_all add: init kvs_fit_def)
  then show ?thesis by (auto simp: init)
qed

lemma kvs_fit_remove: "kvs_fit kvs \<Longrightarrow> kvs_fit (remove_at i kvs)"
proof (cases "i < length kvs")
  case True
  assume fit: "kvs_fit kvs"
  have "(\<Sum>kv\<leftarrow>insert_at i (kvs ! i) (remove_at i kvs). kv_weight kv) = (\<Sum>kv\<leftarrow>kvs. kv_weight kv)"
    by (simp only: insert_remove_at [OF True])
  then show ?thesis using fit True by (simp add: kvs_fit_def remove_at_def)
qed (simp add: remove_at_def)

lemma borrow_leaf_result:
  assumes "store_ok pm own" "self \<in> own" "sib \<in> own" "leaf_ok (pmPages pm self)" "leaf_ok (pmPages pm sib)"
    "from < GetCount (pmPages pm sib)" "to \<le> GetCount (pmPages pm self)"
    "borrow_leaf from to self sib pm = (Ok (q, q'), pm')"
  shows "leaf_kvs (pmPages pm' q) = insert_at to (leaf_kvs (pmPages pm sib) ! from) (leaf_kvs (pmPages pm self))"
    "leaf_kvs (pmPages pm' q') = remove_at from (leaf_kvs (pmPages pm sib))"
    "q \<notin> own" "q' \<notin> own" "q \<noteq> q'" "cow_step pm own (insert q' (insert q own)) pm'"
proof -
  let ?s = "pmPages pm self" and ?b = "pmPages pm sib"
  let ?cp = "?s\<lparr>phVersion := phVersion ?s + 1\<rparr>" and ?kv = "leaf_kvs (pmPages pm sib) ! from"
  have kv: "leaf_kv ?b (leaf_entry_at from ?b) = ?kv" using assms(6) by (simp add: leaf_kvs_nth)
  obtain r pm1 where cow: "cowCopy self pm = (r, pm1)" by (cases "cowCopy self pm")
  note c = cow_copy(2) [OF assms(1,2), unfolded cow]
  obtain q1 where "r = Ok q1" using assms(8) cow by (cases r) (auto simp: borrow_leaf_def kv split: prod.splits)
  with c cow have q1: "cowCopy self pm = (Ok q1, pm1)" "q1 \<notin> own" "cow_step pm own (insert q1 own) pm1" "pmPages pm1 q1 = ?cp"
    "unat (nextPageID pm1) < 4294967295" by simp_all
  have cp: "leaf_ok ?cp" "GetCount ?cp = GetCount ?s" "leaf_kvs ?cp = leaf_kvs ?s" using assms(4) by simp_all
  have room: "entry_room ?cp (kv_weight ?kv)"
  proof (rule ccontr)
    assume no: "\<not> entry_room ?cp (kv_weight ?kv)"
    have "kv_weight ?kv < 2147483648" using kvs_weights_small [OF assms(5), of ?kv] assms(6) by simp
    from leaf_page.put_full [OF TrueI this no, of to] show False
      using assms(8) q1 by (auto simp: borrow_leaf_def kv put_kv_def split: prod.splits)
  qed
  from leaf_page.put_fits [OF cp(1) TrueI _ room, of to] assms(7) cp obtain pg where
    pg: "put_kv to ?kv (GetDataEnd ?cp) ?cp = (Ok (), GetDataEnd pg, pg)" "leaf_ok pg" "leaf_kvs pg = insert_at to ?kv (leaf_kvs ?s)" by auto
  let ?pm2 = "with_page q1 (\<lambda>_. pg) pm1"
  have s2: "cow_step pm own (insert q1 own) ?pm2" using q1 pg(2) by (intro write_step) (simp_all add: leaf_ok_def)
  then have sib2: "pmPages ?pm2 sib = ?b" using assms(3) by (simp add: cow_step_def)
  obtain r2 pm3 where al: "pageAlloc ?pm2 = (r2, pm3)" by (cases "pageAlloc ?pm2")
  have "unat (nextPageID ?pm2) < 4294967295" using q1(5) by simp
  note b = alloc_step [OF s2 this subset_insertI, unfolded al]
  have col: "CollectKVExcept (int from) ?b = (map fst (remove_at from (leaf_kvs ?b)), map snd (remove_at from (leaf_kvs ?b)))"
    by (rule CollectKVExcept_zip [OF assms(6)])
  have ins: "InsertLeafEntry to (fst ?kv) (snd ?kv) (GetDataEnd ?cp) ?cp = (Ok (), GetDataEnd pg, pg)"
    using pg(1) by (simp only: put_kv_def)
  have kv_pair: "leaf_kv ?b (leaf_entry_at from ?b) = (fst ?kv, snd ?kv)" using kv by simp
  have sib1: "sib \<noteq> q1" "pmPages pm1 sib = ?b" using q1 assms(3) by (auto simp: cow_step_def)
  have run: "borrow_leaf from to self sib pm = (case (r2, pm3) of
       (Ok q', pm3) \<Rightarrow>
         (case put_list put_kv 0 (remove_at from (leaf_kvs ?b)) 0 (InitLeafPage (phVersion (pmPages pm3 sib) + 1) (pmPages pm3 q')) of
            (Ok _, _, pg') \<Rightarrow>
              let t = snd ?kv \<noteq> [] \<and> snd ?kv ! 0 = FlagTombstone;
                  selfTC = tombstoneCount (pmPages pm3 self); sibTC = tombstoneCount (pmPages pm3 sib)
              in (Ok (q1, q'), with_page q' (\<lambda>_. pg'\<lparr>tombstoneCount := if t then sibTC - 1 else sibTC\<rparr>)
                    (with_page q1 (\<lambda>pg. pg\<lparr>tombstoneCount := if t then selfTC + 1 else selfTC\<rparr>) pm3))
          | (Err e, _, pg') \<Rightarrow> (Err e, freed q' (freed q1 (with_page q' (\<lambda>_. pg') pm3)))
          | (Panic, _, pg') \<Rightarrow> (Panic, pm3))
     | (Err e, pm3) \<Rightarrow> (Err e, freed q1 pm3)
     | (Panic, pm3) \<Rightarrow> (Panic, pm3))"
    unfolding borrow_leaf_def kv_pair prod.case
    using q1 ins al sib1 by (cases r2) (simp_all add: Let_def col zip_map_fst_snd)
  obtain q2 where r2: "r2 = Ok q2" using assms(8) run by (cases r2) auto
  have q2: "q2 \<notin> insert q1 own" "cow_step pm own (insert q2 (insert q1 own)) pm3" using b r2 by simp_all
  have q1p: "pmPages pm3 q1 = pg" using alloc_pages(1) [OF al [unfolded r2], of q1] q2(1) by auto
  have len: "length (pageBytes (pmPages pm3 q2)) = 4096" using q2(2) by (simp add: cow_step_def)
  from fill_leaf_fits [OF len kvs_fit_remove [OF kvs_fit_leaf [OF assms(5)]], of "from" "phVersion (pmPages pm3 sib) + 1"] obtain de pg' where
    pg': "put_list put_kv 0 (remove_at from (leaf_kvs ?b)) 0 (InitLeafPage (phVersion (pmPages pm3 sib) + 1) (pmPages pm3 q2)) = (Ok (), de, pg')"
      "leaf_ok pg'" "leaf_kvs pg' = remove_at from (leaf_kvs ?b)" by auto
  obtain tc1 tc2 where fin: "q = q1" "q' = q2" "pm' = with_page q2 (\<lambda>_. pg'\<lparr>tombstoneCount := tc2\<rparr>) (with_page q1 (\<lambda>pg. pg\<lparr>tombstoneCount := tc1\<rparr>) pm3)"
    using assms(8) run r2 pg'(1) by (auto simp: Let_def)
  have ne: "q1 \<noteq> q2" using q2(1) by auto
  show "q \<notin> own" "q' \<notin> own" "q \<noteq> q'" using fin q1(2) q2(1) ne by auto
  show "leaf_kvs (pmPages pm' q) = insert_at to ?kv (leaf_kvs ?s)" "leaf_kvs (pmPages pm' q') = remove_at from (leaf_kvs ?b)"
    using fin ne q1p pg(3) pg'(3) by simp_all
  show "cow_step pm own (insert q' (insert q own)) pm'"
    unfolding fin using q1(2) q2 pg(2) pg'(2) q1p by (intro write_step) (simp_all add: leaf_ok_def)
qed

text \<open>
  Borrowing between index pages ignores the separator. From the right sibling, the page keeps its last child behind the
  borrowed one, although the borrowed child holds the larger keys.
\<close>

lemma insert_set_next:
  "insert_index q i k c de pm = (r, de', pm') \<Longrightarrow> nextPageID pm' = nextPageID pm"
  "SetChild q i c pm = (r', pm') \<Longrightarrow> nextPageID pm' = nextPageID pm"
  by (auto simp: insert_index_def SetChild_def Let_def split: prod.splits)

lemma node_range_tail:
  assumes "index_ok pg" "0 < GetCount pg"
  shows "node_range 1 (GetCount pg) pg = tl (node_entries pg)"
  using node_range_all [of pg] assms(2) by (auto simp: node_range_def upt_conv_Cons simp flip: node_range_all)

theorem borrow_right_node_swaps:
  assumes "store_ok pm own" "self \<in> own" "sib \<in> own" "index_ok (pmPages pm self)" "proper_node sib (pmPages pm sib)"
    "0 < GetCount (pmPages pm sib)" "BorrowFromRightNode self sib separator pm = (Ok (q, q', k), pm')"
  shows "node_keys (pmPages pm' q) = node_keys (pmPages pm self) @ [hd (node_keys (pmPages pm sib))]"
    "node_children (pmPages pm' q) =
      butlast (node_children (pmPages pm self)) @ [hd (node_children (pmPages pm sib)), last (node_children (pmPages pm self))]"
    "node_children (pmPages pm' q') = tl (node_children (pmPages pm sib))"
proof -
  let ?s = "pmPages pm self" and ?b = "pmPages pm sib"
  let ?n = "GetCount ?s"
  let ?key = "index_key_at ?b 0" and ?child = "ucast (ieChild (index_entry_at 0 ?b)) :: u32" and ?extra = "ucast (GetChild ?n ?s) :: u32"
  have b: "index_ok ?b" using assms(5) by (simp add: proper_node_def)
  have ne: "node_entries ?b \<noteq> []" using assms(6) node_of_entries(3) [of ?b] by auto
  have hd: "(?key, ?child) = hd (node_entries ?b)"
    using assms(6) by (simp add: node_range_def upt_conv_Cons flip: node_range_all)
  have child: "?child \<noteq> 0" using entries_proper(1) [OF assms(5) hd_in_set [OF ne]] by (simp flip: hd)
  have len: "length ?key < 2147483648"
    using node_entries_fit [OF b] ne hd by (cases "node_entries ?b") (auto simp: kcs_fit_def)
  obtain r pm1 where cow: "cowCopy self pm = (r, pm1)" by (cases "cowCopy self pm")
  note c = cow_copy(2) [OF assms(1,2), unfolded cow]
  obtain q1 where r: "r = Ok q1"
    using assms(6,7) cow by (cases r) (auto simp: BorrowFromRightNode_def Let_def)
  have q1: "copied pm own ?s q1 pm1" "unat (nextPageID pm1) < 4294967295" using c r by (simp_all add: copied_def)
  obtain r2 de pm2 where ins: "insert_index q1 ?n ?key ?child (GetDataEnd (pmPages pm1 q1)) pm1 = (r2, de, pm2)" by (metis prod_cases3)
  obtain r3 pm3 where sc: "SetChild q1 (?n + 1) ?extra pm2 = (r3, pm3)" by (cases "SetChild q1 (?n + 1) ?extra pm2")
  have ok: "r2 = Ok ()" "r3 = Ok ()"
    using assms(6,7) cow r ins sc by (auto simp: BorrowFromRightNode_def Let_def split: outcome.splits)
  have res: "q1 \<notin> own" "cow_step pm own (insert q1 own) pm3" "index_ok (pmPages pm3 q1)"
    "node_keys (pmPages pm3 q1) = insert_at ?n ?key (node_keys ?s)"
    "node_children (pmPages pm3 q1) = split_child ?n ?child ?extra (node_children ?s)"
    using insert_child_last [OF q1(1) assms(4) child len, of ?extra] ins sc ok by (simp_all add: child_inserted_def)
  have next3: "unat (nextPageID pm3) < 4294967295"
    using q1(2) insert_set_next(1) [OF ins] insert_set_next(2) [OF sc] by simp
  have tail: "node_range 1 (GetCount ?b) ?b = tl (node_entries ?b)" by (rule node_range_tail [OF b assms(6)])
  have "remove_at 0 (node_entries ?b) = tl (node_entries ?b)" by (simp add: remove_at_def drop_Suc)
  then have fit: "kcs_fit (tl (node_entries ?b))" using kcs_fit_remove [OF node_entries_fit [OF b], of 0] by simp
  have kids: "\<forall>kc\<in>set (tl (node_entries ?b)). snd kc \<noteq> 0"
    using entries_proper(1) [OF assms(5)] by (auto dest: list.set_sel(2) [OF ne])
  note nn = new_node_result [OF res(2) next3 subset_insertI fit kids, where drops = "[q1]" and ver = "phVersion ?b + 1" and extra = "ucast (GetChild (GetCount ?b) ?b)"]
  obtain r4 pm4 where new: "new_node [q1] (phVersion ?b + 1) (tl (node_entries ?b)) (ucast (GetChild (GetCount ?b) ?b)) pm3 = (r4, pm4)"
    by (cases "new_node [q1] (phVersion ?b + 1) (tl (node_entries ?b)) (ucast (GetChild (GetCount ?b) ?b)) pm3")
  have fin: "r4 = Ok q'" "q = q1" "pm' = pm4"
    using assms(6,7) cow r ins sc ok new tail by (auto simp: BorrowFromRightNode_def Let_def split: outcome.splits)
  have q': "q' \<noteq> q1" "pmPages pm4 q1 = pmPages pm3 q1"
    "node_children (pmPages pm4 q') = map snd (tl (node_entries ?b)) @ [child_id (extraChild ?b)]"
    using nn new fin(1) by (auto simp: last_child)
  have last: "?extra = last (node_children ?s)" by (simp add: last_child node_children_def)
  have front: "take ?n (node_children ?s) = butlast (node_children ?s)" by (simp add: butlast_conv_take)
  have heads: "?key = hd (node_keys ?b)" "?child = hd (node_children ?b)"
  proof -
    have "hd (node_keys ?b) = fst (hd (node_entries ?b))" "hd (node_children ?b) = snd (hd (node_entries ?b))"
      using ne by (simp_all add: node_of_entries hd_map)
    then show "?key = hd (node_keys ?b)" "?child = hd (node_children ?b)" by (simp_all only: hd [symmetric] fst_conv snd_conv)
  qed
  show "node_keys (pmPages pm' q) = node_keys ?s @ [hd (node_keys ?b)]"
    using fin q' res(4) heads by (simp add: insert_at_def)
  show "node_children (pmPages pm' q) = butlast (node_children ?s) @ [hd (node_children ?b), last (node_children ?s)]"
    using fin q' res(5) heads last front by (simp add: split_child_def)
  show "node_children (pmPages pm' q') = tl (node_children ?b)"
    using fin q'(3) ne by (simp add: node_of_entries tl_append2 map_tl)
qed

section \<open>Examples\<close>

theorem merge_nodes_refines_witness:
  "\<exists>pm. node_store pm \<and> (case MergeNodes 0 1 [8] pm of
      (Ok q, pm') \<Rightarrow> q \<notin> {0, 1} \<and> node_keys (pmPages pm' q) = [[2], [4], [6], [8], [9]] \<and>
        node_children (pmPages pm' q) = [10, 11, 12, 13, 14, 15]
    | (Err e, pm') \<Rightarrow> e = ErrOffHeapOutOfMemory
    | (Panic, pm') \<Rightarrow> False)"
proof -
  obtain pm where pm: "node_store pm" using ex_node_store by blast
  note st = node_storeD [OF pm]
  from merge_nodes_refines [OF st(1) _ _ st(2,3), of "[8]"] st pm show ?thesis
    by (intro exI [of _ pm]) (auto split: prod.splits outcome.splits)
qed

theorem merge_leaves_refines_witness:
  "\<exists>pm. store_ok pm {0, 1} \<and> leaf_kvs (pmPages pm 0) = [([1], [2])] \<and> leaf_kvs (pmPages pm 1) = [([3], [4])] \<and>
    (case MergeLeaves 0 1 pm of
      (Ok q, pm') \<Rightarrow> q \<notin> {0, 1} \<and> leaf_kvs (pmPages pm' q) = [([1], [2]), ([3], [4])]
    | (Err e, pm') \<Rightarrow> e = ErrOffHeapOutOfMemory
    | (Panic, pm') \<Rightarrow> False)"
proof -
  have len: "length (pageBytes zero_page) = 4096" by (simp add: zero_page_def)
  from fill_leaf_fits [OF len, of "[([1], [2])]" 1] obtain a where a: "leaf_ok a" "leaf_kvs a = [([1], [2])]"
    by (auto simp: kvs_fit_def kv_weight_def)
  from fill_leaf_fits [OF len, of "[([3], [4])]" 1] obtain b where b: "leaf_ok b" "leaf_kvs b = [([3], [4])]"
    by (auto simp: kvs_fit_def kv_weight_def)
  let ?pm = "\<lparr>pmTotal = 8, pmUsed = 2, nextPageID = 2, freeList = [], pmPages = \<lambda>p. if p = 0 then a else b\<rparr>"
  have "store_ok ?pm {0, 1}" using a b by (intro two_page_store) (simp_all add: leaf_ok_def)
  moreover have "sorted_leaf (pmPages ?pm 0)" "sorted_leaf (pmPages ?pm 1)" using a b by (simp_all add: sorted_leaf_def)
  moreover have "kvs_fit [([1], [2]), ([3], [4])]" by (simp add: kvs_fit_def kv_weight_def)
  ultimately show ?thesis using merge_leaves_refines [of ?pm "{0, 1}" 0 1] a b
    by (intro exI [of _ ?pm]) (auto split: prod.splits outcome.splits)
qed

end
