(* ===== verification/BTree_Merging.thy ===== *)
theory BTree_Merging
  imports BTree_Split Page_Merge
begin

text \<open>
  Lazy merging after a delete (\<open>btree/merge_ops.go\<close>): a sparse leaf is merged with a sparse sibling, the
  parent loses a child, an index node that has become sparse is merged in turn, and a root with one
  key left is replaced by its first child. It runs only in a tree with an epoch manager.

  The fill ratio of a page is a multiple of 1/4096 and that of a node a multiple of 1/126, so the comparison
  with \<open>MergeThreshold\<close> = 0.5 is exact and is done on the integers.
\<close>

definition isLeafSparse :: "page \<Rightarrow> bool" where
  "isLeafSparse pg = (2 * unat (usedSpaceOf pg) < PageSize)"

definition isNodeSparse :: "page \<Rightarrow> bool" where
  "isNodeSparse pg = (2 * (GetCount pg + 1) < MaxInternalKeys)"

text \<open>The sibling to merge with: its index, and whether the node itself is the left one.\<close>

definition pick_sibling :: "int \<Rightarrow> nat \<Rightarrow> (int \<times> bool) option" where
  "pick_sibling idx childCount =
     (if 0 < idx then Some (idx - 1, False)
      else if idx < int childCount - 1 then Some (idx + 1, True) else None)"

text \<open>A separator index at or beyond the end of the list makes the call return without a change, as does a
  child index beyond the children.\<close>

definition mergeChildRefsInCache :: "nat \<Rightarrow> int \<Rightarrow> u32 \<Rightarrow> btree \<Rightarrow> btree" where
  "mergeChildRefsInCache parentRef rmIdx mergedPageID b =
     (case prChildren (btRefs b parentRef) of
        None \<Rightarrow> b
      | Some cur \<Rightarrow>
          if int (length (ccChildren cur)) \<le> rmIdx + 1 then b
          else if int (length (ccSeparators cur)) \<le> rmIdx then b
          else
            let (mergedRef, b1) = NewPageRef mergedPageID 0 b; i = nat rmIdx
            in set_children parentRef (Some
                 \<lparr>ccChildren = take i (ccChildren cur) @ [mergedRef] @ drop (i + 2) (ccChildren cur),
                  ccSeparators = take i (ccSeparators cur) @ drop (Suc i) (ccSeparators cur)\<rparr>) b1)"

definition retire_pair :: "u32 \<Rightarrow> u32 \<Rightarrow> btree \<Rightarrow> btree option" where
  "retire_pair p q b = (case btEpoch b of
     None \<Rightarrow> Some (FreePage q (FreePage p b))
   | Some _ \<Rightarrow> (case alloc_slot b of (sl, b1) \<Rightarrow>
       (case retire_in sl [p] b1 of None \<Rightarrow> None | Some b2 \<Rightarrow> retire_in sl [q] b2)))"

text \<open>
  Phases 1 to 4 of both merges, for two references \<open>refA\<close> and \<open>refB\<close> in the order of their pages: mark them,
  merge the pages by \<open>merge\<close>, replace two children of the parent by one, publish the parent and its cache,
  redirect the marked references and retire their pages. \<open>Ok None\<close> is a return without an
  error before that; \<open>Ok (Some p)\<close> has the new parent page.
\<close>

definition merge_refs ::
  "bool \<Rightarrow> (page_manager \<Rightarrow> u32 outcome \<times> page_manager) \<Rightarrow> nat \<Rightarrow> page_info \<Rightarrow> int \<Rightarrow> nat \<Rightarrow> page_info \<Rightarrow> nat \<Rightarrow> page_info \<Rightarrow> btree
    \<Rightarrow> u32 option outcome \<times> btree" where
  "merge_refs leaf merge parentRef parentPI removeIdx refA piA refB piB b =
     (let markA = new_info (piPageID piA) (piVersion piA + 1) leaf NodeMerging;
          markB = new_info (piPageID piB) (piVersion piB + 1) leaf NodeMerging;
          undo = (\<lambda>b. snd (CAS refB markB piB (snd (CAS refA markA piA b))))
      in case CAS refA piA markA b of
           (False, b1) \<Rightarrow> (Ok None, b1)
         | (True, b1) \<Rightarrow> (case CAS refB piB markB b1 of
               (False, b2) \<Rightarrow> (Ok None, snd (CAS refA markA piA b2))
             | (True, b2) \<Rightarrow> (case merge (btStore b2) of
                   (Err e, pm) \<Rightarrow> (Err e, undo (b2\<lparr>btStore := pm\<rparr>))
                 | (Panic, pm) \<Rightarrow> (Panic, b2\<lparr>btStore := pm\<rparr>)
                 | (Ok merged, pm) \<Rightarrow> (case RemoveChild (piPageID parentPI) removeIdx pm of
                       (Err e, pm1) \<Rightarrow> (Err e, undo (b2\<lparr>btStore := pm1\<rparr>))
                     | (Panic, pm1) \<Rightarrow> (Panic, b2\<lparr>btStore := pm1\<rparr>)
                     | (Ok removed, pm1) \<Rightarrow> (case ReplaceChild removed removeIdx merged pm1 of
                           (Err e, pm2) \<Rightarrow> (Panic, undo (b2\<lparr>btStore := pm2\<rparr>))
                         | (Panic, pm2) \<Rightarrow> (Panic, b2\<lparr>btStore := pm2\<rparr>)
                         | (Ok newParent, pm2) \<Rightarrow>
                             let newParPI = new_info newParent (piVersion parentPI + 1) False (piNodeState parentPI)
                             in (case CAS parentRef parentPI newParPI (b2\<lparr>btStore := pm2\<rparr>) of
                                   (False, b3) \<Rightarrow> (Ok None, FreePage newParent (undo b3))
                                 | (True, b3) \<Rightarrow>
                                     let b4 = mergeChildRefsInCache parentRef removeIdx merged b3;
                                         b5 = snd (CAS refA markA (redirect_info (piPageID piA) (piVersion markA + 1) leaf None) b4);
                                         b6 = snd (CAS refB markB (redirect_info (piPageID piB) (piVersion markB + 1) leaf None) b5)
                                     in (case retire_pair (piPageID piA) (piPageID piB) b6 of
                                           None \<Rightarrow> (Panic, b6) | Some b7 \<Rightarrow> (Ok (Some newParent), b7))))))))"

text \<open>\<open>mergeRoot\<close>: \<open>Count\<close> is the number of keys, one less than the number of children.\<close>

fun merge_root_loop :: "nat \<Rightarrow> btree \<Rightarrow> unit outcome \<times> btree" where
  "merge_root_loop 0 b = (Ok (), b)"
| "merge_root_loop (Suc n) b =
     (let oldRootPI = info_of b 0
      in if piIsLeaf oldRootPI then (Ok (), b)
         else case GetNodePage (piPageID oldRootPI) b of
           Ok pg \<Rightarrow>
             if GetCount (pmPages (btStore b) pg) \<noteq> 1 then (Ok (), b)
             else
               let childID = nodeGetChild 0 (pmPages (btStore b) pg);
                   known = (case prChildren (btRefs b 0) of None \<Rightarrow> None
                     | Some cache \<Rightarrow> find (\<lambda>c. prPageID (btRefs b c) = childID) (ccChildren cache));
                   (childRef, b1) = (case known of Some c \<Rightarrow> (c, b) | None \<Rightarrow> NewPageRef childID 0 b);
                   childPI = info_of b1 childRef
               in if IsBusy childPI then merge_root_loop n b1
                  else (case ReplaceRoot oldRootPI (new_info (piPageID childPI) (piVersion childPI + 1) (piIsLeaf childPI) NodeRoot)
                          (prChildren (btRefs b1 childRef)) b1 of
                      (True, b2) \<Rightarrow> (Ok (), FreePage (piPageID oldRootPI) b2)
                    | (False, b2) \<Rightarrow> merge_root_loop n b2)
         | Err e \<Rightarrow> (Err e, b)
         | Panic \<Rightarrow> (Panic, b))"

definition mergeRoot :: "btree \<Rightarrow> unit outcome \<times> btree" where
  "mergeRoot = merge_root_loop 100"

text \<open>Errors of the steps after the merge are dropped by the caller; a panic is not.\<close>

definition then_merge_root :: "unit outcome \<times> btree \<Rightarrow> unit outcome \<times> btree" where
  "then_merge_root res = (case res of
     (Panic, b) \<Rightarrow> (Panic, b)
   | (_, b) \<Rightarrow> (case mergeRoot b of (Panic, b1) \<Rightarrow> (Panic, b1) | (_, b1) \<Rightarrow> (Ok (), b1)))"

definition order_refs :: "nat \<Rightarrow> page_info \<Rightarrow> nat \<Rightarrow> page_info \<Rightarrow> btree \<Rightarrow> (nat \<times> page_info) \<times> nat \<times> page_info" where
  "order_refs r pi s pi' b = (if prPageID (btRefs b r) < prPageID (btRefs b s) then ((r, pi), s, pi') else ((s, pi'), r, pi))"

function handleInternalMerge :: "search_path \<Rightarrow> nat \<Rightarrow> page_info \<Rightarrow> btree \<Rightarrow> unit outcome \<times> btree" where
  "handleInternalMerge path nodeRef nodePI b =
     (if length path < 2 then (Ok (), b)
      else
        let (parentRef, nodeIdx) = path ! (length path - 2);
            parentPI = info_of b parentRef
        in if IsBusy parentPI then (Ok (), b)
           else case GetNodePage (piPageID parentPI) b of
             Err e \<Rightarrow> (Err e, b)
           | Panic \<Rightarrow> (Panic, b)
           | Ok parent \<Rightarrow>
               (case pick_sibling nodeIdx (GetCount (pmPages (btStore b) parent) + 1) of
                  None \<Rightarrow> (Ok (), b)
                | Some (sibIdx, selfIsLeft) \<Rightarrow>
                    let removeIdx = (if selfIsLeft then nodeIdx else sibIdx);
                        separator = index_key_at (pmPages (btStore b) parent) (nat removeIdx)
                    in (case prChildren (btRefs b parentRef) of
                          None \<Rightarrow> (Ok (), b)
                        | Some cache \<Rightarrow>
                            if int (length (ccChildren cache)) \<le> sibIdx then (Ok (), b)
                            else
                              let sibRef = ccChildren cache ! nat sibIdx; sibPI = info_of b sibRef
                              in if piIsLeaf sibPI \<or> IsBusy sibPI then (Ok (), b)
                                 else (case GetNodePage (piPageID sibPI) b of
                                     Err e \<Rightarrow> (Err e, b)
                                   | Panic \<Rightarrow> (Panic, b)
                                   | Ok sib \<Rightarrow>
                                       if \<not> isNodeSparse (pmPages (btStore b) sib) then (Ok (), b)
                                       else (case GetNodePage (piPageID nodePI) b of
                                           Err e \<Rightarrow> (Err e, b)
                                         | Panic \<Rightarrow> (Panic, b)
                                         | Ok self \<Rightarrow>
                                             let ((refA, piA), refB, piB) = order_refs nodeRef nodePI sibRef sibPI b;
                                                 merge = (if selfIsLeft then MergeNodes self sib separator else MergeNodes sib self separator)
                                             in (case merge_refs False merge parentRef parentPI removeIdx refA piA refB piB b of
                                                   (Ok (Some newParent), b1) \<Rightarrow>
                                                     then_merge_root
                                                       (if isNodeSparse (pmPages (btStore b1) newParent) \<and> 3 \<le> length path
                                                        then handleInternalMerge (butlast path) parentRef (info_of b1 parentRef) b1
                                                        else (Ok (), b1))
                                                 | (Ok None, b1) \<Rightarrow> (Ok (), b1)
                                                 | (Err e, b1) \<Rightarrow> (Err e, b1)
                                                 | (Panic, b1) \<Rightarrow> (Panic, b1)))))))"
  by pat_completeness auto
termination by (relation "measure (\<lambda>(path, _). length path)") auto

declare handleInternalMerge.simps [simp del]

definition handleLeafMerge :: "search_path \<Rightarrow> nat \<Rightarrow> page_info \<Rightarrow> btree \<Rightarrow> unit outcome \<times> btree" where
  "handleLeafMerge path sparseRef leafPI b =
     (if length path < 2 then (Panic, b)
      else
        let (parentRef, leafIdx) = path ! (length path - 2);
            parentPI = info_of b parentRef
        in if IsBusy parentPI then (Ok (), b)
           else case GetNodePage (piPageID parentPI) b of
             Err e \<Rightarrow> (Err e, b)
           | Panic \<Rightarrow> (Panic, b)
           | Ok parent \<Rightarrow>
               (case pick_sibling leafIdx (GetCount (pmPages (btStore b) parent) + 1) of
                  None \<Rightarrow> (Ok (), b)
                | Some (sibIdx, selfIsLeft) \<Rightarrow>
                    (case prChildren (btRefs b parentRef) of
                       None \<Rightarrow> (Ok (), b)
                     | Some cache \<Rightarrow>
                         if int (length (ccChildren cache)) \<le> sibIdx then (Ok (), b)
                         else
                           let sibRef = ccChildren cache ! nat sibIdx; sibPI = info_of b sibRef
                           in if \<not> piIsLeaf sibPI \<or> IsBusy sibPI then (Ok (), b)
                              else (case GetLeafPage (piPageID sibPI) b of
                                  Err e \<Rightarrow> (Err e, b)
                                | Panic \<Rightarrow> (Panic, b)
                                | Ok sib \<Rightarrow>
                                    if \<not> isLeafSparse (pmPages (btStore b) sib) then (Ok (), b)
                                    else (case GetLeafPage (piPageID leafPI) b of
                                        Err e \<Rightarrow> (Err e, b)
                                      | Panic \<Rightarrow> (Panic, b)
                                      | Ok self \<Rightarrow>
                                          let ((refA, piA), refB, piB) = order_refs sparseRef leafPI sibRef sibPI b;
                                              merge = (if selfIsLeft then MergeLeaves self sib else MergeLeaves sib self);
                                              removeIdx = (if selfIsLeft then leafIdx else sibIdx)
                                          in (case merge_refs True merge parentRef parentPI removeIdx refA piA refB piB b of
                                                (Ok (Some newParent), b1) \<Rightarrow>
                                                  then_merge_root
                                                    (if isNodeSparse (pmPages (btStore b1) newParent) \<and> 3 \<le> length path
                                                     then handleInternalMerge (butlast path) parentRef (info_of b1 parentRef) b1
                                                     else (Ok (), b1))
                                              | (Ok None, b1) \<Rightarrow> (Ok (), b1)
                                              | (Err e, b1) \<Rightarrow> (Err e, b1)
                                              | (Panic, b1) \<Rightarrow> (Panic, b1)))))))"

text \<open>The error of the merge is dropped.\<close>

definition maybeMergeAfterWrite :: "search_path \<Rightarrow> int \<Rightarrow> btree \<Rightarrow> unit outcome \<times> btree" where
  "maybeMergeAfterWrite path delta b =
     (if btEpoch b = None \<or> 0 \<le> delta then (Ok (), b)
      else
        let leafRef = fst (last path); leafPI = info_of b leafRef
        in if IsBusy leafPI then (Ok (), b)
           else case GetLeafPage (piPageID leafPI) b of
             Ok leaf \<Rightarrow>
               if \<not> isLeafSparse (pmPages (btStore b) leaf) then (Ok (), b)
               else (case handleLeafMerge path leafRef leafPI b of (Panic, b1) \<Rightarrow> (Panic, b1) | (_, b1) \<Rightarrow> (Ok (), b1))
           | Err e \<Rightarrow> (Ok (), b)
           | Panic \<Rightarrow> (Panic, b))"

end
