(* ===== verification/BTree_Write.thy ===== *)
theory BTree_Write
  imports BTree_Merging Transaction
begin

text \<open>
  The write path and the operations of the tree: \<open>writeOperation\<close> (\<open>btree/operations.go\<close>), the operations of
  \<open>BTree\<close> (\<open>btree/btree.go\<close>, \<open>set_with_retry.go\<close>, \<open>get_with_meta.go\<close>) and the storage backend of the
  transactions (\<open>btree/storage_adapter.go\<close>).

  Every operation here runs alone. The context arguments are not cancelled. Reading under
  \<open>EnterRead\<close> and \<open>ExitRead\<close> changes no result of a single goroutine and is left out of the reads.
\<close>

section \<open>The retry loop\<close>

definition MaxCASRetries :: nat where "MaxCASRetries = 3"
definition SplitBackoffMaxRetries :: nat where "SplitBackoffMaxRetries = 96"

text \<open>A turn of the loop returns from the operation or goes on with the next attempt, remembering
  \<open>splittingRetry\<close>. Sleeping is left out.\<close>

datatype turn = Return "unit outcome" | Continue nat

definition finish_in_place :: "nat \<Rightarrow> page_info \<Rightarrow> leaf_mutation \<Rightarrow> btree \<Rightarrow> btree" where
  "finish_in_place leafRef oldInfo m b =
     (let p = piPageID oldInfo;
          claimInfo = new_info p (piVersion oldInfo + 1) True NodeInplaceUpdate;
          b1 = with_store (with_page p (\<lambda>pg. snd (OverwriteLeafValue (lmInPlaceIdx m) (lmInPlaceValue m) pg))) b;
          b2 = (if lmTombstoneDelta m \<noteq> 0 then with_store (bump_tombstones (lmTombstoneDelta m) p) b1 else b1);
          b3 = snd (CAS leafRef claimInfo (new_info p (piVersion oldInfo + 2) True NodeNormal) b2)
      in add_size (lmDelta m) b3)"

definition publish_copy :: "nat \<Rightarrow> nat \<Rightarrow> nat \<Rightarrow> page_info \<Rightarrow> search_path \<Rightarrow> leaf_mutation \<Rightarrow> btree \<Rightarrow> turn \<times> btree" where
  "publish_copy epochSlot splittingRetry leafRef oldInfo path m b =
     (let b1 = (if lmTombstoneDelta m \<noteq> 0 then with_store (bump_tombstones (lmTombstoneDelta m) (lmNewPageID m)) b else b)
      in case CAS leafRef oldInfo (new_info (lmNewPageID m) (piVersion oldInfo + 1) True NodeNormal) b1 of
           (False, b2) \<Rightarrow> (Continue splittingRetry, FreePage (lmNewPageID m) b2)
         | (True, b2) \<Rightarrow> (case maybeMergeAfterWrite path (lmDelta m) b2 of
               (Panic, b3) \<Rightarrow> (Return Panic, b3)
             | (_, b3) \<Rightarrow> (case retire_in epochSlot [piPageID oldInfo] b3 of
                   None \<Rightarrow> (Return Panic, b3)
                 | Some b4 \<Rightarrow> (Return (Ok ()), add_size (lmDelta m) b4))))"

definition write_turn :: "nat \<Rightarrow> nat \<Rightarrow> bytes \<Rightarrow> mutator \<Rightarrow> btree \<Rightarrow> turn \<times> btree" where
  "write_turn epochSlot splittingRetry key mutate b =
     (case searchPath key b of
        Panic \<Rightarrow> (Return Panic, b)
      | Err e \<Rightarrow> (if e = ErrRetry then Continue splittingRetry else Return (Err e), b)
      | Ok path \<Rightarrow>
          let leafRef = fst (last path); oldInfo = info_of b leafRef
          in if piNodeState oldInfo = NodeRedirect \<or> piRedirect oldInfo \<or> \<not> piIsLeaf oldInfo \<or> piNodeState oldInfo = NodeMerging \<or>
                piNodeState oldInfo = NodeCompacting \<or> piNodeState oldInfo = NodeInplaceUpdate
             then (Continue splittingRetry, b)
             else if piNodeState oldInfo = NodeSplitting then
               (if SplitBackoffMaxRetries < splittingRetry + 1 then Return (Err ErrCASRetryExhausted) else Continue (splittingRetry + 1), b)
             else case GetLeafPage (piPageID oldInfo) b of
               Ok oldLeaf \<Rightarrow>
                 if leafIsFull (length key) 0 (pmPages (btStore b) oldLeaf) then
                   let splittingInfo = new_info (piPageID oldInfo) (piVersion oldInfo + 1) True NodeSplitting
                   in (case CAS leafRef oldInfo splittingInfo b of
                         (False, b1) \<Rightarrow> (Continue splittingRetry, b1)
                       | (True, b1) \<Rightarrow> (case doSplitWithSplitting leafRef splittingInfo oldInfo path key mutate b1 of
                             (Err e, b2) \<Rightarrow>
                               (if e = ErrCASConflict \<or> e = ErrRetry then Continue splittingRetry else Return (Err e), b2)
                           | (r, b2) \<Rightarrow> (Return r, b2)))
                 else (case mutate oldLeaf (btStore b) (btVars b) of
                     (Ok m, pm, vs) \<Rightarrow>
                       let b1 = b\<lparr>btStore := pm, btVars := vs\<rparr>
                       in if lmInPlace m then
                            (case CAS leafRef oldInfo (new_info (piPageID oldInfo) (piVersion oldInfo + 1) True NodeInplaceUpdate) b1 of
                               (True, b2) \<Rightarrow> (Return (Ok ()), finish_in_place leafRef oldInfo m b2)
                             | (False, b2) \<Rightarrow> (Continue splittingRetry, b2))
                          else publish_copy epochSlot splittingRetry leafRef oldInfo path m b1
                   | (Err e, pm, vs) \<Rightarrow> (Return (Err e), b\<lparr>btStore := pm, btVars := vs\<rparr>)
                   | (Panic, pm, vs) \<Rightarrow> (Return Panic, b\<lparr>btStore := pm, btVars := vs\<rparr>))
             | _ \<Rightarrow> (Continue splittingRetry, b))"

fun write_loop :: "nat \<Rightarrow> nat \<Rightarrow> nat \<Rightarrow> bytes \<Rightarrow> mutator \<Rightarrow> btree \<Rightarrow> unit outcome \<times> btree" where
  "write_loop 0 epochSlot sr key mutate b = (Err ErrCASRetryExhausted, b)"
| "write_loop (Suc n) epochSlot sr key mutate b = (case write_turn epochSlot sr key mutate b of
     (Return r, b1) \<Rightarrow> (r, b1)
   | (Continue sr', b1) \<Rightarrow> write_loop n epochSlot sr' key mutate b1)"

definition writeOperation :: "bytes \<Rightarrow> mutator \<Rightarrow> nat \<Rightarrow> btree \<Rightarrow> unit outcome \<times> btree" where
  "writeOperation key mutate retries b = (case alloc_slot b of (epochSlot, b1) \<Rightarrow> write_loop retries epochSlot 0 key mutate b1)"

section \<open>Operations of the tree\<close>

definition cow_result :: "int \<Rightarrow> 16 word \<Rightarrow> u32 outcome \<times> page_manager \<Rightarrow> mutation_vars \<Rightarrow> leaf_mutation outcome \<times> page_manager \<times> mutation_vars" where
  "cow_result delta tomb res vs = (case res of
     (Ok q, pm) \<Rightarrow> (Ok \<lparr>lmNewPageID = q, lmDelta = delta, lmTombstoneDelta = tomb, lmInPlace = False, lmInPlaceIdx = 0, lmInPlaceValue = []\<rparr>, pm, vs)
   | (Err e, pm) \<Rightarrow> (Err e, pm, vs)
   | (Panic, pm) \<Rightarrow> (Panic, pm, vs))"

text \<open>\<open>mvcc.BuildMVCC\<close> of a value with the next timestamp.\<close>

definition build_next :: "byte \<Rightarrow> bytes \<Rightarrow> mutation_vars \<Rightarrow> bytes outcome \<times> mutation_vars" where
  "build_next flag val vs = (case NextTS (mvTS vs) of
     (Ok ts, c) \<Rightarrow> (BuildMVCC flag ts val 0 0 [], vs\<lparr>mvTS := c\<rparr>)
   | (Err e, c) \<Rightarrow> (Err e, vs\<lparr>mvTS := c\<rparr>)
   | (Panic, c) \<Rightarrow> (Panic, vs\<lparr>mvTS := c\<rparr>))"

definition TryInPlace :: "nat \<Rightarrow> bytes \<Rightarrow> page \<Rightarrow> bool" where
  "TryInPlace idx val pg = (length val \<le> unat (leValLen (leaf_entry_at idx pg)))"

definition leaf_value :: "nat \<Rightarrow> page \<Rightarrow> bytes" where
  "leaf_value idx pg = snd (leaf_kv pg (leaf_entry_at idx pg))"

text \<open>The closure of \<open>Set\<close>; \<open>SetWithRetry\<close> has the same in \<open>mutateUpdate\<close> and \<open>mutateInsert\<close>.\<close>

definition mutateUpdate :: "nat \<Rightarrow> bytes \<Rightarrow> mutator" where
  "mutateUpdate idx val p pm vs =
     (case ParseMVCC (leaf_value idx (pmPages pm p)) of
        Ok mv \<Rightarrow>
          (case build_next FlagNormal val vs of
             (Ok encoded, vs1) \<Rightarrow>
               let delta = (if IsTombstone mv then 1 else 0); tomb = (if IsTombstone mv then - 1 else 0)
               in if TryInPlace idx encoded (pmPages pm p) then
                    (Ok \<lparr>lmNewPageID = p, lmDelta = delta, lmTombstoneDelta = tomb, lmInPlace = True,
                         lmInPlaceIdx = int idx, lmInPlaceValue = encoded\<rparr>, pm, vs1)
                  else cow_result delta tomb (leafUpdate p (int idx) encoded pm) vs1
           | (Err e, vs1) \<Rightarrow> (Err e, pm, vs1)
           | (Panic, vs1) \<Rightarrow> (Panic, pm, vs1))
      | Err e \<Rightarrow> (Err e, pm, vs)
      | Panic \<Rightarrow> (Panic, pm, vs))"

definition mutateInsert :: "bytes \<Rightarrow> bytes \<Rightarrow> mutator" where
  "mutateInsert key val p pm vs = (case build_next FlagNormal val vs of
     (Ok encoded, vs1) \<Rightarrow> cow_result 1 0 (leafInsert p key encoded pm) vs1
   | (Err e, vs1) \<Rightarrow> (Err e, pm, vs1)
   | (Panic, vs1) \<Rightarrow> (Panic, pm, vs1))"

definition set_mutation :: "bytes \<Rightarrow> bytes \<Rightarrow> mutator" where
  "set_mutation key val p pm vs = (case leafSearch key (pmPages pm p) of (idx, found) \<Rightarrow>
     if found then mutateUpdate idx val p pm vs else mutateInsert key val p pm vs)"

definition delete_mutation :: "bytes \<Rightarrow> mutator" where
  "delete_mutation key p pm vs = (case leafSearch key (pmPages pm p) of (idx, found) \<Rightarrow>
     if \<not> found then (Err ErrKeyNotFound, pm, vs)
     else case ParseMVCC (leaf_value idx (pmPages pm p)) of
       Ok mv \<Rightarrow>
         if IsTombstone mv then (Err ErrKeyNotFound, pm, vs)
         else (case build_next FlagTombstone [] vs of
             (Ok tombstone, vs1) \<Rightarrow> cow_result (- 1) 1 (leafUpdate p (int idx) tombstone pm) vs1
           | (Err e, vs1) \<Rightarrow> (Err e, pm, vs1)
           | (Panic, vs1) \<Rightarrow> (Panic, pm, vs1))
     | Err e \<Rightarrow> (Err e, pm, vs)
     | Panic \<Rightarrow> (Panic, pm, vs))"

text \<open>\<open>treeOpen\<close> is \<open>checkOpen\<close> before an operation.\<close>

definition tree_open :: "btree \<Rightarrow> (unit outcome \<times> btree) \<Rightarrow> unit outcome \<times> btree" where
  "tree_open b res = (if btClosed b then (Err ErrTreeClosed, b) else res)"

definition SetWithRetry :: "bytes \<Rightarrow> bytes \<Rightarrow> nat \<Rightarrow> btree \<Rightarrow> unit outcome \<times> btree" where
  "SetWithRetry key val retries b = tree_open b (writeOperation key (set_mutation key val) retries b)"

definition treeSet :: "bytes \<Rightarrow> bytes \<Rightarrow> btree \<Rightarrow> unit outcome \<times> btree" where
  "treeSet key val b = tree_open b (writeOperation key (set_mutation key val) MaxCASRetries b)"

definition treeDelete :: "bytes \<Rightarrow> btree \<Rightarrow> unit outcome \<times> btree" where
  "treeDelete key b = tree_open b (writeOperation key (delete_mutation key) MaxCASRetries b)"

text \<open>\<open>getRawBytes\<close> finds the encoded value; \<open>Get\<close> and \<open>GetRaw\<close> parse it.\<close>

definition getRawBytes :: "bytes \<Rightarrow> btree \<Rightarrow> bytes outcome" where
  "getRawBytes key b =
     (if btClosed b then Err ErrTreeClosed
      else bind_outcome (searchPath key b) (\<lambda>path.
        bind_outcome (GetLeafPage (piPageID (info_of b (fst (last path)))) b) (\<lambda>leaf.
          case leafSearch key (pmPages (btStore b) leaf) of (idx, found) \<Rightarrow>
            if \<not> found then Err ErrKeyNotFound else Ok (leaf_value idx (pmPages (btStore b) leaf)))))"

definition treeGet :: "bytes \<Rightarrow> btree \<Rightarrow> bytes outcome" where
  "treeGet key b = bind_outcome (getRawBytes key b) (\<lambda>raw. bind_outcome (ParseMVCC raw) (\<lambda>mv.
     if IsTombstone mv then Err ErrKeyNotFound else Ok (RealVal mv)))"

definition treeGetRaw :: "bytes \<Rightarrow> btree \<Rightarrow> mvcc_value outcome" where
  "treeGetRaw key b = bind_outcome (getRawBytes key b) ParseMVCC"

text \<open>Batches of the key-value interface; a nil entry is a key that is not there.\<close>

fun getBatchMultiPage :: "bytes list \<Rightarrow> btree \<Rightarrow> gslice list outcome" where
  "getBatchMultiPage [] b = Ok []"
| "getBatchMultiPage (key # keys) b = (case treeGet key b of
     Ok val \<Rightarrow> bind_outcome (getBatchMultiPage keys b) (\<lambda>vs. Ok (Some val # vs))
   | Err e \<Rightarrow> if e = ErrKeyNotFound then bind_outcome (getBatchMultiPage keys b) (\<lambda>vs. Ok (None # vs)) else Err e
   | Panic \<Rightarrow> Panic)"

text \<open>With a leaf as root every key is looked up in that leaf; the keys are visited in sorted order and the
  results put back in the order of the keys. Here a value that does not parse counts as missing.\<close>

fun batch_in_leaf :: "(bytes \<Rightarrow> gslice outcome) \<Rightarrow> bytes list \<Rightarrow> page \<Rightarrow> gslice list outcome" where
  "batch_in_leaf conv [] pg = Ok []"
| "batch_in_leaf conv (key # keys) pg =
     (case leafSearch key pg of (idx, found) \<Rightarrow>
        bind_outcome (if found then conv (leaf_value idx pg) else Ok None) (\<lambda>v.
          bind_outcome (batch_in_leaf conv keys pg) (\<lambda>vs. Ok (v # vs))))"

definition live_value :: "bytes \<Rightarrow> gslice outcome" where
  "live_value raw = (case ParseMVCC raw of
     Ok mv \<Rightarrow> Ok (if IsTombstone mv then None else Some (RealVal mv)) | Err e \<Rightarrow> Ok None | Panic \<Rightarrow> Panic)"

definition root_leaf_batch :: "(bytes \<Rightarrow> gslice outcome) \<Rightarrow> bytes list \<Rightarrow> btree \<Rightarrow> gslice list outcome" where
  "root_leaf_batch conv keys b = bind_outcome (searchPath (hd (sort keys)) b) (\<lambda>path.
     bind_outcome (GetLeafPage (piPageID (info_of b (fst (last path)))) b) (\<lambda>leaf.
       batch_in_leaf conv keys (pmPages (btStore b) leaf)))"

definition treeGetBatch :: "bytes list \<Rightarrow> btree \<Rightarrow> gslice list outcome" where
  "treeGetBatch keys b =
     (if btClosed b then Err ErrTreeClosed else if keys = [] then Ok []
      else if \<not> piIsLeaf (info_of b 0) then getBatchMultiPage keys b
      else root_leaf_batch live_value keys b)"

definition maxCASFastAttempts :: nat where "maxCASFastAttempts = 3"

fun set_batch :: "(bytes \<times> bytes) list \<Rightarrow> btree \<Rightarrow> unit outcome \<times> btree" where
  "set_batch [] b = (Ok (), b)"
| "set_batch (kv # kvs) b = (case SetWithRetry (fst kv) (snd kv) maxCASFastAttempts b of
     (Ok _, b1) \<Rightarrow> set_batch kvs b1 | (r, b1) \<Rightarrow> (r, b1))"

definition treeSetBatch :: "(bytes \<times> bytes) list \<Rightarrow> btree \<Rightarrow> unit outcome \<times> btree" where
  "treeSetBatch pairs b = tree_open b (set_batch pairs b)"

fun delete_batch :: "bytes list \<Rightarrow> btree \<Rightarrow> unit outcome \<times> btree" where
  "delete_batch [] b = (Ok (), b)"
| "delete_batch (k # ks) b = (case treeDelete k b of
     (Ok _, b1) \<Rightarrow> delete_batch ks b1
   | (Err e, b1) \<Rightarrow> if e = ErrKeyNotFound then delete_batch ks b1 else (Err e, b1)
   | (Panic, b1) \<Rightarrow> (Panic, b1))"

definition treeDeleteBatch :: "bytes list \<Rightarrow> btree \<Rightarrow> unit outcome \<times> btree" where
  "treeDeleteBatch keys b = tree_open b (delete_batch keys b)"

text \<open>A new tree on a page manager: one empty leaf as root.\<close>

definition NewBTree :: "bool \<Rightarrow> page_manager \<Rightarrow> btree outcome \<times> page_manager" where
  "NewBTree enableEpoch pm = (case AllocLeafPage pm of
     (Ok p, pm1) \<Rightarrow> (Ok \<lparr>btRefs = (\<lambda>_. NewRootPageRef p 1), btNextRef = 1, btStore = pm1, btSize = 0, btClosed = False,
        btVars = \<lparr>mvTS = 0, mvOffset = 0\<rparr>,
        btEpoch = (if enableEpoch then Some (SetLOBFreeFns True True NewEpochManager) else None)\<rparr>, pm1)
   | (Err e, pm1) \<Rightarrow> (Err e, pm1)
   | (Panic, pm1) \<Rightarrow> (Panic, pm1))"

section \<open>The storage backend of the transactions\<close>

text \<open>A value that parses as a tombstone; a value that does not parse is none.\<close>

definition revives :: "bytes \<Rightarrow> bytes \<Rightarrow> bool outcome" where
  "revives old new = (case ParseMVCC old of
     Ok mv \<Rightarrow> (if IsTombstone mv then (case ParseMVCC new of Ok mv' \<Rightarrow> Ok (\<not> IsTombstone mv') | Err _ \<Rightarrow> Ok False | Panic \<Rightarrow> Panic) else Ok False)
   | Err _ \<Rightarrow> Ok False
   | Panic \<Rightarrow> Panic)"

definition adapter_set_mutation :: "bytes \<Rightarrow> bytes \<Rightarrow> mutator" where
  "adapter_set_mutation key val p pm vs = (case leafSearch key (pmPages pm p) of (idx, found) \<Rightarrow>
     if found then
       (case revives (leaf_value idx (pmPages pm p)) val of
          Ok back \<Rightarrow> cow_result (if back then 1 else 0) 0 (leafUpdate p (int idx) val pm) vs
        | Err e \<Rightarrow> (Err e, pm, vs)
        | Panic \<Rightarrow> (Panic, pm, vs))
     else cow_result 1 0 (leafInsert p key val pm) vs)"

definition adapterSet :: "bytes \<Rightarrow> bytes \<Rightarrow> btree \<Rightarrow> unit outcome \<times> btree" where
  "adapterSet key val b = tree_open b (writeOperation key (adapter_set_mutation key val) MaxCASRetries b)"

definition adapter_delete_mutation :: "bytes \<Rightarrow> mutator" where
  "adapter_delete_mutation key p pm vs = (case leafSearch key (pmPages pm p) of (idx, found) \<Rightarrow>
     if \<not> found then (Err ErrKeyNotFound, pm, vs) else cow_result (- 1) 0 (leafDelete p (int idx) pm) vs)"

definition adapterDelete :: "bytes \<Rightarrow> btree \<Rightarrow> unit outcome \<times> btree" where
  "adapterDelete key b = tree_open b (writeOperation key (adapter_delete_mutation key) MaxCASRetries b)"

definition adapterGetRaw :: "bytes \<Rightarrow> btree \<Rightarrow> gslice outcome" where
  "adapterGetRaw key b = bind_outcome (getRawBytes key b) (\<lambda>raw. Ok (Some raw))"

fun get_batch_raw :: "bytes list \<Rightarrow> btree \<Rightarrow> gslice list outcome" where
  "get_batch_raw [] b = Ok []"
| "get_batch_raw (key # keys) b = (case getRawBytes key b of
     Ok val \<Rightarrow> bind_outcome (get_batch_raw keys b) (\<lambda>vs. Ok (Some val # vs))
   | Err e \<Rightarrow> if e = ErrKeyNotFound then bind_outcome (get_batch_raw keys b) (\<lambda>vs. Ok (None # vs)) else Err e
   | Panic \<Rightarrow> Panic)"

definition getBatchRawBytes :: "bytes list \<Rightarrow> btree \<Rightarrow> gslice list outcome" where
  "getBatchRawBytes keys b =
     (if btClosed b then Err ErrTreeClosed else if keys = [] then Ok []
      else if \<not> piIsLeaf (info_of b 0) then get_batch_raw keys b
      else root_leaf_batch (\<lambda>raw. Ok (Some raw)) keys b)"

text \<open>One segment of \<open>SetBatch\<close>: pairs are written to the current copy of one leaf until an insert finds it full.
  It counts the pairs it has taken.\<close>

fun segment :: "(bytes \<times> bytes) list \<Rightarrow> nat \<Rightarrow> int \<Rightarrow> u32 \<Rightarrow> page_manager \<Rightarrow> (u32 \<times> int \<times> nat) outcome \<times> page_manager" where
  "segment [] n totalDelta cur pm = (Ok (cur, totalDelta, n), pm)"
| "segment (kv # kvs) n totalDelta cur pm = (case leafSearch (fst kv) (pmPages pm cur) of (idx, found) \<Rightarrow>
     if found then
       (case revives (leaf_value idx (pmPages pm cur)) (snd kv) of
          Ok back \<Rightarrow>
            (case leafUpdate cur (int idx) (snd kv) pm of
               (Ok q, pm1) \<Rightarrow> segment kvs (Suc n) (if back then totalDelta + 1 else totalDelta) q pm1
             | (Err e, pm1) \<Rightarrow> (Err e, pm1)
             | (Panic, pm1) \<Rightarrow> (Panic, pm1))
        | Err e \<Rightarrow> (Err e, pm)
        | Panic \<Rightarrow> (Panic, pm))
     else if leafIsFull (length (fst kv)) (length (snd kv)) (pmPages pm cur) then (Ok (cur, totalDelta, n), pm)
     else (case leafInsert cur (fst kv) (snd kv) pm of
         (Ok q, pm1) \<Rightarrow> segment kvs (Suc n) (totalDelta + 1) q pm1
       | (Err e, pm1) \<Rightarrow> (Err e, pm1)
       | (Panic, pm1) \<Rightarrow> (Panic, pm1)))"

definition segment_mutation :: "(bytes \<times> bytes) list \<Rightarrow> nat \<Rightarrow> mutator" where
  "segment_mutation pairs segStart p pm vs = (case segment (drop segStart pairs) 0 0 p pm of
     (Ok (q, totalDelta, n), pm1) \<Rightarrow>
       (Ok \<lparr>lmNewPageID = q, lmDelta = totalDelta, lmTombstoneDelta = 0, lmInPlace = False, lmInPlaceIdx = 0, lmInPlaceValue = []\<rparr>,
        pm1, vs\<lparr>mvOffset := segStart + n\<rparr>)
   | (Err e, pm1) \<Rightarrow> (Err e, pm1, vs)
   | (Panic, pm1) \<Rightarrow> (Panic, pm1, vs))"

text \<open>The loop over the segments; a segment that took nothing is stepped over and counted. Each turn moves
  the offset, so as many turns as there are pairs are enough.\<close>

fun batch_loop :: "nat \<Rightarrow> (bytes \<times> bytes) list \<Rightarrow> nat \<Rightarrow> nat \<Rightarrow> btree \<Rightarrow> nat outcome \<times> btree" where
  "batch_loop 0 pairs offset count b = (if offset < length pairs then Panic else Ok count, b)"
| "batch_loop (Suc fuel) pairs offset count b =
     (if length pairs \<le> offset then (Ok count, b)
      else
        let b0 = b\<lparr>btVars := (btVars b)\<lparr>mvOffset := offset\<rparr>\<rparr>
        in case writeOperation (fst (pairs ! offset)) (segment_mutation pairs offset) MaxCASRetries b0 of
             (Ok _, b1) \<Rightarrow>
               let offset' = mvOffset (btVars b1); advanced = offset' - offset
               in if advanced = 0 then batch_loop fuel pairs (offset' + 1) (count + 1) b1
                  else batch_loop fuel pairs offset' (count + advanced) b1
           | (Err e, b1) \<Rightarrow> (Err e, b1)
           | (Panic, b1) \<Rightarrow> (Panic, b1))"

definition adapterSetBatch :: "(bytes \<times> bytes) list \<Rightarrow> btree \<Rightarrow> nat outcome \<times> btree" where
  "adapterSetBatch pairs b =
     (if btClosed b then (Err ErrTreeClosed, b) else if pairs = [] then (Ok 0, b) else batch_loop (length pairs) pairs 0 0 b)"

definition btreeStorageAdapter :: "btree storage_backend" where
  "btreeStorageAdapter = \<lparr>beGetRaw = adapterGetRaw, beSet = adapterSet, beDelete = adapterDelete,
     beSetBatch = adapterSetBatch, beGetBatchRaw = getBatchRawBytes\<rparr>"

end
