(* ===== verification/BTree_Shape.thy ===== *)
theory BTree_Shape
  imports BTree_Write
begin

text \<open>
  What a heap of references stands for. A tree of references is read as the list of its items from left
  to right: the entries of the leaves and, between two children, their separator. The order of a search
  tree is that this list is sorted, where a separator comes before an entry with the same key.
\<close>

section \<open>Items\<close>

type_synonym item = "bytes \<times> bytes option"

text \<open>An entry has a value, a separator has none.\<close>

definition before :: "item \<Rightarrow> item \<Rightarrow> bool" where
  "before x y \<longleftrightarrow> fst x < fst y \<or> fst x = fst y \<and> snd x = None \<and> snd y \<noteq> None"

definition entry_items :: "(bytes \<times> bytes) list \<Rightarrow> item list" where
  "entry_items kvs = map (\<lambda>kv. (fst kv, Some (snd kv))) kvs"

fun item_entries :: "item list \<Rightarrow> (bytes \<times> bytes) list" where
  "item_entries [] = []"
| "item_entries ((k, Some v) # xs) = (k, v) # item_entries xs"
| "item_entries ((k, None) # xs) = item_entries xs"

fun weave :: "item list list \<Rightarrow> bytes list \<Rightarrow> item list" where
  "weave (x # xs) (s # ss) = x @ (s, None) # weave xs ss"
| "weave xs [] = concat xs"
| "weave [] (s # ss) = []"

definition weave_left :: "item list list \<Rightarrow> bytes list \<Rightarrow> item list" where
  "weave_left xs ss = concat (map2 (\<lambda>x s. x @ [(s, None)]) xs ss)"

definition weave_right :: "bytes list \<Rightarrow> item list list \<Rightarrow> item list" where
  "weave_right ss xs = concat (map2 (\<lambda>s x. (s, None) # x) ss xs)"

lemma item_entries_append [simp]: "item_entries (xs @ ys) = item_entries xs @ item_entries ys"
  by (induction xs rule: item_entries.induct) simp_all

lemma item_entries_entry_items [simp]: "item_entries (entry_items kvs) = kvs"
  by (induction kvs) (simp_all add: entry_items_def)

lemma set_item_entries: "(k, v) \<in> set (item_entries xs) \<longleftrightarrow> (k, Some v) \<in> set xs"
  by (induction xs rule: item_entries.induct) auto

lemma entry_items_Nil [simp]: "entry_items [] = []" "entry_items kvs = [] \<longleftrightarrow> kvs = []"
  by (simp_all add: entry_items_def)

lemma entry_items_append [simp]: "entry_items (xs @ ys) = entry_items xs @ entry_items ys"
  by (simp add: entry_items_def)

lemma set_entry_items: "x \<in> set (entry_items kvs) \<longleftrightarrow> (\<exists>v. snd x = Some v \<and> (fst x, v) \<in> set kvs)"
  by (cases x) (force simp: entry_items_def image_iff)

lemma before_trans: "before x y \<Longrightarrow> before y z \<Longrightarrow> before x z"
  by (auto simp: before_def)

lemma sorted_entry_items: "sorted_wrt before (entry_items kvs) \<longleftrightarrow> sorted_wrt (<) (map fst kvs)"
  by (simp add: entry_items_def sorted_wrt_map before_def)

lemma sorted_item_keys: "sorted_wrt before xs \<Longrightarrow> sorted_wrt (<) (map fst (item_entries xs))"
proof (induction xs rule: item_entries.induct)
  case (2 k v xs)
  then have "\<forall>x\<in>set xs. before (k, Some v) x" by simp
  then have "\<forall>kv\<in>set (item_entries xs). k < fst kv" by (fastforce simp: before_def set_item_entries)
  with 2 show ?case by auto
qed simp_all

lemma weave_append: "length xs = length ss \<Longrightarrow> weave (xs @ ys) (ss @ ts) = weave_left xs ss @ weave ys ts"
  by (induction xs ss rule: list_induct2) (simp_all add: weave_left_def)

lemma weave_Cons: "length ts = length ys \<Longrightarrow> weave (y # ys) ts = y @ weave_right ts ys"
  by (induction ts ys arbitrary: y rule: list_induct2) (simp_all add: weave_right_def)

lemma weave_at:
  assumes "length xs = length ss" "length ts = length ys"
  shows "weave (xs @ y # ys) (ss @ ts) = weave_left xs ss @ y @ weave_right ts ys"
  using assms by (simp add: weave_append weave_Cons)

lemma weave_at2:
  assumes "length xs = length ss" "length ts = length ys"
  shows "weave (xs @ y # z # ys) (ss @ s # ts) = weave_left xs ss @ (y @ (s, None) # z) @ weave_right ts ys"
  using assms by (simp add: weave_append weave_Cons)

lemma sep_in_left: "s \<in> set ss \<Longrightarrow> length xs = length ss \<Longrightarrow> (s, None) \<in> set (weave_left xs ss)"
  by (auto simp: weave_left_def in_set_conv_nth set_zip)

lemma sep_in_right: "s \<in> set ss \<Longrightarrow> length ss = length xs \<Longrightarrow> (s, None) \<in> set (weave_right ss xs)"
  by (auto simp: weave_right_def in_set_conv_nth set_zip)

section \<open>Search in a cache\<close>

lemma cache_loop_count:
  assumes "sorted_wrt (<) seps" "lo \<le> hi" "hi \<le> length seps"
    "lo \<le> length (takeWhile (\<lambda>s. s \<le> key) seps)" "length (takeWhile (\<lambda>s. s \<le> key) seps) \<le> hi"
  shows "cache_loop key seps lo hi = length (takeWhile (\<lambda>s. s \<le> key) seps)"
  using assms
proof (induction key seps lo hi rule: cache_loop.induct)
  case (1 key seps lo hi)
  let ?n = "length (takeWhile (\<lambda>s. s \<le> key) seps)" and ?mid = "lo + (hi - lo) div 2"
  show ?case
  proof (cases "lo < hi")
    case True
    then have mid: "lo \<le> ?mid" "?mid < hi" "?mid < length seps" using 1(5) by auto
    have low: "seps ! j \<le> key" if "j < ?n" for j using that by (metis nth_mem set_takeWhileD takeWhile_nth)
    have up: "\<not> seps ! ?n \<le> key" if "?n < length seps" using that nth_length_takeWhile [of "\<lambda>s. s \<le> key" seps] by simp
    have c: "seps ! ?mid \<le> key \<longleftrightarrow> ?mid < ?n"
    proof
      assume "seps ! ?mid \<le> key"
      show "?mid < ?n"
      proof (rule ccontr)
        assume "\<not> ?mid < ?n"
        then have n: "?n \<le> ?mid" by simp
        then have "?n < length seps" using mid(3) by (rule le_less_trans)
        moreover have "seps ! ?n \<le> seps ! ?mid"
          using sorted_wrt_nth_less [OF 1(3), of ?n ?mid] n mid(3) by (cases "?n = ?mid") auto
        ultimately have "?n < length seps" "seps ! ?n \<le> seps ! ?mid" by simp_all
        then show False using up \<open>seps ! ?mid \<le> key\<close> by auto
      qed
    qed (rule low)
    show ?thesis
    proof (cases "key < seps ! ?mid")
      case less: True
      then have "cache_loop key seps lo ?mid = ?n"
        using 1(3-7) c mid True by (intro 1(1)) (auto simp: not_le)
      then show ?thesis using True less by (subst cache_loop.simps) (simp add: Let_def)
    next
      case False
      then have "cache_loop key seps (?mid + 1) hi = ?n"
        using 1(3-7) c mid True by (intro 1(2)) (auto simp: not_le)
      then show ?thesis using True False by (subst cache_loop.simps) (simp add: Let_def)
    qed
  qed (use 1 in \<open>simp add: cache_loop.simps\<close>)
qed

lemma cacheSearch_count:
  assumes "sorted_wrt (<) (ccSeparators cc)" "ccChildren cc \<noteq> []"
  shows "cacheSearch key cc = length (takeWhile (\<lambda>s. s \<le> key) (ccSeparators cc))"
  using assms cache_loop_count [OF assms(1), of 0 "length (ccSeparators cc)" key]
  by (simp add: cacheSearch_def length_takeWhile_le)


section \<open>Trees of references\<close>

datatype tree = Lf nat | Nd nat "tree list"

fun root_ref :: "tree \<Rightarrow> nat" where
  "root_ref (Lf r) = r"
| "root_ref (Nd r ts) = r"

fun trefs :: "tree \<Rightarrow> nat list" where
  "trefs (Lf r) = [r]"
| "trefs (Nd r ts) = r # concat (map trefs ts)"

abbreviation seps_of :: "btree \<Rightarrow> nat \<Rightarrow> bytes list" where
  "seps_of b r \<equiv> ccSeparators (the (prChildren (btRefs b r)))"

abbreviation pid_of :: "btree \<Rightarrow> nat \<Rightarrow> u32" where
  "pid_of b r \<equiv> prPageID (btRefs b r)"

definition leaf_at :: "btree \<Rightarrow> nat \<Rightarrow> bool" where
  "leaf_at b r \<longleftrightarrow> piIsLeaf (info_of b r) \<and> \<not> piRedirect (info_of b r) \<and> \<not> IsBusy (info_of b r) \<and> sorted_leaf (page_of b r)"

text \<open>The cache and the index page of a node agree on the separators; the page names its children by the
  page each reference was made with.\<close>

definition node_at :: "btree \<Rightarrow> nat \<Rightarrow> nat list \<Rightarrow> bool" where
  "node_at b r cs \<longleftrightarrow> \<not> piIsLeaf (info_of b r) \<and> \<not> piRedirect (info_of b r) \<and> length cs = Suc (length (seps_of b r)) \<and>
     prChildren (btRefs b r) \<noteq> None \<and> ccChildren (the (prChildren (btRefs b r))) = cs \<and>
     index_ok (page_of b r) \<and> node_keys (page_of b r) = seps_of b r \<and> node_children (page_of b r) = map (pid_of b) cs"

fun rep :: "btree \<Rightarrow> tree \<Rightarrow> bool" where
  "rep b (Lf r) = leaf_at b r"
| "rep b (Nd r ts) = (node_at b r (map root_ref ts) \<and> (\<forall>t\<in>set ts. rep b t))"

fun items :: "btree \<Rightarrow> tree \<Rightarrow> item list" where
  "items b (Lf r) = entry_items (leaf_kvs (page_of b r))"
| "items b (Nd r ts) = weave (map (items b) ts) (seps_of b r)"

lemma root_in_trefs: "root_ref t \<in> set (trefs t)"
  by (cases t) simp_all

lemma length_trefs: "0 < length (trefs t)"
  by (cases t) simp_all

text \<open>What a tree stands for depends only on its references and their pages.\<close>

definition agree :: "btree \<Rightarrow> btree \<Rightarrow> nat set \<Rightarrow> bool" where
  "agree b b' R \<longleftrightarrow> (\<forall>r\<in>R. btRefs b' r = btRefs b r \<and> pmPages (btStore b') (piPageID (info_of b r)) = page_of b r)"

lemma agree_sub: "agree b b' R \<Longrightarrow> S \<subseteq> R \<Longrightarrow> agree b b' S"
  by (auto simp: agree_def)

lemma agree_Un [simp]: "agree b b' (R \<union> S) \<longleftrightarrow> agree b b' R \<and> agree b b' S" "agree b b' {}"
  "agree b b' (insert r R) \<longleftrightarrow> (btRefs b' r = btRefs b r \<and> pmPages (btStore b') (piPageID (info_of b r)) = page_of b r) \<and> agree b b' R"
  by (auto simp: agree_def)

lemma leaf_at_cong: "btRefs b' r = btRefs b r \<Longrightarrow> pmPages (btStore b') (piPageID (info_of b r)) = page_of b r \<Longrightarrow> leaf_at b' r = leaf_at b r"
  by (simp add: leaf_at_def)

lemma node_at_cong:
  "btRefs b' r = btRefs b r \<Longrightarrow> pmPages (btStore b') (piPageID (info_of b r)) = page_of b r \<Longrightarrow> \<forall>c\<in>set cs. pid_of b' c = pid_of b c \<Longrightarrow> node_at b' r cs = node_at b r cs"
  by (auto simp: node_at_def cong: map_cong)

lemma rep_agree: "agree b b' (set (trefs t)) \<Longrightarrow> rep b' t = rep b t \<and> items b' t = items b t"
proof (induction t)
  case (Lf r)
  then have r: "btRefs b' r = btRefs b r" "pmPages (btStore b') (piPageID (info_of b r)) = page_of b r" by (simp_all add: agree_def)
  then show ?case using leaf_at_cong [OF r] by simp
next
  case (Nd r ts)
  have kids: "rep b' t = rep b t \<and> items b' t = items b t" if "t \<in> set ts" for t
    using Nd.IH [OF that] Nd.prems that by (auto simp: agree_def)
  have "\<forall>c\<in>set (map root_ref ts). pid_of b' c = pid_of b c"
    using Nd.prems root_in_trefs by (fastforce simp: agree_def)
  moreover have r: "btRefs b' r = btRefs b r" "pmPages (btStore b') (piPageID (info_of b r)) = page_of b r" using Nd.prems by (simp_all add: agree_def)
  ultimately have "node_at b' r (map root_ref ts) = node_at b r (map root_ref ts)" by (intro node_at_cong)
  moreover have m: "map (items b') ts = map (items b) ts" using kids by simp
  ultimately show ?case using kids r(1) by (simp add: m)
qed

section \<open>Contexts\<close>

text \<open>A tree with a hole, from the hole outwards: each frame has the reference of a node and the subtrees to the
  left and to the right of the hole.\<close>

type_synonym frame = "nat \<times> tree list \<times> tree list"

fun plug :: "frame list \<Rightarrow> tree \<Rightarrow> tree" where
  "plug [] t = t"
| "plug ((r, ls, rs) # c) t = plug c (Nd r (ls @ t # rs))"

fun crefs :: "frame list \<Rightarrow> nat list" where
  "crefs [] = []"
| "crefs ((r, ls, rs) # c) = r # concat (map trefs ls) @ concat (map trefs rs) @ crefs c"

fun cpath :: "frame list \<Rightarrow> search_path" where
  "cpath [] = []"
| "cpath ((r, ls, rs) # c) = cpath c @ [(r, int (length ls))]"

fun crep :: "btree \<Rightarrow> frame list \<Rightarrow> nat \<Rightarrow> bool" where
  "crep b [] h = True"
| "crep b ((r, ls, rs) # c) h = (node_at b r (map root_ref ls @ h # map root_ref rs) \<and>
     (\<forall>t\<in>set ls. rep b t) \<and> (\<forall>t\<in>set rs. rep b t) \<and> crep b c r)"

fun cleft :: "btree \<Rightarrow> frame list \<Rightarrow> item list" where
  "cleft b [] = []"
| "cleft b ((r, ls, rs) # c) = cleft b c @ weave_left (map (items b) ls) (take (length ls) (seps_of b r))"

fun cright :: "btree \<Rightarrow> frame list \<Rightarrow> item list" where
  "cright b [] = []"
| "cright b ((r, ls, rs) # c) = weave_right (drop (length ls) (seps_of b r)) (map (items b) rs) @ cright b c"

lemma plug_append: "plug (c @ d) t = plug d (plug c t)"
  by (induction c arbitrary: t) auto

lemma cpath_append: "cpath (c @ d) = cpath d @ cpath c"
  by (induction c) auto

lemma length_cpath [simp]: "length (cpath c) = length c"
  by (induction c) auto

lemma cleft_append: "cleft b (c @ d) = cleft b d @ cleft b c"
  by (induction c) auto

lemma cright_append: "cright b (c @ d) = cright b c @ cright b d"
  by (induction c) auto

lemma set_trefs_plug: "set (trefs (plug c t)) = set (crefs c) \<union> set (trefs t)"
  by (induction c t rule: plug.induct) auto

lemma distinct_trefs_plug: "distinct (trefs (plug c t)) \<longleftrightarrow> distinct (crefs c @ trefs t)"
proof (induction c t rule: plug.induct)
  case (2 r ls rs c t)
  have "distinct (crefs c @ trefs (Nd r (ls @ t # rs))) \<longleftrightarrow> distinct (crefs ((r, ls, rs) # c) @ trefs t)"
    unfolding trefs.simps crefs.simps map_append list.map concat_append concat.simps append_assoc append_Cons
      distinct_append distinct.simps set_append set_simps by blast
  with 2 show ?case by simp
qed simp

lemma rep_plug: "rep b (plug c t) \<longleftrightarrow> crep b c (root_ref t) \<and> rep b t"
  by (induction c t rule: plug.induct) auto

lemma items_plug: "crep b c (root_ref t) \<Longrightarrow> items b (plug c t) = cleft b c @ items b t @ cright b c"
proof (induction c t rule: plug.induct)
  case (2 r ls rs c t)
  let ?ss = "seps_of b r"
  have n: "length ls + length rs = length ?ss" using 2(2) by (simp add: node_at_def)
  have "items b (Nd r (ls @ t # rs)) = weave (map (items b) ls @ items b t # map (items b) rs) (take (length ls) ?ss @ drop (length ls) ?ss)"
    by simp
  also have "\<dots> = weave_left (map (items b) ls) (take (length ls) ?ss) @ items b t @ weave_right (drop (length ls) ?ss) (map (items b) rs)"
    using n by (intro weave_at) auto
  finally show ?case using 2 by simp
qed simp

lemma root_ref_plug: "root_ref (plug c t) = (if c = [] then root_ref t else fst (last c))"
  by (induction c t rule: plug.induct) auto

lemma crep_agree: "agree b b' (set (crefs c)) \<Longrightarrow> pid_of b' h = pid_of b h \<Longrightarrow>
  crep b' c h = crep b c h \<and> cleft b' c = cleft b c \<and> cright b' c = cright b c"
proof (induction c arbitrary: h)
  case (Cons f c)
  obtain r ls rs where f: "f = (r, ls, rs)" by (cases f)
  have sub: "rep b' t = rep b t \<and> items b' t = items b t" if "t \<in> set ls \<union> set rs" for t
    by (rule rep_agree, rule agree_sub [OF Cons.prems(1)]) (use that in \<open>auto simp: f\<close>)
  have r: "btRefs b' r = btRefs b r" "pmPages (btStore b') (piPageID (info_of b r)) = page_of b r" using Cons.prems(1) by (simp_all add: f)
  have "\<forall>t\<in>set ls \<union> set rs. root_ref t \<in> set (crefs (f # c))" using root_in_trefs by (fastforce simp: f)
  then have "\<forall>x\<in>set (map root_ref ls @ h # map root_ref rs). pid_of b' x = pid_of b x"
    using Cons.prems by (auto simp: agree_def)
  then have "node_at b' r (map root_ref ls @ h # map root_ref rs) = node_at b r (map root_ref ls @ h # map root_ref rs)"
    using r by (intro node_at_cong)
  moreover have "crep b' c r = crep b c r \<and> cleft b' c = cleft b c \<and> cright b' c = cright b c"
    using Cons.prems(1) r(1) by (intro Cons.IH) (simp_all add: f)
  moreover have m: "map (items b') ls = map (items b) ls" "map (items b') rs = map (items b) rs" using sub by simp_all
  ultimately show ?case using sub r(1) by (simp add: f m)
qed simp

section \<open>Routing\<close>

text \<open>A key fits between two lists of items when it belongs after the first and before the second.\<close>

definition fits :: "bytes \<Rightarrow> item list \<Rightarrow> item list \<Rightarrow> bool" where
  "fits key xs ys \<longleftrightarrow> (\<forall>x\<in>set xs. fst x < key \<or> fst x = key \<and> snd x = None) \<and> (\<forall>y\<in>set ys. key < fst y)"

lemma fits_append: "fits key (xs @ xs') (ys @ ys') \<longleftrightarrow> fits key xs ys \<and> fits key xs' ys'"
  by (auto simp: fits_def)

lemma weave_seps_sorted: "sorted_wrt before (weave xs ss) \<Longrightarrow> length xs = Suc (length ss) \<Longrightarrow> sorted_wrt (<) ss"
proof (induction xs ss rule: weave.induct)
  case (1 x xs s ss)
  have tail: "sorted_wrt before (weave xs ss)" "\<forall>y\<in>set (weave xs ss). before (s, None) y"
    using 1(2) by (simp_all add: sorted_wrt_append)
  have "s < s'" if "s' \<in> set ss" for s'
  proof -
    have "(s', None) \<in> set (weave xs ss)"
    proof (cases xs)
      case (Cons x' xs')
      then have "weave xs ss = x' @ weave_right ss xs'" using 1(3) by (simp add: weave_Cons)
      then show ?thesis using sep_in_right [OF that, of xs'] 1(3) Cons by simp
    qed (use 1(3) in simp)
    then show ?thesis using tail(2) by (auto simp: before_def)
  qed
  then show ?case using 1(1) [OF tail(1)] 1(3) by simp
qed simp_all

lemma left_items_below:
  assumes "length xs = length ss" "sorted_wrt before (weave_left xs ss)" "x \<in> set (weave_left xs ss)"
  shows "\<exists>s\<in>set ss. fst x < s \<or> x = (s, None)"
  using assms
proof (induction xs ss rule: list_induct2)
  case (Cons y xs s ss)
  have w: "weave_left (y # xs) (s # ss) = (y @ [(s, None)]) @ weave_left xs ss" by (simp add: weave_left_def)
  show ?case
  proof (cases "x \<in> set y")
    case True
    then have "before x (s, None)" using Cons(3) unfolding w by (auto simp: sorted_wrt_append)
    then show ?thesis by (auto simp: before_def)
  next
    case False
    then show ?thesis using Cons unfolding w by (auto simp: sorted_wrt_append)
  qed
qed (simp add: weave_left_def)

lemma right_items_above:
  assumes "length ss = length xs" "sorted_wrt before (weave_right ss xs)" "x \<in> set (weave_right ss xs)"
  shows "\<exists>s\<in>set ss. s \<le> fst x"
  using assms
proof (induction ss xs rule: list_induct2)
  case (Cons s ss y xs)
  have w: "weave_right (s # ss) (y # xs) = ((s, None) # y) @ weave_right ss xs" by (simp add: weave_right_def)
  show ?case
  proof (cases "x \<in> set y")
    case True
    then have "before (s, None) x" using Cons(3) unfolding w by (auto simp: sorted_wrt_append)
    then show ?thesis by (auto simp: before_def)
  next
    case False
    then show ?thesis using Cons unfolding w by (auto simp: sorted_wrt_append)
  qed
qed (simp add: weave_right_def)

lemma drop_takeWhile_above:
  "sorted_wrt (<) ss \<Longrightarrow> s \<in> set (drop (length (takeWhile (\<lambda>s. s \<le> key) ss)) ss) \<Longrightarrow> (key :: 'a :: linorder) < s"
  by (induction ss) (auto simp: not_le split: if_splits)

lemma take_takeWhile_below: "s \<in> set (take (length (takeWhile (\<lambda>s. s \<le> key) ss)) ss) \<Longrightarrow> s \<le> key"
  by (metis set_takeWhileD takeWhile_eq_take)

lemma node_routes:
  fixes key :: bytes
  assumes node: "node_at b r (map root_ref ts)" and sorted: "sorted_wrt before (items b (Nd r ts))"
  defines "i \<equiv> length (takeWhile (\<lambda>s. s \<le> key) (seps_of b r))"
  shows "i < length ts" "cacheSearch key (the (prChildren (btRefs b r))) = i"
    "fits key (cleft b [(r, take i ts, drop (Suc i) ts)]) (cright b [(r, take i ts, drop (Suc i) ts)])"
    "sorted_wrt before (items b (ts ! i))"
proof -
  let ?ss = "seps_of b r"
  have n: "length ts = Suc (length ?ss)" using node by (simp add: node_at_def)
  have ss: "sorted_wrt (<) ?ss" using weave_seps_sorted [of "map (items b) ts" ?ss] sorted n by simp
  show i: "i < length ts" unfolding i_def n using length_takeWhile_le [of _ ?ss] by (simp add: le_imp_less_Suc)
  have "ccChildren (the (prChildren (btRefs b r))) \<noteq> []" using node n by (cases ts) (simp_all add: node_at_def)
  then show "cacheSearch key (the (prChildren (btRefs b r))) = i" unfolding i_def using ss by (intro cacheSearch_count)
  let ?l = "weave_left (map (items b) (take i ts)) (take i ?ss)" and ?r = "weave_right (drop i ?ss) (map (items b) (drop (Suc i) ts))"
  have len: "length (take i ts) = i" using i by simp
  have "items b (Nd r ts) = weave (map (items b) (take i ts) @ items b (ts ! i) # map (items b) (drop (Suc i) ts)) (take i ?ss @ drop i ?ss)"
    using i by (simp add: id_take_nth_drop [symmetric] flip: map_append list.map)
  also have "\<dots> = ?l @ items b (ts ! i) @ ?r" using i n by (intro weave_at) auto
  finally have split: "sorted_wrt before (?l @ items b (ts ! i) @ ?r)" using sorted by simp
  then show "sorted_wrt before (items b (ts ! i))" by (simp add: sorted_wrt_append)
  have "fst x < key \<or> fst x = key \<and> snd x = None" if x: "x \<in> set ?l" for x
  proof -
    have "length (map (items b) (take i ts)) = length (take i ?ss)" "sorted_wrt before ?l"
      using split i n by (simp_all add: sorted_wrt_append)
    from left_items_below [OF this x] obtain s where "s \<in> set (take i ?ss)" "fst x < s \<or> x = (s, None)" by blast
    then show ?thesis using take_takeWhile_below [of s key ?ss] by (auto simp: i_def)
  qed
  moreover have "key < fst x" if x: "x \<in> set ?r" for x
  proof -
    have "length (drop i ?ss) = length (map (items b) (drop (Suc i) ts))" "sorted_wrt before ?r"
      using split n by (simp_all add: sorted_wrt_append)
    from right_items_above [OF this x] obtain s where "s \<in> set (drop i ?ss)" "s \<le> fst x" by blast
    then show ?thesis using drop_takeWhile_above [OF ss, of s key] by (auto simp: i_def)
  qed
  ultimately show "fits key (cleft b [(r, take i ts, drop (Suc i) ts)]) (cright b [(r, take i ts, drop (Suc i) ts)])"
    using len by (simp add: fits_def)
qed

text \<open>The descent reaches a leaf of the tree into which the key belongs.\<close>

lemma search_from_route:
  assumes "rep b t" "sorted_wrt before (items b t)" "length (trefs t) \<le> n"
  shows "\<exists>c h. t = plug c (Lf h) \<and> search_from n key b (root_ref t) = Some (Ok (cpath c @ [(h, - 1)])) \<and>
    fits key (cleft b c) (cright b c)"
  using assms
proof (induction t arbitrary: n)
  case (Lf r)
  then obtain m where "n = Suc m" by (cases n) auto
  with Lf show ?case by (intro exI [of _ "[]"] exI [of _ r]) (simp add: leaf_at_def fits_def)
next
  case (Nd r ts)
  obtain m where m: "n = Suc m" using Nd.prems(3) by (cases n) auto
  define i where "i = length (takeWhile (\<lambda>s. s \<le> key) (seps_of b r))"
  have node: "node_at b r (map root_ref ts)" and reps: "\<forall>t\<in>set ts. rep b t" using Nd.prems(1) by simp_all
  note route = node_routes [OF node Nd.prems(2), of key, folded i_def]
  have ti: "ts ! i \<in> set ts" using route(1) by simp
  have "length (trefs (ts ! i)) \<le> m" using Nd.prems(3) ti member_le_sum_list [of "length (trefs (ts ! i))" "map (length \<circ> trefs) ts"]
    by (simp add: m length_concat)
  from Nd.IH [OF ti _ route(4) this] reps ti obtain c h where
    ch: "ts ! i = plug c (Lf h)" "search_from m key b (root_ref (ts ! i)) = Some (Ok (cpath c @ [(h, - 1)]))"
      "fits key (cleft b c) (cright b c)" by blast
  let ?f = "(r, take i ts, drop (Suc i) ts)"
  have "Nd r ts = plug (c @ [?f]) (Lf h)" using route(1) ch(1) by (simp add: plug_append id_take_nth_drop flip: ch(1))
  moreover have "fits key (cleft b (c @ [?f])) (cright b (c @ [?f]))"
    using route(3) ch(3) by (auto simp: cleft_append cright_append fits_def)
  moreover have child: "\<not> piRedirect (info_of b (root_ref (ts ! i)))"
    using reps ti by (cases "ts ! i") (fastforce simp: leaf_at_def node_at_def)+
  have "search_from n key b r = Some (Ok (cpath (c @ [?f]) @ [(h, - 1)]))"
  proof -
    obtain cc where cc: "\<not> piIsLeaf (info_of b r)" "prChildren (btRefs b r) = Some cc" "ccChildren cc = map root_ref ts"
      using node by (auto simp: node_at_def)
    have idx: "cacheSearch key cc = i" using route(2) cc(2) by simp
    have len: "length (take i ts) = i" using route(1) by simp
    show ?thesis using cc idx child route(1) ch(2) len unfolding m by (simp add: Let_def cpath_append min_def)
  qed
  ultimately show ?case unfolding root_ref.simps by blast
qed

end
