(* ===== verification/BTree_Inv.thy ===== *)
theory BTree_Inv
  imports BTree_Shape
begin

text \<open>
  The invariant of a tree without an epoch manager, and what reads return under it: the tree stands for
  the map of its entries.
\<close>

section \<open>Invariant\<close>

text \<open>The pages a reference has to itself: its current page and, except for the root, the page it was made with,
  by which its parent finds it.\<close>

definition ids_of :: "btree \<Rightarrow> nat \<Rightarrow> u32 set" where
  "ids_of b r = (if r = 0 then {piPageID (info_of b r)} else {pid_of b r, piPageID (info_of b r)})"

definition held :: "btree \<Rightarrow> u32 set \<Rightarrow> nat set \<Rightarrow> bool" where
  "held b own R \<longleftrightarrow> (\<forall>r\<in>R. ids_of b r \<subseteq> own \<and> r < btNextRef b \<and> (r \<noteq> 0 \<longrightarrow> pid_of b r \<noteq> 0)) \<and>
     (\<forall>r\<in>R. \<forall>s\<in>R. r \<noteq> s \<longrightarrow> ids_of b r \<inter> ids_of b s = {})"

definition tree_ok :: "btree \<Rightarrow> u32 set \<Rightarrow> tree \<Rightarrow> bool" where
  "tree_ok b own t \<longleftrightarrow> btEpoch b = None \<and> root_ref t = 0 \<and> rep b t \<and> distinct (trefs t) \<and> held b own (set (trefs t)) \<and>
     0 \<in> own \<and> cow_step (btStore b) own own (btStore b)"

text \<open>The entries and separators are in order and every value can be parsed without a panic.\<close>

definition items_ok :: "item list \<Rightarrow> bool" where
  "items_ok xs \<longleftrightarrow> sorted_wrt before xs \<and> (\<forall>kv\<in>set (item_entries xs). ParseMVCC (snd kv) \<noteq> Panic)"

definition tree_inv :: "btree \<Rightarrow> u32 set \<Rightarrow> tree \<Rightarrow> bool" where
  "tree_inv b own t \<longleftrightarrow> tree_ok b own t \<and> items_ok (items b t)"

definition tree_map :: "btree \<Rightarrow> tree \<Rightarrow> bytes \<Rightarrow> gslice" where
  "tree_map b t = map_of (item_entries (items b t))"

section \<open>Reads\<close>

lemma tree_ok_refs: "tree_ok b own t \<Longrightarrow> length (trefs t) \<le> btNextRef b"
proof -
  assume "tree_ok b own t"
  then have "set (trefs t) \<subseteq> {..<btNextRef b}" "distinct (trefs t)" by (auto simp: tree_ok_def held_def)
  then show ?thesis by (metis card_lessThan card_mono distinct_card finite_lessThan)
qed

lemma searchPath_route:
  assumes "tree_inv b own t"
  obtains c h where "t = plug c (Lf h)" "searchPath key b = Ok (cpath c @ [(h, - 1)])" "fits key (cleft b c) (cright b c)"
proof -
  have t: "tree_ok b own t" "sorted_wrt before (items b t)" using assms by (simp_all add: tree_inv_def items_ok_def)
  then have "rep b t" "root_ref t = 0" by (simp_all add: tree_ok_def)
  from search_from_route [OF this(1) t(2) tree_ok_refs [OF t(1)], of key] this(2) obtain c h where
    "t = plug c (Lf h)" "search_from (btNextRef b) key b 0 = Some (Ok (cpath c @ [(h, - 1)]))" "fits key (cleft b c) (cright b c)"
    by auto
  then show ?thesis by (intro that) (simp_all add: searchPath_def)
qed

lemma leaf_of_tree: "tree_ok b own (plug c (Lf h)) \<Longrightarrow> leaf_at b h \<and> crep b c h"
  by (simp add: tree_ok_def rep_plug)

lemma leaf_is_leaf: "leaf_at b h \<Longrightarrow> IsLeaf (page_of b h)"
  by (simp add: leaf_at_def sorted_leaf_def leaf_ok_def)

lemma tree_map_split:
  assumes "crep b c h"
  shows "tree_map b (plug c (Lf h)) = map_of (item_entries (cleft b c) @ leaf_kvs (page_of b h) @ item_entries (cright b c))"
  using items_plug [of b c "Lf h"] assms by (simp add: tree_map_def)

lemma fits_lookup: "fits key xs ys \<Longrightarrow> map_of (item_entries xs @ kvs @ item_entries ys) key = map_of kvs key"
proof -
  assume f: "fits key xs ys"
  have "(key, v) \<notin> set (item_entries xs)" "(key, v) \<notin> set (item_entries ys)" for v
    using f unfolding set_item_entries fits_def by fastforce+
  then have "map_of (item_entries xs) key = None" "map_of (item_entries ys) key = None"
    by (metis map_of_SomeD not_Some_eq)+
  then show ?thesis by (simp add: map_add_def split: option.split)
qed

lemma leafSearch_value:
  assumes "sorted_leaf pg" "leafSearch key pg = (i, found)"
  shows "found \<longleftrightarrow> key \<in> fst ` set (leaf_kvs pg)"
    "found \<Longrightarrow> i < GetCount pg \<and> fst (leaf_kvs pg ! i) = key \<and> map_of (leaf_kvs pg) key = Some (leaf_value i pg)"
proof -
  have ls: "linear_search key (map fst (leaf_kvs pg)) = (i, found)" using leafSearch_linear [OF assms(1)] assms(2) by simp
  then show f: "found \<longleftrightarrow> key \<in> fst ` set (leaf_kvs pg)" by (auto simp: linear_search_def)
  assume found
  let ?ks = "map fst (leaf_kvs pg)"
  have i: "i = length (takeWhile (\<lambda>k. k < key) ?ks)" using ls by (simp add: linear_search_def)
  have srt: "sorted_wrt (<) ?ks" using assms(1) by (simp add: sorted_leaf_def)
  obtain j where j: "j < length ?ks" "?ks ! j = key" using f \<open>found\<close> by (metis image_set in_set_conv_nth)
  have "i = j"
  proof -
    have "?ks ! a < key" if "a < j" for a using sorted_wrt_nth_less [OF srt that j(1)] j(2) by simp
    then have "takeWhile (\<lambda>k. k < key) ?ks = take j ?ks" using j by (intro takeWhile_eq_take_P_nth) auto
    then show ?thesis using i j(1) by simp
  qed
  then have ij: "i < GetCount pg" "fst (leaf_kvs pg ! i) = key" using j by simp_all
  moreover have "map_of (leaf_kvs pg) key = Some (snd (leaf_kvs pg ! i))"
    using distinct_keys [OF assms(1)] ij by (metis leaf_lengths(2) map_of_eq_Some_iff nth_mem prod.collapse)
  ultimately show "i < GetCount pg \<and> fst (leaf_kvs pg ! i) = key \<and> map_of (leaf_kvs pg) key = Some (leaf_value i pg)"
    by (simp add: leaf_value_def leaf_kvs_nth)
qed

lemma getRawBytes_map:
  assumes "tree_inv b own t" "\<not> btClosed b"
  shows "getRawBytes key b = (case tree_map b t key of None \<Rightarrow> Err ErrKeyNotFound | Some v \<Rightarrow> Ok v)"
proof -
  from assms(1) obtain c h where
    ch: "t = plug c (Lf h)" "searchPath key b = Ok (cpath c @ [(h, - 1)])" "fits key (cleft b c) (cright b c)"
    by (rule searchPath_route)
  have l: "leaf_at b h" "crep b c h" using assms(1) leaf_of_tree by (auto simp: ch(1) tree_inv_def)
  then have srt: "sorted_leaf (page_of b h)" by (simp add: leaf_at_def)
  have m: "tree_map b t key = map_of (leaf_kvs (page_of b h)) key"
    unfolding ch(1) tree_map_split [OF l(2)] by (rule fits_lookup [OF ch(3)])
  obtain i found where s: "leafSearch key (page_of b h) = (i, found)" by (cases "leafSearch key (page_of b h)")
  note v = leafSearch_value [OF srt s]
  have "map_of (leaf_kvs (page_of b h)) key = None" if "\<not> found" using v(1) that by (simp add: map_of_eq_None_iff)
  then show ?thesis using assms(2) ch(2) leaf_is_leaf [OF l(1)] s v(2) m
    by (cases found) (simp_all add: getRawBytes_def GetLeafPage_def)
qed

end
