(* ===== verification/BTree_Mutators.thy ===== *)
theory BTree_Mutators
  imports BTree_Inv
begin

text \<open>
  What the write path asks of the closures that mutate a leaf, as an interface, and the closures of
  the tree and of the storage adapter as instances of it.
\<close>

section \<open>Page numbers used up\<close>

lemma next_with_page [simp]: "nextPageID (with_page p f pm) = nextPageID pm"
  by (simp add: with_page_def)

lemma next_freed [simp]: "nextPageID (freed p pm) = nextPageID pm"
  by (simp add: freed_def pageFree_def Let_def)

abbreviation used_ids :: "page_manager \<Rightarrow> nat" where
  "used_ids pm \<equiv> unat (nextPageID pm)"

named_theorems next_dests \<open>how far an operation moves the page counter\<close>

lemma next_alloc [next_dests]: "pageAlloc pm = (r, pm1) \<Longrightarrow> used_ids pm1 \<le> Suc (used_ids pm)"
proof -
  assume a: "pageAlloc pm = (r, pm1)"
  have "unat (n + 1) \<le> Suc (unat n)" for n :: u32 by (simp add: unat_word_ariths)
  then show ?thesis using a by (cases "freeList pm") (auto simp: pageAlloc_def Let_def clearPage_def split: if_splits)
qed

lemma next_SetChild [next_dests]: "SetChild q i c pm = (r, pm1) \<Longrightarrow> nextPageID pm1 = nextPageID pm"
  by (auto simp: SetChild_def Let_def split: prod.splits)

lemma next_insert_index [next_dests]: "insert_index q i k c de pm = (r, de', pm1) \<Longrightarrow> nextPageID pm1 = nextPageID pm"
  by (auto simp: insert_index_def split: prod.splits)

lemma next_bulk_leaf: "nextPageID (snd (bulk_leaf n i p q d de pm)) = nextPageID pm"
  by (induction n i p q d de pm rule: bulk_leaf.induct) (auto simp: Let_def split: prod.splits outcome.splits)

lemma next_bulk_index: "nextPageID (snd (bulk_index n i p q d de pm)) = nextPageID pm"
  by (induction n i p q d de pm rule: bulk_index.induct) (auto simp: Let_def split: prod.splits outcome.splits)

lemma next_BulkInitLeaf [next_dests]: "BulkInitLeafFromSource p q i j pm = (r, pm1) \<Longrightarrow> nextPageID pm1 = nextPageID pm"
  by (auto simp: BulkInitLeafFromSource_def split: if_splits dest: arg_cong [of _ _ "\<lambda>x. nextPageID (snd x)"] simp: next_bulk_leaf)

lemma next_BulkInitIndex [next_dests]: "BulkInitIndexFromSource p q i j e pm = (r, pm1) \<Longrightarrow> nextPageID pm1 = nextPageID pm"
  using next_bulk_index [of "nat (j - i)" 0 p q "nat i" 0 "with_page q (InitIndexPage (phVersion (pmPages pm p))) pm"]
  by (auto simp: BulkInitIndexFromSource_def split: if_splits prod.splits outcome.splits)

lemma next_cowCopy [next_dests]: "cowCopy p pm = (r, pm1) \<Longrightarrow> used_ids pm1 \<le> Suc (used_ids pm)"
  by (auto simp: cowCopy_def split: prod.splits outcome.splits dest!: next_alloc)

lemma next_copyPage [next_dests]: "copyPage p pm = (r, pm1) \<Longrightarrow> used_ids pm1 \<le> Suc (used_ids pm)"
  by (auto simp: copyPage_def Let_def split: prod.splits outcome.splits dest!: next_alloc)

lemma next_rebuild [next_dests]: "rebuild ver kvs pm = (r, pm1) \<Longrightarrow> used_ids pm1 \<le> Suc (used_ids pm)"
  by (auto simp: rebuild_def split: prod.splits outcome.splits dest!: next_alloc)

lemma next_AllocNodePage [next_dests]: "AllocNodePage pm = (r, pm1) \<Longrightarrow> used_ids pm1 \<le> Suc (used_ids pm)"
  by (auto simp: AllocNodePage_def split: prod.splits outcome.splits dest!: next_alloc)

lemma next_leafInsert [next_dests]: "leafInsert p k v pm = (r, pm1) \<Longrightarrow> used_ids pm1 \<le> Suc (used_ids pm)"
  by (auto simp: leafInsert_def split: prod.splits outcome.splits if_splits dest!: next_cowCopy)

lemma next_leafDelete [next_dests]: "leafDelete p i pm = (r, pm1) \<Longrightarrow> used_ids pm1 \<le> Suc (used_ids pm)"
  by (auto simp: leafDelete_def Let_def split: prod.splits if_splits dest!: next_rebuild)

lemma next_leafUpdateSlow [next_dests]: "leafUpdateSlow p i v ver pm = (r, pm1) \<Longrightarrow> used_ids pm1 \<le> Suc (used_ids pm)"
  by (auto simp: leafUpdateSlow_def Let_def split: prod.splits outcome.splits dest!: next_rebuild)

lemma next_leafUpdate [next_dests]: "leafUpdate p i v pm = (r, pm1) \<Longrightarrow> used_ids pm1 \<le> used_ids pm + 2"
  by (auto simp: leafUpdate_def Let_def split: prod.splits outcome.splits if_splits bool.splits dest!: next_copyPage next_leafUpdateSlow)

lemma next_leafSplit [next_dests]: "leafSplit p pm = (r, pm1) \<Longrightarrow> used_ids pm1 \<le> used_ids pm + 2"
  by (auto simp: leafSplit_def Let_def split: prod.splits outcome.splits if_splits dest!: next_alloc next_BulkInitLeaf)

lemma next_nodeSplit [next_dests]: "nodeSplit p pm = (r, pm1) \<Longrightarrow> used_ids pm1 \<le> used_ids pm + 2"
  by (auto simp: nodeSplit_def Let_def split: prod.splits outcome.splits if_splits dest!: next_alloc next_BulkInitIndex)

lemma next_InsertChild [next_dests]: "InsertChild p i k l r pm = (res, pm1) \<Longrightarrow> used_ids pm1 \<le> Suc (used_ids pm)"
  by (auto simp: InsertChild_def Let_def split: prod.splits outcome.splits if_splits dest!: next_cowCopy next_SetChild next_insert_index)

section \<open>The interface\<close>

text \<open>A store in which the pages \<open>own\<close> are in use and at least \<open>n\<close> more page numbers can be drawn before the
  32-bit counter wraps around.\<close>

definition roomy :: "nat \<Rightarrow> u32 set \<Rightarrow> page_manager \<Rightarrow> bool" where
  "roomy n own pm \<longleftrightarrow> cow_step pm own own pm \<and> used_ids pm + n < 4294967294"

lemma roomy_store_ok: "roomy n own pm \<Longrightarrow> store_ok pm own"
  by (simp add: roomy_def store_ok_def)

lemma cow_step_refl: "cow_step pm own own' pm' \<Longrightarrow> cow_step pm' own' own' pm'"
  by (simp add: cow_step_def)

lemma cow_step_trans: "cow_step pm own own1 pm1 \<Longrightarrow> cow_step pm1 own1 own2 pm2 \<Longrightarrow> own \<subseteq> own1 \<Longrightarrow> cow_step pm own own2 pm2"
  by (auto simp: cow_step_def)

lemma roomy_step: "roomy n own pm \<Longrightarrow> cow_step pm own' own'' pm' \<Longrightarrow> used_ids pm' \<le> used_ids pm + g \<Longrightarrow> m + g \<le> n \<Longrightarrow> roomy m own'' pm'"
  by (auto simp: roomy_def intro: cow_step_refl)

text \<open>
  A mutation of \<open>key\<close> either leaves the store and asks for an overwrite of the entry in place, or returns a fresh sorted
  leaf page that differs from the old one in the binding of \<open>key\<close> only: \<open>new vs\<close>, where \<open>vs\<close> are the
  variables before the call. It fails with one of \<open>errs\<close> and then nothing stays allocated.
\<close>

definition in_place_of :: "bytes \<Rightarrow> gslice \<Rightarrow> page \<Rightarrow> leaf_mutation \<Rightarrow> bool" where
  "in_place_of key val pg m \<longleftrightarrow> (\<exists>i. lmInPlaceIdx m = int i \<and> i < GetCount pg \<and> fst (leaf_kvs pg ! i) = key \<and>
     length (lmInPlaceValue m) \<le> unat (leValLen (leaf_entry_at i pg)) \<and> val = Some (lmInPlaceValue m))"

definition fresh_leaf :: "page_manager \<Rightarrow> u32 set \<Rightarrow> u32 \<Rightarrow> page_manager \<Rightarrow> bool" where
  "fresh_leaf pm own q pm' \<longleftrightarrow> q \<notin> own \<and> cow_step pm own (insert q own) pm' \<and> sorted_leaf (pmPages pm' q)"

definition parsable :: "page \<Rightarrow> bool" where
  "parsable pg \<longleftrightarrow> (\<forall>kv\<in>set (leaf_kvs pg). ParseMVCC (snd kv) \<noteq> Panic)"

locale leaf_mutator =
  fixes mutate :: mutator
    and key :: bytes
    and new :: "mutation_vars \<Rightarrow> gslice"
    and errs :: "err set"
    and allowed :: "mutation_vars \<Rightarrow> bool"
  assumes mutate: "allowed vs \<Longrightarrow> roomy 2 own pm \<Longrightarrow> p \<in> own \<Longrightarrow> sorted_leaf (pmPages pm p) \<Longrightarrow> parsable (pmPages pm p) \<Longrightarrow>
    case mutate p pm vs of
      (Ok m, pm', vs') \<Rightarrow> used_ids pm' \<le> used_ids pm + 2 \<and>
        (if lmInPlace m then pm' = pm \<and> in_place_of key (new vs) (pmPages pm p) m
         else fresh_leaf pm own (lmNewPageID m) pm' \<and>
           map_of (leaf_kvs (pmPages pm' (lmNewPageID m))) = (map_of (leaf_kvs (pmPages pm p)))(key := new vs))
    | (Err e, pm', vs') \<Rightarrow> used_ids pm' \<le> used_ids pm + 2 \<and> cow_step pm own own pm' \<and> e \<in> errs
    | (Panic, pm', vs') \<Rightarrow> False"
    and new_parses: "allowed vs \<Longrightarrow> new vs = Some v \<Longrightarrow> ParseMVCC v \<noteq> Panic"
    and final_errs: "ErrCASConflict \<notin> errs" "ErrRetry \<notin> errs"

section \<open>The closures\<close>

lemma map_of_update_at:
  assumes "distinct (map fst xs)" "i < length xs"
  shows "map_of (xs[i := (fst (xs ! i), v)]) = (map_of xs)(fst (xs ! i) \<mapsto> v)"
proof -
  have keys: "map fst (xs[i := (fst (xs ! i), v)]) = map fst xs" by (rule sorted_list_update_key [OF assms(2)])
  have "insert_at i (fst (xs ! i), v) (remove_at i xs) = xs[i := (fst (xs ! i), v)]" by (rule insert_at_remove_at [OF assms(2)])
  moreover have "fst (xs ! i) \<notin> fst ` set (remove_at i xs)"
    using map_of_remove_at [OF assms] by (metis dom_map_of_conv_image_fst fun_upd_same domIff)
  ultimately show ?thesis
    using map_of_insert_at [of "(fst (xs ! i), v)" "remove_at i xs" i] map_of_remove_at [OF assms] by simp
qed

lemma parsable_is_tombstone: "parsable pg \<Longrightarrow> i < GetCount pg \<Longrightarrow> is_tombstone (snd (leaf_kvs pg ! i)) \<noteq> Panic"
  by (auto simp: parsable_def is_tombstone_def split: outcome.splits)

lemma is_tombstone_parses: "ParseMVCC v \<noteq> Panic \<Longrightarrow> is_tombstone v \<noteq> Panic"
  by (auto simp: is_tombstone_def split: outcome.splits)

lemma revives_total: "ParseMVCC old \<noteq> Panic \<Longrightarrow> ParseMVCC v \<noteq> Panic \<Longrightarrow> \<exists>bk. revives old v = Ok bk"
  by (cases "ParseMVCC old"; cases "ParseMVCC v") (auto simp: revives_def intro: exI [of _ False])

lemma leaf_value_parses: "parsable pg \<Longrightarrow> i < GetCount pg \<Longrightarrow> ParseMVCC (leaf_value i pg) \<noteq> Panic"
  unfolding parsable_def leaf_value_def by (metis leaf_kvs_nth leaf_lengths(2) nth_mem)

lemma update_mutation:
  assumes "roomy 2 own pm" "p \<in> own" "sorted_leaf (pmPages pm p)" "parsable (pmPages pm p)" "i < GetCount (pmPages pm p)"
    "length (fst (leaf_kvs (pmPages pm p) ! i)) + length v < 2147483648" "ParseMVCC v \<noteq> Panic"
  shows "case leafUpdate p (int i) v pm of
      (Ok q, pm') \<Rightarrow> used_ids pm' \<le> used_ids pm + 2 \<and> fresh_leaf pm own q pm' \<and>
        map_of (leaf_kvs (pmPages pm' q)) = (map_of (leaf_kvs (pmPages pm p)))(fst (leaf_kvs (pmPages pm p) ! i) \<mapsto> v)
    | (Err e, pm') \<Rightarrow> used_ids pm' \<le> used_ids pm + 2 \<and> cow_step pm own own pm' \<and> e \<in> {ErrOffHeapPageFull, ErrOffHeapOutOfMemory}
    | (Panic, pm') \<Rightarrow> False"
proof -
  obtain r pm1 where u: "leafUpdate p (int i) v pm = (r, pm1)" by (cases "leafUpdate p (int i) v pm")
  have "map_of ((leaf_kvs (pmPages pm p))[i := (fst (leaf_kvs (pmPages pm p) ! i), v)]) =
      (map_of (leaf_kvs (pmPages pm p)))(fst (leaf_kvs (pmPages pm p) ! i) \<mapsto> v)"
    using assms(5) by (intro map_of_update_at distinct_keys [OF assms(3)]) simp
  with leafUpdate_result [OF roomy_store_ok [OF assms(1)] assms(2,3,5,6) parsable_is_tombstone [OF assms(4,5)] is_tombstone_parses [OF assms(7)]]
    next_leafUpdate [OF u] u show ?thesis
    by (auto simp: fresh_leaf_def split: outcome.splits)
qed

lemma insert_mutation:
  assumes "roomy 2 own pm" "p \<in> own" "sorted_leaf (pmPages pm p)" "key \<notin> fst ` set (leaf_kvs (pmPages pm p))"
    "length key + length v < 2147483648"
  shows "case leafInsert p key v pm of
      (Ok q, pm') \<Rightarrow> used_ids pm' \<le> used_ids pm + 2 \<and> fresh_leaf pm own q pm' \<and>
        map_of (leaf_kvs (pmPages pm' q)) = (map_of (leaf_kvs (pmPages pm p)))(key \<mapsto> v)
    | (Err e, pm') \<Rightarrow> used_ids pm' \<le> used_ids pm + 2 \<and> cow_step pm own own pm' \<and> e \<in> {ErrOffHeapPageFull, ErrOffHeapOutOfMemory}
    | (Panic, pm') \<Rightarrow> False"
proof -
  obtain r pm1 where u: "leafInsert p key v pm = (r, pm1)" by (cases "leafInsert p key v pm")
  with leafInsert_result [OF roomy_store_ok [OF assms(1)] assms(2,3,5)] next_leafInsert [OF u] assms(4) show ?thesis
    by (auto simp: fresh_leaf_def split: outcome.splits)
qed

interpretation adapter_set: leaf_mutator "adapter_set_mutation key val" key "\<lambda>_. Some val" "{ErrOffHeapPageFull, ErrOffHeapOutOfMemory}"
  "\<lambda>_. ParseMVCC val \<noteq> Panic \<and> length key + length val < 2147483648" for key val
proof
  fix own pm p and vs :: mutation_vars
  assume a: "ParseMVCC val \<noteq> Panic \<and> length key + length val < 2147483648" "roomy 2 own pm" "p \<in> own"
    "sorted_leaf (pmPages pm p)" "parsable (pmPages pm p)"
  obtain i found where s: "leafSearch key (pmPages pm p) = (i, found)" by (cases "leafSearch key (pmPages pm p)")
  note l = leafSearch_value [OF a(4) s]
  show "case adapter_set_mutation key val p pm vs of
      (Ok m, pm', vs') \<Rightarrow> used_ids pm' \<le> used_ids pm + 2 \<and>
        (if lmInPlace m then pm' = pm \<and> in_place_of key (Some val) (pmPages pm p) m
         else fresh_leaf pm own (lmNewPageID m) pm' \<and>
           map_of (leaf_kvs (pmPages pm' (lmNewPageID m))) = (map_of (leaf_kvs (pmPages pm p)))(key := Some val))
    | (Err e, pm', vs') \<Rightarrow> used_ids pm' \<le> used_ids pm + 2 \<and> cow_step pm own own pm' \<and> e \<in> {ErrOffHeapPageFull, ErrOffHeapOutOfMemory}
    | (Panic, pm', vs') \<Rightarrow> False"
  proof (cases found)
    case True
    note i = l(2) [OF True]
    have "ParseMVCC (leaf_value i (pmPages pm p)) \<noteq> Panic" using leaf_value_parses [OF a(5)] i by simp
    with revives_total a(1) obtain bk where "revives (leaf_value i (pmPages pm p)) val = Ok bk" by blast
    with update_mutation [OF a(2-5), of i val] i a(1) s True show ?thesis
      by (auto simp: adapter_set_mutation_def cow_result_def split: outcome.splits)
  next
    case False
    with insert_mutation [OF a(2-4), of key val] l(1) a(1) s show ?thesis
      by (auto simp: adapter_set_mutation_def cow_result_def split: outcome.splits)
  qed
qed simp_all

interpretation adapter_delete: leaf_mutator "adapter_delete_mutation key" key "\<lambda>_. None" "{ErrKeyNotFound, ErrOffHeapOutOfMemory}" "\<lambda>_. True" for key
proof
  fix own pm p and vs :: mutation_vars
  assume a: "roomy 2 own pm" "p \<in> own" "sorted_leaf (pmPages pm p)"
  obtain i found where s: "leafSearch key (pmPages pm p) = (i, found)" by (cases "leafSearch key (pmPages pm p)")
  note l = leafSearch_value [OF a(3) s]
  have st: "cow_step pm own own pm" using a(1) by (simp add: roomy_def)
  obtain r pm1 where u: "leafDelete p (int i) pm = (r, pm1)" by (cases "leafDelete p (int i) pm")
  show "case adapter_delete_mutation key p pm vs of
      (Ok m, pm', vs') \<Rightarrow> used_ids pm' \<le> used_ids pm + 2 \<and>
        (if lmInPlace m then pm' = pm \<and> in_place_of key None (pmPages pm p) m
         else fresh_leaf pm own (lmNewPageID m) pm' \<and>
           map_of (leaf_kvs (pmPages pm' (lmNewPageID m))) = (map_of (leaf_kvs (pmPages pm p)))(key := None))
    | (Err e, pm', vs') \<Rightarrow> used_ids pm' \<le> used_ids pm + 2 \<and> cow_step pm own own pm' \<and> e \<in> {ErrKeyNotFound, ErrOffHeapOutOfMemory}
    | (Panic, pm', vs') \<Rightarrow> False"
  proof (cases found)
    case True
    note i = l(2) [OF True]
    then have "i < GetCount (pmPages pm p)" by simp
    from leafDelete_result [OF roomy_store_ok [OF a(1)] a(2,3) this] next_leafDelete [OF u] u i s True show ?thesis
      by (auto simp: adapter_delete_mutation_def cow_result_def fresh_leaf_def split: outcome.splits)
  next
    case False
    with s st show ?thesis by (simp add: adapter_delete_mutation_def)
  qed
qed simp_all

text \<open>The value that the next timestamp gives.\<close>

definition next_value :: "byte \<Rightarrow> bytes \<Rightarrow> mutation_vars \<Rightarrow> bytes" where
  "next_value flag val vs = (case fst (build_next flag val vs) of Ok raw \<Rightarrow> raw | _ \<Rightarrow> [])"

lemma build_next_ok:
  assumes "mvTS vs + 1 \<noteq> 0" "isValidFlag flag"
  shows "build_next flag val vs = (Ok (next_value flag val vs), vs\<lparr>mvTS := mvTS vs + 1\<rparr>)"
    "length (next_value flag val vs) = 20 + length val"
    "ParseMVCC (next_value flag val vs) = Ok (built_value flag (mvTS vs + 1) val 0 0 [])"
proof -
  obtain raw where raw: "BuildMVCC flag (mvTS vs + 1) val 0 0 [] = Ok raw" using BuildMVCC_total [OF assms(2,1)] by blast
  have b: "build_next flag val vs = (Ok raw, vs\<lparr>mvTS := mvTS vs + 1\<rparr>)"
    using assms(1) raw by (simp add: build_next_def NextTS_def Let_def)
  then have v: "next_value flag val vs = raw" by (simp add: next_value_def)
  show "build_next flag val vs = (Ok (next_value flag val vs), vs\<lparr>mvTS := mvTS vs + 1\<rparr>)" using b v by simp
  show "length (next_value flag val vs) = 20 + length val" using raw unfolding v by (simp add: BuildMVCC_Ok_iff)
  show "ParseMVCC (next_value flag val vs) = Ok (built_value flag (mvTS vs + 1) val 0 0 [])"
    unfolding v using assms raw by (intro ParseMVCC_BuildMVCC) simp_all
qed

lemma ParseMVCC_Err: "ParseMVCC v = Err e \<Longrightarrow> e \<in> {ErrValueTooShort, ErrInvalidFlag}"
  by (cases "parse_prev v (Uint64 (field 2 8 v)) (Uint16 (field 10 2 v))")
    (auto simp: ParseMVCC_def Let_def parse_prev_def parse_current_def split: if_splits option.splits
      elim!: bind_outcome.elims of_panic.elims)

lemma mutateUpdate_result:
  assumes "roomy 2 own pm" "p \<in> own" "sorted_leaf (pmPages pm p)" "parsable (pmPages pm p)" "i < GetCount (pmPages pm p)"
    "fst (leaf_kvs (pmPages pm p) ! i) = key" "mvTS vs + 1 \<noteq> 0" "length key + length val < 2147483628"
  shows "case mutateUpdate i val p pm vs of
      (Ok m, pm', vs') \<Rightarrow> used_ids pm' \<le> used_ids pm + 2 \<and>
        (if lmInPlace m then pm' = pm \<and> in_place_of key (Some (next_value FlagNormal val vs)) (pmPages pm p) m
         else fresh_leaf pm own (lmNewPageID m) pm' \<and>
           map_of (leaf_kvs (pmPages pm' (lmNewPageID m))) = (map_of (leaf_kvs (pmPages pm p)))(key \<mapsto> next_value FlagNormal val vs))
    | (Err e, pm', vs') \<Rightarrow> used_ids pm' \<le> used_ids pm + 2 \<and> cow_step pm own own pm' \<and>
        e \<in> {ErrOffHeapPageFull, ErrOffHeapOutOfMemory, ErrValueTooShort, ErrInvalidFlag}
    | (Panic, pm', vs') \<Rightarrow> False"
proof (cases "ParseMVCC (leaf_value i (pmPages pm p))")
  case (Ok mv)
  note b = build_next_ok [OF assms(7), of FlagNormal val, simplified]
  show ?thesis
  proof (cases "TryInPlace i (next_value FlagNormal val vs) (pmPages pm p)")
    case True
    then show ?thesis using Ok b assms(5,6) by (auto simp: mutateUpdate_def Let_def in_place_of_def TryInPlace_def)
  next
    case False
    with Ok b assms(6,8) update_mutation [OF assms(1-5), of "next_value FlagNormal val vs"] show ?thesis
      by (auto simp: mutateUpdate_def Let_def cow_result_def split: outcome.splits)
  qed
next
  case (Err e)
  then show ?thesis using ParseMVCC_Err [OF Err] assms(1) by (auto simp: mutateUpdate_def roomy_def)
qed (use leaf_value_parses [OF assms(4,5)] in simp)

interpretation tree_set: leaf_mutator "set_mutation key val" key "\<lambda>vs. Some (next_value FlagNormal val vs)"
  "{ErrOffHeapPageFull, ErrOffHeapOutOfMemory, ErrValueTooShort, ErrInvalidFlag}"
  "\<lambda>vs. mvTS vs + 1 \<noteq> 0 \<and> length key + length val < 2147483628" for key val
proof
  fix own pm p and vs :: mutation_vars
  assume a: "mvTS vs + 1 \<noteq> 0 \<and> length key + length val < 2147483628" "roomy 2 own pm" "p \<in> own"
    "sorted_leaf (pmPages pm p)" "parsable (pmPages pm p)"
  obtain i found where s: "leafSearch key (pmPages pm p) = (i, found)" by (cases "leafSearch key (pmPages pm p)")
  note l = leafSearch_value [OF a(4) s]
  show "case set_mutation key val p pm vs of
      (Ok m, pm', vs') \<Rightarrow> used_ids pm' \<le> used_ids pm + 2 \<and>
        (if lmInPlace m then pm' = pm \<and> in_place_of key (Some (next_value FlagNormal val vs)) (pmPages pm p) m
         else fresh_leaf pm own (lmNewPageID m) pm' \<and>
           map_of (leaf_kvs (pmPages pm' (lmNewPageID m))) = (map_of (leaf_kvs (pmPages pm p)))(key := Some (next_value FlagNormal val vs)))
    | (Err e, pm', vs') \<Rightarrow> used_ids pm' \<le> used_ids pm + 2 \<and> cow_step pm own own pm' \<and>
        e \<in> {ErrOffHeapPageFull, ErrOffHeapOutOfMemory, ErrValueTooShort, ErrInvalidFlag}
    | (Panic, pm', vs') \<Rightarrow> False"
  proof (cases found)
    case True
    with mutateUpdate_result [OF a(2-5), of i key vs val] l(2) [OF True] a(1) s show ?thesis by (simp add: set_mutation_def)
  next
    case False
    note b = build_next_ok [of vs FlagNormal val, simplified]
    have "length key + length (next_value FlagNormal val vs) < 2147483648" using a(1) b(2) by simp
    with insert_mutation [OF a(2-4), of key "next_value FlagNormal val vs"] False l(1) s b(1) a(1) show ?thesis
      by (auto simp: set_mutation_def mutateInsert_def cow_result_def split: outcome.splits)
  qed
qed (auto simp: build_next_ok)

interpretation tree_delete: leaf_mutator "delete_mutation key" key "\<lambda>vs. Some (next_value FlagTombstone [] vs)"
  "{ErrKeyNotFound, ErrOffHeapPageFull, ErrOffHeapOutOfMemory, ErrValueTooShort, ErrInvalidFlag}"
  "\<lambda>vs. mvTS vs + 1 \<noteq> 0 \<and> length key < 2147483628" for key
proof
  fix own pm p and vs :: mutation_vars
  assume a: "mvTS vs + 1 \<noteq> 0 \<and> length key < 2147483628" "roomy 2 own pm" "p \<in> own"
    "sorted_leaf (pmPages pm p)" "parsable (pmPages pm p)"
  obtain i found where s: "leafSearch key (pmPages pm p) = (i, found)" by (cases "leafSearch key (pmPages pm p)")
  note l = leafSearch_value [OF a(4) s]
  have st: "cow_step pm own own pm" using a(2) by (simp add: roomy_def)
  note b = build_next_ok [of vs FlagTombstone "[]", simplified]
  show "case delete_mutation key p pm vs of
      (Ok m, pm', vs') \<Rightarrow> used_ids pm' \<le> used_ids pm + 2 \<and>
        (if lmInPlace m then pm' = pm \<and> in_place_of key (Some (next_value FlagTombstone [] vs)) (pmPages pm p) m
         else fresh_leaf pm own (lmNewPageID m) pm' \<and>
           map_of (leaf_kvs (pmPages pm' (lmNewPageID m))) = (map_of (leaf_kvs (pmPages pm p)))(key := Some (next_value FlagTombstone [] vs)))
    | (Err e, pm', vs') \<Rightarrow> used_ids pm' \<le> used_ids pm + 2 \<and> cow_step pm own own pm' \<and>
        e \<in> {ErrKeyNotFound, ErrOffHeapPageFull, ErrOffHeapOutOfMemory, ErrValueTooShort, ErrInvalidFlag}
    | (Panic, pm', vs') \<Rightarrow> False"
  proof (cases found)
    case True
    note i = l(2) [OF True]
    show ?thesis
    proof (cases "ParseMVCC (leaf_value i (pmPages pm p))")
      case (Ok mv)
      with update_mutation [OF a(2-5), of i "next_value FlagTombstone [] vs"] i True a(1) b s st show ?thesis
        by (auto simp: delete_mutation_def cow_result_def split: outcome.splits)
    next
      case (Err e)
      then show ?thesis using ParseMVCC_Err [OF Err] st True s by (auto simp: delete_mutation_def)
    qed (use leaf_value_parses [OF a(5)] i in simp)
  qed (use s st in \<open>simp add: delete_mutation_def\<close>)
qed (auto simp: build_next_ok)

end
