(* ===== verification/BTree_Update.thy ===== *)
theory BTree_Update
  imports BTree_Mutators
begin

text \<open>
  Writes that do not split: a leaf reference moves to a new page, or its page is overwritten in place. The
  invariant is kept and the map of the tree changes at the written key only.
\<close>

section \<open>Replacing the entries of a leaf\<close>

lemma sorted_leaf_mapI:
  assumes "sorted_leaf pg" "map_of (leaf_kvs pg) = (map_of kvs)(key := nv)" "(k, v) \<in> set (leaf_kvs pg)"
  shows "k = key \<and> nv = Some v \<or> (k, v) \<in> set kvs"
proof -
  have "map_of (leaf_kvs pg) k = Some v" using distinct_keys [OF assms(1)] assms(3) by simp
  then show ?thesis unfolding assms(2) by (auto split: if_splits dest: map_of_SomeD)
qed

lemma items_ok_replace:
  assumes "items_ok (l @ entry_items kvs @ r)" "fits key l r" "sorted_leaf pg"
    "map_of (leaf_kvs pg) = (map_of kvs)(key := nv)" "\<And>v. nv = Some v \<Longrightarrow> ParseMVCC v \<noteq> Panic"
  shows "items_ok (l @ entry_items (leaf_kvs pg) @ r)"
proof -
  have old: "sorted_wrt before l" "sorted_wrt before r" "\<forall>x\<in>set l. \<forall>y\<in>set r. before x y"
    "\<forall>x\<in>set l. \<forall>y\<in>set (entry_items kvs). before x y" "\<forall>x\<in>set (entry_items kvs). \<forall>y\<in>set r. before x y"
    using assms(1) by (auto simp: items_ok_def sorted_wrt_append)
  have new: "fst y = key \<and> snd y \<noteq> None \<or> y \<in> set (entry_items kvs)" if "y \<in> set (entry_items (leaf_kvs pg))" for y
    using that sorted_leaf_mapI [OF assms(3,4)] by (fastforce simp: set_entry_items)
  have "before x y" if "x \<in> set l" "y \<in> set (entry_items (leaf_kvs pg))" for x y
  proof (cases "fst y = key \<and> snd y \<noteq> None")
    case True
    with assms(2) that(1) show ?thesis unfolding fits_def before_def by metis
  next
    case False
    with new [OF that(2)] old(4) that(1) show ?thesis by blast
  qed
  moreover have "before y z" if "y \<in> set (entry_items (leaf_kvs pg))" "z \<in> set r" for y z
  proof (cases "fst y = key \<and> snd y \<noteq> None")
    case True
    with assms(2) that(2) show ?thesis unfolding fits_def before_def by metis
  next
    case False
    with new [OF that(1)] old(5) that(2) show ?thesis by blast
  qed
  moreover have "sorted_wrt before (entry_items (leaf_kvs pg))" using assms(3) by (simp add: sorted_entry_items sorted_leaf_def)
  ultimately have "sorted_wrt before (l @ entry_items (leaf_kvs pg) @ r)" using old(1-3) by (auto simp: sorted_wrt_append)
  moreover have "ParseMVCC v \<noteq> Panic" if "(k, v) \<in> set (leaf_kvs pg)" for k v
  proof -
    have "\<forall>kv\<in>set kvs. ParseMVCC (snd kv) \<noteq> Panic" using assms(1) by (simp add: items_ok_def)
    with sorted_leaf_mapI [OF assms(3,4) that] assms(5) show ?thesis by (metis snd_conv)
  qed
  then have "\<forall>kv\<in>set (item_entries (l @ entry_items (leaf_kvs pg) @ r)). ParseMVCC (snd kv) \<noteq> Panic"
    using assms(1) by (auto simp: items_ok_def)
  ultimately show ?thesis by (simp add: items_ok_def)
qed

lemma map_of_replace:
  assumes "fits key l r" "map_of kvs' = (map_of kvs)(key := nv)"
  shows "map_of (item_entries l @ kvs' @ item_entries r) = (map_of (item_entries l @ kvs @ item_entries r))(key := nv)"
proof
  fix k
  show "map_of (item_entries l @ kvs' @ item_entries r) k = ((map_of (item_entries l @ kvs @ item_entries r))(key := nv)) k"
  proof (cases "k = key")
    case True
    then show ?thesis using fits_lookup [OF assms(1), of kvs'] assms(2) by simp
  next
    case False
    then show ?thesis using assms(2) by (simp add: map_add_def)
  qed
qed

section \<open>Changing one leaf\<close>

lemma held_disjoint: "held b own R \<Longrightarrow> r \<in> R \<Longrightarrow> s \<in> R \<Longrightarrow> r \<noteq> s \<Longrightarrow> ids_of b r \<inter> ids_of b s = {}"
  by (simp add: held_def)

lemma heldD: "held b own R \<Longrightarrow> r \<in> R \<Longrightarrow> ids_of b r \<subseteq> own \<and> r < btNextRef b \<and> (r \<noteq> 0 \<longrightarrow> pid_of b r \<noteq> 0)"
  by (simp add: held_def)

lemma info_in_ids: "piPageID (info_of b r) \<in> ids_of b r"
  by (simp add: ids_of_def)

text \<open>The leaf \<open>h\<close> has a new snapshot; every other reference and its page are as before.\<close>

definition leaf_moved :: "nat \<Rightarrow> page_info \<Rightarrow> btree \<Rightarrow> btree \<Rightarrow> bool" where
  "leaf_moved h pi b b' \<longleftrightarrow> btEpoch b' = btEpoch b \<and> btNextRef b' = btNextRef b \<and> btClosed b' = btClosed b \<and>
     btRefs b' = (btRefs b)(h := (btRefs b h)\<lparr>prInfo := pi\<rparr>)"

lemma leaf_moved_inv:
  assumes inv: "tree_inv b own (plug c (Lf h))" and moved: "leaf_moved h pi b b'"
    and pi: "piIsLeaf pi" "\<not> piRedirect pi" "\<not> IsBusy pi" and fits: "fits key (cleft b c) (cright b c)"
    and page: "piPageID pi \<in> own'" "\<forall>r\<in>set (crefs c). piPageID pi \<notin> ids_of b r" "own \<subseteq> own'"
    and others: "\<forall>r\<in>set (crefs c). pmPages (btStore b') (piPageID (info_of b r)) = page_of b r"
    and step: "cow_step (btStore b') own' own' (btStore b')"
    and leaf: "sorted_leaf (pmPages (btStore b') (piPageID pi))"
      "map_of (leaf_kvs (pmPages (btStore b') (piPageID pi))) = (map_of (leaf_kvs (page_of b h)))(key := nv)"
      "\<And>v. nv = Some v \<Longrightarrow> ParseMVCC v \<noteq> Panic"
  shows "tree_inv b' own' (plug c (Lf h)) \<and> tree_map b' (plug c (Lf h)) = (tree_map b (plug c (Lf h)))(key := nv)"
proof -
  let ?t = "plug c (Lf h)"
  have ok: "btEpoch b = None" "root_ref ?t = 0" "crep b c h" "distinct (trefs ?t)" "held b own (set (trefs ?t))" "0 \<in> own" and
    items: "items_ok (cleft b c @ entry_items (leaf_kvs (page_of b h)) @ cright b c)"
    using inv items_plug [of b c "Lf h"] by (auto simp: tree_inv_def tree_ok_def rep_plug)
  have h: "h \<notin> set (crefs c)" using ok(4) by (simp add: distinct_trefs_plug)
  have m: "btRefs b' = (btRefs b)(h := (btRefs b h)\<lparr>prInfo := pi\<rparr>)" "btEpoch b' = None" "btNextRef b' = btNextRef b"
    using moved ok(1) by (simp_all add: leaf_moved_def)
  have "agree b b' (set (crefs c))" using h others by (auto simp: agree_def m)
  from crep_agree [OF this, of h] ok(3) have ctx: "crep b' c h" "cleft b' c = cleft b c" "cright b' c = cright b c" by (simp_all add: m)
  have ids: "ids_of b' r = ids_of b r" if "r \<in> set (crefs c)" for r using h that by (auto simp: ids_of_def m)
  have idh: "ids_of b' h \<subseteq> insert (piPageID pi) (ids_of b h)" "pid_of b' h = pid_of b h" by (auto simp: ids_of_def m)
  have trefs: "set (trefs ?t) = insert h (set (crefs c))" by (simp add: set_trefs_plug)
  have "held b' own' (set (trefs ?t))"
    unfolding held_def trefs
  proof (intro conjI ballI impI)
    fix r assume r: "r \<in> insert h (set (crefs c))"
    note old = heldD [OF ok(5), unfolded trefs, OF r]
    show "ids_of b' r \<subseteq> own'"
    proof (cases "r = h")
      case True
      then show ?thesis using idh(1) old page(1,3) by blast
    qed (use r ids old page(3) in blast)
    show "r < btNextRef b'" using old m by simp
    show "pid_of b' r \<noteq> 0" if "r \<noteq> 0" using old that by (auto simp: m)
    fix s assume s: "s \<in> insert h (set (crefs c))" "r \<noteq> s"
    have "ids_of b r \<inter> ids_of b s = {}" using held_disjoint [OF ok(5), of r s] r s trefs by simp
    then show "ids_of b' r \<inter> ids_of b' s = {}" using r s ids idh(1) page(2) by (cases "r = h"; cases "s = h") blast+
  qed
  moreover have "leaf_at b' h" using pi leaf(1) by (simp add: leaf_at_def m)
  moreover have "items b' ?t = cleft b c @ entry_items (leaf_kvs (pmPages (btStore b') (piPageID pi))) @ cright b c"
    using items_plug [of b' c "Lf h"] ctx by (simp add: m)
  moreover have "tree_map b' ?t = (tree_map b ?t)(key := nv)"
    unfolding tree_map_split [OF ok(3)] tree_map_split [OF ctx(1)] ctx(2,3) using map_of_replace [OF fits leaf(2)] by (simp add: m)
  ultimately show ?thesis
    using ctx ok m(2) step page(3) items_ok_replace [OF items fits leaf(1,2,3)]
    by (auto simp: tree_inv_def tree_ok_def rep_plug)
qed

section \<open>The two ways of writing a leaf\<close>

lemma bump_tombstones_pages: "pmPages (bump_tombstones d q pm) x = (if x = q then (pmPages pm x)\<lparr>tombstoneCount := tombstoneCount (pmPages (bump_tombstones d q pm) x)\<rparr> else pmPages pm x)"
  by (simp add: bump_tombstones_def Let_def with_page_def)

lemma bump_tombstones_leaf [simp]:
  "sorted_leaf (pmPages (bump_tombstones d q pm) x) = sorted_leaf (pmPages pm x)"
  "leaf_kvs (pmPages (bump_tombstones d q pm) x) = leaf_kvs (pmPages pm x)"
  by (simp_all add: bump_tombstones_def Let_def with_page_def)

lemma bump_tombstones_used [simp]: "nextPageID (bump_tombstones d q pm) = nextPageID pm"
  by (simp add: bump_tombstones_def Let_def)

lemma bump_tombstones_step: "cow_step pm own own' pm1 \<Longrightarrow> q \<notin> own \<Longrightarrow> cow_step pm own own' (bump_tombstones d q pm1)"
  unfolding bump_tombstones_def Let_def by (intro write_step) (simp_all add: cow_step_def)

definition bumped :: "16 word \<Rightarrow> u32 \<Rightarrow> page_manager \<Rightarrow> page_manager" where
  "bumped d q pm = (if d \<noteq> 0 then bump_tombstones d q pm else pm)"

lemma fresh_leaf_bumped: "fresh_leaf pm own q pm1 \<Longrightarrow> fresh_leaf pm own q (bumped d q pm1)"
  by (simp add: fresh_leaf_def bumped_def bump_tombstones_step)

lemma bumped_simps [simp]: "leaf_kvs (pmPages (bumped d q pm) x) = leaf_kvs (pmPages pm x)" "nextPageID (bumped d q pm) = nextPageID pm"
  by (simp_all add: bumped_def)

text \<open>The store is replaced by one in which the leaf has a fresh page.\<close>

lemma copy_published:
  assumes inv: "tree_inv b own (plug c (Lf h))" and fits: "fits key (cleft b c) (cright b c)"
    and q: "fresh_leaf (btStore b) own q (btStore b')" and moved: "leaf_moved h pi b b'"
    and pi: "piPageID pi = q" "piIsLeaf pi" "\<not> piRedirect pi" "\<not> IsBusy pi"
    and map: "map_of (leaf_kvs (pmPages (btStore b') q)) = (map_of (leaf_kvs (page_of b h)))(key := nv)"
    and nv: "\<And>v. nv = Some v \<Longrightarrow> ParseMVCC v \<noteq> Panic"
  shows "tree_inv b' (insert q own) (plug c (Lf h)) \<and> tree_map b' (plug c (Lf h)) = (tree_map b (plug c (Lf h)))(key := nv)"
proof -
  have held: "held b own (set (crefs c))" using inv by (auto simp: tree_inv_def tree_ok_def set_trefs_plug held_def)
  have st: "cow_step (btStore b) own (insert q own) (btStore b')" "q \<notin> own" "sorted_leaf (pmPages (btStore b') q)"
    using q by (simp_all add: fresh_leaf_def)
  have own: "ids_of b r \<subseteq> own" if "r \<in> set (crefs c)" for r using heldD [OF held that] by simp
  have "pmPages (btStore b') (piPageID (info_of b r)) = page_of b r" if "r \<in> set (crefs c)" for r
    using st(1) subsetD [OF own [OF that] info_in_ids] by (simp add: cow_step_def)
  with st own cow_step_refl [OF st(1)] map nv pi show ?thesis
    by (intro leaf_moved_inv [OF inv moved pi(2-4) fits]) auto
qed

text \<open>The page of the leaf is overwritten at one entry.\<close>

lemma overwritten_in_place:
  assumes inv: "tree_inv b own (plug c (Lf h))" and fits: "fits key (cleft b c) (cright b c)"
    and place: "in_place_of key nv (page_of b h) m" and moved: "leaf_moved h pi b b'"
    and pi: "piPageID pi = piPageID (info_of b h)" "piIsLeaf pi" "\<not> piRedirect pi" "\<not> IsBusy pi"
    and store: "btStore b' = bumped d (piPageID (info_of b h))
      (with_page (piPageID (info_of b h)) (\<lambda>pg. snd (OverwriteLeafValue (lmInPlaceIdx m) (lmInPlaceValue m) pg)) (btStore b))"
    and nv: "\<And>v. nv = Some v \<Longrightarrow> ParseMVCC v \<noteq> Panic"
  shows "tree_inv b' own (plug c (Lf h)) \<and> tree_map b' (plug c (Lf h)) = (tree_map b (plug c (Lf h)))(key := nv)"
proof -
  let ?p = "piPageID (info_of b h)" and ?pg = "page_of b h"
  have ok: "held b own (set (trefs (plug c (Lf h))))" "distinct (trefs (plug c (Lf h)))" "leaf_at b h" "cow_step (btStore b) own own (btStore b)"
    using inv by (auto simp: tree_inv_def tree_ok_def rep_plug)
  have h: "h \<notin> set (crefs c)" using ok(2) by (simp add: distinct_trefs_plug)
  have srt: "sorted_leaf ?pg" using ok(3) by (simp add: leaf_at_def)
  obtain i where i: "lmInPlaceIdx m = int i" "i < GetCount ?pg" "fst (leaf_kvs ?pg ! i) = key"
      "length (lmInPlaceValue m) \<le> unat (leValLen (leaf_entry_at i ?pg))" "nv = Some (lmInPlaceValue m)"
    using place by (auto simp: in_place_of_def)
  let ?v = "lmInPlaceValue m"
  have lok: "leaf_ok ?pg" using srt by (simp add: sorted_leaf_def)
  have "leaf_entry_at i ?pg \<in> set (leaf_entries ?pg)" using i(2) by (simp add: leaf_entries_def)
  with leaf_kv_lengths(2) [OF lok this] have can: "can_overwrite i ?v ?pg"
    using i lok by (simp add: can_overwrite_def leaf_kvs_nth)
  have pg: "snd (OverwriteLeafValue (lmInPlaceIdx m) ?v ?pg) = leaf_overwritten i ?v ?pg"
    using OverwriteLeafValue_can [OF can] i(1) by simp
  have kvs: "leaf_kvs (leaf_overwritten i ?v ?pg) = (leaf_kvs ?pg)[i := (key, ?v)]" using overwritten_kvs [OF can] i(3) by simp
  have "sorted_leaf (leaf_overwritten i ?v ?pg)"
    using srt overwritten_ok [OF can] i(2,3) unfolding sorted_leaf_def kvs
    by (metis leaf_lengths(2) sorted_list_update_key)
  then have leaf: "sorted_leaf (pmPages (btStore b') ?p)" "leaf_kvs (pmPages (btStore b') ?p) = (leaf_kvs ?pg)[i := (key, ?v)]"
    using kvs pg by (auto simp: store bumped_def with_page_def)
  have map: "map_of ((leaf_kvs ?pg)[i := (key, ?v)]) = (map_of (leaf_kvs ?pg))(key := nv)"
    using map_of_update_at [OF distinct_keys [OF srt], of i ?v] i by simp
  have st: "cow_step (btStore b') own own (btStore b')"
  proof -
    have "cow_step (btStore b) {} own (btStore b)" using ok(4) by (simp add: cow_step_def)
    then have "cow_step (btStore b) {} own (with_page ?p (\<lambda>pg. snd (OverwriteLeafValue (lmInPlaceIdx m) ?v pg)) (btStore b))"
      using pg overwritten_data(3) [OF can order_refl] by (intro write_step) simp_all
    then have "cow_step (btStore b) {} own (btStore b')" unfolding store bumped_def by (simp add: bump_tombstones_step)
    then show ?thesis by (rule cow_step_refl)
  qed
  have dis: "?p \<notin> ids_of b r" if "r \<in> set (crefs c)" for r
    using held_disjoint [OF ok(1), of r h] that h info_in_ids [of b h] by (auto simp: set_trefs_plug)
  have "pmPages (btStore b') (piPageID (info_of b r)) = page_of b r" if "r \<in> set (crefs c)" for r
    using dis [OF that] info_in_ids [of b r] by (auto simp: store bumped_def bump_tombstones_def Let_def with_page_def)
  moreover have "?p \<in> own" using heldD [OF ok(1), of h] info_in_ids [of b h] by (auto simp: set_trefs_plug)
  ultimately show ?thesis using st leaf map dis nv pi by (intro leaf_moved_inv [OF inv moved pi(2-4) fits]) auto
qed

end
