(* ===== verification/BTree_Grow.thy ===== *)
theory BTree_Grow
  imports BTree_Update
begin

text \<open>
  How a tree grows: a child of a node is replaced by two subtrees with a separator between them, or the
  root gets a new root above two subtrees. The lemmas say what has to hold of the changed references and
  pages for the invariant to be kept.
\<close>

section \<open>Items of split nodes\<close>

lemma weave_split: "length xs = Suc (length ss) \<Longrightarrow> weave (xs @ ys) (ss @ s # ts) = weave xs ss @ (s, None) # weave ys ts"
proof (induction xs ss rule: weave.induct)
  case (2 xs)
  then obtain x where "xs = [x]" by (cases xs) auto
  then show ?case by simp
qed simp_all

lemma split_items_ok:
  assumes "items_ok (l @ entry_items (A @ B) @ r)" "A \<noteq> []" "B \<noteq> []" "k = fst (hd B)" "list_all (\<lambda>kv. fst kv < k) A"
  shows "items_ok (l @ entry_items A @ (k, None) # entry_items B @ r)"
proof -
  obtain a A' where A: "A = a # A'" using assms(2) by (cases A) auto
  obtain d B' where B: "B = d # B'" using assms(3) by (cases B) auto
  have srt: "sorted_wrt before (l @ entry_items A @ entry_items B @ r)" using assms(1) by (simp add: items_ok_def)
  let ?d = "(fst d, Some (snd d))" and ?a = "(fst a, Some (snd a))"
  have k: "k = fst d" using assms(4) B by simp
  have above: "before (k, None) y" if "y \<in> set (entry_items B @ r)" for y
  proof (cases "y = ?d")
    case False
    then have "before ?d y" using srt that B by (auto simp: sorted_wrt_append entry_items_def)
    then show ?thesis by (auto simp: before_def k)
  qed (simp add: before_def k)
  have left: "before x (k, None)" if "x \<in> set l" for x
  proof -
    have "before x ?a" using srt that A by (auto simp: sorted_wrt_append entry_items_def)
    moreover have "fst a < k" using assms(5) A by simp
    ultimately show ?thesis by (auto simp: before_def)
  qed
  have mid: "before x (k, None)" if "x \<in> set (entry_items A)" for x
    using that assms(5) by (auto simp: set_entry_items before_def list_all_iff)
  have "sorted_wrt before (l @ entry_items A @ (k, None) # entry_items B @ r)"
    using srt above left mid by (auto simp: sorted_wrt_append)
  then show ?thesis using assms(1) by (auto simp: items_ok_def)
qed

section \<open>A child becomes two\<close>

text \<open>\<open>tx\<close> and \<open>ty\<close> are new subtrees: they stand for something, are apart from each other and hold their pages.\<close>

definition pair_ok :: "btree \<Rightarrow> u32 set \<Rightarrow> tree \<Rightarrow> tree \<Rightarrow> bool" where
  "pair_ok b own tx ty \<longleftrightarrow> rep b tx \<and> rep b ty \<and> distinct (trefs tx @ trefs ty) \<and> held b own (set (trefs tx @ trefs ty)) \<and>
     0 \<notin> set (trefs tx @ trefs ty)"

text \<open>The node \<open>r\<close> has the fresh page \<open>q\<close> and, at place \<open>i\<close>, the two children with the separator \<open>k\<close>.\<close>

definition two_children :: "btree \<Rightarrow> btree \<Rightarrow> nat \<Rightarrow> nat \<Rightarrow> bytes \<Rightarrow> nat \<Rightarrow> nat \<Rightarrow> u32 \<Rightarrow> bool" where
  "two_children b b' r i k x y q \<longleftrightarrow>
     pid_of b' r = pid_of b r \<and> piPageID (info_of b' r) = q \<and> \<not> piIsLeaf (info_of b' r) \<and> \<not> piRedirect (info_of b' r) \<and>
     prChildren (btRefs b' r) = Some \<lparr>ccChildren = split_child i x y (ccChildren (the (prChildren (btRefs b r)))),
       ccSeparators = insert_at i k (seps_of b r)\<rparr> \<and>
     index_ok (pmPages (btStore b') q) \<and> node_keys (pmPages (btStore b') q) = insert_at i k (node_keys (page_of b r)) \<and>
     node_children (pmPages (btStore b') q) = split_child i (pid_of b' x) (pid_of b' y) (node_children (page_of b r))"

lemma split_child_mid: "length xs = i \<Longrightarrow> split_child i x y (xs @ h # ys) = xs @ x # y # ys"
  by (simp add: split_child_def)

lemma insert_at_length: "i \<le> length xs \<Longrightarrow> length (insert_at i x xs) = Suc (length xs)"
  by (simp add: insert_at_def)

lemma held_Un:
  assumes "held b own R" "held b own S" "\<And>r s. r \<in> R \<Longrightarrow> s \<in> S \<Longrightarrow> ids_of b r \<inter> ids_of b s = {}"
  shows "held b own (R \<union> S)"
  unfolding held_def
proof (intro conjI ballI impI)
  fix r assume r: "r \<in> R \<union> S"
  show "ids_of b r \<subseteq> own" "r < btNextRef b" "r \<noteq> 0 \<Longrightarrow> pid_of b r \<noteq> 0" using r assms(1,2) by (auto simp: held_def)
  fix s assume s: "s \<in> R \<union> S" "r \<noteq> s"
  show "ids_of b r \<inter> ids_of b s = {}"
    using r s assms(3) [of r s] assms(3) [of s r] held_disjoint [OF assms(1), of r s] held_disjoint [OF assms(2), of r s] by blast
qed

lemma ids_of_cong: "btRefs b' r = btRefs b r \<Longrightarrow> ids_of b' r = ids_of b r"
  by (cases "r = 0") (simp_all add: ids_of_def)

lemma held_mono:
  assumes "held b own R" "own \<subseteq> own'" "btNextRef b \<le> btNextRef b'" "\<And>r. r \<in> R \<Longrightarrow> btRefs b' r = btRefs b r" "S \<subseteq> R"
  shows "held b' own' S"
proof -
  have "ids_of b' r = ids_of b r" "pid_of b' r = pid_of b r" if "r \<in> R" for r
    using ids_of_cong [OF assms(4) [OF that]] assms(4) [OF that] by simp_all
  with assms show ?thesis unfolding held_def by (metis (no_types, lifting) order_less_le_trans subsetD subset_trans)
qed

text \<open>Everything around the node is untouched and no page in use has changed.\<close>

definition grown :: "btree \<Rightarrow> u32 set \<Rightarrow> btree \<Rightarrow> u32 set \<Rightarrow> nat set \<Rightarrow> bool" where
  "grown b own b' own' R \<longleftrightarrow> btEpoch b' = None \<and> btNextRef b \<le> btNextRef b' \<and> own \<subseteq> own' \<and>
     (\<forall>r\<in>R. btRefs b' r = btRefs b r) \<and> (\<forall>p\<in>own. pmPages (btStore b') p = pmPages (btStore b) p) \<and>
     cow_step (btStore b') own' own' (btStore b')"

lemma grown_agree: "grown b own b' own' R \<Longrightarrow> held b own R \<Longrightarrow> agree b b' R"
  using info_in_ids by (fastforce simp: grown_def held_def agree_def)

lemma split_in_parent:
  assumes ok: "tree_ok b own (plug ((r, ls, rs) # c) t0)" "h = root_ref t0"
    and R: "R = set (crefs c) \<union> set (concat (map trefs ls)) \<union> set (concat (map trefs rs))" "grown b own b' own' R"
    and parent: "two_children b b' r (length ls) k (root_ref tx) (root_ref ty) q" "q \<notin> own" "q \<in> own'"
    and pair: "pair_ok b' own' tx ty" "set (trefs tx @ trefs ty) \<inter> set (crefs ((r, ls, rs) # c)) = {}"
    and apart: "\<And>u v. u \<in> set (trefs tx @ trefs ty) \<Longrightarrow> v \<in> set (crefs ((r, ls, rs) # c)) \<Longrightarrow> ids_of b' u \<inter> ids_of b v = {} \<and> q \<notin> ids_of b' u"
  shows "tree_ok b' own' (plug c (Nd r (ls @ tx # ty # rs)))"
    "items b' (plug c (Nd r (ls @ tx # ty # rs))) =
       cleft b ((r, ls, rs) # c) @ (items b' tx @ (k, None) # items b' ty) @ cright b ((r, ls, rs) # c)"
proof -
  let ?C = "(r, ls, rs) # c" and ?t = "Nd r (ls @ tx # ty # rs)"
  have old: "crep b ?C h" "root_ref (plug ?C t0) = 0" "distinct (trefs (plug ?C t0))" "held b own (set (trefs (plug ?C t0)))" "0 \<in> own"
    using ok by (simp_all add: tree_ok_def rep_plug flip: plug.simps)
  have node: "node_at b r (map root_ref ls @ h # map root_ref rs)" and sub: "\<forall>t\<in>set ls. rep b t" "\<forall>t\<in>set rs. rep b t" and up: "crep b c r"
    using old(1) by simp_all
  have trefs: "set (trefs (plug ?C t0)) = insert r (R \<union> set (trefs t0))" by (auto simp: set_trefs_plug R(1) simp del: plug.simps)
  have held: "held b own (insert r R)" using old(4) unfolding trefs by (auto simp: held_def)
  have dis: "distinct (crefs ?C)" using old(3) unfolding distinct_trefs_plug distinct_append by blast
  have rR: "r \<notin> R" using dis by (auto simp: R(1))
  have agr: "agree b b' R" by (rule grown_agree [OF R(2)]) (use held in \<open>auto simp: held_def\<close>)
  have subs: "rep b' t \<and> items b' t = items b t" if "t \<in> set ls \<union> set rs" for t
    using rep_agree [OF agree_sub [OF agr, of "set (trefs t)"]] that sub R(1) by auto
  have ctx: "crep b' c r" "cleft b' c = cleft b c" "cright b' c = cright b c"
    using crep_agree [OF agree_sub [OF agr], of c r] R(1) up parent(1) by (auto simp: two_children_def)
  have len: "length ls + length rs = length (seps_of b r)" using node by (simp add: node_at_def)
  have seps: "seps_of b' r = insert_at (length ls) k (seps_of b r)" using parent(1) by (simp add: two_children_def)
  have cs: "ccChildren (the (prChildren (btRefs b r))) = map root_ref ls @ h # map root_ref rs" using node by (simp add: node_at_def)
  have pids: "map (pid_of b') (map root_ref ls) = map (pid_of b) (map root_ref ls)" "map (pid_of b') (map root_ref rs) = map (pid_of b) (map root_ref rs)"
  proof -
    have "root_ref t \<in> R" if "t \<in> set ls \<union> set rs" for t using that root_in_trefs [of t] by (auto simp: R(1))
    then have "pid_of b' (root_ref t) = pid_of b (root_ref t)" if "t \<in> set ls \<union> set rs" for t
      using R(2) that by (simp add: grown_def)
    then show "map (pid_of b') (map root_ref ls) = map (pid_of b) (map root_ref ls)"
      "map (pid_of b') (map root_ref rs) = map (pid_of b) (map root_ref rs)" by simp_all
  qed
  have "node_at b' r (map root_ref (ls @ tx # ty # rs))"
    using parent(1) node len pids unfolding node_at_def two_children_def cs seps
    by (simp add: split_child_mid insert_at_length)
  moreover have "\<forall>t\<in>set (ls @ tx # ty # rs). rep b' t" using subs pair(1) by (auto simp: pair_ok_def)
  ultimately have rep: "rep b' (plug c ?t)" using ctx(1) by (simp add: rep_plug)
  have m: "map (items b') ls = map (items b) ls" "map (items b') rs = map (items b) rs" using subs by simp_all
  have "items b' ?t = weave (map (items b) ls @ items b' tx # items b' ty # map (items b) rs) (insert_at (length ls) k (seps_of b r))"
    by (simp add: seps m)
  also have "\<dots> = weave_left (map (items b) ls) (take (length ls) (seps_of b r)) @ (items b' tx @ (k, None) # items b' ty) @
      weave_right (drop (length ls) (seps_of b r)) (map (items b) rs)"
    unfolding insert_at_def using len by (intro weave_at2) simp_all
  finally show "items b' (plug c ?t) = cleft b ?C @ (items b' tx @ (k, None) # items b' ty) @ cright b ?C"
    using items_plug [of b' c ?t] ctx by simp
  have new: "set (trefs (plug c ?t)) = insert r R \<union> set (trefs tx @ trefs ty)" by (auto simp: set_trefs_plug R(1))
  have idr: "ids_of b' r \<subseteq> insert q (ids_of b r)" "pid_of b' r = pid_of b r" using parent(1) by (auto simp: ids_of_def two_children_def)
  have ids: "ids_of b' v = ids_of b v" if "v \<in> R" for v using R(2) that by (intro ids_of_cong) (simp add: grown_def)
  have g: "own \<subseteq> own'" "btNextRef b \<le> btNextRef b'" "btEpoch b' = None" "cow_step (btStore b') own' own' (btStore b')"
    using R(2) by (simp_all add: grown_def)
  have hR: "held b own R" using held by (auto simp: held_def)
  have "held b' own' R" using R(2) g by (intro held_mono [OF hR]) (simp_all add: grown_def)
  moreover have "held b' own' {r}" using heldD [OF held, of r] idr g parent(3) by (auto simp: held_def)
  moreover have "ids_of b' u \<inter> ids_of b' v = {}" if "u \<in> {r}" "v \<in> R" for u v
  proof -
    have ne: "r \<noteq> v" using that rR by blast
    have "ids_of b r \<inter> ids_of b v = {}" "ids_of b v \<subseteq> own"
      using held_disjoint [OF held insertI1 insertI2 [OF that(2)] ne] heldD [OF held insertI2 [OF that(2)]] by simp_all
    then show ?thesis using that idr(1) ids parent(2) by auto
  qed
  ultimately have heldR: "held b' own' (insert r R)" using held_Un [of b' own' "{r}" R] by simp
  have "ids_of b' u \<inter> ids_of b' v = {}" if "u \<in> insert r R" "v \<in> set (trefs tx @ trefs ty)" for u v
  proof -
    have u: "u \<in> set (crefs ?C)" using that(1) by (auto simp: R(1))
    then have "ids_of b' u \<subseteq> insert q (ids_of b u)" using that(1) ids idr(1) by (cases "u = r") auto
    then show ?thesis using apart [OF that(2) u] by blast
  qed
  then have held': "held b' own' (set (trefs (plug c ?t)))"
    unfolding new using heldR pair(1) by (intro held_Un) (auto simp: pair_ok_def)
  have "distinct (trefs (plug c ?t))"
    using dis pair unfolding distinct_trefs_plug pair_ok_def trefs.simps crefs.simps map_append list.map concat_append concat.simps
      append_assoc append_Cons distinct_append distinct.simps set_append set_simps by blast
  moreover have "root_ref (plug c ?t) = 0" using old(2) by (cases "c = []") (simp_all add: root_ref_plug)
  ultimately show "tree_ok b' own' (plug c ?t)" using rep held' g old(5) by (auto simp: tree_ok_def)
qed

section \<open>A new root\<close>

lemma root_grown:
  assumes root: "prChildren (btRefs b' 0) = Some \<lparr>ccChildren = [root_ref tx, root_ref ty], ccSeparators = [k]\<rparr>"
      "piPageID (info_of b' 0) = q" "\<not> piIsLeaf (info_of b' 0)" "\<not> piRedirect (info_of b' 0)"
    and page: "index_ok (pmPages (btStore b') q)" "node_keys (pmPages (btStore b') q) = [k]"
      "node_children (pmPages (btStore b') q) = [pid_of b' (root_ref tx), pid_of b' (root_ref ty)]"
    and pair: "pair_ok b' own' tx ty" "\<And>u. u \<in> set (trefs tx @ trefs ty) \<Longrightarrow> q \<notin> ids_of b' u"
    and store: "btEpoch b' = None" "0 < btNextRef b'" "q \<in> own'" "0 \<in> own'" "cow_step (btStore b') own' own' (btStore b')"
  shows "tree_ok b' own' (Nd 0 [tx, ty])" "items b' (Nd 0 [tx, ty]) = items b' tx @ (k, None) # items b' ty"
proof -
  show "items b' (Nd 0 [tx, ty]) = items b' tx @ (k, None) # items b' ty" using root(1) by simp
  have "node_at b' 0 [root_ref tx, root_ref ty]" using root page by (simp add: node_at_def)
  then have "rep b' (Nd 0 [tx, ty])" using pair(1) by (simp add: pair_ok_def)
  moreover have "held b' own' ({0} \<union> set (trefs tx @ trefs ty))"
    using pair store root(2) by (intro held_Un) (auto simp: pair_ok_def held_def ids_of_def [of b' 0])
  ultimately show "tree_ok b' own' (Nd 0 [tx, ty])" using pair(1) store by (simp add: tree_ok_def pair_ok_def)
qed

end
