(* ===== verification/BTree_Cascade.thy ===== *)
theory BTree_Cascade
  imports BTree_Grow
begin

text \<open>
  Frames for the steps of a split: what stays of a tree when references and pages are added, where the code
  finds a child in its parent, and what the two halves of an index node stand for.
\<close>

section \<open>Frames\<close>

lemma tree_ok_frame:
  assumes "tree_ok b own t" "grown b own b' own' (set (trefs t))"
  shows "tree_ok b' own' t \<and> items b' t = items b t"
proof -
  have held: "held b own (set (trefs t))" using assms(1) by (simp add: tree_ok_def)
  note agr = rep_agree [OF grown_agree [OF assms(2) held]]
  have "held b' own' (set (trefs t))" using assms(2) by (intro held_mono [OF held]) (simp_all add: grown_def)
  with agr assms show ?thesis by (auto simp: tree_ok_def grown_def)
qed

lemma pair_ok_frame:
  assumes "pair_ok b own tx ty" "grown b own b' own' (set (trefs tx @ trefs ty))"
  shows "pair_ok b' own' tx ty \<and> items b' tx = items b tx \<and> items b' ty = items b ty"
proof -
  have held: "held b own (set (trefs tx @ trefs ty))" using assms(1) by (simp add: pair_ok_def)
  note agr = grown_agree [OF assms(2) held]
  have "held b' own' (set (trefs tx @ trefs ty))" using assms(2) by (intro held_mono [OF held]) (simp_all add: grown_def)
  moreover have "rep b' tx = rep b tx \<and> items b' tx = items b tx" "rep b' ty = rep b ty \<and> items b' ty = items b ty"
    using agr by (auto intro!: rep_agree)
  ultimately show ?thesis using assms(1) by (simp add: pair_ok_def)
qed

lemma grown_step:
  assumes "tree_ok b own t" "cow_step (btStore b) own own' (btStore b')" "own \<subseteq> own'" "btEpoch b' = None"
    "btNextRef b \<le> btNextRef b'" "\<forall>r\<in>R. btRefs b' r = btRefs b r"
  shows "grown b own b' own' R"
  using assms cow_step_refl [OF assms(2)] by (simp add: grown_def cow_step_def)

section \<open>Places of children\<close>

lemma index_key_short: "index_ok pg \<Longrightarrow> k \<in> set (node_keys pg) \<Longrightarrow> length k \<le> 4096"
proof -
  assume ok: "index_ok pg" and "k \<in> set (node_keys pg)"
  then obtain c where "(k, c) \<in> set (node_entries pg)" by (auto simp: node_keys_def node_entries_def)
  then have "length k \<le> (\<Sum>kc\<leftarrow>node_entries pg. length (fst kc))"
    using member_le_sum_list [of "length k" "map (\<lambda>kc. length (fst kc)) (node_entries pg)"] by force
  with node_entries_fit [OF ok] show ?thesis by (simp add: kcs_fit_def)
qed

lemma takeWhile_at: "distinct (map f (xs @ h # ys)) \<Longrightarrow> length (takeWhile (\<lambda>x. f x \<noteq> f h) (xs @ h # ys)) = length xs"
  by (induction xs) (auto simp: image_iff)

lemma child_index_at:
  assumes "node_children pg = map f (xs @ h # ys)" "distinct (map f (xs @ h # ys))"
  shows "child_index (f h) d pg = int (length xs)" "length xs \<le> GetCount pg"
proof -
  let ?cs = "xs @ h # ys"
  have n: "length ?cs = GetCount pg + 1" using length_node(2) [of pg] assms(1) by (metis Suc_eq_plus1 length_map)
  then show "length xs \<le> GetCount pg" by simp
  have "map (\<lambda>j. nodeGetChild j pg) [0..<GetCount pg + 1] = node_children pg"
    by (intro nth_equalityI) (simp_all add: nodeGetChild_nth del: upt_Suc)
  then have "takeWhile (\<lambda>c. c \<noteq> f h) (map (\<lambda>j. nodeGetChild j pg) [0..<GetCount pg + 1]) = takeWhile (\<lambda>c. c \<noteq> f h) (map f ?cs)"
    using assms(1) by simp
  then have "length (takeWhile (\<lambda>j. nodeGetChild j pg \<noteq> f h) [0..<GetCount pg + 1]) = length xs"
    using takeWhile_at [OF assms(2)] unfolding takeWhile_map o_def by (metis length_map)
  with n show "child_index (f h) d pg = int (length xs)" by (simp add: child_index_def Let_def del: upt_Suc)
qed

lemma updateChildrenCache_at:
  assumes "prChildren (btRefs b r) = Some cc" "ccChildren cc = xs @ h # ys" "length (ccSeparators cc) = length xs + length ys"
    "distinct (map (pid_of b) (xs @ h # ys))"
  shows "updateChildrenCache r (pid_of b h) x y k b = (Ok (), set_children r
    (Some \<lparr>ccChildren = split_child (length xs) x y (ccChildren cc), ccSeparators = insert_at (length xs) k (ccSeparators cc)\<rparr>) b)"
  using assms takeWhile_at [OF assms(4)]
  by (simp add: updateChildrenCache_def Let_def split_child_def insert_at_def)

section \<open>The halves of a node\<close>

text \<open>The two references that a split of \<open>cur\<close> makes, with the children of \<open>cur\<close> dealt out to them.\<close>

definition half_ref :: "u32 \<Rightarrow> nat list \<Rightarrow> bytes list \<Rightarrow> page_ref" where
  "half_ref p cs ss = \<lparr>prPageID = p, prInfo = new_info p 1 False NodeNormal, prChildren = Some \<lparr>ccChildren = cs, ccSeparators = ss\<rparr>\<rparr>"

definition dealt :: "nat \<Rightarrow> u32 \<Rightarrow> u32 \<Rightarrow> nat \<Rightarrow> btree \<Rightarrow> btree" where
  "dealt cur l r m b = b\<lparr>btRefs := (btRefs b)
       (btNextRef b := half_ref l (take m (ccChildren (the (prChildren (btRefs b cur))))) (take (m - 1) (seps_of b cur)),
        Suc (btNextRef b) := half_ref r (drop m (ccChildren (the (prChildren (btRefs b cur))))) (drop m (seps_of b cur))),
     btNextRef := btNextRef b + 2\<rparr>"

lemma deal_children:
  assumes "node_at b cur cs" "cur < btNextRef b" "m = Suc (GetCount (pmPages (btStore b) l))" "m < length cs"
  shows "(let (n1, b1) = new_node_ref l b; (n2, b2) = new_node_ref r b1 in (n1, n2, distributeChildrenAfterSplit cur n1 n2 l b2)) =
    (btNextRef b, Suc (btNextRef b), Ok (), dealt cur l r m b)"
proof -
  obtain cc where cc: "prChildren (btRefs b cur) = Some cc" "ccChildren cc = cs" "length cs = Suc (length (ccSeparators cc))"
    using assms(1) by (auto simp: node_at_def)
  let ?b2 = "b\<lparr>btRefs := (btRefs b)(btNextRef b := \<lparr>prPageID = l, prInfo = new_info l 1 False NodeNormal, prChildren = None\<rparr>,
      Suc (btNextRef b) := \<lparr>prPageID = r, prInfo = new_info r 1 False NodeNormal, prChildren = None\<rparr>), btNextRef := btNextRef b + 2\<rparr>"
  have new: "new_node_ref l b = (btNextRef b, b\<lparr>btRefs := (btRefs b)(btNextRef b := \<lparr>prPageID = l, prInfo = new_info l 1 False NodeNormal, prChildren = None\<rparr>),
      btNextRef := Suc (btNextRef b)\<rparr>)"
    by (simp add: new_node_ref_def NewPageRef_def set_info_def)
  have new2: "new_node_ref r (snd (new_node_ref l b)) = (Suc (btNextRef b), ?b2)"
    by (simp add: new new_node_ref_def [of r] NewPageRef_def set_info_def)
  have "prChildren (btRefs ?b2 cur) = Some cc" using cc(1) assms(2) by auto
  moreover have "min (length cs - Suc m) (length (ccSeparators cc) - m) = length (ccSeparators cc) - m" using cc(3) by simp
  ultimately have "distributeChildrenAfterSplit cur (btNextRef b) (Suc (btNextRef b)) l ?b2 = (Ok (), dealt cur l r m b)"
    using cc assms(3,4) by (simp add: distributeChildrenAfterSplit_def Let_def set_children_def dealt_def half_ref_def fun_upd_twist)
  with new new2 show ?thesis by simp
qed

lemma frame_in_crefs: "f \<in> set c \<Longrightarrow> fst f \<in> set (crefs c)"
  by (induction c rule: crefs.induct) auto

lemma zero_not_below: "tree_ok b own (plug c (Nd r ts)) \<Longrightarrow> 0 \<notin> set (concat (map trefs ts))"
proof -
  assume ok: "tree_ok b own (plug c (Nd r ts))"
  then have d: "distinct (crefs c @ trefs (Nd r ts))" and z: "root_ref (plug c (Nd r ts)) = 0"
    by (simp_all add: tree_ok_def distinct_trefs_plug del: trefs.simps)
  have "0 = r \<or> 0 \<in> set (crefs c)"
    using z frame_in_crefs [of "last c" c] by (cases "c = []") (simp_all add: root_ref_plug)
  then show ?thesis using d by auto
qed

lemma roots_distinct: "distinct (concat (map trefs ts)) \<Longrightarrow> distinct (map root_ref ts)"
proof (induction ts)
  case (Cons t ts)
  have "set (map root_ref ts) \<subseteq> set (concat (map trefs ts))" using root_in_trefs by fastforce
  moreover have "root_ref t \<notin> set (concat (map trefs ts))" using Cons.prems root_in_trefs [of t] by auto
  ultimately show ?case using Cons by auto
qed simp

lemma distinct_pids: "held b own R \<Longrightarrow> distinct cs \<Longrightarrow> set cs \<subseteq> R \<Longrightarrow> 0 \<notin> set cs \<Longrightarrow> distinct (map (pid_of b) cs)"
proof -
  assume a: "held b own R" "distinct cs" "set cs \<subseteq> R" "0 \<notin> set cs"
  have "x = y" if "x \<in> set cs" "y \<in> set cs" "pid_of b x = pid_of b y" for x y
  proof (rule ccontr)
    assume "x \<noteq> y"
    then have "ids_of b x \<inter> ids_of b y = {}" using a(3) that by (intro held_disjoint [OF a(1)]) auto
    moreover have "pid_of b x \<in> ids_of b x" "pid_of b x \<in> ids_of b y" using that a(4) by (auto simp: ids_of_def)
    ultimately show False by blast
  qed
  then show ?thesis using a(2) by (auto simp: distinct_map inj_on_def)
qed

text \<open>Facts about an inner node of a tree.\<close>

lemma node_in_tree:
  assumes "tree_ok b own (plug c (Nd r ts))"
  shows "node_at b r (map root_ref ts)" "\<forall>t\<in>set ts. rep b t" "crep b c r" "piPageID (info_of b r) \<in> own" "r < btNextRef b"
    "distinct (map (pid_of b) (map root_ref ts))" "proper_node (piPageID (info_of b r)) (page_of b r)" "distinct (crefs c @ r # concat (map trefs ts))"
    "held b own (set (crefs c @ r # concat (map trefs ts)))"
proof -
  have ok: "rep b (plug c (Nd r ts))" "distinct (crefs c @ r # concat (map trefs ts))" "held b own (set (crefs c @ r # concat (map trefs ts)))"
    using assms by (simp_all add: tree_ok_def distinct_trefs_plug set_trefs_plug)
  show n: "node_at b r (map root_ref ts)" "\<forall>t\<in>set ts. rep b t" "crep b c r" using ok(1) by (simp_all add: rep_plug)
  show "distinct (crefs c @ r # concat (map trefs ts))" "held b own (set (crefs c @ r # concat (map trefs ts)))" by (rule ok)+
  have r: "r \<in> set (crefs c @ r # concat (map trefs ts))" by simp
  show "r < btNextRef b" "piPageID (info_of b r) \<in> own" using heldD [OF ok(3) r] info_in_ids [of b r] by auto
  have sub: "set (map root_ref ts) \<subseteq> set (concat (map trefs ts))" using root_in_trefs by fastforce
  have z: "0 \<notin> set (map root_ref ts)" using zero_not_below [OF assms] sub by blast
  show "distinct (map (pid_of b) (map root_ref ts))"
    using ok(2) sub z by (intro distinct_pids [OF ok(3)] roots_distinct) auto
  have "pid_of b x \<noteq> 0 \<and> pid_of b x \<noteq> piPageID (info_of b r)" if x: "x \<in> set (map root_ref ts)" for x
  proof -
    have in_tree: "x \<in> set (crefs c @ r # concat (map trefs ts))" "x \<noteq> 0" "x \<noteq> r" using x sub z ok(2) by auto
    have "ids_of b x \<inter> ids_of b r = {}" by (rule held_disjoint [OF ok(3) in_tree(1) r in_tree(3)])
    then show ?thesis using heldD [OF ok(3) in_tree(1)] in_tree(2) info_in_ids [of b r] by (auto simp: ids_of_def [of b x])
  qed
  then show "proper_node (piPageID (info_of b r)) (page_of b r)"
    using n(1) unfolding proper_node_def node_at_def list_all_iff by auto
qed

text \<open>After a node has been split into the pages \<open>l\<close> and \<open>r\<close>, the two references stand for what the node stood for.\<close>

lemma dealt_pair:
  assumes ok: "tree_ok b own (plug c (Nd cur ts))" and room: "store_ok (btStore b) own"
    and split: "nodeSplit (piPageID (info_of b cur)) (btStore b) = (Ok (l, r, k), pm)"
  defines "m \<equiv> Suc (GetCount (pmPages pm l))" and "n \<equiv> btNextRef b" and "own' \<equiv> insert r (insert l own)"
  defines "b' \<equiv> dealt cur l r m (b\<lparr>btStore := pm\<rparr>)" and "tx \<equiv> Nd n (take m ts)" and "ty \<equiv> Nd (Suc n) (drop m ts)"
  shows "m < length ts" "l \<notin> own" "r \<notin> own" "r \<noteq> l" "length k < 2147483648" "cow_step (btStore b) own own' pm"
    "grown b own b' own' (set (trefs (plug c (Nd cur ts))))"
    "pair_ok b' own' tx ty" "items b' tx @ (k, None) # items b' ty = items b (Nd cur ts)"
    "\<And>u. u \<in> set (trefs tx @ trefs ty) \<Longrightarrow> u \<noteq> n \<Longrightarrow> u \<noteq> Suc n \<Longrightarrow> u \<in> set (concat (map trefs ts)) \<and> ids_of b' u = ids_of b u"
    "ids_of b' n = {l}" "ids_of b' (Suc n) = {r}" "pid_of b' n = l" "pid_of b' (Suc n) = r"
proof -
  note node = node_in_tree [OF ok]
  let ?pg = "page_of b cur" and ?ss = "seps_of b cur" and ?cs = "map root_ref ts"
  have S: "l \<notin> own" "r \<notin> own" "r \<noteq> l" "cow_step (btStore b) own own' pm" "index_ok (pmPages pm l)" "index_ok (pmPages pm r)"
    "node_keys (pmPages pm l) @ k # node_keys (pmPages pm r) = node_keys ?pg"
    "node_children (pmPages pm l) @ node_children (pmPages pm r) = node_children ?pg"
    using nodeSplit_result [OF room node(4,7)] split by (simp_all add: own'_def)
  have at: "node_keys ?pg = ?ss" "node_children ?pg = map (pid_of b) ?cs" "length ts = Suc (length ?ss)" "index_ok ?pg"
    "prChildren (btRefs b cur) \<noteq> None" "ccChildren (the (prChildren (btRefs b cur))) = ?cs"
    using node(1) by (simp_all add: node_at_def)
  have len: "length (node_keys (pmPages pm l)) = m - 1" "length (node_children (pmPages pm l)) = m" "0 < m" by (simp_all add: m_def)
  have ss: "?ss = node_keys (pmPages pm l) @ k # node_keys (pmPages pm r)" using S(7) at(1) by simp
  have kl: "node_keys (pmPages pm l) = take (m - 1) ?ss" "node_keys (pmPages pm r) = drop m ?ss"
    using len ss by (cases m; simp)+
  have cl: "node_children (pmPages pm l) = map (pid_of b) (take m ?cs)" "node_children (pmPages pm r) = map (pid_of b) (drop m ?cs)"
    using S(8) len(2) at(2) by (metis append_eq_conv_conj take_map drop_map)+
  show m: "m < length ts" using at(3) ss len by simp
  show "l \<notin> own" "r \<notin> own" "r \<noteq> l" "cow_step (btStore b) own own' pm" by (rule S)+
  show "length k < 2147483648" using index_key_short [OF at(4), of k] ss at(1) by simp
  have cur: "cur < n" using node(5) by (simp add: n_def)
  have old: "x < n" if "x \<in> set (crefs c @ cur # concat (map trefs ts))" for x using heldD [OF node(9) that] by (simp add: n_def)
  have refs: "btRefs b' x = btRefs b x" if "x < n" for x using that by (auto simp: b'_def dealt_def n_def)
  have ref1: "btRefs b' n = half_ref l (take m ?cs) (take (m - 1) ?ss)" "btRefs b' (Suc n) = half_ref r (drop m ?cs) (drop m ?ss)"
    using at(6) by (simp_all add: b'_def dealt_def n_def)
  have st: "btStore b' = pm" "btNextRef b' = n + 2" "btEpoch b' = None" using ok by (simp_all add: b'_def dealt_def n_def tree_ok_def)
  show gr: "grown b own b' own' (set (trefs (plug c (Nd cur ts))))"
    using ok S(4) st refs old by (intro grown_step [OF ok]) (auto simp: own'_def n_def set_trefs_plug)
  have agr: "agree b b' (set (trefs t))" if "t \<in> set ts" for t
    using gr node(9) that by (intro agree_sub [OF grown_agree [OF gr]]) (auto simp: set_trefs_plug)
  have kids: "rep b' t \<and> items b' t = items b t" if "t \<in> set ts" for t using rep_agree [OF agr [OF that]] node(2) that by simp
  have pids: "pid_of b' x = pid_of b x" if "x \<in> set ?cs" for x using refs old root_in_trefs that by fastforce
  have sub: "set (take m ts) \<subseteq> set ts" "set (drop m ts) \<subseteq> set ts" by (simp_all add: set_take_subset set_drop_subset)
  have "node_at b' n (map root_ref (take m ts))"
    using S(5) kl cl m pids at(3) len(3) by (auto simp: node_at_def ref1 half_ref_def new_info_def st take_map dest!: in_set_takeD)
  moreover have "node_at b' (Suc n) (map root_ref (drop m ts))"
    using S(6) kl cl m pids at(3) by (auto simp: node_at_def ref1 half_ref_def new_info_def st drop_map dest!: in_set_dropD)
  ultimately have reps: "rep b' tx" "rep b' ty" using kids sub by (auto simp: tx_def ty_def)
  have m': "map (items b') (take m ts) = map (items b) (take m ts)" "map (items b') (drop m ts) = map (items b) (drop m ts)"
    using kids sub by (auto simp del: map_eq_conv intro!: map_cong)
  have "items b (Nd cur ts) = weave (map (items b) (take m ts) @ map (items b) (drop m ts)) (take (m - 1) ?ss @ k # drop m ?ss)"
    using ss kl by (simp flip: map_append)
  also have "\<dots> = weave (map (items b) (take m ts)) (take (m - 1) ?ss) @ (k, None) # weave (map (items b) (drop m ts)) (drop m ?ss)"
    using m at(3) len(3) by (intro weave_split) simp
  finally show "items b' tx @ (k, None) # items b' ty = items b (Nd cur ts)"
    by (simp add: tx_def ty_def m' ref1 half_ref_def)
  show ids: "ids_of b' n = {l}" "ids_of b' (Suc n) = {r}" "pid_of b' n = l" "pid_of b' (Suc n) = r"
    using cur by (auto simp: ids_of_def ref1 half_ref_def new_info_def)
  have all: "concat (map trefs (take m ts)) @ concat (map trefs (drop m ts)) = concat (map trefs ts)"
    by (metis append_take_drop_id concat_append map_append)
  have set: "set (trefs tx @ trefs ty) = {n, Suc n} \<union> set (concat (map trefs ts))"
    unfolding all [symmetric] set_append tx_def ty_def trefs.simps set_simps by blast
  show inner: "u \<in> set (concat (map trefs ts)) \<and> ids_of b' u = ids_of b u"
    if "u \<in> set (trefs tx @ trefs ty)" "u \<noteq> n" "u \<noteq> Suc n" for u
  proof -
    have u: "u \<in> set (concat (map trefs ts))" using that set by blast
    then show ?thesis using ids_of_cong [OF refs [OF old]] by simp
  qed
  have low: "x < n" if "x \<in> set (concat (map trefs ts))" for x using old that by simp
  have inH: "held b own (set (concat (map trefs ts)))" using node(9) by (auto simp: held_def)
  have "held b' own' (set (concat (map trefs ts)))"
    using refs low st(2) by (intro held_mono [OF inH]) (auto simp: own'_def n_def)
  moreover have lr: "l \<noteq> 0" "r \<noteq> 0" using S(1,2) ok by (auto simp: tree_ok_def)
  then have "held b' own' {n, Suc n}" using ids S(3) st(2) by (auto simp: held_def own'_def)
  moreover have "ids_of b' u \<inter> ids_of b' v = {}" if "u \<in> {n, Suc n}" "v \<in> set (concat (map trefs ts))" for u v
  proof -
    have "ids_of b' v = ids_of b v" using ids_of_cong [OF refs [OF low [OF that(2)]]] .
    then show ?thesis using heldD [OF inH that(2)] ids that(1) S(1,2) by auto
  qed
  ultimately have heldp: "held b' own' (set (trefs tx @ trefs ty))" unfolding set by (intro held_Un)
  have "distinct (concat (map trefs (take m ts)) @ concat (map trefs (drop m ts)))" unfolding all using node(8) by simp
  moreover have "n \<notin> set (concat (map trefs ts))" "Suc n \<notin> set (concat (map trefs ts))" using low by fastforce+
  ultimately have "distinct (trefs tx @ trefs ty)"
    unfolding all [symmetric] set_append tx_def ty_def trefs.simps distinct_append distinct.simps append_Cons set_simps by simp
  then show "pair_ok b' own' tx ty" using reps heldp set zero_not_below [OF ok] cur by (simp add: pair_ok_def)
qed

end
