(* ===== verification/BTree_Parent.thy ===== *)
theory BTree_Parent
  imports BTree_Cascade
begin

text \<open>
  The halves of a split go into the parent, or below a new root when there is no parent, and the
  cascade of splits over full index nodes (\<open>handleInternalSplit\<close>) keeps the invariant and the items of
  the tree, whether it completes or stops on the way.
\<close>

section \<open>Into the parent\<close>

text \<open>A tree \<open>t\<close> has become \<open>t'\<close> with the same items; references that were in no tree are as they were.\<close>

definition tree_evolves :: "btree \<Rightarrow> u32 set \<Rightarrow> tree \<Rightarrow> btree \<Rightarrow> u32 set \<Rightarrow> tree \<Rightarrow> bool" where
  "tree_evolves b own t b' own' t' \<longleftrightarrow> tree_ok b' own' t' \<and> items b' t' = items b t \<and> own \<subseteq> own' \<and>
     btSize b' = btSize b \<and> btVars b' = btVars b \<and> btClosed b' = btClosed b \<and> btNextRef b \<le> btNextRef b' \<and>
     (\<forall>x\<in>set (trefs t'). x \<in> set (trefs t) \<or> btNextRef b \<le> x) \<and>
     (\<forall>x < btNextRef b. x \<notin> set (trefs t) \<longrightarrow> btRefs b' x = btRefs b x)"

lemma tree_evolves_trans:
  assumes "tree_evolves b own t b1 own1 t1" "tree_evolves b1 own1 t1 b2 own2 t2"
  shows "tree_evolves b own t b2 own2 t2"
proof -
  have "x \<in> set (trefs t) \<or> btNextRef b \<le> x" if "x \<in> set (trefs t2)" for x
    using assms that unfolding tree_evolves_def by (meson le_trans)
  moreover have "btRefs b2 x = btRefs b x" if "x < btNextRef b" "x \<notin> set (trefs t)" for x
  proof -
    have "x \<notin> set (trefs t1)" "x < btNextRef b1" using assms(1) that by (auto simp: tree_evolves_def)
    then show ?thesis using assms that by (simp add: tree_evolves_def)
  qed
  ultimately show ?thesis using assms unfolding tree_evolves_def by (intro conjI) (auto intro: subset_trans le_trans)
qed

lemma index_not_leaf: "index_ok pg \<Longrightarrow> \<not> IsLeaf pg"
  by (simp add: index_ok_def IsLeaf_def PageTypeIndex_def PageTypeLeaf_def)

lemma retire_page_none [simp]: "btEpoch b = None \<Longrightarrow> retire_page p b = Some b"
  by (simp add: retire_page_def alloc_slot_def retire_in_def)

lemma free_pair:
  assumes "cow_step pm own (insert r (insert l own')) pm1" "l \<notin> own" "r \<notin> own" "r \<noteq> l" "l \<notin> own'" "r \<notin> own'"
  shows "cow_step pm own own' (freed r (freed l pm1))"
proof -
  have "cow_step pm own (insert r own') (freed l pm1)" using assms by (intro free_step) (auto simp: insert_commute)
  from free_step [OF this assms(3,6)] show ?thesis .
qed

text \<open>Nothing reachable has changed.\<close>

lemma same_tree:
  assumes ok: "tree_ok b own t" and step: "cow_step (btStore b) own own (btStore b')" and ref: "\<And>x. x < btNextRef b \<Longrightarrow> btRefs b' x = btRefs b x"
    and rest: "btNextRef b \<le> btNextRef b'" "btEpoch b' = None" "btSize b' = btSize b" "btVars b' = btVars b" "btClosed b' = btClosed b"
  shows "tree_evolves b own t b' own t"
proof -
  have low: "x < btNextRef b" if "x \<in> set (trefs t)" for x using ok that by (auto simp: tree_ok_def held_def)
  have "grown b own b' own (set (trefs t))" using step rest ref low by (intro grown_step [OF ok]) simp_all
  from tree_ok_frame [OF ok this] ref rest show ?thesis by (simp add: tree_evolves_def)
qed

lemma new_halves:
  assumes "node_at b cur cs" "cur < btNextRef b" "m = Suc (GetCount (pmPages (btStore b) l))" "m < length cs"
  obtains b1 b2 where "new_node_ref l b = (btNextRef b, b1)" "new_node_ref r b1 = (Suc (btNextRef b), b2)"
    "distributeChildrenAfterSplit cur (btNextRef b) (Suc (btNextRef b)) l b2 = (Ok (), dealt cur l r m b)"
proof -
  obtain n1 b1 where 1: "new_node_ref l b = (n1, b1)" by (cases "new_node_ref l b")
  obtain n2 b2 where 2: "new_node_ref r b1 = (n2, b2)" by (cases "new_node_ref r b1")
  from deal_children [OF assms, of r] 1 2 have "n1 = btNextRef b" "n2 = Suc (btNextRef b)"
    "distributeChildrenAfterSplit cur n1 n2 l b2 = (Ok (), dealt cur l r m b)" by auto
  with 1 2 that show ?thesis by blast
qed

text \<open>A failure after the split leaves the tree as it was and nothing allocated.\<close>

lemma split_undone:
  assumes ok: "tree_ok b own t" and step: "cow_step (btStore b) own (insert r (insert l own)) pm1" "l \<notin> own" "r \<notin> own" "r \<noteq> l"
    and b3: "\<And>x. x < btNextRef b \<Longrightarrow> btRefs b3 x = btRefs b x" "btNextRef b \<le> btNextRef b3" "btEpoch b3 = None"
      "btSize b3 = btSize b" "btVars b3 = btVars b" "btClosed b3 = btClosed b"
  shows "tree_evolves b own t (FreePage r (FreePage l (b3\<lparr>btStore := pm1\<rparr>))) own t"
  using b3 free_pair [OF step step(2,3)] by (intro same_tree [OF ok]) (simp_all add: FreePage_def with_store_def)

section \<open>The parent of the halves\<close>

text \<open>What the code finds in the parent \<open>g\<close> of the subtree \<open>t0\<close>.\<close>

lemma parent_facts:
  assumes "tree_ok b own (plug ((g, ls, rs) # c) t0)"
  shows "index_ok (page_of b g)" "piPageID (info_of b g) \<in> own" "length ls \<le> GetCount (page_of b g)"
    "child_index (pid_of b (root_ref t0)) d (page_of b g) = int (length ls)"
    "\<exists>cc. prChildren (btRefs b g) = Some cc \<and> ccChildren cc = map root_ref ls @ root_ref t0 # map root_ref rs \<and>
       length (ccSeparators cc) = length ls + length rs"
    "distinct (map (pid_of b) (map root_ref ls @ root_ref t0 # map root_ref rs))"
    "\<not> piRedirect (info_of b g)" "g < btNextRef b" "root_ref t0 < btNextRef b" "root_ref t0 \<noteq> g" "root_ref t0 \<noteq> 0"
proof -
  have up: "tree_ok b own (plug c (Nd g (ls @ t0 # rs)))" using assms by simp
  note gp = node_in_tree [OF up]
  have n: "node_at b g (map root_ref ls @ root_ref t0 # map root_ref rs)" using gp(1) by simp
  show d: "distinct (map (pid_of b) (map root_ref ls @ root_ref t0 # map root_ref rs))" using gp(6) by simp
  have ch: "node_children (page_of b g) = map (pid_of b) (map root_ref ls @ root_ref t0 # map root_ref rs)" using n by (simp add: node_at_def)
  show "length ls \<le> GetCount (page_of b g)" "child_index (pid_of b (root_ref t0)) d (page_of b g) = int (length ls)"
    using child_index_at [OF ch d] by simp_all
  show "index_ok (page_of b g)" "\<not> piRedirect (info_of b g)" using n by (simp_all add: node_at_def)
  show "\<exists>cc. prChildren (btRefs b g) = Some cc \<and> ccChildren cc = map root_ref ls @ root_ref t0 # map root_ref rs \<and>
       length (ccSeparators cc) = length ls + length rs" using n by (auto simp: node_at_def)
  show "piPageID (info_of b g) \<in> own" "g < btNextRef b" by (rule gp)+
  have "root_ref t0 \<in> set (concat (map trefs (ls @ t0 # rs)))" using root_in_trefs [of t0] by simp
  then show "root_ref t0 < btNextRef b" "root_ref t0 \<noteq> g" "root_ref t0 \<noteq> 0"
    using heldD [OF gp(9), of "root_ref t0"] gp(8) zero_not_below [OF up] by auto
qed

text \<open>The parent has been given the halves \<open>tx\<close> and \<open>ty\<close> in place of \<open>t0\<close>.\<close>

definition parent_ref :: "btree \<Rightarrow> nat \<Rightarrow> nat \<Rightarrow> bytes \<Rightarrow> nat \<Rightarrow> nat \<Rightarrow> page_info \<Rightarrow> page_ref" where
  "parent_ref b g i k x y pi = \<lparr>prPageID = pid_of b g, prInfo = pi, prChildren = Some
     \<lparr>ccChildren = split_child i x y (ccChildren (the (prChildren (btRefs b g)))), ccSeparators = insert_at i k (seps_of b g)\<rparr>\<rparr>"

lemma cache_updated:
  assumes ok: "tree_ok b own (plug ((g, ls, rs) # c) t0)"
    and same: "\<And>x. x < btNextRef b \<Longrightarrow> pid_of b6 x = pid_of b x" "prChildren (btRefs b6 g) = prChildren (btRefs b g)"
  shows "updateChildrenCache g (pid_of b (root_ref t0)) x y k b6 = (Ok (), set_children g (prChildren (parent_ref b g (length ls) k x y pi)) b6)"
proof -
  let ?cs = "map root_ref ls @ root_ref t0 # map root_ref rs"
  note pf = parent_facts [OF ok]
  obtain cc where cc: "prChildren (btRefs b g) = Some cc" "ccChildren cc = ?cs" "length (ccSeparators cc) = length ls + length rs" using pf(5) by auto
  have "x < btNextRef b" if "x \<in> set ?cs" for x
  proof -
    have "x \<in> set (trefs (plug ((g, ls, rs) # c) t0))" using that root_in_trefs by (fastforce simp: set_trefs_plug)
    then show ?thesis using ok by (auto simp: tree_ok_def held_def)
  qed
  then have pids: "map (pid_of b6) ?cs = map (pid_of b) ?cs" "pid_of b6 (root_ref t0) = pid_of b (root_ref t0)"
    using same(1) by (simp_all cong: map_cong)
  have ch: "prChildren (btRefs b6 g) = Some cc" using same(2) cc(1) by simp
  have len: "length (ccSeparators cc) = length (map root_ref ls) + length (map root_ref rs)" using cc(3) by simp
  have "distinct (map (pid_of b6) ?cs)" unfolding pids by (rule pf)
  from updateChildrenCache_at [OF ch cc(2) len this, of x y k] pids(2) cc(1) show ?thesis by (simp add: parent_ref_def)
qed

lemma pair_inserted:
  assumes ok: "tree_ok b own (plug ((g, ls, rs) # c) t0)"
    and gr: "grown b own b3 own3 (set (crefs ((g, ls, rs) # c)))" and room: "store_ok (btStore b3) own3"
    and pair: "pair_ok b3 own3 tx ty" "set (trefs tx @ trefs ty) \<inter> insert (root_ref t0) (set (crefs ((g, ls, rs) # c))) = {}"
    and apart: "\<And>u v. u \<in> set (trefs tx @ trefs ty) \<Longrightarrow> v \<in> set (crefs ((g, ls, rs) # c)) \<Longrightarrow> ids_of b3 u \<inter> ids_of b v = {}"
    and ins: "InsertChild (piPageID (info_of b g)) (int (length ls)) k (pid_of b3 (root_ref tx)) (pid_of b3 (root_ref ty)) (btStore b3) = (Ok q, pm4)"
    and k: "length k < 2147483648"
    and pi: "piPageID pi = q" "\<not> piIsLeaf pi" "\<not> piRedirect pi"
    and b7: "btStore b7 = pm4" "btNextRef b7 = btNextRef b3" "btEpoch b7 = None"
      "btRefs b7 = (btRefs b3)(root_ref t0 := ref0, g := parent_ref b g (length ls) k (root_ref tx) (root_ref ty) pi)"
  shows "q \<notin> own3" "tree_ok b7 (insert q own3) (plug c (Nd g (ls @ tx # ty # rs)))"
    "items b7 (plug c (Nd g (ls @ tx # ty # rs))) =
       cleft b ((g, ls, rs) # c) @ (items b3 tx @ (k, None) # items b3 ty) @ cright b ((g, ls, rs) # c)"
proof -
  let ?C = "(g, ls, rs) # c" and ?h = "root_ref t0" and ?own = "insert q own3" and ?P = "set (trefs tx @ trefs ty)"
  note pf = parent_facts [OF ok]
  define R where "R = set (crefs c) \<union> set (concat (map trefs ls)) \<union> set (concat (map trefs rs))"
  have g3: "own \<subseteq> own3" "btNextRef b \<le> btNextRef b3" "btEpoch b3 = None" "\<forall>r\<in>set (crefs ?C). btRefs b3 r = btRefs b r"
    "\<forall>p\<in>own. pmPages (btStore b3) p = pmPages (btStore b) p" "cow_step (btStore b3) own3 own3 (btStore b3)"
    using gr by (simp_all add: grown_def)
  have RC: "R \<subseteq> set (crefs ?C)" "g \<in> set (crefs ?C)" by (auto simp: R_def)
  have dist: "distinct (crefs ?C @ trefs t0)" using ok unfolding tree_ok_def distinct_trefs_plug by blast
  have gR: "g \<notin> R" "?h \<notin> R" using dist root_in_trefs [of t0] by (auto simp: R_def)
  have pg: "pmPages (btStore b3) (piPageID (info_of b g)) = page_of b g" using g3(5) pf(2) by simp
  have x0: "pid_of b3 (root_ref tx) \<noteq> 0"
    using pair(1) heldD [of b3 own3 ?P "root_ref tx"] root_in_trefs [of tx] by (auto simp: pair_ok_def)
  have "piPageID (info_of b g) \<in> own3" "index_ok (pmPages (btStore b3) (piPageID (info_of b g)))"
      "length ls \<le> GetCount (pmPages (btStore b3) (piPageID (info_of b g)))"
    using pf g3(1) pg by auto
  from InsertChild_result [OF room this x0 k, of "pid_of b3 (root_ref ty)"] ins
  have q: "q \<notin> own3" "cow_step (btStore b3) own3 ?own pm4" "index_ok (pmPages pm4 q)"
    "node_keys (pmPages pm4 q) = insert_at (length ls) k (node_keys (page_of b g))"
    "node_children (pmPages pm4 q) = split_child (length ls) (pid_of b3 (root_ref tx)) (pid_of b3 (root_ref ty)) (node_children (page_of b g))"
    by (simp_all add: pg)
  show "q \<notin> own3" by (rule q)
  have refs: "btRefs b7 x = btRefs b3 x" if "x \<noteq> ?h" "x \<noteq> g" for x using that b7(4) by simp
  have P: "x \<noteq> ?h \<and> x \<noteq> g" if "x \<in> ?P" for x using pair(2) RC that by auto
  have gr7: "grown b own b7 ?own R"
    unfolding grown_def
  proof (intro conjI ballI)
    show "btRefs b7 r = btRefs b r" if "r \<in> R" for r
    proof -
      have "r \<noteq> ?h" "r \<noteq> g" "r \<in> set (crefs ?C)" using gR that RC(1) by blast+
      then show ?thesis using refs g3(4) by simp
    qed
    show "pmPages (btStore b7) p = pmPages (btStore b) p" if "p \<in> own" for p
      using g3(1,5) q(2) that by (auto simp: b7 cow_step_def)
  qed (use g3 b7 cow_step_refl [OF q(2)] in auto)
  have "grown b3 own3 b7 ?own ?P"
    unfolding grown_def using b7 q(2) cow_step_refl [OF q(2)] refs P by (auto simp: cow_step_def)
  from pair_ok_frame [OF pair(1) this] have pair7: "pair_ok b7 ?own tx ty" "items b7 tx = items b3 tx" "items b7 ty = items b3 ty"
    by simp_all
  have pids: "pid_of b7 (root_ref tx) = pid_of b3 (root_ref tx)" "pid_of b7 (root_ref ty) = pid_of b3 (root_ref ty)"
    using refs P root_in_trefs [of tx] root_in_trefs [of ty] by simp_all
  have two: "two_children b b7 g (length ls) k (root_ref tx) (root_ref ty) q"
    unfolding two_children_def using pids q b7 pi by (simp add: parent_ref_def)
  have ap: "ids_of b7 u \<inter> ids_of b v = {} \<and> q \<notin> ids_of b7 u" if "u \<in> ?P" "v \<in> set (crefs ?C)" for u v
  proof -
    have "ids_of b7 u = ids_of b3 u" using refs P [OF that(1)] by (intro ids_of_cong) simp
    moreover have "ids_of b3 u \<subseteq> own3" using pair(1) heldD [of b3 own3 ?P u] that(1) by (simp add: pair_ok_def)
    ultimately show ?thesis using apart [OF that] q(1) by blast
  qed
  have inter: "set (trefs tx @ trefs ty) \<inter> set (crefs ?C) = {}" using pair(2) by blast
  have qo: "q \<notin> own" "q \<in> ?own" using q(1) g3(1) by auto
  note S = split_in_parent [OF ok refl R_def gr7 two qo pair7(1) inter ap]
  show "tree_ok b7 ?own (plug c (Nd g (ls @ tx # ty # rs)))" by (rule S)
  show "items b7 (plug c (Nd g (ls @ tx # ty # rs))) = cleft b ?C @ (items b3 tx @ (k, None) # items b3 ty) @ cright b ?C"
    using S(2) by (simp only: pair7)
qed


lemma split_into_parent_result:
  assumes ok: "tree_ok b own (plug ((g, ls, rs) # c) (Nd cur ts))" and room: "store_ok (btStore b) own"
    and split: "nodeSplit (piPageID (info_of b cur)) (btStore b) = (Ok (l, r, k), pm)" and room1: "used_ids pm < 4294967294"
  defines "t \<equiv> plug ((g, ls, rs) # c) (Nd cur ts)"
  shows "case split_into_parent cur (info_of b cur) g d l r k (b\<lparr>btStore := pm\<rparr>) of
      (Ok res, b') \<Rightarrow> (\<exists>own' tx ty. tree_evolves b own t b' own' (plug c (Nd g (ls @ tx # ty # rs))) \<and> used_ids (btStore b') \<le> Suc (used_ids pm) \<and>
        (res = None \<or> res = Some (info_of b' g)))
    | (Err e, b') \<Rightarrow> tree_evolves b own t b' own t \<and> used_ids (btStore b') \<le> Suc (used_ids pm)
    | (Panic, b') \<Rightarrow> False"
proof -
  define m where "m = Suc (GetCount (pmPages pm l))"
  define n where "n = btNextRef b"
  define own3 where "own3 = insert r (insert l own)"
  define b3 where "b3 = dealt cur l r m (b\<lparr>btStore := pm\<rparr>)"
  define tx where "tx = Nd n (take m ts)"
  define ty where "ty = Nd (Suc n) (drop m ts)"
  note D = dealt_pair [OF ok room split, folded m_def n_def own3_def, folded b3_def tx_def ty_def]
  note node = node_in_tree [OF ok] and pf = parent_facts [OF ok]
  let ?C = "(g, ls, rs) # c" and ?gi = "info_of b g"
  have g: "g \<noteq> cur" "g < n" "cur < n" using pf(8-10) by (simp_all add: n_def)
  have pg: "pmPages pm (piPageID ?gi) = page_of b g" using D(6) pf(2) by (simp add: cow_step_def)
  have refs3: "btRefs b3 x = btRefs b x" if "x < n" for x using that by (auto simp: b3_def dealt_def n_def)
  have b3: "btStore b3 = pm" "btNextRef b3 = n + 2" "btEpoch b3 = None" "btSize b3 = btSize b" "btVars b3 = btVars b" "btClosed b3 = btClosed b"
    using ok by (simp_all add: b3_def dealt_def n_def tree_ok_def)
  have cur_page: "pmPages pm (piPageID (info_of b cur)) = page_of b cur" using D(6) node(4) by (simp add: cow_step_def)
  have "node_at (b\<lparr>btStore := pm\<rparr>) cur (map root_ref ts)" using node(1) cur_page by (simp add: node_at_def)
  from new_halves [OF this, of m l r] g(3) D(1) obtain b1 b2 where
    H: "new_node_ref l (b\<lparr>btStore := pm\<rparr>) = (n, b1)" "new_node_ref r b1 = (Suc n, b2)"
      "distributeChildrenAfterSplit cur n (Suc n) l b2 = (Ok (), b3)"
    by (auto simp: n_def m_def b3_def)
  have get: "GetNodePage (piPageID ?gi) b3 = Ok (piPageID ?gi)" using pf(1) pg index_not_leaf by (simp add: GetNodePage_def b3)
  have idx: "child_index (pid_of b3 cur) d (page_of b g) = int (length ls)" "\<not> int (GetCount (page_of b g)) + 1 \<le> int (length ls)"
    using pf(3,4) refs3 [OF g(3)] by simp_all
  obtain res pm4 where ins: "InsertChild (piPageID ?gi) (int (length ls)) k l r pm = (res, pm4)" by fastforce
  have own3: "store_ok pm own3" "piPageID ?gi \<in> own3" "index_ok (pmPages pm (piPageID ?gi))" "length ls \<le> GetCount (pmPages pm (piPageID ?gi))" "l \<noteq> 0"
    using D(2,6) room1 pf pg ok cow_step_refl [OF D(6)] by (auto simp: store_ok_def own3_def tree_ok_def)
  note I = InsertChild_result [OF own3 D(5), of r, unfolded ins]
  note used = next_InsertChild [OF ins]
  show ?thesis
  proof (cases res)
    case (Ok q)
    define ni where "ni = new_info q (piVersion ?gi + 1) False (piNodeState ?gi)"
    define rd where "rd = redirect_info (piPageID (info_of b cur)) (piVersion (info_of b cur) + 1) (piIsLeaf (info_of b cur)) (Some n)"
    define b6 where "b6 = set_info cur rd (set_info g ni (b3\<lparr>btStore := pm4\<rparr>))"
    define b7 where "b7 = set_children g (prChildren (parent_ref b g (length ls) k n (Suc n) ni)) b6"
    have upd: "updateChildrenCache g (pid_of b6 cur) n (Suc n) k b6 = (Ok (), b7)"
      using cache_updated [OF ok, of b6 n "Suc n" k ni] refs3 g by (simp add: b7_def b6_def set_info_def n_def)
    have cas1: "CAS g ?gi ni (b3\<lparr>btStore := pm4\<rparr>) = (True, set_info g ni (b3\<lparr>btStore := pm4\<rparr>))"
      using refs3 [OF g(2)] by (simp add: CAS_def)
    have cas2: "snd (CAS cur (info_of b cur) rd (set_info g ni (b3\<lparr>btStore := pm4\<rparr>))) = b6"
      using refs3 [OF g(3)] g(1) by (simp add: CAS_def b6_def set_info_def)
    have ep: "btEpoch (set_info g ni (b3\<lparr>btStore := pm4\<rparr>)) = None" by (simp add: set_info_def b3)
    have run: "split_into_parent cur (info_of b cur) g d l r k (b\<lparr>btStore := pm\<rparr>) =
        (Ok (if nodeIsFull 0 (pmPages (btStore b7) q) then Some ni else None), b7)"
      unfolding split_into_parent_def H Let_def prod.case outcome.case refs3 [OF g(2)] get b3(1) pg idx
      using idx(2) ins Ok cas1 cas2 upd ep by (simp add: ni_def rd_def)
    have b7: "btStore b7 = pm4" "btNextRef b7 = btNextRef b3" "btEpoch b7 = None" "btSize b7 = btSize b" "btVars b7 = btVars b" "btClosed b7 = btClosed b"
      "btRefs b7 = (btRefs b3)(root_ref (Nd cur ts) := (btRefs b cur)\<lparr>prInfo := rd\<rparr>, g := parent_ref b g (length ls) k (root_ref tx) (root_ref ty) ni)"
      using b3 refs3 g by (auto simp: b7_def b6_def set_children_def set_info_def parent_ref_def tx_def ty_def)
    have old: "x < n" if "x \<in> insert cur (set (crefs ?C))" for x using heldD [OF node(9), of x] that by (auto simp: n_def)
    have gr: "grown b own b3 own3 (set (crefs ?C))" using D(7) unfolding grown_def set_trefs_plug by blast
    have out: "x \<notin> insert cur (set (crefs ?C))" if "x \<in> set (concat (map trefs ts))" for x using node(8) that by auto
    have P: "x \<in> {n, Suc n} \<union> set (concat (map trefs ts))" if "x \<in> set (trefs tx @ trefs ty)" for x using D(10) [OF that] by blast
    have "x \<notin> insert cur (set (crefs ?C))" if "x \<in> set (trefs tx @ trefs ty)" for x
    proof
      assume x: "x \<in> insert cur (set (crefs ?C))"
      then have "x \<noteq> n" "x \<noteq> Suc n" using old [OF x] by simp_all
      then show False using P [OF that] out [of x] x by blast
    qed
    then have inter: "set (trefs tx @ trefs ty) \<inter> insert (root_ref (Nd cur ts)) (set (crefs ?C)) = {}" unfolding root_ref.simps by blast
    have ap: "ids_of b3 u \<inter> ids_of b v = {}" if u: "u \<in> set (trefs tx @ trefs ty)" and v: "v \<in> set (crefs ?C)" for u v
    proof -
      have vin: "v \<in> set (crefs ?C @ cur # concat (map trefs ts))" unfolding set_append using v by blast
      have vo: "ids_of b v \<subseteq> own" using heldD [OF node(9) vin] by blast
      show ?thesis
      proof (cases "u = n \<or> u = Suc n")
        case True
        then show ?thesis using vo D(2,3,11,12) by auto
      next
        case False
        then have u': "u \<in> set (concat (map trefs ts))" "ids_of b3 u = ids_of b u" using D(10) [OF u] by blast+
        have "u \<in> set (crefs ?C @ cur # concat (map trefs ts))" "u \<noteq> v" using u'(1) out [OF u'(1)] v by auto
        from held_disjoint [OF node(9) this(1) vin this(2)] show ?thesis unfolding u'(2) .
      qed
    qed
    have ins': "InsertChild (piPageID ?gi) (int (length ls)) k (pid_of b3 (root_ref tx)) (pid_of b3 (root_ref ty)) (btStore b3) = (Ok q, pm4)"
      using ins Ok D(13,14) by (simp add: tx_def ty_def b3)
    have ni: "piPageID ni = q" "\<not> piIsLeaf ni" "\<not> piRedirect ni" by (simp_all add: ni_def new_info_def)
    have room3: "store_ok (btStore b3) own3" using own3(1) b3(1) by simp
    note T = pair_inserted [OF ok gr room3 D(8) inter ap ins' D(5) ni b7(1-3,7)]
    have "items b7 (plug c (Nd g (ls @ tx # ty # rs))) = cleft b ?C @ items b (Nd cur ts) @ cright b ?C"
      using T(3) by (simp only: D(9))
    also have "\<dots> = items b t" unfolding t_def by (rule items_plug [symmetric]) (use node(3) in simp)
    finally have "items b7 (plug c (Nd g (ls @ tx # ty # rs))) = items b t" .
    moreover have "x \<in> set (trefs t) \<or> n \<le> x" if "x \<in> set (trefs (plug c (Nd g (ls @ tx # ty # rs))))" for x
      using that P [of x] by (auto simp: set_trefs_plug t_def)
    moreover have "btRefs b7 x = btRefs b x" if "x < n" "x \<notin> set (trefs t)" for x
      using that refs3 by (auto simp: b7 t_def set_trefs_plug)
    ultimately have "tree_evolves b own t b7 (insert q own3) (plug c (Nd g (ls @ tx # ty # rs)))"
      using T(2) b7 b3 by (auto simp: tree_evolves_def own3_def n_def)
    moreover have "info_of b7 g = ni" by (simp add: b7 parent_ref_def)
    ultimately show ?thesis unfolding run prod.case outcome.case using used b7(1) by auto
  next
    case (Err e)
    have run: "split_into_parent cur (info_of b cur) g d l r k (b\<lparr>btStore := pm\<rparr>) = (Err e, FreePage r (FreePage l (b3\<lparr>btStore := pm4\<rparr>)))"
      unfolding split_into_parent_def H Let_def prod.case outcome.case refs3 [OF g(2)] get b3(1) pg idx
      using idx(2) ins Err by simp
    have "cow_step pm own3 own3 pm4" using I Err by simp
    then have "cow_step (btStore b) own own3 pm4" using cow_step_trans [OF D(6)] by (auto simp: own3_def)
    with D(2-4) b3 refs3 have "tree_evolves b own t (FreePage r (FreePage l (b3\<lparr>btStore := pm4\<rparr>))) own t"
      unfolding t_def by (intro split_undone [OF ok]) (simp_all add: own3_def n_def)
    then show ?thesis unfolding run using used by (simp add: FreePage_def with_store_def)
  qed (use I in simp)
qed


section \<open>A new root\<close>

lemma pages_freed: "x \<noteq> p \<Longrightarrow> pmPages (freed p pm) x = pmPages pm x"
  by (simp add: freed_def pageFree_def Let_def)

lemma new_root_page:
  assumes room: "store_ok pm own" "used_ids pm + 1 < 4294967294" and l: "l \<noteq> 0" and k: "length k < 2147483648"
  shows "case AllocNodePage pm of
      (Ok p, pm1) \<Rightarrow> p \<notin> own \<and> \<not> IsLeaf (pmPages pm1 p) \<and>
        (case InsertChild p 0 k l r pm1 of
           (Ok q, pm2) \<Rightarrow> q \<notin> insert p own \<and> cow_step pm own (insert p (insert q own)) pm2 \<and> index_ok (pmPages pm2 q) \<and>
             node_keys (pmPages pm2 q) = [k] \<and> node_children (pmPages pm2 q) = [l, r] \<and> used_ids pm2 \<le> used_ids pm + 2
         | (Err e, pm2) \<Rightarrow> cow_step pm own (insert p own) pm2 \<and> e \<in> {ErrOffHeapPageFull, ErrOffHeapOutOfMemory} \<and> used_ids pm2 \<le> used_ids pm + 2
         | (Panic, pm2) \<Rightarrow> False)
    | (Err e, pm1) \<Rightarrow> cow_step pm own own pm1 \<and> e = ErrOffHeapOutOfMemory \<and> used_ids pm1 \<le> used_ids pm + 2
    | (Panic, pm1) \<Rightarrow> False"
proof -
  obtain res pm1 where al: "AllocNodePage pm = (res, pm1)" by fastforce
  note used = next_AllocNodePage [OF al]
  obtain res0 pm0 where pa: "pageAlloc pm = (res0, pm0)" by fastforce
  note A = store_ok_alloc [OF room(1), unfolded pa]
  show ?thesis
  proof (cases res)
    case (Ok p)
    then have p: "res0 = Ok p" "pm1 = with_page p (InitIndexPage 1) pm0" using al pa by (auto simp: AllocNodePage_def split: outcome.splits)
    then have a: "p \<notin> own" "cow_step pm own (insert p own) pm0" using A by simp_all
    have len: "length (pageBytes (pmPages pm0 p)) = 4096" using a(2) by (simp add: cow_step_def)
    have pg: "pmPages pm1 p = InitIndexPage 1 (pmPages pm0 p)" by (simp add: p(2) with_page_def)
    note I = index_init [OF len, of 1, folded pg]
    have z: "GetCount (pmPages pm1 p) = 0" using I(2) by (metis length_0_conv length_map length_node(1) node_keys_def)
    have st: "cow_step pm own (insert p own) pm1"
      unfolding p(2) using a len by (intro write_step) (simp_all add: InitIndexPage_def InitPage_def)
    have ok1: "store_ok pm1 (insert p own)" using cow_step_refl [OF st] used room(2) by (simp add: store_ok_def)
    obtain res2 pm2 where ins: "InsertChild p 0 k l r pm1 = (res2, pm2)" by fastforce
    have used2: "used_ids pm2 \<le> used_ids pm + 2" using next_InsertChild [OF ins] used by simp
    note J = InsertChild_result [OF ok1 insertI1 I(1) le0 l k, of r]
    have kc: "node_keys (pmPages pm1 p) = []" "\<exists>x. node_children (pmPages pm1 p) = [x]"
      using I(2) by (simp_all add: node_keys_def node_children_def)
    show ?thesis
    proof (cases res2)
      case Ok2: (Ok q)
      then have q: "q \<notin> insert p own" "cow_step pm1 (insert p own) (insert q (insert p own)) pm2" "index_ok (pmPages pm2 q)"
        "node_keys (pmPages pm2 q) = [k]" "node_children (pmPages pm2 q) = [l, r]"
        using J ins kc z by (auto simp: insert_at_def split_child_def)
      have "cow_step pm own (insert p (insert q own)) pm2" using cow_step_trans [OF st q(2)] by (simp add: insert_commute subset_insertI)
      then show ?thesis using al Ok a(1) ins Ok2 q used2 index_not_leaf [OF I(1)] by simp
    next
      case (Err e)
      then have "cow_step pm1 (insert p own) (insert p own) pm2" "e \<in> {ErrOffHeapPageFull, ErrOffHeapOutOfMemory}" using J ins by auto
      with cow_step_trans [OF st this(1)] a(1) al Ok ins Err used2 index_not_leaf [OF I(1)]
      show ?thesis by (simp add: subset_insertI)
    qed (use J ins in simp)
  qed (use al pa A used in \<open>auto simp: AllocNodePage_def split: outcome.splits\<close>)
qed


text \<open>A root has been put above two subtrees that were ready in \<open>b3\<close>.\<close>

lemma pair_rooted:
  assumes pair: "pair_ok b3 own3 tx ty" and store: "0 \<in> own3" "0 < btNextRef b3" and q: "q \<notin> own3" "cow_step (btStore b3) own3 (insert q own3) (btStore b')"
    and page: "index_ok (pmPages (btStore b') q)" "node_keys (pmPages (btStore b') q) = [k]"
      "node_children (pmPages (btStore b') q) = [pid_of b3 (root_ref tx), pid_of b3 (root_ref ty)]"
    and ref: "\<forall>x. x \<noteq> 0 \<longrightarrow> btRefs b' x = btRefs b3 x" "btNextRef b' = btNextRef b3" "btEpoch b' = None" "btEpoch b3 = None"
    and root: "prChildren (btRefs b' 0) = Some \<lparr>ccChildren = [root_ref tx, root_ref ty], ccSeparators = [k]\<rparr>"
      "piPageID (info_of b' 0) = q" "\<not> piIsLeaf (info_of b' 0)" "\<not> piRedirect (info_of b' 0)"
  shows "tree_ok b' (insert q own3) (Nd 0 [tx, ty])" "items b' (Nd 0 [tx, ty]) = items b3 tx @ (k, None) # items b3 ty"
proof -
  let ?P = "set (trefs tx @ trefs ty)"
  have z: "x \<noteq> 0" if "x \<in> ?P" for x using pair that by (metis pair_ok_def)
  have gr: "grown b3 own3 b' (insert q own3) ?P"
    unfolding grown_def using q(2) cow_step_refl [OF q(2)] ref z by (auto simp: cow_step_def)
  from pair_ok_frame [OF pair this] have p: "pair_ok b' (insert q own3) tx ty" "items b' tx = items b3 tx" "items b' ty = items b3 ty" by simp_all
  have pids: "pid_of b' (root_ref tx) = pid_of b3 (root_ref tx)" "pid_of b' (root_ref ty) = pid_of b3 (root_ref ty)"
    using ref(1) z root_in_trefs [of tx] root_in_trefs [of ty] by simp_all
  have apart: "q \<notin> ids_of b' u" if "u \<in> ?P" for u
  proof -
    have "ids_of b' u = ids_of b3 u" using ref(1) z [OF that] by (intro ids_of_cong) simp
    then show ?thesis using pair heldD [of b3 own3 ?P u] that q(1) by (auto simp: pair_ok_def)
  qed
  have ch: "node_children (pmPages (btStore b') q) = [pid_of b' (root_ref tx), pid_of b' (root_ref ty)]" using page(3) pids by simp
  have st: "0 < btNextRef b'" "q \<in> insert q own3" "0 \<in> insert q own3" using store ref(2) by auto
  note G = root_grown [OF root page(1,2) ch p(1) apart ref(3) st cow_step_refl [OF q(2)]]
  show "tree_ok b' (insert q own3) (Nd 0 [tx, ty])" by (rule G)
  show "items b' (Nd 0 [tx, ty]) = items b3 tx @ (k, None) # items b3 ty" using G(2) by (simp only: p)
qed

lemma handleRootInternalSplit_result:
  assumes ok: "tree_ok b own (Nd cur ts)" and room: "store_ok (btStore b) own"
    and split: "nodeSplit (piPageID (info_of b cur)) (btStore b) = (Ok (l, r, k), pm)" and room1: "used_ids pm + 1 < 4294967294"
  shows "case handleRootInternalSplit cur (info_of b cur) l r k (b\<lparr>btStore := pm\<rparr>) of
      (Ok u, b') \<Rightarrow> (\<exists>own' t'. tree_evolves b own (Nd cur ts) b' own' t' \<and> used_ids (btStore b') \<le> used_ids pm + 2)
    | (Err e, b') \<Rightarrow> tree_evolves b own (Nd cur ts) b' own (Nd cur ts) \<and> used_ids (btStore b') \<le> used_ids pm + 2
    | (Panic, b') \<Rightarrow> False"
proof -
  define m where "m = Suc (GetCount (pmPages pm l))"
  define n where "n = btNextRef b"
  define own3 where "own3 = insert r (insert l own)"
  define b3 where "b3 = dealt cur l r m (b\<lparr>btStore := pm\<rparr>)"
  define tx where "tx = Nd n (take m ts)"
  define ty where "ty = Nd (Suc n) (drop m ts)"
  have ok0: "tree_ok b own (plug [] (Nd cur ts))" using ok by simp
  note D = dealt_pair [OF ok0 room split, folded m_def n_def own3_def, folded b3_def tx_def ty_def]
  note node = node_in_tree [OF ok0]
  have cur: "cur = 0" "0 < n" using ok node(5) by (simp_all add: tree_ok_def n_def)
  have refs3: "btRefs b3 x = btRefs b x" if "x < n" for x using that by (auto simp: b3_def dealt_def n_def)
  have b3: "btStore b3 = pm" "btNextRef b3 = n + 2" "btEpoch b3 = None" "btSize b3 = btSize b" "btVars b3 = btVars b" "btClosed b3 = btClosed b"
    using ok by (simp_all add: b3_def dealt_def n_def tree_ok_def)
  have cur_page: "pmPages pm (piPageID (info_of b cur)) = page_of b cur" using D(6) node(4) by (simp add: cow_step_def)
  have "node_at (b\<lparr>btStore := pm\<rparr>) cur (map root_ref ts)" using node(1) cur_page by (simp add: node_at_def)
  from new_halves [OF this, of m l r] cur D(1) obtain b1 b2 where
    H: "new_node_ref l (b\<lparr>btStore := pm\<rparr>) = (n, b1)" "new_node_ref r b1 = (Suc n, b2)"
      "distributeChildrenAfterSplit cur n (Suc n) l b2 = (Ok (), b3)"
    by (auto simp: n_def m_def b3_def)
  have o3: "0 \<in> own" "l \<noteq> 0" "own \<subseteq> own3" using ok D(2) by (auto simp: tree_ok_def own3_def)
  have room3: "store_ok pm own3" using cow_step_refl [OF D(6)] room1 by (simp add: store_ok_def)
  obtain res pm1 where al: "AllocNodePage pm = (res, pm1)" by fastforce
  note N = new_root_page [OF room3 room1 o3(2) D(5), of r, unfolded al prod.case]
  have undo: "tree_evolves b own (Nd cur ts) (FreePage r (FreePage l (b3\<lparr>btStore := pm'\<rparr>))) own (Nd cur ts)"
    if "cow_step pm own3 own3 pm'" for pm'
    using cow_step_trans [OF D(6) that o3(3)] D(2-4) b3 refs3 by (intro split_undone [OF ok]) (simp_all add: own3_def n_def)
  show ?thesis
  proof (cases res)
    case (Ok p)
    note N = N [unfolded Ok outcome.case]
    obtain res2 pm2 where ins: "InsertChild p 0 k l r pm1 = (res2, pm2)" by fastforce
    note N = N [unfolded ins prod.case]
    have get: "GetNodePage p (b3\<lparr>btStore := pm1\<rparr>) = Ok p" using N by (simp add: GetNodePage_def)
    show ?thesis
    proof (cases res2)
      case Ok2: (Ok q)
      note N = N [unfolded Ok2 outcome.case]
      let ?i = "info_of b cur"
      define ni where "ni = new_info q (piVersion ?i + 1) False NodeRoot"
      define cc where "cc = \<lparr>ccChildren = [n, Suc n], ccSeparators = [k]\<rparr>"
      define b4 where "b4 = set_children 0 (Some cc) (set_info 0 ni (b3\<lparr>btStore := pm2\<rparr>))"
      have rr: "ReplaceRoot ?i ni (Some cc) (b3\<lparr>btStore := pm2\<rparr>) = (True, b4)"
        using refs3 [OF cur(2)] cur(1) by (simp add: ReplaceRoot_def CAS_def b4_def)
      have "ni \<noteq> ?i" by (auto simp: ni_def new_info_def dest: arg_cong [of _ _ piVersion])
      then have cas: "CAS cur ?i x b4 = (False, b4)" for x by (simp add: CAS_def cur(1) b4_def set_children_def set_info_def)
      have run: "handleRootInternalSplit cur ?i l r k (b\<lparr>btStore := pm\<rparr>) = (Ok (), FreePage p b4)"
        unfolding handleRootInternalSplit_def H Let_def prod.case outcome.case b3(1) al Ok get ins Ok2
        using rr cas b3(3) by (simp add: ni_def cc_def b4_def set_children_def set_info_def)
      let ?b' = "FreePage p b4"
      have b': "btStore ?b' = freed p pm2" "btNextRef ?b' = btNextRef b3" "btEpoch ?b' = None" "btSize ?b' = btSize b" "btVars ?b' = btVars b" "btClosed ?b' = btClosed b"
        "\<forall>x. x \<noteq> 0 \<longrightarrow> btRefs ?b' x = btRefs b3 x" "info_of ?b' 0 = ni" "prChildren (btRefs ?b' 0) = Some cc"
        using b3 by (simp_all add: b4_def FreePage_def with_store_def set_children_def set_info_def)
      have pids: "pid_of b3 (root_ref tx) = l" "pid_of b3 (root_ref ty) = r" using D(13,14) by (simp_all add: tx_def ty_def)
      have q: "q \<notin> own3" "cow_step (btStore b3) own3 (insert q own3) (btStore ?b')" and pq: "pmPages (btStore ?b') q = pmPages pm2 q"
        using N free_step [of pm own3 p "insert q own3" pm2] by (auto simp: b' b3 pages_freed)
      have page: "index_ok (pmPages (btStore ?b') q)" "node_keys (pmPages (btStore ?b') q) = [k]"
          "node_children (pmPages (btStore ?b') q) = [pid_of b3 (root_ref tx), pid_of b3 (root_ref ty)]"
        unfolding pq pids using N by simp_all
      have root: "prChildren (btRefs ?b' 0) = Some \<lparr>ccChildren = [root_ref tx, root_ref ty], ccSeparators = [k]\<rparr>"
          "piPageID (info_of ?b' 0) = q" "\<not> piIsLeaf (info_of ?b' 0)" "\<not> piRedirect (info_of ?b' 0)"
        unfolding b' by (simp_all add: cc_def tx_def ty_def ni_def new_info_def)
      have s: "0 \<in> own3" "0 < btNextRef b3" using o3 b3 by auto
      note T = pair_rooted [OF D(8) s q page b'(7,2,3) b3(3) root]
      have "x \<in> set (trefs (Nd cur ts)) \<or> n \<le> x" if "x \<in> set (trefs (Nd 0 [tx, ty]))" for x
        using that D(10) [of x] cur(1) by auto
      moreover have "btRefs ?b' x = btRefs b x" if "x < n" "x \<notin> set (trefs (Nd cur ts))" for x
        using that refs3 b'(7) cur(1) by simp
      moreover have "items ?b' (Nd 0 [tx, ty]) = items b (Nd cur ts)" using T(2) by (simp only: D(9))
      ultimately have "tree_evolves b own (Nd cur ts) ?b' (insert q own3) (Nd 0 [tx, ty])"
        using T(1) b' b3 o3 unfolding tree_evolves_def n_def by auto
      then show ?thesis unfolding run using N b'(1) by auto
    next
      case (Err e)
      have run: "handleRootInternalSplit cur (info_of b cur) l r k (b\<lparr>btStore := pm\<rparr>) = (Err e, FreePage p (FreePage r (FreePage l (b3\<lparr>btStore := pm2\<rparr>))))"
        unfolding handleRootInternalSplit_def H Let_def prod.case outcome.case b3(1) al Ok get ins Err by simp
      have "cow_step pm own3 (insert p own3) pm2" "p \<notin> own3" using N Err by auto
      then have "cow_step (btStore b) own (insert r (insert l (insert p own))) pm2"
        using cow_step_trans [OF D(6)] o3(3) by (simp add: own3_def insert_commute)
      from free_pair [OF this] D(2-4) \<open>p \<notin> own3\<close> have "cow_step (btStore b) own (insert p own) (freed r (freed l pm2))" by (auto simp: own3_def)
      from free_step [OF this] \<open>p \<notin> own3\<close> o3(3) have "cow_step (btStore b) own own (freed p (freed r (freed l pm2)))" by auto
      then have "tree_evolves b own (Nd cur ts) (FreePage p (FreePage r (FreePage l (b3\<lparr>btStore := pm2\<rparr>)))) own (Nd cur ts)"
        using b3 refs3 by (intro same_tree [OF ok]) (simp_all add: FreePage_def with_store_def n_def)
      then show ?thesis unfolding run using N Err by (auto simp: FreePage_def with_store_def)
    qed (use N in simp)
  next
    case (Err e)
    have run: "handleRootInternalSplit cur (info_of b cur) l r k (b\<lparr>btStore := pm\<rparr>) = (Err e, FreePage r (FreePage l (b3\<lparr>btStore := pm1\<rparr>)))"
      unfolding handleRootInternalSplit_def H Let_def prod.case outcome.case b3(1) al Err by simp
    show ?thesis unfolding run using N Err undo by (auto simp: FreePage_def with_store_def)
  qed (use N in simp)
qed


section \<open>The cascade\<close>

lemma tree_evolves_refl: "tree_ok b own t \<Longrightarrow> tree_evolves b own t b own t"
  by (simp add: tree_evolves_def)

lemma tree_evolves_store: "tree_ok b own t \<Longrightarrow> cow_step (btStore b) own own pm \<Longrightarrow> tree_evolves b own t (b\<lparr>btStore := pm\<rparr>) own t"
  by (rule same_tree) (simp_all add: tree_ok_def)

text \<open>Splitting a full index node never panics and keeps the items of the tree, whichever level it
  reaches and whether it fails there or not.\<close>

lemma handleInternalSplit_result:
  assumes "tree_ok b own (plug C (Nd cur ts))" "used_ids (btStore b) + (3 * length C + 4) < 4294967294" "take (length C) path = cpath C"
  shows "fst (handleInternalSplit cur (info_of b cur) path (length C) b) \<noteq> Panic \<and>
    (\<exists>own' t'. tree_evolves b own (plug C (Nd cur ts)) (snd (handleInternalSplit cur (info_of b cur) path (length C) b)) own' t')"
  using assms
proof (induction C arbitrary: b own cur ts)
  case Nil
  note node = node_in_tree [OF Nil.prems(1)]
  have get: "GetNodePage (piPageID (info_of b cur)) b = Ok (piPageID (info_of b cur))"
    using node(1) index_not_leaf by (simp add: GetNodePage_def node_at_def)
  have room: "store_ok (btStore b) own" using Nil.prems by (simp add: store_ok_def tree_ok_def)
  obtain res pm where sp: "nodeSplit (piPageID (info_of b cur)) (btStore b) = (res, pm)" by fastforce
  note S = nodeSplit_result [OF room node(4,7), unfolded sp prod.case] and used = next_nodeSplit [OF sp]
  show ?case
  proof (cases res)
    case (Ok lrk)
    obtain l r k where lrk: "lrk = (l, r, k)" by (cases lrk)
    have "used_ids pm + 1 < 4294967294" using used Nil.prems(2) by simp
    then have P: "case handleRootInternalSplit cur (info_of b cur) l r k (b\<lparr>btStore := pm\<rparr>) of
        (Ok u, b') \<Rightarrow> (\<exists>own' t'. tree_evolves b own (Nd cur ts) b' own' t' \<and> used_ids (btStore b') \<le> used_ids pm + 2)
      | (Err e, b') \<Rightarrow> tree_evolves b own (Nd cur ts) b' own (Nd cur ts) \<and> used_ids (btStore b') \<le> used_ids pm + 2
      | (Panic, b') \<Rightarrow> False"
      using Nil.prems(1) sp Ok lrk by (intro handleRootInternalSplit_result [OF _ room]) simp_all
    obtain res2 b1 where "handleRootInternalSplit cur (info_of b cur) l r k (b\<lparr>btStore := pm\<rparr>) = (res2, b1)" by fastforce
    with P sp Ok lrk get show ?thesis by (cases res2) (subst (1 2) handleInternalSplit.simps; auto)+
  next
    case (Err e)
    then show ?thesis using tree_evolves_store [OF Nil.prems(1), of pm] S get sp by (subst (1 2) handleInternalSplit.simps) auto
  qed (use S in simp)
next
  case (Cons f C)
  obtain g ls rs where f: "f = (g, ls, rs)" by (cases f)
  have ok: "tree_ok b own (plug ((g, ls, rs) # C) (Nd cur ts))" using Cons.prems(1) f by simp
  note node = node_in_tree [OF ok]
  have get: "GetNodePage (piPageID (info_of b cur)) b = Ok (piPageID (info_of b cur))"
    using node(1) index_not_leaf by (simp add: GetNodePage_def node_at_def)
  have room: "store_ok (btStore b) own" using Cons.prems by (simp add: store_ok_def tree_ok_def)
  obtain res pm where sp: "nodeSplit (piPageID (info_of b cur)) (btStore b) = (res, pm)" by fastforce
  note S = nodeSplit_result [OF room node(4,7), unfolded sp prod.case] and used = next_nodeSplit [OF sp]
  have path: "path ! length C = (g, int (length ls))" "take (length C) path = cpath C"
  proof -
    have "length (take (Suc (length C)) path) = Suc (length C)" using Cons.prems(3) f by (metis length_Cons length_cpath)
    then have "take (Suc (length C)) path = take (length C) path @ [path ! length C]"
      by (intro take_Suc_conv_app_nth) (auto simp: min_def split: if_splits)
    then show "path ! length C = (g, int (length ls))" "take (length C) path = cpath C" using Cons.prems(3) f by auto
  qed
  show ?case
  proof (cases res)
    case (Ok lrk)
    obtain l r k where lrk: "lrk = (l, r, k)" by (cases lrk)
    obtain res2 b1 where sip: "split_into_parent cur (info_of b cur) g (int (length ls)) l r k (b\<lparr>btStore := pm\<rparr>) = (res2, b1)" by fastforce
    have r1: "used_ids pm < 4294967294" using used Cons.prems(2) by simp
    note P = split_into_parent_result [OF ok room _ r1, of l r k "int (length ls)", unfolded sip prod.case]
    have sp': "nodeSplit (piPageID (info_of b cur)) (btStore b) = (Ok (l, r, k), pm)" using sp Ok lrk by simp
    note P = P [OF sp']
    have run: "handleInternalSplit cur (info_of b cur) path (length (f # C)) b = (case (res2, b1) of
         (Ok None, b1) \<Rightarrow> (Ok (), b1)
       | (Ok (Some newInfo), b1) \<Rightarrow> handleInternalSplit g newInfo path (length C) b1
       | (Err e, b1) \<Rightarrow> (Err e, b1)
       | (Panic, b1) \<Rightarrow> (Panic, b1))"
      by (subst handleInternalSplit.simps) (simp add: get sp' path(1) sip split: outcome.split option.split)
    show ?thesis
    proof (cases res2)
      case Ok2: (Ok opt)
      then obtain own' tx ty where ev: "tree_evolves b own (plug ((g, ls, rs) # C) (Nd cur ts)) b1 own' (plug C (Nd g (ls @ tx # ty # rs)))"
        "used_ids (btStore b1) \<le> Suc (used_ids pm)" "opt = None \<or> opt = Some (info_of b1 g)" using P by auto
      show ?thesis
      proof (cases opt)
        case None
        then show ?thesis using run Ok2 f ev(1) by auto
      next
        case (Some pi)
        then have pi: "pi = info_of b1 g" using ev(3) by simp
        have "tree_ok b1 own' (plug C (Nd g (ls @ tx # ty # rs)))" using ev(1) by (simp add: tree_evolves_def)
        from Cons.IH [OF this _ path(2)] ev(2) used Cons.prems(2) obtain own'' t'' where
          H: "fst (handleInternalSplit g pi path (length C) b1) \<noteq> Panic"
          "tree_evolves b1 own' (plug C (Nd g (ls @ tx # ty # rs))) (snd (handleInternalSplit g pi path (length C) b1)) own'' t''"
          unfolding pi by auto
        from tree_evolves_trans [OF ev(1) H(2)] H(1) show ?thesis using run Ok2 f Some by auto
      qed
    next
      case (Err e)
      then show ?thesis using run f P by auto
    qed (use P in simp)
  next
    case (Err e)
    then show ?thesis using tree_evolves_store [OF Cons.prems(1), of pm] S get sp by (subst (1 2) handleInternalSplit.simps) auto
  qed (use S in simp)
qed

end
