(* ===== verification/BTree_Leaf_Split.thy ===== *)
theory BTree_Leaf_Split
  imports BTree_Parent
begin

text \<open>
  Splitting a full leaf with a mutation applied to one half: the halves go into the parent or below a
  new root, and the tree then stands for the map with the new binding of the key.
\<close>

section \<open>The halves of a leaf\<close>

text \<open>The mutation does not ask for an overwrite in place when the leaf binds the key to \<open>old\<close>.\<close>

definition copies :: "mutator \<Rightarrow> bytes \<Rightarrow> mutation_vars \<Rightarrow> gslice \<Rightarrow> bool" where
  "copies mutate key vs old \<longleftrightarrow> (\<forall>p pm m pm' vs'. mutate p pm vs = (Ok m, pm', vs') \<longrightarrow> sorted_leaf (pmPages pm p) \<longrightarrow>
     map_of (leaf_kvs (pmPages pm p)) key = old \<longrightarrow> \<not> lmInPlace m)"

lemma leaf_key_short: "leaf_ok pg \<Longrightarrow> (k, v) \<in> set (leaf_kvs pg) \<Longrightarrow> length k \<le> 4096"
proof -
  assume ok: "leaf_ok pg" and kv: "(k, v) \<in> set (leaf_kvs pg)"
  have "kv_weight (k, v) \<le> (\<Sum>kv\<leftarrow>leaf_kvs pg. kv_weight kv)"
    using kv member_le_sum_list [of "kv_weight (k, v)" "map kv_weight (leaf_kvs pg)"] by force
  with kvs_fit_leaf [OF ok] show ?thesis by (simp add: kvs_fit_def kv_weight_def)
qed

lemma fits_left:
  assumes "fits key l r" "key < k" "\<forall>kv\<in>set B. k \<le> fst kv"
  shows "fits key l ((k, None) # entry_items B @ r)"
  using assms by (fastforce simp: fits_def set_entry_items)

lemma fits_right:
  assumes "fits key l r" "k \<le> key" "list_all (\<lambda>kv. fst kv < k) A"
  shows "fits key (l @ entry_items A @ [(k, None)]) r"
  using assms by (fastforce simp: fits_def set_entry_items list_all_iff)


text \<open>What a leaf split has to give: two fresh leaves, the page to drop, and the items between which they go.\<close>

definition split_leaf :: "bytes \<Rightarrow> gslice \<Rightarrow> item list \<Rightarrow> (bytes \<times> bytes) list \<Rightarrow> item list \<Rightarrow> page_manager \<Rightarrow> u32 set \<Rightarrow> split_result \<Rightarrow> page_manager \<Rightarrow> bool" where
  "split_leaf key nv L kvs R pm own s pm' \<longleftrightarrow>
     distinct [srLeft s, srRight s, srOrphan s] \<and> {srLeft s, srRight s, srOrphan s} \<inter> own = {} \<and>
     cow_step pm own (insert (srOrphan s) (insert (srRight s) (insert (srLeft s) own))) pm' \<and>
     {srLeftPage s, srRightPage s} \<subseteq> {srLeft s, srRight s, srOrphan s} \<and> srLeftPage s \<noteq> srRightPage s \<and>
     sorted_leaf (pmPages pm' (srLeft s)) \<and> sorted_leaf (pmPages pm' (srRight s)) \<and> length (srKey s) \<le> 4096 \<and>
     (let xs = L @ (entry_items (leaf_kvs (pmPages pm' (srLeft s))) @ (srKey s, None) # entry_items (leaf_kvs (pmPages pm' (srRight s)))) @ R
      in items_ok xs \<and> map_of (item_entries xs) = (map_of (item_entries L @ kvs @ item_entries R))(key := nv))"

lemma split_leafD:
  assumes "split_leaf key nv L kvs R pm own s pm'"
  defines "xs \<equiv> L @ (entry_items (leaf_kvs (pmPages pm' (srLeft s))) @ (srKey s, None) # entry_items (leaf_kvs (pmPages pm' (srRight s)))) @ R"
  shows "items_ok xs" "map_of (item_entries xs) = (map_of (item_entries L @ kvs @ item_entries R))(key := nv)"
  using assms unfolding split_leaf_def Let_def xs_def by simp_all

context leaf_mutator
begin

lemma split_and_mutate_result:
  assumes room: "roomy 4 own (btStore b)" and p: "p \<in> own" and leaf: "sorted_leaf (pmPages (btStore b) p)"
    and items: "items_ok (L @ entry_items (leaf_kvs (pmPages (btStore b) p)) @ R)" and fit: "fits key L R"
    and allow: "allowed (btVars b)" and copy: "copies mutate key (btVars b) (map_of (leaf_kvs (pmPages (btStore b) p)) key)"
  shows "case split_and_mutate p key mutate b of
      (Ok s, b1) \<Rightarrow> split_leaf key (new (btVars b)) L (leaf_kvs (pmPages (btStore b) p)) R (btStore b) own s (btStore b1) \<and>
        used_ids (btStore b1) \<le> used_ids (btStore b) + 4 \<and> b1 = b\<lparr>btStore := btStore b1, btVars := btVars b1\<rparr>
    | (Err e, b1) \<Rightarrow> cow_step (btStore b) own own (btStore b1) \<and> used_ids (btStore b1) \<le> used_ids (btStore b) + 4 \<and>
        b1 = b\<lparr>btStore := btStore b1, btVars := btVars b1\<rparr> \<and> e \<in> errs \<union> {ErrLeafSplitMinKeys, ErrOffHeapOutOfMemory}
    | (Panic, b1) \<Rightarrow> False"
proof -
  let ?pg = "pmPages (btStore b) p" and ?nv = "new (btVars b)"
  have get: "GetLeafPage p b = Ok p" using leaf by (simp add: GetLeafPage_def sorted_leaf_def leaf_ok_def)
  obtain res pm1 where sp: "leafSplit p (btStore b) = (res, pm1)" by fastforce
  note S = leafSplit_result [OF roomy_store_ok [OF room] p leaf, unfolded sp prod.case] and used = next_leafSplit [OF sp]
  show ?thesis
  proof (cases res)
    case (Ok lrk)
    obtain l r k where lrk: "lrk = (l, r, k)" by (cases lrk)
    let ?A = "leaf_kvs (pmPages pm1 l)" and ?B = "leaf_kvs (pmPages pm1 r)" and ?own = "insert r (insert l own)"
    have S: "l \<notin> own" "r \<notin> own" "r \<noteq> l" "cow_step (btStore b) own ?own pm1" "sorted_leaf (pmPages pm1 l)" "sorted_leaf (pmPages pm1 r)"
      "?A @ ?B = leaf_kvs ?pg" "?A \<noteq> []" "?B \<noteq> []" "k = fst (hd ?B)" "list_all (\<lambda>kv. fst kv < k) ?A"
      using S unfolding Ok lrk outcome.case prod.case by blast+
    define target where "target = (if key < k then l else r)"
    have kB: "\<forall>kv\<in>set ?B. k \<le> fst kv" using S(6,9,10) by (cases ?B) (auto simp: sorted_leaf_def less_imp_le)
    have klen: "length k \<le> 4096"
      using S(6,9,10) by (intro leaf_key_short [of "pmPages pm1 r" k "snd (hd ?B)"]) (auto simp: sorted_leaf_def)
    have two: "items_ok (L @ entry_items ?A @ (k, None) # entry_items ?B @ R)" using items S by (intro split_items_ok) simp_all
    have room1: "roomy 2 ?own pm1" using roomy_step [OF room S(4) used, of 2] by simp
    have tin: "target \<in> ?own" "target \<notin> own" by (auto simp: target_def S)
    have tleaf: "sorted_leaf (pmPages pm1 target)" using S(5,6) by (simp add: target_def)
    have "\<forall>kv\<in>set (leaf_kvs ?pg). ParseMVCC (snd kv) \<noteq> Panic" using items by (simp add: items_ok_def)
    then have tpars: "parsable (pmPages pm1 target)" unfolding S(7) [symmetric] parsable_def target_def by auto
    have tmap: "map_of (leaf_kvs (pmPages pm1 target)) key = map_of (leaf_kvs ?pg) key"
    proof (cases "key < k")
      case True
      then have "map_of ?B key = None" using kB by (fastforce simp: map_of_eq_None_iff)
      then show ?thesis using True unfolding S(7) [symmetric] target_def by (simp add: map_add_def split: option.split)
    next
      case False
      then have "map_of ?A key = None" using S(11) by (fastforce simp: map_of_eq_None_iff list_all_iff)
      then show ?thesis using False unfolding S(7) [symmetric] target_def by (simp add: map_add_def split: option.split)
    qed
    obtain res2 pm2 vs where mu: "mutate target pm1 (btVars b) = (res2, pm2, vs)" using prod_cases3 by blast
    note M = mutate [OF allow room1 tin(1) tleaf tpars, unfolded mu prod.case]
    have run: "split_and_mutate p key mutate b = (case (res2, pm2, vs) of
        (Ok m, pm2, vs) \<Rightarrow>
          (let pm3 = (if lmTombstoneDelta m \<noteq> 0 \<and> \<not> lmInPlace m then bump_tombstones (lmTombstoneDelta m) (lmNewPageID m) pm2 else pm2);
              q = (if lmInPlace m then target else lmNewPageID m)
           in (Ok \<lparr>srLeftPage = l, srRightPage = r, srLeft = (if key < k then q else l), srRight = (if key < k then r else q),
                 srKey = k, srOrphan = (if lmInPlace m then 0 else target), srDelta = lmDelta m\<rparr>, b\<lparr>btStore := pm3, btVars := vs\<rparr>))
      | (Err e, pm2, vs) \<Rightarrow> (Err e, FreePage r (FreePage l (b\<lparr>btStore := pm2, btVars := vs\<rparr>)))
      | (Panic, pm2, vs) \<Rightarrow> (Panic, b\<lparr>btStore := pm2, btVars := vs\<rparr>))"
      unfolding split_and_mutate_def get sp Ok lrk outcome.case prod.case Let_def target_def [symmetric] mu ..
    show ?thesis
    proof (cases res2)
      case Ok2: (Ok m)
      let ?q = "lmNewPageID m"
      define pm3 where "pm3 = bumped (lmTombstoneDelta m) ?q pm2"
      have nip: "\<not> lmInPlace m" using copy mu Ok2 tleaf tmap unfolding copies_def by blast
      have M: "used_ids pm2 \<le> used_ids pm1 + 2" "fresh_leaf pm1 ?own ?q pm2"
        "map_of (leaf_kvs (pmPages pm2 ?q)) = (map_of (leaf_kvs (pmPages pm1 target)))(key := ?nv)"
        using M nip by (simp_all add: Ok2)
      have F: "?q \<notin> ?own" "cow_step pm1 ?own (insert ?q ?own) pm3" "sorted_leaf (pmPages pm3 ?q)"
        using fresh_leaf_bumped [OF M(2), of "lmTombstoneDelta m", folded pm3_def] by (simp_all add: fresh_leaf_def)
      have map: "map_of (leaf_kvs (pmPages pm3 ?q)) = (map_of (leaf_kvs (pmPages pm1 target)))(key := ?nv)" using M(3) by (simp add: pm3_def)
      have same: "pmPages pm3 x = pmPages pm1 x" if "x \<in> ?own" for x using F(2) that by (auto simp: cow_step_def)
      define sr where "sr = \<lparr>srLeftPage = l, srRightPage = r, srLeft = (if key < k then ?q else l), srRight = (if key < k then r else ?q),
        srKey = k, srOrphan = target, srDelta = lmDelta m\<rparr>"
      have run: "split_and_mutate p key mutate b = (Ok sr, b\<lparr>btStore := pm3, btVars := vs\<rparr>)"
        unfolding run Ok2 using nip by (simp add: Let_def pm3_def bumped_def sr_def)
      have "cow_step (btStore b) own (insert ?q ?own) pm3" using cow_step_trans [OF S(4) F(2)] by auto
      moreover have "insert (srOrphan sr) (insert (srRight sr) (insert (srLeft sr) own)) = insert ?q ?own" by (auto simp: sr_def target_def)
      ultimately have st: "cow_step (btStore b) own (insert (srOrphan sr) (insert (srRight sr) (insert (srLeft sr) own))) pm3" by (simp only:)
      let ?xs = "L @ (entry_items (leaf_kvs (pmPages pm3 (srLeft sr))) @ (srKey sr, None) # entry_items (leaf_kvs (pmPages pm3 (srRight sr)))) @ R"
      have "items_ok ?xs \<and> map_of (item_entries ?xs) = (map_of (item_entries L @ leaf_kvs ?pg @ item_entries R))(key := ?nv)"
      proof (cases "key < k")
        case True
        let ?r = "(k, None) # entry_items ?B @ R"
        have x: "?xs = L @ entry_items (leaf_kvs (pmPages pm3 ?q)) @ ?r" using True same by (simp add: sr_def)
        have f: "fits key L ?r" using fits_left [OF fit True kB] .
        have m: "map_of (leaf_kvs (pmPages pm3 ?q)) = (map_of ?A)(key := ?nv)" using map True by (simp add: target_def)
        have old: "items_ok (L @ entry_items ?A @ ?r)" using two by simp
        show ?thesis unfolding x
        proof
          show "items_ok (L @ entry_items (leaf_kvs (pmPages pm3 ?q)) @ ?r)" using new_parses allow by (intro items_ok_replace [OF old f F(3) m])
          show "map_of (item_entries (L @ entry_items (leaf_kvs (pmPages pm3 ?q)) @ ?r)) = (map_of (item_entries L @ leaf_kvs ?pg @ item_entries R))(key := ?nv)"
            using map_of_replace [OF f m] unfolding S(7) [symmetric] by simp
        qed
      next
        case False
        let ?l = "L @ entry_items ?A @ [(k, None)]"
        have x: "?xs = ?l @ entry_items (leaf_kvs (pmPages pm3 ?q)) @ R" using False same by (simp add: sr_def)
        have f: "fits key ?l R" using fits_right [OF fit _ S(11)] False by simp
        have m: "map_of (leaf_kvs (pmPages pm3 ?q)) = (map_of ?B)(key := ?nv)" using map False by (simp add: target_def)
        have old: "items_ok (?l @ entry_items ?B @ R)" using two by simp
        show ?thesis unfolding x
        proof
          show "items_ok (?l @ entry_items (leaf_kvs (pmPages pm3 ?q)) @ R)" using new_parses allow by (intro items_ok_replace [OF old f F(3) m])
          show "map_of (item_entries (?l @ entry_items (leaf_kvs (pmPages pm3 ?q)) @ R)) = (map_of (item_entries L @ leaf_kvs ?pg @ item_entries R))(key := ?nv)"
            using map_of_replace [OF f m] unfolding S(7) [symmetric] by simp
        qed
      qed
      then have "split_leaf key ?nv L (leaf_kvs ?pg) R (btStore b) own sr pm3"
        using st F S(1-3,5,6) klen same unfolding split_leaf_def Let_def by (auto simp: sr_def target_def)
      then show ?thesis unfolding run using M(1) used by (simp add: pm3_def)
    next
      case (Err e)
      then have "cow_step pm1 ?own ?own pm2" "used_ids pm2 \<le> used_ids pm1 + 2" "e \<in> errs" using M by auto
      with cow_step_trans [OF S(4)] have "cow_step (btStore b) own ?own pm2" by blast
      from free_pair [OF this] S(1-3) \<open>used_ids pm2 \<le> used_ids pm1 + 2\<close> \<open>e \<in> errs\<close> used show ?thesis
        unfolding run Err by (simp add: FreePage_def with_store_def)
    qed (use M in simp)
  next
    case (Err e)
    then show ?thesis using S get sp used by (auto simp: split_and_mutate_def)
  qed (use S in simp)
qed

end

section \<open>Outcomes of a write\<close>

text \<open>The tree is well formed and its map differs from before at one key only.\<close>

definition written :: "bytes \<Rightarrow> gslice \<Rightarrow> btree \<Rightarrow> tree \<Rightarrow> btree \<Rightarrow> bool" where
  "written key nv b t b' \<longleftrightarrow> (\<exists>own' t'. tree_inv b' own' t' \<and> tree_map b' t' = (tree_map b t)(key := nv) \<and> btClosed b' = btClosed b)"

text \<open>No old reference and no page in use has changed.\<close>

definition untouched :: "btree \<Rightarrow> u32 set \<Rightarrow> btree \<Rightarrow> bool" where
  "untouched b own b' \<longleftrightarrow> (\<exists>own'. own \<subseteq> own' \<and> cow_step (btStore b) own own' (btStore b')) \<and>
     (\<forall>x<btNextRef b. btRefs b' x = btRefs b x) \<and> btNextRef b \<le> btNextRef b' \<and> btEpoch b' = None \<and> btClosed b' = btClosed b \<and> btSize b' = btSize b"

lemma untouched_tree:
  assumes "tree_ok b own t" "untouched b own b'"
  shows "\<exists>own'. own \<subseteq> own' \<and> tree_ok b' own' t \<and> items b' t = items b t"
proof -
  obtain own' where own': "own \<subseteq> own'" "cow_step (btStore b) own own' (btStore b')" using assms(2) by (auto simp: untouched_def)
  have low: "x < btNextRef b" if "x \<in> set (trefs t)" for x using assms(1) that by (auto simp: tree_ok_def held_def)
  have "grown b own b' own' (set (trefs t))" using assms(2) own' low by (intro grown_step [OF assms(1)]) (auto simp: untouched_def)
  from tree_ok_frame [OF assms(1) this] own'(1) show ?thesis by auto
qed

text \<open>References to two fresh leaves.\<close>

lemma fresh_pair:
  assumes "sorted_leaf (pmPages (btStore b3) x)" "sorted_leaf (pmPages (btStore b3) y)" "x \<noteq> y" "x \<in> own3" "y \<in> own3" "x \<noteq> 0" "y \<noteq> 0"
    "btRefs b3 n = \<lparr>prPageID = x, prInfo = new_info x 0 True NodeNormal, prChildren = None\<rparr>"
    "btRefs b3 (Suc n) = \<lparr>prPageID = y, prInfo = new_info y 0 True NodeNormal, prChildren = None\<rparr>" "Suc n < btNextRef b3" "0 < n"
  shows "pair_ok b3 own3 (Lf n) (Lf (Suc n))" "ids_of b3 n = {x}" "ids_of b3 (Suc n) = {y}"
    "items b3 (Lf n) = entry_items (leaf_kvs (pmPages (btStore b3) x))" "items b3 (Lf (Suc n)) = entry_items (leaf_kvs (pmPages (btStore b3) y))"
proof -
  show i: "ids_of b3 n = {x}" "ids_of b3 (Suc n) = {y}" using assms(8,9,11) by (simp_all add: ids_of_def new_info_def)
  have "held b3 own3 {n, Suc n}" using i assms by (auto simp: held_def)
  then show "pair_ok b3 own3 (Lf n) (Lf (Suc n))" using assms by (simp add: pair_ok_def leaf_at_def new_info_def IsBusy_def)
  show "items b3 (Lf n) = entry_items (leaf_kvs (pmPages (btStore b3) x))" "items b3 (Lf (Suc n)) = entry_items (leaf_kvs (pmPages (btStore b3) y))"
    using assms(8,9) by (simp_all add: new_info_def)
qed

section \<open>Below a parent\<close>

definition next_info :: "page_info \<Rightarrow> u32 \<Rightarrow> page_info" where
  "next_info pi q = new_info q (piVersion pi + 1) False (piNodeState pi)"

lemma parent_spin_first:
  assumes ok: "tree_ok b own (plug ((g, ls, rs) # c) t0)" and ref: "btRefs b4 g = btRefs b g" "\<forall>x<btNextRef b. pid_of b4 x = pid_of b x"
    and page: "pmPages (btStore b4) (piPageID (info_of b g)) = page_of b g"
  shows "handleParentCASWithSpin g (pid_of b (root_ref t0)) l r k d x y b4 =
    (case InsertChild (piPageID (info_of b g)) (int (length ls)) k l r (btStore b4) of
       (Ok q, pm) \<Rightarrow> (Ok (next_info (info_of b g) q, q),
         set_children g (prChildren (parent_ref b g (length ls) k x y (next_info (info_of b g) q))) (set_info g (next_info (info_of b g) q) (b4\<lparr>btStore := pm\<rparr>)))
     | (Err e, pm) \<Rightarrow> (Err e, b4\<lparr>btStore := pm\<rparr>)
     | (Panic, pm) \<Rightarrow> (Panic, b4\<lparr>btStore := pm\<rparr>))"
proof -
  note pf = parent_facts [OF ok]
  let ?gi = "info_of b g"
  obtain res pm where ins: "InsertChild (piPageID ?gi) (int (length ls)) k l r (btStore b4) = (res, pm)" by fastforce
  have get: "GetNodePage (piPageID ?gi) b4 = Ok (piPageID ?gi)" using pf(1) page index_not_leaf by (simp add: GetNodePage_def)
  have idx: "child_index (pid_of b (root_ref t0)) d (page_of b g) = int (length ls)" "\<not> int (GetCount (page_of b g)) + 1 \<le> int (length ls)"
    using pf(3,4) by simp_all
  have upd: "updateChildrenCache g (pid_of b (root_ref t0)) x y k (set_info g pi (b4\<lparr>btStore := pm\<rparr>)) =
      (Ok (), set_children g (prChildren (parent_ref b g (length ls) k x y pi)) (set_info g pi (b4\<lparr>btStore := pm\<rparr>)))" for pi
    using ref by (intro cache_updated [OF ok]) (auto simp: set_info_def)
  have "Suc 49 = MaxParentCASSpins" by (simp add: MaxParentCASSpins_def)
  then show ?thesis unfolding handleParentCASWithSpin_def
    using ins get idx pf(7) ref(1) page upd
    by (cases res) (simp_all add: parent_spin.simps(2) [of 49, simplified] MaxParentCASSpins_def Let_def CAS_def next_info_def)
qed

text \<open>The leaf is marked as splitting while its halves are made.\<close>

definition splitting :: "btree \<Rightarrow> nat \<Rightarrow> page_info" where
  "splitting b h = new_info (piPageID (info_of b h)) (piVersion (info_of b h) + 1) True NodeSplitting"

definition marked :: "nat \<Rightarrow> btree \<Rightarrow> btree" where
  "marked h b = set_info h (splitting b h) b"

lemma marked_simps [simp]:
  "btStore (marked h b) = btStore b" "btVars (marked h b) = btVars b" "btNextRef (marked h b) = btNextRef b" "btEpoch (marked h b) = btEpoch b"
  "btClosed (marked h b) = btClosed b" "btSize (marked h b) = btSize b" "x \<noteq> h \<Longrightarrow> btRefs (marked h b) x = btRefs b x"
  "pid_of (marked h b) x = pid_of b x" "info_of (marked h b) h = splitting b h" "piPageID (splitting b h) = piPageID (info_of b h)"
  by (simp_all add: marked_def set_info_def splitting_def new_info_def)

text \<open>Two references for the halves of a leaf, the page that the mutation has replaced freed.\<close>

definition half_leaves :: "split_result \<Rightarrow> btree \<Rightarrow> btree" where
  "half_leaves s b = FreePage (srOrphan s) (snd (NewPageRef (srRight s) 0 (snd (NewPageRef (srLeft s) 0 b))))"

lemma half_leaves_pair:
  assumes ok: "tree_ok b own t" and split: "split_leaf key nv L kvs R (btStore b) own s (btStore b1)"
    and b1: "btNextRef b1 = btNextRef b" "btEpoch b1 = None" "btClosed b1 = btClosed b" "btSize b1 = btSize b"
  defines "n \<equiv> btNextRef b" and "own3 \<equiv> insert (srRight s) (insert (srLeft s) own)" and "b4 \<equiv> half_leaves s b1"
  shows "cow_step (btStore b) own own3 (btStore b4)" "pair_ok b4 own3 (Lf n) (Lf (Suc n))" "ids_of b4 n = {srLeft s}" "ids_of b4 (Suc n) = {srRight s}"
    "pid_of b4 n = srLeft s" "pid_of b4 (Suc n) = srRight s" "\<And>x. x < n \<Longrightarrow> btRefs b4 x = btRefs b1 x" "btNextRef b4 = n + 2" "btEpoch b4 = None"
    "btClosed b4 = btClosed b" "btSize b4 = btSize b" "nextPageID (btStore b4) = nextPageID (btStore b1)" "0 < n"
    "items b4 (Lf n) @ (k, None) # items b4 (Lf (Suc n)) =
       entry_items (leaf_kvs (pmPages (btStore b1) (srLeft s))) @ (k, None) # entry_items (leaf_kvs (pmPages (btStore b1) (srRight s)))"
proof -
  have S: "srLeft s \<noteq> srRight s" "srLeft s \<noteq> srOrphan s" "srRight s \<noteq> srOrphan s" "srLeft s \<notin> own" "srRight s \<notin> own" "srOrphan s \<notin> own"
    "cow_step (btStore b) own (insert (srOrphan s) own3) (btStore b1)" "sorted_leaf (pmPages (btStore b1) (srLeft s))" "sorted_leaf (pmPages (btStore b1) (srRight s))"
    using split by (auto simp: split_leaf_def own3_def)
  have z: "0 \<in> own" using ok by (simp add: tree_ok_def)
  have "0 \<in> set (trefs t)" using ok root_in_trefs [of t] by (simp add: tree_ok_def)
  then show n0: "0 < n" using ok by (auto simp: tree_ok_def held_def n_def)
  have b4: "btStore b4 = freed (srOrphan s) (btStore b1)" "btNextRef b4 = n + 2"
    "btRefs b4 = (btRefs b1)(n := \<lparr>prPageID = srLeft s, prInfo = new_info (srLeft s) 0 True NodeNormal, prChildren = None\<rparr>,
       Suc n := \<lparr>prPageID = srRight s, prInfo = new_info (srRight s) 0 True NodeNormal, prChildren = None\<rparr>)"
    using b1 by (simp_all add: b4_def half_leaves_def NewPageRef_def FreePage_def with_store_def n_def)
  show "btEpoch b4 = None" "btClosed b4 = btClosed b" "btSize b4 = btSize b" "nextPageID (btStore b4) = nextPageID (btStore b1)"
    using b1 by (simp_all add: b4_def half_leaves_def NewPageRef_def FreePage_def with_store_def)
  show "btNextRef b4 = n + 2" by (rule b4)
  show "cow_step (btStore b) own own3 (btStore b4)" unfolding b4 using S(2,3,6) by (intro free_step [OF S(7)]) (auto simp: own3_def)
  show "btRefs b4 x = btRefs b1 x" if "x < n" for x using that by (simp add: b4)
  show "pid_of b4 n = srLeft s" "pid_of b4 (Suc n) = srRight s" by (simp_all add: b4)
  have pg: "pmPages (btStore b4) (srLeft s) = pmPages (btStore b1) (srLeft s)" "pmPages (btStore b4) (srRight s) = pmPages (btStore b1) (srRight s)"
    using S(2,3) by (simp_all add: b4 pages_freed)
  have o: "srLeft s \<in> own3" "srRight s \<in> own3" "srLeft s \<noteq> 0" "srRight s \<noteq> 0" using S(4,5) z by (auto simp: own3_def)
  have P: "pair_ok b4 own3 (Lf n) (Lf (Suc n))" "ids_of b4 n = {srLeft s}" "ids_of b4 (Suc n) = {srRight s}"
    "items b4 (Lf n) = entry_items (leaf_kvs (pmPages (btStore b4) (srLeft s)))" "items b4 (Lf (Suc n)) = entry_items (leaf_kvs (pmPages (btStore b4) (srRight s)))"
    using fresh_pair [of b4 "srLeft s" "srRight s" own3 n] S(1,8,9) o n0 pg by (simp_all add: b4)
  show "pair_ok b4 own3 (Lf n) (Lf (Suc n))" "ids_of b4 n = {srLeft s}" "ids_of b4 (Suc n) = {srRight s}" by (rule P)+
  show "items b4 (Lf n) @ (k, None) # items b4 (Lf (Suc n)) =
       entry_items (leaf_kvs (pmPages (btStore b1) (srLeft s))) @ (k, None) # entry_items (leaf_kvs (pmPages (btStore b1) (srRight s)))"
    by (simp only: P pg)
qed

lemma tree_ok_cong:
  assumes "tree_ok b own t" "btRefs b' = btRefs b" "btStore b' = btStore b" "btNextRef b' = btNextRef b" "btEpoch b' = btEpoch b"
  shows "tree_ok b' own t \<and> items b' t = items b t"
  using assms by (intro tree_ok_frame [OF assms(1)]) (auto simp: grown_def tree_ok_def)

lemma add_size_tree: "tree_ok b own t \<Longrightarrow> tree_ok (add_size d b) own t \<and> items (add_size d b) t = items b t"
  by (rule tree_ok_cong) (simp_all add: add_size_def)

lemma writtenI:
  assumes "tree_ok b' own' t'" "items_ok (items b' t')" "map_of (item_entries (items b' t')) = (tree_map b t)(key := nv)" "btClosed b' = btClosed b"
  shows "written key nv b t b'"
  unfolding written_def using assms by (auto simp: tree_inv_def tree_map_def intro!: exI [of _ own'] exI [of _ t'])

context leaf_mutator
begin

lemma handleLeafSplit_result:
  assumes inv: "tree_inv b own (plug ((g, ls, rs) # c) (Lf h))" and fit: "fits key (cleft b ((g, ls, rs) # c)) (cright b ((g, ls, rs) # c))"
    and room: "used_ids (btStore b) + (3 * length c + 9) < 4294967294" and path: "path = cpath ((g, ls, rs) # c) @ [(h, - 1)]"
    and allow: "allowed (btVars b)" and copy: "copies mutate key (btVars b) (map_of (leaf_kvs (page_of b h)) key)"
  shows "case handleLeafSplit h (splitting b h) path key mutate (marked h b) of
      (Ok u, b') \<Rightarrow> written key (new (btVars b)) b (plug ((g, ls, rs) # c) (Lf h)) b' \<and> info_of b' h \<noteq> splitting b h
    | (Err e, b') \<Rightarrow> untouched (marked h b) own b' \<and> e \<in> errs \<union> {ErrLeafSplitMinKeys, ErrOffHeapPageFull, ErrOffHeapOutOfMemory}
    | (Panic, b') \<Rightarrow> False"
proof -
  let ?C = "(g, ls, rs) # c" and ?bs = "marked h b" and ?p = "piPageID (info_of b h)" and ?nv = "new (btVars b)" and ?t = "plug ((g, ls, rs) # c) (Lf h)"
  let ?L = "cleft b ?C" and ?R = "cright b ?C" and ?kvs = "leaf_kvs (page_of b h)"
  define n where "n = btNextRef b"
  have ok: "tree_ok b own ?t" and iok: "items_ok (items b ?t)" using inv by (simp_all only: tree_inv_def)
  note pf = parent_facts [OF ok]
  have leaf: "leaf_at b h" "crep b ?C h" using leaf_of_tree [OF ok] by blast+
  have srt: "sorted_leaf (page_of b h)" using leaf(1) by (simp add: leaf_at_def)
  have held: "held b own (set (trefs ?t))" and dist: "distinct (crefs ?C @ trefs (Lf h))" and ep: "btEpoch b = None" and st: "cow_step (btStore b) own own (btStore b)" and z: "0 \<in> own"
    using ok unfolding tree_ok_def distinct_trefs_plug by blast+
  have hin: "h \<in> set (trefs ?t)" by (simp add: set_trefs_plug del: plug.simps)
  have p: "?p \<in> own" using heldD [OF held hin] info_in_ids [of b h] by blast
  have g: "g \<noteq> h" "g < n" "h < n" using pf(8-10) by (auto simp: n_def)
  have items: "items b ?t = ?L @ entry_items ?kvs @ ?R" using items_plug [of b ?C "Lf h"] leaf(2) by simp
  have map: "tree_map b ?t = map_of (item_entries ?L @ ?kvs @ item_entries ?R)" by (rule tree_map_split [OF leaf(2)])
  have room4: "roomy 4 own (btStore ?bs)" using st room by (simp add: roomy_def)
  obtain res b1 where sm: "split_and_mutate ?p key mutate ?bs = (res, b1)" by fastforce
  have pre: "sorted_leaf (pmPages (btStore ?bs) ?p)" "items_ok (?L @ entry_items (leaf_kvs (pmPages (btStore ?bs) ?p)) @ ?R)"
    "allowed (btVars ?bs)" "copies mutate key (btVars ?bs) (map_of (leaf_kvs (pmPages (btStore ?bs) ?p)) key)"
    using srt iok allow copy unfolding items marked_simps by blast+
  note M = split_and_mutate_result [OF room4 p pre(1,2) fit pre(3,4), unfolded sm prod.case marked_simps]
  have path2: "path ! length c = (g, int (length ls))" "take (length c) path = cpath c" "length path - 2 = length c"
    unfolding path by (simp_all add: nth_append)
  show ?thesis
  proof (cases res)
    case (Ok s)
    have M: "split_leaf key ?nv ?L ?kvs ?R (btStore b) own s (btStore b1)" "used_ids (btStore b1) \<le> used_ids (btStore b) + 4"
      and b1: "b1 = ?bs\<lparr>btStore := btStore b1, btVars := btVars b1\<rparr>" using M Ok by simp_all
    have b1s: "btNextRef b1 = btNextRef b" "btEpoch b1 = None" "btClosed b1 = btClosed b" "btSize b1 = btSize b" "btRefs b1 = btRefs ?bs"
      using ep by (subst b1; simp)+
    define own3 where "own3 = insert (srRight s) (insert (srLeft s) own)"
    define b4 where "b4 = half_leaves s b1"
    note H = half_leaves_pair [OF ok M(1) b1s(1-4), folded n_def own3_def b4_def]
    have refs: "btRefs b4 x = btRefs ?bs x" if "x < n" for x using H(7) [OF that] b1s(5) by simp
    have orph: "srOrphan s \<noteq> 0" using M(1) z by (auto simp: split_leaf_def)
    have pg: "pmPages (btStore b4) (piPageID (info_of b g)) = page_of b g" using H(1) pf(2) by (simp add: cow_step_def)
    have ref_g: "btRefs b4 g = btRefs b g" using refs [OF g(2)] g(1) by simp
    have pid: "\<forall>x<btNextRef b. pid_of b4 x = pid_of b x" using refs by (simp add: n_def)
    obtain res5 pm5 where ins: "InsertChild (piPageID (info_of b g)) (int (length ls)) (srKey s) (srLeft s) (srRight s) (btStore b4) = (res5, pm5)" by fastforce
    note spin = parent_spin_first [OF ok ref_g pid pg, of "srLeft s" "srRight s" "srKey s" "int (length ls)" n "Suc n", unfolded ins prod.case root_ref.simps]
    obtain b2 b3 where new: "NewPageRef (srLeft s) 0 b1 = (n, b2)" "NewPageRef (srRight s) 0 b2 = (Suc n, b3)" "FreePage (srOrphan s) b3 = b4"
      using b1s(1) by (auto simp: b4_def half_leaves_def NewPageRef_def n_def)
    have run: "handleLeafSplit h (splitting b h) path key mutate ?bs =
      (case handleParentCASWithSpin g (pid_of b h) (srLeft s) (srRight s) (srKey s) (int (length ls)) n (Suc n) b4 of
         (Ok (newParentInfo, newParent), b5) \<Rightarrow>
           (case CAS h (splitting b h) (redirect_info ?p (piVersion (splitting b h) + 1) True (Some n)) b5 of
              (True, b6) \<Rightarrow>
                (case (if nodeIsFull 0 (pmPages (btStore b6) newParent) then handleInternalSplit g newParentInfo path (length c) b6 else (Ok (), b6)) of
                   (Panic, b7) \<Rightarrow> (Panic, b7) | (_, b7) \<Rightarrow> (Ok (), add_size (srDelta s) b7))
            | (False, b6) \<Rightarrow> (Err ErrCASConflict, FreePage newParent b6))
       | (Err e, b5) \<Rightarrow> (Err e, b5)
       | (Panic, b5) \<Rightarrow> (Panic, b5))"
      unfolding handleLeafSplit_def marked_simps(10) sm Ok outcome.case prod.case Let_def path2(3) new if_P [OF orph] path2(1)
      using pid g(3) by (simp add: n_def)
    have S: "length (srKey s) < 2147483648" using M(1) by (simp add: split_leaf_def)
    have o3: "own \<subseteq> own3" "piPageID (info_of b g) \<in> own3" "srLeft s \<noteq> 0" using pf(2) M(1) z by (auto simp: own3_def split_leaf_def)
    have room3: "store_ok (btStore b4) own3" using cow_step_refl [OF H(1)] room M(2) by (simp add: store_ok_def H(12))
    have pre5: "index_ok (pmPages (btStore b4) (piPageID (info_of b g)))" "length ls \<le> GetCount (pmPages (btStore b4) (piPageID (info_of b g)))"
      using pf(1,3) pg by simp_all
    note I = InsertChild_result [OF room3 o3(2) pre5 o3(3) S, of "srRight s", unfolded ins prod.case] and used5 = next_InsertChild [OF ins]
    show ?thesis
    proof (cases res5)
      case Ok5: (Ok q)
      define ni where "ni = next_info (info_of b g) q"
      define rd where "rd = redirect_info ?p (piVersion (splitting b h) + 1) True (Some n)"
      define b5 where "b5 = set_children g (prChildren (parent_ref b g (length ls) (srKey s) n (Suc n) ni)) (set_info g ni (b4\<lparr>btStore := pm5\<rparr>))"
      define b6 where "b6 = set_info h rd b5"
      have cas: "CAS h (splitting b h) rd b5 = (True, b6)"
        using refs [OF g(3)] g(1) by (simp add: CAS_def b6_def b5_def set_children_def set_info_def)
      have b6: "btStore b6 = pm5" "btNextRef b6 = btNextRef b4" "btEpoch b6 = None" "btClosed b6 = btClosed b"
        "btRefs b6 = (btRefs b4)(root_ref (Lf h) := (btRefs b4 h)\<lparr>prInfo := rd\<rparr>, g := parent_ref b g (length ls) (srKey s) (root_ref (Lf n)) (root_ref (Lf (Suc n))) ni)"
        using H(9,10) g(1) ref_g by (auto simp: b6_def b5_def set_children_def set_info_def parent_ref_def)
      have old: "x < n \<and> x \<noteq> h \<and> ids_of b x \<subseteq> own" if "x \<in> set (crefs ?C)" for x
      proof -
        have "x \<in> set (trefs ?t)" using that unfolding set_trefs_plug by blast
        moreover have "x \<noteq> h" using dist that by auto
        ultimately show ?thesis using heldD [OF held] by (auto simp: n_def)
      qed
      have gr: "grown b own b4 own3 (set (crefs ?C))"
        using o3(1) H(8,9) old refs by (intro grown_step [OF ok H(1)]) (auto simp: n_def simp del: crefs.simps)
      have P: "set (trefs (Lf n) @ trefs (Lf (Suc n))) = {n, Suc n}" by auto
      have "n \<notin> set (crefs ?C)" "Suc n \<notin> set (crefs ?C)" using old [of n] old [of "Suc n"] by (simp_all del: crefs.simps) blast+
      then have inter: "set (trefs (Lf n) @ trefs (Lf (Suc n))) \<inter> insert (root_ref (Lf h)) (set (crefs ?C)) = {}" unfolding P using g(3) by auto
      have ap: "ids_of b4 u \<inter> ids_of b v = {}" if "u \<in> set (trefs (Lf n) @ trefs (Lf (Suc n)))" "v \<in> set (crefs ?C)" for u v
        using that(1) old [OF that(2)] M(1) H(3,4) unfolding P by (auto simp: split_leaf_def)
      have ins': "InsertChild (piPageID (info_of b g)) (int (length ls)) (srKey s) (pid_of b4 (root_ref (Lf n))) (pid_of b4 (root_ref (Lf (Suc n)))) (btStore b4) = (Ok q, pm5)"
        using ins Ok5 H(5,6) by simp
      have ni: "piPageID ni = q" "\<not> piIsLeaf ni" "\<not> piRedirect ni" by (simp_all add: ni_def next_info_def new_info_def)
      note T = pair_inserted [OF ok gr room3 H(2) inter ap ins' S ni b6(1-3,5)]
      let ?t6 = "plug c (Nd g (ls @ Lf n # Lf (Suc n) # rs))"
      have x6: "items b6 ?t6 = ?L @ (entry_items (leaf_kvs (pmPages (btStore b1) (srLeft s))) @ (srKey s, None) #
          entry_items (leaf_kvs (pmPages (btStore b1) (srRight s)))) @ ?R" using T(3) by (simp only: H(14))
      have it6: "items_ok (items b6 ?t6)" "map_of (item_entries (items b6 ?t6)) = (tree_map b ?t)(key := ?nv)"
        unfolding x6 map by (rule split_leafD [OF M(1)])+
      have full: "fst (handleInternalSplit g ni path (length c) b6) \<noteq> Panic \<and>
          (\<exists>own' t'. tree_evolves b6 (insert q own3) ?t6 (snd (handleInternalSplit g ni path (length c) b6)) own' t')"
      proof -
        have "ni = info_of b6 g" by (simp add: b6(5) parent_ref_def)
        moreover have "used_ids (btStore b6) + (3 * length c + 4) < 4294967294" using used5 M(2) H(12) room by (simp add: b6(1))
        ultimately show ?thesis using handleInternalSplit_result [OF T(2) _ path2(2)] by simp
      qed
      obtain r7 b7 where c7: "(if nodeIsFull 0 (pmPages (btStore b6) q) then handleInternalSplit g ni path (length c) b6 else (Ok (), b6)) = (r7, b7)" by fastforce
      then obtain own7 t7 where ev: "r7 \<noteq> Panic" "tree_evolves b6 (insert q own3) ?t6 b7 own7 t7"
        using full tree_evolves_refl [OF T(2)] by (auto split: if_splits)
      have res: "handleLeafSplit h (splitting b h) path key mutate ?bs = (Ok (), add_size (srDelta s) b7)"
        unfolding run spin Ok5 outcome.case prod.case ni_def [symmetric] b5_def [symmetric] rd_def [symmetric] cas bool.case c7
        using ev(1) by (cases r7) auto
      have E: "tree_ok b7 own7 t7" "items b7 t7 = items b6 ?t6" "btClosed b7 = btClosed b6" "h \<notin> set (trefs ?t6) \<Longrightarrow> btRefs b7 h = btRefs b6 h"
        using ev(2) g(3) H(8) b6(2) by (auto simp: tree_evolves_def)
      have "h \<notin> set (crefs c @ trefs (Nd g (ls @ Lf n # Lf (Suc n) # rs)))" using dist g by auto
      then have "info_of b7 h = rd" using E(4) g(1) by (simp add: set_trefs_plug b6(5))
      moreover have "rd \<noteq> splitting b h" by (simp add: rd_def redirect_info_def splitting_def new_info_def)
      ultimately have "info_of (add_size (srDelta s) b7) h \<noteq> splitting b h" by (simp add: add_size_def)
      moreover have "written key ?nv b ?t (add_size (srDelta s) b7)"
        using add_size_tree [OF E(1), of "srDelta s"] it6 E(2,3) b6(4) by (intro writtenI [of _ own7 t7]) (auto simp: add_size_def)
      ultimately show ?thesis unfolding res by simp
    next
      case (Err e)
      have "cow_step (btStore b4) own3 own3 pm5" "e \<in> {ErrOffHeapPageFull, ErrOffHeapOutOfMemory}" using I Err by auto
      moreover have "cow_step (btStore b) own own3 pm5" by (rule cow_step_trans [OF H(1) calculation(1) o3(1)])
      ultimately show ?thesis unfolding run spin Err using o3(1) H refs by (auto simp: untouched_def n_def)
    qed (use I in simp)
  next
    case (Err e)
    have b1: "b1 = ?bs\<lparr>btStore := btStore b1, btVars := btVars b1\<rparr>" using M Err by simp
    have "btNextRef b1 = btNextRef b" "btEpoch b1 = None" "btClosed b1 = btClosed b" "btSize b1 = btSize b" "btRefs b1 = btRefs ?bs"
      using ep by (subst b1; simp)+
    then show ?thesis using M Err sm by (auto simp: handleLeafSplit_def untouched_def)
  qed (use M in simp)
qed

end

section \<open>Without a parent\<close>

lemma cow_step_left:
  "cow_step pm own own' pm' \<Longrightarrow> pmTotal pm0 = pmTotal pm \<Longrightarrow> \<forall>x\<in>own. pmPages pm0 x = pmPages pm x \<Longrightarrow> cow_step pm0 own own' pm'"
  by (simp add: cow_step_def)

lemma cow_step_sub: "cow_step pm own own' pm' \<Longrightarrow> own0 \<subseteq> own \<Longrightarrow> cow_step pm own0 own' pm'"
  by (auto simp: cow_step_def)

lemma total_freed [simp]: "pmTotal (freed p pm) = pmTotal pm"
  by (simp add: freed_def pageFree_def Let_def with_page_def)

text \<open>The page replaced by the mutation and the blank page of the new root are freed at the end.\<close>

lemma root_store:
  assumes "cow_step pm (insert x own3) (insert p (insert q (insert x own3))) pm2" "x \<notin> own3" "p \<notin> insert x own3" "q \<notin> insert p (insert x own3)"
  shows "cow_step (freed x pm) own3 (insert q own3) (freed p (freed x pm2))"
proof -
  have "cow_step pm own3 (insert x (insert p (insert q own3))) pm2" using cow_step_sub [OF assms(1), of own3] by (simp add: insert_commute subset_insertI)
  from free_step [OF this] assms have "cow_step pm own3 (insert p (insert q own3)) (freed x pm2)" by auto
  from free_step [OF this] assms have "cow_step pm own3 (insert q own3) (freed p (freed x pm2))" by auto
  then show ?thesis by (rule cow_step_left) (use assms(2) in \<open>auto intro!: pages_freed\<close>)
qed

context leaf_mutator
begin

lemma handleRootSplit_result:
  assumes inv: "tree_inv b own (Lf h)" and room: "used_ids (btStore b) + 9 < 4294967294"
    and allow: "allowed (btVars b)" and copy: "copies mutate key (btVars b) (map_of (leaf_kvs (page_of b h)) key)"
  shows "case handleRootSplit (splitting b h) key mutate (marked h b) of
      (Ok u, b') \<Rightarrow> written key (new (btVars b)) b (Lf h) b' \<and> info_of b' h \<noteq> splitting b h
    | (Err e, b') \<Rightarrow> untouched (marked h b) own b' \<and> e \<in> errs \<union> {ErrLeafSplitMinKeys, ErrOffHeapPageFull, ErrOffHeapOutOfMemory}
    | (Panic, b') \<Rightarrow> False"
proof -
  let ?bs = "marked h b" and ?p = "piPageID (info_of b h)" and ?nv = "new (btVars b)" and ?kvs = "leaf_kvs (page_of b h)"
  define n where "n = btNextRef b"
  have ok: "tree_ok b own (Lf h)" and iok: "items_ok (entry_items ?kvs)" using inv by (simp_all add: tree_inv_def)
  have srt: "sorted_leaf (page_of b h)" and h: "h = 0" "h < n" and p: "?p \<in> own" and ep: "btEpoch b = None" and
    st: "cow_step (btStore b) own own (btStore b)" and z: "0 \<in> own"
    using ok info_in_ids [of b h] by (auto simp: tree_ok_def leaf_at_def held_def n_def)
  have room4: "roomy 4 own (btStore ?bs)" using st room by (simp add: roomy_def)
  obtain res b1 where sm: "split_and_mutate ?p key mutate ?bs = (res, b1)" by fastforce
  have pre: "sorted_leaf (pmPages (btStore ?bs) ?p)" "items_ok ([] @ entry_items (leaf_kvs (pmPages (btStore ?bs) ?p)) @ [])" "fits key [] []"
    "allowed (btVars ?bs)" "copies mutate key (btVars ?bs) (map_of (leaf_kvs (pmPages (btStore ?bs) ?p)) key)"
    using srt iok allow copy by (simp_all add: fits_def)
  note M = split_and_mutate_result [OF room4 p pre, unfolded sm prod.case marked_simps]
  show ?thesis
  proof (cases res)
    case (Ok s)
    have M: "split_leaf key ?nv [] ?kvs [] (btStore b) own s (btStore b1)" "used_ids (btStore b1) \<le> used_ids (btStore b) + 4"
      and b1: "b1 = ?bs\<lparr>btStore := btStore b1, btVars := btVars b1\<rparr>" using M Ok by simp_all
    have b1s: "btNextRef b1 = btNextRef b" "btEpoch b1 = None" "btClosed b1 = btClosed b" "btSize b1 = btSize b" "btRefs b1 = btRefs ?bs"
      using ep by (subst b1; simp)+
    define own3 where "own3 = insert (srRight s) (insert (srLeft s) own)"
    define b4 where "b4 = half_leaves s b1"
    note H = half_leaves_pair [OF ok M(1) b1s(1-4), folded n_def own3_def b4_def]
    have S: "srOrphan s \<notin> own3" "own \<subseteq> own3" "length (srKey s) < 2147483648" "srLeft s \<noteq> 0" "cow_step (btStore b) own (insert (srOrphan s) own3) (btStore b1)"
      "srLeftPage s \<notin> own" "srRightPage s \<notin> own" "srLeftPage s \<noteq> srRightPage s" "{srLeftPage s, srRightPage s} \<subseteq> insert (srOrphan s) own3"
      using M(1) z by (auto simp: split_leaf_def own3_def)
    have room1: "store_ok (btStore b1) (insert (srOrphan s) own3)" "used_ids (btStore b1) + 1 < 4294967294"
      using cow_step_refl [OF S(5)] M(2) room by (simp_all add: store_ok_def)
    obtain res5 pm5 where al: "AllocNodePage (btStore b1) = (res5, pm5)" by fastforce
    note N = new_root_page [OF room1 S(4,3), of "srRight s", unfolded al prod.case]
    have unt: "untouched ?bs own b'" if "own \<subseteq> own'" "cow_step (btStore b) own own' (btStore b')" "btRefs b' = btRefs ?bs" "btNextRef b' = btNextRef b"
        "btEpoch b' = None" "btClosed b' = btClosed b" "btSize b' = btSize b" for own' b'
      using that by (auto simp: untouched_def)
    have sub: "own \<subseteq> insert (srOrphan s) own3" using S(2) by blast
    show ?thesis
    proof (cases res5)
      case Ok5: (Ok pn)
      note N = N [unfolded Ok5 outcome.case]
      obtain res2 pm2 where ins: "InsertChild pn 0 (srKey s) (srLeft s) (srRight s) pm5 = (res2, pm2)" by fastforce
      note N = N [unfolded ins prod.case]
      have get: "GetNodePage pn (b1\<lparr>btStore := pm5\<rparr>) = Ok pn" using N by (simp add: GetNodePage_def)
      show ?thesis
      proof (cases res2)
        case Ok2: (Ok q)
        note N = N [unfolded Ok2 outcome.case]
        define ni where "ni = new_info q (piVersion (splitting b h) + 1) False NodeRoot"
        define cc where "cc = \<lparr>ccChildren = [n, Suc n], ccSeparators = [srKey s]\<rparr>"
        obtain b2 b3 where new: "NewPageRef (srLeft s) 0 (b1\<lparr>btStore := pm2\<rparr>) = (n, b2)" "NewPageRef (srRight s) 0 b2 = (Suc n, b3)"
          and b3: "btRefs b3 = btRefs b4" "btStore b3 = pm2" "btNextRef b3 = n + 2" "btEpoch b3 = None" "btClosed b3 = btClosed b"
          using b1s by (auto simp: b4_def half_leaves_def NewPageRef_def n_def FreePage_def with_store_def)
        define b5 where "b5 = set_children 0 (Some cc) (set_info 0 ni b3)"
        have "info_of b3 0 = splitting b h" using H(7) [OF h(2)] h(1) b1s(5) b3(1) by simp
        then have rr: "ReplaceRoot (splitting b h) ni (Some cc) b3 = (True, b5)" by (simp add: ReplaceRoot_def CAS_def b5_def)
        define b' where "b' = FreePage pn (FreePage (srOrphan s) (add_size (srDelta s) b5))"
        have run: "handleRootSplit (splitting b h) key mutate ?bs = (Ok (), b')"
          unfolding handleRootSplit_def marked_simps(10) sm Ok outcome.case prod.case al Ok5 get ins Ok2 Let_def new
          using rr b3(4) by (simp add: ni_def cc_def b'_def b5_def set_children_def set_info_def)
        have b': "btStore b' = freed pn (freed (srOrphan s) pm2)" "btNextRef b' = btNextRef b4" "btEpoch b' = None" "btClosed b' = btClosed b"
          "\<forall>x. x \<noteq> 0 \<longrightarrow> btRefs b' x = btRefs b4 x" "info_of b' 0 = ni" "prChildren (btRefs b' 0) = Some cc"
          using b3 H(8) by (simp_all add: b'_def b5_def FreePage_def with_store_def add_size_def set_children_def set_info_def)
        have sb4: "btStore b4 = freed (srOrphan s) (btStore b1)" by (simp add: b4_def half_leaves_def NewPageRef_def FreePage_def with_store_def)
        have q: "q \<notin> own3" "cow_step (btStore b4) own3 (insert q own3) (btStore b')" and qp: "q \<noteq> pn" "q \<noteq> srOrphan s"
          unfolding b' sb4 using root_store [of "btStore b1" "srOrphan s" own3 pn q pm2] N S(1) by auto
        have pq: "pmPages (btStore b') q = pmPages pm2 q" using qp by (simp add: b' pages_freed)
        have page: "index_ok (pmPages (btStore b') q)" "node_keys (pmPages (btStore b') q) = [srKey s]"
            "node_children (pmPages (btStore b') q) = [pid_of b4 (root_ref (Lf n)), pid_of b4 (root_ref (Lf (Suc n)))]"
          unfolding pq using N H(5,6) by simp_all
        have root: "prChildren (btRefs b' 0) = Some \<lparr>ccChildren = [root_ref (Lf n), root_ref (Lf (Suc n))], ccSeparators = [srKey s]\<rparr>"
            "piPageID (info_of b' 0) = q" "\<not> piIsLeaf (info_of b' 0)" "\<not> piRedirect (info_of b' 0)"
          unfolding b' by (simp_all add: cc_def ni_def new_info_def)
        have s0: "0 \<in> own3" "0 < btNextRef b4" using z S(2) H(8) by auto
        note T = pair_rooted [OF H(2) s0 q page b'(5,2,3) H(9) root]
        have x: "items b' (Nd 0 [Lf n, Lf (Suc n)]) = [] @ (entry_items (leaf_kvs (pmPages (btStore b1) (srLeft s))) @ (srKey s, None) #
            entry_items (leaf_kvs (pmPages (btStore b1) (srRight s)))) @ []"
          using T(2) H(14) by (simp only: append_Nil append_Nil2)
        have "tree_map b (Lf h) = map_of (item_entries [] @ ?kvs @ item_entries [])" by (simp add: tree_map_def)
        with split_leafD [OF M(1)] have "written key ?nv b (Lf h) b'" by (intro writtenI [OF T(1)]) (simp_all only: x b')
        moreover have "info_of b' h \<noteq> splitting b h" using b'(6) h(1) by (simp add: ni_def splitting_def new_info_def)
        ultimately show ?thesis unfolding run by simp
      next
        case (Err e)
        have run: "handleRootSplit (splitting b h) key mutate ?bs = (Err e, FreePage pn (b1\<lparr>btStore := pm2\<rparr>))"
          unfolding handleRootSplit_def marked_simps(10) sm Ok outcome.case prod.case al Ok5 get ins Err by simp
        have e: "cow_step (btStore b1) (insert (srOrphan s) own3) (insert pn (insert (srOrphan s) own3)) pm2" "pn \<notin> insert (srOrphan s) own3" "e \<in> {ErrOffHeapPageFull, ErrOffHeapOutOfMemory}"
          using N Err by auto
        have "cow_step (btStore b) own (insert (srOrphan s) own3) (freed pn pm2)"
          using free_step [OF cow_step_trans [OF S(5) e(1) sub]] e(2) sub by auto
        with unt [OF sub, of "FreePage pn (b1\<lparr>btStore := pm2\<rparr>)"] b1s e(3) show ?thesis unfolding run by (auto simp: FreePage_def with_store_def)
      qed (use N in simp)
    next
      case (Err e)
      have run: "handleRootSplit (splitting b h) key mutate ?bs = (Err e, FreePage (srRightPage s) (FreePage (srLeftPage s) (b1\<lparr>btStore := pm5\<rparr>)))"
        unfolding handleRootSplit_def marked_simps(10) sm Ok outcome.case prod.case al Err by simp
      let ?own = "insert (srOrphan s) own3 - {srLeftPage s, srRightPage s}"
      have e: "cow_step (btStore b1) (insert (srOrphan s) own3) (insert (srOrphan s) own3) pm5" "e = ErrOffHeapOutOfMemory" using N Err by auto
      have "insert (srRightPage s) (insert (srLeftPage s) ?own) = insert (srOrphan s) own3" using S(9) by blast
      then have "cow_step (btStore b) own (insert (srRightPage s) (insert (srLeftPage s) ?own)) pm5" using cow_step_trans [OF S(5) e(1) sub] by simp
      from free_pair [OF this S(6,7)] S(8) have "cow_step (btStore b) own ?own (freed (srRightPage s) (freed (srLeftPage s) pm5))" by auto
      with unt [of ?own "FreePage (srRightPage s) (FreePage (srLeftPage s) (b1\<lparr>btStore := pm5\<rparr>))"] sub S(6,7) b1s e(2) show ?thesis
        unfolding run by (auto simp: FreePage_def with_store_def)
    qed (use N in simp)
  next
    case (Err e)
    have b1: "b1 = ?bs\<lparr>btStore := btStore b1, btVars := btVars b1\<rparr>" using M Err by simp
    have "btNextRef b1 = btNextRef b" "btEpoch b1 = None" "btClosed b1 = btClosed b" "btSize b1 = btSize b" "btRefs b1 = btRefs ?bs"
      using ep by (subst b1; simp)+
    then show ?thesis using M Err sm by (auto simp: handleRootSplit_def untouched_def)
  qed (use M in simp)
qed

end

end
