(* ===== verification/BTree_Refine.thy ===== *)
theory BTree_Refine
  imports BTree_Leaf_Split
begin

text \<open>
  The write path refines a map update: under the invariant a write that succeeds changes the map of the tree
  at its key only, and a write that fails leaves it as it was. The operations of the tree and of the
  storage adapter are instances.
\<close>

section \<open>One turn of the write loop\<close>

text \<open>Page numbers that are left before the 32-bit counter wraps around: enough for a split of every level.\<close>

definition headroom :: "btree \<Rightarrow> bool" where
  "headroom b \<longleftrightarrow> used_ids (btStore b) + 3 * btNextRef b + 9 < 4294967294"

text \<open>The leaf a key belongs to is full.\<close>

definition leaf_full :: "bytes \<Rightarrow> btree \<Rightarrow> bool" where
  "leaf_full key b = (case searchPath key b of
     Ok path \<Rightarrow> leafIsFull (length key) 0 (page_of b (fst (last path))) | _ \<Rightarrow> False)"

abbreviation split_errs :: "err set" where
  "split_errs \<equiv> {ErrLeafSplitMinKeys, ErrOffHeapPageFull, ErrOffHeapOutOfMemory}"

lemma length_context: "length c \<le> length (crefs c)"
  by (induction c rule: crefs.induct) auto

context leaf_mutator
begin

lemma doSplit_result:
  assumes inv: "tree_inv b own (plug c (Lf h))" and fit: "fits key (cleft b c) (cright b c)"
    and room: "used_ids (btStore b) + (3 * length c + 9) < 4294967294" and path: "path = cpath c @ [(h, - 1)]"
    and allow: "allowed (btVars b)" and copy: "copies mutate key (btVars b) (map_of (leaf_kvs (page_of b h)) key)" and h: "h < btNextRef b"
  shows "case doSplitWithSplitting h (splitting b h) (info_of b h) path key mutate (marked h b) of
      (Ok u, b') \<Rightarrow> written key (new (btVars b)) b (plug c (Lf h)) b'
    | (Err e, b') \<Rightarrow> untouched b own b' \<and> e \<in> errs \<union> split_errs
    | (Panic, b') \<Rightarrow> False"
proof -
  let ?run = "if length path < 2 then handleRootSplit (splitting b h) key mutate (marked h b)
    else handleLeafSplit h (splitting b h) path key mutate (marked h b)"
  have "case ?run of
      (Ok u, b') \<Rightarrow> written key (new (btVars b)) b (plug c (Lf h)) b' \<and> info_of b' h \<noteq> splitting b h
    | (Err e, b') \<Rightarrow> untouched (marked h b) own b' \<and> e \<in> errs \<union> split_errs
    | (Panic, b') \<Rightarrow> False"
  proof (cases c)
    case Nil
    show ?thesis using handleRootSplit_result [of b own h] inv room allow copy path unfolding Nil plug.simps by simp
  next
    case (Cons f c')
    obtain g ls rs where f: "f = (g, ls, rs)" by (cases f)
    have "\<not> length path < 2" using path Cons by simp
    moreover have "used_ids (btStore b) + (3 * length c' + 9) < 4294967294" using room Cons by simp
    ultimately show ?thesis unfolding Cons f
      using handleLeafSplit_result [OF inv [unfolded Cons f] fit [unfolded Cons f] _ path [unfolded Cons f] allow copy] by (simp only: if_False)
  qed
  moreover obtain res b1 where run: "?run = (res, b1)" by fastforce
  ultimately have R: "case (res, b1) of
      (Ok u, b') \<Rightarrow> written key (new (btVars b)) b (plug c (Lf h)) b' \<and> info_of b' h \<noteq> splitting b h
    | (Err e, b') \<Rightarrow> untouched (marked h b) own b' \<and> e \<in> errs \<union> split_errs
    | (Panic, b') \<Rightarrow> False" by (simp only:)
  show ?thesis
  proof (cases res)
    case (Err e)
    then have u: "untouched (marked h b) own b1" using R by simp
    then have "info_of b1 h = splitting b h" using h by (simp add: untouched_def)
    moreover have "untouched b own (set_info h (info_of b h) b1)"
      using u by (auto simp: untouched_def set_info_def marked_def)
    ultimately show ?thesis unfolding doSplitWithSplitting_def run using R Err by (simp add: CAS_def)
  qed (use R run in \<open>simp_all add: doSplitWithSplitting_def\<close>)
qed

text \<open>The two ways of writing without a split.\<close>

lemma in_place_result:
  assumes inv: "tree_inv b own (plug c (Lf h))" and fit: "fits key (cleft b c) (cright b c)"
    and place: "in_place_of key (new (btVars b)) (page_of b h) m" and allow: "allowed (btVars b)"
  shows "written key (new (btVars b)) b (plug c (Lf h))
    (finish_in_place h (info_of b h) m (set_info h (new_info (piPageID (info_of b h)) (piVersion (info_of b h) + 1) True NodeInplaceUpdate) (b\<lparr>btVars := vs\<rparr>)))"
    (is "written _ _ _ ?t ?b'")
proof -
  let ?p = "piPageID (info_of b h)"
  define fin where "fin = new_info ?p (piVersion (info_of b h) + 2) True NodeNormal"
  have moved: "leaf_moved h fin b ?b'"
    by (auto simp: leaf_moved_def finish_in_place_def Let_def add_size_def CAS_def set_info_def with_store_def fin_def)
  have store: "btStore ?b' = bumped (lmTombstoneDelta m) ?p
      (with_page ?p (\<lambda>pg. snd (OverwriteLeafValue (lmInPlaceIdx m) (lmInPlaceValue m) pg)) (btStore b))"
    by (auto simp: finish_in_place_def Let_def add_size_def CAS_def set_info_def with_store_def bumped_def)
  have fin: "piPageID fin = ?p" "piIsLeaf fin" "\<not> piRedirect fin" "\<not> IsBusy fin" by (simp_all add: fin_def new_info_def IsBusy_def)
  have "tree_inv ?b' own ?t \<and> tree_map ?b' ?t = (tree_map b ?t)(key := new (btVars b))"
    using new_parses [OF allow] by (intro overwritten_in_place [OF inv fit place moved fin store])
  moreover have "btClosed ?b' = btClosed b" using moved by (simp add: leaf_moved_def)
  ultimately show ?thesis unfolding written_def by blast
qed

lemma publish_result:
  assumes inv: "tree_inv b own (plug c (Lf h))" and fit: "fits key (cleft b c) (cright b c)"
    and fresh: "fresh_leaf (btStore b) own (lmNewPageID m) pm" and allow: "allowed (btVars b)"
    and map: "map_of (leaf_kvs (pmPages pm (lmNewPageID m))) = (map_of (leaf_kvs (page_of b h)))(key := new (btVars b))"
  shows "\<exists>b'. publish_copy sl sr h (info_of b h) path m (b\<lparr>btStore := pm, btVars := vs\<rparr>) = (Return (Ok ()), b') \<and>
    written key (new (btVars b)) b (plug c (Lf h)) b'"
proof -
  let ?q = "lmNewPageID m" and ?t = "plug c (Lf h)"
  define fin where "fin = new_info ?q (piVersion (info_of b h) + 1) True NodeNormal"
  define b' where "b' = add_size (lmDelta m) (set_info h fin (b\<lparr>btStore := bumped (lmTombstoneDelta m) ?q pm, btVars := vs\<rparr>))"
  have ep: "btEpoch b = None" using inv by (simp add: tree_inv_def tree_ok_def)
  have run: "publish_copy sl sr h (info_of b h) path m (b\<lparr>btStore := pm, btVars := vs\<rparr>) = (Return (Ok ()), b')"
    using ep by (simp add: publish_copy_def Let_def CAS_def maybeMergeAfterWrite_def retire_in_def b'_def bumped_def fin_def with_store_def set_info_def add_size_def)
  have moved: "leaf_moved h fin b b'" by (simp add: leaf_moved_def b'_def add_size_def set_info_def)
  have st: "fresh_leaf (btStore b) own ?q (btStore b')" using fresh_leaf_bumped [OF fresh] by (simp add: b'_def add_size_def set_info_def)
  have fin: "piPageID fin = ?q" "piIsLeaf fin" "\<not> piRedirect fin" "\<not> IsBusy fin" by (simp_all add: fin_def new_info_def IsBusy_def)
  have m: "map_of (leaf_kvs (pmPages (btStore b') ?q)) = (map_of (leaf_kvs (page_of b h)))(key := new (btVars b))"
    using map by (simp add: b'_def add_size_def set_info_def)
  have "tree_inv b' (insert ?q own) ?t \<and> tree_map b' ?t = (tree_map b ?t)(key := new (btVars b))"
    using new_parses [OF allow] by (intro copy_published [OF inv fit st moved fin m])
  moreover have "btClosed b' = btClosed b" using moved by (simp add: leaf_moved_def)
  ultimately show ?thesis using run unfolding written_def by blast
qed

lemma write_turn_result:
  assumes inv: "tree_inv b own t" and room: "headroom b" and allow: "allowed (btVars b)"
    and copy: "leaf_full key b \<Longrightarrow> copies mutate key (btVars b) (tree_map b t key)"
  shows "\<exists>r b'. write_turn sl sr key mutate b = (Return r, b') \<and> (case r of
      Ok u \<Rightarrow> written key (new (btVars b)) b t b'
    | Err e \<Rightarrow> untouched b own b' \<and> e \<in> errs \<union> split_errs
    | Panic \<Rightarrow> False)"
proof -
  from inv obtain c h where t: "t = plug c (Lf h)" and path: "searchPath key b = Ok (cpath c @ [(h, - 1)])" and fit: "fits key (cleft b c) (cright b c)"
    by (rule searchPath_route)
  have inv': "tree_inv b own (plug c (Lf h))" using inv t by simp
  have ok: "tree_ok b own (plug c (Lf h))" using inv' by (simp add: tree_inv_def)
  have leaf: "leaf_at b h" "crep b c h" using leaf_of_tree [OF ok] by blast+
  let ?i = "info_of b h" and ?pg = "page_of b h"
  have free: "piNodeState ?i = NodeNormal \<or> piNodeState ?i = NodeRoot" "\<not> piRedirect ?i" "piIsLeaf ?i" "sorted_leaf ?pg"
    using leaf(1) by (auto simp: leaf_at_def IsBusy_def)
  have get: "GetLeafPage (piPageID ?i) b = Ok (piPageID ?i)" using free(4) by (simp add: GetLeafPage_def sorted_leaf_def leaf_ok_def)
  have held: "held b own (set (trefs (plug c (Lf h))))" and st: "cow_step (btStore b) own own (btStore b)" and ep: "btEpoch b = None" using ok by (simp_all add: tree_ok_def)
  have hb: "h < btNextRef b" "piPageID ?i \<in> own" using heldD [OF held, of h] info_in_ids [of b h] by (auto simp: set_trefs_plug)
  have len: "length c \<le> btNextRef b"
  proof -
    have "distinct (crefs c @ trefs (Lf h))" using ok by (simp add: tree_ok_def distinct_trefs_plug)
    then have "length (crefs c) = card (set (crefs c))" by (simp add: distinct_card)
    also have "\<dots> \<le> card {..<btNextRef b}" using held by (intro card_mono) (auto simp: held_def set_trefs_plug)
    finally show ?thesis using length_context [of c] by simp
  qed
  have map: "tree_map b t key = map_of (leaf_kvs ?pg) key" unfolding t tree_map_split [OF leaf(2)] by (rule fits_lookup [OF fit])
  have full: "leaf_full key b = leafIsFull (length key) 0 ?pg" using path by (simp add: leaf_full_def)
  show ?thesis
  proof (cases "leafIsFull (length key) 0 ?pg")
    case True
    have room': "used_ids (btStore b) + (3 * length c + 9) < 4294967294" using room len by (simp add: headroom_def)
    have copy': "copies mutate key (btVars b) (map_of (leaf_kvs ?pg) key)" using copy full True map by simp
    obtain res b1 where run: "doSplitWithSplitting h (splitting b h) ?i (cpath c @ [(h, - 1)]) key mutate (marked h b) = (res, b1)" by fastforce
    note D = doSplit_result [OF inv' fit room' refl allow copy' hb(1), unfolded run prod.case]
    have turn: "write_turn sl sr key mutate b = (case res of
        Err e \<Rightarrow> (if e = ErrCASConflict \<or> e = ErrRetry then Continue sr else Return (Err e), b1) | _ \<Rightarrow> (Return res, b1))"
      using path free get True run by (auto simp: write_turn_def Let_def CAS_def splitting_def marked_def split: outcome.split)
    show ?thesis
    proof (cases res)
      case (Err e)
      then have "e \<noteq> ErrCASConflict" "e \<noteq> ErrRetry" using D final_errs by auto
      then show ?thesis using turn D Err by simp
    qed (use turn D in \<open>simp_all add: t\<close>)
  next
    case False
    obtain res pm vs where mu: "mutate (piPageID ?i) (btStore b) (btVars b) = (res, pm, vs)" using prod_cases3 by blast
    have room2: "roomy 2 own (btStore b)" using st room by (simp add: roomy_def headroom_def)
    have pars: "parsable ?pg"
      using inv' items_plug [of b c "Lf h"] leaf(2) by (auto simp: tree_inv_def items_ok_def parsable_def)
    note M = mutate [OF allow room2 hb(2) free(4) pars, unfolded mu prod.case]
    have turn: "write_turn sl sr key mutate b = (case res of
        Ok m \<Rightarrow> (if lmInPlace m then (Return (Ok ()), finish_in_place h ?i m
              (set_info h (new_info (piPageID ?i) (piVersion ?i + 1) True NodeInplaceUpdate) (b\<lparr>btStore := pm, btVars := vs\<rparr>)))
            else publish_copy sl sr h ?i (cpath c @ [(h, - 1)]) m (b\<lparr>btStore := pm, btVars := vs\<rparr>))
      | Err e \<Rightarrow> (Return (Err e), b\<lparr>btStore := pm, btVars := vs\<rparr>)
      | Panic \<Rightarrow> (Return Panic, b\<lparr>btStore := pm, btVars := vs\<rparr>))"
      using path free get False mu by (auto simp: write_turn_def Let_def CAS_def split: outcome.split)
    show ?thesis
    proof (cases res)
      case (Ok m)
      show ?thesis
      proof (cases "lmInPlace m")
        case True
        then have "pm = btStore b" "in_place_of key (new (btVars b)) ?pg m" using M Ok by simp_all
        then show ?thesis using turn Ok True in_place_result [OF inv' fit _ allow, of m vs] by (simp add: t)
      next
        case False
        then have "fresh_leaf (btStore b) own (lmNewPageID m) pm"
          "map_of (leaf_kvs (pmPages pm (lmNewPageID m))) = (map_of (leaf_kvs ?pg))(key := new (btVars b))" using M Ok by simp_all
        from publish_result [OF inv' fit this(1) allow this(2), of sl sr "cpath c @ [(h, - 1)]" vs] obtain b' where
          "write_turn sl sr key mutate b = (Return (Ok ()), b')" "written key (new (btVars b)) b t b'" using turn Ok False by (auto simp: t)
        then show ?thesis by force
      qed
    next
      case (Err e)
      then have "untouched b own (b\<lparr>btStore := pm, btVars := vs\<rparr>)" using M ep by (auto simp: untouched_def)
      then show ?thesis using turn Err M by simp
    qed (use M in simp)
  qed
qed

lemma writeOperation_result:
  assumes inv: "tree_inv b own t" and room: "headroom b" and allow: "allowed (btVars b)" and retries: "0 < retries"
    and copy: "leaf_full key b \<Longrightarrow> copies mutate key (btVars b) (tree_map b t key)"
  shows "case writeOperation key mutate retries b of
      (Ok u, b') \<Rightarrow> written key (new (btVars b)) b t b'
    | (Err e, b') \<Rightarrow> untouched b own b' \<and> e \<in> errs \<union> split_errs
    | (Panic, b') \<Rightarrow> False"
proof -
  obtain n where n: "retries = Suc n" using retries by (cases retries) auto
  have "alloc_slot b = (0, b)" using inv by (simp add: alloc_slot_def tree_inv_def tree_ok_def)
  moreover obtain r b' where w: "write_turn 0 0 key mutate b = (Return r, b')" "case r of
      Ok u \<Rightarrow> written key (new (btVars b)) b t b' | Err e \<Rightarrow> untouched b own b' \<and> e \<in> errs \<union> split_errs | Panic \<Rightarrow> False"
    using write_turn_result [OF inv room allow copy, of 0 0] by auto
  ultimately have "writeOperation key mutate retries b = (r, b')" by (simp add: writeOperation_def n)
  with w(2) show ?thesis by (simp split: outcome.splits)
qed

end

section \<open>The tree as a map\<close>

text \<open>The abstraction: a tree stands for a map from keys to encoded values.\<close>

definition stands_for :: "btree \<Rightarrow> (bytes \<Rightarrow> gslice) \<Rightarrow> bool" where
  "stands_for b m \<longleftrightarrow> (\<exists>own t. tree_inv b own t \<and> tree_map b t = m)"

lemma stands_for_written: "written key nv b t b' \<Longrightarrow> tree_map b t = m \<Longrightarrow> stands_for b' (m(key := nv)) \<and> btClosed b' = btClosed b"
  unfolding written_def stands_for_def by blast

lemma stands_for_untouched:
  assumes "tree_inv b own t" "untouched b own b'"
  shows "stands_for b' (tree_map b t) \<and> btClosed b' = btClosed b"
proof -
  have ok: "tree_ok b own t" using assms(1) by (simp add: tree_inv_def)
  from untouched_tree [OF ok assms(2)] obtain own' where "tree_ok b' own' t" "items b' t = items b t" by blast
  then have "tree_inv b' own' t \<and> tree_map b' t = tree_map b t" using assms(1) by (simp add: tree_inv_def tree_map_def)
  then show ?thesis using assms(2) unfolding stands_for_def untouched_def by blast
qed

context leaf_mutator
begin

lemma write_refines:
  assumes "stands_for b m" "headroom b" "allowed (btVars b)" "0 < retries" "leaf_full key b \<Longrightarrow> copies mutate key (btVars b) (m key)"
  shows "case writeOperation key mutate retries b of
      (Ok u, b') \<Rightarrow> stands_for b' (m(key := new (btVars b))) \<and> btClosed b' = btClosed b
    | (Err e, b') \<Rightarrow> stands_for b' m \<and> btClosed b' = btClosed b \<and> e \<in> errs \<union> split_errs
    | (Panic, b') \<Rightarrow> False"
proof -
  from assms(1) obtain own t where inv: "tree_inv b own t" and m: "tree_map b t = m" by (auto simp: stands_for_def)
  obtain r b' where w: "writeOperation key mutate retries b = (r, b')" by fastforce
  have "case (r, b') of (Ok u, b') \<Rightarrow> written key (new (btVars b)) b t b'
    | (Err e, b') \<Rightarrow> untouched b own b' \<and> e \<in> errs \<union> split_errs | (Panic, b') \<Rightarrow> False"
    using writeOperation_result [OF inv assms(2-4)] assms(5) unfolding w m by blast
  with stands_for_written [OF _ m] stands_for_untouched [OF inv] m w show ?thesis by (cases r) auto
qed

end

end
