(* ===== verification/BTree_Store.thy ===== *)
theory BTree_Store
  imports BTree_Refine
begin

text \<open>
  The operations of the tree and of the storage adapter as operations on a map: what they return and the
  map the tree stands for afterwards, on every branch.
\<close>

section \<open>A new tree\<close>

lemma new_manager:
  assumes "NewPageManager mmapSize True mem = Ok pm0" "\<forall>p. length (pageBytes (mem p)) = 4096"
  shows "store_ok pm0 {}"
proof -
  have "pm_ok pm0 {}" "nextPageID pm0 = 0"
    using assms(1) by (auto simp: NewPageManager_def Let_def pm_ok_def NewLockFreeQueue_def split: if_splits)
  moreover have "length (pageBytes (pmPages pm0 x)) = 4096" for x
    using assms by (auto simp: NewPageManager_def Let_def preTouchPages_def zero_page_def split: if_splits)
  ultimately show ?thesis by (simp add: store_ok_def cow_step_def)
qed

lemma new_tree:
  assumes "NewPageManager mmapSize True mem = Ok pm0" "\<forall>p. length (pageBytes (mem p)) = 4096"
  shows "case NewBTree False pm0 of
      (Ok b, pm') \<Rightarrow> stands_for b Map.empty \<and> \<not> btClosed b \<and> headroom b \<and> btSize b = 0 \<and> btVars b = \<lparr>mvTS = 0, mvOffset = 0\<rparr>
    | (Err e, pm') \<Rightarrow> e = ErrOffHeapOutOfMemory \<and> mmapSize < 4096
    | (Panic, pm') \<Rightarrow> False"
proof -
  note ok = new_manager [OF assms]
  obtain res pm1 where al: "pageAlloc pm0 = (res, pm1)" by fastforce
  note A = store_ok_alloc [OF ok, unfolded al]
  have pm0: "freeList pm0 = []" "nextPageID pm0 = 0" "pmTotal pm0 = of_int (mmapSize div 4096)" "0 < mmapSize" "mmapSize div 4096 \<le> 4294967295"
    using assms(1) by (auto simp: NewPageManager_def Let_def NewLockFreeQueue_def split: if_splits)
  show ?thesis
  proof (cases res)
    case (Ok p)
    then have p: "p = 0" using al pm0 by (auto simp: pageAlloc_def Let_def split: if_splits)
    have st: "cow_step pm0 {} {0} pm1" using A Ok p by simp
    define pm where "pm = with_page 0 (InitLeafPage 1) pm1"
    define b where "b = \<lparr>btRefs = (\<lambda>_. NewRootPageRef 0 1), btNextRef = 1, btStore = pm, btSize = 0, btClosed = False,
        btVars = \<lparr>mvTS = 0, mvOffset = 0\<rparr>, btEpoch = None\<rparr>"
    have run: "NewBTree False pm0 = (Ok b, pm)" using al Ok p by (simp add: NewBTree_def AllocLeafPage_def b_def pm_def)
    have len: "length (pageBytes (pmPages pm1 0)) = 4096" using st by (simp add: cow_step_def)
    note I = leaf_init [OF len, of 1]
    have pg: "pmPages pm 0 = InitLeafPage 1 (pmPages pm1 0)" by (simp add: pm_def with_page_def)
    have "cow_step pm0 {} {0} pm" unfolding pm_def using len by (intro write_step [OF st]) (simp_all add: InitLeafPage_def InitPage_def)
    from cow_step_refl [OF this] have s: "cow_step pm {0} {0} pm" .
    have i: "info_of b 0 = new_info 0 1 True NodeRoot" by (simp add: b_def NewRootPageRef_def)
    have "leaf_at b 0" using I pg unfolding leaf_at_def i by (simp add: b_def new_info_def IsBusy_def sorted_leaf_def)
    then have "tree_ok b {0} (Lf 0)" using s i by (simp add: tree_ok_def held_def ids_of_def) (simp add: b_def new_info_def)
    moreover have "items b (Lf 0) = []" using I pg i by (simp add: b_def new_info_def)
    ultimately have "tree_inv b {0} (Lf 0)" "tree_map b (Lf 0) = Map.empty" by (simp_all add: tree_inv_def items_ok_def tree_map_def)
    then have "stands_for b Map.empty" by (auto simp: stands_for_def)
    moreover have "used_ids pm \<le> 1" using next_alloc [OF al] pm0(2) by (simp add: pm_def)
    ultimately show ?thesis unfolding run by (simp add: b_def headroom_def)
  next
    case (Err e)
    then have "pmTotal pm0 \<le> 0" using al pm0 by (auto simp: pageAlloc_def Let_def split: if_splits)
    then have "(of_int (mmapSize div 4096) :: u32) = 0" using pm0(3) by simp
    then have "uint (word_of_int (mmapSize div 4096) :: u32) = 0" by simp
    then have "mmapSize div 4096 mod 4294967296 = 0" by (simp only: uint_word_of_int) simp
    then have "mmapSize div 4096 = 0" using pm0(4,5) by simp
    then have "mmapSize < 4096" using pm0(4) by simp
    then show ?thesis using Err al A by (simp add: NewBTree_def AllocLeafPage_def)
  qed (use A in simp)
qed

section \<open>Reads\<close>

lemma plug_is_node: "\<exists>r ts. plug c (Nd x us) = Nd r ts"
  by (induction c arbitrary: x us) auto

lemma raw_reads: "stands_for b m \<Longrightarrow> \<not> btClosed b \<Longrightarrow> getRawBytes key b = (case m key of None \<Rightarrow> Err ErrKeyNotFound | Some v \<Rightarrow> Ok v)"
  unfolding stands_for_def using getRawBytes_map by blast

lemma get_batch_raw_map: "stands_for b m \<Longrightarrow> \<not> btClosed b \<Longrightarrow> get_batch_raw keys b = Ok (map m keys)"
  by (induction keys) (auto simp: raw_reads split: option.split)

lemma batch_in_leaf_map:
  assumes "sorted_leaf pg" "\<And>v. v \<in> ran (map_of (leaf_kvs pg)) \<Longrightarrow> conv v \<noteq> Panic" "\<And>v e. conv v \<noteq> Err e"
  shows "batch_in_leaf conv keys pg = Ok (map (\<lambda>k. case map_of (leaf_kvs pg) k of None \<Rightarrow> None | Some v \<Rightarrow> (case conv v of Ok r \<Rightarrow> r | _ \<Rightarrow> None)) keys)"
proof (induction keys)
  case (Cons k keys)
  obtain i found where s: "leafSearch k pg = (i, found)" by fastforce
  note l = leafSearch_value [OF assms(1) s]
  show ?case
  proof (cases found)
    case True
    then have v: "map_of (leaf_kvs pg) k = Some (leaf_value i pg)" using l(2) by simp
    then have "conv (leaf_value i pg) \<noteq> Panic" by (intro assms(2)) (auto simp: ran_def)
    then obtain r where "conv (leaf_value i pg) = Ok r" using assms(3) by (cases "conv (leaf_value i pg)") auto
    then show ?thesis using Cons s True v by simp
  next
    case False
    then have "map_of (leaf_kvs pg) k = None" using l(1) by (simp add: map_of_eq_None_iff)
    then show ?thesis using Cons s False by simp
  qed
qed simp

text \<open>With a leaf as root every key is looked up there.\<close>

lemma root_leaf_batch_map:
  assumes "stands_for b m" "piIsLeaf (info_of b 0)" "keys \<noteq> []"
    "\<And>v. v \<in> ran m \<Longrightarrow> conv v \<noteq> Panic" "\<And>v e. conv v \<noteq> Err e"
  shows "root_leaf_batch conv keys b = Ok (map (\<lambda>k. case m k of None \<Rightarrow> None | Some v \<Rightarrow> (case conv v of Ok r \<Rightarrow> r | _ \<Rightarrow> None)) keys)"
proof -
  from assms(1) obtain own t where inv: "tree_inv b own t" and m: "tree_map b t = m" by (auto simp: stands_for_def)
  then have "rep b t" "root_ref t = 0" by (simp_all add: tree_inv_def tree_ok_def)
  then have t: "t = Lf 0" using assms(2) by (cases t) (auto simp: node_at_def)
  have leaf: "leaf_at b 0" "m = map_of (leaf_kvs (page_of b 0))" using inv m by (simp_all add: t tree_inv_def tree_ok_def tree_map_def)
  from inv obtain c h where "t = plug c (Lf h)" and path: "searchPath (hd (sort keys)) b = Ok (cpath c @ [(h, - 1)])" by (rule searchPath_route)
  moreover have "c = [] \<and> h = 0"
  proof (cases c)
    case (Cons f c')
    then have "\<exists>r ts. plug c (Lf h) = Nd r ts" by (cases f) (metis plug.simps(2) plug_is_node)
    then show ?thesis using \<open>t = plug c (Lf h)\<close> t by auto
  qed (use \<open>t = plug c (Lf h)\<close> t in simp)
  ultimately have "root_leaf_batch conv keys b = batch_in_leaf conv keys (page_of b 0)"
    using leaf_is_leaf [OF leaf(1)] by (simp add: root_leaf_batch_def GetLeafPage_def)
  moreover have "sorted_leaf (page_of b 0)" using leaf(1) by (simp add: leaf_at_def)
  ultimately show ?thesis using batch_in_leaf_map [of "page_of b 0" conv keys] assms(4,5) leaf(2) by simp
qed

lemma batch_reads:
  assumes "stands_for b m" "\<not> btClosed b"
  shows "getBatchRawBytes keys b = Ok (map m keys)"
proof (cases "keys = [] \<or> \<not> piIsLeaf (info_of b 0)")
  case True
  then show ?thesis using assms get_batch_raw_map by (auto simp: getBatchRawBytes_def)
next
  case False
  moreover have "map (\<lambda>k. case m k of None \<Rightarrow> None | Some v \<Rightarrow> (case Ok (Some v) of Ok r \<Rightarrow> r | _ \<Rightarrow> None)) keys = map m keys"
    by (auto split: option.split)
  ultimately show ?thesis using assms root_leaf_batch_map [OF assms(1), of keys "\<lambda>v. Ok (Some v)"] by (simp add: getBatchRawBytes_def)
qed

section \<open>Writes\<close>

lemma adapter_set_copies: "copies (adapter_set_mutation key val) key vs old"
  unfolding copies_def adapter_set_mutation_def cow_result_def by (auto split: prod.splits if_splits outcome.splits)

lemma adapter_delete_copies: "copies (adapter_delete_mutation key) key vs old"
  unfolding copies_def adapter_delete_mutation_def cow_result_def by (auto split: prod.splits if_splits outcome.splits)

lemma tree_delete_copies: "copies (delete_mutation key) key vs old"
  unfolding copies_def delete_mutation_def cow_result_def by (auto split: prod.splits if_splits outcome.splits)

text \<open>A value longer than the stored one is never written in place.\<close>

lemma tree_set_copies:
  assumes "mvTS vs + 1 \<noteq> 0" "\<And>v. old = Some v \<Longrightarrow> length v < 20 + length val"
  shows "copies (set_mutation key val) key vs old"
  unfolding copies_def
proof (intro allI impI)
  fix p pm m pm' vs'
  assume run: "set_mutation key val p pm vs = (Ok m, pm', vs')" and srt: "sorted_leaf (pmPages pm p)" and old: "map_of (leaf_kvs (pmPages pm p)) key = old"
  obtain i found where s: "leafSearch key (pmPages pm p) = (i, found)" by fastforce
  note l = leafSearch_value [OF srt s] and b = build_next_ok [OF assms(1), of FlagNormal val, simplified]
  show "\<not> lmInPlace m"
  proof (cases found)
    case True
    have i: "i < GetCount (pmPages pm p)" "old = Some (leaf_value i (pmPages pm p))" using l(2) [OF True] old by simp_all
    have "leaf_entry_at i (pmPages pm p) \<in> set (leaf_entries (pmPages pm p))" using i(1) by (simp add: leaf_entries_def)
    with leaf_kv_lengths(2) srt have "length (leaf_value i (pmPages pm p)) = unat (leValLen (leaf_entry_at i (pmPages pm p)))"
      by (simp add: leaf_value_def sorted_leaf_def)
    then have "\<not> TryInPlace i (next_value FlagNormal val vs) (pmPages pm p)" using assms(2) [OF i(2)] b(2) by (simp add: TryInPlace_def)
    with run s True b(1) show ?thesis
      by (auto simp: set_mutation_def mutateUpdate_def cow_result_def Let_def split: outcome.splits prod.splits)
  next
    case False
    with run s b(1) show ?thesis by (auto simp: set_mutation_def mutateInsert_def cow_result_def split: outcome.splits prod.splits)
  qed
qed

lemma adapterSet_result:
  assumes "stands_for b m" "\<not> btClosed b" "headroom b" "ParseMVCC val \<noteq> Panic" "length key + length val < 2147483648"
  shows "case adapterSet key val b of
      (Ok u, b') \<Rightarrow> stands_for b' (m(key \<mapsto> val)) \<and> \<not> btClosed b'
    | (Err e, b') \<Rightarrow> stands_for b' m \<and> \<not> btClosed b' \<and> e \<in> {ErrLeafSplitMinKeys, ErrOffHeapPageFull, ErrOffHeapOutOfMemory}
    | (Panic, b') \<Rightarrow> False"
  using adapter_set.write_refines [where key = key and val = val and retries = MaxCASRetries, OF assms(1,3)] adapter_set_copies assms(2,4,5)
  by (auto simp: adapterSet_def tree_open_def MaxCASRetries_def split: prod.splits outcome.splits)

lemma adapterDelete_result:
  assumes "stands_for b m" "\<not> btClosed b" "headroom b"
  shows "case adapterDelete key b of
      (Ok u, b') \<Rightarrow> stands_for b' (m(key := None)) \<and> \<not> btClosed b'
    | (Err e, b') \<Rightarrow> stands_for b' m \<and> \<not> btClosed b' \<and> e \<in> {ErrKeyNotFound, ErrLeafSplitMinKeys, ErrOffHeapPageFull, ErrOffHeapOutOfMemory}
    | (Panic, b') \<Rightarrow> False"
  using adapter_delete.write_refines [where key = key and retries = MaxCASRetries, OF assms(1,3)] adapter_delete_copies assms(2)
  by (auto simp: adapterDelete_def tree_open_def MaxCASRetries_def split: prod.splits outcome.splits)

definition tree_errs :: "err set" where
  "tree_errs = {ErrLeafSplitMinKeys, ErrOffHeapPageFull, ErrOffHeapOutOfMemory, ErrValueTooShort, ErrInvalidFlag}"

lemma treeSet_result:
  assumes "stands_for b m" "\<not> btClosed b" "headroom b" "mvTS (btVars b) + 1 \<noteq> 0" "length key + length val < 2147483628"
    "\<And>v. leaf_full key b \<Longrightarrow> m key = Some v \<Longrightarrow> length v < 20 + length val"
  shows "case treeSet key val b of
      (Ok u, b') \<Rightarrow> stands_for b' (m(key \<mapsto> next_value FlagNormal val (btVars b))) \<and> \<not> btClosed b'
    | (Err e, b') \<Rightarrow> stands_for b' m \<and> \<not> btClosed b' \<and> e \<in> tree_errs
    | (Panic, b') \<Rightarrow> False"
  using tree_set.write_refines [where key = key and val = val and retries = MaxCASRetries, OF assms(1,3)] tree_set_copies [OF assms(4,6)] assms(2,4,5)
  by (auto simp: treeSet_def tree_open_def MaxCASRetries_def tree_errs_def split: prod.splits outcome.splits)

lemma treeDelete_result:
  assumes "stands_for b m" "\<not> btClosed b" "headroom b" "mvTS (btVars b) + 1 \<noteq> 0" "length key < 2147483628"
  shows "case treeDelete key b of
      (Ok u, b') \<Rightarrow> stands_for b' (m(key \<mapsto> next_value FlagTombstone [] (btVars b))) \<and> \<not> btClosed b'
    | (Err e, b') \<Rightarrow> stands_for b' m \<and> \<not> btClosed b' \<and> e \<in> insert ErrKeyNotFound tree_errs
    | (Panic, b') \<Rightarrow> False"
  using tree_delete.write_refines [where key = key and retries = MaxCASRetries, OF assms(1,3)] tree_delete_copies assms(2,4,5)
  by (auto simp: treeDelete_def tree_open_def MaxCASRetries_def tree_errs_def split: prod.splits outcome.splits)

end
