(* ===== verification/BTree_Contract.thy ===== *)
theory BTree_Contract
  imports BTree_Store
begin

text \<open>
  What the tree and the storage adapter promise their clients, stated on the operations alone: the shape of a
  search path, the room of a page, reads after writes, and where a batch breaks the promise.
\<close>

section \<open>A concrete tree\<close>

definition example_store :: page_manager where
  "example_store = (case NewPageManager 40960 True (\<lambda>_. zero_page) of Ok pm \<Rightarrow> pm)"

definition example_tree :: btree where
  "example_tree = (case fst (NewBTree False example_store) of Ok b \<Rightarrow> b)"

lemma example_store_new: "NewPageManager 40960 True (\<lambda>_. zero_page) = Ok example_store"
  by (simp add: example_store_def NewPageManager_def Let_def)

lemma example_tree_facts:
  "stands_for example_tree Map.empty" "\<not> btClosed example_tree" "headroom example_tree" "btVars example_tree = \<lparr>mvTS = 0, mvOffset = 0\<rparr>"
proof -
  obtain res pm where run: "NewBTree False example_store = (res, pm)" by fastforce
  have z: "\<forall>p::u32. length (pageBytes zero_page) = 4096" by (simp add: zero_page_def)
  have n: "case NewBTree False example_store of
      (Ok b, pm') \<Rightarrow> stands_for b Map.empty \<and> \<not> btClosed b \<and> headroom b \<and> btSize b = 0 \<and> btVars b = \<lparr>mvTS = 0, mvOffset = 0\<rparr>
    | (Err e, pm') \<Rightarrow> e = ErrOffHeapOutOfMemory \<and> (40960::int) < 4096
    | (Panic, pm') \<Rightarrow> False"
    using new_tree [OF example_store_new z] .
  then obtain b where b: "res = Ok b" by (cases res) (simp_all add: run)
  then have "example_tree = b" by (simp add: example_tree_def run)
  with n show "stands_for example_tree Map.empty" "\<not> btClosed example_tree" "headroom example_tree" "btVars example_tree = \<lparr>mvTS = 0, mvOffset = 0\<rparr>"
    by (simp_all add: run b)
qed

lemmas example_tree_eval = example_tree_def example_store_def NewPageManager_def NewBTree_def AllocLeafPage_def pageAlloc_def Let_def
  NewLockFreeQueue_def NewRootPageRef_def new_info_def with_page_def

lemma example_tree_path: "searchPath key example_tree = Ok [(0, - 1)]"
  by (simp add: example_tree_eval searchPath_def)

lemma parse_empty: "ParseMVCC [] = Err ErrValueTooShort"
  by (simp add: ParseMVCC_def MVCCHeaderSize_def)

section \<open>Paths and pages\<close>

lemma cpath_typed:
  "crep b c h \<Longrightarrow> (r, i) \<in> set (cpath c) \<Longrightarrow> \<not> piIsLeaf (info_of b r) \<and> GetNodePage (piPageID (info_of b r)) b = Ok (piPageID (info_of b r)) \<and>
     0 \<le> i \<and> i \<le> int (GetCount (page_of b r))"
proof (induction c arbitrary: h rule: cpath.induct)
  case (2 r' ls rs c)
  show ?case
  proof (cases "(r, i) \<in> set (cpath c)")
    case True
    then show ?thesis using 2 by auto
  next
    case False
    then have r: "r = r'" "i = int (length ls)" using 2(3) by auto
    have n: "node_at b r (map root_ref ls @ h # map root_ref rs)" using 2(2) r by simp
    then have "length ls \<le> length (node_keys (page_of b r))" by (auto simp: node_at_def)
    moreover have "\<not> IsLeaf (page_of b r)" using n index_not_leaf by (auto simp: node_at_def)
    ultimately show ?thesis using n r by (auto simp: node_at_def GetNodePage_def node_keys_def)
  qed
qed simp

lemma cpath_first: "root_ref (plug c (Lf h)) = fst (hd (cpath c @ [(h, j)]))"
proof (cases c rule: rev_cases)
  case (snoc c' f)
  then show ?thesis by (cases f) (simp add: plug_append cpath_append)
qed simp

lemma path_bound: "tree_ok b own (plug c (Lf h)) \<Longrightarrow> Suc (length c) \<le> btNextRef b"
proof -
  assume ok: "tree_ok b own (plug c (Lf h))"
  have "length (trefs (plug c (Lf h))) = length (crefs c @ trefs (Lf h))"
    using ok by (simp add: tree_ok_def distinct_trefs_plug set_trefs_plug flip: distinct_card)
  with tree_ok_refs [OF ok] length_context [of c] show ?thesis by simp
qed

text \<open>Claim C9. A search of a tree that stands for a map always ends with a path: it starts at the root reference, has no more
  steps than there are references, every reference on it but the last is an index page whose recorded child position lies within
  the page, and the last one is a leaf page whose entries are sorted. No branch of the search reports a conflict or panics.\<close>

theorem search_path_typed:
  assumes "stands_for b m"
  shows "\<exists>path. searchPath key b = Ok path \<and> fst (hd path) = 0 \<and> 0 < length path \<and> length path \<le> btNextRef b \<and>
    list_all (\<lambda>(r, i). GetNodePage (piPageID (info_of b r)) b = Ok (piPageID (info_of b r)) \<and> 0 \<le> i \<and> i \<le> int (GetCount (page_of b r))) (butlast path) \<and>
    GetLeafPage (piPageID (info_of b (fst (last path)))) b = Ok (piPageID (info_of b (fst (last path)))) \<and>
    sorted_leaf (page_of b (fst (last path)))"
proof -
  from assms obtain own t where inv: "tree_inv b own t" by (auto simp: stands_for_def)
  from inv obtain c h where t: "t = plug c (Lf h)" and path: "searchPath key b = Ok (cpath c @ [(h, - 1)])" by (rule searchPath_route)
  have ok: "tree_ok b own (plug c (Lf h))" using inv t by (simp add: tree_inv_def)
  note leaf = leaf_of_tree [OF ok]
  have "root_ref (plug c (Lf h)) = 0" using ok by (simp add: tree_ok_def)
  moreover have "sorted_leaf (page_of b h)" using leaf by (simp add: leaf_at_def)
  ultimately show ?thesis
    using path path_bound [OF ok] cpath_first [of c h "- 1"] cpath_typed [of b c h] leaf_is_leaf [of b h] leaf
    by (auto simp: list_all_iff GetLeafPage_def)
qed

theorem search_path_typed_witness:
  "\<exists>path. searchPath [1] example_tree = Ok path \<and> fst (hd path) = 0 \<and> 0 < length path \<and> length path \<le> btNextRef example_tree \<and>
    list_all (\<lambda>(r, i). GetNodePage (piPageID (info_of example_tree r)) example_tree = Ok (piPageID (info_of example_tree r)) \<and>
      0 \<le> i \<and> i \<le> int (GetCount (page_of example_tree r))) (butlast path) \<and>
    GetLeafPage (piPageID (info_of example_tree (fst (last path)))) example_tree = Ok (piPageID (info_of example_tree (fst (last path)))) \<and>
    sorted_leaf (page_of example_tree (fst (last path)))"
  by (rule search_path_typed [OF example_tree_facts(1)])

lemma leaf_kv_bound:
  assumes "leaf_ok pg" "(k, v) \<in> set (leaf_kvs pg)"
  shows "length k + length v \<le> unat (GetDataEnd pg)"
proof -
  have "kv_weight (k, v) \<le> (\<Sum>kv\<leftarrow>leaf_kvs pg. kv_weight kv)"
    using assms(2) member_le_sum_list [of "kv_weight (k, v)" "map kv_weight (leaf_kvs pg)"] by force
  with leaf_weights [OF assms(1)] show ?thesis by (simp add: kv_weight_def)
qed

lemma tree_map_leaf:
  assumes "tree_inv b own t" "tree_map b t = m"
  obtains c h where "t = plug c (Lf h)" "searchPath key b = Ok (cpath c @ [(h, - 1)])" "fits key (cleft b c) (cright b c)"
    "leaf_at b h" "m key = map_of (leaf_kvs (page_of b h)) key"
proof -
  from assms(1) obtain c h where ch: "t = plug c (Lf h)" "searchPath key b = Ok (cpath c @ [(h, - 1)])" "fits key (cleft b c) (cright b c)"
    by (rule searchPath_route)
  have ok: "tree_ok b own (plug c (Lf h))" using assms(1) ch(1) by (simp add: tree_inv_def)
  note l = leaf_of_tree [OF ok]
  have "m key = map_of (leaf_kvs (page_of b h)) key"
    unfolding assms(2) [symmetric] ch(1) using l tree_map_split fits_lookup [OF ch(3)] by metis
  with ch l show ?thesis by (intro that) blast+
qed


section \<open>Writes that find room\<close>

lemma leafIsFull_iff:
  assumes "keyLen + valueLen < 2147483648"
  shows "leafIsFull keyLen valueLen pg \<longleftrightarrow> 389120 < 100 * (72 + 16 * GetCount pg + unat (GetDataEnd pg) + keyLen + valueLen)"
  unfolding leafIsFull_def Let_def PageSize_def SizeofLeafEntry_def
  using unat_used_space [OF assms, of "phCount pg" "GetDataEnd pg"] by (simp add: GetCount_def algebra_simps)

text \<open>A turn of the write loop on a leaf that is not full: the closure decides.\<close>

lemma plain_turn:
  assumes "tree_inv b own (plug c (Lf h))" "searchPath key b = Ok (cpath c @ [(h, - 1)])" "\<not> leafIsFull (length key) 0 (page_of b h)"
  shows "write_turn sl sr key mutate b = (case mutate (piPageID (info_of b h)) (btStore b) (btVars b) of
      (Ok m, pm, vs) \<Rightarrow> (if lmInPlace m then (Return (Ok ()), finish_in_place h (info_of b h) m
            (set_info h (new_info (piPageID (info_of b h)) (piVersion (info_of b h) + 1) True NodeInplaceUpdate) (b\<lparr>btStore := pm, btVars := vs\<rparr>)))
          else publish_copy sl sr h (info_of b h) (cpath c @ [(h, - 1)]) m (b\<lparr>btStore := pm, btVars := vs\<rparr>))
    | (Err e, pm, vs) \<Rightarrow> (Return (Err e), b\<lparr>btStore := pm, btVars := vs\<rparr>)
    | (Panic, pm, vs) \<Rightarrow> (Return Panic, b\<lparr>btStore := pm, btVars := vs\<rparr>))"
proof -
  have leaf: "leaf_at b h" using assms(1) leaf_of_tree by (auto simp: tree_inv_def)
  then have free: "piNodeState (info_of b h) = NodeNormal \<or> piNodeState (info_of b h) = NodeRoot" "\<not> piRedirect (info_of b h)" "piIsLeaf (info_of b h)"
    by (auto simp: leaf_at_def IsBusy_def)
  have get: "GetLeafPage (piPageID (info_of b h)) b = Ok (piPageID (info_of b h))" using leaf_is_leaf [OF leaf] by (simp add: GetLeafPage_def)
  obtain res pm vs where "mutate (piPageID (info_of b h)) (btStore b) (btVars b) = (res, pm, vs)" using prod_cases3 by blast
  then show ?thesis using assms(2,3) free get by (auto simp: write_turn_def Let_def CAS_def split: outcome.split)
qed


text \<open>A page is left: the next allocation succeeds.\<close>

definition page_left :: "page_manager \<Rightarrow> bool" where
  "page_left pm = (case fst (pageAlloc pm) of Ok _ \<Rightarrow> True | _ \<Rightarrow> False)"

lemma page_left_own: "store_ok pm own \<Longrightarrow> page_left pm \<Longrightarrow> \<not> no_page_left pm own"
  using store_ok_alloc [of pm own] by (auto simp: page_left_def no_page_left_def cow_step_def pm_ok_def split: outcome.splits prod.splits)

text \<open>Writing a pair under a new key into a leaf with room.\<close>

lemma adapterSet_live_result:
  assumes "stands_for b m" "\<not> btClosed b" "headroom b" "ParseMVCC val \<noteq> Panic" "length key + length val < 2147483648"
    "m key = None" "page_left (btStore b)"
    "searchPath key b = Ok path" "\<not> leafIsFull (length key) (length val) (page_of b (fst (last path)))"
  shows "\<exists>b'. adapterSet key val b = (Ok (), b') \<and> stands_for b' (m(key \<mapsto> val)) \<and> \<not> btClosed b'"
proof -
  from assms(1) obtain own t where inv: "tree_inv b own t" "tree_map b t = m" by (auto simp: stands_for_def)
  then obtain c h where ch: "t = plug c (Lf h)" "searchPath key b = Ok (cpath c @ [(h, - 1)])" "leaf_at b h" "m key = map_of (leaf_kvs (page_of b h)) key"
    by (rule tree_map_leaf)
  let ?pg = "page_of b h" and ?p = "piPageID (info_of b h)"
  have srt: "sorted_leaf ?pg" using ch(3) by (simp add: leaf_at_def)
  have new: "key \<notin> fst ` set (leaf_kvs ?pg)" using ch(4) assms(6) by (metis map_of_eq_None_iff)
  have room: "\<not> leafIsFull (length key) (length val) ?pg" using assms(8,9) ch(2) by auto
  then have nf: "\<not> leafIsFull (length key) 0 ?pg" "entry_room ?pg (length key + length val)"
    using assms(5) by (auto simp: leafIsFull_iff entry_room_def)
  obtain i where s: "leafSearch key ?pg = (i, False)" using leafSearch_value(1) [OF srt] new by (metis surj_pair)
  have held: "held b own (set (trefs (plug c (Lf h))))" using inv(1) by (simp add: ch(1) tree_inv_def tree_ok_def)
  have st: "cow_step (btStore b) own own (btStore b)" "?p \<in> own"
    using inv(1) heldD [OF held, of h] info_in_ids [of b h] by (auto simp: tree_inv_def tree_ok_def set_trefs_plug)
  then have so: "store_ok (btStore b) own" using assms(3) by (simp add: store_ok_def headroom_def)
  have "\<not> no_page_left (btStore b) own" using so assms(7) by (rule page_left_own)
  then obtain q pm1 where ins: "leafInsert ?p key val (btStore b) = (Ok q, pm1)"
    using leafInsert_result [OF so st(2) srt assms(5)] new nf(2) by (auto split: prod.splits outcome.splits)
  have inv': "tree_inv b own (plug c (Lf h))" using inv ch(1) by simp
  have ep: "btEpoch b = None" using inv(1) by (simp add: tree_inv_def tree_ok_def)
  have "fst (write_turn 0 0 key (adapter_set_mutation key val) b) = Return (Ok ())"
    using s ins ep by (simp add: plain_turn [OF inv' ch(2) nf(1)] adapter_set_mutation_def cow_result_def publish_copy_def CAS_def
      maybeMergeAfterWrite_def retire_in_def Let_def set_info_def)
  then have "fst (adapterSet key val b) = Ok ()"
    using assms(2) ep by (auto simp: adapterSet_def tree_open_def MaxCASRetries_def writeOperation_def alloc_slot_def numeral_eq_Suc split: prod.splits)
  with adapterSet_result [OF assms(1-5)] show ?thesis by (auto split: prod.splits)
qed


lemma example_tree_room: "length key + length val < 3000 \<Longrightarrow> \<not> leafIsFull (length key) (length val) (page_of example_tree 0)"
  by (simp add: example_tree_eval leafIsFull_iff InitLeafPage_def InitPage_def GetCount_def GetDataEnd_def)

lemma example_tree_page_left: "page_left (btStore example_tree)"
  by (simp add: example_tree_eval page_left_def) (simp add: word_le_nat_alt)

text \<open>The example tree after one write.\<close>

lemma example_tree_set:
  assumes "ParseMVCC val \<noteq> Panic" "length key + length val < 3000"
  shows "\<exists>b'. adapterSet key val example_tree = (Ok (), b') \<and> stands_for b' [key \<mapsto> val] \<and> \<not> btClosed b'"
  using adapterSet_live_result [OF example_tree_facts(1-3) assms(1) _ _ example_tree_page_left example_tree_path]
    example_tree_room [OF assms(2)] assms(2) by simp


text \<open>Claim C6. The adapter's Set refines a map update: on a tree that stands for a map it returns no error only when the tree
  then stands for the map with the pair added, whatever leaf and index pages had to be split on the way, and every failure
  (a leaf that cannot be split, a page that is full, no page left) leaves the map as it was. It never panics and never runs
  out of retries.\<close>

theorem adapter_set_refines:
  assumes "stands_for b m" "\<not> btClosed b" "headroom b" "ParseMVCC val \<noteq> Panic" "length key + length val < 2147483648"
  shows "case adapterSet key val b of
      (Ok u, b') \<Rightarrow> stands_for b' (m(key \<mapsto> val)) \<and> \<not> btClosed b'
    | (Err e, b') \<Rightarrow> stands_for b' m \<and> \<not> btClosed b' \<and> e \<in> {ErrLeafSplitMinKeys, ErrOffHeapPageFull, ErrOffHeapOutOfMemory}
    | (Panic, b') \<Rightarrow> False"
  using assms by (rule adapterSet_result)

theorem adapter_set_refines_witness: "\<exists>b'. adapterSet [1] [] example_tree = (Ok (), b') \<and> stands_for b' [[1] \<mapsto> []]"
  using adapter_set_refines [OF example_tree_facts(1-3), of "[]" "[1]"] example_tree_set [of "[]" "[1]"]
  by (auto simp: parse_empty)

text \<open>Claim C11. A Set that has room succeeds: when the pair fits in the leaf of its new key below the 95 percent mark and the page
  manager can give one more page, Set returns no error on its first turn and the tree then holds the pair.\<close>

theorem adapter_set_live:
  assumes "stands_for b m" "\<not> btClosed b" "headroom b" "ParseMVCC val \<noteq> Panic" "length key + length val < 2147483648"
    "m key = None" "page_left (btStore b)"
    "searchPath key b = Ok path" "\<not> leafIsFull (length key) (length val) (page_of b (fst (last path)))"
  shows "\<exists>b'. adapterSet key val b = (Ok (), b') \<and> stands_for b' (m(key \<mapsto> val)) \<and> \<not> btClosed b'"
  using assms by (rule adapterSet_live_result)

theorem adapter_set_live_witness: "\<exists>b'. adapterSet [5] [] example_tree = (Ok (), b') \<and> stands_for b' [[5] \<mapsto> []] \<and> \<not> btClosed b'"
  using example_tree_room [of "[5]" "[]"]
  by (intro adapter_set_live [OF example_tree_facts(1-3) _ _ _ example_tree_page_left example_tree_path]) (simp_all add: parse_empty)

text \<open>Claim C7. The adapter's Delete refines the removal of a key: without an error the tree then stands for the map without
  the key; a key that is not there, and every failure of the copy or of a split, leaves the map as it was.\<close>

theorem adapter_delete_refines:
  assumes "stands_for b m" "\<not> btClosed b" "headroom b"
  shows "case adapterDelete key b of
      (Ok u, b') \<Rightarrow> stands_for b' (m(key := None)) \<and> \<not> btClosed b'
    | (Err e, b') \<Rightarrow> stands_for b' m \<and> \<not> btClosed b' \<and> e \<in> {ErrKeyNotFound, ErrLeafSplitMinKeys, ErrOffHeapPageFull, ErrOffHeapOutOfMemory}
    | (Panic, b') \<Rightarrow> False"
  using assms by (rule adapterDelete_result)

theorem adapter_delete_refines_witness:
  "case adapterDelete [1] example_tree of
      (Ok u, b') \<Rightarrow> stands_for b' (Map.empty([1] := None)) \<and> \<not> btClosed b'
    | (Err e, b') \<Rightarrow> stands_for b' Map.empty \<and> \<not> btClosed b' \<and> e \<in> {ErrKeyNotFound, ErrLeafSplitMinKeys, ErrOffHeapPageFull, ErrOffHeapOutOfMemory}
    | (Panic, b') \<Rightarrow> False"
  by (rule adapter_delete_refines [OF example_tree_facts(1-3)])

section \<open>Reads after writes\<close>

lemma tree_get_map:
  assumes "stands_for b m" "\<not> btClosed b"
  shows "treeGet k b = (case m k of None \<Rightarrow> Err ErrKeyNotFound
    | Some v \<Rightarrow> bind_outcome (ParseMVCC v) (\<lambda>mv. if IsTombstone mv then Err ErrKeyNotFound else Ok (RealVal mv)))"
  using raw_reads [OF assms] by (simp add: treeGet_def split: option.split)

lemma tree_get_same:
  assumes "stands_for b m" "\<not> btClosed b" "stands_for b' m'" "\<not> btClosed b'" "m' k = m k"
  shows "treeGet k b' = treeGet k b"
  using assms by (simp add: tree_get_map)

lemma treeSet_get_result:
  assumes "stands_for b m" "\<not> btClosed b" "headroom b" "mvTS (btVars b) + 1 \<noteq> 0" "length key + length val < 2147483628"
    "\<And>v. leaf_full key b \<Longrightarrow> m key = Some v \<Longrightarrow> length v < 20 + length val"
  shows "case treeSet key val b of
      (Ok u, b') \<Rightarrow> treeGet key b' = Ok val \<and> (\<forall>k. k = key \<or> treeGet k b' = treeGet k b)
    | (Err e, b') \<Rightarrow> (\<forall>k. treeGet k b' = treeGet k b) \<and> e \<in> tree_errs
    | (Panic, b') \<Rightarrow> False"
proof -
  obtain r b' where run: "treeSet key val b = (r, b')" by fastforce
  note R = treeSet_result [OF assms, unfolded run prod.case]
  note same = tree_get_same [OF assms(1,2)]
  show ?thesis
  proof (cases r)
    case (Ok u)
    then have st: "stands_for b' (m(key \<mapsto> next_value FlagNormal val (btVars b)))" "\<not> btClosed b'" using R by simp_all
    have "treeGet key b' = Ok val"
      using tree_get_map [OF st, of key] build_next_ok(3) [OF assms(4), of FlagNormal val, simplified] by (simp add: built_value_def IsTombstone_def)
    then show ?thesis using run Ok by (auto intro!: same [OF st])
  qed (use R run same in auto)
qed

lemma treeDelete_get_result:
  assumes "stands_for b m" "\<not> btClosed b" "headroom b" "mvTS (btVars b) + 1 \<noteq> 0" "length key < 2147483628"
  shows "case treeDelete key b of
      (Ok u, b') \<Rightarrow> treeGet key b' = Err ErrKeyNotFound \<and> (\<forall>k. k = key \<or> treeGet k b' = treeGet k b)
    | (Err e, b') \<Rightarrow> (\<forall>k. treeGet k b' = treeGet k b) \<and> e \<in> insert ErrKeyNotFound tree_errs
    | (Panic, b') \<Rightarrow> False"
proof -
  obtain r b' where run: "treeDelete key b = (r, b')" by fastforce
  note R = treeDelete_result [OF assms, unfolded run prod.case]
  note same = tree_get_same [OF assms(1,2)]
  show ?thesis
  proof (cases r)
    case (Ok u)
    then have st: "stands_for b' (m(key \<mapsto> next_value FlagTombstone [] (btVars b)))" "\<not> btClosed b'" using R by simp_all
    have "treeGet key b' = Err ErrKeyNotFound"
      using tree_get_map [OF st, of key] build_next_ok(3) [OF assms(4), of FlagTombstone "[]", simplified] by (simp add: built_value_def IsTombstone_def)
    then show ?thesis using run Ok by (auto intro!: same [OF st])
  qed (use R run same in auto)
qed

lemma multi_page_map:
  assumes "stands_for b m" "\<not> btClosed b" "\<And>v. v \<in> ran m \<Longrightarrow> \<exists>mv. ParseMVCC v = Ok mv"
  shows "getBatchMultiPage keys b = Ok (map (\<lambda>k. case treeGet k b of Ok v \<Rightarrow> Some v | _ \<Rightarrow> None) keys)"
proof (induction keys)
  case (Cons k keys)
  have "treeGet k b = Err ErrKeyNotFound \<or> (\<exists>v. treeGet k b = Ok v)"
    using tree_get_map [OF assms(1,2), of k] assms(3) by (cases "m k") (fastforce simp: ran_def)+
  with Cons show ?case by auto
qed simp

lemma treeGetBatch_result:
  assumes "stands_for b m" "\<not> btClosed b" "\<forall>v\<in>ran m. \<exists>mv. ParseMVCC v = Ok mv"
  shows "treeGetBatch keys b = Ok (map (\<lambda>k. case treeGet k b of Ok v \<Rightarrow> Some v | _ \<Rightarrow> None) keys)"
proof (cases "keys = [] \<or> \<not> piIsLeaf (info_of b 0)")
  case True
  then show ?thesis using multi_page_map [OF assms(1,2)] assms by (auto simp: treeGetBatch_def)
next
  case False
  have live: "live_value v \<noteq> Panic" if "v \<in> ran m" for v using assms(3) that by (fastforce simp: live_value_def)
  have "live_value v \<noteq> Err e" for v e by (simp add: live_value_def split: outcome.split)
  note root_leaf_batch_map [OF assms(1), of keys live_value, OF _ _ live this]
  moreover have "(case m k of None \<Rightarrow> None | Some v \<Rightarrow> (case live_value v of Ok r \<Rightarrow> r | _ \<Rightarrow> None)) = (case treeGet k b of Ok v \<Rightarrow> Some v | _ \<Rightarrow> None)" for k
  proof (cases "m k")
    case (Some v)
    then obtain mv where "ParseMVCC v = Ok mv" using assms(3) by (auto simp: ran_def)
    then show ?thesis using Some tree_get_map [OF assms(1,2), of k] by (simp add: live_value_def)
  qed (use tree_get_map [OF assms(1,2), of k] in simp)
  ultimately show ?thesis using False assms(2) by (simp add: treeGetBatch_def)
qed

text \<open>Claim C8. What Set stored Get returns: after a Set without error a Get of the key returns the value and every other key reads
  as before; after a Set with an error every key reads as before. A value that replaces a stored one on a full leaf must be longer
  than it, because the split path drops an update that fits in place.\<close>

theorem tree_set_then_get:
  assumes "stands_for b m" "\<not> btClosed b" "headroom b" "mvTS (btVars b) + 1 \<noteq> 0" "length key + length val < 2147483628"
    "\<And>v. leaf_full key b \<Longrightarrow> m key = Some v \<Longrightarrow> length v < 20 + length val"
  shows "case treeSet key val b of
      (Ok u, b') \<Rightarrow> treeGet key b' = Ok val \<and> (\<forall>k. k = key \<or> treeGet k b' = treeGet k b)
    | (Err e, b') \<Rightarrow> (\<forall>k. treeGet k b' = treeGet k b) \<and> e \<in> tree_errs
    | (Panic, b') \<Rightarrow> False"
  using assms by (rule treeSet_get_result)

theorem tree_set_then_get_witness:
  "case treeSet [1] [7] example_tree of
      (Ok u, b') \<Rightarrow> treeGet [1] b' = Ok [7] \<and> (\<forall>k. k = [1] \<or> treeGet k b' = treeGet k example_tree)
    | (Err e, b') \<Rightarrow> (\<forall>k. treeGet k b' = treeGet k example_tree) \<and> e \<in> tree_errs
    | (Panic, b') \<Rightarrow> False"
  by (rule tree_set_then_get [OF example_tree_facts(1-3)]) (simp_all add: example_tree_facts(4))

text \<open>Delete hides a key: without error a Get of the key reports that it is not there although the tree still holds
  its tombstone, and every other key reads as before; with an error nothing changes for any reader.\<close>

theorem tree_delete_then_get:
  assumes "stands_for b m" "\<not> btClosed b" "headroom b" "mvTS (btVars b) + 1 \<noteq> 0" "length key < 2147483628"
  shows "case treeDelete key b of
      (Ok u, b') \<Rightarrow> treeGet key b' = Err ErrKeyNotFound \<and> (\<forall>k. k = key \<or> treeGet k b' = treeGet k b)
    | (Err e, b') \<Rightarrow> (\<forall>k. treeGet k b' = treeGet k b) \<and> e \<in> insert ErrKeyNotFound tree_errs
    | (Panic, b') \<Rightarrow> False"
  using assms by (rule treeDelete_get_result)

theorem tree_delete_then_get_witness:
  "case treeDelete [1] example_tree of
      (Ok u, b') \<Rightarrow> treeGet [1] b' = Err ErrKeyNotFound \<and> (\<forall>k. k = [1] \<or> treeGet k b' = treeGet k example_tree)
    | (Err e, b') \<Rightarrow> (\<forall>k. treeGet k b' = treeGet k example_tree) \<and> e \<in> insert ErrKeyNotFound tree_errs
    | (Panic, b') \<Rightarrow> False"
  by (rule tree_delete_then_get [OF example_tree_facts(1-3)]) (simp_all add: example_tree_facts(4))



section \<open>Batches of the adapter\<close>

text \<open>A segment that took nothing publishes the page that is already there.\<close>

lemma segment_took_nothing:
  assumes inv: "tree_inv b own (plug c (Lf h))" and path: "searchPath key b = Ok (cpath c @ [(h, - 1)])" and fit: "fits key (cleft b c) (cright b c)"
    and full: "\<not> leafIsFull (length key) 0 (page_of b h)" "leafIsFull (length key) (length val) (page_of b h)"
    and new: "map_of (leaf_kvs (page_of b h)) key = None"
  shows "\<exists>b'. write_turn sl sr key (segment_mutation [(key, val)] 0) b = (Return (Ok ()), b') \<and> tree_inv b' own (plug c (Lf h)) \<and>
    tree_map b' (plug c (Lf h)) = tree_map b (plug c (Lf h)) \<and> mvOffset (btVars b') = 0 \<and> btClosed b' = btClosed b"
proof -
  let ?pg = "page_of b h" and ?i = "info_of b h" and ?t = "plug c (Lf h)"
  define fin where "fin = new_info (piPageID ?i) (piVersion ?i + 1) True NodeNormal"
  define b' where "b' = add_size 0 (set_info h fin (b\<lparr>btVars := (btVars b)\<lparr>mvOffset := 0\<rparr>\<rparr>))"
  have ok: "tree_ok b own ?t" using inv by (simp add: tree_inv_def)
  note leaf = leaf_of_tree [OF ok]
  have srt: "sorted_leaf ?pg" using leaf by (simp add: leaf_at_def)
  obtain i where s: "leafSearch key ?pg = (i, False)" using leafSearch_value(1) [OF srt] new by (metis map_of_eq_None_iff surj_pair)
  have ep: "btEpoch b = None" "held b own (set (trefs ?t))" "cow_step (btStore b) own own (btStore b)" "distinct (trefs ?t)"
    using ok by (simp_all add: tree_ok_def)
  have run: "write_turn sl sr key (segment_mutation [(key, val)] 0) b = (Return (Ok ()), b')"
    using s full(2) ep(1) by (simp add: plain_turn [OF inv path full(1)] segment_mutation_def publish_copy_def CAS_def
      maybeMergeAfterWrite_def retire_in_def Let_def set_info_def b'_def fin_def add_size_def)
  have moved: "leaf_moved h fin b b'" by (simp add: leaf_moved_def b'_def add_size_def set_info_def)
  have fin: "piPageID fin = piPageID ?i" "piIsLeaf fin" "\<not> piRedirect fin" "\<not> IsBusy fin" by (simp_all add: fin_def new_info_def IsBusy_def)
  have store: "btStore b' = btStore b" by (simp add: b'_def add_size_def set_info_def)
  have own: "piPageID ?i \<in> own" using heldD [OF ep(2), of h] info_in_ids [of b h] by (auto simp: set_trefs_plug)
  have apart: "\<forall>r\<in>set (crefs c). piPageID ?i \<notin> ids_of b r"
  proof
    fix r assume r: "r \<in> set (crefs c)"
    then have "r \<noteq> h" using ep(4) by (auto simp: distinct_trefs_plug)
    then have "ids_of b r \<inter> ids_of b h = {}" using ep(2) r by (simp add: held_def set_trefs_plug)
    then show "piPageID ?i \<notin> ids_of b r" using info_in_ids [of b h] by blast
  qed
  have "tree_inv b' own ?t \<and> tree_map b' ?t = (tree_map b ?t)(key := None)"
    using srt new own apart ep(3) by (intro leaf_moved_inv [OF inv moved fin(2-4) fit]) (simp_all add: fin(1) store fun_upd_idem)
  moreover have "tree_map b ?t key = None" using fits_lookup [OF fit] new leaf tree_map_split by metis
  moreover have "mvOffset (btVars b') = 0" "btClosed b' = btClosed b" by (simp_all add: b'_def add_size_def set_info_def)
  ultimately show ?thesis using run by (auto simp: fun_upd_idem)
qed

lemma search_from_vars: "search_from n key (b\<lparr>btVars := vs\<rparr>) r = search_from n key b r"
  by (induction n arbitrary: r) (simp_all add: Let_def cong: option.case_cong if_cong)

lemma searchPath_vars [simp]: "searchPath key (b\<lparr>btVars := vs\<rparr>) = searchPath key b"
  by (simp add: searchPath_def search_from_vars)

lemma stands_for_vars:
  assumes "stands_for b m"
  shows "stands_for (b\<lparr>btVars := vs\<rparr>) m"
proof -
  from assms obtain own t where inv: "tree_inv b own t" "tree_map b t = m" by (auto simp: stands_for_def)
  then have "untouched b own (b\<lparr>btVars := vs\<rparr>)" by (auto simp: untouched_def tree_inv_def tree_ok_def)
  from stands_for_untouched [OF inv(1) this] inv(2) show ?thesis by simp
qed

lemma setBatch_drops_result:
  assumes "stands_for b m" "\<not> btClosed b" "m key = None" "searchPath key b = Ok path"
    "\<not> leafIsFull (length key) 0 (page_of b (fst (last path)))" "leafIsFull (length key) (length val) (page_of b (fst (last path)))"
  shows "\<exists>b'. adapterSetBatch [(key, val)] b = (Ok 1, b') \<and> stands_for b' m \<and> getRawBytes key b' = Err ErrKeyNotFound"
proof -
  let ?b = "b\<lparr>btVars := (btVars b)\<lparr>mvOffset := 0\<rparr>\<rparr>"
  from stands_for_vars [OF assms(1)] obtain own t where inv: "tree_inv ?b own t" "tree_map ?b t = m" unfolding stands_for_def by blast
  then obtain c h where ch: "t = plug c (Lf h)" "searchPath key ?b = Ok (cpath c @ [(h, - 1)])" "fits key (cleft ?b c) (cright ?b c)"
      "m key = map_of (leaf_kvs (page_of ?b h)) key" by (rule tree_map_leaf)
  have path: "path = cpath c @ [(h, - 1)]" using ch(2) assms(4) by simp
  have "\<exists>b'. write_turn 0 0 key (segment_mutation [(key, val)] 0) ?b = (Return (Ok ()), b') \<and> tree_inv b' own (plug c (Lf h)) \<and>
    tree_map b' (plug c (Lf h)) = tree_map ?b (plug c (Lf h)) \<and> mvOffset (btVars b') = 0 \<and> btClosed b' = btClosed ?b"
    using inv ch assms(3,5,6) path by (intro segment_took_nothing) auto
  then obtain b' where run: "write_turn 0 0 key (segment_mutation [(key, val)] 0) ?b = (Return (Ok ()), b')"
    and b': "tree_inv b' own t" "tree_map b' t = m" "mvOffset (btVars b') = 0" "\<not> btClosed b'" using inv ch(1) assms(2) by auto
  have st: "stands_for b' m" using b' by (auto simp: stands_for_def)
  have "btEpoch b = None" using inv(1) by (simp add: tree_inv_def tree_ok_def)
  then have "writeOperation key (segment_mutation [(key, val)] 0) MaxCASRetries ?b = (Ok (), b')"
    using run by (simp add: writeOperation_def alloc_slot_def MaxCASRetries_def numeral_eq_Suc)
  then have "adapterSetBatch [(key, val)] b = (Ok 1, b')" using assms(2) b'(3) by (simp add: adapterSetBatch_def Let_def)
  then show ?thesis using st raw_reads [OF st b'(4), of key] assms(3) by auto
qed

text \<open>Claim C34. SetBatch counts a pair it has not written: a pair under a new key whose value does not fit in the leaf, while the key
  alone still would, is neither stored nor refused. The leaf is not split, the call reports one pair written and no error, and
  the key is not there afterwards. Set splits the leaf of a key only when the key without its value does not fit.\<close>

theorem set_batch_drops_pair:
  assumes "stands_for b m" "\<not> btClosed b" "m key = None" "searchPath key b = Ok path"
    "\<not> leafIsFull (length key) 0 (page_of b (fst (last path)))" "leafIsFull (length key) (length val) (page_of b (fst (last path)))"
  shows "\<exists>b'. adapterSetBatch [(key, val)] b = (Ok 1, b') \<and> stands_for b' m \<and> getRawBytes key b' = Err ErrKeyNotFound"
  using assms by (rule setBatch_drops_result)

theorem set_batch_drops_pair_witness:
  "\<exists>b'. adapterSetBatch [([1], replicate 4000 0)] example_tree = (Ok 1, b') \<and> stands_for b' Map.empty \<and> getRawBytes [1] b' = Err ErrKeyNotFound"
proof (rule set_batch_drops_pair [OF example_tree_facts(1,2) _ example_tree_path])
  show "\<not> leafIsFull (length [1::byte]) 0 (page_of example_tree (fst (last [(0, - 1 :: int)])))"
    using example_tree_room [of "[1]" "[]"] by simp
  show "leafIsFull (length [1::byte]) (length (replicate 4000 (0::byte))) (page_of example_tree (fst (last [(0, - 1 :: int)])))"
    by (simp add: leafIsFull_iff)
qed simp

end
