(* ===== verification/Epoch_Safety.thy ===== *)
theory Epoch_Safety
  imports Epoch
begin

text \<open>
  Readers, writers and the reclaimer of \<open>btree/epoch.go\<close> interleaved at their atomic operations. A reader may
  use every page that is linked into the tree while it reads. The theory shows that no such page is freed under
  it as long as every reader has its slot to itself and the rings are on their first lap, and that both conditions
  are needed.
\<close>

section \<open>States and steps\<close>

text \<open>Where a reader is in \<open>EnterRead\<close>, what has become of a page, and where the reclaimer is in \<open>tryReclaim\<close>.\<close>

datatype reader_pc = RIdle | RSlot | RLoaded u64 | RStored u64 | RReload | RReloaded u64 | RReading

datatype page_state = PFree | PLinked | PUnlinked | PLoaded nat u64 | PClaimed nat u64 u64 | PRetired nat u64 u64 | PTaken

datatype sweep_pc = CIdle | CScan nat u64 | CSlot u64 nat | CDrain u64 nat u64 u64 | CFree

record epoch_system =
  syMgr :: epoch_manager
  syPc :: "nat \<Rightarrow> reader_pc"
  syOwn :: "nat \<Rightarrow> nat"
  syHeld :: "nat \<Rightarrow> u32 set"
  syPage :: "u32 \<Rightarrow> page_state"
  sySweep :: sweep_pc
  syToFree :: "u32 list"

abbreviation epoch_now :: "epoch_system \<Rightarrow> u64" where "epoch_now st \<equiv> globalEpoch (syMgr st)"
abbreviation readers :: "epoch_system \<Rightarrow> nat \<Rightarrow> u64" where "readers st \<equiv> emReaders (syMgr st)"
abbreviation ring :: "epoch_system \<Rightarrow> nat \<Rightarrow> epoch_slot" where "ring st \<equiv> emSlots (syMgr st)"

definition set_pc :: "nat \<Rightarrow> reader_pc \<Rightarrow> epoch_system \<Rightarrow> epoch_system" where
  "set_pc t pc st = st\<lparr>syPc := (syPc st)(t := pc)\<rparr>"

definition set_page :: "u32 \<Rightarrow> page_state \<Rightarrow> epoch_system \<Rightarrow> epoch_system" where
  "set_page p s st = st\<lparr>syPage := (syPage st)(p := s)\<rparr>"

definition set_ring :: "nat \<Rightarrow> epoch_slot \<Rightarrow> epoch_system \<Rightarrow> epoch_system" where
  "set_ring s r st = st\<lparr>syMgr := (syMgr st)\<lparr>emSlots := (ring st)(s := r)\<rparr>\<rparr>"

definition publish :: "nat \<Rightarrow> u64 \<Rightarrow> epoch_system \<Rightarrow> epoch_system" where
  "publish t e st = st\<lparr>syMgr := (syMgr st)\<lparr>emReaders := (readers st)(syOwn st t := e)\<rparr>\<rparr>"

text \<open>A read starts with every page that is linked in reach.\<close>

definition start_read :: "nat \<Rightarrow> epoch_system \<Rightarrow> epoch_system" where
  "start_read t st = (set_pc t RReading st)\<lparr>syHeld := (syHeld st)(t := {p. syPage st p = PLinked})\<rparr>"

definition ring_entry :: "epoch_system \<Rightarrow> nat \<Rightarrow> u64 \<Rightarrow> retired_entry" where
  "ring_entry st i j = esBuf (ring st i) (unat j mod ringSize)"

inductive estep :: "epoch_system \<Rightarrow> epoch_system \<Rightarrow> bool" where
  alloc: "syPc st t = RIdle \<Longrightarrow> AllocSlot (syMgr st) = (s, em) \<Longrightarrow>
    estep st (set_pc t RSlot (st\<lparr>syMgr := em, syOwn := (syOwn st)(t := s)\<rparr>))"
| load: "syPc st t = RSlot \<Longrightarrow> estep st (set_pc t (RLoaded (epoch_now st)) st)"
| store: "syPc st t = RLoaded e \<Longrightarrow> estep st (set_pc t (RStored e) (publish t e st))"
| check_same: "syPc st t = RStored e \<Longrightarrow> epoch_now st = e \<Longrightarrow> estep st (start_read t st)"
| check_other: "syPc st t = RStored e \<Longrightarrow> epoch_now st \<noteq> e \<Longrightarrow> estep st (set_pc t RReload st)"
| reload: "syPc st t = RReload \<Longrightarrow> estep st (set_pc t (RReloaded (epoch_now st)) st)"
| restore: "syPc st t = RReloaded e \<Longrightarrow> estep st (start_read t (publish t e st))"
| leave: "syPc st t = RReading \<Longrightarrow> estep st (set_pc t RIdle ((publish t 0 st)\<lparr>syHeld := (syHeld st)(t := {})\<rparr>))"
| skip: "estep st (st\<lparr>syMgr := snd (AllocSlot (syMgr st))\<rparr>)"
| link: "syPage st p = PFree \<Longrightarrow>
    estep st (set_page p PLinked (st\<lparr>syHeld := (\<lambda>t. if syPc st t = RReading then insert p (syHeld st t) else syHeld st t)\<rparr>))"
| unlink: "syPage st p = PLinked \<Longrightarrow> estep st (set_page p PUnlinked st)"
| retire_load: "syPage st p = PUnlinked \<Longrightarrow> s < maxReaderSlots \<Longrightarrow> estep st (set_page p (PLoaded s (epoch_now st)) st)"
| claim: "syPage st p = PLoaded s e \<Longrightarrow> unat (esTail (ring st s) - esHead (ring st s)) < ringSize \<Longrightarrow>
    estep st (set_page p (PClaimed s e (esTail (ring st s))) (set_ring s ((ring st s)\<lparr>esTail := esTail (ring st s) + 1\<rparr>) st))"
| commit: "syPage st p = PClaimed s e j \<Longrightarrow>
    estep st (set_page p (PRetired s e j)
      (set_ring s ((ring st s)\<lparr>esBuf := (esBuf (ring st s))(unat j mod ringSize := \<lparr>rePageID = p, reEpoch = e\<rparr>)\<rparr>) st))"
| advance: "sySweep st = CIdle \<Longrightarrow>
    estep st (st\<lparr>syMgr := (syMgr st)\<lparr>globalEpoch := epoch_now st + 1\<rparr>, sySweep := CScan 0 MaxUint64\<rparr>)"
| scan: "sySweep st = CScan i m \<Longrightarrow> i < maxReaderSlots \<Longrightarrow>
    estep st (st\<lparr>sySweep := CScan (Suc i) (if readers st i \<noteq> 0 \<and> readers st i < m then readers st i else m)\<rparr>)"
| scanned: "sySweep st = CScan maxReaderSlots m \<Longrightarrow>
    estep st (st\<lparr>sySweep := CSlot (if m \<noteq> MaxUint64 then m else epoch_now st) 0\<rparr>)"
| slot_empty: "sySweep st = CSlot safe i \<Longrightarrow> i < maxReaderSlots \<Longrightarrow> esTail (ring st i) \<le> esHead (ring st i) \<Longrightarrow>
    estep st (st\<lparr>sySweep := CSlot safe (Suc i)\<rparr>)"
| slot_begin: "sySweep st = CSlot safe i \<Longrightarrow> i < maxReaderSlots \<Longrightarrow> esHead (ring st i) < esTail (ring st i) \<Longrightarrow>
    estep st (st\<lparr>sySweep := CDrain safe i (esTail (ring st i)) (esHead (ring st i))\<rparr>)"
| take_entry: "sySweep st = CDrain safe i lim j \<Longrightarrow> j < lim \<Longrightarrow> reEpoch (ring_entry st i j) \<noteq> 0 \<Longrightarrow> reEpoch (ring_entry st i j) < safe \<Longrightarrow>
    estep st (set_page (rePageID (ring_entry st i j)) PTaken
      (st\<lparr>syToFree := syToFree st @ [rePageID (ring_entry st i j)], sySweep := CDrain safe i lim (j + 1)\<rparr>))"
| stop: "sySweep st = CDrain safe i lim j \<Longrightarrow> lim \<le> j \<or> reEpoch (ring_entry st i j) = 0 \<or> safe \<le> reEpoch (ring_entry st i j) \<Longrightarrow>
    estep st ((set_ring i ((ring st i)\<lparr>esHead := j\<rparr>) st)\<lparr>sySweep := CSlot safe (Suc i)\<rparr>)"
| drained: "sySweep st = CSlot safe maxReaderSlots \<Longrightarrow> estep st (st\<lparr>sySweep := CFree\<rparr>)"
| free: "sySweep st = CFree \<Longrightarrow> syToFree st = p # ps \<Longrightarrow> estep st (set_page p PFree (st\<lparr>syToFree := ps\<rparr>))"
| swept: "sySweep st = CFree \<Longrightarrow> syToFree st = [] \<Longrightarrow> estep st (st\<lparr>sySweep := CIdle\<rparr>)"

definition epoch_start :: epoch_system where
  "epoch_start = \<lparr>syMgr = NewEpochManager, syPc = (\<lambda>_. RIdle), syOwn = (\<lambda>_. 0), syHeld = (\<lambda>_. {}), syPage = (\<lambda>_. PFree),
     sySweep = CIdle, syToFree = []\<rparr>"

text \<open>No two readers share a slot; no ring has wrapped around; the epoch is below the sentinel of the scan.\<close>

definition own_slots :: "epoch_system \<Rightarrow> bool" where
  "own_slots st \<longleftrightarrow> (\<forall>t u. syPc st t \<noteq> RIdle \<longrightarrow> syPc st u \<noteq> RIdle \<longrightarrow> syOwn st t = syOwn st u \<longrightarrow> t = u)"

definition first_lap :: "epoch_system \<Rightarrow> bool" where
  "first_lap st \<longleftrightarrow> (\<forall>i. unat (esTail (ring st i)) \<le> ringSize)"

definition calm :: "epoch_system \<Rightarrow> bool" where
  "calm st \<longleftrightarrow> own_slots st \<and> first_lap st \<and> epoch_now st < MaxUint64"

inductive ereach :: "epoch_system \<Rightarrow> bool" where
  start: "ereach epoch_start"
| step: "ereach st \<Longrightarrow> estep st st' \<Longrightarrow> calm st' \<Longrightarrow> ereach st'"

section \<open>Invariant\<close>

text \<open>The pages in reach of a reader are linked, just unlinked, or on their way to the ring with an epoch that is not below a bound.\<close>

fun epoch_of :: "page_state \<Rightarrow> u64 option" where
  "epoch_of (PLoaded s e) = Some e"
| "epoch_of (PClaimed s e j) = Some e"
| "epoch_of (PRetired s e j) = Some e"
| "epoch_of _ = None"

definition kept :: "u64 \<Rightarrow> page_state \<Rightarrow> bool" where
  "kept b ps \<longleftrightarrow> ps = PLinked \<or> ps = PUnlinked \<or> (\<exists>e. epoch_of ps = Some e \<and> b \<le> e)"

definition guards :: "epoch_system \<Rightarrow> nat \<Rightarrow> u64 \<Rightarrow> bool" where
  "guards st t b \<longleftrightarrow> (\<forall>p\<in>syHeld st t. kept b (syPage st p))"

definition pc_ok :: "u64 \<Rightarrow> u64 \<Rightarrow> reader_pc \<Rightarrow> bool" where
  "pc_ok cur r pc = (case pc of RLoaded e \<Rightarrow> e \<noteq> 0 \<and> e \<le> cur | RStored e \<Rightarrow> e \<noteq> 0 \<and> r = e | RReloaded e \<Rightarrow> e \<noteq> 0 \<and> e \<le> cur
     | RReading \<Rightarrow> r \<noteq> 0 | _ \<Rightarrow> True)"

definition reader_ok :: "epoch_system \<Rightarrow> nat \<Rightarrow> bool" where
  "reader_ok st t \<longleftrightarrow> pc_ok (epoch_now st) (readers st (syOwn st t)) (syPc st t) \<and> (syPc st t \<noteq> RIdle \<longrightarrow> syOwn st t < maxReaderSlots) \<and>
     (syPc st t \<noteq> RReading \<longrightarrow> syHeld st t = {})"

definition readers_ok :: "epoch_system \<Rightarrow> bool" where
  "readers_ok st \<longleftrightarrow> epoch_now st \<noteq> 0 \<and> (\<forall>i. readers st i \<le> epoch_now st) \<and> (\<forall>t. reader_ok st t)"

definition held_ok :: "epoch_system \<Rightarrow> bool" where
  "held_ok st \<longleftrightarrow> (\<forall>t. syPc st t = RReading \<longrightarrow> guards st t (readers st (syOwn st t)))"

definition all_guard :: "epoch_system \<Rightarrow> u64 \<Rightarrow> bool" where
  "all_guard st b \<longleftrightarrow> b \<le> epoch_now st \<and> (\<forall>t. syPc st t = RReading \<longrightarrow> guards st t b)"

definition scan_ok :: "epoch_system \<Rightarrow> bool" where
  "scan_ok st = (case sySweep st of
     CScan i m \<Rightarrow> (m = MaxUint64 \<or> m \<le> epoch_now st) \<and>
       (\<forall>t. syPc st t = RReading \<longrightarrow> syOwn st t < i \<longrightarrow> m \<le> readers st (syOwn st t) \<or> guards st t (epoch_now st))
   | CSlot safe i \<Rightarrow> all_guard st safe
   | CDrain safe i lim j \<Rightarrow> all_guard st safe
   | _ \<Rightarrow> True)"

text \<open>Positions of a ring that are not drained: one that is committed names a page that was retired at this position.\<close>

definition ring_first :: "epoch_system \<Rightarrow> nat \<Rightarrow> u64" where
  "ring_first st i = (case sySweep st of CDrain safe k lim j \<Rightarrow> if k = i then j else esHead (ring st i) | _ \<Rightarrow> esHead (ring st i))"

definition rings_ok :: "epoch_system \<Rightarrow> bool" where
  "rings_ok st \<longleftrightarrow> (\<forall>i n. n < ringSize \<longrightarrow> (unat (esTail (ring st i)) \<le> n \<longrightarrow> reEpoch (esBuf (ring st i) n) = 0) \<and>
     (unat (ring_first st i) \<le> n \<longrightarrow> reEpoch (esBuf (ring st i) n) \<noteq> 0 \<longrightarrow>
       (\<exists>j. unat j = n \<and> syPage st (rePageID (esBuf (ring st i) n)) = PRetired i (reEpoch (esBuf (ring st i) n)) j)))"

definition claims_ok :: "epoch_system \<Rightarrow> bool" where
  "claims_ok st \<longleftrightarrow> (\<forall>p s e j. syPage st p = PClaimed s e j \<longrightarrow> j < esTail (ring st s) \<and> reEpoch (esBuf (ring st s) (unat j)) = 0 \<and>
     (\<forall>q e'. syPage st q = PClaimed s e' j \<longrightarrow> q = p)) \<and>
   (case sySweep st of CDrain safe i lim j \<Rightarrow> lim \<le> esTail (ring st i) | _ \<Rightarrow> True)"

definition taken_ok :: "epoch_system \<Rightarrow> bool" where
  "taken_ok st \<longleftrightarrow> distinct (syToFree st) \<and> (\<forall>p\<in>set (syToFree st). syPage st p = PTaken)"

definition epoch_inv :: "epoch_system \<Rightarrow> bool" where
  "epoch_inv st \<longleftrightarrow> readers_ok st \<and> held_ok st \<and> scan_ok st \<and> rings_ok st \<and> claims_ok st \<and> taken_ok st"

lemmas sys_simps = set_pc_def set_page_def set_ring_def publish_def start_read_def AllocSlot_def

lemma kept_simps [simp]: "kept b PLinked" "kept b PUnlinked" "\<not> kept b PTaken" "\<not> kept b PFree"
  "kept b (PLoaded s e) \<longleftrightarrow> b \<le> e" "kept b (PClaimed s e j) \<longleftrightarrow> b \<le> e" "kept b (PRetired s e j) \<longleftrightarrow> b \<le> e"
  by (simp_all add: kept_def)

lemma kept_mono: "kept b ps \<Longrightarrow> c \<le> b \<Longrightarrow> kept c ps"
  by (cases ps) auto

lemma guards_mono: "guards st t b \<Longrightarrow> c \<le> b \<Longrightarrow> guards st t c"
  by (auto simp: guards_def intro: kept_mono)

lemma start_inv: "epoch_inv epoch_start"
  by (simp add: epoch_inv_def readers_ok_def reader_ok_def held_ok_def scan_ok_def rings_ok_def claims_ok_def taken_ok_def epoch_start_def
    NewEpochManager_def pc_ok_def epochInit_def)

lemma slot_index: "AllocSlot em = (s, em') \<Longrightarrow> s < maxReaderSlots"
  by (auto simp: AllocSlot_def Let_def maxReaderSlots_def)

lemma next_epoch: "(e :: u64) < MaxUint64 \<Longrightarrow> unat (e + 1) = Suc (unat e) \<and> e \<le> e + 1 \<and> e + 1 \<noteq> 0"
proof -
  assume "e < MaxUint64"
  then have "unat e < 18446744073709551615" by (simp add: MaxUint64_def word_less_nat_alt)
  then have "unat (e + 1) = Suc (unat e)" by (simp add: unat_word_ariths)
  then show ?thesis by (auto simp: word_le_nat_alt)
qed

lemma pc_ok_simps [simp]:
  "pc_ok cur r RIdle" "pc_ok cur r RSlot" "pc_ok cur r RReload" "pc_ok cur r (RLoaded e) \<longleftrightarrow> e \<noteq> 0 \<and> e \<le> cur"
  "pc_ok cur r (RStored e) \<longleftrightarrow> e \<noteq> 0 \<and> r = e" "pc_ok cur r (RReloaded e) \<longleftrightarrow> e \<noteq> 0 \<and> e \<le> cur" "pc_ok cur r RReading \<longleftrightarrow> r \<noteq> 0"
  by (simp_all add: pc_ok_def)

lemma pc_ok_mono: "pc_ok cur r pc \<Longrightarrow> cur \<le> cur' \<Longrightarrow> pc_ok cur' r pc"
  by (cases pc) (auto intro: order_trans)

text \<open>A store to the slot of one reader is not seen by another.\<close>

lemma own_slotsD: "own_slots st \<Longrightarrow> syPc st u \<noteq> RIdle \<Longrightarrow> syPc st t \<noteq> RIdle \<Longrightarrow> t \<noteq> u \<Longrightarrow> syOwn st t \<noteq> syOwn st u"
  by (auto simp: own_slots_def)

lemma step_reader_ok:
  assumes "estep st st'" "reader_ok st t" "own_slots st" "epoch_now st < MaxUint64" "epoch_now st \<noteq> 0"
  shows "reader_ok st' t"
  using assms(1)
proof cases
  case (alloc u s em)
  have "s < maxReaderSlots" by (rule slot_index [OF alloc(3)])
  moreover have "epoch_now st = globalEpoch em" "readers st = emReaders em" using alloc(3) by (auto simp: AllocSlot_def Let_def)
  ultimately show ?thesis using assms(2) alloc by (auto simp: reader_ok_def set_pc_def)
next
  case (store u e)
  then show ?thesis using assms(2) own_slotsD [OF assms(3), of u t] by (cases "syPc st t = RIdle") (auto simp: reader_ok_def sys_simps)
next
  case (restore u e)
  then show ?thesis using assms(2) own_slotsD [OF assms(3), of u t] by (cases "syPc st t = RIdle") (auto simp: reader_ok_def sys_simps)
next
  case (leave u)
  then show ?thesis using assms(2) own_slotsD [OF assms(3), of u t] by (cases "syPc st t = RIdle") (auto simp: reader_ok_def sys_simps)
next
  case advance
  then show ?thesis using assms(2) next_epoch [OF assms(4)] by (auto simp: reader_ok_def intro: pc_ok_mono)
qed (use assms(2,5) in \<open>auto simp: reader_ok_def sys_simps Let_def\<close>)

lemma step_slot_values:
  assumes "estep st st'" "readers_ok st" "epoch_now st < MaxUint64"
  shows "epoch_now st' \<noteq> 0 \<and> readers st' i \<le> epoch_now st'"
  using assms(1)
proof cases
  case (store u e)
  then have "pc_ok (epoch_now st) (readers st (syOwn st u)) (RLoaded e)" using assms(2) by (metis readers_ok_def reader_ok_def)
  then show ?thesis using assms(2) store by (auto simp: readers_ok_def sys_simps)
next
  case (restore u e)
  then have "pc_ok (epoch_now st) (readers st (syOwn st u)) (RReloaded e)" using assms(2) by (metis readers_ok_def reader_ok_def)
  then show ?thesis using assms(2) restore by (auto simp: readers_ok_def sys_simps)
next
  case advance
  have "readers st i \<le> epoch_now st" using assms(2) by (simp add: readers_ok_def)
  then show ?thesis using next_epoch [OF assms(3)] advance by (auto intro: order_trans)
qed (use assms(2) in \<open>auto simp: readers_ok_def sys_simps Let_def\<close>)

lemma step_readers_ok:
  assumes "estep st st'" "readers_ok st" "own_slots st" "epoch_now st < MaxUint64"
  shows "readers_ok st'"
  using step_slot_values [OF assms(1,2,4)] step_reader_ok [OF assms(1) _ assms(3,4)] assms(2) by (auto simp: readers_ok_def)

lemma drained_entry:
  assumes "rings_ok st" "claims_ok st" "first_lap st" "sySweep st = CDrain safe i lim j" "j < lim" "reEpoch (ring_entry st i j) \<noteq> 0"
  shows "syPage st (rePageID (ring_entry st i j)) = PRetired i (reEpoch (ring_entry st i j)) j" "unat j < ringSize" "j < esTail (ring st i)"
proof -
  show tail: "j < esTail (ring st i)" using assms(2,4,5) by (auto simp: claims_ok_def)
  then show n: "unat j < ringSize" using assms(3) by (auto simp: first_lap_def word_less_nat_alt intro: less_le_trans)
  have e: "ring_entry st i j = esBuf (ring st i) (unat j)" "ring_first st i = j" using n assms(4) by (simp_all add: ring_entry_def ring_first_def)
  have "\<exists>k. unat k = unat j \<and> syPage st (rePageID (esBuf (ring st i) (unat j))) = PRetired i (reEpoch (esBuf (ring st i) (unat j))) k"
    using assms(1,6) n e by (simp add: rings_ok_def)
  then show "syPage st (rePageID (ring_entry st i j)) = PRetired i (reEpoch (ring_entry st i j)) j" by (auto simp: e(1) word_unat_eq_iff)
qed

text \<open>What a reader may use stays safe for it: pages reach the ring with the current epoch, and only pages below the bound of the
  reclaimer are taken out.\<close>

lemma step_kept:
  assumes "estep st st'" "b \<le> epoch_now st" "kept b (syPage st p)" "scan_ok st" "\<exists>t. syPc st t = RReading \<and> p \<in> syHeld st t"
    "rings_ok st" "claims_ok st" "taken_ok st" "first_lap st"
  shows "kept b (syPage st' p)"
  using assms(1)
proof cases
  case (take_entry safe i lim j)
  have "kept safe (syPage st p)" using assms(4,5) take_entry(2) by (auto simp: scan_ok_def all_guard_def guards_def)
  then have "p \<noteq> rePageID (ring_entry st i j)" using drained_entry(1) [OF assms(6,7,9) take_entry(2-4)] take_entry(5) by auto
  then show ?thesis using assms(3) take_entry(1) by (simp add: sys_simps)
next
  case (free q qs)
  then show ?thesis using assms(3,8) by (auto simp: sys_simps taken_ok_def)
qed (use assms(2,3) in \<open>auto simp: sys_simps Let_def\<close>)

text \<open>A reader that reads after a step was reading before it with the same epoch, or has just started.\<close>

lemma step_reading:
  assumes "estep st st'" "syPc st' t = RReading" "own_slots st"
  obtains "syPc st t = RReading" "syOwn st' t = syOwn st t" "readers st' (syOwn st t) = readers st (syOwn st t)"
      "\<forall>p\<in>syHeld st' t. p \<in> syHeld st t \<or> syPage st' p = PLinked"
    | "\<forall>p\<in>syHeld st' t. syPage st' p = PLinked"
proof -
  have "(syPc st t = RReading \<and> syOwn st' t = syOwn st t \<and> readers st' (syOwn st t) = readers st (syOwn st t) \<and>
      (\<forall>p\<in>syHeld st' t. p \<in> syHeld st t \<or> syPage st' p = PLinked)) \<or> (\<forall>p\<in>syHeld st' t. syPage st' p = PLinked)"
    using assms(1)
  proof cases
    case (store u e)
    then show ?thesis using assms(2,3) by (auto simp: sys_simps own_slots_def split: if_splits)
  next
    case (restore u e)
    then show ?thesis using assms(2,3) by (auto simp: sys_simps own_slots_def split: if_splits)
  next
    case (leave u)
    then show ?thesis using assms(2,3) by (auto simp: sys_simps own_slots_def split: if_splits)
  qed (use assms(2) in \<open>auto simp: sys_simps Let_def split: if_splits\<close>)
  then show ?thesis using that by blast
qed

lemma step_guards:
  assumes "estep st st'" "epoch_inv st" "calm st" "syPc st' t = RReading" "b \<le> epoch_now st" "syPc st t = RReading \<Longrightarrow> guards st t b"
  shows "guards st' t b"
proof -
  have c: "own_slots st" "first_lap st" using assms(3) by (simp_all add: calm_def)
  have i: "scan_ok st" "rings_ok st" "claims_ok st" "taken_ok st" using assms(2) by (simp_all add: epoch_inv_def)
  from assms(1,4) c(1) show ?thesis
  proof (cases rule: step_reading)
    case 1
    have "kept b (syPage st' p)" if "p \<in> syHeld st t" for p
      using 1(1) that assms(6) by (intro step_kept [OF assms(1,5) _ i(1) _ i(2-4) c(2)]) (auto simp: guards_def)
    then show ?thesis using 1(4) by (auto simp: guards_def)
  qed (simp add: guards_def)
qed

lemma step_epoch: "estep st st' \<Longrightarrow> epoch_now st < MaxUint64 \<Longrightarrow> epoch_now st \<le> epoch_now st' \<and> (sySweep st \<noteq> CIdle \<longrightarrow> epoch_now st' = epoch_now st)"
  by (induction rule: estep.induct) (auto simp: sys_simps Let_def next_epoch)

lemma step_held_ok:
  assumes "estep st st'" "epoch_inv st" "calm st"
  shows "held_ok st'"
  unfolding held_ok_def
proof (intro allI impI)
  fix t assume t: "syPc st' t = RReading"
  have c: "own_slots st" using assms(3) by (simp add: calm_def)
  from assms(1) t c show "guards st' t (readers st' (syOwn st' t))"
  proof (cases rule: step_reading)
    case 1
    have "guards st' t (readers st (syOwn st t))"
      using assms(2) 1(1) by (intro step_guards [OF assms t]) (auto simp: epoch_inv_def readers_ok_def held_ok_def)
    then show ?thesis using 1(2,3) by simp
  qed (simp add: guards_def)
qed

lemma step_all_guard:
  assumes "estep st st'" "epoch_inv st" "calm st" "all_guard st b"
  shows "all_guard st' b"
proof -
  have b: "b \<le> epoch_now st" using assms(4) by (simp add: all_guard_def)
  have "epoch_now st \<le> epoch_now st'" using step_epoch [OF assms(1)] assms(3) by (simp add: calm_def)
  then show ?thesis using b step_guards [OF assms(1-3)] assms(4) by (auto simp: all_guard_def intro: order_trans)
qed

lemma step_scan:
  assumes "estep st st'" "epoch_inv st" "calm st" "sySweep st = CScan i m" "sySweep st' = CScan i m"
  shows "scan_ok st'"
proof -
  have c: "own_slots st" "epoch_now st < MaxUint64" using assms(3) by (simp_all add: calm_def)
  have e: "epoch_now st' = epoch_now st" using step_epoch [OF assms(1) c(2)] assms(4) by simp
  have ok: "m = MaxUint64 \<or> m \<le> epoch_now st"
    "\<And>t. syPc st t = RReading \<Longrightarrow> syOwn st t < i \<Longrightarrow> m \<le> readers st (syOwn st t) \<or> guards st t (epoch_now st)"
    using assms(2,4) by (auto simp: epoch_inv_def scan_ok_def)
  have "m \<le> readers st' (syOwn st' t) \<or> guards st' t (epoch_now st)" if t: "syPc st' t = RReading" "syOwn st' t < i" for t
    using assms(1) t(1) c(1)
  proof (cases rule: step_reading)
    case 1
    then show ?thesis using ok(2) [of t] t step_guards [OF assms(1-3) t(1), of "epoch_now st"] by auto
  qed (simp add: guards_def)
  then show ?thesis using ok(1) e assms(5) by (simp add: scan_ok_def)
qed

lemma scan_to_guard:
  assumes "readers_ok st" "held_ok st" "calm st" "sySweep st = CScan maxReaderSlots m" "scan_ok st"
  shows "all_guard st (if m \<noteq> MaxUint64 then m else epoch_now st)"
  unfolding all_guard_def
proof (intro conjI allI impI)
  let ?s = "if m \<noteq> MaxUint64 then m else epoch_now st"
  have m: "m = MaxUint64 \<or> m \<le> epoch_now st" using assms(4,5) by (simp add: scan_ok_def)
  then show le: "?s \<le> epoch_now st" by auto
  fix t assume t: "syPc st t = RReading"
  have r: "syOwn st t < maxReaderSlots" "readers st (syOwn st t) \<le> epoch_now st" "epoch_now st < MaxUint64"
    using assms(1,3) t by (auto simp: readers_ok_def reader_ok_def calm_def)
  have "m \<le> readers st (syOwn st t) \<or> guards st t (epoch_now st)" using assms(4,5) t r(1) by (simp add: scan_ok_def)
  then show "guards st t ?s"
  proof
    assume "m \<le> readers st (syOwn st t)"
    moreover have "guards st t (readers st (syOwn st t))" using assms(2) t by (simp add: held_ok_def)
    ultimately show ?thesis using r by (auto intro: guards_mono)
  qed (use le guards_mono in blast)
qed

lemma step_scan_ok:
  assumes "estep st st'" "epoch_inv st" "calm st"
  shows "scan_ok st'"
proof -
  have same: "scan_ok st'" if "sySweep st' = sySweep st"
    using that step_all_guard [OF assms] step_scan [OF assms] assms(2) by (cases "sySweep st") (auto simp: scan_ok_def epoch_inv_def)
  have guarded: "all_guard st' safe" if "sySweep st = CSlot safe i \<or> sySweep st = CDrain safe i lim j" for safe i lim j
    using that assms(2) by (intro step_all_guard [OF assms]) (auto simp: epoch_inv_def scan_ok_def)
  from assms(1) show ?thesis
  proof cases
    case advance
    then show ?thesis by (simp add: scan_ok_def)
  next
    case (scan i m)
    have "readers st i \<le> epoch_now st" using assms(2) by (simp add: epoch_inv_def readers_ok_def)
    moreover have "readers st (syOwn st t) \<noteq> 0" if "syPc st t = RReading" for t
      using assms(2) that by (metis epoch_inv_def readers_ok_def reader_ok_def pc_ok_simps(7))
    ultimately show ?thesis using scan assms(2) by (auto simp: scan_ok_def epoch_inv_def guards_def less_Suc_eq)
  next
    case (scanned m)
    have "all_guard st (if m \<noteq> MaxUint64 then m else epoch_now st)"
      using assms(2,3) scanned by (intro scan_to_guard) (simp_all add: epoch_inv_def)
    then show ?thesis using scanned by (simp add: scan_ok_def all_guard_def guards_def)
  qed (use same guarded in \<open>simp_all add: scan_ok_def sys_simps Let_def\<close>)
qed

lemma step_taken_ok:
  assumes "estep st st'" "epoch_inv st" "calm st"
  shows "taken_ok st'"
  using assms(1)
proof cases
  case (take_entry safe i lim j)
  have "syPage st (rePageID (ring_entry st i j)) \<noteq> PTaken"
    using assms(2,3) drained_entry(1) [OF _ _ _ take_entry(2-4)] by (simp add: epoch_inv_def calm_def)
  then show ?thesis using assms(2) take_entry(1) by (auto simp: epoch_inv_def taken_ok_def set_page_def)
qed (use assms(2) in \<open>auto simp: epoch_inv_def taken_ok_def sys_simps Let_def\<close>)

text \<open>The first lap of a ring: positions below the tail are below its size and the tail does not wrap.\<close>

lemma lap_claim:
  assumes "first_lap st" "first_lap (set_page p ps (set_ring s ((ring st s)\<lparr>esTail := esTail (ring st s) + 1\<rparr>) st))"
  shows "unat (esTail (ring st s)) < ringSize" "unat (esTail (ring st s) + 1) = Suc (unat (esTail (ring st s)))"
proof -
  have a: "unat (esTail (ring st s)) \<le> 16384" using assms(1) by (simp add: first_lap_def ringSize_def)
  then show b: "unat (esTail (ring st s) + 1) = Suc (unat (esTail (ring st s)))" by (simp add: unat_word_ariths)
  have "unat (esTail (ring st s) + 1) \<le> ringSize" using assms(2) by (auto simp: first_lap_def set_page_def set_ring_def dest: spec [of _ s])
  with b show "unat (esTail (ring st s)) < ringSize" by simp
qed

lemma claimed_position:
  assumes "claims_ok st" "first_lap st" "syPage st p = PClaimed s e j"
  shows "unat j < ringSize"
proof -
  have "j < esTail (ring st s)" using assms(1,3) by (simp add: claims_ok_def)
  moreover have "unat (esTail (ring st s)) \<le> ringSize" using assms(2) by (simp add: first_lap_def)
  ultimately show ?thesis by (simp add: word_less_nat_alt)
qed

lemma step_claims_ok:
  assumes "estep st st'" "epoch_inv st" "calm st" "calm st'"
  shows "claims_ok st'"
proof -
  have c: "claims_ok st" "rings_ok st" "first_lap st" using assms(2,3) by (simp_all add: epoch_inv_def calm_def)
  have pos: "unat j < ringSize" if "syPage st p = PClaimed s e j" for p s e j using claimed_position [OF c(1,3) that] .
  from assms(1) show ?thesis
  proof cases
    case (claim p s e)
    note L = lap_claim [OF c(3), of p "PClaimed s e (esTail (ring st s))" s]
    have "first_lap st'" using assms(4) by (simp add: calm_def)
    then have l: "unat (esTail (ring st s)) < ringSize" "unat (esTail (ring st s) + 1) = Suc (unat (esTail (ring st s)))" using L claim(1) by auto
    then have lt: "x < esTail (ring st s) + 1 \<longleftrightarrow> x < esTail (ring st s) \<or> x = esTail (ring st s)" "x \<le> esTail (ring st s) \<Longrightarrow> x \<le> esTail (ring st s) + 1" for x
      by (auto simp: word_less_nat_alt word_le_nat_alt less_Suc_eq word_unat_eq_iff)
    have new: "reEpoch (esBuf (ring st s) (unat (esTail (ring st s)))) = 0" using c(2) l(1) by (simp add: rings_ok_def)
    have none: "syPage st q \<noteq> PClaimed s x (esTail (ring st s))" for q x using c(1) by (auto simp: claims_ok_def)
    show ?thesis using c(1) claim(1,2) lt new none by (auto simp: claims_ok_def set_page_def set_ring_def split: sweep_pc.splits)
  next
    case (commit p s e j)
    have uniq: "q = p" if "syPage st q = PClaimed s x y" "unat y = unat j" for q x y
    proof -
      have "y = j" using that(2) by (simp add: word_unat_eq_iff)
      then show ?thesis using c(1) commit(2) that(1) unfolding claims_ok_def by blast
    qed
    have n: "unat j mod ringSize = unat j" using pos [OF commit(2)] by simp
    have "j' < esTail (ring st' s') \<and> reEpoch (esBuf (ring st' s') (unat j')) = 0 \<and> (\<forall>r x'. syPage st' r = PClaimed s' x' j' \<longrightarrow> r = q)"
      if "syPage st' q = PClaimed s' x j'" for q s' x j'
    proof -
      have q: "q \<noteq> p" "syPage st q = PClaimed s' x j'" using that commit(1) by (auto simp: set_page_def set_ring_def split: if_splits)
      then have old: "j' < esTail (ring st s')" "reEpoch (esBuf (ring st s') (unat j')) = 0" "\<forall>r x'. syPage st r = PClaimed s' x' j' \<longrightarrow> r = q"
        using c(1) unfolding claims_ok_def by blast+
      have "s' = s \<longrightarrow> unat j' \<noteq> unat j" using uniq q by blast
      then show ?thesis using old commit(1) n by (cases "s' = s") (simp_all add: set_page_def set_ring_def)
    qed
    moreover have "case sySweep st' of CDrain safe i lim j \<Rightarrow> lim \<le> esTail (ring st' i) | _ \<Rightarrow> True"
      using c(1) commit(1) by (cases "sySweep st") (auto simp: claims_ok_def set_page_def set_ring_def)
    ultimately show ?thesis unfolding claims_ok_def by blast
  qed (use c(1) in \<open>auto simp: claims_ok_def sys_simps Let_def split: sweep_pc.splits\<close>)
qed


lemma ring_first_cong: "sySweep st' = sySweep st \<Longrightarrow> esHead (ring st' i) = esHead (ring st i) \<Longrightarrow> ring_first st' i = ring_first st i"
  by (simp add: ring_first_def split: sweep_pc.splits)

text \<open>A step that keeps the rings, and every page that was retired, keeps the rings in order.\<close>

lemma rings_ok_frame:
  assumes "rings_ok st"
    "\<And>i. esBuf (ring st' i) = esBuf (ring st i) \<and> unat (esTail (ring st i)) \<le> unat (esTail (ring st' i))"
    "\<And>i. unat (ring_first st i) \<le> unat (ring_first st' i)"
    "\<And>p s e j. syPage st p = PRetired s e j \<Longrightarrow> unat (ring_first st' s) \<le> unat j \<Longrightarrow> syPage st' p = PRetired s e j"
  shows "rings_ok st'"
  unfolding rings_ok_def
proof (intro allI impI conjI)
  fix i n assume n: "n < ringSize"
  show "reEpoch (esBuf (ring st' i) n) = 0" if "unat (esTail (ring st' i)) \<le> n"
    using assms(1) assms(2) [of i] n that by (simp add: rings_ok_def)
  assume f: "unat (ring_first st' i) \<le> n" "reEpoch (esBuf (ring st' i) n) \<noteq> 0"
  then have "unat (ring_first st i) \<le> n" using assms(3) [of i] by simp
  then obtain j where "unat j = n" "syPage st (rePageID (esBuf (ring st i) n)) = PRetired i (reEpoch (esBuf (ring st i) n)) j"
    using assms(1) assms(2) [of i] n f(2) by (auto simp: rings_ok_def)
  with assms(4) f(1) show "\<exists>j. unat j = n \<and> syPage st' (rePageID (esBuf (ring st' i) n)) = PRetired i (reEpoch (esBuf (ring st' i) n)) j"
    using assms(2) [of i] by auto
qed

lemma step_rings_ok:
  assumes "estep st st'" "epoch_inv st" "calm st" "calm st'"
  shows "rings_ok st'"
proof -
  have c: "claims_ok st" "rings_ok st" "taken_ok st" "first_lap st" using assms(2,3) by (simp_all add: epoch_inv_def calm_def)
  from assms(1) show ?thesis
  proof cases
    case (claim p s e)
    have f: "ring_first st' i = ring_first st i" for i using claim(1) by (intro ring_first_cong) (simp_all add: set_page_def set_ring_def)
    have l: "unat (esTail (ring st s) + 1) = Suc (unat (esTail (ring st s)))"
      using lap_claim(2) [OF c(4), of p "PClaimed s e (esTail (ring st s))" s] assms(4) claim(1) by (simp add: calm_def)
    show ?thesis using f claim(2) by (intro rings_ok_frame [OF c(2)]) (auto simp: claim(1) set_page_def set_ring_def l)
  next
    case (commit p s e j)
    have f: "ring_first st' i = ring_first st i" for i using commit(1) by (intro ring_first_cong) (simp_all add: set_page_def set_ring_def)
    have j: "unat j < ringSize" "unat j < unat (esTail (ring st s))"
      using claimed_position [OF c(1,4) commit(2)] c(1) commit(2) by (auto simp: claims_ok_def word_less_nat_alt)
    have old: "rePageID (esBuf (ring st i) n) \<noteq> p" if "n < ringSize" "unat (ring_first st i) \<le> n" "reEpoch (esBuf (ring st i) n) \<noteq> 0" for i n
      using c(2) that commit(2) by (fastforce simp: rings_ok_def)
    show ?thesis using c(2) old j unfolding rings_ok_def f by (auto simp: commit(1) set_page_def set_ring_def)
  next
    case (take_entry safe i lim j)
    note D = drained_entry [OF c(2,1,4) take_entry(2-4)]
    have "unat (j + 1) = Suc (unat j)" using D(2) by (simp add: unat_word_ariths ringSize_def)
    then have f: "unat (ring_first st k) \<le> unat (ring_first st' k)" "k = i \<Longrightarrow> unat (ring_first st' k) = Suc (unat j)" for k
      using take_entry(1,2) by (auto simp: ring_first_def set_page_def)
    show ?thesis
    proof (rule rings_ok_frame [OF c(2) _ f(1)])
      fix q k e x assume q: "syPage st q = PRetired k e x" "unat (ring_first st' k) \<le> unat x"
      have "q \<noteq> rePageID (ring_entry st i j)" using q D(1) f(2) [of k] by auto
      then show "syPage st' q = PRetired k e x" using q(1) take_entry(1) by (simp add: set_page_def)
    qed (simp add: take_entry(1) set_page_def)
  next
    case (stop safe i lim j)
    have f: "ring_first st' k = ring_first st k" for k using stop(1,2) by (simp add: ring_first_def set_ring_def)
    show ?thesis using f by (intro rings_ok_frame [OF c(2)]) (auto simp: stop(1) set_ring_def)
  next
    case (free p ps)
    then show ?thesis using c(3) by (intro rings_ok_frame [OF c(2)]) (auto simp: set_page_def ring_first_def taken_ok_def)
  qed (rule rings_ok_frame [OF c(2)]; auto simp: sys_simps Let_def ring_first_def split: sweep_pc.splits)+
qed

section \<open>Safety\<close>

lemma epoch_inv_step:
  assumes "estep st st'" "epoch_inv st" "calm st" "calm st'"
  shows "epoch_inv st'"
  using step_readers_ok [OF assms(1)] step_held_ok [OF assms(1-3)] step_scan_ok [OF assms(1-3)] step_rings_ok [OF assms]
    step_claims_ok [OF assms] step_taken_ok [OF assms(1-3)] assms(2,3) by (simp add: epoch_inv_def calm_def)

lemma ereach_calm: "ereach st \<Longrightarrow> calm st"
  by (induction rule: ereach.induct)
    (auto simp: calm_def own_slots_def first_lap_def epoch_start_def NewEpochManager_def epochInit_def MaxUint64_def)

lemma ereach_inv: "ereach st \<Longrightarrow> epoch_inv st"
  by (induction rule: ereach.induct) (use start_inv epoch_inv_step ereach_calm in blast)+

lemma free_is_safe:
  assumes "ereach st" "p \<in> set (syToFree st)"
  shows "p \<notin> syHeld st t \<and> syPage st p = PTaken"
proof -
  note inv = ereach_inv [OF assms(1)]
  have p: "syPage st p = PTaken" using inv assms(2) by (simp add: epoch_inv_def taken_ok_def)
  have "p \<notin> syHeld st t"
  proof (cases "syPc st t = RReading")
    case True
    then have "guards st t (readers st (syOwn st t))" using inv by (simp add: epoch_inv_def held_ok_def)
    then show ?thesis using p by (auto simp: guards_def)
  next
    case False
    then show ?thesis using inv by (simp add: epoch_inv_def readers_ok_def reader_ok_def)
  qed
  with p show ?thesis by simp
qed

section \<open>Runs\<close>

text \<open>A step that concerns no reader.\<close>

definition quiet :: "epoch_system \<Rightarrow> epoch_system \<Rightarrow> bool" where
  "quiet st st' \<longleftrightarrow> estep st st' \<and> syPc st' = syPc st \<and> syOwn st' = syOwn st \<and> syHeld st' = syHeld st \<and>
     first_lap st' \<and> epoch_now st' < MaxUint64"

lemma quiet_run:
  assumes "quiet\<^sup>*\<^sup>* st st'"
  shows "estep\<^sup>*\<^sup>* st st' \<and> syPc st' = syPc st \<and> syHeld st' = syHeld st \<and> (ereach st \<longrightarrow> ereach st') \<and> syOwn st' = syOwn st"
  using assms
proof (induction rule: rtranclp_induct)
  case (step y z)
  have "own_slots z" if "ereach st" using ereach_calm [of y] step(2,3) that by (simp add: calm_def quiet_def own_slots_def)
  then show ?case using step(2,3) by (auto simp: quiet_def calm_def intro: rtranclp.rtrancl_into_rtrancl ereach.step)
qed simp

lemma scan_run:
  assumes "sySweep st = CScan 0 MaxUint64" "readers st = (\<lambda>_. 0)" "first_lap st" "epoch_now st < MaxUint64"
  shows "i \<le> maxReaderSlots \<Longrightarrow> quiet\<^sup>*\<^sup>* st (st\<lparr>sySweep := CScan i MaxUint64\<rparr>)"
proof (induction i)
  case 0
  have "st\<lparr>sySweep := CScan 0 MaxUint64\<rparr> = st" using assms(1) by simp
  then show ?case by simp
next
  case (Suc i)
  have "estep (st\<lparr>sySweep := CScan i MaxUint64\<rparr>) (st\<lparr>sySweep := CScan (Suc i) MaxUint64\<rparr>)"
    using estep.scan [of "st\<lparr>sySweep := CScan i MaxUint64\<rparr>" i MaxUint64] Suc(2) assms(2) by simp
  then have "quiet (st\<lparr>sySweep := CScan i MaxUint64\<rparr>) (st\<lparr>sySweep := CScan (Suc i) MaxUint64\<rparr>)"
    using assms(3,4) by (simp add: quiet_def first_lap_def)
  then show ?case using Suc by (auto intro: rtranclp.rtrancl_into_rtrancl)
qed

text \<open>With no epoch published, a page that is unlinked and retired is taken out by the next sweep.\<close>

lemma retire_run:
  assumes "syPage st p = PLinked" "ring st = emSlots NewEpochManager" "readers st = (\<lambda>_. 0)" "epoch_now st = 1"
    "sySweep st = CIdle" "syToFree st = []"
  shows "\<exists>st'. quiet\<^sup>*\<^sup>* st st' \<and> syToFree st' = [p]"
proof -
  define em where "em = syMgr st"
  have em: "syMgr st = em" "emSlots em = emSlots NewEpochManager" "emReaders em = (\<lambda>_. 0)" "globalEpoch em = 1" using assms(2-4) by (simp_all add: em_def)
  define r1 where "r1 = (emSlots em 0)\<lparr>esTail := 1\<rparr>"
  define r2 where "r2 = r1\<lparr>esBuf := (esBuf r1)(0 := \<lparr>rePageID = p, reEpoch = 1\<rparr>)\<rparr>"
  have r0: "esTail (emSlots em 0) = 0" "esHead (emSlots em 0) = 0" "\<And>i. esTail (emSlots em i) = 0" using em(2) by (simp_all add: NewEpochManager_def)
  define s1 where "s1 = set_page p PUnlinked st"
  define s2 where "s2 = set_page p (PLoaded 0 1) s1"
  define s3 where "s3 = set_page p (PClaimed 0 1 0) (set_ring 0 r1 s2)"
  define s4 where "s4 = set_page p (PRetired 0 1 0) (set_ring 0 r2 s3)"
  define s5 where "s5 = s4\<lparr>syMgr := (syMgr s4)\<lparr>globalEpoch := 2\<rparr>, sySweep := CScan 0 MaxUint64\<rparr>"
  define s6 where "s6 = s5\<lparr>sySweep := CScan maxReaderSlots MaxUint64\<rparr>"
  define s7 where "s7 = s6\<lparr>sySweep := CSlot 2 0\<rparr>"
  define s8 where "s8 = s7\<lparr>sySweep := CDrain 2 0 1 0\<rparr>"
  define s9 where "s9 = set_page p PTaken (s8\<lparr>syToFree := [p], sySweep := CDrain 2 0 1 1\<rparr>)"
  note d = s1_def s2_def s3_def s4_def s5_def s6_def s7_def s8_def s9_def set_page_def set_ring_def r1_def r2_def ringSize_def
  have lim: "(1::u64) < MaxUint64" "(2::u64) < MaxUint64" by (simp_all add: MaxUint64_def)
  have fl: "first_lap s1" "first_lap s2" "first_lap s3" "first_lap s4" "first_lap s5" "first_lap s6" "first_lap s7" "first_lap s8" "first_lap s9"
    using em(1) r0 by (simp_all add: first_lap_def d)
  have e: "epoch_now s1 = 1" "epoch_now s2 = 1" "epoch_now s3 = 1" "epoch_now s4 = 1" "epoch_now s5 = 2" "epoch_now s6 = 2" "epoch_now s7 = 2"
    "epoch_now s8 = 2" "epoch_now s9 = 2" using em(1,4) by (simp_all add: d)
  have "estep st s1" using estep.unlink [OF assms(1)] by (simp add: s1_def)
  then have 1: "quiet st s1" using fl(1) e(1) lim by (simp add: quiet_def) (simp add: d)
  have "estep s1 s2" using estep.retire_load [of s1 p 0] e(1) by (simp add: s2_def) (simp add: d maxReaderSlots_def)
  then have 2: "quiet s1 s2" using fl(2) e(2) lim by (simp add: quiet_def) (simp add: d)
  have "ring s2 0 = emSlots em 0" using em(1) by (simp add: d)
  then have "estep s2 s3" using estep.claim [of s2 p 0 1] r0 by (simp add: s3_def r1_def) (simp add: d)
  then have 3: "quiet s2 s3" using fl(3) e(3) lim by (simp add: quiet_def) (simp add: d)
  have "ring s3 0 = r1" by (simp add: d)
  then have "estep s3 s4" using estep.commit [of s3 p 0 1 0] by (simp add: s4_def r2_def) (simp add: d)
  then have 4: "quiet s3 s4" using fl(4) e(4) lim by (simp add: quiet_def) (simp add: d)
  have "estep s4 s5" using estep.advance [of s4] e(4) assms(5) by (simp add: s5_def) (simp add: d)
  then have 5: "quiet s4 s5" using fl(5) e(5) lim by (simp add: quiet_def) (simp add: d)
  have 6: "quiet\<^sup>*\<^sup>* s5 s6" unfolding s6_def using em(1,3) fl(5) e(5) lim by (intro scan_run) (simp_all add: d)
  have "estep s6 s7" using estep.scanned [of s6 MaxUint64] e(6) by (simp add: s7_def) (simp add: s6_def)
  then have 7: "quiet s6 s7" using fl(7) e(7) lim by (simp add: quiet_def) (simp add: d)
  have "ring s7 0 = r2" by (simp add: d)
  then have "estep s7 s8" using estep.slot_begin [of s7 2 0] r0 by (simp add: s8_def r2_def r1_def) (simp add: s7_def maxReaderSlots_def)
  then have 8: "quiet s7 s8" using fl(8) e(8) lim by (simp add: quiet_def) (simp add: d)
  have "ring_entry s8 0 0 = \<lparr>rePageID = p, reEpoch = 1\<rparr>" "syToFree s8 = []" using assms(6) by (simp_all add: ring_entry_def d)
  then have "estep s8 s9" using estep.take_entry [of s8 2 0 1 0] by (simp add: s9_def) (simp add: s8_def)
  then have 9: "quiet s8 s9" using fl(9) e(9) lim by (simp add: quiet_def) (simp add: d)
  have "quiet\<^sup>*\<^sup>* st s9" using 1 2 3 4 5 6 7 8 9 by (meson converse_rtranclp_into_rtranclp r_into_rtranclp rtranclp_trans)
  then show ?thesis by (auto simp: s9_def set_page_def)
qed

text \<open>Claim C17. No page is freed under a reader. Whatever the interleaving of readers entering and leaving, of writers linking,
  unlinking and retiring pages, and of the reclaimer, a page the reclaimer has taken out of a ring to free it is in reach of no
  reader that is still reading, provided every reader has its slot to itself, the rings are on their first lap and the epoch
  counter has not reached its last value.\<close>

theorem epoch_no_use_after_free:
  assumes "ereach st" "p \<in> set (syToFree st)"
  shows "p \<notin> syHeld st t \<and> syPage st p = PTaken"
  using assms by (rule free_is_safe)

text \<open>The state after one page has been linked.\<close>

definition one_page :: epoch_system where
  "one_page = set_page 7 PLinked epoch_start"

lemma one_page_step: "estep epoch_start one_page" "calm one_page"
proof -
  have "epoch_start\<lparr>syHeld := \<lambda>t. if syPc epoch_start t = RReading then insert 7 (syHeld epoch_start t) else syHeld epoch_start t\<rparr> = epoch_start"
    by (simp add: epoch_start_def)
  then show "estep epoch_start one_page" using estep.link [of epoch_start 7] by (simp add: one_page_def) (simp add: epoch_start_def)
  show "calm one_page" using ereach_calm [OF ereach.start] by (simp add: one_page_def calm_def own_slots_def first_lap_def set_page_def)
qed

theorem epoch_no_use_after_free_witness:
  "\<exists>st. ereach st \<and> syToFree st = [7] \<and> 7 \<notin> syHeld st 0 \<and> syPage st 7 = PTaken"
proof -
  have r: "ereach one_page" by (rule ereach.step [OF ereach.start one_page_step])
  have "\<exists>st'. quiet\<^sup>*\<^sup>* one_page st' \<and> syToFree st' = [7]"
    by (rule retire_run) (simp_all add: one_page_def set_page_def epoch_start_def NewEpochManager_def epochInit_def)
  then obtain st where st: "quiet\<^sup>*\<^sup>* one_page st" "syToFree st = [7]" by blast
  then have "ereach st" using quiet_run r by blast
  with epoch_no_use_after_free [of st 7 0] st(2) show ?thesis by auto
qed

section \<open>Shared slots\<close>

text \<open>\<open>AllocSlot\<close> deals the slots out in turn: after 64 calls a slot is given again, whether or not its reader has left.\<close>

lemma skip_run: "estep\<^sup>*\<^sup>* st (st\<lparr>syMgr := (syMgr st)\<lparr>nextSlot := nextSlot (syMgr st) + of_nat n\<rparr>\<rparr>)"
proof (induction n)
  case 0
  then show ?case by simp
next
  case (Suc n)
  let ?s = "st\<lparr>syMgr := (syMgr st)\<lparr>nextSlot := nextSlot (syMgr st) + of_nat n\<rparr>\<rparr>"
  have "estep ?s (st\<lparr>syMgr := (syMgr st)\<lparr>nextSlot := nextSlot (syMgr st) + of_nat (Suc n)\<rparr>\<rparr>)"
    using estep.skip [of ?s] by (simp add: AllocSlot_def Let_def algebra_simps)
  with Suc show ?case by (rule rtranclp.rtrancl_into_rtrancl)
qed

text \<open>A reader that enters without being interrupted.\<close>

lemma enter_run:
  assumes "syPc st t = RIdle" "AllocSlot (syMgr st) = (s, em)"
  shows "estep\<^sup>*\<^sup>* st (st\<lparr>syMgr := EnterRead s em, syOwn := (syOwn st)(t := s), syPc := (syPc st)(t := RReading),
    syHeld := (syHeld st)(t := {p. syPage st p = PLinked})\<rparr>)"
proof -
  define s1 where "s1 = set_pc t RSlot (st\<lparr>syMgr := em, syOwn := (syOwn st)(t := s)\<rparr>)"
  define s2 where "s2 = set_pc t (RLoaded (globalEpoch em)) s1"
  define s3 where "s3 = set_pc t (RStored (globalEpoch em)) (publish t (globalEpoch em) s2)"
  note d = s1_def s2_def s3_def set_pc_def publish_def
  have "estep st s1" unfolding s1_def by (rule estep.alloc [OF assms])
  moreover have "estep s1 s2" using estep.load [of s1 t] by (simp add: s2_def) (simp add: d)
  moreover have "estep s2 s3" using estep.store [of s2 t "globalEpoch em"] by (simp add: s3_def) (simp add: d)
  moreover have "estep s3 (start_read t s3)" by (rule estep.check_same) (simp_all add: d)
  moreover have "start_read t s3 = st\<lparr>syMgr := EnterRead s em, syOwn := (syOwn st)(t := s), syPc := (syPc st)(t := RReading),
    syHeld := (syHeld st)(t := {p. syPage st p = PLinked})\<rparr>" by (simp add: d start_read_def EnterRead_def Let_def)
  ultimately show ?thesis by (metis converse_rtranclp_into_rtranclp r_into_rtranclp)
qed

text \<open>Claim C36. Slots are shared: when more than 64 operations have asked for a slot, a second reader can be given the slot of one
  that is still reading. Its exit clears the epoch of both, and the next reclamation takes out, to free it, a page the first reader
  still uses. The rings are on their first lap throughout.\<close>

theorem shared_slot_frees_held_page:
  "\<exists>st t p. estep\<^sup>*\<^sup>* epoch_start st \<and> syPc st t = RReading \<and> p \<in> syHeld st t \<and> p \<in> set (syToFree st)"
proof -
  define m where "m n r = NewEpochManager\<lparr>nextSlot := n, emReaders := (\<lambda>_. 0)(1 := r)\<rparr>" for n and r :: u64
  define a where "a = one_page\<lparr>syMgr := m 1 1, syOwn := (\<lambda>_. 0)(0 := 1), syPc := (\<lambda>_. RIdle)(0 := RReading), syHeld := (\<lambda>_. {})(0 := {7})\<rparr>"
  define b where "b = a\<lparr>syMgr := m 64 1\<rparr>"
  define c where "c = b\<lparr>syMgr := m 65 1, syOwn := (syOwn b)(1 := 1), syPc := (syPc b)(1 := RReading), syHeld := (syHeld b)(1 := {7})\<rparr>"
  define d where "d = c\<lparr>syMgr := m 65 0, syHeld := (syHeld c)(1 := {}), syPc := (syPc c)(1 := RIdle)\<rparr>"
  note defs = m_def a_def b_def c_def d_def one_page_def set_page_def epoch_start_def NewEpochManager_def epochInit_def
  have fields: "{p. syPage one_page p = PLinked} = {7}" "syPage b = syPage one_page" "syOwn one_page = (\<lambda>_. 0)" "syPc one_page = (\<lambda>_. RIdle)"
    "syHeld one_page = (\<lambda>_. {})" "syPc b 1 = RIdle" "syOwn c 1 = 1" "syPc c 1 = RReading" by (auto simp: defs)
  have mgr: "syMgr one_page = m 0 0" "syMgr a = m 1 1" "syMgr b = m 64 1" "syMgr c = m 65 1"
    "AllocSlot (m 0 0) = (1, m 1 0)" "AllocSlot (m 64 1) = (1, m 65 1)" "EnterRead 1 (m 1 0) = m 1 1" "EnterRead 1 (m 65 1) = m 65 1"
    by (simp_all add: defs AllocSlot_def Let_def maxReaderSlots_def EnterRead_def fun_upd_idem)
  have "estep\<^sup>*\<^sup>* one_page a" using enter_run [of one_page 0 1 "m 1 0"] fields mgr by (simp add: a_def)
  moreover have "estep\<^sup>*\<^sup>* a b" using skip_run [of a 63] mgr(2) by (simp add: b_def m_def) (simp add: NewEpochManager_def)
  moreover have "estep\<^sup>*\<^sup>* b c" using enter_run [of b 1 1 "m 65 1"] fields mgr by (simp add: c_def)
  moreover have "estep c d" using estep.leave [of c 1] fields mgr(4) by (simp add: d_def set_pc_def publish_def m_def)
  ultimately have run: "estep\<^sup>*\<^sup>* epoch_start d"
    using one_page_step(1) by (meson converse_rtranclp_into_rtranclp rtranclp.rtrancl_into_rtrancl rtranclp_trans)
  have "\<exists>st'. quiet\<^sup>*\<^sup>* d st' \<and> syToFree st' = [7]" by (rule retire_run) (simp_all add: defs fun_upd_idem)
  then obtain st where st: "quiet\<^sup>*\<^sup>* d st" "syToFree st = [7]" by blast
  have "syPc d 0 = RReading" "7 \<in> syHeld d 0" by (simp_all add: defs)
  then have "estep\<^sup>*\<^sup>* epoch_start st" "syPc st 0 = RReading" "7 \<in> syHeld st 0" "7 \<in> set (syToFree st)"
    using quiet_run [OF st(1)] run st(2) by auto
  then show ?thesis by blast
qed

end
