(* ===== verification/Task_Queue.thy ===== *)
theory Task_Queue
  imports NexKV_Prelude
begin

text \<open>
  The queue of the task scheduler: \<open>MPSCExtQueue\<close> (\<open>concurrency/ringbuf.go\<close>), a ring of 16384 pointers with a
  linked list for what does not fit. The list is a list: its stub node is the one before the first element. A nil
  pointer is \<open>None\<close>. The functions are the operations run without interruption, as the scheduler calls them
  under its lock; the last section takes \<open>Enqueue\<close> apart into its two atomic operations.
\<close>

section \<open>Operations\<close>

definition ringBufferSize :: nat where "ringBufferSize = 16384"

record 'a mpsc_queue =
  qBuffer :: "nat \<Rightarrow> 'a option"
  writeIdx :: u64
  readIdx :: u64
  qOverflow :: "'a list"
  overflowLen :: int

definition NewMPSCExtQueue :: "'a mpsc_queue" where
  "NewMPSCExtQueue = \<lparr>qBuffer = (\<lambda>_. None), writeIdx = 0, readIdx = 0, qOverflow = [], overflowLen = 0\<rparr>"

definition ring_slot :: "u64 \<Rightarrow> nat" where
  "ring_slot i = unat i mod ringBufferSize"

definition enqueueOverflow :: "'a \<Rightarrow> 'a mpsc_queue \<Rightarrow> 'a mpsc_queue" where
  "enqueueOverflow x q = q\<lparr>qOverflow := qOverflow q @ [x], overflowLen := overflowLen q + 1\<rparr>"

definition queueEnqueue :: "'a \<Rightarrow> 'a mpsc_queue \<Rightarrow> 'a mpsc_queue" where
  "queueEnqueue x q =
     (if unat (writeIdx q - readIdx q) < ringBufferSize
      then q\<lparr>qBuffer := (qBuffer q)(ring_slot (writeIdx q) := Some x), writeIdx := writeIdx q + 1\<rparr>
      else enqueueOverflow x q)"

definition queuePeek :: "'a mpsc_queue \<Rightarrow> 'a option \<times> bool" where
  "queuePeek q =
     (if readIdx q < writeIdx q then (qBuffer q (ring_slot (readIdx q)), True)
      else case qOverflow q of [] \<Rightarrow> (None, False) | x # xs \<Rightarrow> (Some x, True))"

fun peek_ring :: "nat \<Rightarrow> u64 \<Rightarrow> 'a mpsc_queue \<Rightarrow> 'a option list" where
  "peek_ring 0 i q = []"
| "peek_ring (Suc n) i q = (if i < writeIdx q then qBuffer q (ring_slot i) # peek_ring n (i + 1) q else [])"

definition queuePeekN :: "nat \<Rightarrow> 'a mpsc_queue \<Rightarrow> 'a option list" where
  "queuePeekN n q = (let r = peek_ring n (readIdx q) q in r @ map Some (take (n - length r) (qOverflow q)))"

definition queueCommit :: "'a mpsc_queue \<Rightarrow> 'a mpsc_queue" where
  "queueCommit q =
     (if readIdx q < writeIdx q then q\<lparr>readIdx := readIdx q + 1\<rparr>
      else case qOverflow q of [] \<Rightarrow> q | x # xs \<Rightarrow> q\<lparr>qOverflow := xs, overflowLen := overflowLen q - 1\<rparr>)"

definition queueCommitN :: "nat \<Rightarrow> 'a mpsc_queue \<Rightarrow> 'a mpsc_queue" where
  "queueCommitN n q = (queueCommit ^^ n) q"

definition queueDequeue :: "'a mpsc_queue \<Rightarrow> ('a option \<times> bool) \<times> 'a mpsc_queue" where
  "queueDequeue q = (case queuePeek q of (x, found) \<Rightarrow> if found then ((x, True), queueCommit q) else ((None, False), q))"

definition queueDequeueN :: "nat \<Rightarrow> 'a mpsc_queue \<Rightarrow> 'a option list \<times> 'a mpsc_queue" where
  "queueDequeueN n q = (let out = queuePeekN n q in (out, if out \<noteq> [] then queueCommitN (length out) q else q))"

definition queueSize :: "'a mpsc_queue \<Rightarrow> u64" where
  "queueSize q = writeIdx q - readIdx q + of_int (overflowLen q)"

definition queueIsEmpty :: "'a mpsc_queue \<Rightarrow> bool" where
  "queueIsEmpty q = (if readIdx q < writeIdx q then False else qOverflow q = [])"

definition queueIsFull :: "'a mpsc_queue \<Rightarrow> bool" where
  "queueIsFull q = (ringBufferSize \<le> unat (writeIdx q - readIdx q))"

definition queueReset :: "'a mpsc_queue \<Rightarrow> 'a mpsc_queue" where
  "queueReset q = q\<lparr>writeIdx := 0, readIdx := 0, qOverflow := [], overflowLen := 0\<rparr>"

section \<open>The queue as two lists\<close>

definition ring_items :: "'a mpsc_queue \<Rightarrow> 'a list" where
  "ring_items q = map (\<lambda>i. the (qBuffer q (i mod ringBufferSize))) [unat (readIdx q)..<unat (writeIdx q)]"

definition queue_items :: "'a mpsc_queue \<Rightarrow> 'a list" where
  "queue_items q = ring_items q @ qOverflow q"

definition queue_ok :: "'a mpsc_queue \<Rightarrow> bool" where
  "queue_ok q \<longleftrightarrow> unat (readIdx q) \<le> unat (writeIdx q) \<and> unat (writeIdx q) - unat (readIdx q) \<le> ringBufferSize \<and>
     overflowLen q = int (length (qOverflow q)) \<and> (\<forall>i\<in>{unat (readIdx q)..<unat (writeIdx q)}. qBuffer q (i mod ringBufferSize) \<noteq> None)"

lemma queue_new: "queue_ok NewMPSCExtQueue" "queue_items NewMPSCExtQueue = []"
  by (simp_all add: queue_ok_def NewMPSCExtQueue_def queue_items_def ring_items_def)

lemma unat_lt_u64: "unat (x :: u64) < 18446744073709551616"
  using unsigned_less [of x] by simp

lemma unat_index_diff: "queue_ok q \<Longrightarrow> unat (writeIdx q - readIdx q) = unat (writeIdx q) - unat (readIdx q)"
  by (simp add: queue_ok_def word_le_nat_alt unat_sub)

lemma length_ring_items: "length (ring_items q) = unat (writeIdx q) - unat (readIdx q)"
  by (simp add: ring_items_def)

lemma mod_window:
  assumes "i < (w::nat)" "w - i < n"
  shows "i mod n \<noteq> w mod n"
proof
  assume "i mod n = w mod n"
  then have "n dvd w - i" using assms(1) by (metis less_imp_le_nat mod_eq_dvd_iff_nat)
  then show False using assms by (auto dest: dvd_imp_le)
qed

lemma enqueue_ring:
  assumes "queue_ok q" "length (ring_items q) < ringBufferSize" "unat (writeIdx q) < 18446744073709551615"
  shows "queue_ok (queueEnqueue x q) \<and> ring_items (queueEnqueue x q) = ring_items q @ [x] \<and> qOverflow (queueEnqueue x q) = qOverflow q"
proof -
  let ?r = "unat (readIdx q)" and ?w = "unat (writeIdx q)"
  have w: "unat (writeIdx q + 1) = Suc ?w" using assms(3) by (simp add: unat_word_ariths)
  have le: "?r \<le> ?w" "?w - ?r < ringBufferSize" using assms(1,2) by (simp_all add: queue_ok_def length_ring_items)
  have run: "queueEnqueue x q = q\<lparr>qBuffer := (qBuffer q)(?w mod ringBufferSize := Some x), writeIdx := writeIdx q + 1\<rparr>"
    using le unat_index_diff [OF assms(1)] by (simp add: queueEnqueue_def ring_slot_def)
  have other: "i mod ringBufferSize \<noteq> ?w mod ringBufferSize" if "?r \<le> i" "i < ?w" for i using that le by (intro mod_window) auto
  have "ring_items (queueEnqueue x q) = ring_items q @ [x]"
    using other le by (auto simp: run ring_items_def w intro!: map_cong)
  moreover have "queue_ok (queueEnqueue x q)" using assms(1) le other by (auto simp: run queue_ok_def w less_Suc_eq)
  ultimately show ?thesis by (simp add: run)
qed

lemma enqueue_overflow:
  assumes "queue_ok q" "ringBufferSize \<le> length (ring_items q)"
  shows "queue_ok (queueEnqueue x q) \<and> ring_items (queueEnqueue x q) = ring_items q \<and> qOverflow (queueEnqueue x q) = qOverflow q @ [x]"
proof -
  have "queueEnqueue x q = enqueueOverflow x q" using assms unat_index_diff [OF assms(1)] by (simp add: queueEnqueue_def length_ring_items)
  then show ?thesis using assms(1) by (simp add: enqueueOverflow_def queue_ok_def ring_items_def)
qed

lemma ring_nonempty: "queue_ok q \<Longrightarrow> readIdx q < writeIdx q \<longleftrightarrow> ring_items q \<noteq> []"
  by (auto simp: ring_items_def word_less_nat_alt queue_ok_def)

lemma commit_items:
  assumes "queue_ok q"
  shows "queue_ok (queueCommit q) \<and> ring_items (queueCommit q) = tl (ring_items q) \<and>
    qOverflow (queueCommit q) = (if ring_items q = [] then tl (qOverflow q) else qOverflow q) \<and> writeIdx (queueCommit q) = writeIdx q"
proof (cases "ring_items q = []")
  case False
  then have lt: "readIdx q < writeIdx q" "unat (readIdx q) < unat (writeIdx q)" using ring_nonempty [OF assms] by (simp_all add: word_less_nat_alt)
  then have r: "unat (readIdx q + 1) = Suc (unat (readIdx q))" using unat_lt_u64 [of "writeIdx q"] by (simp add: unat_word_ariths)
  have run: "queueCommit q = q\<lparr>readIdx := readIdx q + 1\<rparr>" using lt by (simp add: queueCommit_def)
  have "ring_items (queueCommit q) = tl (ring_items q)" using lt(2) by (simp add: run ring_items_def r upt_conv_Cons)
  then show ?thesis using assms lt(2) False by (auto simp: run queue_ok_def r)
next
  case True
  then have "\<not> readIdx q < writeIdx q" using ring_nonempty [OF assms] by simp
  moreover have "ring_items (q\<lparr>qOverflow := xs, overflowLen := n\<rparr>) = ring_items q" for xs n by (simp add: ring_items_def)
  ultimately show ?thesis using assms True by (cases "qOverflow q") (simp_all add: queueCommit_def queue_ok_def)
qed

lemma commit_queue: "queue_ok q \<Longrightarrow> queue_ok (queueCommit q) \<and> queue_items (queueCommit q) = tl (queue_items q)"
  using commit_items [of q] by (auto simp: queue_items_def)

lemma commit_n_queue: "queue_ok q \<Longrightarrow> queue_ok (queueCommitN n q) \<and> queue_items (queueCommitN n q) = drop n (queue_items q)"
  unfolding queueCommitN_def
  by (induction n) (use commit_queue in \<open>auto simp: drop_Suc tl_drop\<close>)

lemma peek_queue: "queue_ok q \<Longrightarrow> queuePeek q = (case queue_items q of [] \<Rightarrow> (None, False) | x # xs \<Rightarrow> (Some x, True))"
proof -
  assume ok: "queue_ok q"
  show ?thesis
  proof (cases "ring_items q = []")
    case False
    then have lt: "readIdx q < writeIdx q" "unat (readIdx q) < unat (writeIdx q)" using ring_nonempty [OF ok] by (simp_all add: word_less_nat_alt)
    then have "qBuffer q (ring_slot (readIdx q)) \<noteq> None" using ok by (auto simp: queue_ok_def ring_slot_def)
    moreover have "ring_items q = the (qBuffer q (ring_slot (readIdx q))) # tl (ring_items q)"
      using lt(2) by (simp add: ring_items_def ring_slot_def upt_conv_Cons)
    ultimately show ?thesis using lt by (cases "ring_items q") (auto simp: queuePeek_def queue_items_def)
  next
    case True
    then have "\<not> readIdx q < writeIdx q" using ring_nonempty [OF ok] by simp
    then show ?thesis using True by (simp add: queuePeek_def queue_items_def)
  qed
qed

lemma peek_ring_take:
  assumes "queue_ok q" "unat (readIdx q) \<le> unat i" "unat i \<le> unat (writeIdx q)"
  shows "peek_ring n i q = map Some (take n (drop (unat i - unat (readIdx q)) (ring_items q)))"
  using assms(2,3)
proof (induction n arbitrary: i)
  case (Suc n)
  show ?case
  proof (cases "unat i < unat (writeIdx q)")
    case True
    have i: "unat (i + 1) = Suc (unat i)" using True unat_lt_u64 [of "writeIdx q"] by (simp add: unat_word_ariths)
    have "qBuffer q (unat i mod ringBufferSize) \<noteq> None" using assms(1) Suc(2) True by (auto simp: queue_ok_def)
    moreover have "drop (unat i - unat (readIdx q)) (ring_items q) = the (qBuffer q (unat i mod ringBufferSize)) #
        drop (Suc (unat i) - unat (readIdx q)) (ring_items q)"
    proof -
      let ?k = "unat i - unat (readIdx q)"
      have k: "?k < length (ring_items q)" "Suc ?k = Suc (unat i) - unat (readIdx q)" using Suc(2) True by (simp_all add: length_ring_items)
      moreover have "[unat (readIdx q)..<unat (writeIdx q)] ! ?k = unat i"
        using nth_upt [of "unat (readIdx q)" ?k "unat (writeIdx q)"] Suc(2) True by simp
      then have "ring_items q ! ?k = the (qBuffer q (unat i mod ringBufferSize))" using Suc(2) True by (simp add: ring_items_def)
      ultimately show ?thesis using Cons_nth_drop_Suc [OF k(1)] by metis
    qed
    ultimately show ?thesis using Suc(1) [of "i + 1"] Suc(2) True i by (auto simp: ring_slot_def word_less_nat_alt)
  next
    case False
    then have "drop (unat i - unat (readIdx q)) (ring_items q) = []" by (simp add: length_ring_items)
    then show ?thesis using False by (simp add: word_less_nat_alt)
  qed
qed simp

lemma peek_n_queue: "queue_ok q \<Longrightarrow> queuePeekN n q = map Some (take n (queue_items q))"
  using peek_ring_take [of q "readIdx q" n] by (simp add: queuePeekN_def queue_items_def queue_ok_def Let_def) (simp add: min_def)

lemma dequeue_queue:
  assumes "queue_ok q"
  shows "queueDequeue q = (case queue_items q of [] \<Rightarrow> ((None, False), q) | x # xs \<Rightarrow> ((Some x, True), queueCommit q))"
  using peek_queue [OF assms] by (simp add: queueDequeue_def split: list.split)

lemma dequeue_n_queue:
  assumes "queue_ok q"
  shows "fst (queueDequeueN n q) = map Some (take n (queue_items q)) \<and> queue_ok (snd (queueDequeueN n q)) \<and>
    queue_items (snd (queueDequeueN n q)) = drop n (queue_items q)"
  using assms commit_n_queue [OF assms, of "min (length (queue_items q)) n"] peek_n_queue [OF assms, of n]
  by (auto simp: queueDequeueN_def Let_def min_def)

lemma queue_size:
  assumes "queue_ok q" "length (queue_items q) < 18446744073709551616"
  shows "unat (queueSize q) = length (queue_items q)"
proof -
  have "queueSize q = of_nat (length (queue_items q))"
    using unat_index_diff [OF assms(1)] assms(1)
    by (simp add: queueSize_def queue_items_def length_ring_items queue_ok_def flip: unat_index_diff [OF assms(1)])
  then show ?thesis using assms(2) by (simp add: unat_of_nat)
qed

lemma queue_empty: "queue_ok q \<Longrightarrow> queueIsEmpty q \<longleftrightarrow> queue_items q = []"
  using ring_nonempty [of q] by (auto simp: queueIsEmpty_def queue_items_def)

section \<open>Refinement\<close>

text \<open>The abstract queue: a bounded list that is served first and an unbounded one behind it.\<close>

datatype 'a queue_cmd = QEnqueue 'a | QDequeue

fun queue_exec :: "'a queue_cmd \<Rightarrow> 'a mpsc_queue \<Rightarrow> 'a option list \<times> 'a mpsc_queue" where
  "queue_exec (QEnqueue x) q = ([], queueEnqueue x q)"
| "queue_exec QDequeue q = (case queueDequeue q of ((x, found), q') \<Rightarrow> ([if found then x else None], q'))"

fun queue_run :: "'a queue_cmd list \<Rightarrow> 'a mpsc_queue \<Rightarrow> 'a option list \<times> 'a mpsc_queue" where
  "queue_run [] q = ([], q)"
| "queue_run (c # cs) q = (case queue_exec c q of (out, q1) \<Rightarrow> case queue_run cs q1 of (outs, q2) \<Rightarrow> (out @ outs, q2))"

fun tiers_exec :: "'a queue_cmd \<Rightarrow> 'a list \<times> 'a list \<Rightarrow> 'a option list \<times> ('a list \<times> 'a list)" where
  "tiers_exec (QEnqueue x) (r, w) = ([], if length r < ringBufferSize then (r @ [x], w) else (r, w @ [x]))"
| "tiers_exec QDequeue (r, w) = (case r of y # ys \<Rightarrow> ([Some y], (ys, w)) | [] \<Rightarrow> (case w of y # ys \<Rightarrow> ([Some y], ([], ys)) | [] \<Rightarrow> ([None], ([], []))))"

fun tiers_run :: "'a queue_cmd list \<Rightarrow> 'a list \<times> 'a list \<Rightarrow> 'a option list \<times> ('a list \<times> 'a list)" where
  "tiers_run [] t = ([], t)"
| "tiers_run (c # cs) t = (case tiers_exec c t of (out, t1) \<Rightarrow> case tiers_run cs t1 of (outs, t2) \<Rightarrow> (out @ outs, t2))"

definition tiers_of :: "'a mpsc_queue \<Rightarrow> 'a list \<times> 'a list" where
  "tiers_of q = (ring_items q, qOverflow q)"

lemma queue_exec_tiers:
  assumes "queue_ok q" "unat (writeIdx q) < 18446744073709551615" "queue_exec c q = (out, q')"
  shows "queue_ok q' \<and> tiers_exec c (tiers_of q) = (out, tiers_of q') \<and> unat (writeIdx q') \<le> Suc (unat (writeIdx q))"
proof (cases c)
  case (QEnqueue x)
  have "unat (writeIdx q + 1) = Suc (unat (writeIdx q))" using assms(2) by (simp add: unat_word_ariths)
  then have "unat (writeIdx q') \<le> Suc (unat (writeIdx q))" using assms(3) QEnqueue by (auto simp: queueEnqueue_def enqueueOverflow_def split: if_splits)
  then show ?thesis using assms(3) QEnqueue enqueue_ring [OF assms(1) _ assms(2), of x] enqueue_overflow [OF assms(1), of x]
    by (auto simp: tiers_of_def not_less)
next
  case QDequeue
  show ?thesis
  proof (cases "queue_items q")
    case Nil
    then show ?thesis using assms QDequeue dequeue_queue [OF assms(1)] by (auto simp: tiers_of_def queue_items_def)
  next
    case (Cons y ys)
    then have q': "q' = queueCommit q" "out = [Some y]" using assms(3) QDequeue dequeue_queue [OF assms(1)] by auto
    then show ?thesis using Cons QDequeue commit_items [OF assms(1)]
      by (cases "ring_items q"; cases "qOverflow q") (simp_all add: tiers_of_def queue_items_def)
  qed
qed

lemma queue_run_tiers:
  assumes "queue_ok q" "unat (writeIdx q) + length cs \<le> 18446744073709551615" "queue_run cs q = (outs, q')"
  shows "queue_ok q' \<and> tiers_run cs (tiers_of q) = (outs, tiers_of q')"
  using assms
proof (induction cs arbitrary: q outs q')
  case (Cons c cs)
  obtain out q1 where c: "queue_exec c q = (out, q1)" by fastforce
  obtain outs1 q2 where r: "queue_run cs q1 = (outs1, q2)" by fastforce
  have e: "queue_ok q1 \<and> tiers_exec c (tiers_of q) = (out, tiers_of q1) \<and> unat (writeIdx q1) \<le> Suc (unat (writeIdx q))"
    using Cons(2,3) by (intro queue_exec_tiers [OF _ _ c]) auto
  then have "queue_ok q2 \<and> tiers_run cs (tiers_of q1) = (outs1, tiers_of q2)" using Cons(3) by (intro Cons(1) [OF _ _ r]) auto
  then show ?case using Cons(4) c r e by auto
qed auto

text \<open>Claim C21. The task queue behaves like a list of at most 16384 elements with an unbounded list behind it: any sequence of fewer
  than \<open>2^64\<close> enqueues and dequeues returns what the two lists return and leaves what they hold, whatever the wrap-around of the
  ring.\<close>

theorem mpsc_queue_refines:
  assumes "length cs \<le> 18446744073709551615" "queue_run cs NewMPSCExtQueue = (outs, q)"
  shows "queue_ok q \<and> tiers_run cs ([], []) = (outs, (ring_items q, qOverflow q))"
  using queue_run_tiers [OF queue_new(1) _ assms(2)] assms(1) by (simp add: tiers_of_def NewMPSCExtQueue_def ring_items_def)

theorem mpsc_queue_refines_witness:
  "let r = queue_run [QEnqueue (1::nat), QEnqueue 2, QDequeue] NewMPSCExtQueue in
     queue_ok (snd r) \<and> tiers_run [QEnqueue 1, QEnqueue 2, QDequeue] ([], []) = (fst r, (ring_items (snd r), qOverflow (snd r)))"
  unfolding Let_def by (rule mpsc_queue_refines) simp_all

section \<open>Order\<close>

lemma tiers_enqueue_all: "length r + length xs \<le> ringBufferSize \<Longrightarrow> tiers_run (map QEnqueue xs) (r, w) = ([], (r @ xs, w))"
  by (induction xs arbitrary: r) auto

lemma tiers_run_append: "tiers_run (cs @ ds) t = (case tiers_run cs t of (o1, t1) \<Rightarrow> case tiers_run ds t1 of (o2, t2) \<Rightarrow> (o1 @ o2, t2))"
  by (induction cs arbitrary: t) (auto split: prod.split)

text \<open>The queue is not first-in first-out: after the ring was full once, an element that came later is served before one in
  the list.\<close>

lemma queue_overtakes:
  assumes "length xs = ringBufferSize" "queue_run (map QEnqueue xs @ [QEnqueue a, QDequeue, QEnqueue b]) NewMPSCExtQueue = (outs, q)"
  shows "queue_items q = tl xs @ [b, a]"
proof -
  have "length (map QEnqueue xs @ [QEnqueue a, QDequeue, QEnqueue b]) \<le> 18446744073709551615" using assms(1) by (simp add: ringBufferSize_def)
  then have "tiers_run (map QEnqueue xs @ [QEnqueue a, QDequeue, QEnqueue b]) ([], []) = (outs, tiers_of q)"
    using queue_run_tiers [OF queue_new(1) _ assms(2)] by (simp add: tiers_of_def NewMPSCExtQueue_def ring_items_def)
  moreover have "tiers_run (map QEnqueue xs) ([], []) = ([], (xs, []))" using tiers_enqueue_all [of "[]" xs "[]"] assms(1) by simp
  moreover obtain x ys where "xs = x # ys" using assms(1) by (cases xs) (auto simp: ringBufferSize_def)
  ultimately show ?thesis using assms(1) by (auto simp: tiers_run_append tiers_of_def queue_items_def)
qed

section \<open>Enqueue in two steps\<close>

text \<open>The compare-and-swap that claims a position and the store of the pointer are two operations. A consumer between
  them takes what the position held before.\<close>

definition queue_claim :: "'a mpsc_queue \<Rightarrow> (u64 \<times> 'a mpsc_queue) option" where
  "queue_claim q = (if unat (writeIdx q - readIdx q) < ringBufferSize then Some (writeIdx q, q\<lparr>writeIdx := writeIdx q + 1\<rparr>) else None)"

definition queue_fill :: "u64 \<Rightarrow> 'a \<Rightarrow> 'a mpsc_queue \<Rightarrow> 'a mpsc_queue" where
  "queue_fill i x q = q\<lparr>qBuffer := (qBuffer q)(ring_slot i := Some x)\<rparr>"

lemma enqueue_steps: "queue_claim q = Some (i, q1) \<Longrightarrow> queue_fill i x q1 = queueEnqueue x q"
  by (auto simp: queue_claim_def queue_fill_def queueEnqueue_def split: if_splits)

lemma consumer_in_between:
  assumes "queue_ok q" "queue_items q = []" "unat (writeIdx q) < 18446744073709551615"
  shows "\<exists>i q1 q2. queue_claim q = Some (i, q1) \<and> queueDequeue q1 = ((qBuffer q (ring_slot (writeIdx q)), True), q2) \<and>
    queue_items (queue_fill i x q2) = []"
proof -
  have e: "ring_items q = []" "qOverflow q = []" using assms(2) by (simp_all add: queue_items_def)
  then have eq: "readIdx q = writeIdx q"
    using assms(1) ring_nonempty [OF assms(1)] by (auto simp: queue_ok_def word_less_nat_alt word_unat_eq_iff)
  let ?q1 = "q\<lparr>writeIdx := writeIdx q + 1\<rparr>" and ?q2 = "q\<lparr>writeIdx := writeIdx q + 1, readIdx := writeIdx q + 1\<rparr>"
  have "queue_claim q = Some (writeIdx q, ?q1)" using eq by (simp add: queue_claim_def ringBufferSize_def)
  moreover have "writeIdx q < writeIdx q + 1" using assms(3) by (simp add: word_less_nat_alt unat_word_ariths)
  then have "queueDequeue ?q1 = ((qBuffer q (ring_slot (writeIdx q)), True), ?q2)" using eq by (simp add: queueDequeue_def queuePeek_def queueCommit_def)
  moreover have "queue_items (queue_fill (writeIdx q) x ?q2) = []" using e by (simp add: queue_items_def ring_items_def queue_fill_def)
  ultimately show ?thesis by blast
qed

end
