(* ===== verification/Task_Scheduler.thy ===== *)
theory Task_Scheduler
  imports Task_Queue
begin

text \<open>
  The task scheduler (\<open>concurrency/task_scheduler.go\<close>): cores with one queue per registered task, the cycle of a core
  and the distribution of items over the cores. The functions an item runs are parameters: an \<open>executeFunc\<close> takes
  an item and a world and returns a status, or nothing when it panics. Objects are numbers: \<open>scTasks\<close> is the heap of
  the tasks of a core, \<open>scAttempts\<close> counts the attempts of an item by its number. \<open>scTrace\<close> records what was executed
  with its status, oldest first.
\<close>

section \<open>Items and tasks\<close>

datatype task_status = TaskQueued | TaskExecuting | TaskPassed | TaskFailed | TaskTimeout | TaskBusy | TaskRetrying | TaskCompleted

text \<open>What the scheduler asks of an item: whether it is a \<open>ShardItem\<close>, and its \<open>PreferredBatchSize\<close> when it is a
  \<open>BatchShardItem\<close>.\<close>

record task_item =
  itemID :: nat
  isShardItem :: bool
  itemShardID :: int
  itemMaxRetries :: int
  itemBatchSize :: "int option"
  itemCancels :: bool

type_synonym 'w execute_func = "task_item \<Rightarrow> 'w \<Rightarrow> task_status option \<times> 'w"

record 'w shard_task =
  stName :: string
  stPriority :: int
  stOrder :: int
  stQueue :: "task_item mpsc_queue"
  stStatus :: task_status
  stExecute :: "'w execute_func option"
  lastSubmitTime :: int
  priorityBoost :: bool

definition NumPriorityLevels :: nat where "NumPriorityLevels = 10"
definition lbLowLoadPerCore :: int where "lbLowLoadPerCore = 16"
definition batchBufferSize :: int where "batchBufferSize = 32"

record 'w scheduler_core =
  scTasks :: "nat \<Rightarrow> 'w shard_task"
  scNextTask :: nat
  priorityBuckets :: "nat \<Rightarrow> nat list"
  activeBitmap :: "16 word"
  taskMap :: "string \<Rightarrow> nat option"
  starvationCheck :: int
  starvationTimeout :: int
  checkInterval :: int
  totalQueueItems :: int
  scAttempts :: "nat \<Rightarrow> int"
  tasksProcessed :: int
  panicCount :: int
  scWorld :: 'w
  scTrace :: "(task_item \<times> task_status) list"

definition NewSchedulerCore :: "'w \<Rightarrow> 'w shard_task \<Rightarrow> 'w scheduler_core" where
  "NewSchedulerCore w t0 = \<lparr>scTasks = (\<lambda>_. t0), scNextTask = 0, priorityBuckets = (\<lambda>_. []), activeBitmap = 0, taskMap = (\<lambda>_. None),
     starvationCheck = 0, starvationTimeout = 100000000, checkInterval = 10000000, totalQueueItems = 0, scAttempts = (\<lambda>_. 0),
     tasksProcessed = 0, panicCount = 0, scWorld = w, scTrace = []\<rparr>"

definition set_task :: "nat \<Rightarrow> 'w shard_task \<Rightarrow> 'w scheduler_core \<Rightarrow> 'w scheduler_core" where
  "set_task r t c = c\<lparr>scTasks := (scTasks c)(r := t)\<rparr>"

abbreviation queue_of :: "'w scheduler_core \<Rightarrow> nat \<Rightarrow> task_item mpsc_queue" where
  "queue_of c r \<equiv> stQueue (scTasks c r)"

section \<open>Registration\<close>

definition createTaskInstance :: "'w shard_task \<Rightarrow> 'w shard_task" where
  "createTaskInstance t = t\<lparr>stQueue := NewMPSCExtQueue, stStatus := TaskQueued, lastSubmitTime := 0, priorityBoost := False\<rparr>"

definition bucket_of :: "int \<Rightarrow> nat" where
  "bucket_of p = (if p < 0 then 0 else if int NumPriorityLevels \<le> p then NumPriorityLevels - 1 else nat p)"

text \<open>\<open>sort.Search\<close> in a sorted bucket: the first position whose order is not below.\<close>

definition insertTaskOrdered :: "nat \<Rightarrow> 'w scheduler_core \<Rightarrow> 'w scheduler_core" where
  "insertTaskOrdered r c =
     (let p = bucket_of (stPriority (scTasks c r)); bucket = priorityBuckets c p;
          pos = length (takeWhile (\<lambda>s. stOrder (scTasks c s) < stOrder (scTasks c r)) bucket)
      in c\<lparr>priorityBuckets := (priorityBuckets c)(p := take pos bucket @ r # drop pos bucket),
           activeBitmap := activeBitmap c OR push_bit p 1\<rparr>)"

definition coreRegisterTask :: "'w shard_task \<Rightarrow> 'w scheduler_core \<Rightarrow> unit outcome \<times> 'w scheduler_core" where
  "coreRegisterTask t c =
     (if taskMap c (stName t) \<noteq> None then (Err ErrTaskAlreadyRegistered, c)
      else let r = scNextTask c; c1 = (set_task r (createTaskInstance t) c)\<lparr>scNextTask := r + 1\<rparr>; c2 = insertTaskOrdered r c1
           in (Ok (), c2\<lparr>taskMap := (taskMap c2)(stName t \<mapsto> r)\<rparr>))"

section \<open>Operations on the queue of a task\<close>

definition taskQueueLen :: "nat \<Rightarrow> 'w scheduler_core \<Rightarrow> int" where
  "taskQueueLen r c = sint (queueSize (queue_of c r))"

definition taskEnqueue :: "int \<Rightarrow> task_item \<Rightarrow> nat \<Rightarrow> 'w scheduler_core \<Rightarrow> 'w scheduler_core" where
  "taskEnqueue now item r c =
     (set_task r ((scTasks c r)\<lparr>stQueue := queueEnqueue item (queue_of c r), lastSubmitTime := now\<rparr>) c)\<lparr>totalQueueItems := totalQueueItems c + 1\<rparr>"

text \<open>A nil pointer in the queue is dereferenced.\<close>

definition taskPeek :: "nat \<Rightarrow> 'w scheduler_core \<Rightarrow> task_item option outcome \<times> 'w scheduler_core" where
  "taskPeek r c = (case queuePeek (queue_of c r) of
     (p, False) \<Rightarrow> (Ok None, c)
   | (None, True) \<Rightarrow> (Panic, c)
   | (Some item, True) \<Rightarrow> (Ok (Some item), set_task r ((scTasks c r)\<lparr>stStatus := TaskExecuting\<rparr>) c))"

fun unbox :: "'a option list \<Rightarrow> 'a list outcome" where
  "unbox [] = Ok []"
| "unbox (None # ps) = Panic"
| "unbox (Some x # ps) = bind_outcome (unbox ps) (\<lambda>xs. Ok (x # xs))"

definition taskPeekN :: "nat \<Rightarrow> nat \<Rightarrow> 'w scheduler_core \<Rightarrow> task_item list outcome \<times> 'w scheduler_core" where
  "taskPeekN n r c =
     (let out = queuePeekN n (queue_of c r)
      in if out = [] then (Ok [], c)
         else case unbox out of Ok items \<Rightarrow> (Ok items, set_task r ((scTasks c r)\<lparr>stStatus := TaskExecuting\<rparr>) c) | _ \<Rightarrow> (Panic, c))"

definition taskDequeue :: "nat \<Rightarrow> 'w scheduler_core \<Rightarrow> task_item option outcome \<times> 'w scheduler_core" where
  "taskDequeue r c = (case queueDequeue (queue_of c r) of
     ((p, False), q) \<Rightarrow> (Ok None, c)
   | ((None, True), q) \<Rightarrow> (Panic, set_task r ((scTasks c r)\<lparr>stQueue := q\<rparr>) c)
   | ((Some item, True), q) \<Rightarrow> (Ok (Some item), (set_task r ((scTasks c r)\<lparr>stQueue := q\<rparr>) c)\<lparr>totalQueueItems := totalQueueItems c - 1\<rparr>))"

definition taskDequeueN :: "int \<Rightarrow> nat \<Rightarrow> 'w scheduler_core \<Rightarrow> nat \<times> 'w scheduler_core" where
  "taskDequeueN n r c =
     (if n \<le> 0 then (0, c)
      else case queueDequeueN (nat n) (queue_of c r) of (out, q) \<Rightarrow>
        (length out, (set_task r ((scTasks c r)\<lparr>stQueue := q\<rparr>) c)\<lparr>totalQueueItems := totalQueueItems c - int (length out)\<rparr>))"

section \<open>The cycle of a core\<close>

text \<open>A panic of the executed function is recovered; the result is then the zero value, \<open>TaskQueued\<close>. \<open>Execute\<close> of a task
  without function passes.\<close>

definition executeTask :: "nat \<Rightarrow> task_item \<Rightarrow> 'w scheduler_core \<Rightarrow> task_status \<times> 'w scheduler_core" where
  "executeTask r item c = (case stExecute (scTasks c r) of
     None \<Rightarrow> (TaskPassed, c\<lparr>scTrace := scTrace c @ [(item, TaskPassed)]\<rparr>)
   | Some f \<Rightarrow> (case f item (scWorld c) of
       (Some s, w) \<Rightarrow> (s, c\<lparr>scWorld := w, scTrace := scTrace c @ [(item, s)]\<rparr>)
     | (None, w) \<Rightarrow> (TaskQueued, c\<lparr>scWorld := w, panicCount := panicCount c + 1, scTrace := scTrace c @ [(item, TaskQueued)]\<rparr>)))"

definition getBatchSize :: "nat \<Rightarrow> 'w scheduler_core \<Rightarrow> int outcome \<times> 'w scheduler_core" where
  "getBatchSize r c = (case taskPeek r c of
     (Ok (Some item), c1) \<Rightarrow> (Ok (case itemBatchSize item of Some n \<Rightarrow> n | None \<Rightarrow> 1), c1)
   | (Ok None, c1) \<Rightarrow> (Ok 1, c1)
   | (Err e, c1) \<Rightarrow> (Err e, c1)
   | (Panic, c1) \<Rightarrow> (Panic, c1))"

fun executeBatch :: "nat \<Rightarrow> task_item list \<Rightarrow> 'w scheduler_core \<Rightarrow> task_status list \<times> 'w scheduler_core" where
  "executeBatch r [] c = ([], c)"
| "executeBatch r (item # items) c = (case executeTask r item c of (s, c1) \<Rightarrow>
     case executeBatch r items (c1\<lparr>tasksProcessed := tasksProcessed c1 + 1\<rparr>) of (ss, c2) \<Rightarrow> (s # ss, c2))"

definition IncAttempts :: "task_item \<Rightarrow> 'w scheduler_core \<Rightarrow> int \<times> 'w scheduler_core" where
  "IncAttempts item c = (scAttempts c (itemID item) + 1, c\<lparr>scAttempts := (scAttempts c)(itemID item := scAttempts c (itemID item) + 1)\<rparr>)"

fun handleBatchResults :: "(task_item \<times> task_status) list \<Rightarrow> 'w scheduler_core \<Rightarrow> 'w scheduler_core" where
  "handleBatchResults [] c = c"
| "handleBatchResults ((item, s) # rs) c =
     handleBatchResults rs (if s \<in> {TaskFailed, TaskTimeout, TaskBusy, TaskRetrying} \<and> isShardItem item then snd (IncAttempts item c) else c)"

text \<open>The batch is a slice of a buffer of 32 elements; a longer one panics.\<close>

definition tryProcessBatch :: "nat \<Rightarrow> 'w scheduler_core \<Rightarrow> bool outcome \<times> 'w scheduler_core" where
  "tryProcessBatch r c = (case getBatchSize r c of
     (Ok batchSize, c1) \<Rightarrow>
       let actual = min batchSize (taskQueueLen r c1)
       in if actual < 2 then (Ok False, c1)
          else if batchBufferSize < actual then (Panic, c1)
          else (case taskPeekN (nat actual) r c1 of
              (Ok items, c2) \<Rightarrow>
                (if length items < 2 then (Ok False, c2)
                 else (case executeBatch r items c2 of (results, c3) \<Rightarrow>
                   case taskDequeueN (int (length items)) r c3 of (k, c4) \<Rightarrow>
                     (Ok True, handleBatchResults (zip items results) c4)))
            | (Err e, c2) \<Rightarrow> (Err e, c2)
            | (Panic, c2) \<Rightarrow> (Panic, c2))
   | (Err e, c1) \<Rightarrow> (Err e, c1)
   | (Panic, c1) \<Rightarrow> (Panic, c1))"

text \<open>What happens to the item at the head after its execution.\<close>

definition after_execute :: "nat \<Rightarrow> task_item \<Rightarrow> task_status \<Rightarrow> 'w scheduler_core \<Rightarrow> unit outcome \<times> 'w scheduler_core" where
  "after_execute r item s c =
     (let gone = (\<lambda>c. case taskDequeue r c of (Ok x, c') \<Rightarrow> (Ok (), c') | (Err e, c') \<Rightarrow> (Err e, c') | (Panic, c') \<Rightarrow> (Panic, c'))
      in if s = TaskPassed \<or> s = TaskFailed then gone c
         else if s = TaskTimeout \<or> s = TaskBusy \<or> s = TaskRetrying then
           (if isShardItem item then (case IncAttempts item c of (n, c1) \<Rightarrow> if itemMaxRetries item < n then gone c1 else (Ok (), c1))
            else gone c)
         else (Ok (), c))"

definition processSingle :: "nat \<Rightarrow> 'w scheduler_core \<Rightarrow> unit outcome \<times> 'w scheduler_core" where
  "processSingle r c = (case taskPeek r c of
     (Ok None, c1) \<Rightarrow> (Ok (), c1)
   | (Ok (Some item), c1) \<Rightarrow> (case executeTask r item c1 of (s, c2) \<Rightarrow> after_execute r item s (c2\<lparr>tasksProcessed := tasksProcessed c2 + 1\<rparr>))
   | (Err e, c1) \<Rightarrow> (Err e, c1)
   | (Panic, c1) \<Rightarrow> (Panic, c1))"

definition processTask :: "nat \<Rightarrow> 'w scheduler_core \<Rightarrow> unit outcome \<times> 'w scheduler_core" where
  "processTask r c = (case tryProcessBatch r c of
     (Ok True, c1) \<Rightarrow> (Ok (), c1) | (Ok False, c1) \<Rightarrow> processSingle r c1 | (Err e, c1) \<Rightarrow> (Err e, c1) | (Panic, c1) \<Rightarrow> (Panic, c1))"

text \<open>Visiting tasks one after the other; a panic ends the goroutine of the core.\<close>

fun visit_tasks :: "(nat \<Rightarrow> 'w scheduler_core \<Rightarrow> unit outcome \<times> 'w scheduler_core) \<Rightarrow> nat list \<Rightarrow> 'w scheduler_core \<Rightarrow> unit outcome \<times> 'w scheduler_core" where
  "visit_tasks f [] c = (Ok (), c)"
| "visit_tasks f (r # rs) c = (case f r c of (Ok _, c1) \<Rightarrow> visit_tasks f rs c1 | (e, c1) \<Rightarrow> (e, c1))"

definition checkStarvation :: "int \<Rightarrow> 'w scheduler_core \<Rightarrow> 'w scheduler_core" where
  "checkStarvation now c =
     (if starvationTimeout c \<le> 0 \<or> now - starvationCheck c \<le> checkInterval c then c
      else c\<lparr>starvationCheck := now, scTasks := (\<lambda>r.
        if (\<exists>p\<in>set [1..<NumPriorityLevels]. r \<in> set (priorityBuckets c p)) \<and> 0 < lastSubmitTime (scTasks c r) \<and>
           starvationTimeout c < now - lastSubmitTime (scTasks c r)
        then (scTasks c r)\<lparr>priorityBoost := True\<rparr> else scTasks c r)\<rparr>)"

definition processBoosted :: "nat \<Rightarrow> 'w scheduler_core \<Rightarrow> unit outcome \<times> 'w scheduler_core" where
  "processBoosted r c =
     (if priorityBoost (scTasks c r) then (case tryProcessBatch r c of
          (Ok _, c1) \<Rightarrow> (Ok (), set_task r ((scTasks c1 r)\<lparr>priorityBoost := False\<rparr>) c1)
        | (Err e, c1) \<Rightarrow> (Err e, c1) | (Panic, c1) \<Rightarrow> (Panic, c1))
      else (Ok (), c))"

definition TrailingZeros16 :: "16 word \<Rightarrow> nat" where
  "TrailingZeros16 x = length (takeWhile (\<lambda>i. \<not> bit x i) [0..<16])"

fun bitmap_order :: "nat \<Rightarrow> 16 word \<Rightarrow> nat list" where
  "bitmap_order 0 bm = []"
| "bitmap_order (Suc fuel) bm =
     (if bm = 0 then [] else let p = TrailingZeros16 bm
      in if NumPriorityLevels \<le> p then [] else p # bitmap_order fuel (bm AND NOT (push_bit p 1)))"

text \<open>One turn of \<open>runLoop\<close> after the check that the queues are not empty.\<close>

definition core_cycle :: "int \<Rightarrow> 'w scheduler_core \<Rightarrow> unit outcome \<times> 'w scheduler_core" where
  "core_cycle now c =
     (let c1 = checkStarvation now c
      in case visit_tasks processBoosted (concat (map (priorityBuckets c1) (rev [1..<NumPriorityLevels]))) c1 of
           (Ok _, c2) \<Rightarrow> visit_tasks processTask (concat (map (priorityBuckets c2) (bitmap_order 16 (activeBitmap c2)))) c2
         | (e, c2) \<Rightarrow> (e, c2))"

section \<open>The scheduler\<close>

record 'w task_scheduler =
  tsCores :: "'w scheduler_core list"
  coreCount :: nat
  registeredOrders :: "int \<Rightarrow> string option"
  tsRunning :: bool
  tasksEnqueued :: int
  rrCounter :: u64
  lbThreshold :: int

definition NewTaskScheduler :: "nat \<Rightarrow> 'w \<Rightarrow> 'w shard_task \<Rightarrow> int \<Rightarrow> 'w task_scheduler" where
  "NewTaskScheduler numCPU w t0 cores =
     (let n = (if cores \<le> 0 then numCPU else nat cores)
      in \<lparr>tsCores = replicate n (NewSchedulerCore w t0), coreCount = n, registeredOrders = (\<lambda>_. None), tsRunning = False,
          tasksEnqueued = 0, rrCounter = 0, lbThreshold = lbLowLoadPerCore * int n\<rparr>)"

fun register_on :: "'w shard_task \<Rightarrow> 'w scheduler_core list \<Rightarrow> unit outcome \<times> 'w scheduler_core list" where
  "register_on t [] = (Ok (), [])"
| "register_on t (c # cs) = (case coreRegisterTask t c of
     (Ok _, c1) \<Rightarrow> (case register_on t cs of (r, cs1) \<Rightarrow> (r, c1 # cs1)) | (Err e, c1) \<Rightarrow> (Err e, c1 # cs) | (Panic, c1) \<Rightarrow> (Panic, c1 # cs))"

definition RegisterTask :: "'w shard_task \<Rightarrow> 'w task_scheduler \<Rightarrow> unit outcome \<times> 'w task_scheduler" where
  "RegisterTask t m =
     (if registeredOrders m (stOrder t) \<noteq> None then (Err ErrExecutionOrderConflict, m)
      else case register_on t (tsCores m) of
        (Ok _, cs) \<Rightarrow> (Ok (), m\<lparr>tsCores := cs, registeredOrders := (registeredOrders m)(stOrder t \<mapsto> stName t)\<rparr>)
      | (Err e, cs) \<Rightarrow> (Err ErrCoreRegisterFailed, m\<lparr>tsCores := cs\<rparr>)
      | (Panic, cs) \<Rightarrow> (Panic, m\<lparr>tsCores := cs\<rparr>))"

fun least_loaded :: "'w scheduler_core list \<Rightarrow> nat \<Rightarrow> int \<Rightarrow> nat \<Rightarrow> nat" where
  "least_loaded [] i best idx = idx"
| "least_loaded (c # cs) i best idx =
     (if totalQueueItems c < best then least_loaded cs (Suc i) (totalQueueItems c) i else least_loaded cs (Suc i) best idx)"

definition selectLeastLoadedCore :: "'w task_scheduler \<Rightarrow> nat \<times> 'w task_scheduler" where
  "selectLeastLoadedCore m =
     (if (\<Sum>c\<leftarrow>tsCores m. totalQueueItems c) < lbThreshold m
      then (unat (rrCounter m + 1) mod coreCount m, m\<lparr>rrCounter := rrCounter m + 1\<rparr>)
      else (least_loaded (tsCores m) 0 9223372036854775807 0, m))"

text \<open>The index is a Go \<open>int\<close>: the negation of the smallest one is itself, and \<open>%\<close> keeps the sign of the dividend.\<close>

definition shard_core :: "int \<Rightarrow> nat \<Rightarrow> int" where
  "shard_core s n =
     (if 0 < s then s mod int n
      else if s = - 9223372036854775808 then - (9223372036854775808 mod int n) else (- s) mod int n)"

definition EnqueueWithShard :: "int \<Rightarrow> task_item \<Rightarrow> string \<Rightarrow> 'w task_scheduler \<Rightarrow> unit outcome \<times> 'w task_scheduler" where
  "EnqueueWithShard now item name m =
     (if \<not> tsRunning m then (Err ErrSchedulerNotStarted, m)
      else let (i, m1) = (if itemShardID item = 0 then (case selectLeastLoadedCore m of (k, m') \<Rightarrow> (int k, m')) else (shard_core (itemShardID item) (coreCount m), m))
           in if i < 0 \<or> int (length (tsCores m1)) \<le> i then (Panic, m1)
              else let c = tsCores m1 ! nat i; m2 = m1\<lparr>tasksEnqueued := tasksEnqueued m1 + 1\<rparr>
                   in case taskMap c name of
                        None \<Rightarrow> (Err ErrTaskNotFound, m2)
                      | Some r \<Rightarrow> (Ok (), m2\<lparr>tsCores := (tsCores m2)[nat i := taskEnqueue now item r c]\<rparr>))"

definition Start :: "'w task_scheduler \<Rightarrow> unit outcome \<times> 'w task_scheduler" where
  "Start m = (if tsRunning m then (Err ErrSchedulerAlreadyRunning, m) else (Ok (), m\<lparr>tsRunning := True\<rparr>))"

text \<open>What is left in a queue when the cores have stopped is taken out and cancelled.\<close>

fun drain_task :: "nat \<Rightarrow> nat \<Rightarrow> 'w scheduler_core \<Rightarrow> task_item list outcome \<times> 'w scheduler_core" where
  "drain_task 0 r c = (Ok [], c)"
| "drain_task (Suc fuel) r c =
     (if taskQueueLen r c \<le> 0 then (Ok [], c)
      else case taskPeek r c of
        (Ok (Some item), c1) \<Rightarrow> (case taskDequeue r c1 of
            (Ok x, c2) \<Rightarrow> (case drain_task fuel r c2 of (res, c3) \<Rightarrow>
              (bind_outcome res (\<lambda>ys. Ok ((case x of Some y \<Rightarrow> if itemCancels y then [y] else [] | None \<Rightarrow> []) @ ys)), c3))
          | (Err e, c2) \<Rightarrow> (Err e, c2)
          | (Panic, c2) \<Rightarrow> (Panic, c2))
      | (Ok None, c1) \<Rightarrow> (Ok [], c1)
      | (Err e, c1) \<Rightarrow> (Err e, c1)
      | (Panic, c1) \<Rightarrow> (Panic, c1))"

definition SetLoadBalanceThreshold :: "int \<Rightarrow> 'w task_scheduler \<Rightarrow> 'w task_scheduler" where
  "SetLoadBalanceThreshold n m = m\<lparr>lbThreshold := (if n < 1 then lbLowLoadPerCore else n) * int (coreCount m)\<rparr>"

definition calculateCoreQueueLen :: "'w scheduler_core \<Rightarrow> int" where
  "calculateCoreQueueLen c = (\<Sum>p\<leftarrow>[0..<NumPriorityLevels]. \<Sum>r\<leftarrow>priorityBuckets c p. taskQueueLen r c)"

definition MaxQueueLengthHealthCheck :: int where "MaxQueueLengthHealthCheck = 10000"

fun health :: "'w scheduler_core list \<Rightarrow> unit outcome" where
  "health [] = Ok ()"
| "health (c # cs) = (if 0 < panicCount c then Err ErrCorePanicDetected
     else if MaxQueueLengthHealthCheck < calculateCoreQueueLen c then Err ErrCoreQueueTooLong else health cs)"

definition HealthCheck :: "'w task_scheduler \<Rightarrow> unit outcome" where
  "HealthCheck m = health (tsCores m)"

section \<open>Turns on one queue\<close>

abbreviation items_of :: "'w scheduler_core \<Rightarrow> nat \<Rightarrow> task_item list" where
  "items_of c r \<equiv> queue_items (queue_of c r)"

definition queue_fit :: "task_item mpsc_queue \<Rightarrow> bool" where
  "queue_fit q \<longleftrightarrow> queue_ok q \<and> length (queue_items q) < 9223372036854775808"

definition core_ok :: "'w scheduler_core \<Rightarrow> bool" where
  "core_ok c \<longleftrightarrow> (\<forall>r. queue_fit (queue_of c r))"

text \<open>A core after another: only the queue of one task is shorter, from its front.\<close>

definition advanced :: "nat \<Rightarrow> nat \<Rightarrow> 'w scheduler_core \<Rightarrow> 'w scheduler_core \<Rightarrow> bool" where
  "advanced r n c c' \<longleftrightarrow> core_ok c' \<and> items_of c' r = drop n (items_of c r) \<and> (\<forall>s. s \<noteq> r \<longrightarrow> queue_of c' s = queue_of c s) \<and>
     priorityBuckets c' = priorityBuckets c \<and> activeBitmap c' = activeBitmap c \<and>
     (\<forall>s. stExecute (scTasks c' s) = stExecute (scTasks c s))"

lemma set_task_simps [simp]:
  "scTasks (set_task r t c) = (scTasks c)(r := t)" "scTrace (set_task r t c) = scTrace c" "scWorld (set_task r t c) = scWorld c"
  "scAttempts (set_task r t c) = scAttempts c" "priorityBuckets (set_task r t c) = priorityBuckets c"
  "activeBitmap (set_task r t c) = activeBitmap c"
  by (simp_all add: set_task_def)

lemma core_okD: "core_ok c \<Longrightarrow> queue_ok (queue_of c r)" "core_ok c \<Longrightarrow> length (items_of c r) < 9223372036854775808"
  by (simp_all add: core_ok_def queue_fit_def)

lemma queue_len: "core_ok c \<Longrightarrow> taskQueueLen r c = int (length (items_of c r))"
proof -
  assume ok: "core_ok c"
  have u: "unat (queueSize (queue_of c r)) = length (items_of c r)" using core_okD(1) [OF ok, of r] core_okD(2) [OF ok, of r] by (intro queue_size) simp_all
  then have "uint (queueSize (queue_of c r)) = int (length (items_of c r))" unfolding uint_nat by (rule arg_cong)
  moreover have "sint x = uint x" if "uint x < 9223372036854775808" for x :: u64
  proof -
    have z: "0 \<le> uint x" by simp
    have "- (2 ^ 63) \<le> uint x" by (rule order_trans [OF _ z]) simp
    moreover have "uint x < 2 ^ 63" using that by simp
    ultimately show ?thesis by (simp add: sint_uint signed_take_bit_int_eq_self)
  qed
  ultimately show ?thesis using core_okD(2) [OF ok, of r] by (simp add: taskQueueLen_def)
qed

lemma advanced_refl: "core_ok c \<Longrightarrow> advanced r 0 c c"
  by (simp add: advanced_def)

lemma advanced_trans: "advanced r n c c1 \<Longrightarrow> advanced r m c1 c2 \<Longrightarrow> advanced r (n + m) c c2"
  by (simp add: advanced_def add.commute)

lemma peek_turn:
  assumes "core_ok c"
  shows "\<exists>c'. taskPeek r c = (Ok (case items_of c r of [] \<Rightarrow> None | x # xs \<Rightarrow> Some x), c') \<and> advanced r 0 c c' \<and>
    scTrace c' = scTrace c \<and> scAttempts c' = scAttempts c \<and> scWorld c' = scWorld c"
  using peek_queue [OF core_okD(1) [OF assms], of r] assms
  by (cases "items_of c r") (auto simp: taskPeek_def advanced_def core_ok_def)

lemma unbox_map [simp]: "unbox (map Some xs) = Ok xs"
  by (induction xs) simp_all

lemma peek_n_turn:
  assumes "core_ok c"
  shows "\<exists>c'. taskPeekN n r c = (Ok (take n (items_of c r)), c') \<and> advanced r 0 c c' \<and> scTrace c' = scTrace c"
  using peek_n_queue [OF core_okD(1) [OF assms], of n r] assms
  by (auto simp: taskPeekN_def Let_def advanced_def core_ok_def)

lemma dequeue_turn:
  assumes "core_ok c" "items_of c r = x # xs"
  shows "\<exists>c'. taskDequeue r c = (Ok (Some x), c') \<and> advanced r 1 c c' \<and> scTrace c' = scTrace c \<and> scAttempts c' = scAttempts c"
proof -
  note ok = core_okD(1) [OF assms(1), of r]
  have "queue_fit (queueCommit (queue_of c r))" using commit_queue [OF ok] assms(2) core_okD(2) [OF assms(1), of r] by (simp add: queue_fit_def)
  then show ?thesis using dequeue_queue [OF ok] commit_queue [OF ok] assms by (auto simp: taskDequeue_def advanced_def core_ok_def)
qed

lemma dequeue_n_turn:
  assumes "core_ok c" "0 < n"
  shows "\<exists>k c'. taskDequeueN (int n) r c = (k, c') \<and> advanced r n c c' \<and> scTrace c' = scTrace c"
proof -
  note ok = core_okD(1) [OF assms(1), of r]
  obtain out q where d: "queueDequeueN n (queue_of c r) = (out, q)" by fastforce
  then have "queue_ok q" "queue_items q = drop n (items_of c r)" using dequeue_n_queue [OF ok, of n] by auto
  moreover from this have "queue_fit q" using core_okD(2) [OF assms(1), of r] by (simp add: queue_fit_def)
  ultimately show ?thesis using assms d by (auto simp: taskDequeueN_def advanced_def core_ok_def)
qed

lemma execute_turn:
  assumes "core_ok c" "executeTask r item c = (s, c')"
  shows "advanced r 0 c c' \<and> scTrace c' = scTrace c @ [(item, s)] \<and> scAttempts c' = scAttempts c"
  using assms by (auto simp: executeTask_def advanced_def core_ok_def split: option.splits prod.splits)

text \<open>The function of a task always returns one status.\<close>

definition always :: "task_status \<Rightarrow> 'w scheduler_core \<Rightarrow> nat \<Rightarrow> bool" where
  "always s c r \<longleftrightarrow> (\<exists>f. stExecute (scTasks c r) = Some f \<and> (\<forall>item w. fst (f item w) = Some s))"

lemma execute_always:
  assumes "always s0 c r" "executeTask r item c = (s, c1)"
  shows "s = s0 \<and> always s0 c1 r"
proof -
  from assms(1) obtain f where f: "stExecute (scTasks c r) = Some f" "\<forall>item w. fst (f item w) = Some s0" by (auto simp: always_def)
  obtain w where "f item (scWorld c) = (Some s0, w)" using f(2) by (metis prod.collapse)
  then show ?thesis using assms(2) f by (auto simp: executeTask_def always_def)
qed

lemma execute_batch_turn:
  assumes "core_ok c" "executeBatch r items c = (ss, c')"
  shows "advanced r 0 c c' \<and> length ss = length items \<and> scTrace c' = scTrace c @ zip items ss \<and> (always s0 c r \<longrightarrow> ss = replicate (length items) s0)"
  using assms
proof (induction items arbitrary: c ss c')
  case (Cons item items)
  obtain s c1 where e: "executeTask r item c = (s, c1)" by fastforce
  let ?c1 = "c1\<lparr>tasksProcessed := tasksProcessed c1 + 1\<rparr>"
  obtain ss1 c2 where b: "executeBatch r items ?c1 = (ss1, c2)" by fastforce
  have 1: "advanced r 0 c ?c1" "scTrace ?c1 = scTrace c @ [(item, s)]" using execute_turn [OF Cons(2) e] by (simp_all add: advanced_def core_ok_def)
  then have "core_ok ?c1" by (simp add: advanced_def)
  from Cons(1) [OF this b] have "advanced r 0 ?c1 c2" "length ss1 = length items" "scTrace c2 = scTrace ?c1 @ zip items ss1"
    "always s0 ?c1 r \<longrightarrow> ss1 = replicate (length items) s0" by blast+
  moreover have "always s0 c r \<Longrightarrow> always s0 ?c1 r \<and> s = s0" using execute_always [OF _ e] by (auto simp: always_def)
  ultimately show ?case using Cons(3) e b 1 advanced_trans [OF 1(1)] by auto
qed (simp add: advanced_refl)

lemma handle_turn: "core_ok c \<Longrightarrow> advanced r 0 c (handleBatchResults rs c) \<and> scTrace (handleBatchResults rs c) = scTrace c"
proof (induction rs c rule: handleBatchResults.induct)
  case (2 item s rs c)
  let ?c = "if s \<in> {TaskFailed, TaskTimeout, TaskBusy, TaskRetrying} \<and> isShardItem item then snd (IncAttempts item c) else c"
  have "advanced r 0 c ?c" "scTrace ?c = scTrace c" using 2(2) by (simp_all add: IncAttempts_def advanced_def core_ok_def)
  moreover from this have "core_ok ?c" by (simp add: advanced_def)
  ultimately show ?case using 2(1) advanced_trans [of r 0 c ?c 0] by simp
qed (simp add: advanced_refl)

text \<open>The batch an item at the head asks for.\<close>

definition batch_len :: "task_item list \<Rightarrow> int" where
  "batch_len xs = min (case xs of [] \<Rightarrow> 1 | x # _ \<Rightarrow> (case itemBatchSize x of Some n \<Rightarrow> n | None \<Rightarrow> 1)) (int (length xs))"

lemma batch_turn:
  assumes "core_ok c"
  shows "\<exists>res c'. tryProcessBatch r c = (res, c') \<and> (
    if batch_len (items_of c r) < 2 then res = Ok False \<and> advanced r 0 c c' \<and> scTrace c' = scTrace c \<and> scAttempts c' = scAttempts c \<and> scWorld c' = scWorld c
    else if 32 < batch_len (items_of c r) then res = Panic \<and> advanced r 0 c c' \<and> scTrace c' = scTrace c
    else res = Ok True \<and> advanced r (nat (batch_len (items_of c r))) c c' \<and>
      (\<exists>ss. length ss = nat (batch_len (items_of c r)) \<and> scTrace c' = scTrace c @ zip (take (nat (batch_len (items_of c r))) (items_of c r)) ss \<and>
        (always s0 c r \<longrightarrow> ss = replicate (nat (batch_len (items_of c r))) s0)))"
proof -
  let ?xs = "items_of c r"
  define n where "n = batch_len ?xs"
  obtain c1 where p: "taskPeek r c = (Ok (case ?xs of [] \<Rightarrow> None | x # xs \<Rightarrow> Some x), c1)" and a1: "advanced r 0 c c1" "scTrace c1 = scTrace c" "scAttempts c1 = scAttempts c" "scWorld c1 = scWorld c"
    using peek_turn [OF assms, of r] by blast
  have ok1: "core_ok c1" "items_of c1 r = ?xs" using a1 by (simp_all add: advanced_def)
  have g: "getBatchSize r c = (Ok (case ?xs of [] \<Rightarrow> 1 | x # _ \<Rightarrow> (case itemBatchSize x of Some n \<Rightarrow> n | None \<Rightarrow> 1)), c1)"
    using p by (cases ?xs) (simp_all add: getBatchSize_def)
  have actual: "min (case ?xs of [] \<Rightarrow> 1 | x # _ \<Rightarrow> (case itemBatchSize x of Some n \<Rightarrow> n | None \<Rightarrow> 1)) (taskQueueLen r c1) = n"
    using queue_len [OF ok1(1), of r] ok1(2) by (simp add: n_def batch_len_def)
  consider "n < 2" | "2 \<le> n" "32 < n" | "2 \<le> n" "n \<le> 32" by linarith
  then show ?thesis
  proof cases
    case 3
    obtain c2 where p2: "taskPeekN (nat n) r c1 = (Ok (take (nat n) ?xs), c2)" and a2: "advanced r 0 c1 c2" "scTrace c2 = scTrace c1"
      using peek_n_turn [OF ok1(1), of "nat n" r] ok1(2) by auto
    have len: "length (take (nat n) ?xs) = nat n" by (simp add: n_def batch_len_def)
    obtain ss c3 where e: "executeBatch r (take (nat n) ?xs) c2 = (ss, c3)" by fastforce
    have "core_ok c2" using a2 by (simp add: advanced_def)
    from execute_batch_turn [OF this e, of s0] have a3: "advanced r 0 c2 c3" "length ss = nat n" "scTrace c3 = scTrace c2 @ zip (take (nat n) ?xs) ss"
      "always s0 c2 r \<longrightarrow> ss = replicate (nat n) s0" using len by simp_all
    have "always s0 c r \<longrightarrow> ss = replicate (nat n) s0" using a3(4) a1(1) a2(1) by (simp add: always_def advanced_def)
    have "core_ok c3" "0 < nat n" using a3 3 by (simp_all add: advanced_def)
    from dequeue_n_turn [OF this, of r] obtain k c4 where d: "taskDequeueN (int (nat n)) r c3 = (k, c4)" and a4: "advanced r (nat n) c3 c4" "scTrace c4 = scTrace c3"
      by blast
    let ?c5 = "handleBatchResults (zip (take (nat n) ?xs) ss) c4"
    have "core_ok c4" using a4 by (simp add: advanced_def)
    from handle_turn [OF this] have a5: "advanced r 0 c4 ?c5" "scTrace ?c5 = scTrace c4" by blast+
    have "advanced r (nat n) c ?c5"
      using advanced_trans [OF advanced_trans [OF advanced_trans [OF advanced_trans [OF a1(1) a2(1)] a3(1)] a4(1)] a5(1)] by simp
    moreover have "tryProcessBatch r c = (Ok True, ?c5)"
      using g 3 p2 len e d by (simp add: tryProcessBatch_def Let_def actual batchBufferSize_def)
    moreover have "scTrace ?c5 = scTrace c @ zip (take (nat n) ?xs) ss" using a5 a4 a3 a2 a1 by simp
    ultimately show ?thesis using 3 a3(2) \<open>always s0 c r \<longrightarrow> ss = replicate (nat n) s0\<close> unfolding n_def [symmetric] by auto
  qed (use g a1 in \<open>simp_all add: tryProcessBatch_def Let_def actual batchBufferSize_def n_def [symmetric]\<close>)
qed

lemma after_execute_turn:
  assumes "core_ok c" "items_of c r = item # xs"
  shows "\<exists>c'. after_execute r item s c = (Ok (), c') \<and> scTrace c' = scTrace c \<and>
    (if s \<in> {TaskPassed, TaskFailed} \<or> s \<in> {TaskTimeout, TaskBusy, TaskRetrying} \<and> (isShardItem item \<longrightarrow> itemMaxRetries item < scAttempts c (itemID item) + 1)
     then advanced r 1 c c'
     else advanced r 0 c c' \<and> (if s \<in> {TaskTimeout, TaskBusy, TaskRetrying} then scAttempts c' (itemID item) = scAttempts c (itemID item) + 1 else c' = c))"
proof -
  let ?i = "c\<lparr>scAttempts := (scAttempts c)(itemID item := scAttempts c (itemID item) + 1)\<rparr>"
  have i: "core_ok ?i" "items_of ?i r = item # xs" "scTrace ?i = scTrace c" "advanced r 0 c ?i" using assms by (simp_all add: core_ok_def advanced_def)
  obtain c1 where d1: "taskDequeue r c = (Ok (Some item), c1)" "advanced r 1 c c1" "scTrace c1 = scTrace c" using dequeue_turn [OF assms] by blast
  obtain c2 where d2: "taskDequeue r ?i = (Ok (Some item), c2)" "advanced r 1 ?i c2" "scTrace c2 = scTrace ?i" using dequeue_turn [OF i(1,2)] by blast
  have "advanced r 1 c c2" using advanced_trans [OF i(4) d2(2)] by simp
  then show ?thesis using d1 d2 i advanced_refl [OF assms(1), of r]
    by (cases s) (auto simp: after_execute_def Let_def IncAttempts_def)
qed

lemma single_turn:
  assumes "core_ok c" "items_of c r = item # xs"
  shows "\<exists>s c'. processSingle r c = (Ok (), c') \<and> scTrace c' = scTrace c @ [(item, s)] \<and>
    (if s \<in> {TaskPassed, TaskFailed} \<or> s \<in> {TaskTimeout, TaskBusy, TaskRetrying} \<and> (isShardItem item \<longrightarrow> itemMaxRetries item < scAttempts c (itemID item) + 1)
     then advanced r 1 c c'
     else advanced r 0 c c' \<and> scAttempts c' (itemID item) = scAttempts c (itemID item) + (if s \<in> {TaskTimeout, TaskBusy, TaskRetrying} then 1 else 0)) \<and>
    (\<forall>f. stExecute (scTasks c r) = Some f \<longrightarrow> s = (case fst (f item (scWorld c)) of Some x \<Rightarrow> x | None \<Rightarrow> TaskQueued))"
proof -
  obtain c1 where p: "taskPeek r c = (Ok (Some item), c1)" and a1: "advanced r 0 c c1" "scTrace c1 = scTrace c" "scAttempts c1 = scAttempts c" "scWorld c1 = scWorld c"
    using peek_turn [OF assms(1), of r] assms(2) by auto
  have ok1: "core_ok c1" "stExecute (scTasks c1 r) = stExecute (scTasks c r)" using a1 by (simp_all add: advanced_def)
  obtain s c2 where e: "executeTask r item c1 = (s, c2)" by fastforce
  let ?c2 = "c2\<lparr>tasksProcessed := tasksProcessed c2 + 1\<rparr>"
  have a2: "advanced r 0 c1 ?c2" "scTrace ?c2 = scTrace c1 @ [(item, s)]" "scAttempts ?c2 = scAttempts c1"
    using execute_turn [OF ok1(1) e] by (simp_all add: advanced_def core_ok_def)
  have a: "advanced r 0 c ?c2" using advanced_trans [OF a1(1) a2(1)] by simp
  then have "core_ok ?c2" "items_of ?c2 r = item # xs" using assms(2) by (simp_all add: advanced_def)
  from after_execute_turn [OF this, of s] obtain c' where f: "after_execute r item s ?c2 = (Ok (), c')" "scTrace c' = scTrace ?c2"
    "if s \<in> {TaskPassed, TaskFailed} \<or> s \<in> {TaskTimeout, TaskBusy, TaskRetrying} \<and> (isShardItem item \<longrightarrow> itemMaxRetries item < scAttempts ?c2 (itemID item) + 1)
     then advanced r 1 ?c2 c'
     else advanced r 0 ?c2 c' \<and> (if s \<in> {TaskTimeout, TaskBusy, TaskRetrying} then scAttempts c' (itemID item) = scAttempts ?c2 (itemID item) + 1 else c' = ?c2)"
    by blast
  have "processSingle r c = (Ok (), c')" using p e f(1) by (simp add: processSingle_def)
  moreover have "scTrace c' = scTrace c @ [(item, s)]" using f(2) a2(2) a1(2) by simp
  moreover have "s = (case fst (g item (scWorld c)) of Some x \<Rightarrow> x | None \<Rightarrow> TaskQueued)" if "stExecute (scTasks c r) = Some g" for g
    using e that ok1(2) a1(4) by (auto simp: executeTask_def split: prod.splits option.splits)
  ultimately show ?thesis using f(3) a2(3) a1(3) advanced_trans [OF a, of 1 c'] advanced_trans [OF a, of 0 c']
    by (intro exI [of _ s] exI [of _ c']) (auto split: if_splits)
qed

section \<open>Nothing is lost unexecuted\<close>

definition served :: "'w scheduler_core \<Rightarrow> 'w scheduler_core \<Rightarrow> bool" where
  "served c c' \<longleftrightarrow> core_ok c' \<and> (\<exists>ex. scTrace c' = scTrace c @ ex \<and>
     (\<forall>r. \<exists>n. items_of c' r = drop n (items_of c r) \<and> set (take n (items_of c r)) \<subseteq> fst ` set ex))"

lemma servedI:
  assumes "advanced r n c c'" "scTrace c' = scTrace c @ ex" "set (take n (items_of c r)) \<subseteq> fst ` set ex"
  shows "served c c'"
  unfolding served_def
proof (intro conjI exI [of _ ex] allI)
  show "core_ok c'" "scTrace c' = scTrace c @ ex" using assms by (simp_all add: advanced_def)
  fix s
  show "\<exists>n. items_of c' s = drop n (items_of c s) \<and> set (take n (items_of c s)) \<subseteq> fst ` set ex"
    using assms by (cases "s = r") (auto simp: advanced_def intro: exI [of _ "0::nat"])
qed

lemma served_refl: "core_ok c \<Longrightarrow> served c c"
  by (rule servedI [where r = 0 and n = 0 and ex = "[]"]) (simp_all add: advanced_refl)

lemma served_trans:
  assumes "served a b" "served b c"
  shows "served a c"
proof -
  from assms obtain ex ey where ex: "scTrace b = scTrace a @ ex" "\<forall>r. \<exists>n. items_of b r = drop n (items_of a r) \<and> set (take n (items_of a r)) \<subseteq> fst ` set ex"
    and ey: "scTrace c = scTrace b @ ey" "\<forall>r. \<exists>n. items_of c r = drop n (items_of b r) \<and> set (take n (items_of b r)) \<subseteq> fst ` set ey" "core_ok c"
    unfolding served_def by blast
  have "\<exists>n. items_of c r = drop n (items_of a r) \<and> set (take n (items_of a r)) \<subseteq> fst ` set (ex @ ey)" for r
  proof -
    obtain n m where n: "items_of b r = drop n (items_of a r)" "set (take n (items_of a r)) \<subseteq> fst ` set ex"
      and m: "items_of c r = drop m (items_of b r)" "set (take m (items_of b r)) \<subseteq> fst ` set ey" using ex(2) ey(2) by meson
    have "items_of c r = drop (n + m) (items_of a r)" using n m by (simp add: add.commute)
    moreover have "set (take (n + m) (items_of a r)) \<subseteq> fst ` set (ex @ ey)" using n m by (auto simp: take_add image_Un)
    ultimately show ?thesis by blast
  qed
  then show ?thesis using ex(1) ey(1,3) unfolding served_def by (intro conjI exI [of _ "ex @ ey"]) auto
qed

lemma batch_served: "core_ok c \<Longrightarrow> served c (snd (tryProcessBatch r c))"
proof -
  assume ok: "core_ok c"
  let ?n = "batch_len (items_of c r)"
  obtain res c' where b: "tryProcessBatch r c = (res, c')" and B: "if ?n < 2 then res = Ok False \<and> advanced r 0 c c' \<and> scTrace c' = scTrace c \<and> scAttempts c' = scAttempts c \<and> scWorld c' = scWorld c
    else if 32 < ?n then res = Panic \<and> advanced r 0 c c' \<and> scTrace c' = scTrace c
    else res = Ok True \<and> advanced r (nat ?n) c c' \<and> (\<exists>ss. length ss = nat ?n \<and> scTrace c' = scTrace c @ zip (take (nat ?n) (items_of c r)) ss \<and>
      (always TaskPassed c r \<longrightarrow> ss = replicate (nat ?n) TaskPassed))"
    using batch_turn [OF ok, of r TaskPassed] by blast
  show ?thesis
  proof (cases "?n < 2 \<or> 32 < ?n")
    case True
    then have "advanced r 0 c c'" "scTrace c' = scTrace c @ []" using B by (auto split: if_splits)
    then show ?thesis using b servedI [of r 0 c c' "[]"] by simp
  next
    case False
    then obtain ss where ss: "advanced r (nat ?n) c c'" "length ss = nat ?n" "scTrace c' = scTrace c @ zip (take (nat ?n) (items_of c r)) ss"
      using B by auto
    have "length (take (nat ?n) (items_of c r)) \<le> length ss" using ss(2) by simp
    then have "set (take (nat ?n) (items_of c r)) \<subseteq> fst ` set (zip (take (nat ?n) (items_of c r)) ss)"
      by (metis list.set_map map_fst_zip_take min.absorb1 order_refl take_all)
    then show ?thesis using b servedI [OF ss(1,3)] by simp
  qed
qed

lemma single_served: "core_ok c \<Longrightarrow> served c (snd (processSingle r c))"
proof (cases "items_of c r")
  case Nil
  assume ok: "core_ok c"
  then obtain c' where "taskPeek r c = (Ok None, c')" "advanced r 0 c c'" "scTrace c' = scTrace c" using peek_turn [OF ok, of r] Nil by auto
  then show ?thesis using servedI [of r 0 c c' "[]"] by (simp add: processSingle_def)
next
  case (Cons item xs)
  assume ok: "core_ok c"
  from single_turn [OF this Cons] obtain s c' where t: "processSingle r c = (Ok (), c')" "scTrace c' = scTrace c @ [(item, s)]" "advanced r 1 c c' \<or> advanced r 0 c c'"
    by (auto split: if_splits)
  then show ?thesis using servedI [of r 1 c c' "[(item, s)]"] servedI [of r 0 c c' "[(item, s)]"] Cons by auto
qed

lemma process_served: "core_ok c \<Longrightarrow> served c (snd (processTask r c))"
proof -
  assume ok: "core_ok c"
  obtain res c1 where b: "tryProcessBatch r c = (res, c1)" by fastforce
  have s: "served c c1" using batch_served [OF ok, of r] b by simp
  then have "served c1 (snd (processSingle r c1))" by (intro single_served) (simp add: served_def)
  then show ?thesis using s b served_trans [OF s] by (auto simp: processTask_def split: outcome.splits bool.splits)
qed

lemma boosted_served: "core_ok c \<Longrightarrow> served c (snd (processBoosted r c))"
proof -
  assume ok: "core_ok c"
  obtain res c1 where b: "tryProcessBatch r c = (res, c1)" by fastforce
  have s: "served c c1" using batch_served [OF ok, of r] b by simp
  have "advanced r 0 c1 (set_task r ((scTasks c1 r)\<lparr>priorityBoost := False\<rparr>) c1)" using s by (simp add: advanced_def core_ok_def served_def)
  then have "served c1 (set_task r ((scTasks c1 r)\<lparr>priorityBoost := False\<rparr>) c1)" by (rule servedI [where ex = "[]"]) simp_all
  then show ?thesis using s b served_trans [OF s] served_refl [OF ok] by (auto simp: processBoosted_def split: outcome.splits)
qed

lemma visit_served:
  assumes "core_ok c" "\<And>r c. core_ok c \<Longrightarrow> served c (snd (f r c))"
  shows "served c (snd (visit_tasks f rs c))"
  using assms(1)
proof (induction rs arbitrary: c)
  case (Cons r rs)
  obtain res c1 where r: "f r c = (res, c1)" by fastforce
  have s: "served c c1" using assms(2) [OF Cons(2), of r] r by simp
  then have "served c1 (snd (visit_tasks f rs c1))" by (intro Cons(1)) (simp add: served_def)
  then show ?case using s r served_trans [OF s] by (auto split: outcome.splits)
qed (simp add: served_refl)


section \<open>Retries\<close>

definition turns :: "nat \<Rightarrow> nat \<Rightarrow> 'w scheduler_core \<Rightarrow> 'w scheduler_core" where
  "turns r n c = ((\<lambda>c. snd (processTask r c)) ^^ n) c"

lemma no_batch: "itemBatchSize item = None \<Longrightarrow> batch_len (item # xs) < 2"
  by (simp add: batch_len_def)

lemma plain_item_turn:
  assumes "core_ok c" "items_of c r = item # xs" "itemBatchSize item = None" "stExecute (scTasks c r) = Some f" "\<forall>w. fst (f item w) = out"
  defines "s \<equiv> (case out of Some x \<Rightarrow> x | None \<Rightarrow> TaskQueued)"
  shows "\<exists>c'. processTask r c = (Ok (), c') \<and> scTrace c' = scTrace c @ [(item, s)] \<and>
    (if s \<in> {TaskPassed, TaskFailed} \<or> s \<in> {TaskTimeout, TaskBusy, TaskRetrying} \<and> (isShardItem item \<longrightarrow> itemMaxRetries item < scAttempts c (itemID item) + 1)
     then advanced r 1 c c'
     else advanced r 0 c c' \<and> scAttempts c' (itemID item) = scAttempts c (itemID item) + (if s \<in> {TaskTimeout, TaskBusy, TaskRetrying} then 1 else 0))"
proof -
  obtain c1 where b: "tryProcessBatch r c = (Ok False, c1)" "advanced r 0 c c1" "scTrace c1 = scTrace c" "scAttempts c1 = scAttempts c" "scWorld c1 = scWorld c"
    using batch_turn [OF assms(1), of r TaskPassed] no_batch [OF assms(3), of xs] assms(2) by auto
  have c1: "core_ok c1" "items_of c1 r = item # xs" "stExecute (scTasks c1 r) = Some f" using b(2) assms(2,4) by (simp_all add: advanced_def)
  from single_turn [OF c1(1,2)] obtain s' c' where t: "processSingle r c1 = (Ok (), c')" "scTrace c' = scTrace c1 @ [(item, s')]"
    "if s' \<in> {TaskPassed, TaskFailed} \<or> s' \<in> {TaskTimeout, TaskBusy, TaskRetrying} \<and> (isShardItem item \<longrightarrow> itemMaxRetries item < scAttempts c1 (itemID item) + 1)
     then advanced r 1 c1 c'
     else advanced r 0 c1 c' \<and> scAttempts c' (itemID item) = scAttempts c1 (itemID item) + (if s' \<in> {TaskTimeout, TaskBusy, TaskRetrying} then 1 else 0)"
    "\<forall>f. stExecute (scTasks c1 r) = Some f \<longrightarrow> s' = (case fst (f item (scWorld c1)) of Some x \<Rightarrow> x | None \<Rightarrow> TaskQueued)" by blast
  have s': "s' = s" using t(4) c1(3) assms(5) by (simp add: s_def)
  have "processTask r c = (Ok (), c')" using b(1) t(1) by (simp add: processTask_def)
  then show ?thesis using t(2,3) b(3,4) advanced_trans [OF b(2), of 1 c'] advanced_trans [OF b(2), of 0 c'] unfolding s'
    by (intro exI [of _ c']) (auto split: if_splits)
qed

lemma turns_stay:
  assumes "core_ok c" "items_of c r = item # xs" "itemBatchSize item = None" "stExecute (scTasks c r) = Some f" "\<forall>w. fst (f item w) = out"
    and s: "(case out of Some x \<Rightarrow> x | None \<Rightarrow> TaskQueued) = s"
    and stay: "s \<in> {TaskQueued, TaskExecuting, TaskCompleted} \<or> s \<in> {TaskTimeout, TaskBusy, TaskRetrying} \<and> isShardItem item \<and> scAttempts c (itemID item) + int n \<le> itemMaxRetries item"
  shows "advanced r 0 c (turns r n c) \<and> scTrace (turns r n c) = scTrace c @ replicate n (item, s) \<and>
    (s \<in> {TaskTimeout, TaskBusy, TaskRetrying} \<longrightarrow> scAttempts (turns r n c) (itemID item) = scAttempts c (itemID item) + int n)"
  using stay
proof (induction n)
  case 0
  then show ?case using advanced_refl [OF assms(1)] by (simp add: turns_def)
next
  case (Suc n)
  let ?d = "turns r n c"
  have ih: "advanced r 0 c ?d" "scTrace ?d = scTrace c @ replicate n (item, s)"
    "s \<in> {TaskTimeout, TaskBusy, TaskRetrying} \<longrightarrow> scAttempts ?d (itemID item) = scAttempts c (itemID item) + int n" using Suc by auto
  have d: "core_ok ?d" "items_of ?d r = item # xs" "stExecute (scTasks ?d r) = Some f" using ih(1) assms(2,4) by (simp_all add: advanced_def)
  from plain_item_turn [OF d(1,2) assms(3) d(3) assms(5), unfolded s] Suc(2) ih(3) obtain c' where
    c': "processTask r ?d = (Ok (), c')" "scTrace c' = scTrace ?d @ [(item, s)]" "advanced r 0 ?d c'"
    "scAttempts c' (itemID item) = scAttempts ?d (itemID item) + (if s \<in> {TaskTimeout, TaskBusy, TaskRetrying} then 1 else 0)" by fastforce
  have "turns r (Suc n) c = c'" using c'(1) by (simp add: turns_def)
  then show ?case using ih c' advanced_trans [OF ih(1) c'(3)] by (auto simp: replicate_append_same)
qed

text \<open>A core with one task and some items in its queue.\<close>

definition sample_core :: "(unit execute_func) \<Rightarrow> task_item list \<Rightarrow> unit scheduler_core" where
  "sample_core f xs = NewSchedulerCore () \<lparr>stName = ''t'', stPriority = 5, stOrder = 1, stQueue = fold queueEnqueue xs NewMPSCExtQueue,
     stStatus = TaskQueued, stExecute = Some f, lastSubmitTime = 0, priorityBoost = False\<rparr>"

definition sample_item :: "nat \<Rightarrow> int option \<Rightarrow> int \<Rightarrow> task_item" where
  "sample_item i b n = \<lparr>itemID = i, isShardItem = True, itemShardID = 0, itemMaxRetries = n, itemBatchSize = b, itemCancels = False\<rparr>"

lemma fold_enqueue:
  assumes "queue_ok q" "qOverflow q = []" "unat (writeIdx q) + length xs \<le> 10000" "length (ring_items q) + length xs \<le> 10000"
  shows "queue_ok (fold queueEnqueue xs q) \<and> queue_items (fold queueEnqueue xs q) = queue_items q @ xs"
  using assms
proof (induction xs arbitrary: q)
  case (Cons x xs)
  have "length (ring_items q) < ringBufferSize" "unat (writeIdx q) < 18446744073709551615" using Cons(4,5) by (simp_all add: ringBufferSize_def)
  note E = enqueue_ring [OF Cons(2) this, of x]
  have "unat (writeIdx (queueEnqueue x q)) \<le> Suc (unat (writeIdx q))"
    using Cons(4) by (auto simp: queueEnqueue_def enqueueOverflow_def unat_word_ariths split: if_splits)
  then show ?case using Cons(1) [of "queueEnqueue x q"] Cons(3-5) E by (simp add: queue_items_def)
qed simp

lemma filled_queue:
  assumes "length xs \<le> 10000"
  shows "queue_ok (fold queueEnqueue xs NewMPSCExtQueue)" "queue_items (fold queueEnqueue xs NewMPSCExtQueue) = xs"
proof -
  have e: "qOverflow NewMPSCExtQueue = []" "unat (writeIdx NewMPSCExtQueue) = 0" "ring_items NewMPSCExtQueue = []"
    by (simp_all add: NewMPSCExtQueue_def ring_items_def)
  show "queue_ok (fold queueEnqueue xs NewMPSCExtQueue)" "queue_items (fold queueEnqueue xs NewMPSCExtQueue) = xs"
    using fold_enqueue [OF queue_new(1) e(1), of xs] assms by (simp_all add: e(2,3) queue_new(2))
qed

lemma sample_core_ok: "length xs \<le> 10000 \<Longrightarrow> core_ok (sample_core f xs) \<and> items_of (sample_core f xs) r = xs"
  using filled_queue [of xs]
  by (simp add: sample_core_def NewSchedulerCore_def core_ok_def queue_fit_def)

lemma sample_core_simps [simp]:
  "stExecute (scTasks (sample_core f xs) r) = Some f" "scAttempts (sample_core f xs) i = 0" "scTrace (sample_core f xs) = []"
  by (simp_all add: sample_core_def NewSchedulerCore_def)


text \<open>Claim C23. Retries are bounded in the single path: an item whose execution keeps asking for a retry stays at the head of its
  queue, is executed once per turn, and after exactly as many further attempts as its limit allows, and one more, it is out of
  the queue.\<close>

theorem retried_item_leaves:
  assumes "core_ok c" "items_of c r = item # xs" "itemBatchSize item = None" "isShardItem item"
    "stExecute (scTasks c r) = Some f" "\<forall>w. fst (f item w) = Some TaskRetrying" "itemMaxRetries item = scAttempts c (itemID item) + int k"
  shows "items_of (turns r k c) r = item # xs \<and> items_of (turns r (Suc k) c) r = xs \<and>
    scTrace (turns r (Suc k) c) = scTrace c @ replicate (Suc k) (item, TaskRetrying)"
proof -
  let ?d = "turns r k c"
  have T: "advanced r 0 c ?d" "scTrace ?d = scTrace c @ replicate k (item, TaskRetrying)" "scAttempts ?d (itemID item) = scAttempts c (itemID item) + int k"
    using turns_stay [OF assms(1-3,5,6), of TaskRetrying k] assms(4,7) by auto
  have d: "core_ok ?d" "items_of ?d r = item # xs" "stExecute (scTasks ?d r) = Some f" using T(1) assms(2,5) by (simp_all add: advanced_def)
  from plain_item_turn [OF d(1,2) assms(3) d(3) assms(6)] T(3) assms(4,7) obtain c' where
    c': "processTask r ?d = (Ok (), c')" "scTrace c' = scTrace ?d @ [(item, TaskRetrying)]" "advanced r 1 ?d c'" by auto
  have "turns r (Suc k) c = c'" using c'(1) by (simp add: turns_def)
  then show ?thesis using T(2) c' d(2) by (auto simp: advanced_def replicate_append_same)
qed

theorem retried_item_leaves_witness:
  "let c = sample_core (\<lambda>_ _. (Some TaskRetrying, ())) [sample_item 1 None 2] in
     items_of (turns 0 2 c) 0 = [sample_item 1 None 2] \<and> items_of (turns 0 (Suc 2) c) 0 = [] \<and>
     scTrace (turns 0 (Suc 2) c) = [] @ replicate (Suc 2) (sample_item 1 None 2, TaskRetrying)"
  using retried_item_leaves [of "sample_core (\<lambda>_ _. (Some TaskRetrying, ())) [sample_item 1 None 2]" 0 "sample_item 1 None 2" "[]" "\<lambda>_ _. (Some TaskRetrying, ())" 2]
    sample_core_ok [of "[sample_item 1 None 2]" "\<lambda>_ _. (Some TaskRetrying, ())"] by (simp add: Let_def) (simp add: sample_item_def)

text \<open>A panicking item is executed for ever: the recovered panic counts as the status \<open>TaskQueued\<close>, which is neither
  dequeued nor counted as an attempt, so after any number of turns the item is still at the head of its queue, no item behind it
  has been served, and it has been executed once per turn.\<close>

theorem panicking_item_runs_forever:
  assumes "core_ok c" "items_of c r = item # xs" "itemBatchSize item = None" "stExecute (scTasks c r) = Some f" "\<forall>w. fst (f item w) = None"
  shows "items_of (turns r n c) r = item # xs \<and> scTrace (turns r n c) = scTrace c @ replicate n (item, TaskQueued)"
  using turns_stay [OF assms, of TaskQueued n] assms(2) by (auto simp: advanced_def)

theorem panicking_item_runs_forever_witness:
  "let c = sample_core (\<lambda>_ _. (None, ())) [sample_item 1 None 2, sample_item 2 None 2] in
     items_of (turns 0 1000 c) 0 = [sample_item 1 None 2, sample_item 2 None 2] \<and> scTrace (turns 0 1000 c) = [] @ replicate 1000 (sample_item 1 None 2, TaskQueued)"
  using panicking_item_runs_forever [of "sample_core (\<lambda>_ _. (None, ())) [sample_item 1 None 2, sample_item 2 None 2]" 0 "sample_item 1 None 2"
      "[sample_item 2 None 2]" "\<lambda>_ _. (None, ())" 1000]
    sample_core_ok [of "[sample_item 1 None 2, sample_item 2 None 2]" "\<lambda>_ _. (None, ())"] by (simp add: Let_def sample_item_def)

text \<open>Claim C40. A batch forgets its retries: when at least two items are taken as a batch, all of them leave the queue after their
  execution, also those whose status asks for a retry and whose attempts are not used up, although the single path keeps them.\<close>

theorem batch_drops_retries:
  assumes "core_ok c" "items_of c r = x # y # xs" "itemBatchSize x = Some n" "2 \<le> n" "min n (int (length (x # y # xs))) \<le> 32" "always TaskRetrying c r"
  shows "\<exists>c'. tryProcessBatch r c = (Ok True, c') \<and> items_of c' r = drop (nat n) (x # y # xs) \<and>
    scTrace c' = scTrace c @ map (\<lambda>i. (i, TaskRetrying)) (take (nat n) (x # y # xs))"
proof -
  let ?xs = "x # y # xs"
  have b: "batch_len ?xs = min n (int (length ?xs))" using assms(3) by (simp add: batch_len_def)
  then have "\<not> batch_len ?xs < 2" "\<not> 32 < batch_len ?xs" using assms(4,5) by auto
  then obtain c' ss where c': "tryProcessBatch r c = (Ok True, c')" "advanced r (nat (batch_len ?xs)) c c'"
    "scTrace c' = scTrace c @ zip (take (nat (batch_len ?xs)) ?xs) ss" "ss = replicate (nat (batch_len ?xs)) TaskRetrying"
    using batch_turn [OF assms(1), of r TaskRetrying] assms(2,6) by auto
  have n: "nat (batch_len ?xs) = min (nat n) (length ?xs)" using b assms(4) by (auto simp: min_def nat_le_iff nat_add_distrib)
  have "zip (take k ?xs) (replicate k TaskRetrying) = map (\<lambda>i. (i, TaskRetrying)) (take k ?xs)" for k
    by (simp add: zip_replicate2 take_zip)
  then show ?thesis using c' assms(2) n by (auto simp: advanced_def min_def)
qed

theorem batch_drops_retries_witness:
  "let c = sample_core (\<lambda>_ _. (Some TaskRetrying, ())) [sample_item 1 (Some 2) 5, sample_item 2 (Some 2) 5] in
     \<exists>c'. tryProcessBatch 0 c = (Ok True, c') \<and> items_of c' 0 = [] \<and>
       scTrace c' = [] @ [(sample_item 1 (Some 2) 5, TaskRetrying), (sample_item 2 (Some 2) 5, TaskRetrying)]"
  using batch_drops_retries [of "sample_core (\<lambda>_ _. (Some TaskRetrying, ())) [sample_item 1 (Some 2) 5, sample_item 2 (Some 2) 5]" 0
      "sample_item 1 (Some 2) 5" "sample_item 2 (Some 2) 5" "[]" 2]
    sample_core_ok [of "[sample_item 1 (Some 2) 5, sample_item 2 (Some 2) 5]" "\<lambda>_ _. (Some TaskRetrying, ())"]
  by (simp add: Let_def always_def) (simp add: sample_item_def)

end
