(* ===== verification/Task_Registry.thy ===== *)
theory Task_Registry
  imports Task_Scheduler
begin

text \<open>
  What registration builds on a core of the task scheduler and what the cycle makes of it: the buckets are sorted by execution
  order, a bit of the bitmap stands for a bucket that is not empty, and the walk over the bits of \<open>runLoop\<close> visits every
  registered task once, by priority and execution order. The walk over the bitmap is compared with a reference that runs through
  all priorities.
\<close>

section \<open>The walk over the bitmap\<close>

lemma trailing_zeros:
  assumes "x \<noteq> 0"
  shows "bit x (TrailingZeros16 x) \<and> (\<forall>i<TrailingZeros16 x. \<not> bit x i)"
proof -
  let ?xs = "takeWhile (\<lambda>i. \<not> bit x i) [0..<16]"
  obtain n where "bit x n" "n < 16" using assms bit_imp_le_length [of x] by (auto simp: bit_eq_iff)
  then have "?xs \<noteq> [0..<16]" by (auto simp: takeWhile_eq_all_conv)
  then have l: "length ?xs < length [0..<16]" by (metis length_takeWhile_le less_le takeWhile_eq_take take_all_iff nle_le)
  have "\<not> bit x i" if "i < length ?xs" for i
    using nth_mem [OF that] set_takeWhileD [of "?xs ! i"] takeWhile_nth [OF that] l that by auto
  then show ?thesis using nth_length_takeWhile [OF l] l by (simp add: TrailingZeros16_def)
qed

lemma filter_upt_first:
  assumes "\<forall>i\<in>{k..<p}. \<not> P i" "P p" "k \<le> p" "p < n"
  shows "filter P [k..<n] = p # filter P [Suc p..<n]"
proof -
  have "[k..<n] = [k..<p] @ [p..<n]" using assms(3,4) upt_add_eq_append [of k p "n - p"] by simp
  moreover have "filter P [k..<p] = []" using assms(1) by (simp add: filter_empty_conv)
  ultimately show ?thesis using assms(2,4) by (simp add: upt_conv_Cons)
qed

lemma bitmap_order_from:
  "\<lbrakk>\<forall>i<k. \<not> bit bm i; NumPriorityLevels - k \<le> fuel\<rbrakk> \<Longrightarrow> bitmap_order fuel bm = filter (bit bm) [k..<NumPriorityLevels]"
proof (induction fuel arbitrary: bm k)
  case (Suc fuel)
  show ?case
  proof (cases "bm = 0")
    case False
    let ?p = "TrailingZeros16 bm" and ?bm = "bm AND NOT (push_bit (TrailingZeros16 bm) 1)"
    note tz = trailing_zeros [OF False]
    have kp: "k \<le> ?p" using tz Suc.prems(1) by (meson not_le_imp_less)
    show ?thesis
    proof (cases "NumPriorityLevels \<le> ?p")
      case True
      then have "filter (bit bm) [k..<NumPriorityLevels] = []" using tz by (auto simp: filter_empty_conv)
      then show ?thesis using True False by (simp add: Let_def)
    next
      case p: False
      have b: "bit ?bm i \<longleftrightarrow> bit bm i \<and> i \<noteq> ?p" for i
        using bit_imp_le_length [of bm i] by (auto simp: bit_and_iff bit_not_iff bit_exp_iff)
      then have "\<forall>i<Suc ?p. \<not> bit ?bm i" using tz less_Suc_eq by auto
      then have "bitmap_order fuel ?bm = filter (bit ?bm) [Suc ?p..<NumPriorityLevels]" using Suc.IH [of "Suc ?p" ?bm] Suc.prems(2) kp by simp
      also have "\<dots> = filter (bit bm) [Suc ?p..<NumPriorityLevels]" using b by (intro filter_cong) auto
      finally show ?thesis using p False tz kp filter_upt_first [of k ?p "bit bm" NumPriorityLevels] by (simp add: Let_def)
    qed
  qed simp
qed simp

lemma bitmap_walk: "bitmap_order 16 bm = filter (bit bm) [0..<NumPriorityLevels]"
  using bitmap_order_from [of 0 bm 16] by (simp add: NumPriorityLevels_def)

section \<open>What registration keeps\<close>

definition registry_ok :: "'w scheduler_core \<Rightarrow> bool" where
  "registry_ok c \<longleftrightarrow>
     (\<forall>p. bit (activeBitmap c) p \<longleftrightarrow> priorityBuckets c p \<noteq> []) \<and>
     (\<forall>p. sorted (map (\<lambda>r. stOrder (scTasks c r)) (priorityBuckets c p)) \<and> distinct (priorityBuckets c p)) \<and>
     (\<forall>p. \<forall>r\<in>set (priorityBuckets c p). r < scNextTask c \<and> bucket_of (stPriority (scTasks c r)) = p) \<and>
     (\<forall>r. (\<exists>p. r \<in> set (priorityBuckets c p)) \<longleftrightarrow> taskMap c (stName (scTasks c r)) = Some r)"

lemma bucket_of_less: "bucket_of p < NumPriorityLevels"
  by (auto simp: bucket_of_def NumPriorityLevels_def)

lemma registry_new: "registry_ok (NewSchedulerCore w t0)"
  by (simp add: registry_ok_def NewSchedulerCore_def)

lemma sorted_insert_at:
  fixes f :: "'a \<Rightarrow> int"
  assumes "sorted (map f xs)"
  shows "sorted (map f (takeWhile (\<lambda>y. f y < f x) xs @ x # dropWhile (\<lambda>y. f y < f x) xs))"
  using assms
proof (induction xs)
  case (Cons y ys)
  have m: "z \<in> set ys" if "z \<in> set (takeWhile (\<lambda>y. f y < f x) ys) \<union> set (dropWhile (\<lambda>y. f y < f x) ys)" for z
    using that by (auto dest: set_takeWhileD set_dropWhileD)
  show ?case
  proof (cases "f y < f x")
    case True
    then show ?thesis using Cons m by (auto simp: less_imp_le)
  next
    case False
    then show ?thesis using Cons.prems by force
  qed
qed simp

lemma insert_at_position:
  "take (length (takeWhile P xs)) xs @ x # drop (length (takeWhile P xs)) xs = takeWhile P xs @ x # dropWhile P xs"
  by (simp add: takeWhile_eq_take [symmetric] dropWhile_eq_drop [symmetric])

lemma register_ok_step:
  assumes ok: "registry_ok c" and new: "taskMap c (stName t) = None"
  shows "registry_ok (snd (coreRegisterTask t c))"
proof -
  let ?r = "scNextTask c" and ?t = "createTaskInstance t"
  let ?c = "snd (coreRegisterTask t c)" and ?p = "bucket_of (stPriority t)"
  let ?P = "\<lambda>s. stOrder (scTasks c s) < stOrder t" and ?b = "priorityBuckets c ?p"
  have fresh: "?r \<notin> set (priorityBuckets c p)" for p using ok by (fastforce simp: registry_ok_def)
  have same: "scTasks ?c s = (if s = ?r then ?t else scTasks c s)" for s
    using new by (simp add: coreRegisterTask_def insertTaskOrdered_def set_task_def Let_def)
  have t: "stPriority ?t = stPriority t" "stOrder ?t = stOrder t" "stName ?t = stName t" by (simp_all add: createTaskInstance_def)
  have pos: "takeWhile (\<lambda>s. stOrder (((scTasks c)(?r := ?t)) s) < stOrder t) ?b = takeWhile ?P ?b"
    using fresh [of ?p] by (intro takeWhile_cong) auto
  have bk: "priorityBuckets ?c q = (if q = ?p then takeWhile ?P ?b @ ?r # dropWhile ?P ?b else priorityBuckets c q)" for q
  proof -
    let ?w = "length (takeWhile (\<lambda>s. stOrder (((scTasks c)(?r := ?t)) s) < stOrder t) ?b)"
    have "priorityBuckets ?c q = (if q = ?p then take ?w ?b @ ?r # drop ?w ?b else priorityBuckets c q)"
      using new by (simp add: coreRegisterTask_def insertTaskOrdered_def set_task_def Let_def t)
    then show ?thesis unfolding pos insert_at_position .
  qed
  have mem: "s \<in> set (priorityBuckets ?c q) \<longleftrightarrow> s \<in> set (priorityBuckets c q) \<or> s = ?r \<and> q = ?p" for s q
    using bk [of q] by (auto dest: set_takeWhileD set_dropWhileD) (metis Un_iff set_append takeWhile_dropWhile_id)
  have rest: "activeBitmap ?c = activeBitmap c OR push_bit ?p 1" "taskMap ?c = (taskMap c)(stName t \<mapsto> ?r)" "scNextTask ?c = Suc ?r"
    using new by (simp_all add: coreRegisterTask_def insertTaskOrdered_def set_task_def Let_def t)
  have "bit (activeBitmap ?c) q \<longleftrightarrow> priorityBuckets ?c q \<noteq> []" for q
    using ok bucket_of_less [of "stPriority t"] by (auto simp: registry_ok_def rest(1) bk bit_or_iff bit_exp_iff NumPriorityLevels_def)
  moreover have "sorted (map (\<lambda>s. stOrder (scTasks ?c s)) (priorityBuckets ?c q)) \<and> distinct (priorityBuckets ?c q)" for q
  proof -
    have old: "map (\<lambda>s. stOrder (scTasks ?c s)) (priorityBuckets c q) = map (\<lambda>s. stOrder (scTasks c s)) (priorityBuckets c q)" for q
      using fresh [of q] by (auto simp: same)
    have w: "takeWhile (\<lambda>s. stOrder (scTasks ?c s) < stOrder (scTasks ?c ?r)) ?b = takeWhile ?P ?b"
      "dropWhile (\<lambda>s. stOrder (scTasks ?c s) < stOrder (scTasks ?c ?r)) ?b = dropWhile ?P ?b"
      using fresh [of ?p] by (auto simp: same t intro!: takeWhile_cong dropWhile_cong)
    have "sorted (map (\<lambda>s. stOrder (scTasks ?c s)) (priorityBuckets c q))" for q
      using ok unfolding old registry_ok_def by blast
    moreover have "distinct (takeWhile ?P ?b @ ?r # dropWhile ?P ?b)"
      using ok fresh [of ?p] distinct_append [of "takeWhile ?P ?b" "dropWhile ?P ?b"]
      by (auto simp: registry_ok_def dest: set_takeWhileD set_dropWhileD)
    ultimately show ?thesis
      using sorted_insert_at [of "\<lambda>s. stOrder (scTasks ?c s)" ?b ?r] ok bk [of q] unfolding w registry_ok_def by presburger
  qed
  moreover have "s < scNextTask ?c \<and> bucket_of (stPriority (scTasks ?c s)) = q" if "s \<in> set (priorityBuckets ?c q)" for s q
    using that ok mem [of s q] by (auto simp: registry_ok_def same rest t less_Suc_eq)
  moreover have "(\<exists>q. s \<in> set (priorityBuckets ?c q)) \<longleftrightarrow> taskMap ?c (stName (scTasks ?c s)) = Some s" for s
    using ok new by (cases "s = ?r") (auto simp: mem registry_ok_def same rest t)
  ultimately show ?thesis unfolding registry_ok_def by blast
qed

lemma register_ok: "registry_ok c \<Longrightarrow> registry_ok (snd (coreRegisterTask t c))"
  by (cases "taskMap c (stName t) = None") (simp_all add: register_ok_step, simp add: coreRegisterTask_def)

definition registered :: "'w shard_task list \<Rightarrow> 'w scheduler_core \<Rightarrow> 'w scheduler_core" where
  "registered ts c = fold (\<lambda>t c. snd (coreRegisterTask t c)) ts c"

lemma registered_ok: "registry_ok c \<Longrightarrow> registry_ok (registered ts c)"
  unfolding registered_def by (induction ts arbitrary: c) (simp_all add: register_ok)

text \<open>The reference: every priority from the highest, its tasks by execution order.\<close>

definition visit_reference :: "'w scheduler_core \<Rightarrow> nat list" where
  "visit_reference c = concat (map (priorityBuckets c) [0..<NumPriorityLevels])"

lemma concat_map_filter: "(\<forall>p\<in>set ps. \<not> P p \<longrightarrow> f p = []) \<Longrightarrow> concat (map f (filter P ps)) = concat (map f ps)"
  by (induction ps) auto

lemma distinct_concat_buckets:
  assumes "\<forall>p. distinct (f p)" "\<forall>p q r. r \<in> set (f p) \<longrightarrow> r \<in> set (f q) \<longrightarrow> p = q" "distinct ps"
  shows "distinct (concat (map f ps))"
  using assms(3)
proof (induction ps)
  case (Cons p ps)
  have "set (f p) \<inter> set (concat (map f ps)) = {}" using assms(2) Cons.prems by fastforce
  then show ?case using assms(1) Cons by simp
qed simp

lemma walk_is_reference:
  assumes "registry_ok c"
  shows "concat (map (priorityBuckets c) (bitmap_order 16 (activeBitmap c))) = visit_reference c"
  using assms by (simp add: bitmap_walk visit_reference_def registry_ok_def concat_map_filter)

definition served_before :: "'w scheduler_core \<Rightarrow> nat \<Rightarrow> nat \<Rightarrow> bool" where
  "served_before c r s \<longleftrightarrow>
     (let p = bucket_of (stPriority (scTasks c r)); q = bucket_of (stPriority (scTasks c s))
      in p < q \<or> p = q \<and> stOrder (scTasks c r) \<le> stOrder (scTasks c s))"

lemma reference_sorted:
  assumes "registry_ok c"
  shows "sorted_wrt (served_before c) (concat (map (priorityBuckets c) [0..<n]))"
proof (induction n)
  case (Suc n)
  have "sorted_wrt (served_before c) (priorityBuckets c n)"
  proof (rule sorted_wrt_mono_rel [rotated])
    show "sorted_wrt (\<lambda>r s. stOrder (scTasks c r) \<le> stOrder (scTasks c s)) (priorityBuckets c n)"
      using assms by (simp add: registry_ok_def sorted_map)
    show "served_before c r s" if "r \<in> set (priorityBuckets c n)" "s \<in> set (priorityBuckets c n)" "stOrder (scTasks c r) \<le> stOrder (scTasks c s)" for r s
      using that assms by (simp add: registry_ok_def served_before_def)
  qed
  moreover have "\<forall>r\<in>set (concat (map (priorityBuckets c) [0..<n])). \<forall>s\<in>set (priorityBuckets c n). served_before c r s"
    using assms by (auto simp: registry_ok_def served_before_def)
  ultimately show ?case using Suc by (simp add: sorted_wrt_append)
qed simp

lemma reference_members:
  assumes "registry_ok c"
  shows "r \<in> set (visit_reference c) \<longleftrightarrow> taskMap c (stName (scTasks c r)) = Some r" "distinct (visit_reference c)"
proof -
  have "p < NumPriorityLevels" if "r \<in> set (priorityBuckets c p)" for p
    using that assms bucket_of_less [of "stPriority (scTasks c r)"] by (auto simp: registry_ok_def)
  then have "(\<exists>p. r \<in> set (priorityBuckets c p)) \<longleftrightarrow> (\<exists>p<NumPriorityLevels. r \<in> set (priorityBuckets c p))" by blast
  then show "r \<in> set (visit_reference c) \<longleftrightarrow> taskMap c (stName (scTasks c r)) = Some r"
    using assms unfolding registry_ok_def visit_reference_def by (simp add: Bex_def)
  have "p = q" if "s \<in> set (priorityBuckets c p)" "s \<in> set (priorityBuckets c q)" for p q s
    using assms that unfolding registry_ok_def by metis
  then show "distinct (visit_reference c)" unfolding visit_reference_def
    using assms by (intro distinct_concat_buckets) (auto simp: registry_ok_def)
qed

text \<open>Claim C24. Whatever tasks are registered on a new core, and in whatever order, the walk of the scheduling loop over the bits
  of the bitmap visits the tasks as a loop over all priorities and their sorted buckets would: no task twice, exactly the tasks
  the core can enqueue to, and every task before those of lower priority and, in its priority, before those of higher execution
  order.\<close>

theorem bitmap_walk_visits_registered:
  "let c = registered ts (NewSchedulerCore w t0); walk = concat (map (priorityBuckets c) (bitmap_order 16 (activeBitmap c))) in
     walk = visit_reference c \<and> distinct walk \<and> sorted_wrt (served_before c) walk \<and>
     set walk = {r. taskMap c (stName (scTasks c r)) = Some r}"
proof -
  have ok: "registry_ok (registered ts (NewSchedulerCore w t0))" by (rule registered_ok [OF registry_new])
  show ?thesis unfolding Let_def walk_is_reference [OF ok]
    using reference_members [OF ok] reference_sorted [OF ok, of NumPriorityLevels] by (simp add: set_eq_iff) (simp add: visit_reference_def)
qed

section \<open>Stopping\<close>

text \<open>What \<open>drainRemainingItems\<close> does to the queue of one task: the loop ends after as many rounds as the queue has items, the
  queue is empty, and exactly the items that can be cancelled are.\<close>

lemma drain_empties:
  assumes "core_ok c" "length (items_of c r) \<le> fuel"
  shows "\<exists>c'. drain_task fuel r c = (Ok (filter itemCancels (items_of c r)), c') \<and> advanced r (length (items_of c r)) c c' \<and> scTrace c' = scTrace c"
  using assms
proof (induction fuel arbitrary: c)
  case 0
  then show ?case by (simp add: advanced_refl)
next
  case (Suc fuel)
  note len = queue_len [OF Suc.prems(1), of r]
  show ?case
  proof (cases "items_of c r")
    case Nil
    then show ?thesis using len advanced_refl [OF Suc.prems(1)] by simp
  next
    case (Cons x xs)
    obtain c1 where p: "taskPeek r c = (Ok (Some x), c1)" "advanced r 0 c c1" "scTrace c1 = scTrace c" using peek_turn [OF Suc.prems(1), of r] Cons by auto
    then have 1: "core_ok c1" "items_of c1 r = x # xs" using Cons by (simp_all add: advanced_def)
    obtain c2 where d: "taskDequeue r c1 = (Ok (Some x), c2)" "advanced r 1 c1 c2" "scTrace c2 = scTrace c1" using dequeue_turn [OF 1] by auto
    then have 2: "core_ok c2" "items_of c2 r = xs" using 1(2) by (simp_all add: advanced_def)
    obtain c3 where "drain_task fuel r c2 = (Ok (filter itemCancels xs), c3)" "advanced r (length xs) c2 c3" "scTrace c3 = scTrace c2"
      using Suc.IH [OF 2(1)] 2(2) Suc.prems(2) Cons by auto
    then show ?thesis using len p d Cons advanced_trans [OF advanced_trans [OF p(2) d(2)]] by auto
  qed
qed

section \<open>Distribution over the cores\<close>

lemma least_loaded_bound:
  "\<lbrakk>idx < i; i + length cs \<le> n\<rbrakk> \<Longrightarrow> least_loaded cs i best idx < n"
  by (induction cs i best idx rule: least_loaded.induct) auto

text \<open>Among the remaining cores and the best so far, the chosen core has the least load.\<close>

lemma least_loaded_least:
  "let k = least_loaded cs i best idx in
     (k = idx \<and> (\<forall>c\<in>set cs. best \<le> totalQueueItems c) \<or>
      i \<le> k \<and> k < i + length cs \<and> totalQueueItems (cs ! (k - i)) < best \<and> (\<forall>c\<in>set cs. totalQueueItems (cs ! (k - i)) \<le> totalQueueItems c))"
proof (induction cs i best idx rule: least_loaded.induct)
  case (2 c cs i best idx)
  show ?case
  proof (cases "totalQueueItems c < best")
    case True
    then show ?thesis using 2(1) by (fastforce simp: Let_def nth_Cons' Suc_diff_Suc not_less_eq_eq)
  next
    case False
    then show ?thesis using 2(2) by (fastforce simp: Let_def nth_Cons' Suc_diff_Suc not_less_eq_eq)
  qed
qed simp

lemma select_core:
  assumes "coreCount m = length (tsCores m)" "0 < coreCount m" "selectLeastLoadedCore m = (k, m1)"
  shows "k < length (tsCores m)" "tsCores m1 = tsCores m"
    "lbThreshold m \<le> (\<Sum>c\<leftarrow>tsCores m. totalQueueItems c) \<Longrightarrow> \<forall>c\<in>set (tsCores m). totalQueueItems c < 9223372036854775807 \<Longrightarrow>
      \<forall>c\<in>set (tsCores m). totalQueueItems (tsCores m ! k) \<le> totalQueueItems c"
proof -
  let ?k = "least_loaded (tsCores m) 0 9223372036854775807 0"
  note l = least_loaded_least [of "tsCores m" 0 9223372036854775807 0, unfolded Let_def]
  have "?k < length (tsCores m)" using l assms(1,2) by auto
  then show "k < length (tsCores m)" using assms by (auto simp: selectLeastLoadedCore_def split: if_splits)
  show "tsCores m1 = tsCores m" using assms(3) by (auto simp: selectLeastLoadedCore_def split: if_splits)
  assume high: "lbThreshold m \<le> (\<Sum>c\<leftarrow>tsCores m. totalQueueItems c)" and small: "\<forall>c\<in>set (tsCores m). totalQueueItems c < 9223372036854775807"
  obtain c cs where "tsCores m = c # cs" using assms(1,2) by (cases "tsCores m") auto
  then have "\<not> (\<forall>c\<in>set (tsCores m). 9223372036854775807 \<le> totalQueueItems c)" using small by force
  then show "\<forall>c\<in>set (tsCores m). totalQueueItems (tsCores m ! k) \<le> totalQueueItems c"
    using l assms(3) high by (auto simp: selectLeastLoadedCore_def)
qed

lemma shard_core_abs: "\<lbrakk>s \<noteq> 0; s \<noteq> - 9223372036854775808\<rbrakk> \<Longrightarrow> shard_core s n = int (nat \<bar>s\<bar> mod n)"
  by (auto simp: shard_core_def zmod_int)

text \<open>An item enqueued under a registered name on a running scheduler goes to the queue of that task on one core, and
  every other core stays as it was. A shard identifier fixes the core, as its absolute value modulo the number of cores; without
  one, and under high load, the core is one with the least load. The smallest identifier is left out: its negation is itself.\<close>

theorem enqueue_routes:
  assumes "tsRunning m" "coreCount m = length (tsCores m)" "0 < coreCount m" "\<forall>c\<in>set (tsCores m). taskMap c name \<noteq> None"
    "itemShardID item \<noteq> - 9223372036854775808"
  shows "\<exists>k r m'. EnqueueWithShard now item name m = (Ok (), m') \<and> k < length (tsCores m) \<and> taskMap (tsCores m ! k) name = Some r \<and>
    tsCores m' = (tsCores m)[k := taskEnqueue now item r (tsCores m ! k)] \<and>
    (if itemShardID item \<noteq> 0 then k = nat \<bar>itemShardID item\<bar> mod coreCount m
     else lbThreshold m \<le> (\<Sum>c\<leftarrow>tsCores m. totalQueueItems c) \<longrightarrow> (\<forall>c\<in>set (tsCores m). totalQueueItems c < 9223372036854775807) \<longrightarrow>
       (\<forall>c\<in>set (tsCores m). totalQueueItems (tsCores m ! k) \<le> totalQueueItems c))"
proof (cases "itemShardID item = 0")
  case True
  obtain k m1 where s: "selectLeastLoadedCore m = (k, m1)" by fastforce
  note sel = select_core [OF assms(2,3) s]
  obtain r where "taskMap (tsCores m ! k) name = Some r" using assms(4) sel(1) by (meson nth_mem not_None_eq)
  then show ?thesis using True assms(1) s sel by (auto simp: EnqueueWithShard_def Let_def)
next
  case False
  let ?k = "nat \<bar>itemShardID item\<bar> mod coreCount m"
  have k: "?k < length (tsCores m)" using assms(2,3) by simp
  obtain r where "taskMap (tsCores m ! ?k) name = Some r" using assms(4) k by (meson nth_mem not_None_eq)
  then show ?thesis using False assms(1,5) k shard_core_abs [of "itemShardID item" "coreCount m"]
    by (auto simp: EnqueueWithShard_def Let_def)
qed

definition sample_scheduler :: "unit task_scheduler" where
  "sample_scheduler =
     (let t = scTasks (sample_core (\<lambda>_ _. (Some TaskPassed, ())) []) 0 in snd (Start (snd (RegisterTask t (NewTaskScheduler 8 () t 3)))))"

lemma sample_scheduler_facts:
  "tsRunning sample_scheduler" "coreCount sample_scheduler = 3" "length (tsCores sample_scheduler) = 3"
  "\<forall>c\<in>set (tsCores sample_scheduler). taskMap c ''t'' \<noteq> None"
  by (simp_all add: sample_scheduler_def Let_def Start_def RegisterTask_def NewTaskScheduler_def coreRegisterTask_def NewSchedulerCore_def
      sample_core_def insertTaskOrdered_def set_task_def numeral_eq_Suc createTaskInstance_def)

theorem enqueue_routes_witness:
  "let item = (sample_item 1 None 2)\<lparr>itemShardID := - 5\<rparr>; m = sample_scheduler in
     \<exists>k r m'. EnqueueWithShard 7 item ''t'' m = (Ok (), m') \<and> k < length (tsCores m) \<and> taskMap (tsCores m ! k) ''t'' = Some r \<and>
       tsCores m' = (tsCores m)[k := taskEnqueue 7 item r (tsCores m ! k)] \<and> k = 2"
  using enqueue_routes [of sample_scheduler "''t''" "(sample_item 1 None 2)\<lparr>itemShardID := - 5\<rparr>" 7] sample_scheduler_facts
  by (simp add: Let_def)

end
