(* ===== verification/Chunk_Format.thy ===== *)
theory Chunk_Format
  imports WAL_Codec Page_Layout
begin

text \<open>
  The formats of the chunk files: the position of a page as 64 bits (\<open>domain/model/chunk_position.go\<close>), the frame of a page
  (\<open>chunk/page_serializer.go\<close>) and the text header of a chunk (\<open>chunk/chunk_header.go\<close>).
\<close>

section \<open>Positions\<close>

type_synonym chunk_pos = u64

definition MaxChunkID :: u32 where "MaxChunkID = 67108863"

definition EncodeChunkPosition :: "u32 \<Rightarrow> u32 \<Rightarrow> byte \<Rightarrow> chunk_pos outcome" where
  "EncodeChunkPosition chunkID offset ty =
     (if MaxChunkID < chunkID then Err ErrChunkPosition
      else Ok (push_bit 38 (ucast chunkID) OR push_bit 6 (ucast offset) OR push_bit 1 (ucast (ty AND 31))))"

definition posChunkID :: "chunk_pos \<Rightarrow> u32" where
  "posChunkID p = ucast (drop_bit 38 p AND 67108863)"

definition posFileOffset :: "chunk_pos \<Rightarrow> u32" where
  "posFileOffset p = ucast (drop_bit 6 p AND 4294967295)"

definition posPageType :: "chunk_pos \<Rightarrow> byte" where
  "posPageType p = ucast (drop_bit 1 p AND 31)"

definition posIsZero :: "chunk_pos \<Rightarrow> bool" where
  "posIsZero p \<longleftrightarrow> p = 0"

lemma mask_lits: "(67108863 :: u64) = mask 26" "(4294967295 :: u64) = mask 32" "(31 :: u64) = mask 5" "(31 :: byte) = mask 5"
  by (simp_all add: mask_eq_exp_minus_1)

lemma chunk_id_bits:
  assumes "c \<le> MaxChunkID" "bit c n"
  shows "n < 26"
proof (rule ccontr)
  assume "\<not> n < 26"
  then have "2 ^ 26 \<le> (2::nat) ^ n" by (intro power_increasing) simp_all
  also have "\<dots> \<le> unat c"
  proof -
    have "bit (unat c) n" using assms(2) by (simp add: bit_unsigned_iff)
    then have "\<not> unat c < 2 ^ n" by (metis bit_take_bit_iff less_irrefl take_bit_nat_eq_self_iff)
    then show ?thesis by simp
  qed
  finally show False using assms(1) by (simp add: MaxChunkID_def word_le_nat_alt)
qed

text \<open>A chunk position keeps what it was made of: for every chunk id in range, every offset and every page type below
  32, decoding the encoded position gives the three parts back, and larger chunk ids are refused.\<close>

lemma chunk_position_parts:
  "if c \<le> MaxChunkID then \<exists>p. EncodeChunkPosition c off ty = Ok p \<and> posChunkID p = c \<and> posFileOffset p = off \<and> posPageType p = ty AND 31
   else EncodeChunkPosition c off ty = Err ErrChunkPosition"
proof (cases "c \<le> MaxChunkID")
  case True
  define p :: u64 where "p = push_bit 38 (ucast c) OR push_bit 6 (ucast off) OR push_bit 1 (ucast (ty AND 31))"
  have b: "bit p n \<longleftrightarrow> n < 64 \<and> (38 \<le> n \<and> bit c (n - 38) \<or> 6 \<le> n \<and> bit off (n - 6) \<or> 1 \<le> n \<and> n < 6 \<and> bit ty (n - 1))" for n
    unfolding p_def bit_or_iff bit_push_bit_iff bit_ucast_iff bit_and_iff mask_lits bit_mask_iff by auto
  have o: "bit off n \<Longrightarrow> n < 32" for n using bit_imp_le_length [of off n] by simp
  have "posChunkID p = c"
  proof (rule bit_eqI)
    fix n
    show "bit (posChunkID p) n = bit c n"
      using chunk_id_bits [OF True, of n] o [of "32 + n"] by (auto simp: posChunkID_def bit_ucast_iff bit_and_iff bit_drop_bit_eq b mask_lits bit_mask_iff)
  qed
  moreover have "posFileOffset p = off"
  proof (rule bit_eqI)
    fix n
    show "bit (posFileOffset p) n = bit off n"
      using o [of n] by (auto simp: posFileOffset_def bit_ucast_iff bit_and_iff bit_drop_bit_eq b mask_lits bit_mask_iff)
  qed
  moreover have "posPageType p = ty AND 31"
  proof (rule bit_eqI)
    fix n
    show "bit (posPageType p) n = bit (ty AND 31) n"
      by (auto simp: posPageType_def bit_ucast_iff bit_and_iff bit_drop_bit_eq b mask_lits bit_mask_iff)
  qed
  ultimately show ?thesis using True by (simp add: EncodeChunkPosition_def p_def)
qed (simp add: EncodeChunkPosition_def)

section \<open>Page frames\<close>

definition CRCSize :: nat where "CRCSize = 4"
definition MinPagePayload :: nat where "MinPagePayload = 56"
definition MaxPagePayload :: nat where "MaxPagePayload = 4096"
definition MinDiskPageSize :: nat where "MinDiskPageSize = 60"
definition MaxDiskPageSize :: nat where "MaxDiskPageSize = 4100"
definition PageTypeFieldOffset :: nat where "PageTypeFieldOffset = 26"

lemmas frame_consts = CRCSize_def MinPagePayload_def MaxPagePayload_def MinDiskPageSize_def MaxDiskPageSize_def PageTypeFieldOffset_def

text \<open>The page is memory of 4096 bytes behind a pointer, or the nil pointer.\<close>

definition Serialize :: "gslice \<Rightarrow> int \<Rightarrow> bytes outcome" where
  "Serialize ptr pageLength = (case ptr of
     None \<Rightarrow> Err ErrChunkNilDestination
   | Some page \<Rightarrow>
       (if pageLength < int MinPagePayload \<or> int MaxPagePayload < pageLength then Err ErrChunkInvalidLength
        else let src = field 0 (nat pageLength) page in Ok (mem_u32 (CRC32C src) @ src)))"

definition known_type :: "byte \<Rightarrow> bool" where
  "known_type ty \<longleftrightarrow> ty = 0 \<or> ty = 1"

text \<open>\<open>Deserialize\<close> returns the length and the memory behind the destination.\<close>

definition Deserialize :: "bytes \<Rightarrow> gslice \<Rightarrow> (nat \<times> bytes) outcome" where
  "Deserialize data dst =
     (if length data < MinDiskPageSize \<or> MaxDiskPageSize < length data then Err ErrChunkFormatError
      else case dst of
        None \<Rightarrow> Err ErrChunkNilDestination
      | Some page \<Rightarrow>
          (if u32_at 0 data \<noteq> CRC32C (drop CRCSize data) then Err ErrChunkCRCMismatch
           else if \<not> known_type (data ! (CRCSize + PageTypeFieldOffset)) then Err ErrChunkFormatError
           else Ok (length data - CRCSize, splice 0 (drop CRCSize data) page)))"

lemma u32_at_mem [simp]: "u32_at 0 (mem_u32 w @ xs) = w"
  by (rule mem_at) simp

text \<open>A page that is serialized can be read back: for every page of a type the tree has and every admissible length the
  frame decodes, into any destination, to the same bytes and the same length, and the bytes behind it are left as they were.\<close>

theorem page_frame_roundtrip:
  assumes "length page = 4096" "length dst = 4096" "56 \<le> n" "n \<le> 4096" "known_type (page ! 26)"
  shows "\<exists>f. Serialize (Some page) (int n) = Ok f \<and> length f = 4 + n \<and> Deserialize f (Some dst) = Ok (n, take n page @ drop n dst)"
proof -
  let ?f = "mem_u32 (CRC32C (take n page)) @ take n page"
  have "Serialize (Some page) (int n) = Ok ?f" using assms(3,4) by (simp add: Serialize_def frame_consts field_def Let_def)
  moreover have "drop CRCSize ?f = take n page" by (simp add: CRCSize_def)
  moreover have "?f ! 30 = page ! 26" using assms by (simp add: nth_append)
  ultimately show ?thesis using assms by (simp add: Deserialize_def frame_consts splice_def)
qed

theorem page_frame_roundtrip_witness:
  "\<exists>f. Serialize (Some (replicate 4096 1)) (int 100) = Ok f \<and> length f = 4 + 100 \<and>
     Deserialize f (Some (replicate 4096 0)) = Ok (100, take 100 (replicate 4096 1) @ drop 100 (replicate 4096 0))"
  by (rule page_frame_roundtrip) (simp_all add: known_type_def)

lemma full_page_frame:
  "length page = 4096 \<Longrightarrow> Serialize (Some page) 4096 = Ok (mem_u32 (CRC32C page) @ page)"
  by (simp add: Serialize_def frame_consts field_def Let_def)

text \<open>Any one byte of the page that changes on the disk is noticed.\<close>

lemma frame_corruption_detected:
  assumes "length page = n" "56 \<le> n" "n \<le> 4096" "i < n" "b \<noteq> page ! i"
  shows "Deserialize (mem_u32 (CRC32C page) @ page[i := b]) (Some dst) = Err ErrChunkCRCMismatch"
proof -
  have d: "drop 4 (mem_u32 c @ xs) = xs" for c xs by simp
  have "CRC32C (page[i := b]) \<noteq> CRC32C page" using assms by (intro CRC32C_one_byte) simp_all
  then show ?thesis using assms by (simp add: Deserialize_def frame_consts d del: drop_append)
qed

end
