(* ===== verification/Chunk_Header.thy ===== *)
theory Chunk_Header
  imports Chunk_Format "HOL-Library.Char_ord"
begin

text \<open>
  The text header of a chunk file (\<open>chunk/chunk_header.go\<close>) with the two copies of it that a file has (\<open>writeHeader\<close> and
  \<open>readHeader\<close> of \<open>chunk/chunk_file.go\<close>), and what it uses of \<open>fmt\<close>, \<open>strconv\<close> and \<open>strings\<close>. White space is the ASCII
  white space; signed fields are integers, which the parser keeps in their range.
\<close>

section \<open>Numbers as text\<close>

definition digit_char :: "nat \<Rightarrow> char" where
  "digit_char d = char_of (if d < 10 then 48 + d else 87 + d)"

fun show_base :: "nat \<Rightarrow> nat \<Rightarrow> string" where
  "show_base b n = (if b < 2 \<or> n < b then [digit_char n] else show_base b (n div b) @ [digit_char (n mod b)])"

declare show_base.simps [simp del]

definition show_int :: "int \<Rightarrow> string" where
  "show_int i = (if i < 0 then CHR ''-'' # show_base 10 (nat (- i)) else show_base 10 (nat i))"

definition digit_value :: "char \<Rightarrow> nat option" where
  "digit_value c = (let n = of_char c in
     if 48 \<le> n \<and> n \<le> (57 :: nat) then Some (n - 48)
     else if 97 \<le> n \<and> n \<le> 122 then Some (n - 87)
     else if 65 \<le> n \<and> n \<le> 90 then Some (n - 55) else None)"

fun parse_digits :: "nat \<Rightarrow> nat \<Rightarrow> nat \<Rightarrow> string \<Rightarrow> nat outcome" where
  "parse_digits b bits acc [] = Ok acc"
| "parse_digits b bits acc (c # cs) = (case digit_value c of
     None \<Rightarrow> Err ErrNumSyntax
   | Some d \<Rightarrow> if b \<le> d then Err ErrNumSyntax
              else if 2 ^ bits \<le> acc * b + d then Err ErrNumRange else parse_digits b bits (acc * b + d) cs)"

definition ParseUint :: "nat \<Rightarrow> nat \<Rightarrow> string \<Rightarrow> nat outcome" where
  "ParseUint b bits s = (if s = [] then Err ErrNumSyntax else parse_digits b bits 0 s)"

definition ParseInt :: "nat \<Rightarrow> nat \<Rightarrow> string \<Rightarrow> int outcome" where
  "ParseInt b bits s =
     (if s = [] then Err ErrNumSyntax
      else let neg = (hd s = CHR ''-''); body = (if hd s = CHR ''+'' \<or> hd s = CHR ''-'' then tl s else s)
           in case ParseUint b bits body of
                Ok n \<Rightarrow> if \<not> neg \<and> 2 ^ (bits - 1) \<le> n \<or> neg \<and> 2 ^ (bits - 1) < n then Err ErrNumRange
                        else Ok (if neg then - int n else int n)
              | Err e \<Rightarrow> Err e
              | Panic \<Rightarrow> Panic)"

definition digit_chars :: "char set" where
  "digit_chars = digit_char ` {0..<16}"

lemma digit_value_char: "d < 16 \<Longrightarrow> digit_value (digit_char d) = Some d"
  by (simp add: digit_value_def digit_char_def Let_def)

lemma show_base_digits: "b \<le> 16 \<Longrightarrow> 2 \<le> b \<Longrightarrow> set (show_base b n) \<subseteq> digit_chars \<and> show_base b n \<noteq> []"
proof (induction b n rule: show_base.induct)
  case (1 b n)
  have "n mod b < 16" using 1(2,3) by (meson mod_less_divisor order_less_le_trans zero_less_numeral)
  then show ?case using 1 by (auto simp: show_base.simps [of b n] digit_chars_def)
qed

lemma parse_show:
  "\<lbrakk>2 \<le> b; b \<le> 16; n < 2 ^ bits\<rbrakk> \<Longrightarrow> parse_digits b bits 0 (show_base b n @ rest) = parse_digits b bits n rest"
proof (induction b n arbitrary: rest rule: show_base.induct)
  case (1 b n)
  show ?case
  proof (cases "n < b")
    case True
    then show ?thesis using 1(2-4) by (simp add: show_base.simps [of b n] digit_value_char)
  next
    case False
    have m: "n mod b < b" using 1(2) by simp
    then have "digit_value (digit_char (n mod b)) = Some (n mod b)" "\<not> b \<le> n mod b" using 1(3) by (simp_all add: digit_value_char)
    moreover have "n div b < 2 ^ bits" using 1(4) by (rule le_less_trans [OF div_le_dividend])
    ultimately show ?thesis using False 1(1) [of "digit_char (n mod b) # rest"] 1(2-4) by (simp add: show_base.simps [of b n])
  qed
qed

lemma ParseUint_show: "\<lbrakk>2 \<le> b; b \<le> 16; n < 2 ^ bits\<rbrakk> \<Longrightarrow> ParseUint b bits (show_base b n) = Ok n"
  using parse_show [of b n bits "[]"] show_base_digits [of b n] by (simp add: ParseUint_def)

lemma digit_code: "c \<in> digit_chars \<Longrightarrow> 48 \<le> (of_char c :: nat) \<and> (of_char c :: nat) \<noteq> 58"
  by (auto simp: digit_chars_def digit_char_def split: if_splits)

lemma digit_chars_plain:
  assumes "c \<in> digit_chars"
  shows "c \<noteq> CHR ''-''" "c \<noteq> CHR ''+''" "c \<noteq> CHR '':''" "32 < (of_char c :: nat)"
  using digit_code [OF assms] by (auto simp: of_char_def)

lemma ParseInt_show:
  assumes "- (2 ^ k) \<le> i" "i < 2 ^ k" "bits = Suc k"
  shows "ParseInt 10 bits (show_int i) = Ok i"
proof (cases "i < 0")
  case True
  then have "nat (- i) \<le> 2 ^ k" using assms(1) by (simp add: nat_le_iff)
  moreover from this have "nat (- i) < 2 ^ bits" unfolding assms(3) by (rule le_less_trans) simp
  ultimately show ?thesis using True ParseUint_show [of 10 "nat (- i)" bits] assms(3) by (simp add: ParseInt_def show_int_def Let_def)
next
  case False
  then have n: "nat i < 2 ^ k" using assms(2) by (simp add: nat_less_iff)
  then have "nat i < 2 ^ bits" unfolding assms(3) by (rule less_trans) simp
  moreover obtain c cs where c: "show_base 10 (nat i) = c # cs" "c \<in> digit_chars"
    using show_base_digits [of 10 "nat i"] by (cases "show_base 10 (nat i)") auto
  ultimately show ?thesis using False ParseUint_show [of 10 "nat i" bits] assms(3) n digit_chars_plain [OF c(2)]
    by (simp add: ParseInt_def show_int_def Let_def)
qed

section \<open>The header\<close>

record chunk_header =
  hID :: u32
  hRootPagePos :: u64
  hPageCount :: int
  hSumOfPageLength :: int
  hSumOfLivePageLength :: int
  hPagePositionAndLengthOffset :: int
  hBlockSize :: int
  hFormatVersion :: int
  hRemovedPageOffset :: int
  hRemovedPageCount :: int
  hLastTransactionID :: int
  hMapSize :: int

definition header_line :: "string \<times> string \<Rightarrow> string" where
  "header_line kv = fst kv @ '':'' @ snd kv"

definition header_fields :: "chunk_header \<Rightarrow> (string \<times> string) list" where
  "header_fields h =
     [(''id'', show_base 10 (unat (hID h))), (''rootPagePos'', show_base 16 (unat (hRootPagePos h))), (''pageCount'', show_int (hPageCount h)),
      (''sumOfPageLength'', show_int (hSumOfPageLength h)), (''sumOfLivePageLength'', show_int (hSumOfLivePageLength h)),
      (''pagePositionAndLengthOffset'', show_int (hPagePositionAndLengthOffset h)), (''blockSize'', show_int (hBlockSize h)),
      (''format'', show_int (hFormatVersion h)), (''removedPageOffset'', show_int (hRemovedPageOffset h)),
      (''removedPageCount'', show_int (hRemovedPageCount h)), (''lastTransactionId'', show_int (hLastTransactionID h)),
      (''mapSize'', show_int (hMapSize h))]"

abbreviation newline :: char where "newline \<equiv> CHR 0x0A"

definition header_encode :: "chunk_header \<Rightarrow> string" where
  "header_encode h = concat (map (\<lambda>kv. header_line kv @ [newline]) (header_fields h))"

definition is_space :: "char \<Rightarrow> bool" where
  "is_space c \<longleftrightarrow> (of_char c :: nat) \<in> {9, 10, 11, 12, 13, 32}"

definition TrimRight :: "char \<Rightarrow> string \<Rightarrow> string" where
  "TrimRight c s = rev (dropWhile (\<lambda>x. x = c) (rev s))"

definition TrimSpace :: "string \<Rightarrow> string" where
  "TrimSpace s = rev (dropWhile is_space (rev (dropWhile is_space s)))"

definition Split :: "char \<Rightarrow> string \<Rightarrow> string list" where
  "Split c s = foldr (\<lambda>x acc. if x = c then [] # acc else (x # hd acc) # tl acc) s [[]]"

text \<open>\<open>SplitN(line, ":", 2)\<close>: the parts before and after the first colon, if there is one.\<close>

definition SplitN2 :: "char \<Rightarrow> string \<Rightarrow> (string \<times> string) option" where
  "SplitN2 c s = (case dropWhile (\<lambda>x. x \<noteq> c) s of [] \<Rightarrow> None | _ # t \<Rightarrow> Some (takeWhile (\<lambda>x. x \<noteq> c) s, t))"

fun parse_lines :: "string list \<Rightarrow> (string \<Rightarrow> string option) \<Rightarrow> (string \<Rightarrow> string option) outcome" where
  "parse_lines [] m = Ok m"
| "parse_lines (l # ls) m =
     (if l = [] then parse_lines ls m
      else case SplitN2 CHR '':'' l of
        None \<Rightarrow> Err ErrChunkHeaderError
      | Some (k, v) \<Rightarrow> parse_lines ls (m(TrimSpace k \<mapsto> TrimSpace v)))"

definition parseHeader :: "string \<Rightarrow> (string \<Rightarrow> string option) outcome" where
  "parseHeader text = parse_lines (Split newline (TrimSpace (TrimRight CHR 0x00 text))) (\<lambda>_. None)"

definition parseField :: "(string \<Rightarrow> 'a outcome) \<Rightarrow> string \<Rightarrow> (string \<Rightarrow> string option) \<Rightarrow> 'a outcome" where
  "parseField f key m = f (case m key of None \<Rightarrow> [] | Some v \<Rightarrow> v)"

definition parseUint32 :: "string \<Rightarrow> u32 outcome" where
  "parseUint32 s = bind_outcome (ParseUint 10 32 s) (\<lambda>n. Ok (of_nat n))"

definition parseHexUint64 :: "string \<Rightarrow> u64 outcome" where
  "parseHexUint64 s = bind_outcome (ParseUint 16 64 s) (\<lambda>n. Ok (of_nat n))"

definition ChunkBlockSize :: int where "ChunkBlockSize = 4096"

definition decodeHeader :: "string \<Rightarrow> chunk_header outcome" where
  "decodeHeader text =
     bind_outcome (parseHeader text) (\<lambda>m.
     bind_outcome (parseField parseUint32 ''id'' m) (\<lambda>i.
     bind_outcome (parseField parseHexUint64 ''rootPagePos'' m) (\<lambda>root.
     bind_outcome (parseField (ParseInt 10 32) ''pageCount'' m) (\<lambda>pc.
     bind_outcome (parseField (ParseInt 10 64) ''sumOfPageLength'' m) (\<lambda>sl.
     bind_outcome (parseField (ParseInt 10 64) ''sumOfLivePageLength'' m) (\<lambda>sll.
     bind_outcome (parseField (ParseInt 10 64) ''pagePositionAndLengthOffset'' m) (\<lambda>ppo.
     bind_outcome (parseField (ParseInt 10 32) ''blockSize'' m) (\<lambda>bs.
     bind_outcome (parseField (ParseInt 10 32) ''format'' m) (\<lambda>fv.
     bind_outcome (parseField (ParseInt 10 64) ''removedPageOffset'' m) (\<lambda>rpo.
     bind_outcome (parseField (ParseInt 10 32) ''removedPageCount'' m) (\<lambda>rpc.
     bind_outcome (parseField (ParseInt 10 64) ''lastTransactionId'' m) (\<lambda>lt.
     bind_outcome (parseField (ParseInt 10 64) ''mapSize'' m) (\<lambda>ms.
       if bs \<noteq> ChunkBlockSize then Err ErrChunkHeaderError
       else Ok \<lparr>hID = i, hRootPagePos = root, hPageCount = pc, hSumOfPageLength = sl, hSumOfLivePageLength = sll,
                hPagePositionAndLengthOffset = ppo, hBlockSize = bs, hFormatVersion = fv, hRemovedPageOffset = rpo,
                hRemovedPageCount = rpc, hLastTransactionID = lt, hMapSize = ms\<rparr>)))))))))))))"

section \<open>Encoding and decoding\<close>

definition plain_text :: "string \<Rightarrow> bool" where
  "plain_text s \<longleftrightarrow> s \<noteq> [] \<and> (\<forall>c\<in>set s. 32 < (of_char c :: nat))"

lemma plain_append: "plain_text s \<Longrightarrow> plain_text t \<Longrightarrow> plain_text (s @ t)"
  by (auto simp: plain_text_def)

lemma plain_not: "plain_text s \<Longrightarrow> c \<in> set s \<Longrightarrow> \<not> is_space c \<and> c \<noteq> newline \<and> c \<noteq> CHR 0x00"
  by (auto simp: plain_text_def is_space_def)

lemma dropWhile_hd: "s = [] \<or> \<not> P (hd s) \<Longrightarrow> dropWhile P s = s"
  by (cases s) auto

lemma TrimSpace_plain: "plain_text s \<Longrightarrow> TrimSpace s = s"
proof -
  assume p: "plain_text s"
  then have "\<not> is_space (hd s)" "\<not> is_space (last s)" "s \<noteq> []" using plain_not [of s "hd s"] plain_not [of s "last s"] by (auto simp: plain_text_def)
  then have "dropWhile is_space s = s" "dropWhile is_space (rev s) = rev s" by (simp_all add: dropWhile_hd hd_rev)
  then show ?thesis by (simp add: TrimSpace_def)
qed

lemma Split_last: "c \<notin> set s \<Longrightarrow> Split c s = [s]"
  unfolding Split_def by (induction s) auto

lemma Split_first: "c \<notin> set s \<Longrightarrow> Split c (s @ c # t) = s # Split c t"
  unfolding Split_def by (induction s) auto

lemma Split_lines:
  assumes "\<forall>l\<in>set ls. plain_text l" "plain_text l"
  shows "Split newline (concat (map (\<lambda>l. l @ [newline]) ls) @ l) = ls @ [l]"
  using assms(1)
proof (induction ls)
  case Nil
  have "newline \<notin> set l" using plain_not [OF assms(2)] by blast
  then show ?case by (simp add: Split_last)
next
  case (Cons k ls)
  then have "newline \<notin> set k" using plain_not [of k] by auto
  then show ?case using Cons by (simp add: Split_first)
qed

lemma Trim_lines:
  assumes "\<forall>l\<in>set ls. plain_text l" "plain_text l"
  shows "TrimSpace (concat (map (\<lambda>l. l @ [newline]) ls) @ l @ [newline]) = concat (map (\<lambda>l. l @ [newline]) ls) @ l"
proof -
  let ?t = "concat (map (\<lambda>l. l @ [newline]) ls) @ l"
  have ne: "?t \<noteq> []" and h: "\<not> is_space (hd ?t)"
    using assms plain_not [of "hd ls" "hd (hd ls)"] plain_not [of l "hd l"] by (cases ls; auto simp: plain_text_def)+
  then have "dropWhile is_space (?t @ [newline]) = ?t @ [newline]" using ne h by (intro dropWhile_hd) (metis hd_append2)
  moreover have "is_space newline" by (simp add: is_space_def)
  moreover have "\<not> is_space (last l)" "l \<noteq> []" using assms(2) plain_not [of l "last l"] by (auto simp: plain_text_def)
  then have "dropWhile is_space (rev ?t) = rev ?t" by (intro dropWhile_hd) (simp add: hd_rev hd_append)
  ultimately show ?thesis by (simp add: TrimSpace_def)
qed

lemma TrimRight_zeros: "s = [] \<or> last s \<noteq> c \<Longrightarrow> TrimRight c (s @ replicate n c) = s"
proof -
  assume s: "s = [] \<or> last s \<noteq> c"
  have "dropWhile (\<lambda>x. x = c) (replicate n c @ rev s) = rev s" using s by (induction n) (auto simp: hd_rev intro!: dropWhile_hd)
  then show ?thesis by (simp add: TrimRight_def)
qed

lemma SplitN2_line: "c \<notin> set k \<Longrightarrow> SplitN2 c (k @ c # v) = Some (k, v)"
  by (induction k) (auto simp: SplitN2_def split: list.splits)

lemma parse_fields:
  assumes "\<forall>(k, v)\<in>set kvs. plain_text k \<and> plain_text v \<and> CHR '':'' \<notin> set k"
  shows "parse_lines (map header_line kvs) m = Ok (fold (\<lambda>(k, v) m. m(k \<mapsto> v)) kvs m)"
  using assms
proof (induction kvs arbitrary: m)
  case (Cons kv kvs)
  obtain k v where kv: "kv = (k, v)" by (cases kv)
  then show ?case using Cons SplitN2_line [of "CHR '':''" k v] by (auto simp: header_line_def TrimSpace_plain simp del: fun_upd_apply)
qed simp

lemma parseHeader_fields:
  assumes "\<forall>(k, v)\<in>set kvs. plain_text k \<and> plain_text v \<and> CHR '':'' \<notin> set k" "kvs \<noteq> []"
  shows "parseHeader (concat (map (\<lambda>kv. header_line kv @ [newline]) kvs) @ replicate n CHR 0x00) = Ok (fold (\<lambda>(k, v) m. m(k \<mapsto> v)) kvs (\<lambda>_. None))"
proof -
  obtain us u where u: "kvs = us @ [u]" using assms(2) by (meson rev_exhaust)
  have pl: "plain_text (header_line kv)" if "kv \<in> set kvs" for kv
    using that assms(1) unfolding header_line_def by (intro plain_append) (auto simp: plain_text_def)
  have c: "concat (map (\<lambda>kv. header_line kv @ [newline]) us) = concat (map (\<lambda>l. l @ [newline]) (map header_line us))"
    by (simp add: comp_def)
  have "TrimRight CHR 0x00 ((concat (map (\<lambda>kv. header_line kv @ [newline]) us) @ header_line u @ [newline]) @ replicate n CHR 0x00) =
      concat (map (\<lambda>kv. header_line kv @ [newline]) us) @ header_line u @ [newline]"
    by (rule TrimRight_zeros) simp
  then show ?thesis
    using Trim_lines [of "map header_line us" "header_line u"] Split_lines [of "map header_line us" "header_line u"] pl parse_fields [OF assms(1)]
    unfolding parseHeader_def c by (auto simp: u c)
qed

definition i32 :: "int \<Rightarrow> bool" where "i32 i \<longleftrightarrow> - 2147483648 \<le> i \<and> i < 2147483648"
definition i64 :: "int \<Rightarrow> bool" where "i64 i \<longleftrightarrow> - 9223372036854775808 \<le> i \<and> i < 9223372036854775808"

text \<open>The fields are in the ranges of their types and the block size is the one the code supports.\<close>

definition header_fits :: "chunk_header \<Rightarrow> bool" where
  "header_fits h \<longleftrightarrow> i32 (hPageCount h) \<and> i64 (hSumOfPageLength h) \<and> i64 (hSumOfLivePageLength h) \<and>
     i64 (hPagePositionAndLengthOffset h) \<and> hBlockSize h = ChunkBlockSize \<and> i32 (hFormatVersion h) \<and> i64 (hRemovedPageOffset h) \<and>
     i32 (hRemovedPageCount h) \<and> i64 (hLastTransactionID h) \<and> i64 (hMapSize h)"

lemma parse_i32: "i32 i \<Longrightarrow> ParseInt 10 32 (show_int i) = Ok i"
  using ParseInt_show [of 31 i 32] by (simp add: i32_def)

lemma parse_i64: "i64 i \<Longrightarrow> ParseInt 10 64 (show_int i) = Ok i"
  using ParseInt_show [of 63 i 64] by (simp add: i64_def)

lemma parse_id: "parseUint32 (show_base 10 (unat (w :: u32))) = Ok w" "parseHexUint64 (show_base 16 (unat (v :: u64))) = Ok v"
  using ParseUint_show [of 10 "unat w" 32] ParseUint_show [of 16 "unat v" 64] unsigned_less [where 'a = nat, of w] unsigned_less [where 'a = nat, of v]
  by (simp_all add: parseUint32_def parseHexUint64_def)

lemma plain_show: "plain_text (show_base 10 n)" "plain_text (show_base 16 n)" "plain_text (show_int i)"
proof -
  show p: "plain_text (show_base 10 n)" "plain_text (show_base 16 n)" for n
    using show_base_digits [of 10 n] show_base_digits [of 16 n] digit_chars_plain(4) by (auto simp: plain_text_def)
  show "plain_text (show_int i)" using p(1) [of "nat i"] p(1) [of "nat (- i)"] by (auto simp: show_int_def plain_text_def)
qed

lemma header_fields_plain: "\<forall>(k, v)\<in>set (header_fields h). plain_text k \<and> plain_text v \<and> CHR '':'' \<notin> set k"
  by (simp add: header_fields_def plain_show) (simp add: plain_text_def)

lemma header_decode:
  assumes "header_fits h"
  shows "decodeHeader (header_encode h @ replicate n CHR 0x00) = Ok h"
proof -
  have m: "parseHeader (header_encode h @ replicate n CHR 0x00) = Ok (fold (\<lambda>(k, v) m. m(k \<mapsto> v)) (header_fields h) (\<lambda>_. None))"
    unfolding header_encode_def by (rule parseHeader_fields [OF header_fields_plain]) (simp add: header_fields_def)
  have b: "i32 ChunkBlockSize" by (simp add: i32_def ChunkBlockSize_def)
  show ?thesis
    using assms unfolding decodeHeader_def m by (simp add: header_fields_def parseField_def parse_id parse_i32 parse_i64 header_fits_def b)
qed

text \<open>Claim C25. The text header of a chunk keeps what it was made of: for every header in range, decoding the encoded text, padded
  with any number of zero bytes, gives the header back.\<close>

theorem chunk_header_roundtrip:
  assumes "header_fits h"
  shows "decodeHeader (header_encode h @ replicate n CHR 0x00) = Ok h"
  by (rule header_decode [OF assms])

theorem chunk_header_roundtrip_witness:
  "let h = \<lparr>hID = 3, hRootPagePos = 0xAB00, hPageCount = 12, hSumOfPageLength = 0, hSumOfLivePageLength = - 1, hPagePositionAndLengthOffset = 0,
       hBlockSize = 4096, hFormatVersion = 1, hRemovedPageOffset = 0, hRemovedPageCount = 2, hLastTransactionID = 7, hMapSize = 0\<rparr>
   in decodeHeader (header_encode h @ replicate 3 CHR 0x00) = Ok h"
  unfolding Let_def by (rule chunk_header_roundtrip) (simp add: header_fits_def i32_def i64_def ChunkBlockSize_def)

end
