(* ===== verification/Chunk_File.thy ===== *)
theory Chunk_File
  imports Chunk_Header
begin

text \<open>
  Chunk files and their manager (\<open>chunk/chunk_file.go\<close>, \<open>chunk/disk_chunk_manager.go\<close>). The directory \<open>cmDisk\<close> maps a name to the
  bytes of the file; a chunk object refers to its file by name, and the manager refers to chunk objects by number (\<open>cmHeap\<close>).
  Every system call that can fail takes its result from an argument. The set of used chunk ids stands for the bit set.
\<close>

section \<open>Files\<close>

definition WriteAt :: "nat \<Rightarrow> bytes \<Rightarrow> bytes \<Rightarrow> bytes" where
  "WriteAt off bs f = splice off bs (f @ replicate (off + length bs - length f) 0)"

fun chunk_write :: "io \<Rightarrow> nat \<Rightarrow> bytes \<Rightarrow> bytes \<Rightarrow> bool \<times> bytes" where
  "chunk_write IoOk off bs f = (True, WriteAt off bs f)"
| "chunk_write (IoFail n) off bs f = (False, WriteAt off (take n bs) f)"

definition ReadAt :: "nat \<Rightarrow> nat \<Rightarrow> bytes \<Rightarrow> bytes outcome" where
  "ReadAt n off f = (if off + n \<le> length f then Ok (field off n f) else Err ErrEOF)"

lemma length_WriteAt [simp]: "length (WriteAt off bs f) = max (length f) (off + length bs)"
  by (simp add: WriteAt_def splice_def)

lemma WriteAt_same: "field off (length bs) (WriteAt off bs f) = bs"
  unfolding WriteAt_def by (rule field_splice_same) simp_all

lemma WriteAt_other:
  assumes "pos + n \<le> length f" "pos + n \<le> off \<or> off + length bs \<le> pos"
  shows "field pos n (WriteAt off bs f) = field pos n f"
proof -
  have "field pos n (WriteAt off bs f) = field pos n (f @ replicate (off + length bs - length f) 0)"
    unfolding WriteAt_def by (rule field_splice_other) (use assms(2) in simp_all)
  then show ?thesis using assms(1) by (simp add: field_append_within)
qed

section \<open>Chunk files\<close>

definition ChunkHeaderSize :: nat where "ChunkHeaderSize = 8192"

record chunk_file =
  cfID :: u32
  cfSeq :: u64
  cfName :: string
  cfCapacity :: int
  nextOffset :: int
  pagePosToLen :: "chunk_pos \<Rightarrow> nat option"
  cfRemoved :: "chunk_pos set"

definition bytes_of_string :: "string \<Rightarrow> bytes" where
  "bytes_of_string s = map (\<lambda>c. of_nat (of_char c)) s"

definition string_of_bytes :: "bytes \<Rightarrow> string" where
  "string_of_bytes b = map (\<lambda>x. char_of (unat x)) b"

definition header_block :: "chunk_header \<Rightarrow> bytes" where
  "header_block h = bytes_of_string (header_encode h) @ replicate (4096 - length (header_encode h)) 0"

definition writeHeader :: "io \<Rightarrow> io \<Rightarrow> chunk_header \<Rightarrow> bytes \<Rightarrow> unit outcome \<times> bytes" where
  "writeHeader io1 io2 h f =
     (if 4096 < length (header_encode h) then (Err ErrChunkHeaderError, f)
      else case chunk_write io1 0 (header_block h) f of
        (False, f1) \<Rightarrow> (Err ErrIO, f1)
      | (True, f1) \<Rightarrow> (case chunk_write io2 4096 (header_block h) f1 of (False, f2) \<Rightarrow> (Err ErrIO, f2) | (True, f2) \<Rightarrow> (Ok (), f2)))"

definition readHeader :: "bytes \<Rightarrow> chunk_header outcome" where
  "readHeader f = bind_outcome (ReadAt ChunkHeaderSize 0 f) (\<lambda>buf.
     case decodeHeader (string_of_bytes (take 4096 buf)) of
       Ok h \<Rightarrow> Ok h
     | _ \<Rightarrow> (case decodeHeader (string_of_bytes (drop 4096 buf)) of Ok h \<Rightarrow> Ok h | _ \<Rightarrow> Err ErrChunkInvalidHeader))"

definition good_frame :: "bytes \<Rightarrow> bool" where
  "good_frame buf \<longleftrightarrow> u32_at 0 buf = CRC32C (drop CRCSize buf) \<and> known_type (buf ! (CRCSize + PageTypeFieldOffset))"

function scan_frames :: "u32 \<Rightarrow> int \<Rightarrow> bytes \<Rightarrow> nat \<Rightarrow> nat \<Rightarrow> (chunk_pos \<Rightarrow> nat option) \<Rightarrow> (chunk_pos \<Rightarrow> nat option)" where
  "scan_frames cid cap f off miss m =
     (if cap < int (off + MaxDiskPageSize) then m
      else case ReadAt MaxDiskPageSize off f of
        Ok buf \<Rightarrow>
          (if \<not> good_frame buf then (if 16 < miss + 1 then m else scan_frames cid cap f (off + MaxDiskPageSize) (miss + 1) m)
           else scan_frames cid cap f (off + MaxDiskPageSize) 0
             (case EncodeChunkPosition cid (of_nat off) (buf ! (CRCSize + PageTypeFieldOffset)) of Ok pos \<Rightarrow> m(pos \<mapsto> MaxDiskPageSize) | _ \<Rightarrow> m))
      | _ \<Rightarrow> m)"
  by pat_completeness auto
termination by (relation "measure (\<lambda>(cid, cap, f, off, miss, m). nat (cap - int off))") (auto simp: MaxDiskPageSize_def)

declare scan_frames.simps [simp del]

definition scanPageFrames :: "chunk_file \<Rightarrow> bytes \<Rightarrow> (chunk_pos \<Rightarrow> nat option)" where
  "scanPageFrames c f = scan_frames (cfID c) (cfCapacity c) f ChunkHeaderSize 0 (\<lambda>_. None)"

section \<open>Names\<close>

definition chunk_name :: "nat \<Rightarrow> nat \<Rightarrow> string" where
  "chunk_name cid seq = ''btree_'' @ show_base 10 cid @ ''_'' @ show_base 10 seq @ ''.ao''"

definition is_digit :: "char \<Rightarrow> bool" where
  "is_digit c \<longleftrightarrow> (of_char c :: nat) \<in> {48..57}"

definition strip_prefix :: "string \<Rightarrow> string \<Rightarrow> string option" where
  "strip_prefix p s = (if take (length p) s = p then Some (drop (length p) s) else None)"

definition parseChunkFilename :: "string \<Rightarrow> (u32 \<times> u64) outcome" where
  "parseChunkFilename name = (case strip_prefix ''btree_'' name of
     None \<Rightarrow> Err ErrChunkHeaderError
   | Some r1 \<Rightarrow> (case (ParseUint 10 64 (takeWhile is_digit r1), strip_prefix ''_'' (dropWhile is_digit r1)) of
       (Ok cid, Some r2) \<Rightarrow> (case (ParseUint 10 64 (takeWhile is_digit r2), strip_prefix ''.ao'' (dropWhile is_digit r2)) of
           (Ok s, Some r3) \<Rightarrow> if name = chunk_name cid s then Ok (of_nat cid, of_nat s) else Err ErrChunkHeaderError
         | _ \<Rightarrow> Err ErrChunkHeaderError)
     | _ \<Rightarrow> Err ErrChunkHeaderError))"

section \<open>Headers survive\<close>

lemma string_bytes_roundtrip: "string_of_bytes (bytes_of_string s) = s"
  by (induction s) (simp_all add: string_of_bytes_def bytes_of_string_def unat_of_nat)

lemma string_of_block: "string_of_bytes (header_block h) = header_encode h @ replicate (4096 - length (header_encode h)) CHR 0x00"
  using string_bytes_roundtrip [of "header_encode h"] by (simp add: header_block_def string_of_bytes_def char_of_def)

lemma length_show_base: "\<lbrakk>2 \<le> b; n < b ^ k; 0 < k\<rbrakk> \<Longrightarrow> length (show_base b n) \<le> k"
proof (induction b n arbitrary: k rule: show_base.induct)
  case (1 b n)
  show ?case
  proof (cases "n < b")
    case False
    obtain j where k: "k = Suc j" using 1(4) by (cases k) auto
    moreover from this have "0 < j" using 1(3) False by (cases j) auto
    ultimately have k: "k = Suc j" "0 < j" by simp_all
    have "n div b < b ^ j" using 1(2,3) k by (simp add: less_mult_imp_div_less mult.commute)
    then show ?thesis using 1(1) [of j] 1(2) False k by (simp add: show_base.simps [of b n])
  qed (use 1(4) in \<open>simp add: show_base.simps [of b n]\<close>)
qed

lemma length_show_int: "i64 i \<Longrightarrow> length (show_int i) \<le> 21"
  using length_show_base [of 10 "nat i" 20] length_show_base [of 10 "nat (- i)" 20] by (auto simp: show_int_def i64_def nat_less_iff)

lemma length_show_word: "length (show_base 10 (unat (w :: u32))) \<le> 20" "length (show_base 16 (unat (v :: u64))) \<le> 16"
  using length_show_base [of 10 "unat w" 20] length_show_base [of 16 "unat v" 16] unsigned_less [where 'a = nat, of w] unsigned_less [where 'a = nat, of v]
  by simp_all

lemma i32_i64: "i32 i \<Longrightarrow> i64 i"
  by (simp add: i32_def i64_def)

lemma header_encode_short:
  assumes "header_fits h"
  shows "length (header_encode h) \<le> 4096"
proof -
  note l = length_show_word(1) [of "hID h"] length_show_word(2) [of "hRootPagePos h"]
  have "length (show_int (hPageCount h)) \<le> 21" "length (show_int (hSumOfPageLength h)) \<le> 21" "length (show_int (hSumOfLivePageLength h)) \<le> 21"
    "length (show_int (hPagePositionAndLengthOffset h)) \<le> 21" "length (show_int (hBlockSize h)) \<le> 21" "length (show_int (hFormatVersion h)) \<le> 21"
    "length (show_int (hRemovedPageOffset h)) \<le> 21" "length (show_int (hRemovedPageCount h)) \<le> 21" "length (show_int (hLastTransactionID h)) \<le> 21"
    "length (show_int (hMapSize h)) \<le> 21"
    using assms i32_i64 by (auto simp: header_fits_def ChunkBlockSize_def intro!: length_show_int) (simp add: i64_def)
  then show ?thesis using l by (simp add: header_encode_def header_fields_def header_line_def)
qed

lemma header_decode_block: "header_fits h \<Longrightarrow> decodeHeader (string_of_bytes (header_block h)) = Ok h"
  by (simp add: string_of_block header_decode)

lemma header_block_length: "header_fits h \<Longrightarrow> length (header_block h) = 4096"
  using header_encode_short [of h] by (simp add: header_block_def bytes_of_string_def)

text \<open>A header outlives the loss of one of its copies: once \<open>writeHeader\<close> has returned, \<open>readHeader\<close> gives the header
  back, also when the second block is overwritten with anything, and also when the first one is overwritten with anything that does
  not decode as a header.\<close>

lemma header_blocks:
  assumes "header_fits h" "writeHeader IoOk IoOk h f = (r, g)" "length junk = 4096"
  shows "r = Ok () \<and> readHeader g = Ok h \<and> readHeader (splice 4096 junk g) = Ok h \<and>
    ((\<forall>x. decodeHeader (string_of_bytes junk) \<noteq> Ok x) \<longrightarrow> readHeader (splice 0 junk g) = Ok h)"
proof -
  let ?b = "header_block h"
  have lb: "length ?b = 4096" by (rule header_block_length [OF assms(1)])
  have g: "g = WriteAt 4096 ?b (WriteAt 0 ?b f)" "r = Ok ()" using assms(1,2) header_encode_short [OF assms(1)] by (simp_all add: writeHeader_def)
  have len: "8192 \<le> length g" using lb by (simp add: g)
  have b1: "field 4096 4096 g = ?b" using WriteAt_same [of 4096 ?b] lb by (simp add: g)
  have b0: "field 0 4096 g = ?b" using WriteAt_same [of 0 ?b f] WriteAt_other [of 0 4096 "WriteAt 0 ?b f" 4096 ?b] lb by (simp add: g)
  have read: "readHeader x = (case decodeHeader (string_of_bytes (field 0 4096 x)) of Ok h \<Rightarrow> Ok h
      | _ \<Rightarrow> (case decodeHeader (string_of_bytes (field 4096 4096 x)) of Ok h \<Rightarrow> Ok h | _ \<Rightarrow> Err ErrChunkInvalidHeader))" if "8192 \<le> length x" for x
  proof -
    have "drop 4096 (field 0 8192 x) = field 4096 4096 x" "take 4096 (field 0 8192 x) = field 0 4096 x"
      unfolding field_def drop_take take_take by simp_all
    then show ?thesis using that by (simp add: readHeader_def ReadAt_def ChunkHeaderSize_def split: outcome.split)
  qed
  have s1: "field 0 4096 (splice 4096 junk g) = ?b" and s0: "field 0 4096 (splice 0 junk g) = junk" and s2: "field 4096 4096 (splice 0 junk g) = ?b"
    using len assms(3) b0 b1 by (simp_all add: field_splice_other field_splice_same)
  have ls: "8192 \<le> length (splice 4096 junk g)" "8192 \<le> length (splice 0 junk g)" using len assms(3) by simp_all
  show ?thesis using read [OF len] read [OF ls(1)] read [OF ls(2)] header_decode_block [OF assms(1)] b0 s0 s1 s2 g(2)
    by (auto split: outcome.splits)
qed

text \<open>Whatever the file has behind the header is kept.\<close>

lemma write_header_keeps:
  assumes "header_fits h" "writeHeader IoOk IoOk h f = (r, g)" "8192 \<le> off" "off + n \<le> length f"
  shows "field off n g = field off n f" "length g = length f"
proof -
  have lb: "length (header_block h) = 4096" by (rule header_block_length [OF assms(1)])
  have g: "g = WriteAt 4096 (header_block h) (WriteAt 0 (header_block h) f)" using assms(1,2) header_encode_short [OF assms(1)] by (simp add: writeHeader_def)
  show "field off n g = field off n f" using assms(3,4) lb by (simp add: g WriteAt_other)
  show "length g = length f" using assms(3,4) lb by (simp add: g)
qed

section \<open>Names and their parts\<close>

lemma show_decimal: "list_all is_digit (show_base 10 n)"
proof (induction "10 :: nat" n rule: show_base.induct)
  case (1 n)
  have d: "d < 10 \<Longrightarrow> is_digit (digit_char d)" for d by (simp add: is_digit_def digit_char_def)
  show ?case using 1 d [of n] d [of "n mod 10"] by (simp add: show_base.simps [of 10 n])
qed

lemma digits_then: "list_all is_digit s \<Longrightarrow> \<not> is_digit c \<Longrightarrow> takeWhile is_digit (s @ c # t) = s \<and> dropWhile is_digit (s @ c # t) = c # t"
  by (induction s) auto

lemma chunk_name_parse:
  assumes "c < 2 ^ 64" "q < 2 ^ 64"
  shows "parseChunkFilename (chunk_name c q) = Ok (of_nat c, of_nat q)"
proof -
  have n: "\<not> is_digit CHR ''_''" "\<not> is_digit CHR ''.''" by (simp_all add: is_digit_def)
  note d = digits_then [OF show_decimal n(1), of c "show_base 10 q @ ''.ao''"] digits_then [OF show_decimal n(2), of q "''ao''"]
  have "strip_prefix ''btree_'' (chunk_name c q) = Some (show_base 10 c @ CHR ''_'' # show_base 10 q @ ''.ao'')"
    "strip_prefix ''_'' (CHR ''_'' # x) = Some x" "strip_prefix ''.ao'' ''.ao'' = Some []" for x
    by (simp_all add: strip_prefix_def chunk_name_def)
  then show ?thesis using d assms ParseUint_show [of 10 c 64] ParseUint_show [of 10 q 64] by (simp add: parseChunkFilename_def)
qed

lemma chunk_name_inj:
  assumes "chunk_name (unat (c :: u32)) (unat (q :: u64)) = chunk_name (unat (c' :: u32)) (unat (q' :: u64))"
  shows "c = c' \<and> q = q'"
proof -
  have "unat x < 2 ^ 64" if "unat x < 2 ^ 32" for x :: u32 using that by simp
  then have b: "unat c < 2 ^ 64" "unat q < 2 ^ 64" "unat c' < 2 ^ 64" "unat q' < 2 ^ 64"
    using unsigned_less [where 'a = nat, of c] unsigned_less [where 'a = nat, of c'] unsigned_less [where 'a = nat, of q] unsigned_less [where 'a = nat, of q'] by simp_all
  have "Ok (of_nat (unat c) :: u32, of_nat (unat q) :: u64) = Ok (of_nat (unat c'), of_nat (unat q'))"
    using chunk_name_parse [OF b(1,2)] unfolding assms chunk_name_parse [OF b(3,4)] by (rule sym)
  then show ?thesis by simp
qed

section \<open>What the scan finds\<close>

definition frame_off :: "nat \<Rightarrow> nat" where
  "frame_off i = 8192 + 4100 * i"

definition frame_at :: "bytes \<Rightarrow> nat \<Rightarrow> bytes" where
  "frame_at f i = field (frame_off i) 4100 f"

definition frame_pos :: "u32 \<Rightarrow> bytes \<Rightarrow> nat \<Rightarrow> chunk_pos" where
  "frame_pos cid f i = (case EncodeChunkPosition cid (of_nat (frame_off i)) (frame_at f i ! 30) of Ok p \<Rightarrow> p | _ \<Rightarrow> 0)"

lemma scan_step:
  assumes "int (frame_off (Suc i)) \<le> cap" "frame_off (Suc i) \<le> length f" "cid \<le> MaxChunkID"
  shows "scan_frames cid cap f (frame_off i) miss m =
    (if good_frame (frame_at f i) then scan_frames cid cap f (frame_off (Suc i)) 0 (m(frame_pos cid f i \<mapsto> 4100))
     else if 16 < miss + 1 then m else scan_frames cid cap f (frame_off (Suc i)) (miss + 1) m)"
proof -
  have o: "frame_off i + 4100 = frame_off (Suc i)" by (simp add: frame_off_def)
  have r: "ReadAt 4100 (frame_off i) f = Ok (frame_at f i)" using assms(2) by (simp add: ReadAt_def o frame_at_def)
  have e: "EncodeChunkPosition cid (of_nat (frame_off i)) (frame_at f i ! 30) = Ok (frame_pos cid f i)"
    using assms(3) by (simp add: frame_pos_def EncodeChunkPosition_def)
  show ?thesis using assms(1) r e by (simp add: scan_frames.simps [of cid cap f "frame_off i" miss m] frame_consts o)
qed

lemma scan_stop: "cap < int (frame_off (Suc i)) \<Longrightarrow> scan_frames cid cap f (frame_off i) miss m = m"
proof -
  assume "cap < int (frame_off (Suc i))"
  then have "cap < int (frame_off i + 4100)" by (simp add: frame_off_def)
  then show ?thesis by (simp add: scan_frames.simps [of cid cap f "frame_off i" miss m] frame_consts)
qed

text \<open>A run of good frames up to the end of the chunk.\<close>

lemma scan_good_run:
  assumes "i \<le> n" "\<forall>j. i \<le> j \<and> j < n \<longrightarrow> good_frame (frame_at f j)" "int (frame_off n) \<le> cap" "cap < int (frame_off (Suc n))" "frame_off n \<le> length f" "cid \<le> MaxChunkID"
  shows "scan_frames cid cap f (frame_off i) miss m = fold (\<lambda>j m. m(frame_pos cid f j \<mapsto> 4100)) [i..<n] m"
  using assms(1,2)
proof (induction "n - i" arbitrary: i miss m)
  case 0
  then show ?case using assms(4) by (simp add: scan_stop)
next
  case (Suc k)
  then have i: "i < n" by simp
  then have "frame_off (Suc i) \<le> frame_off n" by (simp add: frame_off_def)
  then have "scan_frames cid cap f (frame_off i) miss m = scan_frames cid cap f (frame_off (Suc i)) 0 (m(frame_pos cid f i \<mapsto> 4100))"
    using scan_step [of i cap f cid miss m] assms Suc.prems i by simp
  then show ?case using Suc.hyps(1) [of "Suc i"] Suc.hyps(2) Suc.prems i by (simp add: upt_conv_Cons del: fun_upd_apply)
qed

end
