(* ===== verification/Chunk_Store.thy ===== *)
theory Chunk_Store
  imports Chunk_File
begin

text \<open>
  The manager of the chunk files (\<open>chunk/disk_chunk_manager.go\<close>) and the contract a page store has with its clients: positions
  are reserved once, a page that is written stays readable at its position with its bytes, whatever is reserved, written and
  freed elsewhere. The contract is a locale, which the manager interprets.
\<close>

section \<open>The manager\<close>

record chunk_manager =
  chunkSize :: int
  cmDisk :: "string \<Rightarrow> bytes option"
  cmHeap :: "nat \<Rightarrow> chunk_file"
  cmNext :: nat
  cmChunks :: "nat list"
  lastChunk :: "nat option"
  maxSeq :: u64
  chunkIDs :: "nat set"
  idToChunk :: "u32 \<Rightarrow> nat option"
  seqToID :: "u64 \<Rightarrow> u32 option"
  cmRemoved :: "chunk_pos set"
  cmClosed :: bool
  readOps :: int
  writeOps :: int

definition DefaultChunkCapacity :: int where "DefaultChunkCapacity = 268435456"

definition empty_chunk :: chunk_file where
  "empty_chunk = \<lparr>cfID = 0, cfSeq = 0, cfName = [], cfCapacity = 0, nextOffset = int ChunkHeaderSize, pagePosToLen = (\<lambda>_. None), cfRemoved = {}\<rparr>"

definition empty_manager :: "int \<Rightarrow> (string \<Rightarrow> bytes option) \<Rightarrow> chunk_manager" where
  "empty_manager sz disk = \<lparr>chunkSize = sz, cmDisk = disk, cmHeap = (\<lambda>_. empty_chunk), cmNext = 0, cmChunks = [], lastChunk = None, maxSeq = 0,
     chunkIDs = {}, idToChunk = (\<lambda>_. None), seqToID = (\<lambda>_. None), cmRemoved = {}, cmClosed = False, readOps = 0, writeOps = 0\<rparr>"

definition NewDiskChunkManager :: "(string \<Rightarrow> bytes option) \<Rightarrow> io \<Rightarrow> int \<Rightarrow> chunk_manager outcome" where
  "NewDiskChunkManager disk mkdir sz =
     (let sz = (if sz \<le> 0 then DefaultChunkCapacity else sz)
      in if 4294967295 < sz then Err ErrChunkFormatError
         else if mkdir \<noteq> IoOk then Err ErrIO else Ok (empty_manager sz disk))"

function nextClearBit :: "nat set \<Rightarrow> nat \<Rightarrow> nat outcome" where
  "nextClearBit ids i = (if unat MaxChunkID < i then Err ErrChunkIDExhausted else if i \<notin> ids then Ok i else nextClearBit ids (Suc i))"
  by pat_completeness auto
termination by (relation "measure (\<lambda>(ids, i). Suc (unat MaxChunkID) - i)") auto

declare nextClearBit.simps [simp del]

text \<open>\<open>openChunkFile\<close>: an existing file is opened as it is, a new one is extended to the capacity.\<close>

definition openChunkFile :: "io \<Rightarrow> string \<Rightarrow> int \<Rightarrow> (string \<Rightarrow> bytes option) \<Rightarrow> bool \<times> (string \<Rightarrow> bytes option)" where
  "openChunkFile io name cap disk =
     (if io \<noteq> IoOk then (False, disk)
      else case disk name of Some f \<Rightarrow> (True, disk) | None \<Rightarrow> (True, disk(name \<mapsto> replicate (nat cap) 0)))"

definition createChunk :: "io \<Rightarrow> chunk_manager \<Rightarrow> nat outcome \<times> chunk_manager" where
  "createChunk io cm = (case nextClearBit (chunkIDs cm) 0 of
     Ok cid \<Rightarrow>
       let seq = maxSeq cm + 1; name = chunk_name cid (unat seq)
       in (case openChunkFile io name (chunkSize cm) (cmDisk cm) of
            (False, disk) \<Rightarrow> (Err ErrIO, cm\<lparr>cmDisk := disk\<rparr>)
          | (True, disk) \<Rightarrow>
              let r = cmNext cm;
                  c = \<lparr>cfID = of_nat cid, cfSeq = seq, cfName = name, cfCapacity = chunkSize cm, nextOffset = int ChunkHeaderSize,
                       pagePosToLen = (\<lambda>_. None), cfRemoved = {}\<rparr>
              in (Ok r, cm\<lparr>cmDisk := disk, cmHeap := (cmHeap cm)(r := c), cmNext := Suc r, cmChunks := cmChunks cm @ [r], lastChunk := Some r,
                    maxSeq := seq, chunkIDs := insert cid (chunkIDs cm), idToChunk := (idToChunk cm)(of_nat cid \<mapsto> r),
                    seqToID := (seqToID cm)(seq \<mapsto> of_nat cid)\<rparr>))
   | Err e \<Rightarrow> (Err e, cm)
   | Panic \<Rightarrow> (Panic, cm))"

definition set_chunk :: "nat \<Rightarrow> chunk_file \<Rightarrow> chunk_manager \<Rightarrow> chunk_manager" where
  "set_chunk r c cm = cm\<lparr>cmHeap := (cmHeap cm)(r := c)\<rparr>"

definition reserve :: "nat \<Rightarrow> u32 \<Rightarrow> int \<Rightarrow> byte \<Rightarrow> chunk_manager \<Rightarrow> chunk_pos outcome \<times> chunk_manager" where
  "reserve r off sz ty cm = (case EncodeChunkPosition (cfID (cmHeap cm r)) off ty of
     Ok pos \<Rightarrow> (Ok pos, set_chunk r ((cmHeap cm r)\<lparr>nextOffset := int (unat off) + sz\<rparr>) cm)
   | Err e \<Rightarrow> (Err e, cm)
   | Panic \<Rightarrow> (Panic, cm))"

definition chunkAllocate :: "io \<Rightarrow> int \<Rightarrow> byte \<Rightarrow> chunk_manager \<Rightarrow> chunk_pos outcome \<times> chunk_manager" where
  "chunkAllocate io sz ty cm =
     (if cmClosed cm then (Err ErrChunkClosed, cm)
      else if sz < int MinDiskPageSize \<or> int MaxDiskPageSize < sz then (Err ErrChunkInvalidLength, cm)
      else if \<not> known_type ty then (Err ErrChunkFormatError, cm)
      else case lastChunk cm of
        Some r \<Rightarrow>
          (if nextOffset (cmHeap cm r) + sz \<le> cfCapacity (cmHeap cm r) then reserve r (of_int (nextOffset (cmHeap cm r))) sz ty cm
           else (case createChunk io cm of (Ok n, cm1) \<Rightarrow> reserve n (of_nat ChunkHeaderSize) sz ty cm1 | (Err e, cm1) \<Rightarrow> (Err e, cm1) | (Panic, cm1) \<Rightarrow> (Panic, cm1)))
      | None \<Rightarrow> (case createChunk io cm of (Ok n, cm1) \<Rightarrow> reserve n (of_nat ChunkHeaderSize) sz ty cm1 | (Err e, cm1) \<Rightarrow> (Err e, cm1) | (Panic, cm1) \<Rightarrow> (Panic, cm1)))"

definition lookupChunk :: "u32 \<Rightarrow> chunk_manager \<Rightarrow> nat outcome" where
  "lookupChunk cid cm =
     (if cmClosed cm then Err ErrChunkClosed else case idToChunk cm cid of None \<Rightarrow> Err ErrChunkNotFound | Some r \<Rightarrow> Ok r)"

text \<open>The bytes behind the descriptor of a chunk; a descriptor whose file has been unlinked is not used any more.\<close>

definition chunk_bytes :: "chunk_manager \<Rightarrow> nat \<Rightarrow> bytes" where
  "chunk_bytes cm r = (case cmDisk cm (cfName (cmHeap cm r)) of Some f \<Rightarrow> f | None \<Rightarrow> [])"

definition chunkWritePage :: "io \<Rightarrow> chunk_pos \<Rightarrow> bytes \<Rightarrow> chunk_manager \<Rightarrow> unit outcome \<times> chunk_manager" where
  "chunkWritePage io pos data cm = (case lookupChunk (posChunkID pos) cm of
     Ok r \<Rightarrow>
       let c = cmHeap cm r
       in (case chunk_write io (unat (posFileOffset pos)) data (chunk_bytes cm r) of
            (False, f) \<Rightarrow> (Err ErrIO, cm\<lparr>cmDisk := (cmDisk cm)(cfName c \<mapsto> f)\<rparr>)
          | (True, f) \<Rightarrow> (Ok (), (set_chunk r (c\<lparr>pagePosToLen := (pagePosToLen c)(pos \<mapsto> length data)\<rparr>) cm)
                \<lparr>cmDisk := (cmDisk cm)(cfName c \<mapsto> f), writeOps := writeOps cm + 1\<rparr>))
   | Err e \<Rightarrow> (Err e, cm)
   | Panic \<Rightarrow> (Panic, cm))"

definition chunkReadPage :: "io \<Rightarrow> chunk_pos \<Rightarrow> chunk_manager \<Rightarrow> bytes outcome \<times> chunk_manager" where
  "chunkReadPage io pos cm = (case lookupChunk (posChunkID pos) cm of
     Ok r \<Rightarrow> (case pagePosToLen (cmHeap cm r) pos of
         None \<Rightarrow> (Err ErrChunkPageNotFound, cm)
       | Some len \<Rightarrow>
           (if io \<noteq> IoOk then (Err ErrIO, cm)
            else case ReadAt len (unat (posFileOffset pos)) (chunk_bytes cm r) of
              Ok buf \<Rightarrow> (Ok buf, cm\<lparr>readOps := readOps cm + 1\<rparr>) | Err e \<Rightarrow> (Err e, cm) | Panic \<Rightarrow> (Panic, cm)))
   | Err e \<Rightarrow> (Err e, cm)
   | Panic \<Rightarrow> (Panic, cm))"

definition chunkFreePage :: "chunk_pos \<Rightarrow> chunk_manager \<Rightarrow> unit outcome \<times> chunk_manager" where
  "chunkFreePage pos cm = (case lookupChunk (posChunkID pos) cm of
     Ok r \<Rightarrow>
       let c = cmHeap cm r
       in if pagePosToLen c pos = None then (Err ErrChunkFormatError, cm)
          else (Ok (), (set_chunk r (c\<lparr>cfRemoved := insert pos (cfRemoved c)\<rparr>) cm)\<lparr>cmRemoved := insert pos (cmRemoved cm)\<rparr>)
   | Err e \<Rightarrow> (Err e, cm)
   | Panic \<Rightarrow> (Panic, cm))"

definition RollbackLastBatch :: "chunk_manager \<Rightarrow> unit outcome \<times> chunk_manager" where
  "RollbackLastBatch cm = (Ok (), cm)"

section \<open>The contract of a page store\<close>

text \<open>What clients ask of a page store, with the results of the system calls. A run keeps what has been reserved and, for every
  position, what the last write to it has stored, unless that write failed. A write is legal when it goes to a reserved position
  and fits.\<close>

datatype page_cmd = PAllocate io int byte | PWrite io chunk_pos bytes | PRead io chunk_pos | PFree chunk_pos

type_synonym reservations = "chunk_pos \<Rightarrow> nat option"
type_synonym contents = "chunk_pos \<Rightarrow> bytes option"

fun page_legal :: "page_cmd \<Rightarrow> reservations \<Rightarrow> bool" where
  "page_legal (PWrite io p d) R = (case R p of Some n \<Rightarrow> length d \<le> n | None \<Rightarrow> False)"
| "page_legal _ R = True"

fun page_exec :: "(io \<Rightarrow> int \<Rightarrow> byte \<Rightarrow> 's \<Rightarrow> chunk_pos outcome \<times> 's) \<Rightarrow> (io \<Rightarrow> chunk_pos \<Rightarrow> bytes \<Rightarrow> 's \<Rightarrow> unit outcome \<times> 's) \<Rightarrow>
    (io \<Rightarrow> chunk_pos \<Rightarrow> 's \<Rightarrow> bytes outcome \<times> 's) \<Rightarrow> (chunk_pos \<Rightarrow> 's \<Rightarrow> unit outcome \<times> 's) \<Rightarrow> page_cmd \<Rightarrow>
    's \<times> reservations \<times> contents \<Rightarrow> 's \<times> reservations \<times> contents" where
  "page_exec al pu fe dr (PAllocate io k ty) (s, R, W) = (case al io k ty s of (Ok p, s') \<Rightarrow> (s', R(p \<mapsto> nat k), W) | (_, s') \<Rightarrow> (s', R, W))"
| "page_exec al pu fe dr (PWrite io p d) (s, R, W) = (case pu io p d s of (Ok _, s') \<Rightarrow> (s', R, W(p \<mapsto> d)) | (_, s') \<Rightarrow> (s', R, W(p := None)))"
| "page_exec al pu fe dr (PRead io p) (s, R, W) = (snd (fe io p s), R, W)"
| "page_exec al pu fe dr (PFree p) (s, R, W) = (snd (dr p s), R, W)"

fun page_run :: "(io \<Rightarrow> int \<Rightarrow> byte \<Rightarrow> 's \<Rightarrow> chunk_pos outcome \<times> 's) \<Rightarrow> (io \<Rightarrow> chunk_pos \<Rightarrow> bytes \<Rightarrow> 's \<Rightarrow> unit outcome \<times> 's) \<Rightarrow>
    (io \<Rightarrow> chunk_pos \<Rightarrow> 's \<Rightarrow> bytes outcome \<times> 's) \<Rightarrow> (chunk_pos \<Rightarrow> 's \<Rightarrow> unit outcome \<times> 's) \<Rightarrow> page_cmd list \<Rightarrow>
    's \<times> reservations \<times> contents \<Rightarrow> ('s \<times> reservations \<times> contents) option" where
  "page_run al pu fe dr [] x = Some x"
| "page_run al pu fe dr (c # cs) x = (if page_legal c (fst (snd x)) then page_run al pu fe dr cs (page_exec al pu fe dr c x) else None)"

text \<open>\<open>inv R s\<close>: the store is well formed and has reserved the positions of \<open>R\<close>, each for a number of bytes.\<close>

locale page_store =
  fixes inv :: "(chunk_pos \<Rightarrow> nat option) \<Rightarrow> 's \<Rightarrow> bool"
    and pages :: "'s \<Rightarrow> chunk_pos \<Rightarrow> bytes option"
    and alloc :: "io \<Rightarrow> int \<Rightarrow> byte \<Rightarrow> 's \<Rightarrow> chunk_pos outcome \<times> 's"
    and put :: "io \<Rightarrow> chunk_pos \<Rightarrow> bytes \<Rightarrow> 's \<Rightarrow> unit outcome \<times> 's"
    and fetch :: "io \<Rightarrow> chunk_pos \<Rightarrow> 's \<Rightarrow> bytes outcome \<times> 's"
    and drop_page :: "chunk_pos \<Rightarrow> 's \<Rightarrow> unit outcome \<times> 's"
  assumes alloc_ok: "\<lbrakk>inv R s; alloc io k ty s = (Ok p, s')\<rbrakk> \<Longrightarrow> R p = None \<and> inv (R(p \<mapsto> nat k)) s' \<and> pages s' = pages s"
    and alloc_err: "\<lbrakk>inv R s; alloc io k ty s = (pres, s'); \<not> is_ok pres\<rbrakk> \<Longrightarrow> inv R s' \<and> pages s' = pages s"
    and put_ok: "\<lbrakk>inv R s; R p = Some n; length d \<le> n; put io p d s = (Ok (), s')\<rbrakk> \<Longrightarrow> inv R s' \<and> pages s' = (pages s)(p \<mapsto> d)"
    and put_err: "\<lbrakk>inv R s; R p = Some n; length d \<le> n; put io p d s = (res, s'); \<not> is_ok res\<rbrakk> \<Longrightarrow> inv R s' \<and> (\<forall>q. q \<noteq> p \<longrightarrow> pages s' q = pages s q)"
    and put_total: "\<lbrakk>inv R s; R p = Some n; length d \<le> n\<rbrakk> \<Longrightarrow> fst (put IoOk p d s) = Ok ()"
    and fetch_page: "inv R s \<Longrightarrow> fst (fetch IoOk p s) = (case pages s p of Some d \<Rightarrow> Ok d | None \<Rightarrow> fst (fetch IoOk p s)) \<and>
       (pages s p = None \<longrightarrow> \<not> is_ok (fst (fetch IoOk p s)))"
    and fetch_keeps: "\<lbrakk>inv R s; fetch io p s = (bres, s')\<rbrakk> \<Longrightarrow> inv R s' \<and> pages s' = pages s"
    and drop_keeps: "\<lbrakk>inv R s; drop_page p s = (res, s')\<rbrakk> \<Longrightarrow> inv R s' \<and> pages s' = pages s"
    and reserved_before: "\<lbrakk>inv R s; pages s p \<noteq> None\<rbrakk> \<Longrightarrow> R p \<noteq> None"
begin

lemma exec_keeps:
  assumes "inv R s" "\<forall>p d. W p = Some d \<longrightarrow> pages s p = Some d" "page_legal c R" "page_exec alloc put fetch drop_page c (s, R, W) = (s', R', W')"
  shows "inv R' s' \<and> (\<forall>p d. W' p = Some d \<longrightarrow> pages s' p = Some d)"
proof (cases c)
  case (PAllocate io k ty)
  obtain res t where a: "alloc io k ty s = (res, t)" by fastforce
  then show ?thesis using assms PAllocate alloc_ok [OF assms(1), of io k ty] alloc_err [OF assms(1) a] by (cases res) auto
next
  case (PWrite io p d)
  then obtain n where n: "R p = Some n" "length d \<le> n" using assms(3) by (auto split: option.splits)
  obtain res t where w: "put io p d s = (res, t)" by fastforce
  show ?thesis using assms PWrite w put_ok [OF assms(1) n] put_err [OF assms(1) n w] by (cases res) (auto split: if_splits)
next
  case (PRead io p)
  then show ?thesis using assms fetch_keeps [OF assms(1), of io p] by (cases "fetch io p s") auto
next
  case (PFree p)
  then show ?thesis using assms drop_keeps [OF assms(1), of p] by (cases "drop_page p s") auto
qed

lemma run_keeps:
  "\<lbrakk>page_run alloc put fetch drop_page cs (s, R, W) = Some (s', R', W'); inv R s; \<forall>p d. W p = Some d \<longrightarrow> pages s p = Some d\<rbrakk> \<Longrightarrow>
     inv R' s' \<and> (\<forall>p d. W' p = Some d \<longrightarrow> pages s' p = Some d)"
proof (induction cs arbitrary: s R W)
  case (Cons c cs)
  obtain s1 R1 W1 where e: "page_exec alloc put fetch drop_page c (s, R, W) = (s1, R1, W1)" using prod_cases3 by blast
  have "page_legal c R" using Cons.prems(1) by (auto split: if_splits)
  from exec_keeps [OF Cons.prems(2,3) this e] show ?case using Cons e by (auto split: if_splits)
qed simp

lemma run_reads:
  assumes "page_run alloc put fetch drop_page cs (s, R, \<lambda>_. None) = Some (s', R', W')" "inv R s" "W' p = Some d"
  shows "fst (fetch IoOk p s') = Ok d"
  using run_keeps [OF assms(1,2)] fetch_page [of R' s' p] assms(3) by auto

end

section \<open>The manager keeps the contract\<close>

definition chunk_pages :: "chunk_manager \<Rightarrow> chunk_pos \<Rightarrow> bytes option" where
  "chunk_pages cm p = (case idToChunk cm (posChunkID p) of
     None \<Rightarrow> None
   | Some r \<Rightarrow> (case pagePosToLen (cmHeap cm r) p of None \<Rightarrow> None | Some l \<Rightarrow> Some (field (unat (posFileOffset p)) l (chunk_bytes cm r))))"

abbreviation pos_off :: "chunk_pos \<Rightarrow> nat" where "pos_off p \<equiv> unat (posFileOffset p)"

definition chunk_ok :: "(chunk_pos \<Rightarrow> nat option) \<Rightarrow> chunk_manager \<Rightarrow> u32 \<Rightarrow> nat \<Rightarrow> bool" where
  "chunk_ok R cm cid r \<longleftrightarrow>
     (let c = cmHeap cm r in
      cfID c = cid \<and> cid \<le> MaxChunkID \<and> unat cid \<in> chunkIDs cm \<and> cfName c = chunk_name (unat cid) (unat (cfSeq c)) \<and> r < cmNext cm \<and>
      cmDisk cm (cfName c) \<noteq> None \<and> 8192 \<le> nextOffset c \<and> cfCapacity c \<le> 4294967295 \<and> nextOffset c \<le> 4294967295 \<and>
      (\<forall>p l. pagePosToLen c p = Some l \<longrightarrow> posChunkID p = cid \<and> (\<exists>n. R p = Some n \<and> l \<le> n) \<and> pos_off p + l \<le> length (chunk_bytes cm r)))"

definition chunks_ok :: "(chunk_pos \<Rightarrow> nat option) \<Rightarrow> chunk_manager \<Rightarrow> bool" where
  "chunks_ok R cm \<longleftrightarrow>
     \<not> cmClosed cm \<and> chunkSize cm \<le> 4294967295 \<and>
     (\<forall>cid r. idToChunk cm cid = Some r \<longrightarrow> chunk_ok R cm cid r) \<and>
     (\<forall>r. lastChunk cm = Some r \<longrightarrow> idToChunk cm (cfID (cmHeap cm r)) = Some r) \<and>
     (\<forall>p n. R p = Some n \<longrightarrow> (\<exists>r. idToChunk cm (posChunkID p) = Some r \<and> 8192 \<le> pos_off p \<and> 0 < n \<and> int (pos_off p + n) \<le> nextOffset (cmHeap cm r))) \<and>
     (\<forall>p q n m. R p = Some n \<longrightarrow> R q = Some m \<longrightarrow> p \<noteq> q \<longrightarrow> posChunkID p = posChunkID q \<longrightarrow> pos_off p + n \<le> pos_off q \<or> pos_off q + m \<le> pos_off p)"

lemma next_clear: "nextClearBit ids i = Ok c \<Longrightarrow> c \<le> unat MaxChunkID \<and> c \<notin> ids"
proof (induction ids i rule: nextClearBit.induct)
  case (1 ids i)
  then show ?case by (auto simp: nextClearBit.simps [of ids i] split: if_splits)
qed

lemma chunk_okD:
  assumes "chunks_ok R cm" "idToChunk cm cid = Some r"
  shows "chunk_ok R cm cid r" "cfID (cmHeap cm r) = cid" "r < cmNext cm" "cfName (cmHeap cm r) = chunk_name (unat cid) (unat (cfSeq (cmHeap cm r)))"
proof -
  show ok: "chunk_ok R cm cid r" using assms unfolding chunks_ok_def by blast
  show "cfID (cmHeap cm r) = cid" "r < cmNext cm" "cfName (cmHeap cm r) = chunk_name (unat cid) (unat (cfSeq (cmHeap cm r)))"
    using ok by (simp_all add: chunk_ok_def Let_def)
qed

lemma chunk_refs_inj: "\<lbrakk>chunks_ok R cm; idToChunk cm cid = Some r; idToChunk cm cid' = Some r\<rbrakk> \<Longrightarrow> cid' = cid"
  using chunk_okD(2) by blast

text \<open>A new chunk leaves the others as they are.\<close>

lemma create_chunk_ok:
  assumes ok: "chunks_ok R cm" and c: "createChunk io cm = (Ok r, cm1)"
  shows "chunks_ok R cm1 \<and> chunk_pages cm1 = chunk_pages cm \<and> idToChunk cm1 (cfID (cmHeap cm1 r)) = Some r \<and> nextOffset (cmHeap cm1 r) = 8192"
proof -
  from c obtain cid disk where cid: "nextClearBit (chunkIDs cm) 0 = Ok cid" and
    o: "openChunkFile io (chunk_name cid (unat (maxSeq cm + 1))) (chunkSize cm) (cmDisk cm) = (True, disk)"
    by (auto simp: createChunk_def Let_def split: outcome.splits prod.splits bool.splits)
  let ?n = "cmNext cm" and ?id = "of_nat cid :: u32" and ?name = "chunk_name cid (unat (maxSeq cm + 1))"
  let ?c = "\<lparr>cfID = ?id, cfSeq = maxSeq cm + 1, cfName = ?name, cfCapacity = chunkSize cm, nextOffset = int ChunkHeaderSize, pagePosToLen = (\<lambda>_. None), cfRemoved = {}\<rparr>"
  have r: "r = ?n" and cm1: "cm1 = cm\<lparr>cmDisk := disk, cmHeap := (cmHeap cm)(?n := ?c), cmNext := Suc ?n, cmChunks := cmChunks cm @ [?n], lastChunk := Some ?n,
      maxSeq := maxSeq cm + 1, chunkIDs := insert cid (chunkIDs cm), idToChunk := (idToChunk cm)(?id \<mapsto> ?n), seqToID := (seqToID cm)(maxSeq cm + 1 \<mapsto> ?id)\<rparr>"
    using c cid o by (auto simp: createChunk_def Let_def)
  have fresh: "cid \<le> 67108863" "cid \<notin> chunkIDs cm" using next_clear [OF cid] by (simp_all add: MaxChunkID_def)
  then have uid: "unat ?id = cid" "?id \<le> MaxChunkID" by (simp_all add: MaxChunkID_def word_le_nat_alt)
  have new: "idToChunk cm ?id = None"
  proof (rule ccontr)
    assume "idToChunk cm ?id \<noteq> None"
    then obtain r' where "idToChunk cm ?id = Some r'" by blast
    from chunk_okD(1) [OF ok this] show False using fresh(2) uid(1) by (simp add: chunk_ok_def Let_def)
  qed
  have d: "disk x = cmDisk cm x" if "cmDisk cm x \<noteq> None" for x using o that by (auto simp: openChunkFile_def split: if_splits option.splits)
  have dn: "disk ?name \<noteq> None" using o by (auto simp: openChunkFile_def split: if_splits option.splits)
  have old: "r' \<noteq> ?n \<and> cmHeap cm1 r' = cmHeap cm r' \<and> chunk_bytes cm1 r' = chunk_bytes cm r'" if "idToChunk cm k = Some r'" for k r'
    using chunk_okD [OF ok that] d [of "cfName (cmHeap cm r')"] by (auto simp: cm1 chunk_bytes_def chunk_ok_def Let_def)
  have "chunk_ok R cm1 k r'" if "idToChunk cm1 k = Some r'" for k r'
  proof (cases "k = ?id")
    case True
    then show ?thesis using that uid dn ok by (auto simp: cm1 chunk_ok_def chunks_ok_def Let_def ChunkHeaderSize_def)
  next
    case False
    then have k: "idToChunk cm k = Some r'" using that by (simp add: cm1)
    show ?thesis using chunk_okD(1) [OF ok k] old [OF k] d [of "cfName (cmHeap cm r')"] by (auto simp: chunk_ok_def Let_def) (simp_all add: cm1)
  qed
  moreover have "\<exists>r. idToChunk cm1 (posChunkID p) = Some r \<and> 8192 \<le> pos_off p \<and> 0 < n \<and> int (pos_off p + n) \<le> nextOffset (cmHeap cm1 r)" if "R p = Some n" for p n
  proof -
    from that ok obtain r' where "idToChunk cm (posChunkID p) = Some r'" "8192 \<le> pos_off p" "0 < n" "int (pos_off p + n) \<le> nextOffset (cmHeap cm r')"
      unfolding chunks_ok_def by blast
    then show ?thesis using old [of "posChunkID p" r'] new by (intro exI [of _ r']) (auto simp: cm1)
  qed
  moreover have "\<not> cmClosed cm1" "chunkSize cm1 \<le> 4294967295" "lastChunk cm1 = Some ?n" "idToChunk cm1 ?id = Some ?n" "cmHeap cm1 ?n = ?c"
    using ok by (simp_all add: chunks_ok_def cm1)
  ultimately have "chunks_ok R cm1" using ok unfolding chunks_ok_def by simp
  moreover have "chunk_pages cm1 p = chunk_pages cm p" for p
  proof -
    have i: "idToChunk cm1 = (idToChunk cm)(?id \<mapsto> ?n)" "pagePosToLen (cmHeap cm1 ?n) = (\<lambda>_. None)" by (simp_all add: cm1)
    show ?thesis using old [of "posChunkID p"] new i(2) by (cases "posChunkID p = ?id") (auto simp: chunk_pages_def i(1) split: option.split)
  qed
  ultimately show ?thesis by (auto simp: r cm1 ChunkHeaderSize_def)
qed

lemma encode_position:
  assumes "c \<le> MaxChunkID" "EncodeChunkPosition c off ty = res"
  shows "\<exists>p. res = Ok p \<and> posChunkID p = c \<and> posFileOffset p = off"
  using chunk_position_parts [of c off ty] assms by auto

lemma reserve_ok:
  assumes ok: "chunks_ok R cm" and r: "idToChunk cm (cfID (cmHeap cm r)) = Some r" and off: "off = of_int (nextOffset (cmHeap cm r))"
    and sz: "0 < sz" "nextOffset (cmHeap cm r) + sz \<le> 4294967295" and res: "reserve r off sz ty cm = (res, cm1)"
  shows "\<exists>p. res = Ok p \<and> R p = None \<and> chunks_ok (R(p \<mapsto> nat sz)) cm1 \<and> chunk_pages cm1 = chunk_pages cm"
proof -
  let ?c = "cmHeap cm r" and ?no = "nextOffset (cmHeap cm r)"
  note c = chunk_okD(1) [OF ok r]
  then have b: "cfID ?c \<le> MaxChunkID" "8192 \<le> ?no" by (simp_all add: chunk_ok_def Let_def)
  obtain p where e: "EncodeChunkPosition (cfID ?c) off ty = Ok p" "posChunkID p = cfID ?c" "posFileOffset p = off" using encode_position [OF b(1) refl] by blast
  have "?no < 4294967296" using sz by simp
  then have po: "pos_off p = nat ?no" using e(3) off b(2) by (simp add: unat_eq_nat_uint uint_word_of_int)
  have uo: "int (unat off) = ?no" using po e(3) b(2) by (simp del: of_nat_unat)
  have cm1: "res = Ok p" "cm1 = set_chunk r (?c\<lparr>nextOffset := ?no + sz\<rparr>) cm" using res e(1) unfolding reserve_def uo by auto
  have same: "idToChunk cm1 = idToChunk cm" "cmDisk cm1 = cmDisk cm" "chunk_bytes cm1 = chunk_bytes cm" "lastChunk cm1 = lastChunk cm" "chunkIDs cm1 = chunkIDs cm"
    "cmNext cm1 = cmNext cm" "cmClosed cm1 = cmClosed cm" "chunkSize cm1 = chunkSize cm" "cfID (cmHeap cm1 x) = cfID (cmHeap cm x)"
    "pagePosToLen (cmHeap cm1 x) = pagePosToLen (cmHeap cm x)" "cfName (cmHeap cm1 x) = cfName (cmHeap cm x)" "cfSeq (cmHeap cm1 x) = cfSeq (cmHeap cm x)"
    "cfCapacity (cmHeap cm1 x) = cfCapacity (cmHeap cm x)" "nextOffset (cmHeap cm1 x) = (if x = r then ?no + sz else nextOffset (cmHeap cm x))" for x
    by (auto simp: cm1(2) set_chunk_def chunk_bytes_def fun_eq_iff split: option.splits)
  have below: "q \<noteq> p \<and> pos_off q + m \<le> pos_off p" if "R q = Some m" "posChunkID q = posChunkID p" for q m
  proof -
    from that ok r e(2) have "int (pos_off q + m) \<le> ?no" "0 < m" unfolding chunks_ok_def by (metis option.inject)+
    moreover from this have "int (pos_off q + m) \<le> int (pos_off p)" unfolding e(3) uo by simp
    ultimately show ?thesis unfolding of_nat_le_iff by auto
  qed
  then have new: "R p = None" by (cases "R p") auto
  have "chunk_ok (R(p \<mapsto> nat sz)) cm1 k x" if "idToChunk cm1 k = Some x" for k x
  proof -
    have k: "chunk_ok R cm k x" using chunk_okD(1) [OF ok] that same(1) by simp
    have "nextOffset (cmHeap cm1 x) \<le> 4294967295" "8192 \<le> nextOffset (cmHeap cm1 x)" using k sz b(2) by (simp_all add: same chunk_ok_def Let_def)
    moreover have "pagePosToLen (cmHeap cm x) p = None" using k new unfolding chunk_ok_def Let_def by (metis not_None_eq option.distinct(1))
    ultimately show ?thesis using k unfolding chunk_ok_def Let_def same by auto
  qed
  moreover have "\<exists>x. idToChunk cm1 (posChunkID q) = Some x \<and> 8192 \<le> pos_off q \<and> 0 < n \<and> int (pos_off q + n) \<le> nextOffset (cmHeap cm1 x)" if "(R(p \<mapsto> nat sz)) q = Some n" for q n
  proof (cases "q = p")
    case True
    then show ?thesis using that r e(2) po b(2) sz(1) by (auto simp: same)
  next
    case False
    then have "R q = Some n" using that by simp
    then obtain x where "idToChunk cm (posChunkID q) = Some x" "8192 \<le> pos_off q" "0 < n" "int (pos_off q + n) \<le> nextOffset (cmHeap cm x)"
      using ok unfolding chunks_ok_def by blast
    then show ?thesis using sz(1) by (intro exI [of _ x]) (auto simp: same)
  qed
  moreover have "pos_off a + n \<le> pos_off b \<or> pos_off b + m \<le> pos_off a"
    if "(R(p \<mapsto> nat sz)) a = Some n" "(R(p \<mapsto> nat sz)) b = Some m" "a \<noteq> b" "posChunkID a = posChunkID b" for a b n m
  proof (cases "a = p \<or> b = p")
    case True
    then show ?thesis using that below [of a n] below [of b m] by (auto split: if_splits)
  next
    case False
    then show ?thesis using that ok unfolding chunks_ok_def by (metis fun_upd_other)
  qed
  moreover have "\<not> cmClosed cm1" "chunkSize cm1 \<le> 4294967295" using ok unfolding chunks_ok_def same by blast+
  moreover have "idToChunk cm1 (cfID (cmHeap cm1 x)) = Some x" if "lastChunk cm1 = Some x" for x using ok that unfolding chunks_ok_def same by blast
  ultimately have "chunks_ok (R(p \<mapsto> nat sz)) cm1" unfolding chunks_ok_def by (intro conjI allI impI)
  moreover have "chunk_pages cm1 = chunk_pages cm" by (simp add: fun_eq_iff chunk_pages_def same split: option.split)
  ultimately show ?thesis using cm1(1) new by blast
qed

lemma create_failed: "createChunk io cm = (res, cm1) \<Longrightarrow> \<not> is_ok res \<Longrightarrow> cm1 = cm"
  by (auto simp: createChunk_def openChunkFile_def Let_def split: outcome.splits if_splits option.splits)

lemma allocate_ok:
  assumes ok: "chunks_ok R cm" and a: "chunkAllocate io sz ty cm = (res, cm1)"
  shows "(\<exists>p. res = Ok p \<and> R p = None \<and> chunks_ok (R(p \<mapsto> nat sz)) cm1 \<and> chunk_pages cm1 = chunk_pages cm) \<or> \<not> is_ok res \<and> cm1 = cm"
proof -
  define fresh where "fresh = (case createChunk io cm of (Ok n, cm1) \<Rightarrow> reserve n (of_nat ChunkHeaderSize) sz ty cm1 | (Err e, cm1) \<Rightarrow> (Err e, cm1) | (Panic, cm1) \<Rightarrow> (Panic, cm1))"
  have f: "?thesis" if "fresh = (res, cm1)" "60 \<le> sz" "sz \<le> 4100"
  proof (cases "\<exists>n cm2. createChunk io cm = (Ok n, cm2)")
    case True
    then obtain n cm2 where c: "createChunk io cm = (Ok n, cm2)" by blast
    note k = create_chunk_ok [OF ok c]
    have "reserve n (of_int (nextOffset (cmHeap cm2 n))) sz ty cm2 = (res, cm1)" using that c k by (simp add: fresh_def ChunkHeaderSize_def)
    from reserve_ok [OF _ _ refl _ _ this, of R] show ?thesis using k that by auto
  next
    case False
    then show ?thesis using that(1) create_failed [of io cm] by (auto simp: fresh_def split: prod.splits outcome.splits)
  qed
  show ?thesis
  proof (cases "lastChunk cm")
    case None
    then show ?thesis using a f by (auto simp: chunkAllocate_def fresh_def frame_consts split: if_splits)
  next
    case (Some r)
    then have r: "idToChunk cm (cfID (cmHeap cm r)) = Some r" using ok by (simp add: chunks_ok_def)
    have cap: "cfCapacity (cmHeap cm r) \<le> 4294967295" using chunk_okD(1) [OF ok r] by (simp add: chunk_ok_def Let_def)
    show ?thesis
    proof (cases "cmClosed cm \<or> sz < 60 \<or> 4100 < sz \<or> \<not> known_type ty")
      case True
      then have "\<not> is_ok res \<and> cm1 = cm" using a by (auto simp: chunkAllocate_def frame_consts split: if_splits)
      then show ?thesis by blast
    next
      case False
      show ?thesis
      proof (cases "nextOffset (cmHeap cm r) + sz \<le> cfCapacity (cmHeap cm r)")
        case True
        then have "reserve r (of_int (nextOffset (cmHeap cm r))) sz ty cm = (res, cm1)" using a False Some by (simp add: chunkAllocate_def frame_consts)
        from reserve_ok [OF ok r refl _ _ this] show ?thesis using True cap False by auto
      next
        case no: False
        then show ?thesis using a f False Some by (simp add: chunkAllocate_def frame_consts fresh_def)
      qed
    qed
  qed
qed

lemma chunk_write_WriteAt: "\<exists>ds. chunk_write io off d f = (io = IoOk, WriteAt off ds f) \<and> length ds \<le> length d \<and> (io = IoOk \<longrightarrow> ds = d)"
  by (cases io) auto

text \<open>Writing bytes in the place reserved for a position leaves what the other pages have.\<close>

lemma store_bytes:
  assumes ok: "chunks_ok R cm" and p: "R p = Some n" "length ds \<le> n" and r: "idToChunk cm (posChunkID p) = Some r"
    and m1: "cm1 = cm\<lparr>cmDisk := (cmDisk cm)(cfName (cmHeap cm r) \<mapsto> WriteAt (pos_off p) ds (chunk_bytes cm r))\<rparr>"
  shows "chunks_ok R cm1 \<and> (\<forall>q. q \<noteq> p \<longrightarrow> chunk_pages cm1 q = chunk_pages cm q) \<and> pos_off p + length ds \<le> length (chunk_bytes cm1 r) \<and>
    field (pos_off p) (length ds) (chunk_bytes cm1 r) = ds"
proof -
  have same: "idToChunk cm1 = idToChunk cm" "cmHeap cm1 = cmHeap cm" "chunkIDs cm1 = chunkIDs cm" "cmNext cm1 = cmNext cm" "lastChunk cm1 = lastChunk cm"
    "cmClosed cm1 = cmClosed cm" "chunkSize cm1 = chunkSize cm" by (simp_all add: m1)
  have br: "chunk_bytes cm1 r = WriteAt (pos_off p) ds (chunk_bytes cm r)" by (simp add: m1 chunk_bytes_def)
  have bo: "chunk_bytes cm1 x = chunk_bytes cm x" if "idToChunk cm k = Some x" "x \<noteq> r" for k x
  proof -
    have "k \<noteq> posChunkID p" using that r by auto
    then have "cfName (cmHeap cm x) \<noteq> cfName (cmHeap cm r)" using chunk_okD(4) [OF ok that(1)] chunk_okD(4) [OF ok r] chunk_name_inj by metis
    then show ?thesis by (simp add: m1 chunk_bytes_def)
  qed
  have len: "length (chunk_bytes cm x) \<le> length (chunk_bytes cm1 x)" if "idToChunk cm k = Some x" for k x
    using bo [OF that] br by (cases "x = r") auto
  have dk: "cmDisk cm1 y \<noteq> None" if "cmDisk cm y \<noteq> None" for y using that by (simp add: m1)
  have "chunk_ok R cm1 k x" if "idToChunk cm k = Some x" for k x
    using chunk_okD(1) [OF ok that] len [OF that] dk unfolding chunk_ok_def Let_def same by (meson order_trans)
  then have "chunks_ok R cm1" using ok unfolding chunks_ok_def same by blast
  moreover have "chunk_pages cm1 q = chunk_pages cm q" if q: "q \<noteq> p" for q
  proof (cases "idToChunk cm (posChunkID q)")
    case (Some x)
    show ?thesis
    proof (cases "x = r \<and> pagePosToLen (cmHeap cm x) q \<noteq> None")
      case True
      then obtain l where l: "pagePosToLen (cmHeap cm r) q = Some l" "x = r" by blast
      then have "posChunkID q = posChunkID p" using chunk_refs_inj [OF ok r] Some by metis
      obtain m where m: "R q = Some m" "l \<le> m" "pos_off q + l \<le> length (chunk_bytes cm r)"
        using chunk_okD(1) [OF ok r] l(1) unfolding chunk_ok_def Let_def by blast
      have "pos_off q + m \<le> pos_off p \<or> pos_off p + n \<le> pos_off q" using ok m(1) p(1) q \<open>posChunkID q = posChunkID p\<close> unfolding chunks_ok_def by blast
      then have "field (pos_off q) l (WriteAt (pos_off p) ds (chunk_bytes cm r)) = field (pos_off q) l (chunk_bytes cm r)"
        using m(2,3) p(2) by (intro WriteAt_other) auto
      then show ?thesis using Some l by (simp add: chunk_pages_def same br)
    next
      case False
      then show ?thesis using Some bo [OF Some] by (cases "x = r") (auto simp: chunk_pages_def same split: option.split)
    qed
  qed (simp add: chunk_pages_def same)
  ultimately show ?thesis using br WriteAt_same [of "pos_off p" ds] by simp
qed

lemma write_page_ok:
  assumes ok: "chunks_ok R cm" and p: "R p = Some n" "length d \<le> n" and w: "chunkWritePage io p d cm = (res, cm1)"
  shows "chunks_ok R cm1 \<and> (\<forall>q. q \<noteq> p \<longrightarrow> chunk_pages cm1 q = chunk_pages cm q) \<and> (if io = IoOk then res = Ok () \<and> chunk_pages cm1 p = Some d else \<not> is_ok res)"
proof -
  obtain r where r: "idToChunk cm (posChunkID p) = Some r" using ok p(1) unfolding chunks_ok_def by blast
  have l: "lookupChunk (posChunkID p) cm = Ok r" using r ok by (simp add: lookupChunk_def chunks_ok_def)
  obtain ds where ds: "chunk_write io (pos_off p) d (chunk_bytes cm r) = (io = IoOk, WriteAt (pos_off p) ds (chunk_bytes cm r))" "length ds \<le> length d" "io = IoOk \<longrightarrow> ds = d"
    using chunk_write_WriteAt by blast
  define cm0 where "cm0 = cm\<lparr>cmDisk := (cmDisk cm)(cfName (cmHeap cm r) \<mapsto> WriteAt (pos_off p) ds (chunk_bytes cm r))\<rparr>"
  have ln: "length ds \<le> n" using ds(2) p(2) by simp
  note st = store_bytes [OF ok p(1) ln r cm0_def]
  show ?thesis
  proof (cases "io = IoOk")
    case False
    then have "res = Err ErrIO" "cm1 = cm0" using w l ds(1) by (auto simp: chunkWritePage_def Let_def cm0_def)
    then show ?thesis using st False by simp
  next
    case True
    let ?c = "cmHeap cm r"
    have cm1: "res = Ok ()" "cm1 = (set_chunk r (?c\<lparr>pagePosToLen := (pagePosToLen ?c)(p \<mapsto> length d)\<rparr>) cm0)\<lparr>writeOps := writeOps cm + 1\<rparr>"
      using w l ds(1) True by (auto simp: chunkWritePage_def Let_def cm0_def set_chunk_def)
    have same: "idToChunk cm1 = idToChunk cm0" "cmDisk cm1 = cmDisk cm0" "chunk_bytes cm1 = chunk_bytes cm0" "lastChunk cm1 = lastChunk cm0" "chunkIDs cm1 = chunkIDs cm0"
      "cmNext cm1 = cmNext cm0" "cmClosed cm1 = cmClosed cm0" "chunkSize cm1 = chunkSize cm0" "cfID (cmHeap cm1 x) = cfID (cmHeap cm0 x)"
      "pagePosToLen (cmHeap cm1 x) = (if x = r then (pagePosToLen (cmHeap cm0 x))(p \<mapsto> length d) else pagePosToLen (cmHeap cm0 x))"
      "cfName (cmHeap cm1 x) = cfName (cmHeap cm0 x)" "cfSeq (cmHeap cm1 x) = cfSeq (cmHeap cm0 x)"
      "cfCapacity (cmHeap cm1 x) = cfCapacity (cmHeap cm0 x)" "nextOffset (cmHeap cm1 x) = nextOffset (cmHeap cm0 x)" for x
      by (auto simp: cm1(2) cm0_def set_chunk_def chunk_bytes_def fun_eq_iff split: option.splits)
    have r0: "idToChunk cm0 (posChunkID p) = Some r" using r by (simp add: cm0_def)
    have "chunk_ok R cm1 k x" if "idToChunk cm0 k = Some x" for k x
    proof -
      have "chunk_ok R cm0 k x" using chunk_okD(1) st that by blast
      moreover have "x = r \<Longrightarrow> k = posChunkID p" using chunk_refs_inj [of R cm0] st that r0 by blast
      ultimately show ?thesis using st p ds(3) True unfolding chunk_ok_def Let_def same by (auto split: if_splits)
    qed
    then have "chunks_ok R cm1" using st unfolding chunks_ok_def same by blast
    moreover have "chunk_pages cm1 q = (if q = p then Some d else chunk_pages cm0 q)" for q
      using r0 st ds(3) True by (auto simp: chunk_pages_def same split: option.split)
    ultimately show ?thesis using st True cm1(1) by auto
  qed
qed

lemma read_page_ok:
  assumes "chunks_ok R cm"
  shows "fst (chunkReadPage IoOk p cm) = (case chunk_pages cm p of Some d \<Rightarrow> Ok d | None \<Rightarrow> (if idToChunk cm (posChunkID p) = None then Err ErrChunkNotFound else Err ErrChunkPageNotFound))"
proof (cases "idToChunk cm (posChunkID p)")
  case (Some r)
  then show ?thesis using chunk_okD(1) [OF assms Some] assms
    by (auto simp: chunkReadPage_def lookupChunk_def chunks_ok_def chunk_pages_def chunk_ok_def Let_def ReadAt_def split: option.split)
qed (use assms in \<open>simp add: chunkReadPage_def lookupChunk_def chunks_ok_def chunk_pages_def\<close>)

lemma chunks_ok_cong:
  assumes "idToChunk cm1 = idToChunk cm" "cmDisk cm1 = cmDisk cm" "lastChunk cm1 = lastChunk cm" "chunkIDs cm1 = chunkIDs cm" "cmNext cm1 = cmNext cm" "cmClosed cm1 = cmClosed cm"
    "chunkSize cm1 = chunkSize cm" "\<And>x. cmHeap cm1 x = cmHeap cm x \<or> (\<exists>rm. cmHeap cm1 x = (cmHeap cm x)\<lparr>cfRemoved := rm\<rparr>)"
  shows "chunks_ok R cm1 = chunks_ok R cm" "chunk_pages cm1 = chunk_pages cm"
proof -
  have f: "cfID (cmHeap cm1 x) = cfID (cmHeap cm x)" "pagePosToLen (cmHeap cm1 x) = pagePosToLen (cmHeap cm x)" "cfName (cmHeap cm1 x) = cfName (cmHeap cm x)"
    "cfSeq (cmHeap cm1 x) = cfSeq (cmHeap cm x)" "cfCapacity (cmHeap cm1 x) = cfCapacity (cmHeap cm x)" "nextOffset (cmHeap cm1 x) = nextOffset (cmHeap cm x)" for x
    using assms(8) [of x] by auto
  have b: "chunk_bytes cm1 x = chunk_bytes cm x" for x by (simp add: chunk_bytes_def f assms)
  show "chunks_ok R cm1 = chunks_ok R cm" unfolding chunks_ok_def chunk_ok_def Let_def f b assms(1-7) ..
  show "chunk_pages cm1 = chunk_pages cm" unfolding chunk_pages_def f b assms(1) ..
qed

lemma read_page_keeps: "chunkReadPage io p cm = (res, cm1) \<Longrightarrow> chunks_ok R cm1 = chunks_ok R cm \<and> chunk_pages cm1 = chunk_pages cm"
  by (intro conjI chunks_ok_cong) (auto simp: chunkReadPage_def split: outcome.splits option.splits if_splits)

lemma free_page_keeps: "chunkFreePage p cm = (res, cm1) \<Longrightarrow> chunks_ok R cm1 = chunks_ok R cm \<and> chunk_pages cm1 = chunk_pages cm"
  by (intro conjI chunks_ok_cong) (auto simp: chunkFreePage_def set_chunk_def Let_def split: outcome.splits if_splits)

interpretation disk_chunks: page_store chunks_ok chunk_pages chunkAllocate chunkWritePage chunkReadPage chunkFreePage
proof (unfold_locales, goal_cases)
  case (1 R s io k ty p s')
  then show ?case using allocate_ok [of R s io k ty] by fastforce
next
  case (2 R s io k ty res s')
  then show ?case using allocate_ok [of R s io k ty] by fastforce
next
  case (3 R s p n d io s')
  then show ?case using write_page_ok [OF 3] by (auto simp: fun_eq_iff split: if_splits)
next
  case (4 R s p n d io res s')
  then show ?case using write_page_ok [OF 4(1-4)] by simp
next
  case (5 R s p n d)
  then show ?case using write_page_ok [OF 5, of IoOk] by (metis prod.collapse)
next
  case (6 R s p)
  then show ?case using read_page_ok [OF 6, of p] by (auto split: option.splits)
next
  case (7 R s io p res s')
  then show ?case using read_page_keeps by blast
next
  case (8 R s p res s')
  then show ?case using free_page_keeps by blast
next
  case (9 R s p)
  then show ?case using chunk_okD(1) [OF 9(1)] unfolding chunk_pages_def chunk_ok_def Let_def by (auto split: option.splits) blast
qed

lemma new_manager_ok: "NewDiskChunkManager disk io k = Ok cm \<Longrightarrow> chunks_ok (\<lambda>_. None) cm"
  by (auto simp: NewDiskChunkManager_def empty_manager_def chunks_ok_def DefaultChunkCapacity_def Let_def split: if_splits)

text \<open>Claim C18. What is written to a chunk file stays readable: after any sequence of reservations, writes to reserved positions,
  reads and frees on a new manager, over any directory and with any failing system calls, reading a position returns the bytes of
  the last write to it, unless that write itself failed. In particular reserved places never overlap, in one chunk or across
  chunks, and a freed page stays readable.\<close>

theorem written_pages_stay:
  assumes "NewDiskChunkManager disk io k = Ok cm"
    "page_run chunkAllocate chunkWritePage chunkReadPage chunkFreePage cmds (cm, \<lambda>_. None, \<lambda>_. None) = Some (cm', R, W)" "W p = Some d"
  shows "fst (chunkReadPage IoOk p cm') = Ok d"
  by (rule disk_chunks.run_reads [OF assms(2) new_manager_ok [OF assms(1)] assms(3)])

lemma next_clear_step: "i \<notin> ids \<Longrightarrow> i \<le> 67108863 \<Longrightarrow> nextClearBit ids i = Ok i"
  by (simp add: nextClearBit.simps [of ids i] MaxChunkID_def)

theorem written_pages_stay_witness:
  "\<exists>cm cm' R W. NewDiskChunkManager (\<lambda>_. None) IoOk 20000 = Ok cm \<and>
     page_run chunkAllocate chunkWritePage chunkReadPage chunkFreePage
       [PAllocate IoOk 60 1, PAllocate IoOk 70 1, PWrite IoOk 528130 (replicate 70 2), PWrite IoOk 524290 (replicate 60 1), PFree 528130]
       (cm, \<lambda>_. None, \<lambda>_. None) = Some (cm', R, W) \<and> W 528130 = Some (replicate 70 2) \<and> fst (chunkReadPage IoOk 528130 cm') = Ok (replicate 70 2)"
proof -
  let ?cmds = "[PAllocate IoOk 60 1, PAllocate IoOk 70 1, PWrite IoOk 528130 (replicate 70 2), PWrite IoOk 524290 (replicate 60 1), PFree 528130]"
  have new: "NewDiskChunkManager (\<lambda>_. None) IoOk 20000 = Ok (empty_manager 20000 (\<lambda>_. None))" by (simp add: NewDiskChunkManager_def)
  have "posChunkID 524290 = 0" "posFileOffset 524290 = 8192" "posChunkID 528130 = 0" "posFileOffset 528130 = 8252" by code_simp+
  note pos = this
  have enc: "EncodeChunkPosition 0 8192 1 = Ok 524290" "EncodeChunkPosition 0 8252 1 = Ok 528130" by code_simp+
  obtain cm' R W where run: "page_run chunkAllocate chunkWritePage chunkReadPage chunkFreePage ?cmds (empty_manager 20000 (\<lambda>_. None), \<lambda>_. None, \<lambda>_. None) = Some (cm', R, W)"
    and w: "W 528130 = Some (replicate 70 2)"
    by (simp add: empty_manager_def chunkAllocate_def createChunk_def next_clear_step openChunkFile_def Let_def reserve_def set_chunk_def frame_consts known_type_def
        ChunkHeaderSize_def chunkWritePage_def lookupChunk_def chunkFreePage_def enc pos)
  from written_pages_stay [OF new run w] show ?thesis using new run w by blast
qed

end
