(* ===== verification/Chunk_Restore.thy ===== *)
theory Chunk_Restore
  imports Chunk_Store
begin

text \<open>
  Closing and reopening a directory of chunk files (\<open>Close\<close> and \<open>RestoreDiskChunkManager\<close> of
  \<open>chunk/disk_chunk_manager.go\<close>): which pages come back, and what the position of the next page is computed from.
\<close>

section \<open>Closing\<close>

text \<open>The conversion \<open>int32(x)\<close>.\<close>

definition to_int32 :: "int \<Rightarrow> int" where
  "to_int32 x = signed_take_bit 31 x"

definition close_header :: "chunk_file \<Rightarrow> chunk_header" where
  "close_header c =
     \<lparr>hID = cfID c, hRootPagePos = 0, hPageCount = to_int32 (int (card (dom (pagePosToLen c)))), hSumOfPageLength = 0,
      hSumOfLivePageLength = int (\<Sum>p\<in>dom (pagePosToLen c) - cfRemoved c. the (pagePosToLen c p)), hPagePositionAndLengthOffset = 0,
      hBlockSize = ChunkBlockSize, hFormatVersion = 1, hRemovedPageOffset = 0, hRemovedPageCount = to_int32 (int (card (cfRemoved c))),
      hLastTransactionID = 0, hMapSize = 0\<rparr>"

text \<open>The results of the two writes and of the close of a chunk are given per chunk; the first error is returned.\<close>

fun close_chunks :: "(nat \<Rightarrow> io \<times> io \<times> io) \<Rightarrow> nat list \<Rightarrow> chunk_manager \<Rightarrow> unit outcome \<Rightarrow> unit outcome \<times> chunk_manager" where
  "close_chunks io [] cm e = (e, cm)"
| "close_chunks io (r # rs) cm e =
     (case io r of (io1, io2, io3) \<Rightarrow>
      case writeHeader io1 io2 (close_header (cmHeap cm r)) (chunk_bytes cm r) of (res, f) \<Rightarrow>
        let e1 = (if is_ok e then res else e); e2 = (if is_ok e1 \<and> io3 \<noteq> IoOk then Err ErrIO else e1)
        in close_chunks io rs (cm\<lparr>cmDisk := (cmDisk cm)(cfName (cmHeap cm r) \<mapsto> f)\<rparr>) e2)"

definition chunkClose :: "(nat \<Rightarrow> io \<times> io \<times> io) \<Rightarrow> chunk_manager \<Rightarrow> unit outcome \<times> chunk_manager" where
  "chunkClose io cm = (if cmClosed cm then (Ok (), cm) else close_chunks io (cmChunks cm) (cm\<lparr>cmClosed := True\<rparr>) (Ok ()))"

section \<open>Reopening\<close>

record file_entry =
  feName :: string
  feChunkID :: u32
  feSeq :: u64

text \<open>The files of the directory in the order of the listing: empty files are removed, of several files for one chunk the one with
  the highest sequence number is kept and the others are removed.\<close>

fun restore_entries :: "string list \<Rightarrow> (string \<Rightarrow> bytes option) \<Rightarrow> (u32 \<Rightarrow> file_entry option) \<Rightarrow> (u32 \<Rightarrow> file_entry option) \<times> (string \<Rightarrow> bytes option)" where
  "restore_entries [] disk best = (best, disk)"
| "restore_entries (name # names) disk best = (case disk name of
     None \<Rightarrow> restore_entries names disk best
   | Some f \<Rightarrow>
       (if f = [] then restore_entries names (disk(name := None)) best
        else case parseChunkFilename name of
          Ok (cid, s) \<Rightarrow>
            let fe = \<lparr>feName = name, feChunkID = cid, feSeq = s\<rparr>
            in (case best cid of
                 Some old \<Rightarrow> if feSeq old < s then restore_entries names (disk(feName old := None)) (best(cid \<mapsto> fe))
                             else restore_entries names (disk(name := None)) best
               | None \<Rightarrow> restore_entries names disk (best(cid \<mapsto> fe)))
        | _ \<Rightarrow> restore_entries names disk best))"

text \<open>A chunk object for a file whose header is readable.\<close>

definition restore_chunk :: "file_entry \<Rightarrow> bytes \<Rightarrow> chunk_file option" where
  "restore_chunk fe f =
     (let c = \<lparr>cfID = feChunkID fe, cfSeq = feSeq fe, cfName = feName fe, cfCapacity = int (length f), nextOffset = int ChunkHeaderSize,
               pagePosToLen = (\<lambda>_. None), cfRemoved = {}\<rparr>
      in case readHeader f of
           Ok h \<Rightarrow>
             let pageLens = scanPageFrames c f
             in Some (if pageLens = (\<lambda>_. None) then c
                      else c\<lparr>pagePosToLen := pageLens, nextOffset := int ChunkHeaderSize + int (card (dom pageLens)) * int MaxDiskPageSize\<rparr>)
         | _ \<Rightarrow> None)"

definition adopt :: "file_entry \<Rightarrow> chunk_manager \<Rightarrow> chunk_manager" where
  "adopt fe cm = (case cmDisk cm (feName fe) of
     None \<Rightarrow> cm
   | Some f \<Rightarrow> (case restore_chunk fe f of
       None \<Rightarrow> cm
     | Some c \<Rightarrow>
         let r = cmNext cm
         in cm\<lparr>cmHeap := (cmHeap cm)(r := c), cmNext := Suc r, cmChunks := cmChunks cm @ [r], lastChunk := Some r, idToChunk := (idToChunk cm)(feChunkID fe \<mapsto> r),
               seqToID := (seqToID cm)(feSeq fe \<mapsto> feChunkID fe), chunkIDs := insert (unat (feChunkID fe)) (chunkIDs cm)\<rparr>))"

text \<open>The entries that were kept, as the iteration over the map gives them, are sorted by sequence number; the iteration is the
  argument \<open>ids\<close>.\<close>

definition RestoreDiskChunkManager :: "string list \<Rightarrow> u32 list \<Rightarrow> (string \<Rightarrow> bytes option) \<Rightarrow> io \<Rightarrow> int \<Rightarrow> chunk_manager outcome" where
  "RestoreDiskChunkManager names ids disk mkdir sz =
     (case restore_entries names disk (\<lambda>_. None) of (best, disk1) \<Rightarrow>
       let entries = sort_key feSeq (map (\<lambda>i. the (best i)) (filter (\<lambda>i. best i \<noteq> None) ids))
       in if entries = [] then NewDiskChunkManager disk1 mkdir sz
          else let sz1 = (if sz \<le> 0 then DefaultChunkCapacity else sz);
                   cm = fold adopt entries ((empty_manager sz1 disk1)\<lparr>maxSeq := feSeq (last entries)\<rparr>)
               in if cmChunks cm = [] then NewDiskChunkManager disk1 mkdir sz1 else Ok cm)"

section \<open>Which pages come back\<close>

lemma scan_keeps: "m p = Some MaxDiskPageSize \<Longrightarrow> scan_frames cid cap f off miss m p = Some MaxDiskPageSize"
proof (induction cid cap f off miss m rule: scan_frames.induct)
  case (1 cid cap f off miss m)
  show ?case using 1 by (subst scan_frames.simps) (auto split: outcome.split)
qed

lemma scan_finds:
  assumes "\<forall>j<n. good_frame (frame_at f j)" "int (frame_off n) \<le> cap" "frame_off n \<le> length f" "cid \<le> MaxChunkID" "k \<le> n" "j < k"
  shows "scan_frames cid cap f (frame_off 0) 0 (\<lambda>_. None) (frame_pos cid f j) = Some MaxDiskPageSize"
proof -
  have "\<exists>m. scan_frames cid cap f (frame_off 0) 0 (\<lambda>_. None) = scan_frames cid cap f (frame_off k) 0 m \<and> (\<forall>j<k. m (frame_pos cid f j) = Some MaxDiskPageSize)"
    using assms(5)
  proof (induction k)
    case (Suc k)
    then obtain m where m: "scan_frames cid cap f (frame_off 0) 0 (\<lambda>_. None) = scan_frames cid cap f (frame_off k) 0 m" "\<forall>j<k. m (frame_pos cid f j) = Some MaxDiskPageSize" by auto
    have "frame_off (Suc k) \<le> frame_off n" using Suc.prems by (simp add: frame_off_def)
    then have "scan_frames cid cap f (frame_off k) 0 m = scan_frames cid cap f (frame_off (Suc k)) 0 (m(frame_pos cid f k \<mapsto> 4100))"
      using scan_step [of k cap f cid 0 m] assms Suc.prems by simp
    then show ?case using m by (intro exI [of _ "m(frame_pos cid f k \<mapsto> 4100)"] conjI) (simp del: fun_upd_apply, simp add: MaxDiskPageSize_def less_Suc_eq)
  qed auto
  then show ?thesis using assms(6) scan_keeps by metis
qed

lemma frame_off_0: "frame_off 0 = ChunkHeaderSize"
  by (simp add: frame_off_def ChunkHeaderSize_def)

lemma frame_pos_parts:
  assumes "cid \<le> MaxChunkID" "frame_off i < 4294967296"
  shows "posChunkID (frame_pos cid f i) = cid" "pos_off (frame_pos cid f i) = frame_off i"
  using chunk_position_parts [of cid "of_nat (frame_off i)" "frame_at f i ! 30"] assms by (auto simp: frame_pos_def)

lemma restored_chunk_pages:
  assumes "readHeader f = Ok h" "\<forall>j<n. good_frame (frame_at f j)" "frame_off n \<le> length f" "feChunkID fe \<le> MaxChunkID" "j < n"
  shows "\<exists>c. restore_chunk fe f = Some c \<and> cfID c = feChunkID fe \<and> cfName c = feName fe \<and> pagePosToLen c (frame_pos (feChunkID fe) f j) = Some MaxDiskPageSize"
proof -
  let ?c = "\<lparr>cfID = feChunkID fe, cfSeq = feSeq fe, cfName = feName fe, cfCapacity = int (length f), nextOffset = int ChunkHeaderSize, pagePosToLen = (\<lambda>_. None), cfRemoved = {}\<rparr>"
  have "scanPageFrames ?c f (frame_pos (feChunkID fe) f j) = Some MaxDiskPageSize"
    using scan_finds [OF assms(2) _ assms(3,4) order_refl assms(5), of "int (length f)"] assms(3) by (simp add: scanPageFrames_def frame_off_0)
  moreover from this have "scanPageFrames ?c f \<noteq> (\<lambda>_. None)" by (metis option.distinct(1))
  ultimately show ?thesis using assms(1) by (simp add: restore_chunk_def Let_def)
qed

text \<open>A directory as the manager leaves it: no file is empty, every file is a chunk, no chunk has two files.\<close>

definition chunk_dir :: "string list \<Rightarrow> (string \<Rightarrow> bytes option) \<Rightarrow> bool" where
  "chunk_dir names disk \<longleftrightarrow> distinct names \<and> (\<forall>n\<in>set names. \<exists>f i s. disk n = Some f \<and> f \<noteq> [] \<and> parseChunkFilename n = Ok (i, s)) \<and>
     (\<forall>n\<in>set names. \<forall>m\<in>set names. \<forall>i s t. parseChunkFilename n = Ok (i, s) \<longrightarrow> parseChunkFilename m = Ok (i, t) \<longrightarrow> n = m)"

lemma restore_entries_dir:
  assumes "chunk_dir names disk" "\<forall>n\<in>set names. \<forall>i s. parseChunkFilename n = Ok (i, s) \<longrightarrow> best i = None"
  shows "\<exists>best'. restore_entries names disk best = (best', disk) \<and>
    (\<forall>i fe. best' i = Some fe \<longleftrightarrow> best i = Some fe \<or> feName fe \<in> set names \<and> parseChunkFilename (feName fe) = Ok (i, feSeq fe) \<and> feChunkID fe = i)"
  using assms
proof (induction names arbitrary: best)
  case (Cons n names)
  obtain f i s where n: "disk n = Some f" "f \<noteq> []" "parseChunkFilename n = Ok (i, s)" using Cons.prems(1) by (auto simp: chunk_dir_def)
  let ?fe = "\<lparr>feName = n, feChunkID = i, feSeq = s\<rparr>"
  have b: "best i = None" using Cons.prems(2) n(3) by simp
  have d: "chunk_dir names disk" using Cons.prems(1) by (simp add: chunk_dir_def)
  have other: "j \<noteq> i" if "m \<in> set names" "parseChunkFilename m = Ok (j, t)" for m j t
    using Cons.prems(1) n(3) that unfolding chunk_dir_def by (metis distinct.simps(2) list.set_intros(1,2))
  have fresh: "\<forall>m\<in>set names. \<forall>j t. parseChunkFilename m = Ok (j, t) \<longrightarrow> (best(i \<mapsto> ?fe)) j = None"
    using Cons.prems(2) other by (metis fun_upd_apply list.set_intros(2))
  from Cons.IH [OF d fresh] obtain best' where r: "restore_entries names disk (best(i \<mapsto> ?fe)) = (best', disk)"
    "\<forall>j fe. best' j = Some fe \<longleftrightarrow> (best(i \<mapsto> ?fe)) j = Some fe \<or> feName fe \<in> set names \<and> parseChunkFilename (feName fe) = Ok (j, feSeq fe) \<and> feChunkID fe = j" by blast
  have "(best(i \<mapsto> ?fe)) j = Some fe \<longleftrightarrow> best j = Some fe \<or> feName fe = n \<and> parseChunkFilename (feName fe) = Ok (j, feSeq fe) \<and> feChunkID fe = j" for j fe
    using b n(3) by (cases fe) auto
  then show ?case using r n b by (auto simp: Let_def simp del: fun_upd_apply)
qed simp

lemma adopt_disk [simp]: "cmDisk (adopt fe cm) = cmDisk cm" "cmClosed (adopt fe cm) = cmClosed cm" "cmNext cm \<le> cmNext (adopt fe cm)"
  by (auto simp: adopt_def Let_def split: option.split)

lemma fold_adopt_disk [simp]: "cmDisk (fold adopt es cm) = cmDisk cm" "cmClosed (fold adopt es cm) = cmClosed cm"
  by (induction es arbitrary: cm) simp_all

lemma adopt_same:
  "\<lbrakk>cmDisk m (feName fe) = Some f; restore_chunk fe f = Some c\<rbrakk> \<Longrightarrow> idToChunk (adopt fe m) (feChunkID fe) = Some (cmNext m) \<and>
     cmNext m < cmNext (adopt fe m) \<and> cmHeap (adopt fe m) (cmNext m) = c \<and> cmChunks (adopt fe m) \<noteq> []"
  by (simp add: adopt_def Let_def)

lemma adopt_other:
  "\<lbrakk>feChunkID e \<noteq> i; idToChunk m i = Some r; r < cmNext m; cmHeap m r = c; cmChunks m \<noteq> []\<rbrakk> \<Longrightarrow> idToChunk (adopt e m) i = Some r \<and>
     r < cmNext (adopt e m) \<and> cmHeap (adopt e m) r = c \<and> cmChunks (adopt e m) \<noteq> []"
  by (auto simp: adopt_def Let_def split: option.split)

lemma adopt_all:
  assumes "distinct (map feChunkID es)" "fe \<in> set es" "cmDisk cm (feName fe) = Some f" "restore_chunk fe f = Some c"
  shows "\<exists>r. idToChunk (fold adopt es cm) (feChunkID fe) = Some r \<and> r < cmNext (fold adopt es cm) \<and> cmHeap (fold adopt es cm) r = c \<and> cmChunks (fold adopt es cm) \<noteq> []"
  using assms(1,2)
proof (induction es rule: rev_induct)
  case (snoc e es)
  let ?m = "fold adopt es cm"
  show ?case
  proof (cases "e = fe")
    case True
    then show ?thesis using adopt_same [of ?m fe f c] assms(3,4) by auto
  next
    case False
    then obtain r where r: "idToChunk ?m (feChunkID fe) = Some r" "r < cmNext ?m" "cmHeap ?m r = c" "cmChunks ?m \<noteq> []" using snoc by auto
    have "feChunkID e \<noteq> feChunkID fe" using snoc.prems False by auto
    from adopt_other [OF this r] show ?thesis by auto
  qed
qed simp

lemma distinct_map_sort: "distinct (map g xs) \<Longrightarrow> distinct (map g (sort_key f xs))"
  by (simp add: distinct_map)

lemma restore_finds_chunk:
  assumes dir: "chunk_dir names disk" and ids: "distinct ids" "i \<in> set ids" and n: "name \<in> set names" "parseChunkFilename name = Ok (i, s)" "disk name = Some f"
    and c: "restore_chunk \<lparr>feName = name, feChunkID = i, feSeq = s\<rparr> f = Some c"
  shows "\<exists>cm r. RestoreDiskChunkManager names ids disk io sz = Ok cm \<and> idToChunk cm i = Some r \<and> cmHeap cm r = c \<and> cmDisk cm = disk \<and> \<not> cmClosed cm"
proof -
  let ?fe = "\<lparr>feName = name, feChunkID = i, feSeq = s\<rparr>"
  obtain best where b: "restore_entries names disk (\<lambda>_. None) = (best, disk)"
    "\<forall>i fe. best i = Some fe \<longleftrightarrow> feName fe \<in> set names \<and> parseChunkFilename (feName fe) = Ok (i, feSeq fe) \<and> feChunkID fe = i"
    using restore_entries_dir [OF dir, of "\<lambda>_. None"] by auto
  let ?es = "map (\<lambda>i. the (best i)) (filter (\<lambda>i. best i \<noteq> None) ids)"
  let ?s = "sort_key feSeq ?es"
  have key: "feChunkID (the (best j)) = j" if "best j \<noteq> None" for j using b(2) that by (metis option.collapse)
  have "map feChunkID ?es = filter (\<lambda>i. best i \<noteq> None) ids" using key by (induction ids) auto
  then have "distinct (map feChunkID ?es)" using ids(1) by simp
  then have "distinct (map feChunkID ?s)" by (rule distinct_map_sort)
  moreover have bi: "best i = Some ?fe" using b(2) n by simp
  then have "?fe \<in> set ?s" using ids(2) by (auto simp: image_iff intro!: bexI [of _ i])
  moreover have "cmDisk ((empty_manager k disk)\<lparr>maxSeq := q\<rparr>) (feName ?fe) = Some f" for k q using n(3) by (simp add: empty_manager_def)
  ultimately obtain r where r: "idToChunk (fold adopt ?s ((empty_manager k disk)\<lparr>maxSeq := q\<rparr>)) i = Some r \<and> cmHeap (fold adopt ?s ((empty_manager k disk)\<lparr>maxSeq := q\<rparr>)) r = c \<and>
      cmChunks (fold adopt ?s ((empty_manager k disk)\<lparr>maxSeq := q\<rparr>)) \<noteq> []" if "k = (if sz \<le> 0 then DefaultChunkCapacity else sz)" "q = feSeq (last ?s)" for k q
    using adopt_all [OF _ _ _ c] by (metis file_entry.select_convs(2))
  have ne: "?s \<noteq> []" using \<open>?fe \<in> set ?s\<close> by (metis empty_iff empty_set)
  show ?thesis using r [OF refl refl] b(1) ne by (auto simp: RestoreDiskChunkManager_def Let_def empty_manager_def)
qed

lemma serialized_frame_good:
  assumes "length page = 4096" "known_type (page ! 26)" "Serialize (Some page) 4096 = Ok buf"
  shows "good_frame buf" "length buf = 4100"
proof -
  have b: "buf = mem_u32 (CRC32C page) @ page" using full_page_frame [OF assms(1)] assms(3) by simp
  show "length buf = 4100" using assms(1) by (simp add: b)
  have "drop 4 buf = page" "buf ! 30 = page ! 26" by (simp_all add: b nth_append)
  then show "good_frame buf" using assms(2) by (simp add: good_frame_def frame_consts b)
qed


definition sample_header :: chunk_header where
  "sample_header = \<lparr>hID = 0, hRootPagePos = 0, hPageCount = 1, hSumOfPageLength = 0, hSumOfLivePageLength = 4100, hPagePositionAndLengthOffset = 0,
     hBlockSize = 4096, hFormatVersion = 1, hRemovedPageOffset = 0, hRemovedPageCount = 0, hLastTransactionID = 0, hMapSize = 0\<rparr>"

lemma sample_header_fits: "header_fits sample_header"
  by (simp add: sample_header_def header_fits_def i32_def i64_def ChunkBlockSize_def)

lemma write_header_ok: "header_fits h \<Longrightarrow> writeHeader IoOk IoOk h f = (Ok (), snd (writeHeader IoOk IoOk h f))"
  using header_encode_short [of h] by (simp add: writeHeader_def)


section \<open>A gap in the frames\<close>

lemma restore_chunk_scan:
  assumes "readHeader f = Ok h" "scan_frames (feChunkID fe) (int (length f)) f ChunkHeaderSize 0 (\<lambda>_. None) = m" "m \<noteq> (\<lambda>_. None)"
  shows "restore_chunk fe f = Some \<lparr>cfID = feChunkID fe, cfSeq = feSeq fe, cfName = feName fe, cfCapacity = int (length f),
    nextOffset = 8192 + 4100 * int (card (dom m)), pagePosToLen = m, cfRemoved = {}\<rparr>"
  using assms by (simp add: restore_chunk_def Let_def scanPageFrames_def MaxDiskPageSize_def) (simp add: ChunkHeaderSize_def)

lemma dom_fold_frames: "dom (fold (\<lambda>j m. m(g j \<mapsto> v)) js m) = g ` set js \<union> dom m"
  by (induction js arbitrary: m) auto

text \<open>Claim C39. A damaged page makes the manager hand out live places: when the first frame of a chunk does not verify and all
  others do, the place of the next page is computed from the number of frames found, so after a restore it is the place of the last
  live page. The next page of that type gets the very position of a page that is still in use.\<close>

theorem restore_reissues_live_position:
  assumes "readHeader f = Ok h" "\<not> good_frame (frame_at f 0)" "\<forall>j. 1 \<le> j \<and> j \<le> n \<longrightarrow> good_frame (frame_at f j)" "1 \<le> n"
    "frame_off (Suc n) \<le> length f" "length f < frame_off (Suc (Suc n))" "length f \<le> 4294967295" "feChunkID fe \<le> MaxChunkID" "restore_chunk fe f = Some c"
    "lastChunk cm = Some r" "cmHeap cm r = c" "\<not> cmClosed cm"
  shows "pagePosToLen c (frame_pos (feChunkID fe) f n) = Some MaxDiskPageSize \<and>
    fst (chunkAllocate io (int MaxDiskPageSize) (frame_at f n ! 30) cm) = Ok (frame_pos (feChunkID fe) f n)"
proof -
  let ?id = "feChunkID fe" and ?p = "frame_pos (feChunkID fe) f"
  have off: "frame_off k + 4100 = frame_off (Suc k)" for k by (simp add: frame_off_def)
  have le: "frame_off 1 \<le> frame_off (Suc n)" using assms(4) by (simp add: frame_off_def)
  have "scan_frames ?id (int (length f)) f (frame_off 0) 0 (\<lambda>_. None) = scan_frames ?id (int (length f)) f (frame_off 1) 1 (\<lambda>_. None)"
    using scan_step [of 0 "int (length f)" f ?id 0 "\<lambda>_. None"] assms(2,5,8) le by simp
  also have "\<dots> = fold (\<lambda>j m. m(?p j \<mapsto> 4100)) [1..<Suc n] (\<lambda>_. None)"
    by (rule scan_good_run) (use assms in \<open>auto simp: less_Suc_eq_le\<close>)
  finally have scan: "scan_frames ?id (int (length f)) f ChunkHeaderSize 0 (\<lambda>_. None) = fold (\<lambda>j m. m(?p j \<mapsto> 4100)) [1..<Suc n] (\<lambda>_. None)" by (simp add: frame_off_0)
  define m where "m = fold (\<lambda>j m. m(?p j \<mapsto> 4100)) [1..<Suc n] (\<lambda>_. None :: nat option)"
  have small: "frame_off j < 4294967296" if "j \<le> n" for j
  proof -
    have "frame_off j + 4100 \<le> frame_off (Suc n)" using that by (simp add: frame_off_def)
    then show ?thesis using assms(5,7) by simp
  qed
  have "inj_on ?p {1..n}"
  proof (rule inj_onI)
    fix a b
    assume "a \<in> {1..n}" "b \<in> {1..n}" "?p a = ?p b"
    then have "frame_off a = frame_off b" using frame_pos_parts(2) [OF assms(8) small] by (metis atLeastAtMost_iff)
    then show "a = b" by (simp add: frame_off_def)
  qed
  then have card: "card (dom m) = n" by (simp add: m_def dom_fold_frames card_image atLeastLessThanSuc_atLeastAtMost del: upt_Suc)
  have mn: "m (?p n) = Some 4100" using assms(4) by (simp add: m_def)
  then have "m \<noteq> (\<lambda>_. None)" by (metis option.distinct(1))
  then have c: "pagePosToLen c = m" "nextOffset c = int (frame_off n)" "cfCapacity c = int (length f)" "cfID c = ?id"
    using restore_chunk_scan [OF assms(1) scan [folded m_def]] assms(9) card by (auto simp: frame_off_def)
  have ty: "known_type (frame_at f n ! 30)" using assms(3,4) by (simp add: good_frame_def frame_consts)
  have "nextOffset c + 4100 \<le> cfCapacity c" using c off [of n] assms(5) by (simp flip: of_nat_add)
  then have "fst (chunkAllocate io 4100 (frame_at f n ! 30) cm) = fst (reserve r (of_int (nextOffset c)) 4100 (frame_at f n ! 30) cm)"
    using assms(10-12) ty by (simp add: chunkAllocate_def frame_consts)
  also have "\<dots> = EncodeChunkPosition ?id (of_nat (frame_off n)) (frame_at f n ! 30)"
    using assms(11) c(2,4) by (simp add: reserve_def split: outcome.split)
  also have "\<dots> = Ok (?p n)" using assms(8) by (simp add: frame_pos_def EncodeChunkPosition_def)
  finally show ?thesis using mn c(1) by (simp add: MaxDiskPageSize_def)
qed

theorem restore_reissues_live_position_witness:
  "let page = replicate 4096 0; buf = mem_u32 (CRC32C page) @ page; bad = mem_u32 (CRC32C page) @ page[100 := 7];
       g = snd (writeHeader IoOk IoOk sample_header (replicate 8192 0 @ bad @ buf)); fe = \<lparr>feName = chunk_name 0 1, feChunkID = 0, feSeq = 1\<rparr>
   in \<exists>c. restore_chunk fe g = Some c \<and> pagePosToLen c (frame_pos 0 g 1) = Some MaxDiskPageSize \<and>
     fst (chunkAllocate IoOk (int MaxDiskPageSize) (frame_at g 1 ! 30) ((empty_manager 20000 (\<lambda>_. None))\<lparr>lastChunk := Some 0, cmHeap := (\<lambda>_. c)\<rparr>)) = Ok (frame_pos 0 g 1)"
proof -
  let ?page = "replicate 4096 (0 :: byte)"
  let ?buf = "mem_u32 (CRC32C ?page) @ ?page" and ?bad = "mem_u32 (CRC32C ?page) @ ?page[100 := 7]" and ?fe = "\<lparr>feName = chunk_name 0 1, feChunkID = 0 :: u32, feSeq = 1 :: u64\<rparr>"
  let ?f = "replicate 8192 0 @ ?bad @ ?buf"
  let ?g = "snd (writeHeader IoOk IoOk sample_header ?f)"
  note w = write_header_ok [OF sample_header_fits, of ?f]
  have k: "field off 4100 ?g = field off 4100 ?f" if "8192 \<le> off" "off \<le> 12292" for off by (rule write_header_keeps(1) [OF sample_header_fits w]) (use that in simp_all)
  have lg: "length ?g = 16392" using write_header_keeps(2) [OF sample_header_fits w, of 8192 0] by simp
  have f0: "frame_at ?g 0 = ?bad" using k [of 8192] field_append_here [of ?bad 4100 ?buf] by (simp add: frame_at_def frame_off_def)
  have f1: "frame_at ?g 1 = ?buf" using k [of 12292] by (simp add: frame_at_def frame_off_def)
  have "CRC32C (?page[100 := 7]) \<noteq> CRC32C ?page" by (rule CRC32C_one_byte) simp_all
  moreover have "drop 4 ?bad = ?page[100 := 7]" by simp
  ultimately have bad: "\<not> good_frame (frame_at ?g 0)" unfolding f0 good_frame_def CRCSize_def by (metis u32_at_mem)
  have good: "\<forall>j. 1 \<le> j \<and> j \<le> 1 \<longrightarrow> good_frame (frame_at ?g j)"
    using serialized_frame_good(1) [of ?page ?buf] full_page_frame [of ?page] f1 by (auto simp: known_type_def le_antisym)
  have h: "readHeader ?g = Ok sample_header" using header_blocks [OF sample_header_fits w, of "replicate 4096 0"] by simp
  have m: "scan_frames 0 (int (length ?g)) ?g ChunkHeaderSize 0 (\<lambda>_. None) \<noteq> (\<lambda>_. None)"
  proof -
    have "scan_frames 0 (int (length ?g)) ?g (frame_off 0) 0 (\<lambda>_. None) = scan_frames 0 (int (length ?g)) ?g (frame_off 1) 1 (\<lambda>_. None)"
      using scan_step [of 0 "int (length ?g)" ?g 0 0 "\<lambda>_. None"] bad lg by (simp add: MaxChunkID_def) (simp add: frame_off_def)
    also have "\<dots> = fold (\<lambda>j m. m(frame_pos 0 ?g j \<mapsto> 4100)) [1..<2] (\<lambda>_. None)"
      by (rule scan_good_run) (use good lg in \<open>auto simp: frame_off_def MaxChunkID_def numeral_2_eq_2 less_Suc_eq\<close>)
    finally show ?thesis by (simp add: frame_off_0 numeral_2_eq_2 fun_eq_iff)
  qed
  obtain c where c: "restore_chunk ?fe ?g = Some c" using restore_chunk_scan [of ?g sample_header ?fe, OF h refl] m by simp
  let ?cm = "(empty_manager 20000 (\<lambda>_. None))\<lparr>lastChunk := Some 0, cmHeap := (\<lambda>_. c)\<rparr>"
  have "pagePosToLen c (frame_pos (feChunkID ?fe) ?g 1) = Some MaxDiskPageSize \<and>
    fst (chunkAllocate IoOk (int MaxDiskPageSize) (frame_at ?g 1 ! 30) ?cm) = Ok (frame_pos (feChunkID ?fe) ?g 1)"
    by (rule restore_reissues_live_position [OF h bad good _ _ _ _ _ c]) (use lg in \<open>simp_all add: frame_off_def MaxChunkID_def empty_manager_def\<close>)
  then show ?thesis using c by (auto simp: Let_def)
qed

end
