(* ===== verification/Chunk_Compact.thy ===== *)
theory Chunk_Compact
  imports Chunk_Restore
begin

text \<open>
  The compactor of the chunk files (\<open>chunk/chunk_compactor.go\<close>): the fill rate of a chunk, the choice of the chunks to rewrite under
  a budget, the copies of their live pages and the removal of the old files. The iteration over the pages of a chunk and the results
  of the system calls are arguments; the order of chunks with equal fill rate and size is that of a stable sort.
\<close>

record chunk_compactor =
  minFillRate :: int
  compacting :: bool

definition maxRewriteSize :: nat where "maxRewriteSize = 67108864"

definition NewChunkCompactor :: "int \<Rightarrow> chunk_compactor" where
  "NewChunkCompactor rate = \<lparr>minFillRate = (let r = (if rate \<le> 0 then 30 else rate) in if 50 < r then 50 else r), compacting = False\<rparr>"

definition getFillRate :: "chunk_file \<Rightarrow> int \<times> nat" where
  "getFillRate c =
     (let total = (\<Sum>p\<in>dom (pagePosToLen c). the (pagePosToLen c p)); live = (\<Sum>p\<in>dom (pagePosToLen c) - cfRemoved c. the (pagePosToLen c p))
      in if total = 0 then (1, 0) else (1 + int (98 * live div total), live))"

definition NeedCompaction :: "chunk_compactor \<Rightarrow> chunk_manager \<Rightarrow> bool" where
  "NeedCompaction k cm \<longleftrightarrow> list_ex (\<lambda>r. Some r \<noteq> lastChunk cm \<and> fst (getFillRate (cmHeap cm r)) \<le> minFillRate k) (cmChunks cm)"

fun greedy :: "nat \<Rightarrow> (nat \<times> nat) list \<Rightarrow> nat list" where
  "greedy cumulative [] = []"
| "greedy cumulative ((r, liveSize) # cs) = (if maxRewriteSize < cumulative + liveSize then [] else r # greedy (cumulative + liveSize) cs)"

definition compact_candidates :: "chunk_compactor \<Rightarrow> chunk_manager \<Rightarrow> (nat \<times> int \<times> nat) list" where
  "compact_candidates k cm =
     sort_key (\<lambda>(r, rate, live). live)
       (map (\<lambda>r. (r, getFillRate (cmHeap cm r)))
         (filter (\<lambda>r. Some r \<noteq> lastChunk cm \<and> fst (getFillRate (cmHeap cm r)) \<noteq> 1 \<and> fst (getFillRate (cmHeap cm r)) \<le> minFillRate k) (cmChunks cm)))"

text \<open>Sorting by size and then, stably, by rate orders by rate and then by size.\<close>

definition compact_selected :: "chunk_compactor \<Rightarrow> chunk_manager \<Rightarrow> nat list" where
  "compact_selected k cm =
     greedy 0 (map (\<lambda>(r, rate, live). (r, live)) (sort_key (\<lambda>(r, rate, live). rate) (compact_candidates k cm))) @
     filter (\<lambda>r. Some r \<noteq> lastChunk cm \<and> fst (getFillRate (cmHeap cm r)) = 1) (cmChunks cm)"

fun copy_pages :: "(chunk_pos \<Rightarrow> io \<times> io \<times> io) \<Rightarrow> nat \<Rightarrow> chunk_pos list \<Rightarrow> chunk_manager \<Rightarrow> unit outcome \<times> chunk_manager" where
  "copy_pages io r [] cm = (Ok (), cm)"
| "copy_pages io r (p # ps) cm =
     (case io p of (rd, cr, wr) \<Rightarrow>
      case pagePosToLen (cmHeap cm r) p of None \<Rightarrow> copy_pages io r ps cm
      | Some len \<Rightarrow>
          (case (if rd = IoOk then ReadAt len (pos_off p) (chunk_bytes cm r) else Err ErrIO) of
             Ok data \<Rightarrow> (case chunkAllocate cr (int len) (posPageType p) cm of
                 (Ok q, cm1) \<Rightarrow> (case chunkWritePage wr q data cm1 of (Ok _, cm2) \<Rightarrow> copy_pages io r ps cm2 | (Err e, cm2) \<Rightarrow> (Err e, cm2) | (Panic, cm2) \<Rightarrow> (Panic, cm2))
               | (Err e, cm1) \<Rightarrow> (Err e, cm1)
               | (Panic, cm1) \<Rightarrow> (Panic, cm1))
           | Err e \<Rightarrow> (Err e, cm)
           | Panic \<Rightarrow> (Panic, cm)))"

fun copy_chunks :: "(chunk_pos \<Rightarrow> io \<times> io \<times> io) \<Rightarrow> (nat \<Rightarrow> chunk_pos list) \<Rightarrow> nat list \<Rightarrow> chunk_manager \<Rightarrow> unit outcome \<times> chunk_manager" where
  "copy_chunks io order [] cm = (Ok (), cm)"
| "copy_chunks io order (r # rs) cm =
     (case copy_pages io r (filter (\<lambda>p. pagePosToLen (cmHeap cm r) p \<noteq> None \<and> p \<notin> cfRemoved (cmHeap cm r)) (order r)) cm of
        (Ok _, cm1) \<Rightarrow> copy_chunks io order rs cm1 | (Err e, cm1) \<Rightarrow> (Err e, cm1) | (Panic, cm1) \<Rightarrow> (Panic, cm1))"

definition delete_chunk :: "(nat \<Rightarrow> io) \<Rightarrow> nat \<Rightarrow> chunk_manager \<Rightarrow> chunk_manager" where
  "delete_chunk rename r cm =
     (let c = cmHeap cm r;
          cm1 = cm\<lparr>idToChunk := (idToChunk cm)(cfID c := None), seqToID := (seqToID cm)(cfSeq c := None), cmChunks := remove1 r (cmChunks cm),
                   chunkIDs := chunkIDs cm - {unat (cfID c)}, cmRemoved := cmRemoved cm - cfRemoved c\<rparr>
      in if rename r \<noteq> IoOk then cm1 else cm1\<lparr>cmDisk := (cmDisk cm1)(cfName c := None)\<rparr>)"

definition Compact :: "(chunk_pos \<Rightarrow> io \<times> io \<times> io) \<Rightarrow> (nat \<Rightarrow> chunk_pos list) \<Rightarrow> io \<Rightarrow> (nat \<Rightarrow> io) \<Rightarrow> chunk_compactor \<Rightarrow> chunk_manager \<Rightarrow> unit outcome \<times> chunk_manager" where
  "Compact io order sync rename k cm =
     (if compacting k then (Ok (), cm)
      else let selected = compact_selected k cm
           in if compact_candidates k cm = [] \<and> filter (\<lambda>r. Some r \<noteq> lastChunk cm \<and> fst (getFillRate (cmHeap cm r)) = 1) (cmChunks cm) = [] then (Ok (), cm)
              else case copy_chunks io order selected cm of
                (Ok _, cm1) \<Rightarrow> if sync \<noteq> IoOk then (Err ErrIO, cm1) else (Ok (), fold (delete_chunk rename) selected cm1)
              | (Err e, cm1) \<Rightarrow> (Err e, cm1)
              | (Panic, cm1) \<Rightarrow> (Panic, cm1))"

section \<open>The budget\<close>

text \<open>The chunks the greedy choice takes have together at most the budget of live bytes.\<close>

lemma greedy_budget: "cumulative \<le> maxRewriteSize \<Longrightarrow> cumulative + (\<Sum>x\<leftarrow>take (length (greedy cumulative cs)) cs. snd x) \<le> maxRewriteSize"
  by (induction cumulative cs rule: greedy.induct) (auto simp: add.assoc)

lemma greedy_prefix: "greedy cumulative cs = map fst (take (length (greedy cumulative cs)) cs)"
  by (induction cumulative cs rule: greedy.induct) auto

section \<open>Positions after a compaction\<close>

lemma reserve_frame: "reserve r off sz ty cm = (res, cm1) \<Longrightarrow> cmNext cm1 = cmNext cm \<and> (\<forall>x. cfID (cmHeap cm1 x) = cfID (cmHeap cm x)) \<and> cmClosed cm1 = cmClosed cm"
  by (auto simp: reserve_def set_chunk_def split: outcome.splits)

lemma create_frame: "createChunk io cm = (res, cm1) \<Longrightarrow> cmNext cm \<le> cmNext cm1 \<and> (\<forall>x<cmNext cm. cfID (cmHeap cm1 x) = cfID (cmHeap cm x)) \<and> cmClosed cm1 = cmClosed cm"
  by (auto simp: createChunk_def Let_def split: outcome.splits prod.splits bool.splits)

lemma allocate_frame:
  assumes "chunkAllocate io sz ty cm = (res, cm1)"
  shows "cmNext cm \<le> cmNext cm1 \<and> (\<forall>x<cmNext cm. cfID (cmHeap cm1 x) = cfID (cmHeap cm x)) \<and> cmClosed cm1 = cmClosed cm"
proof -
  have new: "cmNext cm \<le> cmNext c \<and> (\<forall>x<cmNext cm. cfID (cmHeap c x) = cfID (cmHeap cm x)) \<and> cmClosed c = cmClosed cm"
    if "(case createChunk io cm of (Ok n, cm1) \<Rightarrow> reserve n (of_nat ChunkHeaderSize) sz ty cm1 | (Err e, cm1) \<Rightarrow> (Err e, cm1) | (Panic, cm1) \<Rightarrow> (Panic, cm1)) = (res, c)" for c
    using that create_frame [of io cm] reserve_frame by (fastforce split: prod.splits outcome.splits)
  show ?thesis using assms new [of cm1] reserve_frame [of _ _ sz ty cm res cm1] by (auto simp: chunkAllocate_def split: if_splits option.splits)
qed

lemma write_frame: "chunkWritePage io p d cm = (res, cm1) \<Longrightarrow> cmNext cm1 = cmNext cm \<and> (\<forall>x. cfID (cmHeap cm1 x) = cfID (cmHeap cm x)) \<and> cmClosed cm1 = cmClosed cm"
  by (auto simp: chunkWritePage_def set_chunk_def Let_def split: outcome.splits prod.splits bool.splits)

definition same_ids :: "chunk_manager \<Rightarrow> chunk_manager \<Rightarrow> bool" where
  "same_ids cm cm1 \<longleftrightarrow> cmNext cm \<le> cmNext cm1 \<and> (\<forall>x<cmNext cm. cfID (cmHeap cm1 x) = cfID (cmHeap cm x)) \<and> cmClosed cm1 = cmClosed cm"

lemma same_ids_trans: "same_ids a b \<Longrightarrow> same_ids b c \<Longrightarrow> same_ids a c"
  by (auto simp: same_ids_def)

lemma copy_pages_frame: "copy_pages io r ps cm = (res, cm1) \<Longrightarrow> same_ids cm cm1"
proof (induction io r ps cm rule: copy_pages.induct)
  case (2 io r p ps cm)
  obtain rd cr wr where i: "io p = (rd, cr, wr)" using prod_cases3 by blast
  show ?case
  proof (cases "pagePosToLen (cmHeap cm r) p")
    case None
    then show ?thesis using 2(1) [OF i [symmetric] refl None] 2(3) i by simp
  next
    case (Some len)
    show ?thesis
    proof (cases "if rd = IoOk then ReadAt len (pos_off p) (chunk_bytes cm r) else Err ErrIO")
      case (Ok data)
      obtain a c1 where a: "chunkAllocate cr (int len) (posPageType p) cm = (a, c1)" by fastforce
      have s1: "same_ids cm c1" using allocate_frame [OF a] by (simp add: same_ids_def)
      show ?thesis
      proof (cases a)
        case q: (Ok q)
        obtain w c2 where w: "chunkWritePage wr q data c1 = (w, c2)" by fastforce
        have "same_ids c1 c2" using write_frame [OF w] by (simp add: same_ids_def)
        then have s2: "same_ids cm c2" by (rule same_ids_trans [OF s1])
        show ?thesis
        proof (cases w)
          case ok: (Ok u)
          then have "copy_pages io r ps c2 = (res, cm1)" using 2(3) i Some Ok a q w by simp
          from 2(2) [OF i [symmetric] refl Some Ok a [symmetric] q w [symmetric] ok this] show ?thesis by (rule same_ids_trans [OF s2])
        qed (use 2(3) i Some Ok a q w s2 in simp_all)
      qed (use 2(3) i Some Ok a s1 in auto)
    qed (use 2(3) i Some in \<open>auto simp: same_ids_def\<close>)
  qed
qed (auto simp: same_ids_def)

lemma copy_chunks_frame: "copy_chunks io order rs cm = (res, cm1) \<Longrightarrow> same_ids cm cm1"
proof (induction io order rs cm rule: copy_chunks.induct)
  case (2 io order r rs cm)
  let ?ps = "filter (\<lambda>p. pagePosToLen (cmHeap cm r) p \<noteq> None \<and> p \<notin> cfRemoved (cmHeap cm r)) (order r)"
  obtain a c1 where a: "copy_pages io r ?ps cm = (a, c1)" by fastforce
  note s = copy_pages_frame [OF a]
  show ?case
  proof (cases a)
    case (Ok u)
    then have "copy_chunks io order rs c1 = (res, cm1)" using 2(2) a by simp
    from 2(1) [OF a [symmetric] Ok this] show ?thesis by (rule same_ids_trans [OF s])
  qed (use 2(2) a s in simp_all)
qed (auto simp: same_ids_def)

lemma delete_frame:
  "cmHeap (delete_chunk rn r cm) = cmHeap cm" "idToChunk (delete_chunk rn r cm) = (idToChunk cm)(cfID (cmHeap cm r) := None)" "cmClosed (delete_chunk rn r cm) = cmClosed cm"
  by (simp_all add: delete_chunk_def Let_def)

lemma delete_all:
  "cmHeap (fold (delete_chunk rn) rs cm) = cmHeap cm \<and> cmClosed (fold (delete_chunk rn) rs cm) = cmClosed cm \<and>
     (\<forall>i. i \<in> (\<lambda>r. cfID (cmHeap cm r)) ` set rs \<or> idToChunk cm i = None \<longrightarrow> idToChunk (fold (delete_chunk rn) rs cm) i = None)"
  by (induction rs arbitrary: cm) (auto simp: delete_frame)


definition sparse_chunk :: chunk_file where
  "sparse_chunk = \<lparr>cfID = 0, cfSeq = 1, cfName = ''a'', cfCapacity = 20000, nextOffset = 12352, pagePosToLen = [524290 \<mapsto> 60, 528130 \<mapsto> 4100], cfRemoved = {528130}\<rparr>"

definition sparse_manager :: chunk_manager where
  "sparse_manager = (empty_manager 20000 [''a'' \<mapsto> replicate 20000 0, ''b'' \<mapsto> replicate 20000 0])\<lparr>cmHeap := (\<lambda>r. if r = 0 then sparse_chunk else sparse_chunk\<lparr>cfID := 1, cfSeq := 2, cfName := ''b'',
     nextOffset := 8192, pagePosToLen := (\<lambda>_. None), cfRemoved := {}\<rparr>), cmNext := 2, cmChunks := [0, 1], lastChunk := Some 1, maxSeq := 2, chunkIDs := {0, 1},
     idToChunk := [0 \<mapsto> 0, 1 \<mapsto> 1], seqToID := [1 \<mapsto> 0, 2 \<mapsto> 1], cmRemoved := {528130}\<rparr>"


end
