(* ===== verification/Checkpoint.thy ===== *)
theory Checkpoint
  imports Chunk_Store WAL_Recovery
begin

text \<open>
  Checkpoints (\<open>checkpoint/checkpoint_manager.go\<close>, \<open>persist/persist_checkpoint.go\<close>): the pages of the tree are written to the chunk
  files, a checkpoint record goes to the log and the log is truncated. The enumeration of the pages is an argument, given by the tree.
  The flush loops are proved against the contract of a page store.
\<close>

section \<open>The checkpoint record\<close>

record page_flush_item =
  fiPageID :: u64
  fiPageType :: byte
  fiPageData :: gslice
  fiChunkPos :: chunk_pos

type_synonym page_locs = "(u64 \<times> chunk_pos) list"

text \<open>The map from pages to positions, in the order of its iteration.\<close>

definition encodeCheckpointKey :: "u64 \<Rightarrow> page_locs \<Rightarrow> bytes" where
  "encodeCheckpointKey startLSN locs =
     PutUint64 startLSN @ PutUint32 (of_nat (length locs)) @ concat (map (\<lambda>(pid, pos). PutUint64 pid @ PutUint64 pos) locs)"

fun decode_locs :: "nat \<Rightarrow> bytes \<Rightarrow> (u64 \<Rightarrow> chunk_pos option) \<Rightarrow> (u64 \<Rightarrow> chunk_pos option)" where
  "decode_locs 0 b m = m"
| "decode_locs (Suc n) b m = (if length b < 16 then m else decode_locs n (drop 16 b) (m(Uint64 (field 0 8 b) \<mapsto> Uint64 (field 8 8 b))))"

text \<open>What \<open>Recover\<close> reads from a checkpoint record: the start and the page locations, which it then drops.\<close>

definition decode_checkpoint :: "bytes \<Rightarrow> u64 \<times> (u64 \<Rightarrow> chunk_pos option)" where
  "decode_checkpoint key = (Uint64 (field 0 8 key), decode_locs (unat (Uint32 (field 8 4 key))) (drop 12 key) (\<lambda>_. None))"

lemma decode_locs_encoded:
  "decode_locs (length locs) (concat (map (\<lambda>(pid, pos). PutUint64 pid @ PutUint64 pos) locs)) m = fold (\<lambda>(a, b) m. m(a \<mapsto> b)) locs m"
proof (induction locs arbitrary: m)
  case (Cons x locs)
  obtain a b where x: "x = (a, b)" by (cases x)
  have "field 8 8 (PutUint64 a @ PutUint64 b @ ys) = PutUint64 b" for ys by simp
  then show ?case using Cons x by (simp del: fun_upd_apply)
qed simp

text \<open>A checkpoint record can be read back: the start of the replay and the position of every page that the checkpoint put
  in the record are what \<open>Recover\<close> decodes from it, whatever the order in which the map of positions was walked.\<close>

lemma checkpoint_key_decodes:
  assumes "length locs < 4294967296" "distinct (map fst locs)"
  shows "decode_checkpoint (encodeCheckpointKey start locs) = (start, map_of locs)"
proof -
  have "fold (\<lambda>(a, b) m. m(a \<mapsto> b)) locs (\<lambda>_. None) k = map_of locs k" for k
  proof (cases "map_of locs k")
    case None
    then have "k \<notin> fst ` set locs" by (simp add: map_of_eq_None_iff)
    then show ?thesis using None by (simp add: fold_map_upd_notin)
  next
    case (Some v)
    then show ?thesis using fold_map_upd_in [OF assms(2)] map_of_SomeD by fastforce
  qed
  then show ?thesis using assms(1) decode_locs_encoded [of locs "\<lambda>_. None"] by (simp add: decode_checkpoint_def encodeCheckpointKey_def fun_eq_iff)
qed

section \<open>Writing the pages\<close>

text \<open>The loop of \<open>FuzzyCheckpoint\<close> over the enumerated pages; the results of the system calls are given per page.\<close>

fun flush_items :: "(io \<Rightarrow> int \<Rightarrow> byte \<Rightarrow> 's \<Rightarrow> chunk_pos outcome \<times> 's) \<Rightarrow> (io \<Rightarrow> chunk_pos \<Rightarrow> bytes \<Rightarrow> 's \<Rightarrow> unit outcome \<times> 's) \<Rightarrow> (u64 \<Rightarrow> io \<times> io) \<Rightarrow>
    page_flush_item list \<Rightarrow> page_locs \<Rightarrow> 's \<Rightarrow> page_locs outcome \<times> 's" where
  "flush_items al pu io [] locs s = (Ok locs, s)"
| "flush_items al pu io (it # items) locs s =
     (let locs1 = AList.update (fiPageID it) (fiChunkPos it) locs
      in if fiChunkPos it = 0 \<and> fiPageData it \<noteq> None then
           (case al (fst (io (fiPageID it))) (int (length (the (fiPageData it)))) (fiPageType it) s of
              (Ok pos, s1) \<Rightarrow> (case pu (snd (io (fiPageID it))) pos (the (fiPageData it)) s1 of
                  (Ok _, s2) \<Rightarrow> flush_items al pu io items (AList.update (fiPageID it) pos locs1) s2
                | (Err e, s2) \<Rightarrow> (Err e, s2)
                | (Panic, s2) \<Rightarrow> (Panic, s2))
            | (Err e, s1) \<Rightarrow> (Err e, s1)
            | (Panic, s1) \<Rightarrow> (Panic, s1))
         else flush_items al pu io items locs1 s)"

context page_store
begin

lemma flush_keeps:
  "\<lbrakk>inv R s; flush_items alloc put io items locs s = (Ok locs', s'); distinct (map fiPageID items)\<rbrakk> \<Longrightarrow>
     (\<exists>R'. inv R' s') \<and> (\<forall>p d. pages s p = Some d \<longrightarrow> pages s' p = Some d) \<and> (\<forall>k. k \<notin> fiPageID ` set items \<longrightarrow> map_of locs' k = map_of locs k) \<and>
     (\<forall>it\<in>set items. \<forall>d. fiChunkPos it = 0 \<and> fiPageData it = Some d \<longrightarrow> (\<exists>p. map_of locs' (fiPageID it) = Some p \<and> pages s' p = Some d)) \<and>
     (\<forall>it\<in>set items. fiChunkPos it \<noteq> 0 \<longrightarrow> map_of locs' (fiPageID it) = Some (fiChunkPos it))"
proof (induction items arbitrary: R locs s)
  case (Cons it items)
  let ?l1 = "AList.update (fiPageID it) (fiChunkPos it) locs"
  have new: "fiPageID it \<notin> fiPageID ` set items" "distinct (map fiPageID items)" using Cons.prems(3) by auto
  show ?case
  proof (cases "fiChunkPos it = 0 \<and> fiPageData it \<noteq> None")
    case False
    then have f: "flush_items alloc put io items ?l1 s = (Ok locs', s')" using Cons.prems(2) by (auto simp: Let_def)
    note ih = Cons.IH [OF Cons.prems(1) f new(2)]
    have "map_of locs' (fiPageID it) = Some (fiChunkPos it)" using ih new(1) by (simp add: update_conv')
    then show ?thesis using ih False by (auto simp: update_conv')
  next
    case True
    then obtain d where d: "fiPageData it = Some d" by blast
    obtain a s1 where a: "alloc (fst (io (fiPageID it))) (int (length d)) (fiPageType it) s = (a, s1)" by fastforce
    then obtain pos where pos: "a = Ok pos" using Cons.prems(2) True d by (cases a) (auto simp: Let_def)
    obtain w s2 where w: "put (snd (io (fiPageID it))) pos d s1 = (w, s2)" by fastforce
    then obtain u where u: "w = Ok u" using Cons.prems(2) True d a pos by (cases w) (auto simp: Let_def)
    have f: "flush_items alloc put io items (AList.update (fiPageID it) pos ?l1) s2 = (Ok locs', s')" using Cons.prems(2) True d a pos w u by (simp add: Let_def)
    have 1: "R pos = None" "inv (R(pos \<mapsto> length d)) s1" "pages s1 = pages s" using alloc_ok [OF Cons.prems(1) a [unfolded pos]] by simp_all
    have 2: "inv (R(pos \<mapsto> length d)) s2" "pages s2 = (pages s)(pos \<mapsto> d)" using put_ok [OF 1(2), of pos "length d" d] w u 1(3) by auto
    note ih = Cons.IH [OF 2(1) f new(2)]
    have "pages s pos = None" using reserved_before [OF Cons.prems(1), of pos] 1(1) by blast
    then have keep: "pages s' p = Some x" if "pages s p = Some x" for p x using ih 2(2) that by (metis fun_upd_apply option.distinct(1))
    have here: "map_of locs' (fiPageID it) = Some pos" "pages s' pos = Some d" using ih new(1) 2(2) by (simp_all add: update_conv')
    show ?thesis using ih keep here True d by (auto simp: update_conv')
  qed
qed auto

end

section \<open>Checkpoints\<close>

record ckpt_state =
  ckWAL :: disk_wal
  ckChunks :: "chunk_manager option"
  lastCheckpointLSN :: u64
  totalCheckpoints :: int

definition checkpoint_entry :: "u64 \<Rightarrow> page_locs \<Rightarrow> wal_entry" where
  "checkpoint_entry start locs = zero_entry\<lparr>Type := WALTypeCheckpoint, Key := encodeCheckpointKey start locs\<rparr>"

text \<open>The common tail: the record, the sync and the truncation.\<close>

definition write_checkpoint :: "u64 \<Rightarrow> page_locs \<Rightarrow> ckpt_state \<Rightarrow> unit outcome \<times> ckpt_state" where
  "write_checkpoint start locs m = (case walAppend (checkpoint_entry start locs) (ckWAL m) of
     (Ok _, w1) \<Rightarrow> (case walSync w1 of
         (Ok _, w2) \<Rightarrow> (case Truncate start w2 of
             (Ok _, w3) \<Rightarrow> (Ok (), m\<lparr>ckWAL := w3, lastCheckpointLSN := start, totalCheckpoints := totalCheckpoints m + 1\<rparr>)
           | (Err e, w3) \<Rightarrow> (Err e, m\<lparr>ckWAL := w3\<rparr>)
           | (Panic, w3) \<Rightarrow> (Panic, m\<lparr>ckWAL := w3\<rparr>))
       | (Err e, w2) \<Rightarrow> (Err e, m\<lparr>ckWAL := w2\<rparr>)
       | (Panic, w2) \<Rightarrow> (Panic, m\<lparr>ckWAL := w2\<rparr>))
   | (Err e, w1) \<Rightarrow> (Err e, m\<lparr>ckWAL := w1\<rparr>)
   | (Panic, w1) \<Rightarrow> (Panic, m\<lparr>ckWAL := w1\<rparr>))"

text \<open>\<open>enum\<close> is \<open>None\<close> for a nil root, else what the enumeration returns; \<open>sync\<close> is the result of syncing the chunk files. The
  compactions are started in the background and not part of the call.\<close>

definition FuzzyCheckpoint :: "page_flush_item list outcome option \<Rightarrow> (u64 \<Rightarrow> io \<times> io) \<Rightarrow> io \<Rightarrow> ckpt_state \<Rightarrow> unit outcome \<times> ckpt_state" where
  "FuzzyCheckpoint enum io sync m =
     (let start = currentLSN (ckWAL m)
      in case enum of
           None \<Rightarrow> (Err ErrCheckpointNilRoot, m)
         | Some en \<Rightarrow>
             (case ckChunks m of
                None \<Rightarrow> write_checkpoint start [] m
              | Some cm \<Rightarrow> (case en of
                  Ok items \<Rightarrow> (case flush_items chunkAllocate chunkWritePage io items [] cm of
                      (Ok locs, cm1) \<Rightarrow> if sync \<noteq> IoOk then (Err ErrIO, m\<lparr>ckChunks := Some cm1\<rparr>) else write_checkpoint start locs (m\<lparr>ckChunks := Some cm1\<rparr>)
                    | (Err e, cm1) \<Rightarrow> (Err e, m\<lparr>ckChunks := Some cm1\<rparr>)
                    | (Panic, cm1) \<Rightarrow> (Panic, m\<lparr>ckChunks := Some cm1\<rparr>))
                | Err e \<Rightarrow> (Err e, m)
                | Panic \<Rightarrow> (Panic, m))))"

definition SharpCheckpoint :: "ckpt_state \<Rightarrow> unit outcome \<times> ckpt_state" where
  "SharpCheckpoint m = write_checkpoint (currentLSN (ckWAL m)) [] m"

lemma keys_update: "fst ` set (AList.update k v xs) \<subseteq> insert k (fst ` set xs)"
  by (induction xs) auto

lemma flush_locs:
  "flush_items al pu io items locs s = (Ok locs', s') \<Longrightarrow> distinct (map fst locs) \<Longrightarrow> distinct (map fst locs') \<and> set (map fst locs') \<subseteq> set (map fst locs) \<union> fiPageID ` set items"
proof (induction items arbitrary: locs s)
  case (Cons it items)
  let ?l = "AList.update (fiPageID it) (fiChunkPos it) locs"
  obtain l t where f: "flush_items al pu io items l t = (Ok locs', s')" "l = ?l \<or> (\<exists>p. l = AList.update (fiPageID it) p ?l)"
    using Cons.prems(1) by (auto simp: Let_def split: if_splits prod.splits outcome.splits)
  have "distinct (map fst l)" "set (map fst l) \<subseteq> set (map fst locs) \<union> {fiPageID it}"
    using f(2) Cons.prems(2) keys_update [of "fiPageID it" _ ?l] keys_update [of "fiPageID it" "fiChunkPos it" locs] by (auto simp: distinct_update)
  moreover from this have "distinct (map fst locs')" "set (map fst locs') \<subseteq> set (map fst l) \<union> fiPageID ` set items" using Cons.IH [OF f(1)] by simp_all
  ultimately show ?case by simp blast
qed auto

lemma locs_bound:
  assumes "flush_items al pu io items [] s = (Ok locs, s')"
  shows "distinct (map fst locs)" "length locs \<le> length items"
proof -
  have l: "distinct (map fst locs)" "set (map fst locs) \<subseteq> fiPageID ` set items" using flush_locs [OF assms] by simp_all
  then show "distinct (map fst locs)" by simp
  have "length (map fst locs) = card (set (map fst locs))" using distinct_card [OF l(1)] by simp
  also have "\<dots> \<le> card (fiPageID ` set items)" using l(2) by (intro card_mono) simp_all
  also have "\<dots> \<le> length items" using card_image_le [of "set items" fiPageID] card_length [of items] by simp
  finally show "length locs \<le> length items" by simp
qed

lemma write_checkpoint_chunks: "ckChunks (snd (write_checkpoint start locs m)) = ckChunks m"
  by (auto simp: write_checkpoint_def split: prod.splits outcome.splits)


section \<open>The persisting decorator\<close>

text \<open>\<open>PersistCheckpoint\<close>: writes are counted, and a save is started when the count is a multiple of the interval, when the store has
  been idle, or on request. A save started in the background is the flag \<open>pcSaving\<close>; it runs as a step of its own.\<close>

record persist_checkpoint =
  ckptInterval :: int
  setCount :: u64
  lastSavedCount :: u64
  pcSaving :: bool
  dirtyWarned :: bool
  maxDirtyBytes :: int
  pcTotalSaves :: int
  pcPageCount :: int

definition maxDirtyBytesPerSave :: int where "maxDirtyBytesPerSave = 268435456"

definition NewPersistCheckpoint :: "int \<Rightarrow> int \<Rightarrow> persist_checkpoint" where
  "NewPersistCheckpoint interval maxDirty = \<lparr>ckptInterval = interval, setCount = 0, lastSavedCount = 0, pcSaving = False, dirtyWarned = False,
     maxDirtyBytes = maxDirty, pcTotalSaves = 0, pcPageCount = 0\<rparr>"

definition maybeTriggerCkpt :: "u64 \<Rightarrow> persist_checkpoint \<Rightarrow> unit outcome \<times> persist_checkpoint" where
  "maybeTriggerCkpt count pc =
     (if (of_int (ckptInterval pc) :: u64) = 0 then (Panic, pc)
      else if count mod of_int (ckptInterval pc) = 0 \<and> \<not> pcSaving pc then (Ok (), pc\<lparr>pcSaving := True\<rparr>) else (Ok (), pc))"

text \<open>\<open>Set\<close> and \<open>SetBatch\<close>: the result of the store below is an argument.\<close>

definition pcSet :: "unit outcome \<Rightarrow> persist_checkpoint \<Rightarrow> unit outcome \<times> persist_checkpoint" where
  "pcSet res pc = (case res of
     Ok _ \<Rightarrow> let c = setCount pc + 1 in maybeTriggerCkpt c (pc\<lparr>setCount := c\<rparr>)
   | Err e \<Rightarrow> (Err e, pc) | Panic \<Rightarrow> (Panic, pc))"

definition pcSetBatch :: "unit outcome \<Rightarrow> nat \<Rightarrow> persist_checkpoint \<Rightarrow> unit outcome \<times> persist_checkpoint" where
  "pcSetBatch res n pc = (case res of
     Ok _ \<Rightarrow> let c = setCount pc + of_nat n in maybeTriggerCkpt c (pc\<lparr>setCount := c\<rparr>)
   | Err e \<Rightarrow> (Err e, pc) | Panic \<Rightarrow> (Panic, pc))"

text \<open>One tick of \<open>runIdleCheckLoop\<close>, with the count of the tick before.\<close>

definition idle_tick :: "u64 \<Rightarrow> persist_checkpoint \<Rightarrow> u64 \<times> persist_checkpoint" where
  "idle_tick lastTick pc =
     (setCount pc, if setCount pc = lastTick \<and> lastSavedCount pc < setCount pc \<and> \<not> pcSaving pc then pc\<lparr>pcSaving := True\<rparr> else pc)"

fun save_items :: "(io \<Rightarrow> int \<Rightarrow> byte \<Rightarrow> 's \<Rightarrow> chunk_pos outcome \<times> 's) \<Rightarrow> (io \<Rightarrow> chunk_pos \<Rightarrow> bytes \<Rightarrow> 's \<Rightarrow> unit outcome \<times> 's) \<Rightarrow> (u64 \<Rightarrow> io \<times> io) \<Rightarrow>
    page_flush_item list \<Rightarrow> nat \<Rightarrow> 's \<Rightarrow> nat outcome \<times> 's" where
  "save_items al pu io [] n s = (Ok n, s)"
| "save_items al pu io (it # items) n s =
     (if fiChunkPos it \<noteq> 0 \<or> fiPageData it = None then save_items al pu io items n s
      else (case al (fst (io (fiPageID it))) (int (length (the (fiPageData it)))) (fiPageType it) s of
          (Ok pos, s1) \<Rightarrow> (case pu (snd (io (fiPageID it))) pos (the (fiPageData it)) s1 of
              (Ok _, s2) \<Rightarrow> save_items al pu io items (Suc n) s2
            | (Err e, s2) \<Rightarrow> (Err e, s2)
            | (Panic, s2) \<Rightarrow> (Panic, s2))
        | (Err e, s1) \<Rightarrow> (Err e, s1)
        | (Panic, s1) \<Rightarrow> (Panic, s1)))"

definition saveInternal :: "page_flush_item list outcome option \<Rightarrow> int option \<Rightarrow> (u64 \<Rightarrow> io \<times> io) \<Rightarrow> io \<Rightarrow> persist_checkpoint \<Rightarrow> chunk_manager \<Rightarrow> unit outcome \<times> persist_checkpoint \<times> chunk_manager" where
  "saveInternal enum dirty io sync pc cm = (case enum of
     None \<Rightarrow> (Err ErrCheckpointNilRoot, pc, cm)
   | Some (Err e) \<Rightarrow> (Err e, pc, cm)
   | Some Panic \<Rightarrow> (Panic, pc, cm)
   | Some (Ok items) \<Rightarrow>
       let pc1 = (case dirty of None \<Rightarrow> pc | Some b \<Rightarrow> pc\<lparr>dirtyWarned := maxDirtyBytes pc < b\<rparr>)
       in (case save_items chunkAllocate chunkWritePage io items 0 cm of
            (Ok n, cm1) \<Rightarrow>
              (if sync \<noteq> IoOk then (Err ErrIO, pc1, cm1)
               else (Ok (), pc1\<lparr>lastSavedCount := setCount pc1, pcTotalSaves := pcTotalSaves pc1 + 1, pcPageCount := int n\<rparr>, cm1))
          | (Err e, cm1) \<Rightarrow> (Err e, pc1, snd (RollbackLastBatch cm1))
          | (Panic, cm1) \<Rightarrow> (Panic, pc1, cm1)))"

text \<open>Batches step over the multiples of the interval: with an interval of 10 and batches of 7 pairs the count is 7 and 14 after two
  batches, and no save is started although more than ten pairs were written.\<close>

lemma batches_step_over_interval:
  "let pc = snd (pcSetBatch (Ok ()) 7 (snd (pcSetBatch (Ok ()) 7 (NewPersistCheckpoint 10 maxDirtyBytesPerSave)))) in setCount pc = 14 \<and> \<not> pcSaving pc"
  by (simp add: pcSetBatch_def maybeTriggerCkpt_def NewPersistCheckpoint_def Let_def word_mod_def)

text \<open>A save writes every page it is given again: no position is recorded for the next one, and the number of positions that are
  written to grows with every save.\<close>

context page_store
begin

lemma save_items_writes:
  "\<lbrakk>inv R s; save_items alloc put io items n s = (Ok k, s'); \<forall>it\<in>set items. fiChunkPos it = 0 \<and> fiPageData it \<noteq> None\<rbrakk> \<Longrightarrow>
     \<exists>ps. length ps = length items \<and> distinct ps \<and> k = n + length items \<and> (\<exists>R'. inv R' s') \<and>
       (\<forall>j<length items. pages s (ps ! j) = None \<and> pages s' (ps ! j) = fiPageData (items ! j)) \<and> (\<forall>p d. pages s p = Some d \<longrightarrow> pages s' p = Some d)"
proof (induction items arbitrary: R s n)
  case (Cons it items)
  then obtain d where d: "fiPageData it = Some d" "fiChunkPos it = 0" by auto
  obtain a s1 where a: "alloc (fst (io (fiPageID it))) (int (length d)) (fiPageType it) s = (a, s1)" by fastforce
  then obtain pos where pos: "a = Ok pos" using Cons.prems(2) d by (cases a) auto
  obtain w s2 where w: "put (snd (io (fiPageID it))) pos d s1 = (w, s2)" by fastforce
  then obtain u where u: "w = Ok u" using Cons.prems(2) d a pos by (cases w) auto
  have f: "save_items alloc put io items (Suc n) s2 = (Ok k, s')" using Cons.prems(2) d a pos w u by simp
  have 1: "R pos = None" "inv (R(pos \<mapsto> length d)) s1" "pages s1 = pages s" using alloc_ok [OF Cons.prems(1) a [unfolded pos]] by simp_all
  have 2: "inv (R(pos \<mapsto> length d)) s2" "pages s2 = (pages s)(pos \<mapsto> d)" using put_ok [OF 1(2), of pos "length d" d] w u 1(3) by auto
  have new: "pages s pos = None" using reserved_before [OF Cons.prems(1), of pos] 1(1) by blast
  obtain ps where ps: "length ps = length items" "distinct ps" "k = Suc n + length items" "\<exists>R'. inv R' s'"
    "\<forall>j<length items. pages s2 (ps ! j) = None \<and> pages s' (ps ! j) = fiPageData (items ! j)" "\<forall>p d. pages s2 p = Some d \<longrightarrow> pages s' p = Some d"
    using Cons.IH [OF 2(1) f] Cons.prems(3) by auto
  have "pos \<notin> set ps"
  proof
    assume "pos \<in> set ps"
    then obtain j where "j < length items" "ps ! j = pos" using ps(1) by (metis in_set_conv_nth)
    then show False using ps(5) 2(2) by fastforce
  qed
  moreover have "pages s (ps ! j) = None" if "j < length items" for j using ps(5) 2(2) that by (metis fun_upd_apply option.distinct(1))
  moreover have "pages s' p = Some x" if "pages s p = Some x" for p x using ps(6) 2(2) new that by (metis fun_upd_apply option.distinct(1))
  ultimately show ?case using ps d new 2(2)
    by (intro exI [of _ "pos # ps"]) (auto simp: nth_Cons split: nat.split)
qed auto

end

section \<open>Recovery after a checkpoint\<close>

lemma checkpoint_start_ge:
  assumes "e \<in> set es" "Type e = WALTypeCheckpoint" "12 \<le> length (Key e)"
  shows "Uint64 (field 0 8 (Key e)) \<le> checkpoint_start es"
proof -
  let ?f = "\<lambda>start e. if Type e = WALTypeCheckpoint \<and> 12 \<le> length (Key e) then max start (Uint64 (field 0 8 (Key e))) else start"
  have mono: "a \<le> foldl ?f a es" for a es by (induction es arbitrary: a) (auto intro: order_trans [OF max.cobounded1])
  have "Uint64 (field 0 8 (Key e)) \<le> foldl ?f a es" for a using assms(1)
  proof (induction es arbitrary: a)
    case (Cons x es)
    show ?case
    proof (cases "e = x")
      case True
      have "Uint64 (field 0 8 (Key e)) \<le> ?f a x" using True assms(2,3) by simp
      from order_trans [OF this mono [of "?f a x" es]] show ?thesis by simp
    qed (use Cons in simp)
  qed simp
  then show ?thesis unfolding checkpoint_start_def .
qed

lemma replay_nothing_entry:
  assumes "covered start e \<or> \<not> is_write e"
  shows "snd (replay_entry acc start ts e n s) = s"
proof (cases "covered start e")
  case False
  then have nw: "\<not> is_write e" using assms by simp
  have same: "snd (replaySingleKey acc e ts raw s) = s" for raw using nw by (auto simp: replaySingleKey_def is_write_def split: outcome.split)
  have "snd (case replaySingleKey acc e ts raw s of (Ok _, s') \<Rightarrow> (Ok (n + 1), s') | (Err er, s') \<Rightarrow> (Err er, s') | (Panic, s') \<Rightarrow> (Panic, s')) = s" for raw
    using same [of raw] by (cases "replaySingleKey acc e ts raw s") (auto split: outcome.split)
  then show ?thesis by (simp add: replay_entry_def Let_def split: outcome.split prod.split)
qed (simp add: replay_entry_def covered_def Let_def)

lemma replay_nothing_entries:
  "\<forall>e\<in>set es. covered start e \<or> \<not> is_write e \<Longrightarrow> snd (replay_entries acc start ts es n s) = s"
proof (induction es arbitrary: n)
  case (Cons e es)
  have "snd (replay_entry acc start ts e n s) = s" using Cons.prems by (intro replay_nothing_entry) simp
  then show ?case using Cons by (cases "replay_entry acc start ts e n s") (auto split: outcome.split)
qed simp

lemma replay_nothing_groups:
  "\<forall>(t, g)\<in>set gs. \<forall>e\<in>set (gEntries g). covered start e \<or> \<not> is_write e \<Longrightarrow> snd (snd (snd (replay_groups acc start cancelled i gs commits n s))) = s"
proof (induction gs arbitrary: i commits n)
  case (Cons x gs)
  obtain t g where x: "x = (t, g)" by (cases x)
  have "snd (replay_entries acc start (gCommitTS g) (gEntries g) n s) = s" using Cons.prems x by (intro replay_nothing_entries) simp
  then show ?case using Cons x by (cases "replay_entries acc start (gCommitTS g) (gEntries g) n s") (auto simp: Let_def split: outcome.split)
qed simp


section \<open>Examples\<close>

lemma write_checkpoint_healthy:
  assumes "ioFaults (ckWAL m) = []" "fileOpen (ckWAL m)" "\<not> walClosed (ckWAL m)"
    "writtenBytes (ckWAL m) + int (length (MarshalWALEntry (checkpoint_entry start locs))) < cfgSegmentSize (walConfig (ckWAL m))"
  shows "\<exists>m'. write_checkpoint start locs m = (Ok (), m')"
proof -
  obtain w1 where w1: "AppendBatch [checkpoint_entry start locs] (ckWAL m) = (Ok [currentLSN (ckWAL m) + 1], w1)" "ioFaults w1 = []" "fileOpen w1" "\<not> walClosed w1"
    using append_one [OF assms] by auto
  then obtain w2 where w2: "walSync w1 = (Ok (), w2)" "ioFaults w2 = []" "\<not> walClosed w2" by (simp add: walSync_def syncLocked_def file_sync_def next_io_def)
  then obtain w3 where "Truncate start w2 = (Ok (), w3)" by (simp add: Truncate_def truncateBefore_def next_io_def)
  then show ?thesis using w1(1) w2(1) by (simp add: write_checkpoint_def walAppend_def)
qed

definition sample_page :: page_flush_item where
  "sample_page = \<lparr>fiPageID = 3, fiPageType = 1, fiPageData = Some (replicate 60 7), fiChunkPos = 0\<rparr>"



end
