(* ===== verification/Spec2Isabelle.thy ===== *)
theory Spec2Isabelle
  imports MVCC_Codec Hybrid_Clock WAL_Codec Write_Buffer Tx_Examples WAL_Recovery LOB_File_Store BTree_Contract Epoch_Safety
    Task_Registry Chunk_Compact Checkpoint
begin

text \<open>
  Verification of NexKV, a key-value store in Go: the storage engine under \<open>src/internal/infrastructure/storage/\<close>, the hybrid
  clock and the task scheduler. Paths below are relative to \<open>src/internal/infrastructure/\<close> unless they start with \<open>domain/\<close>,
  which is under \<open>src/internal/\<close>.

  \<^bold>\<open>The program.\<close> A transaction (\<open>storage/mvcc/\<close>) reads from a snapshot and collects its writes in a buffer under key locks. Its
  commit appends records to the write-ahead log (\<open>storage/wal/\<close>), then stores every version, with the previous one inline, through
  the storage adapter of the tree (\<open>storage/btree/\<close>). The tree is a B-tree whose pages live in one memory mapping handed out by the
  page manager (\<open>storage/offheap/\<close>); writes copy the page they change, publish the copy and retire the old page to the epoch manager,
  which frees it when no reader can hold it. Large values go to chains of overflow pages or to files (\<open>storage/lob/\<close>). Checkpoints
  (\<open>storage/checkpoint/\<close>, \<open>storage/persist/\<close>) write the pages to chunk files (\<open>storage/chunk/\<close>), record the positions in the log and
  truncate it; recovery replays what is left. The task scheduler (\<open>concurrency/\<close>) runs queued items on cores.

  \<^bold>\<open>Conventions.\<close> Go integers are words of their width where they can wrap, and \<open>int\<close> or \<open>nat\<close> where a bound on them is stated;
  a slice that may be nil is \<open>gslice\<close>, an option of bytes. A call that can fail returns an \<open>outcome\<close>: \<open>Ok\<close>, \<open>Err\<close> with the error
  value of the source, or \<open>Panic\<close>. State is passed explicitly, as a record per Go struct; objects with identity (page references,
  chunk files, cached descriptors, tasks) are numbers into a heap that is a field of their owner. The result of a system call, the
  wall clock and the order in which Go walks a map are arguments, so every theorem holds for all of them. Code outside the
  component is a record of functions with its contract as a locale.

  \<^bold>\<open>Theories and sources.\<close>

  \<^item> \<open>NexKV_Prelude\<close>: words, bytes, outcomes, the encoders of \<open>encoding/binary\<close>, list and slice lemmas.

  \<^item> \<open>MVCC_Codec\<close> (\<open>mvcc/codec.go\<close>, \<open>mvcc/lob.go\<close>): the versioned record and the three tiers of values. Interfaces \<open>lob_store\<close>,
  \<open>lob_file_store\<close> and their combination \<open>lob_tiers\<close>.

  \<^item> \<open>Tx_Support\<close>, \<open>Write_Buffer\<close>, \<open>Transaction\<close> (\<open>mvcc/ts_generator.go\<close>, \<open>key_lock.go\<close>, \<open>active_tx_registry.go\<close>, \<open>gc.go\<close>,
  \<open>write_buffer.go\<close>, \<open>wal_integration.go\<close>, \<open>transaction.go\<close>): \<open>tx_manager\<close> and \<open>snapshot_tx\<close> with \<open>txGet\<close>, \<open>txPut\<close>, \<open>txDelete\<close>, \<open>txCommit\<close>,
  \<open>txRollback\<close>. \<open>Tx_Correctness\<close> proves commits, rollbacks and snapshots over the interface \<open>kv_backend\<close>; \<open>Tx_Reads\<close> compares the read
  paths; \<open>Tx_System\<close> interleaves the calls of many transactions and proves that locks exclude each other and that buffers stay
  current; \<open>Tx_Examples\<close> holds the runs the witnesses use.

  \<^item> \<open>WAL_Codec\<close>, \<open>Disk_WAL\<close>, \<open>WAL_Durability\<close>, \<open>WAL_Recovery\<close> (\<open>domain/service/wal.go\<close>, \<open>wal/types.go\<close>, \<open>crc.go\<close>, \<open>diskwal.go\<close>,
  \<open>recovery.go\<close>, \<open>recovery_manager.go\<close>): entries with their checksum, segments with synced and unsynced bytes, crashes, replay.
  Interface \<open>durable_log\<close>, which the disk log meets under the every-write policy.

  \<^item> \<open>Page_Manager\<close>, \<open>Page_Layout\<close>, \<open>Page_Entries\<close>, \<open>Page_Contract\<close>, \<open>Page_Copy\<close> (\<open>offheap/page_manager.go\<close>, \<open>lockfree_queue.go\<close>,
  \<open>page_layout.go\<close>, \<open>lob/manager.go\<close>): pages of 4096 bytes, overflow chains, slots and data area. The interfaces \<open>paged_entries\<close> and
  \<open>keyed_entries\<close> are met by leaf and by index pages, so that searching and inserting are proved once.

  \<^item> \<open>Leaf_Page\<close>, \<open>Leaf_Ops\<close>, \<open>Node_Page\<close>, \<open>Node_Ops\<close>, \<open>Page_Merge\<close> (\<open>btree/leaf_page.go\<close>, \<open>node_page.go\<close>, \<open>merge.go\<close>,
  \<open>offheap_storage.go\<close>): the copy-on-write operations refine operations on lists of pairs, of keys and of children.

  \<^item> \<open>BTree_Refs\<close>, \<open>BTree_Split\<close>, \<open>BTree_Merging\<close>, \<open>BTree_Write\<close> (\<open>btree/page_ref.go\<close>, \<open>page_info.go\<close>, \<open>root_ref.go\<close>,
  \<open>children_cache.go\<close>, \<open>search.go\<close>, \<open>operations.go\<close>, \<open>merge_ops.go\<close>, \<open>btree.go\<close>, \<open>set_with_retry.go\<close>, \<open>storage_adapter.go\<close>): the
  operations of the tree. \<open>BTree_Shape\<close> and \<open>BTree_Inv\<close> say which map a heap of references stands for (\<open>stands_for\<close>);
  \<open>BTree_Mutators\<close> gives the closures of a write the interface \<open>leaf_mutator\<close>; \<open>BTree_Update\<close>, \<open>BTree_Grow\<close>, \<open>BTree_Cascade\<close>,
  \<open>BTree_Parent\<close>, \<open>BTree_Leaf_Split\<close> and \<open>BTree_Refine\<close> prove that a write changes the map at its key only, through every split;
  \<open>BTree_Store\<close> and \<open>BTree_Contract\<close> state it for each operation.

  \<^item> \<open>Epoch\<close>, \<open>Epoch_Safety\<close> (\<open>btree/epoch.go\<close>): the epoch manager as functions, and as a step relation \<open>estep\<close> whose steps are the
  single atomic operations of readers, writers and the reclaimer.

  \<^item> \<open>FD_Cache\<close>, \<open>LOB_File_Store\<close> (\<open>lob/file_store.go\<close>, \<open>file_manager.go\<close>, \<open>config.go\<close>): the cache of descriptors with its linked list,
  which refines a recency list, and the files of large values.

  \<^item> \<open>Chunk_Format\<close>, \<open>Chunk_Header\<close>, \<open>Chunk_File\<close>, \<open>Chunk_Store\<close>, \<open>Chunk_Restore\<close>, \<open>Chunk_Compact\<close>
  (\<open>domain/model/chunk_position.go\<close>, \<open>chunk/page_serializer.go\<close>, \<open>chunk_header.go\<close>, \<open>chunk_file.go\<close>, \<open>disk_chunk_manager.go\<close>,
  \<open>chunk_compactor.go\<close>): positions, frames, headers, the manager of the files, reopening and compaction. Interface \<open>page_store\<close>,
  met by the manager (\<open>disk_chunks\<close>), which the checkpoint relies on.

  \<^item> \<open>Checkpoint\<close> (\<open>checkpoint/checkpoint_manager.go\<close>, \<open>persist/persist_checkpoint.go\<close>): fuzzy and sharp checkpoints, and saves.

  \<^item> \<open>Task_Queue\<close>, \<open>Task_Scheduler\<close>, \<open>Task_Registry\<close> (\<open>concurrency/ringbuf.go\<close>, \<open>task_scheduler.go\<close>): the queue, one turn of the
  loop of a core, and what registration and routing build.

  \<^item> \<open>Hybrid_Clock\<close> (\<open>domain/model/hlc.go\<close>, \<open>clock/hlc.go\<close> and the clock service).

  \<^bold>\<open>What is shown.\<close> Transactions: a commit publishes exactly its writes, keeps what older snapshots read as long as one previous
  version is enough, and key locks have one holder in every reachable state. Durability: acknowledged entries and commits survive any
  crash; recovery replays only committed writes, all of them, and may be repeated. Tree: Set, Delete and Get refine a map, with
  splits up to a new root, and a write that has room succeeds. Pages: no page is handed out twice, no page is freed under a
  reader that has its slot to itself. Large values read back through all three tiers. Chunk files: what was written stays readable, also after a
  clean restart; the positions a checkpoint records are readable. Scheduler: the queue refines two lists, nothing leaves a queue
  unexecuted, retries are bounded, the bitmap serves every task in order. The theorems of kind error show where the code breaks what it
  means to keep: shared reader slots, checkpoints that hide commits, compaction that loses positions, batches that drop pairs or
  retries, recycled overflow pages, engine commits that recovery does not replay.

  \<^bold>\<open>Bounds and fuel.\<close> The search loop of the tree has as fuel the number of references, more than the height; under the
  invariant it never runs out. The split cascade tries \<open>MaxParentCASSpins\<close> times, as in the code, and one try is enough when the operation runs alone.
  \<open>headroom\<close> says that the 32-bit counter of pages and the references do not overflow in one write. The walk over the 16 bits of the
  priority bitmap has fuel 16, each step clears a bit. Draining a task has fuel, and the length of its queue is proved to be enough. The
  queue theorem is for fewer than \<open>2^64\<close> operations, where its indices do not wrap. Offsets in chunk files stay below \<open>2^32\<close>, the
  bound \<open>NewDiskChunkManager\<close> checks.

  \<^bold>\<open>Limits.\<close> The refinement of the tree is for operations that run alone and for a tree without an epoch manager; the concurrent
  part of reclamation is \<open>Epoch_Safety\<close>, with one reclaimer at a time, under conditions that are shown or stated to be needed. The contract \<open>kv_backend\<close> is
  interpreted on the storage of the engine's own tests: the adapter of the tree meets it for single writes and reads but not for batches, as
  \<open>BTree_Contract\<close> shows. A crash keeps directory entries; that the code does not sync directories is noted as a finding. Not
  modelled: goroutines, tickers and wake-up signals that call the modelled operations; the executors, page dispatch and compaction of
  leaves; transport, RPC and discovery, which are network I/O over third-party libraries; commands, benchmarks, statistics and traces.
\<close>

end
